(* ===== verification/Prelude.thy ===== *)
theory Prelude
  imports Main "HOL-Library.Word" "HOL-Library.Monad_Syntax"
begin

unbundle bit_operations_syntax

text \<open>
  Shared vocabulary of the development: the machine types of the kernel, its error codes,
  the halting monad in which every kernel operation is written, and the generic lemmas on
  lists, list stores and machine words that the component theories use.

  A kernel operation that can fail an \<open>RT_ASSERT\<close>, or that would follow a null pointer, returns
  \<open>'a option\<close>: \<open>None\<close> is "the system stops here" (\<open>rt_assert_handler\<close> never returns).
\<close>

type_synonym u8 = "8 word"
type_synonym u16 = "16 word"
type_synonym u32 = "32 word"

named_theorems stat_simps \<open>thread status bits\<close>
named_theorems store_simps \<open>the list store\<close>
named_theorems kst_defs \<open>small state updates, unfolded in component proofs\<close>

subsection \<open>Error codes (include/klibc/kerrno.h)\<close>

text \<open>
  \<open>rt_err_t\<close> is a signed machine word that only carries small values; it is an \<open>int\<close> here.
  The values are those of the build without a C library.
\<close>

definition RT_EOK :: int where "RT_EOK = 0"
definition RT_ERROR :: int where "RT_ERROR = 1"
definition RT_ETIMEOUT :: int where "RT_ETIMEOUT = 2"
definition RT_EFULL :: int where "RT_EFULL = 3"
definition RT_EEMPTY :: int where "RT_EEMPTY = 4"
definition RT_ENOMEM :: int where "RT_ENOMEM = 5"
definition RT_EBUSY :: int where "RT_EBUSY = 7"
definition RT_EINTR :: int where "RT_EINTR = 9"
definition RT_EINVAL :: int where "RT_EINVAL = 10"
definition RT_ESCHEDLOCKED :: int where "RT_ESCHEDLOCKED = 18"

lemmas err_defs =
  RT_EOK_def RT_ERROR_def RT_ETIMEOUT_def RT_EFULL_def RT_EEMPTY_def RT_ENOMEM_def RT_EBUSY_def RT_EINTR_def RT_EINVAL_def
  RT_ESCHEDLOCKED_def

subsection \<open>Assertions\<close>

definition rt_assert :: "bool \<Rightarrow> unit option" where
  "rt_assert b = (if b then Some () else None)"

lemma rt_assert_True [simp]: "rt_assert True = Some ()"
  by (simp add: rt_assert_def)

lemma rt_assert_Some_iff [simp]: "rt_assert b = Some u \<longleftrightarrow> b"
  by (simp add: rt_assert_def)

lemma rt_assert_bind_Some [simp]:
  "Option.bind (rt_assert b) f = Some r \<longleftrightarrow> b \<and> f () = Some r"
  by (simp add: rt_assert_def)

lemma rt_assert_bind_True: "b \<Longrightarrow> Option.bind (rt_assert b) f = f ()"
  by (simp add: rt_assert_def)

lemma bind_SomeE:
  assumes "Option.bind m f = Some r"
  obtains x where "m = Some x" and "f x = Some r"
  using assms by (cases m) auto

subsection \<open>List stores\<close>

text \<open>
  Every kernel object that can be queued embeds a list node, and the heads of the queues are
  scattered over the kernel: a node is on at most one queue, and \<open>rt_list_remove\<close> takes it off
  whichever queue that is. A list store maps each head to the nodes on its queue; theory
  RtList shows that the pointer operations implement it.
\<close>

type_synonym ('h, 'n) store = "'h \<Rightarrow> 'n list"

definition st_push :: "'h \<Rightarrow> 'n \<Rightarrow> ('h, 'n) store \<Rightarrow> ('h, 'n) store" where
  \<comment> \<open>\<open>rt_list_insert_after(head, node)\<close>\<close>
  "st_push h n ls = ls(h := n # ls h)"

definition st_append :: "'h \<Rightarrow> 'n \<Rightarrow> ('h, 'n) store \<Rightarrow> ('h, 'n) store" where
  \<comment> \<open>\<open>rt_list_insert_before(head, node)\<close>\<close>
  "st_append h n ls = ls(h := ls h @ [n])"

definition st_remove :: "'n \<Rightarrow> ('h, 'n) store \<Rightarrow> ('h, 'n) store" where
  \<comment> \<open>\<open>rt_list_remove(node)\<close>\<close>
  "st_remove n ls = (\<lambda>h. removeAll n (ls h))"

fun ins_before :: "('n \<Rightarrow> bool) \<Rightarrow> 'n \<Rightarrow> 'n list \<Rightarrow> 'n list" where
  \<comment> \<open>walk the queue to the first node that satisfies \<open>P\<close> and insert before it, at the end if there is none\<close>
  "ins_before P n [] = [n]"
| "ins_before P n (x # xs) = (if P x then n # x # xs else x # ins_before P n xs)"

definition store_ok :: "('h, 'n) store \<Rightarrow> bool" where
  "store_ok ls \<longleftrightarrow> (\<forall>h. distinct (ls h)) \<and>
     (\<forall>h h' n. n \<in> set (ls h) \<longrightarrow> n \<in> set (ls h') \<longrightarrow> h = h')"

definition unlinked :: "'n \<Rightarrow> ('h, 'n) store \<Rightarrow> bool" where
  "unlinked n ls \<longleftrightarrow> (\<forall>h. n \<notin> set (ls h))"

lemma set_ins_before [simp]: "set (ins_before P n xs) = insert n (set xs)"
  by (induction xs) auto

lemma distinct_ins_before [simp]:
  "distinct (ins_before P n xs) \<longleftrightarrow> n \<notin> set xs \<and> distinct xs"
  by (induction xs) auto

lemma ins_before_not_Nil [simp]: "ins_before P n xs \<noteq> []"
  by (cases xs) auto

lemma ins_before_split:
  "ins_before P n xs = takeWhile (\<lambda>x. \<not> P x) xs @ n # dropWhile (\<lambda>x. \<not> P x) xs"
  by (induction xs) auto

lemma removeAll_ins_before: "n \<notin> set xs \<Longrightarrow> removeAll n (ins_before P n xs) = xs"
  by (induction xs) auto

lemma st_push_same [simp, store_simps]: "st_push h n ls h = n # ls h"
  by (simp add: st_push_def)

lemma st_push_other [simp, store_simps]: "h' \<noteq> h \<Longrightarrow> st_push h n ls h' = ls h'"
  by (simp add: st_push_def)

lemma st_append_same [simp, store_simps]: "st_append h n ls h = ls h @ [n]"
  by (simp add: st_append_def)

lemma st_append_other [simp, store_simps]: "h' \<noteq> h \<Longrightarrow> st_append h n ls h' = ls h'"
  by (simp add: st_append_def)

lemma st_remove_apply [simp, store_simps]: "st_remove n ls h = removeAll n (ls h)"
  by (simp add: st_remove_def)

lemma store_okD:
  assumes "store_ok ls"
  shows "distinct (ls h)" and "n \<in> set (ls h) \<Longrightarrow> n \<in> set (ls h') \<Longrightarrow> h = h'"
  using assms by (auto simp: store_ok_def)

lemma unlinkedD [dest]: "unlinked n ls \<Longrightarrow> n \<notin> set (ls h)"
  by (simp add: unlinked_def)

lemma unlinked_remove [simp, intro]: "unlinked n (st_remove n ls)"
  by (simp add: unlinked_def)

lemma st_remove_unlinked: "unlinked n ls \<Longrightarrow> st_remove n ls = ls"
  by (rule ext) (auto simp: unlinked_def)

lemma store_ok_remove [intro]: "store_ok ls \<Longrightarrow> store_ok (st_remove n ls)"
  by (auto simp: store_ok_def distinct_removeAll)

lemma store_ok_upd_insert:
  assumes "store_ok ls" and "unlinked n ls"
    and "set xs = insert n (set (ls h))" and "distinct xs"
  shows "store_ok (ls(h := xs))"
  using assms by (auto simp: store_ok_def unlinked_def)

lemma store_ok_push [intro]: "store_ok ls \<Longrightarrow> unlinked n ls \<Longrightarrow> store_ok (st_push h n ls)"
  unfolding st_push_def by (rule store_ok_upd_insert) (auto simp: store_okD)

lemma store_ok_append [intro]: "store_ok ls \<Longrightarrow> unlinked n ls \<Longrightarrow> store_ok (st_append h n ls)"
  unfolding st_append_def by (rule store_ok_upd_insert) (auto simp: store_okD)

lemma store_ok_ins_before [intro]:
  "store_ok ls \<Longrightarrow> unlinked n ls \<Longrightarrow> store_ok (ls(h := ins_before P n (ls h)))"
  by (rule store_ok_upd_insert) (auto simp: store_okD)

subsection \<open>Words\<close>

lemma bit_mask_iff: "p < 32 \<Longrightarrow> q < 32 \<Longrightarrow> bit (push_bit p 1 :: u32) q \<longleftrightarrow> p = q"
  by (auto simp: bit_simps)

lemma word32_eq_0_iff: "(w :: u32) = 0 \<longleftrightarrow> (\<forall>p<32. \<not> bit w p)"
  by (auto simp: bit_eq_iff)

lemma AND_7_idem: "((v OR (x AND NOT 7)) AND 7) = ((v :: u8) AND 7)"
  by (auto simp: bit_eq_iff bit_simps)

end
