(* ===== verification/RtList.thy ===== *)
theory RtList
  imports Prelude
begin

text \<open>
  The intrusive lists of rt-thread/include/rtservice.h: \<open>rt_list_t\<close> (circular, doubly linked)
  and \<open>rt_slist_t\<close> (singly linked), as operations on a heap of nodes.

  The first part gives the operations statement by statement and shows what they do to a
  well-formed ring. The second part relates a heap that holds many rings to a list store
  (theory Prelude): the store operations that the kernel model uses are what the
  pointer operations compute, which is stated as the locale \<open>node_lists\<close> and its interpretation.
\<close>

subsection \<open>\<open>rt_list_t\<close>: the operations\<close>

record 'a rt_heap =
  next_of :: "'a \<Rightarrow> 'a"
  prev_of :: "'a \<Rightarrow> 'a"

definition set_next :: "'a \<Rightarrow> 'a \<Rightarrow> 'a rt_heap \<Rightarrow> 'a rt_heap" where
  "set_next x y h = h\<lparr>next_of := (next_of h)(x := y)\<rparr>"

definition set_prev :: "'a \<Rightarrow> 'a \<Rightarrow> 'a rt_heap \<Rightarrow> 'a rt_heap" where
  "set_prev x y h = h\<lparr>prev_of := (prev_of h)(x := y)\<rparr>"

definition rt_list_init :: "'a \<Rightarrow> 'a rt_heap \<Rightarrow> 'a rt_heap" where
  "rt_list_init l h = set_prev l l (set_next l l h)"

definition rt_list_insert_after :: "'a \<Rightarrow> 'a \<Rightarrow> 'a rt_heap \<Rightarrow> 'a rt_heap" where
  "rt_list_insert_after l n h =
     (let h = set_prev (next_of h l) n h;
          h = set_next n (next_of h l) h;
          h = set_next l n h;
          h = set_prev n l h
      in h)"

definition rt_list_insert_before :: "'a \<Rightarrow> 'a \<Rightarrow> 'a rt_heap \<Rightarrow> 'a rt_heap" where
  "rt_list_insert_before l n h =
     (let h = set_next (prev_of h l) n h;
          h = set_prev n (prev_of h l) h;
          h = set_prev l n h;
          h = set_next n l h
      in h)"

definition rt_list_remove :: "'a \<Rightarrow> 'a rt_heap \<Rightarrow> 'a rt_heap" where
  "rt_list_remove n h =
     (let h = set_prev (next_of h n) (prev_of h n) h;
          h = set_next (prev_of h n) (next_of h n) h;
          h = set_prev n n h;
          h = set_next n (prev_of h n) h
      in h)"

definition rt_list_isempty :: "'a \<Rightarrow> 'a rt_heap \<Rightarrow> bool" where
  "rt_list_isempty l h \<longleftrightarrow> next_of h l = l"

text \<open>
  \<open>rt_list_len\<close> loops until it meets the head again; on a heap that is not a ring it does not
  return, which is \<open>None\<close>.
\<close>

partial_function (option) rt_list_len_from :: "'a rt_heap \<Rightarrow> 'a \<Rightarrow> 'a \<Rightarrow> u32 \<Rightarrow> u32 option" where
  "rt_list_len_from h l p len =
     (if next_of h p \<noteq> l then rt_list_len_from h l (next_of h p) (len + 1) else Some len)"

definition rt_list_len :: "'a \<Rightarrow> 'a rt_heap \<Rightarrow> u32 option" where
  "rt_list_len l h = rt_list_len_from h l l 0"

lemmas list_op_defs =
  set_next_def set_prev_def rt_list_init_def rt_list_insert_after_def
  rt_list_insert_before_def rt_list_remove_def

subsection \<open>Chains and rings\<close>

fun chain :: "'a rt_heap \<Rightarrow> 'a \<Rightarrow> 'a list \<Rightarrow> 'a \<Rightarrow> bool" where
  "chain h a [] b \<longleftrightarrow> next_of h a = b \<and> prev_of h b = a"
| "chain h a (x # xs) b \<longleftrightarrow> next_of h a = x \<and> prev_of h x = a \<and> chain h x xs b"

definition ring :: "'a rt_heap \<Rightarrow> 'a \<Rightarrow> 'a list \<Rightarrow> bool" where
  "ring h l xs \<longleftrightarrow> distinct (l # xs) \<and> chain h l xs l"

lemma chain_append [simp]:
  "chain h a (xs @ y # ys) b \<longleftrightarrow> chain h a xs y \<and> chain h y ys b"
  by (induction xs arbitrary: a) auto

lemma chain_frame:
  assumes "\<And>x. x \<in> set (a # xs) \<Longrightarrow> next_of h' x = next_of h x"
    and "\<And>x. x \<in> set (b # xs) \<Longrightarrow> prev_of h' x = prev_of h x"
  shows "chain h' a xs b = chain h a xs b"
  using assms by (induction xs arbitrary: a) auto

lemma ring_frame:
  assumes "\<And>x. x \<in> set (l # xs) \<Longrightarrow> next_of h' x = next_of h x \<and> prev_of h' x = prev_of h x"
  shows "ring h' l xs = ring h l xs"
  unfolding ring_def using assms by (subst chain_frame [of l xs h' h l]) auto

lemma ring_unique: "ring h l xs \<Longrightarrow> ring h l ys \<Longrightarrow> xs = ys"
proof -
  have "chain h a xs l \<Longrightarrow> chain h a ys l \<Longrightarrow> l \<notin> set xs \<Longrightarrow> l \<notin> set ys \<Longrightarrow> xs = ys" for a
    by (induction xs arbitrary: a ys; case_tac ys) auto
  then show "ring h l xs \<Longrightarrow> ring h l ys \<Longrightarrow> xs = ys" by (auto simp: ring_def)
qed

lemma ring_init: "ring (rt_list_init l h) l []"
  by (simp add: ring_def list_op_defs)

lemma ring_isempty: "ring h l xs \<Longrightarrow> rt_list_isempty l h \<longleftrightarrow> xs = []"
  by (cases xs) (auto simp: ring_def rt_list_isempty_def)

lemma ring_first: "ring h l (x # xs) \<Longrightarrow> next_of h l = x"
  by (simp add: ring_def)

lemma chain_last: "chain h a xs b \<Longrightarrow> prev_of h b = last (a # xs)"
  by (induction xs arbitrary: a) auto

text \<open>Insertion after any node of a ring, and before any node, the head included.\<close>

lemma insert_after_eq:
  "rt_list_insert_after l n h =
     h\<lparr>prev_of := (prev_of h)(next_of h l := n, n := l),
       next_of := (next_of h)(n := next_of h l, l := n)\<rparr>"
  if "n \<noteq> l"
  using that by (auto simp: list_op_defs Let_def fun_eq_iff)

lemma insert_before_eq:
  "rt_list_insert_before l n h =
     h\<lparr>next_of := (next_of h)(prev_of h l := n, n := l),
       prev_of := (prev_of h)(n := prev_of h l, l := n)\<rparr>"
  if "n \<noteq> l"
  using that by (auto simp: list_op_defs Let_def fun_eq_iff)

lemma ring_rotate: "ring h l (xs @ y # ys) \<longleftrightarrow> ring h y (ys @ l # xs)"
  by (auto simp: ring_def)

lemma ring_insert_after_head:
  assumes "ring h l xs" and "n \<notin> set (l # xs)"
  shows "ring (rt_list_insert_after l n h) l (n # xs)"
proof (cases xs)
  case Nil
  with assms show ?thesis by (auto simp: ring_def insert_after_eq)
next
  case (Cons z zs)
  with assms have "chain (rt_list_insert_after l n h) z zs l \<longleftrightarrow> chain h z zs l"
    by (intro chain_frame) (auto simp: ring_def insert_after_eq)
  with Cons assms show ?thesis by (auto simp: ring_def insert_after_eq)
qed

lemma ring_insert_after_node:
  assumes "ring h l (xs @ y # ys)" and "n \<notin> set (l # xs @ y # ys)"
  shows "ring (rt_list_insert_after y n h) l (xs @ y # n # ys)"
proof -
  from assms have "ring (rt_list_insert_after y n h) y (n # ys @ l # xs)"
    by (intro ring_insert_after_head) (auto simp: ring_rotate)
  then show ?thesis using ring_rotate [of _ l xs y "n # ys"] by simp
qed

lemma insert_before_as_after:
  assumes "next_of h (prev_of h l) = l" and "n \<noteq> l" and "n \<noteq> prev_of h l"
  shows "rt_list_insert_before l n h = rt_list_insert_after (prev_of h l) n h"
  using assms by (auto simp: insert_before_eq insert_after_eq fun_eq_iff)

lemma ring_next_prev: "ring h l xs \<Longrightarrow> next_of h (prev_of h l) = l"
  by (cases xs rule: rev_cases) (auto simp: ring_def)

lemma ring_prev: "ring h l xs \<Longrightarrow> prev_of h l = last (l # xs)"
  by (auto simp: ring_def dest: chain_last)

lemma ring_insert_before_head:
  assumes "ring h l xs" and n: "n \<notin> set (l # xs)"
  shows "ring (rt_list_insert_before l n h) l (xs @ [n])"
proof -
  have eq: "rt_list_insert_before l n h = rt_list_insert_after (prev_of h l) n h"
  proof (rule insert_before_as_after)
    show "next_of h (prev_of h l) = l" using assms(1) by (rule ring_next_prev)
    show "n \<noteq> prev_of h l" using n ring_prev [OF assms(1)] by (auto split: if_splits)
  qed (use n in simp)
  show ?thesis
  proof (cases xs rule: rev_cases)
    case Nil
    with assms show ?thesis
      using ring_insert_after_head [OF assms(1) n] by (simp add: eq ring_prev [OF assms(1)])
  next
    case (snoc us v)
    with assms show ?thesis
      using ring_insert_after_node [of h l us v "[]" n] by (simp add: eq ring_prev [OF assms(1)])
  qed
qed

lemma ring_insert_before_node:
  assumes "ring h l (xs @ y # ys)" and "n \<notin> set (l # xs @ y # ys)"
  shows "ring (rt_list_insert_before y n h) l (xs @ n # y # ys)"
proof -
  from assms have "ring (rt_list_insert_before y n h) y ((ys @ l # xs) @ [n])"
    by (intro ring_insert_before_head) (auto simp: ring_rotate)
  then show ?thesis using ring_rotate [of _ l "xs @ [n]" y ys] by simp
qed

lemma remove_eq:
  "next_of h n \<noteq> n \<Longrightarrow> prev_of h n \<noteq> n \<Longrightarrow>
   rt_list_remove n h =
     h\<lparr>prev_of := (prev_of h)(next_of h n := prev_of h n, n := n),
       next_of := (next_of h)(prev_of h n := next_of h n, n := n)\<rparr>"
  by (auto simp: list_op_defs Let_def fun_eq_iff)

lemma remove_detached: "next_of h n = n \<Longrightarrow> prev_of h n = n \<Longrightarrow> rt_list_remove n h = h"
  by (auto simp: list_op_defs Let_def intro!: rt_heap.equality)

lemma ring_remove_head:
  assumes "ring h n (w # ws)"
  shows "ring (rt_list_remove n h) w ws" and "ring (rt_list_remove n h) n []"
proof -
  have ne: "next_of h n \<noteq> n" "prev_of h n \<noteq> n"
    using assms ring_prev [OF assms] by (auto simp: ring_def split: if_splits)
  show "ring (rt_list_remove n h) n []"
    using ne by (simp add: remove_eq ring_def)
  show "ring (rt_list_remove n h) w ws"
  proof (cases ws rule: rev_cases)
    case Nil
    with assms ne show ?thesis by (auto simp: ring_def remove_eq)
  next
    case (snoc us v)
    with assms ne have "chain (rt_list_remove n h) w us v \<longleftrightarrow> chain h w us v"
      by (intro chain_frame) (auto simp: ring_def remove_eq)
    with snoc assms ne show ?thesis by (auto simp: ring_def remove_eq)
  qed
qed

lemma ring_remove_node:
  assumes "ring h l (xs @ n # ys)"
  shows "ring (rt_list_remove n h) l (xs @ ys)" and "ring (rt_list_remove n h) n []"
proof -
  from assms have r: "ring h n (ys @ l # xs)" by (simp add: ring_rotate)
  obtain w ws where w: "ys @ l # xs = w # ws" by (cases "ys @ l # xs") auto
  show "ring (rt_list_remove n h) n []" using r w ring_remove_head(2) by metis
  have "ring (rt_list_remove n h) w ws" using r w ring_remove_head(1) by metis
  then show "ring (rt_list_remove n h) l (xs @ ys)"
    using w by (cases ys) (auto simp: ring_rotate)
qed

subsection \<open>Length\<close>

lemma rt_list_len_from_chain:
  assumes "chain h p xs l" and "l \<notin> set xs"
  shows "rt_list_len_from h l p n = Some (n + of_nat (length xs))"
  using assms
proof (induction xs arbitrary: p n)
  case Nil
  then show ?case by (simp add: rt_list_len_from.simps)
next
  case (Cons x xs)
  then show ?case by (subst rt_list_len_from.simps) (auto simp: add.assoc add.commute)
qed

lemma rt_list_len_ring: "ring h l xs \<Longrightarrow> rt_list_len l h = Some (of_nat (length xs))"
  by (auto simp: ring_def rt_list_len_def rt_list_len_from_chain)

subsection \<open>A heap of rings and the list store\<close>

definition heap_rep :: "'a set \<Rightarrow> 'a rt_heap \<Rightarrow> ('a, 'a) store \<Rightarrow> bool" where
  \<comment> \<open>\<open>Hs\<close> is the set of list heads; every other node is on one ring or linked to itself\<close>
  "heap_rep Hs h ls \<longleftrightarrow> store_ok ls \<and>
     (\<forall>l\<in>Hs. ring h l (ls l)) \<and> (\<forall>l. l \<notin> Hs \<longrightarrow> ls l = []) \<and>
     (\<forall>n\<in>Hs. unlinked n ls) \<and>
     (\<forall>n. n \<notin> Hs \<longrightarrow> unlinked n ls \<longrightarrow> next_of h n = n \<and> prev_of h n = n)"

lemma heap_repD:
  assumes "heap_rep Hs h ls"
  shows "store_ok ls" and "l \<in> Hs \<Longrightarrow> ring h l (ls l)" and "l \<notin> Hs \<Longrightarrow> ls l = []"
    and "n \<in> Hs \<Longrightarrow> unlinked n ls"
    and "n \<notin> Hs \<Longrightarrow> unlinked n ls \<Longrightarrow> next_of h n = n \<and> prev_of h n = n"
  using assms by (auto simp: heap_rep_def)

lemma insert_after_frame:
  "x \<notin> {l, n, next_of h l} \<Longrightarrow> n \<noteq> l \<Longrightarrow>
     next_of (rt_list_insert_after l n h) x = next_of h x \<and>
     prev_of (rt_list_insert_after l n h) x = prev_of h x"
  by (auto simp: insert_after_eq)

lemma insert_before_frame:
  "x \<notin> {l, n, prev_of h l} \<Longrightarrow> n \<noteq> l \<Longrightarrow>
     next_of (rt_list_insert_before l n h) x = next_of h x \<and>
     prev_of (rt_list_insert_before l n h) x = prev_of h x"
  by (auto simp: insert_before_eq)

lemma remove_frame:
  "x \<notin> {n, next_of h n, prev_of h n} \<Longrightarrow>
     next_of (rt_list_remove n h) x = next_of h x \<and>
     prev_of (rt_list_remove n h) x = prev_of h x"
  by (auto simp: list_op_defs Let_def)

lemma ring_neighbours:
  assumes "ring h l xs" and "y \<in> set (l # xs)"
  shows "next_of h y \<in> set (l # xs)" and "prev_of h y \<in> set (l # xs)"
proof -
  obtain vs where r: "ring h y vs" and vs: "set (y # vs) = set (l # xs)"
  proof (cases "y = l")
    case True
    with assms that show ?thesis by blast
  next
    case False
    with assms obtain us ws where w: "xs = us @ y # ws" by (auto dest: split_list)
    with assms(1) have "ring h y (ws @ l # us)" by (simp add: ring_rotate)
    moreover from w have "set (y # ws @ l # us) = set (l # xs)" by auto
    ultimately show ?thesis by (rule that)
  qed
  have "next_of h y \<in> set (y # vs)"
    using r by (cases vs) (simp_all add: ring_def)
  then show "next_of h y \<in> set (l # xs)" by (simp only: vs)
  have "prev_of h y \<in> set (y # vs)"
    unfolding ring_prev [OF r] by (rule last_in_set) simp
  then show "prev_of h y \<in> set (l # xs)" by (simp only: vs)
qed

text \<open>One ring changes, the others keep their nodes and links.\<close>

lemma heap_rep_update:
  assumes rep: "heap_rep Hs h ls" and l: "l \<in> Hs" and n: "n \<notin> Hs" "unlinked n ls"
    and r: "ring h' l xs" and xs: "set xs = insert n (set (ls l))"
    and frame: "\<And>x. x \<notin> set (l # ls l) \<Longrightarrow> x \<noteq> n \<Longrightarrow> next_of h' x = next_of h x \<and> prev_of h' x = prev_of h x"
  shows "heap_rep Hs h' (ls(l := xs))"
  unfolding heap_rep_def
proof (intro conjI allI ballI impI)
  have d: "distinct xs" using r by (simp add: ring_def)
  show "store_ok (ls(l := xs))"
    using heap_repD(1) [OF rep] n(2) xs d by (rule store_ok_upd_insert)
  fix l' assume l': "l' \<in> Hs"
  show "unlinked l' (ls(l := xs))"
    using heap_repD(4) [OF rep l'] xs n(1) l' by (auto simp: unlinked_def)
  show "ring h' l' ((ls(l := xs)) l')"
  proof (cases "l' = l")
    case True
    with r show ?thesis by simp
  next
    case False
    have "x \<notin> set (l # ls l) \<and> x \<noteq> n" if "x \<in> set (l' # ls l')" for x
      using that False heap_repD(1,4) [OF rep] n l l' by (auto simp: store_ok_def)
    then have "ring h' l' (ls l') = ring h l' (ls l')"
      by (intro ring_frame frame) auto
    with False heap_repD(2) [OF rep l'] show ?thesis by simp
  qed
next
  fix l' assume "l' \<notin> Hs"
  with l heap_repD(3) [OF rep] show "(ls(l := xs)) l' = []" by auto
next
  fix m assume m: "m \<notin> Hs" "unlinked m (ls(l := xs))"
  then have "m \<notin> set xs" by (metis fun_upd_same unlinkedD)
  with m xs l have "m \<notin> set (l # ls l)" "m \<noteq> n" by auto
  moreover from m have "unlinked m ls"
    using \<open>m \<notin> set xs\<close> xs by (auto simp: unlinked_def split: if_splits)
  ultimately show "next_of h' m = m" and "prev_of h' m = m"
    using frame [of m] heap_repD(5) [OF rep] m by auto
qed

lemma heap_rep_push:
  assumes "heap_rep Hs h ls" and "l \<in> Hs" and "n \<notin> Hs" and "unlinked n ls"
  shows "heap_rep Hs (rt_list_insert_after l n h) (st_push l n ls)"
  unfolding st_push_def
proof (rule heap_rep_update [OF assms])
  have ne: "n \<notin> set (l # ls l)" using assms by auto
  show "ring (rt_list_insert_after l n h) l (n # ls l)"
    using heap_repD(2) [OF assms(1,2)] ne by (rule ring_insert_after_head)
  fix x assume "x \<notin> set (l # ls l)" and "x \<noteq> n"
  then show "next_of (rt_list_insert_after l n h) x = next_of h x \<and>
      prev_of (rt_list_insert_after l n h) x = prev_of h x"
    using ring_neighbours(1) [OF heap_repD(2) [OF assms(1,2)], of l] ne
    by (intro insert_after_frame) auto
qed simp

lemma heap_rep_append:
  assumes "heap_rep Hs h ls" and "l \<in> Hs" and "n \<notin> Hs" and "unlinked n ls"
  shows "heap_rep Hs (rt_list_insert_before l n h) (st_append l n ls)"
  unfolding st_append_def
proof (rule heap_rep_update [OF assms])
  have ne: "n \<notin> set (l # ls l)" using assms by auto
  show "ring (rt_list_insert_before l n h) l (ls l @ [n])"
    using heap_repD(2) [OF assms(1,2)] ne by (rule ring_insert_before_head)
  fix x assume "x \<notin> set (l # ls l)" and "x \<noteq> n"
  then show "next_of (rt_list_insert_before l n h) x = next_of h x \<and>
      prev_of (rt_list_insert_before l n h) x = prev_of h x"
    using ring_neighbours(2) [OF heap_repD(2) [OF assms(1,2)], of l] ne
    by (intro insert_before_frame) auto
qed simp

lemma heap_rep_insert_before_node:
  assumes "heap_rep Hs h ls" and "l \<in> Hs" and "n \<notin> Hs" and "unlinked n ls"
    and y: "ls l = xs @ y # ys"
  shows "heap_rep Hs (rt_list_insert_before y n h) (ls(l := xs @ n # y # ys))"
proof (rule heap_rep_update [OF assms(1-4)])
  have ne: "n \<notin> set (l # xs @ y # ys)" using assms by (metis set_ConsD unlinkedD)
  have r: "ring h l (xs @ y # ys)" using heap_repD(2) [OF assms(1,2)] y by simp
  show "ring (rt_list_insert_before y n h) l (xs @ n # y # ys)"
    using r ne by (rule ring_insert_before_node)
  fix x assume "x \<notin> set (l # ls l)" and "x \<noteq> n"
  then show "next_of (rt_list_insert_before y n h) x = next_of h x \<and>
      prev_of (rt_list_insert_before y n h) x = prev_of h x"
    using ring_neighbours(2) [OF r, of y] ne y by (intro insert_before_frame) auto
qed (use y in auto)

lemma remove_upd:
  assumes "store_ok ls" and "n \<in> set (ls l)"
  shows "st_remove n ls = ls(l := removeAll n (ls l))"
proof
  fix h
  show "st_remove n ls h = (ls(l := removeAll n (ls l))) h"
    using assms by (cases "h = l") (auto simp: store_ok_def intro!: removeAll_id)
qed

lemma removeAll_mid: "distinct (xs @ n # ys) \<Longrightarrow> removeAll n (xs @ n # ys) = xs @ ys"
  by auto

lemma heap_rep_remove:
  assumes rep: "heap_rep Hs h ls" and n: "n \<notin> Hs"
  shows "heap_rep Hs (rt_list_remove n h) (st_remove n ls)"
proof (cases "unlinked n ls")
  case True
  with heap_repD(5) [OF rep n True] rep show ?thesis
    by (simp add: remove_detached st_remove_unlinked)
next
  case False
  then obtain l where l: "n \<in> set (ls l)" by (auto simp: unlinked_def)
  have lH: "l \<in> Hs" using l heap_repD(3) [OF rep] by fastforce
  have ok: "store_ok ls" using rep by (rule heap_repD(1))
  have r: "ring h l (ls l)" using rep lH by (rule heap_repD(2))
  obtain xs ys where xs: "ls l = xs @ n # ys" using l by (auto dest: split_list)
  have nb: "next_of h n \<in> set (l # ls l)" "prev_of h n \<in> set (l # ls l)"
    using ring_neighbours [OF r, of n] l by auto
  have fr: "next_of (rt_list_remove n h) x = next_of h x \<and> prev_of (rt_list_remove n h) x = prev_of h x"
    if "x \<notin> set (l # ls l)" for x
    using that nb l by (intro remove_frame) auto
  have rm: "st_remove n ls = ls(l := xs @ ys)"
    using remove_upd [OF ok l] xs store_okD(1) [OF ok, of l] by (simp add: removeAll_mid)
  have r': "ring (rt_list_remove n h) l (xs @ ys)" "ring (rt_list_remove n h) n []"
    using r xs ring_remove_node [of h l xs n ys] by simp_all
  show ?thesis
    unfolding heap_rep_def
  proof (intro conjI allI ballI impI)
    show "store_ok (st_remove n ls)" using ok by (rule store_ok_remove)
    fix l' assume l': "l' \<in> Hs"
    show "unlinked l' (st_remove n ls)"
      using heap_repD(4) [OF rep l'] by (auto simp: unlinked_def)
    show "ring (rt_list_remove n h) l' (st_remove n ls l')"
    proof (cases "l' = l")
      case True
      with r' rm show ?thesis by simp
    next
      case False
      have "x \<notin> set (l # ls l)" if "x \<in> set (l' # ls l')" for x
        using that False ok l' lH heap_repD(4) [OF rep] by (auto simp: store_ok_def)
      then have "ring (rt_list_remove n h) l' (ls l') = ring h l' (ls l')"
        by (intro ring_frame fr) auto
      with False rm heap_repD(2) [OF rep l'] show ?thesis by simp
    qed
  next
    fix l' assume "l' \<notin> Hs"
    with heap_repD(3) [OF rep] show "st_remove n ls l' = []" by simp
  next
    fix m assume m: "m \<notin> Hs" "unlinked m (st_remove n ls)"
    show "next_of (rt_list_remove n h) m = m" and "prev_of (rt_list_remove n h) m = m"
    proof (atomize (full), cases "m = n")
      case True
      with r'(2) show "next_of (rt_list_remove n h) m = m \<and> prev_of (rt_list_remove n h) m = m"
        by (simp add: ring_def)
    next
      case False
      with m have u: "unlinked m ls" by (auto simp: unlinked_def)
      then have "m \<notin> set (l # ls l)" using m lH by auto
      with fr heap_repD(5) [OF rep m(1) u]
      show "next_of (rt_list_remove n h) m = m \<and> prev_of (rt_list_remove n h) m = m" by simp
    qed
  qed
qed

subsection \<open>The interface the kernel uses\<close>

text \<open>
  A client of the lists keeps a list store in mind and calls five operations. The laws say
  that the heap follows the store; what a client proves about stores then holds of the heap.
\<close>

locale node_lists =
  fixes rep :: "'heap \<Rightarrow> ('n, 'n) store \<Rightarrow> bool"
    and head :: "'n \<Rightarrow> bool"
    and push :: "'n \<Rightarrow> 'n \<Rightarrow> 'heap \<Rightarrow> 'heap"
    and append :: "'n \<Rightarrow> 'n \<Rightarrow> 'heap \<Rightarrow> 'heap"
    and remove :: "'n \<Rightarrow> 'heap \<Rightarrow> 'heap"
    and isempty :: "'n \<Rightarrow> 'heap \<Rightarrow> bool"
    and first :: "'n \<Rightarrow> 'heap \<Rightarrow> 'n"
  assumes rep_ok: "rep h ls \<Longrightarrow> store_ok ls"
    and rep_head: "rep h ls \<Longrightarrow> head l \<Longrightarrow> unlinked l ls"
    and rep_push: "rep h ls \<Longrightarrow> head l \<Longrightarrow> \<not> head n \<Longrightarrow> unlinked n ls \<Longrightarrow> rep (push l n h) (st_push l n ls)"
    and rep_append: "rep h ls \<Longrightarrow> head l \<Longrightarrow> \<not> head n \<Longrightarrow> unlinked n ls \<Longrightarrow> rep (append l n h) (st_append l n ls)"
    and rep_remove: "rep h ls \<Longrightarrow> \<not> head n \<Longrightarrow> rep (remove n h) (st_remove n ls)"
    and rep_isempty: "rep h ls \<Longrightarrow> head l \<Longrightarrow> isempty l h \<longleftrightarrow> ls l = []"
    and rep_first: "rep h ls \<Longrightarrow> head l \<Longrightarrow> ls l \<noteq> [] \<Longrightarrow> first l h = List.hd (ls l)"
begin

text \<open>Taking a node off its queue and appending it to another one, as a wake-up does.\<close>

lemma rep_move:
  assumes "rep h ls" and "head l" and "\<not> head n"
  shows "rep (append l n (remove n h)) (st_append l n (st_remove n ls))"
  using assms by (intro rep_append rep_remove) auto

lemma rep_append_all:
  assumes "rep h ls" and "head l" and "distinct ns"
    and "\<And>n. n \<in> set ns \<Longrightarrow> \<not> head n \<and> unlinked n ls"
  shows "rep (fold (append l) ns h) (ls(l := ls l @ ns))"
  using assms
proof (induction ns arbitrary: h ls)
  case Nil
  then show ?case by simp
next
  case (Cons n ns)
  have "rep (append l n h) (st_append l n ls)" using Cons.prems by (intro rep_append) auto
  moreover have "unlinked m (st_append l n ls)" if "m \<in> set ns" for m
    using Cons.prems(3,4) that by (auto simp: unlinked_def st_append_def)
  ultimately have "rep (fold (append l) ns (append l n h)) ((st_append l n ls)(l := st_append l n ls l @ ns))"
    using Cons.prems by (intro Cons.IH) auto
  then show ?case by (simp add: st_append_def fun_upd_def cong: if_cong)
qed

text \<open>First in, first out: nodes appended to an empty queue leave it in the same order.\<close>

fun take_first :: "nat \<Rightarrow> 'n \<Rightarrow> 'heap \<Rightarrow> 'n list" where
  "take_first 0 l h = []"
| "take_first (Suc k) l h =
     (if isempty l h then [] else first l h # take_first k l (remove (first l h) h))"

lemma take_first_rep:
  assumes "rep h ls" and "head l"
  shows "take_first k l h = take k (ls l)"
  using assms(1)
proof (induction k arbitrary: h ls)
  case 0
  then show ?case by simp
next
  case (Suc k)
  show ?case
  proof (cases "ls l")
    case Nil
    then show ?thesis using Suc.prems assms(2) by (simp add: rep_isempty)
  next
    case (Cons x xs)
    then have nh: "\<not> head x" using rep_head [OF Suc.prems, of x] by (metis list.set_intros(1) unlinkedD)
    have dx: "distinct (ls l)" using rep_ok [OF Suc.prems] by (rule store_okD)
    have "take_first k l (remove x h) = take k (st_remove x ls l)"
      using Suc.prems nh by (intro Suc.IH rep_remove)
    with Cons dx show ?thesis
      using rep_isempty [OF Suc.prems assms(2)] rep_first [OF Suc.prems assms(2)] by simp
  qed
qed

lemma fifo:
  assumes "rep h ls" and "head l" and "ls l = []" and "distinct ns"
    and "\<And>n. n \<in> set ns \<Longrightarrow> \<not> head n \<and> unlinked n ls"
  shows "take_first (length ns) l (fold (append l) ns h) = ns"
  using take_first_rep [OF rep_append_all [OF assms(1,2,4,5)] assms(2)] assms(3) by simp

end

interpretation rings: node_lists "heap_rep Hs" "\<lambda>l. l \<in> Hs" rt_list_insert_after
  rt_list_insert_before rt_list_remove rt_list_isempty "\<lambda>l h. next_of h l" for Hs
proof (unfold_locales, goal_cases)
  case (7 h ls l)
  then show ?case
    using heap_repD(2) [OF 7(1,2)] by (cases "ls l") (auto simp: ring_first)
qed (auto simp: heap_repD heap_rep_push heap_rep_append heap_rep_remove ring_isempty)

text \<open>
  C34. The pointer operations implement the list store: starting from a heap that holds the
  rings of a store, insertion after a head, insertion before a head and removal yield a heap
  that holds the rings of the updated store, the emptiness test reads it, and the length loop
  returns the length of the ring.
\<close>

theorem rt_list_implements_store:
  assumes "heap_rep Hs h ls" and "l \<in> Hs" and "n \<notin> Hs"
  shows "(unlinked n ls \<longrightarrow>
      heap_rep Hs (rt_list_insert_after l n h) (st_push l n ls) \<and>
      heap_rep Hs (rt_list_insert_before l n h) (st_append l n ls)) \<and>
    heap_rep Hs (rt_list_remove n h) (st_remove n ls) \<and>
    (rt_list_isempty l h \<longleftrightarrow> ls l = []) \<and>
    rt_list_len l h = Some (of_nat (length (ls l)))"
  using assms
  by (simp add: rings.rep_push rings.rep_append rings.rep_remove rings.rep_isempty
      heap_repD(2) rt_list_len_ring)

text \<open>A concrete heap: head 0 with nodes 1 and 2, node 3 detached, everything above linked to itself.\<close>

definition demo_heap :: "nat rt_heap" where
  "demo_heap = \<lparr>next_of = id(0 := 1, 1 := 2, 2 := 0), prev_of = id(0 := 2, 1 := 0, 2 := 1)\<rparr>"

definition demo_store :: "(nat, nat) store" where
  "demo_store = (\<lambda>_. [])(0 := [1, 2])"

lemma demo_rep: "heap_rep {0} demo_heap demo_store"
  by (auto simp: heap_rep_def demo_heap_def demo_store_def store_ok_def ring_def unlinked_def)

theorem rt_list_implements_store_witness:
  "heap_rep {0} (rt_list_insert_before 0 3 demo_heap) (st_append 0 3 demo_store) \<and>
   heap_rep {0} (rt_list_remove 3 demo_heap) demo_store"
proof -
  have u: "unlinked 3 demo_store" by (auto simp: unlinked_def demo_store_def)
  show ?thesis
    using rt_list_implements_store [OF demo_rep, of 0 3] u by (simp add: st_remove_unlinked)
qed

end
