(* ===== verification/KState.thy ===== *)
theory KState
  imports Prelude
begin

text \<open>
  The state of the kernel (rt-thread/include/rtdef.h, rtsched.h and the static variables of
  object.c, scheduler_up.c, timer.c, clock.c and irq.c), as one record. Threads and IPC objects
  are named by numbers; \<open>tcbs s t\<close> is the control block of thread \<open>t\<close>, \<open>sems s i\<close> semaphore \<open>i\<close>,
  and so on. The queues threads can be on (the ready table, the suspend lists of the IPC objects,
  the list of defunct threads) form one list store, because all of them link the same node
  \<open>sched_thread_ctx.thread_list_node\<close>; so do the timer lists and the lists of taken mutexes.
\<close>

subsection \<open>Constants\<close>

definition RT_Object_Class_Null :: u8 where "RT_Object_Class_Null = 0x00"
definition RT_Object_Class_Thread :: u8 where "RT_Object_Class_Thread = 0x01"
definition RT_Object_Class_Semaphore :: u8 where "RT_Object_Class_Semaphore = 0x02"
definition RT_Object_Class_Mutex :: u8 where "RT_Object_Class_Mutex = 0x03"
definition RT_Object_Class_Event :: u8 where "RT_Object_Class_Event = 0x04"
definition RT_Object_Class_MailBox :: u8 where "RT_Object_Class_MailBox = 0x05"
definition RT_Object_Class_MessageQueue :: u8 where "RT_Object_Class_MessageQueue = 0x06"
definition RT_Object_Class_MemPool :: u8 where "RT_Object_Class_MemPool = 0x08"
definition RT_Object_Class_Timer :: u8 where "RT_Object_Class_Timer = 0x0a"
definition RT_Object_Class_Static :: u8 where "RT_Object_Class_Static = 0x80"

lemmas class_defs =
  RT_Object_Class_Null_def RT_Object_Class_Thread_def RT_Object_Class_Semaphore_def
  RT_Object_Class_Mutex_def RT_Object_Class_Event_def RT_Object_Class_MailBox_def
  RT_Object_Class_MessageQueue_def RT_Object_Class_MemPool_def RT_Object_Class_Timer_def
  RT_Object_Class_Static_def

definition RT_THREAD_INIT :: u8 where "RT_THREAD_INIT = 0x00"
definition RT_THREAD_CLOSE :: u8 where "RT_THREAD_CLOSE = 0x01"
definition RT_THREAD_READY :: u8 where "RT_THREAD_READY = 0x02"
definition RT_THREAD_RUNNING :: u8 where "RT_THREAD_RUNNING = 0x03"
definition RT_THREAD_SUSPEND_MASK :: u8 where "RT_THREAD_SUSPEND_MASK = 0x04"
definition RT_THREAD_SUSPEND :: u8 where "RT_THREAD_SUSPEND = 0x04"
definition RT_THREAD_SUSPEND_INTERRUPTIBLE :: u8 where "RT_THREAD_SUSPEND_INTERRUPTIBLE = 0x04"
definition RT_THREAD_SUSPEND_KILLABLE :: u8 where "RT_THREAD_SUSPEND_KILLABLE = 0x06"
definition RT_THREAD_SUSPEND_UNINTERRUPTIBLE :: u8 where "RT_THREAD_SUSPEND_UNINTERRUPTIBLE = 0x07"
definition RT_THREAD_STAT_MASK :: u8 where "RT_THREAD_STAT_MASK = 0x07"
definition RT_THREAD_STAT_YIELD :: u8 where "RT_THREAD_STAT_YIELD = 0x08"

lemmas stat_defs =
  RT_THREAD_INIT_def RT_THREAD_CLOSE_def RT_THREAD_READY_def RT_THREAD_RUNNING_def
  RT_THREAD_SUSPEND_MASK_def RT_THREAD_SUSPEND_def RT_THREAD_SUSPEND_INTERRUPTIBLE_def
  RT_THREAD_SUSPEND_KILLABLE_def RT_THREAD_SUSPEND_UNINTERRUPTIBLE_def
  RT_THREAD_STAT_MASK_def RT_THREAD_STAT_YIELD_def

datatype suspend_flag = RT_INTERRUPTIBLE | RT_KILLABLE | RT_UNINTERRUPTIBLE

definition RT_THREAD_PRIORITY_MAX :: nat where "RT_THREAD_PRIORITY_MAX = 32"

definition RT_IPC_FLAG_FIFO :: u8 where "RT_IPC_FLAG_FIFO = 0x00"
definition RT_IPC_FLAG_PRIO :: u8 where "RT_IPC_FLAG_PRIO = 0x01"

definition RT_TIMER_FLAG_ACTIVATED :: u8 where "RT_TIMER_FLAG_ACTIVATED = 0x1"
definition RT_TIMER_FLAG_PERIODIC :: u8 where "RT_TIMER_FLAG_PERIODIC = 0x2"
definition RT_TIMER_FLAG_SOFT_TIMER :: u8 where "RT_TIMER_FLAG_SOFT_TIMER = 0x4"
definition RT_TIMER_FLAG_THREAD_TIMER :: u8 where "RT_TIMER_FLAG_THREAD_TIMER = 0x8"

definition RT_TICK_MAX :: u32 where "RT_TICK_MAX = 0xffffffff"

subsection \<open>Objects, threads, timers\<close>

datatype tmid = ThreadTimer nat | UserTimer nat

datatype oref =
    OThread nat | OSem nat | OMutex nat | OEvent nat | OMailbox nat | OMsgQueue nat
  | OMemPool nat | OTimer tmid

record rt_object =
  o_type :: u8
  o_flag :: u8
  o_name :: string

record tcb =
  t_stat :: u8
  t_ttmr_set :: bool
  t_init_tick :: u32
  t_remaining_tick :: u32
  t_current_priority :: u8
  t_init_priority :: u8
  t_number_mask :: u32
  t_error :: int
  t_pending_object :: "oref option"
  t_event_set :: u32
  t_event_info :: u8

datatype timeout_func = Thread_timeout | User_func nat

record rt_timer =
  tm_func :: timeout_func
  tm_parameter :: nat
  tm_init_tick :: u32
  tm_timeout_tick :: u32

datatype suspq =
    SemQ nat | MutexQ nat | EventQ nat | MbRecvQ nat | MbSendQ nat | MqRecvQ nat | MqSendQ nat | MpQ nat | DqPushQ nat | DqPopQ nat

datatype thead = Ready nat | Susp suspq | Defunct

datatype tmhead = HardTimers | SoftTimers | Fired tmhead

subsection \<open>IPC objects and memory pools\<close>

record rt_semaphore =
  sem_value :: u16
  sem_max_value :: u16

record rt_mutex =
  mtx_ceiling_priority :: u8
  mtx_priority :: u8
  mtx_hold :: u8
  mtx_owner :: "nat option"

record rt_event =
  ev_set :: u32

record rt_mailbox =
  mb_msg_pool :: "u32 list"
  mb_size :: u16
  mb_entry :: u16
  mb_in_offset :: u16
  mb_out_offset :: u16

record mq_message =
  msg_next :: "nat option"
  msg_length :: nat
  msg_data :: "u8 list"

record rt_messagequeue =
  mq_msgs :: "nat \<Rightarrow> mq_message"
  mq_msg_size :: u16
  mq_max_msgs :: u16
  mq_entry :: u16
  mq_head :: "nat option"
  mq_tail :: "nat option"
  mq_free :: "nat option"

datatype mp_cell = Next "nat option" | Pool nat

record rt_mempool =
  mp_cells :: "nat \<Rightarrow> mp_cell"
  mp_block_size :: u32
  mp_block_list :: "nat option"
  mp_total_count :: u32
  mp_free_count :: u32

subsection \<open>The kernel state\<close>

record kst =
  objs :: "oref \<Rightarrow> rt_object"
  containers :: "(u8, oref) store"
  tcbs :: "nat \<Rightarrow> tcb"
  tlists :: "(thead, nat) store"
  takens :: "(nat, nat) store"
  ready_group :: u32
  lock_nest :: int
  crit_flag :: bool
  cur_prio :: u8
  current :: "nat option"
  irq_nest :: int
  tick :: u32
  timers :: "tmid \<Rightarrow> rt_timer"
  tmlists :: "(tmhead, tmid) store"
  random_nr :: u32
  g_errno :: int
  sems :: "nat \<Rightarrow> rt_semaphore"
  mutexes :: "nat \<Rightarrow> rt_mutex"
  events :: "nat \<Rightarrow> rt_event"
  mboxes :: "nat \<Rightarrow> rt_mailbox"
  mqueues :: "nat \<Rightarrow> rt_messagequeue"
  mpools :: "nat \<Rightarrow> rt_mempool"

abbreviation upd_tcb :: "nat \<Rightarrow> (tcb \<Rightarrow> tcb) \<Rightarrow> kst \<Rightarrow> kst" where
  "upd_tcb t f s \<equiv> s\<lparr>tcbs := (tcbs s)(t := f (tcbs s t))\<rparr>"

abbreviation upd_tlists :: "((thead, nat) store \<Rightarrow> (thead, nat) store) \<Rightarrow> kst \<Rightarrow> kst" where
  "upd_tlists f s \<equiv> s\<lparr>tlists := f (tlists s)\<rparr>"

abbreviation upd_tmlists :: "((tmhead, tmid) store \<Rightarrow> (tmhead, tmid) store) \<Rightarrow> kst \<Rightarrow> kst" where
  "upd_tmlists f s \<equiv> s\<lparr>tmlists := f (tmlists s)\<rparr>"

abbreviation upd_obj :: "oref \<Rightarrow> (rt_object \<Rightarrow> rt_object) \<Rightarrow> kst \<Rightarrow> kst" where
  "upd_obj r f s \<equiv> s\<lparr>objs := (objs s)(r := f (objs s r))\<rparr>"

abbreviation upd_timer :: "tmid \<Rightarrow> (rt_timer \<Rightarrow> rt_timer) \<Rightarrow> kst \<Rightarrow> kst" where
  "upd_timer t f s \<equiv> s\<lparr>timers := (timers s)(t := f (timers s t))\<rparr>"

abbreviation upd_sem :: "nat \<Rightarrow> (rt_semaphore \<Rightarrow> rt_semaphore) \<Rightarrow> kst \<Rightarrow> kst" where
  "upd_sem i f s \<equiv> s\<lparr>sems := (sems s)(i := f (sems s i))\<rparr>"

abbreviation upd_mutex :: "nat \<Rightarrow> (rt_mutex \<Rightarrow> rt_mutex) \<Rightarrow> kst \<Rightarrow> kst" where
  "upd_mutex i f s \<equiv> s\<lparr>mutexes := (mutexes s)(i := f (mutexes s i))\<rparr>"

abbreviation upd_event :: "nat \<Rightarrow> (rt_event \<Rightarrow> rt_event) \<Rightarrow> kst \<Rightarrow> kst" where
  "upd_event i f s \<equiv> s\<lparr>events := (events s)(i := f (events s i))\<rparr>"

abbreviation upd_mbox :: "nat \<Rightarrow> (rt_mailbox \<Rightarrow> rt_mailbox) \<Rightarrow> kst \<Rightarrow> kst" where
  "upd_mbox i f s \<equiv> s\<lparr>mboxes := (mboxes s)(i := f (mboxes s i))\<rparr>"

abbreviation upd_mqueue :: "nat \<Rightarrow> (rt_messagequeue \<Rightarrow> rt_messagequeue) \<Rightarrow> kst \<Rightarrow> kst" where
  "upd_mqueue i f s \<equiv> s\<lparr>mqueues := (mqueues s)(i := f (mqueues s i))\<rparr>"

abbreviation upd_mpool :: "nat \<Rightarrow> (rt_mempool \<Rightarrow> rt_mempool) \<Rightarrow> kst \<Rightarrow> kst" where
  "upd_mpool i f s \<equiv> s\<lparr>mpools := (mpools s)(i := f (mpools s i))\<rparr>"

subsection \<open>Context checks (rtthread.h) and the interrupt nest (irq.c)\<close>

definition rt_object_get_type :: "oref \<Rightarrow> kst \<Rightarrow> u8" where
  "rt_object_get_type r s = o_type (objs s r) AND NOT RT_Object_Class_Static"

definition rt_object_is_systemobject :: "oref \<Rightarrow> kst \<Rightarrow> bool" where
  "rt_object_is_systemobject r s \<longleftrightarrow> o_type (objs s r) AND RT_Object_Class_Static \<noteq> 0"

definition rt_interrupt_enter :: "kst \<Rightarrow> kst" where
  "rt_interrupt_enter s = s\<lparr>irq_nest := irq_nest s + 1\<rparr>"

definition rt_interrupt_leave :: "kst \<Rightarrow> kst" where
  "rt_interrupt_leave s = s\<lparr>irq_nest := irq_nest s - 1\<rparr>"

definition debug_not_in_interrupt :: "kst \<Rightarrow> bool" where
  "debug_not_in_interrupt s \<longleftrightarrow> irq_nest s = 0"

definition debug_in_thread_context :: "kst \<Rightarrow> bool" where
  "debug_in_thread_context s \<longleftrightarrow> current s \<noteq> None \<and> debug_not_in_interrupt s"

definition debug_scheduler_available :: "bool \<Rightarrow> kst \<Rightarrow> bool" where
  "debug_scheduler_available need_check s \<longleftrightarrow>
     (need_check \<longrightarrow> lock_nest s = 0 \<and> debug_in_thread_context s)"

definition rt_set_errno :: "int \<Rightarrow> kst \<Rightarrow> kst" where
  "rt_set_errno error s =
     (if irq_nest s \<noteq> 0 then s\<lparr>g_errno := error\<rparr>
      else case current s of
          None \<Rightarrow> s\<lparr>g_errno := error\<rparr>
        | Some t \<Rightarrow> upd_tcb t (\<lambda>b. b\<lparr>t_error := error\<rparr>) s)"

lemmas debug_defs =
  debug_not_in_interrupt_def debug_in_thread_context_def debug_scheduler_available_def

subsection \<open>Status bits\<close>

definition stat_of :: "tcb \<Rightarrow> u8" where
  "stat_of b = t_stat b AND RT_THREAD_STAT_MASK"

definition new_stat :: "u8 \<Rightarrow> tcb \<Rightarrow> tcb" where
  \<comment> \<open>\<open>stat = v | (stat & ~RT_THREAD_STAT_MASK)\<close>\<close>
  "new_stat v b = b\<lparr>t_stat := v OR (t_stat b AND NOT RT_THREAD_STAT_MASK)\<rparr>"

lemma stat_of_new_stat [simp]: "stat_of (new_stat v b) = v AND 7"
  using AND_7_idem [of v "t_stat b"] by (simp add: stat_of_def new_stat_def stat_defs)

lemma new_stat_fields [simp]:
  "t_ttmr_set (new_stat v b) = t_ttmr_set b"
  "t_init_tick (new_stat v b) = t_init_tick b"
  "t_remaining_tick (new_stat v b) = t_remaining_tick b"
  "t_current_priority (new_stat v b) = t_current_priority b"
  "t_init_priority (new_stat v b) = t_init_priority b"
  "t_number_mask (new_stat v b) = t_number_mask b"
  "t_error (new_stat v b) = t_error b"
  "t_pending_object (new_stat v b) = t_pending_object b"
  "t_event_set (new_stat v b) = t_event_set b"
  "t_event_info (new_stat v b) = t_event_info b"
  by (simp_all add: new_stat_def)

lemma stat_of_cong [simp]:
  "stat_of (b\<lparr>t_error := e\<rparr>) = stat_of b"
  "stat_of (b\<lparr>t_ttmr_set := f\<rparr>) = stat_of b"
  "stat_of (b\<lparr>t_remaining_tick := r\<rparr>) = stat_of b"
  "stat_of (b\<lparr>t_pending_object := p\<rparr>) = stat_of b"
  "stat_of (b\<lparr>t_event_set := v\<rparr>) = stat_of b"
  "stat_of (b\<lparr>t_event_info := u\<rparr>) = stat_of b"
  "stat_of (b\<lparr>t_init_priority := p8\<rparr>) = stat_of b"
  "stat_of (b\<lparr>t_current_priority := p8\<rparr>) = stat_of b"
  "stat_of (b\<lparr>t_number_mask := m\<rparr>) = stat_of b"
  by (simp_all add: stat_of_def)

lemma new_stat_yield:
  "t_stat (new_stat v b) AND 8 = (v AND 8) OR (t_stat b AND 8)"
  by (simp add: new_stat_def stat_defs bit.conj_disj_distrib2 and.assoc)

subsection \<open>The state before anything is initialised\<close>

definition blank_tcb :: tcb where
  "blank_tcb = \<lparr>t_stat = 0, t_ttmr_set = False, t_init_tick = 0, t_remaining_tick = 0,
     t_current_priority = 0, t_init_priority = 0, t_number_mask = 0, t_error = 0,
     t_pending_object = None, t_event_set = 0, t_event_info = 0\<rparr>"

definition blank_kst :: kst where
  "blank_kst = \<lparr>
     objs = (\<lambda>_. \<lparr>o_type = 0, o_flag = 0, o_name = []\<rparr>), containers = (\<lambda>_. []),
     tcbs = (\<lambda>_. blank_tcb), tlists = (\<lambda>_. []), takens = (\<lambda>_. []), ready_group = 0,
     lock_nest = 0, crit_flag = False, cur_prio = 31, current = None, irq_nest = 0, tick = 0,
     timers = (\<lambda>_. \<lparr>tm_func = User_func 0, tm_parameter = 0,
                    tm_init_tick = 0, tm_timeout_tick = 0\<rparr>),
     tmlists = (\<lambda>_. []), random_nr = 0, g_errno = 0,
     sems = (\<lambda>_. \<lparr>sem_value = 0, sem_max_value = 0\<rparr>),
     mutexes = (\<lambda>_. \<lparr>mtx_ceiling_priority = 0, mtx_priority = 0, mtx_hold = 0, mtx_owner = None\<rparr>),
     events = (\<lambda>_. \<lparr>ev_set = 0\<rparr>),
     mboxes = (\<lambda>_. \<lparr>mb_msg_pool = [], mb_size = 0, mb_entry = 0, mb_in_offset = 0, mb_out_offset = 0\<rparr>),
     mqueues = (\<lambda>_. \<lparr>mq_msgs = (\<lambda>_. \<lparr>msg_next = None, msg_length = 0, msg_data = []\<rparr>),
                     mq_msg_size = 0, mq_max_msgs = 0, mq_entry = 0,
                     mq_head = None, mq_tail = None, mq_free = None\<rparr>),
     mpools = (\<lambda>_. \<lparr>mp_cells = (\<lambda>_. Next None), mp_block_size = 0, mp_block_list = None,
                    mp_total_count = 0, mp_free_count = 0\<rparr>)\<rparr>"

end
