(* ===== verification/Ffs.thy ===== *)
theory Ffs
  imports Prelude
begin

text \<open>
  Find-first-set (\<open>__rt_ffs\<close> of rt-thread/src/kservice.c), which the scheduler uses to find the
  highest ready priority in its bitmap: the portable version with the 256-entry table. It returns the index of the lowest set bit,
  counted from 1, and 0 for 0; so does the compiler builtin that the Cortex-M4 port uses instead.
\<close>

definition lowest_bit_bitmap :: "int list" where
  "lowest_bit_bitmap =
     [0, 0, 1, 0, 2, 0, 1, 0, 3, 0, 1, 0, 2, 0, 1, 0,
      4, 0, 1, 0, 2, 0, 1, 0, 3, 0, 1, 0, 2, 0, 1, 0,
      5, 0, 1, 0, 2, 0, 1, 0, 3, 0, 1, 0, 2, 0, 1, 0,
      4, 0, 1, 0, 2, 0, 1, 0, 3, 0, 1, 0, 2, 0, 1, 0,
      6, 0, 1, 0, 2, 0, 1, 0, 3, 0, 1, 0, 2, 0, 1, 0,
      4, 0, 1, 0, 2, 0, 1, 0, 3, 0, 1, 0, 2, 0, 1, 0,
      5, 0, 1, 0, 2, 0, 1, 0, 3, 0, 1, 0, 2, 0, 1, 0,
      4, 0, 1, 0, 2, 0, 1, 0, 3, 0, 1, 0, 2, 0, 1, 0,
      7, 0, 1, 0, 2, 0, 1, 0, 3, 0, 1, 0, 2, 0, 1, 0,
      4, 0, 1, 0, 2, 0, 1, 0, 3, 0, 1, 0, 2, 0, 1, 0,
      5, 0, 1, 0, 2, 0, 1, 0, 3, 0, 1, 0, 2, 0, 1, 0,
      4, 0, 1, 0, 2, 0, 1, 0, 3, 0, 1, 0, 2, 0, 1, 0,
      6, 0, 1, 0, 2, 0, 1, 0, 3, 0, 1, 0, 2, 0, 1, 0,
      4, 0, 1, 0, 2, 0, 1, 0, 3, 0, 1, 0, 2, 0, 1, 0,
      5, 0, 1, 0, 2, 0, 1, 0, 3, 0, 1, 0, 2, 0, 1, 0,
      4, 0, 1, 0, 2, 0, 1, 0, 3, 0, 1, 0, 2, 0, 1, 0]"

definition rt_ffs :: "u32 \<Rightarrow> int" where
  "rt_ffs value =
     (if value = 0 then 0
      else if value AND 0xff \<noteq> 0 then
        lowest_bit_bitmap ! unat (value AND 0xff) + 1
      else if value AND 0xff00 \<noteq> 0 then
        lowest_bit_bitmap ! unat (drop_bit 8 (value AND 0xff00)) + 9
      else if value AND 0xff0000 \<noteq> 0 then
        lowest_bit_bitmap ! unat (drop_bit 16 (value AND 0xff0000)) + 17
      else lowest_bit_bitmap ! unat (drop_bit 24 (value AND 0xff000000)) + 25)"

subsection \<open>The lowest set bit\<close>

definition lowest_bit :: "u32 \<Rightarrow> nat \<Rightarrow> bool" where
  "lowest_bit v k \<longleftrightarrow> k < 32 \<and> bit v k \<and> (\<forall>j<k. \<not> bit v j)"

lemma lowest_bit_unique: "lowest_bit v j \<Longrightarrow> lowest_bit v k \<Longrightarrow> j = k"
  by (auto simp: lowest_bit_def) (metis linorder_neqE_nat)

lemma lowest_bit_exists: "v \<noteq> 0 \<Longrightarrow> \<exists>k. lowest_bit v k"
proof -
  assume "v \<noteq> 0"
  then obtain p where p: "p < 32" "bit v p" by (auto simp: word32_eq_0_iff)
  define k where "k = (LEAST j. bit v j)"
  have "bit v k" unfolding k_def using p(2) by (rule LeastI)
  moreover have "\<not> bit v j" if "j < k" for j using that not_less_Least unfolding k_def by blast
  moreover have "k \<le> p" unfolding k_def using p(2) by (rule Least_le)
  ultimately show ?thesis using p(1) unfolding lowest_bit_def by (intro exI [of _ k]) auto
qed

text \<open>Every entry of the table is right; a finite check over the 255 non-zero bytes.\<close>

fun lowest_nat :: "nat \<Rightarrow> nat \<Rightarrow> nat" where
  "lowest_nat 0 n = 0"
| "lowest_nat (Suc f) n = (if odd n then 0 else Suc (lowest_nat f (n div 2)))"

lemma bitmap_lowest: "lowest_bit_bitmap = map (\<lambda>n. if n = 0 then 0 else int (lowest_nat 8 n)) [0..<256]"
  by code_simp

lemma lowest_nat_bit:
  "0 < n \<Longrightarrow> n < 2 ^ f \<Longrightarrow> bit n (lowest_nat f n) \<and> (\<forall>j<lowest_nat f n. \<not> bit n j) \<and> lowest_nat f n < f"
proof (induction f arbitrary: n)
  case 0
  then show ?case by simp
next
  case (Suc f)
  show ?case
  proof (cases "odd n")
    case True
    then show ?thesis by (simp add: bit_0)
  next
    case False
    with Suc.prems have n: "0 < n div 2" "n div 2 < 2 ^ f" by (auto elim!: evenE)
    note IH = Suc.IH [OF n]
    have "\<not> bit n j" if "j < Suc (lowest_nat f (n div 2))" for j
      using that IH False by (cases j) (auto simp: bit_0 bit_Suc)
    with IH False show ?thesis by (simp add: bit_Suc)
  qed
qed

lemma byte_masks:
  "(v :: u32) AND 0xff = take_bit 8 v"
  "drop_bit 8 (v AND 0xff00) = take_bit 8 (drop_bit 8 v)"
  "drop_bit 16 (v AND 0xff0000) = take_bit 8 (drop_bit 16 v)"
  "drop_bit 24 (v AND 0xff000000) = take_bit 8 (drop_bit 24 v)"
proof -
  have m: "(0xff :: u32) = mask 8" "(0xff00 :: u32) = push_bit 8 (mask 8)"
    "(0xff0000 :: u32) = push_bit 16 (mask 8)" "(0xff000000 :: u32) = push_bit 24 (mask 8)"
    by (simp_all add: mask_eq_exp_minus_1)
  show "(v :: u32) AND 0xff = take_bit 8 v"
    unfolding m by (auto simp: bit_eq_iff bit_simps)
  show "drop_bit 8 (v AND 0xff00) = take_bit 8 (drop_bit 8 v)"
    unfolding m by (auto simp: bit_eq_iff bit_simps)
  show "drop_bit 16 (v AND 0xff0000) = take_bit 8 (drop_bit 16 v)"
    unfolding m by (auto simp: bit_eq_iff bit_simps)
  show "drop_bit 24 (v AND 0xff000000) = take_bit 8 (drop_bit 24 v)"
    unfolding m by (auto simp: bit_eq_iff bit_simps)
qed

lemma byte_tests:
  "(v :: u32) AND 0xff00 = 0 \<longleftrightarrow> take_bit 8 (drop_bit 8 v) = 0"
  "(v :: u32) AND 0xff0000 = 0 \<longleftrightarrow> take_bit 8 (drop_bit 16 v) = 0"
proof -
  have m: "(0xff00 :: u32) = push_bit 8 (mask 8)" "(0xff0000 :: u32) = push_bit 16 (mask 8)"
    by (simp_all add: mask_eq_exp_minus_1)
  have "v AND push_bit s (mask 8) = 0 \<longleftrightarrow> take_bit 8 (drop_bit s v) = 0" if s: "s + 8 \<le> 32" for s
  proof -
    have 1: "bit (v AND push_bit s (mask 8)) (s + j) \<longleftrightarrow> bit (take_bit 8 (drop_bit s v)) j" for j
      using s by (auto simp: bit_simps)
    have 2: "\<not> bit (v AND push_bit s (mask 8)) j" if "j < s" for j
      using that by (auto simp: bit_simps)
    show ?thesis
    proof
      assume "v AND push_bit s (mask 8) = 0"
      then show "take_bit 8 (drop_bit s v) = 0"
        unfolding bit_eq_iff [of "take_bit 8 (drop_bit s v)"] using 1 by simp
    next
      assume z: "take_bit 8 (drop_bit s v) = 0"
      show "v AND push_bit s (mask 8) = 0"
      proof (rule bit_eqI)
        fix j
        show "bit (v AND push_bit s (mask 8)) j = bit 0 j"
          using 1 [of "j - s"] 2 [of j] z by (cases "j < s") simp_all
      qed
    qed
  qed
  then show "(v :: u32) AND 0xff00 = 0 \<longleftrightarrow> take_bit 8 (drop_bit 8 v) = 0"
    "(v :: u32) AND 0xff0000 = 0 \<longleftrightarrow> take_bit 8 (drop_bit 16 v) = 0"
    unfolding m by auto
qed

lemma byte_lowest:
  fixes v :: u32
  assumes b: "take_bit 8 (drop_bit s v) \<noteq> 0" and low: "\<And>j. j < s \<Longrightarrow> \<not> bit v j" and s: "s + 8 \<le> 32"
  defines "n \<equiv> unat (take_bit 8 (drop_bit s v))"
  shows "lowest_bit v (s + lowest_nat 8 n)" and "lowest_bit_bitmap ! n = int (lowest_nat 8 n)"
proof -
  have n: "0 < n" using b by (simp add: n_def unat_gt_0)
  have n256: "n < 2 ^ 8" unfolding n_def unsigned_take_bit_eq by (rule take_bit_nat_less_exp)
  show "lowest_bit_bitmap ! n = int (lowest_nat 8 n)"
    using n n256 by (simp add: bitmap_lowest del: lowest_nat.simps upt_Suc)
  have bits: "bit n j \<longleftrightarrow> bit v (s + j)" if "j < 8" for j
    using that s by (auto simp: n_def bit_unsigned_iff bit_simps)
  note L = lowest_nat_bit [OF n n256]
  have "\<not> bit v j" if "j < s + lowest_nat 8 n" for j
  proof (cases "j < s")
    case True
    then show ?thesis by (rule low)
  next
    case False
    then obtain i where "j = s + i" by (metis le_Suc_ex not_le)
    with that L bits [of i] show ?thesis by auto
  qed
  then show "lowest_bit v (s + lowest_nat 8 n)"
    using L bits s by (auto simp: lowest_bit_def)
qed

lemma zero_byte: "take_bit 8 (drop_bit s (v :: u32)) = 0 \<Longrightarrow> s \<le> j \<Longrightarrow> j < s + 8 \<Longrightarrow> \<not> bit v j"
proof
  assume z: "take_bit 8 (drop_bit s v) = 0" and j: "s \<le> j" "j < s + 8" and b: "bit v j"
  have "bit (take_bit 8 (drop_bit s v)) (j - s)" using j b by (auto simp: bit_simps)
  then show False by (simp add: z)
qed

lemma rt_ffs_0 [simp]: "rt_ffs 0 = 0"
  by (simp add: rt_ffs_def)

lemma rt_ffs_lowest: "v \<noteq> 0 \<Longrightarrow> \<exists>k. rt_ffs v = int k + 1 \<and> lowest_bit v k"
proof -
  assume v: "v \<noteq> 0"
  let ?b = "\<lambda>s. take_bit 8 (drop_bit s v)"
  have low: "\<not> bit v j" if "\<And>i. i \<in> I \<Longrightarrow> ?b i = 0" "\<exists>i\<in>I. i \<le> j \<and> j < i + 8" for I j
    using that zero_byte by blast
  consider "?b 0 \<noteq> 0" | "?b 0 = 0" "?b 8 \<noteq> 0" | "?b 0 = 0" "?b 8 = 0" "?b 16 \<noteq> 0"
    | "?b 0 = 0" "?b 8 = 0" "?b 16 = 0" by blast
  then show ?thesis
  proof cases
    case 1
    with byte_lowest [of 0 v] v show ?thesis
      by (auto simp: rt_ffs_def byte_masks byte_tests)
  next
    case 2
    have "\<not> bit v j" if "j < 8" for j using that 2 by (intro zero_byte [of 0]) auto
    then have "rt_ffs v = int (8 + lowest_nat 8 (unat (?b 8))) + 1 \<and> lowest_bit v (8 + lowest_nat 8 (unat (?b 8)))"
      using byte_lowest [of 8 v] 2 v by (simp add: rt_ffs_def byte_masks byte_tests)
    then show ?thesis by blast
  next
    case 3
    have "\<not> bit v j" if "j < 16" for j
      using that 3 zero_byte [of 0 v j] zero_byte [of 8 v j] by (cases "j < 8") auto
    then have "rt_ffs v = int (16 + lowest_nat 8 (unat (?b 16))) + 1 \<and> lowest_bit v (16 + lowest_nat 8 (unat (?b 16)))"
      using byte_lowest [of 16 v] 3 v by (simp add: rt_ffs_def byte_masks byte_tests)
    then show ?thesis by blast
  next
    case 4
    have l: "\<not> bit v j" if "j < 24" for j
      using that 4 zero_byte [of 0 v j] zero_byte [of 8 v j] zero_byte [of 16 v j]
      by (cases "j < 8"; cases "j < 16") auto
    have "?b 24 \<noteq> 0"
    proof
      assume z: "?b 24 = 0"
      obtain p where "p < 32" "bit v p" using v by (auto simp: word32_eq_0_iff)
      with l zero_byte [OF z, of p] show False by (cases "p < 24") auto
    qed
    with l have "rt_ffs v = int (24 + lowest_nat 8 (unat (?b 24))) + 1 \<and> lowest_bit v (24 + lowest_nat 8 (unat (?b 24)))"
      using byte_lowest [of 24 v] 4 v by (simp add: rt_ffs_def byte_masks byte_tests)
    then show ?thesis by blast
  qed
qed

text \<open>
  C35. For a non-zero bitmap, \<open>__rt_ffs\<close> returns one more than the index of its lowest
  set bit, and every way of naming that index agrees; for 0 it returns 0.
\<close>

theorem rt_ffs_correct: "rt_ffs v = (if v = 0 then 0 else int (LEAST k. bit v k) + 1)"
proof (cases "v = 0")
  case True
  then show ?thesis by simp
next
  case False
  then obtain k where k: "rt_ffs v = int k + 1" "lowest_bit v k" using rt_ffs_lowest by blast
  then have "(LEAST j. bit v j) = k"
    by (intro Least_equality) (auto simp: lowest_bit_def not_le [symmetric])
  with k False show ?thesis by simp
qed

end
