(* ===== verification/SchedUp.thy ===== *)
theory SchedUp
  imports KState Ffs
begin

text \<open>
  The uniprocessor scheduler (rt-thread/src/scheduler_up.c) and the spin locks of cpu_up.c.

  The ready table is the part \<open>Ready p\<close> of the list store \<open>tlists\<close>, its bitmap is
  \<open>ready_group\<close>. A context switch is the update of \<open>current\<close>; saving and restoring registers is
  the port's code. Disabling interrupts around the updates is not modelled: every operation is one
  step up to the point where it gives the processor away. The invariant \<open>sched_inv\<close> ties the table,
  the bitmap, the status of every thread and the running thread together, and every operation of
  the scheduler preserves it.
\<close>

subsection \<open>Operations\<close>

definition rt_thread_self :: "kst \<Rightarrow> nat option" where
  "rt_thread_self s = current s"

definition ready_q :: "tcb \<Rightarrow> thead" where
  \<comment> \<open>\<open>&rt_thread_priority_table[current_priority]\<close>\<close>
  "ready_q b = Ready (unat (t_current_priority b))"

definition scheduler_get_highest_priority_thread :: "kst \<Rightarrow> (nat \<times> int) option" where
  "scheduler_get_highest_priority_thread s =
     (let highest_ready_priority = rt_ffs (ready_group s) - 1 in
      if highest_ready_priority < 0 then None
      else case tlists s (Ready (nat highest_ready_priority)) of
          [] \<Rightarrow> None
        | t # _ \<Rightarrow> Some (t, highest_ready_priority))"

definition rt_system_scheduler_init :: "kst \<Rightarrow> kst" where
  "rt_system_scheduler_init s =
     s\<lparr>lock_nest := 0,
       tlists := (\<lambda>h. case h of Ready p \<Rightarrow> if p < RT_THREAD_PRIORITY_MAX then [] else tlists s h
                            | _ \<Rightarrow> tlists s h),
       ready_group := 0\<rparr>"

definition rt_sched_insert_thread :: "nat \<Rightarrow> kst \<Rightarrow> kst" where
  "rt_sched_insert_thread t s =
     (if current s = Some t then upd_tcb t (new_stat RT_THREAD_RUNNING) s
      else
        let s = upd_tcb t (new_stat RT_THREAD_READY) s;
            h = ready_q (tcbs s t);
            s = (if t_stat (tcbs s t) AND RT_THREAD_STAT_YIELD \<noteq> 0
                 then upd_tlists (st_append h t) s
                 else upd_tlists (st_push h t) s)
        in s\<lparr>ready_group := ready_group s OR t_number_mask (tcbs s t)\<rparr>)"

definition rt_sched_remove_thread :: "nat \<Rightarrow> kst \<Rightarrow> kst" where
  "rt_sched_remove_thread t s =
     (let s = upd_tlists (st_remove t) s in
      if tlists s (ready_q (tcbs s t)) = []
      then s\<lparr>ready_group := ready_group s AND NOT (t_number_mask (tcbs s t))\<rparr>
      else s)"

definition yield_pending :: "tcb \<Rightarrow> bool" where
  "yield_pending b \<longleftrightarrow> t_stat b AND RT_THREAD_STAT_YIELD \<noteq> 0"

definition clear_yield :: "tcb \<Rightarrow> tcb" where
  "clear_yield b = b\<lparr>t_stat := t_stat b AND NOT RT_THREAD_STAT_YIELD\<rparr>"

definition rt_system_scheduler_start :: "kst \<Rightarrow> kst option" where
  "rt_system_scheduler_start s = do {
     (to, prio) \<leftarrow> scheduler_get_highest_priority_thread s;
     let s = s\<lparr>current := Some to, crit_flag := False\<rparr>;
     let s = rt_sched_remove_thread to s;
     Some (upd_tcb to (\<lambda>b. b\<lparr>t_stat := RT_THREAD_RUNNING\<rparr>) s)
   }"

definition rt_schedule :: "kst \<Rightarrow> kst option" where
  "rt_schedule s =
     (if lock_nest s = 0 then
        if ready_group s \<noteq> 0 then do {
          (highest, prio) \<leftarrow> scheduler_get_highest_priority_thread s;
          me \<leftarrow> current s;
          let b = tcbs s me;
          let (to, need_insert_from) =
            (if stat_of b = RT_THREAD_RUNNING then
               if uint (t_current_priority b) < prio then (me, False)
               else if uint (t_current_priority b) = prio \<and> \<not> yield_pending b then (me, False)
               else (highest, True)
             else (highest, False));
          if to \<noteq> me then do {
            let s = s\<lparr>cur_prio := word_of_int prio, current := Some to\<rparr>;
            let s = (if need_insert_from then rt_sched_insert_thread me s else s);
            let s = (if yield_pending (tcbs s me) then upd_tcb me clear_yield s else s);
            let s = rt_sched_remove_thread to s;
            Some (upd_tcb to (new_stat RT_THREAD_RUNNING) s)
          } else do {
            let s = rt_sched_remove_thread me s;
            Some (upd_tcb me (new_stat RT_THREAD_RUNNING) s)
          }
        } else Some s
      else Some (s\<lparr>crit_flag := True\<rparr>))"

definition rt_sched_unlock_n_resched :: "kst \<Rightarrow> kst option" where
  "rt_sched_unlock_n_resched s = (if rt_thread_self s \<noteq> None then rt_schedule s else Some s)"

definition rt_sched_thread_startup :: "nat \<Rightarrow> kst \<Rightarrow> kst" where
  "rt_sched_thread_startup t s =
     upd_tcb t (\<lambda>b. b\<lparr>t_number_mask := push_bit (unat (t_current_priority b)) 1,
                      t_stat := RT_THREAD_SUSPEND\<rparr>) s"

definition rt_sched_thread_init_priv :: "nat \<Rightarrow> u32 \<Rightarrow> u8 \<Rightarrow> kst \<Rightarrow> kst option" where
  "rt_sched_thread_init_priv t ticks priority s = do {
     let s = upd_tlists (st_remove t) s;
     rt_assert (unat priority < RT_THREAD_PRIORITY_MAX);
     Some (upd_tcb t (\<lambda>b. b\<lparr>t_init_priority := priority, t_current_priority := priority,
                            t_number_mask := 0, t_init_tick := ticks, t_remaining_tick := ticks\<rparr>) s)
   }"

definition rt_enter_critical :: "kst \<Rightarrow> kst" where
  "rt_enter_critical s = s\<lparr>lock_nest := lock_nest s + 1\<rparr>"

definition rt_exit_critical :: "kst \<Rightarrow> kst option" where
  "rt_exit_critical s =
     (let s = s\<lparr>lock_nest := lock_nest s - 1\<rparr> in
      if lock_nest s \<le> 0 then
        let s = s\<lparr>lock_nest := 0\<rparr> in
        if crit_flag s then rt_schedule (s\<lparr>crit_flag := False\<rparr>) else Some s
      else Some s)"

definition rt_critical_level :: "kst \<Rightarrow> u16" where
  "rt_critical_level s = word_of_int (lock_nest s)"

definition rt_spin_lock :: "kst \<Rightarrow> kst" where
  \<comment> \<open>also \<open>rt_spin_lock_irqsave\<close>\<close>
  "rt_spin_lock s = rt_enter_critical s"

definition rt_spin_unlock :: "kst \<Rightarrow> kst option" where
  \<comment> \<open>also \<open>rt_spin_unlock_irqrestore\<close>\<close>
  "rt_spin_unlock s = rt_exit_critical s"

subsection \<open>The scheduler invariant\<close>

definition susp_stat :: "tcb \<Rightarrow> bool" where
  "susp_stat b \<longleftrightarrow> t_stat b AND RT_THREAD_SUSPEND_MASK = RT_THREAD_SUSPEND_MASK"

definition mask_ok :: "tcb \<Rightarrow> bool" where
  "mask_ok b \<longleftrightarrow> t_number_mask b = 0 \<or> t_number_mask b = push_bit (unat (t_current_priority b)) 1"

definition runnable_ok :: "tcb \<Rightarrow> bool" where
  "runnable_ok b \<longleftrightarrow>
     unat (t_current_priority b) < 32 \<and> t_number_mask b = push_bit (unat (t_current_priority b)) 1"

definition link_ok :: "(thead, nat) store \<Rightarrow> nat \<Rightarrow> tcb \<Rightarrow> bool" where
  \<comment> \<open>thread \<open>t\<close>, with control block \<open>b\<close>, is where its status says, and its bitmap mask is right\<close>
  "link_ok ls t b \<longleftrightarrow>
     (\<forall>p. t \<in> set (ls (Ready p)) \<longleftrightarrow> stat_of b = RT_THREAD_READY \<and> ready_q b = Ready p) \<and>
     (\<forall>q. t \<in> set (ls (Susp q)) \<longrightarrow> susp_stat b) \<and>
     (t \<in> set (ls Defunct) \<longrightarrow> stat_of b = RT_THREAD_CLOSE) \<and>
     mask_ok b \<and>
     (stat_of b = RT_THREAD_READY \<or> stat_of b = RT_THREAD_RUNNING \<or> susp_stat b \<longrightarrow> runnable_ok b)"

definition tinv :: "(thead, nat) store \<Rightarrow> u32 \<Rightarrow> (nat \<Rightarrow> tcb) \<Rightarrow> bool" where
  "tinv ls g T \<longleftrightarrow> store_ok ls \<and> (\<forall>t. link_ok ls t (T t)) \<and> (\<forall>p<32. bit g p \<longleftrightarrow> ls (Ready p) \<noteq> [])"

definition cinv :: "nat option \<Rightarrow> (nat \<Rightarrow> tcb) \<Rightarrow> bool" where
  "cinv c T \<longleftrightarrow>
     (\<forall>t. stat_of (T t) = RT_THREAD_RUNNING \<longrightarrow> c = Some t) \<and>
     (\<forall>t. c = Some t \<longrightarrow> stat_of (T t) \<noteq> RT_THREAD_READY)"

definition sched_inv :: "kst \<Rightarrow> bool" where
  "sched_inv s \<longleftrightarrow> tinv (tlists s) (ready_group s) (tcbs s) \<and> cinv (current s) (tcbs s)"

lemma susp_stat_new_stat [simp]: "susp_stat (new_stat v b) \<longleftrightarrow> v AND 4 = 4"
  by (simp add: susp_stat_def new_stat_def stat_defs bit.conj_disj_distrib2 and.assoc)

lemma susp_stat_stat_of: "susp_stat b \<longleftrightarrow> stat_of b AND 4 = 4"
  by (simp add: susp_stat_def stat_of_def stat_defs and.assoc)

lemma susp_stat_disj:
  "susp_stat b \<Longrightarrow> stat_of b \<noteq> RT_THREAD_READY"
  "susp_stat b \<Longrightarrow> stat_of b \<noteq> RT_THREAD_RUNNING"
  "susp_stat b \<Longrightarrow> stat_of b \<noteq> RT_THREAD_CLOSE"
  "susp_stat b \<Longrightarrow> stat_of b \<noteq> RT_THREAD_INIT"
  unfolding susp_stat_stat_of by (auto simp: stat_defs)

lemma stat_of_clear_yield [simp]: "stat_of (clear_yield b) = stat_of b"
  by (simp add: stat_of_def clear_yield_def stat_defs and.assoc)

lemma clear_yield_fields [simp]:
  "t_ttmr_set (clear_yield b) = t_ttmr_set b"
  "t_current_priority (clear_yield b) = t_current_priority b"
  "t_init_priority (clear_yield b) = t_init_priority b"
  "t_number_mask (clear_yield b) = t_number_mask b"
  "t_error (clear_yield b) = t_error b"
  "t_pending_object (clear_yield b) = t_pending_object b"
  "t_remaining_tick (clear_yield b) = t_remaining_tick b"
  "t_init_tick (clear_yield b) = t_init_tick b"
  by (simp_all add: clear_yield_def)

lemma susp_stat_clear_yield [simp]: "susp_stat (clear_yield b) = susp_stat b"
  by (simp add: susp_stat_stat_of)

definition same_sched :: "tcb \<Rightarrow> tcb \<Rightarrow> bool" where
  \<comment> \<open>the fields of a thread the invariant reads are equal\<close>
  "same_sched b c \<longleftrightarrow> stat_of b = stat_of c \<and> t_current_priority b = t_current_priority c
     \<and> t_number_mask b = t_number_mask c"

lemma same_sched_refl [simp]: "same_sched b b"
  by (simp add: same_sched_def)

lemma link_ok_cong: "same_sched b c \<Longrightarrow> link_ok ls t b = link_ok ls t c"
  by (simp add: link_ok_def same_sched_def susp_stat_stat_of mask_ok_def runnable_ok_def ready_q_def)

lemma tinv_cong: "(\<And>t. same_sched (T t) (T' t)) \<Longrightarrow> tinv ls g T = tinv ls g T'"
  unfolding tinv_def using link_ok_cong by metis

lemma cinv_cong: "(\<And>t. same_sched (T t) (T' t)) \<Longrightarrow> cinv c T = cinv c T'"
  by (simp add: cinv_def same_sched_def)

lemma tinv_upd_same: "same_sched b (T t) \<Longrightarrow> tinv ls g (T(t := b)) = tinv ls g T"
  by (rule tinv_cong) simp

lemma cinv_upd_same: "same_sched b (T t) \<Longrightarrow> cinv c (T(t := b)) = cinv c T"
  by (rule cinv_cong) simp

lemma same_sched_upd [simp]:
  "same_sched (b\<lparr>t_error := e\<rparr>) c = same_sched b c"
  "same_sched (b\<lparr>t_ttmr_set := f\<rparr>) c = same_sched b c"
  "same_sched (b\<lparr>t_remaining_tick := r\<rparr>) c = same_sched b c"
  "same_sched (b\<lparr>t_pending_object := p\<rparr>) c = same_sched b c"
  "same_sched (b\<lparr>t_event_set := v\<rparr>) c = same_sched b c"
  "same_sched (b\<lparr>t_event_info := i\<rparr>) c = same_sched b c"
  "same_sched (b\<lparr>t_init_priority := ip\<rparr>) c = same_sched b c"
  "same_sched (clear_yield b) c = same_sched b c"
  by (simp_all add: same_sched_def)

lemma tinv_irrelevant [simp]:
  "tinv ls g (T(t := (T t)\<lparr>t_error := e\<rparr>)) = tinv ls g T"
  "tinv ls g (T(t := (T t)\<lparr>t_ttmr_set := f\<rparr>)) = tinv ls g T"
  "tinv ls g (T(t := (T t)\<lparr>t_remaining_tick := r\<rparr>)) = tinv ls g T"
  "tinv ls g (T(t := (T t)\<lparr>t_pending_object := p\<rparr>)) = tinv ls g T"
  "tinv ls g (T(t := (T t)\<lparr>t_event_set := v\<rparr>)) = tinv ls g T"
  "tinv ls g (T(t := (T t)\<lparr>t_event_info := i\<rparr>)) = tinv ls g T"
  "tinv ls g (T(t := (T t)\<lparr>t_init_priority := ip\<rparr>)) = tinv ls g T"
  "tinv ls g (T(t := clear_yield (T t))) = tinv ls g T"
  by (simp_all add: tinv_upd_same)

lemma cinv_irrelevant [simp]:
  "cinv c (T(t := (T t)\<lparr>t_error := e\<rparr>)) = cinv c T"
  "cinv c (T(t := (T t)\<lparr>t_ttmr_set := f\<rparr>)) = cinv c T"
  "cinv c (T(t := (T t)\<lparr>t_remaining_tick := r\<rparr>)) = cinv c T"
  "cinv c (T(t := (T t)\<lparr>t_pending_object := p\<rparr>)) = cinv c T"
  "cinv c (T(t := (T t)\<lparr>t_event_set := v\<rparr>)) = cinv c T"
  "cinv c (T(t := (T t)\<lparr>t_event_info := i\<rparr>)) = cinv c T"
  "cinv c (T(t := (T t)\<lparr>t_init_priority := ip\<rparr>)) = cinv c T"
  "cinv c (T(t := clear_yield (T t))) = cinv c T"
  by (simp_all add: cinv_upd_same)

lemma tinvD:
  assumes "tinv ls g T"
  shows "store_ok ls" and "link_ok ls t (T t)"
    and "p < 32 \<Longrightarrow> bit g p \<longleftrightarrow> ls (Ready p) \<noteq> []"
  using assms by (auto simp: tinv_def)

lemma link_okD:
  assumes "link_ok ls t b"
  shows "t \<in> set (ls (Ready p)) \<longleftrightarrow> stat_of b = RT_THREAD_READY \<and> ready_q b = Ready p"
    and "t \<in> set (ls (Susp q)) \<Longrightarrow> susp_stat b"
    and "t \<in> set (ls Defunct) \<Longrightarrow> stat_of b = RT_THREAD_CLOSE"
    and "mask_ok b"
    and "stat_of b = RT_THREAD_READY \<or> stat_of b = RT_THREAD_RUNNING \<or> susp_stat b \<Longrightarrow> runnable_ok b"
  using assms by (auto simp: link_ok_def)

subsection \<open>Taking one thread out and putting it back\<close>

definition tinv_but :: "nat \<Rightarrow> (thead, nat) store \<Rightarrow> u32 \<Rightarrow> (nat \<Rightarrow> tcb) \<Rightarrow> bool" where
  \<comment> \<open>the table invariant of all threads but \<open>t\<close>, which is on no queue\<close>
  "tinv_but t ls g T \<longleftrightarrow>
     store_ok ls \<and> unlinked t ls \<and> (\<forall>u. u \<noteq> t \<longrightarrow> link_ok ls u (T u)) \<and>
     (\<forall>p<32. bit g p \<longleftrightarrow> ls (Ready p) \<noteq> [])"

lemma tinv_but_upd [simp]: "tinv_but t ls g (T(t := b)) = tinv_but t ls g T"
  by (auto simp: tinv_but_def)

lemma unlinked_if_running:
  assumes "link_ok ls t b" and "stat_of b = RT_THREAD_RUNNING"
  shows "unlinked t ls"
  unfolding unlinked_def
proof
  fix h
  show "t \<notin> set (ls h)"
    using assms susp_stat_disj [of b] link_okD [OF assms(1)] by (cases h) (auto simp: stat_defs)
qed

lemma tinv_but_unlinked: "tinv ls g T \<Longrightarrow> unlinked t ls \<Longrightarrow> tinv_but t ls g T"
  by (simp add: tinv_def tinv_but_def)

lemma link_ok_other:
  assumes "\<And>h. u \<in> set (ls' h) \<longleftrightarrow> u \<in> set (ls h)"
  shows "link_ok ls' u b = link_ok ls u b"
  using assms by (simp add: link_ok_def)

lemma clear_bit_iff:
  assumes "p < 32" and "m = 0 \<or> m = push_bit k 1"
  shows "bit ((g :: u32) AND NOT m) p \<longleftrightarrow> bit g p \<and> \<not> (m = push_bit k 1 \<and> p = k)"
  using assms by (cases "k < 32") (auto simp: bit_simps)

lemma set_bit_iff':
  assumes "p < 32" and "k < 32"
  shows "bit ((g :: u32) OR 2 ^ k) p \<longleftrightarrow> bit g p \<or> p = k"
  using assms by (auto simp: bit_simps)

lemma tinv_remove:
  fixes t :: nat
  assumes inv: "tinv ls g T"
  defines "ls' \<equiv> st_remove t ls"
  shows "tinv_but t ls' (if ls' (ready_q (T t)) = [] then g AND NOT (t_number_mask (T t)) else g) T"
proof -
  note L = link_okD [OF tinvD(2) [OF inv]]
  have bits: "bit (if ls' (ready_q (T t)) = [] then g AND NOT (t_number_mask (T t)) else g) p
      \<longleftrightarrow> ls' (Ready p) \<noteq> []" if p: "p < 32" for p
  proof (cases "p = unat (t_current_priority (T t))")
    case True
    have m: "mask_ok (T t)" by (rule L)
    show ?thesis
    proof (cases "t \<in> set (ls (Ready p))")
      case in_p: True
      then have "runnable_ok (T t)" using L by blast
      with p True inv in_p show ?thesis
        by (auto simp: ls'_def ready_q_def runnable_ok_def clear_bit_iff [where k = p] tinvD(3) [OF inv])
    next
      case False
      then have "ls' (Ready p) = ls (Ready p)" by (simp add: ls'_def)
      with p True m inv show ?thesis
        by (auto simp: ready_q_def mask_ok_def clear_bit_iff [where k = p] tinvD(3) [OF inv])
    qed
  next
    case False
    then have "t \<notin> set (ls (Ready p))" using L by (auto simp: ready_q_def)
    then have "ls' (Ready p) = ls (Ready p)" by (simp add: ls'_def)
    with p False L(4) [of t] inv show ?thesis
      by (auto simp: mask_ok_def clear_bit_iff [where k = "unat (t_current_priority (T t))"] tinvD(3) [OF inv])
  qed
  have "link_ok ls' u (T u)" if "u \<noteq> t" for u
    using that tinvD(2) [OF inv, of u] by (subst link_ok_other [of u _ ls]) (auto simp: ls'_def)
  with bits inv show ?thesis
    by (auto simp: tinv_but_def ls'_def intro: tinvD(1))
qed

lemma tinv_dequeue:
  assumes inv: "tinv ls g T" and nr: "stat_of (T t) \<noteq> RT_THREAD_READY"
  shows "tinv_but t (st_remove t ls) g T"
proof -
  have no: "t \<notin> set (ls (Ready p))" for p using link_okD(1) [OF tinvD(2) [OF inv]] nr by blast
  have "link_ok (st_remove t ls) u (T u)" if "u \<noteq> t" for u
    using that tinvD(2) [OF inv, of u] by (subst link_ok_other [of u _ ls]) auto
  with no inv show ?thesis
    by (auto simp: tinv_but_def intro: tinvD(1) dest: tinvD(3))
qed

lemma tinv_but_store_upd:
  assumes but: "tinv_but t ls g T" and xs: "set xs = insert t (set (ls h))" "distinct xs"
  shows "store_ok (ls(h := xs))" and "u \<noteq> t \<Longrightarrow> link_ok (ls(h := xs)) u (T u)"
proof -
  show "store_ok (ls(h := xs))"
    using but xs by (intro store_ok_upd_insert) (auto simp: tinv_but_def)
  show "u \<noteq> t \<Longrightarrow> link_ok (ls(h := xs)) u (T u)"
    using but xs by (subst link_ok_other [of u _ ls]) (auto simp: tinv_but_def)
qed

lemma tinv_insert:
  assumes but: "tinv_but t ls g T" and b: "stat_of b = RT_THREAD_READY" "runnable_ok b"
    and xs: "set xs = insert t (set (ls (ready_q b)))" "distinct xs"
  shows "tinv (ls(ready_q b := xs)) (g OR t_number_mask b) (T(t := b))"
proof -
  note S = tinv_but_store_upd [OF but xs]
  have "unlinked t ls" using but by (simp add: tinv_but_def)
  then have "link_ok (ls(ready_q b := xs)) t b"
    using xs b by (auto simp: link_ok_def ready_q_def mask_ok_def runnable_ok_def)
  with S have "link_ok (ls(ready_q b := xs)) u ((T(t := b)) u)" for u by simp
  moreover have "bit (g OR t_number_mask b) p \<longleftrightarrow> (ls(ready_q b := xs)) (Ready p) \<noteq> []" if "p < 32" for p
    using that b xs but by (auto simp: runnable_ok_def set_bit_iff' ready_q_def tinv_but_def)
  ultimately show ?thesis using S by (simp add: tinv_def)
qed

lemma tinv_park:
  assumes "tinv_but t ls g T" and "stat_of b \<noteq> RT_THREAD_READY" and "mask_ok b"
    and "stat_of b = RT_THREAD_RUNNING \<or> susp_stat b \<Longrightarrow> runnable_ok b"
  shows "tinv ls g (T(t := b))"
  using assms by (auto simp: tinv_def tinv_but_def link_ok_def)

lemma tinv_enqueue:
  assumes but: "tinv_but t ls g T" and b: "susp_stat b" "runnable_ok b"
    and xs: "set xs = insert t (set (ls (Susp q)))" "distinct xs"
  shows "tinv (ls(Susp q := xs)) g (T(t := b))"
proof -
  note S = tinv_but_store_upd [OF but xs]
  have "link_ok (ls(Susp q := xs)) t b"
    using xs b but susp_stat_disj [OF b(1)] by (auto simp: link_ok_def tinv_but_def mask_ok_def runnable_ok_def)
  with S have "link_ok (ls(Susp q := xs)) u ((T(t := b)) u)" for u by simp
  with S but show ?thesis by (simp add: tinv_def tinv_but_def)
qed

lemma tinv_defunct:
  assumes but: "tinv_but t ls g T" and b: "stat_of b = RT_THREAD_CLOSE" "mask_ok b"
    and xs: "set xs = insert t (set (ls Defunct))" "distinct xs"
  shows "tinv (ls(Defunct := xs)) g (T(t := b))"
proof -
  note S = tinv_but_store_upd [OF but xs]
  have "\<not> susp_stat b" using b susp_stat_disj by auto
  then have "link_ok (ls(Defunct := xs)) t b"
    using xs b but by (auto simp: link_ok_def tinv_but_def stat_defs)
  with S have "link_ok (ls(Defunct := xs)) u ((T(t := b)) u)" for u by simp
  with S but show ?thesis by (simp add: tinv_def tinv_but_def)
qed

definition cinv_but :: "nat \<Rightarrow> nat option \<Rightarrow> (nat \<Rightarrow> tcb) \<Rightarrow> bool" where
  "cinv_but t c T \<longleftrightarrow>
     (\<forall>u. u \<noteq> t \<longrightarrow> stat_of (T u) = RT_THREAD_RUNNING \<longrightarrow> c = Some u) \<and>
     (\<forall>u. u \<noteq> t \<longrightarrow> c = Some u \<longrightarrow> stat_of (T u) \<noteq> RT_THREAD_READY)"

definition sched_but :: "nat \<Rightarrow> kst \<Rightarrow> bool" where
  \<comment> \<open>the scheduler invariant of all threads but \<open>t\<close>, which is on no queue\<close>
  "sched_but t s \<longleftrightarrow> tinv_but t (tlists s) (ready_group s) (tcbs s) \<and> cinv_but t (current s) (tcbs s)"

lemma cinv_but_upd [simp]: "cinv_but t c (T(t := b)) = cinv_but t c T"
  by (auto simp: cinv_but_def)

lemma cinv_weaken: "cinv c T \<Longrightarrow> cinv_but t c T"
  by (simp add: cinv_def cinv_but_def)

lemma cinv_close:
  assumes "cinv_but t c T" and "stat_of b = RT_THREAD_RUNNING \<Longrightarrow> c = Some t"
    and "c = Some t \<Longrightarrow> stat_of b \<noteq> RT_THREAD_READY"
  shows "cinv c (T(t := b))"
  using assms by (auto simp: cinv_def cinv_but_def)

lemma runnable_ok_new_stat [simp]:
  "runnable_ok (new_stat v b) = runnable_ok b" "ready_q (new_stat v b) = ready_q b" "mask_ok (new_stat v b) = mask_ok b"
  by (simp_all add: runnable_ok_def ready_q_def mask_ok_def)

lemma runnable_mask_ok: "runnable_ok b \<Longrightarrow> mask_ok b"
  by (simp add: runnable_ok_def mask_ok_def)

subsection \<open>The operations keep the invariant\<close>

abbreviation table_ok :: "kst \<Rightarrow> bool" where
  "table_ok s \<equiv> tinv (tlists s) (ready_group s) (tcbs s)"

abbreviation table_but :: "nat \<Rightarrow> kst \<Rightarrow> bool" where
  "table_but t s \<equiv> tinv_but t (tlists s) (ready_group s) (tcbs s)"

lemma rt_sched_remove_thread_fields [simp]:
  "tcbs (rt_sched_remove_thread t s) = tcbs s"
  "current (rt_sched_remove_thread t s) = current s"
  "tlists (rt_sched_remove_thread t s) = st_remove t (tlists s)"
  by (simp_all add: rt_sched_remove_thread_def Let_def)

lemma rt_sched_insert_thread_fields [simp]:
  "current (rt_sched_insert_thread t s) = current s"
  "tcbs (rt_sched_insert_thread t s) =
     (tcbs s)(t := new_stat (if current s = Some t then RT_THREAD_RUNNING else RT_THREAD_READY) (tcbs s t))"
  by (auto simp: rt_sched_insert_thread_def Let_def)

lemma table_remove: "table_ok s \<Longrightarrow> table_but t (rt_sched_remove_thread t s)"
  using tinv_remove [of "tlists s" "ready_group s" "tcbs s" t]
  by (auto simp: rt_sched_remove_thread_def Let_def)

lemma rt_sched_remove_thread_but:
  "sched_inv s \<Longrightarrow> sched_but t (rt_sched_remove_thread t s)"
  using table_remove [of s t] by (simp add: sched_inv_def sched_but_def cinv_weaken)

lemma table_insert:
  assumes but: "table_but t s" and r: "runnable_ok (tcbs s t)"
  shows "table_ok (rt_sched_insert_thread t s)"
proof (cases "current s = Some t")
  case True
  with assms show ?thesis
    by (auto simp: rt_sched_insert_thread_def stat_defs intro!: tinv_park runnable_mask_ok)
next
  case False
  let ?b = "new_stat RT_THREAD_READY (tcbs s t)" and ?h = "ready_q (tcbs s t)"
  have d: "distinct (tlists s ?h)" "t \<notin> set (tlists s ?h)"
    using but by (auto simp: tinv_but_def store_okD)
  have ins: "tinv ((tlists s)(?h := xs)) (ready_group s OR t_number_mask (tcbs s t)) ((tcbs s)(t := ?b))"
    if "set xs = insert t (set (tlists s ?h))" "distinct xs" for xs
    using tinv_insert [of t "tlists s" "ready_group s" "tcbs s" ?b xs] but r that
    by (simp add: stat_defs)
  show ?thesis
    using False ins [of "t # tlists s ?h"] ins [of "tlists s ?h @ [t]"] d
    by (auto simp: rt_sched_insert_thread_def Let_def st_push_def st_append_def)
qed

lemma rt_sched_insert_thread_inv:
  assumes but: "sched_but t s" and r: "runnable_ok (tcbs s t)"
  shows "sched_inv (rt_sched_insert_thread t s)"
  using but table_insert [OF _ r] unfolding sched_inv_def sched_but_def
  by (auto simp: stat_defs intro!: cinv_close)

lemma table_run:
  assumes "table_but t s" and "runnable_ok (tcbs s t)"
  shows "table_ok (upd_tcb t (new_stat RT_THREAD_RUNNING) s)"
  using assms by (auto simp: stat_defs intro!: tinv_park runnable_mask_ok)

lemma table_upd_same:
  "same_sched b (tcbs s t) \<Longrightarrow> table_ok (upd_tcb t (\<lambda>_. b) s) = table_ok s"
  by (simp add: tinv_upd_same)

definition ready_at :: "kst \<Rightarrow> nat \<Rightarrow> nat \<Rightarrow> bool" where
  "ready_at s t p \<longleftrightarrow> stat_of (tcbs s t) = RT_THREAD_READY \<and> unat (t_current_priority (tcbs s t)) = p"

lemma highest_SomeD:
  assumes "scheduler_get_highest_priority_thread s = Some (t, p)"
  obtains xs where "p \<ge> 0" "p < 32" "p = rt_ffs (ready_group s) - 1" "tlists s (Ready (nat p)) = t # xs"
    "lowest_bit (ready_group s) (nat p)"
proof -
  let ?g = "ready_group s"
  have p: "p = rt_ffs ?g - 1" "p \<ge> 0" and hd: "\<exists>xs. tlists s (Ready (nat p)) = t # xs"
    using assms by (auto simp: scheduler_get_highest_priority_thread_def Let_def split: if_splits list.splits)
  then have "?g \<noteq> 0" by auto
  then obtain k where "rt_ffs ?g = int k + 1" "lowest_bit ?g k" using rt_ffs_lowest by blast
  with p hd that show ?thesis by (auto simp: lowest_bit_def)
qed

lemma highest_ready:
  assumes inv: "table_ok s" and h: "scheduler_get_highest_priority_thread s = Some (t, p)"
  shows "stat_of (tcbs s t) = RT_THREAD_READY" "uint (t_current_priority (tcbs s t)) = p"
    "\<And>u. stat_of (tcbs s u) = RT_THREAD_READY \<Longrightarrow> p \<le> uint (t_current_priority (tcbs s u))"
proof -
  obtain xs where p: "p \<ge> 0" "tlists s (Ready (nat p)) = t # xs" "lowest_bit (ready_group s) (nat p)"
    by (rule highest_SomeD [OF h]) blast
  then have "t \<in> set (tlists s (Ready (nat p)))" by simp
  with p(1) link_okD(1) [OF tinvD(2) [OF inv]]
  show "stat_of (tcbs s t) = RT_THREAD_READY" "uint (t_current_priority (tcbs s t)) = p"
    by (auto simp: ready_q_def uint_nat)
  fix u
  assume u: "stat_of (tcbs s u) = RT_THREAD_READY"
  let ?q = "unat (t_current_priority (tcbs s u))"
  note L = link_okD [OF tinvD(2) [OF inv, of u]]
  have "u \<in> set (tlists s (Ready ?q))" using u L(1) by (simp add: ready_q_def)
  moreover have q: "?q < 32" using u L(5) by (simp add: runnable_ok_def)
  ultimately have "bit (ready_group s) ?q" using tinvD(3) [OF inv q] by auto
  with p(3) show "p \<le> uint (t_current_priority (tcbs s u))" unfolding lowest_bit_def uint_nat by (meson nat_le_iff not_le_imp_less)
qed

lemma highest_exists:
  assumes inv: "table_ok s" and g: "ready_group s \<noteq> 0"
  shows "\<exists>t p. scheduler_get_highest_priority_thread s = Some (t, p)"
proof -
  obtain k where k: "rt_ffs (ready_group s) = int k + 1" "lowest_bit (ready_group s) k"
    using rt_ffs_lowest [OF g] by blast
  then have "tlists s (Ready k) \<noteq> []" using tinvD(3) [OF inv, of k] by (simp add: lowest_bit_def)
  with k show ?thesis
    by (auto simp: scheduler_get_highest_priority_thread_def neq_Nil_conv)
qed

lemma no_ready_iff: "table_ok s \<Longrightarrow> ready_group s = 0 \<longleftrightarrow> (\<forall>t. stat_of (tcbs s t) \<noteq> RT_THREAD_READY)"
proof
  assume inv: "table_ok s" and "ready_group s = 0"
  then have "\<And>p. p < 32 \<Longrightarrow> tlists s (Ready p) = []" using tinvD(3) by fastforce
  with link_okD [OF tinvD(2) [OF inv]] show "\<forall>t. stat_of (tcbs s t) \<noteq> RT_THREAD_READY"
    by (metis empty_iff empty_set ready_q_def runnable_ok_def)
next
  assume inv: "table_ok s" and no: "\<forall>t. stat_of (tcbs s t) \<noteq> RT_THREAD_READY"
  then have "tlists s (Ready p) = []" for p using link_okD(1) [OF tinvD(2) [OF inv]] by (metis list.set_intros(1) neq_Nil_conv)
  with tinvD(3) [OF inv] show "ready_group s = 0" by (simp add: word32_eq_0_iff)
qed

text \<open>What \<open>rt_schedule\<close> does, by cases.\<close>

lemma rt_schedule_locked: "lock_nest s \<noteq> 0 \<Longrightarrow> rt_schedule s = Some (s\<lparr>crit_flag := True\<rparr>)"
  by (simp add: rt_schedule_def)

lemma rt_schedule_none_ready: "lock_nest s = 0 \<Longrightarrow> ready_group s = 0 \<Longrightarrow> rt_schedule s = Some s"
  by (simp add: rt_schedule_def)

definition switch_to :: "nat \<Rightarrow> int \<Rightarrow> nat \<Rightarrow> bool \<Rightarrow> kst \<Rightarrow> kst" where
  \<comment> \<open>the switch from \<open>me\<close> to \<open>to\<close>\<close>
  "switch_to to prio me need s =
     (let s = s\<lparr>cur_prio := word_of_int prio, current := Some to\<rparr>;
          s = (if need then rt_sched_insert_thread me s else s);
          s = (if yield_pending (tcbs s me) then upd_tcb me clear_yield s else s);
          s = rt_sched_remove_thread to s
      in upd_tcb to (new_stat RT_THREAD_RUNNING) s)"

lemma rt_schedule_cases:
  assumes inv: "sched_inv s" and l: "lock_nest s = 0" and g: "ready_group s \<noteq> 0" and c: "current s = Some me"
  obtains (stay) to p where "scheduler_get_highest_priority_thread s = Some (to, p)"
      "stat_of (tcbs s me) = RT_THREAD_RUNNING"
      "uint (t_current_priority (tcbs s me)) < p
       \<or> uint (t_current_priority (tcbs s me)) = p \<and> \<not> yield_pending (tcbs s me)"
      "rt_schedule s = Some (upd_tcb me (new_stat RT_THREAD_RUNNING) (rt_sched_remove_thread me s))"
  | (switch) to p where "scheduler_get_highest_priority_thread s = Some (to, p)" "to \<noteq> me"
      "stat_of (tcbs s me) \<noteq> RT_THREAD_RUNNING \<or> p < uint (t_current_priority (tcbs s me))
       \<or> p = uint (t_current_priority (tcbs s me)) \<and> yield_pending (tcbs s me)"
      "rt_schedule s = Some (switch_to to p me (stat_of (tcbs s me) = RT_THREAD_RUNNING) s)"
proof -
  have t: "table_ok s" and ci: "cinv (current s) (tcbs s)" using inv by (auto simp: sched_inv_def)
  obtain to p where h: "scheduler_get_highest_priority_thread s = Some (to, p)"
    using highest_exists [OF t g] by blast
  have ne: "to \<noteq> me" using highest_ready(1) [OF t h] ci c by (auto simp: cinv_def)
  let ?r = "stat_of (tcbs s me) = RT_THREAD_RUNNING" and ?u = "uint (t_current_priority (tcbs s me))"
  let ?y = "yield_pending (tcbs s me)"
  consider "?r" "?u < p \<or> ?u = p \<and> \<not> ?y" | "?r" "\<not> ?u < p" "\<not> (?u = p \<and> \<not> ?y)" | "\<not> ?r" by blast
  then show ?thesis
  proof cases
    case 1
    then show ?thesis
      using stay [OF h] h l g c by (auto simp: rt_schedule_def Let_def)
  next
    case 2
    then have "p < ?u \<or> p = ?u \<and> ?y" by linarith
    with 2 show ?thesis
      using switch [OF h ne] h ne l g c by (auto simp: rt_schedule_def switch_to_def Let_def)
  next
    case 3
    then show ?thesis
      using switch [OF h ne] h ne l g c by (auto simp: rt_schedule_def switch_to_def Let_def)
  qed
qed

lemma rt_schedule_fields_switch:
  assumes "stat_of (tcbs s me) \<noteq> RT_THREAD_READY" and "to \<noteq> me"
  shows "current (switch_to to p me need s) = Some to"
    and "tcbs (switch_to to p me need s) u =
      (if u = to then new_stat RT_THREAD_RUNNING (tcbs s u)
       else if u = me then
         (let b = (if need then new_stat RT_THREAD_READY (tcbs s u) else tcbs s u)
          in if yield_pending b then clear_yield b else b)
       else tcbs s u)"
  using assms by (auto simp: switch_to_def Let_def)

lemma switch_to_stat:
  assumes "stat_of (tcbs s me) \<noteq> RT_THREAD_READY" and "to \<noteq> me"
  shows "stat_of (tcbs (switch_to to p me need s) u) =
     (if u = to then RT_THREAD_RUNNING else if u = me \<and> need then RT_THREAD_READY else stat_of (tcbs s u))"
  using assms(2) by (simp add: rt_schedule_fields_switch(2) [OF assms] Let_def stat_defs)

lemma switch_to_prio:
  assumes "stat_of (tcbs s me) \<noteq> RT_THREAD_READY" and "to \<noteq> me"
  shows "t_current_priority (tcbs (switch_to to p me need s) u) = t_current_priority (tcbs s u)"
  by (simp add: rt_schedule_fields_switch(2) [OF assms] Let_def)

lemma switch_to_table:
  assumes t: "table_ok s" and ne: "to \<noteq> me" and to: "stat_of (tcbs s to) = RT_THREAD_READY"
    and need: "need \<Longrightarrow> stat_of (tcbs s me) = RT_THREAD_RUNNING"
  shows "table_ok (switch_to to p me need s)"
proof -
  let ?s1 = "s\<lparr>cur_prio := word_of_int p, current := Some to\<rparr>"
  let ?s2 = "if need then rt_sched_insert_thread me ?s1 else ?s1"
  let ?s3 = "if yield_pending (tcbs ?s2 me) then upd_tcb me clear_yield ?s2 else ?s2"
  have "table_ok ?s2"
  proof (cases need)
    case True
    note L = tinvD(2) [OF t, of me]
    have "table_but me ?s1"
      using unlinked_if_running [OF L need [OF True]] t by (simp add: tinv_but_unlinked)
    then have "table_ok (rt_sched_insert_thread me ?s1)"
      by (rule table_insert) (use link_okD(5) [OF L] need [OF True] in simp)
    with True show ?thesis by (simp only: if_True)
  qed (use t in simp)
  then have 3: "table_ok ?s3" by (simp del: fun_upd_apply)
  have "tcbs ?s3 to = tcbs s to" using ne by simp
  moreover have "runnable_ok (tcbs s to)" using link_okD(5) [OF tinvD(2) [OF t, of to]] to by simp
  ultimately show ?thesis
    unfolding switch_to_def Let_def by (intro table_run table_remove 3) simp
qed

lemma rt_schedule_inv_some:
  assumes inv: "sched_inv s" and l: "lock_nest s = 0" and g: "ready_group s \<noteq> 0" and c: "current s = Some me"
  shows "\<exists>s'. rt_schedule s = Some s' \<and> sched_inv s'"
  using assms
proof (cases rule: rt_schedule_cases)
  case (stay to p)
  have t: "table_ok s" using inv by (simp add: sched_inv_def)
  have "runnable_ok (tcbs s me)" using link_okD(5) [OF tinvD(2) [OF t]] stay(2) by blast
  then have "table_ok (upd_tcb me (new_stat RT_THREAD_RUNNING) (rt_sched_remove_thread me s))"
    by (intro table_run table_remove t) simp
  moreover have "cinv (current s) ((tcbs s)(me := new_stat RT_THREAD_RUNNING (tcbs s me)))"
    using inv c by (intro cinv_close) (auto simp: sched_inv_def cinv_weaken stat_defs)
  ultimately show ?thesis using stay(4) by (simp add: sched_inv_def del: fun_upd_apply)
next
  case (switch to p)
  have t: "table_ok s" and ci: "cinv (current s) (tcbs s)" using inv by (auto simp: sched_inv_def)
  let ?n = "stat_of (tcbs s me) = RT_THREAD_RUNNING"
  have nr: "stat_of (tcbs s me) \<noteq> RT_THREAD_READY" using ci c by (simp add: cinv_def)
  have "table_ok (switch_to to p me ?n s)"
    using switch_to_table [OF t switch(2) highest_ready(1) [OF t switch(1)], where need = ?n] by simp
  moreover have "cinv (Some to) (tcbs (switch_to to p me ?n s))"
    unfolding cinv_def switch_to_stat [OF nr switch(2)]
  proof (intro conjI allI impI)
    fix u
    assume "(if u = to then RT_THREAD_RUNNING
             else if u = me \<and> ?n then RT_THREAD_READY else stat_of (tcbs s u)) = RT_THREAD_RUNNING"
    moreover have "stat_of (tcbs s u) = RT_THREAD_RUNNING \<longrightarrow> me = u"
      using ci c unfolding cinv_def by fastforce
    moreover have "RT_THREAD_READY \<noteq> RT_THREAD_RUNNING" by (simp add: stat_defs)
    ultimately show "Some to = Some u" by metis
  qed (simp add: stat_defs)
  ultimately have "sched_inv (switch_to to p me ?n s)"
    unfolding sched_inv_def rt_schedule_fields_switch(1) [OF nr switch(2)] by blast
  with switch(4) show ?thesis by blast
qed

lemma rt_schedule_inv:
  assumes inv: "sched_inv s" and r: "rt_schedule s = Some s'"
  shows "sched_inv s'"
proof (cases "lock_nest s = 0 \<and> ready_group s \<noteq> 0")
  case True
  then obtain me where "current s = Some me"
    using r by (auto simp: rt_schedule_def elim!: bind_SomeE)
  with rt_schedule_inv_some [OF inv] True r show ?thesis by auto
next
  case False
  with inv r show ?thesis by (auto simp: rt_schedule_def sched_inv_def split: if_splits)
qed

subsection \<open>Critical sections\<close>

definition crit_ok :: "kst \<Rightarrow> bool" where
  "crit_ok s \<longleftrightarrow> 0 \<le> lock_nest s \<and> (lock_nest s = 0 \<longrightarrow> \<not> crit_flag s)"

lemma spin_unlock_lock:
  "lock_nest s = n + 1 \<Longrightarrow> 0 \<le> n \<Longrightarrow> (n = 0 \<longrightarrow> \<not> crit_flag s) \<Longrightarrow>
   rt_spin_unlock s = Some (s\<lparr>lock_nest := n\<rparr>)"
  by (auto simp: rt_spin_unlock_def rt_exit_critical_def Let_def)

lemma spin_lock_fields [simp]:
  "objs (rt_spin_lock s) = objs s" "containers (rt_spin_lock s) = containers s"
  "tcbs (rt_spin_lock s) = tcbs s" "tlists (rt_spin_lock s) = tlists s"
  "takens (rt_spin_lock s) = takens s" "ready_group (rt_spin_lock s) = ready_group s"
  "lock_nest (rt_spin_lock s) = lock_nest s + 1" "crit_flag (rt_spin_lock s) = crit_flag s"
  "cur_prio (rt_spin_lock s) = cur_prio s" "current (rt_spin_lock s) = current s"
  "irq_nest (rt_spin_lock s) = irq_nest s" "tick (rt_spin_lock s) = tick s"
  "timers (rt_spin_lock s) = timers s" "tmlists (rt_spin_lock s) = tmlists s"
  "random_nr (rt_spin_lock s) = random_nr s" "g_errno (rt_spin_lock s) = g_errno s"
  "sems (rt_spin_lock s) = sems s" "mutexes (rt_spin_lock s) = mutexes s"
  "events (rt_spin_lock s) = events s" "mboxes (rt_spin_lock s) = mboxes s"
  "mqueues (rt_spin_lock s) = mqueues s" "mpools (rt_spin_lock s) = mpools s"
  by (simp_all add: rt_spin_lock_def rt_enter_critical_def)

lemma sched_inv_lock [simp]: "sched_inv (rt_spin_lock s) = sched_inv s"
  by (simp add: sched_inv_def)

lemma rt_exit_critical_inv:
  assumes "sched_inv s" and "rt_exit_critical s = Some s'"
  shows "sched_inv s'"
proof -
  have "sched_inv (s\<lparr>lock_nest := l, crit_flag := f\<rparr>)" "sched_inv (s\<lparr>lock_nest := l\<rparr>)" for l f
    using assms(1) by (simp_all add: sched_inv_def)
  with assms(2) show ?thesis
    by (auto simp: rt_exit_critical_def Let_def intro: rt_schedule_inv split: if_splits)
qed

lemma rt_spin_unlock_inv:
  "sched_inv s \<Longrightarrow> rt_spin_unlock s = Some s' \<Longrightarrow> sched_inv s'"
  unfolding rt_spin_unlock_def by (rule rt_exit_critical_inv)

subsection \<open>What the scheduler promises\<close>

lemma rt_schedule_highest:
  assumes inv: "sched_inv s" and l: "lock_nest s = 0" and c: "current s = Some me"
    and some: "ready_group s \<noteq> 0 \<or> stat_of (tcbs s me) = RT_THREAD_RUNNING"
  shows "\<exists>s' r. rt_schedule s = Some s' \<and> current s' = Some r \<and> stat_of (tcbs s' r) = RT_THREAD_RUNNING \<and>
     (\<forall>u. stat_of (tcbs s' u) = RT_THREAD_READY \<longrightarrow>
        t_current_priority (tcbs s' r) \<le> t_current_priority (tcbs s' u))"
proof (cases "ready_group s = 0")
  case True
  with inv no_ready_iff [of s] have "\<And>u. stat_of (tcbs s u) \<noteq> RT_THREAD_READY"
    unfolding sched_inv_def by blast
  with True some c l show ?thesis by (auto simp: rt_schedule_none_ready)
next
  case g: False
  have t: "table_ok s" and ci: "cinv (current s) (tcbs s)" using inv by (auto simp: sched_inv_def)
  show ?thesis
    using inv l g c
  proof (cases rule: rt_schedule_cases)
    case (stay to p)
    have "t_current_priority (tcbs s me) \<le> t_current_priority (tcbs s u)"
      if "stat_of (tcbs s u) = RT_THREAD_READY" for u
      using highest_ready(3) [OF t stay(1) that] stay(3) by (auto simp: word_le_def)
    moreover have "stat_of (new_stat RT_THREAD_RUNNING (tcbs s me)) = RT_THREAD_RUNNING"
      "RT_THREAD_RUNNING \<noteq> RT_THREAD_READY" by (simp_all add: stat_defs)
    ultimately show ?thesis
      unfolding stay(4) by (intro exI [of _ me] exI conjI) (auto simp: c)
  next
    case (switch to p)
    let ?n = "stat_of (tcbs s me) = RT_THREAD_RUNNING"
    have nr: "stat_of (tcbs s me) \<noteq> RT_THREAD_READY" using ci c by (simp add: cinv_def)
    note H = highest_ready [OF t switch(1)] and F = switch_to_stat [OF nr switch(2)]
      and P = switch_to_prio [OF nr switch(2)]
    have "t_current_priority (tcbs s to) \<le> t_current_priority (tcbs s u)"
      if "stat_of (tcbs (switch_to to p me ?n s) u) = RT_THREAD_READY" for u
    proof (cases "u = me")
      case True
      with that have ?n using F switch(2) nr by (auto split: if_splits)
      with switch(3) H(2) True show ?thesis by (auto simp: word_le_def)
    next
      case False
      with that have "stat_of (tcbs s u) = RT_THREAD_READY" using F by (auto simp: stat_defs split: if_splits)
      from H(3) [OF this] H(2) show ?thesis by (auto simp: word_le_def)
    qed
    then show ?thesis
      unfolding switch(4) using F P rt_schedule_fields_switch(1) [OF nr switch(2)] by simp
  qed
qed

lemma highest_unique:
  assumes inv: "table_ok s" and "p < 32" and "tlists s (Ready p) = t # xs"
    and low: "\<And>q. q < p \<Longrightarrow> tlists s (Ready q) = []"
  shows "scheduler_get_highest_priority_thread s = Some (t, int p)" and "ready_group s \<noteq> 0"
proof -
  have "bit (ready_group s) p" using assms tinvD(3) [OF inv] by simp
  moreover have "\<not> bit (ready_group s) q" if "q < p" for q using that assms tinvD(3) [OF inv, of q] by simp
  ultimately have low: "lowest_bit (ready_group s) p" using assms(2) by (simp add: lowest_bit_def)
  then show g: "ready_group s \<noteq> 0" by (auto simp: lowest_bit_def)
  obtain k where k: "rt_ffs (ready_group s) = int k + 1" "lowest_bit (ready_group s) k"
    using rt_ffs_lowest [OF g] by blast
  with low have "k = p" using lowest_bit_unique by blast
  with k assms(3) show "scheduler_get_highest_priority_thread s = Some (t, int p)"
    by (simp add: scheduler_get_highest_priority_thread_def)
qed

lemma clear_yield_off [simp]: "\<not> yield_pending (clear_yield b)"
  by (simp add: yield_pending_def clear_yield_def stat_defs and.assoc)

lemma yield_pending_new_stat [simp]: "v AND 8 = 0 \<Longrightarrow> yield_pending (new_stat v b) = yield_pending b"
  using new_stat_yield [of v b] by (simp add: yield_pending_def stat_defs)

lemma switch_lists:
  assumes "to \<noteq> me" and "stat_of (tcbs s me) = RT_THREAD_RUNNING" and "table_ok s"
  shows "tlists (switch_to to p me True s) =
    st_remove to ((if yield_pending (tcbs s me) then st_append else st_push) (ready_q (tcbs s me)) me (tlists s))"
  using assms yield_pending_new_stat [of RT_THREAD_READY "tcbs s me"]
  by (auto simp: switch_to_def Let_def rt_sched_insert_thread_def yield_pending_def stat_defs)

lemma rt_schedule_fair:
  assumes inv: "sched_inv s" and l: "lock_nest s = 0" and c: "current s = Some me"
    and run: "stat_of (tcbs s me) = RT_THREAD_RUNNING"
    and p: "p < 32" "tlists s (Ready p) = t # xs" "\<And>q. q < p \<Longrightarrow> tlists s (Ready q) = []"
    and pre: "p < unat (t_current_priority (tcbs s me))
      \<or> p = unat (t_current_priority (tcbs s me)) \<and> yield_pending (tcbs s me)"
  shows "rt_schedule s = Some (switch_to t (int p) me True s)"
proof -
  have tab: "table_ok s" using inv by (simp add: sched_inv_def)
  have H: "scheduler_get_highest_priority_thread s = Some (t, int p)" "ready_group s \<noteq> 0"
    using highest_unique [OF tab p(1,2)] p(3) by blast+
  show ?thesis
    using inv l H(2) c
  proof (cases rule: rt_schedule_cases)
    case (stay to p')
    have "p' = int p" using H(1) stay(1) by simp
    moreover note uint_nat [of "t_current_priority (tcbs s me)"]
    ultimately show ?thesis using stay(3) pre by linarith
  next
    case (switch to p')
    with H(1) run show ?thesis by simp
  qed
qed

text \<open>A machine with a running thread, for the concrete instances.\<close>

definition demo_tcb :: "u8 \<Rightarrow> u8 \<Rightarrow> tcb" where
  "demo_tcb st p = blank_tcb\<lparr>t_stat := st, t_current_priority := p, t_init_priority := p,
     t_init_tick := 5, t_remaining_tick := 5, t_number_mask := push_bit (unat p) 1\<rparr>"

definition demo_sched :: kst where
  \<comment> \<open>thread 1 runs at priority 10, threads 2 and 3 are ready at 10, thread 4 at 20\<close>
  "demo_sched = blank_kst\<lparr>
     tcbs := (\<lambda>_. blank_tcb)(1 := demo_tcb (RT_THREAD_RUNNING OR RT_THREAD_STAT_YIELD) 10, 2 := demo_tcb RT_THREAD_READY 10,
        3 := demo_tcb RT_THREAD_READY 10, 4 := demo_tcb RT_THREAD_READY 20),
     tlists := (\<lambda>_. [])(Ready 10 := [2, 3], Ready 20 := [4]),
     ready_group := push_bit 10 1 OR push_bit 20 1,
     current := Some 1\<rparr>"

lemma demo_bits: "bit (0x100400 :: u32) p \<longleftrightarrow> p = 10 \<or> p = 20" if "p < 32" for p
  using bit_mask_iff [of 10 p] bit_mask_iff [of 20 p] that
    bit_or_iff [of "push_bit 10 1 :: u32" "push_bit 20 1" p] by auto

lemma demo_sched_inv: "sched_inv demo_sched"
proof -
  have "store_ok (tlists demo_sched)"
    by (auto simp: demo_sched_def store_ok_def split: if_splits)
  moreover have "link_ok (tlists demo_sched) t (tcbs demo_sched t)" for t
    by (auto simp: demo_sched_def link_ok_def demo_tcb_def blank_tcb_def stat_of_def stat_defs mask_ok_def
        runnable_ok_def ready_q_def susp_stat_def)
  moreover have "bit (ready_group demo_sched) p \<longleftrightarrow> tlists demo_sched (Ready p) \<noteq> []" if "p < 32" for p
    using demo_bits [OF that] by (auto simp: demo_sched_def)
  moreover have "cinv (current demo_sched) (tcbs demo_sched)"
    by (auto simp: demo_sched_def cinv_def demo_tcb_def blank_tcb_def stat_of_def stat_defs)
  ultimately show ?thesis by (auto simp: sched_inv_def tinv_def)
qed

text \<open>
  C1. \<open>rt_schedule\<close> keeps the ready table, its bitmap, the status of every thread and the running
  thread consistent, and it never fails on a consistent state in which, when a thread is ready and
  the scheduler is not locked, some thread is running.
\<close>

theorem rt_schedule_keeps_inv:
  assumes "sched_inv s" and "lock_nest s = 0 \<Longrightarrow> ready_group s \<noteq> 0 \<Longrightarrow> current s \<noteq> None"
  shows "\<exists>s'. rt_schedule s = Some s' \<and> sched_inv s'"
proof (cases "lock_nest s = 0 \<and> ready_group s \<noteq> 0")
  case True
  with assms(2) obtain me where "current s = Some me" by auto
  with rt_schedule_inv_some [OF assms(1)] True show ?thesis by blast
next
  case False
  then obtain s' where "rt_schedule s = Some s'"
    by (cases "lock_nest s = 0") (auto simp: rt_schedule_locked rt_schedule_none_ready)
  with rt_schedule_inv [OF assms(1)] show ?thesis by blast
qed

lemma rt_schedule_keeps_inv_witness: "\<exists>s'. rt_schedule demo_sched = Some s' \<and> sched_inv s'"
  by (rule rt_schedule_keeps_inv [OF demo_sched_inv]) (simp add: demo_sched_def)

text \<open>
  C2. With the scheduler unlocked, \<open>rt_schedule\<close> leaves running a thread whose priority no
  ready thread beats.
\<close>

theorem rt_schedule_runs_highest:
  assumes "sched_inv s" and "lock_nest s = 0" and "current s = Some me"
    and "ready_group s \<noteq> 0 \<or> stat_of (tcbs s me) = RT_THREAD_RUNNING"
  shows "\<exists>s' r. rt_schedule s = Some s' \<and> current s' = Some r \<and> stat_of (tcbs s' r) = RT_THREAD_RUNNING \<and>
     (\<forall>u. stat_of (tcbs s' u) = RT_THREAD_READY \<longrightarrow>
        t_current_priority (tcbs s' r) \<le> t_current_priority (tcbs s' u))"
  by (rule rt_schedule_highest [OF assms])

lemma rt_schedule_runs_highest_witness:
  "\<exists>s' r. rt_schedule demo_sched = Some s' \<and> current s' = Some r \<and> stat_of (tcbs s' r) = RT_THREAD_RUNNING \<and>
     (\<forall>u. stat_of (tcbs s' u) = RT_THREAD_READY \<longrightarrow>
        t_current_priority (tcbs s' r) \<le> t_current_priority (tcbs s' u))"
  by (rule rt_schedule_runs_highest [OF demo_sched_inv, of 1]) (simp_all add: demo_sched_def blank_kst_def)

text \<open>
  Round robin and preemption. When the first ready thread of the highest ready priority \<open>p\<close>
  is to run instead of the running one, the running thread goes to the end of its ready queue if it
  yielded (so all its equals come first) and to the front if it was preempted (so it keeps its
  turn), its yield mark is cleared, and the new thread is off the table.
\<close>

theorem rt_schedule_round_robin:
  assumes inv: "sched_inv s" and l: "lock_nest s = 0" and c: "current s = Some me"
    and run: "stat_of (tcbs s me) = RT_THREAD_RUNNING"
    and p: "p < 32" "tlists s (Ready p) = t # xs" "\<And>q. q < p \<Longrightarrow> tlists s (Ready q) = []"
    and pre: "p < unat (t_current_priority (tcbs s me))
      \<or> p = unat (t_current_priority (tcbs s me)) \<and> yield_pending (tcbs s me)"
  shows "\<exists>s'. rt_schedule s = Some s' \<and> current s' = Some t \<and> \<not> yield_pending (tcbs s' me) \<and>
    (let q = Ready (unat (t_current_priority (tcbs s me))); others = removeAll t (tlists s q) in
     tlists s' q = (if yield_pending (tcbs s me) then others @ [me] else me # others))"
proof -
  have tab: "table_ok s" and ci: "cinv (current s) (tcbs s)" using inv by (auto simp: sched_inv_def)
  have "t \<in> set (tlists s (Ready p))" using p by simp
  then have "stat_of (tcbs s t) = RT_THREAD_READY" using link_okD(1) [OF tinvD(2) [OF tab]] by blast
  with run have ne: "t \<noteq> me" by (auto simp: stat_defs)
  have nr: "stat_of (tcbs s me) \<noteq> RT_THREAD_READY" using run by (simp add: stat_defs)
  have eq: "rt_schedule s = Some (switch_to t (int p) me True s)"
    by (rule rt_schedule_fair [OF inv l c run p(1,2) _ pre]) (rule p(3))
  show ?thesis
    unfolding eq
    using ne rt_schedule_fields_switch [OF nr ne] switch_lists [OF ne run tab]
    by (auto simp: Let_def ready_q_def)
qed

lemma rt_schedule_round_robin_witness:
  "\<exists>s'. rt_schedule demo_sched = Some s' \<and> current s' = Some 2 \<and> \<not> yield_pending (tcbs s' 1) \<and>
    (let q = Ready (unat (t_current_priority (tcbs demo_sched 1))); others = removeAll 2 (tlists demo_sched q) in
     tlists s' q = (if yield_pending (tcbs demo_sched 1) then others @ [1] else 1 # others))"
  by (rule rt_schedule_round_robin [OF demo_sched_inv, where p = 10 and xs = "[3]"])
    (simp_all add: demo_sched_def blank_kst_def demo_tcb_def blank_tcb_def stat_of_def stat_defs yield_pending_def)

text \<open>
  A critical section defers a switch: with the scheduler locked, \<open>rt_schedule\<close> only notes
  the request, and the outermost \<open>rt_exit_critical\<close> performs it, on the state with the lock free.
\<close>

theorem critical_section_defers:
  assumes "crit_ok s"
  shows "Option.bind (rt_schedule (rt_enter_critical s)) rt_exit_critical =
    (if lock_nest s = 0 then rt_schedule (s\<lparr>lock_nest := 0, crit_flag := False\<rparr>) else Some (s\<lparr>crit_flag := True\<rparr>))"
  using assms by (auto simp: crit_ok_def rt_enter_critical_def rt_schedule_locked rt_exit_critical_def Let_def)

lemma critical_section_defers_witness:
  "Option.bind (rt_schedule (rt_enter_critical demo_sched)) rt_exit_critical =
    (if lock_nest demo_sched = 0 then rt_schedule (demo_sched\<lparr>lock_nest := 0, crit_flag := False\<rparr>)
     else Some (demo_sched\<lparr>crit_flag := True\<rparr>))"
  by (rule critical_section_defers) (simp add: crit_ok_def demo_sched_def blank_kst_def)

end
