(* ===== verification/RtObject.thy ===== *)
theory RtObject
  imports SchedUp
begin

text \<open>
  Kernel objects (rt-thread/src/object.c): the containers, one list of objects per class, and
  the operations that put objects on them and take them off. The store \<open>containers\<close> maps a
  class number to its list. A name is a string without its closing null. The block of memory a
  created object lives in comes from the heap, which this theory does not look into: the result
  of \<open>RT_KERNEL_MALLOC\<close> is an argument of the operations that allocate, \<open>None\<close> for a null pointer.
\<close>

definition RT_NAME_MAX :: nat where "RT_NAME_MAX = 12"

definition object_container :: "u8 list" where
  \<comment> \<open>the classes with a container; no modules in this build\<close>
  "object_container =
     [RT_Object_Class_Thread, RT_Object_Class_Semaphore, RT_Object_Class_Mutex, RT_Object_Class_Event,
      RT_Object_Class_MailBox, RT_Object_Class_MessageQueue, 0x07, RT_Object_Class_MemPool, 0x09,
      RT_Object_Class_Timer, 0x0c, 0x10]"

definition with_lock :: "(kst \<Rightarrow> kst) \<Rightarrow> kst \<Rightarrow> kst option" where
  \<comment> \<open>\<open>f\<close> between \<open>rt_spin_lock_irqsave\<close> and \<open>rt_spin_unlock_irqrestore\<close>\<close>
  "with_lock f s = rt_spin_unlock (f (rt_spin_lock s))"

definition rt_object_get_information :: "u8 \<Rightarrow> u8 option" where
  "rt_object_get_information type =
     List.find (\<lambda>c. c = type AND NOT RT_Object_Class_Static) object_container"

definition rt_object_get_length :: "u8 \<Rightarrow> kst \<Rightarrow> (nat \<times> kst) option" where
  "rt_object_get_length type s =
     (case rt_object_get_information type of
        None \<Rightarrow> Some (0, s)
      | Some info \<Rightarrow> do {
          let s = rt_spin_lock s;
          let count = length (containers s info);
          s \<leftarrow> rt_spin_unlock s;
          Some (count, s)
        })"

definition rt_object_get_pointers :: "u8 \<Rightarrow> int \<Rightarrow> kst \<Rightarrow> (oref list \<times> kst) option" where
  \<comment> \<open>the objects stored into the caller's array, whose length is the result\<close>
  "rt_object_get_pointers type maxlen s =
     (if maxlen \<le> 0 then Some ([], s)
      else case rt_object_get_information type of
          None \<Rightarrow> Some ([], s)
        | Some info \<Rightarrow> do {
            let s = rt_spin_lock s;
            let pointers = take (nat maxlen) (containers s info);
            s \<leftarrow> rt_spin_unlock s;
            Some (pointers, s)
          })"

definition set_name :: "string option \<Rightarrow> rt_object \<Rightarrow> rt_object option" where
  "set_name name ob =
     (case name of
        None \<Rightarrow> Some (ob\<lparr>o_name := []\<rparr>)
      | Some n \<Rightarrow> if length n > RT_NAME_MAX - 1 then None else Some (ob\<lparr>o_name := n\<rparr>))"

definition rt_object_init :: "oref \<Rightarrow> u8 \<Rightarrow> string option \<Rightarrow> kst \<Rightarrow> kst option" where
  "rt_object_init r type name s = do {
     info \<leftarrow> rt_object_get_information type;
     let s = rt_spin_lock s;
     rt_assert (r \<notin> set (containers s info));
     s \<leftarrow> rt_spin_unlock s;
     let s = upd_obj r (\<lambda>ob. ob\<lparr>o_type := type OR RT_Object_Class_Static\<rparr>) s;
     ob \<leftarrow> set_name name (objs s r);
     let s = upd_obj r (\<lambda>_. ob) s;
     with_lock (\<lambda>s. s\<lparr>containers := st_push info r (containers s)\<rparr>) s
   }"

definition rt_object_detach :: "oref \<Rightarrow> kst \<Rightarrow> kst option" where
  "rt_object_detach r s = do {
     info \<leftarrow> rt_object_get_information (o_type (objs s r));
     s \<leftarrow> with_lock (\<lambda>s. s\<lparr>containers := st_remove r (containers s)\<rparr>) s;
     Some (upd_obj r (\<lambda>ob. ob\<lparr>o_type := RT_Object_Class_Null\<rparr>) s)
   }"

definition rt_object_allocate ::
  "oref option \<Rightarrow> u8 \<Rightarrow> string option \<Rightarrow> kst \<Rightarrow> (oref option \<times> kst) option" where
  "rt_object_allocate block type name s = do {
     rt_assert (debug_not_in_interrupt s);
     info \<leftarrow> rt_object_get_information type;
     case block of
       None \<Rightarrow> Some (None, s)
     | Some r \<Rightarrow> do {
         ob \<leftarrow> set_name name \<lparr>o_type = type, o_flag = 0, o_name = []\<rparr>;
         let s = upd_obj r (\<lambda>_. ob) s;
         s \<leftarrow> with_lock (\<lambda>s. s\<lparr>containers := st_push info r (containers s)\<rparr>) s;
         Some (Some r, s)
       }
   }"

definition rt_object_delete :: "oref \<Rightarrow> kst \<Rightarrow> kst option" where
  \<comment> \<open>the block goes back to the heap\<close>
  "rt_object_delete r s = do {
     rt_assert (\<not> rt_object_is_systemobject r s);
     info \<leftarrow> rt_object_get_information (o_type (objs s r));
     s \<leftarrow> with_lock (\<lambda>s. s\<lparr>containers := st_remove r (containers s)\<rparr>) s;
     Some (upd_obj r (\<lambda>ob. ob\<lparr>o_type := RT_Object_Class_Null\<rparr>) s)
   }"

fun iter_objects :: "(oref \<Rightarrow> 'd \<Rightarrow> int \<times> 'd) \<Rightarrow> oref list \<Rightarrow> 'd \<Rightarrow> int \<times> 'd" where
  "iter_objects iter [] d = (RT_EOK, d)"
| "iter_objects iter (r # rs) d =
     (let (error, d) = iter r d in
      if error \<noteq> RT_EOK then (if error \<ge> 0 then RT_EOK else error, d)
      else iter_objects iter rs d)"

definition rt_object_for_each ::
  "u8 \<Rightarrow> (oref \<Rightarrow> 'd \<Rightarrow> int \<times> 'd) \<Rightarrow> 'd \<Rightarrow> kst \<Rightarrow> ((int \<times> 'd) \<times> kst) option" where
  "rt_object_for_each type iter d s =
     (case rt_object_get_information type of
        None \<Rightarrow> Some ((- RT_EINVAL, d), s)
      | Some info \<Rightarrow> do {
          rt_assert (debug_not_in_interrupt s);
          let s = rt_spin_lock s;
          let res = iter_objects iter (containers s info) d;
          s \<leftarrow> rt_spin_unlock s;
          Some (res, s)
        })"

definition match_name :: "(oref \<Rightarrow> rt_object) \<Rightarrow> string \<Rightarrow> oref \<Rightarrow> oref option \<Rightarrow> int \<times> oref option" where
  "match_name obs name r matched =
     (let truncated_name = take (RT_NAME_MAX - 1) name in
      if o_name (obs r) = truncated_name then (1, Some r) else (RT_EOK, matched))"

definition rt_object_find :: "string option \<Rightarrow> u8 \<Rightarrow> kst \<Rightarrow> (oref option \<times> kst) option" where
  "rt_object_find name type s =
     (case name of
        None \<Rightarrow> Some (None, s)
      | Some n \<Rightarrow>
          if rt_object_get_information type = None then Some (None, s)
          else do {
            rt_assert (debug_not_in_interrupt s);
            ((_, matched), s) \<leftarrow> rt_object_for_each type (match_name (objs s) n) None s;
            Some (matched, s)
          })"

definition rt_object_get_name :: "oref option \<Rightarrow> u8 \<Rightarrow> kst \<Rightarrow> int \<times> string option" where
  \<comment> \<open>the second part is what the caller's buffer holds, \<open>None\<close> when it is not written\<close>
  "rt_object_get_name ref name_size s =
     (case ref of
        Some r \<Rightarrow> if name_size \<noteq> 0 then (RT_EOK, Some (take (unat name_size - 1) (o_name (objs s r))))
                  else (- RT_EINVAL, None)
      | None \<Rightarrow> (- RT_EINVAL, None))"

subsection \<open>Spin locks around a simple update\<close>

definition lock_neutral :: "(kst \<Rightarrow> kst) \<Rightarrow> bool" where
  \<comment> \<open>\<open>f\<close> neither reads nor writes the scheduler lock\<close>
  "lock_neutral f \<longleftrightarrow> (\<forall>s n. lock_nest (f s) = lock_nest s \<and> crit_flag (f s) = crit_flag s \<and>
     f (s\<lparr>lock_nest := n\<rparr>) = (f s)\<lparr>lock_nest := n\<rparr>)"

lemma with_lock_run:
  assumes f: "lock_neutral f" and c: "crit_ok s"
  shows "with_lock f s = Some (f s)"
proof -
  have "f (rt_spin_lock s) = (f s)\<lparr>lock_nest := lock_nest s + 1\<rparr>"
    using f by (simp add: lock_neutral_def rt_spin_lock_def rt_enter_critical_def)
  moreover have "(f s)\<lparr>lock_nest := lock_nest s\<rparr> = f s"
    using f by (metis (no_types) kst.surjective kst.update_convs(7) lock_neutral_def)
  ultimately show ?thesis
    using f c unfolding with_lock_def
    by (subst spin_unlock_lock [where n = "lock_nest s"]) (auto simp: crit_ok_def lock_neutral_def)
qed

lemma spin_pair [simp]: "crit_ok s \<Longrightarrow> rt_spin_unlock (rt_spin_lock s) = Some s"
  by (subst spin_unlock_lock [where n = "lock_nest s"])
    (auto simp: crit_ok_def rt_spin_lock_def rt_enter_critical_def)

lemma crit_ok_fields [simp]:
  "crit_ok (s\<lparr>objs := a\<rparr>) = crit_ok s" "crit_ok (s\<lparr>containers := b\<rparr>) = crit_ok s"
  "crit_ok (s\<lparr>tcbs := c\<rparr>) = crit_ok s" "crit_ok (s\<lparr>tlists := d\<rparr>) = crit_ok s"
  "crit_ok (s\<lparr>takens := e\<rparr>) = crit_ok s" "crit_ok (s\<lparr>ready_group := f\<rparr>) = crit_ok s"
  "crit_ok (s\<lparr>current := g\<rparr>) = crit_ok s" "crit_ok (s\<lparr>irq_nest := h\<rparr>) = crit_ok s"
  "crit_ok (s\<lparr>tick := i\<rparr>) = crit_ok s" "crit_ok (s\<lparr>timers := j\<rparr>) = crit_ok s"
  "crit_ok (s\<lparr>tmlists := k\<rparr>) = crit_ok s" "crit_ok (s\<lparr>random_nr := l\<rparr>) = crit_ok s"
  "crit_ok (s\<lparr>g_errno := m\<rparr>) = crit_ok s" "crit_ok (s\<lparr>sems := n\<rparr>) = crit_ok s"
  "crit_ok (s\<lparr>mutexes := o'\<rparr>) = crit_ok s" "crit_ok (s\<lparr>events := p\<rparr>) = crit_ok s"
  "crit_ok (s\<lparr>mboxes := q\<rparr>) = crit_ok s" "crit_ok (s\<lparr>mqueues := r\<rparr>) = crit_ok s"
  "crit_ok (s\<lparr>mpools := t\<rparr>) = crit_ok s" "crit_ok (s\<lparr>cur_prio := u\<rparr>) = crit_ok s"
  by (simp_all add: crit_ok_def)

lemma crit_ok_lock [simp]: "crit_ok s \<Longrightarrow> crit_ok (rt_spin_lock s)"
  by (simp add: crit_ok_def)

subsection \<open>The containers\<close>

definition objects_ok :: "kst \<Rightarrow> bool" where
  \<comment> \<open>an object is on at most one container, and that is the container of its class\<close>
  "objects_ok s \<longleftrightarrow> store_ok (containers s) \<and>
     (\<forall>c r. r \<in> set (containers s c) \<longrightarrow> c \<in> set object_container \<and> rt_object_get_type r s = c)"

lemma rt_object_get_information_Some:
  "rt_object_get_information type = Some c \<Longrightarrow> c = type AND NOT RT_Object_Class_Static \<and> c \<in> set object_container"
  by (auto simp: rt_object_get_information_def find_Some_iff in_set_conv_nth)

lemma containers_push_neutral:
  "lock_neutral (\<lambda>s. s\<lparr>containers := st_push info r (containers s)\<rparr>)"
  "lock_neutral (\<lambda>s. s\<lparr>containers := st_remove r (containers s)\<rparr>)"
  by (simp_all add: lock_neutral_def)

lemma class_of_static: "(type OR 0x80) AND NOT 0x80 = (type :: u8) AND NOT 0x80"
  by (auto simp: bit_eq_iff bit_simps)

lemma with_lock_push:
  "crit_ok s \<Longrightarrow> with_lock (\<lambda>s. s\<lparr>containers := st_push info r (containers s)\<rparr>) s =
     Some (s\<lparr>containers := st_push info r (containers s)\<rparr>)"
  by (rule with_lock_run [OF containers_push_neutral(1)])

lemma with_lock_remove:
  "crit_ok s \<Longrightarrow> with_lock (\<lambda>s. s\<lparr>containers := st_remove r (containers s)\<rparr>) s =
     Some (s\<lparr>containers := st_remove r (containers s)\<rparr>)"
  by (rule with_lock_run [OF containers_push_neutral(2)])

lemma set_name_Some:
  "set_name (Some n) ob = Some ob' \<longleftrightarrow> length n \<le> RT_NAME_MAX - 1 \<and> ob' = ob\<lparr>o_name := n\<rparr>"
  by (auto simp: set_name_def)

lemma rt_object_init_run:
  assumes "crit_ok s" and "rt_object_init r type name s = Some s'"
  obtains info ob where "rt_object_get_information type = Some info" "r \<notin> set (containers s info)"
    "set_name name ((objs s r)\<lparr>o_type := type OR RT_Object_Class_Static\<rparr>) = Some ob"
    "s' = s\<lparr>objs := (objs s)(r := ob), containers := st_push info r (containers s)\<rparr>"
  using assms by (auto simp: rt_object_init_def with_lock_push elim!: bind_SomeE)

lemma set_name_type [simp]: "set_name name ob = Some ob' \<Longrightarrow> o_type ob' = o_type ob"
  by (auto simp: set_name_def split: option.splits if_splits)

lemma rt_object_init_sched:
  "crit_ok s \<Longrightarrow> rt_object_init r type name s = Some s' \<Longrightarrow> sched_inv s' = sched_inv s"
  by (erule (1) rt_object_init_run) (simp add: sched_inv_def)

lemma rt_object_detach_run:
  "crit_ok s \<Longrightarrow> rt_object_detach r s =
     (if rt_object_get_information (o_type (objs s r)) = None then None
      else Some (s\<lparr>containers := st_remove r (containers s),
                   objs := (objs s)(r := (objs s r)\<lparr>o_type := RT_Object_Class_Null\<rparr>)\<rparr>))"
  by (auto simp: rt_object_detach_def with_lock_remove split: option.splits)

lemma iter_match_name:
  "iter_objects (match_name obs n) rs None =
     (RT_EOK, List.find (\<lambda>r. o_name (obs r) = take (RT_NAME_MAX - 1) n) rs)"
  by (induction rs) (auto simp: match_name_def err_defs)

lemma rt_object_find_run:
  assumes "crit_ok s" and "irq_nest s = 0"
  shows "rt_object_find (Some n) type s =
    Some (case rt_object_get_information type of None \<Rightarrow> None
      | Some info \<Rightarrow> List.find (\<lambda>r. o_name (objs s r) = take (RT_NAME_MAX - 1) n) (containers s info), s)"
  using assms
  by (auto simp: rt_object_find_def rt_object_for_each_def debug_defs iter_match_name split: option.splits)

text \<open>
  A registered object can be found by its name: right after \<open>rt_object_init\<close>,
  \<open>rt_object_find\<close> with that name and class returns it, even if an older object has the same name.
\<close>

theorem rt_object_find_after_init:
  assumes "crit_ok s" and "irq_nest s = 0" and "rt_object_init r type (Some n) s = Some s'"
  shows "rt_object_find (Some n) type s' = Some (Some r, s')"
proof (rule rt_object_init_run [OF assms(1,3)])
  fix info ob
  assume h: "rt_object_get_information type = Some info"
    "set_name (Some n) ((objs s r)\<lparr>o_type := type OR RT_Object_Class_Static\<rparr>) = Some ob"
    "s' = s\<lparr>objs := (objs s)(r := ob), containers := st_push info r (containers s)\<rparr>"
  then have "o_name ob = take (RT_NAME_MAX - 1) n" by (auto simp: set_name_Some)
  with h assms show ?thesis by (simp add: rt_object_find_run)
qed

lemma rt_object_find_after_init_witness:
  "\<exists>s'. rt_object_init (OSem 1) RT_Object_Class_Semaphore (Some ''rx'') blank_kst = Some s'
     \<and> rt_object_find (Some ''rx'') RT_Object_Class_Semaphore s' = Some (Some (OSem 1), s')"
proof -
  let ?s = "blank_kst"
  have c: "crit_ok ?s" "irq_nest ?s = 0" by (simp_all add: crit_ok_def blank_kst_def)
  obtain s' where s': "rt_object_init (OSem 1) RT_Object_Class_Semaphore (Some ''rx'') ?s = Some s'"
    using c(1) by (simp add: rt_object_init_def with_lock_push rt_object_get_information_def
        object_container_def class_defs set_name_def RT_NAME_MAX_def blank_kst_def crit_ok_def)
  with rt_object_find_after_init [OF c s'] show ?thesis by blast
qed



end
