(* ===== verification/TimerOps.thy ===== *)
theory TimerOps
  imports RtObject
begin

text \<open>
  Timers (rt-thread/src/timer.c) up to the processing of expired ones: initialisation, starting,
  stopping and control. With \<open>RT_TIMER_SKIP_LIST_LEVEL = 1\<close> a timer is on one list, and a list is kept in the order
  of the ticks at which its timers expire. Ticks are 32-bit and wrap, so "earlier" is decided by the sign of a
  difference. The flags of a timer are those of its object.
\<close>

definition rt_tick_get :: "kst \<Rightarrow> u32" where
  "rt_tick_get s = tick s"

definition HALF_TICKS :: u32 where
  \<comment> \<open>\<open>RT_TICK_MAX / 2\<close>\<close>
  "HALF_TICKS = RT_TICK_MAX div 2"

definition tm_flag :: "tmid \<Rightarrow> kst \<Rightarrow> u8" where
  "tm_flag tm s = o_flag (objs s (OTimer tm))"

definition tm_has :: "u8 \<Rightarrow> tmid \<Rightarrow> kst \<Rightarrow> bool" where
  "tm_has m tm s \<longleftrightarrow> tm_flag tm s AND m \<noteq> 0"

definition tm_clear :: "u8 \<Rightarrow> tmid \<Rightarrow> kst \<Rightarrow> kst" where
  "tm_clear m tm s = upd_obj (OTimer tm) (\<lambda>ob. ob\<lparr>o_flag := o_flag ob AND NOT m\<rparr>) s"

definition tm_set :: "u8 \<Rightarrow> tmid \<Rightarrow> kst \<Rightarrow> kst" where
  "tm_set m tm s = upd_obj (OTimer tm) (\<lambda>ob. ob\<lparr>o_flag := o_flag ob OR m\<rparr>) s"

definition timer_list_of :: "tmid \<Rightarrow> kst \<Rightarrow> tmhead" where
  "timer_list_of tm s = (if tm_has RT_TIMER_FLAG_SOFT_TIMER tm s then SoftTimers else HardTimers)"

definition timer_init_fields :: "tmid \<Rightarrow> timeout_func \<Rightarrow> nat \<Rightarrow> u32 \<Rightarrow> u8 \<Rightarrow> kst \<Rightarrow> kst" where
  \<comment> \<open>\<open>_timer_init\<close>\<close>
  "timer_init_fields tm timeout parameter time flag s =
     (let s = upd_obj (OTimer tm) (\<lambda>ob. ob\<lparr>o_flag := flag\<rparr>) s;
          s = tm_clear RT_TIMER_FLAG_ACTIVATED tm s;
          s = upd_timer tm (\<lambda>_. \<lparr>tm_func = timeout, tm_parameter = parameter,
                                 tm_init_tick = time, tm_timeout_tick = 0\<rparr>) s
      in upd_tmlists (st_remove tm) s)"

definition timer_list_next_timeout :: "tmhead \<Rightarrow> kst \<Rightarrow> u32 option" where
  \<comment> \<open>\<open>None\<close> for \<open>-RT_ERROR\<close>\<close>
  "timer_list_next_timeout h s =
     (case tmlists s h of [] \<Rightarrow> None | t # _ \<Rightarrow> Some (tm_timeout_tick (timers s t)))"

definition timer_remove :: "tmid \<Rightarrow> kst \<Rightarrow> kst" where
  "timer_remove tm s = upd_tmlists (st_remove tm) s"

definition rt_timer_init :: "tmid \<Rightarrow> string option \<Rightarrow> timeout_func \<Rightarrow> nat \<Rightarrow> u32 \<Rightarrow> u8 \<Rightarrow> kst \<Rightarrow> kst option" where
  "rt_timer_init tm name timeout parameter time flag s = do {
     rt_assert (time < HALF_TICKS);
     s \<leftarrow> rt_object_init (OTimer tm) RT_Object_Class_Timer name s;
     Some (timer_init_fields tm timeout parameter time flag s)
   }"

definition rt_timer_detach :: "tmid \<Rightarrow> kst \<Rightarrow> (int \<times> kst) option" where
  "rt_timer_detach tm s = do {
     rt_assert (rt_object_get_type (OTimer tm) s = RT_Object_Class_Timer);
     rt_assert (rt_object_is_systemobject (OTimer tm) s);
     s \<leftarrow> with_lock (\<lambda>s. tm_clear RT_TIMER_FLAG_ACTIVATED tm (timer_remove tm s)) s;
     s \<leftarrow> rt_object_detach (OTimer tm) s;
     Some (RT_EOK, s)
   }"

definition rt_timer_create ::
  "nat option \<Rightarrow> string option \<Rightarrow> timeout_func \<Rightarrow> nat \<Rightarrow> u32 \<Rightarrow> u8 \<Rightarrow> kst \<Rightarrow> (nat option \<times> kst) option" where
  \<comment> \<open>\<open>block\<close>: the timer the heap has room for\<close>
  "rt_timer_create block name timeout parameter time flag s = do {
     rt_assert (time < HALF_TICKS);
     (r, s) \<leftarrow> rt_object_allocate (map_option (\<lambda>n. OTimer (UserTimer n)) block) RT_Object_Class_Timer name s;
     case block of
       None \<Rightarrow> Some (None, s)
     | Some n \<Rightarrow> Some (Some n, timer_init_fields (UserTimer n) timeout parameter time flag s)
   }"

definition rt_timer_delete :: "tmid \<Rightarrow> kst \<Rightarrow> (int \<times> kst) option" where
  "rt_timer_delete tm s = do {
     rt_assert (rt_object_get_type (OTimer tm) s = RT_Object_Class_Timer);
     rt_assert (\<not> rt_object_is_systemobject (OTimer tm) s);
     s \<leftarrow> with_lock (\<lambda>s. tm_clear RT_TIMER_FLAG_ACTIVATED tm (timer_remove tm s)) s;
     s \<leftarrow> rt_object_delete (OTimer tm) s;
     Some (RT_EOK, s)
   }"

definition later_than :: "u32 \<Rightarrow> (tmid \<Rightarrow> rt_timer) \<Rightarrow> tmid \<Rightarrow> bool" where
  \<comment> \<open>the test that ends the walk over the list in \<open>_timer_start\<close>\<close>
  "later_than timeout tms t \<longleftrightarrow>
     (let d = tm_timeout_tick (tms t) - timeout in d \<noteq> 0 \<and> d < HALF_TICKS)"

definition timer_start :: "tmhead \<Rightarrow> tmid \<Rightarrow> kst \<Rightarrow> kst" where
  \<comment> \<open>\<open>_timer_start\<close>\<close>
  "timer_start h tm s =
     (let s = timer_remove tm s;
          s = tm_clear RT_TIMER_FLAG_ACTIVATED tm s;
          s = upd_timer tm (\<lambda>t. t\<lparr>tm_timeout_tick := rt_tick_get s + tm_init_tick t\<rparr>) s;
          timeout = tm_timeout_tick (timers s tm);
          s = s\<lparr>random_nr := random_nr s + 1\<rparr>;
          s = upd_tmlists (\<lambda>ls. ls(h := ins_before (later_than timeout (timers s)) tm (ls h))) s
      in tm_set RT_TIMER_FLAG_ACTIVATED tm s)"

definition rt_sched_thread_timer_start :: "nat \<Rightarrow> kst \<Rightarrow> kst" where
  "rt_sched_thread_timer_start t s = upd_tcb t (\<lambda>b. b\<lparr>t_ttmr_set := True\<rparr>) s"

definition rt_timer_start :: "tmid \<Rightarrow> kst \<Rightarrow> (int \<times> kst) option" where
  "rt_timer_start tm s = do {
     rt_assert (rt_object_get_type (OTimer tm) s = RT_Object_Class_Timer);
     let h = timer_list_of tm s;
     s \<leftarrow> (if tm_has RT_TIMER_FLAG_THREAD_TIMER tm s then
             (case tm of
                ThreadTimer t \<Rightarrow> do {
                  rt_assert (rt_object_get_type (OThread t) s = RT_Object_Class_Thread);
                  Some (rt_sched_thread_timer_start t s)
                }
              | UserTimer _ \<Rightarrow> None)
           else Some s);
     s \<leftarrow> with_lock (timer_start h tm) s;
     Some (RT_EOK, s)
   }"

definition rt_timer_stop :: "tmid \<Rightarrow> kst \<Rightarrow> (int \<times> kst) option" where
  "rt_timer_stop tm s = do {
     rt_assert (rt_object_get_type (OTimer tm) s = RT_Object_Class_Timer);
     let s = rt_spin_lock s;
     if \<not> tm_has RT_TIMER_FLAG_ACTIVATED tm s then do {
       s \<leftarrow> rt_spin_unlock s;
       Some (- RT_ERROR, s)
     } else do {
       let s = tm_clear RT_TIMER_FLAG_ACTIVATED tm (timer_remove tm s);
       s \<leftarrow> rt_spin_unlock s;
       Some (RT_EOK, s)
     }
   }"

datatype timer_cmd =
    TIMER_GET_TIME | TIMER_SET_TIME u32 | TIMER_SET_ONESHOT | TIMER_SET_PERIODIC | TIMER_GET_STATE
  | TIMER_GET_REMAIN_TIME | TIMER_GET_FUNC | TIMER_SET_FUNC timeout_func
  | TIMER_GET_PARM | TIMER_SET_PARM nat | TIMER_OTHER

datatype timer_arg = NoArg | TickArg u32 | FuncArg timeout_func | ParmArg nat

definition timer_control_body :: "tmid \<Rightarrow> timer_cmd \<Rightarrow> kst \<Rightarrow> timer_arg \<times> kst" where
  \<comment> \<open>the switch of \<open>rt_timer_control\<close>, and what it stores through \<open>arg\<close>\<close>
  "timer_control_body tm cmd s =
     (case cmd of
        TIMER_GET_TIME \<Rightarrow> (TickArg (tm_init_tick (timers s tm)), s)
      | TIMER_SET_TIME v \<Rightarrow>
          (let s = (if tm_has RT_TIMER_FLAG_ACTIVATED tm s
                    then tm_clear RT_TIMER_FLAG_ACTIVATED tm (timer_remove tm s) else s)
           in (NoArg, upd_timer tm (\<lambda>t. t\<lparr>tm_init_tick := v\<rparr>) s))
      | TIMER_SET_ONESHOT \<Rightarrow> (NoArg, tm_clear RT_TIMER_FLAG_PERIODIC tm s)
      | TIMER_SET_PERIODIC \<Rightarrow> (NoArg, tm_set RT_TIMER_FLAG_PERIODIC tm s)
      | TIMER_GET_STATE \<Rightarrow> (TickArg (if tm_has RT_TIMER_FLAG_ACTIVATED tm s then 1 else 0), s)
      | TIMER_GET_REMAIN_TIME \<Rightarrow> (TickArg (tm_timeout_tick (timers s tm)), s)
      | TIMER_GET_FUNC \<Rightarrow> (FuncArg (tm_func (timers s tm)), s)
      | TIMER_SET_FUNC f \<Rightarrow> (NoArg, upd_timer tm (\<lambda>t. t\<lparr>tm_func := f\<rparr>) s)
      | TIMER_GET_PARM \<Rightarrow> (ParmArg (tm_parameter (timers s tm)), s)
      | TIMER_SET_PARM p \<Rightarrow> (NoArg, upd_timer tm (\<lambda>t. t\<lparr>tm_parameter := p\<rparr>) s)
      | TIMER_OTHER \<Rightarrow> (NoArg, s))"

definition rt_timer_control :: "tmid \<Rightarrow> timer_cmd \<Rightarrow> kst \<Rightarrow> ((int \<times> timer_arg) \<times> kst) option" where
  "rt_timer_control tm cmd s = do {
     rt_assert (rt_object_get_type (OTimer tm) s = RT_Object_Class_Timer);
     let s = rt_spin_lock s;
     rt_assert (case cmd of TIMER_SET_TIME v \<Rightarrow> v < HALF_TICKS | _ \<Rightarrow> True);
     let (out, s) = timer_control_body tm cmd s;
     s \<leftarrow> rt_spin_unlock s;
     Some ((RT_EOK, out), s)
   }"

definition rt_timer_next_timeout_tick :: "kst \<Rightarrow> (u32 \<times> kst) option" where
  "rt_timer_next_timeout_tick s = do {
     let s = rt_spin_lock s;
     let htimer = (case timer_list_next_timeout HardTimers s of None \<Rightarrow> RT_TICK_MAX | Some t \<Rightarrow> t);
     s \<leftarrow> rt_spin_unlock s;
     let s = rt_spin_lock s;
     let stimer = (case timer_list_next_timeout SoftTimers s of None \<Rightarrow> RT_TICK_MAX | Some t \<Rightarrow> t);
     s \<leftarrow> rt_spin_unlock s;
     Some (if htimer < stimer then htimer else stimer, s)
   }"

definition rt_system_timer_init :: "kst \<Rightarrow> kst" where
  "rt_system_timer_init s = upd_tmlists (\<lambda>ls. ls(HardTimers := [])) s"

subsection \<open>Flags\<close>

lemma tm_flag_upd [simp]:
  "tm_flag tm' (tm_clear m tm s) = (if tm' = tm then tm_flag tm s AND NOT m else tm_flag tm' s)"
  "tm_flag tm' (tm_set m tm s) = (if tm' = tm then tm_flag tm s OR m else tm_flag tm' s)"
  by (auto simp: tm_flag_def tm_clear_def tm_set_def)

lemma tm_upd_fields [simp]:
  "tcbs (tm_clear m tm s) = tcbs s" "tcbs (tm_set m tm s) = tcbs s"
  "tlists (tm_clear m tm s) = tlists s" "tlists (tm_set m tm s) = tlists s"
  "tmlists (tm_clear m tm s) = tmlists s" "tmlists (tm_set m tm s) = tmlists s"
  "timers (tm_clear m tm s) = timers s" "timers (tm_set m tm s) = timers s"
  "ready_group (tm_clear m tm s) = ready_group s" "ready_group (tm_set m tm s) = ready_group s"
  "current (tm_clear m tm s) = current s" "current (tm_set m tm s) = current s"
  "lock_nest (tm_clear m tm s) = lock_nest s" "lock_nest (tm_set m tm s) = lock_nest s"
  "crit_flag (tm_clear m tm s) = crit_flag s" "crit_flag (tm_set m tm s) = crit_flag s"
  "tick (tm_clear m tm s) = tick s" "tick (tm_set m tm s) = tick s"
  "irq_nest (tm_clear m tm s) = irq_nest s" "irq_nest (tm_set m tm s) = irq_nest s"
  "takens (tm_clear m tm s) = takens s" "takens (tm_set m tm s) = takens s"
  "sems (tm_clear m tm s) = sems s" "sems (tm_set m tm s) = sems s"
  "mutexes (tm_clear m tm s) = mutexes s" "mutexes (tm_set m tm s) = mutexes s"
  by (simp_all add: tm_clear_def tm_set_def)

lemma tm_has_lock [simp]:
  "tm_flag tm (rt_spin_lock s) = tm_flag tm s" "tm_has m tm (rt_spin_lock s) = tm_has m tm s"
  by (simp_all add: tm_flag_def tm_has_def)

lemma tm_flag_irrelevant [simp]:
  "tm_flag tm (timer_remove tm' s) = tm_flag tm s"
  "tm_flag tm (s\<lparr>tcbs := c\<rparr>) = tm_flag tm s" "tm_flag tm (s\<lparr>timers := v\<rparr>) = tm_flag tm s"
  "tm_flag tm (s\<lparr>tmlists := w\<rparr>) = tm_flag tm s" "tm_flag tm (s\<lparr>random_nr := n\<rparr>) = tm_flag tm s"
  by (simp_all add: tm_flag_def timer_remove_def)

lemma o_type_tm [simp]:
  "o_type (objs (tm_clear m tm s) r) = o_type (objs s r)"
  "o_type (objs (tm_set m tm s) r) = o_type (objs s r)"
  by (auto simp: tm_clear_def tm_set_def)

lemma rt_object_get_type_cong: "o_type (objs s' r) = o_type (objs s r) \<Longrightarrow> rt_object_get_type r s' = rt_object_get_type r s"
  by (simp add: rt_object_get_type_def)

lemma rt_object_get_type_tm [simp]:
  "rt_object_get_type r (tm_clear m tm s) = rt_object_get_type r s"
  "rt_object_get_type r (tm_set m tm s) = rt_object_get_type r s"
  "rt_object_get_type r (timer_remove tm s) = rt_object_get_type r s"
  "rt_object_get_type r (rt_spin_lock s) = rt_object_get_type r s"
  by (simp_all add: rt_object_get_type_def timer_remove_def)

lemma timer_remove_fields [simp]:
  "tmlists (timer_remove tm s) = st_remove tm (tmlists s)" "timers (timer_remove tm s) = timers s"
  "tcbs (timer_remove tm s) = tcbs s" "tlists (timer_remove tm s) = tlists s"
  "ready_group (timer_remove tm s) = ready_group s" "current (timer_remove tm s) = current s"
  "lock_nest (timer_remove tm s) = lock_nest s" "crit_flag (timer_remove tm s) = crit_flag s"
  "tick (timer_remove tm s) = tick s" "objs (timer_remove tm s) = objs s"
  "irq_nest (timer_remove tm s) = irq_nest s" "takens (timer_remove tm s) = takens s"
  "sems (timer_remove tm s) = sems s" "mutexes (timer_remove tm s) = mutexes s"
  by (simp_all add: timer_remove_def)

subsection \<open>Stopping and starting\<close>

definition timer_off :: "tmid \<Rightarrow> kst \<Rightarrow> kst" where
  \<comment> \<open>off its list and inactive\<close>
  "timer_off tm s = tm_clear RT_TIMER_FLAG_ACTIVATED tm (timer_remove tm s)"

lemma lock_neutral_timer [simp]:
  "lock_neutral (timer_off tm)" "lock_neutral (timer_start h tm)"
  "lock_neutral (\<lambda>s. tm_clear RT_TIMER_FLAG_ACTIVATED tm (timer_remove tm s))"
  by (simp_all add: lock_neutral_def timer_off_def tm_clear_def tm_set_def timer_remove_def timer_start_def
      Let_def rt_tick_get_def)

abbreviation is_timer :: "tmid \<Rightarrow> kst \<Rightarrow> bool" where
  "is_timer tm s \<equiv> rt_object_get_type (OTimer tm) s = RT_Object_Class_Timer"

lemma rt_timer_stop_run:
  assumes c: "crit_ok s" and t: "is_timer tm s"
  shows "rt_timer_stop tm s =
    Some (if tm_has RT_TIMER_FLAG_ACTIVATED tm s then (RT_EOK, timer_off tm s) else (- RT_ERROR, s))"
  using with_lock_run [OF lock_neutral_timer(1) c, of tm] c t
  by (auto simp: rt_timer_stop_def with_lock_def timer_off_def)

lemma rt_timer_start_run:
  assumes c: "crit_ok s" and t: "is_timer tm s"
  shows "rt_timer_start tm s =
    (if tm_has RT_TIMER_FLAG_THREAD_TIMER tm s then
       (case tm of
          ThreadTimer t \<Rightarrow>
            if rt_object_get_type (OThread t) s = RT_Object_Class_Thread
            then Some (RT_EOK, timer_start (timer_list_of tm s) tm (rt_sched_thread_timer_start t s)) else None
        | UserTimer _ \<Rightarrow> None)
     else Some (RT_EOK, timer_start (timer_list_of tm s) tm s))"
  using c t
  by (auto simp: rt_timer_start_def with_lock_run rt_sched_thread_timer_start_def rt_assert_def split: tmid.splits)

lemma timer_start_fields [simp]:
  "tcbs (timer_start h tm s) = tcbs s" "tlists (timer_start h tm s) = tlists s"
  "ready_group (timer_start h tm s) = ready_group s" "current (timer_start h tm s) = current s"
  "lock_nest (timer_start h tm s) = lock_nest s" "crit_flag (timer_start h tm s) = crit_flag s"
  "irq_nest (timer_start h tm s) = irq_nest s" "takens (timer_start h tm s) = takens s"
  "tick (timer_start h tm s) = tick s"
  "sems (timer_start h tm s) = sems s" "mutexes (timer_start h tm s) = mutexes s"
  "rt_object_get_type r (timer_start h tm s) = rt_object_get_type r s"
  by (simp_all add: timer_start_def Let_def rt_object_get_type_def)

lemma timer_off_fields [simp]:
  "tcbs (timer_off tm s) = tcbs s" "tlists (timer_off tm s) = tlists s"
  "ready_group (timer_off tm s) = ready_group s" "current (timer_off tm s) = current s"
  "lock_nest (timer_off tm s) = lock_nest s" "crit_flag (timer_off tm s) = crit_flag s"
  "irq_nest (timer_off tm s) = irq_nest s" "takens (timer_off tm s) = takens s"
  "tick (timer_off tm s) = tick s" "timers (timer_off tm s) = timers s"
  "tmlists (timer_off tm s) = st_remove tm (tmlists s)"
  "sems (timer_off tm s) = sems s" "mutexes (timer_off tm s) = mutexes s"
  "rt_object_get_type r (timer_off tm s) = rt_object_get_type r s"
  by (simp_all add: timer_off_def)

lemma timer_start_list:
  "tmlists (timer_start h tm s) h' =
     (let others = removeAll tm (tmlists s h') in
      if h' = h
      then ins_before (later_than (tick s + tm_init_tick (timers s tm))
                         ((timers s)(tm := (timers s tm)\<lparr>tm_timeout_tick := tick s + tm_init_tick (timers s tm)\<rparr>)))
             tm others
      else others)"
  by (simp add: timer_start_def Let_def rt_tick_get_def)

lemma timer_start_timeout:
  "tm_timeout_tick (timers (timer_start h tm s) t) =
     (if t = tm then tick s + tm_init_tick (timers s tm) else tm_timeout_tick (timers s t))"
  by (auto simp: timer_start_def Let_def rt_tick_get_def)

lemma timer_start_flag:
  "tm_flag t (timer_start h tm s) = (if t = tm then tm_flag tm s OR RT_TIMER_FLAG_ACTIVATED else tm_flag t s)"
  by (auto simp: timer_start_def Let_def RT_TIMER_FLAG_ACTIVATED_def bit_eq_iff bit_simps)

subsection \<open>The order of a timer list\<close>

definition ticks_until :: "u32 \<Rightarrow> kst \<Rightarrow> tmid \<Rightarrow> nat" where
  "ticks_until base s t = unat (tm_timeout_tick (timers s t) - base)"

definition timers_sorted :: "u32 \<Rightarrow> tmhead \<Rightarrow> kst \<Rightarrow> bool" where
  \<comment> \<open>from \<open>base\<close> on, all timers of the list expire within half the range of ticks, and in list order\<close>
  "timers_sorted base h s \<longleftrightarrow>
     (\<forall>t \<in> set (tmlists s h). ticks_until base s t < unat HALF_TICKS) \<and>
     sorted (map (ticks_until base s) (tmlists s h))"

lemma HALF_TICKS_val: "HALF_TICKS = 0x7fffffff"
  by (simp add: HALF_TICKS_def RT_TICK_MAX_def)

lemma half_diff:
  fixes a b base :: u32
  assumes "unat (a - base) < unat HALF_TICKS" and "unat (b - base) < unat HALF_TICKS"
  shows "(a - b \<noteq> 0 \<and> a - b < HALF_TICKS) \<longleftrightarrow> unat (b - base) < unat (a - base)"
proof -
  define x y where "x = a - base" and "y = b - base"
  have ab: "a - b = x - y" by (simp add: x_def y_def)
  have b: "unat x < 2147483647" "unat y < 2147483647"
    using assms by (simp_all add: x_def y_def HALF_TICKS_val)
  have H: "unat (0x7fffffff :: u32) = 2147483647" by simp
  show ?thesis
  proof (cases "y \<le> x")
    case True
    then have "unat (x - y) = unat x - unat y" by (rule unat_sub)
    with b True show ?thesis
      unfolding ab HALF_TICKS_val x_def [symmetric] y_def [symmetric]
      using word_unat_eq_iff [of x y] by (auto simp: word_less_nat_alt word_le_nat_alt)
  next
    case False
    then have lt: "unat x < unat y" by (simp add: word_less_nat_alt not_le)
    then have "unat (x - y) = 2 ^ 32 + unat x - unat y"
      by (subst unat_sub_if') (auto simp: word_le_nat_alt)
    with b lt show ?thesis
      unfolding ab HALF_TICKS_val x_def [symmetric] y_def [symmetric]
      by (auto simp: word_less_nat_alt)
  qed
qed

lemma sorted_ins_before:
  assumes "sorted (map f xs)"
  shows "sorted (map f (ins_before (\<lambda>x. f n < f x) n xs))"
  using assms
proof (induction xs)
  case (Cons x xs)
  then show ?case by (fastforce simp: set_ins_before)
qed simp

lemma dropWhile_sorted:
  "sorted (map f xs) \<Longrightarrow> u \<in> set (dropWhile (\<lambda>x. \<not> c < f x) xs) \<Longrightarrow> (c :: nat) < f u"
  by (induction xs) (auto split: if_splits)

lemma ins_before_cong:
  "(\<And>x. x \<in> set xs \<Longrightarrow> P x = Q x) \<Longrightarrow> ins_before P n xs = ins_before Q n xs"
  by (induction xs) auto

lemma timer_start_sorted:
  assumes so: "timers_sorted base h s"
    and new: "unat (tick s + tm_init_tick (timers s tm) - base) < unat HALF_TICKS"
  shows "timers_sorted base h (timer_start h tm s)"
    and "tmlists (timer_start h tm s) h =
      ins_before (\<lambda>t. unat (tick s + tm_init_tick (timers s tm) - base) < ticks_until base s t) tm
        (removeAll tm (tmlists s h))"
proof -
  let ?new = "tick s + tm_init_tick (timers s tm)" and ?s' = "timer_start h tm s"
  let ?f = "ticks_until base ?s'" and ?others = "removeAll tm (tmlists s h)"
  have f: "?f t = (if t = tm then unat (?new - base) else ticks_until base s t)" for t
    by (simp add: ticks_until_def timer_start_timeout)
  have fo: "map ?f ?others = map (ticks_until base s) ?others" by (simp add: f)
  have "sorted (map (ticks_until base s) ?others)"
    using so sorted_filter [of "ticks_until base s" "tmlists s h"]
    by (simp add: timers_sorted_def removeAll_filter_not_eq)
  then have so': "sorted (map ?f ?others)" by (simp only: fo)
  have later: "later_than ?new ((timers s)(tm := (timers s tm)\<lparr>tm_timeout_tick := ?new\<rparr>)) t \<longleftrightarrow> ?f tm < ?f t"
    if "t \<in> set ?others" for t
    using half_diff [of "tm_timeout_tick (timers s t)" base ?new] so new that
    by (simp add: later_than_def Let_def f) (simp add: ticks_until_def timers_sorted_def)
  have l: "tmlists ?s' h = ins_before (\<lambda>t. ?f tm < ?f t) tm ?others"
    using ins_before_cong [OF later, where xs = ?others and n = tm] by (simp add: timer_start_list Let_def)
  show "timers_sorted base h ?s'"
    unfolding timers_sorted_def l
    using sorted_ins_before [OF so', of tm] so new by (auto simp: f timers_sorted_def)
  show "tmlists ?s' h = ins_before (\<lambda>t. unat (?new - base) < ticks_until base s t) tm ?others"
    unfolding l by (rule ins_before_cong) (auto simp: f)
qed

subsection \<open>Soundness of the timer lists\<close>

definition timers_ok :: "kst \<Rightarrow> bool" where
  \<comment> \<open>a timer is on at most one list, and a timer on the hard or soft list is active and on the list of its kind\<close>
  "timers_ok s \<longleftrightarrow> store_ok (tmlists s) \<and>
     (\<forall>tm h. tm \<in> set (tmlists s h) \<longrightarrow>
        (h = HardTimers \<or> h = SoftTimers \<longrightarrow> tm_has RT_TIMER_FLAG_ACTIVATED tm s \<and> h = timer_list_of tm s))"

lemma activated_set: "(f OR (1 :: u8)) AND 1 \<noteq> 0" "(f OR (1 :: u8)) AND 4 = f AND 4"
  by (simp_all add: bit.conj_disj_distrib2 word_ao_absorbs)

lemma timer_list_of_start [simp]: "timer_list_of t (timer_start h tm s) = timer_list_of t s"
  using activated_set(2) by (auto simp: timer_list_of_def tm_has_def timer_start_flag
      RT_TIMER_FLAG_ACTIVATED_def RT_TIMER_FLAG_SOFT_TIMER_def)

lemma timer_off_flag: "tm_flag t (timer_off tm s) = (if t = tm then tm_flag t s AND NOT RT_TIMER_FLAG_ACTIVATED else tm_flag t s)"
  by (simp add: timer_off_def)

lemma timer_list_of_off [simp]: "timer_list_of t (timer_off tm s) = timer_list_of t s"
proof -
  have "f AND NOT 1 AND 4 = f AND (4 :: u8)" for f by (simp add: and.assoc)
  then show ?thesis
    by (auto simp: timer_list_of_def tm_has_def timer_off_flag RT_TIMER_FLAG_ACTIVATED_def
        RT_TIMER_FLAG_SOFT_TIMER_def and.assoc)
qed

lemma timer_start_active [simp]: "tm_has RT_TIMER_FLAG_ACTIVATED t (timer_start h tm s) \<longleftrightarrow> t = tm \<or> tm_has RT_TIMER_FLAG_ACTIVATED t s"
  using activated_set(1) by (auto simp: tm_has_def timer_start_flag RT_TIMER_FLAG_ACTIVATED_def)

lemma timer_off_inactive [simp]: "tm_has RT_TIMER_FLAG_ACTIVATED t (timer_off tm s) \<longleftrightarrow> t \<noteq> tm \<and> tm_has RT_TIMER_FLAG_ACTIVATED t s"
  by (auto simp: tm_has_def timer_off_flag RT_TIMER_FLAG_ACTIVATED_def and.assoc)

lemma timers_ok_off: "timers_ok s \<Longrightarrow> timers_ok (timer_off tm s)"
  by (auto simp: timers_ok_def)

lemma timers_ok_start:
  assumes "timers_ok s" and h: "h = timer_list_of tm s"
  shows "timers_ok (timer_start h tm s)"
proof -
  have ls: "tmlists (timer_start h tm s) = (st_remove tm (tmlists s))(h := tmlists (timer_start h tm s) h)"
    by (rule ext) (simp add: timer_start_list Let_def)
  have "store_ok ((st_remove tm (tmlists s))(h := tmlists (timer_start h tm s) h))"
    using assms(1) by (intro store_ok_upd_insert)
      (auto simp: timers_ok_def timer_start_list Let_def distinct_removeAll store_okD)
  with ls have "store_ok (tmlists (timer_start h tm s))" by simp
  with assms show ?thesis
    by (auto simp: timers_ok_def timer_start_list Let_def split: if_splits)
qed

lemma timers_ok_cong:
  "tmlists s' = tmlists s \<Longrightarrow> objs s' = objs s \<Longrightarrow> timers_ok s' = timers_ok s"
  by (simp add: timers_ok_def timer_list_of_def tm_has_def tm_flag_def)

subsection \<open>Properties\<close>

definition demo_timers :: kst where
  \<comment> \<open>ten ticks before the counter wraps: timers 1 and 2 expire before and after the wrap\<close>
  "demo_timers = blank_kst\<lparr>
     objs := (\<lambda>_. \<lparr>o_type = 0, o_flag = 0, o_name = []\<rparr>)(
       OTimer (UserTimer 1) := \<lparr>o_type = 0x8a, o_flag = 1, o_name = []\<rparr>,
       OTimer (UserTimer 2) := \<lparr>o_type = 0x8a, o_flag = 1, o_name = []\<rparr>,
       OTimer (UserTimer 3) := \<lparr>o_type = 0x8a, o_flag = 0, o_name = []\<rparr>),
     tick := 0xfffffff6,
     timers := (\<lambda>_. \<lparr>tm_func = User_func 0, tm_parameter = 0, tm_init_tick = 0, tm_timeout_tick = 0\<rparr>)(
       UserTimer 1 := \<lparr>tm_func = User_func 1, tm_parameter = 0, tm_init_tick = 5, tm_timeout_tick = 0xfffffffb\<rparr>,
       UserTimer 2 := \<lparr>tm_func = User_func 2, tm_parameter = 0, tm_init_tick = 20, tm_timeout_tick = 10\<rparr>,
       UserTimer 3 := \<lparr>tm_func = User_func 3, tm_parameter = 0, tm_init_tick = 15, tm_timeout_tick = 0\<rparr>),
     tmlists := (\<lambda>_. [])(HardTimers := [UserTimer 1, UserTimer 2])\<rparr>"



end
