(* ===== verification/SchedComm.thy ===== *)
theory SchedComm
  imports TimerOps
begin

text \<open>
  The part of the scheduler common to all ports (rt-thread/src/scheduler_comm.c): the status and
  priority of a thread, making a suspended thread ready, the time slice, and changing priorities.
  The kernel invariant \<open>kinv\<close> adds to \<open>sched_inv\<close> what waking a thread relies on: a live thread is a
  registered object with a registered timer, and a suspended thread that waits with a timeout has an
  active timer.
\<close>

definition rt_sched_thread_init_ctx :: "nat \<Rightarrow> u32 \<Rightarrow> u8 \<Rightarrow> kst \<Rightarrow> kst option" where
  "rt_sched_thread_init_ctx t ticks priority s = do {
     let s = upd_tcb t (\<lambda>b. b\<lparr>t_stat := RT_THREAD_INIT\<rparr>) s;
     rt_sched_thread_init_priv t ticks priority s
   }"

definition rt_sched_thread_timer_stop :: "nat \<Rightarrow> kst \<Rightarrow> (int \<times> kst) option" where
  "rt_sched_thread_timer_stop t s =
     (if t_ttmr_set (tcbs s t) then do {
        (error, s) \<leftarrow> rt_timer_stop (ThreadTimer t) s;
        Some (error, upd_tcb t (\<lambda>b. b\<lparr>t_ttmr_set := False\<rparr>) s)
      } else Some (RT_EOK, s))"

definition rt_sched_thread_get_stat :: "nat \<Rightarrow> kst \<Rightarrow> u8" where
  "rt_sched_thread_get_stat t s = stat_of (tcbs s t)"

definition rt_sched_thread_get_curr_prio :: "nat \<Rightarrow> kst \<Rightarrow> u8" where
  "rt_sched_thread_get_curr_prio t s = t_current_priority (tcbs s t)"

definition rt_sched_thread_get_init_prio :: "nat \<Rightarrow> kst \<Rightarrow> u8" where
  "rt_sched_thread_get_init_prio t s = t_init_priority (tcbs s t)"

definition rt_sched_thread_is_suspended :: "nat \<Rightarrow> kst \<Rightarrow> bool" where
  "rt_sched_thread_is_suspended t s \<longleftrightarrow> susp_stat (tcbs s t)"

definition rt_sched_thread_close :: "nat \<Rightarrow> kst \<Rightarrow> kst" where
  "rt_sched_thread_close t s = upd_tcb t (\<lambda>b. b\<lparr>t_stat := RT_THREAD_CLOSE\<rparr>) s"

definition rt_sched_thread_yield :: "nat \<Rightarrow> kst \<Rightarrow> kst" where
  "rt_sched_thread_yield t s =
     upd_tcb t (\<lambda>b. b\<lparr>t_remaining_tick := t_init_tick b, t_stat := t_stat b OR RT_THREAD_STAT_YIELD\<rparr>) s"

definition rt_sched_thread_ready :: "nat \<Rightarrow> kst \<Rightarrow> (int \<times> kst) option" where
  "rt_sched_thread_ready t s =
     (if \<not> rt_sched_thread_is_suspended t s then Some (- RT_EINVAL, s)
      else do {
        (error, s) \<leftarrow> (if t_ttmr_set (tcbs s t) then rt_sched_thread_timer_stop t s
                         else Some (RT_EOK, s));
        if error = RT_EOK then do {
          let s = upd_tlists (st_remove t) s;
          Some (error, rt_sched_insert_thread t s)
        } else Some (error, s)
      })"

definition rt_sched_tick_increase :: "u32 \<Rightarrow> kst \<Rightarrow> (int \<times> kst) option" where
  "rt_sched_tick_increase ticks s = do {
     t \<leftarrow> rt_thread_self s;
     let s = upd_tcb t (\<lambda>b. if t_remaining_tick b > ticks
                            then b\<lparr>t_remaining_tick := t_remaining_tick b - ticks\<rparr>
                            else b\<lparr>t_remaining_tick := 0\<rparr>) s;
     if t_remaining_tick (tcbs s t) \<noteq> 0 then Some (RT_EOK, s)
     else do {
       let s = rt_sched_thread_yield t s;
       s \<leftarrow> rt_sched_unlock_n_resched s;
       Some (RT_EOK, s)
     }
   }"

definition rt_sched_update_priority :: "nat \<Rightarrow> u8 \<Rightarrow> bool \<Rightarrow> kst \<Rightarrow> (int \<times> kst) option" where
  "rt_sched_update_priority t priority update_init_prio s = do {
     rt_assert (unat priority < RT_THREAD_PRIORITY_MAX);
     let set_prio = (\<lambda>b. (if update_init_prio then b\<lparr>t_init_priority := priority\<rparr> else b)
                          \<lparr>t_current_priority := priority, t_number_mask := push_bit (unat priority) 1\<rparr>);
     if stat_of (tcbs s t) = RT_THREAD_READY then do {
       let s = rt_sched_remove_thread t s;
       let s = upd_tcb t set_prio s;
       let s = upd_tcb t (\<lambda>b. b\<lparr>t_stat := RT_THREAD_INIT\<rparr>) s;
       Some (RT_EOK, rt_sched_insert_thread t s)
     } else Some (RT_EOK, upd_tcb t set_prio s)
   }"

definition rt_sched_thread_change_priority :: "nat \<Rightarrow> u8 \<Rightarrow> kst \<Rightarrow> (int \<times> kst) option" where
  "rt_sched_thread_change_priority t priority s = rt_sched_update_priority t priority False s"

definition rt_sched_thread_reset_priority :: "nat \<Rightarrow> u8 \<Rightarrow> kst \<Rightarrow> (int \<times> kst) option" where
  "rt_sched_thread_reset_priority t priority s = rt_sched_update_priority t priority True s"

subsection \<open>The kernel invariant\<close>

definition live :: "tcb \<Rightarrow> bool" where
  "live b \<longleftrightarrow> stat_of b = RT_THREAD_READY \<or> stat_of b = RT_THREAD_RUNNING \<or> susp_stat b"

definition thread_ok :: "nat \<Rightarrow> kst \<Rightarrow> bool" where
  "thread_ok t s \<longleftrightarrow>
     rt_object_get_type (OThread t) s = RT_Object_Class_Thread \<and> is_timer (ThreadTimer t) s \<and>
     tm_has RT_TIMER_FLAG_THREAD_TIMER (ThreadTimer t) s \<and> \<not> tm_has RT_TIMER_FLAG_SOFT_TIMER (ThreadTimer t) s \<and>
     (susp_stat (tcbs s t) \<and> t_ttmr_set (tcbs s t) \<longrightarrow> tm_has RT_TIMER_FLAG_ACTIVATED (ThreadTimer t) s)"

definition threads_ok :: "kst \<Rightarrow> bool" where
  "threads_ok s \<longleftrightarrow> (\<forall>t. live (tcbs s t) \<longrightarrow> thread_ok t s)"

definition kinv :: "kst \<Rightarrow> bool" where
  "kinv s \<longleftrightarrow> sched_inv s \<and> crit_ok s \<and> timers_ok s \<and> threads_ok s"

lemma kinvD:
  assumes "kinv s"
  shows "sched_inv s" "crit_ok s" "timers_ok s" "threads_ok s"
  using assms by (auto simp: kinv_def)

lemma kinv_live: "kinv s \<Longrightarrow> live (tcbs s t) \<Longrightarrow> thread_ok t s"
  by (simp add: kinv_def threads_ok_def)

lemma live_susp [simp]: "susp_stat b \<Longrightarrow> live b"
  by (simp add: live_def)

lemma tm_has_irrelevant [simp]:
  "tm_has m tm (timer_remove tm' s) = tm_has m tm s"
  "tm_has m tm (s\<lparr>tcbs := c\<rparr>) = tm_has m tm s" "tm_has m tm (s\<lparr>timers := v\<rparr>) = tm_has m tm s"
  "tm_has m tm (s\<lparr>tmlists := w\<rparr>) = tm_has m tm s" "tm_has m tm (s\<lparr>tlists := l\<rparr>) = tm_has m tm s"
  "tm_has m tm (s\<lparr>ready_group := g\<rparr>) = tm_has m tm s" "tm_has m tm (s\<lparr>current := c'\<rparr>) = tm_has m tm s"
  "tm_has m tm (s\<lparr>cur_prio := cp\<rparr>) = tm_has m tm s" "tm_has m tm (s\<lparr>lock_nest := ln\<rparr>) = tm_has m tm s"
  "tm_has m tm (s\<lparr>crit_flag := cf\<rparr>) = tm_has m tm s"
  by (simp_all add: tm_has_def tm_flag_def)

lemma rt_object_get_type_irrelevant [simp]:
  "rt_object_get_type r (s\<lparr>containers := a\<rparr>) = rt_object_get_type r s"
  "rt_object_get_type r (s\<lparr>tcbs := b\<rparr>) = rt_object_get_type r s"
  "rt_object_get_type r (s\<lparr>tlists := c\<rparr>) = rt_object_get_type r s"
  "rt_object_get_type r (s\<lparr>takens := d\<rparr>) = rt_object_get_type r s"
  "rt_object_get_type r (s\<lparr>ready_group := e\<rparr>) = rt_object_get_type r s"
  "rt_object_get_type r (s\<lparr>lock_nest := f\<rparr>) = rt_object_get_type r s"
  "rt_object_get_type r (s\<lparr>crit_flag := g\<rparr>) = rt_object_get_type r s"
  "rt_object_get_type r (s\<lparr>cur_prio := h\<rparr>) = rt_object_get_type r s"
  "rt_object_get_type r (s\<lparr>current := i\<rparr>) = rt_object_get_type r s"
  "rt_object_get_type r (s\<lparr>irq_nest := j\<rparr>) = rt_object_get_type r s"
  "rt_object_get_type r (s\<lparr>tick := k\<rparr>) = rt_object_get_type r s"
  "rt_object_get_type r (s\<lparr>timers := l\<rparr>) = rt_object_get_type r s"
  "rt_object_get_type r (s\<lparr>tmlists := m\<rparr>) = rt_object_get_type r s"
  "rt_object_get_type r (s\<lparr>random_nr := n\<rparr>) = rt_object_get_type r s"
  "rt_object_get_type r (s\<lparr>sems := p\<rparr>) = rt_object_get_type r s"
  "rt_object_get_type r (s\<lparr>mutexes := q\<rparr>) = rt_object_get_type r s"
  "rt_object_get_type r (s\<lparr>events := t\<rparr>) = rt_object_get_type r s"
  "rt_object_get_type r (s\<lparr>mboxes := u\<rparr>) = rt_object_get_type r s"
  "rt_object_get_type r (s\<lparr>mqueues := v\<rparr>) = rt_object_get_type r s"
  "rt_object_get_type r (s\<lparr>mpools := w\<rparr>) = rt_object_get_type r s"
  "rt_object_get_type r (rt_sched_insert_thread x s) = rt_object_get_type r s"
  "rt_object_get_type r (rt_sched_remove_thread x s) = rt_object_get_type r s"
  by (simp_all add: rt_object_get_type_def rt_sched_insert_thread_def rt_sched_remove_thread_def Let_def)

lemma upd_tcb_id: "b = tcbs s t \<Longrightarrow> s\<lparr>tcbs := (tcbs s)(t := b)\<rparr> = s"
  by simp

lemma kinv_cong:
  assumes "tlists s' = tlists s" "ready_group s' = ready_group s" "current s' = current s"
    and "lock_nest s' = lock_nest s" "crit_flag s' = crit_flag s" "tmlists s' = tmlists s" "objs s' = objs s"
    and T: "\<And>u. same_sched (tcbs s' u) (tcbs s u) \<and> t_ttmr_set (tcbs s' u) = t_ttmr_set (tcbs s u)"
  shows "kinv s' = kinv s"
proof -
  have "sched_inv s' = sched_inv s"
    unfolding sched_inv_def using assms tinv_cong [of "tcbs s'" "tcbs s"] cinv_cong [of "tcbs s'" "tcbs s"]
    by simp
  moreover have "live (tcbs s' u) = live (tcbs s u)" "susp_stat (tcbs s' u) = susp_stat (tcbs s u)" for u
    using T [of u] by (auto simp: live_def susp_stat_stat_of same_sched_def)
  ultimately show ?thesis
    using assms by (simp add: kinv_def crit_ok_def timers_ok_def timer_list_of_def tm_has_def tm_flag_def
        threads_ok_def thread_ok_def rt_object_get_type_def)
qed

lemma kinv_tcbs_same [simp]:
  "(\<And>u. same_sched (T u) (tcbs s u) \<and> t_ttmr_set (T u) = t_ttmr_set (tcbs s u)) \<Longrightarrow> kinv (s\<lparr>tcbs := T\<rparr>) = kinv s"
  by (rule kinv_cong) simp_all

lemma kinv_irrelevant [simp]:
  "kinv (s\<lparr>containers := a\<rparr>) = kinv s" "kinv (s\<lparr>takens := b\<rparr>) = kinv s"
  "kinv (s\<lparr>cur_prio := c\<rparr>) = kinv s" "kinv (s\<lparr>irq_nest := d\<rparr>) = kinv s"
  "kinv (s\<lparr>tick := e\<rparr>) = kinv s" "kinv (s\<lparr>timers := f\<rparr>) = kinv s"
  "kinv (s\<lparr>random_nr := g\<rparr>) = kinv s" "kinv (s\<lparr>g_errno := h\<rparr>) = kinv s"
  "kinv (s\<lparr>sems := i\<rparr>) = kinv s" "kinv (s\<lparr>mutexes := j\<rparr>) = kinv s"
  "kinv (s\<lparr>events := k\<rparr>) = kinv s" "kinv (s\<lparr>mboxes := l\<rparr>) = kinv s"
  "kinv (s\<lparr>mqueues := m\<rparr>) = kinv s" "kinv (s\<lparr>mpools := n\<rparr>) = kinv s"
  by (rule kinv_cong; simp)+

subsection \<open>Locks and the invariant\<close>

lemma kinv_lock [simp]: "kinv s \<Longrightarrow> kinv (rt_spin_lock s)"
  by (auto simp: kinv_def timers_ok_def timer_list_of_def threads_ok_def thread_ok_def
      sched_inv_def crit_ok_def rt_spin_lock_def rt_enter_critical_def rt_object_get_type_def)

lemma kinv_unlock_nest:
  "kinv s \<Longrightarrow> 0 \<le> n \<Longrightarrow> (n = 0 \<longrightarrow> \<not> crit_flag s) \<Longrightarrow> kinv (s\<lparr>lock_nest := n\<rparr>)"
  by (auto simp: kinv_def timers_ok_def timer_list_of_def threads_ok_def thread_ok_def
      sched_inv_def crit_ok_def rt_object_get_type_def)

subsection \<open>Waking a suspended thread\<close>

definition stop_ttmr :: "nat \<Rightarrow> kst \<Rightarrow> kst" where
  \<comment> \<open>the thread's timeout is off\<close>
  "stop_ttmr t s = (if t_ttmr_set (tcbs s t)
     then upd_tcb t (\<lambda>b. b\<lparr>t_ttmr_set := False\<rparr>) (timer_off (ThreadTimer t) s) else s)"

definition thread_wake :: "nat \<Rightarrow> kst \<Rightarrow> kst" where
  "thread_wake t s = rt_sched_insert_thread t (upd_tlists (st_remove t) (stop_ttmr t s))"

lemma stop_ttmr_fields [simp]:
  "tcbs (stop_ttmr t s) = (tcbs s)(t := (tcbs s t)\<lparr>t_ttmr_set := False\<rparr>)"
  "tlists (stop_ttmr t s) = tlists s" "ready_group (stop_ttmr t s) = ready_group s"
  "current (stop_ttmr t s) = current s" "lock_nest (stop_ttmr t s) = lock_nest s"
  "crit_flag (stop_ttmr t s) = crit_flag s" "irq_nest (stop_ttmr t s) = irq_nest s"
  "takens (stop_ttmr t s) = takens s" "sems (stop_ttmr t s) = sems s" "mutexes (stop_ttmr t s) = mutexes s"
  "events (stop_ttmr t s) = events s" "mboxes (stop_ttmr t s) = mboxes s" "tick (stop_ttmr t s) = tick s"
  "mqueues (stop_ttmr t s) = mqueues s" "mpools (stop_ttmr t s) = mpools s"
  "rt_object_get_type r (stop_ttmr t s) = rt_object_get_type r s"
  by (auto simp: stop_ttmr_def timer_off_def tm_clear_def timer_remove_def rt_object_get_type_def)

lemma insert_thread_fields [simp]:
  "lock_nest (rt_sched_insert_thread t s) = lock_nest s" "crit_flag (rt_sched_insert_thread t s) = crit_flag s"
  "irq_nest (rt_sched_insert_thread t s) = irq_nest s" "takens (rt_sched_insert_thread t s) = takens s"
  "sems (rt_sched_insert_thread t s) = sems s" "mutexes (rt_sched_insert_thread t s) = mutexes s"
  "events (rt_sched_insert_thread t s) = events s" "mboxes (rt_sched_insert_thread t s) = mboxes s"
  "mqueues (rt_sched_insert_thread t s) = mqueues s" "mpools (rt_sched_insert_thread t s) = mpools s"
  "tick (rt_sched_insert_thread t s) = tick s" "timers (rt_sched_insert_thread t s) = timers s"
  "tmlists (rt_sched_insert_thread t s) = tmlists s" "objs (rt_sched_insert_thread t s) = objs s"
  "containers (rt_sched_insert_thread t s) = containers s" "g_errno (rt_sched_insert_thread t s) = g_errno s"
  "tlists (rt_sched_insert_thread t s) (Susp q) = tlists s (Susp q)"
  "tlists (rt_sched_insert_thread t s) Defunct = tlists s Defunct"
  by (auto simp: rt_sched_insert_thread_def Let_def ready_q_def)

lemma remove_thread_fields [simp]:
  "lock_nest (rt_sched_remove_thread t s) = lock_nest s" "crit_flag (rt_sched_remove_thread t s) = crit_flag s"
  "irq_nest (rt_sched_remove_thread t s) = irq_nest s" "takens (rt_sched_remove_thread t s) = takens s"
  "sems (rt_sched_remove_thread t s) = sems s" "mutexes (rt_sched_remove_thread t s) = mutexes s"
  "events (rt_sched_remove_thread t s) = events s" "mboxes (rt_sched_remove_thread t s) = mboxes s"
  "mqueues (rt_sched_remove_thread t s) = mqueues s" "mpools (rt_sched_remove_thread t s) = mpools s"
  "tick (rt_sched_remove_thread t s) = tick s" "timers (rt_sched_remove_thread t s) = timers s"
  "tmlists (rt_sched_remove_thread t s) = tmlists s" "objs (rt_sched_remove_thread t s) = objs s"
  "containers (rt_sched_remove_thread t s) = containers s"
  by (auto simp: rt_sched_remove_thread_def Let_def)

lemma thread_wake_fields [simp]:
  "tcbs (thread_wake t s) = (tcbs s)(t := new_stat (if current s = Some t then RT_THREAD_RUNNING else RT_THREAD_READY)
      ((tcbs s t)\<lparr>t_ttmr_set := False\<rparr>))"
  "current (thread_wake t s) = current s" "lock_nest (thread_wake t s) = lock_nest s"
  "crit_flag (thread_wake t s) = crit_flag s" "irq_nest (thread_wake t s) = irq_nest s"
  "takens (thread_wake t s) = takens s" "sems (thread_wake t s) = sems s" "mutexes (thread_wake t s) = mutexes s"
  "events (thread_wake t s) = events s" "mboxes (thread_wake t s) = mboxes s" "tick (thread_wake t s) = tick s"
  "mqueues (thread_wake t s) = mqueues s" "mpools (thread_wake t s) = mpools s"
  "tlists (thread_wake t s) (Susp q) = removeAll t (tlists s (Susp q))"
  "tlists (thread_wake t s) Defunct = removeAll t (tlists s Defunct)"
  "rt_object_get_type r (thread_wake t s) = rt_object_get_type r s"
  by (auto simp: thread_wake_def)

lemma timer_stop_run:
  assumes "kinv s" and "live (tcbs s t)"
  shows "rt_sched_thread_timer_stop t s =
    Some (if t_ttmr_set (tcbs s t) \<and> \<not> tm_has RT_TIMER_FLAG_ACTIVATED (ThreadTimer t) s then - RT_ERROR else RT_EOK,
      if t_ttmr_set (tcbs s t) \<and> \<not> tm_has RT_TIMER_FLAG_ACTIVATED (ThreadTimer t) s
      then upd_tcb t (\<lambda>b. b\<lparr>t_ttmr_set := False\<rparr>) s else stop_ttmr t s)"
  using rt_timer_stop_run [OF kinvD(2) [OF assms(1)], of "ThreadTimer t"] kinv_live [OF assms]
  by (auto simp: rt_sched_thread_timer_stop_def stop_ttmr_def thread_ok_def)

lemma rt_sched_thread_ready_run:
  assumes "kinv s" and "susp_stat (tcbs s t)"
  shows "rt_sched_thread_ready t s = Some (RT_EOK, thread_wake t s)"
proof -
  have "t_ttmr_set (tcbs s t) \<Longrightarrow> tm_has RT_TIMER_FLAG_ACTIVATED (ThreadTimer t) s"
    using kinv_live [OF assms(1)] assms(2) by (simp add: thread_ok_def)
  then show ?thesis
    using timer_stop_run [OF assms(1), of t] assms(2)
    by (auto simp: rt_sched_thread_ready_def rt_sched_thread_is_suspended_def thread_wake_def stop_ttmr_def)
qed

lemma live_cases [simp]:
  "live (new_stat RT_THREAD_READY b)" "live (new_stat RT_THREAD_RUNNING b)"
  "\<not> susp_stat (new_stat RT_THREAD_READY b)" "\<not> susp_stat (new_stat RT_THREAD_RUNNING b)"
  "stat_of (new_stat RT_THREAD_READY b) = RT_THREAD_READY"
  "stat_of (new_stat RT_THREAD_RUNNING b) = RT_THREAD_RUNNING"
  by (simp_all add: live_def stat_defs)

lemma stat_consts [simp]:
  "RT_THREAD_READY AND 4 = 0" "RT_THREAD_RUNNING AND 4 = 0" "RT_THREAD_INIT AND 4 = 0" "RT_THREAD_CLOSE AND 4 = 0"
  "RT_THREAD_READY AND 7 = RT_THREAD_READY" "RT_THREAD_RUNNING AND 7 = RT_THREAD_RUNNING"
  "RT_THREAD_READY \<noteq> RT_THREAD_RUNNING" "RT_THREAD_RUNNING \<noteq> RT_THREAD_READY"
  "RT_THREAD_INIT \<noteq> RT_THREAD_READY" "RT_THREAD_INIT \<noteq> RT_THREAD_RUNNING"
  "RT_THREAD_CLOSE \<noteq> RT_THREAD_READY" "RT_THREAD_CLOSE \<noteq> RT_THREAD_RUNNING"
  by (simp_all add: stat_defs)

lemma flags_off:
  "tm_has RT_TIMER_FLAG_THREAD_TIMER tm (timer_off tm' s) = tm_has RT_TIMER_FLAG_THREAD_TIMER tm s"
  "tm_has RT_TIMER_FLAG_SOFT_TIMER tm (timer_off tm' s) = tm_has RT_TIMER_FLAG_SOFT_TIMER tm s"
  by (auto simp: tm_has_def timer_off_flag RT_TIMER_FLAG_ACTIVATED_def RT_TIMER_FLAG_SOFT_TIMER_def
      RT_TIMER_FLAG_THREAD_TIMER_def and.assoc)

lemma flags_start:
  "tm_has RT_TIMER_FLAG_THREAD_TIMER tm (timer_start h tm' s) = tm_has RT_TIMER_FLAG_THREAD_TIMER tm s"
  "tm_has RT_TIMER_FLAG_SOFT_TIMER tm (timer_start h tm' s) = tm_has RT_TIMER_FLAG_SOFT_TIMER tm s"
  by (auto simp: tm_has_def timer_start_flag RT_TIMER_FLAG_ACTIVATED_def RT_TIMER_FLAG_SOFT_TIMER_def
      RT_TIMER_FLAG_THREAD_TIMER_def bit.conj_disj_distrib2)

lemma timers_ok_irrelevant [simp]:
  "timers_ok (s\<lparr>tcbs := a\<rparr>) = timers_ok s" "timers_ok (s\<lparr>tlists := b\<rparr>) = timers_ok s"
  "timers_ok (s\<lparr>ready_group := c\<rparr>) = timers_ok s" "timers_ok (s\<lparr>current := d\<rparr>) = timers_ok s"
  "timers_ok (s\<lparr>lock_nest := e\<rparr>) = timers_ok s" "timers_ok (s\<lparr>crit_flag := f\<rparr>) = timers_ok s"
  "timers_ok (rt_sched_insert_thread t s) = timers_ok s" "timers_ok (rt_sched_remove_thread t s) = timers_ok s"
  by (rule timers_ok_cong; simp)+

lemma timers_ok_stop [simp]: "timers_ok s \<Longrightarrow> timers_ok (stop_ttmr t s)"
  by (simp add: stop_ttmr_def timers_ok_off)

lemma sched_but_dequeue:
  assumes "sched_inv s" and "stat_of (tcbs s t) \<noteq> RT_THREAD_READY"
  shows "sched_but t (upd_tlists (st_remove t) s)"
  using assms tinv_dequeue [of "tlists s" "ready_group s" "tcbs s" t]
  by (simp add: sched_but_def sched_inv_def cinv_weaken)

lemma sched_inv_stop [simp]: "sched_inv (stop_ttmr t s) = sched_inv s"
  by (simp add: sched_inv_def)

lemma threads_okI:
  assumes "threads_ok s"
    and "\<And>u. u \<noteq> t \<Longrightarrow> objs s' (OThread u) = objs s (OThread u) \<and>
        objs s' (OTimer (ThreadTimer u)) = objs s (OTimer (ThreadTimer u)) \<and>
        (live (tcbs s' u) \<longrightarrow> live (tcbs s u)) \<and>
        (susp_stat (tcbs s' u) \<and> t_ttmr_set (tcbs s' u) \<longrightarrow> susp_stat (tcbs s u) \<and> t_ttmr_set (tcbs s u))"
    and "live (tcbs s' t) \<Longrightarrow> thread_ok t s'"
  shows "threads_ok s'"
  using assms unfolding threads_ok_def thread_ok_def rt_object_get_type_def tm_has_def tm_flag_def
  by metis

lemma thread_ok_running:
  assumes "thread_ok t s" and "\<not> susp_stat (tcbs s' t)"
    and "o_type (objs s' (OThread t)) = o_type (objs s (OThread t))"
    and "is_timer (ThreadTimer t) s' = is_timer (ThreadTimer t) s"
    and "tm_has RT_TIMER_FLAG_THREAD_TIMER (ThreadTimer t) s' = tm_has RT_TIMER_FLAG_THREAD_TIMER (ThreadTimer t) s"
    and "tm_has RT_TIMER_FLAG_SOFT_TIMER (ThreadTimer t) s' = tm_has RT_TIMER_FLAG_SOFT_TIMER (ThreadTimer t) s"
  shows "thread_ok t s'"
  using assms by (simp add: thread_ok_def rt_object_get_type_def)

lemma objs_stop_other [simp]:
  "objs (stop_ttmr t s) (OThread u) = objs s (OThread u)"
  "u \<noteq> t \<Longrightarrow> objs (stop_ttmr t s) (OTimer (ThreadTimer u)) = objs s (OTimer (ThreadTimer u))"
  "objs (stop_ttmr t s) (OTimer (UserTimer n)) = objs s (OTimer (UserTimer n))"
  by (auto simp: stop_ttmr_def timer_off_def tm_clear_def)

lemma flags_stop [simp]:
  "tm_has RT_TIMER_FLAG_THREAD_TIMER tm (stop_ttmr t s) = tm_has RT_TIMER_FLAG_THREAD_TIMER tm s"
  "tm_has RT_TIMER_FLAG_SOFT_TIMER tm (stop_ttmr t s) = tm_has RT_TIMER_FLAG_SOFT_TIMER tm s"
  by (auto simp: stop_ttmr_def flags_off)

lemma tm_has_insert [simp]:
  "tm_has m tm (rt_sched_insert_thread t s) = tm_has m tm s"
  "tm_has m tm (rt_sched_remove_thread t s) = tm_has m tm s"
  by (simp_all add: tm_has_def tm_flag_def)

lemma objs_wake: "objs (thread_wake t s) = objs (stop_ttmr t s)"
  by (simp add: thread_wake_def)

lemma flags_wake [simp]: "tm_has m tm (thread_wake t s) = tm_has m tm (stop_ttmr t s)"
  by (simp add: thread_wake_def)

lemma kinv_runnable: "kinv s \<Longrightarrow> live (tcbs s t) \<Longrightarrow> runnable_ok (tcbs s t)"
  using link_okD(5) tinvD(2) by (fastforce simp: kinv_def sched_inv_def live_def)

lemma kinv_wake:
  assumes k: "kinv s" and su: "susp_stat (tcbs s t)"
  shows "kinv (thread_wake t s)"
proof -
  let ?s1 = "upd_tlists (st_remove t) (stop_ttmr t s)"
  have nr: "stat_of (tcbs (stop_ttmr t s) t) \<noteq> RT_THREAD_READY" using susp_stat_disj(1) [OF su] by simp
  have "sched_but t ?s1"
    by (rule sched_but_dequeue [OF _ nr]) (use k in \<open>simp add: kinv_def\<close>)
  moreover have "runnable_ok (tcbs ?s1 t)"
    using kinv_runnable [OF k, of t] su by (simp add: runnable_ok_def)
  ultimately have "sched_inv (thread_wake t s)"
    unfolding thread_wake_def by (rule rt_sched_insert_thread_inv)
  moreover have "timers_ok (thread_wake t s)" using k by (simp add: kinv_def thread_wake_def)
  moreover have "threads_ok (thread_wake t s)"
  proof (rule threads_okI [where t = t and s = s])
    show "thread_ok t (thread_wake t s)"
      using kinv_live [OF k] su by (rule_tac thread_ok_running [where s = s]) (auto simp: objs_wake)
  qed (use k in \<open>auto simp: kinv_def objs_wake\<close>)
  ultimately show ?thesis using k by (simp add: kinv_def crit_ok_def)
qed

lemma kinv_running: "kinv s \<Longrightarrow> stat_of (tcbs s t) = RT_THREAD_RUNNING \<Longrightarrow> current s = Some t"
  by (simp add: kinv_def sched_inv_def cinv_def)

lemma kinv_queue_susp: "kinv s \<Longrightarrow> t \<in> set (tlists s (Susp q)) \<Longrightarrow> susp_stat (tcbs s t)"
  using link_okD(2) tinvD(2) by (fastforce simp: kinv_def sched_inv_def)

lemma kinv_store: "kinv s \<Longrightarrow> store_ok (tlists s)"
  using tinvD(1) by (auto simp: kinv_def sched_inv_def)

subsection \<open>The scheduler keeps the kernel invariant\<close>

lemma rt_schedule_elim:
  assumes inv: "sched_inv s" and r: "rt_schedule s = Some s'"
  obtains (locked) "lock_nest s \<noteq> 0" "s' = s\<lparr>crit_flag := True\<rparr>"
  | (same) "lock_nest s = 0" "s' = s"
  | (stay) me where "lock_nest s = 0" "stat_of (tcbs s me) = RT_THREAD_RUNNING" "current s = Some me"
      "s' = upd_tcb me (new_stat RT_THREAD_RUNNING) (rt_sched_remove_thread me s)"
  | (switch) me to p where "lock_nest s = 0" "current s = Some me" "to \<noteq> me" "stat_of (tcbs s to) = RT_THREAD_READY"
      "stat_of (tcbs s me) \<noteq> RT_THREAD_READY"
      "s' = switch_to to p me (stat_of (tcbs s me) = RT_THREAD_RUNNING) s"
proof -
  consider "lock_nest s \<noteq> 0" | "lock_nest s = 0" "ready_group s = 0" | "lock_nest s = 0" "ready_group s \<noteq> 0" by blast
  then show ?thesis
  proof cases
    case 1
    with r show ?thesis by (intro locked) (simp_all add: rt_schedule_locked)
  next
    case 2
    with r show ?thesis by (intro same) (simp_all add: rt_schedule_none_ready)
  next
    case 3
    with r obtain me where c: "current s = Some me" by (auto simp: rt_schedule_def elim!: bind_SomeE)
    have t: "table_ok s" "stat_of (tcbs s me) \<noteq> RT_THREAD_READY"
      using inv c by (auto simp: sched_inv_def cinv_def)
    show ?thesis
      using inv 3 c
    proof (cases rule: rt_schedule_cases)
      case (stay to p)
      with r c 3(1) show ?thesis by (intro that(3)) auto
    next
      case (switch to p)
      with r c 3(1) t highest_ready(1) [OF t(1) switch(1)] show ?thesis by (intro that(4)) auto
    qed
  qed
qed

lemma switch_to_fields [simp]:
  "lock_nest (switch_to to p me need s) = lock_nest s" "crit_flag (switch_to to p me need s) = crit_flag s"
  "irq_nest (switch_to to p me need s) = irq_nest s" "takens (switch_to to p me need s) = takens s"
  "sems (switch_to to p me need s) = sems s" "mutexes (switch_to to p me need s) = mutexes s"
  "events (switch_to to p me need s) = events s" "mboxes (switch_to to p me need s) = mboxes s"
  "mqueues (switch_to to p me need s) = mqueues s" "mpools (switch_to to p me need s) = mpools s"
  "tick (switch_to to p me need s) = tick s" "timers (switch_to to p me need s) = timers s"
  "tmlists (switch_to to p me need s) = tmlists s" "objs (switch_to to p me need s) = objs s"
  "containers (switch_to to p me need s) = containers s"
  by (auto simp: switch_to_def Let_def)

lemma switch_to_susp:
  "tlists (switch_to to p me need s) (Susp q) = removeAll to (tlists s (Susp q))"
  "tlists (switch_to to p me need s) Defunct = removeAll to (tlists s Defunct)"
  by (auto simp: switch_to_def Let_def)

lemma not_queued:
  assumes "sched_inv s" and "stat_of (tcbs s t) = RT_THREAD_READY \<or> stat_of (tcbs s t) = RT_THREAD_RUNNING"
  shows "t \<notin> set (tlists s (Susp q))" "t \<notin> set (tlists s Defunct)"
  using assms link_okD(2,3) [OF tinvD(2), of "tlists s" _ "tcbs s" t] susp_stat_disj(1,2) [of "tcbs s t"]
  unfolding sched_inv_def by (metis stat_consts(11,12))+

definition same_ipc :: "kst \<Rightarrow> kst \<Rightarrow> bool" where
  \<comment> \<open>nothing but the scheduler's own state differs\<close>
  "same_ipc s s' \<longleftrightarrow> sems s' = sems s \<and> mutexes s' = mutexes s \<and> events s' = events s \<and>
     mboxes s' = mboxes s \<and> mqueues s' = mqueues s \<and> mpools s' = mpools s \<and> takens s' = takens s \<and>
     tick s' = tick s \<and> timers s' = timers s \<and> tmlists s' = tmlists s \<and> objs s' = objs s \<and>
     containers s' = containers s \<and> irq_nest s' = irq_nest s \<and>
     (\<forall>q. tlists s' (Susp q) = tlists s (Susp q)) \<and> tlists s' Defunct = tlists s Defunct \<and>
     (\<forall>u. t_ttmr_set (tcbs s' u) = t_ttmr_set (tcbs s u) \<and> live (tcbs s' u) = live (tcbs s u) \<and>
       susp_stat (tcbs s' u) = susp_stat (tcbs s u) \<and>
       t_current_priority (tcbs s' u) = t_current_priority (tcbs s u) \<and>
       t_init_priority (tcbs s' u) = t_init_priority (tcbs s u) \<and>
       t_error (tcbs s' u) = t_error (tcbs s u) \<and>
       t_pending_object (tcbs s' u) = t_pending_object (tcbs s u) \<and>
       t_event_set (tcbs s' u) = t_event_set (tcbs s u) \<and> t_event_info (tcbs s' u) = t_event_info (tcbs s u))"

lemma clear_yield_event [simp]:
  "t_event_set (clear_yield b) = t_event_set b" "t_event_info (clear_yield b) = t_event_info b"
  "live (clear_yield b) = live b"
  by (simp_all add: live_def) (simp_all add: clear_yield_def)

lemma rt_schedule_frame:
  assumes inv: "sched_inv s" and r: "rt_schedule s = Some s'"
  shows "same_ipc s s'"
  using assms
proof (cases rule: rt_schedule_elim)
  case (stay me)
  then have "live (tcbs s me)" "\<not> susp_stat (tcbs s me)"
    using susp_stat_disj(2) [of "tcbs s me"] by (auto simp: live_def)
  with stay not_queued [OF inv, of me] show ?thesis by (auto simp: same_ipc_def)
next
  case (switch me to p)
  then have "live (tcbs s to)" "\<not> susp_stat (tcbs s to)"
    using susp_stat_disj(1) [of "tcbs s to"] by (auto simp: live_def)
  moreover have "stat_of (tcbs s me) = RT_THREAD_RUNNING \<Longrightarrow> live (tcbs s me) \<and> \<not> susp_stat (tcbs s me)"
    using susp_stat_disj(2) [of "tcbs s me"] by (auto simp: live_def)
  ultimately show ?thesis
    using switch not_queued [OF inv, of to]
    by (auto simp: same_ipc_def switch_to_susp rt_schedule_fields_switch(2) Let_def)
qed (simp_all add: same_ipc_def)

lemma rt_schedule_crit:
  assumes "sched_inv s" and "crit_ok s" and "rt_schedule s = Some s'"
  shows "crit_ok s'" "lock_nest s' = lock_nest s" "lock_nest s = 0 \<Longrightarrow> crit_flag s' = crit_flag s"
proof -
  have "crit_ok s' \<and> lock_nest s' = lock_nest s \<and> (lock_nest s = 0 \<longrightarrow> crit_flag s' = crit_flag s)"
    using assms(1,3) by (cases rule: rt_schedule_elim) (use assms(2) in \<open>simp_all add: crit_ok_def\<close>)
  then show "crit_ok s'" "lock_nest s' = lock_nest s" "lock_nest s = 0 \<Longrightarrow> crit_flag s' = crit_flag s" by auto
qed

lemma kinv_schedule:
  assumes k: "kinv s" and r: "rt_schedule s = Some s'"
  shows "kinv s'"
proof -
  have i: "sched_inv s" "crit_ok s" using k by (auto simp: kinv_def)
  note F = rt_schedule_frame [OF i(1) r, unfolded same_ipc_def]
  have "timers_ok s'" using k F by (subst timers_ok_cong [of s' s]) (auto simp: kinv_def)
  moreover have "threads_ok s'"
    using k F by (auto simp: kinv_def threads_ok_def thread_ok_def rt_object_get_type_def tm_has_def tm_flag_def)
  ultimately show ?thesis
    using rt_schedule_inv [OF i(1) r] rt_schedule_crit(1) [OF i r] by (simp add: kinv_def)
qed

end
