(* ===== verification/Demo.thy ===== *)
theory Demo
  imports SchedComm
begin

text \<open>
  A sample machine in a state that satisfies the kernel invariant, used by the concrete instances
  of the properties: thread 1 runs at priority 10, thread 4 is ready at 20, thread 3 (priority 5) waits
  without a timeout and thread 2 (priority 12) with one, both on the queue \<open>q\<close>.
\<close>

definition demo_objs :: "oref \<Rightarrow> rt_object" where
  "demo_objs r = (case r of
     OThread t \<Rightarrow> \<lparr>o_type = 0x81, o_flag = 0, o_name = []\<rparr>
   | OSem i \<Rightarrow> \<lparr>o_type = 0x82, o_flag = RT_IPC_FLAG_PRIO, o_name = []\<rparr>
   | OMutex i \<Rightarrow> \<lparr>o_type = 0x83, o_flag = RT_IPC_FLAG_PRIO, o_name = []\<rparr>
   | OEvent i \<Rightarrow> \<lparr>o_type = 0x84, o_flag = RT_IPC_FLAG_PRIO, o_name = []\<rparr>
   | OMailbox i \<Rightarrow> \<lparr>o_type = 0x85, o_flag = RT_IPC_FLAG_PRIO, o_name = []\<rparr>
   | OMsgQueue i \<Rightarrow> \<lparr>o_type = 0x86, o_flag = RT_IPC_FLAG_PRIO, o_name = []\<rparr>
   | OMemPool i \<Rightarrow> \<lparr>o_type = 0x88, o_flag = RT_IPC_FLAG_PRIO, o_name = []\<rparr>
   | OTimer (ThreadTimer t) \<Rightarrow> \<lparr>o_type = 0x8a, o_flag = (if t = 2 then 9 else 8), o_name = []\<rparr>
   | OTimer (UserTimer n) \<Rightarrow> \<lparr>o_type = 0x8a, o_flag = 0, o_name = []\<rparr>)"

definition demo_wait :: "suspq \<Rightarrow> kst" where
  "demo_wait q = blank_kst\<lparr>
     objs := demo_objs,
     tcbs := (\<lambda>_. blank_tcb)(
       1 := demo_tcb RT_THREAD_RUNNING 10, 4 := demo_tcb RT_THREAD_READY 20,
       3 := demo_tcb RT_THREAD_SUSPEND_UNINTERRUPTIBLE 5,
       2 := (demo_tcb RT_THREAD_SUSPEND_UNINTERRUPTIBLE 12)\<lparr>t_ttmr_set := True\<rparr>),
     tlists := (\<lambda>_. [])(Ready 20 := [4], Susp q := [3, 2]),
     ready_group := push_bit 20 1,
     current := Some 1,
     tick := 100,
     timers := (\<lambda>_. \<lparr>tm_func = Thread_timeout, tm_parameter = 2, tm_init_tick = 30, tm_timeout_tick = 130\<rparr>),
     tmlists := (\<lambda>_. [])(HardTimers := [ThreadTimer 2])\<rparr>"

lemma demo_wait_fields [simp]:
  "objs (demo_wait q) = demo_objs" "current (demo_wait q) = Some 1" "lock_nest (demo_wait q) = 0"
  "crit_flag (demo_wait q) = False" "irq_nest (demo_wait q) = 0" "tick (demo_wait q) = 100"
  "tlists (demo_wait q) (Susp q) = [3, 2]" "q' \<noteq> q \<Longrightarrow> tlists (demo_wait q) (Susp q') = []"
  "sems (demo_wait q) = sems blank_kst" "mutexes (demo_wait q) = mutexes blank_kst"
  "events (demo_wait q) = events blank_kst" "mboxes (demo_wait q) = mboxes blank_kst"
  "mqueues (demo_wait q) = mqueues blank_kst" "mpools (demo_wait q) = mpools blank_kst"
  "takens (demo_wait q) = (\<lambda>_. [])"
  by (simp_all add: demo_wait_def blank_kst_def)

lemma demo_type [simp]:
  "rt_object_get_type (OThread t) (demo_wait q) = RT_Object_Class_Thread"
  "rt_object_get_type (OSem i) (demo_wait q) = RT_Object_Class_Semaphore"
  "rt_object_get_type (OMutex i) (demo_wait q) = RT_Object_Class_Mutex"
  "rt_object_get_type (OEvent i) (demo_wait q) = RT_Object_Class_Event"
  "rt_object_get_type (OMailbox i) (demo_wait q) = RT_Object_Class_MailBox"
  "rt_object_get_type (OMsgQueue i) (demo_wait q) = RT_Object_Class_MessageQueue"
  "rt_object_get_type (OMemPool i) (demo_wait q) = RT_Object_Class_MemPool"
  "is_timer tm (demo_wait q)"
  by (simp_all add: rt_object_get_type_def demo_objs_def class_defs split: tmid.splits)

lemma demo_wait_running: "stat_of (tcbs (demo_wait q) 1) = RT_THREAD_RUNNING"
  by (simp add: demo_wait_def demo_tcb_def stat_of_def stat_defs)

lemma demo_link: "link_ok (tlists (demo_wait q)) t (tcbs (demo_wait q) t)"
  by (auto simp: demo_wait_def link_ok_def demo_tcb_def blank_tcb_def stat_of_def stat_defs mask_ok_def
      runnable_ok_def ready_q_def susp_stat_def)

lemma kinv_demo: "kinv (demo_wait q)"
proof -
  have "bit (ready_group (demo_wait q)) p \<longleftrightarrow> tlists (demo_wait q) (Ready p) \<noteq> []" if "p < 32" for p
    using bit_mask_iff [of 20 p] that by (auto simp: demo_wait_def)
  moreover have "store_ok (tlists (demo_wait q))"
    by (auto simp: demo_wait_def store_ok_def split: if_splits)
  ultimately have t: "table_ok (demo_wait q)" using demo_link by (simp add: tinv_def)
  have c: "cinv (current (demo_wait q)) (tcbs (demo_wait q))"
    by (auto simp: demo_wait_def cinv_def demo_tcb_def blank_tcb_def stat_of_def stat_defs)
  have tm: "timers_ok (demo_wait q)"
    by (auto simp: demo_wait_def timers_ok_def store_ok_def tm_has_def tm_flag_def demo_objs_def
        timer_list_of_def RT_TIMER_FLAG_ACTIVATED_def RT_TIMER_FLAG_SOFT_TIMER_def split: if_splits)
  have "thread_ok t (demo_wait q)" for t
    by (auto simp: thread_ok_def tm_has_def tm_flag_def demo_objs_def RT_TIMER_FLAG_ACTIVATED_def
        RT_TIMER_FLAG_SOFT_TIMER_def RT_TIMER_FLAG_THREAD_TIMER_def)
      (auto simp: demo_wait_def demo_tcb_def blank_tcb_def split: if_splits)
  with t c tm show ?thesis by (simp add: kinv_def sched_inv_def crit_ok_def threads_ok_def)
qed

end
