(* ===== verification/SuspList.thy ===== *)
theory SuspList
  imports Demo
begin

text \<open>
  The queues of suspended threads of the IPC objects (rt-thread/src/ipc.c, \<open>rt_susp_list_*\<close>):
  waking the first waiter, waking all of them, and entering a queue in order of arrival or of priority.
\<close>

definition rt_susp_list_dequeue :: "suspq \<Rightarrow> int \<Rightarrow> kst \<Rightarrow> (nat option \<times> kst) option" where
  "rt_susp_list_dequeue q thread_error s =
     (case tlists s (Susp q) of
        [] \<Rightarrow> Some (None, s)
      | t # _ \<Rightarrow> do {
          (error, s) \<leftarrow> rt_sched_thread_ready t s;
          if error \<noteq> RT_EOK then Some (None, s)
          else Some (Some t, if thread_error \<ge> 0 then upd_tcb t (\<lambda>b. b\<lparr>t_error := thread_error\<rparr>) s else s)
        })"

definition rt_susp_list_enqueue :: "suspq \<Rightarrow> nat \<Rightarrow> u8 \<Rightarrow> kst \<Rightarrow> kst option" where
  "rt_susp_list_enqueue q t ipc_flags s =
     (if ipc_flags = RT_IPC_FLAG_FIFO then Some (upd_tlists (st_append (Susp q) t) s)
      else if ipc_flags = RT_IPC_FLAG_PRIO then
        Some (upd_tlists (\<lambda>ls. ls(Susp q :=
          ins_before (\<lambda>u. t_current_priority (tcbs s t) < t_current_priority (tcbs s u)) t (ls (Susp q)))) s)
      else None)"

subsection \<open>Waking all waiters ends\<close>

definition shrinks :: "suspq \<Rightarrow> kst \<Rightarrow> kst \<Rightarrow> bool" where
  \<comment> \<open>no thread joined the queue\<close>
  "shrinks q s s' \<longleftrightarrow> (\<exists>P. tlists s' (Susp q) = filter P (tlists s (Susp q)))"

lemma shrinks_refl [simp]: "tlists s' (Susp q) = tlists s (Susp q) \<Longrightarrow> shrinks q s s'"
  unfolding shrinks_def by (rule exI [of _ "\<lambda>_. True"]) simp

lemma shrinks_remove:
  "tlists s' (Susp q) = removeAll t (tlists s (Susp q)) \<Longrightarrow> shrinks q s s'"
  unfolding shrinks_def by (rule exI [of _ "\<lambda>u. t \<noteq> u"]) (simp add: removeAll_filter_not_eq)

lemma shrinks_trans: "shrinks q s s' \<Longrightarrow> shrinks q s' s'' \<Longrightarrow> shrinks q s s''"
  by (auto simp: shrinks_def)

lemma removeAll_ex: "\<exists>u. removeAll t xs = removeAll u xs"
  by blast

lemma rt_schedule_queue:
  "rt_schedule s = Some s' \<Longrightarrow>
   (\<exists>t. tlists s' (Susp q) = removeAll t (tlists s (Susp q))) \<or> tlists s' (Susp q) = tlists s (Susp q)"
  by (auto simp: rt_schedule_def Let_def removeAll_ex elim!: bind_SomeE split: if_splits)

lemma rt_schedule_shrinks: "rt_schedule s = Some s' \<Longrightarrow> shrinks q s s'"
  using rt_schedule_queue [of s s' q] shrinks_remove by fastforce

lemma rt_spin_unlock_shrinks: "rt_spin_unlock s = Some s' \<Longrightarrow> shrinks q s s'"
  by (auto simp: rt_spin_unlock_def rt_exit_critical_def Let_def split: if_splits
      dest!: rt_schedule_shrinks [where q = q] elim: shrinks_trans [rotated])

lemma rt_timer_stop_shrinks: "rt_timer_stop tm s = Some (e, s') \<Longrightarrow> shrinks q s s'"
  by (auto simp: rt_timer_stop_def Let_def elim!: bind_SomeE split: if_splits
      dest!: rt_spin_unlock_shrinks [where q = q] elim: shrinks_trans [rotated])

lemma rt_sched_thread_ready_shrinks:
  assumes "rt_sched_thread_ready t s = Some (RT_EOK, s')"
  shows "\<exists>P. tlists s' (Susp q) = removeAll t (filter P (tlists s (Susp q)))"
proof (cases "t_ttmr_set (tcbs s t)")
  case True
  obtain e s1 where st: "rt_timer_stop (ThreadTimer t) s = Some (e, s1)"
    and s': "tlists s' (Susp q) = removeAll t (tlists s1 (Susp q))"
    using assms True
    by (auto simp: rt_sched_thread_ready_def rt_sched_thread_timer_stop_def Let_def err_defs
        elim!: bind_SomeE split: if_splits)
  with rt_timer_stop_shrinks [OF st, of q] show ?thesis by (auto simp: shrinks_def)
next
  case False
  with assms have "tlists s' (Susp q) = removeAll t (filter (\<lambda>_. True) (tlists s (Susp q)))"
    by (auto simp: rt_sched_thread_ready_def Let_def err_defs split: if_splits)
  then show ?thesis by blast
qed

lemma dequeue_shorter:
  assumes "rt_susp_list_dequeue q e s = Some (Some t, s')"
  shows "length (tlists s' (Susp q)) < length (tlists s (Susp q))"
proof -
  obtain us s1 where us: "tlists s (Susp q) = t # us" and r: "rt_sched_thread_ready t s = Some (RT_EOK, s1)"
    and s': "tlists s' (Susp q) = tlists s1 (Susp q)"
    using assms by (auto simp: rt_susp_list_dequeue_def elim!: bind_SomeE split: list.splits if_splits)
  have "length (removeAll t (filter P (t # us))) < length (t # us)" for P
    by (simp add: removeAll_filter_not_eq le_imp_less_Suc)
  with us s' rt_sched_thread_ready_shrinks [OF r, of q] show ?thesis by metis
qed

function rt_susp_list_resume_all :: "suspq \<Rightarrow> int \<Rightarrow> kst \<Rightarrow> kst option" where
  "rt_susp_list_resume_all q thread_error s =
     (case rt_susp_list_dequeue q thread_error s of
        None \<Rightarrow> None
      | Some (None, s') \<Rightarrow> Some s'
      | Some (Some t, s') \<Rightarrow> rt_susp_list_resume_all q thread_error s')"
  by pat_completeness auto

termination
  by (relation "measure (\<lambda>(q, _, s). length (tlists s (Susp q)))") (auto intro: dequeue_shorter)

declare rt_susp_list_resume_all.simps [simp del]

definition dequeue_locked :: "suspq \<Rightarrow> int \<Rightarrow> kst \<Rightarrow> (nat option \<times> kst) option" where
  \<comment> \<open>one round of \<open>rt_susp_list_resume_all_irq\<close>\<close>
  "dequeue_locked q thread_error s = do {
     (t, s) \<leftarrow> rt_susp_list_dequeue q thread_error (rt_spin_lock s);
     s \<leftarrow> rt_spin_unlock s;
     Some (t, s)
   }"

lemma dequeue_locked_shorter:
  assumes "dequeue_locked q e s = Some (Some t, s')"
  shows "length (tlists s' (Susp q)) < length (tlists s (Susp q))"
proof -
  obtain s1 where 1: "rt_susp_list_dequeue q e (rt_spin_lock s) = Some (Some t, s1)" "rt_spin_unlock s1 = Some s'"
    using assms by (auto simp: dequeue_locked_def elim!: bind_SomeE)
  obtain P where P: "tlists s' (Susp q) = filter P (tlists s1 (Susp q))"
    using rt_spin_unlock_shrinks [OF 1(2), of q] by (auto simp: shrinks_def)
  have "length (tlists s1 (Susp q)) < length (tlists s (Susp q))" using dequeue_shorter [OF 1(1)] by simp
  with P length_filter_le [of P "tlists s1 (Susp q)"] show ?thesis by (metis le_less_trans)
qed

function rt_susp_list_resume_all_irq :: "suspq \<Rightarrow> int \<Rightarrow> kst \<Rightarrow> kst option" where
  "rt_susp_list_resume_all_irq q thread_error s =
     (case dequeue_locked q thread_error s of
        None \<Rightarrow> None
      | Some (None, s') \<Rightarrow> Some s'
      | Some (Some t, s') \<Rightarrow> rt_susp_list_resume_all_irq q thread_error s')"
  by pat_completeness auto

termination
  by (relation "measure (\<lambda>(q, _, s). length (tlists s (Susp q)))") (auto intro: dequeue_locked_shorter)

declare rt_susp_list_resume_all_irq.simps [simp del]

subsection \<open>Effect under the invariant\<close>

definition wake_err :: "int \<Rightarrow> nat \<Rightarrow> kst \<Rightarrow> kst" where
  \<comment> \<open>thread \<open>t\<close> is ready again and finds \<open>e\<close> as the result of its wait\<close>
  "wake_err e t s = (if e \<ge> 0 then upd_tcb t (\<lambda>b. b\<lparr>t_error := e\<rparr>) (thread_wake t s) else thread_wake t s)"

lemma dequeue_empty [simp]: "tlists s (Susp q) = [] \<Longrightarrow> rt_susp_list_dequeue q e s = Some (None, s)"
  by (simp add: rt_susp_list_dequeue_def)

lemma dequeue_run:
  assumes k: "kinv s" and q: "tlists s (Susp q) = t # us"
  shows "rt_susp_list_dequeue q e s = Some (Some t, wake_err e t s)"
proof -
  have "susp_stat (tcbs s t)" using kinv_queue_susp [OF k, of t q] q by simp
  from rt_sched_thread_ready_run [OF k this] q show ?thesis
    by (simp add: rt_susp_list_dequeue_def wake_err_def)
qed

lemma kinv_wake_err:
  assumes "kinv s" and "susp_stat (tcbs s t)"
  shows "kinv (wake_err e t s)"
proof -
  have "kinv (upd_tcb t (\<lambda>b. b\<lparr>t_error := e\<rparr>) (thread_wake t s)) = kinv (thread_wake t s)"
    by (rule kinv_tcbs_same) auto
  with kinv_wake [OF assms] show ?thesis by (simp add: wake_err_def)
qed

lemma wake_err_fields [simp]:
  "tcbs (wake_err e t s) u = (if u = t
     then (let b = new_stat (if current s = Some t then RT_THREAD_RUNNING else RT_THREAD_READY) ((tcbs s t)\<lparr>t_ttmr_set := False\<rparr>)
           in if e \<ge> 0 then b\<lparr>t_error := e\<rparr> else b)
     else tcbs s u)"
  "current (wake_err e t s) = current s" "lock_nest (wake_err e t s) = lock_nest s"
  "crit_flag (wake_err e t s) = crit_flag s" "irq_nest (wake_err e t s) = irq_nest s"
  "takens (wake_err e t s) = takens s" "sems (wake_err e t s) = sems s" "mutexes (wake_err e t s) = mutexes s"
  "events (wake_err e t s) = events s" "mboxes (wake_err e t s) = mboxes s" "tick (wake_err e t s) = tick s"
  "mqueues (wake_err e t s) = mqueues s" "mpools (wake_err e t s) = mpools s"
  "tlists (wake_err e t s) (Susp q) = removeAll t (tlists s (Susp q))"
  "rt_object_get_type r (wake_err e t s) = rt_object_get_type r s"
  by (auto simp: wake_err_def Let_def)

fun wake_all :: "int \<Rightarrow> nat list \<Rightarrow> kst \<Rightarrow> kst" where
  "wake_all e [] s = s"
| "wake_all e (t # ts) s = wake_all e ts (wake_err e t s)"

lemma wake_all_fields [simp]:
  "current (wake_all e ts s) = current s" "lock_nest (wake_all e ts s) = lock_nest s"
  "crit_flag (wake_all e ts s) = crit_flag s" "irq_nest (wake_all e ts s) = irq_nest s"
  "takens (wake_all e ts s) = takens s" "sems (wake_all e ts s) = sems s" "mutexes (wake_all e ts s) = mutexes s"
  "events (wake_all e ts s) = events s" "mboxes (wake_all e ts s) = mboxes s" "tick (wake_all e ts s) = tick s"
  "mqueues (wake_all e ts s) = mqueues s" "mpools (wake_all e ts s) = mpools s"
  "tlists (wake_all e ts s) (Susp q) = filter (\<lambda>t. t \<notin> set ts) (tlists s (Susp q))"
  "rt_object_get_type r (wake_all e ts s) = rt_object_get_type r s"
  by (induction ts arbitrary: s) (auto simp: removeAll_filter_not_eq intro: filter_cong)

lemma wake_all_tcb:
  "distinct ts \<Longrightarrow> tcbs (wake_all e ts s) u = (if u \<in> set ts
     then (let b = new_stat (if current s = Some u then RT_THREAD_RUNNING else RT_THREAD_READY) ((tcbs s u)\<lparr>t_ttmr_set := False\<rparr>)
           in if e \<ge> 0 then b\<lparr>t_error := e\<rparr> else b)
     else tcbs s u)"
  by (induction ts arbitrary: s) auto

lemma kinv_wake_all:
  "kinv s \<Longrightarrow> distinct ts \<Longrightarrow> (\<And>t. t \<in> set ts \<Longrightarrow> susp_stat (tcbs s t)) \<Longrightarrow> kinv (wake_all e ts s)"
proof (induction ts arbitrary: s)
  case (Cons t ts)
  have "kinv (wake_err e t s)" using Cons.prems by (intro kinv_wake_err) auto
  moreover have "susp_stat (tcbs (wake_err e t s) u)" if "u \<in> set ts" for u
    using Cons.prems(2) Cons.prems(3) [of u] that by auto
  ultimately show ?case using Cons.IH [of "wake_err e t s"] Cons.prems(2) by simp
qed simp

lemma resume_all_run:
  assumes "kinv s"
  shows "rt_susp_list_resume_all q e s = Some (wake_all e (tlists s (Susp q)) s)"
  using assms
proof (induction "tlists s (Susp q)" arbitrary: s)
  case Nil
  then show ?case by (subst rt_susp_list_resume_all.simps) simp
next
  case (Cons t ts)
  have d: "distinct (t # ts)" using store_okD(1) [OF kinv_store [OF Cons.prems], of "Susp q"] Cons.hyps(2) by simp
  have su: "susp_stat (tcbs s t)" using kinv_queue_susp [OF Cons.prems, of t q] Cons.hyps(2) [symmetric] by simp
  have q: "tlists (wake_err e t s) (Susp q) = ts" using Cons.hyps(2) [symmetric] d by simp
  have "rt_susp_list_resume_all q e s = rt_susp_list_resume_all q e (wake_err e t s)"
    by (subst rt_susp_list_resume_all.simps) (simp add: dequeue_run [OF Cons.prems Cons.hyps(2) [symmetric]])
  also have "\<dots> = Some (wake_all e ts (wake_err e t s))"
    using Cons.hyps(1) [OF q [symmetric] kinv_wake_err [OF Cons.prems su]] q by simp
  finally show ?case by (simp add: Cons.hyps(2) [symmetric])
qed

lemma resume_all_kinv:
  assumes k: "kinv s"
  shows "kinv (wake_all e (tlists s (Susp q)) s)"
  using k store_okD(1) [OF kinv_store [OF k]] kinv_queue_susp [OF k]
  by (intro kinv_wake_all) auto

text \<open>
  \<open>rt_susp_list_resume_all\<close> wakes every thread of the queue and no other: it returns,
  the queue is empty, each woken thread is ready (running, if it is the current one) with its timeout cancelled and the
  given error, every other thread is as it was, and the kernel invariant holds.
\<close>

theorem rt_susp_list_resume_all_wakes_all:
  assumes k: "kinv s" and e: "e \<ge> 0"
  shows "\<exists>s'. rt_susp_list_resume_all q e s = Some s' \<and> kinv s' \<and> tlists s' (Susp q) = [] \<and>
    (\<forall>t. t \<in> set (tlists s (Susp q)) \<longrightarrow>
       stat_of (tcbs s' t) = (if current s = Some t then RT_THREAD_RUNNING else RT_THREAD_READY) \<and>
       t_error (tcbs s' t) = e \<and> \<not> t_ttmr_set (tcbs s' t)) \<and>
    (\<forall>t. t \<notin> set (tlists s (Susp q)) \<longrightarrow> tcbs s' t = tcbs s t)"
  using resume_all_run [OF k, of q e] resume_all_kinv [OF k, of e q] e
    store_okD(1) [OF kinv_store [OF k], of "Susp q"]
  by (auto simp: wake_all_tcb Let_def)

lemma rt_susp_list_resume_all_wakes_all_witness:
  "\<exists>s'. rt_susp_list_resume_all (SemQ 7) RT_ERROR (demo_wait (SemQ 7)) = Some s' \<and>
     tlists s' (Susp (SemQ 7)) = [] \<and> stat_of (tcbs s' 2) = RT_THREAD_READY \<and> t_error (tcbs s' 3) = RT_ERROR"
  using rt_susp_list_resume_all_wakes_all [OF kinv_demo [of "SemQ 7"], of RT_ERROR "SemQ 7"]
  by (auto simp: err_defs)

end
