(* ===== verification/ThreadOps.thy ===== *)
theory ThreadOps
  imports SuspList
begin

text \<open>
  Threads (rt-thread/src/thread.c): creation, start, suspension, resumption, time-outs, yielding
  and sleeping. A call that blocks is split where it gives the processor away: the definition named after
  the function ends with its call of \<open>rt_schedule\<close> (or of the \<open>rt_exit_critical\<close> that
  performs the switch), and the part after it, which runs when the thread is
  scheduled again, is a second definition with the suffix \<open>_resume\<close>. Entry functions, stacks and
  clean-up callbacks of threads are not part of the state.
\<close>

definition RT_WAITING_FOREVER :: int where "RT_WAITING_FOREVER = - 1"

fun suspend_stat :: "suspend_flag \<Rightarrow> u8" where
  "suspend_stat RT_INTERRUPTIBLE = RT_THREAD_SUSPEND_INTERRUPTIBLE"
| "suspend_stat RT_KILLABLE = RT_THREAD_SUSPEND_KILLABLE"
| "suspend_stat RT_UNINTERRUPTIBLE = RT_THREAD_SUSPEND_UNINTERRUPTIBLE"

definition thread_set_suspend_state :: "nat \<Rightarrow> suspend_flag \<Rightarrow> kst \<Rightarrow> kst" where
  "thread_set_suspend_state t suspend_flag s = upd_tcb t (new_stat (suspend_stat suspend_flag)) s"

definition rt_thread_suspend_to_list ::
  "nat \<Rightarrow> suspq option \<Rightarrow> u8 \<Rightarrow> suspend_flag \<Rightarrow> kst \<Rightarrow> (int \<times> kst) option" where
  "rt_thread_suspend_to_list t susp_list ipc_flags suspend_flag s = do {
     rt_assert (rt_object_get_type (OThread t) s = RT_Object_Class_Thread);
     rt_assert (rt_thread_self s = Some t);
     let stat = rt_sched_thread_get_stat t s;
     if stat \<noteq> RT_THREAD_READY \<and> stat \<noteq> RT_THREAD_RUNNING then Some (- RT_ERROR, s)
     else do {
       let s = rt_sched_remove_thread t s;
       let s = thread_set_suspend_state t suspend_flag s;
       s \<leftarrow> (case susp_list of None \<Rightarrow> Some s | Some q \<Rightarrow> rt_susp_list_enqueue q t ipc_flags s);
       (_, s) \<leftarrow> rt_sched_thread_timer_stop t s;
       Some (RT_EOK, s)
     }
   }"

definition rt_thread_suspend_with_flag :: "nat \<Rightarrow> suspend_flag \<Rightarrow> kst \<Rightarrow> (int \<times> kst) option" where
  "rt_thread_suspend_with_flag t suspend_flag s = rt_thread_suspend_to_list t None 0 suspend_flag s"

definition rt_thread_suspend :: "nat \<Rightarrow> kst \<Rightarrow> (int \<times> kst) option" where
  "rt_thread_suspend t s = rt_thread_suspend_with_flag t RT_UNINTERRUPTIBLE s"

definition rt_thread_resume :: "nat \<Rightarrow> kst \<Rightarrow> (int \<times> kst) option" where
  "rt_thread_resume t s = do {
     rt_assert (rt_object_get_type (OThread t) s = RT_Object_Class_Thread);
     (error, s) \<leftarrow> rt_sched_thread_ready t s;
     if error = RT_EOK then do {
       s \<leftarrow> rt_sched_unlock_n_resched s;
       Some (RT_EOK, s)
     } else Some (error, s)
   }"

definition thread_timeout :: "nat \<Rightarrow> kst \<Rightarrow> kst option" where
  \<comment> \<open>\<open>_thread_timeout\<close>, the function of every thread timer\<close>
  "thread_timeout t s = do {
     rt_assert (rt_object_get_type (OThread t) s = RT_Object_Class_Thread);
     rt_assert (rt_sched_thread_is_suspended t s);
     let s = upd_tcb t (\<lambda>b. b\<lparr>t_error := - RT_ETIMEOUT\<rparr>) s;
     let s = upd_tlists (st_remove t) s;
     let s = rt_sched_insert_thread t s;
     rt_sched_unlock_n_resched s
   }"

definition thread_init_body :: "nat \<Rightarrow> u8 \<Rightarrow> u32 \<Rightarrow> kst \<Rightarrow> (int \<times> kst) option" where
  \<comment> \<open>\<open>_thread_init\<close>\<close>
  "thread_init_body t priority ticks s = do {
     s \<leftarrow> rt_sched_thread_init_ctx t ticks priority s;
     let s = s\<lparr>takens := (takens s)(t := [])\<rparr>;
     let s = upd_tcb t (\<lambda>b. b\<lparr>t_pending_object := None, t_event_set := 0, t_event_info := 0,
                              t_error := RT_EOK\<rparr>) s;
     s \<leftarrow> rt_timer_init (ThreadTimer t) (Some (o_name (objs s (OThread t)))) Thread_timeout t 0
            RT_TIMER_FLAG_THREAD_TIMER s;
     Some (RT_EOK, s)
   }"

definition rt_thread_init :: "nat \<Rightarrow> string option \<Rightarrow> u8 \<Rightarrow> u32 \<Rightarrow> kst \<Rightarrow> (int \<times> kst) option" where
  \<comment> \<open>the stack is not modelled; the block of the thread is cleared first\<close>
  "rt_thread_init t name priority ticks s = do {
     rt_assert (ticks \<noteq> 0);
     let s = upd_tcb t (\<lambda>_. blank_tcb) s;
     let s = upd_obj (OThread t) (\<lambda>_. \<lparr>o_type = 0, o_flag = 0, o_name = []\<rparr>) s;
     let s = upd_obj (OTimer (ThreadTimer t)) (\<lambda>_. \<lparr>o_type = 0, o_flag = 0, o_name = []\<rparr>) s;
     s \<leftarrow> rt_object_init (OThread t) RT_Object_Class_Thread name s;
     thread_init_body t priority ticks s
   }"

definition rt_thread_startup :: "nat \<Rightarrow> kst \<Rightarrow> (int \<times> kst) option" where
  "rt_thread_startup t s = do {
     rt_assert (stat_of (tcbs s t) = RT_THREAD_INIT);
     rt_assert (rt_object_get_type (OThread t) s = RT_Object_Class_Thread);
     let s = rt_sched_thread_startup t s;
     (_, s) \<leftarrow> rt_thread_resume t s;
     Some (RT_EOK, s)
   }"

definition rt_thread_close :: "nat \<Rightarrow> kst \<Rightarrow> (int \<times> kst) option" where
  "rt_thread_close t s = do {
     rt_assert (rt_thread_self s \<noteq> Some t \<or> rt_critical_level s \<noteq> 0);
     let thread_status = rt_sched_thread_get_stat t s;
     if thread_status \<noteq> RT_THREAD_CLOSE then do {
       let s = (if thread_status \<noteq> RT_THREAD_INIT then rt_sched_remove_thread t s else s);
       (_, s) \<leftarrow> rt_timer_detach (ThreadTimer t) s;
       Some (RT_EOK, rt_sched_thread_close t s)
     } else Some (RT_EOK, s)
   }"

definition rt_thread_create ::
  "nat option \<Rightarrow> bool \<Rightarrow> string option \<Rightarrow> u8 \<Rightarrow> u32 \<Rightarrow> kst \<Rightarrow> (nat option \<times> kst) option" where
  \<comment> \<open>\<open>block\<close> and \<open>stack_ok\<close>: the outcomes of the two allocations\<close>
  "rt_thread_create block stack_ok name priority ticks s = do {
     rt_assert (ticks \<noteq> 0);
     let s = (case block of None \<Rightarrow> s | Some t \<Rightarrow>
               upd_obj (OTimer (ThreadTimer t)) (\<lambda>_. \<lparr>o_type = 0, o_flag = 0, o_name = []\<rparr>)
                 (upd_tcb t (\<lambda>_. blank_tcb) s));
     (_, s) \<leftarrow> rt_object_allocate (map_option OThread block) RT_Object_Class_Thread name s;
     case block of
       None \<Rightarrow> Some (None, s)
     | Some t \<Rightarrow>
         if \<not> stack_ok then do {
           s \<leftarrow> rt_object_delete (OThread t) s;
           Some (None, s)
         } else do {
           (_, s) \<leftarrow> thread_init_body t priority ticks s;
           Some (Some t, s)
         }
   }"

definition rt_thread_yield :: "kst \<Rightarrow> (int \<times> kst) option" where
  "rt_thread_yield s = do {
     t \<leftarrow> rt_thread_self s;
     let s = rt_sched_thread_yield t s;
     s \<leftarrow> rt_sched_unlock_n_resched s;
     Some (RT_EOK, s)
   }"

definition start_wait_timer :: "nat \<Rightarrow> u32 \<Rightarrow> kst \<Rightarrow> kst option" where
  \<comment> \<open>the two calls on the thread's timer with which every timed wait begins\<close>
  "start_wait_timer t timeout s = do {
     (_, s) \<leftarrow> rt_timer_control (ThreadTimer t) (TIMER_SET_TIME timeout) s;
     (_, s) \<leftarrow> rt_timer_start (ThreadTimer t) s;
     Some s
   }"

definition thread_sleep :: "u32 \<Rightarrow> kst \<Rightarrow> (int option \<times> kst) option" where
  \<comment> \<open>\<open>_thread_sleep\<close> up to the switch; \<open>None\<close> as result: the caller sleeps, \<open>Some e\<close>: it returned \<open>e\<close> at once\<close>
  "thread_sleep ticks s =
     (if ticks = 0 then Some (Some (- RT_EINVAL), s)
      else do {
        t \<leftarrow> rt_thread_self s;
        rt_assert (rt_object_get_type (OThread t) s = RT_Object_Class_Thread);
        rt_assert (debug_scheduler_available True s);
        let s = upd_tcb t (\<lambda>b. b\<lparr>t_error := RT_EOK\<rparr>) s;
        let s = rt_enter_critical s;
        (err, s) \<leftarrow> rt_thread_suspend_with_flag t RT_INTERRUPTIBLE s;
        if err = RT_EOK then do {
          s \<leftarrow> start_wait_timer t ticks s;
          let s = upd_tcb t (\<lambda>b. b\<lparr>t_error := - RT_EINTR\<rparr>) s;
          s \<leftarrow> rt_schedule s;
          s \<leftarrow> rt_exit_critical s;
          Some (None, s)
        } else do {
          s \<leftarrow> rt_exit_critical s;
          Some (Some err, s)
        }
      })"

definition thread_sleep_resume :: "nat \<Rightarrow> kst \<Rightarrow> int \<times> kst" where
  "thread_sleep_resume t s =
     (RT_EOK, if t_error (tcbs s t) = - RT_ETIMEOUT then upd_tcb t (\<lambda>b. b\<lparr>t_error := RT_EOK\<rparr>) s else s)"

definition rt_thread_delay :: "u32 \<Rightarrow> kst \<Rightarrow> (int option \<times> kst) option" where
  "rt_thread_delay ticks s = thread_sleep ticks s"

definition rt_thread_delay_until :: "u32 \<Rightarrow> u32 \<Rightarrow> kst \<Rightarrow> ((u32 \<times> int option) \<times> kst) option" where
  \<comment> \<open>the caller's tick variable is an argument and, updated, a result\<close>
  "rt_thread_delay_until wake_tick inc_tick s = do {
     t \<leftarrow> rt_thread_self s;
     rt_assert (rt_object_get_type (OThread t) s = RT_Object_Class_Thread);
     let s = upd_tcb t (\<lambda>b. b\<lparr>t_error := RT_EOK\<rparr>) s;
     let s = rt_enter_critical s;
     let cur_tick = rt_tick_get s;
     if cur_tick - wake_tick < inc_tick then do {
       let wake_tick = wake_tick + inc_tick;
       let left_tick = wake_tick - cur_tick;
       (_, s) \<leftarrow> rt_thread_suspend_with_flag t RT_UNINTERRUPTIBLE s;
       s \<leftarrow> start_wait_timer t left_tick s;
       s \<leftarrow> rt_exit_critical s;
       s \<leftarrow> rt_schedule s;
       Some ((wake_tick, None), s)
     } else do {
       s \<leftarrow> rt_exit_critical s;
       Some ((cur_tick, Some (t_error (tcbs s t))), s)
     }
   }"

definition rt_thread_delay_until_resume :: "nat \<Rightarrow> kst \<Rightarrow> int \<times> kst" where
  "rt_thread_delay_until_resume t s =
     (let s = (if t_error (tcbs s t) = - RT_ETIMEOUT then upd_tcb t (\<lambda>b. b\<lparr>t_error := RT_EOK\<rparr>) s else s)
      in (t_error (tcbs s t), s))"

definition rt_tick_from_millisecond :: "int \<Rightarrow> u32" where
  \<comment> \<open>with \<open>RT_TICK_PER_SECOND = 1000\<close>\<close>
  "rt_tick_from_millisecond ms = (if ms < 0 then word_of_int RT_WAITING_FOREVER else word_of_int ms)"

definition rt_thread_mdelay :: "int \<Rightarrow> kst \<Rightarrow> (int option \<times> kst) option" where
  "rt_thread_mdelay ms s = thread_sleep (rt_tick_from_millisecond ms) s"

definition rt_thread_defunct_enqueue :: "nat \<Rightarrow> kst \<Rightarrow> kst option" where
  "rt_thread_defunct_enqueue t s = with_lock (upd_tlists (st_push Defunct t)) s"

definition rt_thread_defunct_dequeue :: "kst \<Rightarrow> (nat option \<times> kst) option" where
  "rt_thread_defunct_dequeue s = do {
     let s = rt_spin_lock s;
     let (thread, s) = (case tlists s Defunct of
         [] \<Rightarrow> (None, s)
       | t # _ \<Rightarrow> (Some t, upd_tlists (st_remove t) s));
     s \<leftarrow> rt_spin_unlock s;
     Some (thread, s)
   }"

partial_function (option) rt_defunct_execute :: "kst \<Rightarrow> kst option" where
  \<comment> \<open>no thread of this program sets a clean-up callback\<close>
  "rt_defunct_execute s = do {
     (thread, s) \<leftarrow> rt_thread_defunct_dequeue s;
     case thread of
       None \<Rightarrow> Some s
     | Some t \<Rightarrow> do {
         s \<leftarrow> (if rt_object_is_systemobject (OThread t) s then rt_object_detach (OThread t) s
               else rt_object_delete (OThread t) s);
         rt_defunct_execute s
       }
   }"

subsection \<open>Suspending\<close>

declare suspend_stat.simps [simp del]

definition cancel_ttmr :: "nat \<Rightarrow> kst \<Rightarrow> kst" where
  \<comment> \<open>what \<open>rt_sched_thread_timer_stop\<close> leaves, whether or not the timer was active\<close>
  "cancel_ttmr t s = upd_tcb t (\<lambda>b. b\<lparr>t_ttmr_set := False\<rparr>)
     (if t_ttmr_set (tcbs s t) \<and> tm_has RT_TIMER_FLAG_ACTIVATED (ThreadTimer t) s
      then timer_off (ThreadTimer t) s else s)"

lemma timer_stop_cancel:
  assumes "crit_ok s" and "is_timer (ThreadTimer t) s"
  shows "\<exists>e. rt_sched_thread_timer_stop t s = Some (e, cancel_ttmr t s)"
  using rt_timer_stop_run [OF assms] by (auto simp: rt_sched_thread_timer_stop_def cancel_ttmr_def upd_tcb_id)

lemma cancel_ttmr_fields [simp]:
  "tcbs (cancel_ttmr t s) = (tcbs s)(t := (tcbs s t)\<lparr>t_ttmr_set := False\<rparr>)"
  "tlists (cancel_ttmr t s) = tlists s" "ready_group (cancel_ttmr t s) = ready_group s"
  "current (cancel_ttmr t s) = current s" "lock_nest (cancel_ttmr t s) = lock_nest s"
  "crit_flag (cancel_ttmr t s) = crit_flag s" "irq_nest (cancel_ttmr t s) = irq_nest s"
  "takens (cancel_ttmr t s) = takens s" "sems (cancel_ttmr t s) = sems s" "mutexes (cancel_ttmr t s) = mutexes s"
  "events (cancel_ttmr t s) = events s" "mboxes (cancel_ttmr t s) = mboxes s" "tick (cancel_ttmr t s) = tick s"
  "mqueues (cancel_ttmr t s) = mqueues s" "mpools (cancel_ttmr t s) = mpools s"
  "rt_object_get_type r (cancel_ttmr t s) = rt_object_get_type r s"
  "tm_has RT_TIMER_FLAG_THREAD_TIMER tm (cancel_ttmr t s) = tm_has RT_TIMER_FLAG_THREAD_TIMER tm s"
  "tm_has RT_TIMER_FLAG_SOFT_TIMER tm (cancel_ttmr t s) = tm_has RT_TIMER_FLAG_SOFT_TIMER tm s"
  "objs (cancel_ttmr t s) (OThread u) = objs s (OThread u)"
  "u \<noteq> t \<Longrightarrow> objs (cancel_ttmr t s) (OTimer (ThreadTimer u)) = objs s (OTimer (ThreadTimer u))"
  by (simp_all add: cancel_ttmr_def flags_off)
    (simp_all add: timer_off_def tm_clear_def timer_remove_def)

definition susp_insert :: "u8 \<Rightarrow> nat \<Rightarrow> (nat \<Rightarrow> tcb) \<Rightarrow> nat list \<Rightarrow> nat list" where
  \<comment> \<open>where a thread enters a queue\<close>
  "susp_insert flag t T ts =
     (if flag = RT_IPC_FLAG_FIFO then ts @ [t]
      else ins_before (\<lambda>u. t_current_priority (T t) < t_current_priority (T u)) t ts)"

definition ipc_flag_ok :: "u8 \<Rightarrow> bool" where
  "ipc_flag_ok flag \<longleftrightarrow> flag = RT_IPC_FLAG_FIFO \<or> flag = RT_IPC_FLAG_PRIO"

lemma set_susp_insert [simp]: "set (susp_insert flag t T ts) = insert t (set ts)"
  by (auto simp: susp_insert_def)

lemma distinct_susp_insert [simp]: "distinct (susp_insert flag t T ts) \<longleftrightarrow> t \<notin> set ts \<and> distinct ts"
  by (auto simp: susp_insert_def)

lemma enqueue_run:
  "ipc_flag_ok flag \<Longrightarrow> rt_susp_list_enqueue q t flag s =
     Some (upd_tlists (\<lambda>ls. ls(Susp q := susp_insert flag t (tcbs s) (ls (Susp q)))) s)"
  by (auto simp: rt_susp_list_enqueue_def ipc_flag_ok_def susp_insert_def st_append_def
      RT_IPC_FLAG_FIFO_def RT_IPC_FLAG_PRIO_def)

definition thread_block :: "nat \<Rightarrow> (suspq \<times> u8) option \<Rightarrow> suspend_flag \<Rightarrow> kst \<Rightarrow> kst" where
  \<comment> \<open>the running thread, suspended, on a queue or on none\<close>
  "thread_block t w sf s = cancel_ttmr t
     ((case w of None \<Rightarrow> \<lambda>s. s
       | Some (q, flag) \<Rightarrow> upd_tlists (\<lambda>ls. ls(Susp q := susp_insert flag t (tcbs s) (ls (Susp q)))))
      (thread_set_suspend_state t sf (rt_sched_remove_thread t s)))"

lemma susp_insert_cong: "(\<And>u. t_current_priority (T u) = t_current_priority (T' u)) \<Longrightarrow> susp_insert f t T ts = susp_insert f t T' ts"
  by (simp add: susp_insert_def)

lemma susp_insert_new_stat [simp]: "susp_insert f t (T(u := new_stat v (T u))) ts = susp_insert f t T ts"
  by (rule susp_insert_cong) simp

lemma suspend_run:
  assumes k: "kinv s" and c: "current s = Some t" and r: "stat_of (tcbs s t) = RT_THREAD_RUNNING"
    and f: "\<And>q. w = Some (q, flag) \<Longrightarrow> ipc_flag_ok flag" and w: "map_option snd w = None \<or> map_option snd w = Some flag"
  shows "rt_thread_suspend_to_list t (map_option fst w) flag sf s = Some (RT_EOK, thread_block t w sf s)"
proof -
  have ok: "thread_ok t s" using kinv_live [OF k] r by (simp add: live_def)
  have cr: "crit_ok s" using k by (simp add: kinv_def)
  let ?s2 = "thread_set_suspend_state t sf (rt_sched_remove_thread t s)"
  let ?enq = "(case w of None \<Rightarrow> \<lambda>s. s
       | Some (q, flag) \<Rightarrow> upd_tlists (\<lambda>ls. ls(Susp q := susp_insert flag t (tcbs s) (ls (Susp q)))))"
  have e: "(case map_option fst w of None \<Rightarrow> Some ?s2 | Some q \<Rightarrow> rt_susp_list_enqueue q t flag ?s2) = Some (?enq ?s2)"
    using f w by (auto simp: enqueue_run thread_set_suspend_state_def split: option.splits)
  have "crit_ok (?enq ?s2)" using cr by (auto simp: thread_set_suspend_state_def crit_ok_def split: option.split)
  moreover have "is_timer (ThreadTimer t) (?enq ?s2)"
    using ok by (auto simp: thread_set_suspend_state_def thread_ok_def rt_object_get_type_def split: option.split)
  ultimately obtain x where "rt_sched_thread_timer_stop t (?enq ?s2) = Some (x, cancel_ttmr t (?enq ?s2))"
    using timer_stop_cancel by blast
  with e ok c r show ?thesis
    by (simp add: rt_thread_suspend_to_list_def thread_ok_def rt_thread_self_def rt_sched_thread_get_stat_def
        thread_block_def)
qed

lemma suspend_stat_susp [simp]: "suspend_stat sf AND 4 = 4" "suspend_stat sf AND 7 \<noteq> RT_THREAD_READY"
  "suspend_stat sf AND 7 \<noteq> RT_THREAD_RUNNING"
  by (cases sf; simp add: stat_defs suspend_stat.simps)+

lemma thread_block_fields [simp]:
  "tcbs (thread_block t w sf s) = (tcbs s)(t := (new_stat (suspend_stat sf) (tcbs s t))\<lparr>t_ttmr_set := False\<rparr>)"
  "current (thread_block t w sf s) = current s" "lock_nest (thread_block t w sf s) = lock_nest s"
  "crit_flag (thread_block t w sf s) = crit_flag s" "irq_nest (thread_block t w sf s) = irq_nest s"
  "takens (thread_block t w sf s) = takens s" "sems (thread_block t w sf s) = sems s"
  "mutexes (thread_block t w sf s) = mutexes s" "events (thread_block t w sf s) = events s"
  "mboxes (thread_block t w sf s) = mboxes s" "tick (thread_block t w sf s) = tick s"
  "mqueues (thread_block t w sf s) = mqueues s" "mpools (thread_block t w sf s) = mpools s"
  "rt_object_get_type r (thread_block t w sf s) = rt_object_get_type r s"
  by (auto simp: thread_block_def thread_set_suspend_state_def split: option.split)

lemma thread_block_queue:
  assumes "kinv s" and "stat_of (tcbs s t) = RT_THREAD_RUNNING"
  shows "tlists (thread_block t (Some (q, flag)) sf s) (Susp q') =
    (if q' = q then susp_insert flag t (tcbs s) (tlists s (Susp q)) else tlists s (Susp q'))"
proof -
  have "t \<notin> set (tlists s (Susp q'))" for q' using not_queued [of s t] assms by (simp add: kinv_def)
  then show ?thesis by (simp add: thread_block_def thread_set_suspend_state_def)
qed

lemma timers_ok_cancel [simp]: "timers_ok s \<Longrightarrow> timers_ok (cancel_ttmr t s)"
  by (simp add: cancel_ttmr_def timers_ok_off)

lemma kinv_block:
  assumes k: "kinv s" and c: "current s = Some t" and r: "stat_of (tcbs s t) = RT_THREAD_RUNNING"
  shows "kinv (thread_block t w sf s)"
proof -
  let ?b = "(new_stat (suspend_stat sf) (tcbs s t))\<lparr>t_ttmr_set := False\<rparr>"
  let ?s1 = "rt_sched_remove_thread t s"
  have tab: "table_ok s" using k by (simp add: kinv_def sched_inv_def)
  have but: "tinv_but t (st_remove t (tlists s)) (ready_group ?s1) (tcbs s)"
    using table_remove [OF tab, of t] by simp
  have rb: "susp_stat ?b" "stat_of ?b \<noteq> RT_THREAD_READY" "stat_of ?b \<noteq> RT_THREAD_RUNNING" "runnable_ok ?b"
    using kinv_runnable [OF k, of t] r by (auto simp: live_def runnable_ok_def susp_stat_stat_of and.assoc)
  have d: "distinct (tlists s (Susp q))" "t \<notin> set (tlists s (Susp q))" for q
    using store_okD(1) [OF kinv_store [OF k]] not_queued [of s t] k r by (auto simp: kinv_def)
  have g: "ready_group (thread_block t w sf s) = ready_group ?s1"
    by (auto simp: thread_block_def thread_set_suspend_state_def split: option.split)
  have l: "tlists (thread_block t w sf s) = (case w of None \<Rightarrow> st_remove t (tlists s)
      | Some (q, flag) \<Rightarrow> (st_remove t (tlists s))(Susp q := susp_insert flag t (tcbs s) (tlists s (Susp q))))"
    using d by (auto simp: thread_block_def thread_set_suspend_state_def split: option.split)
  have "table_ok (thread_block t w sf s)"
  proof (cases w)
    case None
    then show ?thesis
      using tinv_park [OF but, of ?b] rb l g by (simp add: runnable_mask_ok)
  next
    case (Some qf)
    then obtain q flag where w: "w = Some (q, flag)" by (cases qf) auto
    show ?thesis
      using tinv_enqueue [OF but rb(1,4), of "susp_insert flag t (tcbs s) (tlists s (Susp q))" q] d w l g
      by simp
  qed
  moreover have "cinv (current s) ((tcbs s)(t := ?b))"
    using k rb c by (intro cinv_close) (auto simp: kinv_def sched_inv_def cinv_weaken)
  moreover have "timers_ok (thread_block t w sf s)"
    using k unfolding thread_block_def thread_set_suspend_state_def
    by (intro timers_ok_cancel) (auto simp: kinv_def split: option.split)
  moreover have "threads_ok (thread_block t w sf s)"
  proof (rule threads_okI [where t = t and s = s])
    show "thread_ok t (thread_block t w sf s)"
      using kinv_live [OF k, of t] r
      by (auto simp: live_def thread_ok_def thread_block_def thread_set_suspend_state_def split: option.split)
  qed (use k in \<open>auto simp: kinv_def thread_block_def thread_set_suspend_state_def split: option.split\<close>)
  ultimately show ?thesis using k by (simp add: kinv_def sched_inv_def crit_ok_def)
qed

subsection \<open>Arming the timeout of a wait\<close>

definition arm_timer :: "nat \<Rightarrow> u32 \<Rightarrow> kst \<Rightarrow> kst" where
  \<comment> \<open>the state after \<open>start_wait_timer\<close>\<close>
  "arm_timer t timeout s =
     (let s = (if tm_has RT_TIMER_FLAG_ACTIVATED (ThreadTimer t) s then timer_off (ThreadTimer t) s else s);
          s = upd_timer (ThreadTimer t) (\<lambda>m. m\<lparr>tm_init_tick := timeout\<rparr>) s
      in timer_start HardTimers (ThreadTimer t) (rt_sched_thread_timer_start t s))"

lemma timer_set_time_run:
  assumes c: "crit_ok s" and t: "is_timer tm s" and v: "v < HALF_TICKS"
  shows "rt_timer_control tm (TIMER_SET_TIME v) s = Some ((RT_EOK, NoArg),
    upd_timer tm (\<lambda>m. m\<lparr>tm_init_tick := v\<rparr>) (if tm_has RT_TIMER_FLAG_ACTIVATED tm s then timer_off tm s else s))"
proof -
  let ?f = "\<lambda>s. upd_timer tm (\<lambda>m. m\<lparr>tm_init_tick := v\<rparr>) (if tm_has RT_TIMER_FLAG_ACTIVATED tm s then timer_off tm s else s)"
  have "lock_neutral ?f"
    by (simp add: lock_neutral_def timer_off_def tm_clear_def timer_remove_def)
  from with_lock_run [OF this c] t v show ?thesis
    by (auto simp: rt_timer_control_def timer_control_body_def with_lock_def Let_def timer_off_def)
qed

lemma start_wait_timer_run:
  assumes c: "crit_ok s" and ok: "thread_ok t s" and v: "v < HALF_TICKS"
  shows "start_wait_timer t v s = Some (arm_timer t v s)"
proof -
  let ?tm = "ThreadTimer t"
  let ?s1 = "upd_timer ?tm (\<lambda>m. m\<lparr>tm_init_tick := v\<rparr>) (if tm_has RT_TIMER_FLAG_ACTIVATED ?tm s then timer_off ?tm s else s)"
  have 1: "crit_ok ?s1" using c by (auto simp: crit_ok_def)
  have 2: "is_timer ?tm ?s1" "rt_object_get_type (OThread t) ?s1 = RT_Object_Class_Thread"
    "tm_has RT_TIMER_FLAG_THREAD_TIMER ?tm ?s1" "timer_list_of ?tm ?s1 = HardTimers"
    using ok by (auto simp: thread_ok_def flags_off timer_list_of_def)
  show ?thesis
    using timer_set_time_run [OF c _ v, of ?tm] rt_timer_start_run [OF 1 2(1)] 2 ok
    by (simp add: start_wait_timer_def thread_ok_def arm_timer_def)
qed

lemma arm_timer_fields [simp]:
  "tcbs (arm_timer t v s) = (tcbs s)(t := (tcbs s t)\<lparr>t_ttmr_set := True\<rparr>)"
  "tlists (arm_timer t v s) = tlists s" "ready_group (arm_timer t v s) = ready_group s"
  "current (arm_timer t v s) = current s" "lock_nest (arm_timer t v s) = lock_nest s"
  "crit_flag (arm_timer t v s) = crit_flag s" "irq_nest (arm_timer t v s) = irq_nest s"
  "takens (arm_timer t v s) = takens s" "sems (arm_timer t v s) = sems s"
  "mutexes (arm_timer t v s) = mutexes s" "events (arm_timer t v s) = events s"
  "mboxes (arm_timer t v s) = mboxes s" "tick (arm_timer t v s) = tick s"
  "mqueues (arm_timer t v s) = mqueues s" "mpools (arm_timer t v s) = mpools s"
  "rt_object_get_type r (arm_timer t v s) = rt_object_get_type r s"
  by (auto simp: arm_timer_def Let_def rt_sched_thread_timer_start_def timer_start_def timer_off_def
      tm_clear_def tm_set_def timer_remove_def rt_object_get_type_def)

lemma arm_timer_objs [simp]:
  "objs (arm_timer t v s) (OThread u) = objs s (OThread u)"
  "u \<noteq> t \<Longrightarrow> objs (arm_timer t v s) (OTimer (ThreadTimer u)) = objs s (OTimer (ThreadTimer u))"
  by (auto simp: arm_timer_def Let_def rt_sched_thread_timer_start_def timer_start_def timer_off_def
      tm_clear_def tm_set_def timer_remove_def)

lemma arm_timer_deadline:
  "tm_timeout_tick (timers (arm_timer t v s) (ThreadTimer t)) = tick s + v"
  by (auto simp: arm_timer_def Let_def timer_start_timeout rt_sched_thread_timer_start_def)

lemma arm_timer_flags:
  "tm_has RT_TIMER_FLAG_THREAD_TIMER tm (arm_timer t v s) = tm_has RT_TIMER_FLAG_THREAD_TIMER tm s"
  "tm_has RT_TIMER_FLAG_SOFT_TIMER tm (arm_timer t v s) = tm_has RT_TIMER_FLAG_SOFT_TIMER tm s"
  "tm_has RT_TIMER_FLAG_ACTIVATED (ThreadTimer t) (arm_timer t v s)"
  by (auto simp: arm_timer_def Let_def rt_sched_thread_timer_start_def flags_start flags_off)

lemma timer_list_of_irrelevant [simp]:
  "timer_list_of tm (s\<lparr>tcbs := a\<rparr>) = timer_list_of tm s"
  "timer_list_of tm (s\<lparr>timers := b\<rparr>) = timer_list_of tm s"
  by (simp_all add: timer_list_of_def)

lemma kinv_arm:
  assumes k: "kinv s" and l: "live (tcbs s t)"
  shows "kinv (arm_timer t v s)"
proof -
  have ok: "thread_ok t s" by (rule kinv_live [OF k l])
  let ?s1 = "upd_timer (ThreadTimer t) (\<lambda>m. m\<lparr>tm_init_tick := v\<rparr>)
    (if tm_has RT_TIMER_FLAG_ACTIVATED (ThreadTimer t) s then timer_off (ThreadTimer t) s else s)"
  have "timers_ok ?s1"
    using k timers_ok_off [of s "ThreadTimer t"] by (subst timers_ok_cong [of ?s1 "?s1\<lparr>timers := timers s\<rparr>"])
      (auto simp: kinv_def timer_off_def tm_clear_def timer_remove_def)
  then have "timers_ok (rt_sched_thread_timer_start t ?s1)" by (simp add: rt_sched_thread_timer_start_def)
  moreover have "timer_list_of (ThreadTimer t) (rt_sched_thread_timer_start t ?s1) = HardTimers"
    using ok by (auto simp: rt_sched_thread_timer_start_def timer_list_of_def thread_ok_def flags_off)
  ultimately have "timers_ok (arm_timer t v s)"
    unfolding arm_timer_def Let_def using timers_ok_start by metis
  moreover have "threads_ok (arm_timer t v s)"
  proof (rule threads_okI [where t = t and s = s])
    show "thread_ok t (arm_timer t v s)" using ok by (simp add: thread_ok_def arm_timer_flags)
  qed (use k in \<open>auto simp: kinv_def\<close>)
  ultimately show ?thesis
    using k by (simp add: kinv_def sched_inv_def crit_ok_def)
qed

subsection \<open>Rescheduling\<close>

lemma rt_schedule_total:
  assumes k: "kinv s" and c: "current s \<noteq> None"
  shows "\<exists>s'. rt_schedule s = Some s' \<and> kinv s' \<and> same_ipc s s'"
proof -
  have i: "sched_inv s" using k by (simp add: kinv_def)
  obtain s' where "rt_schedule s = Some s'"
  proof (cases "lock_nest s = 0 \<and> ready_group s \<noteq> 0")
    case True
    with c rt_schedule_inv_some [OF i] that show ?thesis by auto
  next
    case False
    with that show ?thesis
      by (cases "lock_nest s = 0") (auto simp: rt_schedule_locked rt_schedule_none_ready)
  qed
  with kinv_schedule [OF k] rt_schedule_frame [OF i] show ?thesis by blast
qed

lemma same_ipc_refl [simp]: "same_ipc s s"
  by (simp add: same_ipc_def)

lemma resched_total:
  assumes "kinv s"
  shows "\<exists>s'. rt_sched_unlock_n_resched s = Some s' \<and> kinv s' \<and> same_ipc s s'"
  using rt_schedule_total [OF assms] assms
  by (auto simp: rt_sched_unlock_n_resched_def rt_thread_self_def)

lemma unlock_total:
  assumes k: "kinv (s\<lparr>lock_nest := n, crit_flag := False\<rparr>)" and n: "lock_nest s = n + 1" "0 \<le> n"
    and c: "crit_flag s \<Longrightarrow> n = 0 \<and> current s \<noteq> None"
  shows "\<exists>s'. rt_spin_unlock s = Some s' \<and> kinv s' \<and> same_ipc s s'"
proof (cases "crit_flag s")
  case False
  then have "s\<lparr>lock_nest := n, crit_flag := False\<rparr> = s\<lparr>lock_nest := n\<rparr>" by simp
  with k have "kinv (s\<lparr>lock_nest := n\<rparr>)" by metis
  moreover have "same_ipc s (s\<lparr>lock_nest := n\<rparr>)" by (simp add: same_ipc_def)
  ultimately show ?thesis using False spin_unlock_lock [OF n] by auto
next
  case True
  with c have n0: "n = 0" "current s \<noteq> None" by auto
  let ?s0 = "s\<lparr>lock_nest := 0, crit_flag := False\<rparr>"
  have "rt_spin_unlock s = rt_schedule ?s0"
    using n n0 True by (simp add: rt_spin_unlock_def rt_exit_critical_def)
  moreover obtain s' where "rt_schedule ?s0 = Some s'" "kinv s'" "same_ipc ?s0 s'"
    using rt_schedule_total [of ?s0] k n0 by auto
  ultimately show ?thesis by (auto simp: same_ipc_def)
qed

text \<open>
  \<open>rt_thread_resume\<close> of a suspended thread succeeds: the thread leaves its queue, its
  timeout is cancelled, it is no longer suspended, and the kernel invariant holds. On a thread that is not suspended the call
  changes nothing and returns \<open>-RT_EINVAL\<close>.
\<close>

theorem rt_thread_resume_wakes:
  assumes k: "kinv s" and ty: "rt_object_get_type (OThread t) s = RT_Object_Class_Thread"
  shows "if susp_stat (tcbs s t)
    then \<exists>s'. rt_thread_resume t s = Some (RT_EOK, s') \<and> kinv s' \<and> \<not> susp_stat (tcbs s' t) \<and>
      \<not> t_ttmr_set (tcbs s' t) \<and> (\<forall>q. tlists s' (Susp q) = removeAll t (tlists s (Susp q)))
    else rt_thread_resume t s = Some (- RT_EINVAL, s)"
proof (cases "susp_stat (tcbs s t)")
  case True
  obtain s' where s': "rt_sched_unlock_n_resched (thread_wake t s) = Some s'" "kinv s'"
      "same_ipc (thread_wake t s) s'"
    using resched_total [OF kinv_wake [OF k True]] by blast
  then show ?thesis
    using True ty rt_sched_thread_ready_run [OF k True]
    by (auto simp: rt_thread_resume_def same_ipc_def)
next
  case False
  with ty show ?thesis
    by (simp add: rt_thread_resume_def rt_sched_thread_ready_def rt_sched_thread_is_suspended_def err_defs)
qed

lemma rt_thread_resume_wakes_witness:
  "\<exists>s'. rt_thread_resume 3 (demo_wait (SemQ 7)) = Some (RT_EOK, s') \<and> tlists s' (Susp (SemQ 7)) = [2]"
proof -
  have "susp_stat (tcbs (demo_wait (SemQ 7)) 3)" 
    by (rule kinv_queue_susp [OF kinv_demo, where q = "SemQ 7"]) simp
  with rt_thread_resume_wakes [OF kinv_demo [of "SemQ 7"], of 3] show ?thesis by auto
qed

subsection \<open>Time-outs\<close>

definition thread_expire :: "nat \<Rightarrow> kst \<Rightarrow> kst" where
  \<comment> \<open>\<open>_thread_timeout\<close> up to the rescheduling\<close>
  "thread_expire t s = rt_sched_insert_thread t
     (upd_tlists (st_remove t) (upd_tcb t (\<lambda>b. b\<lparr>t_error := - RT_ETIMEOUT\<rparr>) s))"

lemma kinv_expire:
  assumes k: "kinv s" and su: "susp_stat (tcbs s t)"
  shows "kinv (thread_expire t s)"
proof -
  let ?s0 = "upd_tcb t (\<lambda>b. b\<lparr>t_error := - RT_ETIMEOUT\<rparr>) s"
  let ?s1 = "upd_tlists (st_remove t) ?s0"
  have k0: "kinv ?s0" using k by simp
  have "sched_but t ?s1"
    by (rule sched_but_dequeue) (use k0 su susp_stat_disj(1) in \<open>auto simp: kinv_def\<close>)
  moreover have "runnable_ok (tcbs ?s1 t)" using kinv_runnable [OF k, of t] su by (simp add: runnable_ok_def)
  ultimately have "sched_inv (thread_expire t s)"
    unfolding thread_expire_def by (rule rt_sched_insert_thread_inv)
  moreover have "timers_ok (thread_expire t s)" using k by (simp add: kinv_def thread_expire_def)
  moreover have "threads_ok (thread_expire t s)"
  proof (rule threads_okI [where t = t and s = s])
    show "thread_ok t (thread_expire t s)"
      using kinv_live [OF k, of t] su by (auto simp: thread_ok_def thread_expire_def)
  qed (use k in \<open>auto simp: kinv_def thread_expire_def\<close>)
  ultimately show ?thesis using k by (simp add: kinv_def crit_ok_def thread_expire_def)
qed

text \<open>
  When the timer of a suspended thread expires, the thread leaves its queue, is no longer
  suspended, and its wait returns \<open>-RT_ETIMEOUT\<close>; no other queue changes and the kernel invariant holds.
\<close>

theorem thread_timeout_wakes:
  assumes k: "kinv s" and ty: "rt_object_get_type (OThread t) s = RT_Object_Class_Thread"
    and su: "susp_stat (tcbs s t)"
  shows "\<exists>s'. thread_timeout t s = Some s' \<and> kinv s' \<and> \<not> susp_stat (tcbs s' t) \<and>
    t_error (tcbs s' t) = - RT_ETIMEOUT \<and> (\<forall>q. tlists s' (Susp q) = removeAll t (tlists s (Susp q)))"
proof -
  obtain s' where s': "rt_sched_unlock_n_resched (thread_expire t s) = Some s'" "kinv s'"
      "same_ipc (thread_expire t s) s'"
    using resched_total [OF kinv_expire [OF k su]] by blast
  then show ?thesis
    using su ty by (auto simp: thread_timeout_def same_ipc_def thread_expire_def rt_sched_thread_is_suspended_def)
qed

lemma thread_timeout_wakes_witness:
  "\<exists>s'. thread_timeout 2 (demo_wait (SemQ 7)) = Some s' \<and> t_error (tcbs s' 2) = - RT_ETIMEOUT
     \<and> tlists s' (Susp (SemQ 7)) = [3]"
proof -
  have "susp_stat (tcbs (demo_wait (SemQ 7)) 2)"
    by (rule kinv_queue_susp [OF kinv_demo, where q = "SemQ 7"]) simp
  with thread_timeout_wakes [OF kinv_demo [of "SemQ 7"], of 2] show ?thesis by auto
qed

subsection \<open>Sleeping\<close>

lemma enter_critical_lock: "rt_enter_critical s = rt_spin_lock s"
  by (simp add: rt_spin_lock_def)

lemma exit_critical_unlock: "rt_exit_critical s = rt_spin_unlock s"
  by (simp add: rt_spin_unlock_def)

lemma pending_unlock:
  assumes k: "kinv s" and l: "lock_nest s = 1" and f: "\<not> crit_flag s" and c: "current s \<noteq> None"
  shows "\<exists>s'. rt_spin_unlock (s\<lparr>crit_flag := True\<rparr>) = Some s' \<and> kinv s' \<and> same_ipc s s'"
proof -
  have "kinv (s\<lparr>lock_nest := 0\<rparr>)" by (rule kinv_unlock_nest) (use k f in auto)
  moreover have "s\<lparr>crit_flag := True, lock_nest := 0, crit_flag := False\<rparr> = s\<lparr>lock_nest := 0\<rparr>"
    using f by simp
  ultimately have "kinv ((s\<lparr>crit_flag := True\<rparr>)\<lparr>lock_nest := 0, crit_flag := False\<rparr>)" by metis
  from unlock_total [OF this] l c obtain s' where
    "rt_spin_unlock (s\<lparr>crit_flag := True\<rparr>) = Some s'" "kinv s'" "same_ipc (s\<lparr>crit_flag := True\<rparr>) s'" by auto
  then show ?thesis by (auto simp: same_ipc_def)
qed

lemma thread_block_susp [simp]: "susp_stat ((new_stat (suspend_stat sf) b)\<lparr>t_ttmr_set := f\<rparr>)"
  by (simp add: susp_stat_stat_of and.assoc)

lemma susp_stat_upd [simp]:
  "susp_stat (b\<lparr>t_error := e\<rparr>) = susp_stat b" "susp_stat (b\<lparr>t_ttmr_set := f\<rparr>) = susp_stat b"
  "susp_stat (b\<lparr>t_pending_object := p\<rparr>) = susp_stat b" "susp_stat (b\<lparr>t_event_set := v\<rparr>) = susp_stat b"
  "susp_stat (b\<lparr>t_event_info := i\<rparr>) = susp_stat b"
  by (simp_all add: susp_stat_stat_of)

text \<open>
  \<open>rt_thread_delay\<close> by a running thread, outside interrupts and critical sections, for
  fewer ticks than half their range: the thread is suspended on no queue, its timer is active and expires exactly that many ticks
  from now, the processor is given away and the kernel invariant holds. A delay of 0 ticks returns \<open>-RT_EINVAL\<close> and changes nothing.
\<close>

theorem rt_thread_delay_sleeps:
  assumes k: "kinv s" and c: "current s = Some t" and r: "stat_of (tcbs s t) = RT_THREAD_RUNNING"
    and l: "lock_nest s = 0" and i: "irq_nest s = 0" and v: "ticks < HALF_TICKS"
  shows "if ticks = 0 then rt_thread_delay ticks s = Some (Some (- RT_EINVAL), s)
    else \<exists>s'. rt_thread_delay ticks s = Some (None, s') \<and> kinv s' \<and> susp_stat (tcbs s' t) \<and>
      t_ttmr_set (tcbs s' t) \<and> tm_has RT_TIMER_FLAG_ACTIVATED (ThreadTimer t) s' \<and>
      tm_timeout_tick (timers s' (ThreadTimer t)) = tick s + ticks \<and>
      (\<forall>q. t \<notin> set (tlists s' (Susp q)))"
proof (cases "ticks = 0")
  case True
  then show ?thesis by (simp add: rt_thread_delay_def thread_sleep_def)
next
  case False
  let ?s1 = "rt_spin_lock (upd_tcb t (\<lambda>b. b\<lparr>t_error := RT_EOK\<rparr>) s)"
  let ?s2 = "thread_block t None RT_INTERRUPTIBLE ?s1"
  let ?s3 = "upd_tcb t (\<lambda>b. b\<lparr>t_error := - RT_EINTR\<rparr>) (arm_timer t ticks ?s2)"
  have k1: "kinv ?s1" using k by simp
  have 1: "current ?s1 = Some t" "stat_of (tcbs ?s1 t) = RT_THREAD_RUNNING" using c r by simp_all
  have sus: "rt_thread_suspend_with_flag t RT_INTERRUPTIBLE ?s1 = Some (RT_EOK, ?s2)"
    using suspend_run [OF k1 1, of None 0] by (simp add: rt_thread_suspend_with_flag_def)
  have k2: "kinv ?s2" by (rule kinv_block [OF k1 1])
  have l2: "live (tcbs ?s2 t)" by (rule live_susp) simp
  have arm: "start_wait_timer t ticks ?s2 = Some (arm_timer t ticks ?s2)"
    using k2 kinv_live [OF k2 l2] v by (intro start_wait_timer_run) (auto simp: kinv_def)
  have k3: "kinv ?s3" using kinv_arm [OF k2 l2] by simp
  have cf: "\<not> crit_flag s" using k l by (simp add: kinv_def crit_ok_def)
  obtain s' where s': "rt_spin_unlock (?s3\<lparr>crit_flag := True\<rparr>) = Some s'" "kinv s'" "same_ipc ?s3 s'"
    using pending_unlock [OF k3] l cf c by auto
  have ty: "rt_object_get_type (OThread t) s = RT_Object_Class_Thread"
    using kinv_live [OF k, of t] r by (simp add: live_def thread_ok_def)
  have run: "rt_thread_delay ticks s = Some (None, s')"
    using False c ty l i sus arm s'(1) by (simp add: rt_thread_delay_def thread_sleep_def rt_thread_self_def
        debug_defs enter_critical_lock exit_critical_unlock rt_schedule_locked)
  have o: "objs s' = objs ?s3" "timers s' = timers ?s3" using s'(3) by (auto simp: same_ipc_def)
  have "t \<notin> set (tlists s (Susp q))" for q using not_queued [of s t] k r by (simp add: kinv_def)
  moreover have "tlists s' (Susp q) = removeAll t (tlists s (Susp q))" for q
    using s'(3) by (simp add: same_ipc_def thread_block_def thread_set_suspend_state_def)
  ultimately have q: "t \<notin> set (tlists s' (Susp q))" for q by simp
  have "tm_has RT_TIMER_FLAG_ACTIVATED (ThreadTimer t) s'"
    using arm_timer_flags(3) [of t ticks ?s2] o by (simp add: tm_has_def tm_flag_def)
  moreover have "tm_timeout_tick (timers s' (ThreadTimer t)) = tick s + ticks"
    using arm_timer_deadline [of t ticks ?s2] o by simp
  moreover have "susp_stat (tcbs s' t)" "t_ttmr_set (tcbs s' t)"
    using s'(3) by (simp_all add: same_ipc_def)
  ultimately show ?thesis using False run s'(2) q by auto
qed

lemma rt_thread_delay_sleeps_witness:
  "\<exists>s'. rt_thread_delay 25 (demo_wait (SemQ 7)) = Some (None, s') \<and> susp_stat (tcbs s' 1) \<and>
     tm_timeout_tick (timers s' (ThreadTimer 1)) = 125"
  using rt_thread_delay_sleeps [OF kinv_demo [of "SemQ 7"], of 1 25] demo_wait_running [of "SemQ 7"]
  by (auto simp: HALF_TICKS_val)

subsection \<open>Time slices\<close>

lemma stat_of_set_yield [simp]:
  "stat_of (b\<lparr>t_remaining_tick := r, t_stat := t_stat b OR RT_THREAD_STAT_YIELD\<rparr>) = stat_of b"
  "yield_pending (b\<lparr>t_remaining_tick := r, t_stat := t_stat b OR RT_THREAD_STAT_YIELD\<rparr>)"
proof -
  have "(x OR 8) AND 7 = x AND (7 :: u8)" "(x OR 8) AND 8 = (8 :: u8)" for x
    by (simp_all add: bit.conj_disj_distrib2 word_ao_absorbs)
  then show "stat_of (b\<lparr>t_remaining_tick := r, t_stat := t_stat b OR RT_THREAD_STAT_YIELD\<rparr>) = stat_of b"
    "yield_pending (b\<lparr>t_remaining_tick := r, t_stat := t_stat b OR RT_THREAD_STAT_YIELD\<rparr>)"
    by (simp_all add: stat_of_def yield_pending_def stat_defs)
qed

lemma same_sched_yield [simp]:
  "same_sched (b\<lparr>t_remaining_tick := r, t_stat := t_stat b OR RT_THREAD_STAT_YIELD\<rparr>) b"
  by (simp add: same_sched_def)

lemma kinv_yield [simp]: "kinv s \<Longrightarrow> kinv (rt_sched_thread_yield t s)"
  by (auto simp: rt_sched_thread_yield_def intro!: kinv_tcbs_same [THEN iffD2])

text \<open>
  \<open>rt_thread_yield\<close> passes the processor to the next thread of the same priority: if
  that thread heads the ready queue of the running thread's priority and no thread of a higher priority is ready, it runs
  next and the caller goes to the end of the queue, with a full time slice.
\<close>

theorem rt_thread_yield_rotates:
  assumes k: "kinv s" and l: "lock_nest s = 0" and c: "current s = Some t"
    and r: "stat_of (tcbs s t) = RT_THREAD_RUNNING"
    and q: "tlists s (ready_q (tcbs s t)) = u # us"
    and high: "\<And>p. p < unat (t_current_priority (tcbs s t)) \<Longrightarrow> tlists s (Ready p) = []"
  shows "\<exists>s'. rt_thread_yield s = Some (RT_EOK, s') \<and> kinv s' \<and> current s' = Some u \<and>
    tlists s' (ready_q (tcbs s t)) = us @ [t] \<and> t_remaining_tick (tcbs s' t) = t_init_tick (tcbs s t)"
proof -
  let ?s = "rt_sched_thread_yield t s" and ?p = "unat (t_current_priority (tcbs s t))"
  have k1: "kinv ?s" using k by simp
  have inv: "sched_inv ?s" using k1 by (simp add: kinv_def)
  have 1: "current ?s = Some t" "stat_of (tcbs ?s t) = RT_THREAD_RUNNING" "lock_nest ?s = 0"
    "tlists ?s = tlists s" "yield_pending (tcbs ?s t)" "t_current_priority (tcbs ?s t) = t_current_priority (tcbs s t)"
    using c r l by (simp_all add: rt_sched_thread_yield_def)
  have p: "?p < 32" using kinv_runnable [OF k, of t] r by (simp add: live_def runnable_ok_def)
  have eq: "rt_schedule ?s = Some (switch_to u (int ?p) t True ?s)"
    by (rule rt_schedule_fair [OF inv 1(3,1,2) p, where xs = us]) (use 1 q high in \<open>auto simp: ready_q_def\<close>)
  have tab: "table_ok ?s" using inv by (simp add: sched_inv_def)
  have "u \<in> set (tlists ?s (Ready ?p))" using q 1(4) by (simp add: ready_q_def)
  then have u: "stat_of (tcbs ?s u) = RT_THREAD_READY" using link_okD(1) [OF tinvD(2) [OF tab]] by blast
  with 1(2) have ne: "u \<noteq> t" by auto
  have nr: "stat_of (tcbs ?s t) \<noteq> RT_THREAD_READY" using 1(2) by simp
  have du: "u \<notin> set us" using store_okD(1) [OF kinv_store [OF k], of "ready_q (tcbs s t)"] q by simp
  have "t_remaining_tick (tcbs (switch_to u (int ?p) t True ?s) t) = t_init_tick (tcbs s t)"
    unfolding rt_schedule_fields_switch(2) [OF nr ne]
    using ne by (simp add: Let_def clear_yield_def new_stat_def) (simp add: rt_sched_thread_yield_def)
  moreover have "tlists (switch_to u (int ?p) t True ?s) (ready_q (tcbs s t)) = us @ [t]"
    using switch_lists [OF ne 1(2) tab] 1 q ne du by (simp add: ready_q_def)
  ultimately show ?thesis
    using eq kinv_schedule [OF k1 eq] rt_schedule_fields_switch(1) [OF nr ne] c 1(1)
    by (simp add: rt_thread_yield_def rt_thread_self_def rt_sched_unlock_n_resched_def)
qed

text \<open>
  The tick interrupt charges the running thread: while its time slice lasts it loses
  the elapsed ticks; when the slice is used up, the effect is that of \<open>rt_thread_yield\<close>.
\<close>

theorem rt_sched_tick_increase_slice:
  "rt_sched_tick_increase ticks s =
    (case current s of None \<Rightarrow> None
     | Some t \<Rightarrow>
        if ticks < t_remaining_tick (tcbs s t)
        then Some (RT_EOK, upd_tcb t (\<lambda>b. b\<lparr>t_remaining_tick := t_remaining_tick b - ticks\<rparr>) s)
        else rt_thread_yield s)"
proof (cases "current s")
  case None
  then show ?thesis by (simp add: rt_sched_tick_increase_def rt_thread_self_def)
next
  case (Some t)
  then show ?thesis
    by (auto simp: rt_sched_tick_increase_def rt_thread_self_def rt_thread_yield_def rt_sched_thread_yield_def Let_def)
qed

subsection \<open>Changing a priority\<close>

lemma tinv_in_place:
  assumes inv: "tinv ls g T" and st: "stat_of b = stat_of (T t)" "stat_of (T t) \<noteq> RT_THREAD_READY" and r: "runnable_ok b"
  shows "tinv ls g (T(t := b))"
proof -
  have "link_ok ls t (T t)" using inv by (simp add: tinv_def)
  then have "link_ok ls t b"
    using st r by (simp add: link_ok_def susp_stat_stat_of runnable_mask_ok)
  with inv show ?thesis by (simp add: tinv_def)
qed

lemma change_priority_ready:
  assumes k: "kinv s" and p: "unat priority < 32" and st: "stat_of (tcbs s t) = RT_THREAD_READY"
  shows "\<exists>s'. rt_sched_thread_change_priority t priority s = Some (RT_EOK, s') \<and> kinv s' \<and>
    t_current_priority (tcbs s' t) = priority \<and> (\<forall>u. u \<noteq> t \<longrightarrow> tcbs s' u = tcbs s u) \<and>
    tlists s' (Ready (unat priority)) = t # removeAll t (tlists s (Ready (unat priority))) \<and>
    (\<forall>h. h \<noteq> Ready (unat priority) \<longrightarrow> tlists s' h = removeAll t (tlists s h))"
proof -
  let ?b = "(tcbs s t)\<lparr>t_current_priority := priority, t_number_mask := push_bit (unat priority) 1, t_stat := RT_THREAD_INIT\<rparr>"
  let ?s1 = "(rt_sched_remove_thread t s)\<lparr>tcbs := (tcbs s)(t := ?b)\<rparr>"
  let ?s' = "rt_sched_insert_thread t ?s1"
  have si: "sched_inv s" using k by (simp add: kinv_def)
  then have c: "current s \<noteq> Some t" using st by (auto simp: sched_inv_def cinv_def)
  have "sched_but t ?s1"
    using rt_sched_remove_thread_but [OF si, of t] by (simp add: sched_but_def)
  moreover have "runnable_ok (tcbs ?s1 t)" using p by (simp add: runnable_ok_def)
  ultimately have inv: "sched_inv ?s'" by (rule rt_sched_insert_thread_inv)
  have thr: "threads_ok ?s'"
  proof (rule threads_okI [where t = t and s = s])
    show "thread_ok t ?s'"
      using kinv_live [OF k, of t] st c by (auto simp: thread_ok_def live_def)
  qed (use k in \<open>auto simp: kinv_def\<close>)
  have "\<not> yield_pending (new_stat RT_THREAD_READY ?b)"
    by (simp add: yield_pending_def new_stat_def stat_defs)
  then have l: "tlists ?s' = st_push (Ready (unat priority)) t (st_remove t (tlists s))"
    using c by (simp add: rt_sched_insert_thread_def Let_def ready_q_def yield_pending_def)
  have run: "rt_sched_thread_change_priority t priority s = Some (RT_EOK, ?s')"
    using p st by (simp add: rt_sched_thread_change_priority_def rt_sched_update_priority_def RT_THREAD_PRIORITY_MAX_def Let_def)
  have "kinv ?s'" using k inv thr by (simp add: kinv_def crit_ok_def)
  with run l show ?thesis by (intro exI [of _ ?s']) simp
qed

lemma change_priority_other:
  assumes k: "kinv s" and p: "unat priority < 32" and st: "stat_of (tcbs s t) \<noteq> RT_THREAD_READY"
  shows "\<exists>s'. rt_sched_thread_change_priority t priority s = Some (RT_EOK, s') \<and> kinv s' \<and>
    t_current_priority (tcbs s' t) = priority \<and> (\<forall>u. u \<noteq> t \<longrightarrow> tcbs s' u = tcbs s u) \<and> tlists s' = tlists s"
proof -
  let ?b = "(tcbs s t)\<lparr>t_current_priority := priority, t_number_mask := push_bit (unat priority) 1\<rparr>"
  let ?s' = "s\<lparr>tcbs := (tcbs s)(t := ?b)\<rparr>"
  have b: "stat_of ?b = stat_of (tcbs s t)" "runnable_ok ?b" using p by (simp_all add: runnable_ok_def)
  have "sched_inv ?s'"
  proof -
    have tab: "table_ok s" and ci: "cinv (current s) (tcbs s)" using k by (auto simp: kinv_def sched_inv_def)
    have "cinv (current s) ((tcbs s)(t := ?b))"
      using b(1) st ci by (intro cinv_close cinv_weaken) (simp_all add: cinv_def)
    with tinv_in_place [OF tab b(1) st b(2)] show ?thesis by (simp add: sched_inv_def del: fun_upd_apply)
  qed
  moreover have "threads_ok ?s'"
    using k b(1) by (auto simp: kinv_def threads_ok_def thread_ok_def live_def susp_stat_stat_of)
  ultimately have "kinv ?s'" using k by (simp add: kinv_def crit_ok_def)
  moreover have "rt_sched_thread_change_priority t priority s = Some (RT_EOK, ?s')"
    using p st by (simp add: rt_sched_thread_change_priority_def rt_sched_update_priority_def RT_THREAD_PRIORITY_MAX_def Let_def)
  ultimately show ?thesis by auto
qed

text \<open>
  Changing the priority of a thread keeps the kernel invariant; a ready thread moves to
  the front of the ready queue of its new priority and leaves every other queue as it was, and no other thread is touched.
\<close>

theorem rt_sched_thread_change_priority_moves:
  assumes k: "kinv s" and p: "unat priority < RT_THREAD_PRIORITY_MAX"
  shows "\<exists>s'. rt_sched_thread_change_priority t priority s = Some (RT_EOK, s') \<and> kinv s' \<and>
    t_current_priority (tcbs s' t) = priority \<and> (\<forall>u. u \<noteq> t \<longrightarrow> tcbs s' u = tcbs s u) \<and>
    (stat_of (tcbs s t) = RT_THREAD_READY \<longrightarrow>
       tlists s' (Ready (unat priority)) = t # removeAll t (tlists s (Ready (unat priority))) \<and>
       (\<forall>h. h \<noteq> Ready (unat priority) \<longrightarrow> tlists s' h = removeAll t (tlists s h))) \<and>
    (stat_of (tcbs s t) \<noteq> RT_THREAD_READY \<longrightarrow> tlists s' = tlists s)"
  using change_priority_ready [OF k, of priority t] change_priority_other [OF k, of priority t] p
  by (cases "stat_of (tcbs s t) = RT_THREAD_READY") (auto simp: RT_THREAD_PRIORITY_MAX_def)

lemma demo_ready: "stat_of (tcbs (demo_wait q) 4) = RT_THREAD_READY"
  by (simp add: demo_wait_def demo_tcb_def stat_of_def stat_defs)

lemma rt_sched_thread_change_priority_moves_witness:
  "\<exists>s'. rt_sched_thread_change_priority 4 10 (demo_wait (SemQ 7)) = Some (RT_EOK, s') \<and> kinv s' \<and>
     tlists s' (Ready 10) = [4] \<and> tlists s' (Ready 20) = []"
  using rt_sched_thread_change_priority_moves [OF kinv_demo [of "SemQ 7"], of 10 4] demo_ready [of "SemQ 7"]
  by (auto simp: RT_THREAD_PRIORITY_MAX_def demo_wait_def)

text \<open>The instance of \<open>rt_thread_yield_rotates\<close>: the sample machine with thread 4 moved to priority 10.\<close>

lemma rt_thread_yield_rotates_witness:
  "\<exists>s s'. rt_sched_thread_change_priority 4 10 (demo_wait (SemQ 7)) = Some (RT_EOK, s) \<and>
     rt_thread_yield s = Some (RT_EOK, s') \<and> current s' = Some 4 \<and> tlists s' (Ready 10) = [1]"
proof -
  let ?s0 = "demo_wait (SemQ 7)"
  obtain s where s: "rt_sched_thread_change_priority 4 10 ?s0 = Some (RT_EOK, s)" "kinv s"
    "\<And>u. u \<noteq> 4 \<Longrightarrow> tcbs s u = tcbs ?s0 u" "tlists s (Ready 10) = [4]"
    "\<And>h. h \<noteq> Ready 10 \<Longrightarrow> tlists s h = removeAll 4 (tlists ?s0 h)"
    using change_priority_ready [OF kinv_demo [of "SemQ 7"], of 10 4] demo_ready [of "SemQ 7"]
    by (auto simp: demo_wait_def)
  have 1: "lock_nest s = 0" "current s = Some 1"
    using s(1) by (auto simp: rt_sched_thread_change_priority_def rt_sched_update_priority_def Let_def split: if_splits)
  have t1: "tcbs s 1 = demo_tcb RT_THREAD_RUNNING 10" using s(3) [of 1] by (simp add: demo_wait_def)
  have r: "stat_of (tcbs s 1) = RT_THREAD_RUNNING" "ready_q (tcbs s 1) = Ready 10"
    "unat (t_current_priority (tcbs s 1)) = 10"
    unfolding t1 by (simp_all add: demo_tcb_def stat_of_def stat_defs ready_q_def)
  have q: "tlists s (ready_q (tcbs s 1)) = 4 # []" using s(4) r by simp
  have h: "tlists s (Ready p) = []" if "p < unat (t_current_priority (tcbs s 1))" for p
    using that s(5) [of "Ready p"] r(3) by (simp add: demo_wait_def)
  show ?thesis
    using rt_thread_yield_rotates [OF s(2) 1 r(1) q h] s(1) r(2) by auto
qed

subsection \<open>The blocking part of every wait\<close>

definition not_timer :: "oref \<Rightarrow> bool" where
  "not_timer r \<longleftrightarrow> (\<forall>tm. r \<noteq> OTimer tm)"

lemma objs_not_timer [simp]:
  assumes "not_timer r"
  shows "objs (timer_off tm s) r = objs s r" "objs (timer_start h tm s) r = objs s r"
    "objs (cancel_ttmr t s) r = objs s r" "objs (stop_ttmr t s) r = objs s r"
    "objs (arm_timer t v s) r = objs s r" "objs (thread_wake t s) r = objs s r"
    "objs (thread_block t w sf s) r = objs s r" "objs (wake_err e t s) r = objs s r"
  using assms
  by (auto simp: not_timer_def timer_off_def timer_start_def timer_remove_def tm_clear_def tm_set_def Let_def
      cancel_ttmr_def stop_ttmr_def arm_timer_def rt_sched_thread_timer_start_def thread_wake_def
      thread_block_def thread_set_suspend_state_def wake_err_def split: option.split)

lemma objs_wake_all [simp]: "not_timer r \<Longrightarrow> objs (wake_all e ts s) r = objs s r"
  by (induction ts arbitrary: s) auto

definition waits :: "nat \<Rightarrow> suspq \<Rightarrow> u8 \<Rightarrow> int \<Rightarrow> int \<Rightarrow> kst \<Rightarrow> kst \<Rightarrow> bool" where
  \<comment> \<open>from \<open>s\<close> to \<open>s'\<close>, thread \<open>t\<close> began to wait on queue \<open>q\<close>, nothing else happened, and another thread runs if one was ready\<close>
  "waits t q flag timeout e s s' \<longleftrightarrow>
     kinv s' \<and> susp_stat (tcbs s' t) \<and> t_error (tcbs s' t) = e \<and>
     (\<forall>q'. tlists s' (Susp q') =
        (if q' = q then susp_insert flag t (tcbs s) (tlists s (Susp q)) else tlists s (Susp q'))) \<and>
     (if timeout > 0
      then t_ttmr_set (tcbs s' t) \<and> tm_has RT_TIMER_FLAG_ACTIVATED (ThreadTimer t) s' \<and>
           tm_timeout_tick (timers s' (ThreadTimer t)) = tick s + word_of_int timeout
      else \<not> t_ttmr_set (tcbs s' t)) \<and>
     ((\<exists>u. stat_of (tcbs s u) = RT_THREAD_READY) \<longrightarrow> current s' \<noteq> Some t) \<and>
     lock_nest s' = lock_nest s \<and> irq_nest s' = irq_nest s \<and> tick s' = tick s \<and> takens s' = takens s \<and>
     sems s' = sems s \<and> mutexes s' = mutexes s \<and> events s' = events s \<and> mboxes s' = mboxes s \<and>
     mqueues s' = mqueues s \<and> mpools s' = mpools s \<and>
     (\<forall>r. rt_object_get_type r s' = rt_object_get_type r s) \<and>
     (\<forall>r. not_timer r \<longrightarrow> objs s' r = objs s r) \<and>
     (\<forall>u. t_pending_object (tcbs s' u) = t_pending_object (tcbs s u) \<and>
          t_current_priority (tcbs s' u) = t_current_priority (tcbs s u) \<and>
          t_event_set (tcbs s' u) = t_event_set (tcbs s u) \<and> t_event_info (tcbs s' u) = t_event_info (tcbs s u)) \<and>
     (\<forall>u. u \<noteq> t \<longrightarrow> susp_stat (tcbs s' u) = susp_stat (tcbs s u) \<and> t_error (tcbs s' u) = t_error (tcbs s u))"

definition blocked :: "nat \<Rightarrow> suspq \<Rightarrow> u8 \<Rightarrow> suspend_flag \<Rightarrow> int \<Rightarrow> kst \<Rightarrow> kst" where
  "blocked t q flag sf timeout s =
     (let s = thread_block t (Some (q, flag)) sf s
      in if timeout > 0 then arm_timer t (word_of_int timeout) s else s)"

lemma blocked_fields [simp]:
  "current (blocked t q f sf w s) = current s" "lock_nest (blocked t q f sf w s) = lock_nest s"
  "crit_flag (blocked t q f sf w s) = crit_flag s" "irq_nest (blocked t q f sf w s) = irq_nest s"
  "takens (blocked t q f sf w s) = takens s" "sems (blocked t q f sf w s) = sems s"
  "mutexes (blocked t q f sf w s) = mutexes s" "events (blocked t q f sf w s) = events s"
  "mboxes (blocked t q f sf w s) = mboxes s" "tick (blocked t q f sf w s) = tick s"
  "mqueues (blocked t q f sf w s) = mqueues s" "mpools (blocked t q f sf w s) = mpools s"
  "rt_object_get_type r (blocked t q f sf w s) = rt_object_get_type r s"
  "tcbs (blocked t q f sf w s) = (tcbs s)(t := (new_stat (suspend_stat sf) (tcbs s t))\<lparr>t_ttmr_set := w > 0\<rparr>)"
  by (auto simp: blocked_def Let_def)

lemma objs_blocked [simp]: "not_timer r \<Longrightarrow> objs (blocked t q f sf w s) r = objs s r"
  by (simp add: blocked_def Let_def)

lemma kinv_blocked:
  assumes "kinv s" and "current s = Some t" and "stat_of (tcbs s t) = RT_THREAD_RUNNING"
  shows "kinv (blocked t q f sf w s)"
proof -
  have "live (tcbs (thread_block t (Some (q, f)) sf s) t)" by (rule live_susp) simp
  with kinv_block [OF assms, of "Some (q, f)" sf] kinv_arm show ?thesis by (auto simp: blocked_def Let_def)
qed

lemma blocked_queue:
  assumes "kinv s" and "stat_of (tcbs s t) = RT_THREAD_RUNNING"
  shows "tlists (blocked t q f sf w s) (Susp q') =
    (if q' = q then susp_insert f t (tcbs s) (tlists s (Susp q)) else tlists s (Susp q'))"
  using thread_block_queue [OF assms] by (simp add: blocked_def Let_def)

lemma block_and_switch:
  assumes k: "kinv s" and c: "current s = Some t" and r: "stat_of (tcbs s t) = RT_THREAD_RUNNING"
    and l: "lock_nest s = 0" and f: "ipc_flag_ok flag" and w: "timeout > 0 \<Longrightarrow> word_of_int timeout < HALF_TICKS"
  defines "s1 \<equiv> rt_spin_lock s"
  shows "rt_thread_suspend_to_list t (Some q) flag sf s1 = Some (RT_EOK, thread_block t (Some (q, flag)) sf s1)"
    and "(if timeout > 0 then start_wait_timer t (word_of_int timeout) (thread_block t (Some (q, flag)) sf s1)
          else Some (thread_block t (Some (q, flag)) sf s1)) = Some (blocked t q flag sf timeout s1)"
    and "\<exists>s4 s'. rt_spin_unlock (blocked t q flag sf timeout s1) = Some s4 \<and>
      rt_schedule s4 = Some s' \<and> waits t q flag timeout (t_error (tcbs s t)) s s'"
proof -
  have k1: "kinv s1" using k by (simp add: s1_def)
  have 1: "current s1 = Some t" "stat_of (tcbs s1 t) = RT_THREAD_RUNNING" using c r by (simp_all add: s1_def)
  show "rt_thread_suspend_to_list t (Some q) flag sf s1 = Some (RT_EOK, thread_block t (Some (q, flag)) sf s1)"
    using suspend_run [OF k1 1, of "Some (q, flag)" flag] f by simp
  have k2: "kinv (thread_block t (Some (q, flag)) sf s1)" by (rule kinv_block [OF k1 1])
  have l2: "live (tcbs (thread_block t (Some (q, flag)) sf s1) t)" by (rule live_susp) simp
  show "(if timeout > 0 then start_wait_timer t (word_of_int timeout) (thread_block t (Some (q, flag)) sf s1)
          else Some (thread_block t (Some (q, flag)) sf s1)) = Some (blocked t q flag sf timeout s1)"
    using start_wait_timer_run [OF _ kinv_live [OF k2 l2], of "word_of_int timeout"] k2 w
    by (simp add: blocked_def kinv_def)
  let ?s3 = "blocked t q flag sf timeout s1" and ?s4 = "(blocked t q flag sf timeout s1)\<lparr>lock_nest := 0\<rparr>"
  have cf: "\<not> crit_flag s" using k l by (simp add: kinv_def crit_ok_def)
  have k3: "kinv ?s3" by (rule kinv_blocked [OF k1 1])
  have k4: "kinv ?s4" by (rule kinv_unlock_nest [OF k3]) (use cf in \<open>simp_all add: s1_def\<close>)
  have u: "rt_spin_unlock ?s3 = Some ?s4"
    using spin_unlock_lock [of ?s3 0] l cf by (simp add: s1_def)
  obtain s' where s': "rt_schedule ?s4 = Some s'" "kinv s'" "same_ipc ?s4 s'"
    using rt_schedule_total [OF k4] c by (auto simp: s1_def)
  have i4: "sched_inv ?s4" "crit_ok ?s4" using k4 by (auto simp: kinv_def)
  have cur: "current s' \<noteq> Some t" if u: "stat_of (tcbs s u) = RT_THREAD_READY" for u
  proof -
    have "u \<noteq> t" using u r by auto
    then have "stat_of (tcbs ?s4 u) = RT_THREAD_READY" using u by (simp add: s1_def)
    then have "ready_group ?s4 \<noteq> 0" using no_ready_iff [of ?s4] i4(1) unfolding sched_inv_def by blast
    then obtain x where "current s' = Some x" "stat_of (tcbs s' x) = RT_THREAD_RUNNING"
      using rt_schedule_highest [OF i4(1), of t] c s'(1) by (auto simp: s1_def)
    moreover have "susp_stat (tcbs s' t)" using s'(3) by (simp add: same_ipc_def)
    ultimately show ?thesis using susp_stat_disj(2) [of "tcbs s' t"] by auto
  qed
  have "waits t q flag timeout (t_error (tcbs s t)) s s'"
    unfolding waits_def
  proof (intro conjI)
    show "\<forall>q'. tlists s' (Susp q') =
        (if q' = q then susp_insert flag t (tcbs s) (tlists s (Susp q)) else tlists s (Susp q'))"
      using s'(3) blocked_queue [OF k1 1(2), of q flag sf timeout] by (simp add: same_ipc_def s1_def)
    show "if timeout > 0
      then t_ttmr_set (tcbs s' t) \<and> tm_has RT_TIMER_FLAG_ACTIVATED (ThreadTimer t) s' \<and>
           tm_timeout_tick (timers s' (ThreadTimer t)) = tick s + word_of_int timeout
      else \<not> t_ttmr_set (tcbs s' t)"
    proof (cases "timeout > 0")
      case True
      have b: "?s3 = arm_timer t (word_of_int timeout) (thread_block t (Some (q, flag)) sf s1)"
        using True by (simp add: blocked_def)
      have "tm_has RT_TIMER_FLAG_ACTIVATED (ThreadTimer t) ?s3"
        "tm_timeout_tick (timers ?s3 (ThreadTimer t)) = tick s + word_of_int timeout"
        unfolding b by (simp_all add: arm_timer_flags arm_timer_deadline s1_def)
      with True s'(3) show ?thesis by (simp add: same_ipc_def tm_has_def tm_flag_def)
    qed (use s'(3) in \<open>simp add: same_ipc_def\<close>)
    show "lock_nest s' = lock_nest s" using rt_schedule_crit(2) [OF i4 s'(1)] l by simp
    show "(\<exists>u. stat_of (tcbs s u) = RT_THREAD_READY) \<longrightarrow> current s' \<noteq> Some t" using cur by blast
    show "\<forall>r. rt_object_get_type r s' = rt_object_get_type r s"
    proof
      fix r
      have "rt_object_get_type r s' = rt_object_get_type r ?s4"
        using s'(3) by (intro rt_object_get_type_cong) (simp add: same_ipc_def)
      then show "rt_object_get_type r s' = rt_object_get_type r s" by (simp add: s1_def)
    qed
  qed (use s'(2,3) in \<open>auto simp: same_ipc_def s1_def\<close>)
  with u s'(1) show "\<exists>s4 s'. rt_spin_unlock (blocked t q flag sf timeout s1) = Some s4 \<and>
      rt_schedule s4 = Some s' \<and> waits t q flag timeout (t_error (tcbs s t)) s s'" by blast
qed

lemma waits_error:
  "waits t q flag timeout e (upd_tcb t (\<lambda>b. b\<lparr>t_error := x\<rparr>) s) s' \<longleftrightarrow> waits t q flag timeout e s s'"
proof -
  have "susp_insert flag t ((tcbs s)(t := (tcbs s t)\<lparr>t_error := x\<rparr>)) ts = susp_insert flag t (tcbs s) ts" for ts
    by (rule susp_insert_cong) simp
  moreover have "stat_of (((tcbs s)(t := (tcbs s t)\<lparr>t_error := x\<rparr>)) u) = stat_of (tcbs s u)" for u by simp
  ultimately show ?thesis
    by (auto simp: waits_def)
qed

subsection \<open>The waking part of every release\<close>

definition locked_ok :: "kst \<Rightarrow> bool" where
  \<comment> \<open>inside a spin lock taken in a good state\<close>
  "locked_ok s \<longleftrightarrow> kinv s \<and> 1 \<le> lock_nest s \<and> (lock_nest s = 1 \<longrightarrow> \<not> crit_flag s)"

lemma locked_ok_lock [simp]: "kinv s \<Longrightarrow> locked_ok (rt_spin_lock s)"
  by (simp add: locked_ok_def) (auto simp: kinv_def crit_ok_def)

lemma locked_ok_unlock:
  assumes "locked_ok s"
  shows "rt_spin_unlock s = Some (s\<lparr>lock_nest := lock_nest s - 1\<rparr>)" and "kinv (s\<lparr>lock_nest := lock_nest s - 1\<rparr>)"
  using assms spin_unlock_lock [of s "lock_nest s - 1"] kinv_unlock_nest [of s "lock_nest s - 1"]
  by (auto simp: locked_ok_def)

lemma locked_ok_update:
  "locked_ok s \<Longrightarrow> kinv s' \<Longrightarrow> lock_nest s' = lock_nest s \<Longrightarrow> crit_flag s' = crit_flag s \<Longrightarrow> locked_ok s'"
  by (simp add: locked_ok_def)

lemma locked_ok_ipc [simp]:
  "locked_ok s \<Longrightarrow> locked_ok (s\<lparr>sems := a\<rparr>)" "locked_ok s \<Longrightarrow> locked_ok (s\<lparr>mutexes := b\<rparr>)"
  "locked_ok s \<Longrightarrow> locked_ok (s\<lparr>events := c\<rparr>)" "locked_ok s \<Longrightarrow> locked_ok (s\<lparr>mboxes := d\<rparr>)"
  "locked_ok s \<Longrightarrow> locked_ok (s\<lparr>mqueues := e\<rparr>)" "locked_ok s \<Longrightarrow> locked_ok (s\<lparr>mpools := f\<rparr>)"
  by (simp_all add: locked_ok_def)

definition woken :: "(nat \<Rightarrow> bool) \<Rightarrow> int \<Rightarrow> kst \<Rightarrow> kst \<Rightarrow> bool" where
  \<comment> \<open>from \<open>s\<close> to \<open>s'\<close>, exactly the threads of \<open>W\<close> left their queues, to find \<open>e\<close> as the result of their wait\<close>
  "woken W e s s' \<longleftrightarrow>
     kinv s' \<and>
     (\<forall>t. W t \<longrightarrow> \<not> susp_stat (tcbs s' t) \<and> \<not> t_ttmr_set (tcbs s' t) \<and> (e \<ge> 0 \<longrightarrow> t_error (tcbs s' t) = e)) \<and>
     (\<forall>t. \<not> W t \<longrightarrow> susp_stat (tcbs s' t) = susp_stat (tcbs s t) \<and> t_error (tcbs s' t) = t_error (tcbs s t) \<and>
          t_ttmr_set (tcbs s' t) = t_ttmr_set (tcbs s t)) \<and>
     (\<forall>q. tlists s' (Susp q) = filter (\<lambda>t. \<not> W t) (tlists s (Susp q))) \<and>
     irq_nest s' = irq_nest s \<and> tick s' = tick s \<and> takens s' = takens s \<and>
     sems s' = sems s \<and> mutexes s' = mutexes s \<and> events s' = events s \<and> mboxes s' = mboxes s \<and>
     mqueues s' = mqueues s \<and> mpools s' = mpools s \<and>
     (\<forall>r. rt_object_get_type r s' = rt_object_get_type r s) \<and>
     (\<forall>r. not_timer r \<longrightarrow> objs s' r = objs s r) \<and>
     (\<forall>u. t_pending_object (tcbs s' u) = t_pending_object (tcbs s u) \<and>
          t_current_priority (tcbs s' u) = t_current_priority (tcbs s u) \<and>
          t_event_set (tcbs s' u) = t_event_set (tcbs s u) \<and> t_event_info (tcbs s' u) = t_event_info (tcbs s u))"

lemma wake_and_switch:
  assumes lo: "locked_ok s" and c: "current s \<noteq> None" and q: "tlists s (Susp q) = t # ts"
  shows "rt_susp_list_dequeue q e s = Some (Some t, wake_err e t s)"
    and "\<exists>s4 s'. rt_spin_unlock (wake_err e t s) = Some s4 \<and> rt_schedule s4 = Some s' \<and>
      woken (\<lambda>u. u = t) e s s' \<and> lock_nest s' = lock_nest s - 1"
proof -
  have k: "kinv s" using lo by (simp add: locked_ok_def)
  show "rt_susp_list_dequeue q e s = Some (Some t, wake_err e t s)" by (rule dequeue_run [OF k q])
  have su: "susp_stat (tcbs s t)" using kinv_queue_susp [OF k, of t q] q by simp
  have "locked_ok (wake_err e t s)"
    by (rule locked_ok_update [OF lo kinv_wake_err [OF k su]]) simp_all
  note U = locked_ok_unlock [OF this]
  let ?s4 = "(wake_err e t s)\<lparr>lock_nest := lock_nest (wake_err e t s) - 1\<rparr>"
  obtain s' where s': "rt_schedule ?s4 = Some s'" "kinv s'" "same_ipc ?s4 s'"
    using rt_schedule_total [OF U(2)] c by auto
  have i4: "sched_inv ?s4" "crit_ok ?s4" using U(2) by (auto simp: kinv_def)
  have "rt_object_get_type r s' = rt_object_get_type r ?s4" for r
    using s'(3) by (intro rt_object_get_type_cong) (simp add: same_ipc_def)
  then have "woken (\<lambda>u. u = t) e s s'"
    using s'(2,3) su by (simp add: woken_def same_ipc_def Let_def removeAll_filter_not_eq)
      (auto intro!: filter_cong simp: susp_stat_stat_of)
  with U(1) s'(1) rt_schedule_crit(2) [OF i4 s'(1)]
  show "\<exists>s4 s'. rt_spin_unlock (wake_err e t s) = Some s4 \<and> rt_schedule s4 = Some s' \<and>
      woken (\<lambda>u. u = t) e s s' \<and> lock_nest s' = lock_nest s - 1" by auto
qed

lemma wake_all_and_switch:
  assumes lo: "locked_ok s" and c: "current s \<noteq> None"
  shows "rt_susp_list_resume_all q e s = Some (wake_all e (tlists s (Susp q)) s)"
    and "locked_ok (wake_all e (tlists s (Susp q)) s)"
    and "e \<ge> 0 \<Longrightarrow> woken (\<lambda>t. t \<in> set (tlists s (Susp q))) e s (wake_all e (tlists s (Susp q)) s)"
proof -
  let ?ts = "tlists s (Susp q)"
  have k: "kinv s" using lo by (simp add: locked_ok_def)
  have d: "distinct ?ts" using store_okD(1) [OF kinv_store [OF k]] by blast
  show "rt_susp_list_resume_all q e s = Some (wake_all e ?ts s)" by (rule resume_all_run [OF k])
  have kw: "kinv (wake_all e ?ts s)" by (rule resume_all_kinv [OF k])
  show "locked_ok (wake_all e ?ts s)" by (rule locked_ok_update [OF lo kw]) simp_all
  show "e \<ge> 0 \<Longrightarrow> woken (\<lambda>t. t \<in> set ?ts) e s (wake_all e ?ts s)"
    using kw by (simp add: woken_def wake_all_tcb [OF d] Let_def)
qed

lemma woken_trans:
  assumes "woken W e s s1" and "woken W' e s1 s2"
  shows "woken (\<lambda>t. W t \<or> W' t) e s s2"
proof -
  note A = assms(1) [unfolded woken_def] and B = assms(2) [unfolded woken_def]
  have "\<not> susp_stat (tcbs s2 t) \<and> \<not> t_ttmr_set (tcbs s2 t) \<and> (e \<ge> 0 \<longrightarrow> t_error (tcbs s2 t) = e)" if "W t \<or> W' t" for t
    using A B that by (cases "W' t") simp_all
  with A B show ?thesis unfolding woken_def by (simp add: conj_commute)
qed

end
