(* ===== verification/Sem.thy ===== *)
theory Sem
  imports ThreadOps
begin

text \<open>
  Semaphores (rt-thread/src/ipc.c): a 16-bit count with a limit, and a queue of threads that wait
  while it is 0. \<open>sem_take\<close> is \<open>_rt_sem_take\<close> up to its call of \<open>rt_schedule\<close>; a result \<open>None\<close>
  means that the caller waits, and \<open>sem_take_resume\<close> is what it returns when it runs again.
\<close>

definition RT_SEM_VALUE_MAX :: u16 where "RT_SEM_VALUE_MAX = 0xffff"

abbreviation sem_q :: "nat \<Rightarrow> thead" where "sem_q i \<equiv> Susp (SemQ i)"

abbreviation is_sem :: "nat \<Rightarrow> kst \<Rightarrow> bool" where
  "is_sem i s \<equiv> rt_object_get_type (OSem i) s = RT_Object_Class_Semaphore"

definition ipc_object_init :: "suspq \<Rightarrow> kst \<Rightarrow> kst" where
  \<comment> \<open>\<open>_ipc_object_init\<close>\<close>
  "ipc_object_init q s = upd_tlists (\<lambda>ls. ls(Susp q := [])) s"

definition ipc_flag :: "oref \<Rightarrow> kst \<Rightarrow> u8" where
  "ipc_flag r s = o_flag (objs s r)"

definition sem_object_init :: "nat \<Rightarrow> u16 \<Rightarrow> u8 \<Rightarrow> u16 \<Rightarrow> kst \<Rightarrow> kst" where
  "sem_object_init i value flag max_value s =
     (let s = ipc_object_init (SemQ i) s;
          s = upd_sem i (\<lambda>_. \<lparr>sem_value = value, sem_max_value = max_value\<rparr>) s
      in upd_obj (OSem i) (\<lambda>ob. ob\<lparr>o_flag := flag\<rparr>) s)"

definition rt_sem_init :: "nat \<Rightarrow> string option \<Rightarrow> u32 \<Rightarrow> u8 \<Rightarrow> kst \<Rightarrow> (int \<times> kst) option" where
  "rt_sem_init i name value flag s = do {
     rt_assert (value < 0x10000);
     rt_assert (flag = RT_IPC_FLAG_FIFO \<or> flag = RT_IPC_FLAG_PRIO);
     s \<leftarrow> rt_object_init (OSem i) RT_Object_Class_Semaphore name s;
     Some (RT_EOK, sem_object_init i (ucast value) flag RT_SEM_VALUE_MAX s)
   }"

definition rt_sem_detach :: "nat \<Rightarrow> kst \<Rightarrow> (int \<times> kst) option" where
  "rt_sem_detach i s = do {
     rt_assert (is_sem i s);
     rt_assert (rt_object_is_systemobject (OSem i) s);
     let s = rt_spin_lock s;
     s \<leftarrow> rt_susp_list_resume_all (SemQ i) RT_ERROR s;
     s \<leftarrow> rt_spin_unlock s;
     s \<leftarrow> rt_object_detach (OSem i) s;
     Some (RT_EOK, s)
   }"

definition rt_sem_create ::
  "nat option \<Rightarrow> string option \<Rightarrow> u32 \<Rightarrow> u8 \<Rightarrow> kst \<Rightarrow> (nat option \<times> kst) option" where
  "rt_sem_create block name value flag s = do {
     rt_assert (value < 0x10000);
     rt_assert (flag = RT_IPC_FLAG_FIFO \<or> flag = RT_IPC_FLAG_PRIO);
     rt_assert (debug_not_in_interrupt s);
     (_, s) \<leftarrow> rt_object_allocate (map_option OSem block) RT_Object_Class_Semaphore name s;
     case block of
       None \<Rightarrow> Some (None, s)
     | Some i \<Rightarrow> Some (Some i, sem_object_init i (ucast value) flag RT_SEM_VALUE_MAX s)
   }"

definition rt_sem_delete :: "nat \<Rightarrow> kst \<Rightarrow> (int \<times> kst) option" where
  "rt_sem_delete i s = do {
     rt_assert (is_sem i s);
     rt_assert (\<not> rt_object_is_systemobject (OSem i) s);
     rt_assert (debug_not_in_interrupt s);
     let s = rt_spin_lock s;
     s \<leftarrow> rt_susp_list_resume_all (SemQ i) RT_ERROR s;
     s \<leftarrow> rt_spin_unlock s;
     s \<leftarrow> rt_object_delete (OSem i) s;
     Some (RT_EOK, s)
   }"

definition sem_take :: "nat \<Rightarrow> int \<Rightarrow> suspend_flag \<Rightarrow> kst \<Rightarrow> (int option \<times> kst) option" where
  "sem_take i timeout suspend_flag s = do {
     rt_assert (is_sem i s);
     rt_assert (debug_scheduler_available True s);
     let s = rt_spin_lock s;
     if sem_value (sems s i) > 0 then do {
       let s = upd_sem i (\<lambda>m. m\<lparr>sem_value := sem_value m - 1\<rparr>) s;
       s \<leftarrow> rt_spin_unlock s;
       Some (Some RT_EOK, s)
     } else if timeout = 0 then do {
       s \<leftarrow> rt_spin_unlock s;
       Some (Some (- RT_ETIMEOUT), s)
     } else do {
       t \<leftarrow> rt_thread_self s;
       let s = upd_tcb t (\<lambda>b. b\<lparr>t_error := RT_EINTR\<rparr>) s;
       (ret, s) \<leftarrow> rt_thread_suspend_to_list t (Some (SemQ i)) (ipc_flag (OSem i) s) suspend_flag s;
       if ret \<noteq> RT_EOK then do {
         s \<leftarrow> rt_spin_unlock s;
         Some (Some ret, s)
       } else do {
         s \<leftarrow> (if timeout > 0 then start_wait_timer t (word_of_int timeout) s else Some s);
         s \<leftarrow> rt_spin_unlock s;
         s \<leftarrow> rt_schedule s;
         Some (None, s)
       }
     }
   }"

definition sem_take_resume :: "nat \<Rightarrow> kst \<Rightarrow> int" where
  "sem_take_resume t s =
     (let e = t_error (tcbs s t) in if e \<noteq> RT_EOK then (if e > 0 then - e else e) else RT_EOK)"

definition rt_sem_take :: "nat \<Rightarrow> int \<Rightarrow> kst \<Rightarrow> (int option \<times> kst) option" where
  "rt_sem_take i time s = sem_take i time RT_UNINTERRUPTIBLE s"

definition rt_sem_take_interruptible :: "nat \<Rightarrow> int \<Rightarrow> kst \<Rightarrow> (int option \<times> kst) option" where
  "rt_sem_take_interruptible i time s = sem_take i time RT_INTERRUPTIBLE s"

definition rt_sem_take_killable :: "nat \<Rightarrow> int \<Rightarrow> kst \<Rightarrow> (int option \<times> kst) option" where
  "rt_sem_take_killable i time s = sem_take i time RT_KILLABLE s"

definition rt_sem_trytake :: "nat \<Rightarrow> kst \<Rightarrow> (int option \<times> kst) option" where
  "rt_sem_trytake i s = rt_sem_take i 0 s"

definition rt_sem_release :: "nat \<Rightarrow> kst \<Rightarrow> (int \<times> kst) option" where
  "rt_sem_release i s = do {
     rt_assert (is_sem i s);
     let s = rt_spin_lock s;
     if tlists s (sem_q i) \<noteq> [] then do {
       (_, s) \<leftarrow> rt_susp_list_dequeue (SemQ i) RT_EOK s;
       s \<leftarrow> rt_spin_unlock s;
       s \<leftarrow> rt_schedule s;
       Some (RT_EOK, s)
     } else if sem_value (sems s i) < sem_max_value (sems s i) then do {
       let s = upd_sem i (\<lambda>m. m\<lparr>sem_value := sem_value m + 1\<rparr>) s;
       s \<leftarrow> rt_spin_unlock s;
       Some (RT_EOK, s)
     } else do {
       s \<leftarrow> rt_spin_unlock s;
       Some (- RT_EFULL, s)
     }
   }"

datatype ipc_cmd = IPC_CMD_RESET u32 | IPC_CMD_SET_VLIMIT u32 | IPC_CMD_OTHER

definition rt_sem_control :: "nat \<Rightarrow> ipc_cmd \<Rightarrow> kst \<Rightarrow> (int \<times> kst) option" where
  "rt_sem_control i cmd s = do {
     rt_assert (is_sem i s);
     case cmd of
       IPC_CMD_RESET value \<Rightarrow> do {
         let s = rt_spin_lock s;
         s \<leftarrow> rt_susp_list_resume_all (SemQ i) RT_ERROR s;
         let s = upd_sem i (\<lambda>m. m\<lparr>sem_value := ucast value\<rparr>) s;
         s \<leftarrow> rt_spin_unlock s;
         s \<leftarrow> rt_schedule s;
         Some (RT_EOK, s)
       }
     | IPC_CMD_SET_VLIMIT arg \<Rightarrow>
         (let max_value = (ucast arg :: u16) in
          if max_value > RT_SEM_VALUE_MAX \<or> max_value < 1 then Some (- RT_EINVAL, s)
          else do {
            let s = rt_spin_lock s;
            (need_schedule, s) \<leftarrow>
              (if max_value < sem_value (sems s i) \<and> tlists s (sem_q i) \<noteq> [] then do {
                 s \<leftarrow> rt_susp_list_resume_all (SemQ i) RT_ERROR s;
                 Some (True, s)
               } else Some (False, s));
            let s = upd_sem i (\<lambda>m. m\<lparr>sem_max_value := max_value\<rparr>) s;
            s \<leftarrow> rt_spin_unlock s;
            s \<leftarrow> (if need_schedule then rt_schedule s else Some s);
            Some (RT_EOK, s)
          })
     | IPC_CMD_OTHER \<Rightarrow> Some (- RT_ERROR, s)
   }"

subsection \<open>What a semaphore is\<close>

definition sem_ok :: "nat \<Rightarrow> kst \<Rightarrow> bool" where
  \<comment> \<open>a registered semaphore on which no thread waits while the count is positive\<close>
  "sem_ok i s \<longleftrightarrow> is_sem i s \<and> ipc_flag_ok (ipc_flag (OSem i) s) \<and>
     (sem_value (sems s i) > 0 \<longrightarrow> tlists s (sem_q i) = [])"

datatype sem_view = SemView (sv_value: nat) (sv_max: nat) (sv_waiters: "nat list")

definition view_sem :: "nat \<Rightarrow> kst \<Rightarrow> sem_view" where
  "view_sem i s = SemView (unat (sem_value (sems s i))) (unat (sem_max_value (sems s i))) (tlists s (sem_q i))"

fun spec_release :: "sem_view \<Rightarrow> int \<times> nat option \<times> sem_view" where
  \<comment> \<open>result, woken thread and new state of a release\<close>
  "spec_release (SemView v m []) =
     (if v < m then (RT_EOK, None, SemView (v + 1) m []) else (- RT_EFULL, None, SemView v m []))"
| "spec_release (SemView v m (t # ts)) = (RT_EOK, Some t, SemView v m ts)"

lemma ipc_flag_fields [simp]:
  "ipc_flag (OSem i) (rt_spin_lock s) = ipc_flag (OSem i) s"
  "ipc_flag r (s\<lparr>tcbs := a\<rparr>) = ipc_flag r s"
  by (simp_all add: ipc_flag_def)

lemma not_timer_simps [simp]:
  "not_timer (OSem i)" "not_timer (OMutex i)" "not_timer (OEvent i)" "not_timer (OMailbox i)"
  "not_timer (OMsgQueue i)" "not_timer (OMemPool i)" "not_timer (OThread i)"
  by (simp_all add: not_timer_def)

lemma sem_ok_waits:
  assumes "sem_ok i s" and "waits t (SemQ i) flag timeout e s s'" and "\<not> sem_value (sems s i) > 0"
  shows "sem_ok i s'"
  using assms by (simp add: sem_ok_def waits_def ipc_flag_def)

lemma lock_ipc [simp]:
  assumes "kinv s"
  shows "rt_spin_unlock ((rt_spin_lock s)\<lparr>sems := a\<rparr>) = Some (s\<lparr>sems := a\<rparr>)"
    "rt_spin_unlock ((rt_spin_lock s)\<lparr>mutexes := b\<rparr>) = Some (s\<lparr>mutexes := b\<rparr>)"
    "rt_spin_unlock ((rt_spin_lock s)\<lparr>events := c\<rparr>) = Some (s\<lparr>events := c\<rparr>)"
    "rt_spin_unlock ((rt_spin_lock s)\<lparr>mboxes := d\<rparr>) = Some (s\<lparr>mboxes := d\<rparr>)"
    "rt_spin_unlock ((rt_spin_lock s)\<lparr>mqueues := e\<rparr>) = Some (s\<lparr>mqueues := e\<rparr>)"
    "rt_spin_unlock ((rt_spin_lock s)\<lparr>mpools := f\<rparr>) = Some (s\<lparr>mpools := f\<rparr>)"
    "rt_spin_unlock ((rt_spin_lock s)\<lparr>tcbs := g\<rparr>) = Some (s\<lparr>tcbs := g\<rparr>)"
  using kinvD(2) [OF assms]
  by (subst spin_unlock_lock [where n = "lock_nest s"];
      auto simp: crit_ok_def rt_spin_lock_def rt_enter_critical_def)+

lemma err_nonneg [simp]:
  "0 \<le> RT_EOK" "0 \<le> RT_ERROR" "0 \<le> RT_EINTR" "RT_EOK \<noteq> RT_ERROR" "RT_ERROR \<noteq> RT_EOK" "RT_EINTR \<noteq> RT_EOK"
  by (simp_all add: err_defs)

lemma filter_neq [simp]: "t \<notin> set ts \<Longrightarrow> filter (\<lambda>u. u \<noteq> t) ts = ts"
  by (induction ts) auto

lemma unat_inc: "(x :: 'a :: len word) < y \<Longrightarrow> unat (x + 1) = unat x + 1"
proof -
  assume "x < y"
  then have "unat x < unat y" by (simp add: word_less_nat_alt)
  moreover have "unat y < 2 ^ LENGTH('a)" by (rule unsigned_less)
  ultimately have "unat x + 1 < 2 ^ LENGTH('a)" by linarith
  then show ?thesis by (simp add: unat_word_ariths)
qed

lemma unlock_locked [simp]: "kinv s \<Longrightarrow> rt_spin_unlock (rt_spin_lock s) = Some s"
  by (simp add: kinvD(2))

lemma lock_upd_tcb: "(rt_spin_lock s)\<lparr>tcbs := T\<rparr> = rt_spin_lock (s\<lparr>tcbs := T\<rparr>)"
  by (simp add: rt_spin_lock_def rt_enter_critical_def)

lemma sem_take_waits:
  assumes k: "kinv s" and ok: "sem_ok i s" and c: "current s = Some t"
    and r: "stat_of (tcbs s t) = RT_THREAD_RUNNING" and l: "lock_nest s = 0" and irq: "irq_nest s = 0"
    and w: "timeout > 0 \<Longrightarrow> word_of_int timeout < HALF_TICKS"
    and v: "\<not> sem_value (sems s i) > 0" and nz: "timeout \<noteq> 0"
  shows "\<exists>s'. sem_take i timeout sf s = Some (None, s') \<and>
      waits t (SemQ i) (ipc_flag (OSem i) s) timeout RT_EINTR s s'"
proof -
  let ?s0 = "upd_tcb t (\<lambda>b. b\<lparr>t_error := RT_EINTR\<rparr>) s" and ?fl = "ipc_flag (OSem i) s"
  have k0: "kinv ?s0" using k by simp
  have 0: "current ?s0 = Some t" "stat_of (tcbs ?s0 t) = RT_THREAD_RUNNING" "lock_nest ?s0 = 0"
    using c r l by simp_all
  have fl: "ipc_flag_ok ?fl" using ok by (simp add: sem_ok_def)
  note B = block_and_switch [OF k0 0 fl w, of "SemQ i" sf]
  obtain s4 s' where s': "rt_spin_unlock (blocked t (SemQ i) ?fl sf timeout (rt_spin_lock ?s0)) = Some s4"
    "rt_schedule s4 = Some s'" "waits t (SemQ i) ?fl timeout RT_EINTR ?s0 s'"
    using B(3) by auto
  have "sem_take i timeout sf s = Some (None, s')"
    using B(1,2) s'(1,2) ok c v nz l irq
    by (simp add: sem_take_def sem_ok_def debug_defs rt_thread_self_def lock_upd_tcb)
  with s'(3) show ?thesis by (auto simp: waits_error)
qed

lemma sem_ok_dec: "sem_ok i s \<Longrightarrow> sem_value (sems s i) > 0 \<Longrightarrow> sem_ok i (upd_sem i (\<lambda>m. m\<lparr>sem_value := v\<rparr>) s)"
  by (simp add: sem_ok_def ipc_flag_def)

text \<open>
  \<open>rt_sem_take\<close>. A positive count is decremented and the call returns \<open>RT_EOK\<close>. At 0, with
  a zero timeout it returns \<open>-RT_ETIMEOUT\<close> and nothing changes; otherwise the caller enters the queue of the
  semaphore in the order of its flag, with an active timer if the timeout is positive and without one if it is
  negative, and another ready thread runs. The invariants of the kernel and of the semaphore are kept.
\<close>

theorem sem_take_branches:
  assumes k: "kinv s" and ok: "sem_ok i s" and c: "current s = Some t"
    and r: "stat_of (tcbs s t) = RT_THREAD_RUNNING" and l: "lock_nest s = 0" and irq: "irq_nest s = 0"
    and w: "word_of_int timeout < HALF_TICKS \<or> timeout \<le> 0"
  shows "if sem_value (sems s i) > 0 then
      (let s' = upd_sem i (\<lambda>m. m\<lparr>sem_value := sem_value m - 1\<rparr>) s
       in sem_take i timeout sf s = Some (Some RT_EOK, s') \<and> kinv s' \<and> sem_ok i s')
    else if timeout = 0 then sem_take i timeout sf s = Some (Some (- RT_ETIMEOUT), s)
    else \<exists>s'. sem_take i timeout sf s = Some (None, s') \<and>
      waits t (SemQ i) (ipc_flag (OSem i) s) timeout RT_EINTR s s' \<and> sem_ok i s'"
proof -
  have d: "debug_scheduler_available True s" using l irq c by (simp add: debug_defs)
  have w': "timeout > 0 \<Longrightarrow> word_of_int timeout < HALF_TICKS" using w by auto
  consider "sem_value (sems s i) > 0" | "\<not> sem_value (sems s i) > 0" "timeout = 0"
    | "\<not> sem_value (sems s i) > 0" "timeout \<noteq> 0" by blast
  then show ?thesis
  proof cases
    case 1
    then show ?thesis
      using k ok d sem_ok_dec [OF ok 1]
      by (simp add: sem_take_def sem_ok_def Let_def)
  next
    case 2
    then show ?thesis using k ok d by (simp add: sem_take_def sem_ok_def)
  next
    case 3
    then show ?thesis
      using sem_take_waits [OF k ok c r l irq w' 3] sem_ok_waits [OF ok _ 3(1)] by fastforce
  qed
qed

lemma sem_take_branches_witness:
  "\<exists>s'. sem_take 8 50 RT_UNINTERRUPTIBLE (demo_wait (SemQ 7)) = Some (None, s') \<and>
     tlists s' (sem_q 8) = [1] \<and> tm_timeout_tick (timers s' (ThreadTimer 1)) = 150"
proof -
  have "sem_ok 8 (demo_wait (SemQ 7))"
    by (simp add: sem_ok_def ipc_flag_ok_def ipc_flag_def demo_objs_def blank_kst_def)
  from sem_take_branches [OF kinv_demo this, of 1 50 RT_UNINTERRUPTIBLE] demo_wait_running [of "SemQ 7"]
  show ?thesis
    by (auto simp: HALF_TICKS_val blank_kst_def waits_def susp_insert_def ipc_flag_def demo_objs_def)
qed

text \<open>
  C6. \<open>rt_sem_release\<close> implements the abstract semaphore: without waiters it adds one token,
  or reports \<open>-RT_EFULL\<close> at the limit; with waiters the token goes straight to the first of them, whose
  \<open>rt_sem_take\<close> then returns \<open>RT_EOK\<close>, and the count stays as it was. The invariants are kept.
\<close>

theorem rt_sem_release_refines:
  assumes k: "kinv s" and ok: "sem_ok i s" and c: "current s \<noteq> None"
  shows "\<exists>e s'. rt_sem_release i s = Some (e, s') \<and> kinv s' \<and> sem_ok i s' \<and>
    (case spec_release (view_sem i s) of (e', w, v') \<Rightarrow>
       e = e' \<and> view_sem i s' = v' \<and>
       (\<forall>t. w = Some t \<longrightarrow> \<not> susp_stat (tcbs s' t) \<and> sem_take_resume t s' = RT_EOK))"
proof (cases "tlists s (sem_q i)")
  case Nil
  show ?thesis
  proof (cases "sem_value (sems s i) < sem_max_value (sems s i)")
    case True
    then have "unat (sem_value (sems s i) + 1) = unat (sem_value (sems s i)) + 1"
      by (rule unat_inc)
    with True Nil k ok show ?thesis
      by (auto simp: rt_sem_release_def sem_ok_def view_sem_def word_less_nat_alt ipc_flag_def)
  next
    case False
    with Nil k ok show ?thesis
      by (auto simp: rt_sem_release_def sem_ok_def view_sem_def word_less_nat_alt)
  qed
next
  case (Cons t ts)
  let ?s1 = "rt_spin_lock s"
  have q: "tlists ?s1 (sem_q i) = t # ts" "current ?s1 \<noteq> None" using Cons c by simp_all
  note W = wake_and_switch [OF locked_ok_lock [OF k] q(2,1), of RT_EOK]
  obtain s4 s' where s': "rt_spin_unlock (wake_err RT_EOK t ?s1) = Some s4" "rt_schedule s4 = Some s'"
    "woken (\<lambda>u. u = t) RT_EOK ?s1 s'" using W(2) by blast
  have "t \<notin> set ts" using store_okD(1) [OF kinv_store [OF k], of "sem_q i"] Cons by simp
  then have ts: "tlists s' (sem_q i) = ts" using s'(3) Cons by (auto simp: woken_def)
  have "rt_sem_release i s = Some (RT_EOK, s')"
    using ok Cons W(1) s'(1,2) by (simp add: rt_sem_release_def sem_ok_def)
  moreover have "sem_ok i s'" using ok s'(3) Cons by (simp add: sem_ok_def woken_def ipc_flag_def)
  ultimately show ?thesis
    using s'(3) Cons ts
    by (auto simp: woken_def view_sem_def sem_take_resume_def Let_def err_defs)
qed

lemma rt_sem_release_refines_witness:
  "\<exists>s'. rt_sem_release 7 (demo_wait (SemQ 7)) = Some (RT_EOK, s') \<and> tlists s' (sem_q 7) = [2] \<and>
     sem_take_resume 3 s' = RT_EOK"
proof -
  have ok: "sem_ok 7 (demo_wait (SemQ 7))"
    by (simp add: sem_ok_def ipc_flag_ok_def ipc_flag_def demo_objs_def blank_kst_def)
  have "view_sem 7 (demo_wait (SemQ 7)) = SemView 0 0 [3, 2]"
    by (simp add: view_sem_def blank_kst_def)
  with rt_sem_release_refines [OF kinv_demo ok] show ?thesis
    by (auto simp: view_sem_def)
qed

lemma kinv_not_timer:
  assumes "not_timer r" and "\<And>t. r \<noteq> OThread t"
  shows "kinv (s\<lparr>objs := (objs s)(r := ob)\<rparr>) = kinv s"
proof -
  have n: "OTimer tm \<noteq> r" "OThread t \<noteq> r" for tm t using assms by (metis not_timer_def, metis)
  show ?thesis
    by (simp add: n kinv_def sched_inv_def crit_ok_def timers_ok_def timer_list_of_def tm_has_def tm_flag_def
        threads_ok_def thread_ok_def rt_object_get_type_def)
qed

lemma kinv_containers: "kinv (s\<lparr>containers := c\<rparr>) = kinv s"
  by simp

text \<open>
  Detaching or resetting a semaphore releases every waiter with an error: each of them
  leaves the queue, its \<open>rt_sem_take\<close> returns \<open>-RT_ERROR\<close>, and no other thread is woken. After the detach the
  object is no semaphore any more; after the reset it has the given count.
\<close>

theorem rt_sem_detach_reset:
  assumes k: "kinv s" and ok: "sem_ok i s" and sys: "rt_object_is_systemobject (OSem i) s" and c: "current s \<noteq> None"
  shows "(\<exists>s'. rt_sem_detach i s = Some (RT_EOK, s') \<and> kinv s' \<and> tlists s' (sem_q i) = [] \<and>
      (\<forall>t \<in> set (tlists s (sem_q i)). sem_take_resume t s' = - RT_ERROR) \<and>
      (\<forall>t. t \<notin> set (tlists s (sem_q i)) \<longrightarrow> susp_stat (tcbs s' t) = susp_stat (tcbs s t)) \<and> \<not> is_sem i s') \<and>
    (\<exists>s'. rt_sem_control i (IPC_CMD_RESET v) s = Some (RT_EOK, s') \<and> kinv s' \<and> tlists s' (sem_q i) = [] \<and>
      (\<forall>t \<in> set (tlists s (sem_q i)). sem_take_resume t s' = - RT_ERROR) \<and>
      (\<forall>t. t \<notin> set (tlists s (sem_q i)) \<longrightarrow> susp_stat (tcbs s' t) = susp_stat (tcbs s t)) \<and>
      sem_value (sems s' i) = ucast v \<and> is_sem i s')"
proof
  let ?s1 = "rt_spin_lock s" and ?ts = "tlists s (sem_q i)"
  let ?s2 = "wake_all RT_ERROR ?ts ?s1"
  have lo: "locked_ok ?s1" "current ?s1 \<noteq> None" using k c by simp_all
  note A = wake_all_and_switch [OF lo, where q = "SemQ i" and e = RT_ERROR]
  have A1: "rt_susp_list_resume_all (SemQ i) RT_ERROR ?s1 = Some ?s2" using A(1) by simp
  have A2: "locked_ok ?s2" using A(2) by simp
  have A3: "woken (\<lambda>t. t \<in> set ?ts) RT_ERROR ?s1 ?s2" using A(3) by simp
  have res: "sem_take_resume t s' = - RT_ERROR" if "t_error (tcbs s' t) = RT_ERROR" for t s'
    using that by (simp add: sem_take_resume_def err_defs)
  note U = locked_ok_unlock [OF A2]
  let ?s3 = "?s2\<lparr>lock_nest := lock_nest ?s2 - 1\<rparr>"
  let ?d = "?s3\<lparr>containers := st_remove (OSem i) (containers ?s3),
      objs := (objs ?s3)(OSem i := (objs ?s3 (OSem i))\<lparr>o_type := RT_Object_Class_Null\<rparr>)\<rparr>"
  have o: "objs ?s3 (OSem i) = objs s (OSem i)" using A3 by (simp add: woken_def)
  have "o_type (objs s (OSem i)) AND NOT RT_Object_Class_Static = RT_Object_Class_Semaphore"
    using ok by (simp add: sem_ok_def rt_object_get_type_def)
  then have "rt_object_get_information (o_type (objs ?s3 (OSem i))) \<noteq> None"
    by (simp add: o rt_object_get_information_def object_container_def class_defs)
  then have det: "rt_object_detach (OSem i) ?s3 = Some ?d"
    using U(2) by (subst rt_object_detach_run) (simp_all add: kinv_def)
  have "rt_sem_detach i s = Some (RT_EOK, ?d)"
    unfolding rt_sem_detach_def using ok sys A1 U(1) det by (simp add: sem_ok_def)
  moreover have "kinv ?d"
    using U(2) kinv_not_timer [of "OSem i" "?s3\<lparr>containers := st_remove (OSem i) (containers ?s3)\<rparr>"] by simp
  moreover have "\<not> is_sem i ?d" by (simp add: rt_object_get_type_def class_defs)
  ultimately show "\<exists>s'. rt_sem_detach i s = Some (RT_EOK, s') \<and> kinv s' \<and> tlists s' (sem_q i) = [] \<and>
      (\<forall>t \<in> set ?ts. sem_take_resume t s' = - RT_ERROR) \<and>
      (\<forall>t. t \<notin> set ?ts \<longrightarrow> susp_stat (tcbs s' t) = susp_stat (tcbs s t)) \<and> \<not> is_sem i s'"
    using A3 by (intro exI [of _ ?d]) (simp add: woken_def res)
  let ?s4 = "upd_sem i (\<lambda>m. m\<lparr>sem_value := ucast v\<rparr>) ?s2"
  have l4: "locked_ok ?s4" using A2 by simp
  note V = locked_ok_unlock [OF l4]
  obtain s' where s': "rt_schedule (?s4\<lparr>lock_nest := lock_nest ?s4 - 1\<rparr>) = Some s'" "kinv s'"
      "same_ipc (?s4\<lparr>lock_nest := lock_nest ?s4 - 1\<rparr>) s'"
    using rt_schedule_total [OF V(2)] c by auto
  have "rt_sem_control i (IPC_CMD_RESET v) s = Some (RT_EOK, s')"
    using ok A1 V(1) s'(1) by (simp add: rt_sem_control_def sem_ok_def)
  moreover have "is_sem i s'"
    using ok s'(3) o by (simp add: sem_ok_def same_ipc_def rt_object_get_type_def)
  ultimately show "\<exists>s'. rt_sem_control i (IPC_CMD_RESET v) s = Some (RT_EOK, s') \<and> kinv s' \<and> tlists s' (sem_q i) = [] \<and>
      (\<forall>t \<in> set ?ts. sem_take_resume t s' = - RT_ERROR) \<and>
      (\<forall>t. t \<notin> set ?ts \<longrightarrow> susp_stat (tcbs s' t) = susp_stat (tcbs s t)) \<and>
      sem_value (sems s' i) = ucast v \<and> is_sem i s'"
    using A3 s'(2,3) by (intro exI [of _ s']) (simp add: woken_def same_ipc_def res)
qed

lemma rt_sem_detach_reset_witness:
  "\<exists>s'. rt_sem_detach 7 (demo_wait (SemQ 7)) = Some (RT_EOK, s') \<and> sem_take_resume 2 s' = - RT_ERROR"
proof -
  have ok: "sem_ok 7 (demo_wait (SemQ 7))"
    by (simp add: sem_ok_def ipc_flag_ok_def ipc_flag_def demo_objs_def blank_kst_def)
  have sys: "rt_object_is_systemobject (OSem 7) (demo_wait (SemQ 7))"
    by (simp add: rt_object_is_systemobject_def demo_objs_def class_defs)
  from rt_sem_detach_reset [OF kinv_demo ok sys, of 0] show ?thesis by auto
qed

text \<open>
  Setting the limit of a semaphore sets the limit and nothing else: because no thread
  waits while the count is positive, the branch that would wake the waiters never runs, and a count above the new limit stays.
\<close>

theorem rt_sem_set_vlimit:
  assumes k: "kinv s" and ok: "sem_ok i s"
  shows "rt_sem_control i (IPC_CMD_SET_VLIMIT v) s =
    (if (ucast v :: u16) = 0 then Some (- RT_EINVAL, s)
     else Some (RT_EOK, upd_sem i (\<lambda>m. m\<lparr>sem_max_value := ucast v\<rparr>) s))"
proof -
  have "unat (ucast v :: u16) < 2 ^ LENGTH(16)" by (rule unsigned_less)
  then have z: "(ucast v :: u16) < 1 \<longleftrightarrow> (ucast v :: u16) = 0" "\<not> (ucast v :: u16) > RT_SEM_VALUE_MAX"
    by (simp_all add: RT_SEM_VALUE_MAX_def not_less word_le_nat_alt word_less_nat_alt unat_eq_0)
  have "\<not> ((ucast v :: u16) < sem_value (sems s i) \<and> tlists s (sem_q i) \<noteq> [])"
  proof
    assume a: "(ucast v :: u16) < sem_value (sems s i) \<and> tlists s (sem_q i) \<noteq> []"
    then have "sem_value (sems s i) > 0" by (metis word_gt_0 word_not_simps(1))
    with a ok show False by (simp add: sem_ok_def)
  qed
  with k ok z show ?thesis by (auto simp: rt_sem_control_def sem_ok_def Let_def)
qed

lemma rt_sem_set_vlimit_witness:
  "rt_sem_control 7 (IPC_CMD_SET_VLIMIT 3) (demo_wait (SemQ 7)) =
     Some (RT_EOK, upd_sem 7 (\<lambda>m. m\<lparr>sem_max_value := 3\<rparr>) (demo_wait (SemQ 7)))"
proof -
  have ok: "sem_ok 7 (demo_wait (SemQ 7))"
    by (simp add: sem_ok_def ipc_flag_ok_def ipc_flag_def demo_objs_def blank_kst_def)
  from rt_sem_set_vlimit [OF kinv_demo ok, of 3] show ?thesis by simp
qed

end
