(* ===== verification/Mutex.thy ===== *)
theory Mutex
  imports Sem
begin

text \<open>
  Mutexes (rt-thread/src/ipc.c): ownership with recursion, hand-over to the waiter of the highest
  priority, priority ceiling and priority inheritance. The mutexes a thread owns are on its taken list
  (\<open>takens s t\<close>); \<open>mtx_priority\<close> caches the priority of the first waiter, 0xff without one.
  \<open>mutex_take\<close> is \<open>_rt_mutex_take\<close> up to its call of \<open>rt_schedule\<close>, \<open>mutex_take_resume\<close> the
  rest. The loop of \<open>_thread_update_priority\<close> follows the chain of owners; it is a partial
  function, whose termination is proved for chains without a cycle.
\<close>

definition RT_MUTEX_HOLD_MAX :: u8 where "RT_MUTEX_HOLD_MAX = 0xff"

abbreviation mutex_q :: "nat \<Rightarrow> thead" where "mutex_q m \<equiv> Susp (MutexQ m)"

abbreviation is_mutex :: "nat \<Rightarrow> kst \<Rightarrow> bool" where
  "is_mutex m s \<equiv> rt_object_get_type (OMutex m) s = RT_Object_Class_Mutex"

definition upd_takens :: "((nat, nat) store \<Rightarrow> (nat, nat) store) \<Rightarrow> kst \<Rightarrow> kst" where
  "upd_takens f s = s\<lparr>takens := f (takens s)\<rparr>"

definition first_prio :: "nat \<Rightarrow> kst \<Rightarrow> u8" where
  \<comment> \<open>the priority of the first waiter, 0xff without one\<close>
  "first_prio m s =
     (case tlists s (mutex_q m) of [] \<Rightarrow> 0xff | t # _ \<Rightarrow> rt_sched_thread_get_curr_prio t s)"

definition mutex_update_priority :: "nat \<Rightarrow> kst \<Rightarrow> kst" where
  "mutex_update_priority m s = upd_mutex m (\<lambda>x. x\<lparr>mtx_priority := first_prio m s\<rparr>) s"

fun lower_prio :: "(nat \<Rightarrow> rt_mutex) \<Rightarrow> nat list \<Rightarrow> u8 \<Rightarrow> u8" where
  \<comment> \<open>the loop of \<open>_thread_get_mutex_priority\<close>\<close>
  "lower_prio mx [] priority = priority"
| "lower_prio mx (m # ms) priority =
     (let mutex_prio = mtx_priority (mx m);
          mutex_prio = (if mutex_prio < mtx_ceiling_priority (mx m) then mutex_prio
                        else mtx_ceiling_priority (mx m))
      in lower_prio mx ms (if priority > mutex_prio then mutex_prio else priority))"

definition thread_get_mutex_priority :: "nat \<Rightarrow> kst \<Rightarrow> u8" where
  "thread_get_mutex_priority t s = lower_prio (mutexes s) (takens s t) (rt_sched_thread_get_init_prio t s)"

partial_function (option) update_priority_loop :: "int \<Rightarrow> nat \<Rightarrow> kst \<Rightarrow> kst option" where
  \<comment> \<open>the while loop of \<open>_thread_update_priority\<close>\<close>
  "update_priority_loop ret t s =
     (if ret = RT_EOK \<and> rt_sched_thread_is_suspended t s then
        (case t_pending_object (tcbs s t) of
           Some (OMutex m) \<Rightarrow>
             if is_mutex m s then do {
               let s = upd_tlists (st_remove t) s;
               s \<leftarrow> rt_susp_list_enqueue (MutexQ m) t (ipc_flag (OMutex m) s) s;
               let s = mutex_update_priority m s;
               owner \<leftarrow> mtx_owner (mutexes s m);
               let mutex_priority = thread_get_mutex_priority owner s;
               if mutex_priority \<noteq> rt_sched_thread_get_curr_prio owner s then do {
                 (ret, s) \<leftarrow> rt_sched_thread_change_priority owner mutex_priority s;
                 update_priority_loop ret owner s
               } else Some s
             } else Some s
         | _ \<Rightarrow> Some s)
      else Some s)"

definition thread_update_priority :: "nat \<Rightarrow> u8 \<Rightarrow> kst \<Rightarrow> kst option" where
  "thread_update_priority t priority s = do {
     (ret, s) \<leftarrow> rt_sched_thread_change_priority t priority s;
     update_priority_loop ret t s
   }"

definition check_and_update_prio :: "nat \<Rightarrow> nat \<Rightarrow> kst \<Rightarrow> (bool \<times> kst) option" where
  "check_and_update_prio t m s =
     (if mtx_ceiling_priority (mutexes s m) \<noteq> 0xff \<or>
         rt_sched_thread_get_curr_prio t s = mtx_priority (mutexes s m) then do {
        let priority = thread_get_mutex_priority t s;
        (_, s) \<leftarrow> rt_sched_thread_change_priority t priority s;
        Some (True, s)
      } else Some (False, s))"

definition mutex_before_delete_detach :: "nat \<Rightarrow> kst \<Rightarrow> kst option" where
  "mutex_before_delete_detach m s = do {
     let s = rt_spin_lock s;
     s \<leftarrow> rt_susp_list_resume_all (MutexQ m) RT_ERROR s;
     let s = upd_takens (st_remove m) s;
     (need_schedule, s) \<leftarrow> (case mtx_owner (mutexes s m) of
         Some owner \<Rightarrow> check_and_update_prio owner m s
       | None \<Rightarrow> Some (False, s));
     s \<leftarrow> (if need_schedule then rt_sched_unlock_n_resched s else Some s);
     rt_spin_unlock s
   }"

definition mutex_init_fields :: "nat \<Rightarrow> kst \<Rightarrow> kst" where
  "mutex_init_fields m s =
     (let s = ipc_object_init (MutexQ m) s;
          s = upd_mutex m (\<lambda>_. \<lparr>mtx_ceiling_priority = 0xff, mtx_priority = 0xff, mtx_hold = 0, mtx_owner = None\<rparr>) s;
          s = upd_takens (st_remove m) s
      in upd_obj (OMutex m) (\<lambda>ob. ob\<lparr>o_flag := RT_IPC_FLAG_PRIO\<rparr>) s)"

definition rt_mutex_init :: "nat \<Rightarrow> string option \<Rightarrow> u8 \<Rightarrow> kst \<Rightarrow> (int \<times> kst) option" where
  "rt_mutex_init m name flag s = do {
     s \<leftarrow> rt_object_init (OMutex m) RT_Object_Class_Mutex name s;
     Some (RT_EOK, mutex_init_fields m s)
   }"

definition rt_mutex_detach :: "nat \<Rightarrow> kst \<Rightarrow> (int \<times> kst) option" where
  "rt_mutex_detach m s = do {
     rt_assert (is_mutex m s);
     rt_assert (rt_object_is_systemobject (OMutex m) s);
     s \<leftarrow> mutex_before_delete_detach m s;
     s \<leftarrow> rt_object_detach (OMutex m) s;
     Some (RT_EOK, s)
   }"

definition rt_mutex_create :: "nat option \<Rightarrow> string option \<Rightarrow> u8 \<Rightarrow> kst \<Rightarrow> (nat option \<times> kst) option" where
  "rt_mutex_create block name flag s = do {
     rt_assert (debug_not_in_interrupt s);
     (_, s) \<leftarrow> rt_object_allocate (map_option OMutex block) RT_Object_Class_Mutex name s;
     case block of
       None \<Rightarrow> Some (None, s)
     | Some m \<Rightarrow> Some (Some m, mutex_init_fields m s)
   }"

definition rt_mutex_delete :: "nat \<Rightarrow> kst \<Rightarrow> (int \<times> kst) option" where
  "rt_mutex_delete m s = do {
     rt_assert (is_mutex m s);
     rt_assert (\<not> rt_object_is_systemobject (OMutex m) s);
     rt_assert (debug_not_in_interrupt s);
     s \<leftarrow> mutex_before_delete_detach m s;
     s \<leftarrow> rt_object_delete (OMutex m) s;
     Some (RT_EOK, s)
   }"

definition refresh_owner :: "nat \<Rightarrow> kst \<Rightarrow> kst option" where
  \<comment> \<open>the owner's priority is recomputed, and what follows from it\<close>
  "refresh_owner owner s = do {
     let priority = thread_get_mutex_priority owner s;
     if priority \<noteq> rt_sched_thread_get_curr_prio owner s
     then thread_update_priority owner priority s else Some s
   }"

definition waiter_left :: "nat \<Rightarrow> nat \<Rightarrow> kst \<Rightarrow> kst option" where
  \<comment> \<open>thread \<open>t\<close> no longer waits for \<open>m\<close>: the steps that \<open>rt_mutex_drop_thread\<close> and the failed \<open>_rt_mutex_take\<close> share\<close>
  "waiter_left m t s = do {
     let owner = mtx_owner (mutexes s m);
     let need_update = (case owner of None \<Rightarrow> False
         | Some w \<Rightarrow> rt_sched_thread_get_curr_prio w s = rt_sched_thread_get_curr_prio t s);
     let s = mutex_update_priority m s;
     (case owner of Some w \<Rightarrow> if need_update then refresh_owner w s else Some s | None \<Rightarrow> Some s)
   }"

definition rt_mutex_drop_thread :: "nat \<Rightarrow> nat \<Rightarrow> kst \<Rightarrow> kst option" where
  "rt_mutex_drop_thread m t s = do {
     rt_assert (debug_in_thread_context s);
     let s = rt_spin_lock s;
     rt_assert (t_pending_object (tcbs s t) = Some (OMutex m));
     let s = upd_tlists (st_remove t) s;
     s \<leftarrow> waiter_left m t s;
     rt_spin_unlock s
   }"

definition rt_mutex_setprioceiling :: "nat option \<Rightarrow> u8 \<Rightarrow> kst \<Rightarrow> (u8 \<times> kst) option" where
  "rt_mutex_setprioceiling mutex priority s = do {
     rt_assert (debug_in_thread_context s);
     case mutex of
       Some m \<Rightarrow>
         if unat priority < RT_THREAD_PRIORITY_MAX then do {
           let s = rt_spin_lock s;
           let ret_priority = mtx_ceiling_priority (mutexes s m);
           let s = upd_mutex m (\<lambda>x. x\<lparr>mtx_ceiling_priority := priority\<rparr>) s;
           s \<leftarrow> (case mtx_owner (mutexes s m) of None \<Rightarrow> Some s | Some owner \<Rightarrow> refresh_owner owner s);
           s \<leftarrow> rt_spin_unlock s;
           Some (ret_priority, s)
         } else Some (0xff, rt_set_errno (- RT_EINVAL) s)
     | None \<Rightarrow> Some (0xff, rt_set_errno (- RT_EINVAL) s)
   }"

definition rt_mutex_getprioceiling :: "nat \<Rightarrow> kst \<Rightarrow> (u8 \<times> kst) option" where
  "rt_mutex_getprioceiling m s = do {
     rt_assert (debug_in_thread_context s);
     let s = rt_spin_lock s;
     let prio = mtx_ceiling_priority (mutexes s m);
     s \<leftarrow> rt_spin_unlock s;
     Some (prio, s)
   }"

definition inherit_step :: "nat \<Rightarrow> nat \<Rightarrow> nat \<Rightarrow> kst \<Rightarrow> kst option" where
  \<comment> \<open>the part of \<open>mutex_take\<close> that passes the priority of the new waiter \<open>t\<close> on to the owner\<close>
  "inherit_step m t owner s =
     (let priority = rt_sched_thread_get_curr_prio t s in
      if priority < mtx_priority (mutexes s m) then do {
        let s = upd_mutex m (\<lambda>x. x\<lparr>mtx_priority := priority\<rparr>) s;
        if priority < rt_sched_thread_get_curr_prio owner s
        then thread_update_priority owner priority s else Some s
      } else Some s)"

definition mutex_take :: "nat \<Rightarrow> int \<Rightarrow> suspend_flag \<Rightarrow> kst \<Rightarrow> (int option \<times> kst) option" where
  "mutex_take m timeout suspend_flag s = do {
     rt_assert (debug_scheduler_available True s);
     rt_assert (is_mutex m s);
     t \<leftarrow> rt_thread_self s;
     let s = rt_spin_lock s;
     let s = upd_tcb t (\<lambda>b. b\<lparr>t_error := RT_EOK\<rparr>) s;
     if mtx_owner (mutexes s m) = Some t then
       if mtx_hold (mutexes s m) < RT_MUTEX_HOLD_MAX then do {
         let s = upd_mutex m (\<lambda>x. x\<lparr>mtx_hold := mtx_hold x + 1\<rparr>) s;
         s \<leftarrow> rt_spin_unlock s;
         Some (Some RT_EOK, s)
       } else do {
         s \<leftarrow> rt_spin_unlock s;
         Some (Some (- RT_EFULL), s)
       }
     else case mtx_owner (mutexes s m) of
       None \<Rightarrow> do {
         let s = upd_mutex m (\<lambda>x. x\<lparr>mtx_owner := Some t, mtx_priority := 0xff, mtx_hold := 1\<rparr>) s;
         let ceiling = mtx_ceiling_priority (mutexes s m);
         s \<leftarrow> (if ceiling \<noteq> 0xff \<and> ceiling < rt_sched_thread_get_curr_prio t s
               then thread_update_priority t ceiling s else Some s);
         let s = upd_takens (st_push t m) s;
         s \<leftarrow> rt_spin_unlock s;
         Some (Some RT_EOK, s)
       }
     | Some owner \<Rightarrow>
         if timeout = 0 then do {
           let s = upd_tcb t (\<lambda>b. b\<lparr>t_error := RT_ETIMEOUT\<rparr>) s;
           s \<leftarrow> rt_spin_unlock s;
           Some (Some (- RT_ETIMEOUT), s)
         } else do {
           (ret, s) \<leftarrow> rt_thread_suspend_to_list t (Some (MutexQ m)) (ipc_flag (OMutex m) s) suspend_flag s;
           if ret \<noteq> RT_EOK then do {
             s \<leftarrow> rt_spin_unlock s;
             Some (Some ret, s)
           } else do {
             let s = upd_tcb t (\<lambda>b. b\<lparr>t_pending_object := Some (OMutex m)\<rparr>) s;
             s \<leftarrow> inherit_step m t owner s;
             s \<leftarrow> (if timeout > 0 then start_wait_timer t (word_of_int timeout) s else Some s);
             s \<leftarrow> rt_spin_unlock s;
             s \<leftarrow> rt_schedule s;
             Some (None, s)
           }
         }
   }"

definition mutex_take_resume :: "nat \<Rightarrow> nat \<Rightarrow> kst \<Rightarrow> (int \<times> kst) option" where
  "mutex_take_resume m t s = do {
     let s = rt_spin_lock s;
     if mtx_owner (mutexes s m) = Some t then do {
       rt_assert (t_error (tcbs s t) = RT_EOK);
       s \<leftarrow> rt_spin_unlock s;
       Some (RT_EOK, s)
     } else do {
       let ret = t_error (tcbs s t);
       let ret = (if ret = RT_EOK then - RT_EINTR else ret);
       s \<leftarrow> waiter_left m t s;
       s \<leftarrow> rt_spin_unlock s;
       let s = upd_tcb t (\<lambda>b. b\<lparr>t_pending_object := None\<rparr>) s;
       Some (if ret > 0 then - ret else ret, s)
     }
   }"

definition rt_mutex_take :: "nat \<Rightarrow> int \<Rightarrow> kst \<Rightarrow> (int option \<times> kst) option" where
  "rt_mutex_take m time s = mutex_take m time RT_UNINTERRUPTIBLE s"

definition rt_mutex_take_interruptible :: "nat \<Rightarrow> int \<Rightarrow> kst \<Rightarrow> (int option \<times> kst) option" where
  "rt_mutex_take_interruptible m time s = mutex_take m time RT_INTERRUPTIBLE s"

definition rt_mutex_take_killable :: "nat \<Rightarrow> int \<Rightarrow> kst \<Rightarrow> (int option \<times> kst) option" where
  "rt_mutex_take_killable m time s = mutex_take m time RT_KILLABLE s"

definition rt_mutex_trytake :: "nat \<Rightarrow> kst \<Rightarrow> (int option \<times> kst) option" where
  "rt_mutex_trytake m s = rt_mutex_take m 0 s"

partial_function (option) ready_next_waiter :: "nat \<Rightarrow> kst \<Rightarrow> (nat option \<times> kst) option" where
  \<comment> \<open>the do-while loop of \<open>rt_mutex_release\<close>\<close>
  "ready_next_waiter m s =
     (case tlists s (mutex_q m) of
        [] \<Rightarrow> Some (None, s)
      | next_thread # _ \<Rightarrow> do {
          rt_assert (rt_sched_thread_is_suspended next_thread s);
          let s = upd_tlists (st_remove next_thread) s;
          (error, s) \<leftarrow> rt_sched_thread_ready next_thread s;
          if error \<noteq> RT_EOK then ready_next_waiter m s else Some (Some next_thread, s)
        })"

definition rt_mutex_release :: "nat \<Rightarrow> kst \<Rightarrow> (int \<times> kst) option" where
  "rt_mutex_release m s = do {
     rt_assert (is_mutex m s);
     rt_assert (debug_in_thread_context s);
     t \<leftarrow> rt_thread_self s;
     let s = rt_spin_lock s;
     if mtx_owner (mutexes s m) \<noteq> Some t then do {
       let s = upd_tcb t (\<lambda>b. b\<lparr>t_error := - RT_ERROR\<rparr>) s;
       s \<leftarrow> rt_spin_unlock s;
       Some (- RT_ERROR, s)
     } else do {
       let s = upd_mutex m (\<lambda>x. x\<lparr>mtx_hold := mtx_hold x - 1\<rparr>) s;
       (need_schedule, s) \<leftarrow>
         (if mtx_hold (mutexes s m) = 0 then do {
            let s = upd_takens (st_remove m) s;
            (need_schedule, s) \<leftarrow> check_and_update_prio t m s;
            if tlists s (mutex_q m) \<noteq> [] then do {
              (next, s) \<leftarrow> ready_next_waiter m s;
              case next of
                Some next_thread \<Rightarrow> do {
                  let s = upd_mutex m (\<lambda>x. x\<lparr>mtx_owner := Some next_thread, mtx_hold := 1\<rparr>) s;
                  let s = upd_takens (st_push next_thread m) s;
                  let s = upd_tcb next_thread (\<lambda>b. b\<lparr>t_pending_object := None\<rparr>) s;
                  Some (True, mutex_update_priority m s)
                }
              | None \<Rightarrow> Some (need_schedule, upd_mutex m (\<lambda>x. x\<lparr>mtx_owner := None, mtx_priority := 0xff\<rparr>) s)
            } else Some (need_schedule, upd_mutex m (\<lambda>x. x\<lparr>mtx_owner := None, mtx_priority := 0xff\<rparr>) s)
          } else Some (False, s));
       s \<leftarrow> rt_spin_unlock s;
       s \<leftarrow> (if need_schedule then rt_schedule s else Some s);
       Some (RT_EOK, s)
     }
   }"

definition rt_mutex_control :: "nat \<Rightarrow> int" where
  "rt_mutex_control m = - RT_EINVAL"

subsection \<open>Changing a priority, seen from the mutexes\<close>

definition prio_changed :: "nat \<Rightarrow> u8 \<Rightarrow> kst \<Rightarrow> kst \<Rightarrow> bool" where
  \<comment> \<open>only the priority of \<open>t\<close> and its place in the ready table differ\<close>
  "prio_changed t p s s' \<longleftrightarrow>
     t_current_priority (tcbs s' t) = p \<and> (\<forall>u. u \<noteq> t \<longrightarrow> tcbs s' u = tcbs s u) \<and>
     susp_stat (tcbs s' t) = susp_stat (tcbs s t) \<and> t_init_priority (tcbs s' t) = t_init_priority (tcbs s t) \<and>
     t_pending_object (tcbs s' t) = t_pending_object (tcbs s t) \<and> t_error (tcbs s' t) = t_error (tcbs s t) \<and>
     t_ttmr_set (tcbs s' t) = t_ttmr_set (tcbs s t) \<and>
     (stat_of (tcbs s t) = RT_THREAD_RUNNING \<longrightarrow> stat_of (tcbs s' t) = RT_THREAD_RUNNING) \<and>
     (stat_of (tcbs s t) = RT_THREAD_READY \<longrightarrow> stat_of (tcbs s' t) = RT_THREAD_READY) \<and>
     (\<forall>q. tlists s' (Susp q) = tlists s (Susp q)) \<and> mutexes s' = mutexes s \<and> takens s' = takens s \<and>
     objs s' = objs s \<and> current s' = current s \<and> lock_nest s' = lock_nest s \<and> crit_flag s' = crit_flag s \<and>
     irq_nest s' = irq_nest s \<and> tick s' = tick s \<and> timers s' = timers s"

lemma change_priority_run:
  assumes k: "kinv s" and p: "unat priority < 32"
  shows "\<exists>s'. rt_sched_thread_change_priority t priority s = Some (RT_EOK, s') \<and> kinv s' \<and> prio_changed t priority s s'"
proof -
  obtain s' where run: "rt_sched_thread_change_priority t priority s = Some (RT_EOK, s')" and k': "kinv s'"
    using change_priority_ready [OF k p, of t] change_priority_other [OF k p, of t] by blast
  have "prio_changed t priority s s'"
  proof (cases "stat_of (tcbs s t) = RT_THREAD_READY")
    case True
    have inv: "sched_inv s" using k by (simp add: kinv_def)
    then have c: "current s \<noteq> Some t" using True by (auto simp: sched_inv_def cinv_def)
    have su: "\<not> susp_stat (tcbs s t)" using True susp_stat_disj(1) by auto
    have q: "removeAll t (tlists s (Susp q)) = tlists s (Susp q)" for q
      using not_queued(1) [OF inv, of t] True by simp
    show ?thesis
      using run True p c su q
      by (auto simp: prio_changed_def rt_sched_thread_change_priority_def rt_sched_update_priority_def Let_def
          RT_THREAD_PRIORITY_MAX_def)
  next
    case False
    then show ?thesis
      using run p by (auto simp: prio_changed_def rt_sched_thread_change_priority_def rt_sched_update_priority_def
          Let_def RT_THREAD_PRIORITY_MAX_def susp_stat_stat_of)
  qed
  with run k' show ?thesis by blast
qed

subsection \<open>The mutex invariant\<close>

abbreviation cp :: "kst \<Rightarrow> nat \<Rightarrow> u8" where "cp s t \<equiv> t_current_priority (tcbs s t)"

abbreviation mq :: "kst \<Rightarrow> nat \<Rightarrow> nat list" where "mq s m \<equiv> tlists s (mutex_q m)"

definition owners_ok :: "kst \<Rightarrow> bool" where
  \<comment> \<open>the taken lists are the converse of the owner fields, and only an owned mutex has waiters\<close>
  "owners_ok s \<longleftrightarrow> store_ok (takens s) \<and>
     (\<forall>t m. m \<in> set (takens s t) \<longleftrightarrow> mtx_owner (mutexes s m) = Some t) \<and>
     (\<forall>m. mtx_owner (mutexes s m) = None \<longrightarrow> mq s m = [])"

definition waiters_ok :: "kst \<Rightarrow> bool" where
  \<comment> \<open>the waiters of a mutex are the suspended threads whose pending object it is\<close>
  "waiters_ok s \<longleftrightarrow>
     (\<forall>m t. t \<in> set (mq s m) \<longleftrightarrow> susp_stat (tcbs s t) \<and> t_pending_object (tcbs s t) = Some (OMutex m)) \<and>
     (\<forall>m t. t \<in> set (mq s m) \<longrightarrow> is_mutex m s \<and> ipc_flag (OMutex m) s = RT_IPC_FLAG_PRIO)"

definition init_prios_ok :: "kst \<Rightarrow> bool" where
  "init_prios_ok s \<longleftrightarrow> (\<forall>t. unat (t_init_priority (tcbs s t)) < 32)"

definition inherit_but :: "nat set \<Rightarrow> nat set \<Rightarrow> kst \<Rightarrow> bool" where
  \<comment> \<open>queues are in order of priority, the cached priority is a bound for the waiters, and the owner is at
    least as urgent as it says; the threads of \<open>X\<close> are exempt as waiters, those of \<open>W\<close> as owners\<close>
  "inherit_but X W s \<longleftrightarrow>
     (\<forall>m. sorted (map (cp s) (filter (\<lambda>u. u \<notin> X) (mq s m)))) \<and>
     (\<forall>m t. t \<in> set (mq s m) \<longrightarrow> t \<notin> X \<longrightarrow> mtx_priority (mutexes s m) \<le> cp s t) \<and>
     (\<forall>m w. mtx_owner (mutexes s m) = Some w \<longrightarrow> w \<notin> W \<longrightarrow> cp s w \<le> mtx_priority (mutexes s m))"

definition mtx_ok :: "kst \<Rightarrow> bool" where
  "mtx_ok s \<longleftrightarrow> kinv s \<and> owners_ok s \<and> waiters_ok s \<and> init_prios_ok s"

definition minv :: "kst \<Rightarrow> bool" where
  "minv s \<longleftrightarrow> mtx_ok s \<and> inherit_but {} {} s"

lemma minv_no_inversion:
  assumes "minv s" and "mtx_owner (mutexes s m) = Some w" and "t \<in> set (mq s m)"
  shows "cp s w \<le> cp s t"
  using assms order_trans unfolding minv_def inherit_but_def by blast

lemma lower_prio_le: "lower_prio mx ms p \<le> p"
proof (induction ms arbitrary: p)
  case (Cons m ms)
  let ?mp = "if mtx_priority (mx m) < mtx_ceiling_priority (mx m) then mtx_priority (mx m) else mtx_ceiling_priority (mx m)"
  have "lower_prio mx (m # ms) p \<le> (if p > ?mp then ?mp else p)" using Cons by (simp add: Let_def)
  also have "\<dots> \<le> p" by (cases "p > ?mp") (auto intro: less_imp_le)
  finally show ?case .
qed simp

lemma lower_prio_le_mutex: "m \<in> set ms \<Longrightarrow> lower_prio mx ms p \<le> mtx_priority (mx m)"
proof (induction ms arbitrary: p)
  case (Cons m' ms)
  let ?mp = "if mtx_priority (mx m') < mtx_ceiling_priority (mx m') then mtx_priority (mx m') else mtx_ceiling_priority (mx m')"
  show ?case
  proof (cases "m \<in> set ms")
    case True
    with Cons.IH show ?thesis by (simp add: Let_def)
  next
    case False
    with Cons.prems have m: "m' = m" by simp
    have "lower_prio mx (m' # ms) p \<le> (if p > ?mp then ?mp else p)" using lower_prio_le by (simp add: Let_def)
    also have "\<dots> \<le> mtx_priority (mx m)" using m by (auto simp: not_less intro: less_imp_le order_trans)
    finally show ?thesis .
  qed
qed simp

lemma get_mutex_priority_le:
  assumes "owners_ok s" and "mtx_owner (mutexes s m) = Some w"
  shows "thread_get_mutex_priority w s \<le> mtx_priority (mutexes s m)"
  using assms lower_prio_le_mutex unfolding thread_get_mutex_priority_def owners_ok_def by blast

lemma get_mutex_priority_bound:
  assumes "init_prios_ok s"
  shows "unat (thread_get_mutex_priority w s) < 32"
  using lower_prio_le [of "mutexes s" "takens s w" "t_init_priority (tcbs s w)"] assms
  by (simp add: thread_get_mutex_priority_def rt_sched_thread_get_init_prio_def init_prios_ok_def word_le_nat_alt)
    (meson le_less_trans)

subsection \<open>Steps that the invariant survives\<close>

definition same_mtx :: "kst \<Rightarrow> kst \<Rightarrow> bool" where
  \<comment> \<open>the two states agree on all that the mutex invariant reads but the priorities\<close>
  "same_mtx s s' \<longleftrightarrow> takens s' = takens s \<and>
     (\<forall>m. mtx_owner (mutexes s' m) = mtx_owner (mutexes s m)) \<and>
     (\<forall>m. set (mq s' m) = set (mq s m)) \<and>
     (\<forall>m. o_type (objs s' (OMutex m)) = o_type (objs s (OMutex m)) \<and> o_flag (objs s' (OMutex m)) = o_flag (objs s (OMutex m))) \<and>
     (\<forall>t. susp_stat (tcbs s' t) = susp_stat (tcbs s t) \<and> t_pending_object (tcbs s' t) = t_pending_object (tcbs s t) \<and>
          t_init_priority (tcbs s' t) = t_init_priority (tcbs s t))"

lemma mtx_ok_same:
  assumes "same_mtx s s'" and "kinv s'"
  shows "mtx_ok s \<Longrightarrow> mtx_ok s'"
proof -
  assume ok: "mtx_ok s"
  have e: "mq s' m = [] \<longleftrightarrow> mq s m = []" for m
    using assms(1) unfolding same_mtx_def by (metis set_empty)
  have "owners_ok s'" using ok assms(1) e by (simp add: mtx_ok_def owners_ok_def same_mtx_def)
  moreover have "waiters_ok s'"
    using ok assms(1) by (simp add: mtx_ok_def waiters_ok_def same_mtx_def rt_object_get_type_def ipc_flag_def)
  moreover have "init_prios_ok s'" using ok assms(1) by (simp add: mtx_ok_def init_prios_ok_def same_mtx_def)
  ultimately show ?thesis using assms(2) by (simp add: mtx_ok_def)
qed

lemma inherit_same:
  assumes "\<And>m. mq s' m = mq s m" "\<And>m. mtx_owner (mutexes s' m) = mtx_owner (mutexes s m)"
    and "\<And>m. mtx_priority (mutexes s' m) = mtx_priority (mutexes s m)" "\<And>t. cp s' t = cp s t"
  shows "inherit_but X W s' = inherit_but X W s"
proof -
  have "cp s' = cp s" using assms(4) by blast
  with assms show ?thesis by (simp add: inherit_but_def)
qed

lemma minv_same:
  assumes "same_mtx s s'" "kinv s'" "\<And>m. mq s' m = mq s m"
    and "\<And>m. mtx_priority (mutexes s' m) = mtx_priority (mutexes s m)" "\<And>t. cp s' t = cp s t"
  shows "minv s \<Longrightarrow> minv s'"
  using mtx_ok_same [OF assms(1,2)] inherit_same [of s' s "{}" "{}"] assms(1,3,4,5)
  unfolding minv_def same_mtx_def by blast

lemma same_mtx_changed: "prio_changed t p s s' \<Longrightarrow> same_mtx s s'"
  unfolding same_mtx_def prio_changed_def by metis

lemma cp_changed: "prio_changed t p s s' \<Longrightarrow> cp s' u = (if u = t then p else cp s u)"
  by (simp add: prio_changed_def)

lemma inherit_changed:
  assumes c: "prio_changed t p s s'" and i: "inherit_but X W s" and X: "X \<subseteq> insert t Y" and W: "W \<subseteq> {t}"
    and le: "\<And>m. mtx_owner (mutexes s m) = Some t \<Longrightarrow> p \<le> mtx_priority (mutexes s m)"
  shows "inherit_but (insert t Y) {} s'"
proof -
  have eq: "mutexes s' = mutexes s" "mq s' m = mq s m" for m using c by (simp_all add: prio_changed_def)
  have "sorted (map (cp s') (filter (\<lambda>u. u \<notin> insert t Y) (mq s m)))" for m
  proof -
    have "filter (\<lambda>u. u \<notin> insert t Y) (mq s m) = filter (\<lambda>u. u \<notin> insert t Y) (filter (\<lambda>u. u \<notin> X) (mq s m))"
      using X by (auto simp: filter_filter intro!: filter_cong)
    moreover have "sorted (map (cp s) (filter (\<lambda>u. u \<notin> insert t Y) (filter (\<lambda>u. u \<notin> X) (mq s m))))"
      using i sorted_filter [of "cp s" "filter (\<lambda>u. u \<notin> X) (mq s m)"] by (simp add: inherit_but_def)
    moreover have "map (cp s') (filter (\<lambda>u. u \<notin> insert t Y) xs) = map (cp s) (filter (\<lambda>u. u \<notin> insert t Y) xs)" for xs
      using cp_changed [OF c] by auto
    ultimately show ?thesis by metis
  qed
  moreover have "mtx_priority (mutexes s m) \<le> cp s' u" if "u \<in> set (mq s m)" "u \<notin> insert t Y" for u m
    using i X that cp_changed [OF c, of u] unfolding inherit_but_def by auto
  moreover have "cp s' w \<le> mtx_priority (mutexes s m)" if "mtx_owner (mutexes s m) = Some w" for w m
  proof (cases "w = t")
    case False
    then have "w \<notin> W" using W by blast
    with i that False cp_changed [OF c, of w] show ?thesis unfolding inherit_but_def by simp
  qed (use le that cp_changed [OF c, of w] in simp)
  ultimately show ?thesis by (simp add: inherit_but_def eq)
qed

lemma inherit_not_waiting:
  assumes "waiters_ok s" and "\<not> (susp_stat (tcbs s t) \<and> (\<exists>m. t_pending_object (tcbs s t) = Some (OMutex m)))"
    and "inherit_but {t} W s"
  shows "inherit_but {} W s"
proof -
  have "t \<notin> set (mq s m)" for m using assms(1,2) by (auto simp: waiters_ok_def)
  then have "filter (\<lambda>u. u \<noteq> t) (mq s m) = mq s m" for m by (auto simp: filter_id_conv)
  with assms(3) \<open>\<And>m. t \<notin> set (mq s m)\<close> show ?thesis unfolding inherit_but_def by auto
qed

lemma le_255 [simp]: "(x :: u8) \<le> 0xff"
proof -
  have "unat x < 2 ^ LENGTH(8)" by (rule unsigned_less)
  then show ?thesis by (simp add: word_le_nat_alt)
qed

lemma minv_kinv [simp]: "minv s \<Longrightarrow> kinv s"
  by (simp add: minv_def mtx_ok_def)

definition runs :: "nat \<Rightarrow> kst \<Rightarrow> bool" where
  \<comment> \<open>thread \<open>t\<close> runs, outside critical sections and interrupts\<close>
  "runs t s \<longleftrightarrow> current s = Some t \<and> stat_of (tcbs s t) = RT_THREAD_RUNNING \<and> lock_nest s = 0 \<and> irq_nest s = 0"

definition mutex_ok :: "nat \<Rightarrow> kst \<Rightarrow> bool" where
  "mutex_ok m s \<longleftrightarrow> is_mutex m s \<and> ipc_flag (OMutex m) s = RT_IPC_FLAG_PRIO"

end
