(* ===== verification/MutexInherit.thy ===== *)
theory MutexInherit
  imports Mutex
begin

text \<open>
  Priority inheritance along a chain of mutexes. \<open>waits_for\<close> is the wait-for graph of the threads;
  from a thread that is not on its way into a cycle the loop of \<open>_thread_update_priority\<close> ends, and it
  restores the mutex invariant \<open>minv\<close> after the priority of that thread has changed.
\<close>

inductive waits_for :: "kst \<Rightarrow> nat \<Rightarrow> nat \<Rightarrow> bool" for s where
  wait: "susp_stat (tcbs s u) \<Longrightarrow> t_pending_object (tcbs s u) = Some (OMutex m) \<Longrightarrow>
    mtx_owner (mutexes s m) = Some w \<Longrightarrow> waits_for s u w"

inductive_simps waits_for_simps: "waits_for s u w"

definition no_deadlock :: "nat \<Rightarrow> kst \<Rightarrow> bool" where
  \<comment> \<open>the chain of owners that starts at \<open>t\<close> ends\<close>
  "no_deadlock t s \<longleftrightarrow> Wellfounded.accp (\<lambda>v u. waits_for s u v) t"

lemma no_deadlock_running: "\<not> susp_stat (tcbs s t) \<Longrightarrow> no_deadlock t s"
  unfolding no_deadlock_def by (rule accpI) (simp add: waits_for_simps)

lemma waits_for_same: "same_mtx s s' \<Longrightarrow> waits_for s' = waits_for s"
  by (intro ext) (simp add: waits_for_simps same_mtx_def)

lemma acc_no_loop: "Wellfounded.accp (\<lambda>v u. R u v) t \<Longrightarrow> \<not> R\<^sup>+\<^sup>+ t t"
proof (induction rule: accp_induct [consumes 1])
  case (1 t)
  show ?case
  proof
    assume "R\<^sup>+\<^sup>+ t t"
    then obtain v where v: "R t v" "R\<^sup>*\<^sup>* v t" by (meson tranclpD)
    then have "R\<^sup>+\<^sup>+ v v" by (metis rtranclp_into_tranclp1)
    with 1(2) v(1) show False by blast
  qed
qed

subsection \<open>Moving a waiter within its queue\<close>

lemma kinv_requeue:
  assumes k: "kinv s" and e: "set ts \<subseteq> set (tlists s (Susp q))" and d: "distinct ts"
  shows "kinv (s\<lparr>tlists := (tlists s)(Susp q := ts)\<rparr>)"
proof -
  let ?s = "s\<lparr>tlists := (tlists s)(Susp q := ts)\<rparr>"
  have si: "tinv (tlists s) (ready_group s) (tcbs s)" using k by (simp add: kinv_def sched_inv_def)
  have e': "set (tlists ?s h) \<subseteq> set (tlists s h)" for h using e by simp
  have "store_ok (tlists ?s)"
    unfolding store_ok_def
  proof (intro conjI allI impI)
    show "distinct (tlists ?s h)" for h using d store_okD(1) [OF tinvD(1) [OF si]] by simp
    show "h = h'" if "n \<in> set (tlists ?s h)" "n \<in> set (tlists ?s h')" for h h' n
      using that e' store_okD(2) [OF tinvD(1) [OF si]] by (meson subsetD)
  qed
  moreover have "link_ok (tlists ?s) t (tcbs s t)" if "link_ok (tlists s) t (tcbs s t)" for t
    using that e' [of "Susp q"] by (auto simp: link_ok_def)
  ultimately have "tinv (tlists ?s) (ready_group s) (tcbs s)" using si by (simp add: tinv_def)
  then show ?thesis
    using k by (simp add: kinv_def sched_inv_def crit_ok_def threads_ok_def thread_ok_def
        timers_ok_cong [of ?s s])
qed

lemma kinv_unqueue:
  assumes k: "kinv s" and t: "t \<in> set (tlists s (Susp q))"
  shows "kinv (upd_tlists (st_remove t) s)"
proof -
  have "removeAll t (tlists s h) = tlists s h" if "h \<noteq> Susp q" for h
    using store_okD(2) [OF kinv_store [OF k] t] that by (metis removeAll_id)
  then have "st_remove t (tlists s) = (tlists s)(Susp q := removeAll t (tlists s (Susp q)))" by auto
  then show ?thesis
    using kinv_requeue [OF k, of "removeAll t (tlists s (Susp q))" q] store_okD(1) [OF kinv_store [OF k]]
    by (auto simp: distinct_removeAll)
qed

definition repriced :: "kst \<Rightarrow> kst \<Rightarrow> bool" where
  \<comment> \<open>only priorities, with the order of the ready table and of the mutex queues, differ\<close>
  "repriced s s' \<longleftrightarrow> same_mtx s s' \<and>
     (\<forall>m. mtx_hold (mutexes s' m) = mtx_hold (mutexes s m) \<and>
          mtx_ceiling_priority (mutexes s' m) = mtx_ceiling_priority (mutexes s m)) \<and>
     (\<forall>q. (\<forall>m. q \<noteq> MutexQ m) \<longrightarrow> tlists s' (Susp q) = tlists s (Susp q)) \<and>
     (\<forall>u. t_error (tcbs s' u) = t_error (tcbs s u) \<and> t_ttmr_set (tcbs s' u) = t_ttmr_set (tcbs s u) \<and>
          (stat_of (tcbs s u) = RT_THREAD_RUNNING \<longrightarrow> stat_of (tcbs s' u) = RT_THREAD_RUNNING) \<and>
          (stat_of (tcbs s u) = RT_THREAD_READY \<longrightarrow> stat_of (tcbs s' u) = RT_THREAD_READY)) \<and>
     objs s' = objs s \<and> current s' = current s \<and> lock_nest s' = lock_nest s \<and> crit_flag s' = crit_flag s \<and>
     irq_nest s' = irq_nest s \<and> tick s' = tick s \<and> timers s' = timers s"

lemma repriced_refl [simp]: "repriced s s"
  by (simp add: repriced_def same_mtx_def)

lemma repriced_trans: "repriced s s' \<Longrightarrow> repriced s' s'' \<Longrightarrow> repriced s s''"
  by (simp add: repriced_def same_mtx_def)

lemma repriced_changed: "prio_changed t p s s' \<Longrightarrow> repriced s s'"
proof -
  assume c: "prio_changed t p s s'"
  have "t_error (tcbs s' u) = t_error (tcbs s u) \<and> t_ttmr_set (tcbs s' u) = t_ttmr_set (tcbs s u) \<and>
          (stat_of (tcbs s u) = RT_THREAD_RUNNING \<longrightarrow> stat_of (tcbs s' u) = RT_THREAD_RUNNING) \<and>
          (stat_of (tcbs s u) = RT_THREAD_READY \<longrightarrow> stat_of (tcbs s' u) = RT_THREAD_READY)" for u
    using c by (cases "u = t") (simp_all add: prio_changed_def)
  with same_mtx_changed [OF c] c show ?thesis unfolding repriced_def by (simp add: prio_changed_def)
qed

definition requeued :: "nat \<Rightarrow> nat \<Rightarrow> kst \<Rightarrow> kst" where
  \<comment> \<open>waiter \<open>t\<close> enters the queue of \<open>m\<close> anew, and \<open>m\<close> learns the priority of its first waiter\<close>
  "requeued m t s = mutex_update_priority m
     (s\<lparr>tlists := (tlists s)(mutex_q m := susp_insert RT_IPC_FLAG_PRIO t (tcbs s) (removeAll t (mq s m)))\<rparr>)"

lemma requeue_run:
  assumes k: "kinv s" and t: "t \<in> set (mq s m)" and f: "ipc_flag (OMutex m) s = RT_IPC_FLAG_PRIO"
  shows "rt_susp_list_enqueue (MutexQ m) t (ipc_flag (OMutex m) (upd_tlists (st_remove t) s)) (upd_tlists (st_remove t) s)
    = Some (s\<lparr>tlists := (tlists s)(mutex_q m := susp_insert RT_IPC_FLAG_PRIO t (tcbs s) (removeAll t (mq s m)))\<rparr>)"
proof -
  have "removeAll t (tlists s h) = tlists s h" if "h \<noteq> mutex_q m" for h
    using store_okD(2) [OF kinv_store [OF k] t] that by (metis removeAll_id)
  then have "(st_remove t (tlists s))(mutex_q m := X) = (tlists s)(mutex_q m := X)" for X by auto
  moreover have "ipc_flag (OMutex m) (upd_tlists (st_remove t) s) = RT_IPC_FLAG_PRIO" using f by (simp add: ipc_flag_def)
  ultimately show ?thesis by (simp add: enqueue_run ipc_flag_ok_def)
qed

lemma requeued_fields [simp]:
  "tcbs (requeued m t s) = tcbs s" "takens (requeued m t s) = takens s"
  "mutexes (requeued m t s) = (mutexes s)(m := (mutexes s m)\<lparr>mtx_priority :=
     cp s (hd (mq (requeued m t s) m))\<rparr>)"
  "tlists (requeued m t s) = (tlists s)(mutex_q m := susp_insert RT_IPC_FLAG_PRIO t (tcbs s) (removeAll t (mq s m)))"
  by (auto simp: requeued_def mutex_update_priority_def first_prio_def susp_insert_def RT_IPC_FLAG_PRIO_def
      RT_IPC_FLAG_FIFO_def rt_sched_thread_get_curr_prio_def split: list.split)

lemma kinv_requeued:
  assumes k: "kinv s" and t: "t \<in> set (mq s m)"
  shows "kinv (requeued m t s)"
proof -
  have "kinv (s\<lparr>tlists := (tlists s)(mutex_q m := susp_insert RT_IPC_FLAG_PRIO t (tcbs s) (removeAll t (mq s m)))\<rparr>)"
    by (rule kinv_requeue [OF k]) (use t store_okD(1) [OF kinv_store [OF k]] in \<open>auto simp: distinct_removeAll\<close>)
  then show ?thesis by (simp add: requeued_def mutex_update_priority_def)
qed

lemma repriced_requeued: "t \<in> set (mq s m) \<Longrightarrow> repriced s (requeued m t s)"
  by (auto simp: repriced_def same_mtx_def) (simp_all add: requeued_def mutex_update_priority_def)

lemma sorted_hd: "sorted (map f xs) \<Longrightarrow> x \<in> set xs \<Longrightarrow> f (hd xs) \<le> f x"
  by (cases xs) auto

lemma inherit_requeued:
  assumes i: "inherit_but {t} {} s" and t: "t \<in> set (mq s m)" and ow: "owners_ok s"
    and w: "mtx_owner (mutexes s m) = Some w" and k: "kinv s"
  shows "inherit_but {} {w} (requeued m t s)"
proof -
  let ?s = "requeued m t s"
  have nt: "t \<notin> set (mq s m')" if "m' \<noteq> m" for m'
    using store_okD(2) [OF kinv_store [OF k] t] that by (metis suspq.inject(2) thead.inject(2))
  have "filter (\<lambda>u. u \<noteq> t) (mq s m') = removeAll t (mq s m')" for m'
    by (induction "mq s m'") (auto simp: removeAll_filter_not_eq intro!: filter_cong)
  then have so: "sorted (map (cp s) (removeAll t (mq s m')))" for m'
    using i by (simp add: inherit_but_def)
  have m: "sorted (map (cp s) (mq ?s m))"
    using sorted_ins_before [OF so, of t m] by (simp add: susp_insert_def RT_IPC_FLAG_PRIO_def RT_IPC_FLAG_FIFO_def)
  have "sorted (map (cp ?s) (mq ?s m'))" for m'
    using m so [of m'] nt [of m'] by (cases "m' = m") simp_all
  moreover have "mtx_priority (mutexes ?s m') \<le> cp ?s u" if "u \<in> set (mq ?s m')" for u m'
  proof (cases "m' = m")
    case True
    with that sorted_hd [OF m, of u] show ?thesis by simp
  next
    case False
    with that nt [of m'] have "u \<in> set (mq s m')" "u \<noteq> t" by auto
    with i False show ?thesis by (simp add: inherit_but_def)
  qed
  moreover have "cp ?s v \<le> mtx_priority (mutexes ?s m')" if "mtx_owner (mutexes ?s m') = Some v" "v \<noteq> w" for v m'
  proof -
    have "m' \<noteq> m" using that w by auto
    with i that show ?thesis by (simp add: inherit_but_def)
  qed
  ultimately show ?thesis by (simp add: inherit_but_def)
qed

subsection \<open>The loop\<close>

lemma loop_stop:
  assumes "mtx_ok s" and "inherit_but {t} {} s"
    and "\<not> (susp_stat (tcbs s t) \<and> (\<exists>m. t_pending_object (tcbs s t) = Some (OMutex m)))"
  shows "update_priority_loop RT_EOK t s = Some s" and "minv s"
proof -
  show "update_priority_loop RT_EOK t s = Some s"
    using assms(3) by (subst update_priority_loop.simps)
      (auto simp: rt_sched_thread_is_suspended_def split: option.split oref.split)
  show "minv s" using inherit_not_waiting [of s t "{}"] assms by (auto simp: minv_def mtx_ok_def)
qed

lemma loop_step:
  assumes ok: "mtx_ok s" and i: "inherit_but {t} {} s"
    and su: "susp_stat (tcbs s t)" and pe: "t_pending_object (tcbs s t) = Some (OMutex m)"
  shows "\<exists>w. mtx_owner (mutexes s m) = Some w \<and>
    (minv (requeued m t s) \<and> update_priority_loop RT_EOK t s = Some (requeued m t s) \<or>
     (\<exists>p s'. prio_changed w p (requeued m t s) s' \<and> mtx_ok s' \<and> inherit_but {w} {} s' \<and>
        update_priority_loop RT_EOK t s = update_priority_loop RT_EOK w s'))"
proof -
  have k: "kinv s" and ow: "owners_ok s" and wa: "waiters_ok s" and ip: "init_prios_ok s"
    using ok by (auto simp: mtx_ok_def)
  have t: "t \<in> set (mq s m)" using wa su pe by (simp add: waiters_ok_def)
  have im: "is_mutex m s" and fl: "ipc_flag (OMutex m) s = RT_IPC_FLAG_PRIO"
    using wa t unfolding waiters_ok_def by blast+
  obtain w where w: "mtx_owner (mutexes s m) = Some w" using ow t unfolding owners_ok_def by fastforce
  let ?s = "requeued m t s"
  have ow': "mtx_owner (mutexes ?s m) = Some w" using w by simp
  have ok': "mtx_ok ?s" 
    by (rule mtx_ok_same [OF _ kinv_requeued [OF k t] ok]) (use repriced_requeued [OF t] in \<open>simp add: repriced_def\<close>)
  have i': "inherit_but {} {w} ?s" by (rule inherit_requeued [OF i t ow w k])
  let ?p = "thread_get_mutex_priority w ?s"
  have le: "?p \<le> mtx_priority (mutexes ?s m')" if "mtx_owner (mutexes ?s m') = Some w" for m'
    using get_mutex_priority_le [OF _ that] ok' by (simp add: mtx_ok_def)
  have run: "update_priority_loop RT_EOK t s =
      (if ?p \<noteq> cp ?s w then do {
         (ret, s) \<leftarrow> rt_sched_thread_change_priority w ?p ?s;
         update_priority_loop ret w s
       } else Some ?s)"
  proof -
    define S1 where "S1 = upd_tlists (st_remove t) s"
    define S2 where "S2 = s\<lparr>tlists := (tlists s)(mutex_q m := susp_insert RT_IPC_FLAG_PRIO t (tcbs s) (removeAll t (mq s m)))\<rparr>"
    define S3 where "S3 = ?s"
    have e: "rt_susp_list_enqueue (MutexQ m) t (ipc_flag (OMutex m) S1) S1 = Some S2"
      unfolding S1_def S2_def by (rule requeue_run [OF k t fl])
    have u: "mutex_update_priority m S2 = S3" by (simp only: S2_def S3_def requeued_def)
    have o: "mtx_owner (mutexes S3 m) = Some w" unfolding S3_def by (rule ow')
    show ?thesis
      unfolding update_priority_loop.simps [of RT_EOK t s] Let_def S3_def [symmetric] S1_def [symmetric]
      by (simp only: im su pe e u o rt_sched_thread_is_suspended_def rt_sched_thread_get_curr_prio_def simp_thms
          if_True option.case oref.case bind.bind_lunit)
  qed
  show ?thesis
  proof (cases "?p = cp ?s w")
    case True
    have "cp ?s v \<le> mtx_priority (mutexes ?s m')" if v: "mtx_owner (mutexes ?s m') = Some v" for v m'
    proof (cases "v = w")
      case wv: True
      have "?p \<le> mtx_priority (mutexes ?s m')" by (rule le) (use v wv in blast)
      then show ?thesis unfolding wv True [symmetric] .
    qed (use i' v in \<open>unfold inherit_but_def, blast\<close>)
    then have "inherit_but {} {} ?s" using i' unfolding inherit_but_def by blast
    then have "minv ?s" using ok' by (simp add: minv_def)
    with run True w show ?thesis by auto
  next
    case False
    have "unat ?p < 32" by (rule get_mutex_priority_bound) (use ok' in \<open>simp add: mtx_ok_def\<close>)
    then obtain s' where s': "rt_sched_thread_change_priority w ?p ?s = Some (RT_EOK, s')" "kinv s'"
        "prio_changed w ?p ?s s'"
      using change_priority_run [OF kinv_requeued [OF k t], of ?p w] by blast
    have "inherit_but {w} {} s'"
      using inherit_changed [OF s'(3) i' _ _ le, of "{}"] by simp
    moreover have "mtx_ok s'" by (rule mtx_ok_same [OF same_mtx_changed [OF s'(3)] s'(2) ok'])
    ultimately show ?thesis using run False s' w by auto
  qed
qed

lemma update_loop_run:
  assumes "Wellfounded.accp (\<lambda>v u. R u v) t" and "waits_for s = R" and "mtx_ok s" and "inherit_but {t} {} s"
  shows "\<exists>s'. update_priority_loop RT_EOK t s = Some s' \<and> minv s' \<and> repriced s s' \<and>
    (\<forall>u. cp s' u \<noteq> cp s u \<longrightarrow> R\<^sup>+\<^sup>+ t u)"
  using assms
proof (induction arbitrary: s rule: accp_induct [consumes 1])
  case (1 t)
  note IH = 1(2) [rule_format] and R = 1(3) and ok = 1(4) and i = 1(5)
  show ?case
  proof (cases "susp_stat (tcbs s t) \<and> (\<exists>m. t_pending_object (tcbs s t) = Some (OMutex m))")
    case False
    with loop_stop [OF ok i] show ?thesis by auto
  next
    case True
    then obtain m where su: "susp_stat (tcbs s t)" and pe: "t_pending_object (tcbs s t) = Some (OMutex m)" by blast
    have t: "t \<in> set (mq s m)" using ok su pe by (simp add: mtx_ok_def waiters_ok_def)
    from loop_step [OF ok i su pe] obtain w where w: "mtx_owner (mutexes s m) = Some w" and
      st: "minv (requeued m t s) \<and> update_priority_loop RT_EOK t s = Some (requeued m t s) \<or>
       (\<exists>p s'. prio_changed w p (requeued m t s) s' \<and> mtx_ok s' \<and> inherit_but {w} {} s' \<and>
        update_priority_loop RT_EOK t s = update_priority_loop RT_EOK w s')" by blast
    have Rw: "R t w" using R waits_for.wait [OF su pe w] by simp
    from st show ?thesis
    proof
      assume "minv (requeued m t s) \<and> update_priority_loop RT_EOK t s = Some (requeued m t s)"
      with repriced_requeued [OF t] show ?thesis by auto
    next
      assume "\<exists>p s'. prio_changed w p (requeued m t s) s' \<and> mtx_ok s' \<and> inherit_but {w} {} s' \<and>
        update_priority_loop RT_EOK t s = update_priority_loop RT_EOK w s'"
      then obtain p s1 where s1: "prio_changed w p (requeued m t s) s1" "mtx_ok s1" "inherit_but {w} {} s1"
        and run: "update_priority_loop RT_EOK t s = update_priority_loop RT_EOK w s1" by blast
      have rp: "repriced s s1" using repriced_trans [OF repriced_requeued [OF t] repriced_changed [OF s1(1)]] .
      then have "waits_for s1 = R" using waits_for_same [of s s1] R by (simp add: repriced_def)
      from IH [OF Rw this s1(2,3)] obtain s' where s': "update_priority_loop RT_EOK w s1 = Some s'" "minv s'"
        "repriced s1 s'" "\<And>u. cp s' u \<noteq> cp s1 u \<Longrightarrow> R\<^sup>+\<^sup>+ w u" by blast
      have "R\<^sup>+\<^sup>+ t u" if "cp s' u \<noteq> cp s u" for u
      proof (cases "u = w")
        case False
        then have "cp s1 u = cp s u" using cp_changed [OF s1(1), of u] by simp
        with that s'(4) have "R\<^sup>+\<^sup>+ w u" by metis
        with Rw show ?thesis by (rule tranclp_into_tranclp2)
      qed (use Rw in blast)
      with run s' repriced_trans [OF rp s'(3)] show ?thesis by auto
    qed
  qed
qed

lemma thread_update_priority_run:
  assumes ok: "mtx_ok s" and i: "inherit_but {} {t} s" and p: "unat p < 32" and dl: "no_deadlock t s"
    and le: "\<And>m. mtx_owner (mutexes s m) = Some t \<Longrightarrow> p \<le> mtx_priority (mutexes s m)"
  shows "\<exists>s'. thread_update_priority t p s = Some s' \<and> minv s' \<and> repriced s s' \<and> cp s' t = p \<and>
    (\<forall>u. u \<noteq> t \<longrightarrow> cp s' u \<noteq> cp s u \<longrightarrow> (waits_for s)\<^sup>+\<^sup>+ t u)"
proof -
  obtain s1 where s1: "rt_sched_thread_change_priority t p s = Some (RT_EOK, s1)" "kinv s1" "prio_changed t p s s1"
    using change_priority_run [of s p t] ok p by (auto simp: mtx_ok_def)
  have same: "waits_for s1 = waits_for s" by (rule waits_for_same [OF same_mtx_changed [OF s1(3)]])
  have "inherit_but {t} {} s1" using inherit_changed [OF s1(3) i _ _ le, of "{}"] by simp
  moreover have "mtx_ok s1" by (rule mtx_ok_same [OF same_mtx_changed [OF s1(3)] s1(2) ok])
  ultimately obtain s' where s': "update_priority_loop RT_EOK t s1 = Some s'" "minv s'" "repriced s1 s'"
      "\<And>u. cp s' u \<noteq> cp s1 u \<Longrightarrow> (waits_for s)\<^sup>+\<^sup>+ t u"
    using update_loop_run [OF dl [unfolded no_deadlock_def] same] by blast
  have "cp s' t = p" using s'(4) [of t] acc_no_loop [OF dl [unfolded no_deadlock_def]] cp_changed [OF s1(3)] by metis
  moreover have "(waits_for s)\<^sup>+\<^sup>+ t u" if "u \<noteq> t" "cp s' u \<noteq> cp s u" for u
    using s'(4) [of u] that cp_changed [OF s1(3), of u] by simp
  ultimately show ?thesis
    using s1(1) s' repriced_trans [OF repriced_changed [OF s1(3)] s'(3)] by (auto simp: thread_update_priority_def)
qed

lemma refresh_owner_run:
  assumes ok: "mtx_ok s" and i: "inherit_but {} {} s" and dl: "no_deadlock w s"
  shows "\<exists>s'. refresh_owner w s = Some s' \<and> minv s' \<and> repriced s s' \<and> cp s' w = thread_get_mutex_priority w s"
proof (cases "thread_get_mutex_priority w s = cp s w")
  case True
  then show ?thesis using ok i by (auto simp: refresh_owner_def minv_def rt_sched_thread_get_curr_prio_def)
next
  case False
  have "unat (thread_get_mutex_priority w s) < 32" by (rule get_mutex_priority_bound) (use ok in \<open>simp add: mtx_ok_def\<close>)
  moreover have "inherit_but {} {w} s" using i by (simp add: inherit_but_def)
  ultimately show ?thesis
    using False thread_update_priority_run [OF ok _ _ dl, of "thread_get_mutex_priority w s"]
      get_mutex_priority_le [of s _ w] ok
    by (auto simp: refresh_owner_def rt_sched_thread_get_curr_prio_def mtx_ok_def)
qed

end
