(* ===== verification/MutexDemo.thy ===== *)
theory MutexDemo
  imports MutexInherit
begin

text \<open>
  Sample machines in states that satisfy the mutex invariant: a mutex without waiters, and a
  contended one whose owner has inherited the priority of its first waiter.
\<close>

definition demo_mutexes :: "nat option \<Rightarrow> u8 \<Rightarrow> nat \<Rightarrow> rt_mutex" where
  \<comment> \<open>mutex 7 has the given owner and the given cached priority\<close>
  "demo_mutexes ow p = (\<lambda>_. \<lparr>mtx_ceiling_priority = 0xff, mtx_priority = 0xff, mtx_hold = 0, mtx_owner = None\<rparr>)
     (7 := \<lparr>mtx_ceiling_priority = 0xff, mtx_priority = p, mtx_hold = 1, mtx_owner = ow\<rparr>)"

definition demo_mx :: "nat option \<Rightarrow> kst" where
  \<comment> \<open>nobody waits for mutex 7\<close>
  "demo_mx ow = (demo_wait (SemQ 9))\<lparr>mutexes := demo_mutexes ow 0xff, takens := (\<lambda>t. if ow = Some t then [7] else [])\<rparr>"

definition demo_contended :: kst where
  \<comment> \<open>threads 3 and 2 wait for mutex 7; its owner, thread 1, has inherited the priority 5\<close>
  "demo_contended = (demo_wait (MutexQ 7))\<lparr>
     tcbs := (tcbs (demo_wait (MutexQ 7)))
       (1 := (demo_tcb RT_THREAD_RUNNING 10)\<lparr>t_current_priority := 5, t_number_mask := push_bit 5 1\<rparr>,
        2 := (tcbs (demo_wait (MutexQ 7)) 2)\<lparr>t_pending_object := Some (OMutex 7)\<rparr>,
        3 := (tcbs (demo_wait (MutexQ 7)) 3)\<lparr>t_pending_object := Some (OMutex 7)\<rparr>),
     mutexes := demo_mutexes (Some 1) 5, takens := (\<lambda>t. if t = 1 then [7] else [])\<rparr>"

lemma demo_pending: "t_pending_object (tcbs (demo_wait q) t) = None"
  by (auto simp: demo_wait_def demo_tcb_def blank_tcb_def)

lemma demo_prio: "unat (t_init_priority (tcbs (demo_wait q) t)) < 32"
  by (auto simp: demo_wait_def demo_tcb_def blank_tcb_def)

lemma minv_demo_mx: "minv (demo_mx ow)"
proof -
  have "owners_ok (demo_mx ow)"
    by (auto simp: owners_ok_def demo_mx_def demo_mutexes_def store_ok_def split: if_splits)
  moreover have "waiters_ok (demo_mx ow)" by (simp add: waiters_ok_def demo_mx_def demo_pending)
  moreover have "init_prios_ok (demo_mx ow)" by (simp add: init_prios_ok_def demo_mx_def demo_prio)
  moreover have "inherit_but {} {} (demo_mx ow)" by (auto simp: inherit_but_def demo_mx_def demo_mutexes_def)
  ultimately show ?thesis using kinv_demo by (simp add: minv_def mtx_ok_def demo_mx_def)
qed

lemma demo_mx_runs: "runs 1 (demo_mx ow)"
  using demo_wait_running by (simp add: runs_def demo_mx_def)

lemma demo_mx_mutex: "mutex_ok 7 (demo_mx ow)"
  by (simp add: mutex_ok_def demo_mx_def ipc_flag_def demo_objs_def)

lemma minv_demo_contended: "minv demo_contended"
proof -
  let ?s = "demo_wait (MutexQ 7)"
  have "kinv (upd_tcb 1 (\<lambda>b. b\<lparr>t_current_priority := 5, t_number_mask := push_bit 5 1\<rparr>) ?s)"
  proof -
    obtain s' where s': "rt_sched_thread_change_priority 1 5 ?s = Some (RT_EOK, s')" "kinv s'"
      using change_priority_run [OF kinv_demo, of 5 1 "MutexQ 7"] by auto
    then show ?thesis
      using demo_wait_running [of "MutexQ 7"]
      by (simp add: rt_sched_thread_change_priority_def rt_sched_update_priority_def RT_THREAD_PRIORITY_MAX_def Let_def)
  qed
  then have "kinv demo_contended"
    by (rule kinv_cong [THEN iffD2, rotated -1])
      (auto simp: demo_contended_def same_sched_def demo_wait_def)
  moreover have su: "susp_stat (tcbs demo_contended u) \<longleftrightarrow> u = 2 \<or> u = 3" for u
    by (auto simp: demo_contended_def demo_wait_def demo_tcb_def blank_tcb_def susp_stat_def stat_defs)
  moreover have pe: "t_pending_object (tcbs demo_contended u) = (if u = 2 \<or> u = 3 then Some (OMutex 7) else None)" for u
    using demo_pending by (auto simp: demo_contended_def demo_tcb_def blank_tcb_def)
  moreover have q: "mq demo_contended x = (if x = 7 then [3, 2] else [])" for x
    by (simp add: demo_contended_def)
  moreover have cps: "cp demo_contended 1 = 5" "cp demo_contended 2 = 12" "cp demo_contended 3 = 5"
    by (simp_all add: demo_contended_def demo_wait_def demo_tcb_def)
  moreover have mx: "mutexes demo_contended = demo_mutexes (Some 1) 5" "takens demo_contended = (\<lambda>t. if t = 1 then [7] else [])"
    by (simp_all add: demo_contended_def)
  moreover have "owners_ok demo_contended"
    unfolding owners_ok_def q mx by (auto simp: demo_mutexes_def store_ok_def)
  moreover have "waiters_ok demo_contended"
    unfolding waiters_ok_def q su pe by (auto simp: demo_contended_def ipc_flag_def demo_objs_def)
  moreover have "init_prios_ok demo_contended"
    using demo_prio [of "MutexQ 7"] by (auto simp: init_prios_ok_def demo_contended_def demo_tcb_def)
  moreover have "inherit_but {} {} demo_contended"
    unfolding inherit_but_def q mx using cps by (auto simp: demo_mutexes_def)
  ultimately show ?thesis by (simp add: minv_def mtx_ok_def)
qed

lemma demo_contended_runs: "runs 1 demo_contended"
  by (simp add: runs_def demo_contended_def) (simp add: demo_tcb_def stat_of_def stat_defs)

lemma demo_contended_waits: "waits_for demo_contended u v \<longleftrightarrow> (u = 2 \<or> u = 3) \<and> v = 1"
  by (auto simp: waits_for_simps demo_contended_def demo_wait_def demo_tcb_def blank_tcb_def susp_stat_def stat_defs
      demo_mutexes_def)

lemma demo_contended_ends: "no_deadlock u demo_contended"
proof -
  have 1: "Wellfounded.accp (\<lambda>v u. waits_for demo_contended u v) 1" by (rule accpI) (simp add: demo_contended_waits)
  show ?thesis unfolding no_deadlock_def by (rule accpI) (use 1 in \<open>simp add: demo_contended_waits\<close>)
qed

end
