(* ===== verification/MutexOps.thy ===== *)
theory MutexOps
  imports MutexDemo
begin

text \<open>
  The operations of mutexes: each keeps the invariant \<open>minv\<close>, under which no thread waits for a less
  urgent owner; and their results on every branch.
\<close>

lemma runs_not_susp: "runs t s \<Longrightarrow> \<not> susp_stat (tcbs s t)"
  using susp_stat_disj(2) by (auto simp: runs_def)

lemma minv_same_ipc:
  assumes "same_ipc s s'" and "kinv s'" and "minv s"
  shows "minv s'"
  by (rule minv_same [OF _ assms(2) _ _ _ assms(3)]) (use assms(1) in \<open>auto simp: same_mtx_def same_ipc_def\<close>)

lemma minv_schedule: "minv s \<Longrightarrow> rt_schedule s = Some s' \<Longrightarrow> minv s'"
  using minv_same_ipc kinv_schedule rt_schedule_frame [OF kinvD(1)] minv_kinv by blast

lemma minv_nest:
  assumes "minv s" and "kinv (s\<lparr>lock_nest := n\<rparr>)"
  shows "minv (s\<lparr>lock_nest := n\<rparr>)"
  by (rule minv_same [OF _ assms(2) _ _ _ assms(1)]) (auto simp: same_mtx_def)

lemma minv_lock [simp]: "minv s \<Longrightarrow> minv (rt_spin_lock s)"
  by (rule minv_same [of s]) (auto simp: same_mtx_def)

lemma same_mtx_tcb:
  "susp_stat (f (tcbs s t)) = susp_stat (tcbs s t) \<Longrightarrow> t_pending_object (f (tcbs s t)) = t_pending_object (tcbs s t) \<Longrightarrow>
   t_init_priority (f (tcbs s t)) = t_init_priority (tcbs s t) \<Longrightarrow> same_mtx s (upd_tcb t f s)"
  by (auto simp: same_mtx_def)

lemma minv_error [simp]: "minv s \<Longrightarrow> minv (s\<lparr>tcbs := (tcbs s)(t := (tcbs s t)\<lparr>t_error := e\<rparr>)\<rparr>)"
  by (rule minv_same [OF same_mtx_tcb]) auto

lemma minv_arm:
  assumes "minv s" and "live (tcbs s t)"
  shows "minv (arm_timer t v s)"
  by (rule minv_same [OF _ kinv_arm [OF _ assms(2)] _ _ _ assms(1)]) (use assms in \<open>auto simp: same_mtx_def\<close>)

lemma minv_unlock_schedule:
  assumes m: "minv s" and l: "locked_ok s" and c: "current s \<noteq> None"
  shows "\<exists>s1 s'. rt_spin_unlock s = Some s1 \<and> rt_schedule s1 = Some s' \<and> minv s1 \<and> minv s' \<and> same_ipc s s' \<and>
    s1 = s\<lparr>lock_nest := lock_nest s - 1\<rparr>"
proof -
  note U = locked_ok_unlock [OF l]
  have m1: "minv (s\<lparr>lock_nest := lock_nest s - 1\<rparr>)" by (rule minv_nest [OF m U(2)])
  obtain s' where s': "rt_schedule (s\<lparr>lock_nest := lock_nest s - 1\<rparr>) = Some s'"
      "same_ipc (s\<lparr>lock_nest := lock_nest s - 1\<rparr>) s'"
    using rt_schedule_total [OF U(2)] c by auto
  with U(1) m1 minv_schedule [OF m1 s'(1)] show ?thesis by (auto simp: same_ipc_def)
qed

subsection \<open>Taking a mutex\<close>

lemma minv_hold [simp]:
  "minv s \<Longrightarrow> (\<And>x. mtx_owner (M x) = mtx_owner (mutexes s x) \<and> mtx_priority (M x) = mtx_priority (mutexes s x)) \<Longrightarrow>
   minv (s\<lparr>mutexes := M\<rparr>)"
  by (rule minv_same [of s]) (auto simp: same_mtx_def)

lemma minv_take_free:
  assumes m: "minv s" and o: "mtx_owner (mutexes s m) = None"
    and c: "prio_changed t p (upd_mutex m (\<lambda>x. x\<lparr>mtx_owner := Some t, mtx_priority := 0xff, mtx_hold := 1\<rparr>) s) s'"
    and p: "p \<le> cp s t" and k: "kinv s'" and su: "\<not> susp_stat (tcbs s t)"
  shows "minv (upd_takens (st_push t m) s')"
proof -
  have ok: "owners_ok s" "waiters_ok s" "init_prios_ok s" "inherit_but {} {} s" using m by (auto simp: minv_def mtx_ok_def)
  have q: "mq s m = []" using ok(1) o by (simp add: owners_ok_def)
  have un: "unlinked m (takens s)" using ok(1) o by (auto simp: owners_ok_def unlinked_def)
  have eq: "takens s' = takens s" "\<And>m'. mq s' m' = mq s m'" "objs s' = objs s"
    "mutexes s' = (mutexes s)(m := (mutexes s m)\<lparr>mtx_owner := Some t, mtx_priority := 0xff, mtx_hold := 1\<rparr>)"
    "\<And>u. susp_stat (tcbs s' u) = susp_stat (tcbs s u)" "\<And>u. t_pending_object (tcbs s' u) = t_pending_object (tcbs s u)"
    "\<And>u. t_init_priority (tcbs s' u) = t_init_priority (tcbs s u)"
    using same_mtx_changed [OF c] c by (simp_all add: same_mtx_def prio_changed_def)
  have cps: "cp s' u = (if u = t then p else cp s u)" for u using cp_changed [OF c, of u] by simp
  let ?s = "upd_takens (st_push t m) s'"
  have st: "store_ok (takens ?s)" using ok(1) un eq(1) by (auto simp: owners_ok_def upd_takens_def)
  have tk: "x \<in> set (takens ?s u) \<longleftrightarrow> mtx_owner (mutexes ?s x) = Some u" for u x
    using ok(1) o unfolding owners_ok_def upd_takens_def eq
    by (cases "u = t"; cases "x = m") (auto simp: eq)
  have "owners_ok ?s" using st tk ok(1) q by (auto simp: owners_ok_def upd_takens_def eq)
  moreover have "waiters_ok ?s"
    using ok(2) by (simp add: waiters_ok_def upd_takens_def eq rt_object_get_type_def ipc_flag_def)
  moreover have "init_prios_ok ?s" using ok(3) by (simp add: init_prios_ok_def upd_takens_def eq)
  moreover have "inherit_but {} {} ?s"
  proof -
    have nt: "t \<notin> set (mq s m')" for m' using ok(2) su unfolding waiters_ok_def by blast
    then have same: "cp s' u = cp s u" if "u \<in> set (mq s m')" for u m' using that cps [of u] by auto
    then have e: "map (cp s') (mq s m') = map (cp s) (mq s m')" for m' by simp
    have "sorted (map (cp s) (mq s m'))" for m' using ok(4) by (simp add: inherit_but_def)
    then have "sorted (map (cp s') (mq s m'))" for m' unfolding e .
    moreover have "cp s' w \<le> mtx_priority (mutexes ?s m')" if "mtx_owner (mutexes ?s m') = Some w" for w m'
    proof (cases "m' = m")
      case False
      then have "cp s w \<le> mtx_priority (mutexes s m')" using that ok(4) by (simp add: inherit_but_def upd_takens_def eq)
      moreover have "cp s' w \<le> cp s w" using p cps [of w] by simp
      ultimately show ?thesis using False by (simp add: upd_takens_def eq)
    qed (simp add: upd_takens_def eq le_255)
    ultimately show ?thesis
      using ok(4) q same by (simp add: inherit_but_def upd_takens_def eq)
  qed
  ultimately show ?thesis using k by (simp add: minv_def mtx_ok_def upd_takens_def)
qed


lemma update_priority_running:
  assumes ok: "minv s" and p: "unat p < 32" and su: "\<not> susp_stat (tcbs s t)"
  shows "\<exists>s'. thread_update_priority t p s = Some s' \<and> kinv s' \<and> prio_changed t p s s'"
proof -
  obtain s' where s': "rt_sched_thread_change_priority t p s = Some (RT_EOK, s')" "kinv s'" "prio_changed t p s s'"
    using change_priority_run [of s p t] ok p by auto
  then have "\<not> susp_stat (tcbs s' t)" using su by (simp add: prio_changed_def)
  then have "update_priority_loop RT_EOK t s' = Some s'"
    by (subst update_priority_loop.simps) (simp add: rt_sched_thread_is_suspended_def)
  with s' show ?thesis by (simp add: thread_update_priority_def)
qed

lemma prio_changed_refl: "prio_changed t (cp s t) s s"
  by (simp add: prio_changed_def)

lemma runnable_prio: "kinv s \<Longrightarrow> stat_of (tcbs s t) = RT_THREAD_RUNNING \<Longrightarrow> unat (cp s t) < 32"
  using kinv_runnable [of s t] by (simp add: live_def runnable_ok_def)

lemma mutex_take_free:
  assumes m: "minv s" and r: "runs t s" and mu: "is_mutex m s" and o: "mtx_owner (mutexes s m) = None"
  defines "c \<equiv> mtx_ceiling_priority (mutexes s m)"
  shows "\<exists>s'. mutex_take m timeout sf s = Some (Some RT_EOK, s') \<and> minv s' \<and>
    mtx_owner (mutexes s' m) = Some t \<and> mtx_hold (mutexes s' m) = 1 \<and> takens s' t = m # takens s t \<and>
    cp s' t = (if c < cp s t then c else cp s t)"
proof -
  let ?s1 = "upd_tcb t (\<lambda>b. b\<lparr>t_error := RT_EOK\<rparr>) (rt_spin_lock s)"
  let ?g = "\<lambda>x. x\<lparr>mtx_owner := Some t, mtx_priority := 0xff, mtx_hold := 1\<rparr>"
  let ?s2 = "upd_mutex m ?g ?s1"
  let ?p = "if c < cp s t then c else cp s t"
  have m1: "minv ?s1" using m by (simp add: lock_upd_tcb)
  have r': "current s = Some t" "stat_of (tcbs s t) = RT_THREAD_RUNNING" "lock_nest s = 0" "irq_nest s = 0"
    and su: "\<not> susp_stat (tcbs s t)" using r runs_not_susp [OF r] by (simp_all add: runs_def)
  have k2: "kinv ?s2" using m1 by simp
  have cb: "c < cp s t \<Longrightarrow> unat c < 32"
    using runnable_prio [OF minv_kinv [OF m] r'(2)] by (simp add: word_less_nat_alt)
  have "\<exists>s3. (if c \<noteq> 0xff \<and> c < rt_sched_thread_get_curr_prio t ?s2
               then thread_update_priority t c ?s2 else Some ?s2) = Some s3 \<and> kinv s3 \<and> prio_changed t ?p ?s2 s3"
  proof (cases "c < cp s t")
    case True
    then have "c \<noteq> 0xff" using le_255 [of "cp s t"] leD by metis
    moreover obtain s3 where s3: "rt_sched_thread_change_priority t c ?s2 = Some (RT_EOK, s3)" "kinv s3"
        "prio_changed t c ?s2 s3"
      using change_priority_run [OF k2, of c t] cb [OF True] by blast
    moreover have "update_priority_loop RT_EOK t s3 = Some s3"
      using s3(3) su by (subst update_priority_loop.simps) (simp add: rt_sched_thread_is_suspended_def prio_changed_def)
    ultimately show ?thesis
      using True by (simp add: thread_update_priority_def rt_sched_thread_get_curr_prio_def)
  next
    case False
    then show ?thesis using k2 prio_changed_refl [of t ?s2] by (simp add: rt_sched_thread_get_curr_prio_def)
  qed
  then obtain s3 where s3: "(if c \<noteq> 0xff \<and> c < rt_sched_thread_get_curr_prio t ?s2
               then thread_update_priority t c ?s2 else Some ?s2) = Some s3" "kinv s3" "prio_changed t ?p ?s2 s3"
    by blast
  let ?s4 = "upd_takens (st_push t m) s3"
  have m4: "minv ?s4"
    by (rule minv_take_free [OF m1 _ s3(3) _ s3(2)]) (use o su in auto)
  have lo: "locked_ok ?s4"
    by (rule locked_ok_update [OF locked_ok_lock [OF minv_kinv [OF m]] minv_kinv [OF m4]])
      (use s3(3) in \<open>simp_all add: prio_changed_def upd_takens_def\<close>)
  note U = locked_ok_unlock [OF lo]
  have mu': "is_mutex m s" "debug_scheduler_available True s" using mu r' by (auto simp: debug_defs)
  have "mutex_take m timeout sf s = Some (Some RT_EOK, ?s4\<lparr>lock_nest := lock_nest ?s4 - 1\<rparr>)"
  proof (cases "c \<noteq> 0xff \<and> c < cp s t")
    case True
    then have "thread_update_priority t c ?s2 = Some s3" using s3(1) by (simp add: rt_sched_thread_get_curr_prio_def)
    then show ?thesis
      using True mu' r' o U(1)
      by (simp add: mutex_take_def rt_thread_self_def c_def Let_def rt_sched_thread_get_curr_prio_def)
  next
    case False
    then have "?s2 = s3" using s3(1) by (simp add: rt_sched_thread_get_curr_prio_def split: if_splits)
    then show ?thesis
      using False mu' r' o U(1)
      by (auto simp: mutex_take_def rt_thread_self_def c_def Let_def rt_sched_thread_get_curr_prio_def)
  qed
  moreover have "minv (?s4\<lparr>lock_nest := lock_nest ?s4 - 1\<rparr>)" by (rule minv_nest [OF m4 U(2)])
  ultimately show ?thesis using s3(3) by (simp add: prio_changed_def upd_takens_def)
qed

text \<open>
  \<open>rt_mutex_take\<close>, the calls that do not block. A free mutex is taken, with hold count 1, and enters the
  caller's taken list; the caller is raised to the ceiling priority if that is more urgent. The
  owner's take counts up to 255 holds and is refused with \<open>-RT_EFULL\<close> beyond. With a zero timeout an owned mutex
  is refused with \<open>-RT_ETIMEOUT\<close>. The mutex invariant is kept on all branches.
\<close>

theorem mutex_take_immediate:
  assumes m: "minv s" and r: "runs t s" and mu: "is_mutex m s"
  shows "case mtx_owner (mutexes s m) of
      None \<Rightarrow> \<exists>s'. mutex_take m timeout sf s = Some (Some RT_EOK, s') \<and> minv s' \<and>
        mtx_owner (mutexes s' m) = Some t \<and> mtx_hold (mutexes s' m) = 1 \<and> takens s' t = m # takens s t \<and>
        cp s' t = min (mtx_ceiling_priority (mutexes s m)) (cp s t)
    | Some w \<Rightarrow>
        if w = t then
          if mtx_hold (mutexes s m) < 0xff
          then \<exists>s'. mutex_take m timeout sf s = Some (Some RT_EOK, s') \<and> minv s' \<and>
            mutexes s' = (mutexes s)(m := (mutexes s m)\<lparr>mtx_hold := mtx_hold (mutexes s m) + 1\<rparr>)
          else \<exists>s'. mutex_take m timeout sf s = Some (Some (- RT_EFULL), s') \<and> minv s' \<and> mutexes s' = mutexes s
        else \<exists>s'. mutex_take m 0 sf s = Some (Some (- RT_ETIMEOUT), s') \<and> minv s' \<and> mutexes s' = mutexes s \<and>
          tlists s' = tlists s"
proof (cases "mtx_owner (mutexes s m)")
  case None
  have "min c p = (if c < p then c else p)" for c p :: u8 by (auto simp: min_def)
  with None show ?thesis using mutex_take_free [OF m r mu None] by simp
next
  case (Some w)
  have d: "debug_scheduler_available True s" "current s = Some t" using r by (auto simp: debug_defs runs_def)
  have k: "kinv s" using m by simp
  show ?thesis
  proof (cases "w = t")
    case True
    with Some d mu k m show ?thesis
      by (auto simp: mutex_take_def rt_thread_self_def lock_upd_tcb RT_MUTEX_HOLD_MAX_def)
  next
    case False
    with Some d mu k m show ?thesis
      by (auto simp: mutex_take_def rt_thread_self_def lock_upd_tcb)
  qed
qed


lemma mutex_take_immediate_witness:
  "\<exists>s'. mutex_take 7 0 RT_KILLABLE (demo_mx None) = Some (Some RT_EOK, s') \<and> mtx_owner (mutexes s' 7) = Some 1"
  using mutex_take_immediate [OF minv_demo_mx demo_mx_runs, of 7 None 0 RT_KILLABLE] demo_mx_mutex [of None]
  by (auto simp: mutex_ok_def) (auto simp: demo_mx_def demo_mutexes_def)

subsection \<open>Waiting for a mutex\<close>

definition pended :: "nat \<Rightarrow> nat \<Rightarrow> suspend_flag \<Rightarrow> kst \<Rightarrow> kst" where
  \<comment> \<open>running thread \<open>t\<close>, suspended on the queue of mutex \<open>m\<close>\<close>
  "pended m t sf s = upd_tcb t (\<lambda>b. b\<lparr>t_pending_object := Some (OMutex m)\<rparr>)
     (thread_block t (Some (MutexQ m, RT_IPC_FLAG_PRIO)) sf s)"

lemma pended_fields [simp]:
  "tcbs (pended m t sf s) = (tcbs s)(t := ((new_stat (suspend_stat sf) (tcbs s t))\<lparr>t_ttmr_set := False\<rparr>)\<lparr>t_pending_object := Some (OMutex m)\<rparr>)"
  "current (pended m t sf s) = current s" "lock_nest (pended m t sf s) = lock_nest s"
  "crit_flag (pended m t sf s) = crit_flag s" "irq_nest (pended m t sf s) = irq_nest s"
  "takens (pended m t sf s) = takens s" "mutexes (pended m t sf s) = mutexes s"
  "tick (pended m t sf s) = tick s" "rt_object_get_type r (pended m t sf s) = rt_object_get_type r s"
  by (simp_all add: pended_def)

lemma objs_pended [simp]: "not_timer r \<Longrightarrow> objs (pended m t sf s) r = objs s r"
  by (simp add: pended_def)

lemma kinv_pended:
  assumes "kinv s" and "current s = Some t" and "stat_of (tcbs s t) = RT_THREAD_RUNNING"
  shows "kinv (pended m t sf s)"
  using kinv_block [OF assms] by (simp add: pended_def)

lemma pended_queue:
  assumes "kinv s" and "stat_of (tcbs s t) = RT_THREAD_RUNNING"
  shows "tlists (pended m t sf s) (Susp q) =
    (if q = MutexQ m then susp_insert RT_IPC_FLAG_PRIO t (tcbs s) (mq s m) else tlists s (Susp q))"
  using thread_block_queue [OF assms] by (simp add: pended_def)

lemma cp_pended: "cp (pended m t sf s) = cp s"
  by (rule ext) simp

lemma mtx_ok_pended:
  assumes ok: "mtx_ok s" and c: "current s = Some t" and r: "stat_of (tcbs s t) = RT_THREAD_RUNNING"
    and mu: "mutex_ok m s" and w: "mtx_owner (mutexes s m) = Some w"
  shows "mtx_ok (pended m t sf s)"
proof -
  have k: "kinv s" using ok by (simp add: mtx_ok_def)
  note Q = pended_queue [OF k r, of m sf]
  have wa: "waiters_ok s" using ok by (simp add: mtx_ok_def)
  have nt: "t \<notin> set (mq s m')" for m'
    using not_queued(1) [OF kinvD(1) [OF k], of t] r by simp
  have "owners_ok (pended m t sf s)" using ok Q w by (simp add: mtx_ok_def owners_ok_def)
  moreover have "waiters_ok (pended m t sf s)"
    using wa mu nt by (auto simp: waiters_ok_def Q mutex_ok_def ipc_flag_def)
  moreover have "init_prios_ok (pended m t sf s)" using ok by (simp add: mtx_ok_def init_prios_ok_def)
  ultimately show ?thesis using kinv_pended [OF k c r] by (simp add: mtx_ok_def)
qed

lemma inherit_pended:
  fixes sf :: suspend_flag
  assumes m: "minv s" and r: "stat_of (tcbs s t) = RT_THREAD_RUNNING" and w: "mtx_owner (mutexes s m) = Some w"
  defines "p \<equiv> min (cp s t) (mtx_priority (mutexes s m))"
  defines "s' \<equiv> upd_mutex m (\<lambda>x. x\<lparr>mtx_priority := p\<rparr>) (pended m t sf s)"
  shows "inherit_but {} {w} s'" and "p = mtx_priority (mutexes s m) \<or> cp s w \<le> p \<Longrightarrow> inherit_but {} {} s'"
proof -
  have k: "kinv s" and i: "inherit_but {} {} s" using m by (simp_all add: minv_def mtx_ok_def)
  note Q = pended_queue [OF k r, of m sf]
  have q: "mq s' m' = (if m' = m then susp_insert RT_IPC_FLAG_PRIO t (tcbs s) (mq s m) else mq s m')" for m'
    using Q [of "MutexQ m'"] by (simp add: s'_def)
  have e: "cp s' = cp s" "mutexes s' = (mutexes s)(m := (mutexes s m)\<lparr>mtx_priority := p\<rparr>)"
    using cp_pended [of m t sf s] by (simp_all add: s'_def)
  have e1: "cp s' u = cp s u" for u using fun_cong [OF e(1)] .
  have so: "sorted (map (cp s) (mq s m'))" for m' using i by (simp add: inherit_but_def)
  then have A: "sorted (map (cp s) (mq s' m'))" for m'
    using sorted_ins_before [OF so [of m], of t]
    by (simp add: q susp_insert_def RT_IPC_FLAG_PRIO_def RT_IPC_FLAG_FIFO_def)
  have B: "mtx_priority (mutexes s' m') \<le> cp s u" if "u \<in> set (mq s' m')" for u m'
    using i that unfolding q e p_def inherit_but_def by (auto split: if_splits simp: min_le_iff_disj)
  have C: "cp s v \<le> mtx_priority (mutexes s' m')" if "mtx_owner (mutexes s' m') = Some v" "m' \<noteq> m" for v m'
    using i that unfolding e inherit_but_def by auto
  have D: "mtx_owner (mutexes s' m) = Some w" "mtx_priority (mutexes s' m) = p" using w by (simp_all add: e)
  have E: "cp s w \<le> mtx_priority (mutexes s m)" using i w by (simp add: inherit_but_def)
  have F: "cp s v \<le> mtx_priority (mutexes s' m')" if "mtx_owner (mutexes s' m') = Some v" "v \<noteq> w" for v m'
    by (rule C [OF that(1)]) (use that D(1) in auto)
  show "inherit_but {} {w} s'" using A B F by (simp add: inherit_but_def e(1) e1)
  assume p: "p = mtx_priority (mutexes s m) \<or> cp s w \<le> p"
  have "cp s v \<le> mtx_priority (mutexes s' m')" if v: "mtx_owner (mutexes s' m') = Some v" for v m'
  proof (cases "m' = m")
    case True
    with D v have "v = w" "mtx_priority (mutexes s' m') = p" by auto
    with p E show ?thesis by auto
  qed (rule C [OF v])
  with A B show "inherit_but {} {} s'" by (simp add: inherit_but_def e(1) e1)
qed

lemma acc_new_edges:
  assumes "Wellfounded.accp (\<lambda>v u. R u v) w" and new: "\<And>x y. R' x y \<Longrightarrow> R x y \<or> x = t" and t: "\<not> R\<^sup>*\<^sup>* w t"
  shows "Wellfounded.accp (\<lambda>v u. R' u v) w"
  using assms(1) t
proof (induction rule: accp_induct [consumes 1])
  case (1 w)
  show ?case
  proof (rule accpI)
    fix v
    assume "R' w v"
    with new 1(3) have "R w v" by blast
    moreover from this have "\<not> R\<^sup>*\<^sup>* v t" using 1(3) converse_rtranclp_into_rtranclp [of R w v t] by blast
    ultimately show "Wellfounded.accp (\<lambda>v u. R' u v) v" using 1(2) by blast
  qed
qed

lemma reach_new_edges:
  assumes new: "\<And>x y. R' x y \<Longrightarrow> R x y \<or> x = t" and r: "R'\<^sup>*\<^sup>* w u" and t: "\<not> R\<^sup>*\<^sup>* w t"
  shows "R\<^sup>*\<^sup>* w u"
  using r
proof induction
  case (step y z)
  then have "y \<noteq> t" using t by blast
  with step new have "R y z" by blast
  with step show ?case by simp
qed simp


definition waits_apart :: "nat \<Rightarrow> nat \<Rightarrow> kst \<Rightarrow> bool" where
  \<comment> \<open>the chain of owners from \<open>w\<close> ends, and not in \<open>t\<close>\<close>
  "waits_apart w t s \<longleftrightarrow> no_deadlock w s \<and> \<not> (waits_for s)\<^sup>*\<^sup>* w t"

lemma inherit_step_run:
  fixes sf :: suspend_flag
  assumes m: "minv s" and c: "current s = Some t" and r: "stat_of (tcbs s t) = RT_THREAD_RUNNING"
    and mu: "mutex_ok m s" and w: "mtx_owner (mutexes s m) = Some w" and dl: "waits_apart w t s"
  defines "s1 \<equiv> pended m t sf s"
  shows "\<exists>s'. inherit_step m t w s1 = Some s' \<and> minv s' \<and> repriced s1 s' \<and> cp s' t = cp s t \<and> cp s' w \<le> cp s t"
proof -
  let ?p = "cp s t" and ?old = "mtx_priority (mutexes s m)"
  let ?s2 = "upd_mutex m (\<lambda>x. x\<lparr>mtx_priority := min ?p ?old\<rparr>) s1"
  have ok: "mtx_ok s" using m by (simp add: minv_def)
  have ok1: "mtx_ok s1" unfolding s1_def by (rule mtx_ok_pended [OF ok c r mu w])
  have rp: "repriced s1 ?s2" by (auto simp: repriced_def same_mtx_def)
  have ok2: "mtx_ok ?s2" by (rule mtx_ok_same [OF _ _ ok1]) (use rp ok1 in \<open>auto simp: repriced_def mtx_ok_def\<close>)
  note I = inherit_pended [OF m r w, of sf, folded s1_def]
  have cps: "cp s1 u = cp s u" for u using fun_cong [OF cp_pended [of m t sf s], of u] by (simp add: s1_def)
  have o2: "mtx_owner (mutexes ?s2 m) = Some w" using w by (simp add: s1_def)
  have t2: "t \<in> set (mq ?s2 m)" using pended_queue [OF minv_kinv [OF m] r, of m sf "MutexQ m"] by (simp add: s1_def)
  have pr: "mtx_priority (mutexes s1 m) = ?old" by (simp add: s1_def)
  have mn: "min ?p ?old = (if ?p < ?old then ?p else ?old)" by (simp add: min_absorb1 min_absorb2 less_imp_le leI)
  show ?thesis
  proof (cases "?p < ?old \<and> ?p < cp s w")
    case False
    have "min ?p ?old = ?old \<or> cp s w \<le> min ?p ?old" using False by (auto simp: mn not_less)
    from I(2) [OF this] ok2 have "minv ?s2" unfolding minv_def by blast
    moreover have "inherit_step m t w s1 = Some ?s2"
    proof (cases "?p < ?old")
      case lt: True
      then have "\<not> ?p < cp s w" using False by blast
      then show ?thesis
        using lt mn by (simp add: inherit_step_def rt_sched_thread_get_curr_prio_def cps pr Let_def)
    next
      case ge: False
      have "(mutexes s1)(m := (mutexes s1 m)\<lparr>mtx_priority := ?old\<rparr>) = mutexes s1" unfolding pr [symmetric] by simp
      then have "?s2 = s1" using ge unfolding mn by simp
      then show ?thesis
        using ge by (simp add: inherit_step_def rt_sched_thread_get_curr_prio_def cps pr Let_def)
    qed
    moreover have "cp ?s2 w \<le> cp ?s2 t" using minv_no_inversion [OF calculation(1) o2 t2] .
    ultimately show ?thesis using rp cps by auto
  next
    case True
    have su: "\<not> susp_stat (tcbs s t)" using susp_stat_disj(2) r by blast
    then have wt: "w \<noteq> t" using dl by (auto simp: waits_apart_def)
    have edges: "waits_for s x y \<or> x = t" if "waits_for ?s2 x y" for x y
      using that unfolding waits_for_simps by (auto simp: s1_def split: if_splits)
    note far = dl [unfolded waits_apart_def no_deadlock_def, THEN conjunct2]
    have nd: "no_deadlock w ?s2"
      unfolding no_deadlock_def
      by (rule acc_new_edges [OF _ edges far]) (use dl in \<open>simp add: waits_apart_def no_deadlock_def\<close>)
    have le: "?p \<le> mtx_priority (mutexes ?s2 m')" if "mtx_owner (mutexes ?s2 m') = Some w" for m'
    proof (cases "m' = m")
      case False
      with that have "cp s w \<le> mtx_priority (mutexes ?s2 m')" using m by (simp add: s1_def minv_def inherit_but_def)
      with True show ?thesis by auto
    qed (use True in \<open>simp add: mn\<close>)
    obtain s' where s': "thread_update_priority w ?p ?s2 = Some s'" "minv s'" "repriced ?s2 s'" "cp s' w = ?p"
      "\<And>u. u \<noteq> w \<Longrightarrow> cp s' u \<noteq> cp ?s2 u \<Longrightarrow> (waits_for ?s2)\<^sup>+\<^sup>+ w u"
      using thread_update_priority_run [OF ok2 I(1) runnable_prio [OF minv_kinv [OF m] r] nd le] by blast
    have "\<not> (waits_for ?s2)\<^sup>+\<^sup>+ w t"
      using reach_new_edges [OF edges tranclp_into_rtranclp far] far by blast
    then have "cp s' t = cp ?s2 t" using s'(5) wt by metis
    moreover have "inherit_step m t w s1 = Some s'"
      using True s'(1) by (simp add: inherit_step_def rt_sched_thread_get_curr_prio_def cps mn pr Let_def)
    ultimately show ?thesis using s'(2,4) repriced_trans [OF rp s'(3)] cps by auto
  qed
qed


lemma mutex_take_as_step:
  assumes r: "runs t s" and mu: "mutex_ok m s" and w: "mtx_owner (mutexes s m) = Some w" and wt: "w \<noteq> t"
    and nz: "timeout \<noteq> 0" and k: "kinv s"
  defines "s1 \<equiv> rt_spin_lock (upd_tcb t (\<lambda>b. b\<lparr>t_error := RT_EOK\<rparr>) s)"
  shows "mutex_take m timeout sf s = do {
      s \<leftarrow> inherit_step m t w (pended m t sf s1);
      s \<leftarrow> (if timeout > 0 then start_wait_timer t (word_of_int timeout) s else Some s);
      s \<leftarrow> rt_spin_unlock s;
      s \<leftarrow> rt_schedule s;
      Some (None, s) }"
proof -
  have r': "current s = Some t" "debug_scheduler_available True s" "stat_of (tcbs s t) = RT_THREAD_RUNNING"
    using r by (auto simp: runs_def debug_defs)
  have k1: "kinv s1" using k by (simp add: s1_def)
  have 1: "current s1 = Some t" "stat_of (tcbs s1 t) = RT_THREAD_RUNNING" using r' by (simp_all add: s1_def)
  have fl: "ipc_flag_ok RT_IPC_FLAG_PRIO" by (simp add: ipc_flag_ok_def)
  have sus: "rt_thread_suspend_to_list t (Some (MutexQ m)) (ipc_flag (OMutex m) s) sf s1 =
      Some (RT_EOK, thread_block t (Some (MutexQ m, RT_IPC_FLAG_PRIO)) sf s1)"
    using suspend_run [OF k1 1, of "Some (MutexQ m, RT_IPC_FLAG_PRIO)" RT_IPC_FLAG_PRIO sf] fl mu
    by (simp add: mutex_ok_def)
  define B where "B = thread_block t (Some (MutexQ m, RT_IPC_FLAG_PRIO)) sf s1"
  have o: "mtx_owner (mutexes s m) = Some w" "mtx_owner (mutexes s m) \<noteq> Some t" "is_mutex m s"
    using w wt mu by (auto simp: mutex_ok_def)
  have fl': "ipc_flag (OMutex m) s1 = ipc_flag (OMutex m) s" by (simp add: s1_def ipc_flag_def)
  have m1: "mutexes s1 = mutexes s" by (simp add: s1_def)
  show ?thesis
    unfolding mutex_take_def lock_upd_tcb spin_lock_fields s1_def [symmetric] pended_def B_def [symmetric]
    by (simp add: r' o(3) rt_thread_self_def Let_def)
      (simp add: lock_upd_tcb s1_def [symmetric] m1 o wt nz fl' sus B_def [symmetric] del: thread_block_fields)
qed


text \<open>
  C3. A take of a mutex that another thread owns, with a non-zero timeout, suspends the caller on the mutex
  and passes its priority on along the chain of owners: afterwards the owner is at least as urgent
  as the caller (no priority inversion, for this and every mutex by the invariant), and the timer of the wait is active if the timeout is
  positive. The chain of owners must end, and not in the caller: a deadlock is excluded.
\<close>

theorem mutex_take_blocks:
  assumes m: "minv s" and r: "runs t s" and mu: "mutex_ok m s" and w: "mtx_owner (mutexes s m) = Some w"
    and wt: "w \<noteq> t" and dl: "waits_apart w t s" and nz: "timeout \<noteq> 0"
    and to: "timeout > 0 \<Longrightarrow> word_of_int timeout < HALF_TICKS"
  shows "\<exists>s'. mutex_take m timeout sf s = Some (None, s') \<and> minv s' \<and>
    susp_stat (tcbs s' t) \<and> t \<in> set (mq s' m) \<and> t_pending_object (tcbs s' t) = Some (OMutex m) \<and>
    mtx_owner (mutexes s' m) = Some w \<and> cp s' t = cp s t \<and> cp s' w \<le> cp s t \<and>
    (timeout > 0 \<longrightarrow> t_ttmr_set (tcbs s' t) \<and> tm_timeout_tick (timers s' (ThreadTimer t)) = tick s + word_of_int timeout)"
proof -
  let ?s1 = "rt_spin_lock (upd_tcb t (\<lambda>b. b\<lparr>t_error := RT_EOK\<rparr>) s)"
  have m1: "minv ?s1" using m by simp
  have r1: "current ?s1 = Some t" "stat_of (tcbs ?s1 t) = RT_THREAD_RUNNING" using r by (simp_all add: runs_def)
  have same: "waits_for ?s1 = waits_for s" by (rule waits_for_same) (auto simp: same_mtx_def)
  have w1: "mtx_owner (mutexes ?s1 m) = Some w" "mutex_ok m ?s1" "waits_apart w t ?s1"
    using w mu dl by (simp_all add: mutex_ok_def ipc_flag_def waits_apart_def no_deadlock_def same)
  let ?P = "pended m t sf ?s1"
  obtain s2 where s2: "inherit_step m t w ?P = Some s2" "minv s2" "repriced ?P s2" "cp s2 t = cp ?s1 t" "cp s2 w \<le> cp ?s1 t"
    using inherit_step_run [OF m1 r1 w1(2,1,3), of sf] by blast
  have f2: "susp_stat (tcbs s2 t)" "t_pending_object (tcbs s2 t) = Some (OMutex m)" "mtx_owner (mutexes s2 m) = Some w"
    "lock_nest s2 = lock_nest s + 1" "crit_flag s2 = crit_flag s" "current s2 = Some t" "tick s2 = tick s"
    using s2(3) w1(1) r1(1) by (auto simp: repriced_def same_mtx_def susp_stat_stat_of and.assoc)
  let ?s3 = "if timeout > 0 then arm_timer t (word_of_int timeout) s2 else s2"
  have st: "(if timeout > 0 then start_wait_timer t (word_of_int timeout) s2 else Some s2) = Some ?s3"
    using start_wait_timer_run [OF kinvD(2) [OF minv_kinv [OF s2(2)]] kinv_live [OF minv_kinv [OF s2(2)]], of t] f2(1) to by simp
  have m3: "minv ?s3" using minv_arm [OF s2(2)] f2(1) s2(2) by simp
  have lo: "locked_ok ?s3"
    by (rule locked_ok_update [OF locked_ok_lock [OF minv_kinv [OF m]] minv_kinv [OF m3]]) (use f2 in auto)
  obtain s4 s' where s': "rt_spin_unlock ?s3 = Some s4" "rt_schedule s4 = Some s'" "minv s'" "same_ipc ?s3 s'"
  proof -
    have "current ?s3 \<noteq> None" using f2(6) by simp
    from minv_unlock_schedule [OF m3 lo this] that show ?thesis by blast
  qed
  have e3: "susp_stat (tcbs ?s3 t)" "t_pending_object (tcbs ?s3 t) = Some (OMutex m)" "cp ?s3 t = cp s t"
    "cp ?s3 w \<le> cp s t" "mtx_owner (mutexes ?s3 m) = Some w"
    using f2 s2(4,5) by auto
  have "timeout > 0 \<longrightarrow> t_ttmr_set (tcbs ?s3 t) \<and> tm_timeout_tick (timers ?s3 (ThreadTimer t)) = tick s + word_of_int timeout"
    using f2 by (simp add: arm_timer_deadline)
  moreover have "mutex_take m timeout sf s = Some (None, s')"
    using mutex_take_as_step [OF r mu w wt nz minv_kinv [OF m], of sf] s2(1) st s'(1,2) by simp
  moreover have "susp_stat (tcbs s' t)" "t_pending_object (tcbs s' t) = Some (OMutex m)" "mtx_owner (mutexes s' m) = Some w"
    "cp s' t = cp s t" "cp s' w \<le> cp s t" "t_ttmr_set (tcbs s' t) = t_ttmr_set (tcbs ?s3 t)" "timers s' = timers ?s3"
    using s'(4) e3 unfolding same_ipc_def by metis+
  moreover from this(1,2) have "t \<in> set (mq s' m)" using s'(3) by (simp add: minv_def mtx_ok_def waiters_ok_def)
  ultimately show ?thesis using s'(3) by auto
qed

lemma mutex_take_blocks_witness:
  "\<exists>s'. mutex_take 7 50 RT_KILLABLE (demo_mx (Some 4)) = Some (None, s') \<and> minv s' \<and> cp s' 4 \<le> 10 \<and>
     tm_timeout_tick (timers s' (ThreadTimer 1)) = 150"
proof -
  have su: "\<not> susp_stat (tcbs (demo_mx (Some 4)) 4)"
    by (simp add: demo_mx_def demo_wait_def demo_tcb_def susp_stat_def stat_defs)
  then have "\<not> waits_for (demo_mx (Some 4)) 4 v" for v by (simp add: waits_for_simps)
  then have "\<not> (waits_for (demo_mx (Some 4)))\<^sup>*\<^sup>* 4 1" by (metis converse_rtranclpE one_eq_numeral_iff semiring_norm(83))
  with no_deadlock_running [OF su] have "waits_apart 4 1 (demo_mx (Some 4))" by (simp add: waits_apart_def)
  moreover have "cp (demo_mx (Some 4)) 1 = 10" "tick (demo_mx (Some 4)) = 100"
    by (simp_all add: demo_mx_def demo_wait_def demo_tcb_def)
  moreover have "mtx_owner (mutexes (demo_mx (Some 4)) 7) = Some 4" by (simp add: demo_mx_def demo_mutexes_def)
  ultimately show ?thesis
    using mutex_take_blocks [OF minv_demo_mx demo_mx_runs demo_mx_mutex, of "Some 4" 4 50 RT_KILLABLE]
    by (auto simp: HALF_TICKS_val)
qed

subsection \<open>The end of a wait\<close>

lemma minv_update_priority:
  assumes m: "minv s"
  shows "minv (mutex_update_priority m s)"
proof -
  let ?s = "mutex_update_priority m s"
  have e: "tcbs ?s = tcbs s" "tlists ?s = tlists s"
    "mutexes ?s = (mutexes s)(m := (mutexes s m)\<lparr>mtx_priority := first_prio m s\<rparr>)"
    by (simp_all add: mutex_update_priority_def)
  have sm: "same_mtx s ?s" by (auto simp: same_mtx_def mutex_update_priority_def)
  have "kinv ?s" using m by (simp add: mutex_update_priority_def)
  then have ok: "mtx_ok ?s" using mtx_ok_same [OF sm] m by (simp add: minv_def)
  have i: "inherit_but {} {} s" using m by (simp add: minv_def)
  have ge: "mtx_priority (mutexes s m) \<le> first_prio m s"
    using i by (auto simp: inherit_but_def first_prio_def rt_sched_thread_get_curr_prio_def split: list.split)
  have "first_prio m s \<le> cp s u" if "u \<in> set (mq s m)" for u
    using sorted_hd [of "cp s" "mq s m" u] that i
    by (auto simp: inherit_but_def first_prio_def rt_sched_thread_get_curr_prio_def split: list.split)
  with i have "inherit_but {} {} ?s"
    using order_trans [OF _ ge] by (auto simp: inherit_but_def e)
  with ok show ?thesis by (simp add: minv_def)
qed

end
