(* ===== verification/MutexRelease.thy ===== *)
theory MutexRelease
  imports MutexOps
begin

text \<open>
  The end of a wait for a mutex, the release with its hand-over, and the priority ceiling: results on
  every branch and preservation of the mutex invariant.
\<close>

lemma same_mtx_update [simp]: "same_mtx s (mutex_update_priority m s)"
  by (auto simp: same_mtx_def mutex_update_priority_def)

lemma repriced_update [simp]: "repriced s (mutex_update_priority m s)"
  by (auto simp: repriced_def) (auto simp: mutex_update_priority_def)

lemma minv_not_waiting [simp]:
  assumes "minv s" and "\<not> susp_stat (tcbs s t)"
  shows "minv (s\<lparr>tcbs := (tcbs s)(t := (tcbs s t)\<lparr>t_pending_object := x\<rparr>)\<rparr>)" (is "minv ?s")
proof -
  have k: "kinv ?s" using assms(1) by simp
  have ok: "owners_ok s" "waiters_ok s" "init_prios_ok s" "inherit_but {} {} s"
    using assms(1) by (auto simp: minv_def mtx_ok_def)
  have "inherit_but {} {} ?s" using ok(4) by (subst inherit_same [of ?s s]) auto
  moreover have "waiters_ok ?s" using ok(2) assms(2) by (auto simp: waiters_ok_def)
  ultimately show ?thesis using k ok by (simp add: minv_def mtx_ok_def owners_ok_def init_prios_ok_def)
qed

lemma waiter_left_run:
  assumes m: "minv s" and dl: "\<And>w. mtx_owner (mutexes s m) = Some w \<Longrightarrow> no_deadlock w s"
  shows "\<exists>s'. waiter_left m t s = Some s' \<and> minv s' \<and> repriced s s'"
proof (cases "mtx_owner (mutexes s m)")
  case None
  then show ?thesis using minv_update_priority [OF m] by (simp add: waiter_left_def)
next
  case (Some w)
  let ?s = "mutex_update_priority m s"
  have m1: "minv ?s" by (rule minv_update_priority [OF m])
  have "no_deadlock w ?s"
    using dl [OF Some] waits_for_same [OF same_mtx_update [of s m]] by (simp add: no_deadlock_def)
  then obtain s' where "refresh_owner w ?s = Some s'" "minv s'" "repriced ?s s'"
    using refresh_owner_run [of ?s w] m1 by (auto simp: minv_def)
  with Some m1 repriced_trans [OF repriced_update] show ?thesis by (auto simp: waiter_left_def Let_def)
qed

text \<open>
  What a blocked take returns. A thread that was handed the mutex gets \<open>RT_EOK\<close>. A thread that was
  woken without it gets its negated error, \<open>-RT_EINTR\<close> if none was recorded; it no longer counts as a
  waiter, the owner's inherited priority is recomputed, and the invariant holds.
\<close>

theorem mutex_take_resume_result:
  assumes m: "minv s" and c: "runs t s"
    and dl: "\<And>w. mtx_owner (mutexes s m) = Some w \<Longrightarrow> no_deadlock w s"
  shows "if mtx_owner (mutexes s m) = Some t
    then t_error (tcbs s t) = RT_EOK \<longrightarrow> mutex_take_resume m t s = Some (RT_EOK, s)
    else \<exists>s' e. mutex_take_resume m t s = Some (e, s') \<and> minv s' \<and>
      e = (if t_error (tcbs s t) = RT_EOK then - RT_EINTR else - \<bar>t_error (tcbs s t)\<bar>) \<and>
      t_pending_object (tcbs s' t) = None \<and> takens s' = takens s \<and>
      (\<forall>x. mtx_owner (mutexes s' x) = mtx_owner (mutexes s x) \<and> mtx_hold (mutexes s' x) = mtx_hold (mutexes s x))"
proof (cases "mtx_owner (mutexes s m) = Some t")
  case True
  then show ?thesis using m by (simp add: mutex_take_resume_def)
next
  case False
  let ?s1 = "rt_spin_lock s"
  have m1: "minv ?s1" using m by simp
  have "waits_for ?s1 = waits_for s" by (rule waits_for_same) (auto simp: same_mtx_def)
  then have dl1: "no_deadlock w ?s1" if "mtx_owner (mutexes ?s1 m) = Some w" for w
    using dl that by (simp add: no_deadlock_def)
  obtain s2 where s2: "waiter_left m t ?s1 = Some s2" "minv s2" "repriced ?s1 s2"
    using waiter_left_run [OF m1 dl1] by blast
  have lo: "locked_ok s2"
    by (rule locked_ok_update [OF locked_ok_lock [OF minv_kinv [OF m]] minv_kinv [OF s2(2)]])
      (use s2(3) in \<open>auto simp: repriced_def\<close>)
  note U = locked_ok_unlock [OF lo]
  let ?s3 = "s2\<lparr>lock_nest := lock_nest s2 - 1\<rparr>"
  have m3: "minv ?s3" by (rule minv_nest [OF s2(2) U(2)])
  have su: "\<not> susp_stat (tcbs ?s3 t)" using runs_not_susp [OF c] s2(3) by (simp add: repriced_def same_mtx_def)
  have "minv (upd_tcb t (\<lambda>b. b\<lparr>t_pending_object := None\<rparr>) ?s3)" using minv_not_waiting [OF m3 su] .
  then show ?thesis
    using False s2(1) U(1) s2(3) by (auto simp: mutex_take_resume_def repriced_def same_mtx_def err_defs abs_if)
qed


lemma mutex_take_resume_result_witness:
  "\<exists>s'. mutex_take_resume 7 1 (demo_mx (Some 4)) = Some (- RT_EINTR, s') \<and> minv s'"
proof -
  have "\<not> susp_stat (tcbs (demo_mx (Some 4)) 4)"
    by (simp add: demo_mx_def demo_wait_def demo_tcb_def susp_stat_def stat_defs)
  then have "no_deadlock 4 (demo_mx (Some 4))" by (rule no_deadlock_running)
  then show ?thesis
    using mutex_take_resume_result [OF minv_demo_mx demo_mx_runs, of "Some 4" 7]
    by (auto simp: demo_mx_def demo_mutexes_def demo_wait_def demo_tcb_def blank_tcb_def err_defs)
qed

subsection \<open>Release\<close>

lemma minv_passed:
  \<comment> \<open>the owner \<open>t\<close> of \<open>m\<close> gives it up, to the first waiter if there is one\<close>
  assumes m: "minv s" and o: "mtx_owner (mutexes s m) = Some t" and nt: "\<not> susp_stat (tcbs s t)" and k: "kinv s'"
    and n: "n = (case mq s m of [] \<Rightarrow> None | u # _ \<Rightarrow> Some u)"
    and tk: "takens s' = (case n of None \<Rightarrow> st_remove m (takens s) | Some u \<Rightarrow> st_push u m (st_remove m (takens s)))"
    and ow: "\<And>x. mtx_owner (mutexes s' x) = (if x = m then n else mtx_owner (mutexes s x))"
    and pr: "\<And>x. x \<noteq> m \<Longrightarrow> mtx_priority (mutexes s' x) = mtx_priority (mutexes s x)"
      "mtx_priority (mutexes s' m) = first_prio m s'"
    and qs: "\<And>x. mq s' x = filter (\<lambda>v. Some v \<noteq> n) (mq s x)"
    and ty: "\<And>x. o_type (objs s' (OMutex x)) = o_type (objs s (OMutex x)) \<and> o_flag (objs s' (OMutex x)) = o_flag (objs s (OMutex x))"
    and su: "\<And>v. susp_stat (tcbs s' v) \<longleftrightarrow> susp_stat (tcbs s v) \<and> Some v \<noteq> n"
    and pe: "\<And>v. Some v \<noteq> n \<Longrightarrow> t_pending_object (tcbs s' v) = t_pending_object (tcbs s v)"
    and ini: "\<And>v. t_init_priority (tcbs s' v) = t_init_priority (tcbs s v)"
    and cps: "\<And>v. cp s' v = (if v = t then p else cp s v)"
    and p: "\<And>x. x \<noteq> m \<Longrightarrow> mtx_owner (mutexes s x) = Some t \<Longrightarrow> p \<le> mtx_priority (mutexes s x)"
  shows "minv s'"
proof -
  have ok: "owners_ok s" "waiters_ok s" "init_prios_ok s" "inherit_but {} {} s" using m by (auto simp: minv_def mtx_ok_def)
  have tq: "t \<notin> set (mq s x)" for x using ok(2) nt unfolding waiters_ok_def by blast
  have nt': "n \<noteq> Some t" using n tq [of m] by (auto split: list.splits)
  have so: "store_ok (st_remove m (takens s))" using ok(1) by (auto simp: owners_ok_def)
  have "store_ok (takens s')"
    unfolding tk using so by (auto split: option.split)
  moreover have "x \<in> set (takens s' v) \<longleftrightarrow> mtx_owner (mutexes s' x) = Some v" for x v
    using ok(1) nt' o unfolding owners_ok_def ow tk
    by (cases n; cases "x = m") (auto simp: st_push_def)
  moreover have "mq s' x = []" if "mtx_owner (mutexes s' x) = None" for x
    using that ok(1) n unfolding owners_ok_def ow qs by (cases "x = m") (auto split: list.splits)
  ultimately have 1: "owners_ok s'" by (auto simp: owners_ok_def)
  have 2: "waiters_ok s'"
    unfolding waiters_ok_def
  proof (intro conjI allI impI)
    fix x v
    show "v \<in> set (mq s' x) \<longleftrightarrow> susp_stat (tcbs s' v) \<and> t_pending_object (tcbs s' v) = Some (OMutex x)"
      using ok(2) pe [of v] by (auto simp: qs su waiters_ok_def)
    assume "v \<in> set (mq s' x)"
    then have "v \<in> set (mq s x)" by (simp add: qs)
    with ok(2) have "is_mutex x s" "ipc_flag (OMutex x) s = RT_IPC_FLAG_PRIO" unfolding waiters_ok_def by blast+
    then show "is_mutex x s'" "ipc_flag (OMutex x) s' = RT_IPC_FLAG_PRIO"
      using ty [of x] by (simp_all add: rt_object_get_type_def ipc_flag_def)
  qed
  have same: "cp s' v = cp s v" if "v \<in> set (mq s x)" for v x using tq [of x] that cps [of v] by auto
  have srt: "sorted (map (cp s) (mq s x))" for x using ok(4) by (simp add: inherit_but_def)
  have eq: "map (cp s') (mq s' x) = map (cp s) (mq s' x)" for x using same [of _ x] by (auto simp: qs)
  have A: "sorted (map (cp s') (mq s' x))" for x
    unfolding eq unfolding qs by (rule sorted_filter [OF srt])
  have fp: "mtx_priority (mutexes s' m) \<le> cp s' v" if "v \<in> set (mq s' m)" for v
    using sorted_hd [OF A that] that
    by (auto simp: pr(2) first_prio_def rt_sched_thread_get_curr_prio_def split: list.split)
  have B: "mtx_priority (mutexes s' x) \<le> cp s' v" if "v \<in> set (mq s' x)" for v x
  proof (cases "x = m")
    case False
    with that have "v \<in> set (mq s x)" by (simp add: qs)
    with False ok(4) same [OF this] pr(1) show ?thesis by (simp add: inherit_but_def)
  qed (use fp that in blast)
  have C: "cp s' v \<le> mtx_priority (mutexes s' x)" if v: "mtx_owner (mutexes s' x) = Some v" for v x
  proof (cases "x = m")
    case True
    with v have nv: "n = Some v" by (simp add: ow)
    then obtain vs where vs: "mq s m = v # vs" using n by (auto split: list.splits)
    then have cv: "cp s' v = cp s v" using same [of v m] by simp
    show ?thesis
    proof (cases "mq s' m")
      case Nil
      with True show ?thesis by (simp add: pr(2) first_prio_def)
    next
      case (Cons u us)
      then have u: "u \<in> set (mq s' m)" by simp
      then have u': "u \<in> set (mq s m)" by (simp add: qs)
      have "cp s v \<le> cp s u" using sorted_hd [OF srt u'] vs by simp
      with True Cons same [OF u'] cv show ?thesis by (simp add: pr(2) first_prio_def rt_sched_thread_get_curr_prio_def)
    qed
  next
    case False
    with v have "mtx_owner (mutexes s x) = Some v" by (simp add: ow)
    with p [OF False] ok(4) False show ?thesis by (auto simp: cps pr(1) inherit_but_def)
  qed
  have "init_prios_ok s'" using ok(3) ini by (simp add: init_prios_ok_def)
  moreover have "inherit_but {} {} s'" using A B C by (simp add: inherit_but_def)
  ultimately show ?thesis using 1 2 k by (simp add: minv_def mtx_ok_def)
qed

lemma check_and_update_run:
  assumes k: "kinv s" and i: "init_prios_ok s"
  shows "\<exists>b s' p. check_and_update_prio t m s = Some (b, s') \<and> kinv s' \<and> prio_changed t p s s' \<and>
    (p = thread_get_mutex_priority t s \<or> p = cp s t)"
  using change_priority_run [OF k get_mutex_priority_bound [OF i, of t], of t] k prio_changed_refl [of t s]
  by (auto simp: check_and_update_prio_def Let_def)

lemma ready_next_run:
  assumes k: "kinv s" and q: "mq s m = u # us"
  shows "ready_next_waiter m s = Some (Some u, thread_wake u (upd_tlists (st_remove u) s))"
    and "kinv (thread_wake u (upd_tlists (st_remove u) s))"
proof -
  have u: "u \<in> set (mq s m)" using q by simp
  have su: "susp_stat (tcbs s u)" by (rule kinv_queue_susp [OF k u])
  let ?s = "upd_tlists (st_remove u) s"
  have k1: "kinv ?s" by (rule kinv_unqueue [OF k u])
  have su1: "susp_stat (tcbs ?s u)" using su by simp
  show "ready_next_waiter m s = Some (Some u, thread_wake u ?s)"
    using q su rt_sched_thread_ready_run [OF k1 su1]
    by (subst ready_next_waiter.simps) (simp add: rt_sched_thread_is_suspended_def)
  show "kinv (thread_wake u ?s)" by (rule kinv_wake [OF k1 su1])
qed


definition given_up :: "nat \<Rightarrow> kst \<Rightarrow> kst" where
  \<comment> \<open>the last hold of \<open>m\<close> is gone and \<open>m\<close> has left its owner's list\<close>
  "given_up m s = upd_takens (st_remove m) (upd_mutex m (\<lambda>x. x\<lparr>mtx_hold := 0\<rparr>) s)"

lemma given_up_fields [simp]:
  "tcbs (given_up m s) = tcbs s" "tlists (given_up m s) = tlists s" "objs (given_up m s) = objs s"
  "takens (given_up m s) = st_remove m (takens s)" "lock_nest (given_up m s) = lock_nest s"
  "crit_flag (given_up m s) = crit_flag s" "current (given_up m s) = current s"
  "mutexes (given_up m s) = (mutexes s)(m := (mutexes s m)\<lparr>mtx_hold := 0\<rparr>)"
  "kinv (given_up m s) = kinv s"
  by (simp_all add: given_up_def upd_takens_def)

lemma given_up_prio:
  assumes "minv s" and "mtx_owner (mutexes s m) = Some t" and p: "p = thread_get_mutex_priority t (given_up m s) \<or> p = cp s t"
    and x: "x \<noteq> m" "mtx_owner (mutexes s x) = Some t"
  shows "p \<le> mtx_priority (mutexes s x)"
  using p
proof
  assume "p = thread_get_mutex_priority t (given_up m s)"
  moreover have "x \<in> set (takens (given_up m s) t)" using assms(1) x by (simp add: minv_def mtx_ok_def owners_ok_def)
  ultimately show ?thesis
    using lower_prio_le_mutex [of x "takens (given_up m s) t" "mutexes (given_up m s)"] x(1)
    by (simp add: thread_get_mutex_priority_def)
qed (use assms(1) x in \<open>simp add: minv_def inherit_but_def\<close>)

definition handed_over :: "nat \<Rightarrow> kst \<Rightarrow> kst" where
  \<comment> \<open>the end of the locked part of a last release\<close>
  "handed_over m s =
     (case mq s m of
        [] \<Rightarrow> upd_mutex m (\<lambda>x. x\<lparr>mtx_owner := None, mtx_priority := 0xff\<rparr>) s
      | u # _ \<Rightarrow> mutex_update_priority m (upd_tcb u (\<lambda>b. b\<lparr>t_pending_object := None\<rparr>)
          (upd_takens (st_push u m) (upd_mutex m (\<lambda>x. x\<lparr>mtx_owner := Some u, mtx_hold := 1\<rparr>)
            (thread_wake u (upd_tlists (st_remove u) s))))))"

lemma handed_over_fields:
  assumes c: "prio_changed t p (given_up m s) s1"
  defines "n \<equiv> case mq s m of [] \<Rightarrow> None | u # _ \<Rightarrow> Some u"
  shows "mq (handed_over m s1) x = filter (\<lambda>v. Some v \<noteq> n) (mq s x)"
    and "takens (handed_over m s1) = (case n of None \<Rightarrow> st_remove m (takens s) | Some u \<Rightarrow> st_push u m (st_remove m (takens s)))"
    and "mtx_owner (mutexes (handed_over m s1) x) = (if x = m then n else mtx_owner (mutexes s x))"
    and "x \<noteq> m \<Longrightarrow> mtx_priority (mutexes (handed_over m s1) x) = mtx_priority (mutexes s x)"
    and "mtx_priority (mutexes (handed_over m s1) m) = first_prio m (handed_over m s1)"
    and "mtx_hold (mutexes (handed_over m s1) m) = (if mq s m = [] then 0 else 1)"
    and "objs (handed_over m s1) (OMutex x) = objs s (OMutex x)"
    and "lock_nest (handed_over m s1) = lock_nest s" and "crit_flag (handed_over m s1) = crit_flag s"
    and "current (handed_over m s1) = current s"
    and "susp_stat (tcbs (handed_over m s1) v) \<longleftrightarrow> susp_stat (tcbs s v) \<and> Some v \<noteq> n"
    and "t_pending_object (tcbs (handed_over m s1) v) = (if Some v = n then None else t_pending_object (tcbs s v))"
    and "t_init_priority (tcbs (handed_over m s1) v) = t_init_priority (tcbs s v)"
    and "cp (handed_over m s1) v = (if v = t then p else cp s v)"
    and "t_error (tcbs (handed_over m s1) v) = t_error (tcbs s v)"
proof -
  note C = c [unfolded prio_changed_def]
  have e1: "mq s1 x = mq s x" "takens s1 = st_remove m (takens s)" "objs s1 = objs s"
    "mutexes s1 = (mutexes s)(m := (mutexes s m)\<lparr>mtx_hold := 0\<rparr>)" "lock_nest s1 = lock_nest s"
    "crit_flag s1 = crit_flag s" "current s1 = current s" for x using C by simp_all
  have t1: "susp_stat (tcbs s1 v) = susp_stat (tcbs s v)" "t_pending_object (tcbs s1 v) = t_pending_object (tcbs s v)"
    "t_init_priority (tcbs s1 v) = t_init_priority (tcbs s v)" "t_error (tcbs s1 v) = t_error (tcbs s v)"
    "cp s1 v = (if v = t then p else cp s v)" for v
    using C by (cases "v = t"; simp)+
  note defs = handed_over_def e1 mutex_update_priority_def upd_takens_def n_def
  have neq: "filter (\<lambda>v. v \<noteq> u) xs = removeAll u xs" for u :: nat and xs
    by (induction xs) auto
  show "mq (handed_over m s1) x = filter (\<lambda>v. Some v \<noteq> n) (mq s x)"
    by (cases "mq s m") (simp_all add: defs neq)
  show "mtx_priority (mutexes (handed_over m s1) m) = first_prio m (handed_over m s1)"
    by (cases "mq s m") (auto simp: defs first_prio_def rt_sched_thread_get_curr_prio_def split: list.split)
  show "takens (handed_over m s1) = (case n of None \<Rightarrow> st_remove m (takens s) | Some u \<Rightarrow> st_push u m (st_remove m (takens s)))"
    "mtx_owner (mutexes (handed_over m s1) x) = (if x = m then n else mtx_owner (mutexes s x))"
    "x \<noteq> m \<Longrightarrow> mtx_priority (mutexes (handed_over m s1) x) = mtx_priority (mutexes s x)"
    "mtx_hold (mutexes (handed_over m s1) m) = (if mq s m = [] then 0 else 1)"
    "objs (handed_over m s1) (OMutex x) = objs s (OMutex x)"
    "lock_nest (handed_over m s1) = lock_nest s" "crit_flag (handed_over m s1) = crit_flag s"
    "current (handed_over m s1) = current s"
    by (cases "mq s m"; simp add: defs)+
  show "susp_stat (tcbs (handed_over m s1) v) \<longleftrightarrow> susp_stat (tcbs s v) \<and> Some v \<noteq> n"
    "t_pending_object (tcbs (handed_over m s1) v) = (if Some v = n then None else t_pending_object (tcbs s v))"
    "t_init_priority (tcbs (handed_over m s1) v) = t_init_priority (tcbs s v)"
    "cp (handed_over m s1) v = (if v = t then p else cp s v)"
    "t_error (tcbs (handed_over m s1) v) = t_error (tcbs s v)"
    by (cases "mq s m"; simp add: defs t1)+
qed

lemma handed_over_minv:
  assumes m: "minv s" and o: "mtx_owner (mutexes s m) = Some t" and nt: "\<not> susp_stat (tcbs s t)"
    and c: "prio_changed t p (given_up m s) s1" and k: "kinv s1"
    and p: "p = thread_get_mutex_priority t (given_up m s) \<or> p = cp s t"
  shows "minv (handed_over m s1)"
proof -
  have q: "mq s1 m = mq s m" using c by (simp add: prio_changed_def)
  have k': "kinv (handed_over m s1)"
    using ready_next_run(2) [of s1 m] k q
    by (cases "mq s m") (simp_all add: handed_over_def mutex_update_priority_def upd_takens_def)
  note F = handed_over_fields [OF c]
  show ?thesis
    by (rule minv_passed [where p = p, OF m o nt k' refl F(2,3) _ _ F(1) _ F(11) _ F(13,14) given_up_prio [OF m o p]])
      (use F(4,5,7,12) in auto)
qed

lemma release_last:
  assumes m: "minv s" and r: "runs t s" and mu: "is_mutex m s"
    and o: "mtx_owner (mutexes s m) = Some t" and h: "mtx_hold (mutexes s m) = 1"
  shows "\<exists>s' s1 p. rt_mutex_release m s = Some (RT_EOK, s') \<and> minv s' \<and> same_ipc (handed_over m s1) s' \<and>
    prio_changed t p (given_up m (rt_spin_lock s)) s1"
proof -
  let ?L = "rt_spin_lock s"
  have r': "rt_thread_self s = Some t" "debug_in_thread_context s" "current s = Some t" and su: "\<not> susp_stat (tcbs s t)"
    using r runs_not_susp [OF r] by (auto simp: runs_def rt_thread_self_def debug_defs)
  have mL: "minv ?L" using m by simp
  have "kinv (given_up m ?L)" "init_prios_ok (given_up m ?L)"
    using m by (simp_all add: minv_def mtx_ok_def init_prios_ok_def)
  then obtain b s1 p where s1: "check_and_update_prio t m (given_up m ?L) = Some (b, s1)" "kinv s1"
      "prio_changed t p (given_up m ?L) s1" "p = thread_get_mutex_priority t (given_up m ?L) \<or> p = cp (given_up m ?L) t"
    using check_and_update_run by blast
  let ?F = "handed_over m s1"
  note F = handed_over_fields [OF s1(3)]
  have mF: "minv ?F" by (rule handed_over_minv [OF mL _ _ s1(3,2)]) (use o su s1(4) in auto)
  have lo: "locked_ok ?F"
    by (rule locked_ok_update [OF locked_ok_lock [OF minv_kinv [OF m]] minv_kinv [OF mF]]) (use F(8,9) in auto)
  obtain s4 s' where s': "rt_spin_unlock ?F = Some s4" "rt_schedule s4 = Some s'" "minv s4" "minv s'" "same_ipc ?F s'"
      "s4 = ?F\<lparr>lock_nest := lock_nest ?F - 1\<rparr>"
    using minv_unlock_schedule [OF mF lo] F(10) r'(3) by auto
  have q: "mq s1 m = mq s m" using s1(3) by (simp add: prio_changed_def)
  have g: "upd_takens (st_remove m) (upd_mutex m (\<lambda>x. x\<lparr>mtx_hold := mtx_hold x - 1\<rparr>) ?L) = given_up m ?L"
    using h by (simp add: given_up_def)
  have "rt_mutex_release m s = Some (RT_EOK, s') \<or> rt_mutex_release m s = Some (RT_EOK, s4)"
  proof (cases "mq s m")
    case Nil
    then show ?thesis
      using r' mu o h s1(1) s'(1,2) q g by (cases b) (simp_all add: rt_mutex_release_def handed_over_def)
  next
    case (Cons u us)
    then show ?thesis
      using r' mu o h s1(1) s'(1,2) q g ready_next_run(1) [OF s1(2), of m u us]
      by (simp add: rt_mutex_release_def handed_over_def Let_def)
  qed
  moreover have "same_ipc ?F s4" unfolding s'(6) by (simp add: same_ipc_def)
  ultimately show ?thesis using s' s1(3) by blast
qed

text \<open>
  C4. \<open>rt_mutex_release\<close>. A thread that is not the owner is refused with \<open>-RT_ERROR\<close>. An inner release
  lowers the hold count. The last release frees the mutex if no thread waits, and otherwise
  hands it to the first waiter, with hold count 1: that thread is ready, at an unchanged priority, no longer pending, and has the mutex on its
  list. The mutex invariant, hence the absence of priority inversion, holds on every branch.
\<close>

theorem rt_mutex_release_branches:
  assumes m: "minv s" and r: "runs t s" and mu: "is_mutex m s"
  shows "if mtx_owner (mutexes s m) \<noteq> Some t
    then \<exists>s'. rt_mutex_release m s = Some (- RT_ERROR, s') \<and> minv s' \<and> mutexes s' = mutexes s \<and> takens s' = takens s
    else if mtx_hold (mutexes s m) \<noteq> 1
    then \<exists>s'. rt_mutex_release m s = Some (RT_EOK, s') \<and> minv s' \<and> takens s' = takens s \<and>
      mutexes s' = (mutexes s)(m := (mutexes s m)\<lparr>mtx_hold := mtx_hold (mutexes s m) - 1\<rparr>)
    else \<exists>s'. rt_mutex_release m s = Some (RT_EOK, s') \<and> minv s' \<and>
      (case mq s m of
         [] \<Rightarrow> mtx_owner (mutexes s' m) = None \<and> takens s' = st_remove m (takens s)
       | u # us \<Rightarrow> mtx_owner (mutexes s' m) = Some u \<and> mtx_hold (mutexes s' m) = 1 \<and> mq s' m = us \<and>
           \<not> susp_stat (tcbs s' u) \<and> t_pending_object (tcbs s' u) = None \<and> t_error (tcbs s' u) = t_error (tcbs s u) \<and>
           cp s' u = cp s u \<and> takens s' = st_push u m (st_remove m (takens s)))"
proof -
  have k: "kinv s" using m by simp
  have d: "debug_in_thread_context s" "rt_thread_self s = Some t" using r by (auto simp: runs_def debug_defs rt_thread_self_def)
  have su: "\<not> susp_stat (tcbs s t)" by (rule runs_not_susp [OF r])
  consider "mtx_owner (mutexes s m) \<noteq> Some t" | "mtx_owner (mutexes s m) = Some t" "mtx_hold (mutexes s m) \<noteq> 1"
    | "mtx_owner (mutexes s m) = Some t" "mtx_hold (mutexes s m) = 1" by blast
  then show ?thesis
  proof cases
    case 1
    with d mu k m show ?thesis by (auto simp: rt_mutex_release_def lock_upd_tcb)
  next
    case 2
    then have "mtx_hold (mutexes s m) - 1 \<noteq> 0" by simp
    with 2 d mu k m show ?thesis by (auto simp: rt_mutex_release_def)
  next
    case 3
    obtain s' s1 p where R: "rt_mutex_release m s = Some (RT_EOK, s')" "minv s'" "same_ipc (handed_over m s1) s'"
        "prio_changed t p (given_up m (rt_spin_lock s)) s1"
      using release_last [OF m r mu 3] by blast
    note F = handed_over_fields [OF R(4)]
    have q: "mq s m = u # us \<Longrightarrow> filter (\<lambda>v. v \<noteq> u) us = us" for u us
      using store_okD(1) [OF kinv_store [OF k], of "mutex_q m"] by simp
    have "mutexes s' = mutexes (handed_over m s1)" "takens s' = takens (handed_over m s1)" "mq s' m = mq (handed_over m s1) m"
      "\<And>u. susp_stat (tcbs s' u) = susp_stat (tcbs (handed_over m s1) u)"
      "\<And>u. t_pending_object (tcbs s' u) = t_pending_object (tcbs (handed_over m s1) u)"
      "\<And>u. t_error (tcbs s' u) = t_error (tcbs (handed_over m s1) u)"
      "\<And>u. cp s' u = cp (handed_over m s1) u"
      using R(3) by (simp_all add: same_ipc_def)
    moreover have "u \<noteq> t" if "mq s m = u # us" for u us
      using kinv_queue_susp [OF k, of u "MutexQ m"] that su by auto
    ultimately show ?thesis using 3 R(1,2) q by (cases "mq s m") (simp_all add: F)
  qed
qed


lemma rt_mutex_release_branches_witness:
  "\<exists>s'. rt_mutex_release 7 demo_contended = Some (RT_EOK, s') \<and> mtx_owner (mutexes s' 7) = Some 3 \<and> mq s' 7 = [2] \<and>
     takens s' 3 = [7]"
  using rt_mutex_release_branches [OF minv_demo_contended demo_contended_runs, of 7]
  by (auto simp: demo_contended_def demo_mutexes_def)

subsection \<open>The priority ceiling\<close>

text \<open>
  \<open>rt_mutex_setprioceiling\<close> refuses a priority that is none with \<open>-RT_EINVAL\<close>; otherwise it returns the old
  ceiling, stores the new one and gives an owner the priority that its mutexes now ask for, and the
  mutex invariant holds.
\<close>

theorem rt_mutex_setprioceiling_applies:
  assumes m: "minv s" and c: "debug_in_thread_context s"
    and dl: "\<And>w. mtx_owner (mutexes s m) = Some w \<Longrightarrow> no_deadlock w s"
  shows "if unat priority < RT_THREAD_PRIORITY_MAX
    then \<exists>s'. rt_mutex_setprioceiling (Some m) priority s = Some (mtx_ceiling_priority (mutexes s m), s') \<and> minv s' \<and>
      mtx_ceiling_priority (mutexes s' m) = priority \<and> mtx_owner (mutexes s' m) = mtx_owner (mutexes s m) \<and>
      (\<forall>w. mtx_owner (mutexes s m) = Some w \<longrightarrow>
        cp s' w = thread_get_mutex_priority w (upd_mutex m (\<lambda>x. x\<lparr>mtx_ceiling_priority := priority\<rparr>) s))
    else rt_mutex_setprioceiling (Some m) priority s = Some (0xff, rt_set_errno (- RT_EINVAL) s)"
proof (cases "unat priority < RT_THREAD_PRIORITY_MAX")
  case False
  then show ?thesis using c by (simp add: rt_mutex_setprioceiling_def)
next
  case True
  let ?s1 = "upd_mutex m (\<lambda>x. x\<lparr>mtx_ceiling_priority := priority\<rparr>) (rt_spin_lock s)"
  have m1: "minv ?s1" using m by simp
  have same: "waits_for ?s1 = waits_for s" by (rule waits_for_same) (auto simp: same_mtx_def)
  have "\<exists>s2. (case mtx_owner (mutexes ?s1 m) of None \<Rightarrow> Some ?s1 | Some owner \<Rightarrow> refresh_owner owner ?s1) = Some s2 \<and>
      minv s2 \<and> repriced ?s1 s2 \<and>
      (\<forall>w. mtx_owner (mutexes s m) = Some w \<longrightarrow> cp s2 w = thread_get_mutex_priority w ?s1)"
  proof (cases "mtx_owner (mutexes s m)")
    case None
    then show ?thesis using m1 by simp
  next
    case (Some w)
    then have "no_deadlock w s" using dl by blast
    then have "no_deadlock w ?s1" unfolding no_deadlock_def same .
    from refresh_owner_run [OF _ _ this] m1 Some show ?thesis by (auto simp: minv_def)
  qed
  then obtain s2 where s2: "(case mtx_owner (mutexes ?s1 m) of None \<Rightarrow> Some ?s1 | Some owner \<Rightarrow> refresh_owner owner ?s1) = Some s2"
      "minv s2" "repriced ?s1 s2"
      "\<And>w. mtx_owner (mutexes s m) = Some w \<Longrightarrow> cp s2 w = thread_get_mutex_priority w ?s1" by blast
  have f: "lock_nest s2 = lock_nest (rt_spin_lock s)" "crit_flag s2 = crit_flag (rt_spin_lock s)"
    "mtx_ceiling_priority (mutexes s2 m) = priority" "mtx_owner (mutexes s2 m) = mtx_owner (mutexes s m)"
    using s2(3) by (simp_all add: repriced_def same_mtx_def)
  have lo: "locked_ok s2"
    by (rule locked_ok_update [OF locked_ok_lock [OF minv_kinv [OF m]] minv_kinv [OF s2(2)] f(1,2)])
  note U = locked_ok_unlock [OF lo]
  have run: "rt_mutex_setprioceiling (Some m) priority s =
      Some (mtx_ceiling_priority (mutexes s m), s2\<lparr>lock_nest := lock_nest s2 - 1\<rparr>)"
    using True c s2(1) U(1) by (simp add: rt_mutex_setprioceiling_def Let_def)
  have "thread_get_mutex_priority w ?s1 =
      thread_get_mutex_priority w (upd_mutex m (\<lambda>x. x\<lparr>mtx_ceiling_priority := priority\<rparr>) s)" for w
    by (simp add: thread_get_mutex_priority_def rt_sched_thread_get_init_prio_def)
  with True run minv_nest [OF s2(2) U(2)] f s2(4) show ?thesis by simp
qed

lemma rt_mutex_setprioceiling_applies_witness:
  "\<exists>s'. rt_mutex_setprioceiling (Some 7) 3 demo_contended = Some (0xff, s') \<and> minv s' \<and> cp s' 1 = 3"
  using rt_mutex_setprioceiling_applies [OF minv_demo_contended, of 7 3] demo_contended_ends
  by (auto simp: demo_contended_def debug_defs demo_mutexes_def RT_THREAD_PRIORITY_MAX_def thread_get_mutex_priority_def
      rt_sched_thread_get_init_prio_def demo_tcb_def Let_def)

text \<open>
  C5. Priority inheritance. When the priority of a thread changes, \<open>_thread_update_priority\<close> ends, provided the chain of
  owners from the thread does; every mutex queue is then in order of priority, every owner again at least as urgent as its
  waiters, and only priorities of threads on that chain have changed.
\<close>

theorem thread_update_priority_inherits:
  assumes "minv s" and "no_deadlock t s" and "unat p < RT_THREAD_PRIORITY_MAX"
    and "\<And>m. mtx_owner (mutexes s m) = Some t \<Longrightarrow> p \<le> mtx_priority (mutexes s m)"
  shows "\<exists>s'. thread_update_priority t p s = Some s' \<and> minv s' \<and> cp s' t = p \<and>
    (\<forall>u. u \<noteq> t \<longrightarrow> cp s' u \<noteq> cp s u \<longrightarrow> (waits_for s)\<^sup>+\<^sup>+ t u) \<and>
    (\<forall>m w u. mtx_owner (mutexes s' m) = Some w \<longrightarrow> u \<in> set (mq s' m) \<longrightarrow> cp s' w \<le> cp s' u)"
proof -
  have "mtx_ok s" "inherit_but {} {t} s" using assms(1) by (simp_all add: minv_def inherit_but_def)
  from thread_update_priority_run [OF this _ assms(2,4)] assms(3) minv_no_inversion show ?thesis
    by (simp add: RT_THREAD_PRIORITY_MAX_def) blast
qed

lemma thread_update_priority_inherits_witness:
  "\<exists>s'. thread_update_priority 3 2 demo_contended = Some s' \<and> cp s' 3 = 2 \<and> minv s'"
proof -
  have "mtx_owner (mutexes demo_contended m) \<noteq> Some 3" for m by (simp add: demo_contended_def demo_mutexes_def)
  then show ?thesis
    using thread_update_priority_inherits [OF minv_demo_contended demo_contended_ends, of 2 3]
    by (auto simp: RT_THREAD_PRIORITY_MAX_def)
qed

end
