(* ===== verification/TimerCheck.thy ===== *)
theory TimerCheck
  imports Sem
begin

text \<open>
  The processing of expired timers (rt-thread/src/timer.c, \<open>_timer_check\<close>) and the tick
  interrupt (rt-thread/src/clock.c). The functions of user timers belong to the application: \<open>cb n p s\<close> is the
  effect of user function \<open>n\<close> with parameter \<open>p\<close>. The function of a thread timer is
  \<open>thread_timeout\<close>. The list of timers whose function is being called, local to \<open>_timer_check\<close>, is
  \<open>Fired h\<close>.
\<close>

definition call_timeout :: "(nat \<Rightarrow> nat \<Rightarrow> kst \<Rightarrow> kst option) \<Rightarrow> timeout_func \<Rightarrow> nat \<Rightarrow> kst \<Rightarrow> kst option" where
  "call_timeout cb f parameter s =
     (case f of Thread_timeout \<Rightarrow> thread_timeout parameter s | User_func n \<Rightarrow> cb n parameter s)"

definition timer_expired :: "tmid \<Rightarrow> kst \<Rightarrow> bool" where
  "timer_expired tm s \<longleftrightarrow> rt_tick_get s - tm_timeout_tick (timers s tm) < HALF_TICKS"

definition timer_fire :: "(nat \<Rightarrow> nat \<Rightarrow> kst \<Rightarrow> kst option) \<Rightarrow> tmhead \<Rightarrow> tmid \<Rightarrow> kst \<Rightarrow> kst option" where
  \<comment> \<open>the body of the loop of \<open>_timer_check\<close>, for the expired timer \<open>t\<close>\<close>
  "timer_fire cb h t s = do {
     let s = timer_remove t s;
     let s = (if \<not> tm_has RT_TIMER_FLAG_PERIODIC t s then tm_clear RT_TIMER_FLAG_ACTIVATED t s else s);
     let s = upd_tmlists (st_push (Fired h) t) s;
     s \<leftarrow> rt_spin_unlock s;
     s \<leftarrow> call_timeout cb (tm_func (timers s t)) (tm_parameter (timers s t)) s;
     let s = rt_spin_lock s;
     if tmlists s (Fired h) = [] then Some s
     else do {
       let s = upd_tmlists (st_remove t) s;
       Some (if tm_has RT_TIMER_FLAG_PERIODIC t s \<and> tm_has RT_TIMER_FLAG_ACTIVATED t s
             then timer_start h t (tm_clear RT_TIMER_FLAG_ACTIVATED t s) else s)
     }
   }"

partial_function (option) timer_check_loop :: "(nat \<Rightarrow> nat \<Rightarrow> kst \<Rightarrow> kst option) \<Rightarrow> tmhead \<Rightarrow> kst \<Rightarrow> kst option" where
  "timer_check_loop cb h s =
     (case tmlists s h of
        [] \<Rightarrow> Some s
      | t # _ \<Rightarrow>
          if timer_expired t s then do {
            s \<leftarrow> timer_fire cb h t s;
            timer_check_loop cb h s
          } else Some s)"

definition timer_check :: "(nat \<Rightarrow> nat \<Rightarrow> kst \<Rightarrow> kst option) \<Rightarrow> tmhead \<Rightarrow> kst \<Rightarrow> kst option" where
  "timer_check cb h s = do {
     s \<leftarrow> timer_check_loop cb h (upd_tmlists (\<lambda>ls. ls(Fired h := [])) (rt_spin_lock s));
     rt_spin_unlock s
   }"

definition soft_timer_sem :: nat where
  \<comment> \<open>\<open>_soft_timer_sem\<close>\<close>
  "soft_timer_sem = 0"

definition rt_timer_check :: "(nat \<Rightarrow> nat \<Rightarrow> kst \<Rightarrow> kst option) \<Rightarrow> kst \<Rightarrow> kst option" where
  "rt_timer_check cb s = do {
     rt_assert (irq_nest s > 0);
     s \<leftarrow> (case timer_list_next_timeout SoftTimers s of
             Some next_timeout \<Rightarrow>
               if next_timeout \<le> rt_tick_get s
               then do { (_, s) \<leftarrow> rt_sem_release soft_timer_sem s; Some s } else Some s
           | None \<Rightarrow> Some s);
     timer_check cb HardTimers s
   }"

definition timer_thread_step :: "(nat \<Rightarrow> nat \<Rightarrow> kst \<Rightarrow> kst option) \<Rightarrow> kst \<Rightarrow> (int option \<times> kst) option" where
  \<comment> \<open>one round of \<open>_timer_thread_entry\<close>\<close>
  "timer_thread_step cb s = do {
     s \<leftarrow> timer_check cb SoftTimers s;
     rt_sem_take soft_timer_sem RT_WAITING_FOREVER s
   }"

definition RT_TIMER_THREAD_PRIO :: u8 where "RT_TIMER_THREAD_PRIO = 4"

definition rt_system_timer_thread_init :: "nat \<Rightarrow> kst \<Rightarrow> kst option" where
  \<comment> \<open>\<open>t\<close> is the static block \<open>_timer_thread\<close>\<close>
  "rt_system_timer_thread_init t s = do {
     let s = upd_tmlists (\<lambda>ls. ls(SoftTimers := [])) s;
     (_, s) \<leftarrow> rt_sem_init soft_timer_sem (Some ''stimer'') 0 RT_IPC_FLAG_PRIO s;
     (_, s) \<leftarrow> rt_sem_control soft_timer_sem (IPC_CMD_SET_VLIMIT 1) s;
     (_, s) \<leftarrow> rt_thread_init t (Some ''timer'') RT_TIMER_THREAD_PRIO 10 s;
     (_, s) \<leftarrow> rt_thread_startup t s;
     Some s
   }"

subsection \<open>Ticks\<close>

definition rt_tick_get_delta :: "u32 \<Rightarrow> kst \<Rightarrow> u32" where
  "rt_tick_get_delta base s =
     (let tnow = rt_tick_get s in
      if tnow \<ge> base then tnow - base else RT_TICK_MAX - base + tnow + 1)"

definition rt_tick_set :: "u32 \<Rightarrow> kst \<Rightarrow> kst" where
  "rt_tick_set t s = s\<lparr>tick := t\<rparr>"

definition rt_tick_increase_tick :: "(nat \<Rightarrow> nat \<Rightarrow> kst \<Rightarrow> kst option) \<Rightarrow> u32 \<Rightarrow> kst \<Rightarrow> kst option" where
  "rt_tick_increase_tick cb n s = do {
     rt_assert (irq_nest s > 0);
     let s = s\<lparr>tick := tick s + n\<rparr>;
     (_, s) \<leftarrow> rt_sched_tick_increase n s;
     rt_timer_check cb s
   }"

definition rt_tick_increase :: "(nat \<Rightarrow> nat \<Rightarrow> kst \<Rightarrow> kst option) \<Rightarrow> kst \<Rightarrow> kst option" where
  "rt_tick_increase cb s = do {
     rt_assert (irq_nest s > 0);
     let s = s\<lparr>tick := tick s + 1\<rparr>;
     (_, s) \<leftarrow> rt_sched_tick_increase 1 s;
     rt_timer_check cb s
   }"

definition rt_tick_get_millisecond :: "kst \<Rightarrow> u32" where
  \<comment> \<open>\<open>RT_TICK_PER_SECOND\<close> is 1000\<close>
  "rt_tick_get_millisecond s = rt_tick_get s * (1000 div 1000)"


subsection \<open>The function of a fired thread timer\<close>

definition fired_ok :: "nat \<Rightarrow> kst \<Rightarrow> bool" where
  \<comment> \<open>the kernel invariant, but for the timer of \<open>t\<close>, which has just expired\<close>
  "fired_ok t s \<longleftrightarrow> kinv (upd_tcb t (\<lambda>b. b\<lparr>t_ttmr_set := False\<rparr>) s)"

lemma sched_inv_ttmr: "sched_inv (upd_tcb t (\<lambda>b. b\<lparr>t_ttmr_set := x\<rparr>) s) = sched_inv s"
  unfolding sched_inv_def
  using tinv_cong [of "(tcbs s)(t := (tcbs s t)\<lparr>t_ttmr_set := x\<rparr>)" "tcbs s"]
    cinv_cong [of "(tcbs s)(t := (tcbs s t)\<lparr>t_ttmr_set := x\<rparr>)" "tcbs s"]
  by (simp add: same_sched_def)

lemma fired_okD:
  assumes "fired_ok t s"
  shows "sched_inv s" "crit_ok s" "timers_ok s" "live (tcbs s u) \<Longrightarrow> u \<noteq> t \<Longrightarrow> thread_ok u s"
    and "live (tcbs s t) \<Longrightarrow> thread_ok t (upd_tcb t (\<lambda>b. b\<lparr>t_ttmr_set := False\<rparr>) s)"
proof -
  let ?s = "upd_tcb t (\<lambda>b. b\<lparr>t_ttmr_set := False\<rparr>) s"
  have k: "kinv ?s" using assms by (simp only: fired_ok_def)
  show "sched_inv s" using kinvD(1) [OF k] by (simp only: sched_inv_ttmr)
  show "crit_ok s" "timers_ok s" using kinvD(2,3) [OF k] by (simp_all add: crit_ok_def)
  show "thread_ok u s" if "live (tcbs s u)" "u \<noteq> t"
    using kinv_live [OF k, of u] that by (simp add: thread_ok_def)
  show "thread_ok t ?s" if "live (tcbs s t)"
    by (rule kinv_live [OF k]) (use that in \<open>simp add: live_def\<close>)
qed

lemma fired_kinv_expire:
  assumes f: "fired_ok t s" and su: "susp_stat (tcbs s t)"
  shows "kinv (thread_expire t s)"
proof -
  note F = fired_okD [OF f]
  let ?s0 = "upd_tcb t (\<lambda>b. b\<lparr>t_error := - RT_ETIMEOUT\<rparr>) s"
  have l: "live (tcbs s t)" using su by simp
  have i0: "sched_inv ?s0"
    using F(1) unfolding sched_inv_def
    using tinv_cong [of "tcbs ?s0" "tcbs s"] cinv_cong [of "tcbs ?s0" "tcbs s"] by (simp add: same_sched_def)
  have "sched_but t (upd_tlists (st_remove t) ?s0)"
    by (rule sched_but_dequeue) (use i0 su susp_stat_disj(1) in auto)
  moreover have "link_ok (tlists s) t (tcbs s t)" using F(1) tinvD(2) by (auto simp: sched_inv_def)
  then have "runnable_ok (tcbs (upd_tlists (st_remove t) ?s0) t)"
    using link_okD(5) su by (fastforce simp: runnable_ok_def)
  ultimately have "sched_inv (thread_expire t s)"
    unfolding thread_expire_def by (rule rt_sched_insert_thread_inv)
  moreover have "threads_ok (thread_expire t s)"
    unfolding threads_ok_def
  proof (intro allI impI)
    fix u
    assume lu: "live (tcbs (thread_expire t s) u)"
    show "thread_ok u (thread_expire t s)"
    proof (cases "u = t")
      case True
      then show ?thesis using F(5) [OF l] by (auto simp: thread_ok_def thread_expire_def)
    next
      case False
      then show ?thesis using F(4) [of u] lu by (auto simp: thread_ok_def thread_expire_def)
    qed
  qed
  ultimately show ?thesis using F(2,3) by (simp add: kinv_def crit_ok_def thread_expire_def)
qed

lemma rt_schedule_current: "rt_schedule s = Some s' \<Longrightarrow> current s \<noteq> None \<Longrightarrow> current s' \<noteq> None"
  by (auto simp: rt_schedule_def Let_def elim!: bind_SomeE split: if_splits)

lemma resched_current: "rt_sched_unlock_n_resched s = Some s' \<Longrightarrow> current s \<noteq> None \<Longrightarrow> current s' \<noteq> None"
  using rt_schedule_current [of s s'] by (auto simp: rt_sched_unlock_n_resched_def split: if_splits)

lemma thread_timeout_fired:
  assumes f: "fired_ok t s" and su: "susp_stat (tcbs s t)"
  shows "\<exists>s'. thread_timeout t s = Some s' \<and> kinv s' \<and> same_ipc (thread_expire t s) s' \<and>
    (current s \<noteq> None \<longrightarrow> current s' \<noteq> None)"
proof -
  have ty: "rt_object_get_type (OThread t) s = RT_Object_Class_Thread"
    using fired_okD(5) [OF f] su by (simp add: thread_ok_def)
  from resched_total [OF fired_kinv_expire [OF f su]] obtain s' where
    "rt_sched_unlock_n_resched (thread_expire t s) = Some s'" "kinv s'" "same_ipc (thread_expire t s) s'" by blast
  moreover have "current (thread_expire t s) = current s" by (simp add: thread_expire_def)
  ultimately show ?thesis
    using su ty resched_current [of "thread_expire t s" s']
    by (auto simp: thread_timeout_def thread_expire_def rt_sched_thread_is_suspended_def)
qed

subsection \<open>Firing one timer\<close>

definition unhooked :: "tmhead \<Rightarrow> tmid \<Rightarrow> kst \<Rightarrow> kst" where
  \<comment> \<open>the expired timer is on the list of fired timers, its function not yet called\<close>
  "unhooked h tm s = upd_tmlists (st_push (Fired h) tm)
     (if tm_has RT_TIMER_FLAG_PERIODIC tm s then timer_remove tm s else timer_off tm s)"

lemma unhooked_fields [simp]:
  "tcbs (unhooked h tm s) = tcbs s" "tlists (unhooked h tm s) = tlists s" "ready_group (unhooked h tm s) = ready_group s"
  "current (unhooked h tm s) = current s" "lock_nest (unhooked h tm s) = lock_nest s"
  "crit_flag (unhooked h tm s) = crit_flag s" "irq_nest (unhooked h tm s) = irq_nest s" "tick (unhooked h tm s) = tick s"
  "timers (unhooked h tm s) = timers s" "tmlists (unhooked h tm s) = st_push (Fired h) tm (st_remove tm (tmlists s))"
  "rt_object_get_type r (unhooked h tm s) = rt_object_get_type r s"
  by (simp_all add: unhooked_def)

lemma unhooked_flags [simp]:
  "u \<noteq> tm \<Longrightarrow> tm_has k u (unhooked h tm s) = tm_has k u s"
  "tm_has RT_TIMER_FLAG_SOFT_TIMER u (unhooked h tm s) = tm_has RT_TIMER_FLAG_SOFT_TIMER u s"
  "tm_has RT_TIMER_FLAG_THREAD_TIMER u (unhooked h tm s) = tm_has RT_TIMER_FLAG_THREAD_TIMER u s"
  "tm_has RT_TIMER_FLAG_PERIODIC u (unhooked h tm s) = tm_has RT_TIMER_FLAG_PERIODIC u s"
  by (auto simp: unhooked_def tm_has_def tm_flag_def timer_off_def tm_clear_def timer_remove_def and.assoc
      RT_TIMER_FLAG_ACTIVATED_def RT_TIMER_FLAG_SOFT_TIMER_def RT_TIMER_FLAG_THREAD_TIMER_def RT_TIMER_FLAG_PERIODIC_def)

lemma unhooked_timers_ok:
  assumes ok: "timers_ok s"
  shows "timers_ok (unhooked h tm s)"
proof -
  have "store_ok (st_push (Fired h) tm (st_remove tm (tmlists s)))"
    using ok by (auto simp: timers_ok_def)
  moreover have "tm_has RT_TIMER_FLAG_ACTIVATED u (unhooked h tm s) \<and> h' = timer_list_of u (unhooked h tm s)"
    if u: "u \<in> set (tmlists (unhooked h tm s) h')" and h': "h' = HardTimers \<or> h' = SoftTimers" for u h'
  proof -
    have "u \<noteq> tm" "u \<in> set (tmlists s h')" using u h' by auto
    moreover from this(2) have "tm_has RT_TIMER_FLAG_ACTIVATED u s" "h' = timer_list_of u s"
      using ok h' unfolding timers_ok_def by blast+
    ultimately show ?thesis by (simp add: timer_list_of_def)
  qed
  ultimately show ?thesis by (simp add: timers_ok_def)
qed

lemma unhooked_kinv:
  assumes k: "kinv s"
  shows "fired_ok t (unhooked h (ThreadTimer t) s)" and "kinv (unhooked h (UserTimer n) s)"
proof -
  have c: "sched_inv (unhooked h tm s)" "crit_ok (unhooked h tm s)" for tm
    using k by (simp_all add: kinv_def sched_inv_def crit_ok_def)
  have t: "threads_ok (unhooked h (UserTimer n) s)"
    using k by (auto simp: kinv_def threads_ok_def thread_ok_def)
  with c unhooked_timers_ok k show "kinv (unhooked h (UserTimer n) s)" by (simp add: kinv_def)
  let ?s = "unhooked h (ThreadTimer t) s" and ?s' = "upd_tcb t (\<lambda>b. b\<lparr>t_ttmr_set := False\<rparr>) (unhooked h (ThreadTimer t) s)"
  have "sched_inv ?s' = sched_inv ?s"
    unfolding sched_inv_def using tinv_cong [of "tcbs ?s'" "tcbs ?s"] cinv_cong [of "tcbs ?s'" "tcbs ?s"]
    by (simp add: same_sched_def)
  moreover have "threads_ok ?s'"
    unfolding threads_ok_def
  proof (intro allI impI)
    fix u
    assume "live (tcbs ?s' u)"
    then have "live (tcbs s u)" by (auto simp: live_def split: if_splits)
    with kinv_live [OF k] show "thread_ok u ?s'" by (cases "u = t") (auto simp: thread_ok_def)
  qed
  ultimately show "fired_ok t ?s"
    using c unhooked_timers_ok k by (simp add: fired_ok_def kinv_def crit_ok_def)
qed


lemma unhooked_nest: "(unhooked h tm s)\<lparr>lock_nest := n\<rparr> = unhooked h tm (s\<lparr>lock_nest := n\<rparr>)"
  by (simp add: unhooked_def timer_off_def tm_clear_def timer_remove_def tm_has_def tm_flag_def)

lemma timer_fire_unhooked:
  "timer_fire cb h tm s = do {
     s \<leftarrow> rt_spin_unlock (unhooked h tm s);
     s \<leftarrow> call_timeout cb (tm_func (timers s tm)) (tm_parameter (timers s tm)) s;
     let s = rt_spin_lock s;
     if tmlists s (Fired h) = [] then Some s
     else do {
       let s = upd_tmlists (st_remove tm) s;
       Some (if tm_has RT_TIMER_FLAG_PERIODIC tm s \<and> tm_has RT_TIMER_FLAG_ACTIVATED tm s
             then timer_start h tm (tm_clear RT_TIMER_FLAG_ACTIVATED tm s) else s)
     }
   }"
  by (cases "tm_has RT_TIMER_FLAG_PERIODIC tm s")
    (simp_all add: timer_fire_def unhooked_def timer_off_def Let_def tm_has_def)

lemma timer_list_of_tmlists [simp]: "timer_list_of tm (s\<lparr>tmlists := a\<rparr>) = timer_list_of tm s"
  by (simp add: timer_list_of_def)

lemma kinv_tm_remove:
  assumes "kinv s"
  shows "kinv (upd_tmlists (st_remove tm) s)"
proof -
  have "timers_ok (upd_tmlists (st_remove tm) s)"
    using kinvD(3) [OF assms] by (auto simp: timers_ok_def)
  with assms show ?thesis by (simp add: kinv_def sched_inv_def crit_ok_def threads_ok_def thread_ok_def)
qed

lemma kinv_restart:
  assumes k: "kinv s" and u: "\<And>h. UserTimer n \<notin> set (tmlists s h)" and h: "h = timer_list_of (UserTimer n) s"
  shows "kinv (timer_start h (UserTimer n) (tm_clear RT_TIMER_FLAG_ACTIVATED (UserTimer n) s))"
proof -
  let ?c = "tm_clear RT_TIMER_FLAG_ACTIVATED (UserTimer n) s"
  have fl: "x \<noteq> UserTimer n \<Longrightarrow> tm_has m x ?c = tm_has m x s" for x m by (simp add: tm_has_def)
  have so: "timer_list_of x ?c = timer_list_of x s" for x
    by (auto simp: timer_list_of_def tm_has_def RT_TIMER_FLAG_ACTIVATED_def RT_TIMER_FLAG_SOFT_TIMER_def and.assoc)
  have "timers_ok ?c"
    using k u fl so unfolding kinv_def timers_ok_def tm_upd_fields by metis
  then have "timers_ok (timer_start h (UserTimer n) ?c)" by (rule timers_ok_start) (simp add: h so)
  moreover have "threads_ok (timer_start h (UserTimer n) ?c)"
    using k by (auto simp: kinv_def threads_ok_def thread_ok_def tm_has_def timer_start_flag)
  ultimately show ?thesis using k by (simp add: kinv_def sched_inv_def crit_ok_def)
qed

definition unaffected :: "kst \<Rightarrow> kst \<Rightarrow> bool" where
  \<comment> \<open>timers and waits are as before\<close>
  "unaffected s s' \<longleftrightarrow> tmlists s' = tmlists s \<and> timers s' = timers s \<and> objs s' = objs s \<and> tick s' = tick s \<and>
     irq_nest s' = irq_nest s \<and> (current s \<noteq> None \<longrightarrow> current s' \<noteq> None) \<and>
     (\<forall>u. susp_stat (tcbs s' u) = susp_stat (tcbs s u) \<and> t_error (tcbs s' u) = t_error (tcbs s u))"

definition quiet :: "(nat \<Rightarrow> nat \<Rightarrow> kst \<Rightarrow> kst option) \<Rightarrow> bool" where
  \<comment> \<open>the functions of the user timers return, and touch neither timers nor the waits of threads\<close>
  "quiet cb \<longleftrightarrow> (\<forall>n p s. kinv s \<longrightarrow> (\<exists>s'. cb n p s = Some s' \<and> kinv s' \<and> unaffected s s'))"

definition due_ok :: "tmid \<Rightarrow> kst \<Rightarrow> bool" where
  \<comment> \<open>a timer on a list is a one-shot timer of a waiting thread, or a user timer whose period, if it has one, is positive\<close>
  "due_ok tm s \<longleftrightarrow>
     (case tm of
        ThreadTimer t \<Rightarrow> tm_func (timers s tm) = Thread_timeout \<and> tm_parameter (timers s tm) = t \<and>
          susp_stat (tcbs s t) \<and> \<not> tm_has RT_TIMER_FLAG_PERIODIC tm s
      | UserTimer _ \<Rightarrow> (\<exists>n. tm_func (timers s tm) = User_func n) \<and>
          (tm_has RT_TIMER_FLAG_PERIODIC tm s \<longrightarrow> 0 < tm_init_tick (timers s tm) \<and> tm_init_tick (timers s tm) \<le> HALF_TICKS))"

definition fired :: "tmhead \<Rightarrow> tmid \<Rightarrow> kst \<Rightarrow> kst \<Rightarrow> bool" where
  \<comment> \<open>from \<open>s\<close> to \<open>s'\<close> timer \<open>tm\<close> of list \<open>h\<close> was handled\<close>
  "fired h tm s s' \<longleftrightarrow> locked_ok s' \<and> irq_nest s' = irq_nest s \<and> tick s' = tick s \<and>
     (current s \<noteq> None \<longrightarrow> current s' \<noteq> None) \<and> tmlists s' (Fired h) = [] \<and>
     (\<forall>g. g \<noteq> h \<longrightarrow> tmlists s g = [] \<longrightarrow> tmlists s' g = []) \<and>
     (\<forall>x. tm_has RT_TIMER_FLAG_PERIODIC x s' = tm_has RT_TIMER_FLAG_PERIODIC x s) \<and>
     timers s' = (if tm_has RT_TIMER_FLAG_PERIODIC tm s
         then (timers s)(tm := (timers s tm)\<lparr>tm_timeout_tick := tick s + tm_init_tick (timers s tm)\<rparr>) else timers s) \<and>
     tmlists s' h = (if tm_has RT_TIMER_FLAG_PERIODIC tm s then
         ins_before (later_than (tick s + tm_init_tick (timers s tm)) (timers s')) tm (removeAll tm (tmlists s h))
       else removeAll tm (tmlists s h)) \<and>
     (\<forall>u. if tm = ThreadTimer u then \<not> susp_stat (tcbs s' u) \<and> t_error (tcbs s' u) = - RT_ETIMEOUT
          else susp_stat (tcbs s' u) = susp_stat (tcbs s u) \<and> t_error (tcbs s' u) = t_error (tcbs s u))"

lemma fire_thread:
  assumes lo: "locked_ok s" and h: "h = HardTimers \<or> h = SoftTimers"
    and f: "tmlists s (Fired h) = []" and d: "due_ok (ThreadTimer t) s"
  shows "\<exists>s'. timer_fire cb h (ThreadTimer t) s = Some s' \<and> fired h (ThreadTimer t) s s'"
proof -
  let ?tm = "ThreadTimer t"
  let ?S = "unhooked h ?tm (s\<lparr>lock_nest := lock_nest s - 1\<rparr>)"
  have D: "tm_func (timers s ?tm) = Thread_timeout" "tm_parameter (timers s ?tm) = t" "susp_stat (tcbs s t)"
    "\<not> tm_has RT_TIMER_FLAG_PERIODIC ?tm s" using d by (simp_all add: due_ok_def)
  have u: "rt_spin_unlock (unhooked h ?tm s) = Some ?S"
    using lo spin_unlock_lock [of "unhooked h ?tm s" "lock_nest s - 1"] by (simp add: locked_ok_def unhooked_nest)
  have "fired_ok t ?S" by (rule unhooked_kinv(1) [OF locked_ok_unlock(2) [OF lo]])
  moreover have "susp_stat (tcbs ?S t)" using D(3) by simp
  ultimately obtain s2 where s2: "thread_timeout t ?S = Some s2" "kinv s2" "same_ipc (thread_expire t ?S) s2"
    "current s \<noteq> None \<longrightarrow> current s2 \<noteq> None"
    using thread_timeout_fired [of t ?S] by auto
  let ?s' = "upd_tmlists (st_remove ?tm) (rt_spin_lock s2)"
  have e: "tmlists s2 = st_push (Fired h) ?tm (st_remove ?tm (tmlists s))" "timers s2 = timers s" "tick s2 = tick s"
    "objs s2 = objs ?S" "irq_nest s2 = irq_nest s"
    "\<And>v. susp_stat (tcbs s2 v) = susp_stat (tcbs (thread_expire t ?S) v)"
    "\<And>v. t_error (tcbs s2 v) = t_error (tcbs (thread_expire t ?S) v)"
    using s2(3) by (simp_all add: same_ipc_def) (simp_all add: thread_expire_def)
  have p: "tm_has RT_TIMER_FLAG_PERIODIC x s2 = tm_has RT_TIMER_FLAG_PERIODIC x s" for x
    using unhooked_flags(4) [of x h ?tm "s\<lparr>lock_nest := lock_nest s - 1\<rparr>"] e(4) by (simp add: tm_has_def tm_flag_def)
  have run: "timer_fire cb h ?tm s = Some ?s'"
    using u s2(1) D p [of ?tm] e(1) by (simp add: timer_fire_unhooked call_timeout_def Let_def)
  have "locked_ok ?s'"
    using locked_ok_update [OF locked_ok_lock [OF s2(2)], of ?s'] kinv_tm_remove [OF kinv_lock [OF s2(2)]] by simp
  moreover have "susp_stat (tcbs (thread_expire t ?S) v) \<longleftrightarrow> v \<noteq> t \<and> susp_stat (tcbs s v)"
    "t_error (tcbs (thread_expire t ?S) v) = (if v = t then - RT_ETIMEOUT else t_error (tcbs s v))" for v
    by (auto simp: thread_expire_def)
  moreover have "tmlists ?s' (Fired h) = []" "tmlists ?s' h = removeAll ?tm (tmlists s h)"
    using f h by (auto simp: e)
  moreover have "tmlists ?s' g = []" if "tmlists s g = []" for g
    using that by (cases "g = Fired h") (simp_all add: e)
  ultimately have "fired h ?tm s ?s'" using D(4) p s2(4) unfolding fired_def by (simp add: e)
  with run show ?thesis by blast
qed

lemma fire_user:
  assumes lo: "locked_ok s" and h: "h = HardTimers \<or> h = SoftTimers"
    and f: "tmlists s (Fired h) = []" and d: "due_ok (UserTimer n) s" and q: "quiet cb"
    and i: "UserTimer n \<in> set (tmlists s h)"
  shows "\<exists>s'. timer_fire cb h (UserTimer n) s = Some s' \<and> fired h (UserTimer n) s s'"
proof -
  let ?tm = "UserTimer n"
  let ?S = "unhooked h ?tm (s\<lparr>lock_nest := lock_nest s - 1\<rparr>)"
  obtain fn where fn: "tm_func (timers s ?tm) = User_func fn" using d by (auto simp: due_ok_def)
  have u: "rt_spin_unlock (unhooked h ?tm s) = Some ?S"
    using lo spin_unlock_lock [of "unhooked h ?tm s" "lock_nest s - 1"] by (simp add: locked_ok_def unhooked_nest)
  have "kinv ?S" by (rule unhooked_kinv(2) [OF locked_ok_unlock(2) [OF lo]])
  then obtain s2 where s2: "cb fn (tm_parameter (timers s ?tm)) ?S = Some s2" "kinv s2" "unaffected ?S s2"
    using q unfolding quiet_def by blast
  let ?s3 = "upd_tmlists (st_remove ?tm) (rt_spin_lock s2)"
  have e: "tmlists s2 = st_push (Fired h) ?tm (st_remove ?tm (tmlists s))" "timers s2 = timers s" "tick s2 = tick s"
    "objs s2 = objs ?S" "irq_nest s2 = irq_nest s" "\<And>v. susp_stat (tcbs s2 v) = susp_stat (tcbs s v)"
    "\<And>v. t_error (tcbs s2 v) = t_error (tcbs s v)" "current s \<noteq> None \<longrightarrow> current s2 \<noteq> None"
    using s2(3) by (simp_all add: unaffected_def)
  have p: "tm_has RT_TIMER_FLAG_PERIODIC x s2 = tm_has RT_TIMER_FLAG_PERIODIC x s" for x
    using unhooked_flags(4) [of x h ?tm "s\<lparr>lock_nest := lock_nest s - 1\<rparr>"] e(4) by (simp add: tm_has_def tm_flag_def)
  have k3: "kinv ?s3" by (rule kinv_tm_remove [OF kinv_lock [OF s2(2)]])
  show ?thesis
  proof (cases "tm_has RT_TIMER_FLAG_PERIODIC ?tm s")
    case False
    have "timer_fire cb h ?tm s = Some ?s3"
      using u s2(1) fn p [of ?tm] e(1) False by (simp add: timer_fire_unhooked call_timeout_def Let_def)
    moreover have "locked_ok ?s3" using locked_ok_update [OF locked_ok_lock [OF s2(2)] k3] by simp
    moreover have "tmlists ?s3 g = []" if "tmlists s g = []" for g
      using that by (cases "g = Fired h") (simp_all add: e)
    moreover have "tmlists ?s3 (Fired h) = []" "tmlists ?s3 h = removeAll ?tm (tmlists s h)" using f h by (auto simp: e)
    ultimately show ?thesis using False p e(8) by (intro exI [of _ ?s3]) (simp add: fired_def e)
  next
    case True
    have act: "tm_has RT_TIMER_FLAG_ACTIVATED ?tm s" "h = timer_list_of ?tm s"
      using kinvD(3) lo i h unfolding locked_ok_def timers_ok_def by blast+
    have "objs ?S = objs s" using True by (simp add: unhooked_def timer_remove_def tm_has_def tm_flag_def)
    then have fl: "tm_has k x s2 = tm_has k x s" for k x using e(4) by (simp add: tm_has_def tm_flag_def)
    let ?s4 = "timer_start h ?tm (tm_clear RT_TIMER_FLAG_ACTIVATED ?tm ?s3)"
    have run: "timer_fire cb h ?tm s = Some ?s4"
      using u s2(1) fn fl e(1) True act(1) by (simp add: timer_fire_unhooked call_timeout_def Let_def)
    have k4: "kinv ?s4"
      by (rule kinv_restart [OF k3]) (use act(2) fl in \<open>simp_all add: timer_list_of_def\<close>)
    have "locked_ok ?s4" using locked_ok_update [OF locked_ok_lock [OF s2(2)] k4] by simp
    moreover have "tm_has RT_TIMER_FLAG_PERIODIC x ?s4 = tm_has RT_TIMER_FLAG_PERIODIC x s" for x
      using fl [of RT_TIMER_FLAG_PERIODIC x]
      by (auto simp: tm_has_def timer_start_flag RT_TIMER_FLAG_ACTIVATED_def RT_TIMER_FLAG_PERIODIC_def
          bit.conj_disj_distrib2 and.assoc)
    moreover have "timers ?s4 = (timers s)(?tm := (timers s ?tm)\<lparr>tm_timeout_tick := tick s + tm_init_tick (timers s ?tm)\<rparr>)"
      by (simp add: timer_start_def Let_def e rt_tick_get_def)
    moreover have "tmlists ?s4 (Fired h) = []"
      using f h by (auto simp: e timer_start_list Let_def)
    moreover have "tmlists ?s4 h = ins_before (later_than (tick s + tm_init_tick (timers s ?tm)) (timers ?s4)) ?tm
        (removeAll ?tm (tmlists s h))"
      unfolding calculation(3) using h by (auto simp: e timer_start_list Let_def)
    moreover have "irq_nest ?s4 = irq_nest s" "tick ?s4 = tick s" "\<And>v. tcbs ?s4 v = tcbs s2 v" by (simp_all add: e)
    moreover have "tmlists ?s4 g = []" if "tmlists s g = []" "g \<noteq> h" for g
      using that by (cases "g = Fired h") (auto simp: e timer_start_list Let_def)
    moreover have "current ?s4 = current s2" by simp
    ultimately have "fired h ?tm s ?s4" using True e(6-8) unfolding fired_def by simp
    with run show ?thesis by blast
  qed
qed


subsection \<open>The loop over the expired timers\<close>

definition handled :: "tmhead \<Rightarrow> kst \<Rightarrow> kst \<Rightarrow> bool" where
  \<comment> \<open>from \<open>s\<close> to \<open>s'\<close> some expired timers of list \<open>h\<close> were handled, and nothing else\<close>
  "handled h s s' \<longleftrightarrow> locked_ok s' \<and> irq_nest s' = irq_nest s \<and> tick s' = tick s \<and> tmlists s' (Fired h) = [] \<and>
     (current s \<noteq> None \<longrightarrow> current s' \<noteq> None) \<and> (\<forall>g. g \<noteq> h \<longrightarrow> tmlists s g = [] \<longrightarrow> tmlists s' g = []) \<and>
     (\<forall>x. tm_has RT_TIMER_FLAG_PERIODIC x s' = tm_has RT_TIMER_FLAG_PERIODIC x s \<and>
          tm_init_tick (timers s' x) = tm_init_tick (timers s x) \<and> tm_func (timers s' x) = tm_func (timers s x) \<and>
          tm_parameter (timers s' x) = tm_parameter (timers s x)) \<and>
     (\<forall>x. \<not> (timer_expired x s \<and> tm_has RT_TIMER_FLAG_PERIODIC x s) \<longrightarrow> timers s' x = timers s x) \<and>
     (\<forall>x \<in> set (tmlists s' h). x \<in> set (tmlists s h)) \<and>
     (\<forall>x \<in> set (tmlists s h). x \<in> set (tmlists s' h) \<or> timer_expired x s \<and> \<not> tm_has RT_TIMER_FLAG_PERIODIC x s) \<and>
     (\<forall>u. if ThreadTimer u \<in> set (tmlists s h) \<and> ThreadTimer u \<notin> set (tmlists s' h)
          then \<not> susp_stat (tcbs s' u) \<and> t_error (tcbs s' u) = - RT_ETIMEOUT
          else susp_stat (tcbs s' u) = susp_stat (tcbs s u) \<and> t_error (tcbs s' u) = t_error (tcbs s u))"

lemma handled_refl: "locked_ok s \<Longrightarrow> tmlists s (Fired h) = [] \<Longrightarrow> handled h s s"
  by (simp add: handled_def)

lemma handled_trans:
  assumes a: "handled h s s1" and b: "handled h s1 s'" and new: "\<And>x. timer_expired x s1 \<Longrightarrow> timer_expired x s"
  shows "handled h s s'"
proof -
  note A = a [unfolded handled_def] and B = b [unfolded handled_def]
  have sub: "x \<in> set (tmlists s1 h) \<Longrightarrow> x \<in> set (tmlists s h)" "x \<in> set (tmlists s' h) \<Longrightarrow> x \<in> set (tmlists s1 h)" for x
    using A B by blast+
  have "if ThreadTimer u \<in> set (tmlists s h) \<and> ThreadTimer u \<notin> set (tmlists s' h)
          then \<not> susp_stat (tcbs s' u) \<and> t_error (tcbs s' u) = - RT_ETIMEOUT
          else susp_stat (tcbs s' u) = susp_stat (tcbs s u) \<and> t_error (tcbs s' u) = t_error (tcbs s u)" for u
    using A B sub [of "ThreadTimer u"] by (cases "ThreadTimer u \<in> set (tmlists s1 h)") (metis, metis)
  moreover have "timers s' x = timers s x" if "\<not> (timer_expired x s \<and> tm_has RT_TIMER_FLAG_PERIODIC x s)" for x
    using A B that new [of x] by metis
  moreover have "x \<in> set (tmlists s' h) \<or> timer_expired x s \<and> \<not> tm_has RT_TIMER_FLAG_PERIODIC x s"
    if "x \<in> set (tmlists s h)" for x
    using A B that new [of x] by metis
  ultimately show ?thesis
    using A B sub unfolding handled_def by simp
qed

lemma ins_before_sorted_timers:
  assumes so: "timers_sorted base h s" and f: "fired h tm s s'"
    and new: "tm_has RT_TIMER_FLAG_PERIODIC tm s \<Longrightarrow> unat (tick s + tm_init_tick (timers s tm) - base) < unat HALF_TICKS"
  shows "timers_sorted base h s'"
proof (cases "tm_has RT_TIMER_FLAG_PERIODIC tm s")
  case True
  have "tmlists s' h = tmlists (timer_start h tm s) h"
    using f True by (simp add: fired_def timer_start_list Let_def)
  moreover have "timers s' = timers (timer_start h tm s)"
    using f True by (simp add: fired_def timer_start_def Let_def rt_tick_get_def)
  then have "ticks_until base s' = ticks_until base (timer_start h tm s)" by (auto simp: ticks_until_def)
  ultimately show ?thesis using timer_start_sorted(1) [OF so new [OF True]] by (simp add: timers_sorted_def)
next
  case False
  have e: "ticks_until base s' = ticks_until base s" "tmlists s' h = removeAll tm (tmlists s h)"
    using f False by (auto simp: fired_def ticks_until_def)
  then show ?thesis
    using so sorted_filter [of "ticks_until base s" "tmlists s h"]
    by (simp add: timers_sorted_def removeAll_filter_not_eq)
qed

lemma expired_iff:
  assumes "unat (tick s - base) < unat HALF_TICKS" and "ticks_until base s x < unat HALF_TICKS"
  shows "timer_expired x s \<longleftrightarrow> ticks_until base s x \<le> unat (tick s - base)"
proof -
  let ?d = "tick s - tm_timeout_tick (timers s x)"
  have h: "(?d \<noteq> 0 \<and> ?d < HALF_TICKS) \<longleftrightarrow> ticks_until base s x < unat (tick s - base)"
    using half_diff [of "tick s" base "tm_timeout_tick (timers s x)"] assms by (simp add: ticks_until_def)
  show ?thesis
  proof (cases "?d = 0")
    case True
    then show ?thesis by (simp add: timer_expired_def rt_tick_get_def ticks_until_def HALF_TICKS_val)
  next
    case False
    then have "tm_timeout_tick (timers s x) - base \<noteq> tick s - base" by simp
    then have "ticks_until base s x \<noteq> unat (tick s - base)" unfolding ticks_until_def word_unat_eq_iff .
    with h False show ?thesis by (auto simp: timer_expired_def rt_tick_get_def)
  qed
qed

lemma restarted_not_expired:
  assumes "0 < i" and "i \<le> HALF_TICKS"
  shows "\<not> (t - (t + i) < HALF_TICKS)"
proof -
  have "unat i > 0" using assms(1) by (simp add: word_less_nat_alt)
  then have "unat (0 - i) = 2 ^ 32 - unat i" by (subst unat_sub_if') simp
  then have "unat (- i) = 2 ^ 32 - unat i" by simp
  moreover have "unat i \<le> 2147483647" using assms(2) by (simp add: HALF_TICKS_val word_le_nat_alt)
  ultimately have "2147483647 < unat (- i)" by simp
  then show ?thesis by (simp add: HALF_TICKS_val word_less_nat_alt)
qed


definition check_ok :: "(nat \<Rightarrow> nat \<Rightarrow> kst \<Rightarrow> kst option) \<Rightarrow> u32 \<Rightarrow> tmhead \<Rightarrow> kst \<Rightarrow> bool" where
  \<comment> \<open>what the loop needs: seen from \<open>base\<close>, the timers of the list and their next periods lie within half the range of ticks\<close>
  "check_ok cb base h s \<longleftrightarrow> quiet cb \<and> timers_sorted base h s \<and> unat (tick s - base) < unat HALF_TICKS \<and>
     (\<forall>x \<in> set (tmlists s h). due_ok x s \<and>
        (tm_has RT_TIMER_FLAG_PERIODIC x s \<longrightarrow> unat (tick s + tm_init_tick (timers s x) - base) < unat HALF_TICKS))"

lemma fired_step:
  assumes lo: "locked_ok s" and h: "h = HardTimers \<or> h = SoftTimers" and f: "tmlists s (Fired h) = []"
    and c: "check_ok cb base h s" and l: "tmlists s h = tm # tms" and e: "timer_expired tm s"
  shows "\<exists>s1. timer_fire cb h tm s = Some s1 \<and> handled h s s1 \<and> check_ok cb base h s1 \<and>
    {x \<in> set (tmlists s1 h). timer_expired x s1} = {x \<in> set (tmlists s h). timer_expired x s} - {tm} \<and>
    (\<forall>x. timer_expired x s1 \<longrightarrow> timer_expired x s)"
proof -
  have d: "due_ok tm s" "quiet cb" using c l by (simp_all add: check_ok_def)
  obtain s1 where s1: "timer_fire cb h tm s = Some s1" "fired h tm s s1"
  proof (cases tm)
    case (ThreadTimer t)
    with fire_thread [OF lo h f] d(1) that show ?thesis by blast
  next
    case (UserTimer n)
    with fire_user [OF lo h f _ d(2)] d(1) l that show ?thesis by fastforce
  qed
  note F = s1(2) [unfolded fired_def]
  have in1: "x \<in> set (tmlists s1 h) \<longleftrightarrow> x \<in> set (tmlists s h) \<and> (x = tm \<longrightarrow> tm_has RT_TIMER_FLAG_PERIODIC tm s)" for x
    using F l by auto
  have per: "tm_has RT_TIMER_FLAG_PERIODIC tm s \<Longrightarrow> \<exists>n. tm = UserTimer n"
    using d(1) by (cases tm) (auto simp: due_ok_def)
  have ex1: "timer_expired x s1 \<longleftrightarrow> timer_expired x s \<and> \<not> (x = tm \<and> tm_has RT_TIMER_FLAG_PERIODIC tm s)" for x
  proof (cases "x = tm \<and> tm_has RT_TIMER_FLAG_PERIODIC tm s")
    case True
    then have "0 < tm_init_tick (timers s tm)" "tm_init_tick (timers s tm) \<le> HALF_TICKS"
      using d(1) per by (auto simp: due_ok_def)
    with restarted_not_expired [of "tm_init_tick (timers s tm)" "tick s"] True F
    show ?thesis by (simp add: timer_expired_def rt_tick_get_def)
  next
    case False
    with F show ?thesis by (auto simp: timer_expired_def rt_tick_get_def)
  qed
  have thr: "if ThreadTimer u \<in> set (tmlists s h) \<and> ThreadTimer u \<notin> set (tmlists s1 h)
      then \<not> susp_stat (tcbs s1 u) \<and> t_error (tcbs s1 u) = - RT_ETIMEOUT
      else susp_stat (tcbs s1 u) = susp_stat (tcbs s u) \<and> t_error (tcbs s1 u) = t_error (tcbs s u)" for u
    using F in1 [of "ThreadTimer u"] l per by (cases "tm = ThreadTimer u") auto
  have tms: "tm_init_tick (timers s1 x) = tm_init_tick (timers s x)" "tm_func (timers s1 x) = tm_func (timers s x)"
    "tm_parameter (timers s1 x) = tm_parameter (timers s x)" for x
    using F by (auto simp: fun_upd_def)
  have "handled h s s1"
    unfolding handled_def using F in1 thr tms e l by (auto simp: fun_upd_def)
  moreover have "check_ok cb base h s1"
  proof -
    have "timers_sorted base h s1"
      by (rule ins_before_sorted_timers [OF _ s1(2)]) (use c l in \<open>auto simp: check_ok_def\<close>)
    moreover have "due_ok x s1" if "x \<in> set (tmlists s1 h)" for x
    proof -
      have "due_ok x s" "x \<in> set (tmlists s h)" using that in1 c by (auto simp: check_ok_def)
      then show ?thesis using thr that F tms by (cases x) (auto simp: due_ok_def)
    qed
    moreover have "unat (tick s1 + tm_init_tick (timers s1 x) - base) < unat HALF_TICKS"
      if "x \<in> set (tmlists s1 h)" "tm_has RT_TIMER_FLAG_PERIODIC x s1" for x
      using that in1 c F tms by (auto simp: check_ok_def)
    ultimately show ?thesis using c F unfolding check_ok_def by simp
  qed
  moreover have "{x \<in> set (tmlists s1 h). timer_expired x s1} = {x \<in> set (tmlists s h). timer_expired x s} - {tm}"
    using in1 ex1 by auto
  ultimately show ?thesis using s1(1) ex1 by blast
qed

lemma timer_check_loop_run:
  assumes "h = HardTimers \<or> h = SoftTimers" and "locked_ok s" and "tmlists s (Fired h) = []" and "check_ok cb base h s"
  shows "\<exists>s'. timer_check_loop cb h s = Some s' \<and> handled h s s' \<and> (\<forall>x \<in> set (tmlists s' h). \<not> timer_expired x s') \<and>
    check_ok cb base h s'"
  using assms(2-)
proof (induction "card {x \<in> set (tmlists s h). timer_expired x s}" arbitrary: s rule: less_induct)
  case less
  note h = assms(1) and lo = less.prems(1) and f = less.prems(2) and c = less.prems(3)
  show ?case
  proof (cases "tmlists s h")
    case Nil
    then show ?thesis
      using handled_refl [OF lo f] c by (subst timer_check_loop.simps) simp
  next
    case (Cons tm tms)
    show ?thesis
    proof (cases "timer_expired tm s")
      case False
      have so: "timers_sorted base h s" "unat (tick s - base) < unat HALF_TICKS" using c by (simp_all add: check_ok_def)
      have ti: "ticks_until base s x < unat HALF_TICKS" if "x \<in> set (tmlists s h)" for x
        using so(1) that by (simp add: timers_sorted_def)
      have "\<not> timer_expired x s" if x: "x \<in> set (tmlists s h)" for x
      proof -
        have "ticks_until base s tm \<le> ticks_until base s x"
          using so(1) x Cons by (auto simp: timers_sorted_def)
        then show ?thesis using False expired_iff [OF so(2) ti [OF x]] expired_iff [OF so(2) ti, of tm] Cons by simp
      qed
      then show ?thesis
        using handled_refl [OF lo f] c False Cons by (subst timer_check_loop.simps) simp
    next
      case True
      obtain s1 where s1: "timer_fire cb h tm s = Some s1" "handled h s s1" "check_ok cb base h s1"
        "{x \<in> set (tmlists s1 h). timer_expired x s1} = {x \<in> set (tmlists s h). timer_expired x s} - {tm}"
        "\<And>x. timer_expired x s1 \<Longrightarrow> timer_expired x s"
        using fired_step [OF lo h f c Cons True] by blast
      have "card {x \<in> set (tmlists s1 h). timer_expired x s1} < card {x \<in> set (tmlists s h). timer_expired x s}"
        unfolding s1(4) by (rule psubset_card_mono) (use Cons True in auto)
      moreover have "locked_ok s1" "tmlists s1 (Fired h) = []" using s1(2) by (simp_all add: handled_def)
      ultimately obtain s' where s': "timer_check_loop cb h s1 = Some s'" "handled h s1 s'"
        "\<forall>x \<in> set (tmlists s' h). \<not> timer_expired x s'" "check_ok cb base h s'"
        using less.hyps [of s1] s1(3) by blast
      have "timer_check_loop cb h s = Some s'"
        using Cons True s1(1) s'(1) by (subst timer_check_loop.simps) simp
      with handled_trans [OF s1(2) s'(2) s1(5)] s'(3,4) show ?thesis by blast
    qed
  qed
qed

definition checked :: "tmhead \<Rightarrow> kst \<Rightarrow> kst \<Rightarrow> bool" where
  \<comment> \<open>from \<open>s\<close> to \<open>s'\<close> exactly the expired timers of list \<open>h\<close> were handled\<close>
  "checked h s s' \<longleftrightarrow>
     (\<forall>x. x \<in> set (tmlists s' h) \<longleftrightarrow>
          x \<in> set (tmlists s h) \<and> (timer_expired x s \<longrightarrow> tm_has RT_TIMER_FLAG_PERIODIC x s)) \<and>
     (\<forall>x \<in> set (tmlists s' h). \<not> timer_expired x s' \<and>
        (\<not> timer_expired x s \<longrightarrow> timers s' x = timers s x)) \<and>
     (\<forall>u. if ThreadTimer u \<in> set (tmlists s h) \<and> timer_expired (ThreadTimer u) s
          then \<not> susp_stat (tcbs s' u) \<and> t_error (tcbs s' u) = - RT_ETIMEOUT
          else susp_stat (tcbs s' u) = susp_stat (tcbs s u) \<and> t_error (tcbs s' u) = t_error (tcbs s u)) \<and>
     (\<forall>g. g \<noteq> h \<longrightarrow> tmlists s g = [] \<longrightarrow> tmlists s' g = []) \<and> tick s' = tick s \<and> irq_nest s' = irq_nest s \<and>
     (current s \<noteq> None \<longrightarrow> current s' \<noteq> None)"

lemma timer_check_run:
  assumes k: "kinv s" and h: "h = HardTimers \<or> h = SoftTimers" and c: "check_ok cb base h s"
  shows "\<exists>s'. timer_check cb h s = Some s' \<and> kinv s' \<and> checked h s s' \<and> check_ok cb base h s' \<and>
    (\<forall>x. tm_init_tick (timers s' x) = tm_init_tick (timers s x) \<and>
       tm_has RT_TIMER_FLAG_PERIODIC x s' = tm_has RT_TIMER_FLAG_PERIODIC x s)"
proof -
  let ?s0 = "upd_tmlists (\<lambda>ls. ls(Fired h := [])) (rt_spin_lock s)"
  have "timers_ok (s\<lparr>tmlists := (tmlists s)(Fired h := [])\<rparr>)"
    using kinvD(3) [OF k] by (auto simp: timers_ok_def store_ok_def)
  then have k0: "kinv ?s0"
    using kinv_lock [OF k] by (simp add: kinv_def sched_inv_def crit_ok_def threads_ok_def thread_ok_def timers_ok_def
        timer_list_of_def)
  have lo: "locked_ok ?s0" using locked_ok_update [OF locked_ok_lock [OF k] k0] by simp
  have nh: "h \<noteq> Fired h" using h by auto
  have e0: "tmlists ?s0 h = tmlists s h" "timer_expired x ?s0 = timer_expired x s"
    "tm_has m x ?s0 = tm_has m x s" "ticks_until base ?s0 = ticks_until base s" "tcbs ?s0 = tcbs s"
    "tick ?s0 = tick s" "timers ?s0 = timers s" "irq_nest ?s0 = irq_nest s" for x m
    using nh by (auto simp: timer_expired_def rt_tick_get_def ticks_until_def)
  have "due_ok x ?s0 = due_ok x s" for x by (cases x) (simp_all add: due_ok_def e0)
  moreover have "timers_sorted base h ?s0 = timers_sorted base h s" by (simp only: timers_sorted_def e0)
  ultimately have "check_ok cb base h ?s0"
    using c e0(1,3) unfolding check_ok_def by simp
  from timer_check_loop_run [OF h lo _ this] obtain s1 where s1: "timer_check_loop cb h ?s0 = Some s1"
    "handled h ?s0 s1" "\<forall>x \<in> set (tmlists s1 h). \<not> timer_expired x s1" "check_ok cb base h s1" by auto
  note H = s1(2) [unfolded handled_def e0]
  have lo1: "locked_ok s1" using H by blast
  note U = locked_ok_unlock [OF lo1]
  let ?s' = "s1\<lparr>lock_nest := lock_nest s1 - 1\<rparr>"
  have in1: "x \<in> set (tmlists s1 h) \<longleftrightarrow> x \<in> set (tmlists s h) \<and> (timer_expired x s \<longrightarrow> tm_has RT_TIMER_FLAG_PERIODIC x s)" for x
  proof
    assume x: "x \<in> set (tmlists s1 h)"
    then have "\<not> timer_expired x s1" using s1(3) by blast
    moreover have "timer_expired x s1 = timer_expired x s" if "\<not> (timer_expired x s \<and> tm_has RT_TIMER_FLAG_PERIODIC x s)"
    proof -
      have "timers s1 x = timers s x" "tick s1 = tick s" using H that by simp_all
      then show ?thesis by (simp add: timer_expired_def rt_tick_get_def)
    qed
    ultimately show "x \<in> set (tmlists s h) \<and> (timer_expired x s \<longrightarrow> tm_has RT_TIMER_FLAG_PERIODIC x s)" using H x by blast
  qed (use H in blast)
  have per: "\<not> tm_has RT_TIMER_FLAG_PERIODIC (ThreadTimer u) s" if "ThreadTimer u \<in> set (tmlists s h)" for u
    using c that by (auto simp: check_ok_def due_ok_def)
  have "ThreadTimer u \<in> set (tmlists s h) \<and> timer_expired (ThreadTimer u) s \<longleftrightarrow>
      ThreadTimer u \<in> set (tmlists s h) \<and> ThreadTimer u \<notin> set (tmlists s1 h)" for u
    using in1 [of "ThreadTimer u"] per [of u] by blast
  then have "if ThreadTimer u \<in> set (tmlists s h) \<and> timer_expired (ThreadTimer u) s
         then \<not> susp_stat (tcbs s1 u) \<and> t_error (tcbs s1 u) = - RT_ETIMEOUT
         else susp_stat (tcbs s1 u) = susp_stat (tcbs s u) \<and> t_error (tcbs s1 u) = t_error (tcbs s u)" for u
    using H by presburger
  moreover have ex: "timer_expired x ?s' = timer_expired x s1" for x by (simp add: timer_expired_def rt_tick_get_def)
  moreover have "timers s1 x = timers s x" if "\<not> timer_expired x s" for x using H that by blast
  moreover have "current s \<noteq> None \<longrightarrow> current s1 \<noteq> None" "tick s1 = tick s" "irq_nest s1 = irq_nest s" using H by simp_all
  moreover have "tmlists s1 g = []" if "g \<noteq> h" "tmlists s g = []" for g
  proof -
    have "tmlists ?s0 g = []" using that by simp
    with H that(1) show ?thesis by blast
  qed
  ultimately have "checked h s ?s'" using in1 s1(3) unfolding checked_def by simp
  moreover have "due_ok x ?s' = due_ok x s1" for x by (cases x) (simp_all add: due_ok_def tm_has_def tm_flag_def)
  moreover have "ticks_until base ?s' = ticks_until base s1" by (rule ext) (simp add: ticks_until_def)
  then have "timers_sorted base h ?s' = timers_sorted base h s1" unfolding timers_sorted_def by simp
  ultimately have "check_ok cb base h ?s'" using s1(4) unfolding check_ok_def by (simp add: tm_has_def tm_flag_def)
  moreover have "timer_check cb h s = Some ?s'" using s1(1) U(1) by (simp add: timer_check_def)
  moreover have "tm_has RT_TIMER_FLAG_PERIODIC x ?s' = tm_has RT_TIMER_FLAG_PERIODIC x s1" for x
    by (simp add: tm_has_def tm_flag_def)
  ultimately show ?thesis using U(2) H \<open>checked h s ?s'\<close> by (intro exI [of _ ?s']) simp
qed



end
