(* ===== verification/Ticks.thy ===== *)
theory Ticks
  imports TimerCheck
begin

text \<open>
  The tick interrupt as a whole: the handler of the board (libraries/rt_drivers/drv_common.c), its effect on
  the invariant of the timer list, and the end of a time-out after the right number of ticks.
\<close>

definition SysTick_Handler :: "(nat \<Rightarrow> nat \<Rightarrow> kst \<Rightarrow> kst option) \<Rightarrow> kst \<Rightarrow> kst option" where
  "SysTick_Handler cb s = do {
     let s = rt_interrupt_enter s;
     s \<leftarrow> rt_tick_increase cb s;
     Some (rt_interrupt_leave s)
   }"

primrec ticks_pass :: "(nat \<Rightarrow> nat \<Rightarrow> kst \<Rightarrow> kst option) \<Rightarrow> nat \<Rightarrow> kst \<Rightarrow> kst option" where
  \<comment> \<open>\<open>n\<close> tick interrupts, and nothing in between\<close>
  "ticks_pass cb 0 s = Some s"
| "ticks_pass cb (Suc n) s = do { s \<leftarrow> ticks_pass cb n s; SysTick_Handler cb s }"

definition ticking :: "(nat \<Rightarrow> nat \<Rightarrow> kst \<Rightarrow> kst option) \<Rightarrow> kst \<Rightarrow> bool" where
  \<comment> \<open>between two ticks: no timer is expired, and all expire within half the range of ticks, in list order\<close>
  "ticking cb s \<longleftrightarrow> kinv s \<and> current s \<noteq> None \<and> 0 \<le> irq_nest s \<and> quiet cb \<and> tmlists s SoftTimers = [] \<and>
     timers_sorted (tick s) HardTimers s \<and>
     (\<forall>x \<in> set (tmlists s HardTimers). \<not> timer_expired x s \<and> due_ok x s \<and>
        (tm_has RT_TIMER_FLAG_PERIODIC x s \<longrightarrow> tm_init_tick (timers s x) < HALF_TICKS - 1))"

lemma slice_run:
  assumes k: "kinv s" and c: "current s \<noteq> None"
  shows "\<exists>e s'. rt_sched_tick_increase n s = Some (e, s') \<and> kinv s' \<and> current s' \<noteq> None \<and> same_ipc s s'"
proof -
  obtain t where t: "current s = Some t" using c by blast
  let ?s1 = "upd_tcb t (\<lambda>b. if t_remaining_tick b > n then b\<lparr>t_remaining_tick := t_remaining_tick b - n\<rparr>
     else b\<lparr>t_remaining_tick := 0\<rparr>) s"
  have k1: "kinv ?s1" using k by (simp add: same_sched_def)
  have i1: "same_ipc s ?s1" by (auto simp: same_ipc_def live_def susp_stat_stat_of)
  show ?thesis
  proof (cases "t_remaining_tick (tcbs ?s1 t) = 0")
    case False
    then show ?thesis using t k1 i1 by (simp add: rt_sched_tick_increase_def rt_thread_self_def Let_def)
  next
    case True
    let ?s2 = "rt_sched_thread_yield t ?s1"
    have k2: "kinv ?s2" using k1 by (rule kinv_yield)
    have i2: "same_ipc s ?s2" using i1 by (auto simp: same_ipc_def rt_sched_thread_yield_def live_def susp_stat_stat_of)
    obtain s' where s': "rt_sched_unlock_n_resched ?s2 = Some s'" "kinv s'" "same_ipc ?s2 s'"
      using resched_total [OF k2] by blast
    have "current ?s2 \<noteq> None" using t by (simp add: rt_sched_thread_yield_def)
    then have "current s' \<noteq> None" using resched_current [OF s'(1)] by simp
    moreover have "same_ipc s s'" using i2 s'(3) by (simp add: same_ipc_def)
    ultimately show ?thesis using True t s'(1,2) by (simp add: rt_sched_tick_increase_def rt_thread_self_def Let_def)
  qed
qed

lemma unexpired_ticks:
  assumes "timers_sorted (tick s) h s" and "x \<in> set (tmlists s h)"
  shows "timer_expired x s \<longleftrightarrow> ticks_until (tick s) s x = 0"
  using expired_iff [of s "tick s" x] assms by (simp add: timers_sorted_def HALF_TICKS_val)

lemma rebase_sorted:
  assumes so: "timers_sorted base h s" and gt: "\<And>x. x \<in> set (tmlists s h) \<Longrightarrow> 0 < ticks_until base s x"
  shows "timers_sorted (base + 1) h s" and "\<And>x. x \<in> set (tmlists s h) \<Longrightarrow> ticks_until (base + 1) s x = ticks_until base s x - 1"
proof -
  show e: "ticks_until (base + 1) s x = ticks_until base s x - 1" if "x \<in> set (tmlists s h)" for x
  proof -
    let ?d = "tm_timeout_tick (timers s x) - base"
    have "?d \<noteq> 0" using gt [OF that] by (auto simp: ticks_until_def)
    then have "unat (?d - 1) = unat ?d - 1" by (rule unat_minus_one)
    moreover have "tm_timeout_tick (timers s x) - (base + 1) = ?d - 1" by simp
    ultimately show ?thesis by (simp only: ticks_until_def)
  qed
  have "sorted (map (\<lambda>x. ticks_until base s x - 1) (tmlists s h))"
    using so unfolding timers_sorted_def by (auto simp: sorted_map intro: sorted_wrt_mono_rel [of _ "\<lambda>x y. ticks_until base s x \<le> ticks_until base s y"])
  moreover have M: "map (ticks_until (base + 1) s) (tmlists s h) = map (\<lambda>x. ticks_until base s x - 1) (tmlists s h)"
    by (rule map_cong [OF refl e])
  moreover have "\<forall>x \<in> set (tmlists s h). ticks_until (base + 1) s x < unat HALF_TICKS"
    using so e by (auto simp: timers_sorted_def)
  ultimately show "timers_sorted (base + 1) h s" unfolding timers_sorted_def M by simp
qed


definition ticked :: "kst \<Rightarrow> kst \<Rightarrow> bool" where
  \<comment> \<open>exactly the timers of one remaining tick have fired\<close>
  "ticked s s' \<longleftrightarrow> tick s' = tick s + 1 \<and>
     (\<forall>u. if ThreadTimer u \<in> set (tmlists s HardTimers) \<and> ticks_until (tick s) s (ThreadTimer u) = 1
          then \<not> susp_stat (tcbs s' u) \<and> t_error (tcbs s' u) = - RT_ETIMEOUT
          else susp_stat (tcbs s' u) = susp_stat (tcbs s u) \<and> t_error (tcbs s' u) = t_error (tcbs s u)) \<and>
     (\<forall>x \<in> set (tmlists s HardTimers). 1 < ticks_until (tick s) s x \<longrightarrow>
        x \<in> set (tmlists s' HardTimers) \<and> ticks_until (tick s') s' x = ticks_until (tick s) s x - 1) \<and>
     (\<forall>u. ThreadTimer u \<in> set (tmlists s' HardTimers) \<longrightarrow> ThreadTimer u \<in> set (tmlists s HardTimers))"

lemma SysTick_run:
  assumes t: "ticking cb s"
  shows "\<exists>s'. SysTick_Handler cb s = Some s' \<and> ticking cb s' \<and> ticked s s'"
proof -
  note T = t [unfolded ticking_def]
  let ?L = "tmlists s HardTimers"
  let ?s2 = "(rt_interrupt_enter s)\<lparr>tick := tick s + 1\<rparr>"
  have "kinv ?s2" "current ?s2 \<noteq> None" using T by (simp_all add: rt_interrupt_enter_def)
  then obtain e s3 where s3: "rt_sched_tick_increase 1 ?s2 = Some (e, s3)" "kinv s3" "current s3 \<noteq> None" "same_ipc ?s2 s3"
    using slice_run by blast
  have f3: "tmlists s3 = tmlists s" "timers s3 = timers s" "objs s3 = objs s" "tick s3 = tick s + 1"
    "irq_nest s3 = irq_nest s + 1" "\<And>u. susp_stat (tcbs s3 u) = susp_stat (tcbs s u)"
    "\<And>u. t_error (tcbs s3 u) = t_error (tcbs s u)"
    using s3(4) by (simp_all add: same_ipc_def rt_interrupt_enter_def)
  have h3: "tm_has k x s3 = tm_has k x s" for k x by (simp add: tm_has_def tm_flag_def f3)
  have so: "timers_sorted (tick s) HardTimers s" using T by blast
  have u3: "ticks_until (tick s) s3 = ticks_until (tick s) s" by (rule ext) (simp add: ticks_until_def f3)
  have so3: "timers_sorted (tick s) HardTimers s3" using so by (simp add: timers_sorted_def f3 u3)
  have pos: "0 < ticks_until (tick s) s x" if "x \<in> set ?L" for x using T unexpired_ticks [OF so that] that by blast
  have d3: "due_ok x s3 = due_ok x s" for x by (cases x) (simp_all add: due_ok_def f3 h3)
  have H1: "unat (1 :: u32) < unat HALF_TICKS" by (simp add: HALF_TICKS_val)
  have per: "unat (tick s3 + tm_init_tick (timers s3 x) - tick s) < unat HALF_TICKS"
    if "x \<in> set ?L" "tm_has RT_TIMER_FLAG_PERIODIC x s" for x
  proof -
    have "tm_init_tick (timers s x) < HALF_TICKS - 1" using T that by blast
    then have lt: "unat (tm_init_tick (timers s x)) < 2147483646" by (simp add: HALF_TICKS_val word_less_nat_alt)
    then have "unat (1 + tm_init_tick (timers s x)) = 1 + unat (tm_init_tick (timers s x))" by (simp add: unat_word_ariths)
    then show ?thesis using lt by (simp add: f3 HALF_TICKS_val)
  qed
  have c3: "check_ok cb (tick s) HardTimers s3"
    using T so3 d3 per H1 unfolding check_ok_def by (simp add: f3(1,4) h3)
  obtain s4 where s4: "timer_check cb HardTimers s3 = Some s4" "kinv s4" "checked HardTimers s3 s4"
    "check_ok cb (tick s) HardTimers s4" "\<And>x. tm_init_tick (timers s4 x) = tm_init_tick (timers s3 x)"
    "\<And>x. tm_has RT_TIMER_FLAG_PERIODIC x s4 = tm_has RT_TIMER_FLAG_PERIODIC x s3"
    using timer_check_run [OF s3(2) _ c3] by blast
  note C = s4(3) [unfolded checked_def]
  have t4: "tick s4 = tick s + 1" "irq_nest s4 = irq_nest s + 1" using C by (simp_all add: f3)
  have ex3: "timer_expired x s3 \<longleftrightarrow> ticks_until (tick s) s x \<le> 1" if "x \<in> set ?L" for x
    using expired_iff [of s3 "tick s" x] so3 that H1 by (simp add: f3(1,4) u3 timers_sorted_def)
  have so4: "timers_sorted (tick s) HardTimers s4" using s4(4) by (simp add: check_ok_def)
  have gt4: "1 < ticks_until (tick s) s4 x" if x: "x \<in> set (tmlists s4 HardTimers)" for x
  proof -
    have "\<not> timer_expired x s4" using C x by blast
    then show ?thesis using expired_iff [of s4 "tick s" x] so4 x H1 by (simp add: t4 timers_sorted_def)
  qed
  note R = rebase_sorted [OF so4 less_trans [OF zero_less_one gt4]]
  let ?s' = "rt_interrupt_leave s4"
  have i3: "0 < irq_nest s3" "tmlists s3 SoftTimers = []" using T f3(5) by (simp_all add: f3(1))
  have E: "(rt_interrupt_enter s)\<lparr>tick := tick (rt_interrupt_enter s) + 1\<rparr> = ?s2" "0 < irq_nest (rt_interrupt_enter s)"
    using T by (simp_all add: rt_interrupt_enter_def)
  have tc: "rt_timer_check cb s3 = Some s4"
    using i3 s4(1) by (simp add: rt_timer_check_def timer_list_next_timeout_def)
  have run: "SysTick_Handler cb s = Some ?s'"
    using E(2) s3(1) tc unfolding SysTick_Handler_def rt_tick_increase_def Let_def E(1) by simp
  have l': "tmlists ?s' = tmlists s4" "tick ?s' = tick s4" "tcbs ?s' = tcbs s4" "timers ?s' = timers s4"
    "current ?s' = current s4" "irq_nest ?s' = irq_nest s4 - 1" "kinv ?s' = kinv s4"
    by (simp_all add: rt_interrupt_leave_def)
  have e': "ticks_until b ?s' = ticks_until b s4" "timer_expired x ?s' = timer_expired x s4"
    "due_ok x ?s' = due_ok x s4" "tm_has k x ?s' = tm_has k x s4" for b x k
    by (auto simp: rt_interrupt_leave_def ticks_until_def timer_expired_def rt_tick_get_def due_ok_def tm_has_def tm_flag_def
        split: tmid.splits)
  have "tm_init_tick (timers s4 x) < HALF_TICKS - 1" if "x \<in> set (tmlists s4 HardTimers)" "tm_has RT_TIMER_FLAG_PERIODIC x s4" for x
    using T C s4(5,6) that by (simp add: f3 h3)
  moreover have "timers_sorted (tick s + 1) HardTimers ?s'" using R(1) by (simp add: timers_sorted_def e' l')
  moreover have "current s4 \<noteq> None" "tmlists s4 SoftTimers = []" using C s3(3) T by (auto simp: f3)
  ultimately have "ticking cb ?s'"
    using T s4(2,4) C t4 unfolding ticking_def e' check_ok_def by (simp add: l')
  moreover have "ticked s ?s'"
    unfolding ticked_def
  proof (intro conjI allI ballI impI)
    show "tick ?s' = tick s + 1" using t4 by (simp add: l')
    fix u
    have eq: "ThreadTimer u \<in> set ?L \<and> ticks_until (tick s) s (ThreadTimer u) = 1 \<longleftrightarrow>
        ThreadTimer u \<in> set (tmlists s3 HardTimers) \<and> timer_expired (ThreadTimer u) s3"
      using ex3 [of "ThreadTimer u"] pos [of "ThreadTimer u"] by (auto simp: f3)
    show "if ThreadTimer u \<in> set ?L \<and> ticks_until (tick s) s (ThreadTimer u) = 1
          then \<not> susp_stat (tcbs ?s' u) \<and> t_error (tcbs ?s' u) = - RT_ETIMEOUT
          else susp_stat (tcbs ?s' u) = susp_stat (tcbs s u) \<and> t_error (tcbs ?s' u) = t_error (tcbs s u)"
      using C unfolding eq by (simp add: l' f3(6,7))
  next
    fix x assume x: "x \<in> set ?L" and gt: "1 < ticks_until (tick s) s x"
    then have ne: "\<not> timer_expired x s3" using ex3 by simp
    then show x4: "x \<in> set (tmlists ?s' HardTimers)" using C x by (simp add: l' f3)
    then have "timers s4 x = timers s x" using C ne by (simp add: l' f3)
    then have "ticks_until (tick s) s4 x = ticks_until (tick s) s x" by (simp add: ticks_until_def)
    then show "ticks_until (tick ?s') ?s' x = ticks_until (tick s) s x - 1"
      using R(2) [of x] x4 t4 by (simp add: e' l')
  next
    fix u assume "ThreadTimer u \<in> set (tmlists ?s' HardTimers)"
    then show "ThreadTimer u \<in> set ?L" using C by (simp add: l' f3)
  qed
  ultimately show ?thesis using run by blast
qed

subsection \<open>A time-out after its number of ticks\<close>

lemma ticks_pass_waiting:
  assumes "ticking cb s" and "ThreadTimer t \<in> set (tmlists s HardTimers)"
    and "n < ticks_until (tick s) s (ThreadTimer t)"
  shows "\<exists>s'. ticks_pass cb n s = Some s' \<and> ticking cb s' \<and> tick s' = tick s + of_nat n \<and>
    ThreadTimer t \<in> set (tmlists s' HardTimers) \<and>
    ticks_until (tick s') s' (ThreadTimer t) = ticks_until (tick s) s (ThreadTimer t) - n \<and>
    susp_stat (tcbs s' t) = susp_stat (tcbs s t) \<and> t_error (tcbs s' t) = t_error (tcbs s t)"
  using assms(3)
proof (induction n)
  case 0
  then show ?case using assms by simp
next
  case (Suc n)
  then obtain s1 where s1: "ticks_pass cb n s = Some s1" "ticking cb s1" "tick s1 = tick s + of_nat n"
    "ThreadTimer t \<in> set (tmlists s1 HardTimers)"
    "ticks_until (tick s1) s1 (ThreadTimer t) = ticks_until (tick s) s (ThreadTimer t) - n"
    "susp_stat (tcbs s1 t) = susp_stat (tcbs s t)" "t_error (tcbs s1 t) = t_error (tcbs s t)" by auto
  obtain s2 where s2: "SysTick_Handler cb s1 = Some s2" "ticking cb s2" "ticked s1 s2"
    using SysTick_run [OF s1(2)] by blast
  have gt: "1 < ticks_until (tick s1) s1 (ThreadTimer t)" using Suc.prems s1(5) by simp
  have "tick s2 = tick s1 + 1" using s2(3) by (simp add: ticked_def)
  moreover have "ThreadTimer t \<in> set (tmlists s2 HardTimers)"
    "ticks_until (tick s2) s2 (ThreadTimer t) = ticks_until (tick s1) s1 (ThreadTimer t) - 1"
    using s2(3) s1(4) gt unfolding ticked_def by blast+
  moreover have "susp_stat (tcbs s2 t) = susp_stat (tcbs s1 t)" "t_error (tcbs s2 t) = t_error (tcbs s1 t)"
    using s2(3) gt unfolding ticked_def by (metis less_irrefl)+
  ultimately show ?case using s1 s2(1,2) by simp
qed



subsection \<open>The check of the soft timers at a tick interrupt\<close>

text \<open>
  The interrupt wakes the timer thread when the first deadline of the soft timers is at most the tick counter, compared as
  numbers. With a deadline before a wrap of the counter and the counter after it, the expired timer is not seen.
\<close>

lemma soft_timer_missed:
  assumes "0 < irq_nest s" and "tmlists s SoftTimers = x # xs" and "tick s < tm_timeout_tick (timers s x)"
  shows "rt_timer_check cb s = timer_check cb HardTimers s"
  using assms by (simp add: rt_timer_check_def timer_list_next_timeout_def rt_tick_get_def linorder_not_le [symmetric])

lemma soft_timer_missed_example:
  defines "s \<equiv> blank_kst\<lparr>irq_nest := 1, tick := 5, tmlists := (\<lambda>_. [])(SoftTimers := [UserTimer 0]),
     timers := (\<lambda>_. \<lparr>tm_func = User_func 0, tm_parameter = 0, tm_init_tick = 10, tm_timeout_tick = 0xfffffffe\<rparr>)\<rparr>"
  shows "timer_expired (UserTimer 0) s" and "rt_timer_check cb s = timer_check cb HardTimers s"
proof -
  show "timer_expired (UserTimer 0) s" by (simp add: timer_expired_def rt_tick_get_def s_def HALF_TICKS_val)
  show "rt_timer_check cb s = timer_check cb HardTimers s"
    by (rule soft_timer_missed [where x = "UserTimer 0" and xs = "[]"]) (simp_all add: s_def)
qed

lemma rt_tick_get_delta_eq: "rt_tick_get_delta base s = tick s - base"
  by (simp add: rt_tick_get_delta_def rt_tick_get_def RT_TICK_MAX_def Let_def)

end
