(* ===== verification/FifoSpec.thy ===== *)
theory FifoSpec
  imports Prelude
begin

text \<open>
  The contract of the bounded queues of the kernel and its drivers: what a mailbox, a message queue and a ring buffer
  promise of their storage, stated once over an abstract content (a list, oldest first). \<open>bounded_queue\<close> has
  insertion at the end and removal at the front; \<open>urgent_queue\<close> adds insertion at the front. Every queue of the
  model interprets one of them in its own theory, and gets the lemmas on sequences of operations.
\<close>

datatype 'a qop = Put 'a | Urgent 'a | Get

datatype 'a qres = Done | Full | Empty | Got 'a

fun spec_step :: "nat \<Rightarrow> 'a qop \<Rightarrow> 'a list \<Rightarrow> 'a qres \<times> 'a list" where
  \<comment> \<open>the abstract queue of capacity \<open>n\<close>\<close>
  "spec_step n (Put x) xs = (if length xs < n then (Done, xs @ [x]) else (Full, xs))"
| "spec_step n (Urgent x) xs = (if length xs < n then (Done, x # xs) else (Full, xs))"
| "spec_step n Get [] = (Empty, [])"
| "spec_step n Get (x # xs) = (Got x, xs)"

fun spec_run :: "nat \<Rightarrow> 'a qop list \<Rightarrow> 'a list \<Rightarrow> 'a qres list \<times> 'a list" where
  "spec_run n [] xs = ([], xs)"
| "spec_run n (p # ps) xs =
     (case spec_step n p xs of (r, ys) \<Rightarrow> case spec_run n ps ys of (rs, zs) \<Rightarrow> (r # rs, zs))"

lemma spec_step_length: "length xs \<le> n \<Longrightarrow> length (snd (spec_step n p xs)) \<le> n"
  by (cases "(n, p, xs)" rule: spec_step.cases) auto

subsection \<open>First in, first out\<close>

locale bounded_queue =
  fixes ok :: "'s \<Rightarrow> bool" and content :: "'s \<Rightarrow> 'a list" and capacity :: "'s \<Rightarrow> nat"
    and put :: "'a \<Rightarrow> 's \<Rightarrow> 's option" and get :: "'s \<Rightarrow> ('a \<times> 's) option"
  assumes content_bound: "ok s \<Longrightarrow> length (content s) \<le> capacity s"
    and put_full: "ok s \<Longrightarrow> length (content s) = capacity s \<Longrightarrow> put x s = None"
    and put_ok: "ok s \<Longrightarrow> length (content s) < capacity s \<Longrightarrow>
      \<exists>s'. put x s = Some s' \<and> ok s' \<and> content s' = content s @ [x] \<and> capacity s' = capacity s"
    and get_empty: "ok s \<Longrightarrow> content s = [] \<Longrightarrow> get s = None"
    and get_ok: "ok s \<Longrightarrow> content s = x # xs \<Longrightarrow>
      \<exists>s'. get s = Some (x, s') \<and> ok s' \<and> content s' = xs \<and> capacity s' = capacity s"
begin

fun put_all :: "'a list \<Rightarrow> 's \<Rightarrow> 's option" where
  "put_all [] s = Some s"
| "put_all (x # xs) s = Option.bind (put x s) (put_all xs)"

fun get_many :: "nat \<Rightarrow> 's \<Rightarrow> ('a list \<times> 's) option" where
  "get_many 0 s = Some ([], s)"
| "get_many (Suc n) s =
     Option.bind (get s) (\<lambda>(x, s'). Option.bind (get_many n s') (\<lambda>(xs, s''). Some (x # xs, s'')))"

lemma put_all_ok:
  "ok s \<Longrightarrow> length (content s) + length xs \<le> capacity s \<Longrightarrow>
   \<exists>s'. put_all xs s = Some s' \<and> ok s' \<and> content s' = content s @ xs \<and> capacity s' = capacity s"
proof (induction xs arbitrary: s)
  case (Cons x xs)
  then obtain s1 where "put x s = Some s1" "ok s1" "content s1 = content s @ [x]" "capacity s1 = capacity s"
    using put_ok [of s x] by auto
  with Cons.IH [of s1] Cons.prems show ?case by auto
qed simp

lemma get_many_ok:
  "ok s \<Longrightarrow> content s = xs @ ys \<Longrightarrow>
   \<exists>s'. get_many (length xs) s = Some (xs, s') \<and> ok s' \<and> content s' = ys \<and> capacity s' = capacity s"
proof (induction xs arbitrary: s)
  case (Cons x xs)
  then obtain s1 where "get s = Some (x, s1)" "ok s1" "content s1 = xs @ ys" "capacity s1 = capacity s"
    using get_ok [of s x "xs @ ys"] by auto
  with Cons.IH [of s1] show ?case by auto
qed simp

lemma fifo:
  assumes "ok s" and "content s = []" and "length xs \<le> capacity s"
  shows "\<exists>s1 s2. put_all xs s = Some s1 \<and> get_many (length xs) s1 = Some (xs, s2) \<and> ok s2 \<and> content s2 = []"
proof -
  obtain s1 where s1: "put_all xs s = Some s1" "ok s1" "content s1 = xs @ []"
    using put_all_ok [OF assms(1), of xs] assms(2,3) by auto
  from get_many_ok [OF s1(2,3)] s1(1) show ?thesis by auto
qed

lemma put_iff: "ok s \<Longrightarrow> (\<exists>s'. put x s = Some s') \<longleftrightarrow> length (content s) < capacity s"
  using put_full [of s x] put_ok [of s x] content_bound [of s] by (cases "length (content s) = capacity s") auto

end

subsection \<open>Insertion at the front\<close>

locale urgent_queue = bounded_queue ok content capacity put get
  for ok :: "'s \<Rightarrow> bool" and content :: "'s \<Rightarrow> 'a list" and capacity :: "'s \<Rightarrow> nat"
    and put :: "'a \<Rightarrow> 's \<Rightarrow> 's option" and get :: "'s \<Rightarrow> ('a \<times> 's) option" +
  fixes urgent :: "'a \<Rightarrow> 's \<Rightarrow> 's option"
  assumes urgent_full: "ok s \<Longrightarrow> length (content s) = capacity s \<Longrightarrow> urgent x s = None"
    and urgent_ok: "ok s \<Longrightarrow> length (content s) < capacity s \<Longrightarrow>
      \<exists>s'. urgent x s = Some s' \<and> ok s' \<and> content s' = x # content s \<and> capacity s' = capacity s"
begin

fun step :: "'a qop \<Rightarrow> 's \<Rightarrow> 'a qres \<times> 's" where
  "step (Put x) s = (case put x s of Some s' \<Rightarrow> (Done, s') | None \<Rightarrow> (Full, s))"
| "step (Urgent x) s = (case urgent x s of Some s' \<Rightarrow> (Done, s') | None \<Rightarrow> (Full, s))"
| "step Get s = (case get s of Some (x, s') \<Rightarrow> (Got x, s') | None \<Rightarrow> (Empty, s))"

fun run :: "'a qop list \<Rightarrow> 's \<Rightarrow> 'a qres list \<times> 's" where
  "run [] s = ([], s)"
| "run (p # ps) s = (case step p s of (r, s') \<Rightarrow> case run ps s' of (rs, s'') \<Rightarrow> (r # rs, s''))"

lemma step_refines:
  assumes "ok s"
  shows "\<exists>s'. step p s = (fst (spec_step (capacity s) p (content s)), s') \<and> ok s' \<and>
    content s' = snd (spec_step (capacity s) p (content s)) \<and> capacity s' = capacity s"
proof (cases p)
  case (Put x)
  then show ?thesis
    using put_full [OF assms, of x] put_ok [OF assms, of x] content_bound [OF assms] assms
    by (cases "length (content s) = capacity s") (auto split: option.splits)
next
  case (Urgent x)
  then show ?thesis
    using urgent_full [OF assms, of x] urgent_ok [OF assms, of x] content_bound [OF assms] assms
    by (cases "length (content s) = capacity s") (auto split: option.splits)
next
  case Get
  then show ?thesis
    using get_empty [OF assms] get_ok [OF assms, of "hd (content s)" "tl (content s)"] assms
    by (cases "content s") (auto split: option.splits)
qed

lemma run_refines:
  "ok s \<Longrightarrow> \<exists>s'. run ps s = (fst (spec_run (capacity s) ps (content s)), s') \<and> ok s' \<and>
     content s' = snd (spec_run (capacity s) ps (content s)) \<and> capacity s' = capacity s"
proof (induction ps arbitrary: s)
  case (Cons p ps)
  obtain s1 where s1: "step p s = (fst (spec_step (capacity s) p (content s)), s1)" "ok s1"
    "content s1 = snd (spec_step (capacity s) p (content s))" "capacity s1 = capacity s"
    using step_refines [OF Cons.prems, of p] by blast
  from Cons.IH [OF s1(2)] s1 show ?case by (auto split: prod.splits)
qed simp

end

subsection \<open>Circular storage\<close>

definition ring :: "nat \<Rightarrow> 'a list \<Rightarrow> nat \<Rightarrow> nat \<Rightarrow> 'a list" where
  \<comment> \<open>the \<open>k\<close> elements that begin at index \<open>a\<close>, in a ring of the first \<open>n\<close> cells of \<open>p\<close>\<close>
  "ring n p a k = map (\<lambda>i. p ! ((a + i) mod n)) [0..<k]"

lemma length_ring [simp]: "length (ring n p a k) = k"
  by (simp add: ring_def)

lemma ring_0 [simp]: "ring n p a 0 = []"
  by (simp add: ring_def)

lemma ring_index_inj:
  fixes a i j n :: nat
  assumes "i < n" and "j < n" and e: "(a + i) mod n = (a + j) mod n"
  shows "i = j"
proof -
  have le: "y = x" if "x \<le> y" "y < n" "(a + y) mod n = (a + x) mod n" for x y :: nat
  proof -
    have "n dvd (a + y) - (a + x)" using that mod_eq_dvd_iff_nat [of "a + x" "a + y" n] by simp
    then show ?thesis using that by (auto dest: dvd_imp_le)
  qed
  show ?thesis
  proof (cases "i \<le> j")
    case True
    then show ?thesis using le [OF True assms(2) e [symmetric]] by simp
  next
    case False
    then have "j \<le> i" by simp
    then show ?thesis using le [OF _ assms(1) e] by simp
  qed
qed

lemma ring_append:
  assumes k: "k < n" and n: "n \<le> length p"
  shows "ring n (p[(a + k) mod n := x]) a (k + 1) = ring n p a k @ [x]"
proof -
  have "p[(a + k) mod n := x] ! ((a + i) mod n) = p ! ((a + i) mod n)" if "i < k" for i
    using ring_index_inj [of i n k a] k that by (metis less_trans nat_neq_iff nth_list_update_neq)
  moreover have "p[(a + k) mod n := x] ! ((a + k) mod n) = x"
    using mod_less_divisor [of n "a + k"] k n by (intro nth_list_update_eq) linarith
  ultimately show ?thesis by (simp add: ring_def)
qed

lemma ring_tail:
  assumes "a < n"
  shows "ring n p a (Suc k) = p ! a # ring n p ((a + 1) mod n) k"
proof -
  have "[0..<Suc k] = 0 # map Suc [0..<k]" by (simp add: upt_conv_Cons map_Suc_upt del: upt_Suc)
  moreover have "(a + Suc i) mod n = ((a + 1) mod n + i) mod n" for i by (simp add: mod_simps)
  ultimately show ?thesis using assms by (simp add: ring_def comp_def del: upt_Suc)
qed

lemma ring_front:
  assumes k: "k < n" and n: "n \<le> length p" and b: "b < n" and ab: "(b + 1) mod n = a"
  shows "ring n (p[b := x]) b (Suc k) = x # ring n p a k"
proof -
  have "p[b := x] ! ((a + i) mod n) = p ! ((a + i) mod n)" if "i < k" for i
  proof -
    have "(a + i) mod n = (b + Suc i) mod n" unfolding ab [symmetric] by (simp add: mod_simps)
    moreover have "(b + Suc i) mod n \<noteq> b"
      using ring_index_inj [of "Suc i" n 0 b] b k that by auto
    ultimately show ?thesis by simp
  qed
  then have "ring n (p[b := x]) a k = ring n p a k" by (simp add: ring_def)
  with ring_tail [OF b, of "p[b := x]" k] ab b n show ?thesis by simp
qed

end
