(* ===== verification/IpcWait.thy ===== *)
theory IpcWait
  imports Sem
begin

text \<open>
  The waiting loop that mailboxes and message queues share (rt-thread/src/ipc.c): a call that cannot go on puts its
  thread on a queue of the object, and tries again when it runs the next time, with the rest of its timeout. A call
  is a sequence of rounds; a round ends with a result or with the thread waiting.
\<close>

datatype 'a wait_step = Returned 'a | Waiting int u32

definition rest_timeout :: "int \<Rightarrow> u32 \<Rightarrow> kst \<Rightarrow> int" where
  \<comment> \<open>what is left of \<open>timeout\<close> since tick \<open>start\<close>; the subtraction is on 32 bit, its result an \<open>rt_int32_t\<close>\<close>
  "rest_timeout timeout start s =
     (if timeout > 0
      then (let rest = sint (word_of_int timeout - (rt_tick_get s - start)) in if rest < 0 then 0 else rest)
      else timeout)"

definition ipc_wait ::
  "suspq \<Rightarrow> oref \<Rightarrow> nat \<Rightarrow> int \<Rightarrow> u32 \<Rightarrow> suspend_flag \<Rightarrow> kst \<Rightarrow> (int wait_step \<times> kst) option" where
  \<comment> \<open>thread \<open>t\<close> waits on the queue \<open>q\<close> of object \<open>r\<close>; entered with the lock of the object held, which it releases\<close>
  "ipc_wait q r t timeout tick_delta suspend_flag s = do {
     (ret, s) \<leftarrow> rt_thread_suspend_to_list t (Some q) (ipc_flag r s) suspend_flag s;
     if ret \<noteq> RT_EOK then do {
       s \<leftarrow> rt_spin_unlock s;
       Some (Returned ret, s)
     } else do {
       let tick_delta = (if timeout > 0 then rt_tick_get s else tick_delta);
       s \<leftarrow> (if timeout > 0 then start_wait_timer t (word_of_int timeout) s else Some s);
       s \<leftarrow> rt_spin_unlock s;
       s \<leftarrow> rt_schedule s;
       Some (Waiting timeout tick_delta, s)
     }
   }"

definition wake_first :: "suspq \<Rightarrow> kst \<Rightarrow> kst option" where
  \<comment> \<open>the end of every call that gave something: the first thread of \<open>q\<close>, if there is one, is made ready; releases the lock\<close>
  "wake_first q s =
     (if tlists s (Susp q) \<noteq> [] then do {
        (_, s) \<leftarrow> rt_susp_list_dequeue q RT_EOK s;
        s \<leftarrow> rt_spin_unlock s;
        rt_schedule s
      } else rt_spin_unlock s)"

definition resume_both :: "suspq \<Rightarrow> suspq \<Rightarrow> kst \<Rightarrow> kst option" where
  \<comment> \<open>all receivers, then all senders, give up with \<open>RT_ERROR\<close>\<close>
  "resume_both q q' s = do {
     s \<leftarrow> rt_susp_list_resume_all q RT_ERROR s;
     rt_susp_list_resume_all q' RT_ERROR s
   }"

subsection \<open>Their effect\<close>

definition can_wait :: "nat \<Rightarrow> int \<Rightarrow> kst \<Rightarrow> bool" where
  \<comment> \<open>a running thread outside interrupts and critical sections, and a timeout that a timer accepts\<close>
  "can_wait t timeout s \<longleftrightarrow> kinv s \<and> current s = Some t \<and> stat_of (tcbs s t) = RT_THREAD_RUNNING \<and>
     lock_nest s = 0 \<and> irq_nest s = 0 \<and> (0 < timeout \<longrightarrow> word_of_int timeout < HALF_TICKS)"

lemma can_waitD:
  assumes "can_wait t timeout s"
  shows "kinv s" "current s = Some t" "rt_thread_self s = Some t" "debug_scheduler_available b s" "irq_nest s = 0"
  using assms by (simp_all add: can_wait_def rt_thread_self_def debug_defs)

lemma can_wait_error [simp]: "can_wait t timeout (upd_tcb u (\<lambda>b. b\<lparr>t_error := e\<rparr>) s) = can_wait t timeout s"
  unfolding can_wait_def by (cases "u = t") simp_all

lemma ipc_wait_run:
  assumes w: "can_wait t timeout s" and f: "ipc_flag_ok (ipc_flag r s)" and r: "not_timer r"
  shows "\<exists>s'. ipc_wait q r t timeout d sf (rt_spin_lock s) = Some (Waiting timeout (if timeout > 0 then tick s else d), s') \<and>
    waits t q (ipc_flag r s) timeout (t_error (tcbs s t)) s s'"
proof -
  note W = w [unfolded can_wait_def]
  have fl: "ipc_flag r (rt_spin_lock s) = ipc_flag r s" by (simp add: ipc_flag_def)
  have B: "rt_thread_suspend_to_list t (Some q) (ipc_flag r s) sf (rt_spin_lock s)
        = Some (RT_EOK, thread_block t (Some (q, ipc_flag r s)) sf (rt_spin_lock s))"
    "(if timeout > 0 then start_wait_timer t (word_of_int timeout) (thread_block t (Some (q, ipc_flag r s)) sf (rt_spin_lock s))
          else Some (thread_block t (Some (q, ipc_flag r s)) sf (rt_spin_lock s))) = Some (blocked t q (ipc_flag r s) sf timeout (rt_spin_lock s))"
    using block_and_switch(1,2) [of s t "ipc_flag r s" timeout] W f by simp_all
  obtain s4 s' where s': "rt_spin_unlock (blocked t q (ipc_flag r s) sf timeout (rt_spin_lock s)) = Some s4"
    "rt_schedule s4 = Some s'" "waits t q (ipc_flag r s) timeout (t_error (tcbs s t)) s s'"
    using block_and_switch(3) [of s t "ipc_flag r s" timeout q sf] W f by blast
  have "rt_tick_get (thread_block t (Some (q, ipc_flag r s)) sf (rt_spin_lock s)) = tick s"
    by (simp add: rt_tick_get_def)
  with B s' show ?thesis unfolding ipc_wait_def fl B(1) by (simp add: Let_def)
qed

definition first_of :: "suspq \<Rightarrow> kst \<Rightarrow> nat \<Rightarrow> bool" where
  \<comment> \<open>thread \<open>t\<close> is at the head of queue \<open>q\<close>\<close>
  "first_of q s t \<longleftrightarrow> (\<exists>us. tlists s (Susp q) = t # us)"

lemma woken_nobody: "kinv (s\<lparr>lock_nest := n\<rparr>) \<Longrightarrow> woken (\<lambda>_. False) e s (s\<lparr>lock_nest := n\<rparr>)"
  by (simp add: woken_def)

lemma wake_first_run:
  assumes lo: "locked_ok s" and c: "current s \<noteq> None"
  shows "\<exists>s'. wake_first q s = Some s' \<and> lock_nest s' = lock_nest s - 1 \<and>
    woken (first_of q s) RT_EOK s s' \<and> tlists s' (Susp q) = tl (tlists s (Susp q))"
proof (cases "tlists s (Susp q)")
  case Nil
  then have "first_of q s = (\<lambda>_. False)" by (simp add: first_of_def fun_eq_iff)
  then show ?thesis using locked_ok_unlock [OF lo] Nil woken_nobody by (simp add: wake_first_def)
next
  case (Cons u us)
  note W = wake_and_switch [OF lo c Cons, of RT_EOK]
  obtain s4 s' where s': "rt_spin_unlock (wake_err RT_EOK u s) = Some s4" "rt_schedule s4 = Some s'"
    "woken (\<lambda>t. t = u) RT_EOK s s'" "lock_nest s' = lock_nest s - 1" using W(2) by blast
  have k: "kinv s" using lo by (simp add: locked_ok_def)
  have "u \<notin> set us" using store_okD(1) [OF kinv_store [OF k], of "Susp q"] Cons by simp
  then have "tlists s' (Susp q) = us" using s'(3) Cons by (auto simp: woken_def)
  moreover have "first_of q s = (\<lambda>t. t = u)" using Cons by (auto simp: first_of_def fun_eq_iff)
  ultimately show ?thesis using W(1) s' Cons by (simp add: wake_first_def)
qed

lemma woken_lock: "woken W e (rt_spin_lock s) s' = woken W e s s'"
  by (simp add: woken_def)

lemma first_of_cong: "tlists s (Susp q) = tlists s' (Susp q) \<Longrightarrow> first_of q s = first_of q s'"
  by (simp add: first_of_def fun_eq_iff)

lemma resume_both_run:
  assumes lo: "locked_ok s" and c: "current s \<noteq> None" and q: "q \<noteq> q'"
  shows "\<exists>s'. resume_both q q' s = Some s' \<and> locked_ok s' \<and> current s' = current s \<and> lock_nest s' = lock_nest s \<and>
    woken (\<lambda>t. t \<in> set (tlists s (Susp q)) \<or> t \<in> set (tlists s (Susp q'))) RT_ERROR s s'"
proof -
  let ?s1 = "wake_all RT_ERROR (tlists s (Susp q)) s"
  note A = wake_all_and_switch [OF lo c, where q = q and e = RT_ERROR]
  have c1: "current ?s1 \<noteq> None" using c by simp
  note B = wake_all_and_switch [OF A(2) c1, where q = q' and e = RT_ERROR]
  let ?s2 = "wake_all RT_ERROR (tlists ?s1 (Susp q')) ?s1"
  have k: "kinv s" using lo by (simp add: locked_ok_def)
  have "t \<notin> set (tlists s (Susp q))" if "t \<in> set (tlists s (Susp q'))" for t
    using store_okD(2) [OF kinv_store [OF k], of t "Susp q" "Susp q'"] that q by auto
  then have qs: "set (tlists ?s1 (Susp q')) = set (tlists s (Susp q'))" by auto
  have "woken (\<lambda>t. t \<in> set (tlists s (Susp q)) \<or> t \<in> set (tlists s (Susp q'))) RT_ERROR s ?s2"
    using woken_trans [OF A(3) B(3)] unfolding qs by simp
  with A(1) B(1,2) show ?thesis by (simp add: resume_both_def)
qed

definition ipc_oref :: "oref \<Rightarrow> bool" where
  "ipc_oref r \<longleftrightarrow> (case r of OThread _ \<Rightarrow> False | OTimer _ \<Rightarrow> False | _ \<Rightarrow> True)"

definition registered :: "oref \<Rightarrow> kst \<Rightarrow> bool" where
  \<comment> \<open>the type byte of the object names a container\<close>
  "registered r s \<longleftrightarrow> rt_object_get_information (o_type (objs s r)) \<noteq> None"

lemma object_detach_ipc:
  assumes k: "kinv s" and r: "ipc_oref r" and reg: "registered r s"
  shows "\<exists>s'. rt_object_detach r s = Some s' \<and> kinv s' \<and> rt_object_get_type r s' = RT_Object_Class_Null \<and>
    tlists s' = tlists s \<and> tcbs s' = tcbs s"
proof -
  let ?s' = "s\<lparr>containers := st_remove r (containers s), objs := (objs s)(r := (objs s r)\<lparr>o_type := RT_Object_Class_Null\<rparr>)\<rparr>"
  have "rt_object_detach r s = Some ?s'"
    using k reg by (subst rt_object_detach_run) (auto simp: kinv_def registered_def)
  moreover have "not_timer r" "\<And>t. r \<noteq> OThread t" using r by (auto simp: ipc_oref_def not_timer_def split: oref.splits)
  then have "kinv ?s'" using k kinv_not_timer [of r "s\<lparr>containers := st_remove r (containers s)\<rparr>"] by simp
  ultimately show ?thesis by (intro exI [of _ ?s']) (simp add: rt_object_get_type_def class_defs)
qed

definition released :: "(nat \<Rightarrow> bool) \<Rightarrow> kst \<Rightarrow> kst \<Rightarrow> bool" where
  \<comment> \<open>exactly the threads of \<open>W\<close> gave up their wait, with \<open>RT_ERROR\<close>\<close>
  "released W s s' \<longleftrightarrow> kinv s' \<and>
     (\<forall>t. if W t then \<not> susp_stat (tcbs s' t) \<and> t_error (tcbs s' t) = RT_ERROR
          else susp_stat (tcbs s' t) = susp_stat (tcbs s t) \<and> t_error (tcbs s' t) = t_error (tcbs s t))"

definition waiter :: "suspq \<Rightarrow> suspq \<Rightarrow> kst \<Rightarrow> nat \<Rightarrow> bool" where
  "waiter q q' s t \<longleftrightarrow> t \<in> set (tlists s (Susp q)) \<or> t \<in> set (tlists s (Susp q'))"

lemma resume_both_detach:
  assumes k: "kinv s" and c: "current s \<noteq> None" and q: "q \<noteq> q'" and r: "ipc_oref r" and reg: "registered r s"
  shows "\<exists>s1 s2 s3. resume_both q q' (rt_spin_lock s) = Some s1 \<and> rt_spin_unlock s1 = Some s2 \<and>
    rt_object_detach r s2 = Some s3 \<and> released (waiter q q' s) s s3 \<and>
    tlists s3 (Susp q) = [] \<and> tlists s3 (Susp q') = [] \<and> rt_object_get_type r s3 = RT_Object_Class_Null"
proof -
  have "locked_ok (rt_spin_lock s)" "current (rt_spin_lock s) \<noteq> None" using k c by simp_all
  from resume_both_run [OF this q] obtain s1 where s1: "resume_both q q' (rt_spin_lock s) = Some s1" "locked_ok s1"
    "woken (waiter q q' s) RT_ERROR s s1" unfolding waiter_def by (auto simp: woken_lock)
  note U = locked_ok_unlock [OF s1(2)]
  let ?s2 = "s1\<lparr>lock_nest := lock_nest s1 - 1\<rparr>"
  have "not_timer r" using r by (auto simp: ipc_oref_def not_timer_def split: oref.splits)
  then have "registered r ?s2" using reg s1(3) by (simp add: registered_def woken_def)
  from object_detach_ipc [OF U(2) r this] obtain s3 where s3: "rt_object_detach r ?s2 = Some s3" "kinv s3"
    "rt_object_get_type r s3 = RT_Object_Class_Null" "tlists s3 = tlists s1" "tcbs s3 = tcbs s1" by auto
  have e: "tlists s1 (Susp q) = []" "tlists s1 (Susp q') = []"
    using s1(3) by (auto simp: woken_def waiter_def filter_empty_conv)
  have "released (waiter q q' s) s s3"
    using s1(3) s3(2,5) by (simp add: released_def woken_def err_defs)
  then show ?thesis using s1(1) U(1) s3(1,3,4) e by auto
qed

subsection \<open>Giving to the first waiter\<close>

lemma lock_upd:
  "(rt_spin_lock s)\<lparr>mboxes := M\<rparr> = rt_spin_lock (s\<lparr>mboxes := M\<rparr>)"
  "(rt_spin_lock s)\<lparr>mqueues := Q\<rparr> = rt_spin_lock (s\<lparr>mqueues := Q\<rparr>)"
  "(rt_spin_lock s)\<lparr>events := E\<rparr> = rt_spin_lock (s\<lparr>events := E\<rparr>)"
  "(rt_spin_lock s)\<lparr>mpools := P\<rparr> = rt_spin_lock (s\<lparr>mpools := P\<rparr>)"
  by (simp_all add: rt_spin_lock_def rt_enter_critical_def)

lemma ipc_flag_lock [simp]: "ipc_flag r (rt_spin_lock s) = ipc_flag r s"
  by (simp add: ipc_flag_def)

definition gives :: "suspq \<Rightarrow> kst \<Rightarrow> kst \<Rightarrow> bool" where
  \<comment> \<open>the first waiter of \<open>q\<close>, if there is one, is awake with the result \<open>RT_EOK\<close>, and nobody else\<close>
  "gives q s s' \<longleftrightarrow> woken (first_of q s) RT_EOK s s' \<and> lock_nest s' = lock_nest s \<and>
     tlists s' (Susp q) = tl (tlists s (Susp q))"

lemma wake_first_gives:
  assumes k: "kinv s" and c: "current s \<noteq> None"
  shows "\<exists>s'. wake_first q (rt_spin_lock s) = Some s' \<and> gives q s s'"
proof -
  have "locked_ok (rt_spin_lock s)" "current (rt_spin_lock s) \<noteq> None" using k c by simp_all
  from wake_first_run [OF this, of q] show ?thesis
    using first_of_cong [of "rt_spin_lock s" q s] by (auto simp: gives_def woken_lock)
qed

lemma reset_run:
  assumes k: "kinv s" and c: "current s \<noteq> None" and q: "q \<noteq> q'"
  shows "\<exists>r. resume_both q q' (rt_spin_lock s) = Some r \<and> locked_ok r \<and> current r = current s \<and>
    woken (waiter q q' s) RT_ERROR s r"
proof -
  have "locked_ok (rt_spin_lock s)" "current (rt_spin_lock s) \<noteq> None" using k c by simp_all
  from resume_both_run [OF this q] show ?thesis by (auto simp: woken_lock waiter_def [abs_def])
qed

lemma reset_released:
  assumes "woken (waiter q q' s) RT_ERROR s r" and "kinv s'" and "tcbs r1 = tcbs r" and "tlists r1 = tlists r" and "same_ipc r1 s'"
  shows "released (waiter q q' s) s s'" and "tlists s' (Susp q) = []" and "tlists s' (Susp q') = []"
  using assms by (auto simp: released_def woken_def same_ipc_def err_defs waiter_def filter_empty_conv)

end
