(* ===== verification/Mailbox.thy ===== *)
theory Mailbox
  imports IpcWait FifoSpec
begin

text \<open>
  Mailboxes (rt-thread/src/ipc.c): a ring of machine words with a queue of receivers that wait while it is empty
  and a queue of senders that wait while it is full. \<open>mb_send_wait\<close> and \<open>mb_recv\<close> are the first round of
  \<open>_rt_mb_send_wait\<close> and \<open>_rt_mb_recv\<close>, \<open>mb_send_resume\<close> and \<open>mb_recv_resume\<close> every further one.
\<close>

definition RT_MB_ENTRY_MAX :: u16 where "RT_MB_ENTRY_MAX = 0xffff"

abbreviation is_mb :: "nat \<Rightarrow> kst \<Rightarrow> bool" where
  "is_mb i s \<equiv> rt_object_get_type (OMailbox i) s = RT_Object_Class_MailBox"

definition mb_object_init :: "nat \<Rightarrow> u32 list \<Rightarrow> u16 \<Rightarrow> u8 \<Rightarrow> kst \<Rightarrow> kst" where
  "mb_object_init i pool sz flag s =
     (let s = upd_obj (OMailbox i) (\<lambda>ob. ob\<lparr>o_flag := flag\<rparr>) s;
          s = ipc_object_init (MbRecvQ i) s;
          s = upd_mbox i (\<lambda>_. \<lparr>mb_msg_pool = pool, mb_size = sz, mb_entry = 0, mb_in_offset = 0, mb_out_offset = 0\<rparr>) s
      in upd_tlists (\<lambda>ls. ls(Susp (MbSendQ i) := [])) s)"

definition rt_mb_init :: "nat \<Rightarrow> string option \<Rightarrow> u32 list \<Rightarrow> u32 \<Rightarrow> u8 \<Rightarrow> kst \<Rightarrow> (int \<times> kst) option" where
  \<comment> \<open>\<open>msgpool\<close> is the content of the given memory\<close>
  "rt_mb_init i name msgpool sz flag s = do {
     rt_assert (flag = RT_IPC_FLAG_FIFO \<or> flag = RT_IPC_FLAG_PRIO);
     s \<leftarrow> rt_object_init (OMailbox i) RT_Object_Class_MailBox name s;
     Some (RT_EOK, mb_object_init i msgpool (ucast sz) flag s)
   }"

definition rt_mb_detach :: "nat \<Rightarrow> kst \<Rightarrow> (int \<times> kst) option" where
  "rt_mb_detach i s = do {
     rt_assert (is_mb i s);
     rt_assert (rt_object_is_systemobject (OMailbox i) s);
     s \<leftarrow> resume_both (MbRecvQ i) (MbSendQ i) (rt_spin_lock s);
     s \<leftarrow> rt_spin_unlock s;
     s \<leftarrow> rt_object_detach (OMailbox i) s;
     Some (RT_EOK, s)
   }"

definition rt_mb_create ::
  "nat option \<Rightarrow> u32 list option \<Rightarrow> string option \<Rightarrow> u32 \<Rightarrow> u8 \<Rightarrow> kst \<Rightarrow> (nat option \<times> kst) option" where
  \<comment> \<open>\<open>block\<close> and \<open>msgpool\<close> are what the heap gave for the object and for the messages\<close>
  "rt_mb_create block msgpool name sz flag s = do {
     rt_assert (flag = RT_IPC_FLAG_FIFO \<or> flag = RT_IPC_FLAG_PRIO);
     rt_assert (debug_not_in_interrupt s);
     (_, s) \<leftarrow> rt_object_allocate (map_option OMailbox block) RT_Object_Class_MailBox name s;
     case block of
       None \<Rightarrow> Some (None, s)
     | Some i \<Rightarrow>
         (case msgpool of
            None \<Rightarrow> do {
              let s = ipc_object_init (MbRecvQ i) (upd_obj (OMailbox i) (\<lambda>ob. ob\<lparr>o_flag := flag\<rparr>) s);
              let s = upd_mbox i (\<lambda>m. m\<lparr>mb_size := ucast sz, mb_msg_pool := []\<rparr>) s;
              s \<leftarrow> rt_object_delete (OMailbox i) s;
              Some (None, s)
            }
          | Some pool \<Rightarrow> Some (Some i, mb_object_init i pool (ucast sz) flag s))
   }"

definition rt_mb_delete :: "nat \<Rightarrow> kst \<Rightarrow> (int \<times> kst) option" where
  "rt_mb_delete i s = do {
     rt_assert (is_mb i s);
     rt_assert (\<not> rt_object_is_systemobject (OMailbox i) s);
     rt_assert (debug_not_in_interrupt s);
     s \<leftarrow> resume_both (MbRecvQ i) (MbSendQ i) (rt_spin_lock s);
     s \<leftarrow> rt_spin_unlock s;
     s \<leftarrow> rt_object_delete (OMailbox i) s;
     Some (RT_EOK, s)
   }"

subsection \<open>The ring\<close>

definition mb_store :: "u32 \<Rightarrow> rt_mailbox \<Rightarrow> rt_mailbox option" where
  \<comment> \<open>\<open>None\<close>: a write outside the pool\<close>
  "mb_store value mb = do {
     rt_assert (unat (mb_in_offset mb) < length (mb_msg_pool mb));
     let mb = mb\<lparr>mb_msg_pool := (mb_msg_pool mb)[unat (mb_in_offset mb) := value]\<rparr>;
     let mb = mb\<lparr>mb_in_offset := mb_in_offset mb + 1\<rparr>;
     Some (if mb_in_offset mb \<ge> mb_size mb then mb\<lparr>mb_in_offset := 0\<rparr> else mb)
   }"

definition mb_store_urgent :: "u32 \<Rightarrow> rt_mailbox \<Rightarrow> rt_mailbox option" where
  "mb_store_urgent value mb = do {
     let mb = mb\<lparr>mb_out_offset := (if mb_out_offset mb > 0 then mb_out_offset mb - 1 else mb_size mb - 1)\<rparr>;
     rt_assert (unat (mb_out_offset mb) < length (mb_msg_pool mb));
     let mb = mb\<lparr>mb_msg_pool := (mb_msg_pool mb)[unat (mb_out_offset mb) := value]\<rparr>;
     Some (mb\<lparr>mb_entry := mb_entry mb + 1\<rparr>)
   }"

definition mb_fetch :: "rt_mailbox \<Rightarrow> (u32 \<times> rt_mailbox) option" where
  "mb_fetch mb = do {
     rt_assert (unat (mb_out_offset mb) < length (mb_msg_pool mb));
     let value = mb_msg_pool mb ! unat (mb_out_offset mb);
     let mb = mb\<lparr>mb_out_offset := mb_out_offset mb + 1\<rparr>;
     let mb = (if mb_out_offset mb \<ge> mb_size mb then mb\<lparr>mb_out_offset := 0\<rparr> else mb);
     Some (value, if mb_entry mb > 0 then mb\<lparr>mb_entry := mb_entry mb - 1\<rparr> else mb)
   }"

subsection \<open>Sending\<close>

definition mb_put :: "nat \<Rightarrow> u32 \<Rightarrow> kst \<Rightarrow> (int wait_step \<times> kst) option" where
  \<comment> \<open>the part of \<open>_rt_mb_send_wait\<close> after its loop\<close>
  "mb_put i value s = do {
     mb \<leftarrow> mb_store value (mboxes s i);
     let s = upd_mbox i (\<lambda>_. mb) s;
     if mb_entry mb < RT_MB_ENTRY_MAX then do {
       s \<leftarrow> wake_first (MbRecvQ i) (upd_mbox i (\<lambda>m. m\<lparr>mb_entry := mb_entry m + 1\<rparr>) s);
       Some (Returned RT_EOK, s)
     } else do {
       s \<leftarrow> rt_spin_unlock s;
       Some (Returned (- RT_EFULL), s)
     }
   }"

definition mb_send_round ::
  "nat \<Rightarrow> u32 \<Rightarrow> int \<Rightarrow> u32 \<Rightarrow> suspend_flag \<Rightarrow> kst \<Rightarrow> (int wait_step \<times> kst) option" where
  \<comment> \<open>one test of the loop, and what follows it; the lock is held\<close>
  "mb_send_round i value timeout tick_delta suspend_flag s =
     (if mb_entry (mboxes s i) = mb_size (mboxes s i) then do {
        t \<leftarrow> rt_thread_self s;
        let s = upd_tcb t (\<lambda>b. b\<lparr>t_error := - RT_EINTR\<rparr>) s;
        if timeout = 0 then do {
          s \<leftarrow> rt_spin_unlock s;
          Some (Returned (- RT_EFULL), s)
        } else ipc_wait (MbSendQ i) (OMailbox i) t timeout tick_delta suspend_flag s
      } else mb_put i value s)"

definition mb_send_wait :: "nat \<Rightarrow> u32 \<Rightarrow> int \<Rightarrow> suspend_flag \<Rightarrow> kst \<Rightarrow> (int wait_step \<times> kst) option" where
  "mb_send_wait i value timeout suspend_flag s = do {
     rt_assert (is_mb i s);
     rt_assert (debug_scheduler_available (timeout \<noteq> 0) s);
     let s = rt_spin_lock s;
     if mb_entry (mboxes s i) = mb_size (mboxes s i) \<and> timeout = 0 then do {
       s \<leftarrow> rt_spin_unlock s;
       Some (Returned (- RT_EFULL), s)
     } else mb_send_round i value timeout 0 suspend_flag s
   }"

definition mb_send_resume ::
  "nat \<Rightarrow> nat \<Rightarrow> u32 \<Rightarrow> int \<Rightarrow> u32 \<Rightarrow> suspend_flag \<Rightarrow> kst \<Rightarrow> (int wait_step \<times> kst) option" where
  \<comment> \<open>thread \<open>t\<close> runs again after \<open>Waiting timeout tick_delta\<close>\<close>
  "mb_send_resume i t value timeout tick_delta suspend_flag s =
     (if t_error (tcbs s t) \<noteq> RT_EOK then Some (Returned (t_error (tcbs s t)), s)
      else do {
        let s = rt_spin_lock s;
        let elapsed = (if timeout > 0 then rt_tick_get s - tick_delta else tick_delta);
        mb_send_round i value (rest_timeout timeout tick_delta s) elapsed suspend_flag s
      })"

definition rt_mb_send_wait :: "nat \<Rightarrow> u32 \<Rightarrow> int \<Rightarrow> kst \<Rightarrow> (int wait_step \<times> kst) option" where
  "rt_mb_send_wait i value timeout s = mb_send_wait i value timeout RT_UNINTERRUPTIBLE s"

definition rt_mb_send_wait_interruptible :: "nat \<Rightarrow> u32 \<Rightarrow> int \<Rightarrow> kst \<Rightarrow> (int wait_step \<times> kst) option" where
  "rt_mb_send_wait_interruptible i value timeout s = mb_send_wait i value timeout RT_INTERRUPTIBLE s"

definition rt_mb_send_wait_killable :: "nat \<Rightarrow> u32 \<Rightarrow> int \<Rightarrow> kst \<Rightarrow> (int wait_step \<times> kst) option" where
  "rt_mb_send_wait_killable i value timeout s = mb_send_wait i value timeout RT_KILLABLE s"

definition rt_mb_send :: "nat \<Rightarrow> u32 \<Rightarrow> kst \<Rightarrow> (int wait_step \<times> kst) option" where
  "rt_mb_send i value s = rt_mb_send_wait i value 0 s"

definition rt_mb_send_interruptible :: "nat \<Rightarrow> u32 \<Rightarrow> kst \<Rightarrow> (int wait_step \<times> kst) option" where
  "rt_mb_send_interruptible i value s = rt_mb_send_wait_interruptible i value 0 s"

definition rt_mb_send_killable :: "nat \<Rightarrow> u32 \<Rightarrow> kst \<Rightarrow> (int wait_step \<times> kst) option" where
  "rt_mb_send_killable i value s = rt_mb_send_wait_killable i value 0 s"

definition rt_mb_urgent :: "nat \<Rightarrow> u32 \<Rightarrow> kst \<Rightarrow> (int \<times> kst) option" where
  "rt_mb_urgent i value s = do {
     rt_assert (is_mb i s);
     let s = rt_spin_lock s;
     if mb_entry (mboxes s i) = mb_size (mboxes s i) then do {
       s \<leftarrow> rt_spin_unlock s;
       Some (- RT_EFULL, s)
     } else do {
       mb \<leftarrow> mb_store_urgent value (mboxes s i);
       s \<leftarrow> wake_first (MbRecvQ i) (upd_mbox i (\<lambda>_. mb) s);
       Some (RT_EOK, s)
     }
   }"

subsection \<open>Receiving\<close>

definition mb_recv_round ::
  "nat \<Rightarrow> int \<Rightarrow> u32 \<Rightarrow> suspend_flag \<Rightarrow> kst \<Rightarrow> ((int \<times> u32 option) wait_step \<times> kst) option" where
  \<comment> \<open>the result of a call is its return code and the value it stored\<close>
  "mb_recv_round i timeout tick_delta suspend_flag s =
     (if mb_entry (mboxes s i) = 0 then do {
        t \<leftarrow> rt_thread_self s;
        let s = upd_tcb t (\<lambda>b. b\<lparr>t_error := - RT_EINTR\<rparr>) s;
        if timeout = 0 then do {
          s \<leftarrow> rt_spin_unlock s;
          Some (Returned (- RT_ETIMEOUT, None), upd_tcb t (\<lambda>b. b\<lparr>t_error := - RT_ETIMEOUT\<rparr>) s)
        } else do {
          (w, s) \<leftarrow> ipc_wait (MbRecvQ i) (OMailbox i) t timeout tick_delta suspend_flag s;
          Some (map_wait_step (\<lambda>e. (e, None)) w, s)
        }
      } else do {
        (value, mb) \<leftarrow> mb_fetch (mboxes s i);
        s \<leftarrow> wake_first (MbSendQ i) (upd_mbox i (\<lambda>_. mb) s);
        Some (Returned (RT_EOK, Some value), s)
      })"

definition mb_recv ::
  "nat \<Rightarrow> int \<Rightarrow> suspend_flag \<Rightarrow> kst \<Rightarrow> ((int \<times> u32 option) wait_step \<times> kst) option" where
  "mb_recv i timeout suspend_flag s = do {
     rt_assert (is_mb i s);
     rt_assert (debug_scheduler_available (timeout \<noteq> 0) s);
     let s = rt_spin_lock s;
     if mb_entry (mboxes s i) = 0 \<and> timeout = 0 then do {
       s \<leftarrow> rt_spin_unlock s;
       Some (Returned (- RT_ETIMEOUT, None), s)
     } else mb_recv_round i timeout 0 suspend_flag s
   }"

definition mb_recv_resume ::
  "nat \<Rightarrow> nat \<Rightarrow> int \<Rightarrow> u32 \<Rightarrow> suspend_flag \<Rightarrow> kst \<Rightarrow> ((int \<times> u32 option) wait_step \<times> kst) option" where
  "mb_recv_resume i t timeout tick_delta suspend_flag s =
     (if t_error (tcbs s t) \<noteq> RT_EOK then Some (Returned (t_error (tcbs s t), None), s)
      else do {
        let s = rt_spin_lock s;
        let elapsed = (if timeout > 0 then rt_tick_get s - tick_delta else tick_delta);
        mb_recv_round i (rest_timeout timeout tick_delta s) elapsed suspend_flag s
      })"

definition rt_mb_recv :: "nat \<Rightarrow> int \<Rightarrow> kst \<Rightarrow> ((int \<times> u32 option) wait_step \<times> kst) option" where
  "rt_mb_recv i timeout s = mb_recv i timeout RT_UNINTERRUPTIBLE s"

definition rt_mb_recv_interruptible :: "nat \<Rightarrow> int \<Rightarrow> kst \<Rightarrow> ((int \<times> u32 option) wait_step \<times> kst) option" where
  "rt_mb_recv_interruptible i timeout s = mb_recv i timeout RT_INTERRUPTIBLE s"

definition rt_mb_recv_killable :: "nat \<Rightarrow> int \<Rightarrow> kst \<Rightarrow> ((int \<times> u32 option) wait_step \<times> kst) option" where
  "rt_mb_recv_killable i timeout s = mb_recv i timeout RT_KILLABLE s"

definition rt_mb_control :: "nat \<Rightarrow> ipc_cmd \<Rightarrow> kst \<Rightarrow> (int \<times> kst) option" where
  "rt_mb_control i cmd s = do {
     rt_assert (is_mb i s);
     case cmd of
       IPC_CMD_RESET _ \<Rightarrow> do {
         s \<leftarrow> resume_both (MbRecvQ i) (MbSendQ i) (rt_spin_lock s);
         let s = upd_mbox i (\<lambda>m. m\<lparr>mb_entry := 0, mb_in_offset := 0, mb_out_offset := 0\<rparr>) s;
         s \<leftarrow> rt_spin_unlock s;
         s \<leftarrow> rt_schedule s;
         Some (RT_EOK, s)
       }
     | _ \<Rightarrow> Some (- RT_ERROR, s)
   }"

subsection \<open>A mailbox is a bounded queue\<close>

definition mb_wf :: "rt_mailbox \<Rightarrow> bool" where
  "mb_wf mb \<longleftrightarrow> unat (mb_size mb) \<le> length (mb_msg_pool mb) \<and> mb_entry mb \<le> mb_size mb \<and>
     (if mb_size mb = 0 then mb_in_offset mb = 0 \<and> mb_out_offset mb = 0
      else mb_out_offset mb < mb_size mb \<and>
        unat (mb_in_offset mb) = (unat (mb_out_offset mb) + unat (mb_entry mb)) mod unat (mb_size mb))"

definition mb_content :: "rt_mailbox \<Rightarrow> u32 list" where
  "mb_content mb = ring (unat (mb_size mb)) (mb_msg_pool mb) (unat (mb_out_offset mb)) (unat (mb_entry mb))"

definition mb_enqueue :: "u32 \<Rightarrow> rt_mailbox \<Rightarrow> rt_mailbox option" where
  "mb_enqueue value mb =
     (if mb_entry mb = mb_size mb then None
      else map_option (\<lambda>m. m\<lparr>mb_entry := mb_entry m + 1\<rparr>) (mb_store value mb))"

definition mb_enqueue_urgent :: "u32 \<Rightarrow> rt_mailbox \<Rightarrow> rt_mailbox option" where
  "mb_enqueue_urgent value mb = (if mb_entry mb = mb_size mb then None else mb_store_urgent value mb)"

definition mb_dequeue :: "rt_mailbox \<Rightarrow> (u32 \<times> rt_mailbox) option" where
  "mb_dequeue mb = (if mb_entry mb = 0 then None else mb_fetch mb)"

lemma unat_next_index:
  fixes x n :: "'a :: len word"
  assumes "x < n"
  shows "unat (if x + 1 \<ge> n then 0 else x + 1) = (unat x + 1) mod unat n"
proof -
  have x: "unat (x + 1) = unat x + 1" and lt: "unat x < unat n" using assms unat_inc [of x n] by (simp_all add: word_less_nat_alt)
  show ?thesis
  proof (cases "x + 1 \<ge> n")
    case True
    then have "unat x + 1 = unat n" using x lt by (simp add: word_le_nat_alt)
    then show ?thesis using True by simp
  next
    case False
    then have "unat x + 1 < unat n" using x by (simp add: word_le_nat_alt)
    then show ?thesis using False x by simp
  qed
qed

lemma mb_wfD:
  assumes "mb_wf mb" and "mb_size mb \<noteq> 0"
  shows "mb_out_offset mb < mb_size mb" "mb_in_offset mb < mb_size mb" "0 < unat (mb_size mb)"
    "unat (mb_out_offset mb) < unat (mb_size mb)"
    "unat (mb_in_offset mb) = (unat (mb_out_offset mb) + unat (mb_entry mb)) mod unat (mb_size mb)"
    "unat (mb_size mb) \<le> length (mb_msg_pool mb)" "unat (mb_entry mb) \<le> unat (mb_size mb)"
proof -
  show out: "mb_out_offset mb < mb_size mb" and pos: "0 < unat (mb_size mb)"
    and i: "unat (mb_in_offset mb) = (unat (mb_out_offset mb) + unat (mb_entry mb)) mod unat (mb_size mb)"
    and "unat (mb_size mb) \<le> length (mb_msg_pool mb)" "unat (mb_entry mb) \<le> unat (mb_size mb)"
    using assms by (simp_all add: mb_wf_def word_le_nat_alt unat_gt_0)
  show "unat (mb_out_offset mb) < unat (mb_size mb)" using out by (simp add: word_less_nat_alt)
  show "mb_in_offset mb < mb_size mb" unfolding word_less_nat_alt i using pos by (rule mod_less_divisor)
qed

lemma mb_enqueue_ok:
  assumes wf: "mb_wf mb" and lt: "mb_entry mb < mb_size mb"
  shows "\<exists>mb'. mb_store v mb = Some mb' \<and> mb_entry mb' = mb_entry mb \<and> mb_size mb' = mb_size mb \<and>
    mb_wf (mb'\<lparr>mb_entry := mb_entry mb' + 1\<rparr>) \<and>
    mb_content (mb'\<lparr>mb_entry := mb_entry mb' + 1\<rparr>) = mb_content mb @ [v]"
proof -
  have nz: "mb_size mb \<noteq> 0" using lt by auto
  note D = mb_wfD [OF wf nz]
  let ?n = "unat (mb_size mb)" and ?i = "unat (mb_in_offset mb)"
  define j where "j = (if mb_in_offset mb + 1 \<ge> mb_size mb then 0 else mb_in_offset mb + 1)"
  let ?mb = "mb\<lparr>mb_msg_pool := (mb_msg_pool mb)[?i := v], mb_in_offset := j\<rparr>"
  have "?i < length (mb_msg_pool mb)" using D(2,6) by (simp add: word_less_nat_alt)
  then have st: "mb_store v mb = Some ?mb" by (simp add: mb_store_def j_def)
  have e: "unat (mb_entry mb + 1) = unat (mb_entry mb) + 1" by (rule unat_inc [OF lt])
  have "unat j = (?i + 1) mod ?n" unfolding j_def by (rule unat_next_index [OF D(2)])
  also have "\<dots> = (unat (mb_out_offset mb) + unat (mb_entry mb + 1)) mod ?n" by (simp add: D(5) e mod_simps)
  finally have "mb_wf (?mb\<lparr>mb_entry := mb_entry ?mb + 1\<rparr>)"
    using D lt nz e by (simp add: mb_wf_def word_le_nat_alt word_less_nat_alt)
  moreover have "mb_content (?mb\<lparr>mb_entry := mb_entry ?mb + 1\<rparr>) = mb_content mb @ [v]"
    using ring_append [of "unat (mb_entry mb)" ?n "mb_msg_pool mb" "unat (mb_out_offset mb)" v] D(6) lt
    by (simp add: mb_content_def e D(5) word_less_nat_alt)
  ultimately show ?thesis using st by simp
qed

lemma mb_urgent_ok:
  assumes wf: "mb_wf mb" and lt: "mb_entry mb < mb_size mb"
  shows "\<exists>mb'. mb_store_urgent v mb = Some mb' \<and> mb_size mb' = mb_size mb \<and> mb_wf mb' \<and>
    mb_content mb' = v # mb_content mb"
proof -
  have nz: "mb_size mb \<noteq> 0" using lt by auto
  note D = mb_wfD [OF wf nz]
  let ?n = "unat (mb_size mb)" and ?a = "unat (mb_out_offset mb)"
  define j where "j = (if mb_out_offset mb > 0 then mb_out_offset mb - 1 else mb_size mb - 1)"
  have j: "unat j < ?n" "(unat j + 1) mod ?n = ?a"
  proof -
    have "unat j = (if ?a > 0 then ?a - 1 else ?n - 1)"
      using nz by (auto simp: j_def unat_minus_one word_gt_0 unat_gt_0 unat_eq_0)
    then show "unat j < ?n" "(unat j + 1) mod ?n = ?a" using D(3,4) by auto
  qed
  let ?mb = "mb\<lparr>mb_out_offset := j, mb_msg_pool := (mb_msg_pool mb)[unat j := v], mb_entry := mb_entry mb + 1\<rparr>"
  have e: "unat (mb_entry mb + 1) = unat (mb_entry mb) + 1" by (rule unat_inc [OF lt])
  have st: "mb_store_urgent v mb = Some ?mb" using j(1) D(6) by (simp add: mb_store_urgent_def j_def [symmetric] Let_def)
  have "(unat j + unat (mb_entry mb + 1)) mod ?n = ((unat j + 1) mod ?n + unat (mb_entry mb)) mod ?n"
    by (simp add: e mod_simps)
  then have "(unat j + unat (mb_entry mb + 1)) mod ?n = unat (mb_in_offset mb)" unfolding j(2) D(5) by simp
  then have "mb_wf ?mb" using D lt nz e j(1) by (simp add: mb_wf_def word_le_nat_alt word_less_nat_alt)
  moreover have "mb_content ?mb = v # mb_content mb"
    using ring_front [of "unat (mb_entry mb)" ?n "mb_msg_pool mb" "unat j" ?a v] D(6) lt j
    by (simp add: mb_content_def e word_less_nat_alt)
  ultimately show ?thesis using st by simp
qed

lemma mb_fetch_ok:
  assumes wf: "mb_wf mb" and nz: "mb_entry mb \<noteq> 0"
  shows "\<exists>v mb'. mb_fetch mb = Some (v, mb') \<and> mb_size mb' = mb_size mb \<and> mb_wf mb' \<and>
    mb_content mb = v # mb_content mb'"
proof -
  have nz': "mb_size mb \<noteq> 0" using wf nz by (auto simp: mb_wf_def)
  note D = mb_wfD [OF wf nz']
  let ?n = "unat (mb_size mb)" and ?a = "unat (mb_out_offset mb)"
  define j where "j = (if mb_out_offset mb + 1 \<ge> mb_size mb then 0 else mb_out_offset mb + 1)"
  let ?mb = "mb\<lparr>mb_out_offset := j, mb_entry := mb_entry mb - 1\<rparr>"
  have j: "unat j = (?a + 1) mod ?n" unfolding j_def by (rule unat_next_index [OF D(1)])
  define k where "k = unat (mb_entry mb - 1)"
  have e: "unat (mb_entry mb) = Suc k" using nz by (simp add: k_def unat_minus_one unat_gt_0)
  have f: "mb_fetch mb = Some (mb_msg_pool mb ! ?a, ?mb)"
  proof -
    have "?a < length (mb_msg_pool mb)" "0 < mb_entry mb" using nz D(4,6) by (simp_all add: word_gt_0)
    then show ?thesis by (simp add: mb_fetch_def j_def)
  qed
  have "j < mb_size mb" unfolding word_less_nat_alt j using D(3) by (rule mod_less_divisor)
  moreover have "unat (mb_in_offset mb) = (unat j + unat (mb_entry mb - 1)) mod ?n"
    unfolding D(5) j k_def [symmetric] e by (simp add: mod_simps)
  moreover have "mb_entry mb - 1 \<le> mb_size mb" using D(7) e by (simp add: word_le_nat_alt k_def)
  ultimately have "mb_wf ?mb" using D(6) nz' by (simp add: mb_wf_def)
  moreover have "mb_content mb = mb_msg_pool mb ! ?a # mb_content ?mb"
    using ring_tail [OF D(4), of "mb_msg_pool mb" k] by (simp add: mb_content_def e j k_def [symmetric])
  ultimately show ?thesis using f by simp
qed

interpretation mbq: urgent_queue mb_wf mb_content "\<lambda>mb. unat (mb_size mb)" mb_enqueue mb_dequeue mb_enqueue_urgent
proof
  fix mb :: rt_mailbox and x :: u32 and xs :: "u32 list"
  assume wf: "mb_wf mb"
  show "length (mb_content mb) \<le> unat (mb_size mb)" using wf by (simp add: mb_content_def mb_wf_def word_le_nat_alt)
  have full: "mb_entry mb = mb_size mb" if "length (mb_content mb) = unat (mb_size mb)"
    using that by (simp add: mb_content_def word_unat_eq_iff)
  then show "length (mb_content mb) = unat (mb_size mb) \<Longrightarrow> mb_enqueue x mb = None"
    "length (mb_content mb) = unat (mb_size mb) \<Longrightarrow> mb_enqueue_urgent x mb = None"
    by (simp_all add: mb_enqueue_def mb_enqueue_urgent_def)
  have lt: "mb_entry mb < mb_size mb" if "length (mb_content mb) < unat (mb_size mb)"
    using that by (simp add: mb_content_def word_less_nat_alt)
  then show "length (mb_content mb) < unat (mb_size mb) \<Longrightarrow> \<exists>mb'. mb_enqueue x mb = Some mb' \<and> mb_wf mb' \<and>
      mb_content mb' = mb_content mb @ [x] \<and> unat (mb_size mb') = unat (mb_size mb)"
    using mb_enqueue_ok [OF wf, of x] by (auto simp: mb_enqueue_def)
  show "length (mb_content mb) < unat (mb_size mb) \<Longrightarrow> \<exists>mb'. mb_enqueue_urgent x mb = Some mb' \<and> mb_wf mb' \<and>
      mb_content mb' = x # mb_content mb \<and> unat (mb_size mb') = unat (mb_size mb)"
    using mb_urgent_ok [OF wf lt, of x] lt by (auto simp: mb_enqueue_urgent_def)
  have emp: "mb_content mb = [] \<longleftrightarrow> mb_entry mb = 0" by (simp add: unat_eq_0 flip: length_0_conv) (simp add: mb_content_def unat_eq_0)
  then show "mb_content mb = [] \<Longrightarrow> mb_dequeue mb = None" by (simp add: mb_dequeue_def)
  show "mb_content mb = x # xs \<Longrightarrow> \<exists>mb'. mb_dequeue mb = Some (x, mb') \<and> mb_wf mb' \<and> mb_content mb' = xs \<and>
      unat (mb_size mb') = unat (mb_size mb)"
    using mb_fetch_ok [OF wf] emp by (fastforce simp: mb_dequeue_def)
qed

subsection \<open>Sending and receiving\<close>

definition mb_ok :: "nat \<Rightarrow> kst \<Rightarrow> bool" where
  "mb_ok i s \<longleftrightarrow> is_mb i s \<and> ipc_flag_ok (ipc_flag (OMailbox i) s) \<and> mb_wf (mboxes s i)"

abbreviation messages :: "nat \<Rightarrow> kst \<Rightarrow> u32 list" where
  "messages i s \<equiv> mb_content (mboxes s i)"

lemma mb_ok_woken: "mb_ok i s \<Longrightarrow> mb_wf mb \<Longrightarrow> woken W e (upd_mbox i (\<lambda>_. mb) s) s' \<Longrightarrow> mb_ok i s'"
  by (simp add: mb_ok_def woken_def ipc_flag_def rt_object_get_type_def)

lemma mb_ok_waits: "mb_ok i s \<Longrightarrow> waits t q f w e s s' \<Longrightarrow> mb_ok i s'"
  by (simp add: mb_ok_def waits_def ipc_flag_def rt_object_get_type_def)

lemma mb_put_run:
  assumes k: "kinv s" and c: "current s \<noteq> None" and ok: "mb_ok i s" and lt: "mb_entry (mboxes s i) < mb_size (mboxes s i)"
  shows "\<exists>mb s'. mb_enqueue v (mboxes s i) = Some mb \<and> mb_content mb = messages i s @ [v] \<and>
    mb_put i v (rt_spin_lock s) = Some (Returned RT_EOK, s') \<and>
    gives (MbRecvQ i) (upd_mbox i (\<lambda>_. mb) s) s' \<and> mb_ok i s'"
proof -
  have wf: "mb_wf (mboxes s i)" using ok by (simp add: mb_ok_def)
  obtain mb where mb: "mb_store v (mboxes s i) = Some mb" "mb_entry mb = mb_entry (mboxes s i)"
    "mb_wf (mb\<lparr>mb_entry := mb_entry mb + 1\<rparr>)" "mb_content (mb\<lparr>mb_entry := mb_entry mb + 1\<rparr>) = messages i s @ [v]"
    using mb_enqueue_ok [OF wf lt] by blast
  let ?mb = "mb\<lparr>mb_entry := mb_entry mb + 1\<rparr>"
  have "unat (mb_size (mboxes s i)) < 2 ^ LENGTH(16)" by (rule unsigned_less)
  then have mx: "mb_entry mb < RT_MB_ENTRY_MAX" using lt mb(2) by (simp add: word_less_nat_alt RT_MB_ENTRY_MAX_def)
  have "kinv (upd_mbox i (\<lambda>_. ?mb) s)" "current (upd_mbox i (\<lambda>_. ?mb) s) \<noteq> None" using k c by simp_all
  from wake_first_gives [OF this, of "MbRecvQ i"] obtain s' where
    s': "wake_first (MbRecvQ i) (rt_spin_lock (upd_mbox i (\<lambda>_. ?mb) s)) = Some s'"
    "gives (MbRecvQ i) (upd_mbox i (\<lambda>_. ?mb) s) s'" by blast
  have "mb_put i v (rt_spin_lock s) = Some (Returned RT_EOK, s')"
    using mb(1) mx s'(1) by (simp add: mb_put_def lock_upd(1))
  moreover have "mb_ok i s'" using mb_ok_woken [OF ok mb(3)] s'(2) unfolding gives_def by blast
  moreover have "mb_enqueue v (mboxes s i) = Some ?mb" using mb(1) lt by (auto simp: mb_enqueue_def)
  ultimately show ?thesis using mb(4) s'(2) by blast
qed

lemma mb_not_full: "mb_ok i s \<Longrightarrow> mb_entry (mboxes s i) \<noteq> mb_size (mboxes s i) \<Longrightarrow> mb_entry (mboxes s i) < mb_size (mboxes s i)"
  by (auto simp: mb_ok_def mb_wf_def intro: le_neq_trans)

lemma mb_send_round_run:
  assumes w: "can_wait t timeout s" and ok: "mb_ok i s"
  shows "if mb_entry (mboxes s i) \<noteq> mb_size (mboxes s i) then
      \<exists>mb s'. mb_enqueue v (mboxes s i) = Some mb \<and> mb_content mb = messages i s @ [v] \<and>
        mb_send_round i v timeout d sf (rt_spin_lock s) = Some (Returned RT_EOK, s') \<and>
        gives (MbRecvQ i) (upd_mbox i (\<lambda>_. mb) s) s' \<and> mb_ok i s'
    else if timeout = 0 then
      mb_send_round i v timeout d sf (rt_spin_lock s) =
        Some (Returned (- RT_EFULL), upd_tcb t (\<lambda>b. b\<lparr>t_error := - RT_EINTR\<rparr>) s)
    else \<exists>s'. mb_send_round i v timeout d sf (rt_spin_lock s) =
        Some (Waiting timeout (if timeout > 0 then tick s else d), s') \<and>
      waits t (MbSendQ i) (ipc_flag (OMailbox i) s) timeout (- RT_EINTR) s s' \<and> mb_ok i s'"
proof -
  note W = can_waitD [OF w]
  let ?s0 = "upd_tcb t (\<lambda>b. b\<lparr>t_error := - RT_EINTR\<rparr>) s"
  have fl: "ipc_flag_ok (ipc_flag (OMailbox i) s)" using ok by (simp add: mb_ok_def)
  have "can_wait t timeout ?s0" using w by simp
  from ipc_wait_run [OF this, of "OMailbox i" "MbSendQ i" d sf] fl obtain s' where
    s': "ipc_wait (MbSendQ i) (OMailbox i) t timeout d sf (rt_spin_lock ?s0) = Some (Waiting timeout (if timeout > 0 then tick s else d), s')"
    "waits t (MbSendQ i) (ipc_flag (OMailbox i) s) timeout (- RT_EINTR) s s'" by (auto simp: waits_error)
  show ?thesis
    using mb_put_run [OF W(1) _ ok mb_not_full [OF ok], of v] W s' mb_ok_waits [OF ok s'(2)]
    by (simp add: mb_send_round_def lock_upd_tcb rt_thread_self_def Let_def)
qed

text \<open>
  C11. Sending to a mailbox. With a free place the value becomes the newest message, \<open>RT_EOK\<close> is returned, and the
  first thread that waits for a message, if there is one, is awake, and no other. In a full mailbox, a call without a timeout
  returns \<open>-RT_EFULL\<close> and changes nothing; any other puts its thread on the queue of the senders.
  The guard against more than \<open>RT_MB_ENTRY_MAX\<close> messages never fires. The invariants of kernel and mailbox are kept.
\<close>

theorem mb_send_wait_branches:
  assumes k: "kinv s" and c: "current s = Some t" and w: "timeout \<noteq> 0 \<Longrightarrow> can_wait t timeout s" and ok: "mb_ok i s"
  shows "if length (messages i s) < unat (mb_size (mboxes s i)) then
      \<exists>mb s'. mb_content mb = messages i s @ [v] \<and>
        mb_send_wait i v timeout sf s = Some (Returned RT_EOK, s') \<and>
        gives (MbRecvQ i) (upd_mbox i (\<lambda>_. mb) s) s' \<and> mb_ok i s'
    else if timeout = 0 then mb_send_wait i v timeout sf s = Some (Returned (- RT_EFULL), s)
    else \<exists>s'. mb_send_wait i v timeout sf s = Some (Waiting timeout (if timeout > 0 then tick s else 0), s') \<and>
      waits t (MbSendQ i) (ipc_flag (OMailbox i) s) timeout (- RT_EINTR) s s' \<and> mb_ok i s'"
proof -
  have full: "length (messages i s) < unat (mb_size (mboxes s i)) \<longleftrightarrow> mb_entry (mboxes s i) \<noteq> mb_size (mboxes s i)"
    using mb_not_full [OF ok] ok by (auto simp: mb_content_def mb_ok_def mb_wf_def word_less_nat_alt)
  have isb: "is_mb i s" using ok by (simp add: mb_ok_def)
  have d: "debug_scheduler_available (timeout \<noteq> 0) s"
    using can_waitD(4) [OF w] by (cases "timeout = 0") (simp_all add: debug_scheduler_available_def)
  have c': "current s \<noteq> None" using c by simp
  note P = mb_put_run [OF k c' ok mb_not_full [OF ok], of v]
  consider "mb_entry (mboxes s i) \<noteq> mb_size (mboxes s i)" | "mb_entry (mboxes s i) = mb_size (mboxes s i)" "timeout = 0"
    | "mb_entry (mboxes s i) = mb_size (mboxes s i)" "timeout \<noteq> 0" by blast
  then show ?thesis
  proof cases
    case 1
    then show ?thesis
      unfolding full using P isb d by (auto simp: mb_send_wait_def mb_send_round_def)
  next
    case 2
    then show ?thesis unfolding full using k isb d by (simp add: mb_send_wait_def)
  next
    case 3
    then show ?thesis
      unfolding full using mb_send_round_run [OF w ok, of v 0 sf] isb d by (simp add: mb_send_wait_def)
  qed
qed

lemma mb_fetch_run:
  assumes k: "kinv s" and c: "current s \<noteq> None" and ok: "mb_ok i s" and ne: "mb_entry (mboxes s i) \<noteq> 0"
  shows "\<exists>v mb s'. mb_fetch (mboxes s i) = Some (v, mb) \<and> messages i s = v # mb_content mb \<and>
    wake_first (MbSendQ i) (rt_spin_lock (upd_mbox i (\<lambda>_. mb) s)) = Some s' \<and>
    gives (MbSendQ i) (upd_mbox i (\<lambda>_. mb) s) s' \<and> mb_ok i s'"
proof -
  have wf: "mb_wf (mboxes s i)" using ok by (simp add: mb_ok_def)
  obtain v mb where mb: "mb_fetch (mboxes s i) = Some (v, mb)" "mb_wf mb" "messages i s = v # mb_content mb"
    using mb_fetch_ok [OF wf ne] by blast
  have "kinv (upd_mbox i (\<lambda>_. mb) s)" "current (upd_mbox i (\<lambda>_. mb) s) \<noteq> None" using k c by simp_all
  from wake_first_gives [OF this, of "MbSendQ i"] obtain s' where
    s': "wake_first (MbSendQ i) (rt_spin_lock (upd_mbox i (\<lambda>_. mb) s)) = Some s'"
    "gives (MbSendQ i) (upd_mbox i (\<lambda>_. mb) s) s'" by blast
  have "mb_ok i s'" using mb_ok_woken [OF ok mb(2)] s'(2) unfolding gives_def by blast
  with mb(1,3) s' show ?thesis by blast
qed

lemma mb_recv_round_run:
  assumes w: "can_wait t timeout s" and ok: "mb_ok i s"
  shows "case messages i s of
      v # rest \<Rightarrow>
        \<exists>mb s'. mb_content mb = rest \<and>
          mb_recv_round i timeout d sf (rt_spin_lock s) = Some (Returned (RT_EOK, Some v), s') \<and>
          gives (MbSendQ i) (upd_mbox i (\<lambda>_. mb) s) s' \<and> mb_ok i s'
    | [] \<Rightarrow>
        if timeout = 0 then
          mb_recv_round i timeout d sf (rt_spin_lock s) =
            Some (Returned (- RT_ETIMEOUT, None), upd_tcb t (\<lambda>b. b\<lparr>t_error := - RT_ETIMEOUT\<rparr>) s)
        else \<exists>s'. mb_recv_round i timeout d sf (rt_spin_lock s) =
            Some (Waiting timeout (if timeout > 0 then tick s else d), s') \<and>
          waits t (MbRecvQ i) (ipc_flag (OMailbox i) s) timeout (- RT_EINTR) s s' \<and> mb_ok i s'"
proof -
  note W = can_waitD [OF w]
  let ?s0 = "upd_tcb t (\<lambda>b. b\<lparr>t_error := - RT_EINTR\<rparr>) s"
  have fl: "ipc_flag_ok (ipc_flag (OMailbox i) s)" using ok by (simp add: mb_ok_def)
  have emp: "messages i s = [] \<longleftrightarrow> mb_entry (mboxes s i) = 0"
    by (simp flip: length_0_conv) (simp add: mb_content_def unat_eq_0)
  show ?thesis
  proof (cases "messages i s")
    case Nil
    have "can_wait t timeout ?s0" using w by simp
    from ipc_wait_run [OF this, of "OMailbox i" "MbRecvQ i" d sf] fl obtain s' where
      s': "ipc_wait (MbRecvQ i) (OMailbox i) t timeout d sf (rt_spin_lock ?s0) = Some (Waiting timeout (if timeout > 0 then tick s else d), s')"
      "waits t (MbRecvQ i) (ipc_flag (OMailbox i) s) timeout (- RT_EINTR) s s'" by (auto simp: waits_error)
    show ?thesis
      using emp Nil W s' mb_ok_waits [OF ok s'(2)]
      by (simp add: mb_recv_round_def lock_upd_tcb rt_thread_self_def Let_def)
  next
    case (Cons v rest)
    then have ne: "mb_entry (mboxes s i) \<noteq> 0" using emp by simp
    have c: "current s \<noteq> None" using W by simp
    from mb_fetch_run [OF W(1) c ok ne] Cons obtain mb s' where
      mb: "mb_fetch (mboxes s i) = Some (v, mb)" "mb_content mb = rest"
      "wake_first (MbSendQ i) (rt_spin_lock (upd_mbox i (\<lambda>_. mb) s)) = Some s'"
      "gives (MbSendQ i) (upd_mbox i (\<lambda>_. mb) s) s'" "mb_ok i s'" by auto
    have "mb_recv_round i timeout d sf (rt_spin_lock s) = Some (Returned (RT_EOK, Some v), s')"
      using ne mb(1,3) by (simp add: mb_recv_round_def lock_upd(1))
    with Cons mb show ?thesis by auto
  qed
qed

text \<open>
  Receiving from a mailbox. The oldest message is returned with \<open>RT_EOK\<close> and leaves the mailbox, and the first thread
  that waits for a free place, if there is one, is awake, and no other. In an empty mailbox, a call without a
  timeout returns \<open>-RT_ETIMEOUT\<close>; any other puts its thread on the queue of the receivers.
\<close>

theorem mb_recv_branches:
  assumes w: "can_wait t timeout s" and ok: "mb_ok i s"
  shows "case messages i s of
      v # rest \<Rightarrow>
        \<exists>mb s'. mb_content mb = rest \<and>
          mb_recv i timeout sf s = Some (Returned (RT_EOK, Some v), s') \<and>
          gives (MbSendQ i) (upd_mbox i (\<lambda>_. mb) s) s' \<and> mb_ok i s'
    | [] \<Rightarrow>
        if timeout = 0 then mb_recv i timeout sf s = Some (Returned (- RT_ETIMEOUT, None), s)
        else \<exists>s'. mb_recv i timeout sf s = Some (Waiting timeout (if timeout > 0 then tick s else 0), s') \<and>
          waits t (MbRecvQ i) (ipc_flag (OMailbox i) s) timeout (- RT_EINTR) s s' \<and> mb_ok i s'"
proof -
  have isb: "is_mb i s" using ok by (simp add: mb_ok_def)
  have emp: "messages i s = [] \<longleftrightarrow> mb_entry (mboxes s i) = 0"
    by (simp flip: length_0_conv) (simp add: mb_content_def unat_eq_0)
  note W = can_waitD [OF w] and R = mb_recv_round_run [OF w ok, of 0 sf]
  show ?thesis
    using R isb W emp by (cases "messages i s") (auto simp: mb_recv_def)
qed

text \<open>
  A receiver that runs again. If its wait ended with an error, the call returns that error and changes nothing else;
  if a message is there it gets the oldest one; if another thread was faster, it waits again, with what is left of its
  timeout, or returns \<open>-RT_ETIMEOUT\<close> when nothing is left.
\<close>

theorem mb_recv_resume_result:
  assumes w: "can_wait t (rest_timeout timeout start s) s" and ok: "mb_ok i s"
  shows "if t_error (tcbs s t) \<noteq> RT_EOK
      then mb_recv_resume i t timeout start sf s = Some (Returned (t_error (tcbs s t), None), s)
    else case messages i s of
      v # rest \<Rightarrow> \<exists>mb s'. mb_content mb = rest \<and>
        mb_recv_resume i t timeout start sf s = Some (Returned (RT_EOK, Some v), s') \<and>
        gives (MbSendQ i) (upd_mbox i (\<lambda>_. mb) s) s' \<and> mb_ok i s'
    | [] \<Rightarrow> if rest_timeout timeout start s = 0
        then mb_recv_resume i t timeout start sf s =
          Some (Returned (- RT_ETIMEOUT, None), upd_tcb t (\<lambda>b. b\<lparr>t_error := - RT_ETIMEOUT\<rparr>) s)
        else \<exists>d s'. mb_recv_resume i t timeout start sf s = Some (Waiting (rest_timeout timeout start s) d, s') \<and>
          waits t (MbRecvQ i) (ipc_flag (OMailbox i) s) (rest_timeout timeout start s) (- RT_EINTR) s s' \<and> mb_ok i s'"
proof -
  have r: "rest_timeout timeout start (rt_spin_lock s) = rest_timeout timeout start s"
    by (simp add: rest_timeout_def rt_tick_get_def)
  define d where "d = (if timeout > 0 then rt_tick_get (rt_spin_lock s) - start else start)"
  show ?thesis
    using mb_recv_round_run [OF w ok, of d sf]
    by (cases "messages i s") (auto simp: mb_recv_resume_def r Let_def d_def)
qed

text \<open>
  An urgent message overtakes the others: it becomes the oldest message, \<open>RT_EOK\<close> is returned and the first thread
  that waits for a message is awake; in a full mailbox the call returns \<open>-RT_EFULL\<close> and changes nothing.
\<close>

theorem rt_mb_urgent_branches:
  assumes k: "kinv s" and c: "current s = Some t" and ok: "mb_ok i s"
  shows "if length (messages i s) < unat (mb_size (mboxes s i)) then
      \<exists>mb s'. mb_content mb = v # messages i s \<and> rt_mb_urgent i v s = Some (RT_EOK, s') \<and>
        gives (MbRecvQ i) (upd_mbox i (\<lambda>_. mb) s) s' \<and> mb_ok i s'
    else rt_mb_urgent i v s = Some (- RT_EFULL, s)"
proof (cases "mb_entry (mboxes s i) = mb_size (mboxes s i)")
  case True
  then show ?thesis using k ok by (simp add: rt_mb_urgent_def mb_ok_def mb_content_def)
next
  case False
  have wf: "mb_wf (mboxes s i)" using ok by (simp add: mb_ok_def)
  note lt = mb_not_full [OF ok False]
  obtain mb where mb: "mb_store_urgent v (mboxes s i) = Some mb" "mb_wf mb" "mb_content mb = v # messages i s"
    using mb_urgent_ok [OF wf lt] by blast
  have "kinv (upd_mbox i (\<lambda>_. mb) s)" "current (upd_mbox i (\<lambda>_. mb) s) \<noteq> None" using k c by simp_all
  from wake_first_gives [OF this, of "MbRecvQ i"] obtain s' where
    s': "wake_first (MbRecvQ i) (rt_spin_lock (upd_mbox i (\<lambda>_. mb) s)) = Some s'"
    "gives (MbRecvQ i) (upd_mbox i (\<lambda>_. mb) s) s'" by blast
  have "rt_mb_urgent i v s = Some (RT_EOK, s')"
    using False ok mb(1) s'(1) by (simp add: rt_mb_urgent_def mb_ok_def lock_upd(1))
  moreover have "mb_ok i s'" using mb_ok_woken [OF ok mb(2)] s'(2) unfolding gives_def by blast
  moreover have "length (messages i s) < unat (mb_size (mboxes s i))"
    using lt by (simp add: mb_content_def word_less_nat_alt)
  ultimately show ?thesis using mb(3) s'(2) by auto
qed

text \<open>
  C12. The storage of a mailbox refines the abstract queue of capacity \<open>size\<close>: any sequence of sends, urgent sends
  and receives gives the results that the list of its messages, oldest first, gives, and keeps the indices inside the pool.
\<close>

theorem mailbox_refines_queue:
  assumes "mb_wf mb"
  shows "\<exists>mb'. mbq.run ps mb = (fst (spec_run (unat (mb_size mb)) ps (mb_content mb)), mb') \<and> mb_wf mb' \<and>
    mb_content mb' = snd (spec_run (unat (mb_size mb)) ps (mb_content mb))"
  using mbq.run_refines [OF assms, of ps] by blast

text \<open>
  Detaching or resetting a mailbox releases every thread that waits on it: all receivers and all senders are awake,
  no other thread is, both queues are empty, and the pending calls return the bare \<open>RT_ERROR\<close> of the release, a
  positive number, where every other failure of these calls is negative. A reset mailbox is empty; a detached one is no mailbox any more.
\<close>

theorem rt_mb_detach_reset:
  assumes k: "kinv s" and c: "current s \<noteq> None" and ok: "mb_ok i s" and sys: "rt_object_is_systemobject (OMailbox i) s"
  shows "(\<exists>s'. rt_mb_detach i s = Some (RT_EOK, s') \<and> released (waiter (MbRecvQ i) (MbSendQ i) s) s s' \<and>
      tlists s' (Susp (MbRecvQ i)) = [] \<and> tlists s' (Susp (MbSendQ i)) = [] \<and> \<not> is_mb i s' \<and>
      (\<forall>t timeout start sf. waiter (MbRecvQ i) (MbSendQ i) s t \<longrightarrow>
         mb_recv_resume i t timeout start sf s' = Some (Returned (RT_ERROR, None), s'))) \<and>
    (\<exists>s'. rt_mb_control i (IPC_CMD_RESET v) s = Some (RT_EOK, s') \<and> released (waiter (MbRecvQ i) (MbSendQ i) s) s s' \<and>
      tlists s' (Susp (MbRecvQ i)) = [] \<and> tlists s' (Susp (MbSendQ i)) = [] \<and> mb_ok i s' \<and> messages i s' = [])"
proof
  have "registered (OMailbox i) s"
    using ok by (simp add: mb_ok_def registered_def rt_object_get_type_def rt_object_get_information_def object_container_def class_defs)
  then obtain s1 s2 s3 where s: "resume_both (MbRecvQ i) (MbSendQ i) (rt_spin_lock s) = Some s1" "rt_spin_unlock s1 = Some s2"
    "rt_object_detach (OMailbox i) s2 = Some s3" "released (waiter (MbRecvQ i) (MbSendQ i) s) s s3"
    "tlists s3 (Susp (MbRecvQ i)) = []" "tlists s3 (Susp (MbSendQ i)) = []"
    "rt_object_get_type (OMailbox i) s3 = RT_Object_Class_Null"
    using resume_both_detach [OF k c, of "MbRecvQ i" "MbSendQ i" "OMailbox i"] by (auto simp: ipc_oref_def)
  have "rt_mb_detach i s = Some (RT_EOK, s3)" using s(1-3) ok sys by (simp add: rt_mb_detach_def mb_ok_def)
  moreover have "mb_recv_resume i t timeout start sf s3 = Some (Returned (RT_ERROR, None), s3)"
    if "waiter (MbRecvQ i) (MbSendQ i) s t" for t timeout start sf
    using s(4) that by (simp add: released_def mb_recv_resume_def)
  ultimately show "\<exists>s'. rt_mb_detach i s = Some (RT_EOK, s') \<and> released (waiter (MbRecvQ i) (MbSendQ i) s) s s' \<and>
      tlists s' (Susp (MbRecvQ i)) = [] \<and> tlists s' (Susp (MbSendQ i)) = [] \<and> \<not> is_mb i s' \<and>
      (\<forall>t timeout start sf. waiter (MbRecvQ i) (MbSendQ i) s t \<longrightarrow>
         mb_recv_resume i t timeout start sf s' = Some (Returned (RT_ERROR, None), s'))"
    using s(4-7) by (intro exI [of _ s3]) (simp add: class_defs)
  have "locked_ok (rt_spin_lock s)" "current (rt_spin_lock s) \<noteq> None" using k c by simp_all
  from resume_both_run [OF this, of "MbRecvQ i" "MbSendQ i"] obtain r where
    r: "resume_both (MbRecvQ i) (MbSendQ i) (rt_spin_lock s) = Some r" "locked_ok r" "current r = current s"
    "woken (waiter (MbRecvQ i) (MbSendQ i) s) RT_ERROR s r" by (auto simp: woken_lock waiter_def [abs_def])
  let ?r = "upd_mbox i (\<lambda>m. m\<lparr>mb_entry := 0, mb_in_offset := 0, mb_out_offset := 0\<rparr>) r"
  have "locked_ok ?r" using r(2) by simp
  note U = locked_ok_unlock [OF this]
  obtain s' where s': "rt_schedule (?r\<lparr>lock_nest := lock_nest ?r - 1\<rparr>) = Some s'" "kinv s'"
    "same_ipc (?r\<lparr>lock_nest := lock_nest ?r - 1\<rparr>) s'" using rt_schedule_total [OF U(2)] c r(3) by auto
  have "rt_mb_control i (IPC_CMD_RESET v) s = Some (RT_EOK, s')"
    using r(1) U(1) s'(1) ok by (simp add: rt_mb_control_def mb_ok_def)
  moreover have "released (waiter (MbRecvQ i) (MbSendQ i) s) s s'"
    using r(4) s'(2,3) by (simp add: released_def woken_def same_ipc_def err_defs)
  moreover have "tlists s' (Susp (MbRecvQ i)) = []" "tlists s' (Susp (MbSendQ i)) = []"
    using r(4) s'(3) by (auto simp: woken_def same_ipc_def waiter_def filter_empty_conv)
  moreover have "mb_ok i s'"
    using ok r(4) s'(3) by (auto simp: mb_ok_def mb_wf_def woken_def same_ipc_def rt_object_get_type_def ipc_flag_def word_gt_0)
  moreover have "messages i s' = []" using s'(3) by (simp add: same_ipc_def mb_content_def)
  ultimately show "\<exists>s'. rt_mb_control i (IPC_CMD_RESET v) s = Some (RT_EOK, s') \<and>
      released (waiter (MbRecvQ i) (MbSendQ i) s) s s' \<and>
      tlists s' (Susp (MbRecvQ i)) = [] \<and> tlists s' (Susp (MbSendQ i)) = [] \<and> mb_ok i s' \<and> messages i s' = []" by blast
qed

subsection \<open>Instances\<close>

definition demo_mb :: "suspq \<Rightarrow> kst" where
  \<comment> \<open>mailbox 7 has two places; one holds the value 9\<close>
  "demo_mb q = upd_mbox 7 (\<lambda>_. \<lparr>mb_msg_pool = [8, 9], mb_size = 2, mb_entry = 1, mb_in_offset = 0, mb_out_offset = 1\<rparr>) (demo_wait q)"

lemma demo_mb_ok: "kinv (demo_mb q)" "mb_ok 7 (demo_mb q)" "messages 7 (demo_mb q) = [9]" "current (demo_mb q) = Some 1"
  "mb_wf (mboxes (demo_mb q) 7)" "can_wait 1 50 (demo_mb q)" "can_wait 1 0 (demo_mb q)"
  "tlists (demo_mb q) (Susp q) = [3, 2]" "mb_size (mboxes (demo_mb q) 7) = 2"
  "rt_object_is_systemobject (OMailbox 7) (demo_mb q)"
  using kinv_demo [of q] demo_wait_running [of q]
  by (simp_all add: demo_mb_def mb_ok_def mb_wf_def mb_content_def ring_def ipc_flag_ok_def ipc_flag_def demo_objs_def
      can_wait_def HALF_TICKS_val rt_object_is_systemobject_def class_defs)

lemma mb_send_wait_branches_witness:
  "\<exists>s'. mb_send_wait 7 5 50 RT_UNINTERRUPTIBLE (demo_mb (MbRecvQ 7)) = Some (Returned RT_EOK, s') \<and>
     t_error (tcbs s' 3) = RT_EOK \<and> tlists s' (Susp (MbRecvQ 7)) = [2]"
  using mb_send_wait_branches [of "demo_mb (MbRecvQ 7)" 1 50 7 5 RT_UNINTERRUPTIBLE] demo_mb_ok [of "MbRecvQ 7"]
  by (auto simp: gives_def woken_def first_of_def err_defs)

lemma mb_recv_branches_witness:
  "\<exists>s'. mb_recv 7 50 RT_UNINTERRUPTIBLE (demo_mb (MbSendQ 7)) = Some (Returned (RT_EOK, Some 9), s') \<and>
     \<not> susp_stat (tcbs s' 3)"
  using mb_recv_branches [of 1 50 "demo_mb (MbSendQ 7)" 7 RT_UNINTERRUPTIBLE] demo_mb_ok [of "MbSendQ 7"]
  by (auto simp: gives_def woken_def first_of_def err_defs)

lemma mb_recv_resume_result_witness:
  "\<exists>s'. mb_recv_resume 7 1 0 0 RT_UNINTERRUPTIBLE (upd_tcb 1 (\<lambda>b. b\<lparr>t_error := RT_EOK\<rparr>) (demo_mb (MbSendQ 7))) =
     Some (Returned (RT_EOK, Some 9), s')"
proof -
  let ?s = "upd_tcb 1 (\<lambda>b. b\<lparr>t_error := RT_EOK\<rparr>) (demo_mb (MbSendQ 7))"
  have "can_wait 1 (rest_timeout 0 0 ?s) ?s" using demo_mb_ok(7) [of "MbSendQ 7"] by (simp add: rest_timeout_def)
  moreover have "mb_ok 7 ?s" "messages 7 ?s = [9]" using demo_mb_ok [of "MbSendQ 7"] by (simp_all add: mb_ok_def)
  ultimately show ?thesis using mb_recv_resume_result [of 1 0 0 ?s 7 RT_UNINTERRUPTIBLE] by auto
qed

lemma rt_mb_urgent_branches_witness:
  "\<exists>s'. rt_mb_urgent 7 5 (demo_mb (MbRecvQ 7)) = Some (RT_EOK, s') \<and> messages 7 s' = [5, 9] \<and> \<not> susp_stat (tcbs s' 3)"
  using rt_mb_urgent_branches [of "demo_mb (MbRecvQ 7)" 1 7 5] demo_mb_ok [of "MbRecvQ 7"]
  by (auto simp: gives_def woken_def first_of_def err_defs)

lemma mailbox_refines_queue_witness:
  "\<exists>mb'. mbq.run [Put 4, Put 5, Urgent 6, Get, Get, Get] (mboxes (demo_mb (SemQ 1)) 7) =
     ([Done, Full, Full, Got 9, Got 4, Empty], mb') \<and> mb_content mb' = []"
  using mailbox_refines_queue [OF demo_mb_ok(5) [of "SemQ 1"], of "[Put 4, Put 5, Urgent 6, Get, Get, Get]"]
    demo_mb_ok(3,9) [of "SemQ 1"] by auto

lemma rt_mb_detach_reset_witness:
  "\<exists>s'. rt_mb_detach 7 (demo_mb (MbRecvQ 7)) = Some (RT_EOK, s') \<and>
     mb_recv_resume 7 2 (- 1) 0 RT_UNINTERRUPTIBLE s' = Some (Returned (1, None), s')"
proof -
  have "waiter (MbRecvQ 7) (MbSendQ 7) (demo_mb (MbRecvQ 7)) 2" using demo_mb_ok(8) [of "MbRecvQ 7"] by (simp add: waiter_def)
  then show ?thesis
    using rt_mb_detach_reset [OF demo_mb_ok(1) _ demo_mb_ok(2) demo_mb_ok(10), of "MbRecvQ 7" 0] demo_mb_ok(4) [of "MbRecvQ 7"]
    by (auto simp: err_defs)
qed

end
