(* ===== verification/MsgQueue.thy ===== *)
theory MsgQueue
  imports IpcWait FifoSpec
begin

text \<open>
  Message queues (rt-thread/src/ipc.c): a pool of message cells, linked into a queue of messages and a list of free cells.
  Cell \<open>k\<close> of the pool is named \<open>k\<close>; its header is \<open>next\<close> and \<open>length\<close>, and \<open>msg_data\<close> are the bytes behind the header.
  Buffers are lists of the bytes from the given pointer on. As for mailboxes, a call is a first round and resumed ones.
\<close>

definition RT_MQ_ENTRY_MAX :: u16 where "RT_MQ_ENTRY_MAX = 0xffff"

definition RT_ALIGN :: "u32 \<Rightarrow> u32 \<Rightarrow> u32" where
  "RT_ALIGN sz align = (sz + align - 1) AND NOT (align - 1)"

definition RT_ALIGN_SIZE :: u32 where "RT_ALIGN_SIZE = 8"

definition sizeof_mq_message :: u32 where
  \<comment> \<open>a pointer and an \<open>rt_ssize_t\<close>\<close>
  "sizeof_mq_message = 8"

abbreviation is_mq :: "nat \<Rightarrow> kst \<Rightarrow> bool" where
  "is_mq i s \<equiv> rt_object_get_type (OMsgQueue i) s = RT_Object_Class_MessageQueue"

abbreviation set_next :: "nat \<Rightarrow> nat option \<Rightarrow> rt_messagequeue \<Rightarrow> rt_messagequeue" where
  "set_next m nx mq \<equiv> mq\<lparr>mq_msgs := (mq_msgs mq)(m := (mq_msgs mq m)\<lparr>msg_next := nx\<rparr>)\<rparr>"

subsection \<open>Cells\<close>

primrec mq_build :: "nat \<Rightarrow> rt_messagequeue \<Rightarrow> rt_messagequeue" where
  \<comment> \<open>the loop that puts \<open>n\<close> cells on the free list\<close>
  "mq_build 0 mq = mq"
| "mq_build (Suc n) mq =
     (let mq = mq_build n mq; mq = set_next n (mq_free mq) mq in mq\<lparr>mq_free := Some n\<rparr>)"

definition mq_setup :: "rt_messagequeue \<Rightarrow> rt_messagequeue" where
  \<comment> \<open>the end of \<open>rt_mq_init\<close> and \<open>rt_mq_create\<close>\<close>
  "mq_setup mq =
     (let mq = mq\<lparr>mq_head := None, mq_tail := None\<rparr>;
          mq = mq\<lparr>mq_free := None\<rparr>;
          mq = mq_build (unat (mq_max_msgs mq)) mq
      in mq\<lparr>mq_entry := 0\<rparr>)"

definition mq_take_free :: "rt_messagequeue \<Rightarrow> (nat \<times> rt_messagequeue) option" where
  \<comment> \<open>\<open>None\<close>: no cell is free\<close>
  "mq_take_free mq =
     (case mq_free mq of
        None \<Rightarrow> None
      | Some m \<Rightarrow> Some (m, mq\<lparr>mq_free := msg_next (mq_msgs mq m)\<rparr>))"

definition mq_fill :: "nat \<Rightarrow> u8 list \<Rightarrow> nat \<Rightarrow> rt_messagequeue \<Rightarrow> rt_messagequeue" where
  \<comment> \<open>length and copy of the \<open>n\<close> bytes of a message\<close>
  "mq_fill m buffer n mq = mq\<lparr>mq_msgs := (mq_msgs mq)(m := (mq_msgs mq m)\<lparr>msg_length := n,
     msg_data := take n buffer @ drop n (msg_data (mq_msgs mq m))\<rparr>)\<rparr>"

definition mq_link_tail :: "nat \<Rightarrow> rt_messagequeue \<Rightarrow> rt_messagequeue" where
  "mq_link_tail m mq =
     (let mq = (case mq_tail mq of None \<Rightarrow> mq | Some l \<Rightarrow> set_next l (Some m) mq);
          mq = mq\<lparr>mq_tail := Some m\<rparr>
      in if mq_head mq = None then mq\<lparr>mq_head := Some m\<rparr> else mq)"

definition mq_link_head :: "nat \<Rightarrow> rt_messagequeue \<Rightarrow> rt_messagequeue" where
  "mq_link_head m mq =
     (let mq = set_next m (mq_head mq) mq;
          mq = mq\<lparr>mq_head := Some m\<rparr>
      in if mq_tail mq = None then mq\<lparr>mq_tail := Some m\<rparr> else mq)"

definition mq_unlink :: "rt_messagequeue \<Rightarrow> (nat \<times> rt_messagequeue) option" where
  \<comment> \<open>\<open>None\<close>: the head is a null pointer\<close>
  "mq_unlink mq = do {
     m \<leftarrow> mq_head mq;
     let mq = mq\<lparr>mq_head := msg_next (mq_msgs mq m)\<rparr>;
     Some (m, if mq_tail mq = Some m then mq\<lparr>mq_tail := None\<rparr> else mq)
   }"

definition mq_give_back :: "nat \<Rightarrow> rt_messagequeue \<Rightarrow> rt_messagequeue" where
  "mq_give_back m mq = (let mq = set_next m (mq_free mq) mq in mq\<lparr>mq_free := Some m\<rparr>)"

partial_function (option) mq_free_all :: "rt_messagequeue \<Rightarrow> rt_messagequeue option" where
  \<comment> \<open>the loop of \<open>rt_mq_control\<close>\<close>
  "mq_free_all mq =
     (if mq_head mq = None then Some mq
      else do {
        (m, mq) \<leftarrow> mq_unlink mq;
        mq_free_all (mq_give_back m mq)
      })"

subsection \<open>Initialisation\<close>

definition mq_head_init :: "nat \<Rightarrow> u8 \<Rightarrow> kst \<Rightarrow> kst" where
  "mq_head_init i flag s = ipc_object_init (MqRecvQ i) (upd_obj (OMsgQueue i) (\<lambda>ob. ob\<lparr>o_flag := flag\<rparr>) s)"

definition rt_mq_init :: "nat \<Rightarrow> string option \<Rightarrow> u32 \<Rightarrow> u32 \<Rightarrow> u8 \<Rightarrow> kst \<Rightarrow> (int \<times> kst) option" where
  "rt_mq_init i name msg_size pool_size flag s = do {
     rt_assert (flag = RT_IPC_FLAG_FIFO \<or> flag = RT_IPC_FLAG_PRIO);
     s \<leftarrow> rt_object_init (OMsgQueue i) RT_Object_Class_MessageQueue name s;
     let s = mq_head_init i flag s;
     let msg_align_size = RT_ALIGN msg_size RT_ALIGN_SIZE;
     rt_assert (msg_align_size + sizeof_mq_message \<noteq> 0);
     let s = upd_mqueue i (\<lambda>q. q\<lparr>mq_msg_size := ucast msg_size,
         mq_max_msgs := ucast (pool_size div (msg_align_size + sizeof_mq_message))\<rparr>) s;
     if mq_max_msgs (mqueues s i) = 0 then Some (- RT_EINVAL, s)
     else do {
       let s = upd_mqueue i mq_setup s;
       Some (RT_EOK, upd_tlists (\<lambda>ls. ls(Susp (MqSendQ i) := [])) s)
     }
   }"

definition rt_mq_detach :: "nat \<Rightarrow> kst \<Rightarrow> (int \<times> kst) option" where
  "rt_mq_detach i s = do {
     rt_assert (is_mq i s);
     rt_assert (rt_object_is_systemobject (OMsgQueue i) s);
     s \<leftarrow> resume_both (MqRecvQ i) (MqSendQ i) (rt_spin_lock s);
     s \<leftarrow> rt_spin_unlock s;
     s \<leftarrow> rt_object_detach (OMsgQueue i) s;
     Some (RT_EOK, s)
   }"

definition rt_mq_create ::
  "nat option \<Rightarrow> bool \<Rightarrow> string option \<Rightarrow> u32 \<Rightarrow> u32 \<Rightarrow> u8 \<Rightarrow> kst \<Rightarrow> (nat option \<times> kst) option" where
  \<comment> \<open>\<open>block\<close>: the object the heap gave; \<open>pool_ok\<close>: it had the memory for the messages\<close>
  "rt_mq_create block pool_ok name msg_size max_msgs flag s = do {
     rt_assert (flag = RT_IPC_FLAG_FIFO \<or> flag = RT_IPC_FLAG_PRIO);
     rt_assert (debug_not_in_interrupt s);
     (_, s) \<leftarrow> rt_object_allocate (map_option OMsgQueue block) RT_Object_Class_MessageQueue name s;
     case block of
       None \<Rightarrow> Some (None, s)
     | Some i \<Rightarrow> do {
         let s = mq_head_init i flag s;
         let s = upd_mqueue i (\<lambda>q. q\<lparr>mq_msg_size := ucast msg_size, mq_max_msgs := ucast max_msgs\<rparr>) s;
         if \<not> pool_ok then do {
           s \<leftarrow> rt_object_delete (OMsgQueue i) s;
           Some (None, s)
         } else do {
           let s = upd_mqueue i mq_setup s;
           Some (Some i, upd_tlists (\<lambda>ls. ls(Susp (MqSendQ i) := [])) s)
         }
       }
   }"

definition rt_mq_delete :: "nat \<Rightarrow> kst \<Rightarrow> (int \<times> kst) option" where
  "rt_mq_delete i s = do {
     rt_assert (is_mq i s);
     rt_assert (\<not> rt_object_is_systemobject (OMsgQueue i) s);
     rt_assert (debug_not_in_interrupt s);
     s \<leftarrow> resume_both (MqRecvQ i) (MqSendQ i) (rt_spin_lock s);
     s \<leftarrow> rt_spin_unlock s;
     s \<leftarrow> rt_object_delete (OMsgQueue i) s;
     Some (RT_EOK, s)
   }"

subsection \<open>Sending\<close>

definition mq_entered :: "nat \<Rightarrow> kst \<Rightarrow> (int \<times> kst) option" where
  \<comment> \<open>the message is linked: count it and wake a receiver\<close>
  "mq_entered i s =
     (if mq_entry (mqueues s i) < RT_MQ_ENTRY_MAX then do {
        s \<leftarrow> wake_first (MqRecvQ i) (upd_mqueue i (\<lambda>q. q\<lparr>mq_entry := mq_entry q + 1\<rparr>) s);
        Some (RT_EOK, s)
      } else do {
        s \<leftarrow> rt_spin_unlock s;
        Some (- RT_EFULL, s)
      })"

definition mq_put :: "nat \<Rightarrow> nat \<Rightarrow> u8 list \<Rightarrow> nat \<Rightarrow> kst \<Rightarrow> (int wait_step \<times> kst) option" where
  \<comment> \<open>the part of \<open>_rt_mq_send_wait\<close> after its loop, for the free cell \<open>m\<close>\<close>
  "mq_put i m buffer n s = do {
     let s = upd_mqueue i (\<lambda>q. q\<lparr>mq_free := msg_next (mq_msgs q m)\<rparr>) s;
     s \<leftarrow> rt_spin_unlock s;
     rt_assert (n \<le> length buffer);
     let s = upd_mqueue i (\<lambda>q. mq_fill m buffer n (set_next m None q)) s;
     let s = rt_spin_lock s;
     (e, s) \<leftarrow> mq_entered i (upd_mqueue i (mq_link_tail m) s);
     Some (Returned e, s)
   }"

definition mq_send_round ::
  "nat \<Rightarrow> u8 list \<Rightarrow> nat \<Rightarrow> int \<Rightarrow> u32 \<Rightarrow> suspend_flag \<Rightarrow> kst \<Rightarrow> (int wait_step \<times> kst) option" where
  "mq_send_round i buffer n timeout tick_delta suspend_flag s =
     (case mq_free (mqueues s i) of
        None \<Rightarrow> do {
          t \<leftarrow> rt_thread_self s;
          let s = upd_tcb t (\<lambda>b. b\<lparr>t_error := - RT_EINTR\<rparr>) s;
          if timeout = 0 then do {
            s \<leftarrow> rt_spin_unlock s;
            Some (Returned (- RT_EFULL), s)
          } else ipc_wait (MqSendQ i) (OMsgQueue i) t timeout tick_delta suspend_flag s
        }
      | Some m \<Rightarrow> mq_put i m buffer n s)"

definition mq_send_wait ::
  "nat \<Rightarrow> u8 list \<Rightarrow> nat \<Rightarrow> int \<Rightarrow> suspend_flag \<Rightarrow> kst \<Rightarrow> (int wait_step \<times> kst) option" where
  "mq_send_wait i buffer n timeout suspend_flag s = do {
     rt_assert (is_mq i s);
     rt_assert (n \<noteq> 0);
     rt_assert (debug_scheduler_available (timeout \<noteq> 0) s);
     if n > unat (mq_msg_size (mqueues s i)) then Some (Returned (- RT_ERROR), s)
     else do {
       let s = rt_spin_lock s;
       if mq_free (mqueues s i) = None \<and> timeout = 0 then do {
         s \<leftarrow> rt_spin_unlock s;
         Some (Returned (- RT_EFULL), s)
       } else mq_send_round i buffer n timeout 0 suspend_flag s
     }
   }"

definition mq_send_resume ::
  "nat \<Rightarrow> nat \<Rightarrow> u8 list \<Rightarrow> nat \<Rightarrow> int \<Rightarrow> u32 \<Rightarrow> suspend_flag \<Rightarrow> kst \<Rightarrow> (int wait_step \<times> kst) option" where
  "mq_send_resume i t buffer n timeout tick_delta suspend_flag s =
     (if t_error (tcbs s t) \<noteq> RT_EOK then Some (Returned (t_error (tcbs s t)), s)
      else do {
        let s = rt_spin_lock s;
        let elapsed = (if timeout > 0 then rt_tick_get s - tick_delta else tick_delta);
        mq_send_round i buffer n (rest_timeout timeout tick_delta s) elapsed suspend_flag s
      })"

definition rt_mq_send_wait :: "nat \<Rightarrow> u8 list \<Rightarrow> nat \<Rightarrow> int \<Rightarrow> kst \<Rightarrow> (int wait_step \<times> kst) option" where
  "rt_mq_send_wait i buffer n timeout s = mq_send_wait i buffer n timeout RT_UNINTERRUPTIBLE s"

definition rt_mq_send_wait_interruptible :: "nat \<Rightarrow> u8 list \<Rightarrow> nat \<Rightarrow> int \<Rightarrow> kst \<Rightarrow> (int wait_step \<times> kst) option" where
  "rt_mq_send_wait_interruptible i buffer n timeout s = mq_send_wait i buffer n timeout RT_INTERRUPTIBLE s"

definition rt_mq_send_wait_killable :: "nat \<Rightarrow> u8 list \<Rightarrow> nat \<Rightarrow> int \<Rightarrow> kst \<Rightarrow> (int wait_step \<times> kst) option" where
  "rt_mq_send_wait_killable i buffer n timeout s = mq_send_wait i buffer n timeout RT_KILLABLE s"

definition rt_mq_send :: "nat \<Rightarrow> u8 list \<Rightarrow> nat \<Rightarrow> kst \<Rightarrow> (int wait_step \<times> kst) option" where
  "rt_mq_send i buffer n s = rt_mq_send_wait i buffer n 0 s"

definition rt_mq_send_interruptible :: "nat \<Rightarrow> u8 list \<Rightarrow> nat \<Rightarrow> kst \<Rightarrow> (int wait_step \<times> kst) option" where
  "rt_mq_send_interruptible i buffer n s = rt_mq_send_wait_interruptible i buffer n 0 s"

definition rt_mq_send_killable :: "nat \<Rightarrow> u8 list \<Rightarrow> nat \<Rightarrow> kst \<Rightarrow> (int wait_step \<times> kst) option" where
  "rt_mq_send_killable i buffer n s = rt_mq_send_wait_killable i buffer n 0 s"

definition rt_mq_urgent :: "nat \<Rightarrow> u8 list \<Rightarrow> nat \<Rightarrow> kst \<Rightarrow> (int \<times> kst) option" where
  "rt_mq_urgent i buffer n s = do {
     rt_assert (is_mq i s);
     rt_assert (n \<noteq> 0);
     if n > unat (mq_msg_size (mqueues s i)) then Some (- RT_ERROR, s)
     else do {
       let s = rt_spin_lock s;
       case mq_take_free (mqueues s i) of
         None \<Rightarrow> do {
           s \<leftarrow> rt_spin_unlock s;
           Some (- RT_EFULL, s)
         }
       | Some (m, mq) \<Rightarrow> do {
           s \<leftarrow> rt_spin_unlock (upd_mqueue i (\<lambda>_. mq) s);
           rt_assert (n \<le> length buffer);
           let s = upd_mqueue i (mq_fill m buffer n) s;
           let s = rt_spin_lock s;
           mq_entered i (upd_mqueue i (mq_link_head m) s)
         }
     }
   }"

subsection \<open>Receiving\<close>

definition mq_take :: "nat \<Rightarrow> nat \<Rightarrow> kst \<Rightarrow> ((int \<times> u8 list) wait_step \<times> kst) option" where
  \<comment> \<open>the part of \<open>_rt_mq_recv\<close> after its loop, for a buffer of \<open>n\<close> bytes\<close>
  "mq_take i n s = do {
     (m, mq) \<leftarrow> mq_unlink (mqueues s i);
     let mq = (if mq_entry mq > 0 then mq\<lparr>mq_entry := mq_entry mq - 1\<rparr> else mq);
     s \<leftarrow> rt_spin_unlock (upd_mqueue i (\<lambda>_. mq) s);
     let len = msg_length (mq_msgs (mqueues s i) m);
     let len = (if len > n then n else len);
     let bytes = take len (msg_data (mq_msgs (mqueues s i) m));
     let s = rt_spin_lock s;
     s \<leftarrow> wake_first (MqSendQ i) (upd_mqueue i (mq_give_back m) s);
     Some (Returned (int len, bytes), s)
   }"

definition mq_recv_round ::
  "nat \<Rightarrow> nat \<Rightarrow> int \<Rightarrow> u32 \<Rightarrow> suspend_flag \<Rightarrow> kst \<Rightarrow> ((int \<times> u8 list) wait_step \<times> kst) option" where
  \<comment> \<open>the result of a call is its return value and the bytes it stored in the buffer\<close>
  "mq_recv_round i n timeout tick_delta suspend_flag s =
     (if mq_entry (mqueues s i) = 0 then do {
        t \<leftarrow> rt_thread_self s;
        let s = upd_tcb t (\<lambda>b. b\<lparr>t_error := - RT_EINTR\<rparr>) s;
        if timeout = 0 then do {
          s \<leftarrow> rt_spin_unlock s;
          Some (Returned (- RT_ETIMEOUT, []), upd_tcb t (\<lambda>b. b\<lparr>t_error := - RT_ETIMEOUT\<rparr>) s)
        } else do {
          (w, s) \<leftarrow> ipc_wait (MqRecvQ i) (OMsgQueue i) t timeout tick_delta suspend_flag s;
          Some (map_wait_step (\<lambda>e. (e, [])) w, s)
        }
      } else mq_take i n s)"

definition mq_recv ::
  "nat \<Rightarrow> nat \<Rightarrow> int \<Rightarrow> suspend_flag \<Rightarrow> kst \<Rightarrow> ((int \<times> u8 list) wait_step \<times> kst) option" where
  "mq_recv i n timeout suspend_flag s = do {
     rt_assert (is_mq i s);
     rt_assert (n \<noteq> 0);
     rt_assert (debug_scheduler_available (timeout \<noteq> 0) s);
     let s = rt_spin_lock s;
     if mq_entry (mqueues s i) = 0 \<and> timeout = 0 then do {
       s \<leftarrow> rt_spin_unlock s;
       Some (Returned (- RT_ETIMEOUT, []), s)
     } else mq_recv_round i n timeout 0 suspend_flag s
   }"

definition mq_recv_resume ::
  "nat \<Rightarrow> nat \<Rightarrow> nat \<Rightarrow> int \<Rightarrow> u32 \<Rightarrow> suspend_flag \<Rightarrow> kst \<Rightarrow> ((int \<times> u8 list) wait_step \<times> kst) option" where
  "mq_recv_resume i t n timeout tick_delta suspend_flag s =
     (if t_error (tcbs s t) \<noteq> RT_EOK then Some (Returned (t_error (tcbs s t), []), s)
      else do {
        let s = rt_spin_lock s;
        let elapsed = (if timeout > 0 then rt_tick_get s - tick_delta else tick_delta);
        mq_recv_round i n (rest_timeout timeout tick_delta s) elapsed suspend_flag s
      })"

definition rt_mq_recv :: "nat \<Rightarrow> nat \<Rightarrow> int \<Rightarrow> kst \<Rightarrow> ((int \<times> u8 list) wait_step \<times> kst) option" where
  "rt_mq_recv i n timeout s = mq_recv i n timeout RT_UNINTERRUPTIBLE s"

definition rt_mq_recv_interruptible :: "nat \<Rightarrow> nat \<Rightarrow> int \<Rightarrow> kst \<Rightarrow> ((int \<times> u8 list) wait_step \<times> kst) option" where
  "rt_mq_recv_interruptible i n timeout s = mq_recv i n timeout RT_INTERRUPTIBLE s"

definition rt_mq_recv_killable :: "nat \<Rightarrow> nat \<Rightarrow> int \<Rightarrow> kst \<Rightarrow> ((int \<times> u8 list) wait_step \<times> kst) option" where
  "rt_mq_recv_killable i n timeout s = mq_recv i n timeout RT_KILLABLE s"

definition rt_mq_control :: "nat \<Rightarrow> ipc_cmd \<Rightarrow> kst \<Rightarrow> (int \<times> kst) option" where
  "rt_mq_control i cmd s = do {
     rt_assert (is_mq i s);
     case cmd of
       IPC_CMD_RESET _ \<Rightarrow> do {
         s \<leftarrow> resume_both (MqRecvQ i) (MqSendQ i) (rt_spin_lock s);
         mq \<leftarrow> mq_free_all (mqueues s i);
         let s = upd_mqueue i (\<lambda>_. mq\<lparr>mq_entry := 0\<rparr>) s;
         s \<leftarrow> rt_spin_unlock s;
         s \<leftarrow> rt_schedule s;
         Some (RT_EOK, s)
       }
     | _ \<Rightarrow> Some (- RT_ERROR, s)
   }"

subsection \<open>Linked cells\<close>

fun chain :: "(nat \<Rightarrow> mq_message) \<Rightarrow> nat option \<Rightarrow> nat list \<Rightarrow> bool" where
  \<comment> \<open>the cells \<open>xs\<close>, linked by their \<open>next\<close> pointers, from \<open>p\<close> to the null pointer\<close>
  "chain f p [] \<longleftrightarrow> p = None"
| "chain f p (x # xs) \<longleftrightarrow> p = Some x \<and> chain f (msg_next (f x)) xs"

fun walk :: "(nat \<Rightarrow> mq_message) \<Rightarrow> nat option \<Rightarrow> nat \<Rightarrow> nat list" where
  "walk f None n = []"
| "walk f (Some x) 0 = []"
| "walk f (Some x) (Suc n) = x # walk f (msg_next (f x)) n"

lemma walk_chain: "chain f p xs \<Longrightarrow> walk f p (length xs) = xs"
  by (induction xs arbitrary: p) auto

lemma chain_cong:
  "(\<And>x. x \<in> set xs \<Longrightarrow> msg_next (g x) = msg_next (f x)) \<Longrightarrow> chain g p xs = chain f p xs"
  by (induction xs arbitrary: p) auto

lemma chain_None [simp]: "chain f None xs \<longleftrightarrow> xs = []"
  by (cases xs) auto

lemma chain_Some: "chain f (Some x) xs \<longleftrightarrow> (\<exists>ys. xs = x # ys \<and> chain f (msg_next (f x)) ys)"
  by (cases xs) auto

lemma chain_snoc:
  assumes "chain f p xs" and "distinct xs" and "m \<notin> set xs" and "msg_next (f m) = None" and "xs \<noteq> []"
  shows "chain (f(last xs := (f (last xs))\<lparr>msg_next := Some m\<rparr>)) p (xs @ [m])"
  using assms
proof (induction xs arbitrary: p)
  case (Cons x xs)
  let ?g = "f(last (x # xs) := (f (last (x # xs)))\<lparr>msg_next := Some m\<rparr>)"
  show ?case
  proof (cases "xs = []")
    case True
    then show ?thesis using Cons.prems by auto
  next
    case False
    have l: "last (x # xs) = last xs" using False by simp
    have "chain (f(last xs := (f (last xs))\<lparr>msg_next := Some m\<rparr>)) (msg_next (f x)) (xs @ [m])"
      by (rule Cons.IH) (use Cons.prems False in \<open>simp_all del: fun_upd_apply\<close>)
    moreover have "x \<noteq> last xs" using Cons.prems(2) False by auto
    ultimately show ?thesis unfolding l using Cons.prems(1) by (simp only: append_Cons chain.simps fun_upd_other not_False_eq_True simp_thms)
  qed
qed simp

subsection \<open>A message queue is a bounded queue of byte strings\<close>

definition mq_rep :: "rt_messagequeue \<Rightarrow> nat list \<Rightarrow> nat list \<Rightarrow> bool" where
  \<comment> \<open>\<open>qs\<close> are the cells of the queue, \<open>fs\<close> the free ones\<close>
  "mq_rep mq qs fs \<longleftrightarrow> chain (mq_msgs mq) (mq_head mq) qs \<and> chain (mq_msgs mq) (mq_free mq) fs \<and>
     distinct (qs @ fs) \<and> length qs + length fs = unat (mq_max_msgs mq) \<and>
     length qs = unat (mq_entry mq) \<and> mq_tail mq = (if qs = [] then None else Some (last qs)) \<and>
     (\<forall>x \<in> set qs. msg_length (mq_msgs mq x) \<le> length (msg_data (mq_msgs mq x)))"

definition mq_wf :: "rt_messagequeue \<Rightarrow> bool" where
  "mq_wf mq \<longleftrightarrow> (\<exists>qs fs. mq_rep mq qs fs)"

definition msg_bytes :: "mq_message \<Rightarrow> u8 list" where
  "msg_bytes m = take (msg_length m) (msg_data m)"

definition mq_content :: "rt_messagequeue \<Rightarrow> u8 list list" where
  "mq_content mq = map (\<lambda>x. msg_bytes (mq_msgs mq x)) (walk (mq_msgs mq) (mq_head mq) (unat (mq_entry mq)))"

lemma mq_content_rep: "mq_rep mq qs fs \<Longrightarrow> mq_content mq = map (\<lambda>x. msg_bytes (mq_msgs mq x)) qs"
  using walk_chain [of "mq_msgs mq" "mq_head mq" qs] by (simp add: mq_rep_def mq_content_def)

definition mq_append :: "nat \<Rightarrow> u8 list \<Rightarrow> nat \<Rightarrow> rt_messagequeue \<Rightarrow> rt_messagequeue" where
  \<comment> \<open>what sending does with cell \<open>m\<close>, the head of the free list\<close>
  "mq_append m buffer n mq =
     (let mq = mq_link_tail m (mq_fill m buffer n (set_next m None (mq\<lparr>mq_free := msg_next (mq_msgs mq m)\<rparr>)))
      in mq\<lparr>mq_entry := mq_entry mq + 1\<rparr>)"

definition mq_prepend :: "nat \<Rightarrow> u8 list \<Rightarrow> nat \<Rightarrow> rt_messagequeue \<Rightarrow> rt_messagequeue" where
  "mq_prepend m buffer n mq =
     (let mq = mq_link_head m (mq_fill m buffer n (mq\<lparr>mq_free := msg_next (mq_msgs mq m)\<rparr>))
      in mq\<lparr>mq_entry := mq_entry mq + 1\<rparr>)"

definition mq_enqueue :: "u8 list \<Rightarrow> rt_messagequeue \<Rightarrow> rt_messagequeue option" where
  "mq_enqueue x mq = map_option (\<lambda>m. mq_append m x (length x) mq) (mq_free mq)"

definition mq_enqueue_urgent :: "u8 list \<Rightarrow> rt_messagequeue \<Rightarrow> rt_messagequeue option" where
  "mq_enqueue_urgent x mq = map_option (\<lambda>m. mq_prepend m x (length x) mq) (mq_free mq)"

definition mq_remove_first :: "rt_messagequeue \<Rightarrow> (nat \<times> rt_messagequeue) option" where
  "mq_remove_first mq = do {
     (m, mq) \<leftarrow> mq_unlink mq;
     let mq = (if mq_entry mq > 0 then mq\<lparr>mq_entry := mq_entry mq - 1\<rparr> else mq);
     Some (m, mq_give_back m mq)
   }"

definition mq_dequeue :: "rt_messagequeue \<Rightarrow> (u8 list \<times> rt_messagequeue) option" where
  "mq_dequeue mq =
     (if mq_entry mq = 0 then None
      else map_option (\<lambda>(m, mq'). (msg_bytes (mq_msgs mq m), mq')) (mq_remove_first mq))"

lemma mq_rep_bound: "mq_rep mq qs fs \<Longrightarrow> mq_entry mq \<le> mq_max_msgs mq"
  by (simp add: mq_rep_def word_le_nat_alt)

lemma mq_rep_entry_inc:
  assumes "mq_rep mq qs (m # fs)"
  shows "unat (mq_entry mq + 1) = Suc (unat (mq_entry mq))" and "mq_entry mq < mq_max_msgs mq" and "mq_free mq = Some m"
proof -
  show "mq_entry mq < mq_max_msgs mq" using assms by (simp add: mq_rep_def word_less_nat_alt)
  from unat_inc [OF this] show "unat (mq_entry mq + 1) = Suc (unat (mq_entry mq))" by simp
  show "mq_free mq = Some m" using assms by (simp add: mq_rep_def)
qed

lemma mq_append_rep:
  assumes r: "mq_rep mq qs (m # fs)" and n: "n \<le> length buffer"
  shows "mq_rep (mq_append m buffer n mq) (qs @ [m]) fs"
    and "mq_content (mq_append m buffer n mq) = mq_content mq @ [take n buffer]"
    and "mq_max_msgs (mq_append m buffer n mq) = mq_max_msgs mq"
proof -
  let ?mq = "mq_append m buffer n mq"
  note R = r [unfolded mq_rep_def]
  define f where "f = (mq_msgs mq)(m := (mq_msgs mq m)\<lparr>msg_next := None, msg_length := n,
     msg_data := take n buffer @ drop n (msg_data (mq_msgs mq m))\<rparr>)"
  have d: "m \<notin> set qs" "m \<notin> set fs" "distinct qs" "set qs \<inter> set fs = {}" using R by auto
  have "chain f (mq_head mq) qs = chain (mq_msgs mq) (mq_head mq) qs"
    "chain f (msg_next (mq_msgs mq m)) fs = chain (mq_msgs mq) (msg_next (mq_msgs mq m)) fs"
    by (rule chain_cong; use d in \<open>auto simp: f_def\<close>)+
  then have c: "chain f (mq_head mq) qs" "chain f (msg_next (mq_msgs mq m)) fs" using R by simp_all
  have e: "unat (mq_entry mq + 1) = Suc (unat (mq_entry mq))" by (rule mq_rep_entry_inc [OF r])
  show rep: "mq_rep ?mq (qs @ [m]) fs"
  proof (cases "qs = []")
    case True
    then have "?mq = mq\<lparr>mq_msgs := f, mq_free := msg_next (mq_msgs mq m), mq_tail := Some m, mq_head := Some m, mq_entry := mq_entry mq + 1\<rparr>"
      using R by (simp add: mq_append_def mq_link_tail_def mq_fill_def f_def Let_def)
    then show ?thesis using True R c(2) e n by (simp add: mq_rep_def f_def)
  next
    case False
    let ?g = "f(last qs := (f (last qs))\<lparr>msg_next := Some m\<rparr>)"
    have h: "mq_head mq \<noteq> None" using False R by (cases qs) auto
    have M: "?mq = mq\<lparr>mq_msgs := ?g, mq_free := msg_next (mq_msgs mq m), mq_tail := Some m, mq_entry := mq_entry mq + 1\<rparr>"
      using False R h by (simp add: mq_append_def mq_link_tail_def mq_fill_def f_def Let_def)
    have "chain ?g (mq_head mq) (qs @ [m])" by (rule chain_snoc [OF c(1) d(3,1) _ False]) (simp add: f_def)
    moreover have "last qs \<notin> set fs" using d(4) False last_in_set [of qs] by blast
    then have "chain ?g (msg_next (mq_msgs mq m)) fs = chain f (msg_next (mq_msgs mq m)) fs" by (intro chain_cong) auto
    moreover have "msg_length (?g x) = msg_length (f x)" "msg_data (?g x) = msg_data (f x)" for x by auto
    moreover have "\<forall>x \<in> set (qs @ [m]). msg_length (f x) \<le> length (msg_data (f x))" using R d(1) n by (auto simp: f_def)
    ultimately show ?thesis using M R c(2) e by (auto simp: mq_rep_def)
  qed
  have "msg_bytes (mq_msgs ?mq x) = msg_bytes (f x)" for x
    by (auto simp: mq_append_def mq_link_tail_def mq_fill_def f_def Let_def msg_bytes_def split: option.splits)
  moreover have "msg_bytes (f m) = take n buffer" using n by (simp add: f_def msg_bytes_def)
  moreover have "map (\<lambda>x. msg_bytes (f x)) qs = map (\<lambda>x. msg_bytes (mq_msgs mq x)) qs"
    using d(1) by (auto simp: f_def)
  ultimately show "mq_content ?mq = mq_content mq @ [take n buffer]"
    unfolding mq_content_rep [OF r] mq_content_rep [OF rep] by simp
  show "mq_max_msgs ?mq = mq_max_msgs mq"
    by (simp add: mq_append_def mq_link_tail_def mq_fill_def Let_def split: option.splits)
qed

lemma mq_prepend_rep:
  assumes r: "mq_rep mq qs (m # fs)" and n: "n \<le> length buffer"
  shows "mq_rep (mq_prepend m buffer n mq) (m # qs) fs"
    and "mq_content (mq_prepend m buffer n mq) = take n buffer # mq_content mq"
    and "mq_max_msgs (mq_prepend m buffer n mq) = mq_max_msgs mq"
proof -
  let ?mq = "mq_prepend m buffer n mq"
  note R = r [unfolded mq_rep_def]
  define f where "f = (mq_msgs mq)(m := (mq_msgs mq m)\<lparr>msg_length := n,
     msg_data := take n buffer @ drop n (msg_data (mq_msgs mq m)), msg_next := mq_head mq\<rparr>)"
  have d: "m \<notin> set qs" "m \<notin> set fs" using R by auto
  have "chain f (mq_head mq) qs = chain (mq_msgs mq) (mq_head mq) qs"
    "chain f (msg_next (mq_msgs mq m)) fs = chain (mq_msgs mq) (msg_next (mq_msgs mq m)) fs"
    by (rule chain_cong; use d in \<open>auto simp: f_def\<close>)+
  then have c: "chain f (mq_head mq) qs" "chain f (msg_next (mq_msgs mq m)) fs" using R by simp_all
  have e: "unat (mq_entry mq + 1) = Suc (unat (mq_entry mq))" by (rule mq_rep_entry_inc [OF r])
  have M: "mq_msgs ?mq = f" "mq_free ?mq = msg_next (mq_msgs mq m)" "mq_head ?mq = Some m" "mq_entry ?mq = mq_entry mq + 1"
    "mq_max_msgs ?mq = mq_max_msgs mq" "mq_tail ?mq = (if qs = [] then Some m else mq_tail mq)"
    using R by (simp_all add: mq_prepend_def mq_link_head_def mq_fill_def f_def Let_def)
  then show rep: "mq_rep ?mq (m # qs) fs"
    using R c e n by (auto simp: mq_rep_def f_def)
  have "msg_bytes (mq_msgs ?mq m) = take n buffer" using n M(1) by (simp add: f_def msg_bytes_def)
  moreover have "map (\<lambda>x. msg_bytes (mq_msgs ?mq x)) qs = map (\<lambda>x. msg_bytes (mq_msgs mq x)) qs"
    using d(1) M(1) by (auto simp: f_def)
  ultimately show "mq_content ?mq = take n buffer # mq_content mq"
    unfolding mq_content_rep [OF r] mq_content_rep [OF rep] by simp
  show "mq_max_msgs ?mq = mq_max_msgs mq" by (rule M(5))
qed

lemma mq_unlink_rep:
  assumes r: "mq_rep mq (m # qs) fs"
  shows "mq_unlink mq = Some (m, mq\<lparr>mq_head := msg_next (mq_msgs mq m), mq_tail := (if qs = [] then None else mq_tail mq)\<rparr>)"
    and "mq_entry mq > 0" "unat (mq_entry mq - 1) = length qs"
proof -
  have R: "mq_head mq = Some m" "mq_tail mq = Some (last (m # qs))" "m \<notin> set qs" "unat (mq_entry mq) = Suc (length qs)"
    using r by (auto simp: mq_rep_def)
  have "mq_tail mq = Some m \<longleftrightarrow> qs = []" using R(2,3) last_in_set [of qs] by (auto split: if_splits)
  then show "mq_unlink mq = Some (m, mq\<lparr>mq_head := msg_next (mq_msgs mq m), mq_tail := (if qs = [] then None else mq_tail mq)\<rparr>)"
    using R(1) by (simp add: mq_unlink_def Let_def)
  have "unat (mq_entry mq) > 0" using R(4) by simp
  then show "mq_entry mq > 0" by (simp add: word_gt_0 unat_gt_0)
  then show "unat (mq_entry mq - 1) = length qs" using R(4) by (simp add: unat_minus_one word_gt_0)
qed

lemma mq_remove_first_rep:
  assumes r: "mq_rep mq (m # qs) fs"
  shows "\<exists>mq'. mq_remove_first mq = Some (m, mq') \<and> mq_rep mq' qs (m # fs) \<and>
    mq_content mq = msg_bytes (mq_msgs mq m) # mq_content mq' \<and> mq_max_msgs mq' = mq_max_msgs mq \<and>
    mq_msg_size mq' = mq_msg_size mq"
proof -
  note U = mq_unlink_rep [OF r] and R = r [unfolded mq_rep_def]
  define f where "f = (mq_msgs mq)(m := (mq_msgs mq m)\<lparr>msg_next := mq_free mq\<rparr>)"
  define mq' where "mq' = mq\<lparr>mq_head := msg_next (mq_msgs mq m), mq_tail := (if qs = [] then None else mq_tail mq),
      mq_entry := mq_entry mq - 1, mq_msgs := f, mq_free := Some m\<rparr>"
  have mq': "mq_remove_first mq = Some (m, mq')" "mq_msgs mq' = f" "mq_head mq' = msg_next (mq_msgs mq m)"
    "mq_free mq' = Some m" "mq_entry mq' = mq_entry mq - 1" "mq_max_msgs mq' = mq_max_msgs mq" "mq_msg_size mq' = mq_msg_size mq"
    "mq_tail mq' = (if qs = [] then None else mq_tail mq)"
    using U(1,2) by (simp_all add: mq_remove_first_def mq_give_back_def Let_def f_def mq'_def)
  have d: "m \<notin> set qs" "m \<notin> set fs" using R by auto
  have "chain f (msg_next (mq_msgs mq m)) qs = chain (mq_msgs mq) (msg_next (mq_msgs mq m)) qs"
    "chain f (mq_free mq) fs = chain (mq_msgs mq) (mq_free mq) fs"
    by (rule chain_cong; use d in \<open>auto simp: f_def\<close>)+
  then have rep: "mq_rep mq' qs (m # fs)" using R mq' U(3) by (auto simp: mq_rep_def f_def)
  have "map (\<lambda>x. msg_bytes (mq_msgs mq' x)) qs = map (\<lambda>x. msg_bytes (mq_msgs mq x)) qs"
    using d(1) mq'(2) by (auto simp: f_def)
  then have "mq_content mq = msg_bytes (mq_msgs mq m) # mq_content mq'"
    unfolding mq_content_rep [OF r] mq_content_rep [OF rep] by simp
  with rep mq' show ?thesis by blast
qed

lemma mq_rep_full: "mq_rep mq qs fs \<Longrightarrow> fs = [] \<longleftrightarrow> mq_free mq = None"
  by (cases fs) (auto simp: mq_rep_def)

interpretation mqq: urgent_queue mq_wf mq_content "\<lambda>mq. unat (mq_max_msgs mq)" mq_enqueue mq_dequeue mq_enqueue_urgent
proof
  fix mq :: rt_messagequeue and x :: "u8 list" and xs :: "u8 list list"
  assume "mq_wf mq"
  then obtain qs fs where r: "mq_rep mq qs fs" by (auto simp: mq_wf_def)
  have l: "length (mq_content mq) = length qs" by (simp add: mq_content_rep [OF r])
  have sum: "length qs + length fs = unat (mq_max_msgs mq)" using r by (simp add: mq_rep_def)
  show "length (mq_content mq) \<le> unat (mq_max_msgs mq)" using l sum by simp
  have full: "mq_free mq = None" if "length (mq_content mq) = unat (mq_max_msgs mq)"
    using mq_rep_full [OF r] l sum that by simp
  then show "length (mq_content mq) = unat (mq_max_msgs mq) \<Longrightarrow> mq_enqueue x mq = None"
    "length (mq_content mq) = unat (mq_max_msgs mq) \<Longrightarrow> mq_enqueue_urgent x mq = None"
    by (simp_all add: mq_enqueue_def mq_enqueue_urgent_def)
  have free: "\<exists>m fs'. fs = m # fs'" if "length (mq_content mq) < unat (mq_max_msgs mq)"
    using l sum that by (cases fs) auto
  show "length (mq_content mq) < unat (mq_max_msgs mq) \<Longrightarrow> \<exists>mq'. mq_enqueue x mq = Some mq' \<and> mq_wf mq' \<and>
      mq_content mq' = mq_content mq @ [x] \<and> unat (mq_max_msgs mq') = unat (mq_max_msgs mq)"
    using free r mq_append_rep [of mq qs _ _ "length x" x] mq_rep_entry_inc(3)
    by (fastforce simp: mq_enqueue_def mq_wf_def)
  show "length (mq_content mq) < unat (mq_max_msgs mq) \<Longrightarrow> \<exists>mq'. mq_enqueue_urgent x mq = Some mq' \<and> mq_wf mq' \<and>
      mq_content mq' = x # mq_content mq \<and> unat (mq_max_msgs mq') = unat (mq_max_msgs mq)"
    using free r mq_prepend_rep [of mq qs _ _ "length x" x] mq_rep_entry_inc(3)
    by (fastforce simp: mq_enqueue_urgent_def mq_wf_def)
  have e: "unat (mq_entry mq) = length qs" using r by (simp add: mq_rep_def)
  then show "mq_content mq = [] \<Longrightarrow> mq_dequeue mq = None" using l by (simp add: mq_dequeue_def unat_eq_0)
  show "mq_content mq = x # xs \<Longrightarrow> \<exists>mq'. mq_dequeue mq = Some (x, mq') \<and> mq_wf mq' \<and> mq_content mq' = xs \<and>
      unat (mq_max_msgs mq') = unat (mq_max_msgs mq)"
  proof -
    assume c: "mq_content mq = x # xs"
    then obtain m qs' where qs: "qs = m # qs'" using l by (cases qs) auto
    then have "mq_entry mq \<noteq> 0" using e by auto
    moreover obtain mq' where mq': "mq_remove_first mq = Some (m, mq')" "mq_rep mq' qs' (m # fs)"
      "mq_content mq = msg_bytes (mq_msgs mq m) # mq_content mq'" "mq_max_msgs mq' = mq_max_msgs mq"
      using mq_remove_first_rep [OF r [unfolded qs]] by blast
    moreover have "mq_wf mq'" using mq'(2) unfolding mq_wf_def by blast
    ultimately show ?thesis using c by (simp add: mq_dequeue_def)
  qed
qed

subsection \<open>The pool\<close>

lemma mq_build_fields [simp]:
  "mq_head (mq_build n mq) = mq_head mq" "mq_tail (mq_build n mq) = mq_tail mq" "mq_entry (mq_build n mq) = mq_entry mq"
  "mq_max_msgs (mq_build n mq) = mq_max_msgs mq" "mq_msg_size (mq_build n mq) = mq_msg_size mq"
  by (induction n) (simp_all add: Let_def)

lemma mq_build_chain:
  "mq_free mq = None \<Longrightarrow> chain (mq_msgs (mq_build n mq)) (mq_free (mq_build n mq)) (rev [0..<n])"
proof (induction n)
  case (Suc n)
  let ?b = "mq_build n mq"
  let ?f = "(mq_msgs ?b)(n := (mq_msgs ?b n)\<lparr>msg_next := mq_free ?b\<rparr>)"
  have "chain ?f (mq_free ?b) (rev [0..<n]) = chain (mq_msgs ?b) (mq_free ?b) (rev [0..<n])"
    by (rule chain_cong) simp
  then have "chain ?f (mq_free ?b) (rev [0..<n])" using Suc by blast
  moreover have "msg_next (?f n) = mq_free ?b" by simp
  ultimately have "chain ?f (Some n) (n # rev [0..<n])" by (simp only: chain.simps simp_thms)
  moreover have "mq_msgs (mq_build (Suc n) mq) = ?f" "mq_free (mq_build (Suc n) mq) = Some n" by (simp_all add: Let_def)
  moreover have "rev [0..<Suc n] = n # rev [0..<n]" by simp
  ultimately show ?case by (simp only:)
qed simp

lemma mq_setup_rep: "mq_rep (mq_setup mq) [] (rev [0..<unat (mq_max_msgs mq)])"
  using mq_build_chain [of "mq\<lparr>mq_head := None, mq_tail := None, mq_free := None\<rparr>" "unat (mq_max_msgs mq)"]
  by (simp add: mq_rep_def mq_setup_def Let_def)

lemma RT_ALIGN_8:
  assumes "sz \<le> 0xfffffff0"
  shows "unat sz \<le> unat (RT_ALIGN sz RT_ALIGN_SIZE)" and "unat (RT_ALIGN sz RT_ALIGN_SIZE) \<le> unat sz + 7"
proof -
  define x where "x = sz + 7"
  have u: "unat x = unat sz + 7" using assms by (simp add: x_def unat_word_ariths word_le_nat_alt)
  have al: "RT_ALIGN sz RT_ALIGN_SIZE = x AND NOT 7" by (simp add: RT_ALIGN_def RT_ALIGN_SIZE_def x_def add.commute)
  have "x AND NOT 7 = x - (x AND 7)"
  proof -
    have "(x AND 7) + (x AND NOT 7) = (x AND 7) OR (x AND NOT 7)"
      by (rule disjunctive_add) (auto simp: bit_simps)
    also have "\<dots> = x" by (simp flip: bit.conj_disj_distrib)
    finally show ?thesis by (simp add: algebra_simps)
  qed
  moreover have le: "x AND 7 \<le> x" by (rule word_and_le2)
  ultimately have "unat (x AND NOT 7) = unat x - unat (x AND 7)" by (simp add: unat_sub)
  moreover have "unat (x AND 7) \<le> 7"
    using word_and_le1 [of x 7] by (simp add: word_le_nat_alt)
  ultimately show "unat sz \<le> unat (RT_ALIGN sz RT_ALIGN_SIZE)" "unat (RT_ALIGN sz RT_ALIGN_SIZE) \<le> unat sz + 7"
    using u by (simp_all add: al)
qed

subsection \<open>Sending and receiving\<close>

definition mq_ok :: "nat \<Rightarrow> kst \<Rightarrow> bool" where
  "mq_ok i s \<longleftrightarrow> is_mq i s \<and> ipc_flag_ok (ipc_flag (OMsgQueue i) s) \<and> mq_wf (mqueues s i)"

abbreviation mq_messages :: "nat \<Rightarrow> kst \<Rightarrow> u8 list list" where
  "mq_messages i s \<equiv> mq_content (mqueues s i)"

abbreviation mq_full :: "nat \<Rightarrow> kst \<Rightarrow> bool" where
  "mq_full i s \<equiv> length (mq_messages i s) = unat (mq_max_msgs (mqueues s i))"

lemma mq_ok_woken: "mq_ok i s \<Longrightarrow> mq_wf mq \<Longrightarrow> woken W e (upd_mqueue i (\<lambda>_. mq) s) s' \<Longrightarrow> mq_ok i s'"
  by (simp add: mq_ok_def woken_def ipc_flag_def rt_object_get_type_def)

lemma mq_ok_waits: "mq_ok i s \<Longrightarrow> waits t q f w e s s' \<Longrightarrow> mq_ok i s'"
  by (simp add: mq_ok_def waits_def ipc_flag_def rt_object_get_type_def)

lemma mq_full_free:
  assumes "mq_rep mq qs fs"
  shows "length (mq_content mq) = unat (mq_max_msgs mq) \<longleftrightarrow> mq_free mq = None"
proof -
  have "length (mq_content mq) = length qs" by (simp add: mq_content_rep [OF assms])
  with mq_rep_full [OF assms] assms show ?thesis by (auto simp: mq_rep_def)
qed

lemma mq_entered_run:
  assumes k: "kinv s" and c: "current s \<noteq> None" and lt: "mq_entry (mqueues s i) < mq_max_msgs mq0"
  shows "\<exists>s'. mq_entered i (rt_spin_lock s) = Some (RT_EOK, s') \<and>
    gives (MqRecvQ i) (upd_mqueue i (\<lambda>q. q\<lparr>mq_entry := mq_entry q + 1\<rparr>) s) s'"
proof -
  have "unat (mq_max_msgs mq0) < 2 ^ LENGTH(16)" by (rule unsigned_less)
  then have mx: "mq_entry (mqueues s i) < RT_MQ_ENTRY_MAX" using lt by (simp add: word_less_nat_alt RT_MQ_ENTRY_MAX_def)
  let ?s = "upd_mqueue i (\<lambda>q. q\<lparr>mq_entry := mq_entry q + 1\<rparr>) s"
  have "kinv ?s" "current ?s \<noteq> None" using k c by simp_all
  from wake_first_gives [OF this, of "MqRecvQ i"] obtain s' where
    "wake_first (MqRecvQ i) (rt_spin_lock ?s) = Some s'" "gives (MqRecvQ i) ?s s'" by blast
  with mx show ?thesis by (simp add: mq_entered_def lock_upd)
qed

lemma mq_put_run:
  assumes k: "kinv s" and c: "current s \<noteq> None" and ok: "mq_ok i s" and m: "mq_free (mqueues s i) = Some m"
    and n: "n \<le> length buffer"
  shows "\<exists>mq s'. mq_content mq = mq_messages i s @ [take n buffer] \<and>
    mq_put i m buffer n (rt_spin_lock s) = Some (Returned RT_EOK, s') \<and>
    gives (MqRecvQ i) (upd_mqueue i (\<lambda>_. mq) s) s' \<and> mq_ok i s'"
proof -
  obtain qs fs where r: "mq_rep (mqueues s i) qs fs" using ok by (auto simp: mq_ok_def mq_wf_def)
  obtain fs' where fs: "fs = m # fs'" using r m by (cases fs) (auto simp: mq_rep_def)
  note A = mq_append_rep [OF r [unfolded fs] n]
  let ?mq1 = "mq_fill m buffer n (set_next m None ((mqueues s i)\<lparr>mq_free := msg_next (mq_msgs (mqueues s i) m)\<rparr>))"
  let ?mq = "mq_link_tail m ?mq1" and ?mqa = "mq_append m buffer n (mqueues s i)"
  have e: "?mqa = ?mq\<lparr>mq_entry := mq_entry ?mq + 1\<rparr>" by (simp add: mq_append_def Let_def)
  have en: "mq_entry ?mq = mq_entry (mqueues s i)"
    by (simp add: mq_link_tail_def mq_fill_def Let_def split: option.splits)
  let ?s = "upd_mqueue i (\<lambda>_. ?mq) s"
  have "kinv ?s" "current ?s \<noteq> None" "mq_entry (mqueues ?s i) < mq_max_msgs (mqueues s i)"
    using k c en mq_rep_entry_inc(2) [OF r [unfolded fs]] by simp_all
  from mq_entered_run [OF this] obtain s' where s': "mq_entered i (rt_spin_lock ?s) = Some (RT_EOK, s')"
    "gives (MqRecvQ i) (upd_mqueue i (\<lambda>q. q\<lparr>mq_entry := mq_entry q + 1\<rparr>) ?s) s'" by blast
  have "upd_mqueue i (\<lambda>q. q\<lparr>mq_entry := mq_entry q + 1\<rparr>) ?s = upd_mqueue i (\<lambda>_. ?mqa) s" unfolding e by simp
  then have g: "gives (MqRecvQ i) (upd_mqueue i (\<lambda>_. ?mqa) s) s'" using s'(2) by (simp only:)
  have "rt_spin_unlock (rt_spin_lock (s\<lparr>mqueues := M\<rparr>)) = Some (s\<lparr>mqueues := M\<rparr>)" for M using k by simp
  then have "mq_put i m buffer n (rt_spin_lock s) = Some (Returned RT_EOK, s')"
    using s'(1) n by (simp add: mq_put_def lock_upd Let_def)
  moreover have "mq_wf ?mqa" using A(1) unfolding mq_wf_def by blast
  then have "mq_ok i s'" using mq_ok_woken [OF ok] g unfolding gives_def by blast
  ultimately show ?thesis using A(2) g by blast
qed

lemma mq_send_round_run:
  assumes w: "can_wait t timeout s" and ok: "mq_ok i s" and n: "n \<le> length buffer"
  shows "if \<not> mq_full i s then
      \<exists>mq s'. mq_content mq = mq_messages i s @ [take n buffer] \<and>
        mq_send_round i buffer n timeout d sf (rt_spin_lock s) = Some (Returned RT_EOK, s') \<and>
        gives (MqRecvQ i) (upd_mqueue i (\<lambda>_. mq) s) s' \<and> mq_ok i s'
    else if timeout = 0 then
      mq_send_round i buffer n timeout d sf (rt_spin_lock s) =
        Some (Returned (- RT_EFULL), upd_tcb t (\<lambda>b. b\<lparr>t_error := - RT_EINTR\<rparr>) s)
    else \<exists>s'. mq_send_round i buffer n timeout d sf (rt_spin_lock s) =
        Some (Waiting timeout (if timeout > 0 then tick s else d), s') \<and>
      waits t (MqSendQ i) (ipc_flag (OMsgQueue i) s) timeout (- RT_EINTR) s s' \<and> mq_ok i s'"
proof -
  note W = can_waitD [OF w]
  let ?s0 = "upd_tcb t (\<lambda>b. b\<lparr>t_error := - RT_EINTR\<rparr>) s"
  obtain qs fs where r: "mq_rep (mqueues s i) qs fs" using ok by (auto simp: mq_ok_def mq_wf_def)
  have full: "mq_full i s \<longleftrightarrow> mq_free (mqueues s i) = None" by (rule mq_full_free [OF r])
  have fl: "ipc_flag_ok (ipc_flag (OMsgQueue i) s)" using ok by (simp add: mq_ok_def)
  show ?thesis
  proof (cases "mq_free (mqueues s i)")
    case None
    have "can_wait t timeout ?s0" using w by simp
    from ipc_wait_run [OF this, of "OMsgQueue i" "MqSendQ i" d sf] fl obtain s' where
      s': "ipc_wait (MqSendQ i) (OMsgQueue i) t timeout d sf (rt_spin_lock ?s0) = Some (Waiting timeout (if timeout > 0 then tick s else d), s')"
      "waits t (MqSendQ i) (ipc_flag (OMsgQueue i) s) timeout (- RT_EINTR) s s'" by (auto simp: waits_error)
    show ?thesis
      using full None W s' mq_ok_waits [OF ok s'(2)]
      by (simp add: mq_send_round_def lock_upd_tcb rt_thread_self_def Let_def)
  next
    case (Some m)
    then show ?thesis
      using mq_put_run [OF W(1) _ ok Some n] W(2) full by (auto simp: mq_send_round_def)
  qed
qed

text \<open>
  Sending to a message queue. A message longer than the limit of the queue is refused with \<open>-RT_ERROR\<close>. With a free cell,
  its bytes become the newest message, \<open>RT_EOK\<close> is returned and the first thread that waits for a message, if there is one,
  is awake, and no other. In a full queue, a call without a timeout returns \<open>-RT_EFULL\<close> and changes
  nothing; any other puts its thread on the queue of the senders. The invariants of kernel and queue are kept.
\<close>

theorem mq_send_wait_branches:
  assumes k: "kinv s" and c: "current s = Some t" and w: "timeout \<noteq> 0 \<Longrightarrow> can_wait t timeout s" and ok: "mq_ok i s"
    and n: "0 < n" "n \<le> length buffer"
  shows "if n > unat (mq_msg_size (mqueues s i)) then
      mq_send_wait i buffer n timeout sf s = Some (Returned (- RT_ERROR), s)
    else if length (mq_messages i s) < unat (mq_max_msgs (mqueues s i)) then
      \<exists>mq s'. mq_content mq = mq_messages i s @ [take n buffer] \<and>
        mq_send_wait i buffer n timeout sf s = Some (Returned RT_EOK, s') \<and>
        gives (MqRecvQ i) (upd_mqueue i (\<lambda>_. mq) s) s' \<and> mq_ok i s'
    else if timeout = 0 then mq_send_wait i buffer n timeout sf s = Some (Returned (- RT_EFULL), s)
    else \<exists>s'. mq_send_wait i buffer n timeout sf s = Some (Waiting timeout (if timeout > 0 then tick s else 0), s') \<and>
      waits t (MqSendQ i) (ipc_flag (OMsgQueue i) s) timeout (- RT_EINTR) s s' \<and> mq_ok i s'"
proof -
  obtain qs fs where r: "mq_rep (mqueues s i) qs fs" using ok by (auto simp: mq_ok_def mq_wf_def)
  have full: "mq_full i s \<longleftrightarrow> mq_free (mqueues s i) = None" by (rule mq_full_free [OF r])
  have le: "length (mq_messages i s) \<le> unat (mq_max_msgs (mqueues s i))"
    using ok by (intro mqq.content_bound) (simp add: mq_ok_def)
  have d: "debug_scheduler_available (timeout \<noteq> 0) s"
    using can_waitD(4) [OF w] by (cases "timeout = 0") (simp_all add: debug_scheduler_available_def)
  have isq: "is_mq i s" using ok by (simp add: mq_ok_def)
  have c': "current s \<noteq> None" using c by simp
  consider "n > unat (mq_msg_size (mqueues s i))"
    | m where "\<not> n > unat (mq_msg_size (mqueues s i))" "mq_free (mqueues s i) = Some m"
    | "\<not> n > unat (mq_msg_size (mqueues s i))" "mq_full i s" "timeout = 0"
    | "\<not> n > unat (mq_msg_size (mqueues s i))" "mq_full i s" "timeout \<noteq> 0"
    using full by (cases "mq_free (mqueues s i)") blast+
  then show ?thesis
  proof cases
    case 1
    then show ?thesis using isq n d by (simp add: mq_send_wait_def)
  next
    case 2
    then have "length (mq_messages i s) < unat (mq_max_msgs (mqueues s i))" using full le by auto
    then show ?thesis
      using 2 mq_put_run [OF k c' ok 2(2) n(2)] isq n d by (simp add: mq_send_wait_def mq_send_round_def)
  next
    case 3
    then show ?thesis using isq n d k full by (simp add: mq_send_wait_def)
  next
    case 4
    then show ?thesis
      using mq_send_round_run [OF w ok n(2), of 0 sf] isq n d by (simp add: mq_send_wait_def)
  qed
qed

lemma mq_take_run:
  assumes k: "kinv s" and c: "current s \<noteq> None" and ok: "mq_ok i s" and ms: "mq_messages i s = x # rest"
  shows "\<exists>mq s'. mq_content mq = rest \<and>
    mq_take i n (rt_spin_lock s) = Some (Returned (int (length (take n x)), take n x), s') \<and>
    gives (MqSendQ i) (upd_mqueue i (\<lambda>_. mq) s) s' \<and> mq_ok i s'"
proof -
  obtain qs0 fs where r0: "mq_rep (mqueues s i) qs0 fs" using ok by (auto simp: mq_ok_def mq_wf_def)
  obtain m qs where qs: "qs0 = m # qs" using ms mq_content_rep [OF r0] by (cases qs0) auto
  note r = r0 [unfolded qs]
  note U = mq_unlink_rep [OF r]
  obtain mq where mq: "mq_remove_first (mqueues s i) = Some (m, mq)" "mq_rep mq qs (m # fs)"
    "mq_messages i s = msg_bytes (mq_msgs (mqueues s i) m) # mq_content mq"
    using mq_remove_first_rep [OF r] by blast
  let ?u = "(mqueues s i)\<lparr>mq_head := msg_next (mq_msgs (mqueues s i) m),
      mq_tail := (if qs = [] then None else mq_tail (mqueues s i)), mq_entry := mq_entry (mqueues s i) - 1\<rparr>"
  have g: "mq = mq_give_back m ?u" using mq(1) U(1,2) by (simp add: mq_remove_first_def Let_def)
  have x: "x = msg_bytes (mq_msgs (mqueues s i) m)" "rest = mq_content mq" using mq(3) ms by simp_all
  have len: "msg_length (mq_msgs (mqueues s i) m) \<le> length (msg_data (mq_msgs (mqueues s i) m))"
    using r by (simp add: mq_rep_def)
  let ?l = "msg_length (mq_msgs (mqueues s i) m)"
  have t: "?l > n \<Longrightarrow> n = length (take n x) \<and> take n (msg_data (mq_msgs (mqueues s i) m)) = take n x"
    "\<not> ?l > n \<Longrightarrow> ?l = length (take n x) \<and> take (length (take n x)) (msg_data (mq_msgs (mqueues s i) m)) = take n x"
    using len by (auto simp: x(1) msg_bytes_def min_def)
  have "kinv (upd_mqueue i (\<lambda>_. mq) s)" "current (upd_mqueue i (\<lambda>_. mq) s) \<noteq> None" using k c by simp_all
  from wake_first_gives [OF this, of "MqSendQ i"] obtain s' where
    s': "wake_first (MqSendQ i) (rt_spin_lock (upd_mqueue i (\<lambda>_. mq) s)) = Some s'"
    "gives (MqSendQ i) (upd_mqueue i (\<lambda>_. mq) s) s'" by blast
  have ul: "rt_spin_unlock (rt_spin_lock (s\<lparr>mqueues := M\<rparr>)) = Some (s\<lparr>mqueues := M\<rparr>)" for M using k by simp
  have "mq_take i n (rt_spin_lock s) = Some (Returned (int (length (take n x)), take n x), s')"
    unfolding mq_take_def Let_def using U(1,2) ul s'(1) t
    by (cases "?l > n") (simp_all add: lock_upd g del: length_take)
  moreover have "mq_wf mq" using mq(2) unfolding mq_wf_def by blast
  then have "mq_ok i s'" using mq_ok_woken [OF ok] s'(2) unfolding gives_def by blast
  ultimately show ?thesis using x(2) s'(2) by blast
qed

lemma mq_empty_iff: "mq_ok i s \<Longrightarrow> mq_messages i s = [] \<longleftrightarrow> mq_entry (mqueues s i) = 0"
  by (auto simp: mq_ok_def mq_wf_def mq_content_rep) (auto simp: mq_rep_def unat_eq_0)

lemma mq_recv_round_run:
  assumes w: "can_wait t timeout s" and ok: "mq_ok i s"
  shows "case mq_messages i s of
      x # rest \<Rightarrow>
        \<exists>mq s'. mq_content mq = rest \<and>
          mq_recv_round i n timeout d sf (rt_spin_lock s) = Some (Returned (int (length (take n x)), take n x), s') \<and>
          gives (MqSendQ i) (upd_mqueue i (\<lambda>_. mq) s) s' \<and> mq_ok i s'
    | [] \<Rightarrow>
        if timeout = 0 then
          mq_recv_round i n timeout d sf (rt_spin_lock s) =
            Some (Returned (- RT_ETIMEOUT, []), upd_tcb t (\<lambda>b. b\<lparr>t_error := - RT_ETIMEOUT\<rparr>) s)
        else \<exists>s'. mq_recv_round i n timeout d sf (rt_spin_lock s) =
            Some (Waiting timeout (if timeout > 0 then tick s else d), s') \<and>
          waits t (MqRecvQ i) (ipc_flag (OMsgQueue i) s) timeout (- RT_EINTR) s s' \<and> mq_ok i s'"
proof -
  note W = can_waitD [OF w]
  let ?s0 = "upd_tcb t (\<lambda>b. b\<lparr>t_error := - RT_EINTR\<rparr>) s"
  have fl: "ipc_flag_ok (ipc_flag (OMsgQueue i) s)" using ok by (simp add: mq_ok_def)
  show ?thesis
  proof (cases "mq_messages i s")
    case Nil
    have "can_wait t timeout ?s0" using w by simp
    from ipc_wait_run [OF this, of "OMsgQueue i" "MqRecvQ i" d sf] fl obtain s' where
      s': "ipc_wait (MqRecvQ i) (OMsgQueue i) t timeout d sf (rt_spin_lock ?s0) = Some (Waiting timeout (if timeout > 0 then tick s else d), s')"
      "waits t (MqRecvQ i) (ipc_flag (OMsgQueue i) s) timeout (- RT_EINTR) s s'" by (auto simp: waits_error)
    show ?thesis
      using mq_empty_iff [OF ok] Nil W s' mq_ok_waits [OF ok s'(2)]
      by (simp add: mq_recv_round_def lock_upd_tcb rt_thread_self_def Let_def)
  next
    case (Cons x rest)
    then have "mq_entry (mqueues s i) \<noteq> 0" using mq_empty_iff [OF ok] by simp
    then show ?thesis using mq_take_run [OF W(1) _ ok Cons, of n] W(2) Cons by (simp add: mq_recv_round_def)
  qed
qed

text \<open>
  Receiving from a message queue into a buffer of \<open>n\<close> bytes. The first \<open>n\<close> bytes of the oldest message are stored, their number
  is returned, the message leaves the queue with its cell free again, and the first thread that waits for a cell, if there is one, is
  awake, and no other. In an empty queue, a call without a timeout returns \<open>-RT_ETIMEOUT\<close>; any other
  puts its thread on the queue of the receivers.
\<close>

theorem mq_recv_branches:
  assumes w: "can_wait t timeout s" and ok: "mq_ok i s" and n: "0 < n"
  shows "case mq_messages i s of
      x # rest \<Rightarrow>
        \<exists>mq s'. mq_content mq = rest \<and>
          mq_recv i n timeout sf s = Some (Returned (int (length (take n x)), take n x), s') \<and>
          gives (MqSendQ i) (upd_mqueue i (\<lambda>_. mq) s) s' \<and> mq_ok i s'
    | [] \<Rightarrow>
        if timeout = 0 then mq_recv i n timeout sf s = Some (Returned (- RT_ETIMEOUT, []), s)
        else \<exists>s'. mq_recv i n timeout sf s = Some (Waiting timeout (if timeout > 0 then tick s else 0), s') \<and>
          waits t (MqRecvQ i) (ipc_flag (OMsgQueue i) s) timeout (- RT_EINTR) s s' \<and> mq_ok i s'"
proof -
  have isb: "is_mq i s" using ok by (simp add: mq_ok_def)
  show ?thesis
    using mq_recv_round_run [OF w ok, of n 0 sf] isb can_waitD [OF w] mq_empty_iff [OF ok] n
    by (cases "mq_messages i s") (auto simp: mq_recv_def)
qed

text \<open>
  C13. The storage of a message queue refines the abstract queue of byte strings of capacity \<open>max_msgs\<close>: any sequence of
  sends, urgent sends and receives gives the results that the list of its messages, oldest first, gives, and no cell
  is lost or linked twice.
\<close>

theorem message_queue_refines_queue:
  assumes "mq_wf mq"
  shows "\<exists>mq'. mqq.run ps mq = (fst (spec_run (unat (mq_max_msgs mq)) ps (mq_content mq)), mq') \<and> mq_wf mq' \<and>
    mq_content mq' = snd (spec_run (unat (mq_max_msgs mq)) ps (mq_content mq))"
  using mqq.run_refines [OF assms, of ps] by blast

subsection \<open>Initialisation, detach and reset\<close>

text \<open>
  \<open>rt_mq_init\<close> carves the given memory into cells that lie inside it: the data of cell \<open>k\<close>, at most \<open>msg_size\<close> bytes, begins
  behind its header and ends before the next cell, and the last cell ends inside the pool. All cells are free, and the
  queue is empty. A pool that has no room for one message, or for a multiple of 65536 of them, is refused with \<open>-RT_EINVAL\<close>;
  the object has been registered all the same.
\<close>

theorem rt_mq_init_bounds:
  assumes ob: "rt_object_init (OMsgQueue i) RT_Object_Class_MessageQueue name s = Some s1"
    and f: "flag = RT_IPC_FLAG_FIFO \<or> flag = RT_IPC_FLAG_PRIO" and sz: "msz \<le> 0xfffffff0"
  shows "\<exists>e s'. rt_mq_init i name msz psz flag s = Some (e, s') \<and> containers s' = containers s1 \<and>
    (let q = mqueues s' i; cell = unat (RT_ALIGN msz RT_ALIGN_SIZE) + unat sizeof_mq_message in
      unat (mq_max_msgs q) = unat psz div cell mod 65536 \<and>
      (if mq_max_msgs q = 0 then e = - RT_EINVAL
       else e = RT_EOK \<and> mq_wf q \<and> mq_content q = [] \<and>
         (\<forall>k < unat (mq_max_msgs q). k * cell + unat sizeof_mq_message + unat (mq_msg_size q) \<le> (k + 1) * cell \<and>
            (k + 1) * cell \<le> unat psz)))"
proof -
  let ?a = "RT_ALIGN msz RT_ALIGN_SIZE"
  define cell where "cell = unat ?a + unat sizeof_mq_message"
  have al: "unat msz \<le> unat ?a" "unat ?a \<le> unat msz + 7" by (rule RT_ALIGN_8 [OF sz])+
  have "unat msz \<le> 4294967280" using sz by (simp add: word_le_nat_alt)
  then have c: "unat (?a + sizeof_mq_message) = cell"
    using al by (simp add: cell_def sizeof_mq_message_def unat_word_ariths)
  then have nz: "?a + sizeof_mq_message \<noteq> 0" "0 < cell" by (auto simp: cell_def sizeof_mq_message_def)
  define mx :: u16 where "mx = ucast (psz div (?a + sizeof_mq_message))"
  have mx: "unat mx = unat psz div cell mod 65536" by (simp add: mx_def unsigned_ucast_eq take_bit_eq_mod unat_div c)
  let ?q = "(mqueues s1 i)\<lparr>mq_msg_size := ucast msz, mq_max_msgs := mx\<rparr>"
  have rep: "mq_rep (mq_setup ?q) [] (rev [0..<unat mx])" using mq_setup_rep [of ?q] by simp
  then have wf: "mq_wf (mq_setup ?q)" "mq_content (mq_setup ?q) = []"
    by (auto simp: mq_wf_def) (simp add: mq_content_rep [OF rep])
  have fl: "mq_max_msgs (mq_setup ?q) = mx" "mq_msg_size (mq_setup ?q) = ucast msz" by (simp_all add: mq_setup_def Let_def)
  have inside: "k * cell + unat sizeof_mq_message + unat (ucast msz :: u16) \<le> (k + 1) * cell \<and> (k + 1) * cell \<le> unat psz"
    if "k < unat mx" for k
  proof
    have "unat (ucast msz :: u16) \<le> unat msz" by (simp add: unsigned_ucast_eq take_bit_eq_mod)
    then show "k * cell + unat sizeof_mq_message + unat (ucast msz :: u16) \<le> (k + 1) * cell"
      using al(1) by (simp add: cell_def)
    have "k + 1 \<le> unat psz div cell" using that mx mod_less_eq_dividend [of "unat psz div cell" 65536] by linarith
    then have "(k + 1) * cell \<le> unat psz div cell * cell" by (rule mult_le_mono1)
    also have "\<dots> \<le> unat psz" by (rule div_times_less_eq_dividend)
    finally show "(k + 1) * cell \<le> unat psz" .
  qed
  show ?thesis
    using ob f nz(1) wf fl mx inside
    by (auto simp: rt_mq_init_def mq_head_init_def ipc_object_init_def Let_def mx_def [symmetric] cell_def [symmetric])
qed

lemma mq_free_all_rep:
  "mq_rep (mq\<lparr>mq_entry := e\<rparr>) qs fs \<Longrightarrow> \<exists>mq' fs'. mq_free_all mq = Some mq' \<and> mq_rep (mq'\<lparr>mq_entry := 0\<rparr>) [] fs' \<and>
     mq_max_msgs mq' = mq_max_msgs mq \<and> mq_msg_size mq' = mq_msg_size mq"
proof (induction qs arbitrary: mq e fs)
  case Nil
  then have "mq_head mq = None" "e = 0" by (auto simp: mq_rep_def unat_eq_0)
  with Nil show ?case by (auto simp: mq_free_all.simps)
next
  case (Cons m qs)
  let ?e = "mq\<lparr>mq_entry := e\<rparr>"
  let ?u = "mq\<lparr>mq_head := msg_next (mq_msgs mq m), mq_tail := (if qs = [] then None else mq_tail mq)\<rparr>"
  note U = mq_unlink_rep [OF Cons.prems]
  obtain mq1 where mq1: "mq_remove_first ?e = Some (m, mq1)" "mq_rep mq1 qs (m # fs)"
    using mq_remove_first_rep [OF Cons.prems] by blast
  have h: "mq_head mq = Some m" "mq_tail mq = Some m \<longleftrightarrow> qs = []"
    using Cons.prems last_in_set [of qs] by (auto simp: mq_rep_def split: if_splits)
  then have u: "mq_unlink mq = Some (m, ?u)" by (simp add: mq_unlink_def Let_def)
  have "(mq_give_back m ?u)\<lparr>mq_entry := e - 1\<rparr> = mq1"
    by (rule rt_messagequeue.equality)
      (use mq1(1) U(1,2) in \<open>auto simp: mq_remove_first_def mq_give_back_def Let_def\<close>)
  then have "mq_rep ((mq_give_back m ?u)\<lparr>mq_entry := e - 1\<rparr>) qs (m # fs)" using mq1(2) by simp
  from Cons.IH [OF this] show ?case
    using h(1) u by (subst mq_free_all.simps) (simp add: mq_give_back_def Let_def)
qed

text \<open>
  C14. Detaching or resetting a message queue releases every thread that waits on it, and no other. The call of a
  released receiver returns the bare \<open>RT_ERROR\<close>, the number 1, which is also the result of receiving a message of one byte,
  although nothing was stored. After a reset, all messages are gone and all cells are free: the loop that frees them ends.
\<close>

theorem rt_mq_detach_reset:
  assumes k: "kinv s" and c: "current s \<noteq> None" and ok: "mq_ok i s" and sys: "rt_object_is_systemobject (OMsgQueue i) s"
  shows "(\<exists>s'. rt_mq_detach i s = Some (RT_EOK, s') \<and> released (waiter (MqRecvQ i) (MqSendQ i) s) s s' \<and>
      tlists s' (Susp (MqRecvQ i)) = [] \<and> tlists s' (Susp (MqSendQ i)) = [] \<and> \<not> is_mq i s' \<and>
      (\<forall>t n timeout start sf. waiter (MqRecvQ i) (MqSendQ i) s t \<longrightarrow>
         mq_recv_resume i t n timeout start sf s' = Some (Returned (1, []), s'))) \<and>
    (\<exists>s'. rt_mq_control i (IPC_CMD_RESET v) s = Some (RT_EOK, s') \<and> released (waiter (MqRecvQ i) (MqSendQ i) s) s s' \<and>
      tlists s' (Susp (MqRecvQ i)) = [] \<and> tlists s' (Susp (MqSendQ i)) = [] \<and> mq_ok i s' \<and> mq_messages i s' = [])"
proof
  have "registered (OMsgQueue i) s"
    using ok by (simp add: mq_ok_def registered_def rt_object_get_type_def rt_object_get_information_def object_container_def class_defs)
  then obtain s1 s2 s3 where s: "resume_both (MqRecvQ i) (MqSendQ i) (rt_spin_lock s) = Some s1" "rt_spin_unlock s1 = Some s2"
    "rt_object_detach (OMsgQueue i) s2 = Some s3" "released (waiter (MqRecvQ i) (MqSendQ i) s) s s3"
    "tlists s3 (Susp (MqRecvQ i)) = []" "tlists s3 (Susp (MqSendQ i)) = []"
    "rt_object_get_type (OMsgQueue i) s3 = RT_Object_Class_Null"
    using resume_both_detach [OF k c, of "MqRecvQ i" "MqSendQ i" "OMsgQueue i"] by (auto simp: ipc_oref_def)
  have "rt_mq_detach i s = Some (RT_EOK, s3)" using s(1-3) ok sys by (simp add: rt_mq_detach_def mq_ok_def)
  moreover have "mq_recv_resume i t n timeout start sf s3 = Some (Returned (1, []), s3)"
    if "waiter (MqRecvQ i) (MqSendQ i) s t" for t n timeout start sf
    using s(4) that by (simp add: released_def mq_recv_resume_def err_defs)
  ultimately show "\<exists>s'. rt_mq_detach i s = Some (RT_EOK, s') \<and> released (waiter (MqRecvQ i) (MqSendQ i) s) s s' \<and>
      tlists s' (Susp (MqRecvQ i)) = [] \<and> tlists s' (Susp (MqSendQ i)) = [] \<and> \<not> is_mq i s' \<and>
      (\<forall>t n timeout start sf. waiter (MqRecvQ i) (MqSendQ i) s t \<longrightarrow>
         mq_recv_resume i t n timeout start sf s' = Some (Returned (1, []), s'))"
    using s(4-7) by (intro exI [of _ s3]) (simp add: class_defs)
  from reset_run [OF k c, of "MqRecvQ i" "MqSendQ i"] obtain r where
    r: "resume_both (MqRecvQ i) (MqSendQ i) (rt_spin_lock s) = Some r" "locked_ok r" "current r = current s"
    "woken (waiter (MqRecvQ i) (MqSendQ i) s) RT_ERROR s r" by auto
  have mr: "mqueues r = mqueues s" using r(4) by (simp add: woken_def)
  obtain qs fs where rep: "mq_rep (mqueues s i) qs fs" using ok by (auto simp: mq_ok_def mq_wf_def)
  then have "mq_rep ((mqueues s i)\<lparr>mq_entry := mq_entry (mqueues s i)\<rparr>) qs fs" by simp
  from mq_free_all_rep [OF this] obtain mq fs' where mq: "mq_free_all (mqueues s i) = Some mq"
    "mq_rep (mq\<lparr>mq_entry := 0\<rparr>) [] fs'" by blast
  let ?r = "upd_mqueue i (\<lambda>_. mq\<lparr>mq_entry := 0\<rparr>) r"
  have "locked_ok ?r" using r(2) by simp
  note U = locked_ok_unlock [OF this]
  let ?r1 = "?r\<lparr>lock_nest := lock_nest ?r - 1\<rparr>"
  obtain s' where s': "rt_schedule ?r1 = Some s'" "kinv s'" "same_ipc ?r1 s'"
    using rt_schedule_total [OF U(2)] c r(3) by auto
  have "rt_mq_control i (IPC_CMD_RESET v) s = Some (RT_EOK, s')"
    using r(1) U(1) s'(1) ok mq(1) by (simp add: rt_mq_control_def mq_ok_def mr)
  moreover have "mq_wf (mq\<lparr>mq_entry := 0\<rparr>)" using mq(2) unfolding mq_wf_def by blast
  then have "mq_ok i s'"
    using ok r(4) s'(3) by (simp add: mq_ok_def woken_def same_ipc_def rt_object_get_type_def ipc_flag_def)
  moreover have "mq_messages i s' = []" using s'(3) mq_content_rep [OF mq(2)] by (simp add: same_ipc_def)
  moreover note reset_released [OF r(4) s'(2) _ _ s'(3)]
  ultimately show "\<exists>s'. rt_mq_control i (IPC_CMD_RESET v) s = Some (RT_EOK, s') \<and>
      released (waiter (MqRecvQ i) (MqSendQ i) s) s s' \<and>
      tlists s' (Susp (MqRecvQ i)) = [] \<and> tlists s' (Susp (MqSendQ i)) = [] \<and> mq_ok i s' \<and> mq_messages i s' = []" by simp
qed

subsection \<open>Instances\<close>

definition demo_cells :: rt_messagequeue where
  \<comment> \<open>two cells for messages of up to 4 bytes; one holds the bytes 1, 2, 3\<close>
  "demo_cells = \<lparr>mq_msgs = (\<lambda>_. \<lparr>msg_next = None, msg_length = 0, msg_data = [0, 0, 0, 0]\<rparr>)
     (1 := \<lparr>msg_next = None, msg_length = 3, msg_data = [1, 2, 3, 0]\<rparr>),
     mq_msg_size = 4, mq_max_msgs = 2, mq_entry = 1, mq_head = Some 1, mq_tail = Some 1, mq_free = Some 0\<rparr>"

definition demo_mq :: "suspq \<Rightarrow> kst" where
  "demo_mq q = upd_mqueue 7 (\<lambda>_. demo_cells) (demo_wait q)"

lemma demo_cells: "mq_rep demo_cells [1] [0]" "mq_wf demo_cells" "mq_content demo_cells = [[1, 2, 3]]"
  "mq_max_msgs demo_cells = 2" "mq_msg_size demo_cells = 4"
proof -
  show r: "mq_rep demo_cells [1] [0]" by (simp add: mq_rep_def demo_cells_def)
  then show "mq_wf demo_cells" unfolding mq_wf_def by blast
  show "mq_content demo_cells = [[1, 2, 3]]"
    using mq_content_rep [OF r] by (simp add: demo_cells_def msg_bytes_def)
qed (simp_all add: demo_cells_def)

lemma demo_mq_ok: "kinv (demo_mq q)" "mq_ok 7 (demo_mq q)" "mqueues (demo_mq q) 7 = demo_cells" "current (demo_mq q) = Some 1"
  "can_wait 1 50 (demo_mq q)" "tlists (demo_mq q) (Susp q) = [3, 2]" "rt_object_is_systemobject (OMsgQueue 7) (demo_mq q)"
  using kinv_demo [of q] demo_wait_running [of q] demo_cells
  by (simp_all add: demo_mq_def mq_ok_def ipc_flag_ok_def ipc_flag_def demo_objs_def
      can_wait_def HALF_TICKS_val rt_object_is_systemobject_def class_defs)

lemma mq_send_wait_branches_witness:
  "\<exists>s'. mq_send_wait 7 [5, 6, 7] 2 50 RT_UNINTERRUPTIBLE (demo_mq (MqRecvQ 7)) = Some (Returned RT_EOK, s') \<and>
     mq_messages 7 s' = [[1, 2, 3], [5, 6]] \<and> \<not> susp_stat (tcbs s' 3)"
  using mq_send_wait_branches [of "demo_mq (MqRecvQ 7)" 1 50 7 2 "[5, 6, 7]" RT_UNINTERRUPTIBLE] demo_mq_ok [of "MqRecvQ 7"] demo_cells
  by (auto simp: gives_def woken_def first_of_def err_defs)

lemma mq_recv_branches_witness:
  "\<exists>s'. mq_recv 7 2 50 RT_UNINTERRUPTIBLE (demo_mq (MqSendQ 7)) = Some (Returned (2, [1, 2]), s') \<and>
     mq_messages 7 s' = [] \<and> \<not> susp_stat (tcbs s' 3)"
  using mq_recv_branches [of 1 50 "demo_mq (MqSendQ 7)" 7 2 RT_UNINTERRUPTIBLE] demo_mq_ok [of "MqSendQ 7"] demo_cells
  by (auto simp: gives_def woken_def first_of_def err_defs)

lemma message_queue_refines_queue_witness:
  "\<exists>mq'. mqq.run [Put [4], Put [5], Get, Urgent [6], Get, Get, Get] demo_cells =
     ([Done, Full, Got [1, 2, 3], Done, Got [6], Got [4], Empty], mq')"
  using message_queue_refines_queue [OF demo_cells(2), of "[Put [4], Put [5], Get, Urgent [6], Get, Get, Get]"] demo_cells
  by auto

lemma rt_mq_init_bounds_witness:
  "\<exists>e s'. rt_mq_init 5 (Some ''q'') 5 40 RT_IPC_FLAG_FIFO blank_kst = Some (e, s') \<and> e = RT_EOK \<and>
     unat (mq_max_msgs (mqueues s' 5)) = 2 \<and> mq_content (mqueues s' 5) = []"
proof -
  obtain s1 where s1: "rt_object_init (OMsgQueue 5) RT_Object_Class_MessageQueue (Some ''q'') blank_kst = Some s1"
    by (simp add: rt_object_init_def with_lock_push rt_object_get_information_def
        object_container_def class_defs set_name_def RT_NAME_MAX_def blank_kst_def crit_ok_def)
  have "unat (RT_ALIGN 5 RT_ALIGN_SIZE) + unat sizeof_mq_message = 16"
    by (simp add: RT_ALIGN_def RT_ALIGN_SIZE_def sizeof_mq_message_def)
  with rt_mq_init_bounds [OF s1, of RT_IPC_FLAG_FIFO 5 40] show ?thesis
    by (fastforce simp: Let_def word_le_nat_alt split: if_splits)
qed

lemma rt_mq_detach_reset_witness:
  "\<exists>s'. rt_mq_detach 7 (demo_mq (MqRecvQ 7)) = Some (RT_EOK, s') \<and>
     mq_recv_resume 7 2 64 (- 1) 0 RT_UNINTERRUPTIBLE s' = Some (Returned (1, []), s')"
proof -
  have "waiter (MqRecvQ 7) (MqSendQ 7) (demo_mq (MqRecvQ 7)) 2" using demo_mq_ok(6) [of "MqRecvQ 7"] by (simp add: waiter_def)
  then show ?thesis
    using rt_mq_detach_reset [OF demo_mq_ok(1) _ demo_mq_ok(2) demo_mq_ok(7), of "MqRecvQ 7" 0] demo_mq_ok(4) [of "MqRecvQ 7"]
    by auto
qed

end
