(* ===== verification/Event.thy ===== *)
theory Event
  imports IpcWait
begin

text \<open>
  Events (rt-thread/src/ipc.c): 32 flags, and threads that wait for all or for some of a set of them. A
  waiting thread keeps its set and its options in its control block; the sender evaluates them, so that one call of \<open>rt_event_send\<close>
  may wake any number of threads. \<open>event_recv\<close> is \<open>_rt_event_recv\<close> up to its call of \<open>rt_schedule\<close>.
\<close>

definition RT_EVENT_FLAG_AND :: u8 where "RT_EVENT_FLAG_AND = 0x01"
definition RT_EVENT_FLAG_OR :: u8 where "RT_EVENT_FLAG_OR = 0x02"
definition RT_EVENT_FLAG_CLEAR :: u8 where "RT_EVENT_FLAG_CLEAR = 0x04"

abbreviation is_event :: "nat \<Rightarrow> kst \<Rightarrow> bool" where
  "is_event i s \<equiv> rt_object_get_type (OEvent i) s = RT_Object_Class_Event"

definition has_opt :: "u8 \<Rightarrow> u8 \<Rightarrow> bool" where
  "has_opt flag option \<longleftrightarrow> option AND flag \<noteq> 0"

definition event_object_init :: "nat \<Rightarrow> u8 \<Rightarrow> kst \<Rightarrow> kst" where
  "event_object_init i flag s =
     (let s = ipc_object_init (EventQ i) (upd_obj (OEvent i) (\<lambda>ob. ob\<lparr>o_flag := flag\<rparr>) s)
      in upd_event i (\<lambda>e. e\<lparr>ev_set := 0\<rparr>) s)"

definition rt_event_init :: "nat \<Rightarrow> string option \<Rightarrow> u8 \<Rightarrow> kst \<Rightarrow> (int \<times> kst) option" where
  "rt_event_init i name flag s = do {
     rt_assert (flag = RT_IPC_FLAG_FIFO \<or> flag = RT_IPC_FLAG_PRIO);
     s \<leftarrow> rt_object_init (OEvent i) RT_Object_Class_Event name s;
     Some (RT_EOK, event_object_init i flag s)
   }"

definition rt_event_detach :: "nat \<Rightarrow> kst \<Rightarrow> (int \<times> kst) option" where
  "rt_event_detach i s = do {
     rt_assert (is_event i s);
     rt_assert (rt_object_is_systemobject (OEvent i) s);
     s \<leftarrow> rt_susp_list_resume_all (EventQ i) RT_ERROR (rt_spin_lock s);
     s \<leftarrow> rt_spin_unlock s;
     s \<leftarrow> rt_object_detach (OEvent i) s;
     Some (RT_EOK, s)
   }"

definition rt_event_create :: "nat option \<Rightarrow> string option \<Rightarrow> u8 \<Rightarrow> kst \<Rightarrow> (nat option \<times> kst) option" where
  "rt_event_create block name flag s = do {
     rt_assert (flag = RT_IPC_FLAG_FIFO \<or> flag = RT_IPC_FLAG_PRIO);
     rt_assert (debug_not_in_interrupt s);
     (_, s) \<leftarrow> rt_object_allocate (map_option OEvent block) RT_Object_Class_Event name s;
     case block of
       None \<Rightarrow> Some (None, s)
     | Some i \<Rightarrow> Some (Some i, event_object_init i flag s)
   }"

definition rt_event_delete :: "nat \<Rightarrow> kst \<Rightarrow> (int \<times> kst) option" where
  "rt_event_delete i s = do {
     rt_assert (is_event i s);
     rt_assert (\<not> rt_object_is_systemobject (OEvent i) s);
     rt_assert (debug_not_in_interrupt s);
     s \<leftarrow> rt_susp_list_resume_all (EventQ i) RT_ERROR (rt_spin_lock s);
     s \<leftarrow> rt_spin_unlock s;
     s \<leftarrow> rt_object_delete (OEvent i) s;
     Some (RT_EOK, s)
   }"

subsection \<open>Sending\<close>

definition event_ready :: "nat \<Rightarrow> kst \<Rightarrow> kst option" where
  \<comment> \<open>the waiter \<open>t\<close> is satisfied\<close>
  "event_ready t s = do {
     (_, s) \<leftarrow> rt_sched_thread_ready t s;
     Some (upd_tcb t (\<lambda>b. b\<lparr>t_error := RT_EOK\<rparr>) s)
   }"

definition note_clear :: "nat \<Rightarrow> u32 \<Rightarrow> kst \<Rightarrow> u32" where
  "note_clear t need_clear_set s =
     (if has_opt RT_EVENT_FLAG_CLEAR (t_event_info (tcbs s t)) then need_clear_set OR t_event_set (tcbs s t) else need_clear_set)"

fun event_scan :: "nat \<Rightarrow> nat list \<Rightarrow> u32 \<Rightarrow> bool \<Rightarrow> kst \<Rightarrow> ((u32 \<times> bool) option \<times> kst) option" where
  \<comment> \<open>the loop over the waiters \<open>ts\<close>: the successor of a thread is read before the thread leaves the queue.
      The first result is \<open>need_clear_set\<close> and \<open>need_schedule\<close>, or \<open>None\<close> at a thread without a mode\<close>
  "event_scan i [] need_clear_set need_schedule s = Some (Some (need_clear_set, need_schedule), s)"
| "event_scan i (t # ts) need_clear_set need_schedule s =
     (let b = tcbs s t; flags = ev_set (events s i) in
      if has_opt RT_EVENT_FLAG_AND (t_event_info b) then
        if t_event_set b AND flags = t_event_set b then do {
          let need_clear_set = note_clear t need_clear_set s;
          s \<leftarrow> event_ready t s;
          event_scan i ts need_clear_set True s
        } else event_scan i ts need_clear_set need_schedule s
      else if has_opt RT_EVENT_FLAG_OR (t_event_info b) then
        if t_event_set b AND flags \<noteq> 0 then do {
          let s = upd_tcb t (\<lambda>b. b\<lparr>t_event_set := t_event_set b AND flags\<rparr>) s;
          let need_clear_set = note_clear t need_clear_set s;
          s \<leftarrow> event_ready t s;
          event_scan i ts need_clear_set True s
        } else event_scan i ts need_clear_set need_schedule s
      else Some (None, s))"

definition rt_event_send :: "nat \<Rightarrow> u32 \<Rightarrow> kst \<Rightarrow> (int \<times> kst) option" where
  "rt_event_send i flags s = do {
     rt_assert (is_event i s);
     if flags = 0 then Some (- RT_ERROR, s)
     else do {
       let s = rt_spin_lock s;
       let s = upd_event i (\<lambda>e. e\<lparr>ev_set := ev_set e OR flags\<rparr>) s;
       (r, s) \<leftarrow> event_scan i (tlists s (Susp (EventQ i))) 0 False s;
       case r of
         None \<Rightarrow> do {
           s \<leftarrow> rt_spin_unlock s;
           Some (- RT_EINVAL, s)
         }
       | Some (need_clear_set, need_schedule) \<Rightarrow> do {
           let s = upd_event i (\<lambda>e. e\<lparr>ev_set := ev_set e AND NOT need_clear_set\<rparr>) s;
           s \<leftarrow> rt_spin_unlock s;
           s \<leftarrow> (if need_schedule then rt_schedule s else Some s);
           Some (RT_EOK, s)
         }
     }
   }"

subsection \<open>Receiving\<close>

definition event_match :: "u32 \<Rightarrow> u8 \<Rightarrow> u32 \<Rightarrow> bool" where
  \<comment> \<open>the test of \<open>_rt_event_recv\<close>\<close>
  "event_match flags option e =
     (if has_opt RT_EVENT_FLAG_AND option then e AND flags = flags else e AND flags \<noteq> 0)"

definition event_recv :: "nat \<Rightarrow> u32 \<Rightarrow> u8 \<Rightarrow> int \<Rightarrow> suspend_flag \<Rightarrow> kst \<Rightarrow> ((int \<times> u32 option) option \<times> kst) option" where
  \<comment> \<open>the result of a call is its return code and what it stored in \<open>recved\<close>; \<open>None\<close>: the caller waits\<close>
  "event_recv i flags option timeout suspend_flag s = do {
     rt_assert (is_event i s);
     rt_assert (debug_scheduler_available True s);
     if flags = 0 then Some (Some (- RT_ERROR, None), s)
     else do {
       t \<leftarrow> rt_thread_self s;
       let s = upd_tcb t (\<lambda>b. b\<lparr>t_error := - RT_EINTR\<rparr>) s;
       let s = rt_spin_lock s;
       rt_assert (has_opt RT_EVENT_FLAG_AND option \<or> has_opt RT_EVENT_FLAG_OR option);
       let e = ev_set (events s i);
       if event_match flags option e then do {
         let s = upd_tcb t (\<lambda>b. b\<lparr>t_error := RT_EOK\<rparr>) s;
         let recved = e AND flags;
         let s = upd_tcb t (\<lambda>b. b\<lparr>t_event_set := e AND flags, t_event_info := option\<rparr>) s;
         let s = (if has_opt RT_EVENT_FLAG_CLEAR option then upd_event i (\<lambda>e. e\<lparr>ev_set := ev_set e AND NOT flags\<rparr>) s else s);
         s \<leftarrow> rt_spin_unlock s;
         Some (Some (t_error (tcbs s t), Some recved), s)
       } else if timeout = 0 then do {
         let s = upd_tcb t (\<lambda>b. b\<lparr>t_error := - RT_ETIMEOUT\<rparr>) s;
         s \<leftarrow> rt_spin_unlock s;
         Some (Some (- RT_ETIMEOUT, None), s)
       } else do {
         let s = upd_tcb t (\<lambda>b. b\<lparr>t_event_set := flags, t_event_info := option\<rparr>) s;
         (w, s) \<leftarrow> ipc_wait (EventQ i) (OEvent i) t timeout 0 suspend_flag s;
         Some (case w of Returned ret \<Rightarrow> Some (ret, None) | Waiting _ _ \<Rightarrow> None, s)
       }
     }
   }"

definition event_recv_resume :: "nat \<Rightarrow> kst \<Rightarrow> ((int \<times> u32 option) \<times> kst) option" where
  "event_recv_resume t s =
     (if t_error (tcbs s t) \<noteq> RT_EOK then Some ((t_error (tcbs s t), None), s)
      else do {
        let s = rt_spin_lock s;
        let recved = t_event_set (tcbs s t);
        s \<leftarrow> rt_spin_unlock s;
        Some ((t_error (tcbs s t), Some recved), s)
      })"

definition rt_event_recv :: "nat \<Rightarrow> u32 \<Rightarrow> u8 \<Rightarrow> int \<Rightarrow> kst \<Rightarrow> ((int \<times> u32 option) option \<times> kst) option" where
  "rt_event_recv i flags option timeout s = event_recv i flags option timeout RT_UNINTERRUPTIBLE s"

definition rt_event_recv_interruptible :: "nat \<Rightarrow> u32 \<Rightarrow> u8 \<Rightarrow> int \<Rightarrow> kst \<Rightarrow> ((int \<times> u32 option) option \<times> kst) option" where
  "rt_event_recv_interruptible i flags option timeout s = event_recv i flags option timeout RT_INTERRUPTIBLE s"

definition rt_event_recv_killable :: "nat \<Rightarrow> u32 \<Rightarrow> u8 \<Rightarrow> int \<Rightarrow> kst \<Rightarrow> ((int \<times> u32 option) option \<times> kst) option" where
  "rt_event_recv_killable i flags option timeout s = event_recv i flags option timeout RT_KILLABLE s"

definition rt_event_control :: "nat \<Rightarrow> ipc_cmd \<Rightarrow> kst \<Rightarrow> (int \<times> kst) option" where
  "rt_event_control i cmd s = do {
     rt_assert (is_event i s);
     case cmd of
       IPC_CMD_RESET _ \<Rightarrow> do {
         s \<leftarrow> rt_susp_list_resume_all (EventQ i) RT_ERROR (rt_spin_lock s);
         let s = upd_event i (\<lambda>e. e\<lparr>ev_set := 0\<rparr>) s;
         s \<leftarrow> rt_spin_unlock s;
         s \<leftarrow> rt_schedule s;
         Some (RT_EOK, s)
       }
     | _ \<Rightarrow> Some (- RT_ERROR, s)
   }"

subsection \<open>One call wakes exactly the satisfied waiters\<close>

definition satisfied :: "u32 \<Rightarrow> tcb \<Rightarrow> bool" where
  "satisfied e b \<longleftrightarrow> event_match (t_event_set b) (t_event_info b) e"

definition ev_ok :: "nat \<Rightarrow> kst \<Rightarrow> bool" where
  \<comment> \<open>every waiter has a mode, and is not satisfied by the flags already there\<close>
  "ev_ok i s \<longleftrightarrow> is_event i s \<and> ipc_flag_ok (ipc_flag (OEvent i) s) \<and>
     (\<forall>t \<in> set (tlists s (Susp (EventQ i))).
        (has_opt RT_EVENT_FLAG_AND (t_event_info (tcbs s t)) \<or> has_opt RT_EVENT_FLAG_OR (t_event_info (tcbs s t))) \<and>
        \<not> satisfied (ev_set (events s i)) (tcbs s t))"

definition masked :: "(nat \<Rightarrow> bool) \<Rightarrow> u32 \<Rightarrow> kst \<Rightarrow> kst" where
  \<comment> \<open>the threads of \<open>W\<close> keep the flags they received\<close>
  "masked W e s = s\<lparr>tcbs := (\<lambda>t. if W t then (tcbs s t)\<lparr>t_event_set := t_event_set (tcbs s t) AND e\<rparr> else tcbs s t)\<rparr>"

lemma masked_fields [simp]:
  "tlists (masked W e s) = tlists s" "current (masked W e s) = current s" "lock_nest (masked W e s) = lock_nest s"
  "crit_flag (masked W e s) = crit_flag s" "events (masked W e s) = events s" "objs (masked W e s) = objs s"
  "sems (masked W e s) = sems s" "mutexes (masked W e s) = mutexes s" "mboxes (masked W e s) = mboxes s"
  "mqueues (masked W e s) = mqueues s" "mpools (masked W e s) = mpools s" "takens (masked W e s) = takens s"
  "irq_nest (masked W e s) = irq_nest s" "tick (masked W e s) = tick s"
  "rt_object_get_type r (masked W e s) = rt_object_get_type r s"
  "susp_stat (tcbs (masked W e s) t) = susp_stat (tcbs s t)" "t_error (tcbs (masked W e s) t) = t_error (tcbs s t)"
  "t_ttmr_set (tcbs (masked W e s) t) = t_ttmr_set (tcbs s t)"
  "t_event_info (tcbs (masked W e s) t) = t_event_info (tcbs s t)"
  "t_current_priority (tcbs (masked W e s) t) = t_current_priority (tcbs s t)"
  "t_pending_object (tcbs (masked W e s) t) = t_pending_object (tcbs s t)"
  "t_event_set (tcbs (masked W e s) t) = (if W t then t_event_set (tcbs s t) AND e else t_event_set (tcbs s t))"
  by (simp_all add: masked_def)

lemma event_ready_run:
  assumes lo: "locked_ok s" and su: "susp_stat (tcbs s t)"
  shows "event_ready t s = Some (wake_err RT_EOK t s)" and "locked_ok (wake_err RT_EOK t s)"
    and "woken (\<lambda>u. u = t) RT_EOK s (wake_err RT_EOK t s)"
proof -
  have k: "kinv s" using lo by (simp add: locked_ok_def)
  show "event_ready t s = Some (wake_err RT_EOK t s)"
    using rt_sched_thread_ready_run [OF k su] by (simp add: event_ready_def wake_err_def)
  have k': "kinv (wake_err RT_EOK t s)" by (rule kinv_wake_err [OF k su])
  show "locked_ok (wake_err RT_EOK t s)" by (rule locked_ok_update [OF lo k']) simp_all
  show "woken (\<lambda>u. u = t) RT_EOK s (wake_err RT_EOK t s)"
    using k' su by (auto simp: woken_def Let_def removeAll_filter_not_eq wake_err_def intro!: filter_cong)
qed

lemma masked_nobody [simp]: "masked (\<lambda>_. False) e s = s"
  by (simp add: masked_def)

lemma masked_trans:
  assumes A: "woken V RT_EOK (masked V e s) s1" and B: "woken W RT_EOK (masked W e s1) s2" and d: "\<And>u. \<not> (V u \<and> W u)"
  shows "woken (\<lambda>u. V u \<or> W u) RT_EOK (masked (\<lambda>u. V u \<or> W u) e s) s2"
proof -
  note a = A [unfolded woken_def masked_fields] and b = B [unfolded woken_def masked_fields]
  have w: "\<not> susp_stat (tcbs s2 u) \<and> \<not> t_ttmr_set (tcbs s2 u) \<and> t_error (tcbs s2 u) = RT_EOK" if "V u \<or> W u" for u
    using a b that by (cases "W u") (simp_all add: err_defs)
  have n: "susp_stat (tcbs s2 u) = susp_stat (tcbs s u) \<and> t_error (tcbs s2 u) = t_error (tcbs s u) \<and>
      t_ttmr_set (tcbs s2 u) = t_ttmr_set (tcbs s u)" if "\<not> (V u \<or> W u)" for u using a b that by simp
  have q: "tlists s2 (Susp q) = filter (\<lambda>u. \<not> (V u \<or> W u)) (tlists s (Susp q))" for q
    using a b by (simp add: conj_commute)
  have ev: "t_event_set (tcbs s2 u) = (if V u \<or> W u then t_event_set (tcbs s u) AND e else t_event_set (tcbs s u))" for u
    using a b d [of u] by (cases "V u"; cases "W u") simp_all
  show ?thesis unfolding woken_def masked_fields using a b w n q ev by simp
qed

lemma mask_satisfied:
  assumes "satisfied e (tcbs s t)" and "has_opt RT_EVENT_FLAG_AND (t_event_info (tcbs s t))"
  shows "masked (\<lambda>u. u = t) e s = s" and "t_event_set (tcbs s t) AND e = t_event_set (tcbs s t)"
proof -
  show m: "t_event_set (tcbs s t) AND e = t_event_set (tcbs s t)"
    using assms by (simp add: satisfied_def event_match_def and.commute)
  then have "(\<lambda>u. if u = t then (tcbs s u)\<lparr>t_event_set := t_event_set (tcbs s u) AND e\<rparr> else tcbs s u) = tcbs s"
    by (auto simp: fun_eq_iff)
  then show "masked (\<lambda>u. u = t) e s = s" unfolding masked_def by simp
qed

lemma mask_one: "upd_tcb t (\<lambda>b. b\<lparr>t_event_set := t_event_set b AND e\<rparr>) s = masked (\<lambda>u. u = t) e s"
proof -
  have "(tcbs s)(t := (tcbs s t)\<lparr>t_event_set := t_event_set (tcbs s t) AND e\<rparr>) =
      (\<lambda>u. if u = t then (tcbs s u)\<lparr>t_event_set := t_event_set (tcbs s u) AND e\<rparr> else tcbs s u)"
    by (auto simp: fun_eq_iff)
  then show ?thesis by (simp add: masked_def)
qed

lemma locked_ok_masked: "locked_ok s \<Longrightarrow> locked_ok (masked (\<lambda>u. u = t) e s)"
  by (rule locked_ok_update) (auto simp: locked_ok_def mask_one [symmetric])

lemma event_scan_step:
  assumes su: "satisfied e (tcbs s t)" and e: "e = ev_set (events s i)"
    and md: "has_opt RT_EVENT_FLAG_AND (t_event_info (tcbs s t)) \<or> has_opt RT_EVENT_FLAG_OR (t_event_info (tcbs s t))"
  shows "event_scan i (t # ts) c n s = do {
      s1 \<leftarrow> event_ready t (masked (\<lambda>u. u = t) e s);
      event_scan i ts (note_clear t c (masked (\<lambda>u. u = t) e s)) True s1
    }"
proof (cases "has_opt RT_EVENT_FLAG_AND (t_event_info (tcbs s t))")
  case True
  with mask_satisfied [OF su True] show ?thesis by (simp add: e Let_def)
next
  case False
  then have "t_event_set (tcbs s t) AND e \<noteq> 0" using su by (simp add: satisfied_def event_match_def and.commute)
  with False md show ?thesis by (simp add: e mask_one [symmetric] Let_def)
qed

lemma event_scan_skip:
  assumes "\<not> satisfied (ev_set (events s i)) (tcbs s t)"
    and "has_opt RT_EVENT_FLAG_AND (t_event_info (tcbs s t)) \<or> has_opt RT_EVENT_FLAG_OR (t_event_info (tcbs s t))"
  shows "event_scan i (t # ts) c n s = event_scan i ts c n s"
  using assms by (auto simp: satisfied_def event_match_def and.commute Let_def split: if_splits)

lemma event_scan_run:
  assumes "locked_ok s" and "distinct ts" and "\<And>t. t \<in> set ts \<Longrightarrow> susp_stat (tcbs s t) \<and>
     (has_opt RT_EVENT_FLAG_AND (t_event_info (tcbs s t)) \<or> has_opt RT_EVENT_FLAG_OR (t_event_info (tcbs s t)))"
    and "e = ev_set (events s i)" and "W = (\<lambda>t. t \<in> set ts \<and> satisfied e (tcbs s t))"
  shows "\<exists>c' s'. event_scan i ts c n s = Some (Some (c', n \<or> (\<exists>t. W t)), s') \<and> locked_ok s' \<and> current s' = current s \<and>
    lock_nest s' = lock_nest s \<and> woken W RT_EOK (masked W e s) s' \<and>
    (\<forall>k. bit c' k \<longleftrightarrow> bit c k \<or> bit e k \<and> (\<exists>t. W t \<and> has_opt RT_EVENT_FLAG_CLEAR (t_event_info (tcbs s t)) \<and> bit (t_event_set (tcbs s t)) k))"
  using assms
proof (induction ts arbitrary: s c n W)
  case Nil
  then have "W = (\<lambda>_. False)" "kinv s" by (auto simp: locked_ok_def)
  moreover have "woken (\<lambda>_. False) RT_EOK s s" using \<open>kinv s\<close> by (simp add: woken_def)
  ultimately show ?case using Nil.prems(1) by simp
next
  case (Cons t ts)
  let ?W' = "\<lambda>u. u \<in> set ts \<and> satisfied e (tcbs s u)"
  show ?case
  proof (cases "satisfied e (tcbs s t)")
    case False
    then have "W = ?W'" using Cons.prems(5) by auto
    moreover have "event_scan i (t # ts) c n s = event_scan i ts c n s"
      by (rule event_scan_skip) (use False Cons.prems in auto)
    ultimately show ?thesis using Cons.IH [OF Cons.prems(1) _ _ Cons.prems(4) refl, of c n] Cons.prems(2,3) by simp
  next
    case True
    let ?m = "masked (\<lambda>u. u = t) e s"
    let ?s1 = "wake_err RT_EOK t ?m"
    have "susp_stat (tcbs ?m t)" using Cons.prems(3) by simp
    note R = event_ready_run [OF locked_ok_masked [OF Cons.prems(1)] this]
    have step: "event_scan i (t # ts) c n s = event_scan i ts (note_clear t c ?m) True ?s1"
      using event_scan_step [OF True Cons.prems(4), of ts c n] Cons.prems(3) R(1) by simp
    have same: "tcbs ?s1 u = tcbs s u" if "u \<noteq> t" for u using that by (simp add: masked_def)
    have W1: "(\<lambda>u. u \<in> set ts \<and> satisfied e (tcbs ?s1 u)) = ?W'" using Cons.prems(2) same by (auto simp: fun_eq_iff)
    have pre: "susp_stat (tcbs ?s1 u) \<and> (has_opt RT_EVENT_FLAG_AND (t_event_info (tcbs ?s1 u)) \<or>
        has_opt RT_EVENT_FLAG_OR (t_event_info (tcbs ?s1 u)))" if "u \<in> set ts" for u
      using Cons.prems(2,3) same [of u] that by auto
    have e1: "e = ev_set (events ?s1 i)" using Cons.prems(4) by simp
    obtain c' s' where s': "event_scan i ts (note_clear t c ?m) True ?s1 = Some (Some (c', True \<or> (\<exists>t. ?W' t)), s')"
      "locked_ok s'" "current s' = current s" "lock_nest s' = lock_nest s" "woken ?W' RT_EOK (masked ?W' e ?s1) s'"
      "\<forall>k. bit c' k \<longleftrightarrow> bit (note_clear t c ?m) k \<or> bit e k \<and> (\<exists>u. ?W' u \<and> has_opt RT_EVENT_FLAG_CLEAR (t_event_info (tcbs ?s1 u)) \<and>
        bit (t_event_set (tcbs ?s1 u)) k)"
      using Cons.IH [OF R(2) _ pre e1 W1 [symmetric], of "note_clear t c ?m" True] Cons.prems(2) by auto
    have W: "W = (\<lambda>u. u = t \<or> ?W' u)" using Cons.prems(5) True by (auto simp: fun_eq_iff)
    have "woken W RT_EOK (masked W e s) s'"
      unfolding W using masked_trans [OF R(3) s'(5)] Cons.prems(2) by auto
    moreover have "bit c' k \<longleftrightarrow> bit c k \<or> bit e k \<and> (\<exists>u. W u \<and> has_opt RT_EVENT_FLAG_CLEAR (t_event_info (tcbs s u)) \<and>
        bit (t_event_set (tcbs s u)) k)" for k
    proof -
      have "bit (note_clear t c ?m) k \<longleftrightarrow> bit c k \<or> bit e k \<and> has_opt RT_EVENT_FLAG_CLEAR (t_event_info (tcbs s t)) \<and>
          bit (t_event_set (tcbs s t)) k" by (auto simp: note_clear_def bit_simps)
      moreover have "(\<exists>u. ?W' u \<and> has_opt RT_EVENT_FLAG_CLEAR (t_event_info (tcbs ?s1 u)) \<and> bit (t_event_set (tcbs ?s1 u)) k) \<longleftrightarrow>
          (\<exists>u. ?W' u \<and> has_opt RT_EVENT_FLAG_CLEAR (t_event_info (tcbs s u)) \<and> bit (t_event_set (tcbs s u)) k)"
        using Cons.prems(2) same by (metis distinct.simps(2))
      ultimately show ?thesis using s'(6) unfolding W by blast
    qed
    moreover have "\<exists>u. W u" unfolding W by blast
    ultimately show ?thesis using step s'(1-4) by auto
  qed
qed

lemma satisfied_mono:
  assumes "\<not> satisfied e b"
  shows "\<not> satisfied (e AND m) b"
proof -
  let ?x = "t_event_set b"
  have "(e AND m) AND ?x = e AND ((e AND m) AND ?x)" "(e AND m) AND ?x = m AND (e AND ?x)"
    by (rule bit_word_eqI; auto simp: bit_simps)+
  then have "(e AND m) AND ?x = ?x \<Longrightarrow> e AND ?x = ?x" "(e AND m) AND ?x \<noteq> 0 \<Longrightarrow> e AND ?x \<noteq> 0" by auto
  then show ?thesis using assms unfolding satisfied_def event_match_def
    by (cases "has_opt RT_EVENT_FLAG_AND (t_event_info b)") (simp_all only: if_True if_False, blast+)
qed

text \<open>
  C15. Sending flags to an event wakes all satisfied waiters and no other, wherever they stand in the queue: after the
  call, the threads whose condition holds for the old and new flags together are awake with \<open>RT_EOK\<close> and the flags they asked
  for and got, the others still wait, in their order, and the flags that the woken threads asked to clear are
  clear, all others of the old and new ones set. Every waiter saw the same flags, also those that others clear. The
  error exit for a waiter without a mode is never taken.
\<close>

theorem rt_event_send_wakes:
  assumes k: "kinv s" and c: "current s \<noteq> None" and ok: "ev_ok i s" and nz: "flags \<noteq> 0"
  defines "e \<equiv> ev_set (events s i) OR flags"
  defines "W \<equiv> \<lambda>t. t \<in> set (tlists s (Susp (EventQ i))) \<and> satisfied e (tcbs s t)"
  shows "\<exists>s'. rt_event_send i flags s = Some (RT_EOK, s') \<and> kinv s' \<and> ev_ok i s' \<and>
    tlists s' (Susp (EventQ i)) = filter (\<lambda>t. \<not> W t) (tlists s (Susp (EventQ i))) \<and>
    (\<forall>t. if W t then \<not> susp_stat (tcbs s' t) \<and> t_error (tcbs s' t) = RT_EOK \<and> t_event_set (tcbs s' t) = t_event_set (tcbs s t) AND e
         else susp_stat (tcbs s' t) = susp_stat (tcbs s t) \<and> t_error (tcbs s' t) = t_error (tcbs s t)) \<and>
    (\<forall>b. bit (ev_set (events s' i)) b \<longleftrightarrow> bit e b \<and>
       \<not> (\<exists>t. W t \<and> has_opt RT_EVENT_FLAG_CLEAR (t_event_info (tcbs s t)) \<and> bit (t_event_set (tcbs s t)) b))"
proof -
  let ?q = "Susp (EventQ i)" and ?s0 = "upd_event i (\<lambda>v. v\<lparr>ev_set := ev_set v OR flags\<rparr>) (rt_spin_lock s)"
  have lo: "locked_ok ?s0" using k by simp
  have d: "distinct (tlists s ?q)" using store_okD(1) [OF kinv_store [OF k]] by blast
  have pre: "susp_stat (tcbs ?s0 t) \<and> (has_opt RT_EVENT_FLAG_AND (t_event_info (tcbs ?s0 t)) \<or>
      has_opt RT_EVENT_FLAG_OR (t_event_info (tcbs ?s0 t)))" if "t \<in> set (tlists s ?q)" for t
    using kinv_queue_susp [OF k that] ok that by (simp add: ev_ok_def)
  have e: "e = ev_set (events ?s0 i)" by (simp add: e_def)
  have W: "W = (\<lambda>t. t \<in> set (tlists s ?q) \<and> satisfied e (tcbs ?s0 t))" by (simp add: W_def)
  obtain cl s1 where s1: "event_scan i (tlists s ?q) 0 False ?s0 = Some (Some (cl, False \<or> (\<exists>t. W t)), s1)" "locked_ok s1"
    "current s1 = current s" "woken W RT_EOK (masked W e ?s0) s1"
    "\<And>b. bit cl b \<longleftrightarrow> bit (0 :: u32) b \<or> bit e b \<and> (\<exists>t. W t \<and> has_opt RT_EVENT_FLAG_CLEAR (t_event_info (tcbs s t)) \<and> bit (t_event_set (tcbs s t)) b)"
    using event_scan_run [OF lo d pre e W, of 0 False] by auto
  let ?s2 = "upd_event i (\<lambda>v. v\<lparr>ev_set := ev_set v AND NOT cl\<rparr>) s1"
  have "locked_ok ?s2" using s1(2) by simp
  note U = locked_ok_unlock [OF this]
  let ?s3 = "?s2\<lparr>lock_nest := lock_nest ?s2 - 1\<rparr>"
  have ev1: "events s1 = events ?s0" using s1(4) by (simp add: woken_def)
  obtain s' where s': "(if \<exists>t. W t then rt_schedule ?s3 else Some ?s3) = Some s'" "kinv s'" "same_ipc ?s3 s'"
  proof (cases "\<exists>t. W t")
    case True
    have "current ?s3 \<noteq> None" using c s1(3) by simp
    from rt_schedule_total [OF U(2) this] that True show ?thesis by auto
  next
    case False
    then show ?thesis using that [of ?s3] U(2) by simp
  qed
  have isev: "is_event i s" using ok by (simp add: ev_ok_def)
  have run: "rt_event_send i flags s = Some (RT_EOK, s')"
    using isev nz s1(1) U(1) s'(1) by (cases "\<exists>t. W t") (simp_all add: rt_event_send_def)
  note A = s1(4) [unfolded woken_def masked_fields] and I = s'(3) [unfolded same_ipc_def]
  have evs: "ev_set (events s' i) = e AND NOT cl" using I ev1 by (simp add: e_def)
  have bits: "bit (ev_set (events s' i)) b \<longleftrightarrow> bit e b \<and>
      \<not> (\<exists>t. W t \<and> has_opt RT_EVENT_FLAG_CLEAR (t_event_info (tcbs s t)) \<and> bit (t_event_set (tcbs s t)) b)" for b
  proof (cases "b < 32")
    case True
    then show ?thesis using s1(5) [of b] unfolding evs by (auto simp: bit_simps)
  next
    case False
    then have "\<not> bit (ev_set (events s' i)) b" "\<not> bit e b"
      using bit_imp_le_length [of e b] bit_imp_le_length [of "ev_set (events s' i)" b] by auto
    then show ?thesis by blast
  qed
  have q: "tlists s' ?q = filter (\<lambda>t. \<not> W t) (tlists s ?q)" using A I by simp
  have thr: "if W t then \<not> susp_stat (tcbs s' t) \<and> t_error (tcbs s' t) = RT_EOK \<and> t_event_set (tcbs s' t) = t_event_set (tcbs s t) AND e
         else susp_stat (tcbs s' t) = susp_stat (tcbs s t) \<and> t_error (tcbs s' t) = t_error (tcbs s t)" for t
    using A I by (simp add: err_defs)
  have inf: "t_event_info (tcbs s' t) = t_event_info (tcbs s t)"
    "\<not> W t \<Longrightarrow> t_event_set (tcbs s' t) = t_event_set (tcbs s t)" for t using A I by simp_all
  have mono: "\<not> satisfied (e AND NOT cl) b" if "\<not> satisfied e b" for b by (rule satisfied_mono [OF that])
  have "ev_ok i s'"
  proof -
    have "is_event i s'" "ipc_flag_ok (ipc_flag (OEvent i) s')"
      using ok A I by (simp_all add: ev_ok_def rt_object_get_type_def ipc_flag_def)
    moreover have "\<not> satisfied (ev_set (events s' i)) (tcbs s' t)" if "t \<in> set (tlists s' ?q)" for t
    proof -
      have "\<not> satisfied e (tcbs s t)" using that unfolding q W_def by auto
      moreover have "\<not> W t" using that unfolding q by simp
      ultimately have "\<not> satisfied (e AND NOT cl) (tcbs s t)" using mono by blast
      then show ?thesis using inf(1) inf(2) [OF \<open>\<not> W t\<close>] unfolding evs by (simp add: satisfied_def)
    qed
    moreover have "has_opt RT_EVENT_FLAG_AND (t_event_info (tcbs s' t)) \<or> has_opt RT_EVENT_FLAG_OR (t_event_info (tcbs s' t))"
      if "t \<in> set (tlists s' ?q)" for t using that ok unfolding q by (auto simp: ev_ok_def inf(1))
    ultimately show ?thesis by (simp add: ev_ok_def)
  qed
  with run s'(2) q thr bits show ?thesis by blast
qed

text \<open>
  Receiving from an event. If the flags already there satisfy the caller, it gets those it asked for at once and, with the option
  \<open>RT_EVENT_FLAG_CLEAR\<close>, all flags it asked for are cleared. Otherwise a call without a timeout returns
  \<open>-RT_ETIMEOUT\<close>, and any other puts its thread, with its flags and options, on the queue of the event. An empty set of flags is refused.
\<close>

theorem event_recv_branches:
  assumes w: "can_wait t timeout s" and ok: "ev_ok i s"
    and md: "has_opt RT_EVENT_FLAG_AND option \<or> has_opt RT_EVENT_FLAG_OR option"
  defines "e \<equiv> ev_set (events s i)"
  shows "if flags = 0 then event_recv i flags option timeout sf s = Some (Some (- RT_ERROR, None), s)
    else if event_match flags option e then
      \<exists>s'. event_recv i flags option timeout sf s = Some (Some (RT_EOK, Some (e AND flags)), s') \<and> kinv s' \<and> ev_ok i s' \<and>
        ev_set (events s' i) = (if has_opt RT_EVENT_FLAG_CLEAR option then e AND NOT flags else e)
    else if timeout = 0 then event_recv i flags option timeout sf s =
        Some (Some (- RT_ETIMEOUT, None), upd_tcb t (\<lambda>b. b\<lparr>t_error := - RT_ETIMEOUT\<rparr>) s)
    else \<exists>s'. event_recv i flags option timeout sf s = Some (None, s') \<and>
      waits t (EventQ i) (ipc_flag (OEvent i) s) timeout (- RT_EINTR)
        (upd_tcb t (\<lambda>b. b\<lparr>t_event_set := flags, t_event_info := option\<rparr>) s) s' \<and> ev_ok i s'"
proof -
  note W = can_waitD [OF w]
  have isev: "is_event i s" and fl: "ipc_flag_ok (ipc_flag (OEvent i) s)" using ok by (simp_all add: ev_ok_def)
  have tq: "t \<notin> set (tlists s (Susp (EventQ i)))"
    using not_queued [of s t] W w by (simp add: kinv_def can_wait_def)
  consider "flags = 0" | "flags \<noteq> 0" "event_match flags option e" | "flags \<noteq> 0" "\<not> event_match flags option e" "timeout = 0"
    | "flags \<noteq> 0" "\<not> event_match flags option e" "timeout \<noteq> 0" by blast
  then show ?thesis
  proof cases
    case 1
    then show ?thesis using isev W by (simp add: event_recv_def)
  next
    case 2
    let ?b = "(tcbs s t)\<lparr>t_error := RT_EOK, t_event_set := e AND flags, t_event_info := option\<rparr>"
    let ?e = "if has_opt RT_EVENT_FLAG_CLEAR option then e AND NOT flags else e"
    let ?s1 = "s\<lparr>tcbs := (tcbs s)(t := ?b)\<rparr>"
    let ?s' = "if has_opt RT_EVENT_FLAG_CLEAR option
        then ?s1\<lparr>events := (events s)(i := (events s i)\<lparr>ev_set := e AND NOT flags\<rparr>)\<rparr> else ?s1"
    have "kinv ?s1" using W(1) by (subst kinv_tcbs_same) (auto simp: same_sched_def)
    then have k': "kinv ?s'" by simp
    have run: "event_recv i flags option timeout sf s = Some (Some (RT_EOK, Some (e AND flags)), ?s')"
      using 2 isev W md \<open>kinv ?s1\<close>
      by (simp add: event_recv_def Let_def e_def lock_upd_tcb lock_upd)
    have ev: "ev_set (events ?s' i) = ?e" by (simp add: e_def)
    have mono: "\<not> satisfied ?e b" if "\<not> satisfied e b" for b using satisfied_mono [OF that] that by simp
    have "ev_ok i ?s'"
      using ok tq mono by (auto simp: ev_ok_def e_def ipc_flag_def rt_object_get_type_def)
    with 2 run k' ev show ?thesis by simp
  next
    case 3
    then show ?thesis
      using isev W md by (simp add: event_recv_def Let_def e_def lock_upd_tcb)
  next
    case 4
    let ?s0 = "upd_tcb t (\<lambda>b. b\<lparr>t_error := - RT_EINTR, t_event_set := flags, t_event_info := option\<rparr>) s"
    let ?s1 = "upd_tcb t (\<lambda>b. b\<lparr>t_event_set := flags, t_event_info := option\<rparr>) s"
    have e0: "?s0 = upd_tcb t (\<lambda>b. b\<lparr>t_error := - RT_EINTR\<rparr>) ?s1"
      by (rule kst.equality) (auto simp: fun_eq_iff intro!: tcb.equality)
    have "kinv ?s1 = kinv s" by (rule kinv_tcbs_same) (auto simp: same_sched_def)
    then have "can_wait t timeout ?s1" using w by (simp add: can_wait_def)
    then have "can_wait t timeout ?s0" unfolding e0 can_wait_error .
    from ipc_wait_run [OF this, of "OEvent i" "EventQ i" 0 sf] fl obtain s' where
      s': "ipc_wait (EventQ i) (OEvent i) t timeout 0 sf (rt_spin_lock ?s0) = Some (Waiting timeout (if timeout > 0 then tick s else 0), s')"
      "waits t (EventQ i) (ipc_flag (OEvent i) s) timeout (- RT_EINTR) ?s0 s'" by auto
    have w1: "waits t (EventQ i) (ipc_flag (OEvent i) s) timeout (- RT_EINTR) ?s1 s'"
      using s'(2) unfolding e0 waits_error .
    have "event_recv i flags option timeout sf s = Some (None, s')"
      using 4 isev W md s'(1) by (simp add: event_recv_def Let_def e_def lock_upd_tcb)
    moreover have "ev_ok i s'"
      using ok tq w1 md 4 by (auto simp: ev_ok_def waits_def ipc_flag_def rt_object_get_type_def e_def satisfied_def)
    ultimately show ?thesis using 4 w1 by auto
  qed
qed

subsection \<open>Instances\<close>

definition demo_ev :: kst where
  \<comment> \<open>thread 3 waits for flag 0 or 2, to clear it, thread 2 for flags 0 and 1; flag 5 is set\<close>
  "demo_ev = (let s = upd_event 7 (\<lambda>e. e\<lparr>ev_set := 32\<rparr>) (demo_wait (EventQ 7)) in
     s\<lparr>tcbs := (tcbs s)(3 := (tcbs s 3)\<lparr>t_event_set := 5, t_event_info := 6\<rparr>, 2 := (tcbs s 2)\<lparr>t_event_set := 3, t_event_info := 1\<rparr>)\<rparr>)"

lemma demo_ev_ok: "kinv demo_ev" "ev_ok 7 demo_ev" "current demo_ev = Some 1" "can_wait 1 50 demo_ev"
  "ev_set (events demo_ev 7) = 32" "tlists demo_ev (Susp (EventQ 7)) = [3, 2]"
  "t_event_set (tcbs demo_ev 3) = 5" "t_event_info (tcbs demo_ev 3) = 6"
  "t_event_set (tcbs demo_ev 2) = 3" "t_event_info (tcbs demo_ev 2) = 1"
proof -
  show k: "kinv demo_ev"
    unfolding demo_ev_def Let_def by (subst kinv_tcbs_same) (auto simp: same_sched_def kinv_demo)
  show "ev_ok 7 demo_ev"
    by (simp add: ev_ok_def demo_ev_def Let_def ipc_flag_ok_def ipc_flag_def demo_objs_def satisfied_def event_match_def
        has_opt_def RT_EVENT_FLAG_AND_def RT_EVENT_FLAG_OR_def)
  show "can_wait 1 50 demo_ev"
    using k demo_wait_running [of "EventQ 7"] by (simp add: can_wait_def HALF_TICKS_val) (simp add: demo_ev_def Let_def)
qed (simp_all add: demo_ev_def Let_def)

lemma rt_event_send_wakes_witness:
  "\<exists>s'. rt_event_send 7 3 demo_ev = Some (RT_EOK, s') \<and> tlists s' (Susp (EventQ 7)) = [] \<and>
     t_event_set (tcbs s' 3) = 1 \<and> t_event_set (tcbs s' 2) = 3 \<and> \<not> bit (ev_set (events s' 7)) 0 \<and> bit (ev_set (events s' 7)) 1"
proof -
  have sat: "satisfied (32 OR 3) (tcbs demo_ev 3)" "satisfied (32 OR 3) (tcbs demo_ev 2)"
    using demo_ev_ok by (simp_all add: satisfied_def event_match_def has_opt_def RT_EVENT_FLAG_AND_def)
  have "current demo_ev \<noteq> None" "(3 :: u32) \<noteq> 0" using demo_ev_ok by simp_all
  from rt_event_send_wakes [OF demo_ev_ok(1) this(1) demo_ev_ok(2) this(2)] sat demo_ev_ok obtain s' where
    s': "rt_event_send 7 3 demo_ev = Some (RT_EOK, s')"
    "tlists s' (Susp (EventQ 7)) = filter (\<lambda>t. \<not> (t \<in> {3, 2} \<and> satisfied (32 OR 3) (tcbs demo_ev t))) [3, 2]"
    "\<And>t. t \<in> {3, 2} \<and> satisfied (32 OR 3) (tcbs demo_ev t) \<Longrightarrow> t_event_set (tcbs s' t) = t_event_set (tcbs demo_ev t) AND (32 OR 3)"
    "\<And>b. bit (ev_set (events s' 7)) b \<longleftrightarrow> bit (32 OR 3 :: u32) b \<and>
       \<not> (\<exists>t. (t \<in> {3, 2} \<and> satisfied (32 OR 3) (tcbs demo_ev t)) \<and>
         has_opt RT_EVENT_FLAG_CLEAR (t_event_info (tcbs demo_ev t)) \<and> bit (t_event_set (tcbs demo_ev t)) b)"
    by auto
  have "tlists s' (Susp (EventQ 7)) = []" using s'(2) sat by simp
  moreover have "t_event_set (tcbs s' 3) = 1" "t_event_set (tcbs s' 2) = 3" using s'(3) [of 3] s'(3) [of 2] sat demo_ev_ok by simp_all
  moreover have "\<not> bit (ev_set (events s' 7)) 0"
    using s'(4) [of 0] sat demo_ev_ok by (auto simp: has_opt_def RT_EVENT_FLAG_CLEAR_def)
  moreover have "bit (ev_set (events s' 7)) 1"
    using s'(4) [of 1] demo_ev_ok by (auto simp: has_opt_def RT_EVENT_FLAG_CLEAR_def bit_simps)
  ultimately show ?thesis using s'(1) by blast
qed

lemma event_recv_branches_witness:
  "\<exists>s'. event_recv 7 0x30 6 50 RT_UNINTERRUPTIBLE demo_ev = Some (Some (RT_EOK, Some 32), s') \<and> ev_set (events s' 7) = 0"
proof -
  have "has_opt RT_EVENT_FLAG_AND 6 \<or> has_opt RT_EVENT_FLAG_OR 6" "has_opt RT_EVENT_FLAG_CLEAR 6" "event_match 0x30 6 32"
    by (simp_all add: has_opt_def RT_EVENT_FLAG_AND_def RT_EVENT_FLAG_OR_def RT_EVENT_FLAG_CLEAR_def event_match_def)
  with event_recv_branches [OF demo_ev_ok(4,2), of 6 "0x30" RT_UNINTERRUPTIBLE] demo_ev_ok(5) show ?thesis by auto
qed

end
