(* ===== verification/MemPool.thy ===== *)
theory MemPool
  imports MsgQueue
begin

text \<open>
  Memory pools (rt-thread/src/mempool.c): blocks of one size, a list of the free ones, and a queue of threads that wait for a block.
  Block \<open>k\<close> is the \<open>k\<close>-th of the pool; its header holds the next free block while it is free, and its pool while it is
  not. An address that \<open>rt_mp_alloc\<close> returns is named by the pool and the index of its block.
\<close>

abbreviation is_mp :: "nat \<Rightarrow> kst \<Rightarrow> bool" where
  "is_mp i s \<equiv> rt_object_get_type (OMemPool i) s = RT_Object_Class_MemPool"

definition RT_ALIGN_DOWN :: "u32 \<Rightarrow> u32 \<Rightarrow> u32" where
  "RT_ALIGN_DOWN sz align = sz AND NOT (align - 1)"

definition sizeof_ptr :: u32 where "sizeof_ptr = 4"

primrec mp_link :: "nat \<Rightarrow> (nat \<Rightarrow> mp_cell) \<Rightarrow> nat \<Rightarrow> mp_cell" where
  \<comment> \<open>the loop of \<open>rt_mp_init\<close> and \<open>rt_mp_create\<close>: \<open>n\<close> blocks, each linked to the one behind it\<close>
  "mp_link 0 f = f"
| "mp_link (Suc n) f = (mp_link n f)(n := Next (Some (Suc n)))"

definition mp_setup :: "rt_mempool \<Rightarrow> rt_mempool option" where
  \<comment> \<open>with no block, the last write would be in front of the pool\<close>
  "mp_setup mp = do {
     let total = unat (mp_total_count mp);
     let f = mp_link total (mp_cells mp);
     rt_assert (total > 0);
     Some (mp\<lparr>mp_cells := f(total - 1 := Next None), mp_block_list := Some 0\<rparr>)
   }"

definition rt_mp_init :: "nat \<Rightarrow> string \<Rightarrow> u32 \<Rightarrow> u32 \<Rightarrow> kst \<Rightarrow> (int \<times> kst) option" where
  "rt_mp_init i name sz block_size s = do {
     rt_assert (sz > 0 \<and> block_size > 0);
     s \<leftarrow> rt_object_init (OMemPool i) RT_Object_Class_MemPool (Some name) s;
     let sz = RT_ALIGN_DOWN sz RT_ALIGN_SIZE;
     let block_size = RT_ALIGN block_size RT_ALIGN_SIZE;
     let s = upd_mpool i (\<lambda>m. m\<lparr>mp_block_size := block_size\<rparr>) s;
     rt_assert (block_size + sizeof_ptr \<noteq> 0);
     let s = upd_mpool i (\<lambda>m. m\<lparr>mp_total_count := sz div (mp_block_size m + sizeof_ptr)\<rparr>) s;
     let s = upd_mpool i (\<lambda>m. m\<lparr>mp_free_count := mp_total_count m\<rparr>) s;
     let s = upd_tlists (\<lambda>ls. ls(Susp (MpQ i) := [])) s;
     mp \<leftarrow> mp_setup (mpools s i);
     Some (RT_EOK, upd_mpool i (\<lambda>_. mp) s)
   }"

definition rt_mp_detach :: "nat \<Rightarrow> kst \<Rightarrow> (int \<times> kst) option" where
  "rt_mp_detach i s = do {
     rt_assert (is_mp i s);
     rt_assert (rt_object_is_systemobject (OMemPool i) s);
     let s = rt_spin_lock s;
     s \<leftarrow> rt_susp_list_resume_all (MpQ i) RT_ERROR s;
     s \<leftarrow> rt_object_detach (OMemPool i) s;
     s \<leftarrow> rt_spin_unlock s;
     Some (RT_EOK, s)
   }"

definition rt_mp_create :: "nat option \<Rightarrow> bool \<Rightarrow> string \<Rightarrow> u32 \<Rightarrow> u32 \<Rightarrow> kst \<Rightarrow> (nat option \<times> kst) option" where
  \<comment> \<open>\<open>block\<close>: the object the heap gave; \<open>pool_ok\<close>: it had the memory for the blocks\<close>
  "rt_mp_create block pool_ok name block_count block_size s = do {
     rt_assert (debug_not_in_interrupt s);
     rt_assert (block_count > 0 \<and> block_size > 0);
     (_, s) \<leftarrow> rt_object_allocate (map_option OMemPool block) RT_Object_Class_MemPool (Some name) s;
     case block of
       None \<Rightarrow> Some (None, s)
     | Some i \<Rightarrow> do {
         let s = upd_mpool i (\<lambda>m. m\<lparr>mp_block_size := RT_ALIGN block_size RT_ALIGN_SIZE\<rparr>) s;
         if \<not> pool_ok then do {
           s \<leftarrow> rt_object_delete (OMemPool i) s;
           Some (None, s)
         } else do {
           let s = upd_mpool i (\<lambda>m. m\<lparr>mp_total_count := block_count, mp_free_count := block_count\<rparr>) s;
           let s = upd_tlists (\<lambda>ls. ls(Susp (MpQ i) := [])) s;
           mp \<leftarrow> mp_setup (mpools s i);
           Some (Some i, upd_mpool i (\<lambda>_. mp) s)
         }
       }
   }"

definition rt_mp_delete :: "nat \<Rightarrow> kst \<Rightarrow> (int \<times> kst) option" where
  "rt_mp_delete i s = do {
     rt_assert (debug_not_in_interrupt s);
     rt_assert (is_mp i s);
     rt_assert (\<not> rt_object_is_systemobject (OMemPool i) s);
     let s = rt_spin_lock s;
     s \<leftarrow> rt_susp_list_resume_all (MpQ i) RT_ERROR s;
     s \<leftarrow> rt_spin_unlock s;
     s \<leftarrow> rt_object_delete (OMemPool i) s;
     Some (RT_EOK, s)
   }"

subsection \<open>Allocation\<close>

definition mp_take :: "nat \<Rightarrow> rt_mempool \<Rightarrow> (nat \<times> rt_mempool) option" where
  "mp_take i mp = do {
     let mp = mp\<lparr>mp_free_count := mp_free_count mp - 1\<rparr>;
     k \<leftarrow> mp_block_list mp;
     nx \<leftarrow> (case mp_cells mp k of Next nx \<Rightarrow> Some nx | Pool _ \<Rightarrow> None);
     Some (k, mp\<lparr>mp_block_list := nx, mp_cells := (mp_cells mp)(k := Pool i)\<rparr>)
   }"

definition mp_alloc_round :: "nat \<Rightarrow> int \<Rightarrow> kst \<Rightarrow> (nat option wait_step \<times> kst) option" where
  \<comment> \<open>one test of the loop, and what follows it; the lock is held. The result of a call is the block\<close>
  "mp_alloc_round i time s =
     (if mp_free_count (mpools s i) = 0 then
        (if time = 0 then do {
           s \<leftarrow> rt_spin_unlock s;
           Some (Returned None, rt_set_errno (- RT_ETIMEOUT) s)
         } else do {
           rt_assert (debug_not_in_interrupt s);
           t \<leftarrow> rt_thread_self s;
           let s = upd_tcb t (\<lambda>b. b\<lparr>t_error := RT_EOK\<rparr>) s;
           (_, s) \<leftarrow> rt_thread_suspend_to_list t (Some (MpQ i)) RT_IPC_FLAG_FIFO RT_UNINTERRUPTIBLE s;
           let before_sleep = (if time > 0 then rt_tick_get s else 0);
           s \<leftarrow> (if time > 0 then start_wait_timer t (word_of_int time) s else Some s);
           s \<leftarrow> rt_spin_unlock s;
           s \<leftarrow> rt_schedule s;
           Some (Waiting time before_sleep, s)
         })
      else do {
        (k, mp) \<leftarrow> mp_take i (mpools s i);
        s \<leftarrow> rt_spin_unlock (upd_mpool i (\<lambda>_. mp) s);
        Some (Returned (Some k), s)
      })"

definition rt_mp_alloc :: "nat \<Rightarrow> int \<Rightarrow> kst \<Rightarrow> (nat option wait_step \<times> kst) option" where
  "rt_mp_alloc i time s = mp_alloc_round i time (rt_spin_lock s)"

definition mp_alloc_resume :: "nat \<Rightarrow> nat \<Rightarrow> int \<Rightarrow> u32 \<Rightarrow> kst \<Rightarrow> (nat option wait_step \<times> kst) option" where
  "mp_alloc_resume i t time before_sleep s =
     (if t_error (tcbs s t) \<noteq> RT_EOK then Some (Returned None, s)
      else mp_alloc_round i (rest_timeout time before_sleep s) (rt_spin_lock s))"

definition mp_put_back :: "nat \<Rightarrow> rt_mempool \<Rightarrow> rt_mempool" where
  "mp_put_back k mp =
     (let mp = mp\<lparr>mp_free_count := mp_free_count mp + 1\<rparr>;
          mp = mp\<lparr>mp_cells := (mp_cells mp)(k := Next (mp_block_list mp))\<rparr>
      in mp\<lparr>mp_block_list := Some k\<rparr>)"

definition rt_mp_free :: "(nat \<times> nat) option \<Rightarrow> kst \<Rightarrow> kst option" where
  \<comment> \<open>the pool is the one that the header of the block names; cells are named within their pool, so it must be \<open>i\<close>\<close>
  "rt_mp_free block s =
     (case block of
        None \<Rightarrow> Some s
      | Some (i, k) \<Rightarrow> do {
          j \<leftarrow> (case mp_cells (mpools s i) k of Pool j \<Rightarrow> Some j | Next _ \<Rightarrow> None);
          let s = rt_spin_lock s;
          rt_assert (j = i);
          let s = upd_mpool j (mp_put_back k) s;
          (w, s) \<leftarrow> rt_susp_list_dequeue (MpQ j) RT_EOK s;
          s \<leftarrow> rt_spin_unlock s;
          if w \<noteq> None then rt_schedule s else Some s
        })"

subsection \<open>Free and allocated blocks\<close>

fun mp_chain :: "(nat \<Rightarrow> mp_cell) \<Rightarrow> nat option \<Rightarrow> nat list \<Rightarrow> bool" where
  "mp_chain f p [] \<longleftrightarrow> p = None"
| "mp_chain f p (x # xs) \<longleftrightarrow> p = Some x \<and> (\<exists>nx. f x = Next nx \<and> mp_chain f nx xs)"

definition mp_rep :: "nat \<Rightarrow> rt_mempool \<Rightarrow> nat list \<Rightarrow> bool" where
  \<comment> \<open>\<open>fs\<close> are the free blocks of pool \<open>i\<close>; the others carry its name\<close>
  "mp_rep i mp fs \<longleftrightarrow> mp_chain (mp_cells mp) (mp_block_list mp) fs \<and> distinct fs \<and> length fs = unat (mp_free_count mp) \<and>
     (\<forall>k \<in> set fs. k < unat (mp_total_count mp)) \<and>
     (\<forall>k < unat (mp_total_count mp). k \<notin> set fs \<longrightarrow> mp_cells mp k = Pool i)"

definition mp_wf :: "nat \<Rightarrow> rt_mempool \<Rightarrow> bool" where
  "mp_wf i mp \<longleftrightarrow> (\<exists>fs. mp_rep i mp fs)"

definition mp_allocated :: "nat \<Rightarrow> rt_mempool \<Rightarrow> nat set" where
  "mp_allocated i mp = {k. k < unat (mp_total_count mp) \<and> mp_cells mp k = Pool i}"

lemma mp_chain_cong: "(\<And>x. x \<in> set xs \<Longrightarrow> g x = f x) \<Longrightarrow> mp_chain g p xs = mp_chain f p xs"
  by (induction xs arbitrary: p) auto

lemma mp_chain_free: "mp_chain f p xs \<Longrightarrow> x \<in> set xs \<Longrightarrow> \<exists>nx. f x = Next nx"
  by (induction xs arbitrary: p) auto

lemma mp_allocated_rep:
  assumes "mp_rep i mp fs"
  shows "mp_allocated i mp = {k. k < unat (mp_total_count mp)} - set fs"
  using assms mp_chain_free [of "mp_cells mp" "mp_block_list mp" fs]
  by (fastforce simp: mp_allocated_def mp_rep_def)

lemma mp_rep_count:
  assumes r: "mp_rep i mp fs"
  shows "card (mp_allocated i mp) + unat (mp_free_count mp) = unat (mp_total_count mp)"
proof -
  have sub: "set fs \<subseteq> {k. k < unat (mp_total_count mp)}" and "card (set fs) = unat (mp_free_count mp)"
    using r by (auto simp: mp_rep_def distinct_card)
  moreover have "card ({k. k < unat (mp_total_count mp)} - set fs) = unat (mp_total_count mp) - card (set fs)"
    using sub by (subst card_Diff_subset) auto
  moreover have "card (set fs) \<le> unat (mp_total_count mp)" using card_mono [OF _ sub] by simp
  ultimately show ?thesis unfolding mp_allocated_rep [OF r] by simp
qed

lemma mp_take_rep:
  assumes r: "mp_rep i mp fs" and nz: "mp_free_count mp \<noteq> 0"
  shows "\<exists>k fs' mp'. fs = k # fs' \<and> mp_take i mp = Some (k, mp') \<and> mp_rep i mp' fs' \<and>
    mp_total_count mp' = mp_total_count mp \<and> mp_block_size mp' = mp_block_size mp"
proof -
  have "fs \<noteq> []" using r nz by (auto simp: mp_rep_def unat_eq_0)
  then obtain k fs' where fs: "fs = k # fs'" by (cases fs) auto
  obtain nx where nx: "mp_block_list mp = Some k" "mp_cells mp k = Next nx" "mp_chain (mp_cells mp) nx fs'"
    using r fs by (auto simp: mp_rep_def)
  let ?mp = "mp\<lparr>mp_free_count := mp_free_count mp - 1, mp_block_list := nx, mp_cells := (mp_cells mp)(k := Pool i)\<rparr>"
  have t: "mp_take i mp = Some (k, ?mp)" using nx by (simp add: mp_take_def Let_def)
  have "unat (mp_free_count mp - 1) = unat (mp_free_count mp) - 1" by (rule unat_minus_one [OF nz])
  moreover have "mp_chain ((mp_cells mp)(k := Pool i)) nx fs' = mp_chain (mp_cells mp) nx fs'"
    by (rule mp_chain_cong) (use r fs in \<open>auto simp: mp_rep_def\<close>)
  ultimately have "mp_rep i ?mp fs'" using r fs nx by (auto simp: mp_rep_def)
  with fs t show ?thesis by auto
qed

lemma mp_put_back_rep:
  assumes r: "mp_rep i mp fs" and k: "k \<in> mp_allocated i mp"
  shows "mp_rep i (mp_put_back k mp) (k # fs)"
proof -
  have nk: "k \<notin> set fs" "k < unat (mp_total_count mp)" using k unfolding mp_allocated_rep [OF r] by auto
  have "length fs < unat (mp_total_count mp)"
  proof -
    have "set (k # fs) \<subseteq> {..<unat (mp_total_count mp)}" using r nk by (auto simp: mp_rep_def)
    from card_mono [OF _ this] have "card (set (k # fs)) \<le> unat (mp_total_count mp)" by simp
    moreover have "distinct (k # fs)" using r nk by (simp add: mp_rep_def)
    ultimately show ?thesis by (simp add: distinct_card del: set_simps)
  qed
  then have "mp_free_count mp < mp_total_count mp" using r by (simp add: mp_rep_def word_less_nat_alt)
  then have u: "unat (mp_free_count mp + 1) = Suc (unat (mp_free_count mp))" using unat_inc [of "mp_free_count mp"] by simp
  have "mp_chain ((mp_cells mp)(k := Next (mp_block_list mp))) (mp_block_list mp) fs = mp_chain (mp_cells mp) (mp_block_list mp) fs"
    by (rule mp_chain_cong) (use nk in auto)
  then show ?thesis using r nk u by (auto simp: mp_rep_def mp_put_back_def Let_def)
qed

lemma mp_link_at: "mp_link n f k = (if k < n then Next (Some (Suc k)) else f k)"
  by (induction n) auto

lemma mp_setup_rep:
  assumes z: "mp_total_count mp \<noteq> 0" and f: "mp_free_count mp = mp_total_count mp"
  shows "\<exists>mp'. mp_setup mp = Some mp' \<and> mp_rep i mp' [0..<unat (mp_total_count mp)] \<and>
    mp_total_count mp' = mp_total_count mp \<and> mp_block_size mp' = mp_block_size mp"
proof -
  let ?n = "unat (mp_total_count mp)"
  have n: "0 < ?n" using z by (simp add: unat_gt_0)
  define g where "g = (mp_link ?n (mp_cells mp))(?n - 1 := Next None)"
  have "mp_chain g (Some a) [a..<?n]" if "a < ?n" for a
    using that
  proof (induction "?n - a" arbitrary: a)
    case (Suc d)
    show ?case
    proof (cases "Suc a < ?n")
      case True
      then have "mp_chain g (Some (Suc a)) [Suc a..<?n]" using Suc.hyps by simp
      moreover have "g a = Next (Some (Suc a))" using True by (auto simp: g_def mp_link_at)
      ultimately show ?thesis using Suc.prems by (simp add: upt_conv_Cons)
    next
      case False
      then have a: "a = ?n - 1" using Suc.prems by simp
      then have "[a..<?n] = [a]" using n by (simp add: upt_conv_Cons)
      then show ?thesis using a by (simp add: g_def)
    qed
  qed simp
  then have c: "mp_chain g (Some 0) [0..<?n]" using n by blast
  have "mp_setup mp = Some (mp\<lparr>mp_cells := g, mp_block_list := Some 0\<rparr>)" using n by (simp add: mp_setup_def g_def Let_def)
  moreover have "mp_rep i (mp\<lparr>mp_cells := g, mp_block_list := Some 0\<rparr>) [0..<?n]" using c f by (simp add: mp_rep_def)
  ultimately show ?thesis by auto
qed

subsection \<open>Allocating and freeing\<close>

definition mp_ok :: "nat \<Rightarrow> kst \<Rightarrow> bool" where
  "mp_ok i s \<longleftrightarrow> mp_wf i (mpools s i)"

lemma mp_wait_run:
  assumes w: "can_wait t time s" and z: "mp_free_count (mpools s i) = 0" and nz: "time \<noteq> 0"
  shows "\<exists>s'. mp_alloc_round i time (rt_spin_lock s) = Some (Waiting time (if time > 0 then tick s else 0), s') \<and>
    waits t (MpQ i) RT_IPC_FLAG_FIFO time RT_EOK s s'"
proof -
  let ?s0 = "upd_tcb t (\<lambda>b. b\<lparr>t_error := RT_EOK\<rparr>) s" and ?f = RT_IPC_FLAG_FIFO
  have w0: "can_wait t time ?s0" using w by simp
  note W = w0 [unfolded can_wait_def] and C = can_waitD [OF w]
  have f: "ipc_flag_ok ?f" by (simp add: ipc_flag_ok_def)
  have B: "rt_thread_suspend_to_list t (Some (MpQ i)) ?f RT_UNINTERRUPTIBLE (rt_spin_lock ?s0)
        = Some (RT_EOK, thread_block t (Some (MpQ i, ?f)) RT_UNINTERRUPTIBLE (rt_spin_lock ?s0))"
    "(if time > 0 then start_wait_timer t (word_of_int time) (thread_block t (Some (MpQ i, ?f)) RT_UNINTERRUPTIBLE (rt_spin_lock ?s0))
          else Some (thread_block t (Some (MpQ i, ?f)) RT_UNINTERRUPTIBLE (rt_spin_lock ?s0)))
        = Some (blocked t (MpQ i) ?f RT_UNINTERRUPTIBLE time (rt_spin_lock ?s0))"
    using block_and_switch(1,2) [of ?s0 t ?f time] W f by simp_all
  obtain s4 s' where s': "rt_spin_unlock (blocked t (MpQ i) ?f RT_UNINTERRUPTIBLE time (rt_spin_lock ?s0)) = Some s4"
    "rt_schedule s4 = Some s'" "waits t (MpQ i) ?f time RT_EOK ?s0 s'"
    using block_and_switch(3) [of ?s0 t ?f time "MpQ i" RT_UNINTERRUPTIBLE] W f by auto
  have "rt_tick_get (thread_block t (Some (MpQ i, ?f)) RT_UNINTERRUPTIBLE (rt_spin_lock ?s0)) = tick s"
    by (simp add: rt_tick_get_def)
  then have "mp_alloc_round i time (rt_spin_lock s) = Some (Waiting time (if time > 0 then tick s else 0), s')"
    using z nz C B s'(1,2) by (simp add: mp_alloc_round_def debug_defs rt_thread_self_def lock_upd_tcb Let_def)
  with s'(3) show ?thesis by (auto simp: waits_error)
qed

text \<open>
  Allocating a block of a memory pool. If one is free, the call returns a block that was not allocated, which is now, and no
  other; with none free it returns a null pointer with the error number \<open>-RT_ETIMEOUT\<close> when it must not wait, and
  otherwise waits in the order of arrival. Free and allocated blocks always make up the whole pool.
\<close>

theorem rt_mp_alloc_branches:
  assumes k: "kinv s" and w: "time \<noteq> 0 \<Longrightarrow> can_wait t time s" and ok: "mp_ok i s"
  shows "if mp_free_count (mpools s i) \<noteq> 0 then
      \<exists>b mp. rt_mp_alloc i time s = Some (Returned (Some b), upd_mpool i (\<lambda>_. mp) s) \<and>
        b \<notin> mp_allocated i (mpools s i) \<and> b < unat (mp_total_count (mpools s i)) \<and>
        mp_allocated i mp = insert b (mp_allocated i (mpools s i)) \<and> mp_wf i mp \<and>
        card (mp_allocated i mp) + unat (mp_free_count mp) = unat (mp_total_count (mpools s i))
    else if time = 0 then rt_mp_alloc i time s = Some (Returned None, rt_set_errno (- RT_ETIMEOUT) s)
    else \<exists>s'. rt_mp_alloc i time s = Some (Waiting time (if time > 0 then tick s else 0), s') \<and>
      waits t (MpQ i) RT_IPC_FLAG_FIFO time RT_EOK s s' \<and> mp_ok i s'"
proof (cases "mp_free_count (mpools s i) = 0")
  case True
  show ?thesis
  proof (cases "time = 0")
    case t0: True
    then show ?thesis using True k by (simp add: rt_mp_alloc_def mp_alloc_round_def)
  next
    case False
    from mp_wait_run [OF w [OF False] True False] True False ok show ?thesis
      by (auto simp: rt_mp_alloc_def mp_ok_def waits_def)
  qed
next
  case False
  obtain fs where r: "mp_rep i (mpools s i) fs" using ok by (auto simp: mp_ok_def mp_wf_def)
  obtain b fs' mp where b: "fs = b # fs'" "mp_take i (mpools s i) = Some (b, mp)" "mp_rep i mp fs'"
    "mp_total_count mp = mp_total_count (mpools s i)" using mp_take_rep [OF r False] by blast
  have "rt_mp_alloc i time s = Some (Returned (Some b), upd_mpool i (\<lambda>_. mp) s)"
    using False b(2) k by (simp add: rt_mp_alloc_def mp_alloc_round_def)
  moreover have "b \<in> set fs" "b \<notin> set fs'" using r b(1) by (auto simp: mp_rep_def)
  moreover have "b < unat (mp_total_count (mpools s i))" using r b(1) by (auto simp: mp_rep_def)
  moreover have "mp_allocated i mp = insert b (mp_allocated i (mpools s i))"
    unfolding mp_allocated_rep [OF r] mp_allocated_rep [OF b(3)] using b(1,4) calculation(2-4) by auto
  moreover have "b \<notin> mp_allocated i (mpools s i)" unfolding mp_allocated_rep [OF r] using calculation(2) by simp
  moreover have "mp_wf i mp" using b(3) unfolding mp_wf_def by blast
  moreover have "card (mp_allocated i mp) + unat (mp_free_count mp) = unat (mp_total_count (mpools s i))"
    using mp_rep_count [OF b(3)] b(4) by simp
  ultimately show ?thesis unfolding if_P [OF False] by (intro exI [of _ b] exI [of _ mp] conjI)
qed

text \<open>
  Freeing an allocated block makes exactly that block free, and the first thread that waits for one, if there is one, is awake
  with \<open>RT_EOK\<close>, and no other.
\<close>

theorem rt_mp_free_gives_back:
  assumes k: "kinv s" and c: "current s \<noteq> None" and ok: "mp_ok i s" and b: "b \<in> mp_allocated i (mpools s i)"
  shows "\<exists>mp s'. rt_mp_free (Some (i, b)) s = Some s' \<and> gives (MpQ i) (upd_mpool i (\<lambda>_. mp) s) s' \<and>
    mp_allocated i mp = mp_allocated i (mpools s i) - {b} \<and> mp_ok i s' \<and>
    unat (mp_free_count mp) = Suc (unat (mp_free_count (mpools s i)))"
proof -
  obtain fs where r: "mp_rep i (mpools s i) fs" using ok by (auto simp: mp_ok_def mp_wf_def)
  let ?mp = "mp_put_back b (mpools s i)"
  note r' = mp_put_back_rep [OF r b]
  have cell: "mp_cells (mpools s i) b = Pool i" using b by (simp add: mp_allocated_def)
  let ?s = "upd_mpool i (\<lambda>_. ?mp) s"
  have lo: "locked_ok (rt_spin_lock ?s)" "current (rt_spin_lock ?s) \<noteq> None" using k c by simp_all
  obtain s' where run: "rt_mp_free (Some (i, b)) s = Some s'" and g: "gives (MpQ i) ?s s'"
  proof (cases "tlists s (Susp (MpQ i))")
    case Nil
    have k': "kinv ?s" using k by simp
    have "rt_mp_free (Some (i, b)) s = Some ?s"
      using Nil cell unlock_locked [OF k'] by (simp add: rt_mp_free_def lock_upd)
    moreover have "gives (MpQ i) ?s ?s"
      using Nil k by (simp add: gives_def woken_def first_of_def)
    ultimately show ?thesis using that by blast
  next
    case (Cons u us)
    then have q: "tlists (rt_spin_lock ?s) (Susp (MpQ i)) = u # us" by simp
    note W = wake_and_switch [OF lo q, of RT_EOK]
    obtain s4 s' where s': "rt_spin_unlock (wake_err RT_EOK u (rt_spin_lock ?s)) = Some s4" "rt_schedule s4 = Some s'"
      using W(2) by blast
    have wf: "wake_first (MpQ i) (rt_spin_lock ?s) = Some s'" using q W(1) s' by (simp add: wake_first_def)
    have "kinv ?s" "current ?s \<noteq> None" using k c by simp_all
    from wake_first_gives [OF this, of "MpQ i"] wf have "gives (MpQ i) ?s s'" by simp
    moreover have "rt_mp_free (Some (i, b)) s = Some s'"
      using cell W(1) s' by (simp add: rt_mp_free_def lock_upd)
    ultimately show ?thesis using that by blast
  qed
  have "mp_ok i s'" using g r' by (auto simp: gives_def woken_def mp_ok_def mp_wf_def)
  moreover have "mp_allocated i ?mp = mp_allocated i (mpools s i) - {b}"
    unfolding mp_allocated_rep [OF r'] mp_allocated_rep [OF r] by (auto simp: mp_put_back_def Let_def)
  moreover have "unat (mp_free_count ?mp) = Suc (unat (mp_free_count (mpools s i)))"
    using r r' by (simp add: mp_rep_def)
  ultimately show ?thesis using run g by blast
qed

text \<open>
  \<open>rt_mp_init\<close> makes as many blocks as fit into the given memory, all free: the data of block \<open>k\<close>, at least \<open>block_size\<close>
  bytes behind its header, ends before the next block, and the last block ends inside the memory. With no room for a single block,
  the call writes in front of the memory: the model stops there.
\<close>

theorem rt_mp_init_blocks:
  assumes ob: "rt_object_init (OMemPool i) RT_Object_Class_MemPool (Some name) s = Some s1"
    and sz: "0 < sz" and bs: "0 < bs" "bs \<le> 0xfffffff0"
  defines "cell \<equiv> unat (RT_ALIGN bs RT_ALIGN_SIZE) + unat sizeof_ptr"
  shows "case rt_mp_init i name sz bs s of
      None \<Rightarrow> unat (RT_ALIGN_DOWN sz RT_ALIGN_SIZE) < cell
    | Some (e, s') \<Rightarrow> e = RT_EOK \<and> mp_wf i (mpools s' i) \<and> mp_allocated i (mpools s' i) = {} \<and>
        mp_free_count (mpools s' i) \<noteq> 0 \<and> unat bs + unat sizeof_ptr \<le> cell \<and>
        (\<forall>k < unat (mp_free_count (mpools s' i)). (k + 1) * cell \<le> unat sz)"
proof -
  let ?a = "RT_ALIGN bs RT_ALIGN_SIZE" and ?z = "RT_ALIGN_DOWN sz RT_ALIGN_SIZE"
  have al: "unat bs \<le> unat ?a" "unat ?a \<le> unat bs + 7" by (rule RT_ALIGN_8 [OF bs(2)])+
  have "unat bs \<le> 4294967280" using bs(2) by (simp add: word_le_nat_alt)
  then have c: "unat (?a + sizeof_ptr) = cell"
    using al by (simp add: cell_def sizeof_ptr_def unat_word_ariths)
  then have nz: "?a + sizeof_ptr \<noteq> 0" "0 < cell" by (auto simp: cell_def sizeof_ptr_def)
  have zle: "unat ?z \<le> unat sz"
    unfolding RT_ALIGN_DOWN_def word_le_nat_alt [symmetric] by (rule word_and_le2)
  define n where "n = ?z div (?a + sizeof_ptr)"
  have n: "unat n = unat ?z div cell" by (simp add: n_def unat_div c)
  let ?q = "(mpools s1 i)\<lparr>mp_block_size := ?a, mp_total_count := n, mp_free_count := n\<rparr>"
  have run: "rt_mp_init i name sz bs s = (case mp_setup ?q of None \<Rightarrow> None
      | Some mp \<Rightarrow> Some (RT_EOK, upd_mpool i (\<lambda>_. mp) (upd_tlists (\<lambda>ls. ls(Susp (MpQ i) := [])) (upd_mpool i (\<lambda>_. ?q) s1))))"
    using ob sz bs nz(1) by (simp add: rt_mp_init_def n_def [symmetric] Let_def split: option.split)
  show ?thesis
  proof (cases "n = 0")
    case True
    then have "unat ?z div cell = 0" using n by simp
    then have "unat ?z < cell" using nz(2) by (simp add: div_eq_0_iff)
    moreover have "mp_setup ?q = None" using True by (simp add: mp_setup_def rt_assert_def)
    ultimately show ?thesis using run by simp
  next
    case False
    then obtain mp where mp: "mp_setup ?q = Some mp" "mp_rep i mp [0..<unat n]" "mp_total_count mp = n"
      using mp_setup_rep [of ?q i] by auto
    have fc: "unat (mp_free_count mp) = unat n" using mp(2) by (simp add: mp_rep_def)
    have inside: "(k + 1) * cell \<le> unat sz" if "k < unat n" for k
    proof -
      have "(k + 1) * cell \<le> unat ?z div cell * cell" using that n by (intro mult_le_mono1) simp
      also have "\<dots> \<le> unat ?z" by (rule div_times_less_eq_dividend)
      finally show ?thesis using zle by simp
    qed
    have "mp_allocated i mp = {}" unfolding mp_allocated_rep [OF mp(2)] using mp(3) by auto
    moreover have "mp_wf i mp" using mp(2) unfolding mp_wf_def by blast
    moreover have "mp_free_count mp \<noteq> 0" using fc False by (metis unat_eq_0)
    moreover have "unat bs + unat sizeof_ptr \<le> cell" using al(1) by (simp add: cell_def)
    ultimately show ?thesis using run mp(1) inside fc by simp
  qed
qed

subsection \<open>Instances\<close>

definition demo_pool :: rt_mempool where
  \<comment> \<open>block 0 is allocated, block 1 is free\<close>
  "demo_pool = \<lparr>mp_cells = (\<lambda>_. Next None)(0 := Pool 7), mp_block_size = 8, mp_block_list = Some 1,
     mp_total_count = 2, mp_free_count = 1\<rparr>"

definition demo_mp :: "suspq \<Rightarrow> kst" where
  "demo_mp q = upd_mpool 7 (\<lambda>_. demo_pool) (demo_wait q)"

lemma demo_mp_ok: "kinv (demo_mp q)" "mp_ok 7 (demo_mp q)" "current (demo_mp q) = Some 1" "mpools (demo_mp q) 7 = demo_pool"
  "can_wait 1 50 (demo_mp q)" "tlists (demo_mp q) (Susp q) = [3, 2]" "mp_allocated 7 demo_pool = {0}"
proof -
  have r: "mp_rep 7 demo_pool [1]" by (auto simp: mp_rep_def demo_pool_def)
  then show "mp_ok 7 (demo_mp q)" unfolding mp_ok_def mp_wf_def demo_mp_def by auto
  show "mp_allocated 7 demo_pool = {0}" unfolding mp_allocated_rep [OF r] by (auto simp: demo_pool_def)
  show "can_wait 1 50 (demo_mp q)"
    using kinv_demo [of q] demo_wait_running [of q] by (simp add: demo_mp_def can_wait_def HALF_TICKS_val)
qed (simp_all add: demo_mp_def kinv_demo)

lemma rt_mp_alloc_branches_witness:
  "\<exists>s'. rt_mp_alloc 7 50 (demo_mp (SemQ 1)) = Some (Returned (Some 1), s') \<and> mp_allocated 7 (mpools s' 7) = {0, 1}"
proof -
  have "mp_free_count (mpools (demo_mp (SemQ 1)) 7) \<noteq> 0" by (simp add: demo_mp_ok(4)) (simp add: demo_pool_def)
  with rt_mp_alloc_branches [OF demo_mp_ok(1) demo_mp_ok(5) demo_mp_ok(2), of "SemQ 1"] obtain b mp where
    b: "rt_mp_alloc 7 50 (demo_mp (SemQ 1)) = Some (Returned (Some b), upd_mpool 7 (\<lambda>_. mp) (demo_mp (SemQ 1)))"
    "b \<notin> {0}" "b < 2" "mp_allocated 7 mp = insert b {0}"
    unfolding demo_mp_ok(4,7) by (auto simp: demo_pool_def)
  have "b = 1" using b(2,3) by auto
  with b show ?thesis by auto
qed

lemma rt_mp_free_gives_back_witness:
  "\<exists>s'. rt_mp_free (Some (7, 0)) (demo_mp (MpQ 7)) = Some s' \<and> mp_allocated 7 (mpools s' 7) = {} \<and> \<not> susp_stat (tcbs s' 3)"
  using rt_mp_free_gives_back [of "demo_mp (MpQ 7)" 7 0] demo_mp_ok(1-4,6) [of "MpQ 7"] demo_mp_ok(7)
  by (auto simp: gives_def woken_def first_of_def)

lemma rt_mp_init_blocks_witness:
  "case rt_mp_init 5 ''p'' 64 10 blank_kst of None \<Rightarrow> False
   | Some (e, s') \<Rightarrow> e = RT_EOK \<and> mp_allocated 5 (mpools s' 5) = {} \<and> mp_free_count (mpools s' 5) \<noteq> 0"
proof -
  obtain s1 where s1: "rt_object_init (OMemPool 5) RT_Object_Class_MemPool (Some ''p'') blank_kst = Some s1"
    by (simp add: rt_object_init_def with_lock_push rt_object_get_information_def
        object_container_def class_defs set_name_def RT_NAME_MAX_def blank_kst_def crit_ok_def)
  have "\<not> unat (RT_ALIGN_DOWN 64 RT_ALIGN_SIZE) < unat (RT_ALIGN 10 RT_ALIGN_SIZE) + unat sizeof_ptr"
    by (simp add: RT_ALIGN_def RT_ALIGN_DOWN_def RT_ALIGN_SIZE_def sizeof_ptr_def)
  then show ?thesis
    using rt_mp_init_blocks [OF s1, where sz = 64 and bs = 10] by (auto simp: word_le_nat_alt split: option.splits)
qed

end
