(* ===== verification/AllocSpec.thy ===== *)
theory AllocSpec
  imports Prelude
begin

text \<open>
  The contract of the allocators of the program. The client knows a block by a handle: its address for a heap, a block descriptor for a
  ring block buffer. The state of an allocator has a set of live blocks, each with its handle, first address and size. Allocation of a
  valid request adds at most one block, large enough for the request; release removes the block of the given handle; and at all times the live
  blocks are inside the memory and apart from each other. A client that gives back only what it holds then never makes the
  allocator fail. The heap and the ring block buffer interpret the contract.
\<close>

datatype 'r areq = Alloc 'r | Free nat

locale allocator =
  fixes ok :: "'s \<Rightarrow> bool" and live_blocks :: "'s \<Rightarrow> ('h \<times> nat \<times> nat) set" and bound :: "'s \<Rightarrow> nat"
    and valid :: "'r \<Rightarrow> bool" and need :: "'r \<Rightarrow> nat"
    and alloc :: "'r \<Rightarrow> 's \<Rightarrow> ('h option \<times> 's) option" and release :: "'h \<Rightarrow> 's \<Rightarrow> 's option"
  assumes inside: "ok s \<Longrightarrow> (h, p, n) \<in> live_blocks s \<Longrightarrow> p + n \<le> bound s \<and> 0 < n"
    and one_block: "ok s \<Longrightarrow> (h, b) \<in> live_blocks s \<Longrightarrow> (h, c) \<in> live_blocks s \<Longrightarrow> b = c"
    and apart: "ok s \<Longrightarrow> (h, p, n) \<in> live_blocks s \<Longrightarrow> (g, q, k) \<in> live_blocks s \<Longrightarrow> h \<noteq> g \<Longrightarrow> p + n \<le> q \<or> q + k \<le> p"
    and alloc_ok: "ok s \<Longrightarrow> valid x \<Longrightarrow> \<exists>r s'. alloc x s = Some (r, s') \<and> ok s' \<and> bound s' = bound s \<and>
      (case r of None \<Rightarrow> live_blocks s' = live_blocks s
       | Some h \<Rightarrow> \<exists>p k. need x \<le> k \<and> h \<notin> fst ` live_blocks s \<and> live_blocks s' = insert (h, p, k) (live_blocks s))"
    and release_ok: "ok s \<Longrightarrow> h \<in> fst ` live_blocks s \<Longrightarrow> \<exists>s'. release h s = Some s' \<and> ok s' \<and> bound s' = bound s \<and>
      live_blocks s' = {b \<in> live_blocks s. fst b \<noteq> h}"
begin

fun serve :: "'r areq list \<Rightarrow> 'h list \<Rightarrow> 's \<Rightarrow> ('h list \<times> 's) option" where
  \<comment> \<open>the requests of a client that holds the blocks \<open>held\<close>; it frees them by their position\<close>
  "serve [] held s = Some (held, s)"
| "serve (Alloc x # rs) held s =
     Option.bind (alloc x s) (\<lambda>(r, s'). serve rs (case r of None \<Rightarrow> held | Some h \<Rightarrow> h # held) s')"
| "serve (Free i # rs) held s =
     (if i < length held then Option.bind (release (held ! i) s) (\<lambda>s'. serve rs (remove1 (held ! i) held) s')
      else serve rs held s)"

definition requests_ok :: "'r areq list \<Rightarrow> bool" where
  "requests_ok rs \<longleftrightarrow> (\<forall>x. Alloc x \<in> set rs \<longrightarrow> valid x)"

definition holds :: "'h list \<Rightarrow> 's \<Rightarrow> bool" where
  "holds held s \<longleftrightarrow> distinct held \<and> set held = fst ` live_blocks s"

lemma holds_alloc:
  assumes ok: "ok s" and h: "holds held s" and v: "valid x"
  shows "\<exists>r s'. alloc x s = Some (r, s') \<and> ok s' \<and> bound s' = bound s \<and> holds (case r of None \<Rightarrow> held | Some h \<Rightarrow> h # held) s'"
proof -
  obtain r s' where A: "alloc x s = Some (r, s')" "ok s'" "bound s' = bound s" "case r of None \<Rightarrow> live_blocks s' = live_blocks s
       | Some h \<Rightarrow> \<exists>p k. need x \<le> k \<and> h \<notin> fst ` live_blocks s \<and> live_blocks s' = insert (h, p, k) (live_blocks s)"
    using alloc_ok [OF ok v] by blast
  have "holds (case r of None \<Rightarrow> held | Some h \<Rightarrow> h # held) s'" using A(4) h by (cases r) (auto simp: holds_def)
  with A show ?thesis by blast
qed

lemma holds_release:
  assumes ok: "ok s" and h: "holds held s" and i: "i < length held"
  shows "\<exists>s'. release (held ! i) s = Some s' \<and> ok s' \<and> bound s' = bound s \<and> holds (remove1 (held ! i) held) s'"
proof -
  let ?h = "held ! i"
  have "?h \<in> fst ` live_blocks s" using h nth_mem [OF i] by (simp add: holds_def)
  then obtain s' where s': "release ?h s = Some s'" "ok s'" "bound s' = bound s" "live_blocks s' = {b \<in> live_blocks s. fst b \<noteq> ?h}"
    using release_ok [OF ok] by blast
  have "fst ` live_blocks s' = fst ` live_blocks s - {?h}" unfolding s'(4) by auto
  then have "holds (remove1 ?h held) s'" using h by (simp add: holds_def)
  with s' show ?thesis by blast
qed

lemma serve_ok:
  "ok s \<Longrightarrow> holds held s \<Longrightarrow> requests_ok rs \<Longrightarrow>
   \<exists>held' s'. serve rs held s = Some (held', s') \<and> ok s' \<and> bound s' = bound s \<and> holds held' s'"
proof (induction rs arbitrary: held s)
  case (Cons r rs)
  have rs: "requests_ok rs" using Cons.prems(3) by (simp add: requests_ok_def)
  show ?case
  proof (cases r)
    case (Alloc x)
    have "valid x" using Cons.prems(3) Alloc by (simp add: requests_ok_def)
    from holds_alloc [OF Cons.prems(1,2) this] obtain p s1 where
      p: "alloc x s = Some (p, s1)" "ok s1" "bound s1 = bound s" "holds (case p of None \<Rightarrow> held | Some h \<Rightarrow> h # held) s1" by blast
    from Cons.IH [OF p(2,4) rs] show ?thesis using Alloc p(1,3) by simp
  next
    case (Free i)
    show ?thesis
    proof (cases "i < length held")
      case True
      obtain s1 where s1: "release (held ! i) s = Some s1" "ok s1" "bound s1 = bound s" "holds (remove1 (held ! i) held) s1"
        using holds_release [OF Cons.prems(1,2) True] by blast
      from Cons.IH [OF s1(2,4) rs] s1 show ?thesis using Free True by simp
    qed (use Free Cons rs in simp)
  qed
qed simp

lemma live_disjoint:
  assumes "ok s" and "(h, p, n) \<in> live_blocks s" and "(g, q, k) \<in> live_blocks s" and "h \<noteq> g"
  shows "{p..<p + n} \<inter> {q..<q + k} = {}"
  using apart [OF assms] by auto

end

end
