(* ===== verification/SmallMem.thy ===== *)
theory SmallMem
  imports MemPool AllocSpec
begin

text \<open>
  The small-memory allocator, the heap of this configuration (rt-thread/src/mem.c). A heap is an area of items; an item is a
  header followed by its data, and is named by its offset from \<open>heap_ptr\<close>. Of the word \<open>pool_ptr\<close> of a header the
  model keeps whether it names this heap and its lowest bit, the mark of a used item. Offsets are natural numbers; the requested
  size is a 32-bit word. The bytes of the data are not part of the state.
\<close>

record mem_item =
  mi_pool :: bool
  mi_used :: bool
  mi_next :: nat
  mi_prev :: nat

record small_mem =
  sm_items :: "nat \<Rightarrow> mem_item"
  sm_aligned :: nat
  sm_end :: nat
  sm_lfree :: nat
  sm_used :: nat
  sm_max :: nat

definition SIZEOF_STRUCT_MEM :: nat where "SIZEOF_STRUCT_MEM = 16"
definition MIN_SIZE :: nat where "MIN_SIZE = 12"
definition MIN_SIZE_ALIGNED :: nat where "MIN_SIZE_ALIGNED = 16"

definition sizeof_small_mem :: u32 where
  \<comment> \<open>\<open>struct rt_small_mem\<close>: an \<open>rt_memory\<close> (44 bytes), three pointers and a size\<close>
  "sizeof_small_mem = 60"

abbreviation upd_item :: "nat \<Rightarrow> (mem_item \<Rightarrow> mem_item) \<Rightarrow> small_mem \<Rightarrow> small_mem" where
  "upd_item p f m \<equiv> m\<lparr>sm_items := (sm_items m)(p := f (sm_items m p))\<rparr>"

definition plug_next :: "nat \<Rightarrow> small_mem \<Rightarrow> small_mem" where
  \<comment> \<open>the first half of \<open>plug_holes\<close>\<close>
  "plug_next mem m =
     (let nmem = mi_next (sm_items m mem) in
      if mem \<noteq> nmem \<and> \<not> mi_used (sm_items m nmem) \<and> nmem \<noteq> sm_end m then
        (let m = (if sm_lfree m = nmem then m\<lparr>sm_lfree := mem\<rparr> else m);
             m = upd_item nmem (\<lambda>x. x\<lparr>mi_pool := False, mi_used := False\<rparr>) m;
             m = upd_item mem (\<lambda>x. x\<lparr>mi_next := mi_next (sm_items m nmem)\<rparr>) m
         in upd_item (mi_next (sm_items m nmem)) (\<lambda>x. x\<lparr>mi_prev := mem\<rparr>) m)
      else m)"

definition plug_prev :: "nat \<Rightarrow> small_mem \<Rightarrow> small_mem" where
  "plug_prev mem m =
     (let pmem = mi_prev (sm_items m mem) in
      if pmem \<noteq> mem \<and> \<not> mi_used (sm_items m pmem) then
        (let m = (if sm_lfree m = mem then m\<lparr>sm_lfree := pmem\<rparr> else m);
             m = upd_item mem (\<lambda>x. x\<lparr>mi_pool := False, mi_used := False\<rparr>) m;
             m = upd_item pmem (\<lambda>x. x\<lparr>mi_next := mi_next (sm_items m mem)\<rparr>) m
         in upd_item (mi_next (sm_items m mem)) (\<lambda>x. x\<lparr>mi_prev := pmem\<rparr>) m)
      else m)"

definition plug_holes :: "nat \<Rightarrow> small_mem \<Rightarrow> small_mem option" where
  "plug_holes mem m = do {
     rt_assert (mem < sm_end m);
     Some (plug_prev mem (plug_next mem m))
   }"

definition rt_smem_init :: "u32 \<Rightarrow> u32 \<Rightarrow> (nat \<Rightarrow> mem_item) \<Rightarrow> (u32 \<times> small_mem) option" where
  \<comment> \<open>\<open>None\<close>: the area is too small. \<open>mem\<close> is what the area held before; the first result is \<open>heap_ptr\<close>\<close>
  "rt_smem_init begin_addr sz mem =
     (let small = RT_ALIGN begin_addr RT_ALIGN_SIZE;
          start_addr = small + sizeof_small_mem;
          begin_align = RT_ALIGN start_addr RT_ALIGN_SIZE;
          end_align = RT_ALIGN_DOWN (begin_addr + sz) RT_ALIGN_SIZE
      in if end_align > of_nat (2 * SIZEOF_STRUCT_MEM) \<and> end_align - of_nat (2 * SIZEOF_STRUCT_MEM) \<ge> start_addr then
        (let mem_size = unat (end_align - begin_align - of_nat (2 * SIZEOF_STRUCT_MEM));
             e = mem_size + SIZEOF_STRUCT_MEM
         in Some (begin_align, \<lparr>sm_items = mem(0 := \<lparr>mi_pool = True, mi_used = False, mi_next = e, mi_prev = 0\<rparr>,
                                 e := \<lparr>mi_pool = True, mi_used = True, mi_next = e, mi_prev = e\<rparr>),
                    sm_aligned = mem_size, sm_end = e, sm_lfree = 0, sm_used = 0, sm_max = 0\<rparr>))
      else None)"

subsection \<open>Allocation\<close>

definition item_fits :: "nat \<Rightarrow> nat \<Rightarrow> small_mem \<Rightarrow> bool" where
  "item_fits n ptr m \<longleftrightarrow> \<not> mi_used (sm_items m ptr) \<and> mi_next (sm_items m ptr) - (ptr + SIZEOF_STRUCT_MEM) \<ge> n"

partial_function (option) find_fit :: "nat \<Rightarrow> nat \<Rightarrow> small_mem \<Rightarrow> nat option option" where
  \<comment> \<open>the loop of \<open>rt_smem_alloc\<close>, from \<open>ptr\<close> on\<close>
  "find_fit n ptr m =
     (if ptr \<le> sm_aligned m - n then
        (if item_fits n ptr m then Some (Some ptr) else find_fit n (mi_next (sm_items m ptr)) m)
      else Some None)"

partial_function (option) next_free :: "nat \<Rightarrow> small_mem \<Rightarrow> nat option" where
  \<comment> \<open>the loop that moves \<open>lfree\<close> on\<close>
  "next_free lf m =
     (if mi_used (sm_items m lf) \<and> lf \<noteq> sm_end m then next_free (mi_next (sm_items m lf)) m else Some lf)"

definition count_used :: "nat \<Rightarrow> small_mem \<Rightarrow> small_mem" where
  "count_used n m =
     (let m = m\<lparr>sm_used := sm_used m + n\<rparr> in if sm_max m < sm_used m then m\<lparr>sm_max := sm_used m\<rparr> else m)"

definition split_item :: "nat \<Rightarrow> nat \<Rightarrow> small_mem \<Rightarrow> small_mem" where
  \<comment> \<open>a new free item behind the first \<open>n\<close> bytes of item \<open>ptr\<close>\<close>
  "split_item ptr n m =
     (let ptr2 = ptr + SIZEOF_STRUCT_MEM + n;
          m = upd_item ptr2 (\<lambda>x. x\<lparr>mi_pool := True, mi_used := False\<rparr>) m;
          m = upd_item ptr2 (\<lambda>x. x\<lparr>mi_next := mi_next (sm_items m ptr)\<rparr>) m;
          m = upd_item ptr2 (\<lambda>x. x\<lparr>mi_prev := ptr\<rparr>) m;
          m = upd_item ptr (\<lambda>x. x\<lparr>mi_next := ptr2\<rparr>) m
      in if mi_next (sm_items m ptr2) \<noteq> sm_aligned m + SIZEOF_STRUCT_MEM
         then upd_item (mi_next (sm_items m ptr2)) (\<lambda>x. x\<lparr>mi_prev := ptr2\<rparr>) m else m)"

definition take_item :: "nat \<Rightarrow> nat \<Rightarrow> small_mem \<Rightarrow> (nat option \<times> small_mem) option" where
  \<comment> \<open>the body of the loop for the item that fits\<close>
  "take_item ptr n m = do {
     let m = (if mi_next (sm_items m ptr) - (ptr + SIZEOF_STRUCT_MEM) \<ge> n + SIZEOF_STRUCT_MEM + MIN_SIZE_ALIGNED
              then count_used (n + SIZEOF_STRUCT_MEM) (split_item ptr n m)
              else count_used (mi_next (sm_items m ptr) - ptr) m);
     let m = upd_item ptr (\<lambda>x. x\<lparr>mi_pool := True, mi_used := True\<rparr>) m;
     m \<leftarrow> (if ptr = sm_lfree m then do {
              lf \<leftarrow> next_free (sm_lfree m) m;
              rt_assert (lf = sm_end m \<or> \<not> mi_used (sm_items m lf));
              Some (m\<lparr>sm_lfree := lf\<rparr>)
            } else Some m);
     rt_assert (ptr + SIZEOF_STRUCT_MEM + n \<le> sm_end m);
     rt_assert ((ptr + SIZEOF_STRUCT_MEM) mod 8 = 0);
     rt_assert (ptr mod 8 = 0);
     Some (Some (ptr + SIZEOF_STRUCT_MEM), m)
   }"

definition request_size :: "u32 \<Rightarrow> nat" where
  \<comment> \<open>the rounded size; the rounding is on 32 bit\<close>
  "request_size sz =
     (let n = unat (RT_ALIGN sz RT_ALIGN_SIZE) in if n < MIN_SIZE_ALIGNED then MIN_SIZE_ALIGNED else n)"

definition rt_smem_alloc :: "u32 \<Rightarrow> small_mem \<Rightarrow> (nat option \<times> small_mem) option" where
  "rt_smem_alloc sz m =
     (if sz = 0 then Some (None, m)
      else let n = request_size sz in
        if n > sm_aligned m then Some (None, m)
        else do {
          r \<leftarrow> find_fit n (sm_lfree m) m;
          case r of None \<Rightarrow> Some (None, m) | Some ptr \<Rightarrow> take_item ptr n m
        })"

subsection \<open>Release and resizing\<close>

definition rt_smem_free :: "nat option \<Rightarrow> small_mem \<Rightarrow> small_mem option" where
  \<comment> \<open>a block is named by the offset of its data\<close>
  "rt_smem_free rmem m =
     (case rmem of
        None \<Rightarrow> Some m
      | Some r \<Rightarrow> do {
          rt_assert (r mod 8 = 0);
          rt_assert (r \<ge> SIZEOF_STRUCT_MEM);
          let mem = r - SIZEOF_STRUCT_MEM;
          rt_assert (mi_pool (sm_items m mem));
          rt_assert (mi_used (sm_items m mem));
          rt_assert (r < sm_end m);
          rt_assert (mi_pool (sm_items m (mi_next (sm_items m mem))));
          let m = upd_item mem (\<lambda>x. x\<lparr>mi_pool := True, mi_used := False\<rparr>) m;
          let m = (if mem < sm_lfree m then m\<lparr>sm_lfree := mem\<rparr> else m);
          let m = m\<lparr>sm_used := sm_used m - (mi_next (sm_items m mem) - mem)\<rparr>;
          plug_holes mem m
        })"

definition rt_smem_realloc :: "nat option \<Rightarrow> u32 \<Rightarrow> small_mem \<Rightarrow> (nat option \<times> small_mem) option" where
  "rt_smem_realloc rmem newsize m =
     (let n = unat (RT_ALIGN newsize RT_ALIGN_SIZE) in
      if n > sm_aligned m then Some (None, m)
      else if n = 0 then do {
        m \<leftarrow> rt_smem_free rmem m;
        Some (None, m)
      } else
        (case rmem of
           None \<Rightarrow> rt_smem_alloc (of_nat n) m
         | Some r \<Rightarrow> do {
             rt_assert (r mod 8 = 0);
             rt_assert (r < sm_end m);
             rt_assert (r \<ge> SIZEOF_STRUCT_MEM);
             let ptr = r - SIZEOF_STRUCT_MEM;
             let sz = mi_next (sm_items m ptr) - ptr - SIZEOF_STRUCT_MEM;
             if sz = n then Some (Some r, m)
             else if n + SIZEOF_STRUCT_MEM + MIN_SIZE < sz then do {
               let m = m\<lparr>sm_used := sm_used m - (sz - n)\<rparr>;
               let ptr2 = ptr + SIZEOF_STRUCT_MEM + n;
               let m = split_item ptr n m;
               let m = (if ptr2 < sm_lfree m then m\<lparr>sm_lfree := ptr2\<rparr> else m);
               m \<leftarrow> plug_holes ptr2 m;
               Some (Some r, m)
             } else do {
               (nmem, m) \<leftarrow> rt_smem_alloc (of_nat n) m;
               (case nmem of
                  None \<Rightarrow> Some (None, m)
                | Some _ \<Rightarrow> do {
                    m \<leftarrow> rt_smem_free rmem m;
                    Some (nmem, m)
                  })
             }
           }))"

end
