(* ===== verification/SmallMemRep.thy ===== *)
theory SmallMemRep
  imports SmallMem
begin

text \<open>
  The heap as a list of blocks, in order of their addresses: a block is its size, header included, and whether it is used.
  \<open>hrep\<close> says that the linked items in memory are such a list; the lemmas say what the updates of the allocator do to it.
\<close>

type_synonym blocks = "(nat \<times> bool) list"

definition total_size :: "blocks \<Rightarrow> nat" where
  "total_size bs = sum_list (map fst bs)"

lemma total_size_simps [simp]: "total_size [] = 0" "total_size (b # bs) = fst b + total_size bs" "total_size (xs @ ys) = total_size xs + total_size ys"
  by (simp_all add: total_size_def)

definition block_ok :: "nat \<Rightarrow> bool \<Rightarrow> bool" where
  "block_ok sz u \<longleftrightarrow> 16 \<le> sz \<and> (u \<longrightarrow> 24 \<le> sz) \<and> 8 dvd sz"

fun hrep :: "(nat \<Rightarrow> mem_item) \<Rightarrow> nat \<Rightarrow> nat \<Rightarrow> blocks \<Rightarrow> nat \<Rightarrow> bool" where
  \<comment> \<open>from offset \<open>off\<close>, behind the item at \<open>pv\<close>, the items are the blocks, up to \<open>e\<close>\<close>
  "hrep it pv off [] e \<longleftrightarrow> off = e"
| "hrep it pv off ((sz, u) # bs) e \<longleftrightarrow>
     it off = \<lparr>mi_pool = True, mi_used = u, mi_next = off + sz, mi_prev = pv\<rparr> \<and> block_ok sz u \<and> hrep it off (off + sz) bs e"

fun last_off :: "nat \<Rightarrow> nat \<Rightarrow> blocks \<Rightarrow> nat" where
  "last_off pv off [] = pv"
| "last_off pv off (b # bs) = last_off off (off + fst b) bs"

lemma last_off_snoc [simp]: "last_off pv off (xs @ [b]) = off + total_size xs"
  by (induction xs arbitrary: pv off) (auto simp: add.assoc)

lemma hrep_append:
  "hrep it pv off (xs @ ys) e \<longleftrightarrow> hrep it pv off xs (off + total_size xs) \<and> hrep it (last_off pv off xs) (off + total_size xs) ys e"
  by (induction xs arbitrary: pv off) (auto simp: add.assoc)

lemma hrep_end: "hrep it pv off bs e \<Longrightarrow> e = off + total_size bs"
proof (induction bs arbitrary: pv off)
  case (Cons b bs)
  then show ?case using Cons.IH [of off "off + fst b"] by (cases b) simp
qed simp

lemma hrep_cong:
  "hrep it pv off bs e \<Longrightarrow> (\<And>x. off \<le> x \<Longrightarrow> x < e \<Longrightarrow> it' x = it x) \<Longrightarrow> hrep it' pv off bs e"
proof (induction bs arbitrary: pv off)
  case (Cons b bs)
  obtain sz u where b: "b = (sz, u)" by force
  have e: "e = off + sz + total_size bs" using hrep_end [OF Cons.prems(1)] b by simp
  have "16 \<le> sz" using Cons.prems(1) b by (simp add: block_ok_def)
  then have "it' off = it off" using Cons.prems(2) [of off] e by simp
  moreover have "hrep it' off (off + sz) bs e"
  proof (rule Cons.IH)
    show "hrep it off (off + sz) bs e" using Cons.prems(1) b by simp
    fix x
    assume "off + sz \<le> x" and "x < e"
    then show "it' x = it x" using Cons.prems(2) [of x] by simp
  qed
  ultimately show ?case using Cons.prems(1) b by simp
qed simp

lemma hrep_reprev:
  "hrep it pv off bs e \<Longrightarrow> hrep (it(off := (it off)\<lparr>mi_prev := pv'\<rparr>)) pv' off bs e"
proof (cases bs)
  case (Cons b bs')
  assume h: "hrep it pv off bs e"
  obtain sz u where b: "b = (sz, u)" by force
  have sz: "16 \<le> sz" using h Cons b by (simp add: block_ok_def)
  have "hrep it off (off + sz) bs' e" using h Cons b by simp
  then have "hrep (it(off := (it off)\<lparr>mi_prev := pv'\<rparr>)) off (off + sz) bs' e"
    by (rule hrep_cong) (use sz in simp)
  then show ?thesis using h Cons b by simp
qed simp

lemma hrep_replace:
  assumes h: "hrep it pv off (xs @ ms @ ys) e"
    and lo: "\<And>x. x < off + total_size xs \<Longrightarrow> it' x = it x" and hi: "\<And>x. off + total_size xs + total_size ms < x \<Longrightarrow> it' x = it x"
    and z: "hrep it' (last_off pv off xs) (off + total_size xs) zs (off + total_size xs + total_size ms)"
    and q: "ys \<noteq> [] \<Longrightarrow> it' (off + total_size xs + total_size ms) =
        (it (off + total_size xs + total_size ms))\<lparr>mi_prev := last_off (last_off pv off xs) (off + total_size xs) zs\<rparr>"
  shows "hrep it' pv off (xs @ zs @ ys) e"
proof -
  let ?p = "off + total_size xs" and ?q = "off + total_size xs + total_size ms"
  have 1: "hrep it pv off xs ?p" and 2: "hrep it (last_off (last_off pv off xs) ?p ms) ?q ys e"
    using h by (simp_all add: hrep_append add.assoc)
  have tz: "total_size zs = total_size ms" using hrep_end [OF z] by simp
  have "hrep it' pv off xs ?p" by (rule hrep_cong [OF 1]) (use lo in auto)
  moreover have "hrep it' (last_off (last_off pv off xs) ?p zs) ?q ys e"
  proof (cases "ys = []")
    case True
    then show ?thesis using 2 by simp
  next
    case False
    show ?thesis
      by (rule hrep_cong [OF hrep_reprev [OF 2]]) (use q [OF False] hi in \<open>auto simp: le_less\<close>)
  qed
  ultimately show ?thesis using z tz by (simp add: hrep_append add.assoc)
qed

subsection \<open>The representation\<close>

fun first_free :: "nat \<Rightarrow> blocks \<Rightarrow> nat" where
  "first_free off [] = off"
| "first_free off ((sz, u) # bs) = (if u then first_free (off + sz) bs else off)"

definition used_size :: "blocks \<Rightarrow> nat" where
  "used_size bs = sum_list (map fst (filter snd bs))"

lemma used_size_simps [simp]:
  "used_size [] = 0" "used_size ((sz, u) # bs) = (if u then sz + used_size bs else used_size bs)"
  "used_size (xs @ ys) = used_size xs + used_size ys"
  by (simp_all add: used_size_def)

abbreviation coalesced :: "blocks \<Rightarrow> bool" where
  \<comment> \<open>no free block follows a free one\<close>
  "coalesced bs \<equiv> successively (\<lambda>a b. snd a \<or> snd b) bs"

definition links_ok :: "small_mem \<Rightarrow> blocks \<Rightarrow> bool" where
  "links_ok m bs \<longleftrightarrow> hrep (sm_items m) 0 0 bs (sm_end m) \<and> sm_end m = sm_aligned m + 16 \<and>
     mi_used (sm_items m (sm_end m)) \<and> mi_pool (sm_items m (sm_end m))"

definition sm_rep :: "small_mem \<Rightarrow> blocks \<Rightarrow> bool" where
  "sm_rep m bs \<longleftrightarrow> links_ok m bs \<and> sm_lfree m = first_free 0 bs \<and> sm_used m = used_size bs \<and> coalesced bs"

lemma first_free_append:
  "first_free off (xs @ ys) = (if \<forall>b \<in> set xs. snd b then first_free (off + total_size xs) ys else first_free off xs)"
proof (induction xs arbitrary: off)
  case (Cons b xs)
  show ?case using Cons.IH [of "off + fst b"] by (cases b) (auto simp: add.assoc)
qed simp

lemma first_free_lt: "\<not> (\<forall>b \<in> set xs. snd b) \<Longrightarrow> \<forall>b \<in> set xs. 0 < fst b \<Longrightarrow> first_free off xs < off + total_size xs"
proof (induction xs arbitrary: off)
  case (Cons b xs)
  obtain sz u where b: "b = (sz, u)" by force
  show ?case
  proof (cases u)
    case True
    then have "first_free (off + sz) xs < off + sz + total_size xs" using Cons b by (intro Cons.IH) auto
    then show ?thesis using True b by (simp add: add.assoc)
  qed (use Cons.prems b in simp)
qed simp

lemma first_free_le: "first_free off bs \<le> off + total_size bs"
proof (induction bs arbitrary: off)
  case (Cons b bs)
  show ?case using Cons.IH [of "off + fst b"] by (cases b) (simp add: add.assoc)
qed simp

lemma first_free_ge: "off \<le> first_free off bs"
proof (induction bs arbitrary: off)
  case (Cons b bs)
  show ?case using Cons.IH [of "off + fst b"] by (cases b) simp
qed simp

lemma hrep_pos: "hrep it pv off bs e \<Longrightarrow> b \<in> set bs \<Longrightarrow> 16 \<le> fst b \<and> 8 dvd fst b"
  by (induction bs arbitrary: pv off) (auto simp: block_ok_def)

lemma hrep_dvd: "hrep it pv off bs e \<Longrightarrow> 8 dvd total_size bs"
  by (induction bs arbitrary: pv off) (auto simp: block_ok_def)

lemma hrep_block:
  assumes "hrep it pv off (xs @ (sz, u) # ys) e"
  shows "it (off + total_size xs) = \<lparr>mi_pool = True, mi_used = u, mi_next = off + total_size xs + sz, mi_prev = last_off pv off xs\<rparr>"
    and "block_ok sz u" and "e = off + total_size xs + sz + total_size ys"
  using assms hrep_end [OF assms] by (auto simp: hrep_append)

subsection \<open>The loops\<close>

fun fit_off :: "nat \<Rightarrow> nat \<Rightarrow> blocks \<Rightarrow> nat option" where
  \<comment> \<open>first fit\<close>
  "fit_off n off [] = None"
| "fit_off n off ((sz, u) # bs) = (if \<not> u \<and> n + 16 \<le> sz then Some off else fit_off n (off + sz) bs)"

lemma fit_off_None: "total_size bs < n + 16 \<Longrightarrow> fit_off n off bs = None"
  by (induction bs arbitrary: off) auto

lemma fit_off_NoneD: "fit_off n off bs = None \<Longrightarrow> (sz, False) \<in> set bs \<Longrightarrow> sz < n + 16"
  by (induction n off bs rule: fit_off.induct) (auto split: if_splits)

lemma fit_off_SomeD:
  "fit_off n off bs = Some p \<Longrightarrow>
   \<exists>xs sz ys. bs = xs @ (sz, False) # ys \<and> p = off + total_size xs \<and> n + 16 \<le> sz \<and> (\<forall>z. (z, False) \<in> set xs \<longrightarrow> z < n + 16)"
proof (induction n off bs rule: fit_off.induct)
  case (2 n off sz u bs)
  show ?case
  proof (cases "\<not> u \<and> n + 16 \<le> sz")
    case True
    then show ?thesis using 2(2) by (intro exI [of _ "[]"]) auto
  next
    case False
    have "fit_off n (off + sz) bs = Some p" using 2(2) False by (simp only: fit_off.simps if_False)
    from 2(1) [OF False this] obtain xs sz' ys where
      "bs = xs @ (sz', False) # ys" "p = off + sz + total_size xs" "n + 16 \<le> sz'" "\<forall>z. (z, False) \<in> set xs \<longrightarrow> z < n + 16" by blast
    then show ?thesis using False by (intro exI [of _ "(sz, u) # xs"]) auto
  qed
qed simp

lemma fit_off_used_prefix: "\<forall>b \<in> set xs. snd b \<Longrightarrow> fit_off n off (xs @ ys) = fit_off n (off + total_size xs) ys"
  by (induction xs arbitrary: off) (auto simp: add.assoc)

lemma find_fit_run:
  "hrep (sm_items m) pv off bs (sm_end m) \<Longrightarrow> sm_end m = sm_aligned m + 16 \<Longrightarrow> n \<le> sm_aligned m \<Longrightarrow>
   find_fit n off m = Some (fit_off n off bs)"
proof (induction bs arbitrary: pv off)
  case Nil
  then have "\<not> off \<le> sm_aligned m - n" by simp
  then show ?case by (subst find_fit.simps) simp
next
  case (Cons b bs)
  obtain sz u where b: "b = (sz, u)" by force
  have it: "sm_items m off = \<lparr>mi_pool = True, mi_used = u, mi_next = off + sz, mi_prev = pv\<rparr>" and sz: "16 \<le> sz"
    and r: "hrep (sm_items m) off (off + sz) bs (sm_end m)" using Cons.prems(1) b by (auto simp: block_ok_def)
  have e: "sm_end m = off + sz + total_size bs" using hrep_end [OF Cons.prems(1)] b by simp
  show ?case
  proof (cases "off \<le> sm_aligned m - n")
    case True
    have "item_fits n off m \<longleftrightarrow> \<not> u \<and> n + 16 \<le> sz" using it sz by (auto simp: item_fits_def SIZEOF_STRUCT_MEM_def)
    then show ?thesis using True Cons.IH [OF r Cons.prems(2,3)] it b by (subst find_fit.simps) simp
  next
    case False
    then have "total_size (b # bs) < n + 16" using e Cons.prems(2,3) b by simp
    then show ?thesis using False fit_off_None by (subst find_fit.simps) simp
  qed
qed

lemma next_free_run:
  "hrep (sm_items m) pv off bs (sm_end m) \<Longrightarrow> next_free off m = Some (first_free off bs)"
proof (induction bs arbitrary: pv off)
  case Nil
  then show ?case by (subst next_free.simps) simp
next
  case (Cons b bs)
  obtain sz u where b: "b = (sz, u)" by force
  have it: "sm_items m off = \<lparr>mi_pool = True, mi_used = u, mi_next = off + sz, mi_prev = pv\<rparr>" and sz: "16 \<le> sz"
    and r: "hrep (sm_items m) off (off + sz) bs (sm_end m)" using Cons.prems(1) b by (auto simp: block_ok_def)
  have "off \<noteq> sm_end m" using hrep_end [OF Cons.prems(1)] b sz by simp
  then show ?case using it b Cons.IH [OF r] by (subst next_free.simps) simp
qed

end
