(* ===== verification/SmallMemSteps.thy ===== *)
theory SmallMemSteps
  imports SmallMemRep
begin

text \<open>
  What the steps of the small-memory allocator do to the list of blocks: marking an item, splitting it, merging it with its
  neighbours, taking it.
\<close>

lemmas item_defs = SIZEOF_STRUCT_MEM_def MIN_SIZE_def MIN_SIZE_ALIGNED_def

lemma links_okD:
  assumes "links_ok m (xs @ (sz, u) # ys)"
  shows "sm_items m (total_size xs) = \<lparr>mi_pool = True, mi_used = u, mi_next = total_size xs + sz, mi_prev = last_off 0 0 xs\<rparr>"
    and "block_ok sz u" and "sm_end m = total_size xs + sz + total_size ys" and "sm_end m = sm_aligned m + 16"
    and "16 \<le> sz" and "8 dvd sz" and "8 dvd total_size xs"
proof -
  have h: "hrep (sm_items m) 0 0 (xs @ (sz, u) # ys) (sm_end m)" using assms unfolding links_ok_def by blast
  note b = hrep_block [OF h]
  show "sm_items m (total_size xs) = \<lparr>mi_pool = True, mi_used = u, mi_next = total_size xs + sz, mi_prev = last_off 0 0 xs\<rparr>"
    and "block_ok sz u" and "sm_end m = total_size xs + sz + total_size ys" using b by simp_all
  show "sm_end m = sm_aligned m + 16" using assms by (simp add: links_ok_def)
  show "16 \<le> sz" and "8 dvd sz" using b(2) by (simp_all add: block_ok_def)
  show "8 dvd total_size xs" using h by (auto simp: hrep_append intro: hrep_dvd)
qed

lemma links_ok_pos:
  assumes "links_ok m (xs @ ys)"
  shows "\<forall>b \<in> set xs. 0 < fst b"
proof
  fix b
  assume b: "b \<in> set xs"
  have "hrep (sm_items m) 0 0 (xs @ ys) (sm_end m)" using assms unfolding links_ok_def by blast
  from hrep_pos [OF this, of b] b show "0 < fst b" by simp
qed

lemma links_ok_step:
  \<comment> \<open>an update of the items of the block in the middle\<close>
  assumes l: "links_ok m (xs @ ms @ ys)" and m': "sm_end m' = sm_end m" "sm_aligned m' = sm_aligned m"
    and lo: "\<And>x. x < total_size xs \<Longrightarrow> sm_items m' x = sm_items m x"
    and hi: "\<And>x. total_size xs + total_size ms < x \<Longrightarrow> sm_items m' x = sm_items m x"
    and z: "hrep (sm_items m') (last_off 0 0 xs) (total_size xs) zs (total_size xs + total_size ms)"
    and q: "ys \<noteq> [] \<Longrightarrow> sm_items m' (total_size xs + total_size ms) =
        (sm_items m (total_size xs + total_size ms))\<lparr>mi_prev := last_off (last_off 0 0 xs) (total_size xs) zs\<rparr>"
    and e: "ys = [] \<Longrightarrow> mi_used (sm_items m' (total_size xs + total_size ms)) = mi_used (sm_items m (total_size xs + total_size ms)) \<and>
        mi_pool (sm_items m' (total_size xs + total_size ms)) = mi_pool (sm_items m (total_size xs + total_size ms))"
  shows "links_ok m' (xs @ zs @ ys)"
proof -
  have h: "hrep (sm_items m) 0 0 (xs @ ms @ ys) (sm_end m)" using l unfolding links_ok_def by blast
  have "hrep (sm_items m') 0 0 (xs @ zs @ ys) (sm_end m)"
    by (rule hrep_replace [OF h]) (use lo hi z q in auto)
  moreover have "mi_used (sm_items m' (sm_end m)) \<and> mi_pool (sm_items m' (sm_end m))"
  proof (cases "ys = []")
    case True
    then have "sm_end m = total_size xs + total_size ms" using hrep_end [OF h] by simp
    then show ?thesis using e [OF True] l unfolding links_ok_def by metis
  next
    case False
    then obtain sz u ys' where ys: "ys = (sz, u) # ys'" by (cases ys) auto
    have "hrep (sm_items m) (last_off 0 0 (xs @ ms)) (total_size (xs @ ms)) ys (sm_end m)"
      using h hrep_append [of "sm_items m" 0 0 "xs @ ms" ys] by simp
    then have "16 \<le> sz" using ys by (simp add: block_ok_def)
    then have "total_size xs + total_size ms < sm_end m" using hrep_end [OF h] ys by simp
    then show ?thesis using hi [of "sm_end m"] l unfolding links_ok_def by metis
  qed
  ultimately show ?thesis using l m' by (simp add: links_ok_def)
qed

lemma last_off_single: "last_off pv off [b] = off"
  by simp

lemma mark_run:
  assumes l: "links_ok m (xs @ (sz, u) # ys)" and b: "block_ok sz u'"
  shows "links_ok (upd_item (total_size xs) (\<lambda>x. x\<lparr>mi_pool := True, mi_used := u'\<rparr>) m) (xs @ (sz, u') # ys)"
proof -
  note d = links_okD [OF l]
  have l': "links_ok m (xs @ [(sz, u)] @ ys)" using l by simp
  have n: "total_size xs + sz \<noteq> total_size xs" using d(5) by simp
  have "ys \<noteq> [] \<Longrightarrow> mi_prev (sm_items m (total_size xs + sz)) = total_size xs"
    using l by (cases ys) (auto simp: links_ok_def hrep_append)
  then have "links_ok (upd_item (total_size xs) (\<lambda>x. x\<lparr>mi_pool := True, mi_used := u'\<rparr>) m) (xs @ [(sz, u')] @ ys)"
    using n d(1) b by (intro links_ok_step [OF l']) simp_all
  then show ?thesis by simp
qed

lemma split_item_frame [simp]:
  "sm_aligned (split_item p n m) = sm_aligned m" "sm_end (split_item p n m) = sm_end m" "sm_lfree (split_item p n m) = sm_lfree m"
  "sm_used (split_item p n m) = sm_used m" "sm_max (split_item p n m) = sm_max m"
  by (simp_all add: split_item_def Let_def)

lemma split_run:
  assumes l: "links_ok m (xs @ (sz, u) # ys)" and n: "8 dvd n" "8 \<le> n" "n + 32 \<le> sz"
  shows "links_ok (split_item (total_size xs) n m) (xs @ (n + 16, u) # (sz - n - 16, False) # ys)"
proof -
  note d = links_okD [OF l]
  have l': "links_ok m (xs @ [(sz, u)] @ ys)" using l by simp
  have 1: "block_ok (n + 16) u" "block_ok (sz - n - 16) False" using d(6) n by (auto simp: block_ok_def dvd_diff_nat)
  have e: "total_size xs + sz = sm_aligned m + 16 \<longleftrightarrow> ys = []"
  proof (cases ys)
    case Nil
    then show ?thesis using d(3,4) by simp
  next
    case (Cons b ys')
    then obtain s2 u2 where b: "b = (s2, u2)" by force
    have "links_ok m ((xs @ [(sz, u)]) @ (s2, u2) # ys')" using l Cons b by simp
    from links_okD(5) [OF this] show ?thesis using d(3,4) Cons b by simp
  qed
  have n1: "total_size xs + 16 + n \<noteq> total_size xs" "total_size xs + sz \<noteq> total_size xs + 16 + n"
    "total_size xs + sz \<noteq> total_size xs" "total_size xs + 16 + n < total_size xs + sz"
    using n d(5) by simp_all
  have p: "sm_items (split_item (total_size xs) n m) (total_size xs) = (sm_items m (total_size xs))\<lparr>mi_next := total_size xs + 16 + n\<rparr>"
    "sm_items (split_item (total_size xs) n m) (total_size xs + 16 + n) =
       \<lparr>mi_pool = True, mi_used = False, mi_next = total_size xs + sz, mi_prev = total_size xs\<rparr>"
    "sm_items (split_item (total_size xs) n m) (total_size xs + sz) =
       (if ys = [] then sm_items m (total_size xs + sz) else (sm_items m (total_size xs + sz))\<lparr>mi_prev := total_size xs + 16 + n\<rparr>)"
    using n1 d(1) e by (simp_all add: split_item_def Let_def item_defs mem_item.equality)
  have o1: "sm_items (split_item (total_size xs) n m) x = sm_items m x"
    if "x \<noteq> total_size xs" "x \<noteq> total_size xs + 16 + n" "x \<noteq> total_size xs + sz" for x
    using that n1 d(1) e by (simp add: split_item_def Let_def item_defs)
  have "links_ok (split_item (total_size xs) n m) (xs @ [(n + 16, u), (sz - n - 16, False)] @ ys)"
  proof (rule links_ok_step [OF l'])
    show "hrep (sm_items (split_item (total_size xs) n m)) (last_off 0 0 xs) (total_size xs) [(n + 16, u), (sz - n - 16, False)]
      (total_size xs + total_size [(sz, u)])"
      using p(1,2) 1 d(1) n by (simp add: add.commute add.left_commute)
    show "sm_items (split_item (total_size xs) n m) x = sm_items m x" if "x < total_size xs" for x
      using that n1 by (intro o1) auto
    show "sm_items (split_item (total_size xs) n m) x = sm_items m x" if "total_size xs + total_size [(sz, u)] < x" for x
      using that n1 by (intro o1) auto
    show "sm_items (split_item (total_size xs) n m) (total_size xs + total_size [(sz, u)]) =
        (sm_items m (total_size xs + total_size [(sz, u)]))\<lparr>mi_prev := last_off (last_off 0 0 xs) (total_size xs) [(n + 16, u), (sz - n - 16, False)]\<rparr>"
      if "ys \<noteq> []" using that p(3) by (simp add: add.commute add.left_commute)
  qed (use p(3) in simp_all)
  then show ?thesis by simp
qed

subsection \<open>Merging\<close>

lemma plug_next_run:
  assumes l: "links_ok m (xs @ (sz, u) # (s2, False) # ys)"
  shows "links_ok (plug_next (total_size xs) m) (xs @ (sz + s2, u) # ys) \<and>
    sm_lfree (plug_next (total_size xs) m) = (if sm_lfree m = total_size xs + sz then total_size xs else sm_lfree m) \<and>
    sm_used (plug_next (total_size xs) m) = sm_used m \<and> sm_aligned (plug_next (total_size xs) m) = sm_aligned m \<and>
    sm_end (plug_next (total_size xs) m) = sm_end m"
proof -
  note d = links_okD [OF l]
  have l2: "links_ok m ((xs @ [(sz, u)]) @ (s2, False) # ys)" using l by simp
  note d2 = links_okD [OF l2, simplified]
  have l': "links_ok m (xs @ [(sz, u), (s2, False)] @ ys)" using l by simp
  have 1: "block_ok (sz + s2) u" using d(2) d2(2) by (auto simp: block_ok_def)
  have g: "plug_next (total_size xs) m = (let m = (if sm_lfree m = total_size xs + sz then m\<lparr>sm_lfree := total_size xs\<rparr> else m);
             m = upd_item (total_size xs + sz) (\<lambda>x. x\<lparr>mi_pool := False, mi_used := False\<rparr>) m;
             m = upd_item (total_size xs) (\<lambda>x. x\<lparr>mi_next := mi_next (sm_items m (total_size xs + sz))\<rparr>) m
         in upd_item (mi_next (sm_items m (total_size xs + sz))) (\<lambda>x. x\<lparr>mi_prev := total_size xs\<rparr>) m)"
    using d(1,3,5) d2(1,5) by (simp add: plug_next_def Let_def)
  let ?m = "plug_next (total_size xs) m"
  have n1: "total_size xs + sz \<noteq> total_size xs" "total_size xs + (sz + s2) \<noteq> total_size xs + sz" "total_size xs + (sz + s2) \<noteq> total_size xs"
    using d(5) d2(5) by simp_all
  have p: "sm_items ?m (total_size xs) = (sm_items m (total_size xs))\<lparr>mi_next := total_size xs + (sz + s2)\<rparr>"
    "sm_items ?m (total_size xs + (sz + s2)) = (sm_items m (total_size xs + (sz + s2)))\<lparr>mi_prev := total_size xs\<rparr>"
    unfolding g using n1 d2(1) by (simp_all add: Let_def add.assoc)
  have o1: "sm_items ?m x = sm_items m x" if "x \<noteq> total_size xs" "x \<noteq> total_size xs + sz" "x \<noteq> total_size xs + (sz + s2)" for x
    unfolding g using that n1 d2(1) by (simp add: Let_def add.assoc)
  have f: "sm_lfree ?m = (if sm_lfree m = total_size xs + sz then total_size xs else sm_lfree m)" "sm_used ?m = sm_used m"
    "sm_aligned ?m = sm_aligned m" "sm_end ?m = sm_end m"
    unfolding g by (simp_all add: Let_def)
  have "links_ok ?m (xs @ [(sz + s2, u)] @ ys)"
  proof (rule links_ok_step [OF l'])
    show "sm_items ?m x = sm_items m x" if "x < total_size xs" for x
      using that n1 by (intro o1) auto
    show "sm_items ?m x = sm_items m x" if "total_size xs + total_size [(sz, u), (s2, False)] < x" for x
      using that n1 by (intro o1) auto
  qed (use p f d(1) 1 in simp_all)
  then show ?thesis using f by simp
qed

lemma plug_next_idle:
  assumes l: "links_ok m (xs @ (sz, u) # ys)" and y: "ys = [] \<or> snd (hd ys)"
  shows "plug_next (total_size xs) m = m"
proof (cases ys)
  case Nil
  then show ?thesis using links_okD [OF l] by (simp add: plug_next_def Let_def)
next
  case (Cons b ys')
  then obtain s2 where "ys = (s2, True) # ys'" using y by (cases b) auto
  then have l2: "links_ok m ((xs @ [(sz, u)]) @ (s2, True) # ys')" using l by simp
  show ?thesis using links_okD(1) [OF l] links_okD(1) [OF l2] by (simp add: plug_next_def Let_def)
qed

lemma plug_prev_run:
  assumes l: "links_ok m (xs @ (s0, False) # (sz, False) # ys)"
  shows "links_ok (plug_prev (total_size xs + s0) m) (xs @ (s0 + sz, False) # ys) \<and>
    sm_lfree (plug_prev (total_size xs + s0) m) = (if sm_lfree m = total_size xs + s0 then total_size xs else sm_lfree m) \<and>
    sm_used (plug_prev (total_size xs + s0) m) = sm_used m \<and> sm_aligned (plug_prev (total_size xs + s0) m) = sm_aligned m \<and>
    sm_end (plug_prev (total_size xs + s0) m) = sm_end m"
proof -
  note d = links_okD [OF l]
  have l2: "links_ok m ((xs @ [(s0, False)]) @ (sz, False) # ys)" using l by simp
  note d2 = links_okD [OF l2, simplified]
  have l': "links_ok m (xs @ [(s0, False), (sz, False)] @ ys)" using l by simp
  have 1: "block_ok (s0 + sz) False" using d(2) d2(2) by (auto simp: block_ok_def)
  let ?m = "plug_prev (total_size xs + s0) m"
  have g: "?m = (let m = (if sm_lfree m = total_size xs + s0 then m\<lparr>sm_lfree := total_size xs\<rparr> else m);
             m = upd_item (total_size xs + s0) (\<lambda>x. x\<lparr>mi_pool := False, mi_used := False\<rparr>) m;
             m = upd_item (total_size xs) (\<lambda>x. x\<lparr>mi_next := mi_next (sm_items m (total_size xs + s0))\<rparr>) m
         in upd_item (mi_next (sm_items m (total_size xs + s0))) (\<lambda>x. x\<lparr>mi_prev := total_size xs\<rparr>) m)"
    using d(1,5) d2(1) by (simp add: plug_prev_def Let_def)
  have n1: "total_size xs + s0 \<noteq> total_size xs" "total_size xs + (s0 + sz) \<noteq> total_size xs + s0" "total_size xs + (s0 + sz) \<noteq> total_size xs"
    using d(5) d2(5) by simp_all
  have p: "sm_items ?m (total_size xs) = (sm_items m (total_size xs))\<lparr>mi_next := total_size xs + (s0 + sz)\<rparr>"
    "sm_items ?m (total_size xs + (s0 + sz)) = (sm_items m (total_size xs + (s0 + sz)))\<lparr>mi_prev := total_size xs\<rparr>"
    unfolding g using n1 d2(1) by (simp_all add: Let_def add.assoc)
  have o1: "sm_items ?m x = sm_items m x" if "x \<noteq> total_size xs" "x \<noteq> total_size xs + s0" "x \<noteq> total_size xs + (s0 + sz)" for x
    unfolding g using that n1 d2(1) by (simp add: Let_def add.assoc)
  have f: "sm_lfree ?m = (if sm_lfree m = total_size xs + s0 then total_size xs else sm_lfree m)" "sm_used ?m = sm_used m"
    "sm_aligned ?m = sm_aligned m" "sm_end ?m = sm_end m"
    unfolding g by (simp_all add: Let_def)
  have "links_ok ?m (xs @ [(s0 + sz, False)] @ ys)"
  proof (rule links_ok_step [OF l'])
    show "sm_items ?m x = sm_items m x" if "x < total_size xs" for x
      using that n1 by (intro o1) auto
    show "sm_items ?m x = sm_items m x" if "total_size xs + total_size [(s0, False), (sz, False)] < x" for x
      using that n1 by (intro o1) auto
  qed (use p f d(1) 1 in simp_all)
  then show ?thesis using f by simp
qed

lemma plug_prev_idle:
  assumes l: "links_ok m (xs @ (sz, u) # ys)" and x: "xs = [] \<or> snd (last xs)"
  shows "plug_prev (total_size xs) m = m"
proof (cases xs rule: rev_cases)
  case Nil
  then show ?thesis using links_okD(1) [OF l] by (simp add: plug_prev_def Let_def)
next
  case (snoc xs' b)
  then obtain s0 where s: "xs = xs' @ [(s0, True)]" using x by (cases b) auto
  then have l2: "links_ok m (xs' @ (s0, True) # (sz, u) # ys)" using l by simp
  show ?thesis using links_okD(1) [OF l] links_okD(1) [OF l2] s by (simp add: plug_prev_def Let_def)
qed

end
