(* ===== verification/SmallMemOps.thy ===== *)
theory SmallMemOps
  imports SmallMemSteps
begin

text \<open>
  Allocation and release on the heap. \<open>rt_smem_alloc\<close> is first fit, splitting the block when the rest can hold a block;
  \<open>rt_smem_free\<close> marks the block free and leaves no two free neighbours.
\<close>

definition place :: "nat \<Rightarrow> nat \<Rightarrow> blocks" where
  "place n k = (if n + 48 \<le> k then [(n + 16, True), (k - n - 16, False)] else [(k, True)])"

fun join :: "blocks \<Rightarrow> blocks" where
  "join ((a, False) # (b, False) # bs) = join ((a + b, False) # bs)"
| "join (b # bs) = b # join bs"
| "join [] = []"

lemma count_used_frame [simp]:
  "sm_items (count_used n m) = sm_items m" "sm_aligned (count_used n m) = sm_aligned m" "sm_end (count_used n m) = sm_end m"
  "sm_lfree (count_used n m) = sm_lfree m" "sm_used (count_used n m) = sm_used m + n"
  by (simp_all add: count_used_def Let_def)

lemma links_ok_cong:
  "sm_items m' = sm_items m \<Longrightarrow> sm_aligned m' = sm_aligned m \<Longrightarrow> sm_end m' = sm_end m \<Longrightarrow> links_ok m' bs = links_ok m bs"
  by (simp add: links_ok_def)

lemma total_place: "n + 16 \<le> k \<Longrightarrow> total_size (place n k) = k"
  by (simp add: place_def)

lemma coalesced_place:
  assumes "coalesced (xs @ (k, False) # ys)"
  shows "coalesced (xs @ place n k @ ys)"
proof -
  have y: "ys = [] \<or> snd (hd ys)" "coalesced ys" "coalesced xs"
    using assms by (auto simp: successively_append_iff successively_Cons)
  then show ?thesis by (auto simp: place_def successively_append_iff successively_Cons)
qed

lemma take_item_first:
  \<comment> \<open>the item is split or taken whole\<close>
  assumes l: "links_ok m (xs @ (k, False) # ys)" and n: "n + 16 \<le> k" "8 dvd n" "16 \<le> n"
  defines "m1 \<equiv> (if k - 16 \<ge> n + 16 + 16
              then count_used (n + 16) (split_item (total_size xs) n m)
              else count_used k m)"
  shows "links_ok (upd_item (total_size xs) (\<lambda>x. x\<lparr>mi_pool := True, mi_used := True\<rparr>) m1) (xs @ place n k @ ys)"
    and "sm_used m1 = sm_used m + used_size (place n k)" and "sm_lfree m1 = sm_lfree m"
    and "sm_aligned m1 = sm_aligned m" and "sm_end m1 = sm_end m"
proof -
  have c: "k - 16 \<ge> n + 16 + 16 \<longleftrightarrow> n + 48 \<le> k" by auto
  have k: "block_ok k False" by (rule links_okD [OF l])
  show "links_ok (upd_item (total_size xs) (\<lambda>x. x\<lparr>mi_pool := True, mi_used := True\<rparr>) m1) (xs @ place n k @ ys)"
  proof (cases "n + 48 \<le> k")
    case True
    have "links_ok (split_item (total_size xs) n m) (xs @ (n + 16, False) # (k - n - 16, False) # ys)"
      by (rule split_run [OF l]) (use n True in auto)
    then have "links_ok m1 (xs @ (n + 16, False) # (k - n - 16, False) # ys)"
      using True c by (simp add: m1_def links_ok_cong [of "count_used _ _"])
    from mark_run [OF this, of True] show ?thesis using True n by (simp add: place_def block_ok_def)
  next
    case False
    then have "links_ok m1 (xs @ (k, False) # ys)"
      using l c by (simp add: m1_def links_ok_cong [of "count_used _ _"])
    from mark_run [OF this, of True] show ?thesis using False n k by (simp add: place_def block_ok_def)
  qed
  show "sm_used m1 = sm_used m + used_size (place n k)" using c by (auto simp: m1_def place_def)
  show "sm_lfree m1 = sm_lfree m" "sm_aligned m1 = sm_aligned m" "sm_end m1 = sm_end m" by (simp_all add: m1_def)
qed

lemma next_free_suffix:
  assumes l: "links_ok m (xs @ zs)" and u: "\<forall>b \<in> set xs. snd b"
  shows "next_free (total_size xs) m = Some (first_free 0 (xs @ zs))"
proof -
  have "hrep (sm_items m) (last_off 0 0 xs) (total_size xs) zs (sm_end m)"
    using l unfolding links_ok_def hrep_append add_0 by blast
  from next_free_run [OF this] show ?thesis using u by (simp add: first_free_append)
qed

lemma first_free_free:
  assumes "links_ok m bs"
  shows "first_free 0 bs = sm_end m \<or> \<not> mi_used (sm_items m (first_free 0 bs))"
proof -
  have "hrep it pv off bs e \<Longrightarrow> first_free off bs = e \<or> \<not> mi_used (it (first_free off bs))" for it pv off e
  proof (induction bs arbitrary: pv off)
    case (Cons b bs)
    then show ?case using Cons.IH [of off "off + fst b"] by (cases b) auto
  qed simp
  then show ?thesis using assms unfolding links_ok_def by blast
qed

lemma take_item_run:
  assumes r: "sm_rep m (xs @ (k, False) # ys)" and n: "n + 16 \<le> k" "8 dvd n" "16 \<le> n"
  shows "\<exists>m'. take_item (total_size xs) n m = Some (Some (total_size xs + 16), m') \<and> sm_rep m' (xs @ place n k @ ys) \<and>
    sm_end m' = sm_end m"
proof -
  let ?bs = "xs @ place n k @ ys" and ?p = "total_size xs"
  have l: "links_ok m (xs @ (k, False) # ys)" using r by (simp add: sm_rep_def)
  note d = links_okD [OF l]
  define m1 where "m1 = (if k - 16 \<ge> n + 16 + 16 then count_used (n + 16) (split_item ?p n m) else count_used k m)"
  define m2 where "m2 = upd_item ?p (\<lambda>x. x\<lparr>mi_pool := True, mi_used := True\<rparr>) m1"
  note t = take_item_first [OF l n, folded m1_def]
  have m2: "links_ok m2 ?bs" "sm_used m2 = sm_used m + used_size (place n k)" "sm_lfree m2 = sm_lfree m" "sm_end m2 = sm_end m"
    using t by (simp_all add: m2_def)
  have used: "sm_used m2 = used_size ?bs" using m2(2) r by (simp add: sm_rep_def)
  have co: "coalesced ?bs" using r coalesced_place by (simp add: sm_rep_def)
  have lf: "sm_lfree m = first_free 0 (xs @ (k, False) # ys)" using r by (simp add: sm_rep_def)
  have pos: "\<forall>b \<in> set xs. 0 < fst b" by (rule links_ok_pos [OF l])
  define m3 where "m3 = (if ?p = sm_lfree m2 then m2\<lparr>sm_lfree := first_free 0 ?bs\<rparr> else m2)"
  have lf3: "sm_lfree m3 = first_free 0 ?bs"
    using lf m2(3) first_free_lt [OF _ pos, of 0] by (auto simp: m3_def first_free_append)
  have l3: "links_ok m3 ?bs" using m2(1) by (simp add: m3_def links_ok_cong [of "m2\<lparr>sm_lfree := _\<rparr>"])
  have step: "(if ?p = sm_lfree m2 then do {
              lf \<leftarrow> next_free (sm_lfree m2) m2;
              rt_assert (lf = sm_end m2 \<or> \<not> mi_used (sm_items m2 lf));
              Some (m2\<lparr>sm_lfree := lf\<rparr>)
            } else Some m2) = Some m3"
  proof (cases "?p = sm_lfree m2")
    case True
    then have "\<forall>b \<in> set xs. snd b" using lf m2(3) first_free_lt [OF _ pos, of 0] by (auto simp: first_free_append split: if_splits)
    from next_free_suffix [OF m2(1) this] show ?thesis
      using True first_free_free [OF m2(1)] by (simp add: m3_def rt_assert_def)
  qed (simp add: m3_def)
  have a: "?p + 16 + n \<le> sm_end m3" "(?p + 16) mod 8 = 0" "?p mod 8 = 0"
    using d(3,7) n m2(4) by (auto simp: m3_def dvd_imp_mod_0)
  have it: "mi_next (sm_items m ?p) - (?p + 16) = k - 16" "mi_next (sm_items m ?p) - ?p = k" using d(1) by simp_all
  have "take_item ?p n m = Some (Some (?p + 16), m3)"
    unfolding take_item_def item_defs it Let_def m1_def [symmetric] m2_def [symmetric] step
    using a by (simp add: rt_assert_def)
  then show ?thesis using l3 lf3 used co m2(4) by (auto simp: sm_rep_def m3_def)
qed

subsection \<open>Allocation\<close>

lemma RT_ALIGN_8_dvd: "8 dvd unat (RT_ALIGN sz RT_ALIGN_SIZE)"
proof -
  have "take_bit 3 (RT_ALIGN sz RT_ALIGN_SIZE) = 0"
    by (rule bit_word_eqI) (auto simp: RT_ALIGN_def RT_ALIGN_SIZE_def bit_simps)
  then have "take_bit 3 (unat (RT_ALIGN sz RT_ALIGN_SIZE)) = 0"
    using unsigned_take_bit_eq [of 3 "RT_ALIGN sz RT_ALIGN_SIZE", where ?'a = nat] by simp
  then show ?thesis by (simp add: take_bit_eq_mod mod_eq_0_iff_dvd)
qed

lemma request_size_ok: "8 dvd request_size sz" "16 \<le> request_size sz"
  using RT_ALIGN_8_dvd [of sz] by (auto simp: request_size_def Let_def MIN_SIZE_ALIGNED_def)

lemma request_size_ge: "sz \<le> 0xfffffff0 \<Longrightarrow> unat sz \<le> request_size sz"
  using RT_ALIGN_8(1) [of sz] by (auto simp: request_size_def Let_def)

lemma first_free_split:
  obtains us zs where "bs = us @ zs" and "\<forall>b \<in> set us. snd b" and "first_free 0 bs = total_size us"
proof
  show "bs = takeWhile snd bs @ dropWhile snd bs" by simp
  show "\<forall>b \<in> set (takeWhile snd bs). snd b" by (auto dest: set_takeWhileD)
  have "first_free off bs = off + total_size (takeWhile snd bs)" for off
  proof (induction bs arbitrary: off)
    case (Cons b bs)
    show ?case using Cons.IH [of "off + fst b"] by (cases b) (simp add: add.assoc)
  qed simp
  from this [of 0] show "first_free 0 bs = total_size (takeWhile snd bs)" by simp
qed

lemma find_fit_rep:
  assumes r: "sm_rep m bs" and n: "n \<le> sm_aligned m"
  shows "find_fit n (sm_lfree m) m = Some (fit_off n 0 bs)"
proof -
  obtain us zs where u: "bs = us @ zs" "\<forall>b \<in> set us. snd b" "first_free 0 bs = total_size us" by (rule first_free_split)
  have "hrep (sm_items m) (last_off 0 0 us) (total_size us) zs (sm_end m)" and e: "sm_end m = sm_aligned m + 16"
    using r unfolding u(1) sm_rep_def links_ok_def hrep_append add_0 by blast+
  from find_fit_run [OF this n] show ?thesis
    using r u fit_off_used_prefix [OF u(2), of n 0 zs] by (simp add: sm_rep_def)
qed

lemma rep_total: "sm_rep m bs \<Longrightarrow> total_size bs = sm_aligned m + 16 \<and> sm_end m = sm_aligned m + 16"
  using hrep_end [of "sm_items m" 0 0 bs "sm_end m"] unfolding sm_rep_def links_ok_def add_0 by metis

lemma rt_smem_alloc_none:
  assumes r: "sm_rep m bs" and n: "\<forall>k. (k, False) \<in> set bs \<longrightarrow> k < request_size sz + 16"
  shows "rt_smem_alloc sz m = Some (None, m)"
proof -
  have "fit_off (request_size sz) 0 bs = None"
  proof (cases "fit_off (request_size sz) 0 bs")
    case (Some p)
    from fit_off_SomeD [OF this] n show ?thesis by fastforce
  qed simp
  then show ?thesis using find_fit_rep [OF r] by (simp add: rt_smem_alloc_def Let_def)
qed

lemma rt_smem_alloc_some:
  assumes r: "sm_rep m (xs @ (k, False) # ys)" and n: "request_size sz + 16 \<le> k"
    and f: "\<forall>z. (z, False) \<in> set xs \<longrightarrow> z < request_size sz + 16" and sz: "sz \<noteq> 0"
  shows "\<exists>m'. rt_smem_alloc sz m = Some (Some (total_size xs + 16), m') \<and>
    sm_rep m' (xs @ place (request_size sz) k @ ys) \<and> sm_end m' = sm_end m"
proof -
  have "fit_off (request_size sz) off (xs @ (k, False) # ys) = Some (off + total_size xs)" for off
    using f
  proof (induction xs arbitrary: off)
    case (Cons b xs)
    show ?case using Cons.prems Cons.IH [of "off + fst b"] by (cases b) (auto simp: add.assoc)
  qed (use n in simp)
  moreover have "request_size sz \<le> sm_aligned m" using rep_total [OF r] n by simp
  ultimately show ?thesis
    using find_fit_rep [OF r] take_item_run [OF r n request_size_ok] sz by (simp add: rt_smem_alloc_def Let_def)
qed

subsection \<open>Release\<close>

lemma join_append: "coalesced xs \<Longrightarrow> xs = [] \<or> snd (last xs) \<Longrightarrow> join (xs @ zs) = xs @ join zs"
proof (induction xs)
  case (Cons b xs)
  have IH: "join (xs @ zs) = xs @ join zs" using Cons by (cases xs) auto
  obtain a u where b: "b = (a, u)" by force
  show ?case
  proof (cases u)
    case True
    then show ?thesis using IH b by simp
  next
    case False
    then obtain b2 xs' where "xs = (b2, True) # xs'" using Cons.prems b by (cases xs) auto
    then show ?thesis using IH b False by simp
  qed
qed simp

lemma join_coalesced: "coalesced bs \<Longrightarrow> join bs = bs"
  by (induction bs rule: join.induct) (auto simp: successively_Cons)

lemma join_free: "coalesced ys \<Longrightarrow> join ((sz, False) # ys) =
    (case ys of (s2, False) # ys' \<Rightarrow> (sz + s2, False) # ys' | _ \<Rightarrow> (sz, False) # ys)"
proof (cases ys)
  case (Cons b ys')
  assume c: "coalesced ys"
  obtain s2 u where b: "b = (s2, u)" by force
  have y: "coalesced ys'" using c Cons by (cases ys') auto
  show ?thesis
  proof (cases u)
    case True
    then show ?thesis using Cons b c join_coalesced [OF c] by simp
  next
    case False
    then have "coalesced ((sz + s2, False) # ys')" using c Cons b by (cases ys') auto
    from join_coalesced [OF this] show ?thesis using Cons b False by simp
  qed
qed simp

lemma first_free_before:
  assumes "links_ok m (xs @ (sz, False) # ys)"
  shows "first_free 0 (xs @ (sz, False) # ys) \<le> total_size xs"
  using first_free_le [of 0 xs] by (simp add: first_free_append)

definition loose_rep :: "small_mem \<Rightarrow> blocks \<Rightarrow> bool" where
  \<comment> \<open>the representation, except that free neighbours may not have been merged yet\<close>
  "loose_rep m bs \<longleftrightarrow> links_ok m bs \<and> sm_lfree m = first_free 0 bs \<and> sm_used m = used_size bs"

lemma plug_next_rep:
  assumes r: "loose_rep m (xs @ (sz, False) # ys)" and c: "coalesced ys"
  shows "\<exists>k zs. join ((sz, False) # ys) = (k, False) # zs \<and> coalesced ((k, False) # zs) \<and>
    loose_rep (plug_next (total_size xs) m) (xs @ (k, False) # zs) \<and> sm_end (plug_next (total_size xs) m) = sm_end m"
proof (cases "ys = [] \<or> snd (hd ys)")
  case True
  have l: "links_ok m (xs @ (sz, False) # ys)" using r by (simp add: loose_rep_def)
  have j: "coalesced ((sz, False) # ys)" using True c by (cases ys) auto
  show ?thesis using r j join_coalesced [OF j] plug_next_idle [OF l True] by auto
next
  case False
  then obtain s2 ys' where ys: "ys = (s2, False) # ys'" by (cases ys) auto
  have l: "links_ok m (xs @ (sz, False) # (s2, False) # ys')" using r ys by (simp add: loose_rep_def)
  have ne: "sm_lfree m \<noteq> total_size xs + sz"
    using first_free_before [OF l] r ys links_okD(5) [OF l] by (simp add: loose_rep_def)
  have lr: "loose_rep (plug_next (total_size xs) m) (xs @ (sz + s2, False) # ys')"
    using plug_next_run [OF l] ne r ys by (simp add: loose_rep_def first_free_append)
  have j: "coalesced ((sz + s2, False) # ys')" using c ys by (cases ys') auto
  have "join ((sz, False) # ys) = (sz + s2, False) # ys'" using ys join_coalesced [OF j] by simp
  then show ?thesis using lr j plug_next_run [OF l] by blast
qed

lemma plug_holes_rep:
  assumes r: "loose_rep m (xs @ (sz, False) # ys)" and c: "coalesced xs" "coalesced ys"
  shows "\<exists>m'. plug_holes (total_size xs) m = Some m' \<and> sm_rep m' (join (xs @ (sz, False) # ys)) \<and> sm_end m' = sm_end m"
proof -
  obtain k zs where k: "join ((sz, False) # ys) = (k, False) # zs" "coalesced ((k, False) # zs)"
    and r1: "loose_rep (plug_next (total_size xs) m) (xs @ (k, False) # zs)" "sm_end (plug_next (total_size xs) m) = sm_end m"
    using plug_next_rep [OF r c(2)] by blast
  let ?m = "plug_next (total_size xs) m"
  have l: "links_ok m (xs @ (sz, False) # ys)" using r by (simp add: loose_rep_def)
  have l1: "links_ok ?m (xs @ (k, False) # zs)" using r1 by (simp add: loose_rep_def)
  have lt: "total_size xs < sm_end m" using links_okD(3,5) [OF l] by simp
  have g: "plug_holes (total_size xs) m = Some (plug_prev (total_size xs) ?m)" using lt by (simp add: plug_holes_def rt_assert_def)
  show ?thesis
  proof (cases "xs = [] \<or> snd (last xs)")
    case True
    have "coalesced (xs @ (k, False) # zs)" using True c(1) k(2) by (auto simp: successively_append_iff)
    then show ?thesis
      using plug_prev_idle [OF l1 True] r1 g join_append [OF c(1) True] k(1) by (simp add: sm_rep_def loose_rep_def)
  next
    case False
    then obtain xs' s0 where xs: "xs = xs' @ [(s0, False)]" by (cases xs rule: rev_cases) auto
    have x': "coalesced xs'" "xs' = [] \<or> snd (last xs')" using c(1) xs by (auto simp: successively_append_iff)
    have l2: "links_ok ?m (xs' @ (s0, False) # (k, False) # zs)" using l1 xs by simp
    have ne: "sm_lfree ?m \<noteq> total_size xs' + s0"
      using first_free_before [OF l2] r1 xs links_okD(5) [OF l2] by (simp add: loose_rep_def)
    have lr: "loose_rep (plug_prev (total_size xs) ?m) (xs' @ (s0 + k, False) # zs)" "sm_end (plug_prev (total_size xs) ?m) = sm_end m"
      using plug_prev_run [OF l2] ne r1 xs by (simp_all add: loose_rep_def first_free_append)
    have zc: "coalesced ((s0 + k, False) # zs)" using k(2) by (cases zs) auto
    then have "coalesced (xs' @ (s0 + k, False) # zs)" using x' by (auto simp: successively_append_iff)
    moreover have "join (xs @ (sz, False) # ys) = xs' @ (s0 + k, False) # zs"
    proof -
      have "join (xs @ (sz, False) # ys) = xs' @ join ((s0, False) # (sz, False) # ys)" using xs join_append [OF x'] by simp
      also have "join ((s0, False) # (sz, False) # ys) = (s0 + k, False) # zs"
        using k(1) join_free [OF c(2), of sz] join_free [OF c(2), of "s0 + sz"] by (auto split: list.splits bool.splits)
      finally show ?thesis .
    qed
    ultimately show ?thesis using lr g by (simp add: sm_rep_def loose_rep_def)
  qed
qed

lemma next_is_pool:
  assumes l: "links_ok m (xs @ (sz, u) # ys)"
  shows "mi_pool (sm_items m (total_size xs + sz))"
proof (cases ys)
  case Nil
  then show ?thesis using links_okD(3) [OF l] l unfolding links_ok_def by (metis add_0_right total_size_simps(1))
next
  case (Cons b ys')
  then have "links_ok m ((xs @ [(sz, u)]) @ (fst b, snd b) # ys')" using l by simp
  from links_okD(1) [OF this] show ?thesis by simp
qed

lemma rt_smem_free_rep:
  assumes r: "sm_rep m (xs @ (sz, True) # ys)"
  shows "\<exists>m'. rt_smem_free (Some (total_size xs + 16)) m = Some m' \<and> sm_rep m' (join (xs @ (sz, False) # ys)) \<and> sm_end m' = sm_end m"
proof -
  have l: "links_ok m (xs @ (sz, True) # ys)" and c: "coalesced xs" "coalesced ys"
    using r by (auto simp: sm_rep_def successively_append_iff successively_Cons)
  note d = links_okD [OF l]
  have b: "block_ok sz False" "24 \<le> sz" using d(2) by (auto simp: block_ok_def)
  define m1 where "m1 = upd_item (total_size xs) (\<lambda>x. x\<lparr>mi_pool := True, mi_used := False\<rparr>) m"
  define m2 where "m2 = (if total_size xs < sm_lfree m1 then m1\<lparr>sm_lfree := total_size xs\<rparr> else m1)"
  define m3 where "m3 = m2\<lparr>sm_used := sm_used m2 - (mi_next (sm_items m2 (total_size xs)) - total_size xs)\<rparr>"
  have l1: "links_ok m1 (xs @ (sz, False) # ys)" unfolding m1_def by (rule mark_run [OF l b(1)])
  have f: "sm_items m3 = sm_items m1" "sm_aligned m3 = sm_aligned m1" "sm_end m3 = sm_end m1" by (simp_all add: m3_def m2_def)
  have pos: "\<forall>b \<in> set xs. 0 < fst b" by (rule links_ok_pos [OF l])
  have "sm_lfree m3 = first_free 0 (xs @ (sz, False) # ys)"
  proof (cases "\<forall>b \<in> set xs. snd b")
    case True
    then have "sm_lfree m1 = first_free (total_size xs + sz) ys" using r by (simp add: m1_def sm_rep_def first_free_append)
    moreover from first_free_ge [of "total_size xs + sz" ys] have "total_size xs < first_free (total_size xs + sz) ys" using d(5) by linarith
    ultimately have "total_size xs < sm_lfree m1" by simp
    then show ?thesis using True by (simp add: m3_def m2_def first_free_append)
  next
    case False
    then have "sm_lfree m1 = first_free 0 xs" using r by (auto simp: m1_def sm_rep_def first_free_append)
    then show ?thesis using False first_free_lt [OF False pos, of 0] by (simp add: m3_def m2_def first_free_append)
  qed
  moreover have "sm_used m3 = used_size (xs @ (sz, False) # ys)" using r d(1) by (simp add: m3_def m2_def m1_def sm_rep_def)
  ultimately have lr: "loose_rep m3 (xs @ (sz, False) # ys)"
    using l1 links_ok_cong [OF f] by (simp add: loose_rep_def)
  have dv: "(total_size xs + 16) mod 8 = 0" using d(7) by (auto simp: dvd_imp_mod_0)
  have lt: "total_size xs + 16 < sm_end m" using b(2) d(3) by simp
  have "rt_smem_free (Some (total_size xs + 16)) m = plug_holes (total_size xs) m3"
    using d(1) next_is_pool [OF l] dv lt
    by (simp add: rt_smem_free_def rt_assert_def item_defs m1_def m2_def m3_def Let_def)
  then show ?thesis using plug_holes_rep [OF lr c] f(3) by (simp add: m1_def)
qed

end
