(* ===== verification/SmallMemApi.thy ===== *)
theory SmallMemApi
  imports SmallMemOps
begin

text \<open>
  The heap as its clients see it: the set of live blocks. The heap meets the contract of the allocators, so that a client that frees
  only what it holds is always served; resizing, initialisation and the requests whose rounding wraps are treated here too.
\<close>

fun heap_walk :: "nat \<Rightarrow> nat \<Rightarrow> small_mem \<Rightarrow> blocks" where
  "heap_walk 0 off m = []"
| "heap_walk (Suc f) off m =
     (if off < sm_end m then (mi_next (sm_items m off) - off, mi_used (sm_items m off)) # heap_walk f (mi_next (sm_items m off)) m
      else [])"

definition heap_list :: "small_mem \<Rightarrow> blocks" where
  "heap_list m = heap_walk (sm_end m) 0 m"

fun live_at :: "nat \<Rightarrow> blocks \<Rightarrow> (nat \<times> nat) list" where
  "live_at off [] = []"
| "live_at off ((sz, u) # bs) = (if u then [(off + 16, sz - 16)] else []) @ live_at (off + sz) bs"

definition heap_ok :: "small_mem \<Rightarrow> bool" where
  "heap_ok m \<longleftrightarrow> sm_rep m (heap_list m)"

definition heap_live :: "small_mem \<Rightarrow> (nat \<times> nat) set" where
  "heap_live m = set (live_at 0 (heap_list m))"

lemma heap_walk_rep:
  "hrep (sm_items m) pv off bs (sm_end m) \<Longrightarrow> length bs \<le> f \<Longrightarrow> heap_walk f off m = bs"
proof (induction bs arbitrary: pv off f)
  case Nil
  then show ?case by (cases f) simp_all
next
  case (Cons b bs)
  obtain sz u where b: "b = (sz, u)" by force
  obtain f' where f: "f = Suc f'" using Cons.prems(2) by (cases f) auto
  have "off < sm_end m" using hrep_end [OF Cons.prems(1)] Cons.prems(1) b by (simp add: block_ok_def)
  then show ?case using Cons.prems b f Cons.IH [of off "off + sz" f'] by simp
qed

lemma blocks_length: "\<forall>b \<in> set bs. 16 \<le> fst b \<Longrightarrow> length bs \<le> total_size bs"
  by (induction bs) auto

lemma rep_pos: "sm_rep m bs \<Longrightarrow> \<forall>b \<in> set bs. 16 \<le> fst b \<and> (snd b \<longrightarrow> 24 \<le> fst b)"
proof -
  have "hrep it pv off bs e \<Longrightarrow> \<forall>b \<in> set bs. 16 \<le> fst b \<and> (snd b \<longrightarrow> 24 \<le> fst b)" for it pv off e
  proof (induction bs arbitrary: pv off)
    case (Cons b bs)
    then show ?case using Cons.IH [of off "off + fst b"] by (cases b) (auto simp: block_ok_def)
  qed simp
  then show "sm_rep m bs \<Longrightarrow> \<forall>b \<in> set bs. 16 \<le> fst b \<and> (snd b \<longrightarrow> 24 \<le> fst b)" unfolding sm_rep_def links_ok_def by blast
qed

lemma heap_list_rep: "sm_rep m bs \<Longrightarrow> heap_list m = bs"
proof -
  assume r: "sm_rep m bs"
  have "length bs \<le> sm_end m" using blocks_length [of bs] rep_pos [OF r] rep_total [OF r] by simp
  moreover have "hrep (sm_items m) 0 0 bs (sm_end m)" using r unfolding sm_rep_def links_ok_def by blast
  ultimately show ?thesis unfolding heap_list_def by (intro heap_walk_rep)
qed

lemma heap_ok_rep: "sm_rep m bs \<Longrightarrow> heap_ok m \<and> heap_live m = set (live_at 0 bs)"
  by (simp add: heap_ok_def heap_live_def heap_list_rep)

lemma live_at_append: "live_at off (xs @ ys) = live_at off xs @ live_at (off + total_size xs) ys"
  by (induction off xs rule: live_at.induct) (auto simp: add.assoc)

lemma live_at_join: "live_at off (join bs) = live_at off bs"
  by (induction bs arbitrary: off rule: join.induct) (auto simp flip: add.assoc)

lemma live_at_range:
  "\<forall>b \<in> set bs. 16 \<le> fst b \<and> (snd b \<longrightarrow> 24 \<le> fst b) \<Longrightarrow> (p, n) \<in> set (live_at off bs) \<Longrightarrow>
   off + 16 \<le> p \<and> 0 < n \<and> p + n \<le> off + total_size bs"
proof (induction off bs rule: live_at.induct)
  case (2 off sz u bs)
  then show ?case using "2.IH" by (auto split: if_splits)
qed simp

lemma live_at_apart:
  "\<forall>b \<in> set bs. 16 \<le> fst b \<and> (snd b \<longrightarrow> 24 \<le> fst b) \<Longrightarrow> (p, n) \<in> set (live_at off bs) \<Longrightarrow> (q, k) \<in> set (live_at off bs) \<Longrightarrow>
   (p, n) \<noteq> (q, k) \<Longrightarrow> p + n \<le> q \<or> q + k \<le> p"
proof (induction off bs rule: live_at.induct)
  case (2 off sz u bs)
  note r = live_at_range [of bs _ _ "off + sz"]
  show ?case using 2 r [of p n] r [of q k] by (auto split: if_splits)
qed simp

lemma live_at_in: "(p, n) \<in> set (live_at off bs) \<Longrightarrow> \<exists>xs sz ys. bs = xs @ (sz, True) # ys \<and> p = off + total_size xs + 16 \<and> n = sz - 16"
proof (induction off bs rule: live_at.induct)
  case (2 off sz u bs)
  show ?case
  proof (cases "u \<and> (p, n) = (off + 16, sz - 16)")
    case True
    then show ?thesis by (intro exI [of _ "[]"]) auto
  next
    case False
    then have "(p, n) \<in> set (live_at (off + sz) bs)" using 2(2) by (auto split: if_splits)
    from 2(1) [OF this] obtain xs k ys where "bs = xs @ (k, True) # ys" "p = off + sz + total_size xs + 16" "n = k - 16" by blast
    then show ?thesis by (intro exI [of _ "(sz, u) # xs"]) auto
  qed
qed simp

lemma live_at_middle:
  \<comment> \<open>a live block is in the set once\<close>
  assumes p: "\<forall>b \<in> set (xs @ zs @ ys). 16 \<le> fst b \<and> (snd b \<longrightarrow> 24 \<le> fst b)"
  shows "set (live_at (total_size xs) zs) \<inter> (set (live_at 0 xs) \<union> set (live_at (total_size xs + total_size zs) ys)) = {}"
proof -
  have "(a, n) \<notin> set (live_at 0 xs) \<and> (a, n) \<notin> set (live_at (total_size xs + total_size zs) ys)"
    if "(a, n) \<in> set (live_at (total_size xs) zs)" for a n
    using live_at_range [of zs a n "total_size xs"] live_at_range [of xs a n 0]
      live_at_range [of ys a n "total_size xs + total_size zs"] p that by auto
  then show ?thesis by auto
qed

subsection \<open>The contract\<close>

lemma heap_alloc:
  assumes ok: "heap_ok m"
  shows "\<exists>r m'. rt_smem_alloc sz m = Some (r, m') \<and> heap_ok m' \<and> sm_end m' = sm_end m \<and>
    (case r of None \<Rightarrow> heap_live m' = heap_live m
     | Some p \<Rightarrow> \<exists>k \<ge> request_size sz. (p, k) \<notin> heap_live m \<and> heap_live m' = insert (p, k) (heap_live m))"
proof (cases "sz = 0 \<or> fit_off (request_size sz) 0 (heap_list m) = None")
  case True
  have r: "sm_rep m (heap_list m)" using ok by (simp add: heap_ok_def)
  have "rt_smem_alloc sz m = Some (None, m)"
  proof (cases "sz = 0")
    case False
    then show ?thesis using True find_fit_rep [OF r] by (simp add: rt_smem_alloc_def Let_def)
  qed (simp add: rt_smem_alloc_def)
  then show ?thesis using ok by simp
next
  case False
  let ?n = "request_size sz"
  have r: "sm_rep m (heap_list m)" using ok by (simp add: heap_ok_def)
  obtain p where "fit_off ?n 0 (heap_list m) = Some p" using False by auto
  from fit_off_SomeD [OF this] obtain xs k ys where bs: "heap_list m = xs @ (k, False) # ys" "?n + 16 \<le> k"
    "\<forall>z. (z, False) \<in> set xs \<longrightarrow> z < ?n + 16" by blast
  obtain m' where m': "rt_smem_alloc sz m = Some (Some (total_size xs + 16), m')" "sm_rep m' (xs @ place ?n k @ ys)" "sm_end m' = sm_end m"
    using rt_smem_alloc_some [OF r [unfolded bs(1)] bs(2,3)] False by blast
  define j where "j = (if ?n + 48 \<le> k then ?n else k - 16)"
  have tot: "total_size (place ?n k) = k" using total_place [OF bs(2)] .
  have lp: "live_at (total_size xs) (place ?n k) = [(total_size xs + 16, j)]" by (simp add: place_def j_def)
  have L: "heap_live m = set (live_at 0 xs) \<union> set (live_at (total_size xs + k) ys)"
    using bs(1) by (simp add: heap_live_def live_at_append)
  have L': "heap_live m' = set (live_at 0 xs) \<union> {(total_size xs + 16, j)} \<union> set (live_at (total_size xs + k) ys)"
    using heap_ok_rep [OF m'(2)] tot lp by (simp add: live_at_append add.assoc)
  have "(total_size xs + 16, j) \<notin> heap_live m"
    using live_at_middle [OF rep_pos [OF m'(2)]] lp tot L by auto
  moreover have "heap_live m' = insert (total_size xs + 16, j) (heap_live m)" using L L' by auto
  moreover have "?n \<le> j" using bs(2) by (auto simp: j_def)
  ultimately show ?thesis using m' heap_ok_rep [OF m'(2)] by auto
qed

lemma heap_release:
  assumes ok: "heap_ok m" and l: "(p, n) \<in> heap_live m"
  shows "\<exists>m'. rt_smem_free (Some p) m = Some m' \<and> heap_ok m' \<and> sm_end m' = sm_end m \<and> heap_live m' = heap_live m - {(p, n)}"
proof -
  have r: "sm_rep m (heap_list m)" using ok by (simp add: heap_ok_def)
  obtain xs sz ys where bs: "heap_list m = xs @ (sz, True) # ys" "p = total_size xs + 16" "n = sz - 16"
    using live_at_in [of p n 0 "heap_list m"] l unfolding heap_live_def add_0 by blast
  obtain m' where m': "rt_smem_free (Some p) m = Some m'" "sm_rep m' (join (xs @ (sz, False) # ys))" "sm_end m' = sm_end m"
    using rt_smem_free_rep [OF r [unfolded bs(1)]] bs(2) by blast
  have "set (live_at (total_size xs) [(sz, True)]) \<inter> (set (live_at 0 xs) \<union> set (live_at (total_size xs + total_size [(sz, True)]) ys)) = {}"
    by (rule live_at_middle) (use rep_pos [OF r] bs(1) in auto)
  then have "heap_live m - {(p, n)} = set (live_at 0 xs) \<union> set (live_at (total_size xs + sz) ys)"
    using bs by (auto simp: heap_live_def live_at_append)
  moreover have "heap_live m' = set (live_at 0 xs) \<union> set (live_at (total_size xs + sz) ys)"
    using heap_ok_rep [OF m'(2)] by (simp add: live_at_join live_at_append)
  ultimately show ?thesis using m' heap_ok_rep [OF m'(2)] by auto
qed

definition heap_blocks :: "small_mem \<Rightarrow> (nat \<times> nat \<times> nat) set" where
  \<comment> \<open>the handle of a block is its address\<close>
  "heap_blocks m = (\<lambda>(p, n). (p, p, n)) ` heap_live m"

lemma heap_blocks_iff [simp]: "(h, p, n) \<in> heap_blocks m \<longleftrightarrow> h = p \<and> (p, n) \<in> heap_live m"
  by (auto simp: heap_blocks_def)

lemma heap_blocks_handles [simp]: "fst ` heap_blocks m = fst ` heap_live m"
  by (force simp: heap_blocks_def)

lemma heap_live_unique:
  assumes "heap_ok m" and "(p, n) \<in> heap_live m" and "(p, k) \<in> heap_live m"
  shows "n = k"
proof -
  have r: "sm_rep m (heap_list m)" using assms(1) by (simp add: heap_ok_def)
  show ?thesis
  proof (rule ccontr)
    assume "n \<noteq> k"
    then have "p + n \<le> p \<or> p + k \<le> p" using live_at_apart [OF rep_pos [OF r], of p n 0 p k] assms(2,3) by (auto simp: heap_live_def)
    moreover have "0 < n" "0 < k" using live_at_range [OF rep_pos [OF r]] assms(2,3) by (auto simp: heap_live_def)
    ultimately show False by simp
  qed
qed

interpretation heap: allocator heap_ok heap_blocks sm_end "\<lambda>_. True" request_size rt_smem_alloc "\<lambda>p. rt_smem_free (Some p)"
proof unfold_locales
  fix m h p n
  assume ok: "heap_ok m" and l: "(h, p, n) \<in> heap_blocks m"
  have r: "sm_rep m (heap_list m)" using ok by (simp add: heap_ok_def)
  show "p + n \<le> sm_end m \<and> 0 < n"
    using live_at_range [OF rep_pos [OF r], of p n 0] l rep_total [OF r] by (simp add: heap_live_def)
next
  fix m h b c
  assume "heap_ok m" and "(h, b) \<in> heap_blocks m" and "(h, c) \<in> heap_blocks m"
  then show "b = c" using heap_live_unique [of m] by (cases b, cases c) auto
next
  fix m h p n g q k
  assume ok: "heap_ok m" and l: "(h, p, n) \<in> heap_blocks m" "(g, q, k) \<in> heap_blocks m" "h \<noteq> g"
  have r: "sm_rep m (heap_list m)" using ok by (simp add: heap_ok_def)
  show "p + n \<le> q \<or> q + k \<le> p" using live_at_apart [OF rep_pos [OF r], of p n 0 q k] l by (auto simp: heap_live_def)
next
  fix m sz
  assume ok: "heap_ok m"
  then obtain r m' where A: "rt_smem_alloc sz m = Some (r, m')" "heap_ok m'" "sm_end m' = sm_end m"
    "case r of None \<Rightarrow> heap_live m' = heap_live m
     | Some p \<Rightarrow> \<exists>k \<ge> request_size sz. (p, k) \<notin> heap_live m \<and> heap_live m' = insert (p, k) (heap_live m)"
    using heap_alloc by blast
  have "case r of None \<Rightarrow> heap_blocks m' = heap_blocks m
     | Some h \<Rightarrow> \<exists>p k. request_size sz \<le> k \<and> h \<notin> fst ` heap_blocks m \<and> heap_blocks m' = insert (h, p, k) (heap_blocks m)"
  proof (cases r)
    case None
    then show ?thesis using A(4) by (simp add: heap_blocks_def)
  next
    case (Some p)
    then obtain k where k: "request_size sz \<le> k" "(p, k) \<notin> heap_live m" "heap_live m' = insert (p, k) (heap_live m)" using A(4) by auto
    have "p \<notin> fst ` heap_live m"
    proof
      assume "p \<in> fst ` heap_live m"
      then obtain n where n: "(p, n) \<in> heap_live m" by auto
      then have "n = k" using heap_live_unique [OF A(2), of p n k] k(3) by simp
      with n k(2) show False by simp
    qed
    then have "p \<notin> fst ` heap_blocks m" by simp
    moreover have "heap_blocks m' = insert (p, p, k) (heap_blocks m)" using k(3) by (auto simp: heap_blocks_def)
    ultimately show ?thesis using Some k(1) by auto
  qed
  with A show "\<exists>r m'. rt_smem_alloc sz m = Some (r, m') \<and> heap_ok m' \<and> sm_end m' = sm_end m \<and>
      (case r of None \<Rightarrow> heap_blocks m' = heap_blocks m
       | Some h \<Rightarrow> \<exists>p k. request_size sz \<le> k \<and> h \<notin> fst ` heap_blocks m \<and> heap_blocks m' = insert (h, p, k) (heap_blocks m))" by blast
next
  fix m h
  assume ok: "heap_ok m" and "h \<in> fst ` heap_blocks m"
  then obtain n where n: "(h, n) \<in> heap_live m" by auto
  obtain m' where m': "rt_smem_free (Some h) m = Some m'" "heap_ok m'" "sm_end m' = sm_end m" "heap_live m' = heap_live m - {(h, n)}"
    using heap_release [OF ok n] by blast
  have "(p, k) \<in> heap_live m' \<longleftrightarrow> (p, k) \<in> heap_live m \<and> p \<noteq> h" for p k
    using heap_live_unique [OF ok n, of k] m'(4) by (cases "p = h") auto
  then have "heap_blocks m' = {b \<in> heap_blocks m. fst b \<noteq> h}" by (intro set_eqI) (auto simp: split_paired_all)
  with m' show "\<exists>m'. rt_smem_free (Some h) m = Some m' \<and> heap_ok m' \<and> sm_end m' = sm_end m \<and>
      heap_blocks m' = {b \<in> heap_blocks m. fst b \<noteq> h}" by blast
qed

definition demo_heap :: small_mem where
  \<comment> \<open>a used block of 40 bytes and a free one of 160\<close>
  "demo_heap = \<lparr>sm_items = (\<lambda>_. \<lparr>mi_pool = False, mi_used = False, mi_next = 0, mi_prev = 0\<rparr>)
     (0 := \<lparr>mi_pool = True, mi_used = True, mi_next = 40, mi_prev = 0\<rparr>,
      40 := \<lparr>mi_pool = True, mi_used = False, mi_next = 200, mi_prev = 0\<rparr>,
      200 := \<lparr>mi_pool = True, mi_used = True, mi_next = 200, mi_prev = 40\<rparr>),
     sm_aligned = 184, sm_end = 200, sm_lfree = 40, sm_used = 40, sm_max = 40\<rparr>"

lemma demo_heap_ok: "heap_ok demo_heap" "heap_list demo_heap = [(40, True), (160, False)]" "heap_live demo_heap = {(16, 24)}"
proof -
  have r: "sm_rep demo_heap [(40, True), (160, False)]"
    by (simp add: demo_heap_def sm_rep_def links_ok_def block_ok_def)
  from heap_ok_rep [OF r] heap_list_rep [OF r] show "heap_ok demo_heap" "heap_list demo_heap = [(40, True), (160, False)]"
    "heap_live demo_heap = {(16, 24)}" by simp_all
qed

text \<open>C16. However the requests of a client are ordered, the heap serves all of them: no assertion fails and no loop
  runs forever, as long as the client frees only addresses it holds. Afterwards the heap is well formed, covers the same area, and its
  live blocks are exactly those the client holds; they are inside the area and do not overlap.\<close>

theorem heap_serves:
  assumes "heap_ok m" and "distinct held" and "set held = fst ` heap_live m"
  shows "\<exists>held' m'. heap.serve rs held m = Some (held', m') \<and> heap_ok m' \<and> sm_end m' = sm_end m \<and>
    distinct held' \<and> set held' = fst ` heap_live m' \<and>
    (\<forall>(p, n) \<in> heap_live m'. 0 < n \<and> p + n \<le> sm_end m') \<and>
    (\<forall>(p, n) \<in> heap_live m'. \<forall>(q, k) \<in> heap_live m'. p \<noteq> q \<longrightarrow> {p..<p + n} \<inter> {q..<q + k} = {})"
proof -
  obtain held' m' where s: "heap.serve rs held m = Some (held', m')" "heap_ok m'" "sm_end m' = sm_end m" "heap.holds held' m'"
    using heap.serve_ok [OF assms(1), of held rs] assms(2,3) by (auto simp: heap.holds_def heap.requests_ok_def)
  have "\<forall>(p, n) \<in> heap_live m'. 0 < n \<and> p + n \<le> sm_end m'" using heap.inside [OF s(2)] by auto
  moreover have "\<forall>(p, n) \<in> heap_live m'. \<forall>(q, k) \<in> heap_live m'. p \<noteq> q \<longrightarrow> {p..<p + n} \<inter> {q..<q + k} = {}"
    using heap.live_disjoint [OF s(2)] by auto
  ultimately show ?thesis using s by (simp add: heap.holds_def)
qed

theorem heap_serves_witness:
  "\<exists>held m'. heap.serve [Alloc 20, Free 1, Alloc 200, Alloc 5, Free 0] [16] demo_heap = Some (held, m') \<and> heap_ok m' \<and>
    sm_end m' = 200 \<and> set held = fst ` heap_live m'"
proof -
  have "sm_end demo_heap = 200" by (simp add: demo_heap_def)
  then show ?thesis
    using heap_serves [of demo_heap "[16]" "[Alloc 20, Free 1, Alloc 200, Alloc 5, Free 0]"] demo_heap_ok by auto
qed

subsection \<open>Allocation and release\<close>

text \<open>Allocation is first fit: of the blocks in order of their addresses, the first free one that has room for the header
  and the rounded size is taken, split when at least 32 bytes remain; the result is NULL, and nothing changes, exactly when no
  free block has room.\<close>

theorem rt_smem_alloc_first_fit:
  assumes "heap_ok m" and "sz \<noteq> 0"
  shows "case fit_off (request_size sz) 0 (heap_list m) of
      None \<Rightarrow> rt_smem_alloc sz m = Some (None, m) \<and> (\<forall>k. (k, False) \<in> set (heap_list m) \<longrightarrow> k < request_size sz + 16)
    | Some p \<Rightarrow> \<exists>xs k ys m'. heap_list m = xs @ (k, False) # ys \<and> p = total_size xs \<and> request_size sz + 16 \<le> k \<and>
        (\<forall>z. (z, False) \<in> set xs \<longrightarrow> z < request_size sz + 16) \<and>
        rt_smem_alloc sz m = Some (Some (p + 16), m') \<and> heap_ok m' \<and> heap_list m' = xs @ place (request_size sz) k @ ys"
proof (cases "fit_off (request_size sz) 0 (heap_list m)")
  case None
  then have "\<forall>k. (k, False) \<in> set (heap_list m) \<longrightarrow> k < request_size sz + 16" using fit_off_NoneD by blast
  then show ?thesis using None rt_smem_alloc_none [of m "heap_list m" sz] assms(1) by (simp add: heap_ok_def)
next
  case (Some p)
  from fit_off_SomeD [OF Some] obtain xs k ys where bs: "heap_list m = xs @ (k, False) # ys" "p = total_size xs" "request_size sz + 16 \<le> k"
    "\<forall>z. (z, False) \<in> set xs \<longrightarrow> z < request_size sz + 16" by auto
  have "sm_rep m (xs @ (k, False) # ys)" using assms(1) bs(1) by (simp add: heap_ok_def)
  from rt_smem_alloc_some [OF this bs(3,4) assms(2)] obtain m' where
    "rt_smem_alloc sz m = Some (Some (p + 16), m')" "sm_rep m' (xs @ place (request_size sz) k @ ys)" using bs(2) by blast
  then show ?thesis using Some bs heap_ok_rep heap_list_rep by (simp, blast)
qed

theorem rt_smem_alloc_first_fit_witness:
  "\<exists>m'. rt_smem_alloc 20 demo_heap = Some (Some 56, m') \<and> heap_ok m' \<and> heap_list m' = [(40, True), (40, True), (120, False)]"
proof -
  have rq: "request_size 20 = 24" by (simp add: request_size_def RT_ALIGN_def RT_ALIGN_SIZE_def MIN_SIZE_ALIGNED_def)
  have "fit_off 24 0 (heap_list demo_heap) = Some 40" using demo_heap_ok by simp
  with rt_smem_alloc_first_fit [of demo_heap 20] rq obtain xs k ys m' where w: "heap_list demo_heap = xs @ (k, False) # ys" "40 = total_size xs"
    "rt_smem_alloc 20 demo_heap = Some (Some 56, m')" "heap_ok m'" "heap_list m' = xs @ place 24 k @ ys"
    using demo_heap_ok by auto
  have "xs = [(40, True)] \<and> k = 160 \<and> ys = []" using w(1) demo_heap_ok by (auto simp: Cons_eq_append_conv append_eq_Cons_conv)
  then show ?thesis using w(3-5) by (simp add: place_def)
qed

text \<open>C17. Releasing a block that was just allocated restores the heap: the same blocks in the same order, the same first free
  item and the same number of used bytes; the parts into which the allocation split a block are one block again.\<close>

theorem rt_smem_alloc_free:
  assumes "heap_ok m" and "rt_smem_alloc sz m = Some (Some p, m')"
  shows "\<exists>m''. rt_smem_free (Some p) m' = Some m'' \<and> heap_ok m'' \<and> heap_list m'' = heap_list m \<and>
    sm_lfree m'' = sm_lfree m \<and> sm_used m'' = sm_used m"
proof -
  let ?n = "request_size sz"
  have sz: "sz \<noteq> 0" using assms(2) by (auto simp: rt_smem_alloc_def)
  have r: "sm_rep m (heap_list m)" using assms(1) by (simp add: heap_ok_def)
  obtain q where q: "fit_off ?n 0 (heap_list m) = Some q"
    using find_fit_rep [OF r, of ?n] assms(2) sz
    by (cases "fit_off ?n 0 (heap_list m)") (auto simp: rt_smem_alloc_def Let_def split: if_splits)
  from fit_off_SomeD [OF q] obtain xs k ys where bs: "heap_list m = xs @ (k, False) # ys" "?n + 16 \<le> k"
    "\<forall>z. (z, False) \<in> set xs \<longrightarrow> z < ?n + 16" by blast
  have m': "p = total_size xs + 16" "sm_rep m' (xs @ place ?n k @ ys)"
    using rt_smem_alloc_some [OF r [unfolded bs(1)] bs(2,3) sz] assms(2) by auto
  have co: "coalesced (xs @ (k, False) # ys)" using r bs(1) by (simp add: sm_rep_def)
  have x: "coalesced xs" "xs = [] \<or> snd (last xs)" and y: "coalesced ((k, False) # ys)"
    using co by (auto simp: successively_append_iff)
  define k1 zs where "k1 = (if ?n + 48 \<le> k then ?n + 16 else k)" and "zs = (if ?n + 48 \<le> k then (k - ?n - 16, False) # ys else ys)"
  have pl: "place ?n k @ ys = (k1, True) # zs" by (simp add: place_def k1_def zs_def)
  have "join (xs @ (k1, False) # zs) = xs @ join ((k1, False) # zs)" by (rule join_append [OF x])
  also have "join ((k1, False) # zs) = join ((k, False) # ys)" using bs(2) by (simp add: k1_def zs_def)
  also have "\<dots> = (k, False) # ys" by (rule join_coalesced [OF y])
  finally have j: "join (xs @ (k1, False) # zs) = heap_list m" using bs(1) by simp
  obtain m'' where m'': "rt_smem_free (Some p) m' = Some m''" "sm_rep m'' (heap_list m)"
    using rt_smem_free_rep [of m' xs k1 zs] m' pl j by auto
  have "sm_lfree m'' = sm_lfree m" "sm_used m'' = sm_used m" using m''(2) r unfolding sm_rep_def by metis+
  then show ?thesis using m''(1) heap_ok_rep [OF m''(2)] heap_list_rep [OF m''(2)] by blast
qed

theorem rt_smem_alloc_free_witness:
  "\<exists>p m' m''. rt_smem_alloc 20 demo_heap = Some (Some p, m') \<and> rt_smem_free (Some p) m' = Some m'' \<and>
    heap_list m'' = [(40, True), (160, False)]"
proof -
  have rq: "request_size 20 = 24" by (simp add: request_size_def RT_ALIGN_def RT_ALIGN_SIZE_def MIN_SIZE_ALIGNED_def)
  have "sm_rep demo_heap ([(40, True)] @ (160, False) # [])" using demo_heap_ok by (simp add: heap_ok_def)
  from rt_smem_alloc_some [OF this, of 20] rq obtain p m' where a: "rt_smem_alloc 20 demo_heap = Some (Some p, m')" by auto
  from rt_smem_alloc_free [OF demo_heap_ok(1) a] demo_heap_ok a show ?thesis by auto
qed

subsection \<open>Resizing\<close>

lemma RT_ALIGN_fixed: "RT_ALIGN (RT_ALIGN sz RT_ALIGN_SIZE) RT_ALIGN_SIZE = RT_ALIGN sz RT_ALIGN_SIZE"
proof -
  define y where "y = RT_ALIGN sz RT_ALIGN_SIZE"
  have b: "\<not> bit y i" if "i < 3" for i
    using that by (auto simp: y_def RT_ALIGN_def RT_ALIGN_SIZE_def bit_simps numeral_3_eq_3 less_Suc_eq)
  have m: "(7 :: u32) = mask 3" by (simp add: mask_eq_exp_minus_1)
  have "y + 7 = y OR 7"
    by (rule disjunctive_add) (use b in \<open>auto simp: bit_simps m\<close>)
  then have "(y + 7) AND NOT 7 = y"
    using b by (auto intro!: bit_word_eqI simp: bit_simps m)
  then have "RT_ALIGN y RT_ALIGN_SIZE = y" by (simp add: RT_ALIGN_def RT_ALIGN_SIZE_def add.commute)
  then show ?thesis by (simp add: y_def)
qed

lemma rt_smem_realloc_shrink:
  assumes r: "sm_rep m (xs @ (k, True) # ys)" and n: "n = unat (RT_ALIGN newsize RT_ALIGN_SIZE)" "0 < n" "n + 28 < k - 16"
  shows "\<exists>m'. rt_smem_realloc (Some (total_size xs + 16)) newsize m = Some (Some (total_size xs + 16), m') \<and>
    sm_rep m' (join (xs @ (n + 16, True) # (k - n - 16, False) # ys)) \<and> sm_end m' = sm_end m"
proof -
  let ?p = "total_size xs" and ?q = "total_size (xs @ [(n + 16, True)])"
  have l: "links_ok m (xs @ (k, True) # ys)" using r by (simp add: sm_rep_def)
  have c: "coalesced xs" "coalesced ys" "coalesced (xs @ [(n + 16, True)])"
    using r by (auto simp: sm_rep_def successively_append_iff successively_Cons)
  note d = links_okD [OF l]
  have n8: "8 dvd n" "8 \<le> n" using n(1,2) RT_ALIGN_8_dvd [of newsize] by (auto elim: dvdE)
  have big: "n + 32 \<le> k" using n(3) by simp
  define m1 where "m1 = split_item ?p n (m\<lparr>sm_used := sm_used m - (k - 16 - n)\<rparr>)"
  define m2 where "m2 = (if ?q < sm_lfree m1 then m1\<lparr>sm_lfree := ?q\<rparr> else m1)"
  have "links_ok (m\<lparr>sm_used := sm_used m - (k - 16 - n)\<rparr>) (xs @ (k, True) # ys)" using l by (simp add: links_ok_cong [of "m\<lparr>sm_used := _\<rparr>"])
  from split_run [OF this n8 big] have l1: "links_ok m1 ((xs @ [(n + 16, True)]) @ (k - n - 16, False) # ys)" by (simp add: m1_def)
  have l2: "links_ok m2 ((xs @ [(n + 16, True)]) @ (k - n - 16, False) # ys)"
    using l1 links_ok_cong [of m2 m1] by (simp add: m2_def)
  have pos: "\<forall>b \<in> set xs. 0 < fst b" by (rule links_ok_pos [OF l])
  have lf1: "sm_lfree m1 = first_free 0 (xs @ (k, True) # ys)" using r by (simp add: m1_def sm_rep_def)
  have "sm_lfree m2 = first_free 0 ((xs @ [(n + 16, True)]) @ (k - n - 16, False) # ys)"
  proof (cases "\<forall>b \<in> set xs. snd b")
    case True
    from first_free_ge [of "?p + k" ys] have "?q < sm_lfree m1" using lf1 True big by (simp add: first_free_append)
    then show ?thesis using True by (simp add: m2_def first_free_append)
  next
    case False
    then show ?thesis using lf1 first_free_lt [OF False pos, of 0] by (auto simp: m2_def first_free_append)
  qed
  moreover have "sm_used m2 = used_size ((xs @ [(n + 16, True)]) @ (k - n - 16, False) # ys)"
    using r big by (simp add: m2_def m1_def sm_rep_def)
  ultimately have lr: "loose_rep m2 ((xs @ [(n + 16, True)]) @ (k - n - 16, False) # ys)" using l2 by (simp add: loose_rep_def)
  have fr: "sm_end m2 = sm_end m" by (simp add: m2_def m1_def)
  obtain m' where m': "plug_holes ?q m2 = Some m'" "sm_rep m' (join ((xs @ [(n + 16, True)]) @ (k - n - 16, False) # ys))" "sm_end m' = sm_end m2"
    using plug_holes_rep [OF lr c(3,2)] by blast
  have dv: "(?p + 16) mod 8 = 0" using d(7) by (auto simp: dvd_imp_mod_0)
  have a: "?p + 16 < sm_end m" "\<not> sm_aligned m < n" "n \<noteq> 0" "k - 16 \<noteq> n" using n big d(3,4) by simp_all
  have it: "mi_next (sm_items m ?p) - ?p - 16 = k - 16" using d(1) by simp
  have "rt_smem_realloc (Some (?p + 16)) newsize m = Option.bind (plug_holes ?q m2) (\<lambda>m. Some (Some (?p + 16), m))"
    using a dv n(3) it by (simp add: rt_smem_realloc_def n(1) [symmetric] item_defs rt_assert_def m1_def m2_def Let_def add.assoc add.commute add.left_commute)
  then show ?thesis using m' fr by simp
qed

text \<open>Resizing a live block. The heap stays well formed. When no block can be given the result is NULL and the
  heap still has the old block; otherwise the block at the result replaces the old one and is at least as long as asked. A block that is
  made smaller by at least the size of an item stays where it is.\<close>

theorem rt_smem_realloc_ok:
  assumes ok: "heap_ok m" and l: "(p, k) \<in> heap_live m" and sz: "0 < newsize" "newsize \<le> 0xfffffff0"
  shows "\<exists>q m'. rt_smem_realloc (Some p) newsize m = Some (q, m') \<and> heap_ok m' \<and>
    (case q of None \<Rightarrow> heap_live m' = heap_live m
     | Some p' \<Rightarrow> \<exists>j \<ge> unat newsize. heap_live m' = insert (p', j) (heap_live m - {(p, k)}) \<and> (unat newsize + 40 \<le> k \<longrightarrow> p' = p))"
proof -
  define n where "n = unat (RT_ALIGN newsize RT_ALIGN_SIZE)"
  have n: "unat newsize \<le> n" "n \<le> unat newsize + 7" using RT_ALIGN_8 [OF sz(2)] by (simp_all add: n_def)
  have n0: "0 < n" using n(1) sz(1) by (simp add: word_less_nat_alt)
  have r: "sm_rep m (heap_list m)" using ok by (simp add: heap_ok_def)
  obtain xs b ys where bs: "heap_list m = xs @ (b, True) # ys" "p = total_size xs + 16" "k = b - 16"
    using live_at_in [of p k 0 "heap_list m"] l unfolding heap_live_def add_0 by blast
  have lk: "links_ok m (xs @ (b, True) # ys)" using r bs(1) by (simp add: sm_rep_def)
  note d = links_okD [OF lk]
  show ?thesis
  proof (cases "sm_aligned m < n")
    case True
    then have "rt_smem_realloc (Some p) newsize m = Some (None, m)" by (simp add: rt_smem_realloc_def n_def Let_def)
    then show ?thesis using ok by simp
  next
    case le: False
    show ?thesis
    proof (cases "n + 28 < b - 16")
      case True
      obtain m' where m': "rt_smem_realloc (Some p) newsize m = Some (Some p, m')" "sm_rep m' (join (xs @ (n + 16, True) # (b - n - 16, False) # ys))"
        using rt_smem_realloc_shrink [OF r [unfolded bs(1)] n_def n0 True] bs(2) by blast
      have "heap_live m - {(p, k)} = set (live_at 0 xs) \<union> set (live_at (total_size xs + b) ys)"
        using live_at_middle [of xs "[(b, True)]" ys] rep_pos [OF r] bs by (auto simp: heap_live_def live_at_append)
      moreover have "heap_live m' = insert (p, n) (set (live_at 0 xs) \<union> set (live_at (total_size xs + b) ys))"
        using heap_ok_rep [OF m'(2)] True bs(2) by (simp add: live_at_join live_at_append add.assoc)
      ultimately show ?thesis using m' heap_ok_rep [OF m'(2)] n(1) by auto
    next
      case small: False
      have dv: "p mod 8 = 0" using d(7) bs(2) by (auto simp: dvd_imp_mod_0)
      have lt: "p < sm_end m" "16 \<le> p" using d(2,3) bs(2) by (auto simp: block_ok_def)
      have it: "mi_next (sm_items m (p - 16)) - (p - 16) - 16 = k" using d(1) bs(2,3) by simp
      show ?thesis
      proof (cases "k = n")
        case True
        then have "rt_smem_realloc (Some p) newsize m = Some (Some p, m)"
          using le n0 dv lt it by (simp add: rt_smem_realloc_def n_def [symmetric] item_defs rt_assert_def Let_def)
        moreover have "heap_live m = insert (p, k) (heap_live m - {(p, k)})" using l by auto
        ultimately show ?thesis using ok n(1) True by auto
      next
        case False
        have nw: "unat (of_nat n :: u32) = n" by (simp add: n_def)
        have rq: "unat newsize \<le> request_size (of_nat n)"
        proof -
          have "RT_ALIGN (of_nat n) RT_ALIGN_SIZE = RT_ALIGN newsize RT_ALIGN_SIZE" by (simp add: n_def RT_ALIGN_fixed)
          then show ?thesis using n(1) by (simp add: request_size_def Let_def n_def)
        qed
        have st: "rt_smem_realloc (Some p) newsize m =
            Option.bind (rt_smem_alloc (of_nat n) m) (\<lambda>(nmem, m). case nmem of None \<Rightarrow> Some (None, m)
              | Some _ \<Rightarrow> Option.bind (rt_smem_free (Some p) m) (\<lambda>m. Some (nmem, m)))"
          using le n0 dv lt it False small bs(3)
          by (simp add: rt_smem_realloc_def n_def [symmetric] item_defs rt_assert_def Let_def)
        obtain q m1 where q: "rt_smem_alloc (of_nat n) m = Some (q, m1)" "heap_ok m1"
          "case q of None \<Rightarrow> heap_live m1 = heap_live m
           | Some p \<Rightarrow> \<exists>k \<ge> request_size (of_nat n). (p, k) \<notin> heap_live m \<and> heap_live m1 = insert (p, k) (heap_live m)"
          using heap_alloc [OF ok, of "of_nat n"] by blast
        show ?thesis
        proof (cases q)
          case None
          then show ?thesis using st q by simp
        next
          case (Some p')
          then obtain j where j: "request_size (of_nat n) \<le> j" "(p', j) \<notin> heap_live m" "heap_live m1 = insert (p', j) (heap_live m)"
            using q(3) by auto
          have "(p, k) \<in> heap_live m1" using j(3) l by simp
          from heap_release [OF q(2) this] obtain m2 where m2: "rt_smem_free (Some p) m1 = Some m2" "heap_ok m2"
            "heap_live m2 = heap_live m1 - {(p, k)}" by blast
          have "heap_live m2 = insert (p', j) (heap_live m - {(p, k)})" using m2(3) j(2,3) l by auto
          moreover have "\<not> unat newsize + 40 \<le> k" using small n(2) bs(3) by simp
          moreover have "unat newsize \<le> j" using rq j(1) by simp
          moreover have "rt_smem_realloc (Some p) newsize m = Some (Some p', m2)" using st q(1) Some m2(1) by simp
          ultimately show ?thesis using m2(2) by (intro exI [of _ "Some p'"] exI [of _ m2]) (simp, blast)
        qed
      qed
    qed
  qed
qed

theorem rt_smem_realloc_ok_witness:
  "\<exists>q m'. rt_smem_realloc (Some 16) 100 demo_heap = Some (q, m') \<and> heap_ok m' \<and>
    (case q of None \<Rightarrow> heap_live m' = {(16, 24)} | Some p \<Rightarrow> \<exists>j \<ge> 100. heap_live m' = {(p, j)})"
  using rt_smem_realloc_ok [of demo_heap 16 24 100] demo_heap_ok by (force split: option.splits)

subsection \<open>Initialisation, and sizes that wrap\<close>

lemma align_dvd: "8 dvd unat w \<longleftrightarrow> take_bit 3 (w :: u32) = 0"
proof -
  have "8 dvd unat w \<longleftrightarrow> take_bit 3 (unat w) = 0" by (simp add: take_bit_eq_mod mod_eq_0_iff_dvd)
  also have "\<dots> \<longleftrightarrow> take_bit 3 w = 0"
    using unsigned_take_bit_eq [of 3 w, where ?'a = nat] by (metis unsigned_0 unsigned_eq_0_iff)
  finally show ?thesis .
qed

lemma RT_ALIGN_DOWN_8_dvd: "8 dvd unat (RT_ALIGN_DOWN w RT_ALIGN_SIZE)"
  unfolding align_dvd by (rule bit_word_eqI) (auto simp: RT_ALIGN_DOWN_def RT_ALIGN_SIZE_def bit_simps)

lemma RT_ALIGN_DOWN_le: "RT_ALIGN_DOWN w RT_ALIGN_SIZE \<le> w"
  unfolding RT_ALIGN_DOWN_def by (rule word_and_le2)

lemma dvd_round:
  assumes "8 dvd (b :: nat)" and "8 dvd (e :: nat)" and "s \<le> e" and "b \<le> s + 7"
  shows "b \<le> e"
  using assms by (auto elim!: dvdE)



lemma RT_ALIGN_wraps: "0xfffffff8 < sz \<Longrightarrow> RT_ALIGN sz RT_ALIGN_SIZE = 0"
proof -
  assume sz: "0xfffffff8 < sz"
  define x where "x = sz + 7"
  have m: "(7 :: u32) = mask 3" by (simp add: mask_eq_exp_minus_1)
  have "unat x = (unat sz + 7) mod 2 ^ 32" by (simp add: x_def unat_word_ariths)
  also have "\<dots> < 8" using sz unsigned_less [of sz, where ?'a = nat] by (simp add: word_less_nat_alt le_mod_geq)
  finally have lt: "unat x < 8" .
  have "unat (take_bit 3 x) = take_bit 3 (unat x)" by (rule unsigned_take_bit_eq)
  also have "\<dots> = unat x" using lt by (simp add: take_bit_eq_mod)
  finally have "x = take_bit 3 x" by (simp only: word_unat_eq_iff)
  then have "x AND NOT 7 = take_bit 3 x AND NOT (mask 3)" using m by simp
  also have "\<dots> = 0" by (rule bit_word_eqI) (auto simp: bit_simps)
  finally show ?thesis by (simp add: RT_ALIGN_def RT_ALIGN_SIZE_def x_def add.commute)
qed

text \<open>C19. A size above 0xfffffff8 is rounded to zero on 32 bit. Allocation then succeeds as soon as a free block has 32 bytes,
  and hands out the smallest block, although no heap can hold the request; resizing frees the block instead of
  refusing.\<close>

theorem rt_smem_huge_request:
  assumes "0xfffffff8 < sz" and "heap_ok m" and "(k, False) \<in> set (heap_list m)" and "32 \<le> k"
  shows "(\<exists>xs k' ys m'. heap_list m = xs @ (k', False) # ys \<and> rt_smem_alloc sz m = Some (Some (total_size xs + 16), m') \<and>
      heap_list m' = xs @ place 16 k' @ ys) \<and>
    rt_smem_realloc rmem sz m = Option.bind (rt_smem_free rmem m) (\<lambda>m'. Some (None, m'))"
proof -
  have rq: "request_size sz = 16" using RT_ALIGN_wraps [OF assms(1)] by (simp add: request_size_def MIN_SIZE_ALIGNED_def)
  have r: "sm_rep m (heap_list m)" using assms(2) by (simp add: heap_ok_def)
  obtain q where "fit_off 16 0 (heap_list m) = Some q"
    using fit_off_NoneD [of 16 0 "heap_list m" k] assms(3,4) by fastforce
  from fit_off_SomeD [OF this] obtain xs k' ys where bs: "heap_list m = xs @ (k', False) # ys" "16 + 16 \<le> k'"
    "\<forall>z. (z, False) \<in> set xs \<longrightarrow> z < 16 + 16" by blast
  have "sz \<noteq> 0" using assms(1) by auto
  then obtain m' where m': "rt_smem_alloc sz m = Some (Some (total_size xs + 16), m')" "sm_rep m' (xs @ place 16 k' @ ys)"
    using rt_smem_alloc_some [OF r [unfolded bs(1)], of sz] bs(2,3) unfolding rq by blast
  have "rt_smem_realloc rmem sz m = Option.bind (rt_smem_free rmem m) (\<lambda>m'. Some (None, m'))"
    using RT_ALIGN_wraps [OF assms(1)] by (simp add: rt_smem_realloc_def)
  then show ?thesis using bs(1) m' heap_list_rep by blast
qed

theorem rt_smem_huge_request_witness:
  "\<exists>m' ys. rt_smem_alloc 0xffffffff demo_heap = Some (Some 56, m') \<and> heap_list m' = [(40, True), (32, True)] @ ys"
proof -
  obtain xs k' ys m' where w: "heap_list demo_heap = xs @ (k', False) # ys"
    "rt_smem_alloc 0xffffffff demo_heap = Some (Some (total_size xs + 16), m')" "heap_list m' = xs @ place 16 k' @ ys"
    using rt_smem_huge_request [of "0xffffffff" demo_heap 160 None] demo_heap_ok by auto
  have "xs = [(40, True)] \<and> k' = 160 \<and> ys = []" using w(1) demo_heap_ok by (auto simp: Cons_eq_append_conv append_eq_Cons_conv)
  then show ?thesis using w(2,3) by (simp add: place_def)
qed

end
