(* ===== verification/ThreadExit.thy ===== *)
theory ThreadExit
  imports MutexRelease
begin

text \<open>
  The end of a thread and the control call (rt-thread/src/thread.c): a thread that returns from its entry function runs
  \<open>_thread_exit\<close>, another thread is ended with \<open>rt_thread_detach\<close> or \<open>rt_thread_delete\<close>. Both close the thread,
  give up its place in the queue of a mutex and its mutexes, and leave it on the list of defunct threads.
\<close>

fun release_taken :: "nat list \<Rightarrow> kst \<Rightarrow> kst option" where
  \<comment> \<open>the loop over the taken mutexes; it reads the next node before it releases one, and a release takes no other mutex of the list off\<close>
  "release_taken [] s = Some s"
| "release_taken (m # ms) s = do {
     let s = upd_mutex m (\<lambda>x. x\<lparr>mtx_hold := 1\<rparr>) s;
     (_, s) \<leftarrow> rt_mutex_release m s;
     release_taken ms s
   }"

definition thread_detach_from_mutex :: "nat \<Rightarrow> kst \<Rightarrow> kst option" where
  \<comment> \<open>\<open>_thread_detach_from_mutex\<close>\<close>
  "thread_detach_from_mutex t s = do {
     let s = rt_spin_lock s;
     s \<leftarrow> (case t_pending_object (tcbs s t) of
         Some (OMutex m) \<Rightarrow>
           if is_mutex m s then do {
             s \<leftarrow> rt_mutex_drop_thread m t s;
             Some (upd_tcb t (\<lambda>b. b\<lparr>t_pending_object := None\<rparr>) s)
           } else Some s
       | _ \<Rightarrow> Some s);
     s \<leftarrow> release_taken (takens s t) s;
     rt_spin_unlock s
   }"

definition thread_detach :: "nat \<Rightarrow> kst \<Rightarrow> (int \<times> kst) option" where
  \<comment> \<open>\<open>_thread_detach\<close>\<close>
  "thread_detach t s = do {
     let s = rt_enter_critical s;
     (error, s) \<leftarrow> rt_thread_close t s;
     s \<leftarrow> thread_detach_from_mutex t s;
     s \<leftarrow> rt_thread_defunct_enqueue t s;
     s \<leftarrow> rt_exit_critical s;
     Some (error, s)
   }"

definition thread_exit :: "kst \<Rightarrow> kst option" where
  \<comment> \<open>\<open>_thread_exit\<close>, which does not return\<close>
  "thread_exit s = do {
     t \<leftarrow> rt_thread_self s;
     let s = rt_enter_critical s;
     (_, s) \<leftarrow> rt_thread_close t s;
     s \<leftarrow> thread_detach_from_mutex t s;
     s \<leftarrow> rt_thread_defunct_enqueue t s;
     s \<leftarrow> rt_exit_critical s;
     rt_schedule s
   }"

definition rt_thread_detach :: "nat \<Rightarrow> kst \<Rightarrow> (int \<times> kst) option" where
  "rt_thread_detach t s = do {
     rt_assert (rt_object_get_type (OThread t) s = RT_Object_Class_Thread);
     rt_assert (rt_object_is_systemobject (OThread t) s);
     thread_detach t s
   }"

definition rt_thread_delete :: "nat \<Rightarrow> kst \<Rightarrow> (int \<times> kst) option" where
  "rt_thread_delete t s = do {
     rt_assert (rt_object_get_type (OThread t) s = RT_Object_Class_Thread);
     rt_assert (\<not> rt_object_is_systemobject (OThread t) s);
     thread_detach t s
   }"

datatype thread_cmd =
    THREAD_CTRL_CHANGE_PRIORITY u8 | THREAD_CTRL_RESET_PRIORITY u8 | THREAD_CTRL_STARTUP | THREAD_CTRL_CLOSE
  | THREAD_CTRL_BIND_CPU u8 | THREAD_CTRL_OTHER

definition rt_sched_thread_bind_cpu :: "nat \<Rightarrow> u8 \<Rightarrow> int" where
  "rt_sched_thread_bind_cpu t cpu = - RT_EINVAL"

definition rt_thread_control :: "nat \<Rightarrow> thread_cmd \<Rightarrow> kst \<Rightarrow> (int \<times> kst) option" where
  "rt_thread_control t cmd s = do {
     rt_assert (rt_object_get_type (OThread t) s = RT_Object_Class_Thread);
     case cmd of
       THREAD_CTRL_CHANGE_PRIORITY p \<Rightarrow> rt_sched_thread_change_priority t p s
     | THREAD_CTRL_RESET_PRIORITY p \<Rightarrow> rt_sched_thread_reset_priority t p s
     | THREAD_CTRL_STARTUP \<Rightarrow> rt_thread_startup t s
     | THREAD_CTRL_CLOSE \<Rightarrow> do {
         (rt_err, s) \<leftarrow> (if rt_object_is_systemobject (OThread t) s then rt_thread_detach t s else rt_thread_delete t s);
         s \<leftarrow> rt_schedule s;
         Some (rt_err, s)
       }
     | THREAD_CTRL_BIND_CPU cpu \<Rightarrow> Some (rt_sched_thread_bind_cpu t cpu, s)
     | THREAD_CTRL_OTHER \<Rightarrow> Some (RT_EOK, s)
   }"

subsection \<open>Closing\<close>

definition closed :: "nat \<Rightarrow> kst \<Rightarrow> kst" where
  \<comment> \<open>the state \<open>rt_thread_close\<close> leaves\<close>
  "closed t s =
     (let s = timer_off (ThreadTimer t) (rt_sched_remove_thread t s);
          s = s\<lparr>containers := st_remove (OTimer (ThreadTimer t)) (containers s)\<rparr>;
          s = upd_obj (OTimer (ThreadTimer t)) (\<lambda>ob. ob\<lparr>o_type := RT_Object_Class_Null\<rparr>) s
      in rt_sched_thread_close t s)"

lemma closed_fields [simp]:
  "tcbs (closed t s) = (tcbs s)(t := (tcbs s t)\<lparr>t_stat := RT_THREAD_CLOSE\<rparr>)"
  "tlists (closed t s) = st_remove t (tlists s)" "current (closed t s) = current s" "lock_nest (closed t s) = lock_nest s"
  "crit_flag (closed t s) = crit_flag s" "irq_nest (closed t s) = irq_nest s" "takens (closed t s) = takens s"
  "mutexes (closed t s) = mutexes s" "tmlists (closed t s) = st_remove (ThreadTimer t) (tmlists s)"
  "r \<noteq> OTimer (ThreadTimer t) \<Longrightarrow> objs (closed t s) r = objs s r"
  "ready_group (closed t s) = ready_group (rt_sched_remove_thread t s)"
  by (simp_all add: closed_def Let_def rt_sched_thread_close_def timer_off_def tm_clear_def timer_remove_def)

lemma thread_close_run:
  assumes k: "kinv s" and l: "live (tcbs s t)" and c: "rt_thread_self s \<noteq> Some t \<or> rt_critical_level s \<noteq> 0"
    and sys: "rt_object_is_systemobject (OTimer (ThreadTimer t)) s"
  shows "rt_thread_close t s = Some (RT_EOK, closed t s)"
proof -
  have st: "stat_of (tcbs s t) \<noteq> RT_THREAD_CLOSE" "stat_of (tcbs s t) \<noteq> RT_THREAD_INIT"
    using l by (auto simp: live_def stat_defs susp_stat_stat_of)
  let ?s1 = "rt_sched_remove_thread t s" and ?s2 = "timer_off (ThreadTimer t) (rt_sched_remove_thread t s)"
  have cr: "crit_ok ?s1" "crit_ok ?s2" using k by (simp_all add: kinv_def crit_ok_def)
  have ty: "is_timer (ThreadTimer t) s" using kinv_live [OF k l] by (simp add: thread_ok_def)
  have ot: "o_type (objs ?s2 (OTimer (ThreadTimer t))) = o_type (objs s (OTimer (ThreadTimer t)))"
    by (simp add: timer_off_def tm_clear_def timer_remove_def)
  have inf: "rt_object_get_information (o_type (objs s (OTimer (ThreadTimer t)))) \<noteq> None"
    using ty by (simp add: rt_object_get_information_def rt_object_get_type_def object_container_def class_defs)
  have sys1: "rt_object_is_systemobject (OTimer (ThreadTimer t)) ?s1" using sys by (simp add: rt_object_is_systemobject_def)
  have wl: "with_lock (\<lambda>s. tm_clear RT_TIMER_FLAG_ACTIVATED (ThreadTimer t) (timer_remove (ThreadTimer t) s)) ?s1 = Some ?s2"
    using with_lock_run [OF lock_neutral_timer(3) cr(1)] by (simp add: timer_off_def)
  have "rt_timer_detach (ThreadTimer t) ?s1 =
      Some (RT_EOK, ?s2\<lparr>containers := st_remove (OTimer (ThreadTimer t)) (containers ?s2),
        objs := (objs ?s2)(OTimer (ThreadTimer t) := (objs ?s2 (OTimer (ThreadTimer t)))\<lparr>o_type := RT_Object_Class_Null\<rparr>)\<rparr>)"
    using rt_object_detach_run [OF cr(2), of "OTimer (ThreadTimer t)"] ty sys1 wl inf ot
    by (simp add: rt_timer_detach_def rt_assert_def)
  then show ?thesis
    using c st by (simp add: rt_thread_close_def rt_assert_def rt_sched_thread_get_stat_def closed_def Let_def)
qed

lemma kinv_closed:
  assumes k: "kinv s" and l: "live (tcbs s t)"
  shows "kinv (closed t s)"
proof -
  let ?b = "(tcbs s t)\<lparr>t_stat := RT_THREAD_CLOSE\<rparr>"
  have b: "stat_of ?b = RT_THREAD_CLOSE" "\<not> susp_stat ?b"
    by (simp_all add: stat_of_def susp_stat_def stat_defs)
  then have nl: "\<not> live ?b" "stat_of ?b \<noteq> RT_THREAD_READY" "stat_of ?b \<noteq> RT_THREAD_RUNNING" by (simp_all add: live_def stat_defs)
  have tab: "table_ok s" using k by (simp add: kinv_def sched_inv_def)
  have but: "tinv_but t (st_remove t (tlists s)) (ready_group (rt_sched_remove_thread t s)) (tcbs s)"
    using table_remove [OF tab, of t] by simp
  have m: "mask_ok ?b" using kinv_runnable [OF k l] by (auto simp: runnable_ok_def mask_ok_def)
  have "table_ok (closed t s)" using tinv_park [OF but nl(2) m] nl(3) b(2) by simp
  moreover have "cinv (current s) ((tcbs s)(t := ?b))"
    using k nl by (intro cinv_close) (auto simp: kinv_def sched_inv_def cinv_weaken)
  moreover have "timers_ok (closed t s)"
  proof -
    let ?x = "timer_off (ThreadTimer t) (rt_sched_remove_thread t s)"
    have fl: "tm_flag tm (closed t s) = tm_flag tm ?x" for tm
      by (simp add: closed_def Let_def rt_sched_thread_close_def tm_flag_def)
    have "timers_ok (closed t s) = timers_ok ?x" by (simp add: timers_ok_def timer_list_of_def tm_has_def fl)
    moreover have "timers_ok ?x" using k by (intro timers_ok_off) (simp add: kinv_def)
    ultimately show ?thesis by simp
  qed
  moreover have "threads_ok (closed t s)"
    by (rule threads_okI [where t = t and s = s]) (use k nl(1) in \<open>auto simp: kinv_def\<close>)
  ultimately show ?thesis using k by (simp add: kinv_def sched_inv_def crit_ok_def)
qed

subsection \<open>Ending another thread\<close>

definition disowned :: "nat list \<Rightarrow> nat \<Rightarrow> kst \<Rightarrow> kst" where
  \<comment> \<open>what the releases leave when the running thread \<open>me\<close> does not own the mutexes: counters and an error code\<close>
  "disowned ms me s =
     (if ms = [] then s else
        s\<lparr>mutexes := (\<lambda>m. if m \<in> set ms then (mutexes s m)\<lparr>mtx_hold := 1\<rparr> else mutexes s m),
          tcbs := (tcbs s)(me := (tcbs s me)\<lparr>t_error := - RT_ERROR\<rparr>)\<rparr>)"

lemma release_not_owner:
  assumes c: "crit_ok s" "is_mutex m s" "irq_nest s = 0" "current s = Some me" and n: "mtx_owner (mutexes s m) \<noteq> Some me"
  shows "rt_mutex_release m s = Some (- RT_ERROR, upd_tcb me (\<lambda>b. b\<lparr>t_error := - RT_ERROR\<rparr>) s)"
proof -
  let ?s = "upd_tcb me (\<lambda>b. b\<lparr>t_error := - RT_ERROR\<rparr>) s"
  have "rt_spin_lock s\<lparr>tcbs := (tcbs s)(me := (tcbs s me)\<lparr>t_error := - RT_ERROR\<rparr>)\<rparr> = rt_spin_lock ?s"
    by (simp add: rt_spin_lock_def rt_enter_critical_def)
  moreover have "rt_spin_unlock (rt_spin_lock ?s) = Some ?s" using c(1) by (intro spin_pair) simp
  ultimately have "rt_spin_unlock (rt_spin_lock s\<lparr>tcbs := (tcbs s)(me := (tcbs s me)\<lparr>t_error := - RT_ERROR\<rparr>)\<rparr>) = Some ?s"
    by (simp only:)
  then show ?thesis
    using c n by (simp add: rt_mutex_release_def rt_assert_def debug_defs rt_thread_self_def)
qed

lemma release_taken_not_owner:
  assumes "crit_ok s" "irq_nest s = 0" "current s = Some me"
    and "\<forall>m \<in> set ms. is_mutex m s \<and> mtx_owner (mutexes s m) \<noteq> Some me"
  shows "release_taken ms s = Some (disowned ms me s)"
  using assms
proof (induction ms arbitrary: s)
  case (Cons m ms)
  let ?s1 = "upd_mutex m (\<lambda>x. x\<lparr>mtx_hold := 1\<rparr>) s"
  let ?s2 = "upd_tcb me (\<lambda>b. b\<lparr>t_error := - RT_ERROR\<rparr>) ?s1"
  have 1: "rt_mutex_release m ?s1 = Some (- RT_ERROR, ?s2)"
    by (rule release_not_owner) (use Cons.prems in simp_all)
  have 2: "release_taken ms ?s2 = Some (disowned ms me ?s2)"
    by (rule Cons.IH) (use Cons.prems in auto)
  have "disowned ms me ?s2 = disowned (m # ms) me s"
    by (auto simp: disowned_def fun_eq_iff)
  then show ?case using 1 2 by simp
qed (simp add: disowned_def)

lemma disowned_fields [simp]:
  "tlists (disowned ms me s) = tlists s" "current (disowned ms me s) = current s" "lock_nest (disowned ms me s) = lock_nest s"
  "crit_flag (disowned ms me s) = crit_flag s" "takens (disowned ms me s) = takens s" "tmlists (disowned ms me s) = tmlists s"
  "mtx_owner (mutexes (disowned ms me s) m) = mtx_owner (mutexes s m)"
  "m \<in> set ms \<Longrightarrow> mtx_hold (mutexes (disowned ms me s) m) = 1"
  "t_stat (tcbs (disowned ms me s) u) = t_stat (tcbs s u)"
  by (auto simp: disowned_def)

lemma disowned_lock: "disowned ms me (rt_spin_lock s) = rt_spin_lock (disowned ms me s)"
  by (rule kst.equality) (auto simp: fun_eq_iff disowned_def rt_spin_lock_def rt_enter_critical_def)

lemma kinv_disowned [simp]: "kinv (disowned ms me s) = kinv s"
  unfolding disowned_def by (cases "ms = []") (simp_all add: same_sched_def stat_of_def)

lemma kinv_defunct:
  assumes k: "kinv s" and st: "stat_of (tcbs s t) = RT_THREAD_CLOSE" and u: "unlinked t (tlists s)"
  shows "kinv (upd_tlists (st_push Defunct t) s)"
proof -
  have tab: "tinv_but t (tlists s) (ready_group s) (tcbs s)"
    using k u by (intro tinv_but_unlinked) (simp_all add: kinv_def sched_inv_def)
  have m: "mask_ok (tcbs s t)" using k by (simp add: kinv_def sched_inv_def tinv_def link_ok_def)
  have d: "distinct (t # tlists s Defunct)" using u store_okD(1) [OF kinv_store [OF k]] by (auto simp: unlinked_def)
  have "st_push Defunct t (tlists s) = (tlists s)(Defunct := t # tlists s Defunct)"
    using u by (simp add: st_push_def)
  then have "table_ok (upd_tlists (st_push Defunct t) s)"
    using tinv_defunct [OF tab st m, of "t # tlists s Defunct"] d by simp
  then show ?thesis
    using k by (simp add: kinv_def sched_inv_def crit_ok_def threads_ok_def thread_ok_def)
qed

text \<open>C20. Ending another thread. The thread is closed, its timer is off, it has left every queue and is the first of
  the defunct threads; the caller goes on running and the invariant of the kernel holds. But the mutexes the thread owned are not
  released: \<open>rt_mutex_release\<close> refuses because the caller is not the owner, and they stay with the
  dead thread for ever.\<close>

theorem thread_detach_keeps_mutexes:
  assumes k: "kinv s" and me: "current s = Some me" "me \<noteq> t" "irq_nest s = 0" and l: "live (tcbs s t)"
    and sys: "rt_object_is_systemobject (OTimer (ThreadTimer t)) s" and p: "t_pending_object (tcbs s t) = None"
    and ms: "\<forall>m \<in> set (takens s t). is_mutex m s \<and> mtx_owner (mutexes s m) = Some t"
  shows "\<exists>s'. thread_detach t s = Some (RT_EOK, s') \<and> kinv s' \<and> current s' = Some me \<and>
    stat_of (tcbs s' t) = RT_THREAD_CLOSE \<and> (\<forall>h. t \<in> set (tlists s' h) \<longleftrightarrow> h = Defunct) \<and> hd (tlists s' Defunct) = t \<and>
    (\<forall>h. ThreadTimer t \<notin> set (tmlists s' h)) \<and>
    (\<forall>m \<in> set (takens s t). mtx_owner (mutexes s' m) = Some t \<and> mtx_hold (mutexes s' m) = 1)"
proof -
  let ?s1 = "rt_spin_lock s"
  let ?s2 = "closed t ?s1"
  let ?s3 = "disowned (takens s t) me ?s2"
  let ?s4 = "upd_tlists (st_push Defunct t) ?s3"
  have k1: "kinv ?s1" using k by simp
  have l1: "live (tcbs ?s1 t)" using l by simp
  have c: "rt_thread_close t ?s1 = Some (RT_EOK, ?s2)"
    by (rule thread_close_run [OF k1 l1]) (use me sys in \<open>simp_all add: rt_thread_self_def rt_object_is_systemobject_def\<close>)
  have k2: "kinv ?s2" by (rule kinv_closed [OF k1 l1])
  have ty: "is_mutex m (rt_spin_lock ?s2)" if "m \<in> set (takens s t)" for m
    using ms that by (simp add: rt_object_get_type_def)
  have rt: "release_taken (takens s t) (rt_spin_lock ?s2) = Some (disowned (takens s t) me (rt_spin_lock ?s2))"
    by (rule release_taken_not_owner) (use k2 me ms ty in \<open>auto simp: kinv_def\<close>)
  have lk: "disowned (takens s t) me (rt_spin_lock ?s2) = rt_spin_lock ?s3" by (rule disowned_lock)
  have "rt_spin_unlock (rt_spin_lock ?s3) = Some ?s3" using k2 by (intro spin_pair) (simp add: kinv_def crit_ok_def)
  then have d: "thread_detach_from_mutex t ?s2 = Some ?s3"
    using rt lk p by (simp add: thread_detach_from_mutex_def)
  have k3: "kinv ?s3" using k2 by simp
  have st: "stat_of (tcbs ?s3 t) = RT_THREAD_CLOSE" by (simp add: stat_of_def stat_defs)
  have un: "unlinked t (tlists ?s3)" by (simp add: unlinked_def)
  have k4: "kinv ?s4" by (rule kinv_defunct [OF k3 st un])
  have q: "rt_thread_defunct_enqueue t ?s3 = Some ?s4"
    unfolding rt_thread_defunct_enqueue_def
    by (rule with_lock_run) (use k3 in \<open>simp_all add: lock_neutral_def kinv_def\<close>)
  have lo: "locked_ok ?s4"
    by (rule locked_ok_update [OF locked_ok_lock [OF k] k4]) simp_all
  let ?s5 = "?s4\<lparr>lock_nest := lock_nest ?s4 - 1\<rparr>"
  have x: "rt_exit_critical ?s4 = Some ?s5" "kinv ?s5"
    using locked_ok_unlock [OF lo] by (simp_all add: rt_spin_unlock_def)
  have "thread_detach t s = Some (RT_EOK, ?s5)"
    using c d q x(1) by (simp add: thread_detach_def rt_spin_lock_def)
  moreover have "t \<in> set (tlists ?s5 h) \<longleftrightarrow> h = Defunct" for h by (simp add: st_push_def)
  moreover have "hd (tlists ?s5 Defunct) = t" by (simp add: st_push_def)
  ultimately show ?thesis using x(2) me ms st by (intro exI [of _ ?s5]) (simp add: stat_of_def)
qed

theorem thread_detach_keeps_mutexes_witness:
  "\<exists>s'. thread_detach 4 (demo_mx (Some 4)) = Some (RT_EOK, s') \<and> stat_of (tcbs s' 4) = RT_THREAD_CLOSE \<and>
    hd (tlists s' Defunct) = 4 \<and> mtx_owner (mutexes s' 7) = Some 4"
proof -
  have "kinv (demo_mx (Some 4))" using minv_demo_mx by simp
  moreover have "live (tcbs (demo_mx (Some 4)) 4)" using demo_ready [of "SemQ 9"] by (simp add: demo_mx_def live_def)
  moreover have "rt_object_is_systemobject (OTimer (ThreadTimer 4)) (demo_mx (Some 4))"
    by (simp add: demo_mx_def rt_object_is_systemobject_def demo_objs_def class_defs)
  moreover have "t_pending_object (tcbs (demo_mx (Some 4)) 4) = None" by (simp add: demo_mx_def demo_pending)
  moreover have "takens (demo_mx (Some 4)) 4 = [7]" "current (demo_mx (Some 4)) = Some 1" "irq_nest (demo_mx (Some 4)) = 0"
    "is_mutex 7 (demo_mx (Some 4))" "mtx_owner (mutexes (demo_mx (Some 4)) 7) = Some 4"
    by (simp_all add: demo_mx_def demo_mutexes_def)
  ultimately show ?thesis using thread_detach_keeps_mutexes [of "demo_mx (Some 4)" 1 4] by auto
qed

end
