(* ===== verification/KLibMem.thy ===== *)
theory KLibMem
  imports Prelude
begin

text \<open>
  The memory routines of the kernel's C library (rt-thread/src/klibc/kstring.c): \<open>rt_memset\<close>, \<open>rt_memcpy\<close>, \<open>rt_memmove\<close>,
  \<open>rt_memcmp\<close>, in the variants of this configuration. The memory is a partial map from addresses to bytes; a routine that reads or writes
  where there is no memory is \<open>None\<close>. An address is a natural number: no object wraps around the end of the address space. A
  machine word is the list of its bytes, because the routines only copy words.
\<close>

type_synonym memory = "nat \<rightharpoonup> u8"

definition store :: "nat \<Rightarrow> u8 \<Rightarrow> memory \<Rightarrow> memory option" where
  "store a v m = (if m a = None then None else Some (m(a \<mapsto> v)))"

fun load_bytes :: "nat \<Rightarrow> nat \<Rightarrow> memory \<Rightarrow> u8 list option" where
  "load_bytes a 0 m = Some []"
| "load_bytes a (Suc n) m = do { b \<leftarrow> m a; bs \<leftarrow> load_bytes (a + 1) n m; Some (b # bs) }"

fun store_bytes :: "nat \<Rightarrow> u8 list \<Rightarrow> memory \<Rightarrow> memory option" where
  "store_bytes a [] m = Some m"
| "store_bytes a (b # bs) m = do { m \<leftarrow> store a b m; store_bytes (a + 1) bs m }"

subsection \<open>rt_memset\<close>

definition LBLOCKSIZE :: nat where "LBLOCKSIZE = 4"

fun set_bytes :: "nat \<Rightarrow> nat \<Rightarrow> u8 \<Rightarrow> memory \<Rightarrow> memory option" where
  \<comment> \<open>the loop \<open>while (count--)\<close>\<close>
  "set_bytes 0 a d m = Some m"
| "set_bytes (Suc count) a d m = do { m \<leftarrow> store a d m; set_bytes count (a + 1) d m }"

function set_blocks :: "nat \<Rightarrow> nat \<Rightarrow> u8 list \<Rightarrow> memory \<Rightarrow> ((nat \<times> nat) \<times> memory) option" where
  \<comment> \<open>four words at a time; the results are \<open>count\<close> and \<open>aligned_addr\<close>\<close>
  "set_blocks count a buffer m =
     (if count \<ge> LBLOCKSIZE * 4 then do {
        m \<leftarrow> store_bytes a buffer m;
        m \<leftarrow> store_bytes (a + LBLOCKSIZE) buffer m;
        m \<leftarrow> store_bytes (a + 2 * LBLOCKSIZE) buffer m;
        m \<leftarrow> store_bytes (a + 3 * LBLOCKSIZE) buffer m;
        set_blocks (count - 4 * LBLOCKSIZE) (a + 4 * LBLOCKSIZE) buffer m
      } else Some ((count, a), m))"
  by pat_completeness auto
termination by (relation "measure fst") (auto simp: LBLOCKSIZE_def)

function set_words :: "nat \<Rightarrow> nat \<Rightarrow> u8 list \<Rightarrow> memory \<Rightarrow> ((nat \<times> nat) \<times> memory) option" where
  "set_words count a buffer m =
     (if count \<ge> LBLOCKSIZE then do {
        m \<leftarrow> store_bytes a buffer m;
        set_words (count - LBLOCKSIZE) (a + LBLOCKSIZE) buffer m
      } else Some ((count, a), m))"
  by pat_completeness auto
termination by (relation "measure fst") (auto simp: LBLOCKSIZE_def)

definition rt_memset :: "nat \<Rightarrow> int \<Rightarrow> u32 \<Rightarrow> memory \<Rightarrow> memory option" where
  "rt_memset s c count m =
     (let d = word_of_int c :: u8 in
      if \<not> unat count < LBLOCKSIZE \<and> s mod LBLOCKSIZE = 0 then do {
        ((n, a), m) \<leftarrow> set_blocks (unat count) s (replicate LBLOCKSIZE d) m;
        ((n, a), m) \<leftarrow> set_words n a (replicate LBLOCKSIZE d) m;
        set_bytes n a d m
      } else set_bytes (unat count) s d m)"

subsection \<open>rt_memcpy and rt_memmove\<close>

fun copy_bytes :: "nat \<Rightarrow> nat \<Rightarrow> nat \<Rightarrow> memory \<Rightarrow> memory option" where
  \<comment> \<open>upwards, one byte at a time\<close>
  "copy_bytes 0 d s m = Some m"
| "copy_bytes (Suc n) d s m = do { b \<leftarrow> m s; m \<leftarrow> store d b m; copy_bytes n (d + 1) (s + 1) m }"

definition copy_word :: "nat \<Rightarrow> nat \<Rightarrow> memory \<Rightarrow> memory option" where
  "copy_word d s m = do { bs \<leftarrow> load_bytes s LBLOCKSIZE m; store_bytes d bs m }"

function copy_blocks :: "nat \<Rightarrow> nat \<Rightarrow> nat \<Rightarrow> memory \<Rightarrow> ((nat \<times> nat \<times> nat) \<times> memory) option" where
  "copy_blocks len d s m =
     (if len \<ge> 4 * LBLOCKSIZE then do {
        m \<leftarrow> copy_word d s m;
        m \<leftarrow> copy_word (d + LBLOCKSIZE) (s + LBLOCKSIZE) m;
        m \<leftarrow> copy_word (d + 2 * LBLOCKSIZE) (s + 2 * LBLOCKSIZE) m;
        m \<leftarrow> copy_word (d + 3 * LBLOCKSIZE) (s + 3 * LBLOCKSIZE) m;
        copy_blocks (len - 4 * LBLOCKSIZE) (d + 4 * LBLOCKSIZE) (s + 4 * LBLOCKSIZE) m
      } else Some ((len, d, s), m))"
  by pat_completeness auto
termination by (relation "measure fst") (auto simp: LBLOCKSIZE_def)

function copy_words :: "nat \<Rightarrow> nat \<Rightarrow> nat \<Rightarrow> memory \<Rightarrow> ((nat \<times> nat \<times> nat) \<times> memory) option" where
  "copy_words len d s m =
     (if len \<ge> LBLOCKSIZE then do {
        m \<leftarrow> copy_word d s m;
        copy_words (len - LBLOCKSIZE) (d + LBLOCKSIZE) (s + LBLOCKSIZE) m
      } else Some ((len, d, s), m))"
  by pat_completeness auto
termination by (relation "measure fst") (auto simp: LBLOCKSIZE_def)

definition rt_memcpy :: "nat \<Rightarrow> nat \<Rightarrow> u32 \<Rightarrow> memory \<Rightarrow> memory option" where
  "rt_memcpy dst src count m =
     (if \<not> unat count < 4 * LBLOCKSIZE \<and> src mod LBLOCKSIZE = 0 \<and> dst mod LBLOCKSIZE = 0 then do {
        ((n, d, s), m) \<leftarrow> copy_blocks (unat count) dst src m;
        ((n, d, s), m) \<leftarrow> copy_words n d s m;
        copy_bytes n d s m
      } else copy_bytes (unat count) dst src m)"

fun copy_down :: "nat \<Rightarrow> nat \<Rightarrow> nat \<Rightarrow> memory \<Rightarrow> memory option" where
  \<comment> \<open>downwards, from the ends \<open>d\<close> and \<open>s\<close>\<close>
  "copy_down 0 d s m = Some m"
| "copy_down (Suc n) d s m = do { b \<leftarrow> m (s - 1); m \<leftarrow> store (d - 1) b m; copy_down n (d - 1) (s - 1) m }"

definition rt_memmove :: "nat \<Rightarrow> nat \<Rightarrow> u32 \<Rightarrow> memory \<Rightarrow> memory option" where
  "rt_memmove dest src n m =
     (if src < dest \<and> dest < src + unat n then copy_down (unat n) (dest + unat n) (src + unat n) m
      else copy_bytes (unat n) dest src m)"

subsection \<open>rt_memcmp\<close>

fun cmp_bytes :: "nat \<Rightarrow> nat \<Rightarrow> nat \<Rightarrow> memory \<Rightarrow> int option" where
  "cmp_bytes 0 a b m = Some 0"
| "cmp_bytes (Suc count) a b m = do {
     x \<leftarrow> m a;
     y \<leftarrow> m b;
     if uint x - uint y \<noteq> 0 then Some (uint x - uint y) else cmp_bytes count (a + 1) (b + 1) m
   }"

definition rt_memcmp :: "nat \<Rightarrow> nat \<Rightarrow> u32 \<Rightarrow> memory \<Rightarrow> int option" where
  "rt_memcmp cs ct count m = cmp_bytes (unat count) cs ct m"

subsection \<open>Reference definitions\<close>

definition fill_ref :: "nat \<Rightarrow> nat \<Rightarrow> u8 \<Rightarrow> memory \<Rightarrow> memory" where
  "fill_ref a n d m = (\<lambda>x. if a \<le> x \<and> x < a + n then Some d else m x)"

definition copy_ref :: "nat \<Rightarrow> nat \<Rightarrow> nat \<Rightarrow> memory \<Rightarrow> memory" where
  \<comment> \<open>all bytes are read before any is written\<close>
  "copy_ref d s n m = (\<lambda>x. if d \<le> x \<and> x < d + n then m (s + (x - d)) else m x)"

abbreviation area :: "nat \<Rightarrow> nat \<Rightarrow> memory \<Rightarrow> bool" where
  "area a n m \<equiv> \<forall>i<n. m (a + i) \<noteq> None"

declare set_blocks.simps [simp del] set_words.simps [simp del] copy_blocks.simps [simp del] copy_words.simps [simp del]

lemma run_bind: "x = Some y \<Longrightarrow> f y = z \<Longrightarrow> Option.bind x f = z"
  by simp

lemma area_split: "area a (n + k) m \<longleftrightarrow> area a n m \<and> area (a + n) k m"
proof
  assume "area a (n + k) m"
  then show "area a n m \<and> area (a + n) k m" by (simp add: add.assoc)
next
  assume r: "area a n m \<and> area (a + n) k m"
  show "area a (n + k) m"
  proof (intro allI impI)
    fix i
    assume "i < n + k"
    then show "m (a + i) \<noteq> None"
    proof (cases "i < n")
      case False
      then obtain j where "i = n + j" using le_Suc_ex by (metis not_less)
      then show ?thesis using r \<open>i < n + k\<close> by (metis add.assoc nat_add_left_cancel_less)
    qed (use r in simp)
  qed
qed

lemma area_Suc: "area a (Suc n) m \<longleftrightarrow> m a \<noteq> None \<and> area (Suc a) n m"
  using area_split [where a = a and n = 1 and k = n and m = m] by simp

subsection \<open>rt_memset is the reference fill\<close>

lemma fill_ref_append: "fill_ref (a + n) k d (fill_ref a n d m) = fill_ref a (n + k) d m"
  by (auto simp: fill_ref_def fun_eq_iff)

lemma fill_ref_0 [simp]: "fill_ref a 0 d m = m"
  by (auto simp: fill_ref_def fun_eq_iff)

lemma fill_ref_eq_None [simp]: "m x \<noteq> None \<Longrightarrow> fill_ref a n d m x \<noteq> None"
  by (simp add: fill_ref_def)

lemma area_fill: "area b k m \<Longrightarrow> area b k (fill_ref a n d m)"
  by simp

lemma store_fill: "m a \<noteq> None \<Longrightarrow> store a d m = Some (fill_ref a 1 d m)"
  by (auto simp: store_def fill_ref_def fun_eq_iff)

lemma set_bytes_run: "area a n m \<Longrightarrow> set_bytes n a d m = Some (fill_ref a n d m)"
proof (induction n arbitrary: a m)
  case (Suc n)
  have h: "m a \<noteq> None" and t: "area (Suc a) n (fill_ref a 1 d m)" using Suc.prems unfolding area_Suc by simp_all
  show ?case using Suc.IH [OF t] store_fill [of m a d, OF h] fill_ref_append [of a 1 n d m] by simp
qed simp

lemma store_replicate: "area a n m \<Longrightarrow> store_bytes a (replicate n d) m = Some (fill_ref a n d m)"
proof (induction n arbitrary: a m)
  case (Suc n)
  have h: "m a \<noteq> None" and t: "area (Suc a) n (fill_ref a 1 d m)" using Suc.prems unfolding area_Suc by simp_all
  show ?case using Suc.IH [OF t] store_fill [of m a d, OF h] fill_ref_append [of a 1 n d m] by simp
qed simp

lemma set_words_run:
  assumes "area a n m"
  shows "\<exists>k \<le> n. set_words n a (replicate 4 d) m = Some ((n - k, a + k), fill_ref a k d m)"
  using assms
proof (induction n a "replicate 4 d" m rule: set_words.induct)
  case (1 n a m)
  show ?case
  proof (cases "n \<ge> LBLOCKSIZE")
    case True
    then obtain r where n: "n = 4 + r" using le_Suc_ex by (auto simp: LBLOCKSIZE_def)
    have A: "area a 4 m" "area (a + 4) r m" using "1.prems" unfolding n area_split by blast+
    have s: "store_bytes a (replicate 4 d) m = Some (fill_ref a 4 d m)" using A(1) by (rule store_replicate)
    have "area (a + 4) r (fill_ref a 4 d m)" using A(2) by simp
    with "1.hyps" [OF True s] obtain k where k: "k \<le> r"
      "set_words r (a + 4) (replicate 4 d) (fill_ref a 4 d m) = Some ((r - k, a + 4 + k), fill_ref (a + 4) k d (fill_ref a 4 d m))"
      unfolding n LBLOCKSIZE_def by auto
    have "set_words n a (replicate 4 d) m = Some ((n - (4 + k), a + (4 + k)), fill_ref a (4 + k) d m)"
      using True s k(2) by (subst set_words.simps) (simp add: LBLOCKSIZE_def n fill_ref_append add.assoc)
    then show ?thesis using k(1) n by (intro exI [of _ "4 + k"]) simp
  next
    case False
    then show ?thesis by (subst set_words.simps) (auto intro!: exI [of _ 0])
  qed
qed

lemma set_blocks_run:
  assumes "area a n m"
  shows "\<exists>k \<le> n. set_blocks n a (replicate 4 d) m = Some ((n - k, a + k), fill_ref a k d m)"
  using assms
proof (induction n arbitrary: a m rule: less_induct)
  case (less n)
  show ?case
  proof (cases "n \<ge> 16")
    case True
    then obtain r where n: "n = 16 + r" using le_Suc_ex by blast
    have "area a (4 + (4 + (4 + (4 + r)))) m" using less.prems by (simp only: n) simp
    then have A: "area a 4 m" "area (a + 4) 4 m" "area (a + 4 + 4) 4 m" "area (a + 4 + 4 + 4) 4 m" "area (a + 16) r m"
      unfolding area_split by (simp_all add: add.assoc)
    have s: "store_bytes a (replicate 4 d) m = Some (fill_ref a 4 d m)"
      "store_bytes (a + 4) (replicate 4 d) (fill_ref a 4 d m) = Some (fill_ref a 8 d m)"
      "store_bytes (a + 8) (replicate 4 d) (fill_ref a 8 d m) = Some (fill_ref a 12 d m)"
      "store_bytes (a + 12) (replicate 4 d) (fill_ref a 12 d m) = Some (fill_ref a 16 d m)"
      using A store_replicate [where a = a and n = 4 and m = m and d = d]
        store_replicate [where a = "a + 4" and n = 4 and m = "fill_ref a 4 d m" and d = d]
        store_replicate [where a = "a + 8" and n = 4 and m = "fill_ref a 8 d m" and d = d]
        store_replicate [where a = "a + 12" and n = 4 and m = "fill_ref a 12 d m" and d = d]
        fill_ref_append [of a 4 4 d m] fill_ref_append [of a 8 4 d m] fill_ref_append [of a 12 4 d m]
      by (simp_all add: add.assoc)
    have "r < n" and ar: "area (a + 16) r (fill_ref a 16 d m)" using A(5) n by simp_all
    from less.IH [OF this] obtain k where k: "k \<le> r"
      "set_blocks r (a + 16) (replicate 4 d) (fill_ref a 16 d m) = Some ((r - k, a + 16 + k), fill_ref (a + 16) k d (fill_ref a 16 d m))"
      by blast
    have "set_blocks n a (replicate 4 d) m = set_blocks (n - 16) (a + 16) (replicate 4 d) (fill_ref a 16 d m)"
      using True unfolding set_blocks.simps [of n] LBLOCKSIZE_def by (simp only: s if_True bind.bind_lunit arith_simps mult_numeral_1)
    then have "set_blocks n a (replicate 4 d) m = Some ((n - (16 + k), a + (16 + k)), fill_ref a (16 + k) d m)"
      using k(2) by (simp only: n fill_ref_append add.assoc diff_cancel diff_add_inverse)
    then show ?thesis using k(1) n by (intro exI [of _ "16 + k"]) simp
  next
    case False
    then show ?thesis by (subst set_blocks.simps) (auto simp: LBLOCKSIZE_def intro!: exI [of _ 0])
  qed
qed

lemma area_rest: "area a n m \<Longrightarrow> k \<le> n \<Longrightarrow> area (a + k) (n - k) m"
  using area_split [where a = a and n = k and k = "n - k" and m = m] by simp

text \<open>
  \<open>rt_memset\<close> sets exactly the \<open>count\<close> bytes from \<open>s\<close> to the low byte of \<open>c\<close> and touches nothing else, for every length
  and alignment: the unrolled word loops and the byte loop together equal the reference fill.
\<close>
theorem rt_memset_fills:
  assumes "area s (unat count) m"
  shows "rt_memset s c count m = Some (fill_ref s (unat count) (word_of_int c) m)"
proof (cases "\<not> unat count < LBLOCKSIZE \<and> s mod LBLOCKSIZE = 0")
  case True
  let ?n = "unat count" and ?d = "word_of_int c :: u8"
  obtain k where k: "k \<le> ?n" "set_blocks ?n s (replicate 4 ?d) m = Some ((?n - k, s + k), fill_ref s k ?d m)"
    using set_blocks_run [OF assms] by blast
  have ar: "area (s + k) (?n - k) (fill_ref s k ?d m)" using area_rest [OF assms k(1)] by simp
  obtain j where j: "j \<le> ?n - k"
    "set_words (?n - k) (s + k) (replicate 4 ?d) (fill_ref s k ?d m) = Some ((?n - k - j, s + k + j), fill_ref s (k + j) ?d m)"
    using set_words_run [OF ar, of ?d] unfolding fill_ref_append by (elim exE conjE) (rule that)
  have l: "k + j \<le> ?n" using k(1) j(1) by arith
  have "area (s + (k + j)) (?n - (k + j)) (fill_ref s (k + j) ?d m)"
    by (rule area_fill [OF area_rest [OF assms l]])
  moreover have e: "k + j + (?n - (k + j)) = ?n" using l by simp
  ultimately have "set_bytes (?n - k - j) (s + k + j) ?d (fill_ref s (k + j) ?d m) = Some (fill_ref s ?n ?d m)"
    using set_bytes_run [where a = "s + (k + j)" and n = "?n - (k + j)" and m = "fill_ref s (k + j) ?d m" and d = ?d]
    by (simp only: fill_ref_append add.assoc diff_diff_left e)
  then have "do { ((n, a), m) \<leftarrow> set_blocks ?n s (replicate LBLOCKSIZE ?d) m;
    ((n, a), m) \<leftarrow> set_words n a (replicate LBLOCKSIZE ?d) m; set_bytes n a ?d m } = Some (fill_ref s ?n ?d m)"
    unfolding LBLOCKSIZE_def by (intro run_bind [OF k(2)] run_bind [OF j(2)] | simp only: prod.case)+
  then show ?thesis using True by (simp add: rt_memset_def Let_def)
next
  case False
  then show ?thesis using set_bytes_run [OF assms] by (auto simp: rt_memset_def Let_def)
qed

theorem rt_memset_fills_witness:
  "rt_memset 8 (-1) 6 (\<lambda>x. if x < 16 then Some 0 else None) =
     Some (fill_ref 8 6 (- 1) (\<lambda>x. if x < 16 then Some 0 else None))"
  using rt_memset_fills [where s = 8 and count = 6 and m = "\<lambda>x. if x < 16 then Some 0 else None" and c = "-1"] by simp


subsection \<open>rt_memcpy and rt_memmove are the reference copy\<close>

abbreviation upward_ok :: "nat \<Rightarrow> nat \<Rightarrow> nat \<Rightarrow> bool" where
  \<comment> \<open>an upward copy reads no byte that it has written\<close>
  "upward_ok d s n \<equiv> d \<le> s \<or> s + n \<le> d"

abbreviation areas :: "nat \<Rightarrow> nat \<Rightarrow> nat \<Rightarrow> memory \<Rightarrow> bool" where
  "areas d s n m \<equiv> area d n m \<and> area s n m"

lemma copy_ref_0 [simp]: "copy_ref d s 0 m = m"
  by (auto simp: copy_ref_def fun_eq_iff)

lemma copy_ref_append:
  assumes "upward_ok d s (k + n)"
  shows "copy_ref (d + k) (s + k) n (copy_ref d s k m) = copy_ref d s (k + n) m"
proof
  fix x
  consider "x < d" | i where "x = d + i" "i < k" | i where "x = d + k + i" "i < n" | "d + (k + n) \<le> x"
    by (metis add.assoc le_Suc_ex nat_add_left_cancel_less not_le)
  then show "copy_ref (d + k) (s + k) n (copy_ref d s k m) x = copy_ref d s (k + n) m x"
  proof cases
    case 3
    then have "\<not> (d \<le> s + k + i \<and> s + k + i < d + k)" using assms by auto
    then show ?thesis using 3 by (simp add: copy_ref_def add.assoc) blast
  qed (auto simp: copy_ref_def)
qed

lemma area_copy: "area b k m \<Longrightarrow> area s n m \<Longrightarrow> area b k (copy_ref d s n m)"
proof (intro allI impI)
  fix i
  assume h: "area b k m" "area s n m" "i < k"
  have "m (s + (b + i - d)) \<noteq> None" if "b + i < d + n" "d \<le> b + i"
    using h(2) that by (metis less_diff_conv2 add.commute)
  then show "copy_ref d s n m (b + i) \<noteq> None" using h(1) h(3) by (simp add: copy_ref_def)
qed

lemma areas_split: "areas d s (k + n) m \<longleftrightarrow> areas d s k m \<and> areas (d + k) (s + k) n m"
  unfolding area_split by blast

lemma areas_copy: "areas d s (k + n) m \<Longrightarrow> areas (d + k) (s + k) n (copy_ref d s k m)"
  unfolding areas_split using area_copy by blast

lemma store_copy: "m s \<noteq> None \<Longrightarrow> m d \<noteq> None \<Longrightarrow> do { b \<leftarrow> m s; store d b m } = Some (copy_ref d s 1 m)"
  by (auto simp: store_def copy_ref_def fun_eq_iff)


lemma copy_bytes_run:
  "areas d s n m \<Longrightarrow> upward_ok d s n \<Longrightarrow> copy_bytes n d s m = Some (copy_ref d s n m)"
proof (induction n arbitrary: d s m)
  case (Suc n)
  have p: "areas d s (1 + n) m" and u: "upward_ok d s (1 + n)" using Suc.prems by simp_all
  have h: "m s \<noteq> None" "m d \<noteq> None" using Suc.prems(1) unfolding area_Suc by blast+
  have "copy_bytes n (d + 1) (s + 1) (copy_ref d s 1 m) = Some (copy_ref (d + 1) (s + 1) n (copy_ref d s 1 m))"
    using u by (intro Suc.IH areas_copy [OF p]) linarith
  then have "copy_bytes n (d + 1) (s + 1) (copy_ref d s 1 m) = Some (copy_ref d s (1 + n) m)"
    by (simp only: copy_ref_append [OF u])
  then show ?case using store_copy [OF h] h by (auto simp: store_def)
qed simp

lemma load_bytes_run: "area a n m \<Longrightarrow> load_bytes a n m = Some (map (\<lambda>i. the (m (a + i))) [0..<n])"
proof (induction n arbitrary: a)
  case (Suc n)
  have "m a \<noteq> None" "area (Suc a) n m" using Suc.prems unfolding area_Suc by blast+
  then show ?case using Suc.IH [of "Suc a"] by (auto simp: upt_conv_Cons simp del: upt_Suc map_upt_Suc simp flip: map_Suc_upt)
qed simp

lemma store_bytes_run:
  "area a (length bs) m \<Longrightarrow>
     store_bytes a bs m = Some (\<lambda>x. if a \<le> x \<and> x < a + length bs then Some (bs ! (x - a)) else m x)"
proof (induction bs arbitrary: a m)
  case (Cons b bs)
  have h: "m a \<noteq> None" "area (Suc a) (length bs) m" using Cons.prems unfolding list.size(4) add_Suc_right add_0_right area_Suc by blast+
  then have "store_bytes (Suc a) bs (m(a \<mapsto> b)) =
      Some (\<lambda>x. if Suc a \<le> x \<and> x < Suc a + length bs then Some (bs ! (x - Suc a)) else (m(a \<mapsto> b)) x)"
    by (intro Cons.IH) simp
  also have "\<dots> = Some (\<lambda>x. if a \<le> x \<and> x < a + length (b # bs) then Some ((b # bs) ! (x - a)) else m x)"
    by (auto simp: fun_eq_iff nth_Cons')
  finally show ?case using h(1) by (simp add: store_def)
qed (auto simp: fun_eq_iff)

lemma copy_word_run: "areas d s 4 m \<Longrightarrow> copy_word d s m = Some (copy_ref d s 4 m)"
proof -
  assume a: "areas d s 4 m"
  let ?bs = "map (\<lambda>i. the (m (s + i))) [0..<4]"
  have l: "load_bytes s 4 m = Some ?bs" using a load_bytes_run by blast
  have "store_bytes d ?bs m = Some (\<lambda>x. if d \<le> x \<and> x < d + 4 then Some (?bs ! (x - d)) else m x)"
    using store_bytes_run [where a = d and bs = ?bs and m = m] a by (simp del: upt_rec_numeral)
  also have "(\<lambda>x. if d \<le> x \<and> x < d + 4 then Some (?bs ! (x - d)) else m x) = copy_ref d s 4 m"
  proof
    fix x
    show "(if d \<le> x \<and> x < d + 4 then Some (?bs ! (x - d)) else m x) = copy_ref d s 4 m x"
    proof (cases "d \<le> x \<and> x < d + 4")
      case True
      then have "x - d < 4" by arith
      then have "m (s + (x - d)) \<noteq> None" using a by blast
      then show ?thesis using True \<open>x - d < 4\<close> by (simp add: copy_ref_def del: upt_rec_numeral)
    qed (simp only: copy_ref_def if_False)
  qed
  finally have "store_bytes d ?bs m = Some (copy_ref d s 4 m)" .
  with l show ?thesis unfolding copy_word_def LBLOCKSIZE_def by (rule run_bind)
qed

lemma copy_words_run:
  assumes "areas d s n m" "upward_ok d s n"
  shows "\<exists>k \<le> n. copy_words n d s m = Some ((n - k, d + k, s + k), copy_ref d s k m)"
  using assms
proof (induction n arbitrary: d s m rule: less_induct)
  case (less n)
  show ?case
  proof (cases "n \<ge> 4")
    case True
    then obtain r where n: "n = 4 + r" using le_Suc_ex by blast
    have p: "areas d s (4 + r) m" and u: "upward_ok d s (4 + r)" using less.prems unfolding n by simp_all
    have lt: "r < n" and u': "upward_ok (d + 4) (s + 4) r" using n u by auto
    obtain k where k: "k \<le> r"
      "copy_words r (d + 4) (s + 4) (copy_ref d s 4 m) = Some ((r - k, d + 4 + k, s + 4 + k), copy_ref (d + 4) (s + 4) k (copy_ref d s 4 m))"
      using less.IH [OF lt areas_copy [OF p] u'] by (elim exE conjE) (rule that)
    have w: "copy_word d s m = Some (copy_ref d s 4 m)" using p unfolding areas_split by (intro copy_word_run) blast
    have uk: "upward_ok d s (4 + k)" using u k(1) by auto
    have "copy_words n d s m = copy_words r (d + 4) (s + 4) (copy_ref d s 4 m)"
      using True unfolding copy_words.simps [of n] LBLOCKSIZE_def by (simp only: w if_True bind.bind_lunit n diff_add_inverse)
    then have "copy_words n d s m = Some ((n - (4 + k), d + (4 + k), s + (4 + k)), copy_ref d s (4 + k) m)"
      using k(2) by (simp only: n copy_ref_append [OF uk] add.assoc diff_cancel)
    then show ?thesis using k(1) n by (intro exI [of _ "4 + k"]) simp
  next
    case False
    then show ?thesis by (subst copy_words.simps) (auto simp: LBLOCKSIZE_def intro!: exI [of _ 0])
  qed
qed


lemma copy_word_step:
  assumes "areas d s (k + (4 + n)) m" "upward_ok d s (k + (4 + n))"
  shows "copy_word (d + k) (s + k) (copy_ref d s k m) = Some (copy_ref d s (k + 4) m)"
proof -
  have "areas (d + k) (s + k) (4 + n) (copy_ref d s k m)" using assms(1) by (rule areas_copy)
  then have "copy_word (d + k) (s + k) (copy_ref d s k m) = Some (copy_ref (d + k) (s + k) 4 (copy_ref d s k m))"
    unfolding areas_split by (intro copy_word_run) blast
  moreover have "upward_ok d s (k + 4)" using assms(2) by auto
  ultimately show ?thesis by (simp only: copy_ref_append)
qed

lemma copy_blocks_run:
  assumes "areas d s n m" "upward_ok d s n"
  shows "\<exists>k \<le> n. copy_blocks n d s m = Some ((n - k, d + k, s + k), copy_ref d s k m)"
  using assms
proof (induction n arbitrary: d s m rule: less_induct)
  case (less n)
  show ?case
  proof (cases "n \<ge> 16")
    case True
    then obtain r where n: "n = 16 + r" using le_Suc_ex by blast
    have p: "areas d s (16 + r) m" and u: "upward_ok d s (16 + r)" using less.prems unfolding n by simp_all
    have lt: "r < n" and u': "upward_ok (d + 16) (s + 16) r" using n u by auto
    obtain k where k: "k \<le> r"
      "copy_blocks r (d + 16) (s + 16) (copy_ref d s 16 m) =
         Some ((r - k, d + 16 + k, s + 16 + k), copy_ref (d + 16) (s + 16) k (copy_ref d s 16 m))"
      using less.IH [OF lt areas_copy [OF p] u'] by (elim exE conjE) (rule that)
    have e: "16 + r = 0 + (4 + (12 + r))" "16 + r = 4 + (4 + (8 + r))" "16 + r = 8 + (4 + (4 + r))" "16 + r = 12 + (4 + r)"
      by simp_all
    have w: "copy_word d s m = Some (copy_ref d s 4 m)"
      "copy_word (d + 4) (s + 4) (copy_ref d s 4 m) = Some (copy_ref d s 8 m)"
      "copy_word (d + 8) (s + 8) (copy_ref d s 8 m) = Some (copy_ref d s 12 m)"
      "copy_word (d + 12) (s + 12) (copy_ref d s 12 m) = Some (copy_ref d s 16 m)"
      using copy_word_step [OF p [unfolded e(1)] u [unfolded e(1)]] copy_word_step [OF p [unfolded e(2)] u [unfolded e(2)]]
        copy_word_step [OF p [unfolded e(3)] u [unfolded e(3)]] copy_word_step [OF p [unfolded e(4)] u [unfolded e(4)]]
      by (simp_all only: add_0_right add_0_left copy_ref_0 arith_simps)
    have uk: "upward_ok d s (16 + k)" using u k(1) by auto
    have "copy_blocks n d s m = copy_blocks r (d + 16) (s + 16) (copy_ref d s 16 m)"
      using True unfolding copy_blocks.simps [of n] LBLOCKSIZE_def
      by (simp only: w if_True bind.bind_lunit n diff_add_inverse arith_simps mult_numeral_1)
    then have "copy_blocks n d s m = Some ((n - (16 + k), d + (16 + k), s + (16 + k)), copy_ref d s (16 + k) m)"
      using k(2) by (simp only: n copy_ref_append [OF uk] add.assoc diff_cancel)
    then show ?thesis using k(1) n by (intro exI [of _ "16 + k"]) simp
  next
    case False
    then show ?thesis by (subst copy_blocks.simps) (auto simp: LBLOCKSIZE_def intro!: exI [of _ 0])
  qed
qed

lemma copy_rest:
  assumes "areas d s n m" "upward_ok d s n" "k \<le> n"
  shows "areas (d + k) (s + k) (n - k) (copy_ref d s k m)" "upward_ok (d + k) (s + k) (n - k)"
proof -
  have "k + (n - k) = n" using assms(3) by simp
  then show "areas (d + k) (s + k) (n - k) (copy_ref d s k m)" using areas_copy [where d = d and s = s and k = k and n = "n - k" and m = m] assms(1) by simp
  show "upward_ok (d + k) (s + k) (n - k)" using assms(2) by auto
qed

lemma rt_memcpy_run:
  assumes "areas dst src (unat count) m" "upward_ok dst src (unat count)"
  shows "rt_memcpy dst src count m = Some (copy_ref dst src (unat count) m)"
proof (cases "\<not> unat count < 4 * LBLOCKSIZE \<and> src mod LBLOCKSIZE = 0 \<and> dst mod LBLOCKSIZE = 0")
  case True
  let ?n = "unat count"
  obtain k where k: "k \<le> ?n" "copy_blocks ?n dst src m = Some ((?n - k, dst + k, src + k), copy_ref dst src k m)"
    using copy_blocks_run [OF assms] by (elim exE conjE) (rule that)
  have uk: "upward_ok dst src (k + j)" if "j \<le> ?n - k" for j using assms(2) k(1) that by auto
  obtain j where j: "j \<le> ?n - k" "copy_words (?n - k) (dst + k) (src + k) (copy_ref dst src k m) =
      Some ((?n - k - j, dst + k + j, src + k + j), copy_ref (dst + k) (src + k) j (copy_ref dst src k m))"
    using copy_words_run [OF copy_rest [OF assms k(1)]] by (elim exE conjE) (rule that)
  note jw = j(2) [unfolded copy_ref_append [OF uk [OF j(1)]]]
  have l: "k + j \<le> ?n" using k(1) j(1) by arith
  have e: "k + j + (?n - (k + j)) = ?n" using l by simp
  have "copy_bytes (?n - (k + j)) (dst + (k + j)) (src + (k + j)) (copy_ref dst src (k + j) m) =
      Some (copy_ref (dst + (k + j)) (src + (k + j)) (?n - (k + j)) (copy_ref dst src (k + j) m))"
    by (rule copy_bytes_run [OF copy_rest [OF assms l]])
  also have "\<dots> = Some (copy_ref dst src ?n m)"
    using copy_ref_append [of dst src "k + j" "?n - (k + j)" m] assms(2) by (simp only: e)
  finally have c: "copy_bytes (?n - k - j) (dst + k + j) (src + k + j) (copy_ref dst src (k + j) m) = Some (copy_ref dst src ?n m)"
    by (simp only: diff_diff_left add.assoc)
  have "do { ((n, d, s), m) \<leftarrow> copy_blocks ?n dst src m; ((n, d, s), m) \<leftarrow> copy_words n d s m; copy_bytes n d s m } =
      Some (copy_ref dst src ?n m)"
    by (intro run_bind [OF k(2)] run_bind [OF jw] c | simp only: prod.case)+
  then show ?thesis using True by (simp add: rt_memcpy_def)
next
  case False
  then show ?thesis using copy_bytes_run [OF assms] by (auto simp: rt_memcpy_def)
qed

text \<open>
  C38. \<open>rt_memcpy\<close> copies \<open>count\<close> bytes from \<open>src\<close> to \<open>dst\<close> as if all were read before the first is written, for every
  length and alignment, when the areas do not overlap or the destination starts at or below the source.
\<close>
theorem rt_memcpy_copies:
  assumes "areas dst src (unat count) m" "upward_ok dst src (unat count)"
  shows "rt_memcpy dst src count m = Some (copy_ref dst src (unat count) m)"
  using assms by (rule rt_memcpy_run)

definition mem16 :: memory where "mem16 = (\<lambda>x. if x < 64 then Some (word_of_nat x) else None)"

theorem rt_memcpy_copies_witness: "rt_memcpy 4 8 22 mem16 = Some (copy_ref 4 8 22 mem16)"
  using rt_memcpy_copies [where dst = 4 and src = 8 and count = 22 and m = mem16] by (simp add: mem16_def)

lemma copy_down_run:
  "areas d s n m \<Longrightarrow> s \<le> d \<Longrightarrow> copy_down n (d + n) (s + n) m = Some (copy_ref d s n m)"
proof (induction n arbitrary: m)
  case (Suc n)
  obtain b where b: "m (s + n) = Some b" "m (d + n) \<noteq> None" using Suc.prems(1) by blast
  have "copy_down n (d + n) (s + n) (m(d + n \<mapsto> b)) = Some (copy_ref d s n (m(d + n \<mapsto> b)))"
    using Suc.prems by (intro Suc.IH) auto
  also have "copy_ref d s n (m(d + n \<mapsto> b)) = copy_ref d s (Suc n) m"
  proof
    fix x
    have "x - d = n" if "d \<le> x" "\<not> x < d + n" "x < Suc (d + n)" using that by simp
    then show "copy_ref d s n (m(d + n \<mapsto> b)) x = copy_ref d s (Suc n) m x"
      using b(1) Suc.prems(2) by (cases "x = d + n") (auto simp: copy_ref_def)
  qed
  finally show ?case using b by (simp add: store_def del: fun_upd_apply)
qed simp

text \<open>
  \<open>rt_memmove\<close> copies \<open>n\<close> bytes as if all were read before the first is written, whatever the overlap of the two areas.
\<close>
theorem rt_memmove_copies:
  assumes "areas dest src (unat n) m"
  shows "rt_memmove dest src n m = Some (copy_ref dest src (unat n) m)"
  using copy_down_run [OF assms] copy_bytes_run [OF assms] by (auto simp: rt_memmove_def)

theorem rt_memmove_copies_witness: "rt_memmove 9 8 22 mem16 = Some (copy_ref 9 8 22 mem16)"
  using rt_memmove_copies [where dest = 9 and src = 8 and n = 22 and m = mem16] by (simp add: mem16_def)

text \<open>An upward copy into an area that starts inside the source is not the reference copy: \<open>rt_memcpy\<close> repeats the first byte.\<close>
lemma rt_memcpy_overlap:
  "map_option (\<lambda>m. map m [2, 3, 4]) (rt_memcpy 2 1 3 mem16) = Some [Some 1, Some 1, Some 1]"
  by code_simp

subsection \<open>rt_memcmp\<close>

lemma cmp_bytes_run:
  "areas a b n m \<Longrightarrow>
     (\<forall>i<n. m (a + i) = m (b + i)) \<and> cmp_bytes n a b m = Some 0 \<or>
     (\<exists>i<n. (\<forall>j<i. m (a + j) = m (b + j)) \<and> m (a + i) \<noteq> m (b + i) \<and>
            cmp_bytes n a b m = Some (uint (the (m (a + i))) - uint (the (m (b + i)))))"
proof (induction n arbitrary: a b)
  case (Suc n)
  obtain x y where xy: "m a = Some x" "m b = Some y" using Suc.prems unfolding area_Suc by blast
  show ?case
  proof (cases "x = y")
    case False
    then have "uint x - uint y \<noteq> 0" by (simp add: word_uint_eq_iff)
    then show ?thesis using xy False by (intro disjI2 exI [of _ 0]) simp
  next
    case True
    then have e: "cmp_bytes (Suc n) a b m = cmp_bytes n (Suc a) (Suc b) m" using xy by simp
    have s: "(\<forall>j<Suc i. m (a + j) = m (b + j)) \<longleftrightarrow> (\<forall>j<i. m (Suc a + j) = m (Suc b + j))" for i
      using True xy by (simp add: All_less_Suc2)
    have "areas (Suc a) (Suc b) n m" using Suc.prems unfolding area_Suc by blast
    from Suc.IH [OF this] show ?thesis
    proof (elim disjE exE conjE)
      fix i
      assume i: "i < n" "\<forall>j<i. m (Suc a + j) = m (Suc b + j)" "m (Suc a + i) \<noteq> m (Suc b + i)"
        "cmp_bytes n (Suc a) (Suc b) m = Some (uint (the (m (Suc a + i))) - uint (the (m (Suc b + i))))"
      show ?thesis
        using i unfolding s e by (intro disjI2 exI [of _ "Suc i"]) (simp add: s)
    qed (use True xy in \<open>simp add: e All_less_Suc2\<close>)
  qed
qed simp

lemma rt_memcmp_sign:
  assumes "areas a b (unat n) m"
  shows "\<exists>r. rt_memcmp a b n m = Some r \<and>
     (r = 0 \<longleftrightarrow> (\<forall>i<unat n. m (a + i) = m (b + i))) \<and>
     (r < 0 \<longleftrightarrow> (\<exists>i<unat n. (\<forall>j<i. m (a + j) = m (b + j)) \<and> the (m (a + i)) < the (m (b + i))))"
  using cmp_bytes_run [OF assms]
proof (elim disjE exE conjE)
  assume "\<forall>i<unat n. m (a + i) = m (b + i)" "cmp_bytes (unat n) a b m = Some 0"
  then show ?thesis by (auto simp: rt_memcmp_def)
next
  fix i
  assume i: "i < unat n" "\<forall>j<i. m (a + j) = m (b + j)" "m (a + i) \<noteq> m (b + i)"
    "cmp_bytes (unat n) a b m = Some (uint (the (m (a + i))) - uint (the (m (b + i))))"
  let ?x = "the (m (a + i))" and ?y = "the (m (b + i))"
  have ne: "?x \<noteq> ?y" using assms i(1,3) by (metis option.exhaust_sel)
  have u: "k = i" if "k < unat n" "\<forall>j<k. m (a + j) = m (b + j)" "the (m (a + k)) < the (m (b + k))" for k
    using that i(2,3) by (metis linorder_neqE_nat order_less_irrefl)
  have "(uint ?x - uint ?y < 0) \<longleftrightarrow> ?x < ?y" by (simp add: word_less_def)
  moreover have "uint ?x - uint ?y \<noteq> 0" using ne by (simp add: word_uint_eq_iff)
  ultimately show ?thesis using i u unfolding rt_memcmp_def by blast
qed

text \<open>
  \<open>rt_memcmp\<close> is zero exactly when the two areas hold the same bytes, and otherwise it has the sign of the comparison
  of the first two bytes that differ.
\<close>
theorem rt_memcmp_orders:
  assumes "areas a b (unat n) m"
  shows "\<exists>r. rt_memcmp a b n m = Some r \<and>
     (r = 0 \<longleftrightarrow> (\<forall>i<unat n. m (a + i) = m (b + i))) \<and>
     (r < 0 \<longleftrightarrow> (\<exists>i<unat n. (\<forall>j<i. m (a + j) = m (b + j)) \<and> the (m (a + i)) < the (m (b + i))))"
  using assms by (rule rt_memcmp_sign)

theorem rt_memcmp_orders_witness:
  "\<exists>r. rt_memcmp 3 5 4 mem16 = Some r \<and> r < 0"
  using rt_memcmp_orders [where a = 3 and b = 5 and n = 4 and m = mem16]
  by (simp add: mem16_def) force

end
