(* ===== verification/KLibStr.thy ===== *)
theory KLibStr
  imports KLibMem
begin

text \<open>
  The string routines of the kernel's C library (rt-thread/src/klibc/kstring.c) over the memory of KLibMem: lengths, comparisons,
  copies, search, duplication. \<open>char\<close> is unsigned on ARM. A loop without a bound is a \<open>partial_function\<close>: reading where there is
  no memory and running forever are both None, and the properties say that a routine returns on terminated strings. The
  results that may be RT_NULL are options.
\<close>

subsection \<open>Lengths\<close>

partial_function (option) strlen_loop :: "nat \<Rightarrow> memory \<Rightarrow> nat option" where
  "strlen_loop sc m = do { b \<leftarrow> m sc; if b \<noteq> 0 then strlen_loop (sc + 1) m else Some sc }"

definition rt_strlen :: "nat \<Rightarrow> memory \<Rightarrow> nat option" where
  "rt_strlen s m = do { sc \<leftarrow> strlen_loop s m; Some (sc - s) }"

function strnlen_loop :: "nat \<Rightarrow> nat \<Rightarrow> nat \<Rightarrow> memory \<Rightarrow> nat option" where
  "strnlen_loop sc s maxlen m =
     do { b \<leftarrow> m sc; if b \<noteq> 0 \<and> sc - s < maxlen then strnlen_loop (sc + 1) s maxlen m else Some (sc - s) }"
  by pat_completeness auto
termination by (relation "measure (\<lambda>(sc, s, maxlen, m). maxlen + s - sc)") auto

definition rt_strnlen :: "nat \<Rightarrow> u32 \<Rightarrow> memory \<Rightarrow> nat option" where
  "rt_strnlen s maxlen m = strnlen_loop s s (unat maxlen) m"

subsection \<open>Comparisons\<close>

partial_function (option) rt_strcmp :: "nat \<Rightarrow> nat \<Rightarrow> memory \<Rightarrow> int option" where
  "rt_strcmp cs ct m = do {
     x \<leftarrow> m cs;
     if x = 0 then do { y \<leftarrow> m ct; Some (uint x - uint y) }
     else do { y \<leftarrow> m ct; if x = y then rt_strcmp (cs + 1) (ct + 1) m else Some (uint x - uint y) }
   }"

fun strncmp_loop :: "nat \<Rightarrow> nat \<Rightarrow> nat \<Rightarrow> int \<Rightarrow> memory \<Rightarrow> int option" where
  \<comment> \<open>\<open>res\<close> is a \<open>signed char\<close>\<close>
  "strncmp_loop 0 cs ct res m = Some res"
| "strncmp_loop (Suc count) cs ct res m = do {
     x \<leftarrow> m cs;
     y \<leftarrow> m ct;
     let res = signed_take_bit 7 (uint x - uint y);
     if res \<noteq> 0 \<or> x = 0 then Some res else strncmp_loop count (cs + 1) (ct + 1) res m
   }"

definition rt_strncmp :: "nat \<Rightarrow> nat \<Rightarrow> u32 \<Rightarrow> memory \<Rightarrow> int option" where
  "rt_strncmp cs ct count m = strncmp_loop (unat count) cs ct 0 m"

definition lower :: "u8 \<Rightarrow> int" where
  \<comment> \<open>the body of \<open>rt_strcasecmp\<close>: \<open>'A' <= c && c <= 'Z'\<close> adds \<open>'a' - 'A'\<close>\<close>
  "lower c = (if uint c \<ge> 65 \<and> uint c \<le> 90 then uint c + (97 - 65) else uint c)"

partial_function (option) rt_strcasecmp :: "nat \<Rightarrow> nat \<Rightarrow> memory \<Rightarrow> int option" where
  "rt_strcasecmp a b m = do {
     x \<leftarrow> m a;
     y \<leftarrow> m b;
     let ca = lower x;
     let cb = lower y;
     if ca = cb \<and> ca \<noteq> 0 then rt_strcasecmp (a + 1) (b + 1) m else Some (ca - cb)
   }"

subsection \<open>Copies\<close>

fun pad_zero :: "nat \<Rightarrow> nat \<Rightarrow> memory \<Rightarrow> memory option" where
  \<comment> \<open>the loop \<open>while (--n != 0) *d++ = 0\<close>, with \<open>n\<close> after the decrement\<close>
  "pad_zero 0 d m = Some m"
| "pad_zero (Suc n) d m = do { m \<leftarrow> store d 0 m; pad_zero n (d + 1) m }"

fun strncpy_loop :: "nat \<Rightarrow> nat \<Rightarrow> nat \<Rightarrow> memory \<Rightarrow> memory option" where
  "strncpy_loop 0 d s m = Some m"
| "strncpy_loop (Suc n) d s m = do {
     b \<leftarrow> m s;
     m \<leftarrow> store d b m;
     if b = 0 then pad_zero n (d + 1) m else strncpy_loop n (d + 1) (s + 1) m
   }"

definition rt_strncpy :: "nat \<Rightarrow> nat \<Rightarrow> u32 \<Rightarrow> memory \<Rightarrow> memory option" where
  "rt_strncpy dst src n m = (if n \<noteq> 0 then strncpy_loop (unat n) dst src m else Some m)"

partial_function (option) rt_strcpy :: "nat \<Rightarrow> nat \<Rightarrow> memory \<Rightarrow> memory option" where
  "rt_strcpy dst src m = do {
     b \<leftarrow> m src;
     if b \<noteq> 0 then do { m \<leftarrow> store dst b m; rt_strcpy (dst + 1) (src + 1) m } else store dst 0 m
   }"

subsection \<open>Search and duplication\<close>

function strstr_loop :: "nat \<Rightarrow> nat \<Rightarrow> int \<Rightarrow> int \<Rightarrow> memory \<Rightarrow> nat option option" where
  "strstr_loop s1 s2 l1 l2 m =
     (if l1 \<ge> l2 then do {
        r \<leftarrow> rt_memcmp s1 s2 (word_of_int l2) m;
        if r = 0 then Some (Some s1) else strstr_loop (s1 + 1) s2 (l1 - 1) l2 m
      } else Some None)"
  by pat_completeness auto
termination by (relation "measure (\<lambda>(s1, s2, l1, l2, m). nat (l1 - l2 + 1))") auto

definition rt_strstr :: "nat \<Rightarrow> nat \<Rightarrow> memory \<Rightarrow> nat option option" where
  "rt_strstr s1 s2 m = do {
     l2 \<leftarrow> rt_strlen s2 m;
     if l2 = 0 then Some (Some s1) else do { l1 \<leftarrow> rt_strlen s1 m; strstr_loop s1 s2 (int l1) (int l2) m }
   }"

definition rt_strdup :: "(u32 \<Rightarrow> memory \<Rightarrow> nat option \<times> memory) \<Rightarrow> nat \<Rightarrow> memory \<Rightarrow> (nat option \<times> memory) option" where
  \<comment> \<open>\<open>rt_malloc\<close> is a parameter: the block of the given size, if there is one, and the memory after the call\<close>
  "rt_strdup malloc s m = do {
     n \<leftarrow> rt_strlen s m;
     let len = word_of_nat (n + 1);
     case malloc len m of
       (None, m) \<Rightarrow> Some (None, m)
     | (Some tmp, m) \<Rightarrow> do { m \<leftarrow> rt_memcpy tmp s len m; Some (Some tmp, m) }
   }"

subsection \<open>Terminated strings\<close>

fun cstr :: "nat \<Rightarrow> u8 list \<Rightarrow> memory \<Rightarrow> bool" where
  "cstr a [] m = (m a = Some 0)"
| "cstr a (b # bs) m = (m a = Some b \<and> b \<noteq> 0 \<and> cstr (a + 1) bs m)"

declare strnlen_loop.simps [simp del] strstr_loop.simps [simp del]

lemma strlen_loop_run: "cstr a bs m \<Longrightarrow> strlen_loop a m = Some (a + length bs)"
  by (induction bs arbitrary: a) (subst strlen_loop.simps, simp)+

text \<open>\<open>rt_strlen\<close> returns on every terminated string, with the number of bytes before the terminator.\<close>
theorem rt_strlen_length: "cstr a bs m \<Longrightarrow> rt_strlen a m = Some (length bs)"
  by (simp add: rt_strlen_def strlen_loop_run)

theorem rt_strlen_length_witness: "rt_strlen 3 [3 \<mapsto> 104, 4 \<mapsto> 105, 5 \<mapsto> 0] = Some 2"
  using rt_strlen_length [of 3 "[104, 105]" "[3 \<mapsto> 104, 4 \<mapsto> 105, 5 \<mapsto> 0]"] by simp

lemma strnlen_loop_run:
  "cstr sc bs m \<Longrightarrow> s \<le> sc \<Longrightarrow> sc - s \<le> n \<Longrightarrow> strnlen_loop sc s n m = Some (min (sc - s + length bs) n)"
proof (induction bs arbitrary: sc)
  case Nil
  then show ?case by (subst strnlen_loop.simps) simp
next
  case (Cons b bs)
  show ?case
  proof (cases "sc - s < n")
    case True
    then have "strnlen_loop (sc + 1) s n m = Some (min (sc + 1 - s + length bs) n)"
      using Cons.prems by (intro Cons.IH) auto
    then show ?thesis using True Cons.prems by (subst strnlen_loop.simps) (simp add: Suc_diff_le)
  qed (use Cons.prems in \<open>subst strnlen_loop.simps, simp\<close>)
qed

text \<open>\<open>rt_strnlen\<close> on a terminated string is the length cut at \<open>maxlen\<close>.\<close>
theorem rt_strnlen_min: "cstr a bs m \<Longrightarrow> rt_strnlen a n m = Some (min (length bs) (unat n))"
  by (simp add: rt_strnlen_def strnlen_loop_run)

text \<open>The loop reads the byte before it tests the bound: of an area of \<open>maxlen\<close> bytes without a terminator it reads one byte more.\<close>
lemma rt_strnlen_reads_past: "rt_strnlen 0 2 [0 \<mapsto> 104, 1 \<mapsto> 105] = None"
  by (simp add: rt_strnlen_def strnlen_loop.simps)

subsection \<open>The comparisons are the order of the strings\<close>

fun diff_ref :: "u8 list \<Rightarrow> u8 list \<Rightarrow> int" where
  \<comment> \<open>the difference of the first bytes that differ, a terminator being zero\<close>
  "diff_ref [] [] = 0"
| "diff_ref [] (y # ys) = - uint y"
| "diff_ref (x # xs) [] = uint x"
| "diff_ref (x # xs) (y # ys) = (if x = y then diff_ref xs ys else uint x - uint y)"

abbreviation nonzero :: "u8 list \<Rightarrow> bool" where
  "nonzero bs \<equiv> 0 \<notin> set bs"

lemma cstr_nonzero: "cstr a bs m \<Longrightarrow> nonzero bs"
  by (induction bs arbitrary: a) auto

lemma uint_pos: "(x :: u8) \<noteq> 0 \<Longrightarrow> 0 < uint x"
  by (simp add: word_neq_0_conv word_less_def)

lemma diff_ref_order:
  "nonzero xs \<Longrightarrow> nonzero ys \<Longrightarrow> (diff_ref xs ys = 0 \<longleftrightarrow> xs = ys) \<and> (diff_ref xs ys < 0 \<longleftrightarrow> ord_class.lexordp xs ys)"
proof (induction xs ys rule: diff_ref.induct)
  case (4 x xs y ys)
  then show ?case by (auto simp: word_less_def word_uint_eq_iff)
qed (auto simp: uint_pos word_uint_eq_iff less_eq_neg_nonpos not_less)

lemma strcmp_run: "cstr a xs m \<Longrightarrow> cstr b ys m \<Longrightarrow> rt_strcmp a b m = Some (diff_ref xs ys)"
proof (induction xs ys arbitrary: a b rule: diff_ref.induct)
  case (4 x xs y ys)
  then show ?case by (subst rt_strcmp.simps) auto
qed (subst rt_strcmp.simps, auto)+

text \<open>
  \<open>rt_strcmp\<close> returns on terminated strings, zero exactly when they are equal and a negative value exactly when the first
  comes before the second in the lexicographic order of the bytes.
\<close>
theorem rt_strcmp_orders:
  assumes "cstr a xs m" "cstr b ys m"
  shows "\<exists>r. rt_strcmp a b m = Some r \<and> (r = 0 \<longleftrightarrow> xs = ys) \<and> (r < 0 \<longleftrightarrow> ord_class.lexordp xs ys)"
  using strcmp_run [OF assms] diff_ref_order [OF cstr_nonzero [OF assms(1)] cstr_nonzero [OF assms(2)]] by simp

definition two_strings :: memory where
  "two_strings = [0 \<mapsto> 97, 1 \<mapsto> 98, 2 \<mapsto> 0, 8 \<mapsto> 97, 9 \<mapsto> 0, 10 \<mapsto> 0, 11 \<mapsto> 0]"

theorem rt_strcmp_orders_witness: "\<exists>r. rt_strcmp 8 0 two_strings = Some r \<and> r < 0"
  using rt_strcmp_orders [of 8 "[97]" two_strings 0 "[97, 98]"] by (auto simp: two_strings_def)


lemma mod_diff_zero: "(p - q) mod 256 = 0 \<Longrightarrow> p < 256 \<Longrightarrow> q < 256 \<Longrightarrow> 0 \<le> p \<Longrightarrow> 0 \<le> q \<Longrightarrow> p = (q :: int)"
  by (metis dvd_eq_mod_eq_0 mod_eq_dvd_iff mod_pos_pos_trivial)

lemma diff_byte: "(x :: u8) \<noteq> y \<Longrightarrow> signed_take_bit 7 (uint x - uint y) \<noteq> 0"
proof
  assume ne: "x \<noteq> y" and z: "signed_take_bit 7 (uint x - uint y) = 0"
  have "take_bit 8 (uint x - uint y) = take_bit 8 (signed_take_bit 7 (uint x - uint y))"
    by (simp add: take_bit_signed_take_bit)
  then have "(uint x - uint y) mod 256 = 0" using z by (simp add: take_bit_eq_mod)
  moreover have "uint x < 256" "uint y < 256" "0 \<le> uint x" "0 \<le> uint y" using uint_lt2p [of x] uint_lt2p [of y] by simp_all
  ultimately have "uint x = uint y" by (rule mod_diff_zero)
  then show False using ne by (simp add: word_uint_eq_iff)
qed

lemma strncmp_run:
  "cstr a xs m \<Longrightarrow> cstr b ys m \<Longrightarrow>
     strncmp_loop n a b 0 m = Some (signed_take_bit 7 (diff_ref (take n xs) (take n ys)))"
proof (induction n arbitrary: a b xs ys)
  case (Suc n)
  show ?case
  proof (cases xs; cases ys)
    fix x xs' y ys'
    assume e: "xs = x # xs'" "ys = y # ys'"
    then show ?thesis using Suc diff_byte [of x y] by (cases "x = y") auto
  next
    fix y ys'
    assume e: "xs = []" "ys = y # ys'"
    then show ?thesis using Suc.prems diff_byte [of 0 y] by auto
  next
    fix x xs'
    assume e: "xs = x # xs'" "ys = []"
    then show ?thesis using Suc.prems diff_byte [of x 0] by auto
  qed (use Suc.prems in auto)
qed simp

lemma diff_ref_zero: "nonzero xs \<Longrightarrow> nonzero ys \<Longrightarrow> signed_take_bit 7 (diff_ref xs ys) = 0 \<longleftrightarrow> xs = ys"
proof (induction xs ys rule: diff_ref.induct)
  case (2 y ys)
  then show ?case using diff_byte [of 0 y] by auto
next
  case (3 x xs)
  then show ?case using diff_byte [of x 0] by auto
next
  case (4 x xs y ys)
  then show ?case using diff_byte [of x y] by auto
qed simp

text \<open>
  \<open>rt_strncmp\<close> returns on terminated strings and is zero exactly when their first \<open>count\<close> bytes agree.
\<close>
theorem rt_strncmp_zero:
  assumes "cstr a xs m" "cstr b ys m"
  shows "\<exists>r. rt_strncmp a b n m = Some r \<and> (r = 0 \<longleftrightarrow> take (unat n) xs = take (unat n) ys)"
proof -
  have "nonzero (take (unat n) xs)" "nonzero (take (unat n) ys)"
    using cstr_nonzero [OF assms(1)] cstr_nonzero [OF assms(2)] by (meson in_set_takeD)+
  then show ?thesis using strncmp_run [OF assms] diff_ref_zero by (simp add: rt_strncmp_def)
qed

theorem rt_strncmp_zero_witness: "\<exists>r. rt_strncmp 8 0 1 two_strings = Some r \<and> r = 0"
  using rt_strncmp_zero [of 8 "[97]" two_strings 0 "[97, 98]" 1] by (auto simp: two_strings_def)

text \<open>
  Its sign is not that of the comparison: \<open>res\<close> is a \<open>signed char\<close>, so a difference of more than 127 changes sign. The
  string of the byte 200 compares below the string of the byte 1.
\<close>
lemma rt_strncmp_sign:
  "rt_strncmp 0 2 1 [0 \<mapsto> 200, 1 \<mapsto> 0, 2 \<mapsto> 1, 3 \<mapsto> 0] = Some (- 57)"
  "rt_strcmp 0 2 [0 \<mapsto> 200, 1 \<mapsto> 0, 2 \<mapsto> 1, 3 \<mapsto> 0] = Some 199"
  by (simp_all add: rt_strncmp_def rt_strcmp.simps signed_take_bit_eq_if_negative) 

lemma lower_zero: "lower x = 0 \<longleftrightarrow> x = 0"
  by (auto simp: lower_def word_uint_eq_iff)

lemma lower_0 [simp]: "lower 0 = 0"
  by (simp add: lower_zero)

text \<open>\<open>rt_strcasecmp\<close> is zero exactly when the strings agree once capital letters are made small.\<close>
theorem rt_strcasecmp_zero:
  "cstr a xs m \<Longrightarrow> cstr b ys m \<Longrightarrow>
     \<exists>r. rt_strcasecmp a b m = Some r \<and> (r = 0 \<longleftrightarrow> map lower xs = map lower ys)"
proof (induction xs arbitrary: a b ys)
  case Nil
  then show ?case by (cases ys) (subst rt_strcasecmp.simps, auto simp: lower_zero Let_def eq_commute [of "lower 0"])+
next
  case (Cons x xs)
  show ?case
  proof (cases ys)
    case Nil
    then show ?thesis using Cons.prems by (subst rt_strcasecmp.simps) (auto simp: lower_zero Let_def)
  next
    case (Cons y zs)
    then have t: "cstr (a + 1) xs m" "cstr (b + 1) zs m" "m a = Some x" "m b = Some y" "x \<noteq> 0" using Cons.prems by simp_all
    show ?thesis
      using Cons.IH [OF t(1,2)] t(3-5) Cons by (subst rt_strcasecmp.simps) (auto simp: lower_zero Let_def)
  qed
qed

subsection \<open>The copies\<close>

lemma cstr_area: "cstr a bs m \<Longrightarrow> area a (Suc (length bs)) m"
proof (induction bs arbitrary: a)
  case (Cons b bs)
  then show ?case
    using Cons.IH [of "Suc a"] unfolding list.size(4) add_Suc_right add_0_right area_Suc [where a = a] by simp
qed simp

lemma cstr_upd: "cstr a bs m \<Longrightarrow> d < a \<or> a + length bs < d \<Longrightarrow> cstr a bs (m(d \<mapsto> v))"
  by (induction bs arbitrary: a) auto

lemma strcpy_is_copy:
  "cstr src bs m \<Longrightarrow> area dst (Suc (length bs)) m \<Longrightarrow> upward_ok dst src (Suc (length bs)) \<Longrightarrow>
     rt_strcpy dst src m = copy_bytes (Suc (length bs)) dst src m"
proof (induction bs arbitrary: dst src m)
  case Nil
  then show ?case by (subst rt_strcpy.simps) (simp add: store_def)
next
  case (Cons b bs)
  have h: "m dst \<noteq> None" "area (Suc dst) (Suc (length bs)) m"
    using Cons.prems(2) unfolding list.size(4) add_Suc_right add_0_right area_Suc [where a = dst] by simp_all
  show ?case
  proof (cases "dst = src")
    case True
    then have "m(dst \<mapsto> b) = m" using Cons.prems(1) by auto
    then show ?thesis
      using Cons.IH [of "Suc src" m "Suc src"] Cons.prems True h
      by (subst rt_strcpy.simps) (simp add: store_def copy_bytes.simps(2) [of "Suc (length bs)"] del: copy_bytes.simps)
  next
    case False
    then have "cstr (src + 1) bs (m(dst \<mapsto> b))" using Cons.prems by (intro cstr_upd) auto
    moreover have "area (dst + 1) (Suc (length bs)) (m(dst \<mapsto> b))" using h(2) by simp
    moreover have "upward_ok (dst + 1) (src + 1) (Suc (length bs))" using Cons.prems(3) by auto
    ultimately have "rt_strcpy (dst + 1) (src + 1) (m(dst \<mapsto> b)) = copy_bytes (Suc (length bs)) (dst + 1) (src + 1) (m(dst \<mapsto> b))"
      by (rule Cons.IH)
    then show ?thesis using Cons.prems(1) h(1) by (subst rt_strcpy.simps) (simp add: store_def copy_bytes.simps(2) [of "Suc (length bs)"] del: copy_bytes.simps)
  qed
qed


text \<open>
  \<open>rt_strcpy\<close> returns on a terminated source and copies exactly its bytes and the terminator, when the destination has room
  and does not start inside the source.
\<close>
theorem rt_strcpy_copies:
  assumes "cstr src bs m" "area dst (Suc (length bs)) m" "upward_ok dst src (Suc (length bs))"
  shows "rt_strcpy dst src m = Some (copy_ref dst src (Suc (length bs)) m)"
  unfolding strcpy_is_copy [OF assms] using copy_bytes_run assms cstr_area [OF assms(1)] by blast

theorem rt_strcpy_copies_witness: "rt_strcpy 8 0 two_strings = Some (copy_ref 8 0 3 two_strings)"
  using rt_strcpy_copies [where src = 0 and bs = "[97, 98]" and m = two_strings and dst = 8]
  by (simp add: two_strings_def All_less_Suc numeral_3_eq_3)

lemma copy_ref_at: "i < n \<Longrightarrow> copy_ref d s n m (d + i) = m (s + i)"
  by (simp add: copy_ref_def)

lemma cstr_copy:
  "cstr s bs m \<Longrightarrow> cstr d bs (copy_ref d s (Suc (length bs)) m)"
proof -
  have g: "cstr (s + i) bs' m \<Longrightarrow> i + length bs' = length bs \<Longrightarrow> cstr (d + i) bs' (copy_ref d s (Suc (length bs)) m)" for bs' i
  proof (induction bs' arbitrary: i)
    case (Cons b bs')
    from Cons.IH [of "Suc i"] Cons.prems show ?case by (simp add: copy_ref_at)
  qed (simp add: copy_ref_def)
  assume "cstr s bs m"
  from g [of 0 bs] this show ?thesis by simp
qed

lemma store_bytes_replicate_0: "pad_zero n d m = store_bytes d (replicate n 0) m"
proof (induction n arbitrary: d m)
  case (Suc n)
  then show ?case by (cases "store d 0 m") simp_all
qed simp

text \<open>
  \<open>rt_strncpy\<close> stores exactly \<open>n\<close> bytes: the string, cut at \<open>n\<close> or padded with zeros to \<open>n\<close>. A string of \<open>n\<close> or
  more bytes is stored without its terminator.
\<close>
theorem rt_strncpy_pads:
  assumes "cstr src bs m" "dst + unat n \<le> src \<or> src + length bs < dst"
  shows "rt_strncpy dst src n m = store_bytes dst (take (unat n) (bs @ replicate (unat n) 0)) m"
proof -
  have "strncpy_loop k d s m = store_bytes d (take k (bs @ replicate k 0)) m"
    if "cstr s bs m" "d + k \<le> s \<or> s + length bs < d" for k d s bs m
    using that
  proof (induction k arbitrary: d s bs m)
    case (Suc k)
    show ?case
    proof (cases bs)
      case Nil
      then show ?thesis using Suc.prems by (auto simp: store_bytes_replicate_0 store_def)
    next
      case (Cons b bs')
      have "cstr (s + 1) bs' (m(d \<mapsto> b))" using Suc.prems Cons by (intro cstr_upd) auto
      moreover have "d + 1 + k \<le> s + 1 \<or> s + 1 + length bs' < d + 1" using Suc.prems(2) Cons by auto
      ultimately have "strncpy_loop k (d + 1) (s + 1) (m(d \<mapsto> b)) = store_bytes (d + 1) (take k (bs' @ replicate k 0)) (m(d \<mapsto> b))"
        by (rule Suc.IH)
      moreover have "take k (bs' @ replicate k 0) = take k (bs' @ replicate (Suc k) 0)"
        by (simp add: min_def del: replicate_Suc)
      ultimately show ?thesis using Suc.prems(1) Cons by (auto simp: store_def)
    qed
  qed simp
  from this [OF assms] show ?thesis by (auto simp: rt_strncpy_def)
qed

theorem rt_strncpy_pads_witness: "rt_strncpy 8 0 4 two_strings = store_bytes 8 [97, 98, 0, 0] two_strings"
proof -
  have "take (unat (4 :: u32)) ([97, 98] @ replicate (unat (4 :: u32)) 0) = [97, 98, 0, 0 :: u8]" by code_simp
  then show ?thesis using rt_strncpy_pads [of 0 "[97, 98]" two_strings 8 4] by (simp add: two_strings_def)
qed

subsection \<open>rt_strstr and rt_strdup\<close>

lemma memcmp_prefix:
  assumes "cstr a xs m" "cstr b ys m" "length ys \<le> length xs" "length ys < 2 ^ 32"
  shows "\<exists>r. rt_memcmp a b (word_of_int (int (length ys))) m = Some r \<and> (r = 0 \<longleftrightarrow> take (length ys) xs = ys)"
proof -
  have u: "unat (word_of_int (int (length ys)) :: u32) = length ys"
    using assms(4) by (simp add: unsigned_of_nat take_bit_nat_eq_self_iff)
  have c: "m (a + i) = Some (bs ! i)" if "cstr a bs m" "i < length bs" for a bs i
    using that
  proof (induction bs arbitrary: a i)
    case (Cons b bs)
    then show ?case using Cons.IH [of "Suc a" "i - 1"] by (cases i) auto
  qed simp
  have "m (a + i) = Some (xs ! i) \<and> m (b + i) = Some (ys ! i)" if "i < length ys" for i
    using that c [OF assms(1), of i] c [OF assms(2), of i] assms(3) by simp
  then have "areas a b (length ys) m" "(\<forall>i<length ys. m (a + i) = m (b + i)) \<longleftrightarrow> (\<forall>i<length ys. xs ! i = ys ! i)"
    by simp_all
  moreover have "take (length ys) xs = ys \<longleftrightarrow> (\<forall>i<length ys. xs ! i = ys ! i)"
    using assms(3) by (auto simp: list_eq_iff_nth_eq)
  ultimately show ?thesis using rt_memcmp_sign [where a = a and b = b and n = "word_of_int (int (length ys))" and m = m] unfolding u by auto
qed

definition find_ref :: "u8 list \<Rightarrow> u8 list \<Rightarrow> nat option" where
  \<comment> \<open>the first position at which \<open>ys\<close> occurs in \<open>xs\<close>\<close>
  "find_ref xs ys = find (\<lambda>i. take (length ys) (drop i xs) = ys) [0..<Suc (length xs)]"

lemma find_map: "find P (map f xs) = map_option f (find (P \<circ> f) xs)"
  by (induction xs) auto

lemma find_ref_Cons:
  "find_ref (x # xs) ys = (if take (length ys) (x # xs) = ys then Some 0 else map_option Suc (find_ref xs ys))"
proof -
  have "[0..<Suc (length (x # xs))] = 0 # map Suc [0..<Suc (length xs)]"
    by (simp add: upt_conv_Cons map_Suc_upt del: upt_Suc)
  then show ?thesis unfolding find_ref_def by (simp add: find_map comp_def del: upt_Suc)
qed

lemma strstr_loop_run:
  assumes "cstr b ys m" "ys \<noteq> []" "length ys < 2 ^ 32"
  shows "cstr a xs m \<Longrightarrow>
    strstr_loop a b (int (length xs)) (int (length ys)) m = Some (map_option ((+) a) (find_ref xs ys))"
proof (induction xs arbitrary: a)
  case Nil
  then show ?case using assms(2) by (subst strstr_loop.simps) (auto simp: find_ref_def)
next
  case (Cons x xs)
  have n: "find_ref zs ys = None" if "length zs < length ys" for zs
    using that by (auto simp: find_ref_def find_None_iff)
  show ?case
  proof (cases "length ys \<le> length (x # xs)")
    case True
    then obtain r where r: "rt_memcmp a b (word_of_int (int (length ys))) m = Some r" "r = 0 \<longleftrightarrow> take (length ys) (x # xs) = ys"
      using memcmp_prefix [OF Cons.prems assms(1) _ assms(3)] by blast
    then show ?thesis
      using True Cons.IH [of "a + 1"] Cons.prems
      by (subst strstr_loop.simps) (auto simp: find_ref_Cons option.map_comp comp_def simp del: take_Cons)
  next
    case False
    then show ?thesis using n [of "x # xs"] by (subst strstr_loop.simps) auto
  qed
qed



text \<open>
  \<open>rt_strdup\<close> of a terminated string returns a block that holds the same string, or RT_NULL when the allocator has none;
  the source is unchanged. The allocator is a parameter: it leaves the source alone and its block has the size asked for and
  lies apart from the source.
\<close>
theorem rt_strdup_copies:
  assumes "cstr s bs m" "length bs + 1 < 2 ^ 32"
    and "\<And>m1 t. malloc (word_of_nat (length bs + 1)) m = (t, m1) \<Longrightarrow> cstr s bs m1"
    and "\<And>m1 t. malloc (word_of_nat (length bs + 1)) m = (Some t, m1) \<Longrightarrow>
           area t (length bs + 1) m1 \<and> (t + length bs < s \<or> s + length bs < t)"
  shows "\<exists>m'. rt_strdup malloc s m = Some (fst (malloc (word_of_nat (length bs + 1)) m), m') \<and> cstr s bs m' \<and>
     (\<forall>p. fst (malloc (word_of_nat (length bs + 1)) m) = Some p \<longrightarrow> cstr p bs m')"
proof -
  let ?len = "word_of_nat (length bs + 1) :: u32"
  have u: "unat ?len = Suc (length bs)" using assms(2) by (simp add: unsigned_of_nat take_bit_nat_eq_self_iff del: of_nat_Suc of_nat_add)
  obtain t m1 where t: "malloc ?len m = (t, m1)" by (cases "malloc ?len m")
  have s1: "cstr s bs m1" using assms(3) t .
  show ?thesis
  proof (cases t)
    case None
    then show ?thesis using t s1 by (simp add: rt_strdup_def rt_strlen_length [OF assms(1)])
  next
    case (Some p)
    have a: "area p (Suc (length bs)) m1" "p + length bs < s \<or> s + length bs < p"
      using assms(4) [OF t [unfolded Some]] by simp_all
    have "rt_memcpy p s ?len m1 = Some (copy_ref p s (Suc (length bs)) m1)"
      using rt_memcpy_run [where dst = p and src = s and count = ?len and m = m1] a cstr_area [OF s1] unfolding u by auto
    moreover have "cstr s bs (copy_ref p s (Suc (length bs)) m1)"
    proof -
      have "cstr x xs m1 \<Longrightarrow> (\<forall>i\<le>length xs. x + i < p \<or> p + length bs < x + i) \<Longrightarrow> cstr x xs (copy_ref p s (Suc (length bs)) m1)" for x xs
      proof (induction xs arbitrary: x)
        case (Cons y ys)
        have "\<forall>i\<le>length ys. Suc x + i < p \<or> p + length bs < Suc x + i" using Cons.prems(2) by (metis Suc_le_mono add_Suc_shift length_Cons)
        then show ?case using Cons.IH [of "Suc x"] Cons.prems(1) spec [OF Cons.prems(2), of 0] by (auto simp: copy_ref_def)
      qed (auto simp: copy_ref_def)
      then show ?thesis using s1 a(2) by auto
    qed
    ultimately show ?thesis using t Some cstr_copy [OF s1, of p]
      by (simp add: rt_strdup_def rt_strlen_length [OF assms(1)])
  qed
qed

theorem rt_strdup_copies_witness:
  "\<exists>m'. rt_strdup (\<lambda>n m. (Some 8, m)) 0 two_strings = Some (Some 8, m') \<and> cstr 8 [97, 98] m'"
proof -
  have w: "word_of_nat (length [97, 98 :: u8] + 1) = (3 :: u32)" by simp
  have a: "area 8 (length [97, 98 :: u8] + 1) two_strings" by (simp add: two_strings_def All_less_Suc)
  have c: "cstr 0 [97, 98] two_strings" by (simp add: two_strings_def)
  show ?thesis
    using rt_strdup_copies [OF c, of "\<lambda>n m. (Some 8, m)"] a c by simp blast
qed

end
