(* ===== verification/RingBuffer.thy ===== *)
theory RingBuffer
  imports MemPool KLibMem
begin

text \<open>
  The ring buffer of the serial drivers (components/drivers/ipc/ringbuffer.c). The two indices have 31 bits and a mirror bit each,
  so that all cells can be used. Copies outside the buffer, or beyond the bytes given, are the result \<open>None\<close>.
\<close>

record rt_ringbuffer =
  rb_buffer :: "u8 list"
  rb_read_mirror :: bool
  rb_read_index :: "31 word"
  rb_write_mirror :: bool
  rb_write_index :: "31 word"
  rb_size :: u32

datatype rt_ringbuffer_state = RT_RINGBUFFER_EMPTY | RT_RINGBUFFER_FULL | RT_RINGBUFFER_HALFFULL

definition rt_ringbuffer_status :: "rt_ringbuffer \<Rightarrow> rt_ringbuffer_state" where
  "rt_ringbuffer_status rb =
     (if rb_read_index rb = rb_write_index rb then
        if rb_read_mirror rb = rb_write_mirror rb then RT_RINGBUFFER_EMPTY else RT_RINGBUFFER_FULL
      else RT_RINGBUFFER_HALFFULL)"

abbreviation idx :: "31 word \<Rightarrow> u32" where "idx i \<equiv> ucast i"

definition rt_ringbuffer_data_len :: "rt_ringbuffer \<Rightarrow> u32" where
  "rt_ringbuffer_data_len rb =
     (case rt_ringbuffer_status rb of
        RT_RINGBUFFER_EMPTY \<Rightarrow> 0
      | RT_RINGBUFFER_FULL \<Rightarrow> rb_size rb
      | RT_RINGBUFFER_HALFFULL \<Rightarrow>
          let wi = idx (rb_write_index rb); ri = idx (rb_read_index rb) in
          if wi > ri then wi - ri else rb_size rb - (ri - wi))"

definition rt_ringbuffer_space_len :: "rt_ringbuffer \<Rightarrow> u32" where
  "rt_ringbuffer_space_len rb = rb_size rb - rt_ringbuffer_data_len rb"

definition rt_ringbuffer_init :: "u8 list \<Rightarrow> u32 \<Rightarrow> rt_ringbuffer option" where
  \<comment> \<open>\<open>sz\<close> is a signed number\<close>
  "rt_ringbuffer_init pool sz = do {
     rt_assert (sint sz > 0);
     Some \<lparr>rb_buffer = pool, rb_read_mirror = False, rb_read_index = 0, rb_write_mirror = False, rb_write_index = 0,
           rb_size = RT_ALIGN_DOWN sz RT_ALIGN_SIZE\<rparr>
   }"

definition rt_ringbuffer_reset :: "rt_ringbuffer \<Rightarrow> rt_ringbuffer" where
  "rt_ringbuffer_reset rb = rb\<lparr>rb_read_mirror := False, rb_read_index := 0, rb_write_mirror := False, rb_write_index := 0\<rparr>"

definition copy_range :: "'a list \<Rightarrow> nat \<Rightarrow> 'a list \<Rightarrow> nat \<Rightarrow> nat \<Rightarrow> 'a list option" where
  \<comment> \<open>\<open>n\<close> elements from position \<open>k\<close> of \<open>src\<close> to position \<open>off\<close> of \<open>dst\<close>\<close>
  "copy_range dst off src k n =
     (if off + n \<le> length dst \<and> k + n \<le> length src then Some (take off dst @ take n (drop k src) @ drop (off + n) dst) else None)"

definition ring_write :: "u8 list \<Rightarrow> u32 \<Rightarrow> rt_ringbuffer \<Rightarrow> (bool \<times> rt_ringbuffer) option" where
  \<comment> \<open>the copying part that \<open>rt_ringbuffer_put\<close> and \<open>rt_ringbuffer_put_force\<close> share; the first result: the write index wrapped\<close>
  "ring_write ptr len rb =
     (if rb_size rb - idx (rb_write_index rb) > len then do {
        buf \<leftarrow> copy_range (rb_buffer rb) (unat (rb_write_index rb)) ptr 0 (unat len);
        Some (False, rb\<lparr>rb_buffer := buf, rb_write_index := rb_write_index rb + ucast len\<rparr>)
      } else do {
        let k = rb_size rb - idx (rb_write_index rb);
        buf \<leftarrow> copy_range (rb_buffer rb) (unat (rb_write_index rb)) ptr 0 (unat k);
        buf \<leftarrow> copy_range buf 0 ptr (unat k) (unat (len - k));
        Some (True, rb\<lparr>rb_buffer := buf, rb_write_mirror := \<not> rb_write_mirror rb, rb_write_index := ucast (len - k)\<rparr>)
      })"

definition rt_ringbuffer_put :: "u8 list \<Rightarrow> u32 \<Rightarrow> rt_ringbuffer \<Rightarrow> (u32 \<times> rt_ringbuffer) option" where
  "rt_ringbuffer_put ptr len rb =
     (let sz = rt_ringbuffer_space_len rb in
      if sz = 0 then Some (0, rb)
      else do {
        let len = (if sz < len then sz else len);
        (_, rb) \<leftarrow> ring_write ptr len rb;
        Some (len, rb)
      })"

definition rt_ringbuffer_put_force :: "u8 list \<Rightarrow> u32 \<Rightarrow> rt_ringbuffer \<Rightarrow> (u32 \<times> rt_ringbuffer) option" where
  "rt_ringbuffer_put_force ptr len rb = do {
     let space_length = rt_ringbuffer_space_len rb;
     let (ptr, len) = (if len > rb_size rb then (drop (unat (len - rb_size rb)) ptr, rb_size rb) else (ptr, len));
     (wrapped, rb) \<leftarrow> ring_write ptr len rb;
     if \<not> wrapped then
       Some (len, if len > space_length then rb\<lparr>rb_read_index := rb_write_index rb\<rparr> else rb)
     else if len > space_length then do {
       let rb = (if rb_write_index rb \<le> rb_read_index rb then rb\<lparr>rb_read_mirror := \<not> rb_read_mirror rb\<rparr> else rb);
       Some (len, rb\<lparr>rb_read_index := rb_write_index rb\<rparr>)
     } else Some (len, rb)
   }"

definition rt_ringbuffer_get :: "u8 list \<Rightarrow> u32 \<Rightarrow> rt_ringbuffer \<Rightarrow> ((u32 \<times> u8 list) \<times> rt_ringbuffer) option" where
  \<comment> \<open>the caller's buffer \<open>ptr\<close> is returned as it is afterwards\<close>
  "rt_ringbuffer_get ptr len rb =
     (let sz = rt_ringbuffer_data_len rb in
      if sz = 0 then Some ((0, ptr), rb)
      else let len = (if sz < len then sz else len) in
        if rb_size rb - idx (rb_read_index rb) > len then do {
          ptr \<leftarrow> copy_range ptr 0 (rb_buffer rb) (unat (rb_read_index rb)) (unat len);
          Some ((len, ptr), rb\<lparr>rb_read_index := rb_read_index rb + ucast len\<rparr>)
        } else do {
          let k = rb_size rb - idx (rb_read_index rb);
          ptr \<leftarrow> copy_range ptr 0 (rb_buffer rb) (unat (rb_read_index rb)) (unat k);
          ptr \<leftarrow> copy_range ptr (unat k) (rb_buffer rb) 0 (unat (len - k));
          Some ((len, ptr), rb\<lparr>rb_read_mirror := \<not> rb_read_mirror rb, rb_read_index := ucast (len - k)\<rparr>)
        })"

definition rt_ringbuffer_peek :: "rt_ringbuffer \<Rightarrow> (u32 \<times> nat option) \<times> rt_ringbuffer" where
  \<comment> \<open>the second result: the position in the buffer to which \<open>ptr\<close> is set\<close>
  "rt_ringbuffer_peek rb =
     (let sz = rt_ringbuffer_data_len rb in
      if sz = 0 then ((0, None), rb)
      else let ptr = Some (unat (rb_read_index rb)) in
        if rb_size rb - idx (rb_read_index rb) > sz then
          ((sz, ptr), rb\<lparr>rb_read_index := rb_read_index rb + ucast sz\<rparr>)
        else ((rb_size rb - idx (rb_read_index rb), ptr), rb\<lparr>rb_read_mirror := \<not> rb_read_mirror rb, rb_read_index := 0\<rparr>))"

definition rt_ringbuffer_putchar :: "u8 \<Rightarrow> rt_ringbuffer \<Rightarrow> (u32 \<times> rt_ringbuffer) option" where
  "rt_ringbuffer_putchar ch rb =
     (if rt_ringbuffer_space_len rb = 0 then Some (0, rb)
      else do {
        rt_assert (unat (rb_write_index rb) < length (rb_buffer rb));
        let rb = rb\<lparr>rb_buffer := (rb_buffer rb)[unat (rb_write_index rb) := ch]\<rparr>;
        Some (1, if idx (rb_write_index rb) = rb_size rb - 1
                 then rb\<lparr>rb_write_mirror := \<not> rb_write_mirror rb, rb_write_index := 0\<rparr>
                 else rb\<lparr>rb_write_index := rb_write_index rb + 1\<rparr>)
      })"

definition rt_ringbuffer_putchar_force :: "u8 \<Rightarrow> rt_ringbuffer \<Rightarrow> (u32 \<times> rt_ringbuffer) option" where
  "rt_ringbuffer_putchar_force ch rb = do {
     let old_state = rt_ringbuffer_status rb;
     rt_assert (unat (rb_write_index rb) < length (rb_buffer rb));
     let rb = rb\<lparr>rb_buffer := (rb_buffer rb)[unat (rb_write_index rb) := ch]\<rparr>;
     Some (1, if idx (rb_write_index rb) = rb_size rb - 1 then
         let rb = rb\<lparr>rb_write_mirror := \<not> rb_write_mirror rb, rb_write_index := 0\<rparr> in
         if old_state = RT_RINGBUFFER_FULL
         then rb\<lparr>rb_read_mirror := \<not> rb_read_mirror rb, rb_read_index := rb_write_index rb\<rparr> else rb
       else
         let rb = rb\<lparr>rb_write_index := rb_write_index rb + 1\<rparr> in
         if old_state = RT_RINGBUFFER_FULL then rb\<lparr>rb_read_index := rb_write_index rb\<rparr> else rb)
   }"

definition rt_ringbuffer_getchar :: "rt_ringbuffer \<Rightarrow> ((u32 \<times> u8 option) \<times> rt_ringbuffer) option" where
  \<comment> \<open>\<open>None\<close> as second result: \<open>*ch\<close> is not written\<close>
  "rt_ringbuffer_getchar rb =
     (if rt_ringbuffer_data_len rb = 0 then Some ((0, None), rb)
      else do {
        rt_assert (unat (rb_read_index rb) < length (rb_buffer rb));
        let ch = rb_buffer rb ! unat (rb_read_index rb);
        Some ((1, Some ch), if idx (rb_read_index rb) = rb_size rb - 1
              then rb\<lparr>rb_read_mirror := \<not> rb_read_mirror rb, rb_read_index := 0\<rparr>
              else rb\<lparr>rb_read_index := rb_read_index rb + 1\<rparr>)
      })"

subsection \<open>The content\<close>

definition rb_wf :: "rt_ringbuffer \<Rightarrow> bool" where
  "rb_wf rb \<longleftrightarrow> 0 < unat (rb_size rb) \<and> unat (rb_size rb) < 2 ^ 31 \<and> length (rb_buffer rb) = unat (rb_size rb) \<and>
     unat (rb_read_index rb) < unat (rb_size rb) \<and> unat (rb_write_index rb) < unat (rb_size rb) \<and>
     (if rb_read_mirror rb = rb_write_mirror rb then unat (rb_read_index rb) \<le> unat (rb_write_index rb)
      else unat (rb_write_index rb) \<le> unat (rb_read_index rb))"

definition rb_len :: "rt_ringbuffer \<Rightarrow> nat" where
  "rb_len rb = (if rb_read_mirror rb = rb_write_mirror rb then unat (rb_write_index rb) - unat (rb_read_index rb)
     else unat (rb_size rb) - unat (rb_read_index rb) + unat (rb_write_index rb))"

definition rb_content :: "rt_ringbuffer \<Rightarrow> u8 list" where
  "rb_content rb = ring (unat (rb_size rb)) (rb_buffer rb) (unat (rb_read_index rb)) (rb_len rb)"

lemma length_rb_content [simp]: "length (rb_content rb) = rb_len rb"
  by (simp add: rb_content_def)

lemma rb_content_Nil [simp]: "rb_content rb = [] \<longleftrightarrow> rb_len rb = 0"
  using length_rb_content [of rb] by (metis length_0_conv)

lemma unat_idx [simp]: "unat (idx i) = unat i"
  by (simp add: unsigned_ucast_eq take_bit_eq_mod) (use unsigned_less [of i, where ?'a = nat] in simp)

lemma rb_len_le: "rb_wf rb \<Longrightarrow> rb_len rb \<le> unat (rb_size rb)"
  by (auto simp: rb_wf_def rb_len_def)

lemma data_len_run:
  assumes wf: "rb_wf rb"
  shows "unat (rt_ringbuffer_data_len rb) = rb_len rb"
proof -
  have e: "rb_read_index rb = rb_write_index rb \<longleftrightarrow> unat (rb_read_index rb) = unat (rb_write_index rb)"
    by (simp add: word_unat_eq_iff)
  have lt: "idx (rb_write_index rb) > idx (rb_read_index rb) \<longleftrightarrow> unat (rb_read_index rb) < unat (rb_write_index rb)"
    by (simp add: word_less_nat_alt)
  have s1: "unat (idx a - idx b) = unat a - unat b" if "unat b \<le> unat a" for a b
    using that unat_sub [of "idx b" "idx a"] by (simp add: word_le_nat_alt)
  have s2: "unat (rb_size rb - (idx a - idx b)) = unat (rb_size rb) - (unat a - unat b)"
    if "unat b \<le> unat a" "unat a < unat (rb_size rb)" for a b
    using that s1 unat_sub [of "idx a - idx b" "rb_size rb"] by (simp add: word_le_nat_alt)
  show ?thesis
    using wf e lt s1 s2
    by (auto simp: rt_ringbuffer_data_len_def rt_ringbuffer_status_def rb_len_def rb_wf_def Let_def split: if_splits)
qed

lemma space_len_run: "rb_wf rb \<Longrightarrow> unat (rt_ringbuffer_space_len rb) = unat (rb_size rb) - rb_len rb"
  unfolding rt_ringbuffer_space_len_def using data_len_run [of rb] rb_len_le [of rb] by (simp add: unat_sub word_le_nat_alt)

subsection \<open>Copying into the ring and out of it\<close>

definition ring_put :: "nat \<Rightarrow> 'a list \<Rightarrow> nat \<Rightarrow> 'a list \<Rightarrow> 'a list" where
  \<comment> \<open>\<open>xs\<close> written from index \<open>a\<close> on, around the end\<close>
  "ring_put n p a xs =
     (if a + length xs < n then take a p @ xs @ drop (a + length xs) p
      else drop (n - a) xs @ drop (length xs - (n - a)) (take a p) @ take (n - a) xs)"

lemma ring_put_nth:
  assumes a: "a < n" and p: "length p = n" and l: "length xs \<le> n" and i: "i < n"
  shows "ring_put n p a xs ! ((a + i) mod n) = (if i < length xs then xs ! i else p ! ((a + i) mod n))"
proof (cases "a + i < n")
  case True
  then show ?thesis using assms by (auto simp: ring_put_def nth_append min_def)
next
  case False
  then have m: "(a + i) mod n = a + i - n" using a i by (simp add: le_mod_geq)
  have "a + i - n < a" using False i by simp
  then show ?thesis
    unfolding m using assms False by (auto simp: ring_put_def nth_append min_def add.commute)
qed

lemma length_ring_put [simp]: "a < n \<Longrightarrow> length p = n \<Longrightarrow> length xs \<le> n \<Longrightarrow> length (ring_put n p a xs) = n"
  by (auto simp: ring_put_def)

lemma ring_nth: "i < k \<Longrightarrow> ring n p a k ! i = p ! ((a + i) mod n)"
  by (simp add: ring_def)

lemma ring_put_append:
  assumes n: "length p = n" "0 < n" and l: "d + length xs \<le> n"
  shows "ring n (ring_put n p ((r + d) mod n) xs) r (d + length xs) = ring n p r d @ xs"
proof (rule nth_equalityI)
  fix i
  assume i: "i < length (ring n (ring_put n p ((r + d) mod n) xs) r (d + length xs))"
  let ?a = "(r + d) mod n"
  note P = ring_put_nth [OF _ n(1), of ?a xs]
  show "ring n (ring_put n p ?a xs) r (d + length xs) ! i = (ring n p r d @ xs) ! i"
  proof (cases "i < d")
    case True
    have "(?a + (n - d + i)) mod n = (r + (d + (n - d + i))) mod n" by (simp add: mod_simps add.assoc)
    also have "r + (d + (n - d + i)) = r + i + n" using True l by simp
    finally have "(?a + (n - d + i)) mod n = (r + i) mod n" by simp
    moreover have "ring_put n p ?a xs ! ((?a + (n - d + i)) mod n) = p ! ((?a + (n - d + i)) mod n)"
    proof -
      have "\<not> n - d + i < length xs" "n - d + i < n" using True l by linarith+
      then show ?thesis using P [of "n - d + i"] mod_less_divisor [OF n(2), of "r + d"] l by (simp only: if_False)
    qed
    ultimately have "ring_put n p ?a xs ! ((r + i) mod n) = p ! ((r + i) mod n)" by (simp only:)
    then show ?thesis using True by (simp add: ring_nth nth_append)
  next
    case False
    then obtain j where j: "i = d + j" using le_Suc_ex by (metis not_less)
    have jl: "j < length xs" "j < n" using i j l by simp_all
    have "(?a + j) mod n = (r + i) mod n" by (simp add: j mod_simps add.assoc)
    then show ?thesis using P [of j] jl l n(2) by (simp add: ring_nth nth_append j)
  qed
qed simp

lemma ring_put_force:
  assumes n: "length p = n" "0 < n" and l: "length xs \<le> n" "n \<le> d + length xs" "d \<le> n"
  shows "ring n (ring_put n p ((r + d) mod n) xs) ((r + d + length xs) mod n) n = drop (d + length xs - n) (ring n p r d @ xs)"
proof (rule nth_equalityI)
  fix i
  assume "i < length (ring n (ring_put n p ((r + d) mod n) xs) ((r + d + length xs) mod n) n)"
  then have i: "i < n" by simp
  let ?a = "(r + d) mod n" and ?k = "d + length xs - n"
  note P = ring_put_nth [OF _ n(1) l(1), of ?a]
  have c: "ring n (ring_put n p ?a xs) ((r + d + length xs) mod n) n ! i = ring_put n p ?a xs ! ((r + d + length xs + i) mod n)"
    using i by (simp add: ring_nth mod_simps)
  show "ring n (ring_put n p ?a xs) ((r + d + length xs) mod n) n ! i = drop ?k (ring n p r d @ xs) ! i"
  proof (cases "i < n - length xs")
    case True
    have e: "(?a + (length xs + i)) mod n = (r + d + length xs + i) mod n" by (simp add: mod_simps add.assoc)
    have "r + d + length xs + i = r + (?k + i) + n" using l by simp
    then have "(r + d + length xs + i) mod n = (r + (?k + i) + n) mod n" by (simp only:)
    also have "\<dots> = (r + (?k + i)) mod n" by (rule mod_add_self2)
    finally have m: "(r + d + length xs + i) mod n = (r + (?k + i)) mod n" .
    have "drop ?k (ring n p r d @ xs) ! i = p ! ((r + (?k + i)) mod n)"
      using True l by (simp add: ring_nth nth_append)
    moreover have "ring_put n p ?a xs ! ((?a + (length xs + i)) mod n) = p ! ((?a + (length xs + i)) mod n)"
      using P [of "length xs + i"] True n(2) by simp
    ultimately show ?thesis using c e m by (simp only:)
  next
    case False
    then obtain j where j: "i = (n - length xs) + j" using le_Suc_ex by (metis not_less)
    have jl: "j < length xs" "j < n" using i j l by simp_all
    have "r + d + length xs + i = r + d + j + n" using l j by simp
    then have "(r + d + length xs + i) mod n = (r + d + j + n) mod n" by (simp only:)
    also have "\<dots> = (r + d + j) mod n" by (rule mod_add_self2)
    also have "\<dots> = (?a + j) mod n" by (rule mod_add_left_eq [symmetric])
    finally have e: "(r + d + length xs + i) mod n = (?a + j) mod n" .
    have "drop ?k (ring n p r d @ xs) ! i = (ring n p r d @ xs) ! (d + j)" using l j by (subst nth_drop) simp_all
    also have "\<dots> = xs ! j" by (simp add: nth_append)
    finally show ?thesis using c e P [of j] jl l n(2) by simp
  qed
qed (use l in simp)

lemma ring_drop:
  assumes "k \<le> d"
  shows "ring n p ((r + k) mod n) (d - k) = drop k (ring n p r d)"
  by (rule nth_equalityI) (use assms in \<open>simp_all add: ring_def mod_simps add.assoc nth_append less_diff_conv add.commute add.left_commute\<close>)

lemma ring_take: "k \<le> d \<Longrightarrow> take k (ring n p r d) = ring n p r k"
  by (rule nth_equalityI) (simp_all add: ring_def)

lemma ring_flat:
  assumes "a < n" and "length p = n" and "k \<le> n"
  shows "ring n p a k = (if a + k < n then take k (drop a p) else drop a p @ take (k - (n - a)) p)"
proof (rule nth_equalityI)
  fix i
  assume "i < length (ring n p a k)"
  then have i: "i < k" by simp
  show "ring n p a k ! i = (if a + k < n then take k (drop a p) else drop a p @ take (k - (n - a)) p) ! i"
  proof (cases "a + i < n")
    case True
    then show ?thesis using assms i by (auto simp: ring_def nth_append)
  next
    case False
    then have "(a + i) mod n = i - (n - a)" using assms i by (simp add: le_mod_geq)
    then show ?thesis using assms i False by (auto simp: ring_def nth_append)
  qed
qed (use assms in auto)

subsection \<open>The operations\<close>

lemma rb_wfI:
  assumes "0 < unat (rb_size rb)" "unat (rb_size rb) < 2 ^ 31" "length (rb_buffer rb) = unat (rb_size rb)"
    and "unat (rb_read_index rb) < unat (rb_size rb)" and d: "d \<le> unat (rb_size rb)"
    and w: "unat (rb_write_index rb) = (unat (rb_read_index rb) + d) mod unat (rb_size rb)"
    and m: "rb_read_mirror rb = rb_write_mirror rb \<longleftrightarrow> unat (rb_read_index rb) + d < unat (rb_size rb)"
  shows "rb_wf rb" and "rb_len rb = d"
  using assms by (auto simp: rb_wf_def rb_len_def le_mod_geq)

lemma rb_wfD:
  assumes "rb_wf rb"
  shows "unat (rb_write_index rb) = (unat (rb_read_index rb) + rb_len rb) mod unat (rb_size rb)"
    and "rb_read_mirror rb = rb_write_mirror rb \<longleftrightarrow> unat (rb_read_index rb) + rb_len rb < unat (rb_size rb)"
  using assms by (auto simp: rb_wf_def rb_len_def le_mod_geq)

lemma room_run:
  assumes "unat i < unat (n :: u32)"
  shows "n - idx i > len \<longleftrightarrow> unat i + unat len < unat n" and "unat (n - idx i) = unat n - unat i"
proof -
  show "unat (n - idx i) = unat n - unat i" using assms by (simp add: unat_sub word_le_nat_alt)
  then show "n - idx i > len \<longleftrightarrow> unat i + unat len < unat n" by (auto simp: word_less_nat_alt)
qed

lemma index_add:
  assumes "unat (i :: 31 word) + unat (len :: u32) < 2 ^ 31"
  shows "unat (i + ucast len) = unat i + unat len"
proof -
  have "unat (ucast len :: 31 word) = unat len"
    using assms by (simp add: unsigned_ucast_eq take_bit_eq_mod)
  then show ?thesis using assms by (simp add: unat_word_ariths)
qed

lemma index_cast: "unat (x :: u32) < 2 ^ 31 \<Longrightarrow> unat (ucast x :: 31 word) = unat x"
  by (simp add: unsigned_ucast_eq take_bit_eq_mod)

lemma ring_write_run:
  assumes wf: "rb_wf rb" and l: "unat len \<le> unat (rb_size rb)" "unat len \<le> length ptr"
  defines "n \<equiv> unat (rb_size rb)" and "w \<equiv> unat (rb_write_index rb)"
  shows "\<exists>wi. unat wi = (w + unat len) mod n \<and>
    ring_write ptr len rb = Some (n \<le> w + unat len, rb\<lparr>rb_buffer := ring_put n (rb_buffer rb) w (take (unat len) ptr),
      rb_write_mirror := (rb_write_mirror rb \<noteq> (n \<le> w + unat len)), rb_write_index := wi\<rparr>)"
proof -
  have b: "n < 2 ^ 31" "length (rb_buffer rb) = n" "w < n" using wf by (simp_all add: rb_wf_def n_def w_def)
  have lw: "unat (rb_write_index rb) < unat (rb_size rb)" using b(3) by (simp add: w_def n_def)
  note R = room_run [OF lw]
  show ?thesis
  proof (cases "w + unat len < n")
    case True
    have wi: "unat (rb_write_index rb + ucast len) = w + unat len"
      using True b(1) by (intro index_add [of "rb_write_index rb" len, folded w_def]) simp
    have c: "rb_size rb - idx (rb_write_index rb) > len" using True R(1) [of len] by (simp add: w_def n_def)
    have "copy_range (rb_buffer rb) w ptr 0 (unat len) = Some (ring_put n (rb_buffer rb) w (take (unat len) ptr))"
      using True b l by (simp add: copy_range_def ring_put_def min_def)
    then show ?thesis
      using True wi c by (intro exI [of _ "rb_write_index rb + ucast len"]) (simp add: ring_write_def w_def)
  next
    case False
    define k where "k = rb_size rb - idx (rb_write_index rb)"
    have k: "unat k = n - w" using R(2) by (simp add: k_def n_def w_def)
    have kl: "n - w \<le> unat len" "unat len - (n - w) \<le> w" using False l(1) b(3) by (simp_all add: n_def)
    have lk: "unat (len - k) = unat len - (n - w)" using k kl by (simp add: unat_sub word_le_nat_alt)
    have wi: "unat (ucast (len - k) :: 31 word) = (w + unat len) mod n"
    proof -
      have "unat (len - k) < 2 ^ 31" using lk kl(2) b by simp
      from index_cast [OF this] show ?thesis using lk False l(1) b(3) by (simp add: le_mod_geq n_def)
    qed
    have c: "\<not> rb_size rb - idx (rb_write_index rb) > len" using False R(1) [of len] by (simp add: w_def n_def)
    have m1: "copy_range (rb_buffer rb) w ptr 0 (n - w) = Some (take w (rb_buffer rb) @ take (n - w) ptr)"
      using b l kl by (simp add: copy_range_def)
    have m2: "copy_range (take w (rb_buffer rb) @ take (n - w) ptr) 0 ptr (n - w) (unat len - (n - w)) =
        Some (ring_put n (rb_buffer rb) w (take (unat len) ptr))"
      using False b l kl by (simp add: copy_range_def ring_put_def min_def drop_take)
    show ?thesis
      using False wi c m1 m2 k lk
      by (intro exI [of _ "ucast (len - k)"]) (simp add: ring_write_def w_def k_def [symmetric] Let_def)
  qed
qed

lemma after_write:
  assumes wf: "rb_wf rb" and l: "rb_len rb + length xs \<le> unat (rb_size rb)"
    and wi: "unat wi = (unat (rb_write_index rb) + length xs) mod unat (rb_size rb)"
  defines "rb' \<equiv> rb\<lparr>rb_buffer := ring_put (unat (rb_size rb)) (rb_buffer rb) (unat (rb_write_index rb)) xs,
      rb_write_mirror := (rb_write_mirror rb \<noteq> (unat (rb_size rb) \<le> unat (rb_write_index rb) + length xs)), rb_write_index := wi\<rparr>"
  shows "rb_wf rb'" and "rb_content rb' = rb_content rb @ xs"
proof -
  let ?n = "unat (rb_size rb)" and ?r = "unat (rb_read_index rb)" and ?w = "unat (rb_write_index rb)" and ?d = "rb_len rb"
  have b: "0 < ?n" "?n < 2 ^ 31" "length (rb_buffer rb) = ?n" "?r < ?n" "?w < ?n" using wf by (simp_all add: rb_wf_def)
  note D = rb_wfD [OF wf]
  have w': "unat wi = (?r + (?d + length xs)) mod ?n" using wi D(1) by (simp add: mod_simps add.assoc)
  have m: "rb_read_mirror rb = (rb_write_mirror rb \<noteq> (?n \<le> ?w + length xs)) \<longleftrightarrow> ?r + (?d + length xs) < ?n"
  proof (cases "?r + ?d < ?n")
    case True
    then show ?thesis using D by auto
  next
    case False
    then have "?w = ?r + ?d - ?n" using D(1) b(4) rb_len_le [OF wf] by (simp add: le_mod_geq)
    then show ?thesis using False D(2) l b(4) by auto
  qed
  note W = rb_wfI [of rb' "?d + length xs"]
  have pre: "0 < unat (rb_size rb')" "unat (rb_size rb') < 2 ^ 31" "length (rb_buffer rb') = unat (rb_size rb')"
    "unat (rb_read_index rb') < unat (rb_size rb')" "?d + length xs \<le> unat (rb_size rb')"
    "unat (rb_write_index rb') = (unat (rb_read_index rb') + (?d + length xs)) mod unat (rb_size rb')"
    "rb_read_mirror rb' = rb_write_mirror rb' \<longleftrightarrow> unat (rb_read_index rb') + (?d + length xs) < unat (rb_size rb')"
    using b l w' m by (simp_all add: rb'_def)
  show "rb_wf rb'" by (rule W(1) [OF pre])
  have "rb_content rb' = ring ?n (ring_put ?n (rb_buffer rb) ?w xs) ?r (?d + length xs)"
    using W(2) [OF pre] by (simp add: rb_content_def) (simp add: rb'_def)
  also have "\<dots> = rb_content rb @ xs"
    unfolding D(1) rb_content_def by (rule ring_put_append [OF b(3,1) l])
  finally show "rb_content rb' = rb_content rb @ xs" .
qed

text \<open>\<open>rt_ringbuffer_put\<close> appends as many of the given bytes as there is room for and returns how many; it never writes
  outside the buffer.\<close>

theorem rt_ringbuffer_put_appends:
  assumes wf: "rb_wf rb" and l: "unat len \<le> length ptr"
  shows "\<exists>r rb'. rt_ringbuffer_put ptr len rb = Some (r, rb') \<and> unat r = min (unat len) (unat (rb_size rb) - rb_len rb) \<and>
    rb_wf rb' \<and> rb_content rb' = rb_content rb @ take (unat r) ptr \<and> rb_size rb' = rb_size rb"
proof -
  have sp: "unat (rt_ringbuffer_space_len rb) = unat (rb_size rb) - rb_len rb" by (rule space_len_run [OF wf])
  show ?thesis
  proof (cases "rt_ringbuffer_space_len rb = 0")
    case True
    then have "unat (rb_size rb) - rb_len rb = 0" using sp by simp
    then show ?thesis using True wf by (simp add: rt_ringbuffer_put_def)
  next
    case False
    define r where "r = (if rt_ringbuffer_space_len rb < len then rt_ringbuffer_space_len rb else len)"
    have r: "unat r = min (unat len) (unat (rb_size rb) - rb_len rb)" using sp by (simp add: r_def word_less_nat_alt)
    have rl: "unat r \<le> unat (rb_size rb)" "unat r \<le> length ptr" "length (take (unat r) ptr) = unat r" using r l by simp_all
    obtain wi where wi: "unat wi = (unat (rb_write_index rb) + unat r) mod unat (rb_size rb)"
      and w: "ring_write ptr r rb = Some (unat (rb_size rb) \<le> unat (rb_write_index rb) + unat r,
        rb\<lparr>rb_buffer := ring_put (unat (rb_size rb)) (rb_buffer rb) (unat (rb_write_index rb)) (take (unat r) ptr),
          rb_write_mirror := (rb_write_mirror rb \<noteq> (unat (rb_size rb) \<le> unat (rb_write_index rb) + unat r)), rb_write_index := wi\<rparr>)"
      using ring_write_run [OF wf rl(1,2)] by blast
    have "rb_len rb + length (take (unat r) ptr) \<le> unat (rb_size rb)" using r rl(3) rb_len_le [OF wf] by simp
    note A = after_write [OF wf this, of wi, unfolded rl(3), OF wi]
    have "rt_ringbuffer_put ptr len rb = Some (r,
        rb\<lparr>rb_buffer := ring_put (unat (rb_size rb)) (rb_buffer rb) (unat (rb_write_index rb)) (take (unat r) ptr),
          rb_write_mirror := (rb_write_mirror rb \<noteq> (unat (rb_size rb) \<le> unat (rb_write_index rb) + unat r)), rb_write_index := wi\<rparr>)"
      using False w by (simp add: rt_ringbuffer_put_def Let_def r_def [symmetric])
    then show ?thesis using A r by (intro exI conjI) (assumption | simp)+
  qed
qed

lemma after_force:
  assumes wf: "rb_wf rb" and l: "length xs \<le> unat (rb_size rb)" "unat (rb_size rb) < rb_len rb + length xs"
    and wi: "unat wi = (unat (rb_write_index rb) + length xs) mod unat (rb_size rb)"
    and rb': "rb_size rb' = rb_size rb" "rb_buffer rb' = ring_put (unat (rb_size rb)) (rb_buffer rb) (unat (rb_write_index rb)) xs"
      "rb_read_index rb' = wi" "rb_write_index rb' = wi" "rb_read_mirror rb' \<noteq> rb_write_mirror rb'"
  shows "rb_wf rb'" and "rb_content rb' = drop (rb_len rb + length xs - unat (rb_size rb)) (rb_content rb @ xs)"
proof -
  let ?n = "unat (rb_size rb)" and ?r = "unat (rb_read_index rb)" and ?w = "unat (rb_write_index rb)" and ?d = "rb_len rb"
  have b: "0 < ?n" "?n < 2 ^ 31" "length (rb_buffer rb) = ?n" "?r < ?n" "?w < ?n" using wf by (simp_all add: rb_wf_def)
  have wn: "unat wi < ?n" using wi b(1) by simp
  note W = rb_wfI [of rb' ?n]
  have pre: "0 < unat (rb_size rb')" "unat (rb_size rb') < 2 ^ 31" "length (rb_buffer rb') = unat (rb_size rb')"
    "unat (rb_read_index rb') < unat (rb_size rb')" "?n \<le> unat (rb_size rb')"
    "unat (rb_write_index rb') = (unat (rb_read_index rb') + ?n) mod unat (rb_size rb')"
    "rb_read_mirror rb' = rb_write_mirror rb' \<longleftrightarrow> unat (rb_read_index rb') + ?n < unat (rb_size rb')"
    using b l wn by (simp_all add: rb')
  show "rb_wf rb'" by (rule W(1) [OF pre])
  have "rb_content rb' = ring ?n (ring_put ?n (rb_buffer rb) ?w xs) ((?r + ?d + length xs) mod ?n) ?n"
    using W(2) [OF pre] wi rb_wfD(1) [OF wf] by (simp add: rb_content_def rb' mod_simps)
  also have "\<dots> = drop (?d + length xs - ?n) (rb_content rb @ xs)"
    unfolding rb_wfD(1) [OF wf] rb_content_def
    by (rule ring_put_force [OF b(3,1) l(1)]) (use l rb_len_le [OF wf] in auto)
  finally show "rb_content rb' = drop (?d + length xs - ?n) (rb_content rb @ xs)" .
qed

text \<open>C36. \<open>rt_ringbuffer_put_force\<close> always takes the newest bytes: afterwards the buffer holds the last \<open>rb_size\<close> of the bytes
  that were in it followed by the given ones, in order, also when the request is longer than the whole buffer.\<close>

theorem rt_ringbuffer_put_force_newest:
  assumes wf: "rb_wf rb" and l: "unat len = length ptr"
  shows "\<exists>rb'. rt_ringbuffer_put_force ptr len rb = Some (if len > rb_size rb then rb_size rb else len, rb') \<and> rb_wf rb' \<and>
    rb_size rb' = rb_size rb \<and>
    rb_content rb' = drop (rb_len rb + unat len - unat (rb_size rb)) (rb_content rb @ ptr)"
proof -
  let ?n = "unat (rb_size rb)" and ?w = "unat (rb_write_index rb)" and ?d = "rb_len rb" and ?r = "unat (rb_read_index rb)"
  have b: "0 < ?n" "?n < 2 ^ 31" "length (rb_buffer rb) = ?n" "?r < ?n" "?w < ?n" using wf by (simp_all add: rb_wf_def)
  define xs where "xs = (if len > rb_size rb then drop (unat (len - rb_size rb)) ptr else ptr)"
  define m where "m = (if len > rb_size rb then rb_size rb else len)"
  have um: "unat m = min ?n (unat len)" by (simp add: m_def word_less_nat_alt)
  have xs: "xs = drop (unat len - ?n) ptr" by (simp add: xs_def word_less_nat_alt unat_sub word_le_nat_alt)
  have lx: "length xs = unat m" using um l xs by simp
  obtain wi where wi: "unat wi = (?w + unat m) mod ?n"
    and w: "ring_write xs m rb = Some (?n \<le> ?w + unat m, rb\<lparr>rb_buffer := ring_put ?n (rb_buffer rb) ?w (take (unat m) xs),
          rb_write_mirror := (rb_write_mirror rb \<noteq> (?n \<le> ?w + unat m)), rb_write_index := wi\<rparr>)"
    using ring_write_run [OF wf, of m xs] um lx by auto
  have tk: "take (unat m) xs = xs" using lx by simp
  define rb1 where "rb1 = rb\<lparr>rb_buffer := ring_put ?n (rb_buffer rb) ?w xs,
          rb_write_mirror := (rb_write_mirror rb \<noteq> (?n \<le> ?w + unat m)), rb_write_index := wi\<rparr>"
  have sp: "unat (rt_ringbuffer_space_len rb) = ?n - ?d" by (rule space_len_run [OF wf])
  have over: "m > rt_ringbuffer_space_len rb \<longleftrightarrow> ?n < ?d + length xs"
    using sp lx rb_len_le [OF wf] by (auto simp: word_less_nat_alt)
  have pl: "(if len > rb_size rb then (drop (unat (len - rb_size rb)) ptr, rb_size rb) else (ptr, len)) = (xs, m)"
    by (simp add: xs_def m_def)
  have cat: "drop (?d + unat len - ?n) (rb_content rb @ ptr) = drop (?d + length xs - ?n) (rb_content rb @ xs)"
    using um lx l rb_len_le [OF wf] by (cases "?n \<le> unat len") (simp_all add: xs)
  define res where "res = (if ?n \<le> ?w + unat m then
      (if ?n < ?d + length xs then
        (if wi \<le> rb_read_index rb then rb1\<lparr>rb_read_mirror := \<not> rb_read_mirror rb\<rparr> else rb1)\<lparr>rb_read_index := wi\<rparr> else rb1)
    else (if ?n < ?d + length xs then rb1\<lparr>rb_read_index := wi\<rparr> else rb1))"
  have st: "rt_ringbuffer_put_force ptr len rb = Some (m, res)"
  proof -
    have w1: "ring_write xs m rb = Some (?n \<le> ?w + unat m, rb1)" using w tk by (simp add: rb1_def)
    have "rb_write_index rb1 = wi" "rb_read_index rb1 = rb_read_index rb" "rb_read_mirror rb1 = rb_read_mirror rb"
      by (simp_all add: rb1_def)
    then show ?thesis
      unfolding rt_ringbuffer_put_force_def Let_def pl prod.case w1 res_def over by simp
  qed
  have "rb_wf res \<and> rb_size res = rb_size rb \<and> rb_content res = drop (?d + length xs - ?n) (rb_content rb @ xs)"
  proof (cases "?n < ?d + length xs")
    case False
    have l': "?d + length xs \<le> ?n" using False by simp
    have "res = rb1" using False by (simp add: res_def)
    then show ?thesis using after_write [OF wf l', of wi] wi lx False by (simp add: rb1_def)
  next
    case True
    have r1: "rb_size res = rb_size rb" "rb_buffer res = ring_put ?n (rb_buffer rb) ?w xs" "rb_read_index res = wi" "rb_write_index res = wi"
      using True by (auto simp: res_def rb1_def)
    have "rb_read_mirror res \<noteq> rb_write_mirror res"
    proof -
      note D = rb_wfD [OF wf]
      have mle: "unat m \<le> ?n" using um by simp
      have le: "wi \<le> rb_read_index rb \<longleftrightarrow> unat wi \<le> ?r" by (simp add: word_le_nat_alt)
      show ?thesis
      proof (cases "rb_read_mirror rb = rb_write_mirror rb")
        case same: True
        then have w: "?w = ?r + ?d" using D by simp
        then have ww: "?n \<le> ?w + unat m" using True lx by simp
        then have "unat wi = ?w + unat m - ?n" using wi b(5) mle by (simp add: le_mod_geq)
        then have "\<not> wi \<le> rb_read_index rb" using le w True lx by simp
        then show ?thesis using True ww same by (simp add: res_def rb1_def)
      next
        case diff: False
        have wr: "?w \<le> ?r" using wf diff by (simp add: rb_wf_def)
        show ?thesis
        proof (cases "?n \<le> ?w + unat m")
          case ww: True
          then have "unat wi = ?w + unat m - ?n" using wi b(5) mle by (simp add: le_mod_geq)
          then have "wi \<le> rb_read_index rb" using le wr mle by simp
          then show ?thesis using True ww diff by (simp add: res_def rb1_def)
        next
          case False
          then show ?thesis using True diff by (simp add: res_def rb1_def)
        qed
      qed
    qed
    then show ?thesis using after_force [OF wf _ True, of wi res] r1 wi lx um by simp
  qed
  then show ?thesis using st cat by (simp add: m_def)
qed

lemma after_read:
  assumes wf: "rb_wf rb" and k: "k \<le> rb_len rb"
    and rb': "rb_size rb' = rb_size rb" "rb_buffer rb' = rb_buffer rb" "rb_write_index rb' = rb_write_index rb"
      "rb_write_mirror rb' = rb_write_mirror rb"
      "unat (rb_read_index rb') = (unat (rb_read_index rb) + k) mod unat (rb_size rb)"
      "rb_read_mirror rb' = (rb_read_mirror rb \<noteq> (unat (rb_size rb) \<le> unat (rb_read_index rb) + k))"
  shows "rb_wf rb'" and "rb_content rb' = drop k (rb_content rb)"
proof -
  let ?n = "unat (rb_size rb)" and ?r = "unat (rb_read_index rb)" and ?w = "unat (rb_write_index rb)" and ?d = "rb_len rb"
  have b: "0 < ?n" "?n < 2 ^ 31" "length (rb_buffer rb) = ?n" "?r < ?n" "?w < ?n" using wf by (simp_all add: rb_wf_def)
  note D = rb_wfD [OF wf] rb_len_le [OF wf]
  obtain e where e: "?d = k + e" using le_Suc_ex [OF k] by blast
  have w': "?w = ((?r + k) mod ?n + (?d - k)) mod ?n" using D(1) by (simp add: e mod_simps add.assoc)
  have m: "(rb_read_mirror rb \<noteq> (?n \<le> ?r + k)) = rb_write_mirror rb \<longleftrightarrow> (?r + k) mod ?n + (?d - k) < ?n"
  proof (cases "?n \<le> ?r + k")
    case True
    then have "(?r + k) mod ?n = ?r + k - ?n" using b(4) k D(3) by (simp add: le_mod_geq)
    then show ?thesis using True D k b(4) by auto
  next
    case False
    then show ?thesis using D k by auto
  qed
  note W = rb_wfI [of rb' "?d - k"]
  have pre: "0 < unat (rb_size rb')" "unat (rb_size rb') < 2 ^ 31" "length (rb_buffer rb') = unat (rb_size rb')"
    "unat (rb_read_index rb') < unat (rb_size rb')" "?d - k \<le> unat (rb_size rb')"
    "unat (rb_write_index rb') = (unat (rb_read_index rb') + (?d - k)) mod unat (rb_size rb')"
    "rb_read_mirror rb' = rb_write_mirror rb' \<longleftrightarrow> unat (rb_read_index rb') + (?d - k) < unat (rb_size rb')"
    using b D(3) w' m by (simp_all add: rb')
  show "rb_wf rb'" by (rule W(1) [OF pre])
  show "rb_content rb' = drop k (rb_content rb)"
    using W(2) [OF pre] ring_drop [OF k, of ?n "rb_buffer rb" ?r] by (simp add: rb_content_def rb')
qed

text \<open>\<open>rt_ringbuffer_get\<close> takes the oldest bytes out, in order: as many as asked for and present. They are at the start of the
  caller's buffer, whose other bytes are untouched.\<close>

theorem rt_ringbuffer_get_takes:
  assumes wf: "rb_wf rb" and l: "unat len \<le> length ptr"
  shows "\<exists>r rb'. rt_ringbuffer_get ptr len rb =
      Some ((r, take (unat r) (rb_content rb) @ drop (unat r) ptr), rb') \<and> unat r = min (unat len) (rb_len rb) \<and>
    rb_wf rb' \<and> rb_content rb' = drop (unat r) (rb_content rb) \<and> rb_size rb' = rb_size rb"
proof -
  let ?n = "unat (rb_size rb)" and ?r = "unat (rb_read_index rb)" and ?d = "rb_len rb"
  have b: "0 < ?n" "?n < 2 ^ 31" "length (rb_buffer rb) = ?n" "?r < ?n" using wf by (simp_all add: rb_wf_def)
  have dl: "unat (rt_ringbuffer_data_len rb) = ?d" by (rule data_len_run [OF wf])
  show ?thesis
  proof (cases "rt_ringbuffer_data_len rb = 0")
    case True
    then show ?thesis using wf dl by (simp add: rt_ringbuffer_get_def)
  next
    case False
    define m where "m = (if rt_ringbuffer_data_len rb < len then rt_ringbuffer_data_len rb else len)"
    have m: "unat m = min (unat len) ?d" using dl by (simp add: m_def word_less_nat_alt)
    have ml: "unat m \<le> ?d" "unat m \<le> ?n" "unat m \<le> length ptr" using m rb_len_le [OF wf] l by simp_all
    note R = room_run [OF b(4)]
    have fl: "take (unat m) (rb_content rb) = (if ?r + unat m < ?n then take (unat m) (drop ?r (rb_buffer rb))
        else drop ?r (rb_buffer rb) @ take (unat m - (?n - ?r)) (rb_buffer rb))"
      unfolding rb_content_def ring_take [OF ml(1)] by (rule ring_flat [OF b(4,3) ml(2)])
    show ?thesis
    proof (cases "?r + unat m < ?n")
      case True
      let ?rb = "rb\<lparr>rb_read_index := rb_read_index rb + ucast m\<rparr>"
      have ri: "unat (rb_read_index rb + ucast m) = ?r + unat m" using True b(2) by (intro index_add) simp
      have c: "rb_size rb - idx (rb_read_index rb) > m" using True R(1) [of m] by simp
      have "copy_range ptr 0 (rb_buffer rb) ?r (unat m) = Some (take (unat m) (rb_content rb) @ drop (unat m) ptr)"
        using True b(3) ml(3) fl by (simp add: copy_range_def)
      then have "rt_ringbuffer_get ptr len rb = Some ((m, take (unat m) (rb_content rb) @ drop (unat m) ptr), ?rb)"
        using False c by (simp add: rt_ringbuffer_get_def m_def [symmetric] Let_def)
      moreover have "rb_wf ?rb" "rb_content ?rb = drop (unat m) (rb_content rb)"
        using after_read [OF wf ml(1), of ?rb] ri True by simp_all
      ultimately show ?thesis using m by (intro exI conjI) (assumption | simp)+
    next
      case wrap: False
      define k where "k = rb_size rb - idx (rb_read_index rb)"
      have k: "unat k = ?n - ?r" using R(2) by (simp add: k_def)
      have kl: "?n - ?r \<le> unat m" "unat m - (?n - ?r) \<le> ?r" using wrap ml(2) b(4) by simp_all
      have lk: "unat (m - k) = unat m - (?n - ?r)" using k kl by (simp add: unat_sub word_le_nat_alt)
      have "unat (m - k) < 2 ^ 31" using lk kl(2) b by simp
      then have ri: "unat (ucast (m - k) :: 31 word) = (?r + unat m) mod ?n"
        using index_cast lk wrap ml(2) b(4) by (simp add: le_mod_geq)
      let ?rb = "rb\<lparr>rb_read_mirror := \<not> rb_read_mirror rb, rb_read_index := ucast (m - k)\<rparr>"
      have c: "\<not> rb_size rb - idx (rb_read_index rb) > m" using wrap R(1) [of m] by simp
      have m1: "copy_range ptr 0 (rb_buffer rb) ?r (?n - ?r) = Some (drop ?r (rb_buffer rb) @ drop (?n - ?r) ptr)"
        using b kl ml(3) by (simp add: copy_range_def)
      have m2: "copy_range (drop ?r (rb_buffer rb) @ drop (?n - ?r) ptr) (?n - ?r) (rb_buffer rb) 0 (unat m - (?n - ?r)) =
          Some (take (unat m) (rb_content rb) @ drop (unat m) ptr)"
        using b kl ml fl wrap by (simp add: copy_range_def)
      have "rt_ringbuffer_get ptr len rb = Some ((m, take (unat m) (rb_content rb) @ drop (unat m) ptr), ?rb)"
        using False c m1 m2 k lk by (simp add: rt_ringbuffer_get_def m_def [symmetric] k_def [symmetric] Let_def)
      moreover have "rb_wf ?rb" "rb_content ?rb = drop (unat m) (rb_content rb)"
        using after_read [OF wf ml(1), of ?rb] ri wrap by simp_all
      ultimately show ?thesis using m by (intro exI conjI) (assumption | simp)+
    qed
  qed
qed

subsection \<open>Single bytes\<close>

lemma index_last:
  assumes "unat (i :: 31 word) < unat (n :: u32)" and "unat n < 2 ^ 31"
  shows "idx i = n - 1 \<longleftrightarrow> unat i + 1 = unat n"
    and "unat i + 1 \<noteq> unat n \<Longrightarrow> unat (i + 1) = (unat i + 1) mod unat n"
proof -
  have "unat (n - 1) = unat n - 1" using assms(1) by (intro unat_minus_one) auto
  then show "idx i = n - 1 \<longleftrightarrow> unat i + 1 = unat n" using assms(1) by (auto simp: word_unat_eq_iff)
  assume "unat i + 1 \<noteq> unat n"
  then have "unat i + 1 < unat n" using assms(1) by simp
  then show "unat (i + 1) = (unat i + 1) mod unat n" using assms(2) by (simp add: unat_word_ariths)
qed

lemma ring_put_one: "a < n \<Longrightarrow> length p = n \<Longrightarrow> ring_put n p a [x] = p[a := x]"
  by (auto simp: ring_put_def upd_conv_take_nth_drop)

lemma putchar_state:
  assumes wf: "rb_wf rb"
  defines "n \<equiv> unat (rb_size rb)" and "w \<equiv> unat (rb_write_index rb)"
  shows "\<exists>wi. unat wi = (w + 1) mod n \<and>
    (if idx (rb_write_index rb) = rb_size rb - 1
     then rb\<lparr>rb_buffer := (rb_buffer rb)[w := x], rb_write_mirror := \<not> rb_write_mirror rb, rb_write_index := 0\<rparr>
     else rb\<lparr>rb_buffer := (rb_buffer rb)[w := x], rb_write_index := rb_write_index rb + 1\<rparr>) =
    rb\<lparr>rb_buffer := ring_put n (rb_buffer rb) w [x], rb_write_mirror := (rb_write_mirror rb \<noteq> (n \<le> w + 1)), rb_write_index := wi\<rparr>"
proof -
  have b: "n < 2 ^ 31" "length (rb_buffer rb) = n" "w < n" using wf by (simp_all add: rb_wf_def n_def w_def)
  note L = index_last [OF b(3,1) [unfolded n_def w_def], folded n_def w_def]
  show ?thesis
  proof (cases "w + 1 = n")
    case True
    then show ?thesis using L(1) b ring_put_one [OF b(3,2)] by (intro exI [of _ 0]) auto
  next
    case False
    then show ?thesis using L b ring_put_one [OF b(3,2)] by (intro exI [of _ "rb_write_index rb + 1"]) auto
  qed
qed

lemma putchar_run:
  assumes wf: "rb_wf rb"
  shows "if rb_len rb = unat (rb_size rb) then rt_ringbuffer_putchar x rb = Some (0, rb)
    else \<exists>rb'. rt_ringbuffer_putchar x rb = Some (1, rb') \<and> rb_wf rb' \<and> rb_content rb' = rb_content rb @ [x] \<and> rb_size rb' = rb_size rb"
proof (cases "rb_len rb = unat (rb_size rb)")
  case True
  then have "rt_ringbuffer_space_len rb = 0" using space_len_run [OF wf] by (simp add: word_unat_eq_iff)
  then show ?thesis using True by (simp add: rt_ringbuffer_putchar_def)
next
  case False
  then have l: "rb_len rb + length [x] \<le> unat (rb_size rb)" using rb_len_le [OF wf] by simp
  then have sp: "rt_ringbuffer_space_len rb \<noteq> 0" using space_len_run [OF wf] by auto
  have wl: "unat (rb_write_index rb) < length (rb_buffer rb)" using wf by (simp add: rb_wf_def)
  obtain wi where wi: "unat wi = (unat (rb_write_index rb) + 1) mod unat (rb_size rb)" and
    st: "(if idx (rb_write_index rb) = rb_size rb - 1
     then rb\<lparr>rb_buffer := (rb_buffer rb)[unat (rb_write_index rb) := x], rb_write_mirror := \<not> rb_write_mirror rb, rb_write_index := 0\<rparr>
     else rb\<lparr>rb_buffer := (rb_buffer rb)[unat (rb_write_index rb) := x], rb_write_index := rb_write_index rb + 1\<rparr>) =
    rb\<lparr>rb_buffer := ring_put (unat (rb_size rb)) (rb_buffer rb) (unat (rb_write_index rb)) [x],
      rb_write_mirror := (rb_write_mirror rb \<noteq> (unat (rb_size rb) \<le> unat (rb_write_index rb) + 1)), rb_write_index := wi\<rparr>"
    using putchar_state [OF wf, of x] by blast
  note A = after_write [OF wf l, of wi]
  have "rt_ringbuffer_putchar x rb = Some (1, if idx (rb_write_index rb) = rb_size rb - 1
     then rb\<lparr>rb_buffer := (rb_buffer rb)[unat (rb_write_index rb) := x], rb_write_mirror := \<not> rb_write_mirror rb, rb_write_index := 0\<rparr>
     else rb\<lparr>rb_buffer := (rb_buffer rb)[unat (rb_write_index rb) := x], rb_write_index := rb_write_index rb + 1\<rparr>)"
    using sp wl by (simp add: rt_ringbuffer_putchar_def)
  then show ?thesis unfolding st using False A wi by simp
qed

lemma getchar_run:
  assumes wf: "rb_wf rb"
  shows "if rb_content rb = [] then rt_ringbuffer_getchar rb = Some ((0, None), rb)
    else \<exists>rb'. rt_ringbuffer_getchar rb = Some ((1, Some (hd (rb_content rb))), rb') \<and> rb_wf rb' \<and>
      rb_content rb' = tl (rb_content rb) \<and> rb_size rb' = rb_size rb"
proof -
  let ?n = "unat (rb_size rb)" and ?r = "unat (rb_read_index rb)" and ?d = "rb_len rb"
  have b: "0 < ?n" "?n < 2 ^ 31" "length (rb_buffer rb) = ?n" "?r < ?n" using wf by (simp_all add: rb_wf_def)
  have dl: "unat (rt_ringbuffer_data_len rb) = ?d" by (rule data_len_run [OF wf])
  have c: "rb_content rb = [] \<longleftrightarrow> ?d = 0" by simp
  show ?thesis
  proof (cases "?d = 0")
    case True
    then have "rt_ringbuffer_data_len rb = 0" using dl by (simp add: word_unat_eq_iff)
    then show ?thesis using True c by (simp add: rt_ringbuffer_getchar_def)
  next
    case False
    then obtain d where d: "?d = Suc d" by (cases ?d) auto
    have hd: "hd (rb_content rb) = rb_buffer rb ! ?r" by (simp add: rb_content_def d ring_tail [OF b(4)])
    have ne: "rt_ringbuffer_data_len rb \<noteq> 0" using dl False by auto
    note L = index_last [OF b(4,2)]
    define rb' where "rb' = (if idx (rb_read_index rb) = rb_size rb - 1
        then rb\<lparr>rb_read_mirror := \<not> rb_read_mirror rb, rb_read_index := 0\<rparr> else rb\<lparr>rb_read_index := rb_read_index rb + 1\<rparr>)"
    have A: "rb_wf rb'" "rb_content rb' = drop 1 (rb_content rb)"
      using after_read [OF wf, of 1 rb'] L b(4) False by (auto simp: rb'_def)
    have "rt_ringbuffer_getchar rb = Some ((1, Some (hd (rb_content rb))), rb')"
      using ne b hd by (simp add: rt_ringbuffer_getchar_def rb'_def)
    then show ?thesis using False c A by (simp add: rb'_def drop_Suc)
  qed
qed

lemma status_run:
  assumes "rb_wf rb"
  shows "rt_ringbuffer_status rb = RT_RINGBUFFER_FULL \<longleftrightarrow> rb_len rb = unat (rb_size rb)"
  using assms by (auto simp: rt_ringbuffer_status_def rb_wf_def rb_len_def word_unat_eq_iff)

text \<open>
  \<open>rt_ringbuffer_putchar_force\<close> always stores its byte; on a full buffer the oldest byte is given up.
\<close>

theorem rt_ringbuffer_putchar_force_newest:
  assumes wf: "rb_wf rb"
  shows "\<exists>rb'. rt_ringbuffer_putchar_force x rb = Some (1, rb') \<and> rb_wf rb' \<and> rb_size rb' = rb_size rb \<and>
    rb_content rb' = (if rb_len rb = unat (rb_size rb) then tl (rb_content rb) else rb_content rb) @ [x]"
proof -
  let ?n = "unat (rb_size rb)" and ?w = "unat (rb_write_index rb)" and ?r = "unat (rb_read_index rb)"
  have b: "0 < ?n" "?n < 2 ^ 31" "length (rb_buffer rb) = ?n" "?r < ?n" "?w < ?n" using wf by (simp_all add: rb_wf_def)
  note L = index_last [OF b(5,2)]
  show ?thesis
  proof (cases "rb_len rb = ?n")
    case False
    then have sp: "rt_ringbuffer_space_len rb \<noteq> 0" using space_len_run [OF wf] rb_len_le [OF wf] by auto
    have "rt_ringbuffer_putchar_force x rb = rt_ringbuffer_putchar x rb"
      using False sp status_run [OF wf] by (simp add: rt_ringbuffer_putchar_force_def rt_ringbuffer_putchar_def Let_def)
    then show ?thesis using putchar_run [OF wf, of x] False by auto
  next
    case True
    have df: "rb_read_mirror rb \<noteq> rb_write_mirror rb" using rb_wfD(2) [OF wf] True by simp
    define rb' where "rb' = (if ?w + 1 = ?n
      then rb\<lparr>rb_buffer := (rb_buffer rb)[?w := x], rb_write_mirror := \<not> rb_write_mirror rb, rb_write_index := 0,
          rb_read_mirror := \<not> rb_read_mirror rb, rb_read_index := 0\<rparr>
      else rb\<lparr>rb_buffer := (rb_buffer rb)[?w := x], rb_write_index := rb_write_index rb + 1, rb_read_index := rb_write_index rb + 1\<rparr>)"
    have st: "rt_ringbuffer_putchar_force x rb = Some (1, rb')"
      using True status_run [OF wf] b L(1)
      by (simp add: rt_ringbuffer_putchar_force_def rb'_def Let_def rt_ringbuffer.equality)
    have wi: "unat (rb_write_index rb') = (?w + length [x]) mod ?n" using L b by (simp add: rb'_def)
    note A = after_force [OF wf, of "[x]" "rb_write_index rb'" rb']
    have "rb_wf rb'" "rb_content rb' = drop (rb_len rb + length [x] - ?n) (rb_content rb @ [x])"
      by (rule A; use b True wi df ring_put_one [OF b(5,3)] in \<open>simp add: rb'_def\<close>)+
    moreover have "rb_len rb \<noteq> 0" using True b(1) by simp
    ultimately show ?thesis using st True by (simp add: rb'_def drop_Suc)
  qed
qed

definition rb_enqueue :: "u8 \<Rightarrow> rt_ringbuffer \<Rightarrow> rt_ringbuffer option" where
  "rb_enqueue x rb = Option.bind (rt_ringbuffer_putchar x rb) (\<lambda>(r, rb'). if r = 0 then None else Some rb')"

definition rb_dequeue :: "rt_ringbuffer \<Rightarrow> (u8 \<times> rt_ringbuffer) option" where
  "rb_dequeue rb = Option.bind (rt_ringbuffer_getchar rb) (\<lambda>((_, ch), rb'). map_option (\<lambda>x. (x, rb')) ch)"

interpretation rbq: bounded_queue rb_wf rb_content "\<lambda>rb. unat (rb_size rb)" rb_enqueue rb_dequeue
proof
  fix rb :: rt_ringbuffer and x :: u8 and xs :: "u8 list"
  assume wf: "rb_wf rb"
  show "length (rb_content rb) \<le> unat (rb_size rb)" using rb_len_le [OF wf] by simp
  show "length (rb_content rb) = unat (rb_size rb) \<Longrightarrow> rb_enqueue x rb = None"
    using putchar_run [OF wf, of x] by (simp add: rb_enqueue_def)
  show "length (rb_content rb) < unat (rb_size rb) \<Longrightarrow>
      \<exists>rb'. rb_enqueue x rb = Some rb' \<and> rb_wf rb' \<and> rb_content rb' = rb_content rb @ [x] \<and> unat (rb_size rb') = unat (rb_size rb)"
    using putchar_run [OF wf, of x] by (auto simp: rb_enqueue_def)
  show "rb_content rb = [] \<Longrightarrow> rb_dequeue rb = None" using getchar_run [OF wf] by (simp add: rb_dequeue_def)
  show "rb_content rb = x # xs \<Longrightarrow>
      \<exists>rb'. rb_dequeue rb = Some (x, rb') \<and> rb_wf rb' \<and> rb_content rb' = xs \<and> unat (rb_size rb') = unat (rb_size rb)"
    using getchar_run [OF wf] length_rb_content [of rb] by (auto simp: rb_dequeue_def split: if_splits)
qed

theorem ringbuffer_bytes_fifo:
  \<comment> \<open>bytes put one by one into an empty buffer come out in order\<close>
  assumes "rb_wf rb" and "rb_content rb = []" and "length xs \<le> unat (rb_size rb)"
  shows "\<exists>rb1 rb2. rbq.put_all xs rb = Some rb1 \<and> rbq.get_many (length xs) rb1 = Some (xs, rb2) \<and> rb_wf rb2 \<and> rb_content rb2 = []"
  using rbq.fifo [OF assms] .

lemma rt_ringbuffer_init_wf:
  assumes "rt_ringbuffer_init pool sz = Some rb" and "8 \<le> unat sz" and "unat sz < 2 ^ 31" and "length pool = unat (RT_ALIGN_DOWN sz RT_ALIGN_SIZE)"
  shows "rb_wf rb \<and> rb_content rb = []"
proof -
  define z where "z = RT_ALIGN_DOWN sz RT_ALIGN_SIZE"
  have "z \<le> sz" unfolding z_def RT_ALIGN_DOWN_def by (rule word_and_le2)
  then have z1: "unat z < 2 ^ 31" using assms(3) by (simp add: word_le_nat_alt)
  have z0: "0 < unat z"
  proof -
    have "z = sz AND NOT 7" by (simp add: z_def RT_ALIGN_DOWN_def RT_ALIGN_SIZE_def)
    moreover have "(sz AND 7) + (sz AND NOT 7) = sz"
    proof -
      have "(sz AND 7) + (sz AND NOT 7) = (sz AND 7) OR (sz AND NOT 7)"
        by (rule disjunctive_add) (auto simp: bit_simps)
      also have "\<dots> = sz" by (simp flip: bit.conj_disj_distrib)
      finally show ?thesis .
    qed
    moreover have "unat (sz AND 7) \<le> 7" using word_and_le1 [of sz 7] by (simp add: word_le_nat_alt)
    ultimately have "unat sz \<le> 7 \<or> unat z \<noteq> 0" by (metis add.right_neutral unat_eq_zero)
    then show ?thesis using assms(2) by auto
  qed
  have "rb = \<lparr>rb_buffer = pool, rb_read_mirror = False, rb_read_index = 0, rb_write_mirror = False, rb_write_index = 0, rb_size = z\<rparr>"
    using assms(1) by (simp add: rt_ringbuffer_init_def z_def)
  then show ?thesis using assms(4) z0 z1 by (simp add: rb_wf_def rb_len_def z_def)
qed

theorem rt_ringbuffer_peek_takes:
  \<comment> \<open>the position given out and the length name a contiguous part of the buffer with the oldest bytes\<close>
  assumes wf: "rb_wf rb"
  defines "k \<equiv> min (rb_len rb) (unat (rb_size rb) - unat (rb_read_index rb))"
  shows "\<exists>rb' r. rt_ringbuffer_peek rb = ((r, if rb_len rb = 0 then None else Some (unat (rb_read_index rb))), rb') \<and>
    unat r = k \<and> rb_wf rb' \<and> rb_content rb' = drop k (rb_content rb) \<and>
    take k (rb_content rb) = take k (drop (unat (rb_read_index rb)) (rb_buffer rb))"
proof -
  let ?n = "unat (rb_size rb)" and ?r = "unat (rb_read_index rb)" and ?d = "rb_len rb"
  have b: "0 < ?n" "?n < 2 ^ 31" "length (rb_buffer rb) = ?n" "?r < ?n" using wf by (simp_all add: rb_wf_def)
  have dl: "unat (rt_ringbuffer_data_len rb) = ?d" by (rule data_len_run [OF wf])
  have kd: "k \<le> ?d" "k \<le> ?n - ?r" "k \<le> ?n" by (simp_all add: k_def)
  have pre: "take k (rb_content rb) = take k (drop ?r (rb_buffer rb))"
  proof -
    have "take k (rb_content rb) = ring ?n (rb_buffer rb) ?r k" unfolding rb_content_def by (rule ring_take [OF kd(1)])
    also have "\<dots> = take k (drop ?r (rb_buffer rb))" using ring_flat [OF b(4,3) kd(3)] kd(2) b by simp
    finally show ?thesis .
  qed
  show ?thesis
  proof (cases "?d = 0")
    case True
    then have "rt_ringbuffer_data_len rb = 0" using dl by (simp add: word_unat_eq_iff)
    then show ?thesis using True wf by (simp add: rt_ringbuffer_peek_def k_def)
  next
    case False
    then have ne: "rt_ringbuffer_data_len rb \<noteq> 0" using dl by auto
    note R = room_run [OF b(4)]
    show ?thesis
    proof (cases "?r + ?d < ?n")
      case True
      let ?rb = "rb\<lparr>rb_read_index := rb_read_index rb + ucast (rt_ringbuffer_data_len rb)\<rparr>"
      have k: "k = ?d" using True by (simp add: k_def)
      have "unat (rb_read_index ?rb) = ?r + ?d" using index_add [of "rb_read_index rb" "rt_ringbuffer_data_len rb"] True b dl by simp
      from after_read [OF wf kd(1), of ?rb] this True k have "rb_wf ?rb" "rb_content ?rb = drop k (rb_content rb)" by simp_all
      moreover have "rt_ringbuffer_peek rb = ((rt_ringbuffer_data_len rb, Some ?r), ?rb)"
        using ne True R(1) dl by (simp add: rt_ringbuffer_peek_def Let_def)
      ultimately show ?thesis using False pre dl k by (intro exI [of _ ?rb] exI [of _ "rt_ringbuffer_data_len rb"]) simp
    next
      case wrap: False
      let ?rb = "rb\<lparr>rb_read_mirror := \<not> rb_read_mirror rb, rb_read_index := 0\<rparr>"
      have k: "k = ?n - ?r" using wrap by (simp add: k_def)
      from after_read [OF wf kd(1), of ?rb] k b have "rb_wf ?rb" "rb_content ?rb = drop k (rb_content rb)" by simp_all
      moreover have "rt_ringbuffer_peek rb = ((rb_size rb - idx (rb_read_index rb), Some ?r), ?rb)"
        using ne wrap R(1) dl by (simp add: rt_ringbuffer_peek_def Let_def)
      ultimately show ?thesis using False pre R(2) k by (intro exI [of _ ?rb] exI [of _ "rb_size rb - idx (rb_read_index rb)"]) simp
    qed
  qed
qed

definition demo_rb :: rt_ringbuffer where
  \<comment> \<open>eight cells; the bytes 1, 2, 3 lie around the end\<close>
  "demo_rb = \<lparr>rb_buffer = [3, 0, 0, 0, 0, 0, 1, 2], rb_read_mirror = False, rb_read_index = 6,
     rb_write_mirror = True, rb_write_index = 1, rb_size = 8\<rparr>"

lemma demo_rb_wf: "rb_wf demo_rb" "rb_content demo_rb = [1, 2, 3]" "rb_len demo_rb = 3" "rb_size demo_rb = 8"
  by (simp_all add: demo_rb_def rb_wf_def rb_content_def rb_len_def ring_def upt_rec)

theorem rt_ringbuffer_put_appends_witness:
  "\<exists>r rb'. rt_ringbuffer_put [4, 5, 6, 7, 8, 9] 6 demo_rb = Some (r, rb') \<and> unat r = 5 \<and> rb_content rb' = [1, 2, 3, 4, 5, 6, 7, 8]"
  using rt_ringbuffer_put_appends [OF demo_rb_wf(1), of 6 "[4, 5, 6, 7, 8, 9]"] demo_rb_wf by auto

theorem rt_ringbuffer_put_force_newest_witness:
  "\<exists>r rb'. rt_ringbuffer_put_force [4, 5, 6, 7, 8, 9] 6 demo_rb = Some (r, rb') \<and> rb_content rb' = [2, 3, 4, 5, 6, 7, 8, 9]"
  using rt_ringbuffer_put_force_newest [OF demo_rb_wf(1), of 6 "[4, 5, 6, 7, 8, 9]"] demo_rb_wf by auto

theorem rt_ringbuffer_get_takes_witness:
  "\<exists>r rb'. rt_ringbuffer_get [0, 0, 0, 0] 2 demo_rb = Some ((r, [1, 2, 0, 0]), rb') \<and> rb_content rb' = [3]"
  using rt_ringbuffer_get_takes [OF demo_rb_wf(1), of 2 "[0, 0, 0, 0]"] demo_rb_wf by auto

lemma ringbuffer_small_overrun:
  \<comment> \<open>a size below eight is rounded to zero, and \<open>rt_ringbuffer_putchar_force\<close> then runs off the buffer\<close>
  "Option.bind (rt_ringbuffer_init [0] 1) (\<lambda>rb. Option.bind (rt_ringbuffer_putchar_force 7 rb)
     (\<lambda>(_, rb). rt_ringbuffer_putchar_force 7 rb)) = None"
  by (simp add: rt_ringbuffer_init_def rt_ringbuffer_putchar_force_def rt_ringbuffer_status_def RT_ALIGN_DOWN_def RT_ALIGN_SIZE_def
      rt_assert_def Let_def)


subsection \<open>The copies of bytes are calls of rt_memcpy\<close>

abbreviation holds_bytes :: "nat \<Rightarrow> u8 list \<Rightarrow> memory \<Rightarrow> bool" where
  "holds_bytes a bs m \<equiv> \<forall>i<length bs. m (a + i) = Some (bs ! i)"

text \<open>
  \<open>copy_range\<close> stands for a call of \<open>rt_memcpy\<close>: when the memory holds the two lists in areas apart, the call copies in
  the memory what \<open>copy_range\<close> copies in the lists.
\<close>
lemma copy_range_is_memcpy:
  assumes c: "copy_range dst off src k n = Some dst'" and n: "n < 2 ^ 32"
    and h: "holds_bytes a dst m" "holds_bytes b src m" and ap: "b + length src \<le> a \<or> a + length dst \<le> b"
  shows "\<exists>m'. rt_memcpy (a + off) (b + k) (word_of_nat n) m = Some m' \<and> holds_bytes a dst' m' \<and> holds_bytes b src m'"
proof -
  let ?n = "word_of_nat n :: u32"
  have u: "unat ?n = n" using n by (simp add: unsigned_of_nat take_bit_nat_eq_self_iff)
  have l: "off + n \<le> length dst" "k + n \<le> length src" and d: "dst' = take off dst @ take n (drop k src) @ drop (off + n) dst"
    using c by (auto simp: copy_range_def split: if_splits)
  have "areas (a + off) (b + k) n m" using h l by (simp add: add.assoc)
  moreover have "upward_ok (a + off) (b + k) n" using ap l by auto
  ultimately have "rt_memcpy (a + off) (b + k) ?n m = Some (copy_ref (a + off) (b + k) n m)"
    using rt_memcpy_run [where count = ?n] u by simp
  moreover have "holds_bytes a dst' (copy_ref (a + off) (b + k) n m)"
  proof (intro allI impI)
    fix i
    assume i: "i < length dst'"
    then have il: "i < length dst" using d l by simp
    consider "i < off" | j where "i = off + j" "j < n" | j where "i = off + (n + j)"
      by (metis add.assoc le_Suc_ex nat_add_left_cancel_less not_le)
    then show "copy_ref (a + off) (b + k) n m (a + i) = Some (dst' ! i)"
    proof cases
      case 1
      then show ?thesis using h(1) l il d by (simp add: copy_ref_def nth_append)
    next
      case 2
      then show ?thesis using h(2) l d by (simp add: copy_ref_def nth_append add.assoc)
    next
      case 3
      then show ?thesis using h(1) l il d by (simp add: copy_ref_def nth_append add.assoc)
    qed
  qed
  moreover have "holds_bytes b src (copy_ref (a + off) (b + k) n m)"
    using h(2) ap l by (auto simp: copy_ref_def)
  ultimately show ?thesis by blast
qed

end
