(* ===== verification/Completion.thy ===== *)
theory Completion
  imports MemPool
begin

text \<open>
  Completions (components/drivers/ipc/completion_up.c, completion_comm.c): one thread waits until another thread or an interrupt
  says that something is done. The word \<open>susp_thread_n_flag\<close>, a thread pointer whose lowest bit is the flag, is a record of
  the two; the kernel state is passed beside it. \<open>rt_completion_wait_flags\<close> ends with its call of \<open>rt_schedule\<close> when the caller
  waits (result \<open>None\<close>), and \<open>completion_wait_resume\<close> is the part that runs afterwards.
\<close>

record rt_completion =
  co_thread :: "nat option"
  co_done :: bool

abbreviation comp_stat :: "nat option \<Rightarrow> bool \<Rightarrow> rt_completion" where
  \<comment> \<open>\<open>RT_COMPLETION_NEW_STAT\<close>\<close>
  "comp_stat t d \<equiv> \<lparr>co_thread = t, co_done = d\<rparr>"

definition rt_completion_init :: rt_completion where
  "rt_completion_init = comp_stat None False"

definition completion_try :: "int \<Rightarrow> suspend_flag \<Rightarrow> int \<Rightarrow> rt_completion \<Rightarrow> kst \<Rightarrow> ((int option \<times> rt_completion) \<times> kst) option" where
  \<comment> \<open>from \<open>__try_again\<close> to the switch or the end, entered with the lock held; \<open>result\<close> as it is there\<close>
  "completion_try timeout suspend_flag result c s =
     (if \<not> co_done c then do {
        rt_assert (co_thread c = None);
        if timeout = 0 then do {
          s \<leftarrow> rt_spin_unlock s;
          Some ((Some (- RT_ETIMEOUT), c), s)
        } else do {
          t \<leftarrow> rt_thread_self s;
          let s = upd_tcb t (\<lambda>b. b\<lparr>t_error := RT_EOK\<rparr>) s;
          (result, s) \<leftarrow> rt_thread_suspend_with_flag t suspend_flag s;
          if result = RT_EOK then do {
            let c = comp_stat (Some t) False;
            rt_assert (debug_not_in_interrupt s);
            s \<leftarrow> (if timeout > 0 then start_wait_timer t (word_of_int timeout) s else Some s);
            s \<leftarrow> rt_spin_unlock s;
            s \<leftarrow> rt_schedule s;
            Some ((None, c), s)
          } else do {
            s \<leftarrow> rt_spin_unlock s;
            Some ((Some result, comp_stat None False), s)
          }
        }
      } else do {
        s \<leftarrow> rt_spin_unlock s;
        Some ((Some result, comp_stat None False), s)
      })"

definition rt_completion_wait_flags :: "int \<Rightarrow> suspend_flag \<Rightarrow> rt_completion \<Rightarrow> kst \<Rightarrow> ((int option \<times> rt_completion) \<times> kst) option" where
  "rt_completion_wait_flags timeout suspend_flag c s = do {
     rt_assert (debug_scheduler_available (timeout \<noteq> 0) s);
     completion_try timeout suspend_flag RT_EOK c (rt_spin_lock s)
   }"

definition completion_wait_resume :: "nat \<Rightarrow> suspend_flag \<Rightarrow> rt_completion \<Rightarrow> kst \<Rightarrow> ((int option \<times> rt_completion) \<times> kst) option" where
  \<comment> \<open>the waiting thread \<open>t\<close> runs again\<close>
  "completion_wait_resume t suspend_flag c s = do {
     let s = rt_spin_lock s;
     if c \<noteq> comp_stat (Some t) False then completion_try 0 suspend_flag RT_EOK c s
     else do {
       let result = t_error (tcbs s t);
       let result = (if result > 0 then - result else result);
       rt_assert (result \<noteq> RT_EOK);
       s \<leftarrow> rt_spin_unlock s;
       Some ((Some result, comp_stat None False), s)
     }
   }"

definition rt_completion_wait_flags_noisr :: "int \<Rightarrow> suspend_flag \<Rightarrow> rt_completion \<Rightarrow> kst \<Rightarrow> ((int option \<times> rt_completion) \<times> kst) option" where
  "rt_completion_wait_flags_noisr = rt_completion_wait_flags"

definition rt_completion_wait :: "int \<Rightarrow> rt_completion \<Rightarrow> kst \<Rightarrow> ((int option \<times> rt_completion) \<times> kst) option" where
  "rt_completion_wait timeout c s = rt_completion_wait_flags timeout RT_UNINTERRUPTIBLE c s"

definition rt_completion_wait_noisr :: "int \<Rightarrow> rt_completion \<Rightarrow> kst \<Rightarrow> ((int option \<times> rt_completion) \<times> kst) option" where
  "rt_completion_wait_noisr timeout c s = rt_completion_wait_flags_noisr timeout RT_UNINTERRUPTIBLE c s"

definition rt_completion_wakeup_by_errno :: "int \<Rightarrow> rt_completion \<Rightarrow> kst \<Rightarrow> ((int \<times> rt_completion) \<times> kst) option" where
  "rt_completion_wakeup_by_errno thread_errno c s = do {
     let s = rt_spin_lock s;
     if co_done c then do {
       s \<leftarrow> rt_spin_unlock s;
       Some ((- RT_EBUSY, c), s)
     } else do {
       (error, s) \<leftarrow> (case co_thread c of
           None \<Rightarrow> Some (- RT_EEMPTY, s)
         | Some t \<Rightarrow> do {
             let s = (if thread_errno \<ge> 0 then upd_tcb t (\<lambda>b. b\<lparr>t_error := thread_errno\<rparr>) s else s);
             (error, s) \<leftarrow> rt_thread_resume t s;
             Some (if error \<noteq> RT_EOK then - RT_EEMPTY else error, s)
           });
       s \<leftarrow> rt_spin_unlock s;
       Some ((error, comp_stat None True), s)
     }
   }"

definition rt_completion_wakeup :: "rt_completion \<Rightarrow> kst \<Rightarrow> ((int \<times> rt_completion) \<times> kst) option" where
  "rt_completion_wakeup c s = rt_completion_wakeup_by_errno (- 1) c s"

definition rt_completion_done :: "rt_completion \<Rightarrow> kst \<Rightarrow> (rt_completion \<times> kst) option" where
  "rt_completion_done c s = do { ((_, c), s) \<leftarrow> rt_completion_wakeup_by_errno (- 1) c s; Some (c, s) }"

subsection \<open>Waiting on no queue\<close>

definition parks :: "nat \<Rightarrow> int \<Rightarrow> int \<Rightarrow> kst \<Rightarrow> kst \<Rightarrow> bool" where
  \<comment> \<open>from \<open>s\<close> to \<open>s'\<close>, thread \<open>t\<close> was suspended on no queue, nothing else happened, and another thread runs if one was ready\<close>
  "parks t timeout e s s' \<longleftrightarrow>
     kinv s' \<and> susp_stat (tcbs s' t) \<and> t_error (tcbs s' t) = e \<and>
     (\<forall>q. tlists s' (Susp q) = tlists s (Susp q)) \<and>
     (if timeout > 0
      then t_ttmr_set (tcbs s' t) \<and> tm_has RT_TIMER_FLAG_ACTIVATED (ThreadTimer t) s' \<and>
           tm_timeout_tick (timers s' (ThreadTimer t)) = tick s + word_of_int timeout
      else \<not> t_ttmr_set (tcbs s' t)) \<and>
     ((\<exists>u. stat_of (tcbs s u) = RT_THREAD_READY) \<longrightarrow> current s' \<noteq> Some t) \<and>
     lock_nest s' = lock_nest s \<and> irq_nest s' = irq_nest s \<and> tick s' = tick s \<and> sems s' = sems s \<and>
     (\<forall>r. not_timer r \<longrightarrow> objs s' r = objs s r) \<and>
     (\<forall>u. u \<noteq> t \<longrightarrow> susp_stat (tcbs s' u) = susp_stat (tcbs s u) \<and> t_error (tcbs s' u) = t_error (tcbs s u))"

definition parked :: "nat \<Rightarrow> suspend_flag \<Rightarrow> int \<Rightarrow> kst \<Rightarrow> kst" where
  "parked t sf timeout s =
     (let s = thread_block t None sf s in if timeout > 0 then arm_timer t (word_of_int timeout) s else s)"

lemma parked_fields [simp]:
  "current (parked t sf w s) = current s" "lock_nest (parked t sf w s) = lock_nest s"
  "crit_flag (parked t sf w s) = crit_flag s" "irq_nest (parked t sf w s) = irq_nest s"
  "tick (parked t sf w s) = tick s" "sems (parked t sf w s) = sems s"
  "rt_object_get_type r (parked t sf w s) = rt_object_get_type r s"
  "tcbs (parked t sf w s) = (tcbs s)(t := (new_stat (suspend_stat sf) (tcbs s t))\<lparr>t_ttmr_set := w > 0\<rparr>)"
  "not_timer r \<Longrightarrow> objs (parked t sf w s) r = objs s r"
  by (auto simp: parked_def Let_def)

lemma parked_queue: "tlists (parked t sf w s) (Susp q) = removeAll t (tlists s (Susp q))"
  by (auto simp: parked_def Let_def thread_block_def thread_set_suspend_state_def)

lemma park_and_switch:
  assumes w: "can_wait t timeout s"
  defines "s1 \<equiv> rt_spin_lock s"
  shows "rt_thread_suspend_with_flag t sf s1 = Some (RT_EOK, thread_block t None sf s1)"
    and "(if timeout > 0 then start_wait_timer t (word_of_int timeout) (thread_block t None sf s1)
          else Some (thread_block t None sf s1)) = Some (parked t sf timeout s1)"
    and "\<exists>s4 s'. rt_spin_unlock (parked t sf timeout s1) = Some s4 \<and>
      rt_schedule s4 = Some s' \<and> parks t timeout (t_error (tcbs s t)) s s'"
proof -
  note W = w [unfolded can_wait_def]
  have k: "kinv s" and c: "current s = Some t" and r: "stat_of (tcbs s t) = RT_THREAD_RUNNING" and l: "lock_nest s = 0"
    using W by simp_all
  have k1: "kinv s1" using k by (simp add: s1_def)
  have 1: "current s1 = Some t" "stat_of (tcbs s1 t) = RT_THREAD_RUNNING" using c r by (simp_all add: s1_def)
  show "rt_thread_suspend_with_flag t sf s1 = Some (RT_EOK, thread_block t None sf s1)"
    using suspend_run [OF k1 1, of None 0] by (simp add: rt_thread_suspend_with_flag_def)
  have k2: "kinv (thread_block t None sf s1)" by (rule kinv_block [OF k1 1])
  have l2: "live (tcbs (thread_block t None sf s1) t)" by (rule live_susp) simp
  show "(if timeout > 0 then start_wait_timer t (word_of_int timeout) (thread_block t None sf s1)
          else Some (thread_block t None sf s1)) = Some (parked t sf timeout s1)"
    using start_wait_timer_run [OF _ kinv_live [OF k2 l2], of "word_of_int timeout"] k2 W
    by (simp add: parked_def kinv_def)
  let ?s3 = "parked t sf timeout s1" and ?s4 = "(parked t sf timeout s1)\<lparr>lock_nest := 0\<rparr>"
  have cf: "\<not> crit_flag s" using k l by (simp add: kinv_def crit_ok_def)
  have k3: "kinv ?s3" using k2 kinv_arm [OF k2 l2] by (simp add: parked_def Let_def)
  have k4: "kinv ?s4" by (rule kinv_unlock_nest [OF k3]) (use cf in \<open>simp_all add: s1_def\<close>)
  have u: "rt_spin_unlock ?s3 = Some ?s4" using spin_unlock_lock [of ?s3 0] l cf by (simp add: s1_def)
  obtain s' where s': "rt_schedule ?s4 = Some s'" "kinv s'" "same_ipc ?s4 s'"
    using rt_schedule_total [OF k4] c by (auto simp: s1_def)
  have i4: "sched_inv ?s4" "crit_ok ?s4" using k4 by (auto simp: kinv_def)
  have cur: "current s' \<noteq> Some t" if u: "stat_of (tcbs s u) = RT_THREAD_READY" for u
  proof -
    have "u \<noteq> t" using u r by auto
    then have "stat_of (tcbs ?s4 u) = RT_THREAD_READY" using u by (simp add: s1_def)
    then have "ready_group ?s4 \<noteq> 0" using no_ready_iff [of ?s4] i4(1) unfolding sched_inv_def by blast
    then obtain x where "current s' = Some x" "stat_of (tcbs s' x) = RT_THREAD_RUNNING"
      using rt_schedule_highest [OF i4(1), of t] c s'(1) by (auto simp: s1_def)
    moreover have "susp_stat (tcbs s' t)" using s'(3) by (simp add: same_ipc_def)
    ultimately show ?thesis using susp_stat_disj(2) [of "tcbs s' t"] by auto
  qed
  have nq: "t \<notin> set (tlists s (Susp q))" for q using not_queued [of s t] k r by (simp add: kinv_def)
  have tm: "if timeout > 0
      then tm_has RT_TIMER_FLAG_ACTIVATED (ThreadTimer t) ?s3 \<and> tm_timeout_tick (timers ?s3 (ThreadTimer t)) = tick s + word_of_int timeout
      else True"
    by (simp add: parked_def arm_timer_flags arm_timer_deadline s1_def)
  have ql: "tlists s' (Susp q) = tlists s (Susp q)" for q
    using s'(3) nq [of q] by (simp add: same_ipc_def parked_queue s1_def)
  have "parks t timeout (t_error (tcbs s t)) s s'"
    unfolding parks_def
    using s'(2,3) tm ql cur rt_schedule_crit(2) [OF i4 s'(1)] l
    by (auto simp: same_ipc_def s1_def tm_has_def tm_flag_def)
  with u s'(1) show "\<exists>s4 s'. rt_spin_unlock (parked t sf timeout s1) = Some s4 \<and>
      rt_schedule s4 = Some s' \<and> parks t timeout (t_error (tcbs s t)) s s'" by blast
qed


subsection \<open>Waiting and signalling\<close>

lemma wait_flags_done:
  assumes "kinv s" and "co_done c" and "debug_scheduler_available (timeout \<noteq> 0) s"
  shows "rt_completion_wait_flags timeout sf c s = Some ((Some RT_EOK, comp_stat None False), s)"
  using assms by (simp add: rt_completion_wait_flags_def completion_try_def)

lemma wait_flags_parks:
  assumes w: "can_wait t timeout s" and c: "c = comp_stat None False" and nz: "timeout \<noteq> 0"
  shows "\<exists>s'. rt_completion_wait_flags timeout sf c s = Some ((None, comp_stat (Some t) False), s') \<and>
    parks t timeout RT_EOK s s'"
proof -
  let ?s0 = "upd_tcb t (\<lambda>b. b\<lparr>t_error := RT_EOK\<rparr>) s"
  have w0: "can_wait t timeout ?s0" using w by simp
  note B = park_and_switch [OF w0, of sf] and C = can_waitD [OF w]
  obtain s4 s' where s': "rt_spin_unlock (parked t sf timeout (rt_spin_lock ?s0)) = Some s4" "rt_schedule s4 = Some s'"
    "parks t timeout RT_EOK ?s0 s'" using B(3) by auto
  have "irq_nest (thread_block t None sf (rt_spin_lock ?s0)) = 0" using C(5) by simp
  then have "rt_completion_wait_flags timeout sf c s = Some ((None, comp_stat (Some t) False), s')"
    using c nz C B(1,2) s'(1,2)
    by (simp add: rt_completion_wait_flags_def completion_try_def rt_thread_self_def lock_upd_tcb debug_defs)
  moreover have "parks t timeout RT_EOK s s'"
  proof -
    have "stat_of (((tcbs s)(t := (tcbs s t)\<lparr>t_error := RT_EOK\<rparr>)) u) = stat_of (tcbs s u)" for u by simp
    then show ?thesis using s'(3) unfolding parks_def by auto
  qed
  ultimately show ?thesis by blast
qed

lemma kinv_flag: "kinv s \<Longrightarrow> 0 < lock_nest s \<Longrightarrow> kinv (s\<lparr>crit_flag := True\<rparr>)"
  by (auto simp: kinv_def timers_ok_def timer_list_of_def threads_ok_def thread_ok_def
      sched_inv_def crit_ok_def rt_object_get_type_def)

lemma unlock_any:
  assumes k: "kinv s" and n: "1 \<le> lock_nest s" and c: "current s \<noteq> None"
  shows "\<exists>s'. rt_spin_unlock s = Some s' \<and> kinv s' \<and> same_ipc s s' \<and> lock_nest s' = lock_nest s - 1"
proof (cases "lock_nest s = 1 \<and> crit_flag s")
  case True
  let ?s0 = "s\<lparr>lock_nest := 0, crit_flag := False\<rparr>"
  have k0: "kinv ?s0"
    using k by (auto simp: kinv_def timers_ok_def timer_list_of_def threads_ok_def thread_ok_def
        sched_inv_def crit_ok_def rt_object_get_type_def)
  obtain s' where s': "rt_schedule ?s0 = Some s'" "kinv s'" "same_ipc ?s0 s'" using rt_schedule_total [OF k0] c by auto
  have "sched_inv ?s0" "crit_ok ?s0" using k0 by (auto simp: kinv_def)
  from rt_schedule_crit(2) [OF this s'(1)] have "lock_nest s' = 0" by simp
  moreover have "rt_spin_unlock s = rt_schedule ?s0" using True by (simp add: rt_spin_unlock_def rt_exit_critical_def)
  ultimately show ?thesis using s' True by (auto simp: same_ipc_def)
next
  case False
  then have f: "lock_nest s - 1 = 0 \<longrightarrow> \<not> crit_flag s" by auto
  then have "rt_spin_unlock s = Some (s\<lparr>lock_nest := lock_nest s - 1\<rparr>)" using n by (intro spin_unlock_lock) simp_all
  moreover have "kinv (s\<lparr>lock_nest := lock_nest s - 1\<rparr>)" using k f n by (intro kinv_unlock_nest) simp_all
  ultimately show ?thesis by (simp add: same_ipc_def)
qed

definition resumed :: "nat \<Rightarrow> kst \<Rightarrow> kst" where
  \<comment> \<open>thread \<open>t\<close> after \<open>rt_thread_resume\<close> inside a spin lock: ready, the switch pending\<close>
  "resumed t s = (thread_wake t s)\<lparr>crit_flag := True\<rparr>"

lemma resumed_fields [simp]:
  "tcbs (resumed t s) u = (if u = t then new_stat (if current s = Some t then RT_THREAD_RUNNING else RT_THREAD_READY) ((tcbs s t)\<lparr>t_ttmr_set := False\<rparr>)
     else tcbs s u)"
  "current (resumed t s) = current s" "lock_nest (resumed t s) = lock_nest s" "irq_nest (resumed t s) = irq_nest s"
  "sems (resumed t s) = sems s" "tick (resumed t s) = tick s"
  "tlists (resumed t s) (Susp q) = removeAll t (tlists s (Susp q))"
  "rt_object_get_type r (resumed t s) = rt_object_get_type r s"
  "not_timer r \<Longrightarrow> objs (resumed t s) r = objs s r"
  by (simp_all add: resumed_def)

lemma resume_locked:
  assumes k: "kinv s" and n: "1 \<le> lock_nest s" and c: "current s \<noteq> None"
    and ty: "rt_object_get_type (OThread t) s = RT_Object_Class_Thread"
  shows "rt_thread_resume t s = (if susp_stat (tcbs s t) then Some (RT_EOK, resumed t s) else Some (- RT_EINVAL, s))"
    and "susp_stat (tcbs s t) \<Longrightarrow> kinv (resumed t s)"
proof -
  show "rt_thread_resume t s = (if susp_stat (tcbs s t) then Some (RT_EOK, resumed t s) else Some (- RT_EINVAL, s))"
  proof (cases "susp_stat (tcbs s t)")
    case True
    then show ?thesis
      using rt_sched_thread_ready_run [OF k True] ty c n
      by (simp add: rt_thread_resume_def rt_sched_unlock_n_resched_def rt_thread_self_def rt_schedule_locked resumed_def)
  next
    case False
    then show ?thesis using ty
      by (simp add: rt_thread_resume_def rt_sched_thread_ready_def rt_sched_thread_is_suspended_def err_defs)
  qed
  show "kinv (resumed t s)" if "susp_stat (tcbs s t)"
    unfolding resumed_def using kinv_wake [OF k that] n by (intro kinv_flag) simp_all
qed

lemma resume_in_lock:
  assumes k: "kinv s" and su: "susp_stat (tcbs s t)" and ty: "rt_object_get_type (OThread t) s = RT_Object_Class_Thread"
    and c: "current s \<noteq> None"
  shows "\<exists>s1 s2. rt_thread_resume t (rt_spin_lock s) = Some (RT_EOK, s1) \<and> rt_spin_unlock s1 = Some s2 \<and> kinv s2 \<and>
    \<not> susp_stat (tcbs s2 t) \<and> t_error (tcbs s2 t) = t_error (tcbs s t) \<and>
    (\<forall>q. tlists s2 (Susp q) = removeAll t (tlists s (Susp q))) \<and>
    (\<forall>u. u \<noteq> t \<longrightarrow> susp_stat (tcbs s2 u) = susp_stat (tcbs s u) \<and> t_error (tcbs s2 u) = t_error (tcbs s u))"
proof -
  let ?s = "rt_spin_lock s"
  have h: "kinv ?s" "1 \<le> lock_nest ?s" "current ?s \<noteq> None" "rt_object_get_type (OThread t) ?s = RT_Object_Class_Thread"
    "susp_stat (tcbs ?s t)"
    using k c ty su kinvD(2) [OF k] by (simp_all add: crit_ok_def)
  note R = resume_locked [OF h(1-4)]
  have "kinv (resumed t ?s)" "1 \<le> lock_nest (resumed t ?s)" "current (resumed t ?s) \<noteq> None"
    using R(2) [OF h(5)] h(2,3) by simp_all
  from unlock_any [OF this] obtain s2 where "rt_spin_unlock (resumed t ?s) = Some s2" "kinv s2" "same_ipc (resumed t ?s) s2" by blast
  then show ?thesis using R(1) su by (intro exI [of _ "resumed t ?s"] exI [of _ s2]) (auto simp: same_ipc_def)
qed

lemma completion_wakeup_run:
  assumes k: "kinv s" and c: "current s \<noteq> None"
    and ty: "\<And>t. co_thread c = Some t \<Longrightarrow> rt_object_get_type (OThread t) s = RT_Object_Class_Thread"
  shows "if co_done c then rt_completion_wakeup_by_errno e c s = Some ((- RT_EBUSY, c), s)
    else \<exists>r s'. rt_completion_wakeup_by_errno e c s = Some ((r, comp_stat None True), s') \<and> kinv s' \<and>
      (if \<exists>t. co_thread c = Some t \<and> susp_stat (tcbs s t)
       then r = RT_EOK \<and> \<not> susp_stat (tcbs s' (the (co_thread c))) \<and>
         (e \<ge> 0 \<longrightarrow> t_error (tcbs s' (the (co_thread c))) = e)
       else r = - RT_EEMPTY) \<and>
      (\<forall>u. co_thread c \<noteq> Some u \<longrightarrow> susp_stat (tcbs s' u) = susp_stat (tcbs s u) \<and> t_error (tcbs s' u) = t_error (tcbs s u))"
proof (cases "co_done c")
  case True
  then show ?thesis using k by (simp add: rt_completion_wakeup_by_errno_def)
next
  case nd: False
  show ?thesis
  proof (cases "co_thread c")
    case None
    then show ?thesis using nd k by (simp add: rt_completion_wakeup_by_errno_def)
  next
    case (Some t)
    let ?s0 = "if e \<ge> 0 then upd_tcb t (\<lambda>b. b\<lparr>t_error := e\<rparr>) s else s"
    have k0: "kinv ?s0" and ty0: "rt_object_get_type (OThread t) ?s0 = RT_Object_Class_Thread" and c0: "current ?s0 \<noteq> None"
      using k ty [OF Some] c by simp_all
    have l: "(if e \<ge> 0 then upd_tcb t (\<lambda>b. b\<lparr>t_error := e\<rparr>) (rt_spin_lock s) else rt_spin_lock s) = rt_spin_lock ?s0"
      by (simp add: lock_upd_tcb)
    show ?thesis
    proof (cases "susp_stat (tcbs s t)")
      case True
      then have "susp_stat (tcbs ?s0 t)" by simp
      from resume_in_lock [OF k0 this ty0 c0] obtain s1 s2 where
        run: "rt_thread_resume t (rt_spin_lock ?s0) = Some (RT_EOK, s1)" "rt_spin_unlock s1 = Some s2" and
        k2: "kinv s2" "\<not> susp_stat (tcbs s2 t)" "t_error (tcbs s2 t) = t_error (tcbs ?s0 t)"
        "\<And>u. u \<noteq> t \<Longrightarrow> susp_stat (tcbs s2 u) = susp_stat (tcbs ?s0 u) \<and> t_error (tcbs s2 u) = t_error (tcbs ?s0 u)"
        by blast
      have "rt_completion_wakeup_by_errno e c s = Some ((RT_EOK, comp_stat None True), s2)"
        unfolding rt_completion_wakeup_by_errno_def Let_def using nd Some run by (simp add: l del: if_split)
      then show ?thesis using nd Some True k2 by (auto split: if_splits)
    next
      case False
      then have "rt_thread_resume t (rt_spin_lock ?s0) = Some (- RT_EINVAL, rt_spin_lock ?s0)"
        using rt_thread_resume_wakes [of "rt_spin_lock ?s0" t] k0 ty0 by simp
      moreover have "rt_spin_unlock (rt_spin_lock ?s0) = Some ?s0" using k0 by (rule unlock_locked)
      ultimately have "rt_completion_wakeup_by_errno e c s = Some ((- RT_EEMPTY, comp_stat None True), ?s0)"
        unfolding rt_completion_wakeup_by_errno_def Let_def using nd Some by (simp add: l err_defs del: if_split)
      then show ?thesis using nd Some False k0 by (auto split: if_splits)
    qed
  qed
qed

text \<open>
  Signalling a completion. If it is already signalled the call returns \<open>-RT_EBUSY\<close> and changes nothing. Otherwise it is signalled
  afterwards; a thread that waits for it is awake, with the given error number if that is not negative, and the result is \<open>RT_EOK\<close>;
  with no thread waiting, or one that timed out and has not run yet, the result is \<open>-RT_EEMPTY\<close>. No other thread is woken.
\<close>
theorem completion_wakeup_branches:
  assumes k: "kinv s" and c: "current s \<noteq> None"
    and ty: "\<And>t. co_thread c = Some t \<Longrightarrow> rt_object_get_type (OThread t) s = RT_Object_Class_Thread"
  shows "if co_done c then rt_completion_wakeup_by_errno e c s = Some ((- RT_EBUSY, c), s)
    else \<exists>r s'. rt_completion_wakeup_by_errno e c s = Some ((r, comp_stat None True), s') \<and> kinv s' \<and>
      (if \<exists>t. co_thread c = Some t \<and> susp_stat (tcbs s t)
       then r = RT_EOK \<and> \<not> susp_stat (tcbs s' (the (co_thread c))) \<and>
         (e \<ge> 0 \<longrightarrow> t_error (tcbs s' (the (co_thread c))) = e)
       else r = - RT_EEMPTY) \<and>
      (\<forall>u. co_thread c \<noteq> Some u \<longrightarrow> susp_stat (tcbs s' u) = susp_stat (tcbs s u) \<and> t_error (tcbs s' u) = t_error (tcbs s u))"
  using k c ty by (rule completion_wakeup_run)


text \<open>
  A wait that times out returns \<open>-RT_ETIMEOUT\<close> and leaves the completion free; a wait that must not block and finds no signal
  returns the same and changes nothing; any other wait suspends the caller until its time-out.
\<close>
theorem completion_wait_branches:
  assumes w: "timeout \<noteq> 0 \<Longrightarrow> can_wait t timeout s" and k: "kinv s" and nt: "co_thread c = None"
  shows "if co_done c then rt_completion_wait_flags timeout sf c s = Some ((Some RT_EOK, comp_stat None False), s)
    else if timeout = 0 then rt_completion_wait_flags timeout sf c s = Some ((Some (- RT_ETIMEOUT), c), s)
    else \<exists>s'. rt_completion_wait_flags timeout sf c s = Some ((None, comp_stat (Some t) False), s') \<and> parks t timeout RT_EOK s s' \<and>
      (\<forall>s''. kinv s'' \<and> t_error (tcbs s'' t) = - RT_ETIMEOUT \<longrightarrow>
        completion_wait_resume t sf (comp_stat (Some t) False) s'' = Some ((Some (- RT_ETIMEOUT), comp_stat None False), s''))"
proof -
  have d: "debug_scheduler_available (timeout \<noteq> 0) s"
    using can_waitD(4) [OF w] by (cases "timeout = 0") (auto simp: debug_defs)
  have n: "c = comp_stat None False" if "\<not> co_done c" using that nt by simp
  have "completion_wait_resume t sf (comp_stat (Some t) False) s'' = Some ((Some (- RT_ETIMEOUT), comp_stat None False), s'')"
    if "kinv s''" "t_error (tcbs s'' t) = - RT_ETIMEOUT" for s''
    using that by (simp add: completion_wait_resume_def err_defs)
  then show ?thesis
    using d k nt wait_flags_done [OF k _ d, of c sf] wait_flags_parks [OF w n, of sf]
    by (auto simp: rt_completion_wait_flags_def completion_try_def)
qed


subsection \<open>Instances\<close>

lemma demo_wait_can: "can_wait 1 50 (demo_wait q)"
  using kinv_demo [of q] demo_wait_running [of q] by (simp add: can_wait_def HALF_TICKS_val)

theorem completion_wait_branches_witness:
  "\<exists>s'. rt_completion_wait_flags 50 RT_UNINTERRUPTIBLE (comp_stat None False) (demo_wait (SemQ 7)) =
       Some ((None, comp_stat (Some 1) False), s') \<and> susp_stat (tcbs s' 1) \<and> tm_timeout_tick (timers s' (ThreadTimer 1)) = 150"
  using completion_wait_branches [OF demo_wait_can [of "SemQ 7"] kinv_demo, of "comp_stat None False" RT_UNINTERRUPTIBLE]
  by (auto simp: parks_def)

theorem completion_wakeup_branches_witness:
  "\<exists>s'. rt_completion_wakeup_by_errno 5 (comp_stat (Some 3) False) (demo_wait (SemQ 7)) =
       Some ((RT_EOK, comp_stat None True), s') \<and> \<not> susp_stat (tcbs s' 3) \<and> t_error (tcbs s' 3) = 5"
proof -
  have "susp_stat (tcbs (demo_wait (SemQ 7)) 3)" by (rule kinv_queue_susp [OF kinv_demo, where q = "SemQ 7"]) simp
  with completion_wakeup_branches [OF kinv_demo [of "SemQ 7"], of "comp_stat (Some 3) False" 5] show ?thesis by auto
qed


end
