(* ===== verification/DataQueue.thy ===== *)
theory DataQueue
  imports MemPool
begin

text \<open>
  Data queues of the device drivers (components/drivers/ipc/dataqueue.c): a ring of data pointers with two queues of waiting threads.
  The control block of a data queue is passed beside the kernel state, which holds its suspend lists \<open>DqPushQ i\<close> and \<open>DqPopQ i\<close>.
  The call of \<open>evt_notify\<close>, always the last thing a call does, is a result: the event it is called with.
\<close>

record rt_data_item =
  di_ptr :: u32
  di_size :: u32

record rt_data_queue =
  dq_magic :: u32
  dq_size :: u16
  dq_lwm :: u16
  dq_get :: "15 word"
  dq_empty :: bool
  dq_put :: "15 word"
  dq_full :: bool
  dq_queue :: "rt_data_item list"
  dq_notify :: bool

definition DATAQUEUE_MAGIC :: u32 where "DATAQUEUE_MAGIC = 0xbead0e0e"

definition RT_DATAQUEUE_EVENT_POP :: nat where "RT_DATAQUEUE_EVENT_POP = 1"
definition RT_DATAQUEUE_EVENT_PUSH :: nat where "RT_DATAQUEUE_EVENT_PUSH = 2"
definition RT_DATAQUEUE_EVENT_LWM :: nat where "RT_DATAQUEUE_EVENT_LWM = 3"

type_synonym dqst = "rt_data_queue \<times> kst"

abbreviation notified :: "nat \<Rightarrow> rt_data_queue \<Rightarrow> nat option" where
  "notified e q \<equiv> if dq_notify q then Some e else None"

definition rt_data_queue_init :: "nat \<Rightarrow> u16 \<Rightarrow> u16 \<Rightarrow> bool \<Rightarrow> rt_data_item list option \<Rightarrow> kst \<Rightarrow> (int \<times> dqst) option" where
  \<comment> \<open>\<open>block\<close>: what the allocation of \<open>sz\<close> items returned\<close>
  "rt_data_queue_init i sz lwm notify block s = do {
     rt_assert (sz > 0);
     let q = \<lparr>dq_magic = DATAQUEUE_MAGIC, dq_size = sz, dq_lwm = lwm, dq_get = 0, dq_empty = True, dq_put = 0, dq_full = False,
              dq_queue = [], dq_notify = notify\<rparr>;
     let s = upd_tlists (\<lambda>ls. ls(Susp (DqPushQ i) := [], Susp (DqPopQ i) := [])) s;
     case block of
       None \<Rightarrow> Some (- RT_ENOMEM, q, s)
     | Some items \<Rightarrow> Some (RT_EOK, q\<lparr>dq_queue := items\<rparr>, s)
   }"

definition dq_length :: "rt_data_queue \<Rightarrow> u16" where
  \<comment> \<open>the value of \<open>rt_data_queue_len\<close>, which it computes in an \<open>rt_int16_t\<close>\<close>
  "dq_length q =
     (if dq_empty q then 0
      else if dq_put q > dq_get q then ucast (dq_put q) - ucast (dq_get q)
      else dq_size q + ucast (dq_put q) - ucast (dq_get q))"

definition rt_data_queue_len :: "dqst \<Rightarrow> (u16 \<times> dqst) option" where
  "rt_data_queue_len qs = (case qs of (q, s) \<Rightarrow> do {
     rt_assert (dq_magic q = DATAQUEUE_MAGIC);
     if dq_empty q then Some (0, q, s)
     else do {
       s \<leftarrow> rt_spin_unlock (rt_spin_lock s);
       Some (dq_length q, q, s)
     }
   })"

definition dq_wait :: "suspq \<Rightarrow> int \<Rightarrow> kst \<Rightarrow> ((int \<times> bool) \<times> kst) option" where
  \<comment> \<open>suspends the caller, until the switch: the result of the suspension, and whether it waits; the lock is held\<close>
  "dq_wait wq timeout s = do {
     t \<leftarrow> rt_thread_self s;
     let s = upd_tcb t (\<lambda>b. b\<lparr>t_error := RT_EOK\<rparr>) s;
     (result, s) \<leftarrow> rt_thread_suspend_to_list t (Some wq) RT_IPC_FLAG_FIFO RT_UNINTERRUPTIBLE s;
     if result = RT_EOK then do {
       s \<leftarrow> (if timeout > 0 then start_wait_timer t (word_of_int timeout) s else Some s);
       s \<leftarrow> rt_spin_unlock s;
       s \<leftarrow> rt_schedule s;
       Some ((result, True), s)
     } else Some ((result, False), s)
   }"

definition dq_store :: "rt_data_item \<Rightarrow> rt_data_queue \<Rightarrow> rt_data_queue option" where
  "dq_store item q = do {
     rt_assert (unat (dq_put q) < length (dq_queue q));
     let q = q\<lparr>dq_queue := (dq_queue q)[unat (dq_put q) := item], dq_put := dq_put q + 1\<rparr>;
     let q = (if ucast (dq_put q) = dq_size q then q\<lparr>dq_put := 0\<rparr> else q);
     let q = q\<lparr>dq_empty := False\<rparr>;
     Some (if dq_put q = dq_get q then q\<lparr>dq_full := True\<rparr> else q)
   }"

definition dq_fetch :: "rt_data_queue \<Rightarrow> (rt_data_item \<times> rt_data_queue) option" where
  "dq_fetch q = do {
     rt_assert (unat (dq_get q) < length (dq_queue q));
     let item = dq_queue q ! unat (dq_get q);
     let q = q\<lparr>dq_get := dq_get q + 1\<rparr>;
     let q = (if ucast (dq_get q) = dq_size q then q\<lparr>dq_get := 0\<rparr> else q);
     let q = q\<lparr>dq_full := False\<rparr>;
     Some (item, if dq_put q = dq_get q then q\<lparr>dq_empty := True\<rparr> else q)
   }"

definition data_queue_push_round :: "nat \<Rightarrow> rt_data_item \<Rightarrow> int \<Rightarrow> dqst \<Rightarrow> ((int \<times> nat option) wait_step \<times> dqst) option" where
  \<comment> \<open>one test of the loop of \<open>rt_data_queue_push\<close>, and what follows it; the lock is held\<close>
  "data_queue_push_round i item timeout qs = (case qs of (q, s) \<Rightarrow>
     (if dq_full q then
        if timeout = 0 then do {
          s \<leftarrow> rt_spin_unlock s;
          Some (Returned (- RT_ETIMEOUT, None), q, s)
        } else do {
          ((result, waiting), s) \<leftarrow> dq_wait (DqPushQ i) timeout s;
          if waiting then Some (Waiting timeout 0, q, s)
          else do {
            s \<leftarrow> rt_spin_unlock s;
            Some (Returned (result, None), q, s)
          }
        }
      else do {
        q \<leftarrow> dq_store item q;
        (woken, s) \<leftarrow> rt_susp_list_dequeue (DqPopQ i) (- 1) s;
        if woken \<noteq> None then do {
          s \<leftarrow> rt_spin_unlock s;
          s \<leftarrow> rt_schedule s;
          Some (Returned (RT_EOK, None), q, s)
        } else do {
          s \<leftarrow> rt_spin_unlock s;
          Some (Returned (RT_EOK, notified RT_DATAQUEUE_EVENT_PUSH q), q, s)
        }
      }))"

definition rt_data_queue_push :: "nat \<Rightarrow> rt_data_item \<Rightarrow> int \<Rightarrow> dqst \<Rightarrow> ((int \<times> nat option) wait_step \<times> dqst) option" where
  "rt_data_queue_push i item timeout qs = (case qs of (q, s) \<Rightarrow> do {
     rt_assert (dq_magic q = DATAQUEUE_MAGIC);
     rt_assert (debug_scheduler_available (timeout \<noteq> 0) s);
     data_queue_push_round i item timeout (q, rt_spin_lock s)
   })"

definition data_queue_push_resume :: "nat \<Rightarrow> nat \<Rightarrow> rt_data_item \<Rightarrow> int \<Rightarrow> dqst \<Rightarrow> ((int \<times> nat option) wait_step \<times> dqst) option" where
  \<comment> \<open>thread \<open>t\<close> runs again after \<open>Waiting timeout\<close>\<close>
  "data_queue_push_resume i t item timeout qs = (case qs of (q, s) \<Rightarrow> do {
     let s = rt_spin_lock s;
     if t_error (tcbs s t) \<noteq> RT_EOK then do {
       s \<leftarrow> rt_spin_unlock s;
       Some (Returned (t_error (tcbs s t), None), q, s)
     } else data_queue_push_round i item timeout (q, s)
   })"

partial_function (option) data_queue_pop_round ::
    "nat \<Rightarrow> int \<Rightarrow> dqst \<Rightarrow> (((int \<times> rt_data_item option) \<times> nat option) wait_step \<times> dqst) option" where
  \<comment> \<open>the same of \<open>rt_data_queue_pop\<close>, which goes on with its loop when the suspension fails\<close>
  "data_queue_pop_round i timeout qs = (case qs of (q, s) \<Rightarrow>
     (if dq_empty q then
        if timeout = 0 then do {
          s \<leftarrow> rt_spin_unlock s;
          Some (Returned ((- RT_ETIMEOUT, None), None), q, s)
        } else do {
          ((_, waiting), s) \<leftarrow> dq_wait (DqPopQ i) timeout s;
          if waiting then Some (Waiting timeout 0, q, s) else data_queue_pop_round i timeout (q, s)
        }
      else do {
        (item, q) \<leftarrow> dq_fetch q;
        (len, q, s) \<leftarrow> rt_data_queue_len (q, s);
        if len \<le> dq_lwm q then do {
          (woken, s) \<leftarrow> rt_susp_list_dequeue (DqPushQ i) (- 1) s;
          s \<leftarrow> rt_spin_unlock s;
          s \<leftarrow> (if woken \<noteq> None then rt_schedule s else Some s);
          Some (Returned ((RT_EOK, Some item), notified RT_DATAQUEUE_EVENT_LWM q), q, s)
        } else do {
          s \<leftarrow> rt_spin_unlock s;
          Some (Returned ((RT_EOK, Some item), notified RT_DATAQUEUE_EVENT_POP q), q, s)
        }
      }))"

definition rt_data_queue_pop :: "nat \<Rightarrow> int \<Rightarrow> dqst \<Rightarrow> (((int \<times> rt_data_item option) \<times> nat option) wait_step \<times> dqst) option" where
  "rt_data_queue_pop i timeout qs = (case qs of (q, s) \<Rightarrow> do {
     rt_assert (dq_magic q = DATAQUEUE_MAGIC);
     rt_assert (debug_scheduler_available (timeout \<noteq> 0) s);
     data_queue_pop_round i timeout (q, rt_spin_lock s)
   })"

definition data_queue_pop_resume ::
    "nat \<Rightarrow> nat \<Rightarrow> int \<Rightarrow> dqst \<Rightarrow> (((int \<times> rt_data_item option) \<times> nat option) wait_step \<times> dqst) option" where
  "data_queue_pop_resume i t timeout qs = (case qs of (q, s) \<Rightarrow> do {
     let s = rt_spin_lock s;
     if t_error (tcbs s t) \<noteq> RT_EOK then do {
       s \<leftarrow> rt_spin_unlock s;
       Some (Returned ((t_error (tcbs s t), None), None), q, s)
     } else data_queue_pop_round i timeout (q, s)
   })"

definition rt_data_queue_peek :: "dqst \<Rightarrow> ((int \<times> rt_data_item option) \<times> dqst) option" where
  "rt_data_queue_peek qs = (case qs of (q, s) \<Rightarrow> do {
     rt_assert (dq_magic q = DATAQUEUE_MAGIC);
     if dq_empty q then Some ((- RT_EEMPTY, None), q, s)
     else do {
       let s = rt_spin_lock s;
       rt_assert (unat (dq_get q) < length (dq_queue q));
       s \<leftarrow> rt_spin_unlock s;
       Some ((RT_EOK, Some (dq_queue q ! unat (dq_get q))), q, s)
     }
   })"

definition rt_data_queue_reset :: "nat \<Rightarrow> dqst \<Rightarrow> dqst option" where
  "rt_data_queue_reset i qs = (case qs of (q, s) \<Rightarrow> do {
     rt_assert (dq_magic q = DATAQUEUE_MAGIC);
     s \<leftarrow> rt_spin_unlock (rt_spin_lock s);
     let q = q\<lparr>dq_get := 0, dq_put := 0, dq_empty := True, dq_full := False\<rparr>;
     let s = rt_enter_critical s;
     s \<leftarrow> rt_susp_list_resume_all_irq (DqPopQ i) RT_ERROR s;
     s \<leftarrow> rt_susp_list_resume_all_irq (DqPushQ i) RT_ERROR s;
     s \<leftarrow> rt_exit_critical s;
     s \<leftarrow> rt_schedule s;
     Some (q, s)
   })"

definition rt_data_queue_deinit :: "nat \<Rightarrow> dqst \<Rightarrow> (int \<times> dqst) option" where
  "rt_data_queue_deinit i qs = do {
     (q, s) \<leftarrow> rt_data_queue_reset i qs;
     s \<leftarrow> rt_spin_unlock (rt_spin_lock s);
     Some (RT_EOK, q\<lparr>dq_magic := 0, dq_queue := []\<rparr>, s)
   }"


subsection \<open>A data queue is a bounded queue\<close>

definition dq_wf :: "rt_data_queue \<Rightarrow> bool" where
  \<comment> \<open>at most as many items as the 15-bit indices can name\<close>
  "dq_wf q \<longleftrightarrow> 0 < unat (dq_size q) \<and> unat (dq_size q) \<le> 2 ^ 15 \<and> length (dq_queue q) = unat (dq_size q) \<and>
     unat (dq_get q) < unat (dq_size q) \<and> unat (dq_put q) < unat (dq_size q) \<and>
     (if dq_put q = dq_get q then dq_empty q \<noteq> dq_full q else \<not> dq_empty q \<and> \<not> dq_full q)"

definition dq_count :: "rt_data_queue \<Rightarrow> nat" where
  "dq_count q = (if dq_empty q then 0
     else if unat (dq_put q) > unat (dq_get q) then unat (dq_put q) - unat (dq_get q)
     else unat (dq_size q) + unat (dq_put q) - unat (dq_get q))"

definition dq_content :: "rt_data_queue \<Rightarrow> rt_data_item list" where
  "dq_content q = ring (unat (dq_size q)) (dq_queue q) (unat (dq_get q)) (dq_count q)"

lemma length_dq_content [simp]: "length (dq_content q) = dq_count q"
  by (simp add: dq_content_def)

lemma dq_content_Nil [simp]: "dq_content q = [] \<longleftrightarrow> dq_count q = 0"
  using length_dq_content [of q] by (metis length_0_conv)

lemma dq_count_bounds:
  assumes "dq_wf q"
  shows "dq_count q \<le> unat (dq_size q)" "dq_full q \<longleftrightarrow> dq_count q = unat (dq_size q)" "dq_empty q \<longleftrightarrow> dq_count q = 0"
    "unat (dq_put q) = (unat (dq_get q) + dq_count q) mod unat (dq_size q)"
proof -
  have e: "dq_put q = dq_get q \<longleftrightarrow> unat (dq_put q) = unat (dq_get q)" by (simp add: word_unat_eq_iff)
  show "dq_count q \<le> unat (dq_size q)" "dq_full q \<longleftrightarrow> dq_count q = unat (dq_size q)" "dq_empty q \<longleftrightarrow> dq_count q = 0"
    using assms unfolding dq_wf_def dq_count_def e by (auto split: if_splits)
  show "unat (dq_put q) = (unat (dq_get q) + dq_count q) mod unat (dq_size q)"
    using assms unfolding dq_wf_def dq_count_def e by (auto split: if_splits)
qed

lemma unat_ucast15 [simp]: "unat (ucast (x :: 15 word) :: u16) = unat x"
  using unsigned_less [of x, where ?'a = nat] by (simp add: unsigned_ucast_eq take_bit_eq_mod)

lemma next_index15:
  fixes x :: "15 word" and n :: u16
  assumes "unat x < unat n" and "unat n \<le> 2 ^ 15"
  shows "unat (if ucast (x + 1) = n then 0 else x + 1) = (unat x + 1) mod unat n"
proof (cases "unat x + 1 < 2 ^ 15")
  case True
  then have u: "unat (x + 1) = unat x + 1" by (simp add: unat_word_ariths)
  then have "ucast (x + 1) = n \<longleftrightarrow> unat x + 1 = unat n" by (simp add: word_unat_eq_iff)
  then show ?thesis using assms(1) u by auto
next
  case False
  then have n: "unat n = 2 ^ 15" "unat x + 1 = 2 ^ 15" using assms by linarith+
  then have u: "unat (x + 1) = 0" by (simp add: unat_word_ariths)
  then have "ucast (x + 1) \<noteq> n" using n by (metis unat_ucast15 power_not_zero zero_neq_numeral)
  then show ?thesis using n u by simp
qed

lemma dq_count_unique:
  assumes "unat (dq_put q) = (unat (dq_get q) + k) mod unat (dq_size q)" and "k \<le> unat (dq_size q)"
    and "unat (dq_get q) < unat (dq_size q)" and "dq_empty q \<longleftrightarrow> k = 0"
  shows "dq_count q = k"
proof (cases "unat (dq_get q) + k < unat (dq_size q)")
  case True
  then show ?thesis using assms by (auto simp: dq_count_def)
next
  case False
  then have "(unat (dq_get q) + k) mod unat (dq_size q) = unat (dq_get q) + k - unat (dq_size q)"
    using assms(2,3) by (simp add: le_mod_geq)
  then show ?thesis using False assms by (auto simp: dq_count_def)
qed

lemma dq_wfI:
  assumes "0 < unat (dq_size q)" "unat (dq_size q) \<le> 2 ^ 15" "length (dq_queue q) = unat (dq_size q)"
    and g: "unat (dq_get q) < unat (dq_size q)" and p: "unat (dq_put q) = (unat (dq_get q) + k) mod unat (dq_size q)"
    and k: "k \<le> unat (dq_size q)" and e: "dq_empty q \<longleftrightarrow> k = 0" and f: "dq_full q \<longleftrightarrow> k = unat (dq_size q)"
  shows "dq_wf q" and "dq_count q = k"
proof -
  show c: "dq_count q = k" by (rule dq_count_unique [OF p k g e])
  have "dq_put q = dq_get q \<longleftrightarrow> k = 0 \<or> k = unat (dq_size q)"
  proof (cases "unat (dq_get q) + k < unat (dq_size q)")
    case True
    then show ?thesis using p g by (simp add: word_unat_eq_iff)
  next
    case False
    then have "(unat (dq_get q) + k) mod unat (dq_size q) = unat (dq_get q) + k - unat (dq_size q)" using k g by (simp add: le_mod_geq)
    then show ?thesis using False p k g by (auto simp: word_unat_eq_iff)
  qed
  moreover have "unat (dq_put q) < unat (dq_size q)" using p assms(1) by simp
  ultimately show "dq_wf q" using assms by (auto simp: dq_wf_def)
qed

definition dq_frame :: "rt_data_queue \<Rightarrow> rt_data_queue \<Rightarrow> bool" where
  "dq_frame q q' \<longleftrightarrow> dq_magic q' = dq_magic q \<and> dq_size q' = dq_size q \<and> dq_lwm q' = dq_lwm q \<and> dq_notify q' = dq_notify q"

lemma dq_store_ok:
  assumes wf: "dq_wf q" and nf: "\<not> dq_full q"
  shows "\<exists>q'. dq_store item q = Some q' \<and> dq_wf q' \<and> dq_frame q q' \<and> dq_content q' = dq_content q @ [item]"
proof -
  note W = wf [unfolded dq_wf_def] and C = dq_count_bounds [OF wf]
  let ?n = "unat (dq_size q)" and ?p = "unat (dq_put q)" and ?g = "unat (dq_get q)" and ?k = "dq_count q"
  have lt: "?k < ?n" using C nf by simp
  define j where "j = (if ucast (dq_put q + 1) = dq_size q then 0 else dq_put q + 1)"
  have j: "unat j = (?g + (?k + 1)) mod ?n"
  proof -
    have "unat j = (?p + 1) mod ?n" unfolding j_def using W by (intro next_index15) simp_all
    also have "\<dots> = (?g + (?k + 1)) mod ?n" unfolding C(4) by (simp add: mod_simps)
    finally show ?thesis .
  qed
  let ?q = "q\<lparr>dq_queue := (dq_queue q)[?p := item], dq_put := j, dq_empty := False, dq_full := (?k + 1 = ?n)\<rparr>"
  have wf': "dq_wf ?q" "dq_count ?q = ?k + 1" by (rule dq_wfI [where k = "?k + 1"]; use W j lt in simp)+
  have eq: "j = dq_get q \<longleftrightarrow> ?k + 1 = ?n"
    using wf' W by (auto simp: dq_wf_def split: if_splits)
  have st: "dq_store item q = Some ?q"
    using W nf eq by (auto simp: dq_store_def j_def [symmetric] Let_def)
      (auto simp: j_def intro!: rt_data_queue.equality)
  have "dq_content ?q = dq_content q @ [item]"
    using ring_append [of ?k ?n "dq_queue q" ?g item] W lt wf'(2) by (simp add: dq_content_def C(4))
  then show ?thesis using st wf'(1) by (auto simp: dq_frame_def)
qed

lemma dq_fetch_ok:
  assumes wf: "dq_wf q" and ne: "\<not> dq_empty q"
  shows "\<exists>item q'. dq_fetch q = Some (item, q') \<and> dq_wf q' \<and> dq_frame q q' \<and> dq_content q = item # dq_content q'"
proof -
  note W = wf [unfolded dq_wf_def] and C = dq_count_bounds [OF wf]
  let ?n = "unat (dq_size q)" and ?g = "unat (dq_get q)"
  obtain k where k: "dq_count q = Suc k" using C(3) ne by (cases "dq_count q") auto
  define j where "j = (if ucast (dq_get q + 1) = dq_size q then 0 else dq_get q + 1)"
  have j: "unat j = (?g + 1) mod ?n" unfolding j_def using W by (intro next_index15) simp_all
  let ?q = "q\<lparr>dq_get := j, dq_full := False, dq_empty := (k = 0)\<rparr>"
  have wf': "dq_wf ?q" "dq_count ?q = k"
  proof -
    have "unat (dq_put q) = (unat j + k) mod ?n" unfolding j C(4) k by (simp add: mod_simps)
    moreover have "unat j < ?n" using j W by simp
    ultimately show "dq_wf ?q" "dq_count ?q = k" using W C(1) k by (auto intro!: dq_wfI [where k = k])
  qed
  have eq: "dq_put q = j \<longleftrightarrow> k = 0" using wf' W k C(1) by (auto simp: dq_wf_def split: if_splits)
  have st: "dq_fetch q = Some (dq_queue q ! ?g, ?q)"
    using W ne eq by (auto simp: dq_fetch_def j_def [symmetric] Let_def) (auto simp: j_def intro!: rt_data_queue.equality)
  have "dq_content q = dq_queue q ! ?g # dq_content ?q"
    using ring_tail [of ?g ?n "dq_queue q" k] W wf'(2) j k by (simp add: dq_content_def)
  then show ?thesis using st wf'(1) by (auto simp: dq_frame_def)
qed


definition dq_insert :: "rt_data_item \<Rightarrow> rt_data_queue \<Rightarrow> rt_data_queue option" where
  "dq_insert item q = (if dq_full q then None else dq_store item q)"

definition dq_extract :: "rt_data_queue \<Rightarrow> (rt_data_item \<times> rt_data_queue) option" where
  "dq_extract q = (if dq_empty q then None else dq_fetch q)"

interpretation dqq: bounded_queue dq_wf dq_content "\<lambda>q. unat (dq_size q)" dq_insert dq_extract
proof
  fix q :: rt_data_queue and x :: rt_data_item and xs :: "rt_data_item list"
  assume wf: "dq_wf q"
  note C = dq_count_bounds [OF wf]
  show "length (dq_content q) \<le> unat (dq_size q)" using C(1) by simp
  show "length (dq_content q) = unat (dq_size q) \<Longrightarrow> dq_insert x q = None" using C(2) by (simp add: dq_insert_def)
  show "length (dq_content q) < unat (dq_size q) \<Longrightarrow> \<exists>q'. dq_insert x q = Some q' \<and> dq_wf q' \<and>
      dq_content q' = dq_content q @ [x] \<and> unat (dq_size q') = unat (dq_size q)"
    using C(2) dq_store_ok [OF wf, of x] by (auto simp: dq_insert_def dq_frame_def)
  show "dq_content q = [] \<Longrightarrow> dq_extract q = None" using C(3) by (simp add: dq_extract_def)
  show "dq_content q = x # xs \<Longrightarrow> \<exists>q'. dq_extract q = Some (x, q') \<and> dq_wf q' \<and> dq_content q' = xs \<and>
      unat (dq_size q') = unat (dq_size q)"
  proof -
    assume c: "dq_content q = x # xs"
    then have "\<not> dq_empty q" using C(3) length_dq_content [of q] by (metis length_0_conv list.distinct(1))
    with dq_fetch_ok [OF wf] c show ?thesis by (auto simp: dq_extract_def dq_frame_def)
  qed
qed

text \<open>Whatever is pushed into an empty data queue, at most as many items as it has places, comes out in the same order.\<close>
lemma data_queue_fifo:
  assumes "dq_wf q" and "dq_content q = []" and "length xs \<le> unat (dq_size q)"
  shows "\<exists>q1 q2. dqq.put_all xs q = Some q1 \<and> dqq.get_many (length xs) q1 = Some (xs, q2) \<and> dq_wf q2 \<and> dq_content q2 = []"
  using dqq.fifo [OF assms] .

lemma dq_length_count: "dq_wf q \<Longrightarrow> unat (dq_length q) = dq_count q"
proof -
  assume wf: "dq_wf q"
  note W = wf [unfolded dq_wf_def]
  have a: "dq_put q > dq_get q \<longleftrightarrow> unat (dq_put q) > unat (dq_get q)" by (simp add: word_less_nat_alt)
  have s: "unat (dq_size q + ucast (dq_put q)) = unat (dq_size q) + unat (dq_put q)"
    using W by (simp add: unat_word_ariths)
  show ?thesis
    using W a s unat_sub [of "ucast (dq_get q) :: u16" "ucast (dq_put q)"] unat_sub [of "ucast (dq_get q) :: u16" "dq_size q + ucast (dq_put q)"]
    by (simp add: dq_length_def dq_count_def word_le_nat_alt)
qed

subsection \<open>Waiting and waking\<close>

lemma dq_wait_run:
  assumes w: "can_wait t timeout s"
  shows "\<exists>s'. dq_wait q timeout (rt_spin_lock s) = Some ((RT_EOK, True), s') \<and> waits t q RT_IPC_FLAG_FIFO timeout RT_EOK s s'"
proof -
  let ?s0 = "upd_tcb t (\<lambda>b. b\<lparr>t_error := RT_EOK\<rparr>) s" and ?f = RT_IPC_FLAG_FIFO
  have w0: "can_wait t timeout ?s0" using w by simp
  note W = w0 [unfolded can_wait_def] and C = can_waitD [OF w]
  have f: "ipc_flag_ok ?f" by (simp add: ipc_flag_ok_def)
  have B: "rt_thread_suspend_to_list t (Some q) ?f RT_UNINTERRUPTIBLE (rt_spin_lock ?s0)
        = Some (RT_EOK, thread_block t (Some (q, ?f)) RT_UNINTERRUPTIBLE (rt_spin_lock ?s0))"
    "(if timeout > 0 then start_wait_timer t (word_of_int timeout) (thread_block t (Some (q, ?f)) RT_UNINTERRUPTIBLE (rt_spin_lock ?s0))
          else Some (thread_block t (Some (q, ?f)) RT_UNINTERRUPTIBLE (rt_spin_lock ?s0)))
        = Some (blocked t q ?f RT_UNINTERRUPTIBLE timeout (rt_spin_lock ?s0))"
    using block_and_switch(1,2) [of ?s0 t ?f timeout] W f by simp_all
  obtain s4 s' where s': "rt_spin_unlock (blocked t q ?f RT_UNINTERRUPTIBLE timeout (rt_spin_lock ?s0)) = Some s4"
    "rt_schedule s4 = Some s'" "waits t q ?f timeout RT_EOK ?s0 s'"
    using block_and_switch(3) [of ?s0 t ?f timeout q RT_UNINTERRUPTIBLE] W f by auto
  then have "dq_wait q timeout (rt_spin_lock s) = Some ((RT_EOK, True), s')"
    using C B by (simp add: dq_wait_def rt_thread_self_def lock_upd_tcb Let_def)
  with s'(3) show ?thesis by (auto simp: waits_error)
qed

definition dq_wake :: "suspq \<Rightarrow> kst \<Rightarrow> kst \<Rightarrow> bool" where
  \<comment> \<open>the first waiter of \<open>q\<close>, if there is one, is awake, and nobody else; the pending results stay as they are\<close>
  "dq_wake q s s' \<longleftrightarrow> kinv s' \<and> tlists s' (Susp q) = tl (tlists s (Susp q)) \<and>
     (\<forall>q'. q' \<noteq> q \<longrightarrow> tlists s' (Susp q') = tlists s (Susp q')) \<and>
     (\<forall>t. susp_stat (tcbs s' t) = (susp_stat (tcbs s t) \<and> \<not> first_of q s t) \<and> t_error (tcbs s' t) = t_error (tcbs s t))"

lemma dq_wake_run:
  assumes k: "kinv s" and c: "current s \<noteq> None"
  shows "\<exists>w s1 s2 s'. rt_susp_list_dequeue q (- 1) (rt_spin_lock s) = Some (w, s1) \<and> rt_spin_unlock s1 = Some s2 \<and>
    (w = None \<longleftrightarrow> tlists s (Susp q) = []) \<and> (if w = None then Some s2 else rt_schedule s2) = Some s' \<and> dq_wake q s s'"
proof (cases "tlists s (Susp q)")
  case Nil
  then show ?thesis using k by (simp add: dq_wake_def first_of_def)
next
  case (Cons t ts)
  let ?s1 = "rt_spin_lock s"
  have lo: "locked_ok ?s1" and c1: "current ?s1 \<noteq> None" and q: "tlists ?s1 (Susp q) = t # ts" using k c Cons by simp_all
  note W = wake_and_switch [OF lo c1 q, of "- 1"]
  obtain s4 s' where s': "rt_spin_unlock (wake_err (- 1) t ?s1) = Some s4" "rt_schedule s4 = Some s'"
    "woken (\<lambda>u. u = t) (- 1) ?s1 s'" using W(2) by blast
  have k1: "kinv ?s1" using k by simp
  have su: "susp_stat (tcbs ?s1 t)" using kinv_queue_susp [OF k1, of t q] q by simp
  have lw: "locked_ok (wake_err (- 1) t ?s1)"
    by (rule locked_ok_update [OF lo kinv_wake_err [OF k1 su]]) simp_all
  note U = locked_ok_unlock [OF lw]
  have s4: "s4 = (wake_err (- 1) t ?s1)\<lparr>lock_nest := lock_nest (wake_err (- 1) t ?s1) - 1\<rparr>" using U(1) s'(1) by simp
  have "sched_inv s4" using U(2) unfolding s4 by (simp add: kinv_def)
  then have "same_ipc s4 s'" using rt_schedule_frame s'(2) by blast
  then have e: "t_error (tcbs s' u) = t_error (tcbs s u)" for u unfolding s4 by (simp add: same_ipc_def Let_def)
  have d: "distinct (t # ts)" using store_okD(1) [OF kinv_store [OF k], of "Susp q"] Cons by simp
  have nt: "t \<notin> set (tlists s (Susp q'))" if "q' \<noteq> q" for q'
    using store_okD(2) [OF kinv_store [OF k], of t "Susp q" "Susp q'"] that Cons by auto
  have "dq_wake q s s'"
    unfolding dq_wake_def
  proof (intro conjI allI impI)
    fix u
    show "susp_stat (tcbs s' u) = (susp_stat (tcbs s u) \<and> \<not> first_of q s u)"
      using s'(3) Cons by (cases "u = t") (auto simp: woken_def first_of_def)
  qed (use s'(3) e d nt Cons in \<open>auto simp: woken_def\<close>)
  then show ?thesis using W(1) s'(1,2) Cons by auto
qed

subsection \<open>Pushing and popping\<close>

definition dq_ok :: "rt_data_queue \<Rightarrow> bool" where
  "dq_ok q \<longleftrightarrow> dq_wf q \<and> dq_magic q = DATAQUEUE_MAGIC"

lemma dq_ok_frame: "dq_ok q \<Longrightarrow> dq_wf q' \<Longrightarrow> dq_frame q q' \<Longrightarrow> dq_ok q'"
  by (simp add: dq_ok_def dq_frame_def)

text \<open>
  Pushing onto a data queue. With a free place the item becomes the newest one and the call returns \<open>RT_EOK\<close>; the first thread
  that waits for an item is awake, and only when there is none, the event PUSH is notified. In a full queue a call without a timeout returns
  \<open>-RT_ETIMEOUT\<close> and changes nothing, any other puts its thread at the end of the queue of the pushers.
\<close>
theorem rt_data_queue_push_branches:
  assumes k: "kinv s" and c: "current s = Some t" and w: "timeout \<noteq> 0 \<Longrightarrow> can_wait t timeout s" and ok: "dq_ok q"
  shows "if length (dq_content q) < unat (dq_size q) then
      \<exists>q' s'. rt_data_queue_push i item timeout (q, s) =
          Some (Returned (RT_EOK, if tlists s (Susp (DqPopQ i)) = [] then notified RT_DATAQUEUE_EVENT_PUSH q else None), q', s') \<and>
        dq_ok q' \<and> dq_content q' = dq_content q @ [item] \<and> dq_wake (DqPopQ i) s s'
    else if timeout = 0 then rt_data_queue_push i item timeout (q, s) = Some (Returned (- RT_ETIMEOUT, None), q, s)
    else \<exists>s'. rt_data_queue_push i item timeout (q, s) = Some (Waiting timeout 0, q, s') \<and>
      waits t (DqPushQ i) RT_IPC_FLAG_FIFO timeout RT_EOK s s'"
proof -
  have wf: "dq_wf q" and m: "dq_magic q = DATAQUEUE_MAGIC" using ok by (simp_all add: dq_ok_def)
  have d: "debug_scheduler_available (timeout \<noteq> 0) s"
    using can_waitD(4) [OF w] by (cases "timeout = 0") (auto simp: debug_defs)
  have full: "length (dq_content q) < unat (dq_size q) \<longleftrightarrow> \<not> dq_full q" using dq_count_bounds [OF wf] by auto
  have c': "current s \<noteq> None" using c by simp
  show ?thesis
  proof (cases "dq_full q")
    case False
    obtain q' where q': "dq_store item q = Some q'" "dq_wf q'" "dq_frame q q'" "dq_content q' = dq_content q @ [item]"
      using dq_store_ok [OF wf False] by blast
    obtain w s1 s2 s' where W: "rt_susp_list_dequeue (DqPopQ i) (- 1) (rt_spin_lock s) = Some (w, s1)" "rt_spin_unlock s1 = Some s2"
      "w = None \<longleftrightarrow> tlists s (Susp (DqPopQ i)) = []" "(if w = None then Some s2 else rt_schedule s2) = Some s'"
      "dq_wake (DqPopQ i) s s'" using dq_wake_run [OF k c', of "DqPopQ i"] by blast
    have "dq_notify q' = dq_notify q" using q'(3) by (simp add: dq_frame_def)
    then have "rt_data_queue_push i item timeout (q, s) =
        Some (Returned (RT_EOK, if tlists s (Susp (DqPopQ i)) = [] then notified RT_DATAQUEUE_EVENT_PUSH q else None), q', s')"
      using False m d q'(1) W(1-4) by (auto simp: rt_data_queue_push_def data_queue_push_round_def split: if_splits)
    then show ?thesis unfolding full using False q' dq_ok_frame [OF ok] W(5) by auto
  next
    case True
    then show ?thesis
      unfolding full using m d k dq_wait_run [OF w, of "DqPushQ i"]
      by (auto simp: rt_data_queue_push_def data_queue_push_round_def)
  qed
qed

text \<open>
  Popping from a data queue. The oldest item is returned with \<open>RT_EOK\<close>. If at most \<open>lwm\<close> items remain, the first thread that waits
  for a place is awake and the event LWM is notified; otherwise nobody is woken, although there is a place now, and the event is POP. In an empty
  queue a call without a timeout returns \<open>-RT_ETIMEOUT\<close> and changes nothing, any other waits at the end of the queue of the poppers.
\<close>
theorem rt_data_queue_pop_branches:
  assumes k: "kinv s" and c: "current s = Some t" and w: "timeout \<noteq> 0 \<Longrightarrow> can_wait t timeout s" and ok: "dq_ok q"
  shows "case dq_content q of
      item # rest \<Rightarrow> \<exists>q' s'. rt_data_queue_pop i timeout (q, s) = Some (Returned ((RT_EOK, Some item),
          notified (if length rest \<le> unat (dq_lwm q) then RT_DATAQUEUE_EVENT_LWM else RT_DATAQUEUE_EVENT_POP) q), q', s') \<and>
        dq_ok q' \<and> dq_content q' = rest \<and>
        (if length rest \<le> unat (dq_lwm q) then dq_wake (DqPushQ i) s s' else s' = s)
    | [] \<Rightarrow> if timeout = 0 then rt_data_queue_pop i timeout (q, s) = Some (Returned ((- RT_ETIMEOUT, None), None), q, s)
      else \<exists>s'. rt_data_queue_pop i timeout (q, s) = Some (Waiting timeout 0, q, s') \<and>
        waits t (DqPopQ i) RT_IPC_FLAG_FIFO timeout RT_EOK s s'"
proof -
  have wf: "dq_wf q" and m: "dq_magic q = DATAQUEUE_MAGIC" using ok by (simp_all add: dq_ok_def)
  have d: "debug_scheduler_available (timeout \<noteq> 0) s"
    using can_waitD(4) [OF w] by (cases "timeout = 0") (auto simp: debug_defs)
  have c': "current s \<noteq> None" using c by simp
  have emp: "dq_content q = [] \<longleftrightarrow> dq_empty q" using dq_count_bounds(3) [OF wf] by simp
  show ?thesis
  proof (cases "dq_content q")
    case Nil
    then have e: "dq_empty q" using emp by simp
    show ?thesis
      unfolding Nil list.case using e m d k dq_wait_run [OF w, of "DqPopQ i"]
      by (auto simp: rt_data_queue_pop_def data_queue_pop_round.simps)
  next
    case (Cons item rest)
    then have ne: "\<not> dq_empty q" using emp by simp
    obtain q' where q': "dq_fetch q = Some (item, q')" "dq_wf q'" "dq_frame q q'" "dq_content q' = rest"
      using dq_fetch_ok [OF wf ne] Cons by auto
    have F: "dq_magic q' = DATAQUEUE_MAGIC" "dq_lwm q' = dq_lwm q" "dq_notify q' = dq_notify q" using q'(3) m by (simp_all add: dq_frame_def)
    have k1: "kinv (rt_spin_lock s)" using k by simp
    have len: "rt_data_queue_len (q', rt_spin_lock s) = Some (dq_length q', q', rt_spin_lock s)"
      using F unlock_locked [OF k1] by (simp add: rt_data_queue_len_def dq_length_def)
    have le: "dq_length q' \<le> dq_lwm q' \<longleftrightarrow> length rest \<le> unat (dq_lwm q)"
      using dq_length_count [OF q'(2)] q'(4) F(2) length_dq_content [of q'] by (simp add: word_le_nat_alt)
    show ?thesis
    proof (cases "length rest \<le> unat (dq_lwm q)")
      case True
      obtain w s1 s2 s' where W: "rt_susp_list_dequeue (DqPushQ i) (- 1) (rt_spin_lock s) = Some (w, s1)" "rt_spin_unlock s1 = Some s2"
        "(if w = None then Some s2 else rt_schedule s2) = Some s'" "dq_wake (DqPushQ i) s s'"
        using dq_wake_run [OF k c', of "DqPushQ i"] by blast
      have "(if w \<noteq> None then rt_schedule s2 else Some s2) = Some s'" using W(3) by (auto split: if_splits)
      then have "rt_data_queue_pop i timeout (q, s) =
          Some (Returned ((RT_EOK, Some item), notified RT_DATAQUEUE_EVENT_LWM q), q', s')"
        using ne m d q'(1) len le True W(1,2) F(3) by (simp add: rt_data_queue_pop_def data_queue_pop_round.simps [of i timeout "(q, rt_spin_lock s)"])
      then show ?thesis using Cons True q' dq_ok_frame [OF ok] W(4) by auto
    next
      case False
      then have "rt_data_queue_pop i timeout (q, s) =
          Some (Returned ((RT_EOK, Some item), notified RT_DATAQUEUE_EVENT_POP q), q', s)"
        using ne m d q'(1) len le F(3) k by (simp add: rt_data_queue_pop_def data_queue_pop_round.simps [of i timeout "(q, rt_spin_lock s)"])
      then show ?thesis using Cons False q' dq_ok_frame [OF ok] by auto
    qed
  qed
qed


text \<open>
  The waiters of the two queues are woken in turn: the thread that an item or a place was given to goes on with its own call when it runs, with the
  result of its wait unchanged, and takes it if nobody else did.
\<close>
lemma data_queue_resume:
  assumes "t_error (tcbs s t) = RT_EOK"
  shows "data_queue_push_resume i t item timeout (q, s) = data_queue_push_round i item timeout (q, rt_spin_lock s)"
    and "data_queue_pop_resume i t timeout (q, s) = data_queue_pop_round i timeout (q, rt_spin_lock s)"
  using assms by (simp_all add: data_queue_push_resume_def data_queue_pop_resume_def)

text \<open>A wait that ended with an error, a time-out for instance, ends the call with that error.\<close>
lemma data_queue_resume_error:
  assumes "kinv s" and "t_error (tcbs s t) \<noteq> RT_EOK"
  shows "data_queue_push_resume i t item timeout (q, s) = Some (Returned (t_error (tcbs s t), None), q, s)"
    and "data_queue_pop_resume i t timeout (q, s) = Some (Returned ((t_error (tcbs s t), None), None), q, s)"
  using assms by (simp_all add: data_queue_push_resume_def data_queue_pop_resume_def)

text \<open>
  With more than 32767 items the 15-bit indices wrap before they reach the size, and the length is wrong: after one push beyond
  the wrap, a queue of 40000 items that holds 2 says that it holds 7234.
\<close>
lemma data_queue_len_wraps:
  "dq_length \<lparr>dq_magic = DATAQUEUE_MAGIC, dq_size = 40000, dq_lwm = 0, dq_get = 32767, dq_empty = False, dq_put = 1, dq_full = False,
     dq_queue = [], dq_notify = False\<rparr> = 7234"
  by (simp add: dq_length_def)

subsection \<open>Reset\<close>

lemma wake_err_nest: "wake_err e t (s\<lparr>lock_nest := n\<rparr>) = (wake_err e t s)\<lparr>lock_nest := n\<rparr>"
  by (simp add: wake_err_def thread_wake_def stop_ttmr_def rt_sched_insert_thread_def timer_off_def tm_clear_def timer_remove_def
      tm_has_def tm_flag_def Let_def)

lemma dequeue_locked_run:
  assumes lo: "locked_ok s" and q: "tlists s (Susp q) = t # ts"
  shows "dequeue_locked q e s = Some (Some t, wake_err e t s)"
proof -
  have k: "kinv (rt_spin_lock s)" and n: "1 \<le> lock_nest s" using lo by (simp_all add: locked_ok_def)
  have "rt_susp_list_dequeue q e (rt_spin_lock s) = Some (Some t, wake_err e t (rt_spin_lock s))"
    by (rule dequeue_run [OF k]) (simp add: q)
  moreover have "rt_spin_unlock (wake_err e t (rt_spin_lock s)) = Some ((wake_err e t (rt_spin_lock s))\<lparr>lock_nest := lock_nest s\<rparr>)"
    using n by (intro spin_unlock_lock) simp_all
  moreover have "(wake_err e t (rt_spin_lock s))\<lparr>lock_nest := lock_nest s\<rparr> = wake_err e t s"
    by (simp add: rt_spin_lock_def rt_enter_critical_def wake_err_nest [symmetric])
  ultimately show ?thesis by (simp add: dequeue_locked_def)
qed

lemma resume_all_irq_run:
  "locked_ok s \<Longrightarrow> rt_susp_list_resume_all_irq q e s = Some (wake_all e (tlists s (Susp q)) s)"
proof (induction "tlists s (Susp q)" arbitrary: s)
  case Nil
  have k: "kinv (rt_spin_lock s)" and n: "1 \<le> lock_nest s" using Nil.prems by (simp_all add: locked_ok_def)
  have "rt_spin_unlock (rt_spin_lock s) = Some s" using Nil.prems by (simp add: locked_ok_def)
  then show ?case using Nil.hyps by (subst rt_susp_list_resume_all_irq.simps) (simp add: dequeue_locked_def)
next
  case (Cons t ts)
  have k: "kinv s" using Cons.prems by (simp add: locked_ok_def)
  have d: "distinct (t # ts)" using store_okD(1) [OF kinv_store [OF k], of "Susp q"] Cons.hyps(2) by simp
  have su: "susp_stat (tcbs s t)" using kinv_queue_susp [OF k, of t q] Cons.hyps(2) [symmetric] by simp
  have q: "tlists (wake_err e t s) (Susp q) = ts" using Cons.hyps(2) [symmetric] d by simp
  have "locked_ok (wake_err e t s)" by (rule locked_ok_update [OF Cons.prems kinv_wake_err [OF k su]]) simp_all
  from Cons.hyps(1) [OF q [symmetric] this] have
    "rt_susp_list_resume_all_irq q e (wake_err e t s) = Some (wake_all e ts (wake_err e t s))" using q by simp
  then show ?case
    by (subst rt_susp_list_resume_all_irq.simps)
      (simp add: dequeue_locked_run [OF Cons.prems Cons.hyps(2) [symmetric]] Cons.hyps(2) [symmetric])
qed

text \<open>
  Resetting a data queue empties it and releases every thread that waits on it, poppers and pushers, and no other: both queues of
  waiting threads are empty, and the pending calls return the bare \<open>RT_ERROR\<close>, a positive number, while all other errors are negative.
\<close>
theorem rt_data_queue_reset_releases:
  assumes k: "kinv s" and c: "current s \<noteq> None" and ok: "dq_ok q"
  shows "\<exists>q' s'. rt_data_queue_reset i (q, s) = Some (q', s') \<and> dq_ok q' \<and> dq_content q' = [] \<and>
    released (waiter (DqPopQ i) (DqPushQ i) s) s s' \<and> tlists s' (Susp (DqPopQ i)) = [] \<and> tlists s' (Susp (DqPushQ i)) = [] \<and>
    (\<forall>t timeout item. waiter (DqPopQ i) (DqPushQ i) s t \<longrightarrow>
       data_queue_pop_resume i t timeout (q', s') = Some (Returned ((RT_ERROR, None), None), q', s') \<and>
       data_queue_push_resume i t item timeout (q', s') = Some (Returned (RT_ERROR, None), q', s'))"
proof -
  let ?s1 = "rt_enter_critical s" and ?q = "q\<lparr>dq_get := 0, dq_put := 0, dq_empty := True, dq_full := False\<rparr>"
  have m: "dq_magic q = DATAQUEUE_MAGIC" using ok by (simp add: dq_ok_def)
  have lo: "locked_ok ?s1" and c1: "current ?s1 \<noteq> None" using k c by (simp_all add: enter_critical_lock)
  from resume_both_run [OF lo c1, of "DqPopQ i" "DqPushQ i"] obtain r where r:
    "resume_both (DqPopQ i) (DqPushQ i) ?s1 = Some r" "locked_ok r" "current r = current s"
    "woken (waiter (DqPopQ i) (DqPushQ i) s) RT_ERROR s r"
    unfolding waiter_def [abs_def] by (auto simp: enter_critical_lock woken_lock)
  note A = wake_all_and_switch [OF lo c1, where q = "DqPopQ i" and e = RT_ERROR]
  let ?s2 = "wake_all RT_ERROR (tlists ?s1 (Susp (DqPopQ i))) ?s1"
  have c2: "current ?s2 \<noteq> None" using c1 by simp
  note B = wake_all_and_switch [OF A(2) c2, where q = "DqPushQ i" and e = RT_ERROR]
  have run: "rt_susp_list_resume_all_irq (DqPopQ i) RT_ERROR ?s1 = Some ?s2" "rt_susp_list_resume_all_irq (DqPushQ i) RT_ERROR ?s2 = Some r"
    using resume_all_irq_run [OF lo] resume_all_irq_run [OF A(2), of "DqPushQ i" RT_ERROR] r(1) A(1) B(1) by (simp_all add: resume_both_def)
  note U = locked_ok_unlock [OF r(2)]
  obtain s' where s': "rt_schedule (r\<lparr>lock_nest := lock_nest r - 1\<rparr>) = Some s'" "kinv s'" "same_ipc (r\<lparr>lock_nest := lock_nest r - 1\<rparr>) s'"
    using rt_schedule_total [OF U(2)] c r(3) by auto
  have "rt_data_queue_reset i (q, s) = Some (?q, s')"
    using m k run U(1) s'(1) by (simp add: rt_data_queue_reset_def exit_critical_unlock)
  moreover have "dq_ok ?q" "dq_content ?q = []"
    using ok by (auto simp: dq_ok_def dq_wf_def dq_count_def)
  moreover have R: "released (waiter (DqPopQ i) (DqPushQ i) s) s s'" "tlists s' (Susp (DqPopQ i)) = []" "tlists s' (Susp (DqPushQ i)) = []"
    using reset_released [OF r(4) s'(2) _ _ s'(3)] by simp_all
  moreover have "t_error (tcbs s' t) \<noteq> RT_EOK \<and> t_error (tcbs s' t) = RT_ERROR" if "waiter (DqPopQ i) (DqPushQ i) s t" for t
    using R(1) that by (simp add: released_def)
  ultimately show ?thesis using data_queue_resume_error [OF s'(2)] by (intro exI [of _ ?q] exI [of _ s']) auto
qed

subsection \<open>Instances\<close>

definition demo_dq :: rt_data_queue where
  \<comment> \<open>two places, one item\<close>
  "demo_dq = \<lparr>dq_magic = DATAQUEUE_MAGIC, dq_size = 2, dq_lwm = 0, dq_get = 1, dq_empty = False, dq_put = 0, dq_full = False,
     dq_queue = [\<lparr>di_ptr = 0, di_size = 0\<rparr>, \<lparr>di_ptr = 5, di_size = 6\<rparr>], dq_notify = True\<rparr>"

lemma demo_dq_ok: "dq_ok demo_dq" "dq_content demo_dq = [\<lparr>di_ptr = 5, di_size = 6\<rparr>]"
  by (simp_all add: dq_ok_def dq_wf_def demo_dq_def dq_content_def dq_count_def ring_def)

lemma demo_dq_fields: "dq_size demo_dq = 2" "dq_lwm demo_dq = 0" "dq_notify demo_dq"
  by (simp_all add: demo_dq_def)

lemma demo_wait_current: "current (demo_wait q) = Some 1" "can_wait 1 50 (demo_wait q)"
  using kinv_demo [of q] demo_wait_running [of q] by (simp_all add: can_wait_def HALF_TICKS_val)

theorem rt_data_queue_push_branches_witness:
  "\<exists>q' s'. rt_data_queue_push 4 \<lparr>di_ptr = 7, di_size = 8\<rparr> 50 (demo_dq, demo_wait (DqPopQ 4)) = Some (Returned (RT_EOK, None), q', s') \<and>
     dq_content q' = [\<lparr>di_ptr = 5, di_size = 6\<rparr>, \<lparr>di_ptr = 7, di_size = 8\<rparr>] \<and> \<not> susp_stat (tcbs s' 3)"
  using rt_data_queue_push_branches [OF kinv_demo [of "DqPopQ 4"] demo_wait_current demo_dq_ok(1), where i = 4 and item = "\<lparr>di_ptr = 7, di_size = 8\<rparr>"]
  unfolding demo_dq_ok(2) by (auto simp: dq_wake_def first_of_def demo_dq_fields)

theorem rt_data_queue_pop_branches_witness:
  "\<exists>q' s'. rt_data_queue_pop 4 50 (demo_dq, demo_wait (DqPushQ 4)) =
       Some (Returned ((RT_EOK, Some \<lparr>di_ptr = 5, di_size = 6\<rparr>), Some RT_DATAQUEUE_EVENT_LWM), q', s') \<and>
     dq_content q' = [] \<and> \<not> susp_stat (tcbs s' 3)"
  using rt_data_queue_pop_branches [OF kinv_demo [of "DqPushQ 4"] demo_wait_current demo_dq_ok(1), where i = 4]
  unfolding demo_dq_ok(2) by (auto simp: dq_wake_def first_of_def demo_dq_fields)


theorem rt_data_queue_reset_releases_witness:
  "\<exists>q' s'. rt_data_queue_reset 4 (demo_dq, demo_wait (DqPopQ 4)) = Some (q', s') \<and> dq_content q' = [] \<and>
     data_queue_pop_resume 4 3 50 (q', s') = Some (Returned ((1, None), None), q', s')"
proof -
  have "waiter (DqPopQ 4) (DqPushQ 4) (demo_wait (DqPopQ 4)) 3" by (simp add: waiter_def)
  with rt_data_queue_reset_releases [OF kinv_demo [of "DqPopQ 4"] _ demo_dq_ok(1), of 4] show ?thesis
    by (auto simp: RT_ERROR_def)
qed

end
