(* ===== verification/WaitQueue.thy ===== *)
theory WaitQueue
  imports Completion
begin

text \<open>
  Wait queues of the device drivers (components/drivers/ipc/waitqueue.c): threads that wait for a condition, woken one by one or all
  together, each through the wake-up function of its node. The queues and nodes are a state of their own beside the kernel state.
  The wake-up functions of the drivers are a parameter: what function \<open>f\<close> of node \<open>n\<close> returns for a key. Function 0 is
  \<open>__wqueue_default_wake\<close>. A thread in \<open>rt_wqueue_wait\<close> has a node of its own, which the caller of the definition names.
\<close>

record rt_wqueue_node =
  wn_thread :: nat
  wn_wqueue :: "nat option"
  wn_func :: nat
  wn_key :: u32

record wqst =
  wq_flag :: "nat \<Rightarrow> u32"
  wq_list :: "(nat, nat) store"
  wq_node :: "nat \<Rightarrow> rt_wqueue_node"

definition RT_WQ_FLAG_CLEAN :: u32 where "RT_WQ_FLAG_CLEAN = 0x00"
definition RT_WQ_FLAG_WAKEUP :: u32 where "RT_WQ_FLAG_WAKEUP = 0x01"

type_synonym 'k wake_funcs = "nat \<Rightarrow> nat \<Rightarrow> 'k \<Rightarrow> int"

definition wqueue_default_wake :: "nat \<Rightarrow> 'k \<Rightarrow> int" where
  "wqueue_default_wake wait key = 0"

definition call_wakeup :: "'k wake_funcs \<Rightarrow> nat \<Rightarrow> 'k \<Rightarrow> wqst \<Rightarrow> int" where
  \<comment> \<open>\<open>entry->wakeup(entry, key)\<close>\<close>
  "call_wakeup wk n key w = (if wn_func (wq_node w n) = 0 then wqueue_default_wake n key else wk (wn_func (wq_node w n)) n key)"

definition rt_wqueue_init :: "nat \<Rightarrow> wqst \<Rightarrow> wqst" where
  "rt_wqueue_init q w = w\<lparr>wq_flag := (wq_flag w)(q := RT_WQ_FLAG_CLEAN), wq_list := (wq_list w)(q := [])\<rparr>"

definition rt_wqueue_add :: "nat \<Rightarrow> nat \<Rightarrow> wqst \<times> kst \<Rightarrow> (wqst \<times> kst) option" where
  "rt_wqueue_add q n ws = (case ws of (w, s) \<Rightarrow> do {
     let s = rt_spin_lock s;
     let w = w\<lparr>wq_node := (wq_node w)(n := (wq_node w n)\<lparr>wn_wqueue := Some q\<rparr>), wq_list := st_append q n (wq_list w)\<rparr>;
     s \<leftarrow> rt_spin_unlock s;
     Some (w, s)
   })"

definition rt_wqueue_remove :: "nat \<Rightarrow> wqst \<times> kst \<Rightarrow> (wqst \<times> kst) option" where
  "rt_wqueue_remove n ws = (case ws of (w, s) \<Rightarrow> do {
     rt_assert (wn_wqueue (wq_node w n) \<noteq> None);
     let s = rt_spin_lock s;
     let w = w\<lparr>wq_list := st_remove n (wq_list w)\<rparr>;
     s \<leftarrow> rt_spin_unlock s;
     Some (w, s)
   })"

fun wakeup_scan :: "'k wake_funcs \<Rightarrow> 'k \<Rightarrow> nat list \<Rightarrow> wqst \<Rightarrow> kst \<Rightarrow> (nat option \<times> kst) option" where
  \<comment> \<open>the loop of \<open>rt_wqueue_wakeup\<close>: the node whose thread was resumed\<close>
  "wakeup_scan wk key [] w s = Some (None, s)"
| "wakeup_scan wk key (n # ns) w s =
     (if call_wakeup wk n key w = 0 then do {
        let t = wn_thread (wq_node w n);
        let s = upd_tcb t (\<lambda>b. b\<lparr>t_error := RT_EOK\<rparr>) s;
        (e, s) \<leftarrow> rt_thread_resume t s;
        if e = RT_EOK then Some (Some n, s) else wakeup_scan wk key ns w s
      } else wakeup_scan wk key ns w s)"

definition rt_wqueue_wakeup :: "'k wake_funcs \<Rightarrow> nat \<Rightarrow> 'k \<Rightarrow> wqst \<times> kst \<Rightarrow> (wqst \<times> kst) option" where
  "rt_wqueue_wakeup wk q key ws = (case ws of (w, s) \<Rightarrow> do {
     let s = rt_spin_lock s;
     let w = w\<lparr>wq_flag := (wq_flag w)(q := RT_WQ_FLAG_WAKEUP)\<rparr>;
     (woken, s) \<leftarrow> wakeup_scan wk key (wq_list w q) w s;
     let w = (case woken of None \<Rightarrow> w | Some n \<Rightarrow> w\<lparr>wq_list := st_remove n (wq_list w)\<rparr>);
     s \<leftarrow> rt_spin_unlock s;
     s \<leftarrow> (if woken \<noteq> None then rt_schedule s else Some s);
     Some (w, s)
   })"

fun wakeup_each :: "'k wake_funcs \<Rightarrow> 'k \<Rightarrow> nat list \<Rightarrow> wqst \<Rightarrow> kst \<Rightarrow> (bool \<times> kst) option" where
  \<comment> \<open>the loop of \<open>rt_wqueue_wakeup_all\<close>: whether a thread was resumed\<close>
  "wakeup_each wk key [] w s = Some (False, s)"
| "wakeup_each wk key (n # ns) w s =
     (if call_wakeup wk n key w = 0 then do {
        let t = wn_thread (wq_node w n);
        let s = upd_tcb t (\<lambda>b. b\<lparr>t_error := RT_EOK\<rparr>) s;
        (e, s) \<leftarrow> rt_thread_resume t s;
        (need_schedule, s) \<leftarrow> wakeup_each wk key ns w s;
        Some (e = RT_EOK \<or> need_schedule, s)
      } else wakeup_each wk key ns w s)"

definition rt_wqueue_wakeup_all :: "'k wake_funcs \<Rightarrow> nat \<Rightarrow> 'k \<Rightarrow> wqst \<times> kst \<Rightarrow> (wqst \<times> kst) option" where
  "rt_wqueue_wakeup_all wk q key ws = (case ws of (w, s) \<Rightarrow> do {
     let s = rt_spin_lock s;
     let w = w\<lparr>wq_flag := (wq_flag w)(q := RT_WQ_FLAG_WAKEUP)\<rparr>;
     (need_schedule, s) \<leftarrow> wakeup_each wk key (wq_list w q) w s;
     s \<leftarrow> rt_spin_unlock s;
     s \<leftarrow> (if need_schedule then rt_schedule s else Some s);
     Some (w, s)
   })"

definition wqueue_finish :: "nat \<Rightarrow> nat \<Rightarrow> nat \<Rightarrow> wqst \<times> kst \<Rightarrow> (int \<times> wqst \<times> kst) option" where
  \<comment> \<open>from \<open>__exit_wakeup\<close> to the end, entered with the lock held\<close>
  "wqueue_finish t q n ws = (case ws of (w, s) \<Rightarrow> do {
     let w = w\<lparr>wq_flag := (wq_flag w)(q := RT_WQ_FLAG_CLEAN)\<rparr>;
     s \<leftarrow> rt_spin_unlock s;
     (w, s) \<leftarrow> rt_wqueue_remove n (w, s);
     let e = t_error (tcbs s t);
     Some (if e > 0 then - e else e, w, s)
   })"

definition wqueue_wait :: "nat \<Rightarrow> nat \<Rightarrow> bool \<Rightarrow> int \<Rightarrow> suspend_flag \<Rightarrow> wqst \<times> kst \<Rightarrow> (int option \<times> wqst \<times> kst) option" where
  \<comment> \<open>\<open>_rt_wqueue_wait\<close>, up to the switch (result \<open>None\<close>) or to its end; \<open>n\<close> names the node \<open>__wait\<close>\<close>
  "wqueue_wait q n condition msec suspend_flag ws = (case ws of (w, s) \<Rightarrow> do {
     rt_assert (debug_scheduler_available True s);
     let tick = sint (rt_tick_from_millisecond msec);
     if condition \<or> tick = 0 then Some (Some 0, w, s)
     else do {
       t \<leftarrow> rt_thread_self s;
       let w = w\<lparr>wq_node := (wq_node w)(n := \<lparr>wn_thread = t, wn_wqueue = Some q, wn_func = 0, wn_key = 0\<rparr>)\<rparr>;
       let s = rt_spin_lock s;
       let s = upd_tcb t (\<lambda>b. b\<lparr>t_error := RT_EOK\<rparr>) s;
       if wq_flag w q = RT_WQ_FLAG_WAKEUP then do {
         (e, w, s) \<leftarrow> wqueue_finish t q n (w, s);
         Some (Some e, w, s)
       } else do {
         (ret, s) \<leftarrow> rt_thread_suspend_with_flag t suspend_flag s;
         if ret \<noteq> RT_EOK then do {
           s \<leftarrow> rt_spin_unlock s;
           Some (Some (- RT_EINTR), w, s)
         } else do {
           let w = w\<lparr>wq_list := st_append q n (wq_list w)\<rparr>;
           s \<leftarrow> (if tick \<noteq> RT_WAITING_FOREVER then start_wait_timer t (word_of_int tick) s else Some s);
           s \<leftarrow> rt_spin_unlock s;
           s \<leftarrow> rt_schedule s;
           Some (None, w, s)
         }
       }
     }
   })"

definition wqueue_wait_resume :: "nat \<Rightarrow> nat \<Rightarrow> nat \<Rightarrow> wqst \<times> kst \<Rightarrow> (int \<times> wqst \<times> kst) option" where
  "wqueue_wait_resume t q n ws = (case ws of (w, s) \<Rightarrow> wqueue_finish t q n (w, rt_spin_lock s))"

definition rt_wqueue_wait :: "nat \<Rightarrow> nat \<Rightarrow> bool \<Rightarrow> int \<Rightarrow> wqst \<times> kst \<Rightarrow> (int option \<times> wqst \<times> kst) option" where
  "rt_wqueue_wait q n condition msec = wqueue_wait q n condition msec RT_UNINTERRUPTIBLE"

definition rt_wqueue_wait_killable :: "nat \<Rightarrow> nat \<Rightarrow> bool \<Rightarrow> int \<Rightarrow> wqst \<times> kst \<Rightarrow> (int option \<times> wqst \<times> kst) option" where
  "rt_wqueue_wait_killable q n condition msec = wqueue_wait q n condition msec RT_KILLABLE"

definition rt_wqueue_wait_interruptible :: "nat \<Rightarrow> nat \<Rightarrow> bool \<Rightarrow> int \<Rightarrow> wqst \<times> kst \<Rightarrow> (int option \<times> wqst \<times> kst) option" where
  "rt_wqueue_wait_interruptible q n condition msec = wqueue_wait q n condition msec RT_INTERRUPTIBLE"


subsection \<open>Waking\<close>

definition accepts :: "'k wake_funcs \<Rightarrow> 'k \<Rightarrow> wqst \<Rightarrow> kst \<Rightarrow> nat \<Rightarrow> bool" where
  \<comment> \<open>the node's function agrees, and its thread is suspended\<close>
  "accepts wk key w s n \<longleftrightarrow> call_wakeup wk n key w = 0 \<and> susp_stat (tcbs s (wn_thread (wq_node w n)))"

definition nodes_ok :: "wqst \<Rightarrow> nat list \<Rightarrow> kst \<Rightarrow> bool" where
  "nodes_ok w ns s \<longleftrightarrow> (\<forall>n \<in> set ns. rt_object_get_type (OThread (wn_thread (wq_node w n))) s = RT_Object_Class_Thread)"

definition in_lock :: "kst \<Rightarrow> bool" where
  "in_lock s \<longleftrightarrow> kinv s \<and> 1 \<le> lock_nest s \<and> current s \<noteq> None"

definition lock_frame :: "kst \<Rightarrow> kst \<Rightarrow> bool" where
  "lock_frame s s' \<longleftrightarrow> lock_nest s' = lock_nest s \<and> (\<forall>r. rt_object_get_type r s' = rt_object_get_type r s)"

lemma in_lock_error [simp]: "in_lock (upd_tcb t (\<lambda>b. b\<lparr>t_error := e\<rparr>) s) = in_lock s"
  by (simp add: in_lock_def)

lemma nodes_ok_Cons: "nodes_ok w (n # ns) s \<longleftrightarrow>
    rt_object_get_type (OThread (wn_thread (wq_node w n))) s = RT_Object_Class_Thread \<and> nodes_ok w ns s"
  by (simp add: nodes_ok_def)

lemma nodes_ok_frame: "lock_frame s s' \<Longrightarrow> nodes_ok w ns s \<Longrightarrow> nodes_ok w ns s'"
  by (simp add: nodes_ok_def lock_frame_def)

lemma resume_node:
  assumes l: "in_lock s" and ty: "rt_object_get_type (OThread t) s = RT_Object_Class_Thread"
  defines "s0 \<equiv> upd_tcb t (\<lambda>b. b\<lparr>t_error := RT_EOK\<rparr>) s"
  shows "\<exists>e s'. rt_thread_resume t s0 = Some (e, s') \<and> (e = RT_EOK \<longleftrightarrow> susp_stat (tcbs s t)) \<and> in_lock s' \<and> lock_frame s s' \<and>
    \<not> susp_stat (tcbs s' t) \<and> t_error (tcbs s' t) = RT_EOK \<and>
    (\<forall>u. u \<noteq> t \<longrightarrow> susp_stat (tcbs s' u) = susp_stat (tcbs s u) \<and> t_error (tcbs s' u) = t_error (tcbs s u))"
proof -
  have h: "kinv s0" "1 \<le> lock_nest s0" "current s0 \<noteq> None" "rt_object_get_type (OThread t) s0 = RT_Object_Class_Thread"
    using l ty by (simp_all add: s0_def in_lock_def)
  note R = resume_locked [OF h]
  show ?thesis
  proof (cases "susp_stat (tcbs s t)")
    case True
    then have su: "susp_stat (tcbs s0 t)" by (simp add: s0_def)
    then show ?thesis
      using R(1) R(2) [OF su] h
      by (intro exI [of _ RT_EOK] exI [of _ "resumed t s0"]) (auto simp: in_lock_def lock_frame_def s0_def)
  next
    case False
    then show ?thesis
      using R(1) h by (intro exI [of _ "- RT_EINVAL"] exI [of _ s0]) (auto simp: in_lock_def lock_frame_def s0_def err_defs)
  qed
qed

lemma lock_frame_trans: "lock_frame s s1 \<Longrightarrow> lock_frame s1 s2 \<Longrightarrow> lock_frame s s2"
  by (simp add: lock_frame_def)

lemma wakeup_scan_run:
  "in_lock s \<Longrightarrow> nodes_ok w ns s \<Longrightarrow>
   \<exists>s'. wakeup_scan wk key ns w s = Some (find (accepts wk key w s) ns, s') \<and> in_lock s' \<and> lock_frame s s' \<and>
     (\<forall>n. find (accepts wk key w s) ns = Some n \<longrightarrow>
        \<not> susp_stat (tcbs s' (wn_thread (wq_node w n))) \<and> t_error (tcbs s' (wn_thread (wq_node w n))) = RT_EOK) \<and>
     (\<forall>u. (\<forall>n. find (accepts wk key w s) ns = Some n \<longrightarrow> wn_thread (wq_node w n) \<noteq> u) \<longrightarrow>
        susp_stat (tcbs s' u) = susp_stat (tcbs s u))"
proof (induction ns arbitrary: s)
  case Nil
  then show ?case by (simp add: lock_frame_def)
next
  case (Cons n ns)
  let ?t = "wn_thread (wq_node w n)"
  have ty: "rt_object_get_type (OThread ?t) s = RT_Object_Class_Thread" and ok: "nodes_ok w ns s"
    using Cons.prems(2) by (simp_all add: nodes_ok_Cons)
  show ?case
  proof (cases "call_wakeup wk n key w = 0")
    case False
    then show ?thesis using Cons.IH [OF Cons.prems(1) ok] by (simp add: accepts_def)
  next
    case True
    obtain e s1 where s1: "rt_thread_resume ?t (upd_tcb ?t (\<lambda>b. b\<lparr>t_error := RT_EOK\<rparr>) s) = Some (e, s1)"
      "e = RT_EOK \<longleftrightarrow> susp_stat (tcbs s ?t)" "in_lock s1" "lock_frame s s1" "\<not> susp_stat (tcbs s1 ?t)" "t_error (tcbs s1 ?t) = RT_EOK"
      "\<forall>u. u \<noteq> ?t \<longrightarrow> susp_stat (tcbs s1 u) = susp_stat (tcbs s u) \<and> t_error (tcbs s1 u) = t_error (tcbs s u)"
      using resume_node [OF Cons.prems(1) ty] by blast
    show ?thesis
    proof (cases "susp_stat (tcbs s ?t)")
      case su: True
      then have "find (accepts wk key w s) (n # ns) = Some n" using True by (simp add: accepts_def)
      then show ?thesis using True su s1 by (intro exI [of _ s1]) (auto simp: Let_def)
    next
      case False
      then have same: "susp_stat (tcbs s1 u) = susp_stat (tcbs s u)" for u using s1(5,7) by (cases "u = ?t") auto
      then have a: "accepts wk key w s1 = accepts wk key w s" by (simp add: accepts_def fun_eq_iff)
      have f: "find (accepts wk key w s) (n # ns) = find (accepts wk key w s) ns" using False by (simp add: accepts_def)
      from Cons.IH [OF s1(3) nodes_ok_frame [OF s1(4) ok]] s1(1,2,4) True False show ?thesis
        unfolding a f same by (auto simp: Let_def intro: lock_frame_trans)
    qed
  qed
qed

lemma wakeup_each_run:
  "in_lock s \<Longrightarrow> nodes_ok w ns s \<Longrightarrow>
   \<exists>b s'. wakeup_each wk key ns w s = Some (b, s') \<and> in_lock s' \<and> lock_frame s s' \<and>
     (b \<longleftrightarrow> (\<exists>n \<in> set ns. accepts wk key w s n)) \<and>
     (\<forall>n \<in> set ns. call_wakeup wk n key w = 0 \<longrightarrow> t_error (tcbs s' (wn_thread (wq_node w n))) = RT_EOK) \<and>
     (\<forall>u. susp_stat (tcbs s' u) \<longleftrightarrow> susp_stat (tcbs s u) \<and> (\<forall>n \<in> set ns. call_wakeup wk n key w = 0 \<longrightarrow> wn_thread (wq_node w n) \<noteq> u)) \<and>
     (\<forall>u. (\<forall>n \<in> set ns. call_wakeup wk n key w = 0 \<longrightarrow> wn_thread (wq_node w n) \<noteq> u) \<longrightarrow> t_error (tcbs s' u) = t_error (tcbs s u))"
proof (induction ns arbitrary: s)
  case Nil
  then show ?case by (auto simp: lock_frame_def)
next
  case (Cons n ns)
  let ?t = "wn_thread (wq_node w n)"
  have ty: "rt_object_get_type (OThread ?t) s = RT_Object_Class_Thread" and ok: "nodes_ok w ns s"
    using Cons.prems(2) by (simp_all add: nodes_ok_Cons)
  show ?case
  proof (cases "call_wakeup wk n key w = 0")
    case False
    then show ?thesis using Cons.IH [OF Cons.prems(1) ok] by (auto simp: accepts_def)
  next
    case True
    obtain e s1 where s1: "rt_thread_resume ?t (upd_tcb ?t (\<lambda>b. b\<lparr>t_error := RT_EOK\<rparr>) s) = Some (e, s1)"
      "e = RT_EOK \<longleftrightarrow> susp_stat (tcbs s ?t)" "in_lock s1" "lock_frame s s1" "\<not> susp_stat (tcbs s1 ?t)" "t_error (tcbs s1 ?t) = RT_EOK"
      "\<And>u. u \<noteq> ?t \<Longrightarrow> susp_stat (tcbs s1 u) = susp_stat (tcbs s u) \<and> t_error (tcbs s1 u) = t_error (tcbs s u)"
      using resume_node [OF Cons.prems(1) ty] by blast
    obtain b s' where s': "wakeup_each wk key ns w s1 = Some (b, s')" "in_lock s'" "lock_frame s1 s'"
      "b \<longleftrightarrow> (\<exists>n \<in> set ns. accepts wk key w s1 n)"
      "\<forall>n \<in> set ns. call_wakeup wk n key w = 0 \<longrightarrow> t_error (tcbs s' (wn_thread (wq_node w n))) = RT_EOK"
      "\<And>u. susp_stat (tcbs s' u) \<longleftrightarrow> susp_stat (tcbs s1 u) \<and> (\<forall>n \<in> set ns. call_wakeup wk n key w = 0 \<longrightarrow> wn_thread (wq_node w n) \<noteq> u)"
      "\<And>u. (\<forall>n \<in> set ns. call_wakeup wk n key w = 0 \<longrightarrow> wn_thread (wq_node w n) \<noteq> u) \<Longrightarrow> t_error (tcbs s' u) = t_error (tcbs s1 u)"
      using Cons.IH [OF s1(3) nodes_ok_frame [OF s1(4) ok]] by blast
    have run: "wakeup_each wk key (n # ns) w s = Some (e = RT_EOK \<or> b, s')" using True s1(1) s'(1) by (simp add: Let_def)
    have 1: "(e = RT_EOK \<or> b) \<longleftrightarrow> (\<exists>m \<in> set (n # ns). accepts wk key w s m)"
      using s1(2,5) s1(7) s'(4) True by (auto simp: accepts_def) metis+
    have 2: "t_error (tcbs s' ?t) = RT_EOK"
    proof (cases "\<exists>m \<in> set ns. call_wakeup wk m key w = 0 \<and> wn_thread (wq_node w m) = ?t")
      case True
      then show ?thesis using s'(5) by metis
    next
      case False
      then show ?thesis using s'(7) [of ?t] s1(6) by auto
    qed
    have 3: "susp_stat (tcbs s' u) \<longleftrightarrow> susp_stat (tcbs s u) \<and> (\<forall>m \<in> set (n # ns). call_wakeup wk m key w = 0 \<longrightarrow> wn_thread (wq_node w m) \<noteq> u)" for u
      using s'(6) [of u] s1(5) s1(7) [of u] True by (cases "u = ?t") auto
    have 4: "t_error (tcbs s' u) = t_error (tcbs s u)" if "\<forall>m \<in> set (n # ns). call_wakeup wk m key w = 0 \<longrightarrow> wn_thread (wq_node w m) \<noteq> u" for u
      using s'(7) [of u] s1(7) [of u] that True by auto
    show ?thesis
      unfolding run using 1 2 3 4 s'(2,5) lock_frame_trans [OF s1(4) s'(3)] by (intro exI [of _ "e = RT_EOK \<or> b"] exI [of _ s']) simp
  qed
qed


lemma in_lock_lock: "kinv s \<Longrightarrow> current s \<noteq> None \<Longrightarrow> in_lock (rt_spin_lock s)"
  using kinvD(2) [of s] by (simp add: in_lock_def crit_ok_def)

lemma leave_lock:
  assumes "in_lock s"
  shows "\<exists>s1 s2. rt_spin_unlock s = Some s1 \<and> rt_schedule s1 = Some s2 \<and> kinv s1 \<and> kinv s2 \<and> same_ipc s s1 \<and> same_ipc s s2"
proof -
  obtain s1 where s1: "rt_spin_unlock s = Some s1" "kinv s1" "same_ipc s s1" and l: "lock_nest s1 = lock_nest s - 1"
    using unlock_any assms by (auto simp: in_lock_def)
  have "current s1 \<noteq> None"
  proof (cases "lock_nest s = 1 \<and> crit_flag s")
    case True
    let ?s0 = "s\<lparr>lock_nest := 0, crit_flag := False\<rparr>"
    have k0: "kinv ?s0"
      using assms by (auto simp: in_lock_def kinv_def timers_ok_def timer_list_of_def threads_ok_def thread_ok_def
          sched_inv_def crit_ok_def rt_object_get_type_def)
    have "rt_schedule ?s0 = Some s1" using s1(1) True by (simp add: rt_spin_unlock_def rt_exit_critical_def)
    then show ?thesis using assms by (auto simp: in_lock_def rt_schedule_def Let_def elim!: bind_SomeE split: if_splits)
  next
    case False
    then have "s1 = s\<lparr>lock_nest := lock_nest s - 1\<rparr>"
      using s1(1) assms spin_unlock_lock [of s "lock_nest s - 1"] by (auto simp: in_lock_def)
    then show ?thesis using assms by (simp add: in_lock_def)
  qed
  from rt_schedule_total [OF s1(2) this] obtain s2 where "rt_schedule s1 = Some s2" "kinv s2" "same_ipc s1 s2" by blast
  then show ?thesis using s1 by (auto simp: same_ipc_def)
qed

text \<open>
  \<open>rt_wqueue_wakeup\<close> wakes exactly one thread if it can: of the nodes in their order of arrival, the first whose wake-up function
  agrees and whose thread is still suspended. That thread is awake, its wait returns 0, and its node is off the queue; no other thread is
  woken. The queue is marked, so that without such a node the next wait returns at once.
\<close>
theorem rt_wqueue_wakeup_first:
  assumes k: "kinv s" and c: "current s \<noteq> None" and ok: "nodes_ok w (wq_list w q) s"
  shows "\<exists>w' s'. rt_wqueue_wakeup wk q key (w, s) = Some (w', s') \<and> kinv s' \<and> wq_flag w' q = RT_WQ_FLAG_WAKEUP \<and>
    (case find (accepts wk key w s) (wq_list w q) of
       None \<Rightarrow> wq_list w' = wq_list w \<and> (\<forall>u. susp_stat (tcbs s' u) = susp_stat (tcbs s u))
     | Some n \<Rightarrow> wq_list w' = st_remove n (wq_list w) \<and> \<not> susp_stat (tcbs s' (wn_thread (wq_node w n))) \<and>
         t_error (tcbs s' (wn_thread (wq_node w n))) = RT_EOK \<and>
         (\<forall>u. u \<noteq> wn_thread (wq_node w n) \<longrightarrow> susp_stat (tcbs s' u) = susp_stat (tcbs s u)))"
proof -
  let ?w = "w\<lparr>wq_flag := (wq_flag w)(q := RT_WQ_FLAG_WAKEUP)\<rparr>" and ?s = "rt_spin_lock s"
  have ok': "nodes_ok ?w (wq_list w q) ?s" using ok by (simp add: nodes_ok_def)
  have a: "accepts wk key ?w ?s = accepts wk key w s" by (simp add: accepts_def call_wakeup_def fun_eq_iff)
  let ?f = "find (accepts wk key w s) (wq_list w q)"
  obtain s1 where s1: "wakeup_scan wk key (wq_list w q) ?w ?s = Some (?f, s1)" "in_lock s1" "lock_frame ?s s1"
    "\<forall>n. ?f = Some n \<longrightarrow> \<not> susp_stat (tcbs s1 (wn_thread (wq_node w n))) \<and> t_error (tcbs s1 (wn_thread (wq_node w n))) = RT_EOK"
    "\<forall>u. (\<forall>n. ?f = Some n \<longrightarrow> wn_thread (wq_node w n) \<noteq> u) \<longrightarrow> susp_stat (tcbs s1 u) = susp_stat (tcbs s u)"
    using wakeup_scan_run [OF in_lock_lock [OF k c] ok', of wk key] unfolding a by auto
  obtain s2 s3 where U: "rt_spin_unlock s1 = Some s2" "rt_schedule s2 = Some s3" "kinv s2" "kinv s3" "same_ipc s1 s2" "same_ipc s1 s3"
    using leave_lock [OF s1(2)] by blast
  show ?thesis
  proof (cases ?f)
    case None
    then show ?thesis using s1(1,5) U(1,3,5) by (auto simp: rt_wqueue_wakeup_def same_ipc_def)
  next
    case (Some n)
    then show ?thesis using s1(1,4,5) U(1,2,4,6) by (auto simp: rt_wqueue_wakeup_def same_ipc_def)
  qed
qed

text \<open>
  \<open>rt_wqueue_wakeup_all\<close> wakes every thread with a node on the queue whose wake-up function agrees, and no other; each of these
  waits returns 0. The nodes stay on the queue until their threads run.
\<close>
theorem rt_wqueue_wakeup_all_wakes:
  assumes k: "kinv s" and c: "current s \<noteq> None" and ok: "nodes_ok w (wq_list w q) s"
  shows "\<exists>w' s'. rt_wqueue_wakeup_all wk q key (w, s) = Some (w', s') \<and> kinv s' \<and> wq_flag w' q = RT_WQ_FLAG_WAKEUP \<and>
    wq_list w' = wq_list w \<and>
    (\<forall>n \<in> set (wq_list w q). call_wakeup wk n key w = 0 \<longrightarrow>
       \<not> susp_stat (tcbs s' (wn_thread (wq_node w n))) \<and> t_error (tcbs s' (wn_thread (wq_node w n))) = RT_EOK) \<and>
    (\<forall>u. (\<forall>n \<in> set (wq_list w q). call_wakeup wk n key w = 0 \<longrightarrow> wn_thread (wq_node w n) \<noteq> u) \<longrightarrow>
       susp_stat (tcbs s' u) = susp_stat (tcbs s u) \<and> t_error (tcbs s' u) = t_error (tcbs s u))"
proof -
  let ?w = "w\<lparr>wq_flag := (wq_flag w)(q := RT_WQ_FLAG_WAKEUP)\<rparr>" and ?s = "rt_spin_lock s"
  have ok': "nodes_ok ?w (wq_list w q) ?s" using ok by (simp add: nodes_ok_def)
  have cw: "call_wakeup wk n key ?w = call_wakeup wk n key w" for n by (simp add: call_wakeup_def)
  obtain b s1 where s1: "wakeup_each wk key (wq_list w q) ?w ?s = Some (b, s1)" "in_lock s1"
    "\<forall>n \<in> set (wq_list w q). call_wakeup wk n key w = 0 \<longrightarrow> t_error (tcbs s1 (wn_thread (wq_node w n))) = RT_EOK"
    "\<forall>u. susp_stat (tcbs s1 u) \<longleftrightarrow> susp_stat (tcbs s u) \<and> (\<forall>n \<in> set (wq_list w q). call_wakeup wk n key w = 0 \<longrightarrow> wn_thread (wq_node w n) \<noteq> u)"
    "\<forall>u. (\<forall>n \<in> set (wq_list w q). call_wakeup wk n key w = 0 \<longrightarrow> wn_thread (wq_node w n) \<noteq> u) \<longrightarrow> t_error (tcbs s1 u) = t_error (tcbs s u)"
    using wakeup_each_run [OF in_lock_lock [OF k c] ok', of wk key] unfolding cw by auto
  obtain s2 s3 where U: "rt_spin_unlock s1 = Some s2" "rt_schedule s2 = Some s3" "kinv s2" "kinv s3" "same_ipc s1 s2" "same_ipc s1 s3"
    using leave_lock [OF s1(2)] by blast
  let ?s' = "if b then s3 else s2"
  have s': "kinv ?s'" "same_ipc s1 ?s'" using U by simp_all
  have "rt_wqueue_wakeup_all wk q key (w, s) = Some (?w, ?s')" using s1(1) U(1,2) by (simp add: rt_wqueue_wakeup_all_def)
  moreover have "susp_stat (tcbs ?s' u) = susp_stat (tcbs s1 u) \<and> t_error (tcbs ?s' u) = t_error (tcbs s1 u)" for u
    using s'(2) unfolding same_ipc_def by blast
  ultimately show ?thesis using s'(1) s1(3-5) by (intro exI [of _ ?w] exI [of _ ?s']) auto
qed

text \<open>
  \<open>rt_wqueue_wait\<close>. With the condition true or no time to wait the call returns 0 and changes nothing. If the queue is marked, a wake-up came
  before the wait: the mark is taken off and the call returns 0 without suspending. Otherwise the caller is suspended for the given time, or for
  ever with a negative one, with its node at the end of the queue.
\<close>
theorem wqueue_wait_branches:
  assumes w: "can_wait t (sint (rt_tick_from_millisecond msec)) s" and u: "unlinked n (wq_list w)"
    and f: "sint (rt_tick_from_millisecond msec) = RT_WAITING_FOREVER \<or> 0 \<le> sint (rt_tick_from_millisecond msec)"
  shows "if condition \<or> rt_tick_from_millisecond msec = 0 then wqueue_wait q n condition msec sf (w, s) = Some (Some 0, w, s)
    else if wq_flag w q = RT_WQ_FLAG_WAKEUP then
      \<exists>w'. wqueue_wait q n condition msec sf (w, s) = Some (Some 0, w', upd_tcb t (\<lambda>b. b\<lparr>t_error := RT_EOK\<rparr>) s) \<and>
        wq_list w' = wq_list w \<and> wq_flag w' = (wq_flag w)(q := RT_WQ_FLAG_CLEAN)
    else \<exists>w' s'. wqueue_wait q n condition msec sf (w, s) = Some (None, w', s') \<and>
      parks t (sint (rt_tick_from_millisecond msec)) RT_EOK s s' \<and> wq_list w' = st_append q n (wq_list w) \<and>
      wn_thread (wq_node w' n) = t \<and> wn_func (wq_node w' n) = 0 \<and> wq_flag w' = wq_flag w"
proof -
  let ?tick = "sint (rt_tick_from_millisecond msec)"
  note C = can_waitD [OF w]
  have z: "?tick = 0 \<longleftrightarrow> rt_tick_from_millisecond msec = 0" by (rule signed_eq_0_iff)
  let ?n = "\<lparr>wn_thread = t, wn_wqueue = Some q, wn_func = 0, wn_key = 0\<rparr>"
  let ?w = "w\<lparr>wq_node := (wq_node w)(n := ?n)\<rparr>"
  consider "condition \<or> ?tick = 0" | "\<not> (condition \<or> ?tick = 0)" "wq_flag w q = RT_WQ_FLAG_WAKEUP"
    | "\<not> (condition \<or> ?tick = 0)" "wq_flag w q \<noteq> RT_WQ_FLAG_WAKEUP" by blast
  then show ?thesis
  proof cases
    case 1
    then show ?thesis using C(4) unfolding wqueue_wait_def Let_def z by simp
  next
    case 2
    have k0: "kinv (upd_tcb t (\<lambda>b. b\<lparr>t_error := RT_EOK\<rparr>) s)" using C(1) by simp
    have "st_remove n (wq_list w) = wq_list w" using u by (rule st_remove_unlinked)
    then show ?thesis
      using 2 C(3,4) unlock_locked [OF k0]
      by (auto simp: wqueue_wait_def wqueue_finish_def rt_wqueue_remove_def Let_def rt_thread_self_def lock_upd_tcb err_defs z)
  next
    case 3
    let ?s0 = "upd_tcb t (\<lambda>b. b\<lparr>t_error := RT_EOK\<rparr>) s"
    have w0: "can_wait t ?tick ?s0" using w by simp
    note B = park_and_switch [OF w0, of sf]
    obtain s4 s' where s': "rt_spin_unlock (parked t sf ?tick (rt_spin_lock ?s0)) = Some s4" "rt_schedule s4 = Some s'"
      "parks t ?tick RT_EOK ?s0 s'" using B(3) by auto
    have "?tick \<noteq> RT_WAITING_FOREVER \<longleftrightarrow> ?tick > 0" using 3(1) f by (auto simp: RT_WAITING_FOREVER_def)
    then have "wqueue_wait q n condition msec sf (w, s) = Some (None, ?w\<lparr>wq_list := st_append q n (wq_list w)\<rparr>, s')"
      using 3 C B(1,2) s'(1,2) by (simp add: wqueue_wait_def Let_def rt_thread_self_def lock_upd_tcb)
    moreover have "parks t ?tick RT_EOK s s'"
    proof -
      have "stat_of (((tcbs s)(t := (tcbs s t)\<lparr>t_error := RT_EOK\<rparr>)) u) = stat_of (tcbs s u)" for u by simp
      then show ?thesis using s'(3) unfolding parks_def by auto
    qed
    ultimately show ?thesis using 3 unfolding z by auto
  qed
qed


subsection \<open>Instances\<close>

definition demo_wqst :: wqst where
  \<comment> \<open>nodes 0 and 1 of the threads 3 and 2 wait on queue 0\<close>
  "demo_wqst = \<lparr>wq_flag = (\<lambda>_. RT_WQ_FLAG_CLEAN), wq_list = (\<lambda>_. [])(0 := [0, 1]),
     wq_node = (\<lambda>n. \<lparr>wn_thread = 3 - n, wn_wqueue = Some 0, wn_func = n, wn_key = 0\<rparr>)\<rparr>"

lemma demo_wqst_nodes [simp]: "nodes_ok demo_wqst (wq_list demo_wqst q) (demo_wait p)"
  by (simp add: nodes_ok_def)

lemma demo_waiters [simp]: "susp_stat (tcbs (demo_wait p) 3)" "susp_stat (tcbs (demo_wait p) 2)"
  by (rule kinv_queue_susp [OF kinv_demo, where q = p]; simp)+

lemma demo_wqst_fields:
  "wq_list demo_wqst 0 = [0, 1]" "wn_thread (wq_node demo_wqst 0) = 3" "wn_thread (wq_node demo_wqst 1) = 2"
  "st_remove 0 (wq_list demo_wqst) 0 = [1]"
  by (simp_all add: demo_wqst_def st_remove_def)

definition demo_wk :: "bool wake_funcs" where
  "demo_wk f n key = (if key then 0 else 1)"

lemma demo_wk_calls:
  "call_wakeup demo_wk 0 key demo_wqst = 0" "call_wakeup demo_wk 1 False demo_wqst = 1"
  by (simp_all add: call_wakeup_def wqueue_default_wake_def demo_wqst_def demo_wk_def)

theorem rt_wqueue_wakeup_first_witness:
  "\<exists>w' s'. rt_wqueue_wakeup demo_wk 0 True (demo_wqst, demo_wait (SemQ 7)) = Some (w', s') \<and>
     wq_list w' 0 = [1] \<and> \<not> susp_stat (tcbs s' 3) \<and> susp_stat (tcbs s' 2)"
proof -
  let ?s = "demo_wait (SemQ 7)"
  have "accepts demo_wk True demo_wqst ?s 0" by (simp add: accepts_def demo_wk_calls demo_wqst_fields)
  then have f: "find (accepts demo_wk True demo_wqst ?s) (wq_list demo_wqst 0) = Some 0" by (simp add: demo_wqst_fields)
  have c: "current ?s \<noteq> None" by simp
  obtain w' s' where "rt_wqueue_wakeup demo_wk 0 True (demo_wqst, ?s) = Some (w', s')"
    "wq_list w' = st_remove 0 (wq_list demo_wqst)" "\<not> susp_stat (tcbs s' 3)" "\<forall>u. u \<noteq> 3 \<longrightarrow> susp_stat (tcbs s' u) = susp_stat (tcbs ?s u)"
    using rt_wqueue_wakeup_first [OF kinv_demo c demo_wqst_nodes, of demo_wk 0 True] unfolding f option.case demo_wqst_fields(2) by blast
  then show ?thesis using demo_wqst_fields(4) by simp
qed

theorem rt_wqueue_wakeup_all_wakes_witness:
  "\<exists>w' s'. rt_wqueue_wakeup_all demo_wk 0 False (demo_wqst, demo_wait (SemQ 7)) = Some (w', s') \<and>
     \<not> susp_stat (tcbs s' 3) \<and> susp_stat (tcbs s' 2)"
proof -
  let ?s = "demo_wait (SemQ 7)"
  have c: "current ?s \<noteq> None" by simp
  obtain w' s' where r: "rt_wqueue_wakeup_all demo_wk 0 False (demo_wqst, ?s) = Some (w', s')"
    and n: "\<forall>n \<in> set (wq_list demo_wqst 0). call_wakeup demo_wk n False demo_wqst = 0 \<longrightarrow>
       \<not> susp_stat (tcbs s' (wn_thread (wq_node demo_wqst n))) \<and> t_error (tcbs s' (wn_thread (wq_node demo_wqst n))) = RT_EOK"
    and u: "\<forall>u. (\<forall>n \<in> set (wq_list demo_wqst 0). call_wakeup demo_wk n False demo_wqst = 0 \<longrightarrow> wn_thread (wq_node demo_wqst n) \<noteq> u) \<longrightarrow>
       susp_stat (tcbs s' u) = susp_stat (tcbs ?s u) \<and> t_error (tcbs s' u) = t_error (tcbs ?s u)"
    using rt_wqueue_wakeup_all_wakes [OF kinv_demo c demo_wqst_nodes, of demo_wk 0 False] by blast
  have "\<not> susp_stat (tcbs s' 3)" using n demo_wk_calls(1) by (simp add: demo_wqst_fields)
  moreover have "susp_stat (tcbs s' 2) = susp_stat (tcbs ?s 2)"
    using spec [OF u, of 2] demo_wk_calls(2) by (simp add: demo_wqst_fields)
  ultimately show ?thesis using r by simp
qed

theorem wqueue_wait_branches_witness:
  "\<exists>w' s'. wqueue_wait 0 5 False 50 RT_KILLABLE (demo_wqst, demo_wait (SemQ 7)) = Some (None, w', s') \<and>
     wq_list w' 0 = [0, 1, 5] \<and> susp_stat (tcbs s' 1) \<and> tm_timeout_tick (timers s' (ThreadTimer 1)) = 150"
proof -
  have m: "rt_tick_from_millisecond 50 = 50" by (simp add: rt_tick_from_millisecond_def)
  then have t: "sint (rt_tick_from_millisecond 50) = 50" by simp
  have "wq_flag demo_wqst 0 \<noteq> RT_WQ_FLAG_WAKEUP" "wq_list demo_wqst 0 = [0, 1]"
    by (simp_all add: demo_wqst_def RT_WQ_FLAG_CLEAN_def RT_WQ_FLAG_WAKEUP_def)
  moreover have "unlinked 5 (wq_list demo_wqst)" by (simp add: demo_wqst_def unlinked_def)
  ultimately show ?thesis
    using wqueue_wait_branches [of 1 50 "demo_wait (SemQ 7)" 5 demo_wqst False 0 RT_KILLABLE] demo_wait_can [of "SemQ 7"] m
    unfolding t by (auto simp: parks_def)
qed

end
