(* ===== verification/WorkQueue.thy ===== *)
theory WorkQueue
  imports WaitQueue ThreadExit TimerCheck
begin

text \<open>
  Work queues (components/drivers/ipc/workqueue.c): a thread that runs submitted works one after the other, at once or after a delay.
  The queues, their two lists and the works are a state of their own beside the kernel state; \<open>wk_lists\<close> is a list store, so that
  \<open>rt_list_remove\<close> takes a work off whichever list it is on. One turn of the loop of \<open>_workqueue_thread_entry\<close> up to the call of the
  work function is \<open>workqueue_round\<close>, whose result names the call, and \<open>workqueue_called\<close> is what the thread does after it.
\<close>

record rt_work =
  wk_func :: nat
  wk_data :: nat
  wk_flags :: u16
  wk_type :: u16
  wk_timeout_tick :: u32
  wk_workqueue :: "nat option"

datatype wlist = WorkL nat | DelayedL nat

record rt_workqueue =
  wq_current :: "nat option"
  wq_sem :: nat
  wq_thread :: nat
  wq_completion :: rt_completion

record wkst =
  wk_queues :: "nat \<Rightarrow> rt_workqueue"
  wk_lists :: "(wlist, nat) store"
  wk_works :: "nat \<Rightarrow> rt_work"

definition RT_WORK_STATE_PENDING :: u16 where "RT_WORK_STATE_PENDING = 0x0001"
definition RT_WORK_STATE_SUBMITTING :: u16 where "RT_WORK_STATE_SUBMITTING = 0x0002"

abbreviation upd_work :: "nat \<Rightarrow> (rt_work \<Rightarrow> rt_work) \<Rightarrow> wkst \<Rightarrow> wkst" where
  "upd_work x f w \<equiv> w\<lparr>wk_works := (wk_works w)(x := f (wk_works w x))\<rparr>"

abbreviation upd_queue :: "nat \<Rightarrow> (rt_workqueue \<Rightarrow> rt_workqueue) \<Rightarrow> wkst \<Rightarrow> wkst" where
  "upd_queue q f w \<equiv> w\<lparr>wk_queues := (wk_queues w)(q := f (wk_queues w q))\<rparr>"

abbreviation upd_wlists :: "((wlist, nat) store \<Rightarrow> (wlist, nat) store) \<Rightarrow> wkst \<Rightarrow> wkst" where
  "upd_wlists f w \<equiv> w\<lparr>wk_lists := f (wk_lists w)\<rparr>"

definition queue_done :: "nat \<Rightarrow> wkst \<times> kst \<Rightarrow> (wkst \<times> kst) option" where
  \<comment> \<open>\<open>rt_completion_done(&(queue->wakeup_completion))\<close>\<close>
  "queue_done q ws = (case ws of (w, s) \<Rightarrow> do {
     (c, s) \<leftarrow> rt_completion_done (wq_completion (wk_queues w q)) s;
     Some (upd_queue q (\<lambda>k. k\<lparr>wq_completion := c\<rparr>) w, s)
   })"

definition rt_work_init :: "nat \<Rightarrow> nat \<Rightarrow> nat \<Rightarrow> wkst \<Rightarrow> wkst" where
  \<comment> \<open>on a work that is on no list, where \<open>rt_list_init\<close> only makes the links valid\<close>
  "rt_work_init x work_func work_data w =
     upd_work x (\<lambda>k. k\<lparr>wk_func := work_func, wk_data := work_data, wk_workqueue := None, wk_flags := 0, wk_type := 0\<rparr>) w"

definition workqueue_submit_work :: "nat \<Rightarrow> nat \<Rightarrow> u32 \<Rightarrow> wkst \<times> kst \<Rightarrow> (int \<times> wkst \<times> kst) option" where
  \<comment> \<open>\<open>_workqueue_submit_work\<close>\<close>
  "workqueue_submit_work q x ticks ws = (case ws of (w, s) \<Rightarrow> do {
     let s = rt_spin_lock s;
     let w = upd_wlists (st_remove x) w;
     let w = upd_work x (\<lambda>k. k\<lparr>wk_flags := 0\<rparr>) w;
     (err, w, s) \<leftarrow>
       (if ticks = 0 then do {
          let w = upd_wlists (st_append (WorkL q) x) w;
          let w = upd_work x (\<lambda>k. k\<lparr>wk_flags := wk_flags k OR RT_WORK_STATE_PENDING, wk_workqueue := Some q\<rparr>) w;
          (w, s) \<leftarrow> queue_done q (w, s);
          Some (RT_EOK, w, s)
        } else if ticks < HALF_TICKS then do {
          let w = upd_work x (\<lambda>k. k\<lparr>wk_flags := wk_flags k OR RT_WORK_STATE_SUBMITTING, wk_workqueue := Some q,
                                     wk_timeout_tick := rt_tick_get s + ticks\<rparr>) w;
          let later = (\<lambda>y. wk_timeout_tick (wk_works w y) - wk_timeout_tick (wk_works w x) < HALF_TICKS);
          let w = upd_wlists (\<lambda>ls. ls(DelayedL q := ins_before later x (ls (DelayedL q)))) w;
          (w, s) \<leftarrow> queue_done q (w, s);
          Some (RT_EOK, w, s)
        } else Some (- RT_ERROR, w, s));
     s \<leftarrow> rt_spin_unlock s;
     Some (err, w, s)
   })"

definition workqueue_cancel_work :: "nat \<Rightarrow> nat \<Rightarrow> wkst \<times> kst \<Rightarrow> (int \<times> wkst \<times> kst) option" where
  \<comment> \<open>\<open>_workqueue_cancel_work\<close>\<close>
  "workqueue_cancel_work q x ws = (case ws of (w, s) \<Rightarrow> do {
     let s = rt_spin_lock s;
     let w = upd_wlists (st_remove x) w;
     let w = upd_work x (\<lambda>k. k\<lparr>wk_flags := 0\<rparr>) w;
     let err = (if wq_current (wk_queues w q) \<noteq> Some x then RT_EOK else - RT_EBUSY);
     let w = upd_work x (\<lambda>k. k\<lparr>wk_workqueue := None\<rparr>) w;
     s \<leftarrow> rt_spin_unlock s;
     Some (err, w, s)
   })"

definition rt_workqueue_dowork :: "nat \<Rightarrow> nat \<Rightarrow> wkst \<times> kst \<Rightarrow> (int \<times> wkst \<times> kst) option" where
  "rt_workqueue_dowork q x ws = workqueue_submit_work q x 0 ws"

definition rt_workqueue_submit_work :: "nat \<Rightarrow> nat \<Rightarrow> u32 \<Rightarrow> wkst \<times> kst \<Rightarrow> (int \<times> wkst \<times> kst) option" where
  "rt_workqueue_submit_work q x ticks ws = do {
     rt_assert (ticks < HALF_TICKS);
     workqueue_submit_work q x ticks ws
   }"

definition rt_workqueue_urgent_work :: "nat \<Rightarrow> nat \<Rightarrow> wkst \<times> kst \<Rightarrow> (int \<times> wkst \<times> kst) option" where
  "rt_workqueue_urgent_work q x ws = (case ws of (w, s) \<Rightarrow> do {
     let s = rt_spin_lock s;
     let w = upd_wlists (st_remove x) w;
     let w = upd_wlists (st_push (WorkL q) x) w;
     (w, s) \<leftarrow> queue_done q (w, s);
     s \<leftarrow> rt_spin_unlock s;
     Some (RT_EOK, w, s)
   })"

definition rt_workqueue_cancel_work :: "nat \<Rightarrow> nat \<Rightarrow> wkst \<times> kst \<Rightarrow> (int \<times> wkst \<times> kst) option" where
  "rt_workqueue_cancel_work q x ws = workqueue_cancel_work q x ws"

definition rt_workqueue_cancel_work_sync :: "nat \<Rightarrow> nat \<Rightarrow> wkst \<times> kst \<Rightarrow> (int option \<times> wkst \<times> kst) option" where
  \<comment> \<open>\<open>None\<close>: the caller waits on the semaphore until the running work has ended\<close>
  "rt_workqueue_cancel_work_sync q x ws = (case ws of (w, s) \<Rightarrow>
     if wq_current (wk_queues w q) = Some x then do {
       (r, s) \<leftarrow> rt_sem_take (wq_sem (wk_queues w q)) RT_WAITING_FOREVER s;
       Some (if r = None then None else Some RT_EOK, w, s)
     } else do {
       (_, w, s) \<leftarrow> workqueue_cancel_work q x (w, s);
       Some (Some RT_EOK, w, s)
     })"

partial_function (option) cancel_list :: "nat \<Rightarrow> wlist \<Rightarrow> wkst \<times> kst \<Rightarrow> (wkst \<times> kst) option" where
  \<comment> \<open>a loop of \<open>rt_workqueue_cancel_all_work\<close>\<close>
  "cancel_list q l ws =
     (if wk_lists (fst ws) l = [] then Some ws
      else do {
        (_, ws) \<leftarrow> workqueue_cancel_work q (hd (wk_lists (fst ws) l)) ws;
        cancel_list q l ws
      })"

definition rt_workqueue_cancel_all_work :: "nat \<Rightarrow> wkst \<times> kst \<Rightarrow> (int \<times> wkst \<times> kst) option" where
  "rt_workqueue_cancel_all_work q ws = (case ws of (w, s) \<Rightarrow> do {
     (w, s) \<leftarrow> cancel_list q (WorkL q) (w, rt_enter_critical s);
     (w, s) \<leftarrow> cancel_list q (DelayedL q) (w, s);
     s \<leftarrow> rt_exit_critical s;
     Some (RT_EOK, w, s)
   })"


subsection \<open>The thread of a work queue\<close>

function move_due :: "nat \<Rightarrow> u32 \<Rightarrow> wkst \<Rightarrow> int \<times> wkst" where
  \<comment> \<open>the loop over the delayed works; the first component is \<open>delay_tick\<close>\<close>
  "move_due q current_tick w = (case wk_lists w (DelayedL q) of
       [] \<Rightarrow> (RT_WAITING_FOREVER, w)
     | x # _ \<Rightarrow>
         if current_tick - wk_timeout_tick (wk_works w x) < HALF_TICKS then
           (let w = upd_wlists (st_remove x) w;
                w = upd_wlists (st_append (WorkL q) x) w;
                w = upd_work x (\<lambda>k. k\<lparr>wk_flags := wk_flags k AND NOT RT_WORK_STATE_SUBMITTING\<rparr>) w;
                w = upd_work x (\<lambda>k. k\<lparr>wk_flags := wk_flags k OR RT_WORK_STATE_PENDING\<rparr>) w
            in move_due q current_tick w)
         else (sint (wk_timeout_tick (wk_works w x) - current_tick), w))"
  by pat_completeness auto
termination
  by (relation "measure (\<lambda>(q, _, w). length (wk_lists w (DelayedL q)))")
    (auto simp: less_Suc_eq_le length_removeAll_less_eq)

declare move_due.simps [simp del]

datatype work_step =
    Polled int \<comment> \<open>\<open>rt_completion_wait\<close> returned without waiting\<close>
  | Sleeps \<comment> \<open>the thread switched inside \<open>rt_completion_wait\<close>\<close>
  | Calls nat nat nat \<comment> \<open>\<open>work_func(work, work_data)\<close>\<close>

definition workqueue_round :: "nat \<Rightarrow> wkst \<times> kst \<Rightarrow> (work_step \<times> wkst \<times> kst) option" where
  "workqueue_round q ws = (case ws of (w, s) \<Rightarrow> do {
     let s = rt_spin_lock s;
     let (delay_tick, w) = move_due q (rt_tick_get s) w;
     case wk_lists w (WorkL q) of
       [] \<Rightarrow> do {
         s \<leftarrow> rt_spin_unlock s;
         ((r, c), s) \<leftarrow> rt_completion_wait delay_tick (wq_completion (wk_queues w q)) s;
         let w = upd_queue q (\<lambda>k. k\<lparr>wq_completion := c\<rparr>) w;
         Some (case r of None \<Rightarrow> Sleeps | Some e \<Rightarrow> Polled e, w, s)
       }
     | x # _ \<Rightarrow> do {
         let w = upd_wlists (st_remove x) w;
         let w = upd_queue q (\<lambda>k. k\<lparr>wq_current := Some x\<rparr>) w;
         let w = upd_work x (\<lambda>k. k\<lparr>wk_flags := wk_flags k AND NOT RT_WORK_STATE_PENDING, wk_workqueue := None\<rparr>) w;
         s \<leftarrow> rt_spin_unlock s;
         Some (Calls (wk_func (wk_works w x)) x (wk_data (wk_works w x)), w, s)
       }
   })"

partial_function (option) workqueue_work_completion :: "nat \<Rightarrow> kst \<Rightarrow> (int \<times> kst) option" where
  \<comment> \<open>\<open>_workqueue_work_completion\<close>\<close>
  "workqueue_work_completion i s = do {
     (r, s) \<leftarrow> rt_sem_trytake i s;
     (case r of
        None \<Rightarrow> None
      | Some result \<Rightarrow>
          if result = - RT_ETIMEOUT then do {
            (_, s) \<leftarrow> rt_sem_release i s;
            workqueue_work_completion i s
          } else if result = RT_EOK then Some (RT_EOK, s)
          else Some (- RT_ERROR, s))
   }"

definition workqueue_called :: "nat \<Rightarrow> wkst \<times> kst \<Rightarrow> (wkst \<times> kst) option" where
  "workqueue_called q ws = (case ws of (w, s) \<Rightarrow> do {
     let w = upd_queue q (\<lambda>k. k\<lparr>wq_current := None\<rparr>) w;
     (_, s) \<leftarrow> workqueue_work_completion (wq_sem (wk_queues w q)) s;
     Some (w, s)
   })"


subsection \<open>Creation\<close>

definition rt_workqueue_create ::
  "nat option \<Rightarrow> nat \<Rightarrow> nat option \<Rightarrow> bool \<Rightarrow> string \<Rightarrow> u8 \<Rightarrow> wkst \<times> kst \<Rightarrow> (nat option \<times> wkst \<times> kst) option" where
  \<comment> \<open>\<open>queue\<close>, \<open>tblock\<close> and \<open>stack_ok\<close> are the outcomes of the allocations, \<open>sem\<close> names the semaphore inside the block of the queue\<close>
  "rt_workqueue_create queue sem tblock stack_ok name priority ws = (case ws of (w, s) \<Rightarrow>
     (case queue of
        None \<Rightarrow> Some (None, w, s)
      | Some q \<Rightarrow> do {
          let w = upd_wlists (\<lambda>ls. ls(WorkL q := [], DelayedL q := [])) w;
          let w = upd_queue q (\<lambda>k. k\<lparr>wq_current := None, wq_sem := sem\<rparr>) w;
          (_, s) \<leftarrow> rt_sem_init sem (Some ''wqueue'') 0 RT_IPC_FLAG_FIFO s;
          let w = upd_queue q (\<lambda>k. k\<lparr>wq_completion := rt_completion_init\<rparr>) w;
          (thread, s) \<leftarrow> rt_thread_create tblock stack_ok (Some name) priority 10 s;
          (case thread of
             None \<Rightarrow> do {
               (_, s) \<leftarrow> rt_sem_detach sem s;
               Some (None, w, s)
             }
           | Some t \<Rightarrow> do {
               let w = upd_queue q (\<lambda>k. k\<lparr>wq_thread := t\<rparr>) w;
               (_, s) \<leftarrow> rt_thread_startup t s;
               Some (Some q, w, s)
             })
        }))"

definition rt_workqueue_destroy :: "nat \<Rightarrow> wkst \<times> kst \<Rightarrow> (int \<times> wkst \<times> kst) option" where
  "rt_workqueue_destroy q ws = do {
     (_, w, s) \<leftarrow> rt_workqueue_cancel_all_work q ws;
     (_, s) \<leftarrow> rt_thread_delete (wq_thread (wk_queues w q)) s;
     (_, s) \<leftarrow> rt_sem_detach (wq_sem (wk_queues w q)) s;
     Some (RT_EOK, w, s)
   }"


subsection \<open>The order of the delayed works\<close>

definition due_at :: "u32 \<Rightarrow> wkst \<Rightarrow> nat \<Rightarrow> nat" where
  \<comment> \<open>ticks from \<open>base\<close> to the time of the work\<close>
  "due_at base w x = unat (wk_timeout_tick (wk_works w x) - base)"

definition delayed_sorted :: "u32 \<Rightarrow> nat \<Rightarrow> wkst \<Rightarrow> bool" where
  \<comment> \<open>from \<open>base\<close> on, all delayed works are due within half the range of ticks, and in list order\<close>
  "delayed_sorted base q w \<longleftrightarrow>
     (\<forall>x \<in> set (wk_lists w (DelayedL q)). due_at base w x < unat HALF_TICKS) \<and>
     sorted (map (due_at base w) (wk_lists w (DelayedL q)))"

definition wk_ok :: "u32 \<Rightarrow> wkst \<Rightarrow> bool" where
  \<comment> \<open>a work is on at most one list and at most once, and the delayed works are in order\<close>
  "wk_ok base w \<longleftrightarrow> store_ok (wk_lists w) \<and> (\<forall>q. delayed_sorted base q w)"

lemma half_diff_le:
  fixes a b base :: u32
  assumes "unat (a - base) < unat HALF_TICKS" and "unat (b - base) < unat HALF_TICKS"
  shows "a - b < HALF_TICKS \<longleftrightarrow> unat (b - base) \<le> unat (a - base)"
proof (cases "a = b")
  case True
  then show ?thesis by (simp add: HALF_TICKS_val)
next
  case False
  then have "unat (a - base) \<noteq> unat (b - base)" by (simp add: word_unat_eq_iff [symmetric])
  then show ?thesis using half_diff [OF assms] False by auto
qed

lemma due_map:
  assumes "\<And>y. y \<in> set xs \<Longrightarrow> wk_timeout_tick (wk_works w' y) = wk_timeout_tick (wk_works w y)"
  shows "map (due_at base w') xs = map (due_at base w) xs" and "y \<in> set xs \<Longrightarrow> due_at base w' y = due_at base w y"
  using assms by (simp_all add: due_at_def)

lemma delayed_sortedI:
  assumes "sorted (map (due_at base w) xs)" and "\<And>y. y \<in> set xs \<Longrightarrow> due_at base w y < unat HALF_TICKS"
    and "wk_lists w' (DelayedL q) = xs"
    and "\<And>y. y \<in> set xs \<Longrightarrow> wk_timeout_tick (wk_works w' y) = wk_timeout_tick (wk_works w y)"
  shows "delayed_sorted base q w'"
proof -
  have "map (due_at base w') xs = map (due_at base w) xs" by (rule due_map(1) [OF assms(4)])
  then have "sorted (map (due_at base w') xs)" using assms(1) by metis
  then show ?thesis using assms(2,3) due_map(2) [where xs = xs, OF assms(4)] by (simp add: delayed_sorted_def)
qed

lemma delayed_sorted_remove:
  assumes "delayed_sorted base q w" and "wk_lists w' (DelayedL q) = removeAll x (wk_lists w (DelayedL q))"
    and "\<And>y. y \<noteq> x \<Longrightarrow> wk_timeout_tick (wk_works w' y) = wk_timeout_tick (wk_works w y)"
  shows "delayed_sorted base q w'"
proof (rule delayed_sortedI [OF _ _ assms(2)])
  show "sorted (map (due_at base w) (removeAll x (wk_lists w (DelayedL q))))"
    using assms(1) by (simp add: delayed_sorted_def removeAll_filter_not_eq sorted_filter)
qed (use assms in \<open>auto simp: delayed_sorted_def\<close>)

lemma wk_ok_remove:
  assumes "wk_ok base w" and "wk_lists w' = st_remove x (wk_lists w)"
    and "\<And>y. y \<noteq> x \<Longrightarrow> wk_timeout_tick (wk_works w' y) = wk_timeout_tick (wk_works w y)"
  shows "wk_ok base w'"
  using assms delayed_sorted_remove [of base _ w w' x] by (auto simp: wk_ok_def)

lemma wk_ok_same:
  assumes "wk_ok base w" and "wk_lists w' = wk_lists w"
    and "\<And>y q. y \<in> set (wk_lists w (DelayedL q)) \<Longrightarrow> wk_timeout_tick (wk_works w' y) = wk_timeout_tick (wk_works w y)"
  shows "wk_ok base w'"
proof -
  have "delayed_sorted base q w'" for q
    by (rule delayed_sortedI [of base w "wk_lists w (DelayedL q)"]) (use assms in \<open>auto simp: wk_ok_def delayed_sorted_def\<close>)
  then show ?thesis using assms by (simp add: wk_ok_def)
qed

lemma wk_ok_put_work:
  assumes "wk_ok base w" and "unlinked x (wk_lists w)"
    and "wk_lists w' = (wk_lists w)(WorkL q := l)" and "l = x # wk_lists w (WorkL q) \<or> l = wk_lists w (WorkL q) @ [x]"
    and "\<And>y. wk_timeout_tick (wk_works w' y) = wk_timeout_tick (wk_works w y)"
  shows "wk_ok base w'"
proof -
  have "store_ok (wk_lists w')"
    using assms(1-4) store_ok_push [of "wk_lists w" x "WorkL q"] store_ok_append [of "wk_lists w" x "WorkL q"]
    by (auto simp: wk_ok_def st_push_def st_append_def)
  moreover have "delayed_sorted base p w'" for p
    by (rule delayed_sortedI [of base w "wk_lists w (DelayedL p)"]) (use assms in \<open>auto simp: wk_ok_def delayed_sorted_def\<close>)
  ultimately show ?thesis by (simp add: wk_ok_def)
qed

lemma sorted_ins_before_le:
  assumes "sorted (map f xs)"
  shows "sorted (map f (ins_before (\<lambda>x. f n \<le> f x) n xs))"
  using assms
proof (induction xs)
  case (Cons x xs)
  then show ?case by (fastforce simp: set_ins_before)
qed simp

lemma wk_ok_insert:
  assumes ok: "wk_ok base w" and u: "unlinked x (wk_lists w)"
    and w': "wk_lists w' = (wk_lists w)(DelayedL q := ins_before P x (wk_lists w (DelayedL q)))"
    and t: "\<And>y. y \<noteq> x \<Longrightarrow> wk_timeout_tick (wk_works w' y) = wk_timeout_tick (wk_works w y)"
    and new: "due_at base w' x < unat HALF_TICKS"
    and P: "\<And>y. y \<in> set (wk_lists w (DelayedL q)) \<Longrightarrow> P y \<longleftrightarrow> due_at base w' x \<le> due_at base w y"
  shows "wk_ok base w'"
proof -
  have nx: "x \<notin> set (wk_lists w l)" for l using u by blast
  have d: "due_at base w' y = due_at base w y" if "y \<noteq> x" for y using t that by (simp add: due_at_def)
  have m: "map (due_at base w') (wk_lists w l) = map (due_at base w) (wk_lists w l)" for l
    by (rule due_map(1)) (use t nx in metis)
  have "P y = (due_at base w' x \<le> due_at base w' y)" if "y \<in> set (wk_lists w (DelayedL q))" for y
  proof -
    have "y \<noteq> x" using that nx by metis
    then show ?thesis using P [OF that] d by simp
  qed
  then have "ins_before P x (wk_lists w (DelayedL q)) = ins_before (\<lambda>y. due_at base w' x \<le> due_at base w' y) x (wk_lists w (DelayedL q))"
    by (rule ins_before_cong)
  moreover have "sorted (map (due_at base w') (wk_lists w (DelayedL q)))" using ok by (simp add: m wk_ok_def delayed_sorted_def)
  ultimately have "sorted (map (due_at base w') (wk_lists w' (DelayedL q)))" using sorted_ins_before_le w' by simp
  moreover have "store_ok (wk_lists w')" using ok u w' by (auto simp: wk_ok_def)
  moreover have "due_at base w' y < unat HALF_TICKS" if "y \<in> set (wk_lists w' (DelayedL p))" for p y
    using ok new that d w' unfolding wk_ok_def delayed_sorted_def by (cases "y = x") (auto split: if_splits)
  moreover have "sorted (map (due_at base w') (wk_lists w' (DelayedL p)))" if "p \<noteq> q" for p
    using ok w' that m unfolding wk_ok_def delayed_sorted_def by (metis fun_upd_other wlist.inject(2))
  ultimately show ?thesis unfolding wk_ok_def delayed_sorted_def by metis
qed


subsection \<open>Every operation keeps the lists in order\<close>

inductive wk_step :: "u32 \<Rightarrow> wkst \<times> kst \<Rightarrow> wkst \<times> kst \<Rightarrow> bool" for base where
  \<comment> \<open>anything that happens to the work queues; the kernel state may change freely between two operations\<close>
  submit: "rt_workqueue_submit_work q x ticks (w, s) = Some (e, w', s') \<Longrightarrow> unat (tick s + ticks - base) < unat HALF_TICKS \<Longrightarrow>
    wk_step base (w, s) (w', s')"
| dowork: "rt_workqueue_dowork q x (w, s) = Some (e, w', s') \<Longrightarrow> wk_step base (w, s) (w', s')"
| urgent: "rt_workqueue_urgent_work q x (w, s) = Some (e, w', s') \<Longrightarrow> wk_step base (w, s) (w', s')"
| cancel: "rt_workqueue_cancel_work q x (w, s) = Some (e, w', s') \<Longrightarrow> wk_step base (w, s) (w', s')"
| cancel_sync: "rt_workqueue_cancel_work_sync q x (w, s) = Some (r, w', s') \<Longrightarrow> wk_step base (w, s) (w', s')"
| cancel_all: "rt_workqueue_cancel_all_work q (w, s) = Some (e, w', s') \<Longrightarrow> wk_step base (w, s) (w', s')"
| round: "workqueue_round q (w, s) = Some (a, w', s') \<Longrightarrow> wk_step base (w, s) (w', s')"
| called: "workqueue_called q (w, s) = Some (w', s') \<Longrightarrow> wk_step base (w, s) (w', s')"
| init: "unlinked x (wk_lists w) \<Longrightarrow> wk_step base (w, s) (rt_work_init x f d w, s)"
| create: "rt_workqueue_create b m t ok nm pr (w, s) = Some (r, w', s') \<Longrightarrow> wk_step base (w, s) (w', s')"
| other: "wk_step base (w, s) (w, s')"

lemma queue_done_lists:
  assumes "queue_done q (w, s) = Some (w', s')"
  shows "wk_lists w' = wk_lists w" and "wk_works w' = wk_works w"
  using assms by (auto simp: queue_done_def elim!: bind_SomeE)

lemma submit_keeps:
  assumes r: "workqueue_submit_work q x ticks (w, s) = Some (e, w', s')" and ok: "wk_ok base w"
    and t: "ticks = 0 \<or> unat (tick s + ticks - base) < unat HALF_TICKS"
  shows "wk_ok base w'"
proof -
  let ?w0 = "upd_work x (\<lambda>k. k\<lparr>wk_flags := 0\<rparr>) (upd_wlists (st_remove x) w)"
  have ok0: "wk_ok base ?w0" and u0: "unlinked x (wk_lists ?w0)" using wk_ok_remove [OF ok, of ?w0 x] by auto
  consider "ticks = 0" | "ticks \<noteq> 0" "ticks < HALF_TICKS" | "ticks \<noteq> 0" "\<not> ticks < HALF_TICKS" by blast
  then show ?thesis
  proof cases
    case 1
    let ?w1 = "upd_work x (\<lambda>k. k\<lparr>wk_flags := wk_flags k OR RT_WORK_STATE_PENDING, wk_workqueue := Some q\<rparr>)
      (upd_wlists (st_append (WorkL q) x) ?w0)"
    obtain s2 where "queue_done q (?w1, rt_spin_lock s) = Some (w', s2)"
      using r 1 unfolding workqueue_submit_work_def Let_def by (auto elim!: bind_SomeE split: prod.splits)
    note D = queue_done_lists [OF this]
    show ?thesis
      by (rule wk_ok_put_work [OF ok0 u0, where q = q and l = "wk_lists ?w0 (WorkL q) @ [x]"]) (simp_all add: D st_append_def)
  next
    case 2
    let ?f = "\<lambda>k. k\<lparr>wk_flags := wk_flags k OR RT_WORK_STATE_SUBMITTING, wk_workqueue := Some q, wk_timeout_tick := tick s + ticks\<rparr>"
    let ?w1 = "upd_work x ?f ?w0"
    let ?P = "\<lambda>y. wk_timeout_tick (wk_works ?w1 y) - (tick s + ticks) < HALF_TICKS"
    let ?w2 = "upd_wlists (\<lambda>ls. ls(DelayedL q := ins_before ?P x (ls (DelayedL q)))) ?w1"
    obtain s2 where "queue_done q (?w2, rt_spin_lock s) = Some (w', s2)"
      using r 2 unfolding workqueue_submit_work_def Let_def rt_tick_get_def by (auto elim!: bind_SomeE split: prod.splits)
    note D = queue_done_lists [OF this]
    have new: "unat (tick s + ticks - base) < unat HALF_TICKS" using t 2(1) by blast
    show ?thesis
    proof (rule wk_ok_insert [OF ok0 u0, where q = q and P = ?P])
      show "?P y = (due_at base w' x \<le> due_at base ?w0 y)" if y: "y \<in> set (wk_lists ?w0 (DelayedL q))" for y
      proof -
        have yx: "y \<noteq> x" using y u0 by blast
        have "due_at base ?w0 y < unat HALF_TICKS" using ok0 y unfolding wk_ok_def delayed_sorted_def by blast
        then have "unat (wk_timeout_tick (wk_works w y) - base) < unat HALF_TICKS" using yx by (simp add: due_at_def)
        from half_diff_le [OF this new] show ?thesis using yx by (simp add: due_at_def D)
      qed
    qed (simp_all add: D due_at_def new)
  next
    case 3
    then have "w' = ?w0" using r unfolding workqueue_submit_work_def Let_def by (auto elim!: bind_SomeE split: prod.splits)
    then show ?thesis using ok0 by simp
  qed
qed

lemma cancel_keeps:
  assumes "workqueue_cancel_work q x (w, s) = Some (e, w', s')"
  shows "wk_lists w' = st_remove x (wk_lists w)" and "wk_ok base w \<Longrightarrow> wk_ok base w'"
proof -
  show l: "wk_lists w' = st_remove x (wk_lists w)"
    using assms by (auto simp: workqueue_cancel_work_def Let_def elim!: bind_SomeE)
  show "wk_ok base w'" if "wk_ok base w"
    by (rule wk_ok_remove [OF that l]) (use assms in \<open>auto simp: workqueue_cancel_work_def Let_def elim!: bind_SomeE\<close>)
qed

lemma cancel_list_keeps:
  "cancel_list q l ws = Some ws' \<Longrightarrow> wk_ok base (fst ws) \<longrightarrow> wk_ok base (fst ws')"
proof (induction q l ws ws' rule: cancel_list.raw_induct [rotated, consumes 1])
  case (1 cl q l ws ws')
  show ?case
  proof (cases "wk_lists (fst ws) l = []")
    case True
    then show ?thesis using 1(2) by simp
  next
    case False
    then obtain e ws1 where c: "workqueue_cancel_work q (hd (wk_lists (fst ws) l)) ws = Some (e, ws1)" and r: "cl q l ws1 = Some ws'"
      using 1(2) by (auto elim!: bind_SomeE)
    obtain w s w1 s1 where p: "ws = (w, s)" "ws1 = (w1, s1)" by (cases ws, cases ws1)
    show ?thesis using 1(1) [OF r] cancel_keeps(2) [of q "hd (wk_lists w l)" w s e w1 s1 base] c unfolding p by simp
  qed
qed

lemma move_due_keeps: "wk_ok base w \<Longrightarrow> wk_ok base (snd (move_due q now w))"
proof (induction q now w rule: move_due.induct)
  case (1 q now w)
  show ?case
  proof (cases "wk_lists w (DelayedL q)")
    case Nil
    then show ?thesis using 1(2) by (subst move_due.simps) simp
  next
    case (Cons x xs)
    show ?thesis
    proof (cases "now - wk_timeout_tick (wk_works w x) < HALF_TICKS")
      case True
      let ?w0 = "upd_wlists (st_remove x) w"
      let ?w1 = "upd_work x (\<lambda>k. k\<lparr>wk_flags := wk_flags k AND NOT RT_WORK_STATE_SUBMITTING\<rparr>) (upd_wlists (st_append (WorkL q) x) ?w0)"
      let ?w2 = "upd_work x (\<lambda>k. k\<lparr>wk_flags := wk_flags k OR RT_WORK_STATE_PENDING\<rparr>) ?w1"
      have "wk_ok base ?w0" by (rule wk_ok_remove [OF 1(2), where x = x]) simp_all
      then have "wk_ok base ?w2"
        by (rule wk_ok_put_work [where x = x and q = q and l = "wk_lists ?w0 (WorkL q) @ [x]"]) (simp_all add: st_append_def)
      from 1(1) [OF Cons True refl refl refl refl this] show ?thesis using Cons True by (subst move_due.simps) (simp add: Let_def)
    next
      case False
      then show ?thesis using Cons 1(2) by (subst move_due.simps) simp
    qed
  qed
qed

lemma round_keeps:
  assumes r: "workqueue_round q (w, s) = Some (a, w', s')" and ok: "wk_ok base w"
  shows "wk_ok base w'"
proof -
  obtain d w1 where m: "move_due q (tick s) w = (d, w1)" by (cases "move_due q (tick s) w")
  have ok1: "wk_ok base w1" using move_due_keeps [OF ok, of q "tick s"] m by simp
  show ?thesis
  proof (cases "wk_lists w1 (WorkL q)")
    case Nil
    then have "wk_lists w' = wk_lists w1" "wk_works w' = wk_works w1"
      using r m by (auto simp: workqueue_round_def Let_def rt_tick_get_def elim!: bind_SomeE split: prod.splits)
    then show ?thesis using wk_ok_same [OF ok1, of w'] by simp
  next
    case (Cons x xs)
    then have "wk_lists w' = st_remove x (wk_lists w1)" "\<forall>y. wk_timeout_tick (wk_works w' y) = wk_timeout_tick (wk_works w1 y)"
      using r m by (auto simp: workqueue_round_def Let_def rt_tick_get_def elim!: bind_SomeE split: prod.splits)
    then show ?thesis using wk_ok_remove [OF ok1, of w' x] by simp
  qed
qed

lemma create_keeps:
  assumes r: "rt_workqueue_create b m t st nm pr (w, s) = Some (x, w', s')" and ok: "wk_ok base w"
  shows "wk_ok base w'"
proof (cases b)
  case None
  then show ?thesis using r ok by (simp add: rt_workqueue_create_def)
next
  case (Some q)
  then have l: "wk_lists w' = (wk_lists w)(WorkL q := [], DelayedL q := [])" and k: "wk_works w' = wk_works w"
    using r unfolding rt_workqueue_create_def Let_def by (auto elim!: bind_SomeE split: prod.splits option.splits)
  have "store_ok (wk_lists w')" using ok by (auto simp: wk_ok_def store_ok_def l)
  moreover have "due_at base w' = due_at base w" by (simp add: due_at_def fun_eq_iff k)
  then have "delayed_sorted base p w'" for p using ok by (auto simp: wk_ok_def delayed_sorted_def l)
  ultimately show ?thesis by (simp add: wk_ok_def)
qed

lemma wk_step_keeps: "wk_step base ws ws' \<Longrightarrow> wk_ok base (fst ws) \<Longrightarrow> wk_ok base (fst ws')"
proof (induction rule: wk_step.induct)
  case (submit q x ticks w s e w' s')
  then show ?case using submit_keeps [of q x ticks w s e w' s' base] by (auto simp: rt_workqueue_submit_work_def elim!: bind_SomeE)
next
  case (dowork q x w s e w' s')
  then show ?case using submit_keeps [of q x 0 w s e w' s' base] by (simp add: rt_workqueue_dowork_def)
next
  case (urgent q x w s e w' s')
  let ?w0 = "upd_wlists (st_remove x) w" and ?w1 = "upd_wlists (st_push (WorkL q) x) (upd_wlists (st_remove x) w)"
  obtain s2 where d: "queue_done q (?w1, rt_spin_lock s) = Some (w', s2)"
    using urgent(1) by (auto simp: rt_workqueue_urgent_work_def Let_def elim!: bind_SomeE)
  have ok: "wk_ok base ?w0" by (rule wk_ok_remove [where w = w and x = x]) (use urgent(2) in simp_all)
  have u: "unlinked x (wk_lists ?w0)" by simp
  have "wk_ok base w'"
    by (rule wk_ok_put_work [OF ok u, where q = q and l = "x # wk_lists ?w0 (WorkL q)"])
      (use queue_done_lists [OF d] in \<open>simp_all add: st_push_def\<close>)
  then show ?case by simp
next
  case (cancel q x w s e w' s')
  then show ?case using cancel_keeps(2) [of q x w s e w' s' base] by (simp add: rt_workqueue_cancel_work_def)
next
  case (cancel_sync q x w s r w' s')
  then show ?case using cancel_keeps(2) [of q x w s _ w' s' base]
    by (auto simp: rt_workqueue_cancel_work_sync_def elim!: bind_SomeE split: if_splits)
next
  case (cancel_all q w s e w' s')
  then obtain ws1 s2 where "cancel_list q (WorkL q) (w, rt_enter_critical s) = Some ws1" "cancel_list q (DelayedL q) ws1 = Some (w', s2)"
    by (auto simp: rt_workqueue_cancel_all_work_def elim!: bind_SomeE split: prod.splits)
  from cancel_list_keeps [OF this(1), of base] cancel_list_keeps [OF this(2), of base] cancel_all(2) show ?case by simp
next
  case (round q w s a w' s')
  then show ?case using round_keeps by simp
next
  case (called q w s w' s')
  then have "wk_lists w' = wk_lists w" "wk_works w' = wk_works w" by (auto simp: workqueue_called_def Let_def elim!: bind_SomeE)
  then show ?case using wk_ok_same [of base w w'] called(2) by simp
next
  case (init x w s f d)
  have "wk_ok base (rt_work_init x f d w)"
    by (rule wk_ok_same [where w = w]) (use init in \<open>auto simp: rt_work_init_def\<close>)
  then show ?case by simp
next
  case (create b m t ok nm pr w s r w' s')
  then show ?case using create_keeps by simp
qed simp

text \<open>
  C37. Whatever is submitted, cancelled and run, and whatever the kernel does in between, a work is on at most one list and at most once,
  and the delayed works stay in the order of their times, also across a wrap of the tick counter, as long as all of them lie within half
  the range of ticks.
\<close>
theorem workqueue_lists_ok:
  "(wk_step base)\<^sup>*\<^sup>* ws ws' \<Longrightarrow> wk_ok base (fst ws) \<Longrightarrow> wk_ok base (fst ws')"
  by (induction rule: rtranclp_induct) (auto intro: wk_step_keeps)


subsection \<open>The end of a work\<close>

lemma trytake_run:
  assumes "kinv s" and "sem_ok i s" and "current s \<noteq> None" and "lock_nest s = 0" and "irq_nest s = 0"
  shows "rt_sem_trytake i s = (if sem_value (sems s i) > 0
      then Some (Some RT_EOK, upd_sem i (\<lambda>m. m\<lparr>sem_value := sem_value m - 1\<rparr>) s) else Some (Some (- RT_ETIMEOUT), s))"
  using assms by (simp add: rt_sem_trytake_def rt_sem_take_def sem_take_def sem_ok_def debug_defs)

lemma release_wakes:
  assumes k: "kinv s" and ok: "sem_ok i s" and c: "current s \<noteq> None" and l: "lock_nest s = 0" and q: "tlists s (sem_q i) = t # ts"
  shows "\<exists>s'. rt_sem_release i s = Some (RT_EOK, s') \<and> woken (\<lambda>u. u = t) RT_EOK s s' \<and> sem_ok i s' \<and> current s' \<noteq> None \<and>
    lock_nest s' = 0 \<and> tlists s' (sem_q i) = ts"
proof -
  let ?s1 = "rt_spin_lock s"
  have q1: "tlists ?s1 (sem_q i) = t # ts" "current ?s1 \<noteq> None" using q c by simp_all
  note W = wake_and_switch [OF locked_ok_lock [OF k] q1(2,1), of RT_EOK]
  obtain s4 s' where s': "rt_spin_unlock (wake_err RT_EOK t ?s1) = Some s4" "rt_schedule s4 = Some s'"
    "woken (\<lambda>u. u = t) RT_EOK ?s1 s'" "lock_nest s' = lock_nest ?s1 - 1" using W(2) by blast
  have u: "rt_spin_unlock (wake_err RT_EOK t ?s1) = Some ((wake_err RT_EOK t ?s1)\<lparr>lock_nest := 0\<rparr>)"
    by (rule spin_unlock_lock) (use k l in \<open>simp_all add: kinv_def crit_ok_def\<close>)
  then have "current s4 \<noteq> None" using s'(1) c by auto
  then have cur: "current s' \<noteq> None" using rt_schedule_current [OF s'(2)] by simp
  have "t \<notin> set ts" using store_okD(1) [OF kinv_store [OF k], of "sem_q i"] q by simp
  then have ts: "tlists s' (sem_q i) = ts" using s'(3) q by (auto simp: woken_def)
  have w: "woken (\<lambda>u. u = t) RT_EOK s s'" using s'(3) by (simp add: woken_def)
  have "rt_sem_release i s = Some (RT_EOK, s')" using ok q W(1) s'(1,2) by (simp add: rt_sem_release_def sem_ok_def)
  moreover have "sem_ok i s'" using ok w q by (simp add: sem_ok_def woken_def ipc_flag_def)
  ultimately show ?thesis using w cur ts s'(4) l by auto
qed

lemma work_completion_run:
  assumes "kinv s" and "sem_ok i s" and "current s \<noteq> None" and "lock_nest s = 0" and "irq_nest s = 0"
    and "0 < sem_max_value (sems s i)" and "tlists s (sem_q i) = ts"
  shows "\<exists>s'. workqueue_work_completion i s = Some (RT_EOK, s') \<and> kinv s' \<and> tlists s' (sem_q i) = [] \<and>
    sem_value (sems s' i) = (if sem_value (sems s i) > 0 then sem_value (sems s i) - 1 else 0) \<and>
    (\<forall>t \<in> set ts. \<not> susp_stat (tcbs s' t) \<and> t_error (tcbs s' t) = RT_EOK) \<and>
    (\<forall>t. t \<notin> set ts \<longrightarrow> susp_stat (tcbs s' t) = susp_stat (tcbs s t) \<and> t_error (tcbs s' t) = t_error (tcbs s t))"
  using assms
proof (induction ts arbitrary: s)
  case Nil
  let ?dec = "upd_sem i (\<lambda>m. m\<lparr>sem_value := sem_value m - 1\<rparr>)" and ?inc = "upd_sem i (\<lambda>m. m\<lparr>sem_value := sem_value m + 1\<rparr>) s"
  note T = trytake_run [OF Nil.prems(1-5)]
  show ?case
  proof (cases "sem_value (sems s i) > 0")
    case True
    then have "workqueue_work_completion i s = Some (RT_EOK, ?dec s)"
      using T by (subst workqueue_work_completion.simps) (simp add: err_defs)
    then show ?thesis using True Nil.prems by (intro exI [of _ "?dec s"]) simp
  next
    case False
    then have v: "sem_value (sems s i) = 0" by (simp add: word_gt_0)
    have r: "rt_sem_release i s = Some (RT_EOK, ?inc)" using Nil.prems v by (simp add: rt_sem_release_def sem_ok_def)
    have i: "kinv ?inc" "sem_ok i ?inc" "current ?inc \<noteq> None" "lock_nest ?inc = 0" "irq_nest ?inc = 0" "0 < sem_value (sems ?inc i)"
      using Nil.prems v by (simp_all add: sem_ok_def ipc_flag_def)
    have "workqueue_work_completion i ?inc = Some (RT_EOK, ?dec ?inc)"
      using trytake_run [OF i(1-5)] i(6) by (subst workqueue_work_completion.simps) (simp add: err_defs)
    then have "workqueue_work_completion i s = Some (RT_EOK, ?dec ?inc)"
      using T v r by (subst workqueue_work_completion.simps) (simp add: err_defs)
    then show ?thesis using v Nil.prems i(1) by (intro exI [of _ "?dec ?inc"]) simp
  qed
next
  case (Cons t ts)
  have v: "sem_value (sems s i) = 0" using Cons.prems(2,7) by (auto simp: sem_ok_def word_gt_0)
  obtain s1 where s1: "rt_sem_release i s = Some (RT_EOK, s1)" "woken (\<lambda>u. u = t) RT_EOK s s1" "sem_ok i s1" "current s1 \<noteq> None"
    "lock_nest s1 = 0" "tlists s1 (sem_q i) = ts" using release_wakes [OF Cons.prems(1-4,7)] by blast
  note W = s1(2) [unfolded woken_def]
  obtain s' where s': "workqueue_work_completion i s1 = Some (RT_EOK, s')" "kinv s'" "tlists s' (sem_q i) = []"
    "sem_value (sems s' i) = (if sem_value (sems s1 i) > 0 then sem_value (sems s1 i) - 1 else 0)"
    "\<forall>u \<in> set ts. \<not> susp_stat (tcbs s' u) \<and> t_error (tcbs s' u) = RT_EOK"
    "\<forall>u. u \<notin> set ts \<longrightarrow> susp_stat (tcbs s' u) = susp_stat (tcbs s1 u) \<and> t_error (tcbs s' u) = t_error (tcbs s1 u)"
    using Cons.IH [of s1] W s1(3-6) Cons.prems(5,6) by auto
  have "workqueue_work_completion i s = Some (RT_EOK, s')"
    using trytake_run [OF Cons.prems(1-5)] v s1(1) s'(1) by (subst workqueue_work_completion.simps) (simp add: err_defs)
  moreover have "\<not> susp_stat (tcbs s' t) \<and> t_error (tcbs s' t) = RT_EOK" using s'(5,6) W by (cases "t \<in> set ts") simp_all
  ultimately show ?case using s' W v by (intro exI [of _ s']) auto
qed

text \<open>
  The end of a work. Whatever the count of the semaphore and however many threads wait in \<open>rt_workqueue_cancel_work_sync\<close>, the loop
  of \<open>_workqueue_work_completion\<close> ends: every one of them is awake and its wait returns \<open>RT_EOK\<close>, no other thread is
  touched, and at most one earlier count is used up.
\<close>
theorem workqueue_called_wakes:
  assumes "kinv s" and "sem_ok (wq_sem (wk_queues w q)) s" and "current s \<noteq> None" and "lock_nest s = 0" and "irq_nest s = 0"
    and "0 < sem_max_value (sems s (wq_sem (wk_queues w q)))"
  shows "\<exists>w' s'. workqueue_called q (w, s) = Some (w', s') \<and> wq_current (wk_queues w' q) = None \<and> wk_lists w' = wk_lists w \<and> kinv s' \<and>
    tlists s' (sem_q (wq_sem (wk_queues w q))) = [] \<and>
    (\<forall>t \<in> set (tlists s (sem_q (wq_sem (wk_queues w q)))). \<not> susp_stat (tcbs s' t) \<and> sem_take_resume t s' = RT_EOK) \<and>
    (\<forall>t. t \<notin> set (tlists s (sem_q (wq_sem (wk_queues w q)))) \<longrightarrow> susp_stat (tcbs s' t) = susp_stat (tcbs s t))"
proof -
  let ?i = "wq_sem (wk_queues w q)"
  obtain s' where s': "workqueue_work_completion ?i s = Some (RT_EOK, s')" "kinv s'" "tlists s' (sem_q ?i) = []"
    "\<forall>t \<in> set (tlists s (sem_q ?i)). \<not> susp_stat (tcbs s' t) \<and> t_error (tcbs s' t) = RT_EOK"
    "\<forall>t. t \<notin> set (tlists s (sem_q ?i)) \<longrightarrow> susp_stat (tcbs s' t) = susp_stat (tcbs s t) \<and> t_error (tcbs s' t) = t_error (tcbs s t)"
    using work_completion_run [OF assms refl] by blast
  have "workqueue_called q (w, s) = Some (upd_queue q (\<lambda>k. k\<lparr>wq_current := None\<rparr>) w, s')"
    using s'(1) by (simp add: workqueue_called_def Let_def)
  then show ?thesis using s'(2-5) by (simp add: sem_take_resume_def)
qed


subsection \<open>Submitting\<close>

lemma completion_done_locked:
  assumes l: "in_lock s" and ty: "\<And>t. co_thread c = Some t \<Longrightarrow> rt_object_get_type (OThread t) s = RT_Object_Class_Thread"
  shows "\<exists>c' s'. rt_completion_done c s = Some (c', s') \<and> co_done c' \<and> in_lock s' \<and> tick s' = tick s \<and>
    (\<forall>t. \<not> co_done c \<and> co_thread c = Some t \<longrightarrow> \<not> susp_stat (tcbs s' t)) \<and>
    (\<forall>t. co_thread c \<noteq> Some t \<longrightarrow> susp_stat (tcbs s' t) = susp_stat (tcbs s t))"
proof -
  let ?s1 = "rt_spin_lock s"
  note L = l [unfolded in_lock_def]
  have u0: "rt_spin_unlock ?s1 = Some s" using L by simp
  consider "co_done c" | "\<not> co_done c" "co_thread c = None" | t where "\<not> co_done c" "co_thread c = Some t" by blast
  then show ?thesis
  proof cases
    case 1
    then show ?thesis using u0 l by (simp add: rt_completion_done_def rt_completion_wakeup_by_errno_def)
  next
    case 2
    then show ?thesis using u0 l by (simp add: rt_completion_done_def rt_completion_wakeup_by_errno_def)
  next
    case 3
    have h: "kinv ?s1" "1 \<le> lock_nest ?s1" "current ?s1 \<noteq> None" "rt_object_get_type (OThread t) ?s1 = RT_Object_Class_Thread"
      using L ty [OF 3(2)] by simp_all
    note R = resume_locked [OF h]
    show ?thesis
    proof (cases "susp_stat (tcbs s t)")
      case True
      then have su: "susp_stat (tcbs ?s1 t)" by simp
      let ?s2 = "(resumed t ?s1)\<lparr>lock_nest := lock_nest s\<rparr>"
      have "rt_spin_unlock (resumed t ?s1) = Some ?s2" by (rule spin_unlock_lock) (use L in simp_all)
      then have "rt_completion_done c s = Some (comp_stat None True, ?s2)"
        using 3 R(1) su by (simp add: rt_completion_done_def rt_completion_wakeup_by_errno_def)
      moreover have "kinv ?s2" by (rule kinv_unlock_nest [OF R(2) [OF su]]) (use L in simp_all)
      ultimately show ?thesis using L 3 by (simp add: in_lock_def)
    next
      case False
      then show ?thesis using 3 R(1) u0 l by (simp add: rt_completion_done_def rt_completion_wakeup_by_errno_def err_defs)
    qed
  qed
qed

definition notified :: "rt_completion \<Rightarrow> kst \<Rightarrow> kst \<Rightarrow> bool" where
  \<comment> \<open>from \<open>s\<close> to \<open>s'\<close>, the thread that waited for the completion \<open>c\<close> was woken, and no other\<close>
  "notified c s s' \<longleftrightarrow> kinv s' \<and> (\<forall>t. \<not> co_done c \<and> co_thread c = Some t \<longrightarrow> \<not> susp_stat (tcbs s' t)) \<and>
     (\<forall>t. co_thread c \<noteq> Some t \<longrightarrow> susp_stat (tcbs s' t) = susp_stat (tcbs s t))"

lemma queue_done_and_leave:
  assumes k: "kinv s" and c: "current s \<noteq> None"
    and ty: "\<And>t. co_thread (wq_completion (wk_queues w q)) = Some t \<Longrightarrow> rt_object_get_type (OThread t) s = RT_Object_Class_Thread"
  shows "\<exists>w' s1 s'. queue_done q (w, rt_spin_lock s) = Some (w', s1) \<and> rt_spin_unlock s1 = Some s' \<and>
    co_done (wq_completion (wk_queues w' q)) \<and> notified (wq_completion (wk_queues w q)) s s' \<and>
    wk_lists w' = wk_lists w \<and> wk_works w' = wk_works w"
proof -
  let ?c = "wq_completion (wk_queues w q)"
  have ty': "\<And>t. co_thread ?c = Some t \<Longrightarrow> rt_object_get_type (OThread t) (rt_spin_lock s) = RT_Object_Class_Thread" using ty by simp
  obtain c' s1 where D: "rt_completion_done ?c (rt_spin_lock s) = Some (c', s1)" "co_done c'" "in_lock s1"
    "\<forall>t. \<not> co_done ?c \<and> co_thread ?c = Some t \<longrightarrow> \<not> susp_stat (tcbs s1 t)"
    "\<forall>t. co_thread ?c \<noteq> Some t \<longrightarrow> susp_stat (tcbs s1 t) = susp_stat (tcbs s t)"
    using completion_done_locked [OF in_lock_lock [OF k c], of ?c] ty' unfolding spin_lock_fields by blast
  obtain s' where U: "rt_spin_unlock s1 = Some s'" "kinv s'" "same_ipc s1 s'" using leave_lock [OF D(3)] by blast
  have "\<forall>t. susp_stat (tcbs s' t) = susp_stat (tcbs s1 t)" using U(3) by (simp add: same_ipc_def)
  then have "notified ?c s s'" using U(2) D(4,5) by (simp add: notified_def)
  moreover have "queue_done q (w, rt_spin_lock s) = Some (upd_queue q (\<lambda>k. k\<lparr>wq_completion := c'\<rparr>) w, s1)"
    using D(1) by (simp add: queue_done_def)
  ultimately show ?thesis using U(1) D(2) by simp
qed

lemma later_is_due:
  assumes ok: "wk_ok base w" and new: "unat (v - base) < unat HALF_TICKS" and y: "y \<in> set (wk_lists w (DelayedL q))"
  shows "wk_timeout_tick (wk_works w y) - v < HALF_TICKS \<longleftrightarrow> unat (v - base) \<le> due_at base w y"
proof -
  have "unat (wk_timeout_tick (wk_works w y) - base) < unat HALF_TICKS"
    using ok y unfolding wk_ok_def delayed_sorted_def due_at_def by blast
  from half_diff_le [OF this new] show ?thesis by (simp add: due_at_def)
qed

text \<open>
  Submitting a work takes it off the list it is on. Without a delay it becomes the last pending work of the queue; with a delay below half
  the range of ticks it is put among the delayed works, before the first that is due no earlier. In both cases the thread of the queue is woken if it
  sleeps, and will not sleep before it has looked at its lists again. A longer delay is refused with \<open>-RT_ERROR\<close>.
\<close>
theorem workqueue_submit_branches:
  assumes k: "kinv s" and c: "current s \<noteq> None" and ok: "wk_ok base w"
    and ty: "\<And>t. co_thread (wq_completion (wk_queues w q)) = Some t \<Longrightarrow> rt_object_get_type (OThread t) s = RT_Object_Class_Thread"
    and new: "unat (tick s + ticks - base) < unat HALF_TICKS"
  shows "if HALF_TICKS \<le> ticks then
      \<exists>w'. workqueue_submit_work q x ticks (w, s) = Some (- RT_ERROR, w', s) \<and> wk_lists w' = st_remove x (wk_lists w) \<and>
        wk_flags (wk_works w' x) = 0
    else \<exists>w' s'. workqueue_submit_work q x ticks (w, s) = Some (RT_EOK, w', s') \<and>
      co_done (wq_completion (wk_queues w' q)) \<and> notified (wq_completion (wk_queues w q)) s s' \<and>
      wk_workqueue (wk_works w' x) = Some q \<and>
      (if ticks = 0 then wk_flags (wk_works w' x) = RT_WORK_STATE_PENDING \<and>
         wk_lists w' = st_append (WorkL q) x (st_remove x (wk_lists w))
       else wk_flags (wk_works w' x) = RT_WORK_STATE_SUBMITTING \<and> wk_timeout_tick (wk_works w' x) = tick s + ticks \<and>
         wk_lists w' = (st_remove x (wk_lists w))
           (DelayedL q := ins_before (\<lambda>y. unat (tick s + ticks - base) \<le> due_at base w y) x (removeAll x (wk_lists w (DelayedL q)))))"
proof -
  let ?w0 = "upd_work x (\<lambda>k. k\<lparr>wk_flags := 0\<rparr>) (upd_wlists (st_remove x) w)"
  consider "ticks = 0" | "ticks \<noteq> 0" "ticks < HALF_TICKS" | "ticks \<noteq> 0" "\<not> ticks < HALF_TICKS" by blast
  then show ?thesis
  proof cases
    case 1
    let ?w1 = "upd_work x (\<lambda>k. k\<lparr>wk_flags := wk_flags k OR RT_WORK_STATE_PENDING, wk_workqueue := Some q\<rparr>)
      (upd_wlists (st_append (WorkL q) x) ?w0)"
    obtain w' s1 s' where Q: "queue_done q (?w1, rt_spin_lock s) = Some (w', s1)" "rt_spin_unlock s1 = Some s'"
      "co_done (wq_completion (wk_queues w' q))" "notified (wq_completion (wk_queues w q)) s s'"
      "wk_lists w' = wk_lists ?w1" "wk_works w' = wk_works ?w1"
      using queue_done_and_leave [OF k c, of ?w1 q] ty by auto
    then have "workqueue_submit_work q x ticks (w, s) = Some (RT_EOK, w', s')"
      using 1 by (simp add: workqueue_submit_work_def Let_def)
    then show ?thesis using Q(3-6) 1 by (simp add: HALF_TICKS_val)
  next
    case 2
    let ?f = "\<lambda>k. k\<lparr>wk_flags := wk_flags k OR RT_WORK_STATE_SUBMITTING, wk_workqueue := Some q, wk_timeout_tick := tick s + ticks\<rparr>"
    let ?w1 = "upd_work x ?f ?w0"
    let ?P = "\<lambda>y. wk_timeout_tick (wk_works ?w1 y) - wk_timeout_tick (wk_works ?w1 x) < HALF_TICKS"
    let ?w2 = "upd_wlists (\<lambda>ls. ls(DelayedL q := ins_before ?P x (ls (DelayedL q)))) ?w1"
    obtain w' s1 s' where Q: "queue_done q (?w2, rt_spin_lock s) = Some (w', s1)" "rt_spin_unlock s1 = Some s'"
      "co_done (wq_completion (wk_queues w' q))" "notified (wq_completion (wk_queues w q)) s s'"
      "wk_lists w' = wk_lists ?w2" "wk_works w' = wk_works ?w2"
      using queue_done_and_leave [OF k c, of ?w2 q] ty by auto
    have run: "workqueue_submit_work q x ticks (w, s) = Some (RT_EOK, w', s')"
      using 2 Q(1,2) unfolding workqueue_submit_work_def Let_def rt_tick_get_def by simp
    have "?P y = (unat (tick s + ticks - base) \<le> due_at base w y)" if "y \<in> set (removeAll x (wk_lists w (DelayedL q)))" for y
      using later_is_due [OF ok new, of y q] that by auto
    then have "ins_before ?P x (removeAll x (wk_lists w (DelayedL q))) =
        ins_before (\<lambda>y. unat (tick s + ticks - base) \<le> due_at base w y) x (removeAll x (wk_lists w (DelayedL q)))"
      by (rule ins_before_cong)
    then have "wk_lists w' = (st_remove x (wk_lists w))
        (DelayedL q := ins_before (\<lambda>y. unat (tick s + ticks - base) \<le> due_at base w y) x (removeAll x (wk_lists w (DelayedL q))))"
      unfolding Q(5) by simp
    moreover have "wk_workqueue (wk_works w' x) = Some q" "wk_flags (wk_works w' x) = RT_WORK_STATE_SUBMITTING"
      "wk_timeout_tick (wk_works w' x) = tick s + ticks" unfolding Q(6) by simp_all
    moreover have "\<not> HALF_TICKS \<le> ticks" using 2(2) by simp
    ultimately show ?thesis using run Q(3,4) 2(1) by (simp only: if_False) blast
  next
    case 3
    then have "HALF_TICKS \<le> ticks" by simp
    then show ?thesis using 3 k by (simp add: workqueue_submit_work_def Let_def)
  qed
qed


subsection \<open>A turn of the thread\<close>

definition same_works :: "wkst \<Rightarrow> wkst \<Rightarrow> bool" where
  \<comment> \<open>the works differ in their flags only\<close>
  "same_works w w' \<longleftrightarrow> (\<forall>y. wk_func (wk_works w' y) = wk_func (wk_works w y) \<and> wk_data (wk_works w' y) = wk_data (wk_works w y) \<and>
     wk_timeout_tick (wk_works w' y) = wk_timeout_tick (wk_works w y))"

lemma store_move:
  assumes ok: "store_ok ls" and d: "ls h = x # xs" and n: "h' \<noteq> h"
  shows "st_append h' x (st_remove x ls) = ls(h := xs, h' := ls h' @ [x])"
proof -
  have "x \<notin> set xs" using store_okD(1) [OF ok, of h] d by simp
  moreover have "x \<notin> set (ls l)" if "l \<noteq> h" for l
    using ok d that unfolding store_ok_def by (metis list.set_intros(1))
  ultimately show ?thesis using d n by (auto simp: fun_eq_iff st_append_def st_remove_def)
qed

lemma move_due_step:
  assumes "store_ok (wk_lists w)" and "wk_lists w (DelayedL q) = x # xs" and "now - wk_timeout_tick (wk_works w x) < HALF_TICKS"
  shows "\<exists>w'. move_due q now w = move_due q now w' \<and> wk_queues w' = wk_queues w \<and> same_works w w' \<and>
    wk_lists w' = (wk_lists w)(DelayedL q := xs, WorkL q := wk_lists w (WorkL q) @ [x])"
proof -
  let ?w1 = "upd_work x (\<lambda>k. k\<lparr>wk_flags := wk_flags k AND NOT RT_WORK_STATE_SUBMITTING\<rparr>)
    (upd_wlists (st_append (WorkL q) x) (upd_wlists (st_remove x) w))"
  let ?w2 = "upd_work x (\<lambda>k. k\<lparr>wk_flags := wk_flags k OR RT_WORK_STATE_PENDING\<rparr>) ?w1"
  have "move_due q now w = move_due q now ?w2" using assms(2,3) by (subst move_due.simps) (simp add: Let_def)
  moreover have "wk_lists ?w2 = (wk_lists w)(DelayedL q := xs, WorkL q := wk_lists w (WorkL q) @ [x])"
    using store_move [OF assms(1,2), of "WorkL q"] by simp
  ultimately show ?thesis by (intro exI [of _ ?w2]) (simp add: same_works_def)
qed

lemma move_due_run:
  assumes "store_ok (wk_lists w)" and "wk_lists w (DelayedL q) = xs"
    and "\<And>x. x \<in> set xs \<Longrightarrow> now - wk_timeout_tick (wk_works w x) < HALF_TICKS \<longleftrightarrow> P x"
  shows "\<exists>w'. move_due q now w =
      (case dropWhile P xs of [] \<Rightarrow> RT_WAITING_FOREVER | x # _ \<Rightarrow> sint (wk_timeout_tick (wk_works w x) - now), w') \<and>
    wk_lists w' = (wk_lists w)(DelayedL q := dropWhile P xs, WorkL q := wk_lists w (WorkL q) @ takeWhile P xs) \<and>
    wk_queues w' = wk_queues w \<and> same_works w w'"
  using assms
proof (induction xs arbitrary: w)
  case Nil
  then have "(wk_lists w)(DelayedL q := [], WorkL q := wk_lists w (WorkL q)) = wk_lists w" by (auto simp: fun_eq_iff)
  then show ?case using Nil by (subst move_due.simps) (simp add: same_works_def)
next
  case (Cons x xs)
  show ?case
  proof (cases "P x")
    case False
    have "(wk_lists w)(DelayedL q := x # xs, WorkL q := wk_lists w (WorkL q)) = wk_lists w" using Cons.prems(2) by (auto simp: fun_eq_iff)
    then show ?thesis using Cons.prems(2) Cons.prems(3) [of x] False by (subst move_due.simps) (simp add: same_works_def)
  next
    case True
    have u: "wk_lists w (DelayedL q) = x # xs" "now - wk_timeout_tick (wk_works w x) < HALF_TICKS"
      using Cons.prems(2) Cons.prems(3) [of x] True by simp_all
    obtain w2 where w2: "wk_lists w2 = (wk_lists w)(DelayedL q := xs, WorkL q := wk_lists w (WorkL q) @ [x])"
      "wk_queues w2 = wk_queues w" "same_works w w2" "move_due q now w = move_due q now w2"
      using move_due_step [OF Cons.prems(1) u] by blast
    have t: "wk_timeout_tick (wk_works w2 z) = wk_timeout_tick (wk_works w z)" for z using w2(3) by (simp add: same_works_def)
    have ok: "store_ok (wk_lists w2)"
      using store_ok_append [of "st_remove x (wk_lists w)" x "WorkL q"] store_move [OF Cons.prems(1) u(1), of "WorkL q"] Cons.prems(1)
      unfolding w2(1) by auto
    have P: "now - wk_timeout_tick (wk_works w2 y) < HALF_TICKS \<longleftrightarrow> P y" if "y \<in> set xs" for y
      using Cons.prems(3) [of y] that by (simp add: t)
    have d: "wk_lists w2 (DelayedL q) = xs" unfolding w2(1) by simp
    obtain w' where w': "move_due q now w2 =
        (case dropWhile P xs of [] \<Rightarrow> RT_WAITING_FOREVER | z # _ \<Rightarrow> sint (wk_timeout_tick (wk_works w z) - now), w')"
      "wk_lists w' = (wk_lists w2)(DelayedL q := dropWhile P xs, WorkL q := wk_lists w2 (WorkL q) @ takeWhile P xs)"
      "wk_queues w' = wk_queues w2" "same_works w2 w'" using Cons.IH [OF ok d P] unfolding t by blast
    have tw: "dropWhile P (x # xs) = dropWhile P xs" "takeWhile P (x # xs) = x # takeWhile P xs" using True by simp_all
    have "wk_lists w' = (wk_lists w)(DelayedL q := dropWhile P xs, WorkL q := wk_lists w (WorkL q) @ x # takeWhile P xs)"
      unfolding w'(2) w2(1) by (simp add: fun_eq_iff)
    moreover have "same_works w w'" using w2(3) w'(4) unfolding same_works_def by metis
    ultimately show ?thesis using w'(1,3) w2(2,4) unfolding tw by metis
  qed
qed

lemma filter_sorted:
  assumes "sorted (map f xs)"
  shows "filter (\<lambda>x. f x \<le> (n :: nat)) xs = takeWhile (\<lambda>x. f x \<le> n) xs \<and>
    filter (\<lambda>x. n < f x) xs = dropWhile (\<lambda>x. f x \<le> n) xs"
  using assms
proof (induction xs)
  case (Cons x xs)
  show ?case
  proof (cases "f x \<le> n")
    case True
    then show ?thesis using Cons by simp
  next
    case False
    then have "\<forall>y \<in> set xs. n < f y" using Cons.prems by fastforce
    then show ?thesis using False by (simp add: filter_empty_conv filter_id_conv not_le)
  qed
qed simp

lemma sint_due:
  fixes v now base :: u32
  assumes "unat (v - base) < unat HALF_TICKS" and "unat (now - base) < unat (v - base)"
  shows "sint (v - now) = int (unat (v - base) - unat (now - base))"
proof -
  have e: "v - now = (v - base) - (now - base)" by simp
  have u: "unat (v - now) = unat (v - base) - unat (now - base)" unfolding e using assms(2) by (intro unat_sub) (simp add: word_le_nat_alt)
  then have "unat (v - now) < 2147483648" using assms(1) by (simp add: HALF_TICKS_val)
  then have "uint (v - now) < 2147483648" by (metis uint_nat of_nat_less_iff of_nat_numeral)
  moreover have "- 2147483648 \<le> uint (v - now)" by (rule order_trans [OF _ uint_ge_0]) simp
  ultimately have "sint (v - now) = uint (v - now)"
    using signed_take_bit_int_eq_self [of 31 "uint (v - now)"] by (simp add: sint_uint)
  then show ?thesis using u by (metis uint_nat)
qed

definition until_due :: "u32 \<Rightarrow> nat \<Rightarrow> wkst \<Rightarrow> nat list \<Rightarrow> int" where
  \<comment> \<open>how long the thread may sleep when the works \<open>xs\<close> are delayed and \<open>n\<close> ticks have passed since \<open>base\<close>\<close>
  "until_due base n w xs = (case xs of [] \<Rightarrow> RT_WAITING_FOREVER | x # _ \<Rightarrow> int (due_at base w x - n))"

lemma move_due_in_order:
  assumes ok: "wk_ok base w" and now: "unat (now - base) < unat HALF_TICKS"
    and D: "wk_lists w (DelayedL q) = D" and n: "unat (now - base) = n"
  shows "\<exists>w'. move_due q now w = (until_due base n w (filter (\<lambda>x. n < due_at base w x) D), w') \<and>
    wk_lists w' = (wk_lists w)(DelayedL q := filter (\<lambda>x. n < due_at base w x) D,
      WorkL q := wk_lists w (WorkL q) @ filter (\<lambda>x. due_at base w x \<le> n) D) \<and>
    wk_queues w' = wk_queues w \<and> same_works w w'"
proof -
  let ?P = "\<lambda>x. due_at base w x \<le> n"
  have so: "sorted (map (due_at base w) D)" and h: "\<And>x. x \<in> set D \<Longrightarrow> due_at base w x < unat HALF_TICKS"
    and st: "store_ok (wk_lists w)" using ok D by (auto simp: wk_ok_def delayed_sorted_def)
  have P: "now - wk_timeout_tick (wk_works w x) < HALF_TICKS \<longleftrightarrow> ?P x" if "x \<in> set D" for x
    using half_diff_le [OF now, of "wk_timeout_tick (wk_works w x)"] h [OF that] n by (simp add: due_at_def)
  note F = filter_sorted [OF so, of n]
  have e: "(case dropWhile ?P D of [] \<Rightarrow> RT_WAITING_FOREVER | x # _ \<Rightarrow> sint (wk_timeout_tick (wk_works w x) - now)) =
      until_due base n w (dropWhile ?P D)"
  proof (cases "dropWhile ?P D")
    case Nil
    show ?thesis unfolding until_due_def Nil by simp
  next
    case (Cons x xs)
    then have "x \<in> set (filter (\<lambda>x. n < due_at base w x) D)" using F by simp
    then have x: "due_at base w x < unat HALF_TICKS" "n < due_at base w x" using h by auto
    then have "sint (wk_timeout_tick (wk_works w x) - now) = int (due_at base w x - n)"
      using sint_due [of "wk_timeout_tick (wk_works w x)" base now] n by (simp add: due_at_def)
    then show ?thesis unfolding until_due_def Cons by simp
  qed
  show ?thesis using move_due_run [OF st D, of now ?P] P F e by metis
qed

lemma until_due_can_wait:
  assumes "can_wait t 0 s" and "\<And>x. x \<in> set xs \<Longrightarrow> n < due_at base w x \<and> due_at base w x < unat HALF_TICKS"
  shows "can_wait t (until_due base n w xs) s" and "until_due base n w xs \<noteq> 0"
proof -
  have h: "word_of_int (int d) < HALF_TICKS" if "d < unat HALF_TICKS" for d
    using that by (simp add: word_less_nat_alt HALF_TICKS_val unsigned_of_nat take_bit_nat_eq_self)
  show "can_wait t (until_due base n w xs) s"
  proof (cases xs)
    case Nil
    then show ?thesis using assms(1) by (simp add: can_wait_def until_due_def RT_WAITING_FOREVER_def)
  next
    case (Cons x ys)
    then have "n < due_at base w x \<and> due_at base w x < unat HALF_TICKS" using assms(2) [of x] by simp
    then have "due_at base w x - n < unat HALF_TICKS" by linarith
    from h [OF this] show ?thesis using assms(1) unfolding can_wait_def until_due_def Cons list.case by blast
  qed
  show "until_due base n w xs \<noteq> 0"
    using assms(2) by (fastforce simp: until_due_def RT_WAITING_FOREVER_def split: list.splits)
qed

text \<open>
  One turn of the thread of a work queue. Exactly the delayed works whose time has come follow the pending works, in the order of their times.
  The first work of the result, if any, is called with its data, after it has left the lists. Otherwise the thread returns at once if
  something was submitted meanwhile, and sleeps until the first delayed work is due, for ever if there is none.
\<close>
theorem workqueue_round_runs_due:
  assumes w: "can_wait t 0 s" and ok: "wk_ok base w" and now: "unat (tick s - base) < unat HALF_TICKS"
    and c: "co_thread (wq_completion (wk_queues w q)) = None"
  shows "case wk_lists w (WorkL q) @ filter (\<lambda>x. due_at base w x \<le> unat (tick s - base)) (wk_lists w (DelayedL q)) of
      x # xs \<Rightarrow> \<exists>w'. workqueue_round q (w, s) = Some (Calls (wk_func (wk_works w x)) x (wk_data (wk_works w x)), w', s) \<and>
        wk_lists w' = (wk_lists w)(WorkL q := xs, DelayedL q := filter (\<lambda>x. unat (tick s - base) < due_at base w x) (wk_lists w (DelayedL q))) \<and>
        wq_current (wk_queues w' q) = Some x \<and> wk_workqueue (wk_works w' x) = None
    | [] \<Rightarrow>
        if co_done (wq_completion (wk_queues w q)) then
          \<exists>w'. workqueue_round q (w, s) = Some (Polled RT_EOK, w', s) \<and> wk_lists w' = wk_lists w \<and>
            wq_completion (wk_queues w' q) = comp_stat None False
        else \<exists>w' s'. workqueue_round q (w, s) = Some (Sleeps, w', s') \<and> wk_lists w' = wk_lists w \<and>
            wq_completion (wk_queues w' q) = comp_stat (Some t) False \<and>
            parks t (until_due base (unat (tick s - base)) w (wk_lists w (DelayedL q))) RT_EOK s s'"
proof -
  let ?n = "unat (tick s - base)" and ?D = "wk_lists w (DelayedL q)" and ?c = "wq_completion (wk_queues w q)"
  let ?due = "filter (\<lambda>x. due_at base w x \<le> ?n) ?D" and ?rest = "filter (\<lambda>x. ?n < due_at base w x) ?D"
  obtain w1 where M: "move_due q (tick s) w = (until_due base ?n w ?rest, w1)"
    "wk_lists w1 = (wk_lists w)(DelayedL q := ?rest, WorkL q := wk_lists w (WorkL q) @ ?due)"
    "wk_queues w1 = wk_queues w" "same_works w w1" using move_due_in_order [OF ok now refl refl] by blast
  note C = can_waitD [OF w]
  have ok1: "store_ok (wk_lists w1)" using move_due_keeps [OF ok, of q "tick s"] M(1) by (simp add: wk_ok_def)
  show ?thesis
  proof (cases "wk_lists w (WorkL q) @ ?due")
    case (Cons x xs)
    let ?w2 = "upd_work x (\<lambda>k. k\<lparr>wk_flags := wk_flags k AND NOT RT_WORK_STATE_PENDING, wk_workqueue := None\<rparr>)
      (upd_queue q (\<lambda>k. k\<lparr>wq_current := Some x\<rparr>) (upd_wlists (st_remove x) w1))"
    have l: "wk_lists w1 (WorkL q) = x # xs" using M(2) Cons by simp
    have "x \<notin> set xs" using store_okD(1) [OF ok1, of "WorkL q"] l by simp
    moreover have "x \<notin> set (wk_lists w1 h)" if "h \<noteq> WorkL q" for h
      using ok1 l that unfolding store_ok_def by (metis list.set_intros(1))
    ultimately have "st_remove x (wk_lists w1) = (wk_lists w1)(WorkL q := xs)" using l by (auto simp: fun_eq_iff)
    then have "wk_lists ?w2 = (wk_lists w)(WorkL q := xs, DelayedL q := ?rest)" using M(2) by (simp add: fun_upd_twist)
    moreover have "workqueue_round q (w, s) = Some (Calls (wk_func (wk_works w x)) x (wk_data (wk_works w x)), ?w2, s)"
      using M(1,4) l C(1) by (simp add: workqueue_round_def Let_def rt_tick_get_def same_works_def)
    ultimately show ?thesis unfolding Cons list.case by (intro exI [of _ ?w2]) simp
  next
    case Nil
    then have rest: "?rest = ?D" and wl: "wk_lists w1 (WorkL q) = []"
      using M(2) by (auto simp: filter_empty_conv filter_id_conv not_le)
    have l1: "wk_lists w1 = wk_lists w" using M(2) Nil rest by (auto simp: fun_eq_iff)
    have b: "?n < due_at base w x \<and> due_at base w x < unat HALF_TICKS" if x: "x \<in> set ?rest" for x
      using ok x by (auto simp: wk_ok_def delayed_sorted_def)
    note U = until_due_can_wait [OF w, where xs = ?rest, OF b]
    show ?thesis
    proof (cases "co_done ?c")
      case True
      then have "rt_completion_wait (until_due base ?n w ?rest) ?c s = Some ((Some RT_EOK, comp_stat None False), s)"
        unfolding rt_completion_wait_def using C(1,4) by (intro wait_flags_done) simp_all
      then show ?thesis unfolding Nil list.case
        using True M(1,3) wl l1 C(1) by (simp add: workqueue_round_def Let_def rt_tick_get_def)
    next
      case False
      then have "?c = comp_stat None False" using c by simp
      from wait_flags_parks [OF U(1) this U(2)] obtain s' where
        s': "rt_completion_wait (until_due base ?n w ?rest) ?c s = Some ((None, comp_stat (Some t) False), s')"
          "parks t (until_due base ?n w ?rest) RT_EOK s s'" unfolding rt_completion_wait_def by blast
      then show ?thesis unfolding Nil list.case
        using False M(1,3) wl l1 C(1) rest by (auto simp: workqueue_round_def Let_def rt_tick_get_def)
    qed
  qed
qed


subsection \<open>Cancelling everything\<close>

definition cancelled :: "nat \<Rightarrow> wkst \<Rightarrow> bool" where
  "cancelled x w \<longleftrightarrow> wk_flags (wk_works w x) = 0 \<and> wk_workqueue (wk_works w x) = None"

lemma cancel_run:
  "kinv s \<Longrightarrow> \<exists>e w'. workqueue_cancel_work q x (w, s) = Some (e, w', s) \<and> wk_lists w' = st_remove x (wk_lists w) \<and> cancelled x w' \<and>
    (\<forall>y. y \<noteq> x \<longrightarrow> wk_works w' y = wk_works w y)"
  by (simp add: workqueue_cancel_work_def Let_def cancelled_def)

lemma cancel_list_run:
  assumes "kinv s" and "store_ok (wk_lists w)" and "wk_lists w l = xs"
  shows "\<exists>w'. cancel_list q l (w, s) = Some (w', s) \<and> wk_lists w' = (wk_lists w)(l := []) \<and> (\<forall>x \<in> set xs. cancelled x w') \<and>
    (\<forall>y. y \<notin> set xs \<longrightarrow> wk_works w' y = wk_works w y)"
  using assms
proof (induction xs arbitrary: w)
  case Nil
  then have "(wk_lists w)(l := []) = wk_lists w" by auto
  with Nil show ?case by (subst cancel_list.simps) simp
next
  case (Cons x xs)
  obtain e w1 where c: "workqueue_cancel_work q x (w, s) = Some (e, w1, s)" "wk_lists w1 = st_remove x (wk_lists w)" "cancelled x w1"
    "\<forall>y. y \<noteq> x \<longrightarrow> wk_works w1 y = wk_works w y" using cancel_run [OF Cons.prems(1)] by blast
  have nx: "x \<notin> set xs" using store_okD(1) [OF Cons.prems(2), of l] Cons.prems(3) by simp
  have "x \<notin> set (wk_lists w h)" if "h \<noteq> l" for h
    using Cons.prems(2,3) that unfolding store_ok_def by (metis list.set_intros(1))
  then have l1: "wk_lists w1 = (wk_lists w)(l := xs)" using c(2) Cons.prems(3) nx by (auto simp: fun_eq_iff)
  have "store_ok (wk_lists w1)" using c(2) Cons.prems(2) by auto
  from Cons.IH [OF Cons.prems(1) this] l1 obtain w' where w': "cancel_list q l (w1, s) = Some (w', s)"
    "wk_lists w' = (wk_lists w)(l := [])" "\<forall>y \<in> set xs. cancelled y w'" "\<forall>y. y \<notin> set xs \<longrightarrow> wk_works w' y = wk_works w1 y"
    unfolding l1 fun_upd_upd fun_upd_same by blast
  have "cancel_list q l (w, s) = Some (w', s)" using c(1) w'(1) Cons.prems(3) by (subst cancel_list.simps) simp
  moreover have "cancelled x w'" using w'(4) nx c(3) by (simp add: cancelled_def)
  ultimately show ?case using w'(2-4) c(4) by (intro exI [of _ w']) simp
qed

text \<open>
  \<open>rt_workqueue_cancel_all_work\<close> ends with both lists of the queue empty and every work that was on them cancelled. No other work
  is touched.
\<close>
theorem rt_workqueue_cancel_all_empties:
  assumes k: "kinv s" and ok: "store_ok (wk_lists w)"
  shows "\<exists>w'. rt_workqueue_cancel_all_work q (w, s) = Some (RT_EOK, w', s) \<and>
    wk_lists w' = (wk_lists w)(WorkL q := [], DelayedL q := []) \<and>
    (\<forall>x. if x \<in> set (wk_lists w (WorkL q)) \<union> set (wk_lists w (DelayedL q)) then cancelled x w' else wk_works w' x = wk_works w x)"
proof -
  let ?s = "rt_enter_critical s"
  have k1: "kinv ?s" and e: "rt_exit_critical ?s = Some s"
    using k unlock_locked [OF k] unfolding enter_critical_lock exit_critical_unlock by simp_all
  obtain w1 where w1: "cancel_list q (WorkL q) (w, ?s) = Some (w1, ?s)" "wk_lists w1 = (wk_lists w)(WorkL q := [])"
    "\<forall>x \<in> set (wk_lists w (WorkL q)). cancelled x w1" "\<forall>y. y \<notin> set (wk_lists w (WorkL q)) \<longrightarrow> wk_works w1 y = wk_works w y"
    using cancel_list_run [OF k1 ok refl, where l = "WorkL q"] by blast
  have ok1: "store_ok (wk_lists w1)" using ok w1(2) by (auto simp: store_ok_def)
  obtain w2 where w2: "cancel_list q (DelayedL q) (w1, ?s) = Some (w2, ?s)" "wk_lists w2 = (wk_lists w1)(DelayedL q := [])"
    "\<forall>x \<in> set (wk_lists w1 (DelayedL q)). cancelled x w2" "\<forall>y. y \<notin> set (wk_lists w1 (DelayedL q)) \<longrightarrow> wk_works w2 y = wk_works w1 y"
    using cancel_list_run [OF k1 ok1 refl, where l = "DelayedL q"] by blast
  have d: "wk_lists w1 (DelayedL q) = wk_lists w (DelayedL q)" using w1(2) by simp
  have "if x \<in> set (wk_lists w (WorkL q)) \<union> set (wk_lists w (DelayedL q)) then cancelled x w2 else wk_works w2 x = wk_works w x" for x
    using w1(3,4) w2(3,4) unfolding d cancelled_def by (cases "x \<in> set (wk_lists w (DelayedL q))") auto
  moreover have "rt_workqueue_cancel_all_work q (w, s) = Some (RT_EOK, w2, s)"
    using w1(1) w2(1) e by (simp add: rt_workqueue_cancel_all_work_def)
  ultimately show ?thesis using w1(2) w2(2) by (intro exI [of _ w2]) simp
qed

lemma urgent_keeps_state:
  \<comment> \<open>an urgent work is pending, but its flags and its queue are those of an earlier submission\<close>
  "rt_workqueue_urgent_work q x (w, s) = Some (e, w', s') \<Longrightarrow> wk_works w' x = wk_works w x \<and> hd (wk_lists w' (WorkL q)) = x"
  using queue_done_lists by (fastforce simp: rt_workqueue_urgent_work_def Let_def elim!: bind_SomeE)


subsection \<open>Instances\<close>

definition demo_wkst :: "rt_completion \<Rightarrow> wkst" where
  \<comment> \<open>queue 0: work 5 is pending, works 6 and 8 are delayed until the ticks 90 and 150\<close>
  "demo_wkst c = \<lparr>wk_queues = (\<lambda>_. \<lparr>wq_current = None, wq_sem = 7, wq_thread = 1, wq_completion = c\<rparr>),
     wk_lists = (\<lambda>_. [])(WorkL 0 := [5], DelayedL 0 := [6, 8]),
     wk_works = (\<lambda>x. \<lparr>wk_func = x + 1, wk_data = 2 * x, wk_flags = 0, wk_type = 0, wk_timeout_tick = (if x = 6 then 90 else 150), wk_workqueue = Some 0\<rparr>)\<rparr>"

lemma demo_wkst_fields [simp]:
  "wk_queues (demo_wkst c) q = \<lparr>wq_current = None, wq_sem = 7, wq_thread = 1, wq_completion = c\<rparr>"
  "wk_lists (demo_wkst c) (WorkL 0) = [5]" "wk_lists (demo_wkst c) (DelayedL 0) = [6, 8]"
  by (simp_all add: demo_wkst_def)

lemma demo_wkst_due: "due_at 50 (demo_wkst c) 6 = 40" "due_at 50 (demo_wkst c) 8 = 100"
  by (simp_all add: due_at_def demo_wkst_def)

lemma demo_wk_ok: "wk_ok 50 (demo_wkst c)"
proof -
  have "store_ok (wk_lists (demo_wkst c))" by (auto simp: store_ok_def demo_wkst_def split: if_splits)
  moreover have "wk_lists (demo_wkst c) (DelayedL q) = (if q = 0 then [6, 8] else [])" for q by (simp add: demo_wkst_def)
  ultimately show ?thesis by (simp add: wk_ok_def delayed_sorted_def demo_wkst_due HALF_TICKS_val)
qed

theorem workqueue_lists_ok_witness:
  "wk_ok 50 (rt_work_init 9 1 2 (demo_wkst rt_completion_init))"
proof -
  have "wk_step 50 (demo_wkst rt_completion_init, blank_kst) (rt_work_init 9 1 2 (demo_wkst rt_completion_init), blank_kst)"
    by (rule wk_step.init) (auto simp: unlinked_def demo_wkst_def)
  from workqueue_lists_ok [OF r_into_rtranclp [where r = "wk_step 50", OF this]] demo_wk_ok show ?thesis by simp
qed

theorem workqueue_called_wakes_witness:
  "\<exists>w' s'. workqueue_called 0 (demo_wkst rt_completion_init, upd_sem 7 (\<lambda>m. m\<lparr>sem_max_value := 9\<rparr>) (demo_wait (SemQ 7))) = Some (w', s') \<and>
     tlists s' (sem_q 7) = [] \<and> \<not> susp_stat (tcbs s' 3) \<and> sem_take_resume 2 s' = RT_EOK"
proof -
  let ?s = "upd_sem 7 (\<lambda>m. m\<lparr>sem_max_value := 9\<rparr>) (demo_wait (SemQ 7))"
  have "sem_ok 7 (demo_wait (SemQ 7))" by (simp add: sem_ok_def ipc_flag_ok_def ipc_flag_def demo_objs_def blank_kst_def)
  then have "sem_ok 7 ?s" by (simp add: sem_ok_def ipc_flag_def)
  moreover have "kinv ?s" using kinv_demo by simp
  ultimately show ?thesis using workqueue_called_wakes [of ?s "demo_wkst rt_completion_init" 0] by auto
qed

theorem workqueue_submit_branches_witness:
  "\<exists>w' s'. workqueue_submit_work 0 5 20 (demo_wkst (comp_stat (Some 3) False), demo_wait (SemQ 7)) = Some (RT_EOK, w', s') \<and>
     \<not> susp_stat (tcbs s' 3) \<and> wk_lists w' (WorkL 0) = [] \<and> wk_lists w' (DelayedL 0) = [6, 5, 8]"
proof -
  have "unat (tick (demo_wait (SemQ 7)) + 20 - 50) < unat HALF_TICKS" by (simp add: HALF_TICKS_val)
  then show ?thesis
    using workqueue_submit_branches [where s = "demo_wait (SemQ 7)" and base = 50 and ticks = 20 and q = 0 and x = 5
        and w = "demo_wkst (comp_stat (Some 3) False)"] kinv_demo [of "SemQ 7"] demo_wk_ok
    by (auto simp: HALF_TICKS_val notified_def demo_wkst_due)
qed

theorem workqueue_round_runs_due_witness:
  "\<exists>w'. workqueue_round 0 (demo_wkst (comp_stat None False), demo_wait (SemQ 7)) = Some (Calls 6 5 10, w', demo_wait (SemQ 7)) \<and>
     wk_lists w' (WorkL 0) = [6] \<and> wk_lists w' (DelayedL 0) = [8]"
proof -
  have w: "can_wait 1 0 (demo_wait (SemQ 7))" using demo_wait_can [of "SemQ 7"] by (simp add: can_wait_def)
  have "unat (tick (demo_wait (SemQ 7)) - 50) < unat HALF_TICKS" by (simp add: HALF_TICKS_val)
  from workqueue_round_runs_due [where q = 0 and w = "demo_wkst (comp_stat None False)", OF w demo_wk_ok this]
  show ?thesis by (auto simp: demo_wkst_due) (auto simp: demo_wkst_def)
qed

end
