(* ===== verification/SList.thy ===== *)
theory SList
  imports Prelude
begin

text \<open>
  Singly linked lists (\<open>rt_slist_t\<close> of include/rtservice.h). A heap gives the \<open>next\<close> field of every node, \<open>None\<close> being
  \<open>RT_NULL\<close>; the head of a list is a node like any other. The operations are those of the code, on the pointers; the loops that follow
  the pointers may run for ever on a cyclic heap. \<open>slist h l xs\<close> says that the list with head \<open>l\<close> holds the nodes \<open>xs\<close>, and
  on such heaps every operation ends and does to \<open>xs\<close> what it should.
\<close>

type_synonym 'a slist_heap = "'a \<Rightarrow> 'a option"

definition rt_slist_init :: "'a \<Rightarrow> 'a slist_heap \<Rightarrow> 'a slist_heap" where
  "rt_slist_init l h = h(l := None)"

partial_function (option) slist_last :: "'a slist_heap \<Rightarrow> 'a \<Rightarrow> 'a option" where
  \<comment> \<open>\<open>while (node->next) node = node->next;\<close>\<close>
  "slist_last h node = (case h node of None \<Rightarrow> Some node | Some n \<Rightarrow> slist_last h n)"

definition rt_slist_append :: "'a \<Rightarrow> 'a \<Rightarrow> 'a slist_heap \<Rightarrow> 'a slist_heap option" where
  "rt_slist_append l n h = do {
     node \<leftarrow> slist_last h l;
     let h = h(node := Some n);
     Some (h(n := None))
   }"

definition rt_slist_insert :: "'a \<Rightarrow> 'a \<Rightarrow> 'a slist_heap \<Rightarrow> 'a slist_heap" where
  "rt_slist_insert l n h = (let h = h(n := h l) in h(l := Some n))"

partial_function (option) slist_count :: "'a slist_heap \<Rightarrow> 'a option \<Rightarrow> u32 \<Rightarrow> u32 option" where
  \<comment> \<open>the loop of \<open>rt_slist_len\<close>\<close>
  "slist_count h list len = (case list of None \<Rightarrow> Some len | Some n \<Rightarrow> slist_count h (h n) (len + 1))"

definition rt_slist_len :: "'a \<Rightarrow> 'a slist_heap \<Rightarrow> u32 option" where
  "rt_slist_len l h = slist_count h (h l) 0"

definition rt_slist_pop :: "'a \<Rightarrow> 'a slist_heap \<Rightarrow> 'a option \<times> 'a slist_heap" where
  "rt_slist_pop l h = (case h l of None \<Rightarrow> (None, h) | Some node \<Rightarrow> (Some node, (h(l := h node))(node := None)))"

partial_function (option) slist_before :: "'a slist_heap \<Rightarrow> 'a \<Rightarrow> 'a \<Rightarrow> 'a option" where
  \<comment> \<open>\<open>while (node->next && node->next != n) node = node->next;\<close>\<close>
  "slist_before h n node = (case h node of None \<Rightarrow> Some node | Some m \<Rightarrow> if m \<noteq> n then slist_before h n m else Some node)"

definition rt_slist_remove :: "'a \<Rightarrow> 'a \<Rightarrow> 'a slist_heap \<Rightarrow> 'a slist_heap option" where
  "rt_slist_remove l n h = do {
     node \<leftarrow> slist_before h n l;
     Some (case h node of None \<Rightarrow> h | Some m \<Rightarrow> (h(node := h m))(n := None))
   }"

definition rt_slist_first :: "'a \<Rightarrow> 'a slist_heap \<Rightarrow> 'a option" where
  "rt_slist_first l h = h l"

definition rt_slist_tail :: "'a \<Rightarrow> 'a slist_heap \<Rightarrow> 'a option" where
  "rt_slist_tail l h = slist_last h l"

definition rt_slist_next :: "'a \<Rightarrow> 'a slist_heap \<Rightarrow> 'a option" where
  "rt_slist_next n h = h n"

definition rt_slist_isempty :: "'a \<Rightarrow> 'a slist_heap \<Rightarrow> bool" where
  "rt_slist_isempty l h \<longleftrightarrow> h l = None"

declare slist_last.simps [code] slist_count.simps [code] slist_before.simps [code]


subsection \<open>The list behind the pointers\<close>

fun schain :: "'a slist_heap \<Rightarrow> 'a \<Rightarrow> 'a list \<Rightarrow> bool" where
  "schain h a [] \<longleftrightarrow> h a = None"
| "schain h a (x # xs) \<longleftrightarrow> h a = Some x \<and> schain h x xs"

definition slist :: "'a slist_heap \<Rightarrow> 'a \<Rightarrow> 'a list \<Rightarrow> bool" where
  "slist h l xs \<longleftrightarrow> schain h l xs \<and> distinct (l # xs)"

lemma schain_frame: "(\<And>x. x \<in> set (a # xs) \<Longrightarrow> h' x = h x) \<Longrightarrow> schain h' a xs = schain h a xs"
  by (induction xs arbitrary: a) simp_all

lemma slist_frame: "(\<And>x. x \<in> set (l # xs) \<Longrightarrow> h' x = h x) \<Longrightarrow> slist h' l xs = slist h l xs"
  using schain_frame [of l xs h' h] by (simp add: slist_def)

lemma slist_unique: "slist h l xs \<Longrightarrow> slist h l ys \<Longrightarrow> xs = ys"
proof -
  have "schain h a xs \<Longrightarrow> schain h a ys \<Longrightarrow> xs = ys" for a
  proof (induction xs arbitrary: a ys)
    case (Cons x xs)
    then show ?case by (cases ys) auto
  next
    case Nil
    then show ?case by (cases ys) auto
  qed
  then show "slist h l xs \<Longrightarrow> slist h l ys \<Longrightarrow> xs = ys" unfolding slist_def by blast
qed

lemma schain_append: "schain h a (xs @ y # ys) \<longleftrightarrow> schain (h(last (a # xs) := None)) a xs \<and> h (last (a # xs)) = Some y \<and> schain h y ys"
  if "distinct (a # xs)"
  using that
proof (induction xs arbitrary: a)
  case (Cons x xs)
  then have "last (x # xs) \<noteq> a" by (metis distinct.simps(2) last_in_set list.distinct(1))
  with Cons.IH [of x] Cons.prems show ?case by auto
qed simp

lemma schain_last: "schain h a xs \<Longrightarrow> slist_last h a = Some (last (a # xs)) \<and> h (last (a # xs)) = None"
  by (induction xs arbitrary: a) (subst slist_last.simps, simp)+

lemma schain_count: "schain h a xs \<Longrightarrow> slist_count h (h a) n = Some (n + of_nat (length xs))"
  by (induction xs arbitrary: a n) (subst slist_count.simps, simp)+

lemma schain_snoc:
  "schain h a xs \<Longrightarrow> distinct (a # xs) \<Longrightarrow> n \<notin> set (a # xs) \<Longrightarrow> schain (h(last (a # xs) := Some n, n := None)) a (xs @ [n])"
proof (induction xs arbitrary: a)
  case (Cons x xs)
  have "last (x # xs) \<noteq> a" using Cons.prems(2) by (metis distinct.simps(2) last_in_set list.distinct(1))
  with Cons show ?case by auto
qed auto

lemma slist_append:
  assumes "slist h l xs" and "n \<notin> set (l # xs)"
  shows "rt_slist_append l n h = Some (h(last (l # xs) := Some n, n := None))" and "slist (h(last (l # xs) := Some n, n := None)) l (xs @ [n])"
  using assms schain_last [of h l xs] schain_snoc [of h l xs n] by (auto simp: slist_def rt_slist_append_def Let_def)

lemma slist_insert:
  assumes "slist h l xs" and "n \<notin> set (l # xs)"
  shows "slist (rt_slist_insert l n h) l (n # xs)"
proof -
  let ?h = "rt_slist_insert l n h"
  have "schain ?h n xs"
  proof (cases xs)
    case Nil
    then show ?thesis using assms by (simp add: rt_slist_insert_def slist_def)
  next
    case (Cons x ys)
    have "schain ?h x ys = schain h x ys" by (rule schain_frame) (use assms Cons in \<open>auto simp: rt_slist_insert_def slist_def\<close>)
    then show ?thesis using assms Cons by (simp add: rt_slist_insert_def slist_def)
  qed
  then show ?thesis using assms by (auto simp: rt_slist_insert_def slist_def)
qed

lemma slist_pop:
  assumes "slist h l (x # xs)"
  shows "rt_slist_pop l h = (Some x, h(l := h x, x := None))" and "slist (h(l := h x, x := None)) l xs"
proof -
  let ?h = "h(l := h x, x := None)"
  show "rt_slist_pop l h = (Some x, ?h)" using assms by (simp add: rt_slist_pop_def slist_def)
  have "schain ?h l xs"
  proof (cases xs)
    case (Cons y ys)
    have "schain ?h y ys = schain h y ys" by (rule schain_frame) (use assms Cons in \<open>auto simp: slist_def\<close>)
    then show ?thesis using assms Cons by (auto simp: slist_def)
  qed (use assms in \<open>auto simp: slist_def\<close>)
  then show "slist ?h l xs" using assms by (simp add: slist_def)
qed

lemma schain_before:
  "schain h a (xs @ n # ys) \<Longrightarrow> n \<notin> set xs \<Longrightarrow> slist_before h n a = Some (last (a # xs)) \<and> h (last (a # xs)) = Some n \<and> schain h n ys"
proof (induction xs arbitrary: a)
  case Nil
  then show ?case by (subst slist_before.simps) simp
next
  case (Cons x xs)
  then show ?case by (subst slist_before.simps) auto
qed

lemma schain_before_none:
  "schain h a xs \<Longrightarrow> n \<notin> set xs \<Longrightarrow> slist_before h n a = Some (last (a # xs)) \<and> h (last (a # xs)) = None"
proof (induction xs arbitrary: a)
  case Nil
  then show ?case by (subst slist_before.simps) simp
next
  case (Cons x xs)
  then show ?case by (subst slist_before.simps) auto
qed

lemma schain_cut:
  "schain h a (xs @ n # ys) \<Longrightarrow> distinct (a # xs @ n # ys) \<Longrightarrow> schain (h(last (a # xs) := h n, n := None)) a (xs @ ys)"
proof (induction xs arbitrary: a)
  case Nil
  show ?case
  proof (cases ys)
    case (Cons y zs)
    define h' where "h' = h(a := h n, n := None)"
    have "schain h' y zs = schain h y zs" by (rule schain_frame) (use Nil Cons in \<open>auto simp: h'_def\<close>)
    moreover have "h' a = Some y" using Nil Cons by (auto simp: h'_def)
    ultimately have "schain h' a ys" using Nil Cons by auto
    then show ?thesis unfolding h'_def by (simp only: append_Nil last.simps if_True refl)
  qed (use Nil in auto)
next
  case (Cons x xs)
  have "last (x # xs) \<noteq> a" using Cons.prems(2) by (metis Cons_eq_appendI append_assoc distinct.simps(2) in_set_conv_decomp last_in_set list.distinct(1) set_ConsD)
  with Cons show ?case by auto
qed

lemma slist_remove:
  assumes "slist h l (xs @ n # ys)"
  shows "rt_slist_remove l n h = Some (h(last (l # xs) := h n, n := None))" and "slist (h(last (l # xs) := h n, n := None)) l (xs @ ys)"
proof -
  have d: "schain h l (xs @ n # ys)" "distinct (l # xs @ n # ys)" using assms by (simp_all add: slist_def)
  then have "slist_before h n l = Some (last (l # xs))" "h (last (l # xs)) = Some n" using schain_before [OF d(1)] by auto
  then show "rt_slist_remove l n h = Some (h(last (l # xs) := h n, n := None))" by (simp add: rt_slist_remove_def)
  show "slist (h(last (l # xs) := h n, n := None)) l (xs @ ys)" using schain_cut [OF d] d(2) by (simp add: slist_def)
qed

lemma slist_remove_absent: "slist h l xs \<Longrightarrow> n \<notin> set xs \<Longrightarrow> rt_slist_remove l n h = Some h"
  using schain_before_none [of h l xs n] by (simp add: slist_def rt_slist_remove_def)

lemma slist_operations:
  assumes l: "slist h l xs"
  shows "slist (rt_slist_init l h) l []"
    and "\<And>n. n \<notin> set (l # xs) \<Longrightarrow> slist (rt_slist_insert l n h) l (n # xs)"
    and "\<And>n. n \<notin> set (l # xs) \<Longrightarrow> \<exists>h'. rt_slist_append l n h = Some h' \<and> slist h' l (xs @ [n])"
    and "\<And>n. \<exists>h'. rt_slist_remove l n h = Some h' \<and> slist h' l (removeAll n xs)"
    and "\<exists>h'. rt_slist_pop l h = (case xs of [] \<Rightarrow> None | x # _ \<Rightarrow> Some x, h') \<and> slist h' l (tl xs)"
    and "rt_slist_len l h = Some (of_nat (length xs))"
    and "rt_slist_first l h = (case xs of [] \<Rightarrow> None | x # _ \<Rightarrow> Some x)"
    and "rt_slist_tail l h = Some (last (l # xs))"
    and "rt_slist_isempty l h \<longleftrightarrow> xs = []"
proof -
  show "slist (rt_slist_init l h) l []" by (simp add: slist_def rt_slist_init_def)
  show "slist (rt_slist_insert l n h) l (n # xs)" if "n \<notin> set (l # xs)" for n by (rule slist_insert [OF l that])
  show "\<exists>h'. rt_slist_append l n h = Some h' \<and> slist h' l (xs @ [n])" if "n \<notin> set (l # xs)" for n
    using slist_append [OF l that] by blast
  show "\<exists>h'. rt_slist_remove l n h = Some h' \<and> slist h' l (removeAll n xs)" for n
  proof (cases "n \<in> set xs")
    case True
    then obtain as bs where s: "xs = as @ n # bs" "n \<notin> set as" by (metis split_list_first)
    have "n \<notin> set bs" using l s by (simp add: slist_def)
    then have "removeAll n xs = as @ bs" using s by simp
    then show ?thesis using slist_remove [of h l as n bs] l s(1) by metis
  next
    case False
    then show ?thesis using slist_remove_absent [OF l] l by simp
  qed
  show "\<exists>h'. rt_slist_pop l h = (case xs of [] \<Rightarrow> None | x # _ \<Rightarrow> Some x, h') \<and> slist h' l (tl xs)"
  proof (cases xs)
    case Nil
    then show ?thesis using l by (simp add: slist_def rt_slist_pop_def)
  next
    case (Cons x ys)
    then show ?thesis using slist_pop [of h l x ys] l by simp
  qed
  show "rt_slist_len l h = Some (of_nat (length xs))" using schain_count [of h l xs 0] l by (simp add: slist_def rt_slist_len_def)
  show "rt_slist_first l h = (case xs of [] \<Rightarrow> None | x # _ \<Rightarrow> Some x)" "rt_slist_isempty l h \<longleftrightarrow> xs = []"
    using l by (cases xs; simp add: slist_def rt_slist_first_def rt_slist_isempty_def)+
  show "rt_slist_tail l h = Some (last (l # xs))" using schain_last [of h l xs] l by (simp add: slist_def rt_slist_tail_def)
qed

text \<open>
  The operations on singly linked lists end and implement the operations on lists: initialisation gives the empty list, insertion puts a
  node first, appending puts it last, removal takes it out wherever it is and does nothing when it is absent, popping takes the first node, and
  the queries tell what they say.
\<close>
theorem rt_slist_implements_list:
  assumes l: "slist h l xs"
  shows "slist (rt_slist_init l h) l [] \<and>
    (\<forall>n. n \<notin> set (l # xs) \<longrightarrow> slist (rt_slist_insert l n h) l (n # xs)) \<and>
    (\<forall>n. n \<notin> set (l # xs) \<longrightarrow> (\<exists>h'. rt_slist_append l n h = Some h' \<and> slist h' l (xs @ [n]))) \<and>
    (\<forall>n. \<exists>h'. rt_slist_remove l n h = Some h' \<and> slist h' l (removeAll n xs)) \<and>
    (\<exists>h'. rt_slist_pop l h = (case xs of [] \<Rightarrow> None | x # _ \<Rightarrow> Some x, h') \<and> slist h' l (tl xs)) \<and>
    rt_slist_len l h = Some (of_nat (length xs)) \<and> rt_slist_first l h = (case xs of [] \<Rightarrow> None | x # _ \<Rightarrow> Some x) \<and>
    rt_slist_tail l h = Some (last (l # xs)) \<and> (rt_slist_isempty l h \<longleftrightarrow> xs = [])"
  using slist_operations [OF l] by blast

theorem rt_slist_implements_list_witness:
  "\<exists>h'. rt_slist_remove (0 :: nat) 1 ((\<lambda>_. None)(0 := Some 1, 1 := Some 2)) = Some h' \<and> slist h' 0 [2]"
proof -
  have "slist ((\<lambda>_. None)(0 := Some 1, 1 := Some 2)) (0 :: nat) [1, 2]" by (simp add: slist_def)
  from rt_slist_implements_list [OF this] have "\<exists>h'. rt_slist_remove (0 :: nat) 1 ((\<lambda>_. None)(0 := Some 1, 1 := Some 2)) = Some h' \<and> slist h' 0 (removeAll 1 [1, 2])"
    by blast
  then show ?thesis by simp
qed

end
