(* ===== verification/RingBlk.thy ===== *)
theory RingBlk
  imports SList AllocSpec
begin

text \<open>
  Ring block buffers (components/drivers/ipc/ringblk_buf.c): blocks of any size are allocated one behind the other in a ring of bytes, and are
  passed from a writer, who puts them, to a reader, who gets and frees them. The block descriptors are on two singly linked lists that share
  one heap of pointers, the blocks in use in their order of allocation with a pointer to the last one, and the free descriptors. The address
  space is that of the machine; the bytes of the blocks and the spin lock around each operation are not part of the state.
\<close>

type_synonym u24 = "24 word"

datatype snode = BlkList | FreeList | Blk nat

datatype rt_rbb_status = BLK_UNUSED | BLK_INITED | BLK_PUT | BLK_GET

record rt_rbb_blk =
  bk_status :: rt_rbb_status
  bk_size :: u24
  bk_buf :: u32

record rt_rbb =
  rbb_buf :: u32
  rbb_buf_size :: u32
  rbb_max_num :: u32
  rbb_next :: "snode slist_heap"
  rbb_tail :: snode
  rbb_blks :: "nat \<Rightarrow> rt_rbb_blk"

record rt_rbb_blk_queue =
  bq_blocks :: nat
  bq_num :: u32

abbreviation upd_blk :: "nat \<Rightarrow> (rt_rbb_blk \<Rightarrow> rt_rbb_blk) \<Rightarrow> rt_rbb \<Rightarrow> rt_rbb" where
  "upd_blk i f r \<equiv> r\<lparr>rbb_blks := (rbb_blks r)(i := f (rbb_blks r i))\<rparr>"

definition blk_end :: "rt_rbb_blk \<Rightarrow> u32" where
  "blk_end b = bk_buf b + ucast (bk_size b)"

fun blk_of :: "snode \<Rightarrow> nat option" where
  \<comment> \<open>\<open>rt_slist_entry(node, struct rt_rbb_blk, list)\<close>; no block contains a list head\<close>
  "blk_of (Blk i) = Some i"
| "blk_of _ = None"

definition init_block :: "nat \<Rightarrow> rt_rbb \<Rightarrow> rt_rbb" where
  "init_block i r =
     (let r = upd_blk i (\<lambda>b. b\<lparr>bk_status := BLK_UNUSED\<rparr>) r;
          r = r\<lparr>rbb_next := rt_slist_init (Blk i) (rbb_next r)\<rparr>
      in r\<lparr>rbb_next := rt_slist_insert FreeList (Blk i) (rbb_next r)\<rparr>)"

definition rt_rbb_init :: "u32 \<Rightarrow> u32 \<Rightarrow> u32 \<Rightarrow> rt_rbb \<Rightarrow> rt_rbb option" where
  "rt_rbb_init buf buf_size blk_max_num r = do {
     rt_assert (buf \<noteq> 0);
     let r = r\<lparr>rbb_buf := buf, rbb_buf_size := buf_size, rbb_max_num := blk_max_num, rbb_tail := BlkList\<rparr>;
     let r = r\<lparr>rbb_next := rt_slist_init BlkList (rbb_next r)\<rparr>;
     let r = r\<lparr>rbb_next := rt_slist_init FreeList (rbb_next r)\<rparr>;
     Some (fold init_block [0..<unat blk_max_num] r)
   }"

definition find_empty_blk_in_set :: "rt_rbb \<Rightarrow> (nat option \<times> rt_rbb) option" where
  "find_empty_blk_in_set r =
     (case rt_slist_first FreeList (rbb_next r) of
        None \<Rightarrow> Some (None, r)
      | Some n \<Rightarrow> do {
          i \<leftarrow> blk_of n;
          nx \<leftarrow> rt_slist_remove FreeList n (rbb_next r);
          rt_assert (bk_status (rbb_blks r i) = BLK_UNUSED);
          Some (Some i, r\<lparr>rbb_next := nx\<rparr>)
        })"

definition list_append :: "snode \<Rightarrow> rt_rbb \<Rightarrow> rt_rbb" where
  "list_append n r =
     (let r = r\<lparr>rbb_next := (rbb_next r)(rbb_tail r := Some n)\<rparr>;
          r = r\<lparr>rbb_next := (rbb_next r)(n := None)\<rparr>
      in r\<lparr>rbb_tail := n\<rparr>)"

definition list_remove :: "snode \<Rightarrow> rt_rbb \<Rightarrow> rt_rbb option" where
  "list_remove n r = do {
     node \<leftarrow> slist_before (rbb_next r) n BlkList;
     Some (case rbb_next r node of
         None \<Rightarrow> r
       | Some m \<Rightarrow>
           (let r = r\<lparr>rbb_next := ((rbb_next r)(node := rbb_next r m))(n := None)\<rparr>
            in if rbb_tail r = n then r\<lparr>rbb_tail := node\<rparr> else r))
   }"

definition take_blk :: "nat \<Rightarrow> u32 \<Rightarrow> u32 \<Rightarrow> rt_rbb \<Rightarrow> nat option \<times> rt_rbb" where
  "take_blk i p n r =
     (Some i, upd_blk i (\<lambda>b. b\<lparr>bk_status := BLK_INITED, bk_buf := p, bk_size := ucast n\<rparr>) (list_append (Blk i) r))"

definition give_back_blk :: "nat \<Rightarrow> rt_rbb \<Rightarrow> nat option \<times> rt_rbb" where
  "give_back_blk i r = (None, r\<lparr>rbb_next := rt_slist_insert FreeList (Blk i) (rbb_next r)\<rparr>)"

definition alloc_after :: "nat \<Rightarrow> rt_rbb_blk \<Rightarrow> rt_rbb_blk \<Rightarrow> u32 \<Rightarrow> rt_rbb \<Rightarrow> nat option \<times> rt_rbb" where
  \<comment> \<open>the part of \<open>rt_rbb_blk_alloc\<close> for a list that is not empty, from \<open>head\<close> to \<open>tail\<close>\<close>
  "alloc_after i head tail blk_size r =
     (if bk_buf head \<le> bk_buf tail then
        (let empty1 = (rbb_buf r + rbb_buf_size r) - blk_end tail;
             empty2 = bk_buf head - rbb_buf r
         in if empty1 \<ge> blk_size then take_blk i (blk_end tail) blk_size r
            else if empty2 \<ge> blk_size then take_blk i (rbb_buf r) blk_size r
            else give_back_blk i r)
      else
        (let empty1 = bk_buf head - blk_end tail
         in if empty1 \<ge> blk_size then take_blk i (blk_end tail) blk_size r else give_back_blk i r))"

definition rt_rbb_blk_alloc :: "u32 \<Rightarrow> rt_rbb \<Rightarrow> (nat option \<times> rt_rbb) option" where
  "rt_rbb_blk_alloc blk_size r = do {
     rt_assert (blk_size < 0x1000000);
     (new_rbb, r) \<leftarrow> find_empty_blk_in_set r;
     (case new_rbb of
        None \<Rightarrow> Some (None, r)
      | Some i \<Rightarrow>
          if \<not> rt_slist_isempty BlkList (rbb_next r) then do {
            h \<leftarrow> Option.bind (rt_slist_first BlkList (rbb_next r)) blk_of;
            t \<leftarrow> blk_of (rbb_tail r);
            Some (alloc_after i (rbb_blks r h) (rbb_blks r t) blk_size r)
          } else Some (if blk_size \<le> rbb_buf_size r then take_blk i (rbb_buf r) blk_size r else give_back_blk i r))
   }"

definition rt_rbb_blk_put :: "nat \<Rightarrow> rt_rbb \<Rightarrow> rt_rbb option" where
  "rt_rbb_blk_put i r = do {
     rt_assert (bk_status (rbb_blks r i) = BLK_INITED);
     Some (upd_blk i (\<lambda>b. b\<lparr>bk_status := BLK_PUT\<rparr>) r)
   }"

partial_function (option) find_put :: "rt_rbb \<Rightarrow> snode option \<Rightarrow> nat option option" where
  \<comment> \<open>the loop of \<open>rt_rbb_blk_get\<close>: the first block of the list that was put\<close>
  "find_put r node = (case node of
       None \<Rightarrow> Some None
     | Some n \<Rightarrow> do {
         i \<leftarrow> blk_of n;
         if bk_status (rbb_blks r i) = BLK_PUT then Some (Some i) else find_put r (rt_slist_next n (rbb_next r))
       })"

definition rt_rbb_blk_get :: "rt_rbb \<Rightarrow> (nat option \<times> rt_rbb) option" where
  "rt_rbb_blk_get r =
     (if rt_slist_isempty BlkList (rbb_next r) then Some (None, r)
      else do {
        b \<leftarrow> find_put r (rt_slist_first BlkList (rbb_next r));
        Some (b, case b of None \<Rightarrow> r | Some i \<Rightarrow> upd_blk i (\<lambda>b. b\<lparr>bk_status := BLK_GET\<rparr>) r)
      })"

definition rt_rbb_blk_size :: "nat \<Rightarrow> rt_rbb \<Rightarrow> u32" where
  "rt_rbb_blk_size i r = ucast (bk_size (rbb_blks r i))"

definition rt_rbb_blk_buf :: "nat \<Rightarrow> rt_rbb \<Rightarrow> u32" where
  "rt_rbb_blk_buf i r = bk_buf (rbb_blks r i)"

definition rt_rbb_blk_free :: "nat \<Rightarrow> rt_rbb \<Rightarrow> rt_rbb option" where
  "rt_rbb_blk_free i r = do {
     rt_assert (bk_status (rbb_blks r i) \<noteq> BLK_UNUSED);
     r \<leftarrow> list_remove (Blk i) r;
     let r = upd_blk i (\<lambda>b. b\<lparr>bk_status := BLK_UNUSED\<rparr>) r;
     Some (r\<lparr>rbb_next := rt_slist_insert FreeList (Blk i) (rbb_next r)\<rparr>)
   }"

definition rt_rbb_get_buf_size :: "rt_rbb \<Rightarrow> u32" where
  "rt_rbb_get_buf_size r = rbb_buf_size r"


subsection \<open>Queues of blocks\<close>

partial_function (option) queue_get_loop ::
  "snode option \<Rightarrow> u32 \<Rightarrow> snode option \<Rightarrow> snode option \<Rightarrow> nat option \<Rightarrow> u32 \<Rightarrow> rt_rbb_blk_queue \<Rightarrow> rt_rbb \<Rightarrow>
     (u32 \<times> rt_rbb_blk_queue \<times> rt_rbb) option" where
  \<comment> \<open>the loop of \<open>rt_rbb_blk_queue_get\<close>; its step \<open>tmp = rt_slist_next(node)\<close> also runs with \<open>node\<close> NULL, then it reads
     \<open>at_null\<close>, whatever lies at the address 0\<close>
  "queue_get_loop at_null queue_data_len node tmp last_block data_total q r = (case node of
       None \<Rightarrow> Some (data_total, q, r)
     | Some n \<Rightarrow> do {
         i \<leftarrow> blk_of n;
         let b = rbb_blks r i;
         let tmp' = (case tmp of None \<Rightarrow> at_null | Some m \<Rightarrow> rt_slist_next m (rbb_next r));
         let r' = upd_blk i (\<lambda>b. b\<lparr>bk_status := BLK_GET\<rparr>) r;
         let data_total' = data_total + ucast (bk_size b);
         (case last_block of
            None \<Rightarrow>
              if bk_status b = BLK_PUT then queue_get_loop at_null queue_data_len tmp tmp' (Some i) data_total' \<lparr>bq_blocks = i, bq_num = 1\<rparr> r'
              else queue_get_loop at_null queue_data_len tmp tmp' None data_total q r
          | Some l \<Rightarrow>
              if bk_status b \<noteq> BLK_PUT \<or> bk_buf (rbb_blks r l) > bk_buf b \<or> data_total + ucast (bk_size b) > queue_data_len
              then Some (data_total, q, r)
              else queue_get_loop at_null queue_data_len tmp tmp' (Some i) data_total' (q\<lparr>bq_num := bq_num q + 1\<rparr>) r')
       })"

definition rt_rbb_blk_queue_get ::
  "snode option \<Rightarrow> u32 \<Rightarrow> rt_rbb_blk_queue \<Rightarrow> rt_rbb \<Rightarrow> (u32 \<times> rt_rbb_blk_queue \<times> rt_rbb) option" where
  "rt_rbb_blk_queue_get at_null queue_data_len q r =
     (case rt_slist_first BlkList (rbb_next r) of
        None \<Rightarrow> Some (0, q, r)
      | Some node \<Rightarrow> queue_get_loop at_null queue_data_len (Some node) (rt_slist_next node (rbb_next r)) None 0 q r)"

fun queue_len_loop :: "nat \<Rightarrow> snode option \<Rightarrow> u32 \<Rightarrow> rt_rbb \<Rightarrow> u32 option" where
  "queue_len_loop 0 node data_total r = Some data_total"
| "queue_len_loop (Suc k) node data_total r = do {
     n \<leftarrow> node;
     i \<leftarrow> blk_of n;
     queue_len_loop k (rbb_next r n) (data_total + ucast (bk_size (rbb_blks r i))) r
   }"

definition rt_rbb_blk_queue_len :: "rt_rbb_blk_queue \<Rightarrow> rt_rbb \<Rightarrow> u32 option" where
  "rt_rbb_blk_queue_len q r = queue_len_loop (unat (bq_num q)) (Some (Blk (bq_blocks q))) 0 r"

definition rt_rbb_blk_queue_buf :: "rt_rbb_blk_queue \<Rightarrow> rt_rbb \<Rightarrow> u32" where
  "rt_rbb_blk_queue_buf q r = bk_buf (rbb_blks r (bq_blocks q))"

fun queue_free_loop :: "nat \<Rightarrow> snode option \<Rightarrow> rt_rbb \<Rightarrow> rt_rbb option" where
  "queue_free_loop 0 node r = Some r"
| "queue_free_loop (Suc k) node r = do {
     n \<leftarrow> node;
     i \<leftarrow> blk_of n;
     let next_blk = rbb_next r n;
     r \<leftarrow> rt_rbb_blk_free i r;
     queue_free_loop k next_blk r
   }"

definition rt_rbb_blk_queue_free :: "rt_rbb_blk_queue \<Rightarrow> rt_rbb \<Rightarrow> rt_rbb option" where
  "rt_rbb_blk_queue_free q r = queue_free_loop (unat (bq_num q)) (Some (Blk (bq_blocks q))) r"

partial_function (option) next_queue_loop :: "rt_rbb \<Rightarrow> snode option \<Rightarrow> nat option \<Rightarrow> u32 \<Rightarrow> u32 option" where
  "next_queue_loop r node last_block len = (case node of
       None \<Rightarrow> Some len
     | Some n \<Rightarrow> do {
         i \<leftarrow> blk_of n;
         let b = rbb_blks r i;
         let len' = len + ucast (bk_size b);
         (case last_block of
            None \<Rightarrow>
              if bk_status b \<noteq> BLK_PUT then next_queue_loop r (rt_slist_next n (rbb_next r)) None len
              else next_queue_loop r (rt_slist_next n (rbb_next r)) (Some i) len'
          | Some l \<Rightarrow>
              if bk_status b \<noteq> BLK_PUT \<or> bk_buf (rbb_blks r l) > bk_buf b then Some len
              else next_queue_loop r (rt_slist_next n (rbb_next r)) (Some i) len')
       })"

definition rt_rbb_next_blk_queue_len :: "rt_rbb \<Rightarrow> u32 option" where
  "rt_rbb_next_blk_queue_len r = next_queue_loop r (rt_slist_first BlkList (rbb_next r)) None 0"

declare find_put.simps [code] queue_get_loop.simps [code] next_queue_loop.simps [code]


subsection \<open>The layout of the blocks\<close>

fun asc :: "nat \<Rightarrow> nat \<Rightarrow> (nat \<times> nat) list \<Rightarrow> bool" where
  \<comment> \<open>blocks, as first address and size, one behind the other between two addresses\<close>
  "asc l h [] \<longleftrightarrow> l \<le> h"
| "asc l h ((p, n) # bs) \<longleftrightarrow> l \<le> p \<and> 0 < n \<and> asc (p + n) h bs"

definition first_addr :: "nat \<Rightarrow> (nat \<times> nat) list \<Rightarrow> nat" where
  "first_addr l bs = (case bs of [] \<Rightarrow> l | (p, _) # _ \<Rightarrow> p)"

definition ring_layout :: "nat \<Rightarrow> nat \<Rightarrow> (nat \<times> nat) list \<Rightarrow> bool" where
  \<comment> \<open>blocks in order of allocation: some run up to the end of the memory, the others follow from its start, below the first\<close>
  "ring_layout l h bs \<longleftrightarrow> (\<exists>us ws. bs = us @ ws \<and> (us = [] \<longrightarrow> ws = []) \<and> l \<le> first_addr l us \<and>
     asc (first_addr l us) h us \<and> asc l (first_addr l us) ws)"

lemma asc_le: "asc l h bs \<Longrightarrow> l \<le> h"
  by (induction l h bs rule: asc.induct) auto

lemma asc_mono: "asc l h bs \<Longrightarrow> l' \<le> l \<Longrightarrow> h \<le> h' \<Longrightarrow> asc l' h' bs"
  by (induction bs arbitrary: l l') auto

lemma asc_snoc: "asc l h (bs @ [(p, n)]) \<longleftrightarrow> asc l p bs \<and> 0 < n \<and> p + n \<le> h"
  by (induction bs arbitrary: l) auto

lemma asc_remove: "asc l h (bs @ b # cs) \<Longrightarrow> asc l h (bs @ cs)"
proof (induction bs arbitrary: l)
  case Nil
  then show ?case by (cases b) (auto intro: asc_mono)
qed auto

lemma asc_in: "asc l h bs \<Longrightarrow> (p, n) \<in> set bs \<Longrightarrow> l \<le> p \<and> 0 < n \<and> p + n \<le> h"
  by (induction l h bs rule: asc.induct) (auto dest: asc_le)

lemma asc_first: "asc l h bs \<Longrightarrow> l \<le> first_addr l bs \<and> first_addr l bs \<le> h \<and> asc (first_addr l bs) h bs"
  using asc_le [of l h bs] asc_le [of "fst (hd bs) + snd (hd bs)" h "tl bs"] by (cases bs) (auto simp: first_addr_def)

lemma asc_apart:
  assumes "asc l h (map f xs)" and "i \<in> set xs" and "j \<in> set xs" and "i \<noteq> j"
  shows "fst (f i) + snd (f i) \<le> fst (f j) \<or> fst (f j) + snd (f j) \<le> fst (f i)"
  using assms
proof (induction xs arbitrary: l)
  case (Cons x xs)
  obtain p n where x: "f x = (p, n)" by fastforce
  have a: "asc (p + n) h (map f xs)" using Cons.prems(1) x by simp
  have b: "p + n \<le> fst (f k)" if "k \<in> set xs" for k
    using asc_in [OF a, of "fst (f k)" "snd (f k)"] that by simp
  show ?case using Cons.IH [OF a] Cons.prems(2-4) b x by auto
qed simp

lemma layout_remove:
  assumes "ring_layout l h (bs @ b # cs)"
  shows "ring_layout l h (bs @ cs)"
proof -
  obtain us ws where s: "bs @ b # cs = us @ ws" "us = [] \<longrightarrow> ws = []" "l \<le> first_addr l us" "asc (first_addr l us) h us" "asc l (first_addr l us) ws"
    using assms by (auto simp: ring_layout_def)
  have fh: "first_addr l us \<le> h" using asc_le [OF s(4)] .
  consider vs where "us = bs @ b # vs" "cs = vs @ ws" | vs where "bs = us @ vs" "ws = vs @ b # cs"
    using s(1) by (auto simp: append_eq_append_conv2 append_eq_Cons_conv Cons_eq_append_conv)
  then show ?thesis
  proof cases
    case 2
    have "asc l (first_addr l us) (vs @ cs)" using s(5) asc_remove unfolding 2(2) by blast
    moreover have "us \<noteq> []" using s(2) 2(2) by auto
    ultimately show ?thesis unfolding ring_layout_def using s(3,4) 2(1) by (intro exI [of _ us] exI [of _ "vs @ cs"]) simp
  next
    case 1
    have a: "asc (first_addr l us) h (bs @ vs)" using s(4) asc_remove unfolding 1(1) by blast
    show ?thesis
    proof (cases "bs @ vs")
      case Nil
      then have "bs @ cs = ws @ []" using 1(2) by simp
      moreover have "asc (first_addr l ws) h ws" "l \<le> first_addr l ws" "asc l (first_addr l ws) []"
        using asc_first [OF asc_mono [OF s(5) order_refl fh]] by auto
      ultimately show ?thesis unfolding ring_layout_def by (intro exI [of _ ws] exI [of _ "[]"]) simp
    next
      case (Cons c ds)
      let ?us = "bs @ vs"
      have f: "first_addr (first_addr l us) ?us = first_addr l ?us" using Cons by (simp add: first_addr_def)
      have g: "first_addr l us \<le> first_addr l ?us" "asc (first_addr l ?us) h ?us" using asc_first [OF a] unfolding f by auto
      have "asc l (first_addr l ?us) ws" using asc_mono [OF s(5) order_refl g(1)] .
      then show ?thesis unfolding ring_layout_def using g s(3) Cons 1(2) by (intro exI [of _ ?us] exI [of _ ws]) auto
    qed
  qed
qed

lemma layout_in: "ring_layout l h bs \<Longrightarrow> (p, n) \<in> set bs \<Longrightarrow> l \<le> p \<and> 0 < n \<and> p + n \<le> h"
proof -
  assume r: "ring_layout l h bs" and i: "(p, n) \<in> set bs"
  obtain us ws where s: "bs = us @ ws" "l \<le> first_addr l us" "asc (first_addr l us) h us" "asc l (first_addr l us) ws"
    using r by (auto simp: ring_layout_def)
  show ?thesis using asc_in [OF s(3), of p n] asc_in [OF s(4), of p n] asc_le [OF s(3)] s(1,2) i by auto
qed

lemma layout_apart:
  assumes "ring_layout l h (map f xs)" and "i \<in> set xs" and "j \<in> set xs" and "i \<noteq> j"
  shows "fst (f i) + snd (f i) \<le> fst (f j) \<or> fst (f j) + snd (f j) \<le> fst (f i)"
proof -
  obtain us ws where s: "map f xs = us @ ws" "asc (first_addr l us) h us" "asc l (first_addr l us) ws"
    using assms(1) by (auto simp: ring_layout_def)
  then obtain as bs where x: "xs = as @ bs" "us = map f as" "ws = map f bs" by (metis map_eq_append_conv)
  have a: "first_addr l us \<le> fst (f k)" if "k \<in> set as" for k
    using asc_in [OF s(2), of "fst (f k)" "snd (f k)"] that x(2) by simp
  have b: "fst (f k) + snd (f k) \<le> first_addr l us" if "k \<in> set bs" for k
    using asc_in [OF s(3), of "fst (f k)" "snd (f k)"] that x(3) by simp
  note A = asc_apart [OF s(2) [unfolded x(2)]] and B = asc_apart [OF s(3) [unfolded x(3)]]
  have "i \<in> set as \<or> i \<in> set bs" "j \<in> set as \<or> j \<in> set bs" using assms(2,3) x(1) by auto
  then show ?thesis using A [of i j] B [of i j] a b assms(4) by (meson le_trans)
qed

lemma layout_single: "0 < n \<Longrightarrow> l + n \<le> h \<Longrightarrow> ring_layout l h [(l, n)]"
  unfolding ring_layout_def by (intro exI [of _ "[(l, n)]"] exI [of _ "[]"]) (simp add: first_addr_def)

lemma layout_split:
  \<comment> \<open>whether the blocks have come round the end of the memory\<close>
  assumes "ring_layout l h (bs @ [(p, n)])" and "fst (hd (bs @ [(p, n)])) = a"
  shows "if a \<le> p then l \<le> a \<and> asc a h (bs @ [(p, n)])
    else \<exists>us ws. bs = us @ ws \<and> us \<noteq> [] \<and> first_addr l us = a \<and> l \<le> a \<and> asc a h us \<and> asc l a (ws @ [(p, n)])"
proof -
  obtain us ws where s: "bs @ [(p, n)] = us @ ws" "us = [] \<longrightarrow> ws = []" "l \<le> first_addr l us" "asc (first_addr l us) h us" "asc l (first_addr l us) ws"
    using assms(1) by (auto simp: ring_layout_def)
  have u: "us \<noteq> []" using s(1,2) by auto
  then have f: "first_addr l us = a" using assms(2) s(1) by (cases us) (auto simp: first_addr_def)
  show ?thesis
  proof (cases "ws = []")
    case True
    then have us: "us = bs @ [(p, n)]" using s(1) by simp
    have "a \<le> p" using asc_in [OF s(4), of p n] f us by simp
    then show ?thesis using s(3,4) f us by simp
  next
    case False
    then obtain vs where ws: "ws = vs @ [(p, n)]" "bs = us @ vs"
      using s(1) by (metis append_butlast_last_id append_assoc butlast_append butlast_snoc last_appendR last_snoc)
    have "p + n \<le> a" "0 < n" using asc_in [OF s(5), of p n] ws f by simp_all
    then show ?thesis using s(3-5) f ws u by auto
  qed
qed

lemma layout_add_end:
  assumes r: "ring_layout l h (bs @ [(p, n)])" and a: "fst (hd (bs @ [(p, n)])) = a" and le: "a \<le> p"
  shows "l \<le> a" and "p + n \<le> h"
    and "0 < k \<Longrightarrow> p + n + k \<le> h \<Longrightarrow> ring_layout l h ((bs @ [(p, n)]) @ [(p + n, k)])"
    and "0 < k \<Longrightarrow> l + k \<le> a \<Longrightarrow> ring_layout l h ((bs @ [(p, n)]) @ [(l, k)])"
proof -
  let ?us = "bs @ [(p, n)]"
  have s: "l \<le> a" "asc a h ?us" using layout_split [OF r a] le by auto
  have f: "first_addr l (?us @ cs) = a" for cs using a by (cases bs) (auto simp: first_addr_def)
  show "l \<le> a" "p + n \<le> h" using s by (simp_all add: asc_snoc)
  show "ring_layout l h (?us @ [(p + n, k)])" if "0 < k" "p + n + k \<le> h"
    unfolding ring_layout_def
    by (rule exI [of _ "?us @ [(p + n, k)]"], rule exI [of _ "[]"])
      (use s that f [of "[(p + n, k)]"] in \<open>simp add: asc_snoc [of _ _ "bs @ [(p, n)]", simplified] asc_snoc\<close>)
  show "ring_layout l h (?us @ [(l, k)])" if "0 < k" "l + k \<le> a"
    unfolding ring_layout_def by (rule exI [of _ ?us], rule exI [of _ "[(l, k)]"]) (use s that f [of "[]"] in simp)
qed

lemma layout_add_low:
  assumes r: "ring_layout l h (bs @ [(p, n)])" and a: "fst (hd (bs @ [(p, n)])) = a" and lt: "p < a"
  shows "p + n \<le> a" and "a \<le> h" and "0 < k \<Longrightarrow> p + n + k \<le> a \<Longrightarrow> ring_layout l h ((bs @ [(p, n)]) @ [(p + n, k)])"
proof -
  obtain us ws where s: "bs = us @ ws" "us \<noteq> []" "first_addr l us = a" "l \<le> a" "asc a h us" "asc l a (ws @ [(p, n)])"
    using layout_split [OF r a] lt by auto
  show "p + n \<le> a" "a \<le> h" using s(5,6) asc_le by (auto simp: asc_snoc)
  show "ring_layout l h ((bs @ [(p, n)]) @ [(p + n, k)])" if "0 < k" "p + n + k \<le> a"
    unfolding ring_layout_def
    by (rule exI [of _ us], rule exI [of _ "(ws @ [(p, n)]) @ [(p + n, k)]"])
      (use s that asc_snoc [of l a "ws @ [(p, n)]" "p + n" k] in \<open>simp add: asc_snoc\<close>)
qed


subsection \<open>The buffer and its lists\<close>

definition blk_range :: "rt_rbb \<Rightarrow> nat \<Rightarrow> nat \<times> nat" where
  "blk_range r i = (unat (bk_buf (rbb_blks r i)), unat (bk_size (rbb_blks r i)))"

definition rbb_lo :: "rt_rbb \<Rightarrow> nat" where "rbb_lo r = unat (rbb_buf r)"
definition rbb_hi :: "rt_rbb \<Rightarrow> nat" where "rbb_hi r = unat (rbb_buf r) + unat (rbb_buf_size r)"

lemma rbb_next_fields [simp]:
  "blk_range (r\<lparr>rbb_next := nx\<rparr>) = blk_range r" "rbb_lo (r\<lparr>rbb_next := nx\<rparr>) = rbb_lo r" "rbb_hi (r\<lparr>rbb_next := nx\<rparr>) = rbb_hi r"
  by (simp_all add: blk_range_def rbb_lo_def rbb_hi_def fun_eq_iff)

definition rbb_rep :: "rt_rbb \<Rightarrow> nat list \<Rightarrow> nat list \<Rightarrow> bool" where
  \<comment> \<open>\<open>xs\<close> are the blocks in use in their order of allocation, \<open>fs\<close> the free descriptors\<close>
  "rbb_rep r xs fs \<longleftrightarrow>
     slist (rbb_next r) BlkList (map Blk xs) \<and> slist (rbb_next r) FreeList (map Blk fs) \<and> set xs \<inter> set fs = {} \<and>
     rbb_tail r = last (BlkList # map Blk xs) \<and>
     (\<forall>i \<in> set xs. bk_status (rbb_blks r i) \<noteq> BLK_UNUSED) \<and> (\<forall>i \<in> set fs. bk_status (rbb_blks r i) = BLK_UNUSED) \<and>
     rbb_hi r < 2 ^ 32 \<and> ring_layout (rbb_lo r) (rbb_hi r) (map (blk_range r) xs)"

lemma rbb_repD:
  assumes "rbb_rep r xs fs"
  shows "distinct xs" "distinct fs" "slist (rbb_next r) BlkList (map Blk xs)" "slist (rbb_next r) FreeList (map Blk fs)" "set xs \<inter> set fs = {}"
    "ring_layout (rbb_lo r) (rbb_hi r) (map (blk_range r) xs)" "rbb_hi r < 2 ^ 32" "rbb_tail r = last (BlkList # map Blk xs)"
  using assms by (auto simp: rbb_rep_def slist_def distinct_map inj_on_def)

lemma find_empty_run:
  assumes "rbb_rep r xs fs"
  shows "case fs of [] \<Rightarrow> find_empty_blk_in_set r = Some (None, r)
    | f # fs' \<Rightarrow> \<exists>nx. find_empty_blk_in_set r = Some (Some f, r\<lparr>rbb_next := nx\<rparr>) \<and> rbb_rep (r\<lparr>rbb_next := nx\<rparr>) xs fs' \<and>
        f \<notin> set xs \<and> f \<notin> set fs' \<and> bk_status (rbb_blks r f) = BLK_UNUSED"
proof (cases fs)
  case Nil
  then show ?thesis using assms by (simp add: rbb_rep_def slist_def find_empty_blk_in_set_def rt_slist_first_def)
next
  case (Cons f fs')
  let ?nx = "(rbb_next r)(FreeList := rbb_next r (Blk f), Blk f := None)"
  have l: "slist (rbb_next r) FreeList ([] @ Blk f # map Blk fs')" using assms Cons by (simp add: rbb_rep_def)
  have first: "rt_slist_first FreeList (rbb_next r) = Some (Blk f)" using l by (simp add: slist_def rt_slist_first_def)
  have st: "bk_status (rbb_blks r f) = BLK_UNUSED" using assms Cons by (simp add: rbb_rep_def)
  have nf: "f \<notin> set xs" "f \<notin> set fs'" using rbb_repD(2,5) [OF assms] Cons by auto
  have fr: "slist ?nx FreeList (map Blk fs')" using slist_remove(2) [OF l] by simp
  have bl: "slist ?nx BlkList (map Blk xs) = slist (rbb_next r) BlkList (map Blk xs)" by (rule slist_frame) (use nf in auto)
  have "rbb_rep (r\<lparr>rbb_next := ?nx\<rparr>) xs fs'"
    using assms Cons fr bl by (auto simp: rbb_rep_def)
  moreover have "find_empty_blk_in_set r = Some (Some f, r\<lparr>rbb_next := ?nx\<rparr>)"
    using first st slist_remove(1) [OF l] by (simp add: find_empty_blk_in_set_def)
  ultimately show ?thesis using Cons nf st by auto
qed

lemma give_back_run:
  assumes "rbb_rep r xs fs" and "i \<notin> set xs" and "i \<notin> set fs" and "bk_status (rbb_blks r i) = BLK_UNUSED"
  shows "rbb_rep (r\<lparr>rbb_next := rt_slist_insert FreeList (Blk i) (rbb_next r)\<rparr>) xs (i # fs)"
proof -
  let ?nx = "rt_slist_insert FreeList (Blk i) (rbb_next r)"
  have "slist ?nx FreeList (Blk i # map Blk fs)" by (rule slist_insert) (use assms in \<open>auto simp: rbb_rep_def\<close>)
  moreover have "slist ?nx BlkList (map Blk xs) = slist (rbb_next r) BlkList (map Blk xs)"
    by (rule slist_frame) (use assms(2) in \<open>auto simp: rt_slist_insert_def\<close>)
  ultimately show ?thesis using assms by (auto simp: rbb_rep_def)
qed

lemma take_blk_run:
  assumes rep: "rbb_rep r xs fs" and i: "i \<notin> set xs" "i \<notin> set fs" and n: "n < 0x1000000"
    and lay: "ring_layout (rbb_lo r) (rbb_hi r) (map (blk_range r) xs @ [(unat p, unat n)])"
  shows "\<exists>r'. take_blk i p n r = (Some i, r') \<and> rbb_rep r' (xs @ [i]) fs \<and> blk_range r' i = (unat p, unat n) \<and>
    bk_status (rbb_blks r' i) = BLK_INITED \<and> (\<forall>j. j \<noteq> i \<longrightarrow> rbb_blks r' j = rbb_blks r j) \<and> rbb_lo r' = rbb_lo r \<and> rbb_hi r' = rbb_hi r"
proof -
  let ?nx = "(rbb_next r)(last (BlkList # map Blk xs) := Some (Blk i), Blk i := None)"
  let ?b = "(rbb_blks r i)\<lparr>bk_status := BLK_INITED, bk_buf := p, bk_size := ucast n\<rparr>"
  let ?r = "r\<lparr>rbb_next := ?nx, rbb_tail := Blk i, rbb_blks := (rbb_blks r)(i := ?b)\<rparr>"
  have t: "take_blk i p n r = (Some i, ?r)"
    using rbb_repD(8) [OF rep] by (simp add: take_blk_def list_append_def Let_def del: last.simps)
  have "slist ?nx BlkList (map Blk xs @ [Blk i])"
    by (rule slist_append(2)) (use rep i in \<open>auto simp: rbb_rep_def\<close>)
  then have bl: "slist ?nx BlkList (map Blk (xs @ [i]))" by simp
  have lm: "last (BlkList # map Blk xs) \<in> insert BlkList (Blk ` set xs)" using last_in_set [of "BlkList # map Blk xs"] by simp
  have fl: "slist ?nx FreeList (map Blk fs) = slist (rbb_next r) FreeList (map Blk fs)"
    by (rule slist_frame) (use lm i rbb_repD(5) [OF rep] in auto)
  have "unat n < 0x1000000" using n by (simp add: word_less_nat_alt)
  then have u: "unat (ucast n :: u24) = unat n" by (simp add: unsigned_ucast_eq unsigned_take_bit_eq take_bit_nat_eq_self)
  have rg: "blk_range ?r i = (unat p, unat n)" using u by (simp add: blk_range_def)
  have "map (blk_range ?r) xs = map (blk_range r) xs" using i(1) by (auto simp: blk_range_def)
  then have m: "map (blk_range ?r) (xs @ [i]) = map (blk_range r) xs @ [(unat p, unat n)]" using rg by simp
  have c: "rbb_lo ?r = rbb_lo r" "rbb_hi ?r = rbb_hi r" by (simp_all add: rbb_lo_def rbb_hi_def)
  have "rbb_rep ?r (xs @ [i]) fs" unfolding rbb_rep_def m c using rep i bl fl lay by (auto simp: rbb_rep_def)
  then show ?thesis using t rg c by (intro exI [of _ ?r]) simp
qed


subsection \<open>Allocation\<close>

definition place_for :: "nat \<Rightarrow> nat \<Rightarrow> (nat \<times> nat) list \<Rightarrow> nat \<Rightarrow> nat option" where
  \<comment> \<open>where a block of \<open>n\<close> bytes goes: behind the last block, or at the start of the memory when there is no room before the end\<close>
  "place_for l h bs n =
     (if bs = [] then (if l + n \<le> h then Some l else None)
      else (let a = fst (hd bs); p = fst (last bs); e = fst (last bs) + snd (last bs)
            in if a \<le> p then (if e + n \<le> h then Some e else if l + n \<le> a then Some l else None)
               else (if e + n \<le> a then Some e else None)))"

lemma place_for_layout:
  assumes r: "ring_layout l h bs" and n: "0 < n" and p: "place_for l h bs n = Some p"
  shows "ring_layout l h (bs @ [(p, n)])"
proof (cases bs rule: rev_cases)
  case Nil
  then show ?thesis using p n layout_single by (auto simp: place_for_def split: if_splits)
next
  case (snoc cs b)
  obtain q m where b: "b = (q, m)" by fastforce
  let ?a = "fst (hd (cs @ [(q, m)]))"
  show ?thesis
  proof (cases "?a \<le> q")
    case True
    then show ?thesis using p layout_add_end(3,4) [OF r [unfolded snoc b] refl True n] snoc b by (auto simp: place_for_def Let_def split: if_splits)
  next
    case False
    then show ?thesis using p layout_add_low(3) [OF r [unfolded snoc b] refl _ n] snoc b by (auto simp: place_for_def Let_def split: if_splits)
  qed
qed

lemma unat_blk_end:
  assumes "rbb_rep r xs fs" and "i \<in> set xs"
  shows "unat (blk_end (rbb_blks r i)) = fst (blk_range r i) + snd (blk_range r i)"
proof -
  have "blk_range r i \<in> set (map (blk_range r) xs)" using assms(2) by simp
  then have "fst (blk_range r i) + snd (blk_range r i) \<le> rbb_hi r"
    using layout_in [OF rbb_repD(6) [OF assms(1)], of "fst (blk_range r i)" "snd (blk_range r i)"] by simp
  then have "unat (bk_buf (rbb_blks r i)) + unat (bk_size (rbb_blks r i)) < 2 ^ 32"
    using rbb_repD(7) [OF assms(1)] by (simp add: blk_range_def)
  moreover have "unat (ucast (bk_size (rbb_blks r i)) :: u32) = unat (bk_size (rbb_blks r i))"
    using unsigned_less [of "bk_size (rbb_blks r i)", where ?'a = nat] by (simp add: unsigned_ucast_eq unsigned_take_bit_eq take_bit_nat_eq_self)
  ultimately show ?thesis by (simp add: blk_end_def blk_range_def unat_word_ariths)
qed

lemma unat_end: "rbb_hi r < 2 ^ 32 \<Longrightarrow> unat (rbb_buf r + rbb_buf_size r) = rbb_hi r"
  by (simp add: rbb_hi_def unat_word_ariths)

lemma room_iff: "unat b \<le> unat a \<Longrightarrow> (n :: u32) \<le> a - b \<longleftrightarrow> unat b + unat n \<le> unat a"
  by (auto simp: word_le_nat_alt unat_sub)

definition rbb_fresh :: "nat option \<Rightarrow> nat \<Rightarrow> nat \<Rightarrow> nat list \<Rightarrow> nat list \<Rightarrow> rt_rbb \<Rightarrow> rt_rbb \<Rightarrow> bool" where
  \<comment> \<open>descriptor \<open>i\<close> became a block of \<open>n\<close> bytes at \<open>place\<close>, or nothing changed but the order of the free descriptors\<close>
  "rbb_fresh place n i xs fs r r' \<longleftrightarrow> rbb_lo r' = rbb_lo r \<and> rbb_hi r' = rbb_hi r \<and>
     (case place of
        None \<Rightarrow> rbb_rep r' xs (i # fs) \<and> rbb_blks r' = rbb_blks r
      | Some p \<Rightarrow> rbb_rep r' (xs @ [i]) fs \<and> blk_range r' i = (p, n) \<and> bk_status (rbb_blks r' i) = BLK_INITED \<and>
          (\<forall>j. j \<noteq> i \<longrightarrow> rbb_blks r' j = rbb_blks r j))"

lemma take_fresh:
  assumes rep: "rbb_rep r xs fs" and i: "i \<notin> set xs" "i \<notin> set fs" and n: "0 < n" "n < 0x1000000"
    and p: "place_for (rbb_lo r) (rbb_hi r) (map (blk_range r) xs) (unat n) = Some (unat p)"
  shows "\<exists>r'. take_blk i p n r = (Some i, r') \<and> rbb_fresh (Some (unat p)) (unat n) i xs fs r r'"
proof -
  have "0 < unat n" using n(1) by (simp add: word_less_nat_alt)
  from place_for_layout [OF rbb_repD(6) [OF rep] this p]
  show ?thesis using take_blk_run [OF rep i n(2)] by (fastforce simp: rbb_fresh_def)
qed

lemma give_back_fresh:
  assumes "rbb_rep r xs fs" and "i \<notin> set xs" and "i \<notin> set fs" and "bk_status (rbb_blks r i) = BLK_UNUSED"
  shows "\<exists>r'. give_back_blk i r = (None, r') \<and> rbb_fresh None n i xs fs r r'"
  using give_back_run [OF assms] by (simp add: give_back_blk_def rbb_fresh_def)

lemma alloc_empty:
  assumes rep: "rbb_rep r [] fs" and i: "i \<notin> set fs" and st: "bk_status (rbb_blks r i) = BLK_UNUSED" and n: "0 < n" "n < 0x1000000"
  defines "place \<equiv> place_for (rbb_lo r) (rbb_hi r) [] (unat n)"
  shows "\<exists>r'. (if n \<le> rbb_buf_size r then take_blk i (rbb_buf r) n r else give_back_blk i r) = (map_option (\<lambda>_. i) place, r') \<and>
    rbb_fresh place (unat n) i [] fs r r'"
proof -
  have le: "n \<le> rbb_buf_size r \<longleftrightarrow> rbb_lo r + unat n \<le> rbb_hi r" by (simp add: word_le_nat_alt rbb_lo_def rbb_hi_def)
  show ?thesis
  proof (cases "n \<le> rbb_buf_size r")
    case True
    then have "place = Some (unat (rbb_buf r))" using le by (simp add: place_def place_for_def rbb_lo_def)
    then show ?thesis using take_fresh [OF rep _ i n, of "rbb_buf r"] True by (simp add: place_def)
  next
    case False
    then have "place = None" using le by (simp add: place_def place_for_def)
    then show ?thesis using give_back_fresh [OF rep _ i st] False by simp
  qed
qed

lemma alloc_behind:
  assumes rep: "rbb_rep r (ys @ [t]) fs" and i: "i \<notin> set (ys @ [t])" "i \<notin> set fs" and st: "bk_status (rbb_blks r i) = BLK_UNUSED"
    and n: "0 < n" "n < 0x1000000"
  defines "head \<equiv> rbb_blks r (hd (ys @ [t]))" and "tail \<equiv> rbb_blks r t"
    and "place \<equiv> place_for (rbb_lo r) (rbb_hi r) (map (blk_range r) (ys @ [t])) (unat n)"
  shows "\<exists>r'. alloc_after i head tail n r = (map_option (\<lambda>_. i) place, r') \<and> rbb_fresh place (unat n) i (ys @ [t]) fs r r'"
proof -
  let ?bs = "map (blk_range r) ys" and ?p = "unat (bk_buf tail)" and ?m = "unat (bk_size tail)" and ?a = "unat (bk_buf head)"
  have bs: "map (blk_range r) (ys @ [t]) = ?bs @ [(?p, ?m)]" by (simp add: blk_range_def tail_def)
  have a: "fst (hd (?bs @ [(?p, ?m)])) = ?a" by (cases ys) (simp_all add: blk_range_def head_def tail_def)
  have lay: "ring_layout (rbb_lo r) (rbb_hi r) (?bs @ [(?p, ?m)])" using rbb_repD(6) [OF rep] bs by simp
  have e: "unat (blk_end tail) = ?p + ?m" using unat_blk_end [OF rep, of t] by (simp add: tail_def blk_range_def)
  have pl: "place = (if ?a \<le> ?p then (if ?p + ?m + unat n \<le> rbb_hi r then Some (?p + ?m) else if rbb_lo r + unat n \<le> ?a then Some (rbb_lo r) else None)
      else (if ?p + ?m + unat n \<le> ?a then Some (?p + ?m) else None))"
    unfolding place_def place_for_def Let_def bs using a by simp
  note T = take_fresh [OF rep i n, folded place_def] and G = give_back_fresh [OF rep i st, of "unat n"]
  have cmp: "bk_buf head \<le> bk_buf tail \<longleftrightarrow> ?a \<le> ?p" by (simp add: word_le_nat_alt)
  show ?thesis
  proof (cases "?a \<le> ?p")
    case True
    note L = layout_add_end(1,2) [OF lay a True]
    have 1: "n \<le> (rbb_buf r + rbb_buf_size r) - blk_end tail \<longleftrightarrow> ?p + ?m + unat n \<le> rbb_hi r"
      using room_iff [of "blk_end tail" "rbb_buf r + rbb_buf_size r" n] L e unat_end [OF rbb_repD(7) [OF rep]] by simp
    have 2: "n \<le> bk_buf head - rbb_buf r \<longleftrightarrow> rbb_lo r + unat n \<le> ?a"
      using room_iff [of "rbb_buf r" "bk_buf head" n] L by (simp add: rbb_lo_def)
    show ?thesis using T [of "blk_end tail"] T [of "rbb_buf r"] G pl True unfolding alloc_after_def Let_def 1 2 cmp e rbb_lo_def [symmetric] by auto
  next
    case False
    then have lt: "?p < ?a" by simp
    note L = layout_add_low(1) [OF lay a lt]
    have 1: "n \<le> bk_buf head - blk_end tail \<longleftrightarrow> ?p + ?m + unat n \<le> ?a"
      using room_iff [of "blk_end tail" "bk_buf head" n] L e by simp
    show ?thesis using T [of "blk_end tail"] G pl False unfolding alloc_after_def Let_def 1 cmp e by auto
  qed
qed

lemma rbb_blk_alloc_run:
  assumes rep: "rbb_rep r xs fs" and n: "0 < n" "n < 0x1000000"
  shows "case fs of [] \<Rightarrow> rt_rbb_blk_alloc n r = Some (None, r)
    | i # fs' \<Rightarrow> let place = place_for (rbb_lo r) (rbb_hi r) (map (blk_range r) xs) (unat n)
        in \<exists>r'. rt_rbb_blk_alloc n r = Some (map_option (\<lambda>_. i) place, r') \<and> rbb_fresh place (unat n) i xs fs' r r'"
proof (cases fs)
  case Nil
  then show ?thesis using find_empty_run [OF rep] n(2) by (simp add: rt_rbb_blk_alloc_def)
next
  case (Cons i fs')
  obtain nx where F: "find_empty_blk_in_set r = Some (Some i, r\<lparr>rbb_next := nx\<rparr>)" "rbb_rep (r\<lparr>rbb_next := nx\<rparr>) xs fs'"
    "i \<notin> set xs" "i \<notin> set fs'" "bk_status (rbb_blks r i) = BLK_UNUSED" using find_empty_run [OF rep] Cons by auto
  let ?r = "r\<lparr>rbb_next := nx\<rparr>" and ?place = "place_for (rbb_lo r) (rbb_hi r) (map (blk_range r) xs) (unat n)"
  have st: "bk_status (rbb_blks ?r i) = BLK_UNUSED" using F(5) by simp
  have fr: "rbb_fresh p k i xs fs' ?r r' = rbb_fresh p k i xs fs' r r'" for p k r'
    by (simp add: rbb_fresh_def split: option.splits)
  have "\<exists>r'. rt_rbb_blk_alloc n r = Some (map_option (\<lambda>_. i) ?place, r') \<and> rbb_fresh ?place (unat n) i xs fs' ?r r'"
  proof (cases xs rule: rev_cases)
    case Nil
    then have "rt_slist_isempty BlkList nx" using F(2) by (simp add: rbb_rep_def slist_def rt_slist_isempty_def)
    then show ?thesis using alloc_empty [of ?r fs' i n] F(1,2,4) st n Nil by (simp add: rt_rbb_blk_alloc_def)
  next
    case (snoc ys t)
    have l: "slist nx BlkList (map Blk (ys @ [t]))" using F(2) snoc by (simp add: rbb_rep_def)
    have h: "rt_slist_first BlkList nx = Some (Blk (hd (ys @ [t])))"
      using l by (cases ys) (simp_all add: slist_def rt_slist_first_def)
    then have ne: "\<not> rt_slist_isempty BlkList nx" by (simp add: rt_slist_first_def rt_slist_isempty_def)
    have t: "rbb_tail r = Blk t" using F(2) snoc by (simp add: rbb_rep_def)
    have "rt_rbb_blk_alloc n r = Some (alloc_after i (rbb_blks ?r (hd (ys @ [t]))) (rbb_blks ?r t) n ?r)"
      using n(2) by (simp add: rt_rbb_blk_alloc_def F(1) h ne t)
    then show ?thesis using alloc_behind [of ?r ys t fs' i n] F(2-4) st n unfolding snoc rbb_next_fields by auto
  qed
  then show ?thesis using Cons fr by simp
qed

lemma rbb_blk_free_run:
  assumes rep: "rbb_rep r xs fs" and i: "i \<in> set xs"
  shows "\<exists>r'. rt_rbb_blk_free i r = Some r' \<and> rbb_rep r' (removeAll i xs) (i # fs) \<and> blk_range r' = blk_range r \<and>
    (\<forall>j. j \<noteq> i \<longrightarrow> rbb_blks r' j = rbb_blks r j) \<and> rbb_lo r' = rbb_lo r \<and> rbb_hi r' = rbb_hi r"
proof -
  obtain as bs where xs: "xs = as @ i # bs" using i by (meson split_list)
  have d: "i \<notin> set as" "i \<notin> set bs" "i \<notin> set fs" using rbb_repD(1,5) [OF rep] xs by auto
  let ?p = "last (BlkList # map Blk as)"
  let ?nx = "(rbb_next r)(?p := rbb_next r (Blk i), Blk i := None)"
  have l: "slist (rbb_next r) BlkList (map Blk as @ Blk i # map Blk bs)" using rep xs by (simp add: rbb_rep_def)
  have b: "slist_before (rbb_next r) (Blk i) BlkList = Some ?p" "rbb_next r ?p = Some (Blk i)"
    using schain_before [of "rbb_next r" BlkList "map Blk as" "Blk i" "map Blk bs"] l d(1) by (auto simp: slist_def)
  have st: "bk_status (rbb_blks r i) \<noteq> BLK_UNUSED" using rep i by (simp add: rbb_rep_def)
  let ?tl = "if rbb_tail r = Blk i then ?p else rbb_tail r"
  let ?r0 = "r\<lparr>rbb_next := ?nx, rbb_tail := ?tl\<rparr>"
  have lr: "list_remove (Blk i) r = Some ?r0" using b by (simp add: list_remove_def Let_def del: last.simps)
  have lb: "slist ?nx BlkList (map Blk (as @ bs))" using slist_remove(2) [OF l] by simp
  have pm: "?p \<in> insert BlkList (Blk ` set as)" using last_in_set [of "BlkList # map Blk as"] by simp
  have lf: "slist ?nx FreeList (map Blk fs) = slist (rbb_next r) FreeList (map Blk fs)"
    by (rule slist_frame) (use pm d rbb_repD(5) [OF rep] xs in auto)
  have tl: "?tl = last (BlkList # map Blk (as @ bs))"
    using rbb_repD(8) [OF rep] d xs by (cases bs rule: rev_cases) (auto simp: last_map)
  let ?r1 = "upd_blk i (\<lambda>b. b\<lparr>bk_status := BLK_UNUSED\<rparr>) ?r0"
  have rg: "blk_range ?r1 = blk_range r" by (simp add: blk_range_def fun_eq_iff)
  have c: "rbb_lo ?r1 = rbb_lo r" "rbb_hi ?r1 = rbb_hi r" by (simp_all add: rbb_lo_def rbb_hi_def)
  have lay: "ring_layout (rbb_lo r) (rbb_hi r) (map (blk_range r) (as @ bs))"
    using layout_remove [of _ _ "map (blk_range r) as" "blk_range r i" "map (blk_range r) bs"] rbb_repD(6) [OF rep] xs by simp
  have "rbb_rep ?r1 (as @ bs) fs" unfolding rbb_rep_def rg c using rep xs d lb lf tl lay by (auto simp: rbb_rep_def)
  from give_back_run [OF this, of i] d have "rbb_rep (?r1\<lparr>rbb_next := rt_slist_insert FreeList (Blk i) (rbb_next ?r1)\<rparr>) (as @ bs) (i # fs)"
    by simp
  moreover have "rt_rbb_blk_free i r = Some (?r1\<lparr>rbb_next := rt_slist_insert FreeList (Blk i) (rbb_next ?r1)\<rparr>)"
    using st lr by (simp add: rt_rbb_blk_free_def Let_def)
  moreover have "removeAll i xs = as @ bs" using xs d by simp
  moreover have "\<forall>j. j \<noteq> i \<longrightarrow> rbb_blks (?r1\<lparr>rbb_next := rt_slist_insert FreeList (Blk i) (rbb_next ?r1)\<rparr>) j = rbb_blks r j" by simp
  ultimately show ?thesis using rg c rbb_next_fields by metis
qed


subsection \<open>A ring block buffer is an allocator\<close>

definition rbb_ok :: "rt_rbb \<Rightarrow> bool" where
  "rbb_ok r \<longleftrightarrow> (\<exists>xs fs. rbb_rep r xs fs)"

definition rbb_live :: "rt_rbb \<Rightarrow> (nat \<times> nat \<times> nat) set" where
  \<comment> \<open>the blocks in use: descriptor, first address, size\<close>
  "rbb_live r = {(i, blk_range r i) |i. \<exists>xs fs. rbb_rep r xs fs \<and> i \<in> set xs}"

definition blk_request :: "u32 \<Rightarrow> bool" where
  "blk_request n \<longleftrightarrow> 0 < n \<and> n < 0x1000000"

lemma rbb_rep_unique: "rbb_rep r xs fs \<Longrightarrow> rbb_rep r ys gs \<Longrightarrow> xs = ys \<and> fs = gs"
  using slist_unique [of "rbb_next r" BlkList "map Blk xs" "map Blk ys"] slist_unique [of "rbb_next r" FreeList "map Blk fs" "map Blk gs"]
  by (auto simp: rbb_rep_def inj_map_eq_map inj_def)

lemma rbb_live_rep:
  assumes "rbb_rep r xs fs"
  shows "rbb_live r = (\<lambda>i. (i, blk_range r i)) ` set xs"
proof -
  have "(\<exists>ys gs. rbb_rep r ys gs \<and> i \<in> set ys) \<longleftrightarrow> i \<in> set xs" for i using assms rbb_rep_unique by metis
  then show ?thesis unfolding rbb_live_def by (auto simp: image_def)
qed

lemma rbb_alloc_live:
  assumes ok: "rbb_ok r" and v: "blk_request n"
  shows "\<exists>h r'. rt_rbb_blk_alloc n r = Some (h, r') \<and> rbb_ok r' \<and> rbb_hi r' = rbb_hi r \<and>
    (case h of None \<Rightarrow> rbb_live r' = rbb_live r
     | Some i \<Rightarrow> \<exists>p k. unat n \<le> k \<and> i \<notin> fst ` rbb_live r \<and> rbb_live r' = insert (i, p, k) (rbb_live r))"
proof -
  obtain xs fs where rep: "rbb_rep r xs fs" using ok by (auto simp: rbb_ok_def)
  have n: "0 < n" "n < 0x1000000" using v by (simp_all add: blk_request_def)
  note A = rbb_blk_alloc_run [OF rep n]
  show ?thesis
  proof (cases fs)
    case Nil
    then show ?thesis using A ok by simp
  next
    case (Cons i fs')
    let ?place = "place_for (rbb_lo r) (rbb_hi r) (map (blk_range r) xs) (unat n)"
    obtain r' where r': "rt_rbb_blk_alloc n r = Some (map_option (\<lambda>_. i) ?place, r')" "rbb_fresh ?place (unat n) i xs fs' r r'"
      using A Cons by (auto simp: Let_def)
    have i: "i \<notin> set xs" using rbb_repD(5) [OF rep] Cons by auto
    show ?thesis
    proof (cases ?place)
      case None
      then have f: "rbb_rep r' xs (i # fs')" "rbb_blks r' = rbb_blks r" "rbb_hi r' = rbb_hi r" using r'(2) by (simp_all add: rbb_fresh_def)
      then have "rbb_live r' = rbb_live r" by (simp add: rbb_live_rep [OF f(1)] rbb_live_rep [OF rep] blk_range_def)
      then show ?thesis using r'(1) None f by (auto simp: rbb_ok_def)
    next
      case (Some p)
      then have f: "rbb_rep r' (xs @ [i]) fs'" "blk_range r' i = (p, unat n)" "\<forall>j. j \<noteq> i \<longrightarrow> rbb_blks r' j = rbb_blks r j" "rbb_hi r' = rbb_hi r"
        using r'(2) by (simp_all add: rbb_fresh_def)
      have "(\<lambda>j. (j, blk_range r' j)) ` set xs = (\<lambda>j. (j, blk_range r j)) ` set xs"
        using f(3) i by (intro image_cong) (auto simp: blk_range_def)
      then have "rbb_live r' = insert (i, p, unat n) (rbb_live r)" using f(2) by (simp add: rbb_live_rep [OF f(1)] rbb_live_rep [OF rep])
      moreover have "i \<notin> fst ` rbb_live r" using i by (force simp: rbb_live_rep [OF rep])
      ultimately show ?thesis using r'(1) Some f(1,4) by (auto simp: rbb_ok_def)
    qed
  qed
qed

lemma rbb_free_live:
  assumes ok: "rbb_ok r" and i: "i \<in> fst ` rbb_live r"
  shows "\<exists>r'. rt_rbb_blk_free i r = Some r' \<and> rbb_ok r' \<and> rbb_hi r' = rbb_hi r \<and> rbb_live r' = {b \<in> rbb_live r. fst b \<noteq> i}"
proof -
  obtain xs fs where rep: "rbb_rep r xs fs" using ok by (auto simp: rbb_ok_def)
  have "i \<in> set xs" using i by (auto simp: rbb_live_rep [OF rep])
  from rbb_blk_free_run [OF rep this] obtain r' where r': "rt_rbb_blk_free i r = Some r'" "rbb_rep r' (removeAll i xs) (i # fs)"
    "blk_range r' = blk_range r" "rbb_hi r' = rbb_hi r" by blast
  have "rbb_live r' = {b \<in> rbb_live r. fst b \<noteq> i}" by (auto simp: rbb_live_rep [OF r'(2)] rbb_live_rep [OF rep] r'(3))
  then show ?thesis using r' by (auto simp: rbb_ok_def)
qed

interpretation rbb: allocator rbb_ok rbb_live rbb_hi blk_request unat rt_rbb_blk_alloc rt_rbb_blk_free
proof unfold_locales
  fix r h p n
  assume "rbb_ok r" and l: "(h, p, n) \<in> rbb_live r"
  then obtain xs fs where rep: "rbb_rep r xs fs" by (auto simp: rbb_ok_def)
  have "(p, n) \<in> set (map (blk_range r) xs)" using l by (auto simp: rbb_live_rep [OF rep])
  from layout_in [OF rbb_repD(6) [OF rep] this] show "p + n \<le> rbb_hi r \<and> 0 < n" by simp
next
  fix r h b c
  assume "(h, b) \<in> rbb_live r" and "(h, c) \<in> rbb_live r"
  then show "b = c" by (auto simp: rbb_live_def)
next
  fix r h p n g q k
  assume "rbb_ok r" and l: "(h, p, n) \<in> rbb_live r" "(g, q, k) \<in> rbb_live r" "h \<noteq> g"
  then obtain xs fs where rep: "rbb_rep r xs fs" by (auto simp: rbb_ok_def)
  show "p + n \<le> q \<or> q + k \<le> p"
    using layout_apart [OF rbb_repD(6) [OF rep], of h g] l by (auto simp: rbb_live_rep [OF rep] dest!: sym [of _ "blk_range r _"])
qed (use rbb_alloc_live rbb_free_live in blast)+


text \<open>
  Allocation: without a free descriptor or without room the result is \<open>RT_NULL\<close> and no block changes. Otherwise the first free descriptor becomes
  the last block in use, initialised, with the requested size, behind the block before it, or at the start of the buffer when the space
  before its end is too small.
\<close>
theorem rt_rbb_blk_alloc_branches:
  assumes rep: "rbb_rep r xs fs" and n: "0 < n" "n < 0x1000000"
  shows "case fs of [] \<Rightarrow> rt_rbb_blk_alloc n r = Some (None, r)
    | i # fs' \<Rightarrow> let place = place_for (rbb_lo r) (rbb_hi r) (map (blk_range r) xs) (unat n)
        in \<exists>r'. rt_rbb_blk_alloc n r = Some (map_option (\<lambda>_. i) place, r') \<and> rbb_fresh place (unat n) i xs fs' r r'"
  using assms by (rule rbb_blk_alloc_run)


subsection \<open>Passing a block\<close>

lemma rbb_rep_status:
  \<comment> \<open>what a block in use is marked with does not matter to the lists and to the layout\<close>
  assumes "rbb_rep r xs fs" and "i \<in> set xs" and "s \<noteq> BLK_UNUSED"
  shows "rbb_rep (upd_blk i (\<lambda>b. b\<lparr>bk_status := s\<rparr>) r) xs fs"
    and "rbb_live (upd_blk i (\<lambda>b. b\<lparr>bk_status := s\<rparr>) r) = rbb_live r"
proof -
  let ?r = "upd_blk i (\<lambda>b. b\<lparr>bk_status := s\<rparr>) r"
  have rg: "blk_range ?r = blk_range r" "rbb_lo ?r = rbb_lo r" "rbb_hi ?r = rbb_hi r"
    by (auto simp: blk_range_def rbb_lo_def rbb_hi_def fun_eq_iff)
  have "i \<notin> set fs" using rbb_repD(5) [OF assms(1)] assms(2) by auto
  then show rep: "rbb_rep ?r xs fs" using assms unfolding rbb_rep_def rg by auto
  show "rbb_live ?r = rbb_live r" by (simp add: rbb_live_rep [OF rep] rbb_live_rep [OF assms(1)] rg)
qed

lemma find_put_run:
  assumes "schain (rbb_next r) a (map Blk ns)"
  shows "find_put r (case ns of [] \<Rightarrow> None | i # _ \<Rightarrow> Some (Blk i)) = Some (List.find (\<lambda>i. bk_status (rbb_blks r i) = BLK_PUT) ns)"
  using assms
proof (induction ns arbitrary: a)
  case Nil
  then show ?case by (subst find_put.simps) simp
next
  case (Cons i "is")
  then have c: "schain (rbb_next r) (Blk i) (map Blk is)" by simp
  then have n: "rt_slist_next (Blk i) (rbb_next r) = (case is of [] \<Rightarrow> None | j # _ \<Rightarrow> Some (Blk j))" by (cases "is") (auto simp: rt_slist_next_def)
  show ?case using Cons.IH [OF c] by (subst find_put.simps) (simp add: n)
qed

text \<open>
  Putting and getting: \<open>rt_rbb_blk_put\<close> accepts a block in use exactly when it is initialised and not yet put; \<open>rt_rbb_blk_get\<close> marks and returns the
  block put that was allocated first, or \<open>RT_NULL\<close> when there is none. Neither moves a block, and only the state of that block changes.
\<close>
theorem rt_rbb_put_get:
  assumes rep: "rbb_rep r xs fs"
  shows "rt_rbb_blk_put i r = (if bk_status (rbb_blks r i) = BLK_INITED then Some (upd_blk i (\<lambda>b. b\<lparr>bk_status := BLK_PUT\<rparr>) r) else None) \<and>
    rt_rbb_blk_get r = Some (case List.find (\<lambda>i. bk_status (rbb_blks r i) = BLK_PUT) xs of
        None \<Rightarrow> (None, r) | Some i \<Rightarrow> (Some i, upd_blk i (\<lambda>b. b\<lparr>bk_status := BLK_GET\<rparr>) r))"
proof
  show "rt_rbb_blk_put i r = (if bk_status (rbb_blks r i) = BLK_INITED then Some (upd_blk i (\<lambda>b. b\<lparr>bk_status := BLK_PUT\<rparr>) r) else None)"
    by (simp add: rt_rbb_blk_put_def rt_assert_def)
  have s: "slist (rbb_next r) BlkList (map Blk xs)" using rep by (simp add: rbb_rep_def)
  then have c: "schain (rbb_next r) BlkList (map Blk xs)" by (simp add: slist_def)
  have f: "rt_slist_first BlkList (rbb_next r) = (case xs of [] \<Rightarrow> None | j # _ \<Rightarrow> Some (Blk j))"
    using c by (cases xs) (auto simp: rt_slist_first_def)
  show "rt_rbb_blk_get r = Some (case List.find (\<lambda>i. bk_status (rbb_blks r i) = BLK_PUT) xs of
        None \<Rightarrow> (None, r) | Some i \<Rightarrow> (Some i, upd_blk i (\<lambda>b. b\<lparr>bk_status := BLK_GET\<rparr>) r))"
    using c find_put_run [OF c] unfolding rt_rbb_blk_get_def f
    by (cases xs) (auto simp: rt_slist_isempty_def split: option.splits)
qed


subsection \<open>Initialisation\<close>

lemma init_block_run:
  assumes "rbb_rep r [] fs" and "i \<notin> set fs"
  shows "rbb_rep (init_block i r) [] (i # fs)" and "rbb_lo (init_block i r) = rbb_lo r" and "rbb_hi (init_block i r) = rbb_hi r"
proof -
  let ?r = "upd_blk i (\<lambda>b. b\<lparr>bk_status := BLK_UNUSED\<rparr>) (r\<lparr>rbb_next := (rbb_next r)(Blk i := None)\<rparr>)"
  have l: "slist ((rbb_next r)(Blk i := None)) FreeList (map Blk fs) = slist (rbb_next r) FreeList (map Blk fs)"
    by (rule slist_frame) (use assms(2) in auto)
  have l0: "slist ((rbb_next r)(Blk i := None)) BlkList [] = slist (rbb_next r) BlkList []" by (simp add: slist_def)
  have "rbb_rep ?r [] fs" using assms l l0 by (auto simp: rbb_rep_def rbb_lo_def rbb_hi_def)
  from give_back_run [OF this, of i] assms(2) show "rbb_rep (init_block i r) [] (i # fs)"
    by (simp add: init_block_def Let_def rt_slist_init_def)
  show "rbb_lo (init_block i r) = rbb_lo r" "rbb_hi (init_block i r) = rbb_hi r"
    by (simp_all add: init_block_def Let_def rbb_lo_def rbb_hi_def)
qed

lemma init_blocks_run:
  assumes "rbb_rep r [] []"
  shows "rbb_rep (fold init_block [0..<n] r) [] (rev [0..<n]) \<and> rbb_lo (fold init_block [0..<n] r) = rbb_lo r \<and>
    rbb_hi (fold init_block [0..<n] r) = rbb_hi r"
proof (induction n)
  case 0
  then show ?case using assms by simp
next
  case (Suc n)
  then show ?case using init_block_run [of "fold init_block [0..<n] r" "rev [0..<n]" n] by simp
qed

text \<open>
  A buffer that lies in the address space is initialised with no block in use and all descriptors free, the last one first.
\<close>
theorem rt_rbb_init_empty:
  assumes "unat buf + unat buf_size < 2 ^ 32" and "buf \<noteq> 0"
  shows "\<exists>r'. rt_rbb_init buf buf_size blk_max_num r = Some r' \<and> rbb_rep r' [] (rev [0..<unat blk_max_num]) \<and>
    rbb_lo r' = unat buf \<and> rbb_hi r' = unat buf + unat buf_size"
proof -
  define r0 where "r0 = r\<lparr>rbb_buf := buf, rbb_buf_size := buf_size, rbb_max_num := blk_max_num, rbb_tail := BlkList,
    rbb_next := (rbb_next r)(BlkList := None, FreeList := None)\<rparr>"
  have "rbb_rep r0 [] []" "rbb_lo r0 = unat buf" "rbb_hi r0 = unat buf + unat buf_size"
    using assms(1) by (auto simp: r0_def rbb_rep_def slist_def rbb_lo_def rbb_hi_def ring_layout_def first_addr_def)
  moreover have "rt_rbb_init buf buf_size blk_max_num r = Some (fold init_block [0..<unat blk_max_num] r0)"
    using assms(2) by (simp add: rt_rbb_init_def Let_def rt_slist_init_def r0_def)
  ultimately show ?thesis using init_blocks_run [of r0] by simp
qed

definition blank_rbb :: rt_rbb where
  "blank_rbb = \<lparr>rbb_buf = 0, rbb_buf_size = 0, rbb_max_num = 0, rbb_next = (\<lambda>_. None), rbb_tail = BlkList,
     rbb_blks = (\<lambda>_. \<lparr>bk_status = BLK_GET, bk_size = 0, bk_buf = 0\<rparr>)\<rparr>"

definition demo_rbb :: rt_rbb where
  \<comment> \<open>a buffer of 16 bytes at the address 64 with four descriptors\<close>
  "demo_rbb = (case rt_rbb_init 64 16 4 blank_rbb of Some r \<Rightarrow> r | None \<Rightarrow> blank_rbb)"

lemma demo_rbb_rep: "rbb_rep demo_rbb [] (rev [0..<4])" and demo_rbb_bounds: "rbb_lo demo_rbb = 64" "rbb_hi demo_rbb = 80"
  using rt_rbb_init_empty [of 64 16 4 blank_rbb] by (auto simp: demo_rbb_def)

lemma demo_rbb_ok: "rbb_ok demo_rbb" and demo_rbb_live: "rbb_live demo_rbb = {}"
  using demo_rbb_rep by (auto simp: rbb_ok_def rbb_live_rep [OF demo_rbb_rep])


theorem rt_rbb_blk_alloc_branches_witness:
  "\<exists>r'. rt_rbb_blk_alloc 8 demo_rbb = Some (Some 3, r') \<and> rbb_fresh (Some 64) 8 3 [] [2, 1, 0] demo_rbb r'"
proof -
  have fs: "rev [0..<4] = [3, 2, 1, 0::nat]" by code_simp
  show ?thesis using rt_rbb_blk_alloc_branches [OF demo_rbb_rep, of 8] demo_rbb_bounds by (simp add: fs place_for_def Let_def)
qed

definition zero_size_run :: "((nat \<times> nat) \<times> (nat \<times> nat)) option" where
  \<comment> \<open>two blocks of 8 bytes fill the buffer, the first is freed and allocated again, then 0 and 8 bytes are requested\<close>
  "zero_size_run = do {
     (a, r) \<leftarrow> rt_rbb_blk_alloc 8 demo_rbb;
     (b, r) \<leftarrow> rt_rbb_blk_alloc 8 r;
     a \<leftarrow> a;
     b \<leftarrow> b;
     r \<leftarrow> rt_rbb_blk_free a r;
     (c, r) \<leftarrow> rt_rbb_blk_alloc 8 r;
     (d, r) \<leftarrow> rt_rbb_blk_alloc 0 r;
     (e, r) \<leftarrow> rt_rbb_blk_alloc 8 r;
     e \<leftarrow> e;
     Some (blk_range r b, blk_range r e)
   }"

text \<open>
  A request for no bytes breaks the buffer: once the blocks have come round the end of the memory, an empty block can get the
  address of the first block, which the next allocation takes for a buffer that has not come round. The two blocks below, both in
  use, are the same bytes.
\<close>
theorem ring_blk_zero_size_overlaps: "zero_size_run = Some ((72, 8), (72, 8))"
  by code_simp


subsection \<open>Queues of blocks\<close>

fun run_from :: "(nat \<Rightarrow> rt_rbb_blk) \<Rightarrow> (u32 \<Rightarrow> bool) \<Rightarrow> u32 \<Rightarrow> nat \<Rightarrow> nat list \<Rightarrow> nat list" where
  \<comment> \<open>the blocks that follow block \<open>l\<close> in a queue: put, at no lower address, and of a total size that \<open>fits\<close>\<close>
  "run_from B fits tot l [] = []"
| "run_from B fits tot l (i # is) =
     (if bk_status (B i) \<noteq> BLK_PUT \<or> bk_buf (B l) > bk_buf (B i) \<or> \<not> fits (tot + ucast (bk_size (B i))) then []
      else i # run_from B fits (tot + ucast (bk_size (B i))) i is)"

definition put_run :: "(nat \<Rightarrow> rt_rbb_blk) \<Rightarrow> (u32 \<Rightarrow> bool) \<Rightarrow> nat list \<Rightarrow> nat list" where
  \<comment> \<open>the first block that was put, whatever its size, and those that follow it\<close>
  "put_run B fits xs = (case dropWhile (\<lambda>i. bk_status (B i) \<noteq> BLK_PUT) xs of
       [] \<Rightarrow> [] | i # is \<Rightarrow> i # run_from B fits (ucast (bk_size (B i))) i is)"

definition run_size :: "(nat \<Rightarrow> rt_rbb_blk) \<Rightarrow> nat list \<Rightarrow> u32" where
  "run_size B xs = sum_list (map (\<lambda>i. ucast (bk_size (B i))) xs)"

definition mark_get :: "nat list \<Rightarrow> rt_rbb \<Rightarrow> rt_rbb" where
  "mark_get xs r = r\<lparr>rbb_blks := (\<lambda>i. if i \<in> set xs then (rbb_blks r i)\<lparr>bk_status := BLK_GET\<rparr> else rbb_blks r i)\<rparr>"

fun node_of :: "nat list \<Rightarrow> snode option" where
  "node_of [] = None"
| "node_of (i # is) = Some (Blk i)"

lemma run_from_cong:
  "(\<And>j. j \<in> set is \<Longrightarrow> B' j = B j) \<Longrightarrow> bk_buf (B' l) = bk_buf (B l) \<Longrightarrow> run_from B' fits tot l is = run_from B fits tot l is"
proof (induction "is" arbitrary: l tot)
  case (Cons i "is")
  then show ?case using Cons.IH [of i] by auto
qed simp

lemma run_from_subset: "set (run_from B fits tot l is) \<subseteq> set is"
  by (induction B fits tot l "is" rule: run_from.induct) auto

lemma run_size_simps [simp]: "run_size B [] = 0" "run_size B (i # is) = ucast (bk_size (B i)) + run_size B is"
  by (simp_all add: run_size_def)

lemma mark_get_simps [simp]: "mark_get [] r = r" "rbb_next (mark_get xs r) = rbb_next r"
  by (simp_all add: mark_get_def)

lemma mark_get_Cons:
  "i \<notin> set xs \<Longrightarrow> mark_get xs (upd_blk i (\<lambda>b. b\<lparr>bk_status := BLK_GET\<rparr>) r) = mark_get (i # xs) r"
  by (auto simp: mark_get_def fun_eq_iff)

lemma schain_node: "schain nx n (map Blk is) \<Longrightarrow> nx n = node_of is"
  by (cases "is") auto

lemma run_size_cong: "(\<And>i. i \<in> set xs \<Longrightarrow> bk_size (B' i) = bk_size (B i)) \<Longrightarrow> run_size B' xs = run_size B xs"
  by (induction xs) auto

lemma queue_get_more:
  assumes "node = node_of ns" and "ns \<noteq> [] \<Longrightarrow> tmp = node_of (tl ns)"
    and "\<And>i is. ns = i # is \<Longrightarrow> schain (rbb_next r) (Blk i) (map Blk is)" and "distinct ns" and "l \<notin> set ns"
  shows "queue_get_loop at_null lim node tmp (Some l) tot q r =
      (let run = run_from (rbb_blks r) (\<lambda>t. t \<le> lim) tot l ns
       in Some (tot + run_size (rbb_blks r) run, q\<lparr>bq_num := bq_num q + of_nat (length run)\<rparr>, mark_get run r))"
  using assms
proof (induction ns arbitrary: node tmp l tot q r)
  case Nil
  then show ?case by (subst queue_get_loop.simps) simp
next
  case (Cons i "is")
  have node: "node = Some (Blk i)" "tmp = node_of is" using Cons.prems(1,2) by simp_all
  have ch: "schain (rbb_next r) (Blk i) (map Blk is)" using Cons.prems(3) by simp
  let ?b = "rbb_blks r i" and ?tot = "tot + ucast (bk_size (rbb_blks r i))"
  show ?case
  proof (cases "bk_status ?b \<noteq> BLK_PUT \<or> bk_buf (rbb_blks r l) > bk_buf ?b \<or> ?tot > lim")
    case True
    then show ?thesis using node by (subst queue_get_loop.simps) (auto simp: Let_def not_le)
  next
    case False
    let ?r = "upd_blk i (\<lambda>b. b\<lparr>bk_status := BLK_GET\<rparr>) r" and ?q = "q\<lparr>bq_num := bq_num q + 1\<rparr>"
    let ?tmp = "case node_of is of None \<Rightarrow> at_null | Some m \<Rightarrow> rt_slist_next m (rbb_next r)"
    have i: "i \<notin> set is" "distinct is" using Cons.prems(4) by simp_all
    have tl: "is \<noteq> [] \<Longrightarrow> ?tmp = node_of (tl is)"
      using ch schain_node by (cases "is") (auto simp: rt_slist_next_def)
    have "queue_get_loop at_null lim (node_of is) ?tmp (Some i) ?tot ?q ?r =
        (let run = run_from (rbb_blks ?r) (\<lambda>t. t \<le> lim) ?tot i is
         in Some (?tot + run_size (rbb_blks ?r) run, ?q\<lparr>bq_num := bq_num ?q + of_nat (length run)\<rparr>, mark_get run ?r))"
      by (rule Cons.IH) (use ch i tl in auto)
    moreover have "run_from (rbb_blks ?r) (\<lambda>t. t \<le> lim) ?tot i is = run_from (rbb_blks r) (\<lambda>t. t \<le> lim) ?tot i is"
      by (rule run_from_cong) (use i in auto)
    moreover have "i \<notin> set (run_from (rbb_blks r) (\<lambda>t. t \<le> lim) ?tot i is)" using run_from_subset i(1) by blast
    moreover have "run_size (rbb_blks ?r) xs = run_size (rbb_blks r) xs" for xs by (rule run_size_cong) simp
    moreover have "queue_get_loop at_null lim node tmp (Some l) tot q r = queue_get_loop at_null lim (node_of is) ?tmp (Some i) ?tot ?q ?r"
      using node False by (subst queue_get_loop.simps) (simp add: Let_def)
    ultimately show ?thesis using False by (auto simp: Let_def mark_get_Cons add.assoc)
  qed
qed

lemma queue_get_first:
  assumes "node = node_of ns" and "ns \<noteq> [] \<Longrightarrow> tmp = node_of (tl ns)"
    and "\<And>i is. ns = i # is \<Longrightarrow> schain (rbb_next r) (Blk i) (map Blk is)" and "distinct ns"
  shows "queue_get_loop at_null lim node tmp None 0 q r =
      (let run = put_run (rbb_blks r) (\<lambda>t. t \<le> lim) ns
       in Some (run_size (rbb_blks r) run, if run = [] then q else \<lparr>bq_blocks = hd run, bq_num = of_nat (length run)\<rparr>, mark_get run r))"
  using assms
proof (induction ns arbitrary: node tmp)
  case Nil
  then show ?case by (subst queue_get_loop.simps) (simp add: put_run_def)
next
  case (Cons i "is")
  have node: "node = Some (Blk i)" "tmp = node_of is" using Cons.prems(1,2) by simp_all
  have ch: "schain (rbb_next r) (Blk i) (map Blk is)" using Cons.prems(3) by simp
  have i: "i \<notin> set is" "distinct is" using Cons.prems(4) by simp_all
  let ?tmp = "case node_of is of None \<Rightarrow> at_null | Some m \<Rightarrow> rt_slist_next m (rbb_next r)"
  have tl: "is \<noteq> [] \<Longrightarrow> ?tmp = node_of (tl is)"
    using ch schain_node by (cases "is") (auto simp: rt_slist_next_def)
  have ch2: "\<And>j js. is = j # js \<Longrightarrow> schain (rbb_next r) (Blk j) (map Blk js)" using ch by simp
  show ?case
  proof (cases "bk_status (rbb_blks r i) = BLK_PUT")
    case False
    then have "queue_get_loop at_null lim node tmp None 0 q r = queue_get_loop at_null lim (node_of is) ?tmp None 0 q r"
      using node by (subst queue_get_loop.simps) (simp add: Let_def)
    then show ?thesis using Cons.IH [OF refl tl ch2 i(2)] False by (simp add: put_run_def)
  next
    case True
    let ?r = "upd_blk i (\<lambda>b. b\<lparr>bk_status := BLK_GET\<rparr>) r" and ?q = "\<lparr>bq_blocks = i, bq_num = 1\<rparr>" and ?n = "ucast (bk_size (rbb_blks r i)) :: u32"
    have "queue_get_loop at_null lim node tmp None 0 q r = queue_get_loop at_null lim (node_of is) ?tmp (Some i) ?n ?q ?r"
      using node True by (subst queue_get_loop.simps) (simp add: Let_def)
    moreover have "queue_get_loop at_null lim (node_of is) ?tmp (Some i) ?n ?q ?r =
        (let run = run_from (rbb_blks ?r) (\<lambda>t. t \<le> lim) ?n i is
         in Some (?n + run_size (rbb_blks ?r) run, ?q\<lparr>bq_num := bq_num ?q + of_nat (length run)\<rparr>, mark_get run ?r))"
      by (rule queue_get_more) (use ch i tl in auto)
    moreover have "run_from (rbb_blks ?r) (\<lambda>t. t \<le> lim) ?n i is = run_from (rbb_blks r) (\<lambda>t. t \<le> lim) ?n i is"
      by (rule run_from_cong) (use i in auto)
    moreover have "i \<notin> set (run_from (rbb_blks r) (\<lambda>t. t \<le> lim) ?n i is)" using run_from_subset i(1) by blast
    moreover have "run_size (rbb_blks ?r) xs = run_size (rbb_blks r) xs" for xs by (rule run_size_cong) simp
    ultimately show ?thesis using True by (simp add: Let_def mark_get_Cons put_run_def)
  qed
qed

lemma next_queue_more:
  assumes "schain (rbb_next r) (Blk j) (map Blk ns)"
  shows "next_queue_loop r (node_of ns) (Some l) tot = Some (tot + run_size (rbb_blks r) (run_from (rbb_blks r) (\<lambda>_. True) tot l ns))"
  using assms
proof (induction ns arbitrary: j l tot)
  case Nil
  then show ?case by (subst next_queue_loop.simps) simp
next
  case (Cons i "is")
  then have n: "rbb_next r (Blk i) = node_of is" by (simp add: schain_node)
  show ?case
    using Cons.IH [of i i "tot + ucast (bk_size (rbb_blks r i))"] Cons.prems n
    by (subst next_queue_loop.simps) (auto simp: Let_def rt_slist_next_def add.assoc)
qed

lemma next_queue_first:
  assumes "schain (rbb_next r) a (map Blk ns)"
  shows "next_queue_loop r (node_of ns) None 0 = Some (run_size (rbb_blks r) (put_run (rbb_blks r) (\<lambda>_. True) ns))"
  using assms
proof (induction ns arbitrary: a)
  case Nil
  then show ?case by (subst next_queue_loop.simps) (simp add: put_run_def)
next
  case (Cons i "is")
  then have n: "rbb_next r (Blk i) = node_of is" and c: "schain (rbb_next r) (Blk i) (map Blk is)" by (simp_all add: schain_node)
  show ?case
    using Cons.IH [OF c] next_queue_more [OF c, of i "ucast (bk_size (rbb_blks r i))"] n
    by (subst next_queue_loop.simps) (simp add: Let_def rt_slist_next_def put_run_def)
qed

lemma run_from_prefix: "\<exists>ys. is = run_from B fits tot l is @ ys"
  by (induction B fits tot l "is" rule: run_from.induct) auto

lemma put_run_split: "\<exists>as bs. xs = as @ put_run B fits xs @ bs"
proof (cases "dropWhile (\<lambda>i. bk_status (B i) \<noteq> BLK_PUT) xs")
  case Nil
  have "put_run B fits xs = []" unfolding put_run_def Nil list.case ..
  then have "xs = xs @ put_run B fits xs @ []" by simp
  then show ?thesis by blast
next
  case (Cons i "is")
  obtain ys where "is = run_from B fits (ucast (bk_size (B i))) i is @ ys" using run_from_prefix by blast
  then have "dropWhile (\<lambda>i. bk_status (B i) \<noteq> BLK_PUT) xs = put_run B fits xs @ ys" by (simp add: Cons put_run_def)
  then show ?thesis by (metis takeWhile_dropWhile_id)
qed

lemma rep_heads:
  assumes "rbb_rep r xs fs"
  shows "rt_slist_first BlkList (rbb_next r) = node_of xs" and "schain (rbb_next r) BlkList (map Blk xs)"
  using assms schain_node by (auto simp: rbb_rep_def slist_def rt_slist_first_def)

text \<open>
  \<open>rt_rbb_blk_queue_get\<close> takes the first block that was put, whatever its size, and the blocks behind it as long as they were put, lie at
  no lower address and the total fits the given length; these blocks are marked, their total size is returned, and the result
  does not depend on what the step of the loop reads through the null pointer. \<open>rt_rbb_next_blk_queue_len\<close> tells the size of the longest such queue.
\<close>
theorem rt_rbb_blk_queue_get_run:
  assumes rep: "rbb_rep r xs fs"
  shows "rt_rbb_blk_queue_get at_null lim q r =
      (let run = put_run (rbb_blks r) (\<lambda>t. t \<le> lim) xs
       in Some (run_size (rbb_blks r) run, if run = [] then q else \<lparr>bq_blocks = hd run, bq_num = of_nat (length run)\<rparr>, mark_get run r))"
    and "rt_rbb_next_blk_queue_len r = Some (run_size (rbb_blks r) (put_run (rbb_blks r) (\<lambda>_. True) xs))"
    and "rbb_rep (mark_get (put_run (rbb_blks r) fits xs) r) xs fs"
proof -
  note H = rep_heads [OF rep]
  show "rt_rbb_blk_queue_get at_null lim q r =
      (let run = put_run (rbb_blks r) (\<lambda>t. t \<le> lim) xs
       in Some (run_size (rbb_blks r) run, if run = [] then q else \<lparr>bq_blocks = hd run, bq_num = of_nat (length run)\<rparr>, mark_get run r))"
  proof (cases xs)
    case Nil
    then show ?thesis using H(1) by (simp add: rt_rbb_blk_queue_get_def put_run_def)
  next
    case (Cons i "is")
    have c: "schain (rbb_next r) (Blk i) (map Blk is)" using H(2) Cons by simp
    show ?thesis
      using H(1) Cons c queue_get_first [of "Some (Blk i)" xs "rbb_next r (Blk i)" r at_null lim q] rbb_repD(1) [OF rep] schain_node [OF c]
      by (simp add: rt_rbb_blk_queue_get_def rt_slist_next_def)
  qed
  show "rt_rbb_next_blk_queue_len r = Some (run_size (rbb_blks r) (put_run (rbb_blks r) (\<lambda>_. True) xs))"
    using next_queue_first [OF H(2)] H(1) by (simp add: rt_rbb_next_blk_queue_len_def)
  have "blk_range (mark_get ys r) = blk_range r" "rbb_lo (mark_get ys r) = rbb_lo r" "rbb_hi (mark_get ys r) = rbb_hi r" for ys
    by (simp_all add: mark_get_def blk_range_def rbb_lo_def rbb_hi_def fun_eq_iff)
  moreover have "set (put_run (rbb_blks r) fits xs) \<subseteq> set xs"
    using put_run_split [of xs "rbb_blks r" fits] by (metis Un_upper1 Un_upper2 order_trans set_append)
  ultimately show "rbb_rep (mark_get (put_run (rbb_blks r) fits xs) r) xs fs"
    using rep unfolding rbb_rep_def by (auto simp: mark_get_def)
qed

lemma queue_len_run:
  "schain (rbb_next r) a (map Blk (ns @ bs)) \<Longrightarrow> queue_len_loop (length ns) (node_of (ns @ bs)) tot r = Some (tot + run_size (rbb_blks r) ns)"
proof (induction ns arbitrary: a tot)
  case (Cons i "is")
  then have "rbb_next r (Blk i) = node_of (is @ bs)" "schain (rbb_next r) (Blk i) (map Blk (is @ bs))"
    using schain_node [of "rbb_next r" "Blk i" "is @ bs"] by simp_all
  then show ?case using Cons.IH by (simp add: add.assoc)
qed simp

lemma queue_free_run:
  assumes "rbb_rep r (as @ ns @ bs) fs" and "node = node_of (ns @ bs)"
  shows "\<exists>r'. queue_free_loop (length ns) node r = Some r' \<and> rbb_rep r' (as @ bs) (rev ns @ fs)"
  using assms
proof (induction ns arbitrary: node r fs)
  case (Cons i "is")
  have d: "i \<notin> set (as @ is @ bs)" using rbb_repD(1) [OF Cons.prems(1)] by auto
  obtain r' where r': "rt_rbb_blk_free i r = Some r'" "rbb_rep r' (removeAll i (as @ (i # is) @ bs)) (i # fs)"
    using rbb_blk_free_run [OF Cons.prems(1), of i] by auto
  have rep: "rbb_rep r' (as @ is @ bs) (i # fs)" using r'(2) d by simp
  have "schain (rbb_next r) BlkList (map Blk as @ Blk i # map Blk (is @ bs))" using rep_heads(2) [OF Cons.prems(1)] by simp
  then have "schain (rbb_next r) (Blk i) (map Blk (is @ bs))"
    using schain_before [of "rbb_next r" BlkList "map Blk as" "Blk i" "map Blk (is @ bs)"] d by auto
  then have "rbb_next r (Blk i) = node_of (is @ bs)" by (rule schain_node)
  then show ?case using Cons.IH [OF rep refl] r'(1) Cons.prems(2) by (simp add: Let_def)
qed simp

lemma rt_rbb_blk_queue_free_run:
  assumes rep: "rbb_rep r xs fs" and len: "length xs < 2 ^ 32"
    and run: "put_run (rbb_blks r) (\<lambda>t. t \<le> lim) xs = run"
    and ne: "run \<noteq> []"
  shows "\<exists>q r1 r2. rt_rbb_blk_queue_get at_null lim q0 r = Some (run_size (rbb_blks r) run, q, r1) \<and>
    rt_rbb_blk_queue_len q r1 = Some (run_size (rbb_blks r) run) \<and>
    rt_rbb_blk_queue_free q r1 = Some r2 \<and> rbb_rep r2 (filter (\<lambda>i. i \<notin> set run) xs) (rev run @ fs)"
proof -
  let ?q = "\<lparr>bq_blocks = hd run, bq_num = of_nat (length run)\<rparr>" and ?r = "mark_get run r"
  obtain as bs where xs: "xs = as @ run @ bs" using put_run_split unfolding run [symmetric] by blast
  have g: "rt_rbb_blk_queue_get at_null lim q0 r = Some (run_size (rbb_blks r) run, ?q, ?r)"
    using rt_rbb_blk_queue_get_run(1) [OF rep] run ne by (simp add: Let_def)
  have rep1: "rbb_rep ?r (as @ run @ bs) fs" using rt_rbb_blk_queue_get_run(3) [OF rep] run xs by metis
  have n: "unat (bq_num ?q) = length run" using len xs by (simp add: unsigned_of_nat take_bit_nat_eq_self)
  have hd: "Some (Blk (hd run)) = node_of (run @ bs)" using ne by (cases run) auto
  have "\<exists>a. schain (rbb_next ?r) a (map Blk (run @ bs))"
    using rep_heads(2) [OF rep1] ne
  proof (cases run)
    case (Cons i "is")
    have "schain (rbb_next ?r) BlkList (map Blk as @ Blk i # map Blk (is @ bs))" using rep_heads(2) [OF rep1] Cons by simp
    moreover have "i \<notin> set as" using rbb_repD(1) [OF rep1] Cons by auto
    ultimately have "rbb_next ?r (last (BlkList # map Blk as)) = Some (Blk i) \<and> schain (rbb_next ?r) (Blk i) (map Blk (is @ bs))"
      using schain_before [of "rbb_next ?r" BlkList "map Blk as" "Blk i" "map Blk (is @ bs)"] by (metis imageE list.set_map snode.inject)
    then show ?thesis using Cons by auto
  qed simp
  then have "rt_rbb_blk_queue_len ?q ?r = Some (run_size (rbb_blks ?r) run)"
    unfolding rt_rbb_blk_queue_len_def n unfolding rt_rbb_blk_queue.simps hd using queue_len_run [of ?r _ run bs 0] by auto
  moreover have "run_size (rbb_blks ?r) run = run_size (rbb_blks r) run" by (rule run_size_cong) (simp add: mark_get_def)
  moreover obtain r2 where "rt_rbb_blk_queue_free ?q ?r = Some r2" "rbb_rep r2 (as @ bs) (rev run @ fs)"
    unfolding rt_rbb_blk_queue_free_def n unfolding rt_rbb_blk_queue.simps hd using queue_free_run [OF rep1 refl] by blast
  moreover have "filter (\<lambda>i. i \<notin> set run) xs = as @ bs"
  proof -
    have "set as \<inter> set run = {}" "set bs \<inter> set run = {}" using rbb_repD(1) [OF rep1] by auto
    then have "filter (\<lambda>i. i \<notin> set run) as = as" "filter (\<lambda>i. i \<notin> set run) bs = bs" by (auto simp: filter_id_conv)
    then show ?thesis unfolding xs by simp
  qed
  ultimately show ?thesis using g by metis
qed

text \<open>
  What a reader takes as one queue it can measure and give back: the length of the queue is the size that was returned, and freeing the
  queue leaves exactly the other blocks in use, in their order, and all its descriptors free.
\<close>
theorem rt_rbb_blk_queue_roundtrip:
  assumes "rbb_rep r xs fs" and "length xs < 2 ^ 32" and "put_run (rbb_blks r) (\<lambda>t. t \<le> lim) xs \<noteq> []"
  shows "\<exists>q r1 r2. rt_rbb_blk_queue_get at_null lim q0 r =
      Some (run_size (rbb_blks r) (put_run (rbb_blks r) (\<lambda>t. t \<le> lim) xs), q, r1) \<and>
    rt_rbb_blk_queue_len q r1 = Some (run_size (rbb_blks r) (put_run (rbb_blks r) (\<lambda>t. t \<le> lim) xs)) \<and>
    rt_rbb_blk_queue_free q r1 = Some r2 \<and>
    rbb_rep r2 (filter (\<lambda>i. i \<notin> set (put_run (rbb_blks r) (\<lambda>t. t \<le> lim) xs)) xs) (rev (put_run (rbb_blks r) (\<lambda>t. t \<le> lim) xs) @ fs)"
  by (rule rt_rbb_blk_queue_free_run [OF assms(1,2) refl assms(3)])

definition demo_put :: rt_rbb where
  \<comment> \<open>the buffer with one block of 8 bytes, put\<close>
  "demo_put = (case rt_rbb_blk_alloc 8 demo_rbb of
     Some (_, r) \<Rightarrow> upd_blk 3 (\<lambda>b. b\<lparr>bk_status := BLK_PUT\<rparr>) r | None \<Rightarrow> demo_rbb)"

lemma demo_put_rep: "rbb_rep demo_put [3] [2, 1, 0]" and demo_put_blk: "put_run (rbb_blks demo_put) (\<lambda>t. t \<le> 100) [3] = [3]"
    and demo_put_size: "run_size (rbb_blks demo_put) [3] = 8"
proof -
  have fs: "rev [0..<4] = [3, 2, 1, 0::nat]" by code_simp
  obtain r where r: "rt_rbb_blk_alloc 8 demo_rbb = Some (Some 3, r)" "rbb_fresh (Some 64) 8 3 [] [2, 1, 0] demo_rbb r"
    using rbb_blk_alloc_run [OF demo_rbb_rep, of 8] demo_rbb_bounds by (auto simp: fs place_for_def Let_def)
  have d: "demo_put = upd_blk 3 (\<lambda>b. b\<lparr>bk_status := BLK_PUT\<rparr>) r" using r(1) by (simp add: demo_put_def)
  have rep: "rbb_rep r [3] [2, 1, 0]" and rg: "blk_range r 3 = (64, 8)" using r(2) by (simp_all add: rbb_fresh_def)
  show "rbb_rep demo_put [3] [2, 1, 0]" unfolding d by (rule rbb_rep_status [OF rep]) simp_all
  show "put_run (rbb_blks demo_put) (\<lambda>t. t \<le> 100) [3] = [3]" by (simp add: d put_run_def)
  have "unat (bk_size (rbb_blks r 3)) = unat (8 :: u24)" using rg by (simp add: blk_range_def)
  then have "bk_size (rbb_blks r 3) = 8" by (simp only: word_unat_eq_iff)
  then show "run_size (rbb_blks demo_put) [3] = 8" by (simp add: d)
qed

theorem rt_rbb_blk_queue_roundtrip_witness:
  "\<exists>q r1 r2. rt_rbb_blk_queue_get None 100 \<lparr>bq_blocks = 0, bq_num = 0\<rparr> demo_put = Some (8, q, r1) \<and>
    rt_rbb_blk_queue_len q r1 = Some 8 \<and> rt_rbb_blk_queue_free q r1 = Some r2 \<and> rbb_rep r2 [] [3, 2, 1, 0]"
  using rt_rbb_blk_queue_roundtrip [OF demo_put_rep, of 100 None "\<lparr>bq_blocks = 0, bq_num = 0\<rparr>"] demo_put_blk demo_put_size by simp

theorem rt_rbb_put_get_witness: "\<exists>r. rt_rbb_blk_get demo_put = Some (Some 3, r)"
  using rt_rbb_put_get [OF demo_put_rep, of 3] demo_put_blk by (auto simp: put_run_def split: if_splits)

end
