(* ===== verification/CTime.thy ===== *)
theory CTime
  imports KState "HOL-Library.Signed_Division"
begin

text \<open>
  Calendar time (components/libc/compilers/common/ctime.c): broken-down time, its textual form, the time zone. A \<open>time_t\<close> and an \<open>int\<close> are integers here,
  with C's division, which truncates (\<open>sdiv\<close>, \<open>smod\<close>), and with the one cast that can lose bits written out; a \<open>time_t\<close> has 64 bits, and nothing below leaves
  them for times before the year 5000000. A pointer argument is an \<open>option\<close>: the object, or \<open>None\<close> for NULL. There is no clock device in
  this configuration, so \<open>time\<close>, \<open>stime\<close>, \<open>gettimeofday\<close> and \<open>settimeofday\<close> always fail.
\<close>

record tm =
  tm_sec :: int
  tm_min :: int
  tm_hour :: int
  tm_mday :: int
  tm_mon :: int
  tm_year :: int
  tm_wday :: int
  tm_yday :: int
  tm_isdst :: int

definition EINVAL :: int where "EINVAL = 22"
definition EFAULT :: int where "EFAULT = 14"

definition spm :: "int list" where
  "spm = [0,
     31,
     31 + 28,
     31 + 28 + 31,
     31 + 28 + 31 + 30,
     31 + 28 + 31 + 30 + 31,
     31 + 28 + 31 + 30 + 31 + 30,
     31 + 28 + 31 + 30 + 31 + 30 + 31,
     31 + 28 + 31 + 30 + 31 + 30 + 31 + 31,
     31 + 28 + 31 + 30 + 31 + 30 + 31 + 31 + 30,
     31 + 28 + 31 + 30 + 31 + 30 + 31 + 31 + 30 + 31,
     31 + 28 + 31 + 30 + 31 + 30 + 31 + 31 + 30 + 31 + 30,
     31 + 28 + 31 + 30 + 31 + 30 + 31 + 31 + 30 + 31 + 30 + 31]"

definition days_text :: string where "days_text = ''Sun Mon Tue Wed Thu Fri Sat ''"
definition months_text :: string where "months_text = ''Jan Feb Mar Apr May Jun Jul Aug Sep Oct Nov Dec ''"

definition isleap :: "int \<Rightarrow> bool" where
  "isleap year \<longleftrightarrow> year smod 4 = 0 \<and> (year smod 100 \<noteq> 0 \<or> year smod 400 = 0)"

definition num2str :: "int \<Rightarrow> string" where
  "num2str i = [char_of (i sdiv 10 + 48), char_of (i smod 10 + 48)]"

definition cast_int :: "int \<Rightarrow> int" where
  "cast_int x = signed_take_bit 31 x"


subsection \<open>The time zone\<close>

definition tz_default :: int where "tz_default = 8 * 3600 + 0 * 60 + 0"
definition rt_tz_set :: "int \<Rightarrow> int \<Rightarrow> int" where "rt_tz_set offset_sec tz = offset_sec"
definition rt_tz_get :: "int \<Rightarrow> int" where "rt_tz_get tz = tz"
definition rt_tz_is_dst :: int where "rt_tz_is_dst = 0"


subsection \<open>From seconds to a date\<close>

function year_loop :: "int \<Rightarrow> int \<Rightarrow> int \<times> int" where
  "year_loop i work = (let k = if isleap i then 366 else 365 in if work \<ge> k then year_loop (i + 1) (work - k) else (i, work))"
  by auto
termination by (relation "measure (\<lambda>(i, work). nat work)") (auto split: if_splits)

fun month_loop :: "nat \<Rightarrow> int \<Rightarrow> nat" where
  "month_loop 0 work = 0"
| "month_loop (Suc i) work = (if spm ! Suc i > work then month_loop i work else Suc i)"

definition gmtime_fields :: "int \<Rightarrow> tm" where
  "gmtime_fields timep =
     (let work = timep smod (24 * 60 * 60);
          sec = work smod 60;
          work = work sdiv 60;
          min = work smod 60;
          hour = work sdiv 60;
          work = cast_int (timep sdiv (24 * 60 * 60));
          wday = (4 + work) smod 7;
          (i, work) = year_loop 1970 work;
          yday = work;
          (mday, work) = (if isleap i \<and> work > 58 then (if work = 59 then 2 else 1, work - 1) else (1, work));
          mon = month_loop 11 work
      in \<lparr>tm_sec = sec, tm_min = min, tm_hour = hour, tm_mday = mday + (work - spm ! mon), tm_mon = int mon, tm_year = i - 1900,
          tm_wday = wday, tm_yday = yday, tm_isdst = rt_tz_is_dst\<rparr>)"

definition gmtime_r :: "int option \<Rightarrow> tm option \<Rightarrow> kst \<Rightarrow> tm option \<times> kst" where
  "gmtime_r timep r s =
     (case (timep, r) of
        (Some t, Some _) \<Rightarrow> (Some (gmtime_fields t), s)
      | _ \<Rightarrow> (None, rt_set_errno EFAULT s))"

definition gmtime :: "int option \<Rightarrow> tm \<Rightarrow> kst \<Rightarrow> tm option \<times> kst" where
  \<comment> \<open>into the static object \<open>tmp\<close>\<close>
  "gmtime t tmp s = gmtime_r t (Some tmp) s"

definition localtime_r :: "int option \<Rightarrow> tm option \<Rightarrow> int \<Rightarrow> kst \<Rightarrow> (tm option \<times> kst) option" where
  "localtime_r t r tz s = do {
     t \<leftarrow> t;
     let local_tz = t + rt_tz_get tz;
     Some (gmtime_r (Some local_tz) r s)
   }"

definition localtime :: "int option \<Rightarrow> tm \<Rightarrow> int \<Rightarrow> kst \<Rightarrow> (tm option \<times> kst) option" where
  "localtime t tmp tz s = localtime_r t (Some tmp) tz s"


subsection \<open>From a date to seconds\<close>

definition spm_at :: "int \<Rightarrow> int option" where
  \<comment> \<open>\<open>__spm[i]\<close>; outside the array there is nothing to read\<close>
  "spm_at i = (if 0 \<le> i \<and> i \<le> 12 then Some (spm ! nat i) else None)"

function mday_loop :: "int \<Rightarrow> int \<Rightarrow> int \<Rightarrow> (int \<times> int \<times> int) option" where
  "mday_loop mday mon year = (case spm_at (1 + mon) of
       None \<Rightarrow> None
     | Some a \<Rightarrow>
         if mday > a then
           (case spm_at mon of
              None \<Rightarrow> None
            | Some b \<Rightarrow>
                (let mday = (if mon = 1 \<and> isleap (year + 1900) then mday - 1 else mday);
                     mday = mday - b;
                     mon = mon + 1
                 in if mon > 11 then mday_loop mday 0 (year + 1) else mday_loop mday mon year))
         else Some (mday, mon, year))"
  by pat_completeness auto

lemma spm_nth:
  "spm ! 0 = 0" "spm ! 1 = 31" "spm ! Suc 0 = 31" "spm ! 2 = 59" "spm ! Suc (Suc 0) = 59" "spm ! 3 = 90" "spm ! 4 = 120" "spm ! 5 = 151" "spm ! 6 = 181" "spm ! 7 = 212"
  "spm ! 8 = 243" "spm ! 9 = 273" "spm ! 10 = 304" "spm ! 11 = 334" "spm ! 12 = 365"
  by (simp_all add: spm_def)

lemma month_cases:
  "0 \<le> m \<Longrightarrow> m \<le> (12 :: int) \<Longrightarrow> m = 0 \<or> m = 1 \<or> m = 2 \<or> m = 3 \<or> m = 4 \<or> m = 5 \<or> m = 6 \<or> m = 7 \<or> m = 8 \<or> m = 9 \<or> m = 10 \<or> m = 11 \<or> m = 12"
  by presburger

lemma spm_at_simps [simp]:
  "spm_at 0 = Some 0" "spm_at 1 = Some 31" "spm_at 2 = Some 59" "spm_at 3 = Some 90" "spm_at 4 = Some 120" "spm_at 5 = Some 151" "spm_at 6 = Some 181"
  "spm_at 7 = Some 212" "spm_at 8 = Some 243" "spm_at 9 = Some 273" "spm_at 10 = Some 304" "spm_at 11 = Some 334" "spm_at 12 = Some 365"
  by (simp_all add: spm_at_def spm_nth)

lemma spm_at_pos: "spm_at m = Some b \<Longrightarrow> 0 \<le> b \<and> (m \<noteq> 0 \<longrightarrow> 31 \<le> b)"
  using month_cases [of m] by (auto simp: spm_at_def spm_nth split: if_splits)

termination mday_loop
proof (relation "measure (\<lambda>(mday, mon, year). 2 * nat mday + (if mon = 0 then 1 else 0))", goal_cases)
  case (2 mday mon year a b x xa xb)
  then show ?case using spm_at_pos [of "1 + mon" a] spm_at_pos [of mon b] by (auto split: if_splits)
next
  case (3 mday mon year a b x xa xb)
  then show ?case using spm_at_pos [of "1 + mon" a] spm_at_pos [of mon b] by (auto split: if_splits)
qed simp

definition years_days :: "int \<Rightarrow> int" where
  "years_days years =
     (let day = years * 365 + (years + 1) sdiv 4
      in if years \<ge> 131 then
           (let years = years - 131;
                years = years sdiv 100;
                day = day - (drop_bit 2 years * 3 + 1);
                years = years AND 3;
                years = (if years = 3 then years - 1 else years)
            in day - years)
         else day)"

definition carry :: "tm \<Rightarrow> tm" where
  \<comment> \<open>what is above the range of a field goes to the next one\<close>
  "carry t =
     (let t = (if tm_sec t > 60 then t\<lparr>tm_min := tm_min t + tm_sec t sdiv 60, tm_sec := tm_sec t smod 60\<rparr> else t);
          t = (if tm_min t \<ge> 60 then t\<lparr>tm_hour := tm_hour t + tm_min t sdiv 60, tm_min := tm_min t smod 60\<rparr> else t);
          t = (if tm_hour t \<ge> 24 then t\<lparr>tm_mday := tm_mday t + tm_hour t sdiv 24, tm_hour := tm_hour t smod 24\<rparr> else t)
      in if tm_mon t \<ge> 12 then t\<lparr>tm_year := tm_year t + tm_mon t sdiv 12, tm_mon := tm_mon t smod 12\<rparr> else t)"

definition year_day :: "int \<Rightarrow> tm \<Rightarrow> int" where
  "year_day m t = m + tm_mday t - 1 + (if isleap (tm_year t + 1900) \<and> tm_mon t > 1 then 1 else 0)"

definition timegm_body :: "tm \<Rightarrow> kst \<Rightarrow> (int \<times> tm \<times> kst) option" where
  "timegm_body t s =
     (let years = tm_year t - 70;
          t = carry t
      in do {
        (mday, mon, year) \<leftarrow> mday_loop (tm_mday t) (tm_mon t) (tm_year t);
        let t = t\<lparr>tm_mday := mday, tm_mon := mon, tm_year := year\<rparr>;
        (if tm_year t < 70 then Some (- 1, t, rt_set_errno EINVAL s)
         else do {
           m \<leftarrow> spm_at (tm_mon t);
           let yday = year_day m t;
           let day = years_days years + yday;
           let t = t\<lparr>tm_yday := yday, tm_wday := cast_int ((day + 4) smod 7)\<rparr>;
           Some (((day * 24 + tm_hour t) * 60 + tm_min t) * 60 + tm_sec t, t, s)
         })
      })"

definition timegm :: "tm option \<Rightarrow> kst \<Rightarrow> (int \<times> tm option \<times> kst) option" where
  "timegm t s =
     (case t of
        None \<Rightarrow> Some (- 1, None, rt_set_errno EFAULT s)
      | Some t \<Rightarrow> map_option (\<lambda>(r, t, s). (r, Some t, s)) (timegm_body t s))"

definition mktime :: "tm option \<Rightarrow> int \<Rightarrow> kst \<Rightarrow> (int \<times> tm option \<times> kst) option" where
  "mktime t tz s = do {
     (timestamp, t, s) \<leftarrow> timegm t s;
     Some (timestamp - rt_tz_get tz, t, s)
   }"


subsection \<open>The text of a date\<close>

definition word_at :: "int \<Rightarrow> string \<Rightarrow> string option" where
  \<comment> \<open>\<open>*(int*)(text + off)\<close>: four bytes of the text\<close>
  "word_at off text = (if 0 \<le> off \<and> off + 4 \<le> int (length text) then Some (take 4 (drop (nat off) text)) else None)"

definition asctime_text :: "string \<Rightarrow> string \<Rightarrow> tm \<Rightarrow> int \<Rightarrow> string" where
  \<comment> \<open>the buffer, from the two words in front\<close>
  "asctime_text day mon t year =
     (let md = num2str (tm_mday t)
      in day @ mon @ (if hd md = CHR ''0'' then CHR '' '' else hd md) # tl md @ '' '' @ num2str (tm_hour t) @ '':'' @ num2str (tm_min t) @ '':'' @
         num2str (tm_sec t) @ '' '' @ num2str (year sdiv 100) @ num2str (year smod 100) @ [char_of (10 :: nat), char_of (0 :: nat)])"

definition asctime_r :: "tm option \<Rightarrow> string option \<Rightarrow> kst \<Rightarrow> (string option \<times> kst) option" where
  "asctime_r t buf s =
     (case (t, buf) of
        (Some t, Some _) \<Rightarrow>
          if int (length days_text) \<le> tm_wday t * 4 \<or> int (length months_text) \<le> tm_mon t * 4 then do {
            d \<leftarrow> word_at 0 days_text;
            m \<leftarrow> word_at 0 months_text;
            Some (Some (asctime_text d m t 2000), s)
          } else do {
            d \<leftarrow> word_at (tm_wday t * 4) days_text;
            m \<leftarrow> word_at (tm_mon t * 4) months_text;
            Some (Some (asctime_text d m t (tm_year t + 1900)), s)
          }
      | _ \<Rightarrow> Some (None, rt_set_errno EFAULT s))"

definition asctime :: "tm option \<Rightarrow> string \<Rightarrow> kst \<Rightarrow> (string option \<times> kst) option" where
  "asctime timeptr buf s = asctime_r timeptr (Some buf) s"

definition ctime_r :: "int option \<Rightarrow> string option \<Rightarrow> tm \<Rightarrow> int \<Rightarrow> kst \<Rightarrow> (string option \<times> kst) option" where
  "ctime_r tim_p result tm0 tz s = do {
     (t, s) \<leftarrow> localtime_r tim_p (Some tm0) tz s;
     asctime_r t result s
   }"

definition ctime :: "int option \<Rightarrow> tm \<Rightarrow> string \<Rightarrow> int \<Rightarrow> kst \<Rightarrow> (string option \<times> kst) option" where
  "ctime tim_p tmp buf tz s = do {
     (t, s) \<leftarrow> localtime tim_p tmp tz s;
     asctime t buf s
   }"


subsection \<open>The clock\<close>

definition time_now :: "kst \<Rightarrow> int \<times> kst" where
  "time_now s = (- 1, rt_set_errno EFAULT s)"

definition stime :: "kst \<Rightarrow> int \<times> kst" where
  "stime s = (- 1, rt_set_errno EFAULT s)"

record timezone =
  tz_minuteswest :: int
  tz_dsttime :: int

definition gettimeofday :: "timezone option \<Rightarrow> int \<Rightarrow> kst \<Rightarrow> int \<times> timezone option \<times> kst" where
  "gettimeofday z tz s =
     (- 1, map_option (\<lambda>z. z\<lparr>tz_dsttime := 0, tz_minuteswest := - (rt_tz_get tz sdiv 60)\<rparr>) z, rt_set_errno EINVAL s)"

definition settimeofday :: "kst \<Rightarrow> int \<times> kst" where
  "settimeofday s = (- 1, rt_set_errno EINVAL s)"


subsection \<open>The calendar\<close>

definition gregorian :: "int \<Rightarrow> bool" where
  "gregorian y \<longleftrightarrow> 4 dvd y \<and> (100 dvd y \<longrightarrow> 400 dvd y)"

definition month_len :: "bool \<Rightarrow> int \<Rightarrow> int" where
  "month_len leap m = (if m = 1 then (if leap then 29 else 28) else if m = 3 \<or> m = 5 \<or> m = 8 \<or> m = 10 then 30 else 31)"

definition next_day :: "int \<times> int \<times> int \<Rightarrow> int \<times> int \<times> int" where
  \<comment> \<open>of a year, a month from 0 and a day from 1\<close>
  "next_day = (\<lambda>(y, m, d).
     if d < month_len (gregorian y) m then (y, m, d + 1) else if m < 11 then (y, m + 1, 1) else (y + 1, 0, 1))"

definition year_len :: "int \<Rightarrow> int" where
  "year_len y = (if gregorian y then 366 else 365)"

lemma smod_pos: "0 \<le> a \<Longrightarrow> 0 < b \<Longrightarrow> a smod b = a mod (b :: int)"
  by (cases "a = 0") (simp_all add: signed_modulo_int_def)

lemma sdiv_pos: "0 \<le> a \<Longrightarrow> 0 < b \<Longrightarrow> a sdiv b = a div (b :: int)"
  by (auto simp: signed_divide_int_def sgn_if)

lemma isleap_gregorian: "0 \<le> y \<Longrightarrow> isleap y = gregorian y"
  by (auto simp: isleap_def gregorian_def smod_pos dvd_eq_mod_eq_0)

lemma spm_mono: "i \<le> j \<Longrightarrow> j \<le> 12 \<Longrightarrow> spm ! i \<le> spm ! j"
proof (induction j)
  case (Suc j)
  have "j = 0 \<or> j = 1 \<or> j = 2 \<or> j = 3 \<or> j = 4 \<or> j = 5 \<or> j = 6 \<or> j = 7 \<or> j = 8 \<or> j = 9 \<or> j = 10 \<or> j = 11"
    using Suc.prems(2) by presburger
  then have "spm ! j \<le> spm ! Suc j" by (auto simp: spm_def)
  then show ?case using Suc by (cases "i = Suc j") auto
qed simp

lemma month_loop_less: "0 \<le> w \<Longrightarrow> w < spm ! Suc n \<Longrightarrow> month_loop n w \<le> n \<and> spm ! month_loop n w \<le> w \<and> w < spm ! Suc (month_loop n w)"
  by (induction n) (auto simp: spm_nth)

definition month_day :: "bool \<Rightarrow> int \<Rightarrow> int \<times> int" where
  \<comment> \<open>month and day of the day of a year, as \<open>gmtime_r\<close> computes them\<close>
  "month_day leap yd =
     (let (mday, work) = (if leap \<and> yd > 58 then (if yd = 59 then 2 else 1, yd - 1) else (1, yd));
          mon = month_loop 11 work
      in (int mon, mday + (work - spm ! mon)))"

definition yday_of :: "bool \<Rightarrow> int \<Rightarrow> int \<Rightarrow> int" where
  "yday_of leap m d = spm ! nat m + d - 1 + (if leap \<and> m > 1 then 1 else 0)"

lemma month_loop_eq:
  assumes "0 \<le> w" and "w < 365" and "m \<le> 11" and "spm ! m \<le> w" and "w < spm ! Suc m"
  shows "month_loop 11 w = m"
proof -
  have "month_loop n w = m" if "m \<le> n" "n \<le> 11" for n
    using that
  proof (induction n)
    case (Suc n)
    show ?case
    proof (cases "m = Suc n")
      case False
      then have "spm ! Suc n \<ge> spm ! Suc m" using Suc.prems spm_mono [of "Suc m" "Suc n"] by simp
      then show ?thesis using Suc False assms(5) by simp
    qed (use assms in simp)
  qed simp
  then show ?thesis using assms(3) by simp
qed

lemma month_loop_range:
  assumes "0 \<le> w" and "w < 365"
  shows "month_loop 11 w \<le> 11" and "spm ! month_loop 11 w \<le> w" and "w < spm ! Suc (month_loop 11 w)"
  using month_loop_less [of w 11] assms by (simp_all add: spm_nth)

lemma spm_step: "m \<le> 11 \<Longrightarrow> spm ! Suc m = spm ! m + month_len False (int m)"
proof -
  assume "m \<le> 11"
  then have "m = 0 \<or> m = 1 \<or> m = 2 \<or> m = 3 \<or> m = 4 \<or> m = 5 \<or> m = 6 \<or> m = 7 \<or> m = 8 \<or> m = 9 \<or> m = 10 \<or> m = 11" by presburger
  then show ?thesis by (auto simp: spm_def month_len_def)
qed

lemma month_day_unique:
  \<comment> \<open>the day of the year determines month and day\<close>
  assumes "m \<le> 11" and "1 \<le> d" and "d \<le> month_len leap (int m)"
  shows "month_day leap (yday_of leap (int m) d) = (int m, d)"
proof -
  have st: "spm ! Suc m = spm ! m + month_len False (int m)" by (rule spm_step [OF assms(1)])
  have lo: "0 \<le> spm ! m" using spm_mono [of 0 m] assms(1) by (simp add: spm_nth)
  have hi: "spm ! Suc m \<le> 365" using spm_mono [of "Suc m" 12] assms(1) by (simp add: spm_nth)
  have ml: "month_len leap (int m) = month_len False (int m) + (if leap \<and> m = 1 then 1 else 0)" by (simp add: month_len_def)
  consider "m = 0" | "m = 1" | "2 \<le> m" by linarith
  then show ?thesis
  proof cases
    case 1
    then have "month_loop 11 (d - 1) = 0" using assms by (intro month_loop_eq) (simp_all add: spm_nth month_len_def)
    then show ?thesis using 1 assms by (simp add: month_day_def yday_of_def spm_nth month_len_def Let_def)
  next
    case 2
    let ?w = "if leap \<and> d = 29 then 58 else 30 + d"
    have "d < 29 \<or> leap \<and> d = 29" using 2 assms(3) by (auto simp: month_len_def split: if_splits)
    then have "month_loop 11 ?w = 1" using 2 assms(2) by (intro month_loop_eq) (auto simp: spm_nth eval_nat_numeral)
    then show ?thesis using 2 assms(2) \<open>d < 29 \<or> leap \<and> d = 29\<close>
      by (auto simp: month_day_def yday_of_def spm_nth Let_def split: if_splits)
  next
    case 3
    have s2: "59 \<le> spm ! m" using spm_mono [of 2 m] 3 assms(1) by (simp add: spm_nth)
    have "month_loop 11 (spm ! m + d - 1) = m" using assms st lo hi ml 3 by (intro month_loop_eq) auto
    then show ?thesis using 3 assms(2) s2 by (auto simp: month_day_def yday_of_def Let_def algebra_simps)
  qed
qed

lemma month_day_range:
  assumes "0 \<le> yd" and "yd < (if leap then 366 else 365)"
  shows "\<exists>m d. month_day leap yd = (int m, d) \<and> m \<le> 11 \<and> 1 \<le> d \<and> d \<le> month_len leap (int m) \<and> yday_of leap (int m) d = yd"
proof -
  let ?w = "if leap \<and> yd > 58 then yd - 1 else yd"
  let ?m = "month_loop 11 ?w"
  have w: "0 \<le> ?w" "?w < 365" using assms by auto
  note R = month_loop_range [OF w]
  have st: "spm ! Suc ?m = spm ! ?m + month_len False (int ?m)" by (rule spm_step [OF R(1)])
  have ml: "month_len leap (int k) = month_len False (int k) + (if leap \<and> k = 1 then 1 else 0)" for k by (simp add: month_len_def)
  have two: "2 \<le> ?m \<Longrightarrow> 59 \<le> ?w" using spm_mono [of 2 ?m] R by (simp add: spm_nth)
  have one: "?m \<le> 1 \<Longrightarrow> ?w \<le> 58" using spm_mono [of "Suc ?m" 2] R by (simp add: spm_nth)
  show ?thesis
  proof (cases "leap \<and> yd = 59")
    case True
    then have "?m = 1" by (intro month_loop_eq) (auto simp: spm_nth eval_nat_numeral)
    then show ?thesis using True by (intro exI [of _ 1] exI [of _ 29]) (auto simp: month_day_def yday_of_def spm_nth month_len_def)
  next
    case False
    have "month_day leap yd = (int ?m, 1 + (?w - spm ! ?m))" using False by (auto simp: month_day_def Let_def)
    moreover have "yday_of leap (int ?m) (1 + (?w - spm ! ?m)) = yd"
      using False one two by (cases "2 \<le> ?m") (auto simp: yday_of_def split: if_splits)
    ultimately show ?thesis using R st ml [of ?m] by (intro exI [of _ ?m] exI [of _ "1 + (?w - spm ! ?m)"]) auto
  qed
qed

lemma month_day_first: "month_day leap 0 = (0, 1)"
  using month_day_unique [of 0 1 leap] by (simp add: yday_of_def spm_nth month_len_def)

lemma month_day_last: "month_day leap (if leap then 365 else 364) = (11, 31)"
  using month_day_unique [of 11 31 leap] by (cases leap) (simp_all add: yday_of_def spm_nth month_len_def)

lemma month_day_Suc:
  assumes "0 \<le> yd" and "yd + 1 < (if leap then 366 else 365)" and "month_day leap yd = (m, d)"
  shows "month_day leap (yd + 1) = (if d < month_len leap m then (m, d + 1) else (m + 1, 1))" and "d < month_len leap m \<or> m < 11"
proof -
  obtain k where k: "m = int k" "k \<le> 11" "1 \<le> d" "d \<le> month_len leap m" "yday_of leap m d = yd"
    using month_day_range [of yd leap] assms by auto
  show lt: "d < month_len leap m \<or> m < 11"
  proof (rule ccontr)
    assume "\<not> ?thesis"
    then have "m = 11" "d = 31" using k by (auto simp: month_len_def)
    then show False using k(5) assms(2) by (auto simp: yday_of_def spm_nth split: if_splits)
  qed
  show "month_day leap (yd + 1) = (if d < month_len leap m then (m, d + 1) else (m + 1, 1))"
  proof (cases "d < month_len leap m")
    case True
    have "yday_of leap m (d + 1) = yd + 1" using k(5) by (simp add: yday_of_def)
    then show ?thesis using month_day_unique [of k "d + 1" leap] True k by simp
  next
    case False
    then have d: "d = month_len leap m" "k < 11" using k lt by auto
    have "month_len leap (int k) = month_len False (int k) + (if leap \<and> k = 1 then 1 else 0)" by (simp add: month_len_def)
    then have "yday_of leap (int (Suc k)) 1 = yd + 1" using k d spm_step [of k] by (auto simp: yday_of_def nat_add_distrib)
    moreover have "1 \<le> month_len leap (int (Suc k))" by (simp add: month_len_def)
    ultimately show ?thesis using month_day_unique [of "Suc k" 1 leap] d False k(1) by simp
  qed
qed


subsection \<open>Years\<close>

declare year_loop.simps [simp del] mday_loop.simps [simp del]

lemma year_loop_simp: "0 \<le> i \<Longrightarrow> year_loop i work = (if work \<ge> year_len i then year_loop (i + 1) (work - year_len i) else (i, work))"
  by (subst year_loop.simps) (simp add: isleap_gregorian year_len_def)

lemma year_loop_Suc:
  "0 \<le> i \<Longrightarrow> 0 \<le> work \<Longrightarrow> year_loop i work = (y, d) \<Longrightarrow>
   i \<le> y \<and> 0 \<le> d \<and> d < year_len y \<and> year_loop i (work + 1) = (if d + 1 < year_len y then (y, d + 1) else (y + 1, 0))"
proof (induction i work rule: year_loop.induct)
  case (1 i work)
  have k: "(if isleap i then 366 else 365) = year_len i" using 1(2) by (simp add: isleap_gregorian year_len_def)
  have pos: "0 < year_len j" for j by (simp add: year_len_def)
  show ?case
  proof (cases "work \<ge> year_len i")
    case True
    have e: "year_loop (i + 1) (work - year_len i) = (y, d)" using 1(4) True 1(2) by (simp add: year_loop_simp)
    have "year_loop i (work + 1) = year_loop (i + 1) (work - year_len i + 1)"
      using True 1(2) year_loop_simp [of i "work + 1"] by (simp add: algebra_simps)
    then show ?thesis using 1(1) [OF refl] e True 1(2) k by auto
  next
    case False
    then have "y = i" "d = work" using 1(2,4) by (simp_all add: year_loop_simp)
    then show ?thesis using False 1(2,3) pos [of "i + 1"] year_loop_simp [of i "work + 1"] year_loop_simp [of "i + 1" "work + 1 - year_len i"]
      by auto
  qed
qed

primrec days_before :: "nat \<Rightarrow> int" where
  \<comment> \<open>the days from 1970 to a later year\<close>
  "days_before 0 = 0"
| "days_before (Suc k) = days_before k + year_len (1970 + int k)"

lemma year_loop_days:
  "year_loop i work = (y, d) \<Longrightarrow> i = 1970 + int k \<Longrightarrow> 0 \<le> work \<Longrightarrow> days_before k + work = days_before (nat (y - 1970)) + d"
proof (induction i work arbitrary: k rule: year_loop.induct)
  case (1 i work)
  have kk: "(if isleap i then 366 else 365) = year_len i" using 1(3) by (simp add: isleap_gregorian year_len_def)
  show ?case
  proof (cases "work \<ge> year_len i")
    case True
    then have e: "year_loop (i + 1) (work - year_len i) = (y, d)" using 1(2,3) by (simp add: year_loop_simp)
    show ?thesis using 1(1) [OF refl, of "Suc k"] e True kk 1(3) by simp
  next
    case False
    have "nat (i - 1970) = k" using 1(3) by simp
    then show ?thesis using False 1(2,3) by (auto simp: year_loop_simp)
  qed
qed

lemma div_step: "0 < n \<Longrightarrow> (a + 1) div n = a div n + (if n dvd a + 1 then 1 else 0)" for a n :: int
proof -
  assume n: "0 < n"
  have a: "a + 1 = n * (a div n) + (a mod n + 1)" by simp
  show ?thesis
  proof (cases "a mod n + 1 = n")
    case True
    then have "a + 1 = n * (a div n + 1)" using a by (simp add: algebra_simps)
    then show ?thesis using n by simp
  next
    case False
    have r: "0 \<le> a mod n + 1" "a mod n + 1 < n" using n False pos_mod_bound [OF n, of a] pos_mod_sign [OF n, of a] by linarith+
    have "(a + 1) div n = a div n" "(a + 1) mod n = a mod n + 1" using int_div_pos_eq [OF a r] int_mod_pos_eq [OF a r] by auto
    moreover have "a mod n + 1 \<noteq> 0" using n pos_mod_sign [of n a] by linarith
    ultimately show ?thesis by (simp add: dvd_eq_mod_eq_0)
  qed
qed

lemma days_before_closed: "days_before k = 365 * int k + (int k + 1) div 4 - (int k + 69) div 100 + (int k + 369) div 400"
proof (induction k)
  case (Suc k)
  have y: "1970 + int k = (int k + 1 + 1) + 492 * 4" "1970 + int k = (int k + 69 + 1) + 19 * 100" "1970 + int k = (int k + 369 + 1) + 4 * 400"
    by simp_all
  have "4 dvd 1970 + int k \<longleftrightarrow> 4 dvd int k + 1 + 1" unfolding y(1) by (simp only: dvd_add_times_triv_right_iff)
  moreover have "100 dvd 1970 + int k \<longleftrightarrow> 100 dvd int k + 69 + 1" unfolding y(2) by (simp only: dvd_add_times_triv_right_iff)
  moreover have "400 dvd 1970 + int k \<longleftrightarrow> 400 dvd int k + 369 + 1" unfolding y(3) by (simp only: dvd_add_times_triv_right_iff)
  ultimately have g: "gregorian (1970 + int k) \<longleftrightarrow> 4 dvd int k + 1 + 1 \<and> (100 dvd int k + 69 + 1 \<longrightarrow> 400 dvd int k + 369 + 1)"
    unfolding gregorian_def by blast
  have s: "int (Suc k) + 1 = (int k + 1) + 1" "int (Suc k) + 69 = (int k + 69) + 1" "int (Suc k) + 369 = (int k + 369) + 1" by simp_all
  have "4 dvd int k + 1 + 1" if h: "100 dvd int k + 69 + 1"
  proof -
    have "4 dvd int k + 69 + 1" using dvd_trans [OF _ h, of 4] by simp
    moreover have "int k + 69 + 1 = int k + 1 + 1 + 17 * 4" by simp
    ultimately show ?thesis by (simp only: dvd_add_times_triv_right_iff)
  qed
  moreover have "100 dvd int k + 69 + 1" if h: "400 dvd int k + 369 + 1"
  proof -
    have "100 dvd int k + 369 + 1" using dvd_trans [OF _ h, of 100] by simp
    moreover have "int k + 369 + 1 = int k + 69 + 1 + 3 * 100" by simp
    ultimately show ?thesis by (simp only: dvd_add_times_triv_right_iff)
  qed
  ultimately have "4 dvd int k + 1 + 1 \<or> \<not> 100 dvd int k + 69 + 1" "100 dvd int k + 69 + 1 \<or> \<not> 400 dvd int k + 369 + 1"
    by blast+
  then show ?case unfolding days_before.simps Suc year_len_def g s div_step [of 4, simplified] div_step [of 100, simplified] div_step [of 400, simplified]
    by auto
qed simp

lemma years_days_correct: "years_days (int k) = days_before k"
proof (cases "int k \<ge> 131")
  case False
  have one: "x div n = 1" if "n \<le> x" "x < 2 * n" for x n :: int using that int_div_pos_eq [of x n 1 "x - n"] by simp
  have "(int k + 69) div 100 = (int k + 369) div 400"
  proof (cases "int k < 31")
    case True
    then show ?thesis by simp
  next
    case f: False
    then show ?thesis using False one [of 100 "int k + 69"] one [of 400 "int k + 369"] by simp
  qed
  then show ?thesis using False by (simp add: years_days_def days_before_closed sdiv_pos Let_def)
next
  case True
  define z where "z = (int k - 131) div 100"
  have z0: "0 \<le> z" using True by (simp add: z_def pos_imp_zdiv_nonneg_iff)
  have a: "(int k + 69) div 100 = z + 2" using div_mult_self1 [of 100 "int k - 131" 2] by (simp add: z_def)
  have "(int k + 369) div 100 = z + 5" using div_mult_self1 [of 100 "int k - 131" 5] by (simp add: z_def)
  then have b: "(int k + 369) div 400 = (z + 5) div 4" using zdiv_zmult2_eq [of 4 "int k + 369" 100] by simp
  have m: "z AND 3 = z mod 4" using take_bit_eq_mask [of 2 z] by (simp add: mask_eq_exp_minus_1 take_bit_eq_mod)
  have s: "(int k - 131) sdiv 100 = z" using True by (simp add: sdiv_pos z_def)
  have d: "drop_bit 2 z = z div 4" by (simp add: drop_bit_eq_div)
  have "(z + 5) div 4 = z div 4 + (z mod 4 + 5) div 4" using div_mult_self1 [of 4 "z mod 4 + 5" "z div 4"] by (simp add: algebra_simps)
  moreover have "z mod 4 = 0 \<or> z mod 4 = 1 \<or> z mod 4 = 2 \<or> z mod 4 = 3"
    using pos_mod_bound [of 4 z] pos_mod_sign [of 4 z] by linarith
  moreover have "z = 4 * (z div 4) + z mod 4" by simp
  ultimately have e: "(if z mod 4 = 3 then z mod 4 - 1 else z mod 4) + (z div 4 * 3 + 1) = z + 2 - (z + 5) div 4"
    by (elim disjE) (simp_all; linarith)+
  show ?thesis using True e by (auto simp: years_days_def days_before_closed sdiv_pos Let_def s m d a b)
qed

lemma days_before_next: "i < j \<Longrightarrow> days_before i + year_len (1970 + int i) \<le> days_before j"
proof (induction j)
  case (Suc j)
  have "0 < year_len (1970 + int j)" by (simp add: year_len_def)
  then show ?case using Suc by (cases "i = j") auto
qed simp

lemma days_before_bound: "0 \<le> days_before k \<and> days_before k \<le> 366 * int k"
proof (induction k)
  case (Suc k)
  have "0 \<le> year_len (1970 + int k)" "year_len (1970 + int k) \<le> 366" by (auto simp: year_len_def)
  then show ?case using Suc by simp
qed simp

lemma year_loop_unique:
  assumes "0 \<le> d" and "d < year_len (1970 + int k)"
  shows "year_loop 1970 (days_before k + d) = (1970 + int k, d)"
proof -
  obtain y e where ye: "year_loop 1970 (days_before k + d) = (y, e)" by fastforce
  have pos: "0 \<le> days_before k + d" using days_before_bound [of k] assms(1) by simp
  have r: "1970 \<le> y" "0 \<le> e" "e < year_len y" using year_loop_Suc [OF _ pos ye] by auto
  define j where "j = nat (y - 1970)"
  have y: "y = 1970 + int j" using r(1) by (simp add: j_def)
  have e: "days_before k + d = days_before j + e" using year_loop_days [OF ye, of 0] pos by (simp add: j_def)
  have "j = k"
    using days_before_next [of j k] days_before_next [of k j] e assms r(2,3) y by (cases j k rule: linorder_cases) auto
  then show ?thesis using ye y e by simp
qed


subsection \<open>Reading a date\<close>

lemma civil_day:
  "year_loop 1970 (int n) = (y, yd) \<Longrightarrow> (next_day ^^ n) (1970, 0, 1) = (y, month_day (gregorian y) yd)"
proof (induction n arbitrary: y yd)
  case 0
  have "year_loop 1970 0 = (1970, 0)" by (simp add: year_loop_simp year_len_def)
  then show ?case using 0 by (simp add: month_day_first)
next
  case (Suc n)
  obtain y0 d0 where l: "year_loop 1970 (int n) = (y0, d0)" by fastforce
  obtain m d where md: "month_day (gregorian y0) d0 = (m, d)" by fastforce
  have r: "0 \<le> d0" "d0 < year_len y0" "year_loop 1970 (int n + 1) = (if d0 + 1 < year_len y0 then (y0, d0 + 1) else (y0 + 1, 0))"
    using year_loop_Suc [OF _ _ l] by auto
  have IH: "(next_day ^^ n) (1970, 0, 1) = (y0, m, d)" using Suc.IH [OF l] md by simp
  have "year_loop 1970 (int n + 1) = (y, yd)" using Suc.prems by (simp add: add.commute)
  note E = this [unfolded r(3)]
  show ?case
  proof (cases "d0 + 1 < year_len y0")
    case True
    then have "y = y0" "yd = d0 + 1" using E by auto
    moreover have "d0 + 1 < (if gregorian y0 then 366 else 365)" using True by (simp add: year_len_def)
    ultimately show ?thesis using month_day_Suc [OF r(1) _ md] IH by (auto simp: next_day_def)
  next
    case False
    then have y: "y = y0 + 1" "yd = 0" using E by auto
    have "d0 = (if gregorian y0 then 365 else 364)" using False r(2) by (auto simp: year_len_def split: if_splits)
    then have "m = 11" "d = 31" using md month_day_last [of "gregorian y0"] by auto
    then show ?thesis using IH y month_day_first by (simp add: next_day_def month_len_def)
  qed
qed

lemma gmtime_fields_alt:
  "gmtime_fields timep =
     (let sec = timep smod 86400; n = cast_int (timep sdiv 86400); (i, yd) = year_loop 1970 n; (mon, mday) = month_day (isleap i) yd
      in \<lparr>tm_sec = sec smod 60, tm_min = sec sdiv 60 smod 60, tm_hour = sec sdiv 60 sdiv 60, tm_mday = mday, tm_mon = mon, tm_year = i - 1900,
          tm_wday = (4 + n) smod 7, tm_yday = yd, tm_isdst = rt_tz_is_dst\<rparr>)"
  by (auto simp: gmtime_fields_def month_day_def Let_def split: prod.split)

lemma gmtime_fields_eq:
  assumes n: "n < 2 ^ 31" and s: "0 \<le> sec" "sec < 86400" and yl: "year_loop 1970 (int n) = (y, yd)" and md: "month_day (gregorian y) yd = (m, d)"
  shows "gmtime_fields (86400 * int n + sec) = \<lparr>tm_sec = sec mod 60, tm_min = sec div 60 mod 60, tm_hour = sec div 60 div 60, tm_mday = d, tm_mon = m,
    tm_year = y - 1900, tm_wday = (4 + int n) mod 7, tm_yday = yd, tm_isdst = 0\<rparr>"
proof -
  have t: "(86400 * int n + sec) smod 86400 = sec" "(86400 * int n + sec) sdiv 86400 = int n"
    using s by (simp_all add: smod_pos sdiv_pos)
  have c: "cast_int (int n) = int n" using n by (simp add: cast_int_def signed_take_bit_int_eq_self)
  have w: "(4 + int n) smod 7 = (4 + int n) mod 7" by (simp add: smod_pos)
  have f: "sec smod 60 = sec mod 60" "sec sdiv 60 = sec div 60" "sec div 60 smod 60 = sec div 60 mod 60" "sec div 60 sdiv 60 = sec div 60 div 60"
    using s by (simp_all add: smod_pos sdiv_pos pos_imp_zdiv_nonneg_iff)
  have "1970 \<le> y" using year_loop_Suc [OF _ _ yl] by simp
  then have l: "isleap y = gregorian y" by (simp add: isleap_gregorian)
  show ?thesis
    unfolding gmtime_fields_alt using yl md by (simp add: t c w f l rt_tz_is_dst_def Let_def)
qed

definition valid_date :: "tm \<Rightarrow> bool" where
  \<comment> \<open>a date of the calendar, from 1970, and a time of day\<close>
  "valid_date v \<longleftrightarrow> 0 \<le> tm_sec v \<and> tm_sec v < 60 \<and> 0 \<le> tm_min v \<and> tm_min v < 60 \<and> 0 \<le> tm_hour v \<and> tm_hour v < 24 \<and>
     70 \<le> tm_year v \<and> 0 \<le> tm_mon v \<and> tm_mon v \<le> 11 \<and> 1 \<le> tm_mday v \<and> tm_mday v \<le> month_len (gregorian (tm_year v + 1900)) (tm_mon v)"

lemma gmtime_day:
  assumes n: "n < 2 ^ 31" and s: "0 \<le> sec" "sec < 86400"
  shows "\<exists>v. gmtime_fields (86400 * int n + sec) = v \<and> valid_date v \<and> (tm_year v + 1900, tm_mon v, tm_mday v) = (next_day ^^ n) (1970, 0, 1) \<and>
    tm_wday v = (4 + int n) mod 7 \<and> tm_hour v * 3600 + tm_min v * 60 + tm_sec v = sec \<and> tm_isdst v = 0 \<and>
    tm_yday v = yday_of (gregorian (tm_year v + 1900)) (tm_mon v) (tm_mday v) \<and> days_before (nat (tm_year v - 70)) + tm_yday v = int n"
proof -
  obtain y yd where l: "year_loop 1970 (int n) = (y, yd)" by fastforce
  have r: "1970 \<le> y" "0 \<le> yd" "yd < year_len y" using year_loop_Suc [OF _ _ l] by auto
  obtain m d where md: "month_day (gregorian y) yd = (int m, d)" "m \<le> 11" "1 \<le> d" "d \<le> month_len (gregorian y) (int m)" "yday_of (gregorian y) (int m) d = yd"
    using month_day_range [of yd "gregorian y"] r(2,3) by (auto simp: year_len_def)
  have t: "sec div 60 div 60 * 3600 + sec div 60 mod 60 * 60 + sec mod 60 = sec"
    using div_mult_mod_eq [of sec 60] div_mult_mod_eq [of "sec div 60" 60] by linarith
  have h: "0 \<le> sec div 60 div 60" "sec div 60 div 60 < 24"
    using s zdiv_mono1 [of sec 86399 3600] zdiv_zmult2_eq [of 60 sec 60] by (simp_all add: pos_imp_zdiv_nonneg_iff)
  have d: "days_before (nat (y - 1970)) + yd = int n" using year_loop_days [OF l, of 0] by simp
  show ?thesis
    unfolding gmtime_fields_eq [OF n s l md(1)] valid_date_def using r(1) md(2-5) t h d civil_day [OF l] md(1) by simp
qed


subsection \<open>Converting back\<close>

definition with_days :: "tm \<Rightarrow> tm" where
  \<comment> \<open>a date with the day of its week and of its year\<close>
  "with_days v = (let yd = yday_of (gregorian (tm_year v + 1900)) (tm_mon v) (tm_mday v)
     in v\<lparr>tm_yday := yd, tm_wday := (days_before (nat (tm_year v - 70)) + yd + 4) mod 7\<rparr>)"

definition seconds_of :: "tm \<Rightarrow> int" where
  "seconds_of v = 86400 * (days_before (nat (tm_year v - 70)) + yday_of (gregorian (tm_year v + 1900)) (tm_mon v) (tm_mday v)) +
     tm_hour v * 3600 + tm_min v * 60 + tm_sec v"

lemma month_len_spm:
  assumes "0 \<le> m" and "m \<le> 11"
  shows "\<exists>a b. spm_at (1 + m) = Some a \<and> spm_at m = Some b \<and> month_len leap m \<le> a \<and> 0 \<le> b \<and> b = spm ! nat m"
  using month_cases [of m] assms by (auto simp: month_len_def spm_nth)

lemma valid_yday:
  assumes "valid_date v"
  shows "0 \<le> yday_of (gregorian (tm_year v + 1900)) (tm_mon v) (tm_mday v)"
    and "yday_of (gregorian (tm_year v + 1900)) (tm_mon v) (tm_mday v) < year_len (tm_year v + 1900)"
  using assms month_cases [of "tm_mon v"]
  by (auto simp: valid_date_def yday_of_def month_len_def spm_nth year_len_def)

lemma timegm_run:
  assumes v: "valid_date v"
  shows "timegm (Some v) s = Some (seconds_of v, Some (with_days v), s)"
proof -
  let ?y = "tm_year v + 1900" and ?k = "nat (tm_year v - 70)"
  have m: "0 \<le> tm_mon v" "tm_mon v \<le> 11" and yr: "70 \<le> tm_year v" using v by (simp_all add: valid_date_def)
  have c: "carry v = v" using v by (simp add: carry_def valid_date_def Let_def)
  obtain a b where ab: "spm_at (1 + tm_mon v) = Some a" "spm_at (tm_mon v) = Some b" "tm_mday v \<le> a" "b = spm ! nat (tm_mon v)"
    using month_len_spm [OF m, of "gregorian ?y"] v by (auto simp: valid_date_def)
  have l: "mday_loop (tm_mday v) (tm_mon v) (tm_year v) = Some (tm_mday v, tm_mon v, tm_year v)"
    using ab(1,3) by (subst mday_loop.simps) simp
  have g: "isleap ?y = gregorian ?y" using yr by (simp add: isleap_gregorian)
  have yd: "year_day b v = yday_of (gregorian ?y) (tm_mon v) (tm_mday v)"
    by (simp add: year_day_def g ab(4) yday_of_def)
  have k: "years_days (tm_year v - 70) = days_before ?k" using years_days_correct [of ?k] yr by simp
  let ?d = "days_before ?k + yday_of (gregorian ?y) (tm_mon v) (tm_mday v)"
  have "0 \<le> ?d" using days_before_bound [of ?k] valid_yday(1) [OF v] by simp
  then have w: "cast_int ((?d + 4) smod 7) = (?d + 4) mod 7"
    by (simp add: smod_pos cast_int_def signed_take_bit_int_eq_self)
  have t: "v\<lparr>tm_mday := tm_mday v, tm_mon := tm_mon v, tm_year := tm_year v\<rparr> = v" by simp
  show ?thesis
    unfolding timegm_def timegm_body_def
    using yr by (simp add: c l ab(2) yd k w t Let_def with_days_def seconds_of_def)
qed

lemma gmtime_seconds_of:
  assumes v: "valid_date v" and small: "tm_year v < 5000000"
  shows "gmtime_fields (seconds_of v) = (with_days v)\<lparr>tm_isdst := 0\<rparr>"
proof -
  let ?y = "tm_year v + 1900" and ?k = "nat (tm_year v - 70)"
  let ?yd = "yday_of (gregorian ?y) (tm_mon v) (tm_mday v)" and ?sec = "tm_hour v * 3600 + tm_min v * 60 + tm_sec v"
  have yr: "70 \<le> tm_year v" and m: "0 \<le> tm_mon v" "tm_mon v \<le> 11" using v by (simp_all add: valid_date_def)
  have y: "1970 + int ?k = ?y" using yr by simp
  have t: "0 \<le> tm_sec v" "tm_sec v < 60" "0 \<le> tm_min v" "tm_min v < 60" "0 \<le> tm_hour v" "tm_hour v < 24" using v by (simp_all add: valid_date_def)
  then have sec: "0 \<le> ?sec" "?sec < 86400" by simp_all
  have "days_before ?k + ?yd < 366 * 5000000" using days_before_bound [of ?k] valid_yday(2) [OF v] small yr by (simp add: year_len_def split: if_splits)
  moreover have nn: "0 \<le> days_before ?k + ?yd" using days_before_bound [of ?k] valid_yday(1) [OF v] by simp
  ultimately obtain N where N: "int N = days_before ?k + ?yd" "N < 2 ^ 31"
    using that [of "nat (days_before ?k + ?yd)"] by simp
  have "year_loop 1970 (days_before ?k + ?yd) = (1970 + int ?k, ?yd)"
    by (rule year_loop_unique) (use valid_yday [OF v] in \<open>simp_all only: y\<close>)
  then have l: "year_loop 1970 (int N) = (?y, ?yd)" unfolding N(1) y .
  have md: "month_day (gregorian ?y) ?yd = (tm_mon v, tm_mday v)"
    using month_day_unique [of "nat (tm_mon v)" "tm_mday v" "gregorian ?y"] v m by (simp add: valid_date_def nat_le_iff)
  have split: "?sec div 60 = tm_hour v * 60 + tm_min v" "?sec mod 60 = tm_sec v"
    using int_div_pos_eq [of ?sec 60 "tm_hour v * 60 + tm_min v" "tm_sec v"] int_mod_pos_eq [of ?sec 60 "tm_hour v * 60 + tm_min v" "tm_sec v"] t
    by simp_all
  have split2: "(tm_hour v * 60 + tm_min v) div 60 = tm_hour v" "(tm_hour v * 60 + tm_min v) mod 60 = tm_min v"
    using int_div_pos_eq [of "tm_hour v * 60 + tm_min v" 60 "tm_hour v" "tm_min v"] int_mod_pos_eq [of "tm_hour v * 60 + tm_min v" 60 "tm_hour v" "tm_min v"] t
    by simp_all
  have e: "seconds_of v = 86400 * int N + ?sec" by (simp add: seconds_of_def N(1))
  have w: "(4 + int N) mod 7 = (days_before ?k + ?yd + 4) mod 7" unfolding N(1) by (simp add: add.commute)
  show ?thesis unfolding e gmtime_fields_eq [OF N(2) sec l md] split split2 w by (simp add: with_days_def Let_def)
qed




lemma gmtime_back:
  assumes t: "0 \<le> t" and small: "t < 86400 * 2 ^ 31"
  shows "\<exists>v. gmtime_fields t = v \<and> valid_date v \<and> seconds_of v = t \<and> with_days v = v"
proof -
  define n sec where "n = nat (t div 86400)" and "sec = t mod 86400"
  have n: "n < 2 ^ 31" using small t by (simp add: n_def nat_less_iff pos_imp_zdiv_nonneg_iff div_less_dividend)
  have e: "t = 86400 * int n + sec" using t by (simp add: n_def sec_def pos_imp_zdiv_nonneg_iff)
  have s: "0 \<le> sec" "sec < 86400" by (simp_all add: sec_def)
  obtain v where v: "gmtime_fields t = v" "valid_date v" "tm_wday v = (4 + int n) mod 7" "tm_hour v * 3600 + tm_min v * 60 + tm_sec v = sec"
    "tm_yday v = yday_of (gregorian (tm_year v + 1900)) (tm_mon v) (tm_mday v)" "days_before (nat (tm_year v - 70)) + tm_yday v = int n"
    using gmtime_day [OF n s] e by auto
  have "seconds_of v = t" using v(4-6) e by (simp add: seconds_of_def)
  moreover have "with_days v = v" using v(3,5,6) by (simp add: with_days_def Let_def add.commute)
  ultimately show ?thesis using v(1,2) by blast
qed


text \<open>
  The other way round: a date of the calendar survives the conversion to seconds and back; \<open>timegm\<close> only fills in the day of the week and of the year.
\<close>
theorem timegm_gmtime_roundtrip:
  assumes "valid_date v" and "tm_year v < 5000000"
  shows "\<exists>t. timegm (Some v) s = Some (t, Some (with_days v), s) \<and> gmtime_r (Some t) (Some r) s = (Some ((with_days v)\<lparr>tm_isdst := 0\<rparr>), s)"
  using timegm_run [OF assms(1), of s] gmtime_seconds_of [OF assms] by (simp add: gmtime_r_def)


definition date :: "int \<Rightarrow> int \<Rightarrow> int \<Rightarrow> tm" where
  "date y m d = \<lparr>tm_sec = 0, tm_min = 0, tm_hour = 0, tm_mday = d, tm_mon = m, tm_year = y - 1900, tm_wday = 0, tm_yday = 0, tm_isdst = 0\<rparr>"

theorem timegm_gmtime_roundtrip_witness:
  "\<forall>r s. \<exists>t. timegm (Some (date 2024 1 29)) s = Some (t, Some (with_days (date 2024 1 29)), s) \<and>
    gmtime_r (Some t) (Some r) s = (Some ((with_days (date 2024 1 29))\<lparr>tm_isdst := 0\<rparr>), s)"
  using timegm_gmtime_roundtrip [of "date 2024 1 29"] by (simp add: date_def valid_date_def month_len_def gregorian_def)


end
