(* ===== verification/Msh.thy ===== *)
theory Msh
  imports Prelude "HOL-Library.Sublist"
begin

text \<open>
  The command interpreter of the shell (components/finsh/msh.c): splitting a line into arguments, finding and running a command, completing names
  and options. A buffer is a list of bytes and a pointer into it is an offset; reading or writing outside gives \<open>None\<close>. The table of commands, which the linker
  builds, and the commands themselves are parameters; names are lists of bytes without their terminator. Printing is left out.
\<close>

definition BLANK :: u8 where "BLANK = 0x20"
definition TAB :: u8 where "TAB = 0x09"
definition QUOTE :: u8 where "QUOTE = 0x22"
definition BACKSLASH :: u8 where "BACKSLASH = 0x5c"
definition FINSH_ARG_MAX :: nat where "FINSH_ARG_MAX = 10"

definition is_blank :: "u8 \<Rightarrow> bool" where
  "is_blank c \<longleftrightarrow> c = BLANK \<or> c = TAB"

record finsh_syscall =
  sc_name :: "u8 list"
  sc_opt :: "(u32 \<times> u8 list) list"
  sc_func :: nat

type_synonym syscalls = "finsh_syscall list"

subsection \<open>C strings\<close>

definition byte_at :: "u8 list \<Rightarrow> nat \<Rightarrow> u8 option" where
  "byte_at b i = (if i < length b then Some (b ! i) else None)"

definition write_byte :: "nat \<Rightarrow> u8 \<Rightarrow> u8 list \<Rightarrow> u8 list option" where
  "write_byte i c b = (if i < length b then Some (b[i := c]) else None)"

definition write_bytes :: "nat \<Rightarrow> u8 list \<Rightarrow> u8 list \<Rightarrow> u8 list option" where
  "write_bytes i cs b = (if i + length cs \<le> length b then Some (take i b @ cs @ drop (i + length cs) b) else None)"

definition cstr_at :: "u8 list \<Rightarrow> nat \<Rightarrow> u8 list" where
  "cstr_at b i = takeWhile (\<lambda>c. c \<noteq> 0) (drop i b)"

definition strlen_at :: "u8 list \<Rightarrow> nat \<Rightarrow> nat option" where
  "strlen_at b i = (if 0 \<in> set (drop i b) then Some (length (cstr_at b i)) else None)"

fun strncmp0 :: "u8 list \<Rightarrow> u8 list \<Rightarrow> nat \<Rightarrow> bool option" where
  \<comment> \<open>\<open>strncmp(a, b, n) == 0\<close> for what lies from the two pointers on\<close>
  "strncmp0 a b 0 = Some True"
| "strncmp0 (x # a) (y # b) (Suc n) = (if x \<noteq> y then Some False else if x = 0 then Some True else strncmp0 a b n)"
| "strncmp0 a b (Suc n) = None"


subsection \<open>Splitting a line\<close>

partial_function (option) skip_blanks :: "nat \<Rightarrow> nat \<Rightarrow> u8 list \<Rightarrow> (nat \<times> u8 list) option" where
  "skip_blanks len position cmd = do {
     c \<leftarrow> byte_at cmd position;
     if is_blank c \<and> position < len then skip_blanks len (position + 1) (cmd[position := 0]) else Some (position, cmd)
   }"

partial_function (option) quote_end :: "nat \<Rightarrow> nat \<Rightarrow> u8 list \<Rightarrow> nat option" where
  "quote_end len position cmd = do {
     c \<leftarrow> byte_at cmd position;
     if c \<noteq> QUOTE \<and> position < len then
       if c = BACKSLASH then do {
         d \<leftarrow> byte_at cmd (position + 1);
         quote_end len (if d = QUOTE then position + 2 else position + 1) cmd
       } else quote_end len (position + 1) cmd
     else Some position
   }"

partial_function (option) word_end :: "nat \<Rightarrow> nat \<Rightarrow> u8 list \<Rightarrow> nat option" where
  "word_end len position cmd = do {
     c \<leftarrow> byte_at cmd position;
     if \<not> is_blank c \<and> position < len then word_end len (position + 1) cmd else Some position
   }"

partial_function (option) split_loop :: "nat \<Rightarrow> nat \<Rightarrow> nat list \<Rightarrow> u8 list \<Rightarrow> (nat list \<times> u8 list) option" where
  \<comment> \<open>\<open>ptr\<close> is always \<open>cmd + position\<close>; \<open>argc\<close> is the length of \<open>argv\<close>\<close>
  "split_loop len position argv cmd =
     (if position < len then do {
        (position, cmd) \<leftarrow> skip_blanks len position cmd;
        if length argv \<ge> FINSH_ARG_MAX then Some (argv, cmd)
        else if position \<ge> len then Some (argv, cmd)
        else do {
          c \<leftarrow> byte_at cmd position;
          if c = QUOTE then do {
            e \<leftarrow> quote_end len (position + 1) cmd;
            if e \<ge> len then Some (argv @ [position + 1], cmd)
            else do {
              cmd \<leftarrow> write_byte e 0 cmd;
              split_loop len (e + 1) (argv @ [position + 1]) cmd
            }
          } else do {
            e \<leftarrow> word_end len position cmd;
            if e \<ge> len then Some (argv @ [position], cmd) else split_loop len e (argv @ [position]) cmd
          }
        }
      } else Some (argv, cmd))"

definition msh_split :: "u8 list \<Rightarrow> nat \<Rightarrow> (nat list \<times> u8 list) option" where
  "msh_split cmd len = split_loop len 0 [] cmd"


subsection \<open>Running a command\<close>

fun msh_get_cmd :: "syscalls \<Rightarrow> u8 list \<Rightarrow> nat \<Rightarrow> finsh_syscall option option" where
  "msh_get_cmd [] cmd n = Some None"
| "msh_get_cmd (index # rest) cmd n = do {
     eq \<leftarrow> strncmp0 (sc_name index @ [0]) cmd n;
     z \<leftarrow> (if eq then byte_at (sc_name index @ [0]) n else Some 1);
     if eq \<and> z = 0 then Some (Some index) else msh_get_cmd rest cmd n
   }"

partial_function (option) cmd0_end :: "nat \<Rightarrow> nat \<Rightarrow> u8 list \<Rightarrow> nat option" where
  "cmd0_end len cmd0_size cmd =
     (if cmd0_size < len then do {
        c \<leftarrow> byte_at cmd cmd0_size;
        if \<not> is_blank c then cmd0_end len (cmd0_size + 1) cmd else Some cmd0_size
      } else Some cmd0_size)"

datatype msh_event = Ran nat "u8 list list" | NotFound "u8 list"

definition msh_exec_cmd :: "syscalls \<Rightarrow> (nat \<Rightarrow> u8 list list \<Rightarrow> int) \<Rightarrow> u8 list \<Rightarrow> nat \<Rightarrow> (int \<times> int \<times> u8 list \<times> msh_event option) option" where
  \<comment> \<open>\<open>_msh_exec_cmd\<close>: its result, the result of the command, the line, and which command ran with which arguments\<close>
  "msh_exec_cmd table run cmd len = do {
     cmd0_size \<leftarrow> cmd0_end len 0 cmd;
     if cmd0_size = 0 then Some (- RT_ERROR, 0, cmd, None)
     else do {
       cmd_func \<leftarrow> msh_get_cmd table cmd cmd0_size;
       (case cmd_func of
          None \<Rightarrow> Some (- RT_ERROR, 0, cmd, None)
        | Some c \<Rightarrow> do {
            (argv, cmd) \<leftarrow> msh_split cmd len;
            if argv = [] then Some (- RT_ERROR, 0, cmd, None)
            else (let args = map (cstr_at cmd) argv in Some (0, run (sc_func c) args, cmd, Some (Ran (sc_func c) args)))
          })
     }
   }"

partial_function (option) strip_blanks :: "nat \<Rightarrow> u8 list \<Rightarrow> (nat \<times> u8 list) option" where
  "strip_blanks len cmd =
     (if len > 0 then do {
        c \<leftarrow> byte_at cmd 0;
        if is_blank c then strip_blanks (len - 1) (tl cmd) else Some (len, cmd)
      } else Some (len, cmd))"

definition msh_exec :: "syscalls \<Rightarrow> (nat \<Rightarrow> u8 list list \<Rightarrow> int) \<Rightarrow> u8 list \<Rightarrow> nat \<Rightarrow> (int \<times> msh_event option) option" where
  \<comment> \<open>what becomes of the line does not matter: the shell clears it next\<close>
  "msh_exec table run cmd len = do {
     (len, cmd) \<leftarrow> strip_blanks len cmd;
     if len = 0 then Some (0, None)
     else do {
       (rc, cmd_ret, cmd, ev) \<leftarrow> msh_exec_cmd table run cmd len;
       if rc = 0 then Some (cmd_ret, ev)
       else do {
         z \<leftarrow> strlen_at cmd 0;
         Some (- 1, Some (NotFound (takeWhile (\<lambda>c. c \<noteq> BLANK) (take z cmd))))
       }
     }
   }"


subsection \<open>Completion\<close>

fun str_common :: "u8 list \<Rightarrow> u8 list \<Rightarrow> nat" where
  \<comment> \<open>of two names; where one of them ends is its terminator\<close>
  "str_common (x # a) (y # b) = (if x = y then Suc (str_common a b) else 0)"
| "str_common a b = 0"

fun complete_scan :: "u8 list list \<Rightarrow> u8 list \<Rightarrow> nat \<Rightarrow> nat \<Rightarrow> u8 list option \<Rightarrow> (nat \<times> u8 list option) option" where
  \<comment> \<open>the loop of \<open>msh_auto_complete\<close> and of \<open>msh_opt_complete\<close>: the first name that fits, and how many bytes of it all such names share\<close>
  "complete_scan [] line plen min_length name_ptr = Some (min_length, name_ptr)"
| "complete_scan (name # names) line plen min_length name_ptr = do {
     eq \<leftarrow> strncmp0 line (name @ [0]) plen;
     if eq then do {
       let (min_length, name_ptr) = (if min_length = 0 then (length name, Some name) else (min_length, name_ptr));
       p \<leftarrow> name_ptr;
       let len = str_common p name;
       complete_scan names line plen (if len < min_length then len else min_length) name_ptr
     } else complete_scan names line plen min_length name_ptr
   }"

definition strncpy_bytes :: "u8 list \<Rightarrow> nat \<Rightarrow> u8 list" where
  \<comment> \<open>the \<open>n\<close> bytes \<open>strncpy\<close> writes: the string, filled up with zeros\<close>
  "strncpy_bytes s n = take n s @ replicate (n - length s) 0"

definition complete_with :: "nat \<Rightarrow> u8 list list \<Rightarrow> u8 list \<Rightarrow> u8 list option" where
  \<comment> \<open>complete the string at offset \<open>i\<close> of the line\<close>
  "complete_with i names line = do {
     plen \<leftarrow> strlen_at line i;
     (min_length, name_ptr) \<leftarrow> complete_scan names (drop i line) plen 0 None;
     (case name_ptr of None \<Rightarrow> Some line | Some p \<Rightarrow> write_bytes i (strncpy_bytes p min_length) line)
   }"

definition msh_auto_complete :: "syscalls \<Rightarrow> u8 list \<Rightarrow> u8 list option" where
  "msh_auto_complete table line = do {
     c \<leftarrow> byte_at line 0;
     if c = 0 then Some line else complete_with 0 (map sc_name table) line
   }"

definition msh_get_cmd_opt :: "syscalls \<Rightarrow> u8 list \<Rightarrow> (u32 \<times> u8 list) list option" where
  "msh_get_cmd_opt table opt_str = do {
     z \<leftarrow> strlen_at opt_str 0;
     let len = length (takeWhile (\<lambda>c. c \<noteq> BLANK) (take z opt_str));
     c \<leftarrow> msh_get_cmd table opt_str len;
     Some (case c of None \<Rightarrow> [] | Some c \<Rightarrow> sc_opt c)
   }"

partial_function (option) get_argc_loop :: "u8 list \<Rightarrow> nat \<Rightarrow> nat \<Rightarrow> nat option \<Rightarrow> (nat \<times> nat option) option" where
  "get_argc_loop line i argc last_argv = do {
     c \<leftarrow> byte_at line i;
     if c = 0 then Some (argc, last_argv)
     else do {
       d \<leftarrow> byte_at line (i + 1);
       if c = BLANK \<and> d \<noteq> 0 \<and> d \<noteq> BLANK then get_argc_loop line (i + 1) (argc + 1) (Some (i + 1))
       else get_argc_loop line (i + 1) argc last_argv
     }
   }"

definition msh_get_argc :: "u8 list \<Rightarrow> (nat \<times> nat option) option" where
  "msh_get_argc line = get_argc_loop line 0 0 None"

definition opt_names :: "(u32 \<times> u8 list) list \<Rightarrow> u8 list list" where
  \<comment> \<open>the array of options ends with the identifier 0\<close>
  "opt_names opt = map snd (takeWhile (\<lambda>p. fst p \<noteq> 0) opt)"

definition msh_opt_auto_complete :: "syscalls \<Rightarrow> u8 \<Rightarrow> u8 list \<Rightarrow> u8 list option" where
  \<comment> \<open>for the empty string the test of the last byte reads the one in front of it, here \<open>before\<close>\<close>
  "msh_opt_auto_complete table before line = do {
     (argc, opt_str) \<leftarrow> msh_get_argc line;
     z \<leftarrow> strlen_at line 0;
     opt \<leftarrow> (if argc > 0 then msh_get_cmd_opt table line
       else do {
         c \<leftarrow> msh_get_cmd table line z;
         if c = None \<and> BLANK = (if z = 0 then before else line ! (z - 1)) then msh_get_cmd_opt table line else Some []
       });
     (if opt_names opt \<noteq> [] \<and> argc = 1 then do {
        i \<leftarrow> opt_str;
        complete_with i (opt_names opt) line
      } else Some line)
   }"

fun msh_cmd_opt_id_get :: "u8 list list \<Rightarrow> (u32 \<times> u8 list) list \<Rightarrow> u32" where
  "msh_cmd_opt_id_get argv [] = 0"
| "msh_cmd_opt_id_get argv (opt # options) =
     (if length argv \<ge> 2 \<and> fst opt \<noteq> 0 then (if snd opt = argv ! 1 then fst opt else msh_cmd_opt_id_get argv options) else 0)"

declare skip_blanks.simps [code] quote_end.simps [code] word_end.simps [code] split_loop.simps [code] cmd0_end.simps [code] strip_blanks.simps [code]
  get_argc_loop.simps [code]


subsection \<open>What the splitter computes\<close>

fun quoted :: "u8 list \<Rightarrow> u8 list \<times> u8 list" where
  \<comment> \<open>up to the closing quote; a quote behind a backslash does not close\<close>
  "quoted [] = ([], [])"
| "quoted (c # cs) =
     (if c = QUOTE then ([], cs)
      else if c = BACKSLASH then
        (case cs of d # ds \<Rightarrow> if d = QUOTE then (let (q, r) = quoted ds in (c # d # q, r)) else (let (q, r) = quoted cs in (c # q, r))
         | [] \<Rightarrow> ([c], []))
      else (let (q, r) = quoted cs in (c # q, r)))"

lemma quoted_ConsE:
  assumes "quoted (c # cs) = (q, r)"
  obtains "c = QUOTE" "q = []" "r = cs"
  | "c = BACKSLASH" "cs = []" "q = [c]" "r = []"
  | ds q' where "c = BACKSLASH" "cs = QUOTE # ds" "q = c # QUOTE # q'" "quoted ds = (q', r)"
  | q' where "c \<noteq> QUOTE" "c = BACKSLASH \<longrightarrow> (\<exists>d ds. cs = d # ds \<and> d \<noteq> QUOTE)" "q = c # q'" "quoted cs = (q', r)"
proof -
  consider "c = QUOTE" | "c \<noteq> QUOTE" "c = BACKSLASH" "cs = []" | ds where "c \<noteq> QUOTE" "c = BACKSLASH" "cs = QUOTE # ds"
    | d ds where "c \<noteq> QUOTE" "c = BACKSLASH" "cs = d # ds" "d \<noteq> QUOTE" | "c \<noteq> QUOTE" "c \<noteq> BACKSLASH"
    by (metis neq_Nil_conv)
  then show ?thesis
  proof cases
    case 1
    then show ?thesis using assms by (intro that(1)) auto
  next
    case 2
    then show ?thesis using assms by (intro that(2)) auto
  next
    case (3 ds)
    obtain q' r' where "quoted ds = (q', r')" by fastforce
    then show ?thesis using assms 3 by (intro that(3) [of ds q']) auto
  next
    case (4 d ds)
    obtain q' r' where "quoted cs = (q', r')" by fastforce
    then show ?thesis using assms 4 quoted.simps(2) [of c cs] by (intro that(4) [of q']) (auto simp del: quoted.simps)
  next
    case 5
    obtain q' r' where "quoted cs = (q', r')" by fastforce
    then show ?thesis using assms 5 quoted.simps(2) [of c cs] by (intro that(4) [of q']) (auto simp del: quoted.simps)
  qed
qed

lemma quoted_cases: "quoted cs = (q, r) \<Longrightarrow> cs = q @ QUOTE # r \<or> q = cs \<and> r = []"
proof (induction cs arbitrary: q rule: length_induct)
  case (1 cs)
  show ?case
  proof (cases cs)
    case Nil
    then show ?thesis using 1 by simp
  next
    case (Cons c ds)
    from 1(2) have "quoted (c # ds) = (q, r)" using Cons by simp
    then show ?thesis
    proof (cases rule: quoted_ConsE)
      case (3 es q')
      then show ?thesis using 1(1) [rule_format, of es q'] Cons by auto
    next
      case (4 q')
      then show ?thesis using 1(1) [rule_format, of ds q'] Cons by auto
    qed (use Cons in auto)
  qed
qed

lemma quoted_shorter: "length (snd (quoted cs)) \<le> length cs"
proof -
  obtain q r where "quoted cs = (q, r)" by fastforce
  then show ?thesis using quoted_cases by fastforce
qed

function args_of :: "u8 list \<Rightarrow> u8 list list" where
  \<comment> \<open>the arguments of a line: words between blanks, and what stands in quotes\<close>
  "args_of cs = (case dropWhile is_blank cs of
       [] \<Rightarrow> []
     | c # ds \<Rightarrow>
         if c = QUOTE then fst (quoted ds) # args_of (snd (quoted ds))
         else (c # takeWhile (\<lambda>c. \<not> is_blank c) ds) # args_of (dropWhile (\<lambda>c. \<not> is_blank c) ds))"
  by auto
termination
proof (relation "measure length", goal_cases)
  case (2 cs c ds)
  then have "length (c # ds) \<le> length cs" using length_dropWhile_le [of is_blank cs] by simp
  then show ?case using quoted_shorter [of ds] by simp
next
  case (3 cs c ds)
  then have "length (c # ds) \<le> length cs" using length_dropWhile_le [of is_blank cs] by simp
  then show ?case using length_dropWhile_le [of "\<lambda>c. \<not> is_blank c" ds] by simp
qed simp

declare args_of.simps [simp del] quoted.simps(2) [simp del]

lemma byte_at_app: "byte_at (pre @ c # post) (length pre) = Some c"
  by (simp add: byte_at_def)

lemma skip_blanks_run:
  assumes "cmd = pre @ cs @ 0 # rest" and "len = length pre + length cs"
  shows "skip_blanks len (length pre) cmd =
    Some (length pre + length (takeWhile is_blank cs), pre @ replicate (length (takeWhile is_blank cs)) 0 @ dropWhile is_blank cs @ 0 # rest)"
  using assms
proof (induction cs arbitrary: pre cmd)
  case Nil
  then show ?case by (subst skip_blanks.simps) (simp add: byte_at_app)
next
  case (Cons c cs)
  have "skip_blanks len (length (pre @ [0])) ((pre @ [0]) @ cs @ 0 # rest) =
      Some (length (pre @ [0 :: u8]) + length (takeWhile is_blank cs),
        (pre @ [0]) @ replicate (length (takeWhile is_blank cs)) 0 @ dropWhile is_blank cs @ 0 # rest)" if "is_blank c"
    by (rule Cons.IH [OF refl]) (use Cons.prems in simp)
  then show ?case using Cons.prems
    by (subst skip_blanks.simps) (auto simp: byte_at_app list_update_append)
qed

lemma word_end_run:
  assumes "cmd = pre @ cs @ 0 # rest" and "len = length pre + length cs"
  shows "word_end len (length pre) cmd = Some (length pre + length (takeWhile (\<lambda>c. \<not> is_blank c) cs))"
  using assms
proof (induction cs arbitrary: pre)
  case Nil
  then show ?case by (subst word_end.simps) (simp add: byte_at_app)
next
  case (Cons c cs)
  have "word_end len (length (pre @ [c])) cmd = Some (length (pre @ [c]) + length (takeWhile (\<lambda>c. \<not> is_blank c) cs))"
    by (rule Cons.IH) (use Cons.prems in simp_all)
  then show ?case using Cons.prems by (subst word_end.simps) (auto simp: byte_at_app)
qed

lemma quote_end_run:
  assumes "cmd = pre @ cs @ 0 # rest" and "len = length pre + length cs" and "quoted cs = (q, r)"
  shows "quote_end len (length pre) cmd = Some (length pre + length q)"
  using assms
proof (induction cs arbitrary: pre q rule: length_induct)
  case (1 cs)
  have z: "QUOTE \<noteq> 0" "BACKSLASH \<noteq> QUOTE" by (simp_all add: QUOTE_def BACKSLASH_def)
  show ?case
  proof (cases cs)
    case Nil
    then show ?thesis using 1 by (subst quote_end.simps) (simp add: byte_at_app)
  next
    case (Cons c ds)
    note cmd = 1(2) [unfolded Cons] and len = 1(3) [unfolded Cons]
    have at: "byte_at cmd (length pre) = Some c" "length pre < len" using cmd len by (simp_all add: byte_at_app)
    have at2: "byte_at cmd (Suc (length pre)) = Some (case ds of [] \<Rightarrow> 0 | d # _ \<Rightarrow> d)"
      using byte_at_app [of "pre @ [c]"] cmd by (cases ds) auto
    from 1(4) have "quoted (c # ds) = (q, r)" using Cons by simp
    then show ?thesis
    proof (cases rule: quoted_ConsE)
      case c: 1
      then show ?thesis using at by (subst quote_end.simps) simp
    next
      case c: 2
      have "quote_end len (Suc (length pre)) cmd = Some (Suc (length pre))"
        using at2 len c by (subst quote_end.simps) simp
      then show ?thesis using at at2 c z by (subst quote_end.simps) simp
    next
      case c: (3 es q')
      have "quote_end len (length (pre @ [c, QUOTE])) cmd = Some (length (pre @ [c, QUOTE]) + length q')"
        using 1(1) [rule_format, of es "pre @ [c, QUOTE]" q'] Cons c cmd len by simp
      then show ?thesis using at at2 c z by (subst quote_end.simps) simp
    next
      case c: (4 q')
      have "quote_end len (length (pre @ [c])) cmd = Some (length (pre @ [c]) + length q')"
        using 1(1) [rule_format, of ds "pre @ [c]" q'] Cons c cmd len by simp
      have "quote_end len (length pre) cmd = quote_end len (length (pre @ [c])) cmd"
      proof (cases "c = BACKSLASH")
        case True
        then obtain d es where "ds = d # es" "d \<noteq> QUOTE" using c(2) by blast
        then show ?thesis using at at2 c(1) True by (subst quote_end.simps) simp
      qed (use at c(1) in \<open>subst quote_end.simps; simp\<close>)
      then show ?thesis using c(3) \<open>quote_end len (length (pre @ [c])) cmd = _\<close> by simp
    qed
  qed
qed

lemma cstr_at_app: "0 \<notin> set w \<Longrightarrow> cstr_at (pre @ w @ 0 # post) (length pre) = w"
  by (simp add: cstr_at_def takeWhile_append)

lemma args_of_blank: "args_of cs = (case dropWhile is_blank cs of [] \<Rightarrow> [] | c # ds \<Rightarrow>
    if c = QUOTE then fst (quoted ds) # args_of (snd (quoted ds))
    else (c # takeWhile (\<lambda>c. \<not> is_blank c) ds) # args_of (dropWhile (\<lambda>c. \<not> is_blank c) ds))"
  by (rule args_of.simps)

lemma args_of_Nil:
  assumes "dropWhile is_blank cs = []"
  shows "args_of cs = []"
  by (subst args_of_blank) (simp only: assms list.case)

lemma not_blank_0 [simp]: "\<not> is_blank 0"
  by (simp add: is_blank_def BLANK_def TAB_def)

definition kept :: "u8 list \<Rightarrow> u8 list \<Rightarrow> u8 list \<Rightarrow> u8 list \<Rightarrow> bool" where
  \<comment> \<open>the splitter keeps what is in front, and ends there a word that has come up to a blank\<close>
  "kept pre cs rest cmd' \<longleftrightarrow> (\<exists>post. cmd' = pre @ post @ 0 # rest \<and> length post = length cs \<and>
     (cs = [] \<or> is_blank (hd cs) \<longrightarrow> hd (post @ [0]) = 0))"

lemma kept_step:
  assumes k: "kept (pre @ replicate n 0 @ mid) cs2 rest cmd'" and n: "n + length mid + length cs2 = length cs"
    and h: "cs \<noteq> []" "is_blank (hd cs) \<longrightarrow> 0 < n"
  shows "kept pre cs rest cmd'"
proof -
  obtain post where "cmd' = pre @ (replicate n 0 @ mid @ post) @ 0 # rest" "length post = length cs2" using k by (auto simp: kept_def)
  then show ?thesis using n h by (auto simp: kept_def intro!: exI [of _ "replicate n 0 @ mid @ post"] simp: hd_append)
qed

lemma split_loop_run:
  assumes "cmd = pre @ cs @ 0 # rest" and "len = length pre + length cs" and "0 \<notin> set cs"
  shows "\<exists>args cmd'. split_loop len (length pre) argv cmd = Some (argv @ args, cmd') \<and>
    map (cstr_at cmd') args = take (FINSH_ARG_MAX - length argv) (args_of cs) \<and> kept pre cs rest cmd'"
  using assms
proof (induction cs arbitrary: pre cmd argv rule: length_induct)
  case (1 cs)
  let ?n = "length (takeWhile is_blank cs)" and ?ds = "dropWhile is_blank cs"
  let ?pre = "pre @ replicate ?n 0" and ?cmd = "pre @ replicate ?n 0 @ ?ds @ 0 # rest"
  show ?case
  proof (cases "cs = []")
    case True
    then show ?thesis using 1(2-4) by (subst split_loop.simps) (auto simp: kept_def args_of_Nil)
  next
    case ne: False
    have lt: "length pre < len" using 1(3) ne by simp
    have nd: "?n + length ?ds = length cs" by (metis length_append takeWhile_dropWhile_id)
    then have len: "len = length ?pre + length ?ds" using 1(3) by simp
    have skip: "skip_blanks len (length pre) cmd = Some (length ?pre, ?cmd)" using skip_blanks_run [OF 1(2,3)] by simp
    have h: "is_blank (hd cs) \<longrightarrow> 0 < ?n" using ne by (cases cs) auto
    have stop: "kept pre cs rest ?cmd"
      by (rule kept_step [of _ ?n ?ds "[]"]) (use nd ne h in \<open>auto simp: kept_def\<close>)
    show ?thesis
    proof (cases "length argv \<ge> FINSH_ARG_MAX \<or> ?ds = []")
      case True
      then have "split_loop len (length pre) argv cmd = Some (argv, ?cmd)" using lt skip len by (subst split_loop.simps) auto
      moreover have "take (FINSH_ARG_MAX - length argv) (args_of cs) = []" using True args_of_Nil by auto
      ultimately show ?thesis using stop by (intro exI [of _ "[]"] exI [of _ ?cmd]) simp
    next
      case go: False
      then obtain c es where ds: "?ds = c # es" by (cases ?ds) auto
      have nb: "\<not> is_blank c" using ds by (metis hd_dropWhile list.discI list.sel(1))
      have z: "0 \<notin> set (c # es)" using 1(4) ds by (metis set_dropWhileD)
      have at: "byte_at ?cmd (length ?pre) = Some c" using byte_at_app [of ?pre c "es @ 0 # rest"] ds by simp
      have lt2: "length ?pre < len" using len ds by simp
      obtain m where m: "FINSH_ARG_MAX - length argv = Suc m" "FINSH_ARG_MAX - length (argv @ [p]) = m" for p :: nat
        using go by (metis Suc_diff_Suc diff_Suc_eq_diff_pred length_append_singleton not_le)
      have cs_len: "length (c # es) \<le> length cs" using nd ds by simp
      have unfold: "split_loop len (length pre) argv cmd =
          (if c = QUOTE then do {
             e \<leftarrow> quote_end len (length ?pre + 1) ?cmd;
             if e \<ge> len then Some (argv @ [length ?pre + 1], ?cmd)
             else do { cmd \<leftarrow> write_byte e 0 ?cmd; split_loop len (e + 1) (argv @ [length ?pre + 1]) cmd }
           } else do {
             e \<leftarrow> word_end len (length ?pre) ?cmd;
             if e \<ge> len then Some (argv @ [length ?pre], ?cmd) else split_loop len e (argv @ [length ?pre]) ?cmd
           })"
        using lt skip go at lt2 by (subst split_loop.simps) (simp del: append_assoc length_append)
      show ?thesis
      proof (cases "c = QUOTE")
        case q: True
        obtain w r where qr: "quoted es = (w, r)" by fastforce
        have args: "args_of cs = w # args_of r" using q ds qr by (subst args_of_blank) simp
        have qe: "quote_end len (length ?pre + 1) ?cmd = Some (length ?pre + 1 + length w)"
          using quote_end_run [of ?cmd "?pre @ [c]" es rest len w r] ds len qr by simp
        have arg: "cstr_at (?pre @ c # w @ 0 # post) (length ?pre + 1) = w" if "0 \<notin> set w" for post
          using cstr_at_app [OF that, of "?pre @ [c]" post] by simp
        from quoted_cases [OF qr] show ?thesis
        proof
          assume es: "es = w @ QUOTE # r"
          let ?pre2 = "?pre @ c # w @ [0]"
          have c2: "?cmd = (?pre @ c # w) @ QUOTE # r @ 0 # rest" using ds es by simp
          have e: "length ?pre + 1 + length w = length (?pre @ c # w)" "length ?pre + 1 + length w < len" using len ds es by simp_all
          have set: "write_byte (length ?pre + 1 + length w) 0 ?cmd = Some (?pre2 @ r @ 0 # rest)"
            unfolding write_byte_def e(1) c2 by (simp add: list_update_append)
          have "\<exists>args cmd'. split_loop len (length ?pre2) (argv @ [length ?pre + 1]) (?pre2 @ r @ 0 # rest) = Some ((argv @ [length ?pre + 1]) @ args, cmd') \<and>
              map (cstr_at cmd') args = take (FINSH_ARG_MAX - length (argv @ [length ?pre + 1])) (args_of r) \<and> kept ?pre2 r rest cmd'"
            by (rule 1(1) [rule_format]) (use cs_len len ds es z in auto)
          then obtain args cmd' where R: "split_loop len (length ?pre2) (argv @ [length ?pre + 1]) (?pre2 @ r @ 0 # rest) = Some (argv @ (length ?pre + 1) # args, cmd')"
              "map (cstr_at cmd') args = take m (args_of r)" "kept ?pre2 r rest cmd'"
            using m(2) by auto
          obtain post where "cmd' = ?pre @ c # w @ 0 # post" using R(3) by (auto simp: kept_def)
          then have "cstr_at cmd' (length ?pre + 1) = w" using arg z es by simp
          moreover have "kept pre cs rest cmd'"
            by (rule kept_step [of _ ?n "c # w @ [0]" r]) (use R(3) nd ds es ne h in auto)
          moreover have "length ?pre2 = length ?pre + 1 + length w + 1" by simp
          ultimately show ?thesis
            using unfold q qe set e(2) R(1,2) m(1) args
              by (intro exI [of _ "(length ?pre + 1) # args"] exI [of _ cmd']) (simp add: add.assoc)
        next
          assume es: "w = es \<and> r = []"
          then have "length ?pre + 1 + length w = len" using len ds by simp
          moreover have "cstr_at ?cmd (length ?pre + 1) = w" using arg z es ds by simp
          ultimately show ?thesis using unfold q qe es args args_of_Nil [of "[]"] m(1) stop
            by (intro exI [of _ "[length ?pre + 1]"] exI [of _ ?cmd]) simp
        qed
      next
        case False
        let ?w = "c # takeWhile (\<lambda>c. \<not> is_blank c) es" and ?r = "dropWhile (\<lambda>c. \<not> is_blank c) es"
        have args: "args_of cs = ?w # args_of ?r" using False ds by (subst args_of_blank) simp
        have w: "es = takeWhile (\<lambda>c. \<not> is_blank c) es @ ?r" by simp
        have zw: "0 \<notin> set ?w" using z by (metis set_takeWhileD set_ConsD list.set_intros(1) list.set_intros(2))
        have we: "word_end len (length ?pre) ?cmd = Some (length ?pre + length ?w)"
          using word_end_run [of ?cmd ?pre "c # es" rest len] ds len nb by simp
        have wl: "length ?w + length ?r = length (c # es)" by (metis append_Cons length_append takeWhile_dropWhile_id)
        show ?thesis
        proof (cases "?r = []")
          case True
          have tw: "takeWhile (\<lambda>c. \<not> is_blank c) es = es" by (metis True append_Nil2 takeWhile_dropWhile_id)
          have "length (takeWhile (\<lambda>c. \<not> is_blank c) es) = length es" by (rule arg_cong [OF tw])
          then have "length ?pre + length ?w = len" using len ds by simp
          moreover have "cstr_at ?cmd (length ?pre) = ?w" unfolding tw using cstr_at_app [OF zw [unfolded tw], of ?pre rest] ds by simp
          moreover have "args_of ?r = []" unfolding True using args_of_Nil [of "[]"] by simp
          ultimately show ?thesis using unfold False we args m(1) stop
            by (intro exI [of _ "[length ?pre]"] exI [of _ ?cmd]) simp
        next
          case r: False
          let ?pre2 = "?pre @ ?w"
          have hb: "is_blank (hd ?r)" using hd_dropWhile [OF r] by simp
          have c2: "?cmd = ?pre2 @ ?r @ 0 # rest" using ds by simp
          have zr: "0 \<notin> set ?r" using z set_dropWhileD by (metis list.set_intros(2))
          have "\<exists>args cmd'. split_loop len (length ?pre2) (argv @ [length ?pre]) ?cmd = Some ((argv @ [length ?pre]) @ args, cmd') \<and>
              map (cstr_at cmd') args = take (FINSH_ARG_MAX - length (argv @ [length ?pre])) (args_of ?r) \<and> kept ?pre2 ?r rest cmd'"
            by (rule 1(1) [rule_format]) (use cs_len len ds wl zr c2 in auto)
          then obtain args cmd' where R: "split_loop len (length ?pre2) (argv @ [length ?pre]) ?cmd = Some (argv @ length ?pre # args, cmd')"
              "map (cstr_at cmd') args = take m (args_of ?r)" "kept ?pre2 ?r rest cmd'"
            using m(2) by auto
          obtain post where post: "cmd' = ?pre2 @ post @ 0 # rest" "hd (post @ [0]) = 0" using R(3) hb by (auto simp: kept_def)
          obtain post' where "cmd' = ?pre @ ?w @ 0 # post'" using post by (cases post) auto
          then have "cstr_at cmd' (length ?pre) = ?w" using cstr_at_app [OF zw, of ?pre post'] by simp
          moreover have "kept pre cs rest cmd'"
            by (rule kept_step [of _ ?n ?w ?r]) (use R(3) nd ds wl ne h in auto)
          moreover have "length ?pre2 = length ?pre + length ?w" by simp
          moreover have "length ?pre + length ?w < len"
          proof -
            have "0 < length ?r" using r length_greater_0_conv by blast
            then show ?thesis using len [unfolded ds] wl by linarith
          qed
          ultimately show ?thesis
            using unfold False we R(1,2) m(1) args by (intro exI [of _ "length ?pre # args"] exI [of _ cmd']) (simp add: add.assoc)
        qed
      qed
    qed
  qed
qed

lemma msh_split_args_run:
  assumes "0 \<notin> set cs"
  shows "\<exists>argv cmd. msh_split (cs @ 0 # rest) (length cs) = Some (argv, cmd) \<and> map (cstr_at cmd) argv = take FINSH_ARG_MAX (args_of cs) \<and>
    length cmd = length (cs @ 0 # rest)"
  using split_loop_run [of "cs @ 0 # rest" "[]" cs rest "length cs" "[]"] assms by (auto simp: msh_split_def kept_def)

text \<open>
  Splitting ends, stays inside the line, and gives the arguments of the line, at most ten: words between blanks, and what stands in quotes.
\<close>
theorem msh_split_args:
  assumes "0 \<notin> set cs"
  shows "\<exists>argv cmd. msh_split (cs @ 0 # rest) (length cs) = Some (argv, cmd) \<and> map (cstr_at cmd) argv = take FINSH_ARG_MAX (args_of cs) \<and>
    length cmd = length (cs @ 0 # rest)"
  using assms by (rule msh_split_args_run)

text \<open>The line \<open>echo "a b" c\<close>.\<close>

definition echo_line :: "u8 list" where
  "echo_line = [101, 99, 104, 111, BLANK, QUOTE, 97, BLANK, 98, QUOTE, BLANK, BLANK, 99]"

theorem msh_split_args_witness:
  "\<exists>argv cmd. msh_split (echo_line @ 0 # []) 13 = Some (argv, cmd) \<and> map (cstr_at cmd) argv = [[101, 99, 104, 111], [97, BLANK, 98], [99]]"
proof -
  have "0 \<notin> set echo_line" "length echo_line = 13" "take FINSH_ARG_MAX (args_of echo_line) = [[101, 99, 104, 111], [97, BLANK, 98], [99]]" by code_simp+
  then show ?thesis using msh_split_args [of echo_line "[]"] by auto
qed


subsection \<open>Finding a command\<close>

definition table_ok :: "syscalls \<Rightarrow> bool" where
  "table_ok table \<longleftrightarrow> (\<forall>c \<in> set table. 0 \<notin> set (sc_name c))"

lemma strncmp0_eq:
  "0 \<notin> set a \<Longrightarrow> 0 \<notin> set b \<Longrightarrow> n \<le> length b \<Longrightarrow> strncmp0 (a @ [0]) (b @ post) n = Some (take n b = take n a \<and> n \<le> length a)"
proof (induction n arbitrary: a b)
  case (Suc n)
  then obtain y b' where "b = y # b'" by (cases b) auto
  then show ?case using Suc by (cases a) auto
qed simp

lemma msh_get_cmd_find:
  assumes "table_ok table" and "0 \<notin> set w"
  shows "msh_get_cmd table (w @ post) (length w) = Some (List.find (\<lambda>c. sc_name c = w) table)"
  using assms(1)
proof (induction table)
  case (Cons c table)
  have s: "strncmp0 (sc_name c @ [0]) (w @ post) (length w) = Some (w = take (length w) (sc_name c) \<and> length w \<le> length (sc_name c))"
    using strncmp0_eq [of "sc_name c" w "length w" post] Cons.prems assms(2) by (simp add: table_ok_def)
  show ?case
  proof (cases "w = take (length w) (sc_name c) \<and> length w \<le> length (sc_name c)")
    case True
    then have "sc_name c = w @ drop (length w) (sc_name c)" by (metis append_take_drop_id)
    then obtain v where v: "sc_name c = w @ v" ..
    have "0 \<notin> set v" using v Cons.prems by (auto simp: table_ok_def)
    then show ?thesis using Cons s True v by (cases v) (auto simp: byte_at_def table_ok_def nth_append)
  next
    case False
    then have "sc_name c \<noteq> w" by auto
    then show ?thesis using Cons s False by (simp add: table_ok_def)
  qed
qed simp

lemma cmd0_end_run:
  assumes "cmd = pre @ cs @ post" and "len = length pre + length cs"
  shows "cmd0_end len (length pre) cmd = Some (length pre + length (takeWhile (\<lambda>c. \<not> is_blank c) cs))"
  using assms
proof (induction cs arbitrary: pre)
  case Nil
  then show ?case by (subst cmd0_end.simps) simp
next
  case (Cons c cs)
  have "cmd0_end len (length (pre @ [c])) cmd = Some (length (pre @ [c]) + length (takeWhile (\<lambda>c. \<not> is_blank c) cs))"
    by (rule Cons.IH) (use Cons.prems in simp_all)
  then show ?case using Cons.prems byte_at_app [of pre c] by (subst cmd0_end.simps) auto
qed

lemma strip_blanks_run: "strip_blanks (length cs) (cs @ post) = Some (length (dropWhile is_blank cs), dropWhile is_blank cs @ post)"
proof (induction cs)
  case Nil
  then show ?case by (subst strip_blanks.simps) simp
next
  case (Cons c cs)
  then show ?case by (subst strip_blanks.simps) (simp add: byte_at_def)
qed

definition command_of :: "syscalls \<Rightarrow> u8 list \<Rightarrow> finsh_syscall option" where
  \<comment> \<open>the first command of the table whose name is the first word of the line\<close>
  "command_of table cs = List.find (\<lambda>c. sc_name c = takeWhile (\<lambda>c. \<not> is_blank c) (dropWhile is_blank cs)) table"

text \<open>
  C23. Running a line of the shell: a line of blanks does nothing; otherwise the first command of the table that has the first word of the line as its name runs
  with the arguments of the line, and its result is returned; without such a command the result is -1 and the first word is reported.
\<close>
theorem msh_exec_runs:
  assumes "table_ok table" and "0 \<notin> set cs"
  shows "msh_exec table run (cs @ 0 # rest) (length cs) =
    (if dropWhile is_blank cs = [] then Some (0, None)
     else case command_of table cs of
       Some c \<Rightarrow> let args = take FINSH_ARG_MAX (args_of cs) in Some (run (sc_func c) args, Some (Ran (sc_func c) args))
     | None \<Rightarrow> Some (- 1, Some (NotFound (takeWhile (\<lambda>c. c \<noteq> BLANK) (dropWhile is_blank cs)))))"
proof -
  let ?ds = "dropWhile is_blank cs" and ?w = "takeWhile (\<lambda>c. \<not> is_blank c) (dropWhile is_blank cs)"
  have strip: "strip_blanks (length cs) (cs @ 0 # rest) = Some (length ?ds, ?ds @ 0 # rest)" by (rule strip_blanks_run)
  show ?thesis
  proof (cases "?ds = []")
    case True
    then show ?thesis by (simp add: msh_exec_def strip)
  next
    case False
    have z: "0 \<notin> set ?ds" using assms(2) by (metis set_dropWhileD)
    have zw: "0 \<notin> set ?w" using z by (metis set_takeWhileD)
    have w: "?ds = ?w @ dropWhile (\<lambda>c. \<not> is_blank c) ?ds" by simp
    have wne: "?w \<noteq> []" using False hd_dropWhile [OF False] by (cases ?ds) auto
    have c0: "cmd0_end (length ?ds) 0 (?ds @ 0 # rest) = Some (length ?w)" using cmd0_end_run [of _ "[]" ?ds "0 # rest"] by simp
    have gc: "msh_get_cmd table (?ds @ 0 # rest) (length ?w) = Some (command_of table cs)"
      using msh_get_cmd_find [OF assms(1) zw, of "dropWhile (\<lambda>c. \<not> is_blank c) ?ds @ 0 # rest"] w by (metis append.assoc command_of_def)
    have args: "args_of ?ds = args_of cs" by (simp add: args_of_blank [of cs] args_of_blank [of ?ds])
    have ane: "args_of cs \<noteq> []" using False by (subst args_of_blank) (cases ?ds; simp)
    show ?thesis
    proof (cases "command_of table cs")
      case None
      have "strlen_at (?ds @ 0 # rest) 0 = Some (length ?ds)" using z by (simp add: strlen_at_def cstr_at_def takeWhile_append)
      then show ?thesis using False wne None by (simp add: msh_exec_def msh_exec_cmd_def strip c0 gc RT_ERROR_def)
    next
      case (Some c)
      obtain argv cmd where A: "msh_split (?ds @ 0 # rest) (length ?ds) = Some (argv, cmd)" "map (cstr_at cmd) argv = take FINSH_ARG_MAX (args_of cs)"
        using msh_split_args_run [OF z, of rest] args by auto
      have "argv \<noteq> []" using A(2) ane by (auto simp: FINSH_ARG_MAX_def)
      then show ?thesis using False wne Some A by (simp add: msh_exec_def msh_exec_cmd_def strip c0 gc Let_def)
    qed
  qed
qed

definition demo_table :: syscalls where
  \<comment> \<open>the commands \<open>ps\<close>, \<open>echo\<close> and \<open>exit\<close>\<close>
  "demo_table = [\<lparr>sc_name = [112, 115], sc_opt = [], sc_func = 1\<rparr>, \<lparr>sc_name = [101, 99, 104, 111], sc_opt = [], sc_func = 2\<rparr>,
     \<lparr>sc_name = [101, 120, 105, 116], sc_opt = [], sc_func = 3\<rparr>]"

lemma demo_table_ok: "table_ok demo_table"
  by (simp add: table_ok_def demo_table_def)

theorem msh_exec_runs_witness:
  "msh_exec demo_table (\<lambda>f args. int (length args)) (echo_line @ 0 # []) 13 =
    Some (3, Some (Ran 2 [[101, 99, 104, 111], [97, BLANK, 98], [99]]))"
proof -
  have "0 \<notin> set echo_line" "length echo_line = 13" "dropWhile is_blank echo_line \<noteq> []"
    "command_of demo_table echo_line = Some \<lparr>sc_name = [101, 99, 104, 111], sc_opt = [], sc_func = 2\<rparr>"
    "take FINSH_ARG_MAX (args_of echo_line) = [[101, 99, 104, 111], [97, BLANK, 98], [99]]" by code_simp+
  then show ?thesis using msh_exec_runs [OF demo_table_ok, of echo_line "\<lambda>f args. int (length args)" "[]"] by (simp add: Let_def)
qed


subsection \<open>What completion computes\<close>

lemma str_common_lcp: "str_common a b = length (longest_common_prefix a b)"
  by (induction a b rule: str_common.induct) auto

lemma lcp_take: "take (min m (str_common p x)) p = longest_common_prefix (take m p) x"
proof (induction p arbitrary: m x)
  case (Cons y p)
  then show ?case by (cases m; cases x) auto
qed simp

definition fits :: "u8 list \<Rightarrow> u8 list list \<Rightarrow> u8 list list" where
  "fits cs names = filter (prefix cs) names"

definition shared :: "u8 list list \<Rightarrow> u8 list \<Rightarrow> bool" where
  \<comment> \<open>the longest common beginning of some names\<close>
  "shared xs r \<longleftrightarrow> (\<forall>x \<in> set xs. prefix r x) \<and> (\<forall>q. (\<forall>x \<in> set xs. prefix q x) \<longrightarrow> prefix q r)"

lemma strncmp0_prefix:
  "0 \<notin> set cs \<Longrightarrow> 0 \<notin> set name \<Longrightarrow> strncmp0 (cs @ post) (name @ [0]) (length cs) = Some (prefix cs name)"
proof (induction cs arbitrary: name)
  case (Cons c cs)
  then show ?case by (cases name) auto
qed simp

lemma complete_scan_run:
  assumes "0 \<notin> set cs" and "\<forall>x \<in> set names. 0 \<notin> set x" and "cs \<noteq> []" and "prefix cs (take m p)"
  shows "\<exists>k. complete_scan names (cs @ post) (length cs) m (Some p) = Some (k, Some p) \<and> k \<le> m \<and>
    shared (take m p # fits cs names) (take k p) \<and> prefix cs (take k p)"
  using assms(2,4)
proof (induction names arbitrary: m)
  case Nil
  then show ?case by (auto simp: shared_def fits_def)
next
  case (Cons x names)
  have z: "0 \<notin> set x" "\<forall>x \<in> set names. 0 \<notin> set x" using Cons.prems(1) by auto
  have m: "m \<noteq> 0" using Cons.prems(2) assms(3) by (cases m) auto
  have e: "strncmp0 (cs @ post) (x @ [0]) (length cs) = Some (prefix cs x)" by (rule strncmp0_prefix [OF assms(1) z(1)])
  show ?case
  proof (cases "prefix cs x")
    case False
    then show ?thesis using Cons.IH [OF z(2) Cons.prems(2)] e by (auto simp: fits_def)
  next
    case True
    let ?m = "if str_common p x < m then str_common p x else m"
    have t: "take ?m p = longest_common_prefix (take m p) x" using lcp_take [of m p x] by (auto simp: min_def split: if_splits)
    have "prefix cs (take ?m p)" unfolding t using Cons.prems(2) True by (rule longest_common_prefix_max_prefix)
    from Cons.IH [OF z(2) this] obtain k where k: "complete_scan names (cs @ post) (length cs) ?m (Some p) = Some (k, Some p)" "k \<le> ?m"
      "shared (take ?m p # fits cs names) (take k p)" "prefix cs (take k p)" by auto
    have "shared (take m p # fits cs (x # names)) (take k p)"
      using k(3) True unfolding t shared_def
      by (auto simp: fits_def intro: prefix_order.trans longest_common_prefix_prefix1 longest_common_prefix_prefix2 longest_common_prefix_max_prefix)
    moreover have "k \<le> m" using k(2) by (auto split: if_splits)
    ultimately show ?thesis using k(1,4) e True m by (auto simp: Let_def)
  qed
qed

lemma complete_scan_start:
  assumes "0 \<notin> set cs" and "\<forall>x \<in> set names. 0 \<notin> set x" and "cs \<noteq> []"
  shows "case fits cs names of
      [] \<Rightarrow> complete_scan names (cs @ post) (length cs) 0 None = Some (0, None)
    | p # _ \<Rightarrow> \<exists>k. complete_scan names (cs @ post) (length cs) 0 None = Some (k, Some p) \<and> k \<le> length p \<and>
        shared (fits cs names) (take k p) \<and> prefix cs (take k p)"
  using assms(2)
proof (induction names)
  case Nil
  then show ?case by (simp add: fits_def)
next
  case (Cons x names)
  have z: "0 \<notin> set x" "\<forall>x \<in> set names. 0 \<notin> set x" using Cons.prems by auto
  have e: "strncmp0 (cs @ post) (x @ [0]) (length cs) = Some (prefix cs x)" by (rule strncmp0_prefix [OF assms(1) z(1)])
  show ?case
  proof (cases "prefix cs x")
    case False
    then have "fits cs (x # names) = fits cs names" by (simp add: fits_def)
    then show ?thesis using Cons.IH [OF z(2)] e False by (auto split: list.splits)
  next
    case True
    have "str_common x x = length x" by (induction x) auto
    moreover obtain k where "complete_scan names (cs @ post) (length cs) (length x) (Some x) = Some (k, Some x)" "k \<le> length x"
      "shared (x # fits cs names) (take k x)" "prefix cs (take k x)"
      using complete_scan_run [OF assms(1) z(2) assms(3), of "length x" x post] True by auto
    ultimately show ?thesis using e True by (simp add: fits_def Let_def)
  qed
qed

text \<open>
  Completing a name: the text of the line becomes the longest beginning that all the names share which begin with it, so it only grows; without such a name
  it stays.
\<close>
theorem msh_auto_complete_extends:
  assumes "table_ok table" and "0 \<notin> set cs" and "cs \<noteq> []" and "\<forall>c \<in> set table. length (sc_name c) < length (cs @ replicate n 0)" and "0 < n"
  shows "\<exists>r k. msh_auto_complete table (cs @ replicate n 0) = Some (r @ replicate k 0) \<and> length (r @ replicate k 0) = length (cs @ replicate n 0) \<and>
    prefix cs r \<and> (if fits cs (map sc_name table) = [] then r = cs else shared (fits cs (map sc_name table)) r)"
proof -
  let ?line = "cs @ replicate n 0" and ?names = "map sc_name table"
  have z: "\<forall>x \<in> set ?names. 0 \<notin> set x" using assms(1) by (auto simp: table_ok_def)
  have len: "strlen_at ?line 0 = Some (length cs)" using assms(2,5) by (cases n) (auto simp: strlen_at_def cstr_at_def takeWhile_append)
  have hd: "byte_at ?line 0 = Some (hd cs)" "hd cs \<noteq> 0" using assms(2,3) by (cases cs; auto simp: byte_at_def)+
  note S = complete_scan_start [OF assms(2) z assms(3), of "replicate n 0"]
  show ?thesis
  proof (cases "fits cs ?names")
    case Nil
    then show ?thesis using S hd len
      by (intro exI [of _ cs] exI [of _ n]) (simp add: msh_auto_complete_def complete_with_def)
  next
    case (Cons p ps)
    obtain k where k: "complete_scan ?names (cs @ replicate n 0) (length cs) 0 None = Some (k, Some p)" "k \<le> length p"
      "shared (fits cs ?names) (take k p)" "prefix cs (take k p)" using S Cons by auto
    have "p \<in> set (fits cs ?names)" using Cons by simp
    then have pl: "length p < length ?line" using assms(4) by (auto simp: fits_def)
    have ck: "length cs \<le> k" using prefix_length_le [OF k(4)] k(2) by simp
    have "msh_auto_complete table ?line = Some (take k p @ replicate (n - (k - length cs)) 0)"
      using k(1,2) hd len ck pl by (simp add: msh_auto_complete_def complete_with_def write_bytes_def strncpy_bytes_def)
    then show ?thesis using k(2-4) ck pl Cons by (intro exI [of _ "take k p"] exI [of _ "n - (k - length cs)"]) simp
  qed
qed

theorem msh_auto_complete_extends_witness:
  "\<exists>r k. msh_auto_complete demo_table ([101] @ replicate 80 0) = Some (r @ replicate k 0) \<and> prefix [101] r \<and>
    shared (fits [101] (map sc_name demo_table)) r"
proof -
  have "fits [101] (map sc_name demo_table) \<noteq> []" by (simp add: fits_def demo_table_def)
  moreover have "\<forall>c \<in> set demo_table. length (sc_name c) < length ([101 :: u8] @ replicate 80 0)" by (simp add: demo_table_def)
  ultimately show ?thesis using msh_auto_complete_extends [OF demo_table_ok, of "[101]" 80] by auto
qed


subsection \<open>Lines that are not terminated where they end\<close>

lemma skip_blanks_total:
  "position < length cmd \<Longrightarrow> len < length cmd \<Longrightarrow> \<exists>p c. skip_blanks len position cmd = Some (p, c) \<and> position \<le> p \<and> p < length cmd \<and> length c = length cmd \<and>
    (p < len \<longrightarrow> \<not> is_blank (c ! p)) \<and> (0 \<in> set cmd \<longrightarrow> 0 \<in> set c)"
proof (induction "len - position" arbitrary: position cmd rule: less_induct)
  case less
  show ?case
  proof (cases "is_blank (cmd ! position) \<and> position < len")
    case True
    then have "\<exists>p c. skip_blanks len (position + 1) (cmd[position := 0]) = Some (p, c) \<and> position + 1 \<le> p \<and> p < length (cmd[position := 0]) \<and>
        length c = length (cmd[position := 0]) \<and> (p < len \<longrightarrow> \<not> is_blank (c ! p)) \<and> (0 \<in> set (cmd[position := 0]) \<longrightarrow> 0 \<in> set c)"
      using less.prems by (intro less.hyps) auto
    moreover have "0 \<in> set (cmd[position := 0])" using less.prems by (simp add: set_update_memI)
    ultimately show ?thesis using True less.prems by (subst skip_blanks.simps) (auto simp: byte_at_def)
  next
    case False
    then show ?thesis using less.prems by (subst skip_blanks.simps) (auto simp: byte_at_def)
  qed
qed

lemma quote_end_total:
  "position \<le> len + 1 \<Longrightarrow> len + 1 < length cmd \<Longrightarrow> \<exists>e. quote_end len position cmd = Some e \<and> position \<le> e"
proof (induction "len + 1 - position" arbitrary: position rule: less_induct)
  case less
  let ?c = "cmd ! position"
  show ?case
  proof (cases "?c \<noteq> QUOTE \<and> position < len")
    case False
    then show ?thesis using less.prems by (subst quote_end.simps) (auto simp: byte_at_def)
  next
    case True
    define q where "q = (if ?c = BACKSLASH \<and> cmd ! (position + 1) = QUOTE then position + 2 else position + 1)"
    have "\<exists>e. quote_end len q cmd = Some e \<and> q \<le> e" using True less.prems by (intro less.hyps) (auto simp: q_def)
    moreover have "quote_end len position cmd = quote_end len q cmd" using True less.prems
      by (subst quote_end.simps) (auto simp: byte_at_def q_def)
    ultimately show ?thesis by (auto simp: q_def split: if_splits)
  qed
qed

lemma word_end_total:
  "position \<le> len \<Longrightarrow> len < length cmd \<Longrightarrow> \<exists>e. word_end len position cmd = Some e \<and> position \<le> e \<and>
    (position < len \<and> \<not> is_blank (cmd ! position) \<longrightarrow> position < e)"
proof (induction "len - position" arbitrary: position rule: less_induct)
  case less
  show ?case
  proof (cases "\<not> is_blank (cmd ! position) \<and> position < len")
    case True
    then have "len - (position + 1) < len - position" by linarith
    from less.hyps [OF this] True less.prems obtain e where "word_end len (position + 1) cmd = Some e" "position + 1 \<le> e" by auto
    then show ?thesis using True less.prems by (subst word_end.simps) (auto simp: byte_at_def)
  next
    case False
    then show ?thesis using less.prems by (subst word_end.simps) (auto simp: byte_at_def)
  qed
qed

lemma split_loop_total:
  "len + 1 < length cmd \<Longrightarrow> \<exists>a c. split_loop len position argv cmd = Some (a, c) \<and> (0 \<in> set cmd \<longrightarrow> 0 \<in> set c)"
proof (induction "len - position" arbitrary: position argv cmd rule: less_induct)
  case less
  show ?case
  proof (cases "position < len")
    case False
    then show ?thesis by (subst split_loop.simps) simp
  next
    case True
    have "position < length cmd" "len < length cmd" using True less.prems by simp_all
    from skip_blanks_total [OF this] obtain p c where
      s: "skip_blanks len position cmd = Some (p, c)" "position \<le> p" "length c = length cmd" "p < len \<longrightarrow> \<not> is_blank (c ! p)" "0 \<in> set cmd \<longrightarrow> 0 \<in> set c" by blast
    show ?thesis
    proof (cases "length argv \<ge> FINSH_ARG_MAX \<or> p \<ge> len")
      case True
      then show ?thesis using \<open>position < len\<close> s(1,5) by (subst split_loop.simps) auto
    next
      case go: False
      have at: "byte_at c p = Some (c ! p)" using go s(3) less.prems by (simp add: byte_at_def)
      obtain e where e: "quote_end len (p + 1) c = Some e" "p + 1 \<le> e" using quote_end_total [of "p + 1" len c] go s(3) less.prems by auto
      obtain w where w: "word_end len p c = Some w" "p < w" using word_end_total [of p len c] go s(3,4) less.prems by auto
      have quote: "\<exists>a d. split_loop len (e + 1) argv' (c[e := 0]) = Some (a, d) \<and> (0 \<in> set (c[e := 0]) \<longrightarrow> 0 \<in> set d)" if "e < len" for argv'
        by (rule less.hyps) (use that True e s(2,3) less.prems in auto)
      have word: "\<exists>a d. split_loop len w argv' c = Some (a, d) \<and> (0 \<in> set c \<longrightarrow> 0 \<in> set d)" for argv'
        by (rule less.hyps) (use True w s(2,3) less.prems in auto)
      have z: "0 \<in> set (c[e := 0])" if "e < len" using that s(3) less.prems by (simp add: set_update_memI)
      have sb: "write_byte e 0 c = Some (c[e := 0])" if "e < len" using that s(3) less.prems by (simp add: write_byte_def)
      show ?thesis
      proof (cases "c ! p = QUOTE")
        case q: True
        show ?thesis
        proof (cases "e < len")
          case lt: True
          obtain a d where "split_loop len (e + 1) (argv @ [p + 1]) (c[e := 0]) = Some (a, d)" "0 \<in> set d" using quote [OF lt] z [OF lt] by blast
          then show ?thesis using True s(1) go at e(1) q sb [OF lt] lt by (subst split_loop.simps) simp
        next
          case False
          then show ?thesis using True s(1,5) go at e(1) q by (subst split_loop.simps) simp
        qed
      next
        case q: False
        obtain a d where "split_loop len w (argv @ [p]) c = Some (a, d)" "0 \<in> set c \<longrightarrow> 0 \<in> set d" using word by blast
        then show ?thesis using True s(1,5) go at w(1) q by (subst split_loop.simps) auto
      qed
    qed
  qed
qed

lemma msh_exec_total:
  assumes "table_ok table" and "0 \<notin> set cs" and "0 \<in> set post" and "2 \<le> length post"
  shows "\<exists>r. msh_exec table run (cs @ post) (length cs) = Some r"
proof -
  let ?ds = "dropWhile is_blank cs" and ?w = "takeWhile (\<lambda>c. \<not> is_blank c) (dropWhile is_blank cs)"
  have strip: "strip_blanks (length cs) (cs @ post) = Some (length ?ds, ?ds @ post)" by (rule strip_blanks_run)
  show ?thesis
  proof (cases "?ds = []")
    case True
    then show ?thesis by (simp add: msh_exec_def strip)
  next
    case False
    have z: "0 \<notin> set ?w" using assms(2) by (metis set_dropWhileD set_takeWhileD)
    have c0: "cmd0_end (length ?ds) 0 (?ds @ post) = Some (length ?w)" using cmd0_end_run [of _ "[]" ?ds post] by simp
    have w: "?ds @ post = ?w @ (dropWhile (\<lambda>c. \<not> is_blank c) ?ds @ post)" by simp
    have gc: "msh_get_cmd table (?ds @ post) (length ?w) = Some (List.find (\<lambda>c. sc_name c = ?w) table)"
      unfolding w by (rule msh_get_cmd_find [OF assms(1) z])
    obtain argv cmd where sp: "msh_split (?ds @ post) (length ?ds) = Some (argv, cmd)" "0 \<in> set cmd"
      using split_loop_total [of "length ?ds" "?ds @ post" 0 "[]"] assms(3,4) by (auto simp: msh_split_def)
    have zc: "\<exists>n. strlen_at (?ds @ post) 0 = Some n" "\<exists>n. strlen_at cmd 0 = Some n" using assms(3) sp(2) by (simp_all add: strlen_at_def)
    show ?thesis
      using zc sp(1) False c0 gc strip by (cases "List.find (\<lambda>c. sc_name c = ?w) table") (auto simp: msh_exec_def msh_exec_cmd_def RT_ERROR_def Let_def)
  qed
qed

definition long_option_table :: syscalls where
  \<comment> \<open>a command \<open>c\<close> with one option of four characters\<close>
  "long_option_table = [\<lparr>sc_name = [99], sc_opt = [(1, [45, 45, 45, 45])], sc_func = 1\<rparr>]"

definition long_option_line :: "u8 list" where
  \<comment> \<open>the command, blanks, and the beginning of the option as character 79 of the line\<close>
  "long_option_line = [99] @ replicate 77 BLANK @ [45] @ replicate 2 0"

text \<open>
  Completing an option does not look at the room in the line: near its end the option is written past the 81 bytes.
\<close>
theorem option_completion_overflows:
  "length long_option_line = 81 \<and> strlen_at long_option_line 0 = Some 79 \<and> msh_opt_auto_complete long_option_table 0 long_option_line = None"
  by code_simp

end
