(* ===== verification/Shell.thy ===== *)
theory Shell
  imports Msh
begin

text \<open>
  The line editor of the shell (components/finsh/shell.c): what each byte from the console does to the line, the cursor and the history, and which
  commands it runs. The state is the part of \<open>struct finsh_shell\<close> the editor uses; the semaphore, the console device and what is printed are left out. Every access to the
  line and to the history is checked: outside of them the result is \<open>None\<close>.
\<close>

definition FINSH_CMD_SIZE :: nat where "FINSH_CMD_SIZE = 80"
definition FINSH_HISTORY_LINES :: nat where "FINSH_HISTORY_LINES = 5"

datatype input_stat = WAIT_NORMAL | WAIT_SPEC_KEY | WAIT_FUNC_KEY

record finsh_shell =
  sh_stat :: input_stat
  sh_echo_mode :: bool
  sh_prompt_mode :: bool
  sh_current_history :: u16
  sh_history_count :: u16
  sh_cmd_history :: "u8 list list"
  sh_line :: "u8 list"
  sh_line_position :: u16
  sh_line_curpos :: u16

definition finsh_get_prompt_mode :: "finsh_shell \<Rightarrow> u32" where
  "finsh_get_prompt_mode s = (if sh_prompt_mode s then 1 else 0)"

definition finsh_set_prompt_mode :: "u32 \<Rightarrow> finsh_shell \<Rightarrow> finsh_shell" where
  \<comment> \<open>the field has one bit\<close>
  "finsh_set_prompt_mode prompt_mode s = s\<lparr>sh_prompt_mode := odd (uint prompt_mode)\<rparr>"

definition finsh_get_echo :: "finsh_shell \<Rightarrow> u32" where
  "finsh_get_echo s = (if sh_echo_mode s then 1 else 0)"

definition finsh_set_echo :: "u32 \<Rightarrow> finsh_shell \<Rightarrow> finsh_shell" where
  "finsh_set_echo echo s = s\<lparr>sh_echo_mode := odd (uint echo)\<rparr>"

definition finsh_set_prompt :: "bool \<Rightarrow> u8 list option \<Rightarrow> u8 list option" where
  \<comment> \<open>the new \<open>finsh_prompt_custom\<close>; \<open>mem\<close>: the heap has room for the copy\<close>
  "finsh_set_prompt mem prompt = (case prompt of Some p \<Rightarrow> if mem then Some p else None | None \<Rightarrow> None)"

definition RT_CONSOLEBUF_SIZE :: nat where "RT_CONSOLEBUF_SIZE = 128"

definition finsh_get_prompt :: "u8 list option \<Rightarrow> finsh_shell \<Rightarrow> u8 list \<Rightarrow> u8 list option" where
  \<comment> \<open>what becomes of the static buffer \<open>finsh_prompt\<close> of 129 bytes; the length is taken again once the terminator is overwritten\<close>
  "finsh_get_prompt finsh_prompt_custom s finsh_prompt =
     (if \<not> sh_prompt_mode s then write_byte 0 0 finsh_prompt
      else do {
        p \<leftarrow> (case finsh_prompt_custom of
            Some c \<Rightarrow> write_bytes 0 (strncpy_bytes c RT_CONSOLEBUF_SIZE) finsh_prompt
          | None \<Rightarrow> write_bytes 0 [0x6d, 0x73, 0x68, BLANK, 0] finsh_prompt);
        n \<leftarrow> strlen_at p 0;
        if n + 2 < RT_CONSOLEBUF_SIZE then do {
          p \<leftarrow> write_byte n 0x3e p;
          n \<leftarrow> strlen_at p 0;
          write_byte (n + 1) 0 p
        } else Some p
      })"

definition shell_init :: finsh_shell where
  \<comment> \<open>zeroed memory, then the prompt is switched on, and the echo at the start of the thread\<close>
  "shell_init = \<lparr>sh_stat = WAIT_NORMAL, sh_echo_mode = True, sh_prompt_mode = True, sh_current_history = 0, sh_history_count = 0,
     sh_cmd_history = replicate FINSH_HISTORY_LINES (replicate FINSH_CMD_SIZE 0), sh_line = replicate (FINSH_CMD_SIZE + 1) 0,
     sh_line_position = 0, sh_line_curpos = 0\<rparr>"

definition history_row :: "finsh_shell \<Rightarrow> u8 list option" where
  \<comment> \<open>\<open>memset\<close>, then \<open>memcpy(row, line, line_position)\<close>\<close>
  "history_row s =
     (if unat (sh_line_position s) \<le> FINSH_CMD_SIZE
      then Some (take (unat (sh_line_position s)) (sh_line s) @ replicate (FINSH_CMD_SIZE - unat (sh_line_position s)) 0) else None)"

definition shell_push_history :: "finsh_shell \<Rightarrow> finsh_shell option" where
  "shell_push_history s = do {
     s \<leftarrow> (if sh_line_position s \<noteq> 0 then
         if unat (sh_history_count s) \<ge> FINSH_HISTORY_LINES then
           if sh_cmd_history s ! (FINSH_HISTORY_LINES - 1) \<noteq> take FINSH_CMD_SIZE (sh_line s) then do {
             row \<leftarrow> history_row s;
             Some (s\<lparr>sh_cmd_history := tl (sh_cmd_history s) @ [row], sh_history_count := of_nat FINSH_HISTORY_LINES\<rparr>)
           } else Some s
         else
           if sh_history_count s = 0 \<or> sh_cmd_history s ! unat (sh_history_count s - 1) \<noteq> take FINSH_CMD_SIZE (sh_line s) then do {
             row \<leftarrow> history_row s;
             Some (s\<lparr>sh_current_history := sh_history_count s,
               sh_cmd_history := (sh_cmd_history s)[unat (sh_history_count s) := row], sh_history_count := sh_history_count s + 1\<rparr>)
           } else Some s
       else Some s);
     Some (s\<lparr>sh_current_history := sh_history_count s\<rparr>)
   }"

definition line_end :: "finsh_shell \<Rightarrow> finsh_shell option" where
  \<comment> \<open>\<open>line_curpos = line_position = (rt_uint16_t)strlen(line)\<close>\<close>
  "line_end s = do {
     n \<leftarrow> strlen_at (sh_line s) 0;
     Some (s\<lparr>sh_line_position := of_nat n, sh_line_curpos := of_nat n\<rparr>)
   }"

definition recall :: "finsh_shell \<Rightarrow> finsh_shell option" where
  \<comment> \<open>copy the selected line of the history to the line\<close>
  "recall s = do {
     rt_assert (unat (sh_current_history s) < length (sh_cmd_history s));
     line \<leftarrow> write_bytes 0 (sh_cmd_history s ! unat (sh_current_history s)) (sh_line s);
     line_end (s\<lparr>sh_line := line\<rparr>)
   }"

definition key_up :: "finsh_shell \<Rightarrow> finsh_shell option" where
  "key_up s =
     (if sh_current_history s > 0 then recall (s\<lparr>sh_current_history := sh_current_history s - 1\<rparr>)
      else Some (s\<lparr>sh_current_history := 0\<rparr>))"

definition key_down :: "finsh_shell \<Rightarrow> finsh_shell option" where
  "key_down s =
     (if uint (sh_current_history s) < uint (sh_history_count s) - 1 then recall (s\<lparr>sh_current_history := sh_current_history s + 1\<rparr>)
      else if sh_history_count s \<noteq> 0 then recall (s\<lparr>sh_current_history := sh_history_count s - 1\<rparr>)
      else Some s)"

definition key_left :: "finsh_shell \<Rightarrow> finsh_shell" where
  "key_left s = (if sh_line_curpos s \<noteq> 0 then s\<lparr>sh_line_curpos := sh_line_curpos s - 1\<rparr> else s)"

definition key_right :: "finsh_shell \<Rightarrow> finsh_shell option" where
  "key_right s =
     (if sh_line_curpos s < sh_line_position s then do {
        c \<leftarrow> byte_at (sh_line s) (unat (sh_line_curpos s));
        Some (s\<lparr>sh_line_curpos := sh_line_curpos s + 1\<rparr>)
      } else Some s)"

definition key_tab :: "syscalls \<Rightarrow> finsh_shell \<Rightarrow> finsh_shell option" where
  \<comment> \<open>the byte in front of the line is the last one of the history\<close>
  "key_tab table s = do {
     line \<leftarrow> msh_auto_complete table (sh_line s);
     line \<leftarrow> msh_opt_auto_complete table (last (last (sh_cmd_history s))) line;
     line_end (s\<lparr>sh_line := line\<rparr>)
   }"

definition key_backspace :: "finsh_shell \<Rightarrow> finsh_shell option" where
  "key_backspace s =
     (if sh_line_curpos s = 0 then Some s
      else do {
        let s = s\<lparr>sh_line_position := sh_line_position s - 1\<rparr>;
        let s = s\<lparr>sh_line_curpos := sh_line_curpos s - 1\<rparr>;
        let pos = unat (sh_line_position s);
        let cur = unat (sh_line_curpos s);
        if pos > cur then do {
          rt_assert (pos < length (sh_line s));
          line \<leftarrow> write_bytes cur (take (pos - cur) (drop (cur + 1) (sh_line s))) (sh_line s);
          line \<leftarrow> write_byte pos 0 line;
          Some (s\<lparr>sh_line := line\<rparr>)
        } else do {
          line \<leftarrow> write_byte pos 0 (sh_line s);
          Some (s\<lparr>sh_line := line\<rparr>)
        }
      })"

definition key_enter :: "syscalls \<Rightarrow> (nat \<Rightarrow> u8 list list \<Rightarrow> int) \<Rightarrow> finsh_shell \<Rightarrow> (finsh_shell \<times> msh_event option) option" where
  "key_enter table run s = do {
     s \<leftarrow> shell_push_history s;
     (rc, ev) \<leftarrow> msh_exec table run (sh_line s) (unat (sh_line_position s));
     Some (s\<lparr>sh_line := replicate (FINSH_CMD_SIZE + 1) 0, sh_line_position := 0, sh_line_curpos := 0\<rparr>, ev)
   }"

definition key_char :: "u8 \<Rightarrow> finsh_shell \<Rightarrow> finsh_shell option" where
  "key_char ch s = do {
     let s = (if unat (sh_line_position s) \<ge> FINSH_CMD_SIZE then s\<lparr>sh_line_position := 0\<rparr> else s);
     let pos = unat (sh_line_position s);
     let cur = unat (sh_line_curpos s);
     line \<leftarrow> (if cur < pos then do {
         rt_assert (pos \<le> length (sh_line s));
         line \<leftarrow> write_bytes (cur + 1) (take (pos - cur) (drop cur (sh_line s))) (sh_line s);
         write_byte cur ch line
       } else write_byte pos ch (sh_line s));
     let s = s\<lparr>sh_line := line, sh_line_position := sh_line_position s + 1, sh_line_curpos := sh_line_curpos s + 1\<rparr>;
     Some (if unat (sh_line_position s) \<ge> FINSH_CMD_SIZE then s\<lparr>sh_line_position := 0, sh_line_curpos := 0\<rparr> else s)
   }"

definition plain_key :: "syscalls \<Rightarrow> (nat \<Rightarrow> u8 list list \<Rightarrow> int) \<Rightarrow> u8 \<Rightarrow> finsh_shell \<Rightarrow> (finsh_shell \<times> msh_event option) option" where
  \<comment> \<open>a byte that is not part of an arrow key\<close>
  "plain_key table run ch s =
     (if ch = 0 \<or> ch = 0xff then Some (s, None)
      else if ch = 0x09 then map_option (\<lambda>s. (s, None)) (key_tab table s)
      else if ch = 0x7f \<or> ch = 0x08 then map_option (\<lambda>s. (s, None)) (key_backspace s)
      else if ch = 0x0d \<or> ch = 0x0a then key_enter table run s
      else map_option (\<lambda>s. (s, None)) (key_char ch s))"

definition finsh_step :: "syscalls \<Rightarrow> (nat \<Rightarrow> u8 list list \<Rightarrow> int) \<Rightarrow> u8 \<Rightarrow> finsh_shell \<Rightarrow> (finsh_shell \<times> msh_event option) option" where
  \<comment> \<open>the body of the loop of \<open>finsh_thread_entry\<close> for one byte of input\<close>
  "finsh_step table run ch s =
     (if ch = 0x1b then Some (s\<lparr>sh_stat := WAIT_SPEC_KEY\<rparr>, None)
      else case sh_stat s of
        WAIT_SPEC_KEY \<Rightarrow>
          if ch = 0x5b \<or> ch = 0x41 \<or> ch = 0x42 \<or> ch = 0x43 \<or> ch = 0x44 then Some (s\<lparr>sh_stat := WAIT_FUNC_KEY\<rparr>, None)
          else plain_key table run ch (s\<lparr>sh_stat := WAIT_NORMAL\<rparr>)
      | WAIT_FUNC_KEY \<Rightarrow>
          (let s = s\<lparr>sh_stat := WAIT_NORMAL\<rparr>
           in if ch = 0x41 then map_option (\<lambda>s. (s, None)) (key_up s)
              else if ch = 0x42 then map_option (\<lambda>s. (s, None)) (key_down s)
              else if ch = 0x44 then Some (key_left s, None)
              else if ch = 0x43 then map_option (\<lambda>s. (s, None)) (key_right s)
              else plain_key table run ch s)
      | WAIT_NORMAL \<Rightarrow> plain_key table run ch s)"

fun finsh_run :: "syscalls \<Rightarrow> (nat \<Rightarrow> u8 list list \<Rightarrow> int) \<Rightarrow> u8 list \<Rightarrow> finsh_shell \<Rightarrow> (finsh_shell \<times> msh_event list) option" where
  \<comment> \<open>the loop over some input, with the commands it runs\<close>
  "finsh_run table run [] s = Some (s, [])"
| "finsh_run table run (ch # input) s = do {
     (s, ev) \<leftarrow> finsh_step table run ch s;
     (s, evs) \<leftarrow> finsh_run table run input s;
     Some (s, (case ev of None \<Rightarrow> evs | Some e \<Rightarrow> e # evs))
   }"


lemmas key_defs = key_up_def key_down_def key_left_def key_right_def key_backspace_def key_char_def Let_def
lemmas size_defs = FINSH_CMD_SIZE_def FINSH_HISTORY_LINES_def


subsection \<open>An abstract editor\<close>

record editor =
  ed_before :: "u8 list"
  ed_after :: "u8 list"
  ed_history :: "u8 list list"
  ed_current :: nat

abbreviation ed_text :: "editor \<Rightarrow> u8 list" where
  "ed_text e \<equiv> ed_before e @ ed_after e"

datatype key = KChar u8 | KBack | KEnter | KLeft | KRight | KUp | KDown

fun key_bytes :: "key \<Rightarrow> u8 list" where
  "key_bytes (KChar c) = [c]"
| "key_bytes KBack = [0x08]"
| "key_bytes KEnter = [0x0d]"
| "key_bytes KLeft = [0x1b, 0x5b, 0x44]"
| "key_bytes KRight = [0x1b, 0x5b, 0x43]"
| "key_bytes KUp = [0x1b, 0x5b, 0x41]"
| "key_bytes KDown = [0x1b, 0x5b, 0x42]"

definition printable :: "u8 \<Rightarrow> bool" where
  "printable c \<longleftrightarrow> c \<notin> {0, 0x08, 0x09, 0x0a, 0x0d, 0x1b, 0x7f, 0xff}"

definition remember :: "u8 list \<Rightarrow> u8 list list \<Rightarrow> u8 list list" where
  \<comment> \<open>the last five lines, without the empty ones and without repetitions\<close>
  "remember t h =
     (if t = [] \<or> (h \<noteq> [] \<and> last h = t) then h
      else if length h < FINSH_HISTORY_LINES then h @ [t] else tl h @ [t])"

definition show_line :: "nat \<Rightarrow> editor \<Rightarrow> editor" where
  "show_line i e = e\<lparr>ed_before := ed_history e ! i, ed_after := [], ed_current := i\<rparr>"

fun press :: "key \<Rightarrow> editor \<Rightarrow> editor" where
  "press (KChar c) e = e\<lparr>ed_before := ed_before e @ [c]\<rparr>"
| "press KBack e = e\<lparr>ed_before := butlast (ed_before e)\<rparr>"
| "press KLeft e = (if ed_before e = [] then e else e\<lparr>ed_before := butlast (ed_before e), ed_after := last (ed_before e) # ed_after e\<rparr>)"
| "press KRight e = (case ed_after e of [] \<Rightarrow> e | c # cs \<Rightarrow> e\<lparr>ed_before := ed_before e @ [c], ed_after := cs\<rparr>)"
| "press KUp e = (if ed_current e > 0 then show_line (ed_current e - 1) e else e)"
| "press KDown e =
     (if ed_current e + 1 < length (ed_history e) then show_line (ed_current e + 1) e
      else if ed_history e \<noteq> [] then show_line (length (ed_history e) - 1) e else e)"
| "press KEnter e =
     (let h = remember (ed_text e) (ed_history e)
      in e\<lparr>ed_before := [], ed_after := [], ed_history := h, ed_current := length h\<rparr>)"

definition command_run :: "syscalls \<Rightarrow> u8 list \<Rightarrow> msh_event list" where
  \<comment> \<open>the command of a line\<close>
  "command_run table cs =
     (if dropWhile is_blank cs = [] then []
      else case command_of table cs of
        Some c \<Rightarrow> [Ran (sc_func c) (take FINSH_ARG_MAX (args_of cs))]
      | None \<Rightarrow> [NotFound (takeWhile (\<lambda>c. c \<noteq> BLANK) (dropWhile is_blank cs))])"

definition pressed :: "syscalls \<Rightarrow> key \<Rightarrow> editor \<Rightarrow> msh_event list" where
  "pressed table k e = (if k = KEnter then command_run table (ed_text e) else [])"

fun key_fits :: "key \<Rightarrow> editor \<Rightarrow> bool" where
  "key_fits (KChar c) e \<longleftrightarrow> printable c \<and> length (ed_text e) < 79"
| "key_fits _ e \<longleftrightarrow> True"

definition pad :: "nat \<Rightarrow> u8 list \<Rightarrow> u8 list" where
  "pad n cs = cs @ replicate (n - length cs) 0"

definition text_ok :: "u8 list \<Rightarrow> bool" where
  "text_ok cs \<longleftrightarrow> 0 \<notin> set cs \<and> length cs < 80"

definition shows_editor :: "finsh_shell \<Rightarrow> editor \<Rightarrow> bool" where
  "shows_editor s e \<longleftrightarrow> sh_stat s = WAIT_NORMAL \<and> text_ok (ed_text e) \<and> sh_line s = pad 81 (ed_text e) \<and>
     unat (sh_line_position s) = length (ed_text e) \<and> unat (sh_line_curpos s) = length (ed_before e) \<and>
     (\<forall>h \<in> set (ed_history e). text_ok h \<and> h \<noteq> []) \<and> length (ed_history e) \<le> 5 \<and>
     (\<exists>rest. sh_cmd_history s = map (pad 80) (ed_history e) @ rest \<and> length (sh_cmd_history s) = 5) \<and>
     unat (sh_history_count s) = length (ed_history e) \<and> unat (sh_current_history s) = ed_current e \<and> ed_current e \<le> length (ed_history e)"

lemma unat_small: "n < 65536 \<Longrightarrow> unat (of_nat n :: u16) = n"
  by (simp add: unsigned_of_nat take_bit_nat_eq_self)

lemma uint_small: "n < 65536 \<Longrightarrow> uint (of_nat n :: u16) = int n"
  by (simp add: unsigned_of_nat take_bit_nat_eq_self)

lemma text_okD: "text_ok cs \<Longrightarrow> 0 \<notin> set cs" "text_ok cs \<Longrightarrow> length cs < 80"
  by (simp_all add: text_ok_def)

lemma length_pad [simp]: "length cs \<le> n \<Longrightarrow> length (pad n cs) = n"
  by (simp add: pad_def)

lemma pad_inject: "text_ok cs \<Longrightarrow> text_ok ds \<Longrightarrow> pad 80 cs = pad 80 ds \<longleftrightarrow> cs = ds"
proof -
  have "takeWhile (\<lambda>c. c \<noteq> 0) (pad 80 xs) = xs" if "text_ok xs" for xs
    using that by (auto simp: text_ok_def pad_def takeWhile_append)
  then show "text_ok cs \<Longrightarrow> text_ok ds \<Longrightarrow> pad 80 cs = pad 80 ds \<longleftrightarrow> cs = ds" by metis
qed

lemma pad_line: "length cs \<le> 80 \<Longrightarrow> pad 81 cs = pad 80 cs @ [0]"
  by (simp add: pad_def replicate_app_Cons_same Suc_diff_le flip: replicate_Suc)

lemma pad_end: "length cs < 81 \<Longrightarrow> \<exists>rest. pad 81 cs = cs @ 0 # rest"
  by (auto simp: pad_def intro!: exI [of _ "replicate (80 - length cs) 0"] simp flip: replicate_Suc simp: Suc_diff_le)

lemma strlen_pad: "text_ok cs \<Longrightarrow> strlen_at (pad 81 cs) 0 = Some (length cs)"
  using pad_end [of cs] by (auto simp: text_ok_def strlen_at_def cstr_at_def takeWhile_append)

definition zeros :: "u8 list \<Rightarrow> u8 list" where
  "zeros cs = replicate (80 - length cs) 0"

lemma pad_zeros: "length cs < 81 \<Longrightarrow> pad 81 cs = cs @ 0 # zeros cs"
  by (simp add: pad_def zeros_def Suc_diff_le flip: replicate_Suc)

lemma insert_byte:
  "a \<noteq> [] \<Longrightarrow> Option.bind (write_bytes (length b + 1) a (b @ a @ 0 # z)) (write_byte (length b) c) = Some (b @ c # a @ z)"
  by (cases a) (auto simp: write_bytes_def write_byte_def list_update_append)

lemma remove_byte:
  "Option.bind (write_bytes (length b) a (b @ c # a @ 0 # z)) (write_byte (length (b @ a)) 0) = Some (b @ a @ 0 # 0 # z)"
proof -
  have "write_bytes (length b) a (b @ c # a @ 0 # z) = Some (b @ a @ drop (length a) (c # a) @ 0 # z)"
    using drop_append [of "length a" "c # a" "0 # z"] by (simp add: write_bytes_def)
  moreover have "\<exists>d. drop (length a) (c # a) = [d]" by (cases a rule: rev_cases) auto
  ultimately show ?thesis by (auto simp: write_byte_def list_update_append nth_append)
qed

lemma unat16_inc: "unat x < 65535 \<Longrightarrow> unat (x + 1) = unat (x :: u16) + 1"
  by (simp add: unat_word_ariths)

lemma unat16_dec: "0 < unat x \<Longrightarrow> unat (x - 1) = unat (x :: u16) - 1"
  using unat16_inc [of "x - 1"] unat_minus_one [of x] by (cases "x = 0") auto

lemma shows_char:
  assumes sh: "shows_editor s e" and c: "printable c" and n: "length (ed_text e) < 79"
  shows "\<exists>s'. finsh_step table run c s = Some (s', None) \<and> shows_editor s' (press (KChar c) e)"
proof -
  let ?b = "ed_before e" and ?a = "ed_after e"
  let ?n = "length (ed_text e)"
  have line: "sh_line s = ?b @ ?a @ 0 # zeros (ed_text e)" using sh n pad_zeros [of "ed_text e"] by (simp add: shows_editor_def)
  have pos: "unat (sh_line_position s) = ?n" "unat (sh_line_curpos s) = length ?b" using sh by (simp_all add: shows_editor_def)
  define line' where "line' = ?b @ c # ?a @ zeros (ed_text e)"
  have l': "line' = pad 81 (?b @ c # ?a)" using n by (simp add: line'_def pad_def zeros_def)
  have w: "(if length ?b < ?n then do { line \<leftarrow> write_bytes (length ?b + 1) (take (?n - length ?b) (drop (length ?b) (sh_line s))) (sh_line s); write_byte (length ?b) c line }
      else write_byte ?n c (sh_line s)) = Some line'"
  proof (cases "?a = []")
    case True
    then show ?thesis by (simp add: line line'_def write_byte_def list_update_append)
  next
    case False
    then have "length ?b < ?n" by simp
    moreover have "take (?n - length ?b) (drop (length ?b) (sh_line s)) = ?a" by (simp add: line)
    ultimately show ?thesis using insert_byte [OF False, of ?b "zeros (ed_text e)" c] unfolding line line'_def by simp
  qed
  have p: "unat (sh_line_position s + 1) = ?n + 1" "unat (sh_line_curpos s + 1) = length ?b + 1"
    using pos n by (simp_all add: unat16_inc)
  have "key_char c s = Some (s\<lparr>sh_line := line', sh_line_position := sh_line_position s + 1, sh_line_curpos := sh_line_curpos s + 1\<rparr>)"
    using w n p(1) by (simp add: key_char_def pos Let_def size_defs line split del: if_split cong: if_cong)
  moreover have "finsh_step table run c s = map_option (\<lambda>s. (s, None)) (key_char c s)"
    using sh c by (simp add: finsh_step_def plain_key_def shows_editor_def printable_def)
  moreover have "c \<noteq> 0" using c by (simp add: printable_def)
  ultimately show ?thesis
    using sh n l' p by (auto simp: shows_editor_def text_ok_def)
qed

lemma stat_same: "sh_stat s = WAIT_NORMAL \<Longrightarrow> s\<lparr>sh_stat := WAIT_NORMAL\<rparr> = s"
  by (cases s) simp

lemma arrow_run:
  assumes "sh_stat s = WAIT_NORMAL"
  shows "finsh_run table run [0x1b, 0x5b, 0x44] s = Some (key_left s, [])"
    and "finsh_run table run [0x1b, 0x5b, 0x43] s = map_option (\<lambda>s. (s, [])) (key_right s)"
    and "finsh_run table run [0x1b, 0x5b, 0x41] s = map_option (\<lambda>s. (s, [])) (key_up s)"
    and "finsh_run table run [0x1b, 0x5b, 0x42] s = map_option (\<lambda>s. (s, [])) (key_down s)"
  using assms by (simp_all add: finsh_step_def map_option_case stat_same [OF assms] split: option.split)

lemma shows_left:
  assumes "shows_editor s e"
  shows "shows_editor (key_left s) (press KLeft e)"
proof (cases "ed_before e" rule: rev_cases)
  case Nil
  then have "sh_line_curpos s = 0" using assms by (simp add: shows_editor_def unat_eq_0)
  then show ?thesis using assms Nil by (simp add: key_left_def)
next
  case (snoc b c)
  then have "0 < unat (sh_line_curpos s)" using assms by (simp add: shows_editor_def)
  then have "sh_line_curpos s \<noteq> 0" "unat (sh_line_curpos s - 1) = length b" using assms snoc by (auto simp: shows_editor_def unat16_dec)
  then show ?thesis using assms snoc by (simp add: key_left_def shows_editor_def)
qed

lemma shows_right:
  assumes sh: "shows_editor s e"
  shows "\<exists>s'. key_right s = Some s' \<and> shows_editor s' (press KRight e)"
proof (cases "ed_after e")
  case Nil
  then have "\<not> sh_line_curpos s < sh_line_position s" using sh by (simp add: shows_editor_def word_less_nat_alt)
  then show ?thesis using sh Nil by (simp add: key_right_def)
next
  case (Cons c a)
  have lt: "sh_line_curpos s < sh_line_position s" "unat (sh_line_curpos s) < 79" using sh Cons by (auto simp: shows_editor_def word_less_nat_alt text_ok_def)
  then have "unat (sh_line_curpos s + 1) = length (ed_before e) + 1" using sh by (simp add: unat16_inc shows_editor_def)
  moreover have "byte_at (sh_line s) (unat (sh_line_curpos s)) = Some c"
    using sh Cons pad_zeros [of "ed_text e"] by (simp add: shows_editor_def text_ok_def byte_at_def)
  ultimately show ?thesis using sh Cons lt(1) by (simp add: key_right_def shows_editor_def)
qed

lemma shows_recall:
  assumes sh: "shows_editor s e" and i: "unat w = i" "i < length (ed_history e)"
  shows "\<exists>s'. recall (s\<lparr>sh_current_history := w\<rparr>) = Some s' \<and> shows_editor s' (show_line i e)"
proof -
  let ?t = "ed_history e ! i"
  have t: "text_ok ?t" using sh i(2) by (auto simp: shows_editor_def)
  have tl: "length ?t < 80" using t by (simp add: text_ok_def)
  obtain rest where h: "sh_cmd_history s = map (pad 80) (ed_history e) @ rest" "length (sh_cmd_history s) = 5" using sh by (auto simp: shows_editor_def)
  have lt: "unat w < length (sh_cmd_history s)" using i h(1) by simp
  have row: "sh_cmd_history s ! unat w = pad 80 ?t" unfolding i(1) h(1) using i(2) by (simp add: nth_append)
  have n: "length (ed_text e) < 80" using sh by (simp add: shows_editor_def text_ok_def)
  have line: "sh_line s = pad 80 (ed_text e) @ [0]" using sh n pad_line [of "ed_text e"] by (simp add: shows_editor_def)
  have "length (pad 80 (ed_text e)) = 80" by (rule length_pad) (use n in simp)
  then have set: "write_bytes 0 (pad 80 ?t) (sh_line s) = Some (pad 81 ?t)"
    unfolding line using tl pad_line [of ?t] by (simp add: write_bytes_def)
  have "unat (of_nat (length ?t) :: u16) = length ?t" by (rule unat_small) (use tl in simp)
  moreover have "recall (s\<lparr>sh_current_history := w\<rparr>) = Some (s\<lparr>sh_current_history := w, sh_line := pad 81 ?t,
      sh_line_position := of_nat (length ?t), sh_line_curpos := of_nat (length ?t)\<rparr>)"
    using lt row set strlen_pad [OF t] by (simp add: recall_def line_end_def)
  ultimately show ?thesis using sh i h t by (auto simp: shows_editor_def show_line_def)
qed

lemma shows_up:
  assumes sh: "shows_editor s e"
  shows "\<exists>s'. key_up s = Some s' \<and> shows_editor s' (press KUp e)"
proof (cases "ed_current e")
  case 0
  then have "sh_current_history s = 0" using sh by (simp add: shows_editor_def unat_eq_0)
  then show ?thesis using sh 0 by (simp add: key_up_def shows_editor_def)
next
  case (Suc i)
  then have "0 < unat (sh_current_history s)" using sh by (simp add: shows_editor_def)
  then have "sh_current_history s > 0" "unat (sh_current_history s - 1) = i" using sh Suc by (auto simp: shows_editor_def unat16_dec word_gt_0)
  moreover have "i < length (ed_history e)" using sh Suc by (simp add: shows_editor_def)
  ultimately show ?thesis using shows_recall [OF sh, of "sh_current_history s - 1" i] Suc by (simp add: key_up_def)
qed

lemma shows_down:
  assumes sh: "shows_editor s e"
  shows "\<exists>s'. key_down s = Some s' \<and> shows_editor s' (press KDown e)"
proof -
  have u: "unat (sh_current_history s) = ed_current e" "unat (sh_history_count s) = length (ed_history e)" "length (ed_history e) \<le> 5" "ed_current e \<le> 5"
    using sh by (simp_all add: shows_editor_def)
  have c: "uint (sh_current_history s) < uint (sh_history_count s) - 1 \<longleftrightarrow> ed_current e + 1 < length (ed_history e)"
    using u(1,2) by (simp add: uint_nat) linarith
  consider "ed_current e + 1 < length (ed_history e)" | "\<not> ed_current e + 1 < length (ed_history e)" "ed_history e \<noteq> []" | "ed_history e = []"
    by auto
  then show ?thesis
  proof cases
    case 1
    have "unat (sh_current_history s + 1) = ed_current e + 1" using u by (simp add: unat16_inc)
    then show ?thesis using shows_recall [OF sh, of "sh_current_history s + 1" "ed_current e + 1"] 1 c by (simp add: key_down_def)
  next
    case 2
    then have "0 < unat (sh_history_count s)" using u by simp
    then have "sh_history_count s \<noteq> 0" "unat (sh_history_count s - 1) = length (ed_history e) - 1" using u by (auto simp: unat16_dec)
    then show ?thesis using shows_recall [OF sh, of "sh_history_count s - 1" "length (ed_history e) - 1"] 2 c by (simp add: key_down_def)
  next
    case 3
    then have "sh_history_count s = 0" using u by (simp add: unat_eq_0)
    then show ?thesis using sh 3 c by (simp add: key_down_def)
  qed
qed

lemma shows_back:
  assumes sh: "shows_editor s e"
  shows "\<exists>s'. key_backspace s = Some s' \<and> shows_editor s' (press KBack e)"
proof (cases "ed_before e" rule: rev_cases)
  case Nil
  then have "sh_line_curpos s = 0" using sh by (simp add: shows_editor_def unat_eq_0)
  then show ?thesis using sh Nil by (simp add: key_backspace_def shows_editor_def)
next
  case (snoc b c)
  let ?a = "ed_after e" and ?z = "zeros (ed_text e)"
  have u: "unat (sh_line_position s) = length b + 1 + length ?a" "unat (sh_line_curpos s) = length b + 1" and n: "length b + 1 + length ?a < 80"
    using sh snoc by (simp_all add: shows_editor_def text_ok_def)
  then have nz: "sh_line_curpos s \<noteq> 0" by auto
  have p: "unat (sh_line_position s - 1) = length (b @ ?a)" "unat (sh_line_curpos s - 1) = length b" using u by (simp_all add: unat16_dec)
  have line: "sh_line s = b @ c # ?a @ 0 # ?z" using sh n pad_zeros [of "ed_text e"] snoc by (simp add: shows_editor_def)
  have l': "b @ ?a @ 0 # 0 # ?z = pad 81 (b @ ?a)" using n snoc by (simp add: pad_def zeros_def Suc_diff_le flip: replicate_Suc)
  let ?s = "s\<lparr>sh_line_position := sh_line_position s - 1, sh_line_curpos := sh_line_curpos s - 1, sh_line := pad 81 (b @ ?a)\<rparr>"
  have "key_backspace s = Some ?s"
  proof (cases "?a = []")
    case True
    then show ?thesis using nz p l' by (simp add: key_backspace_def Let_def line write_byte_def list_update_append)
  next
    case False
    have "take (length ?a) (drop (length b + 1) (sh_line s)) = ?a" by (simp add: line)
    moreover obtain l1 where "write_bytes (length b) ?a (b @ c # ?a @ 0 # ?z) = Some l1" "write_byte (length (b @ ?a)) 0 l1 = Some (b @ ?a @ 0 # 0 # ?z)"
      using remove_byte [of b ?a c ?z] by (auto simp: bind_eq_Some_conv)
    ultimately show ?thesis using nz p l' False unfolding line by (simp add: key_backspace_def Let_def line)
  qed
  moreover have "shows_editor ?s (press KBack e)" using sh snoc p by (auto simp: shows_editor_def text_ok_def)
  ultimately show ?thesis by blast
qed

lemma length_map_pad: "\<forall>h \<in> set hs. length h < 80 \<Longrightarrow> \<forall>r \<in> set (map (pad 80) hs). length r = 80"
  by (auto simp: pad_def)

lemma shows_history:
  assumes sh: "shows_editor s e"
  shows "\<exists>s'. shell_push_history s = Some s' \<and> sh_line s' = sh_line s \<and> sh_line_position s' = sh_line_position s \<and> sh_line_curpos s' = sh_line_curpos s \<and>
    shows_editor s' (e\<lparr>ed_history := remember (ed_text e) (ed_history e), ed_current := length (remember (ed_text e) (ed_history e))\<rparr>)"
proof -
  let ?t = "ed_text e" and ?h = "ed_history e"
  have t: "text_ok ?t" "length ?t < 80" and pos: "unat (sh_line_position s) = length ?t" and cnt: "unat (sh_history_count s) = length ?h"
    and h: "\<forall>x \<in> set ?h. text_ok x \<and> x \<noteq> []" "length ?h \<le> 5"
    using sh by (simp_all add: shows_editor_def text_ok_def)
  obtain rest where rest: "sh_cmd_history s = map (pad 80) ?h @ rest" "length (sh_cmd_history s) = 5" using sh by (auto simp: shows_editor_def)
  have line: "take 80 (sh_line s) = pad 80 ?t" using sh t pad_line [of ?t] by (simp add: shows_editor_def pad_def)
  have row: "history_row s = Some (pad 80 ?t)" using t pos pad_zeros [of ?t] sh by (simp add: history_row_def size_defs shows_editor_def pad_def)
  have old: "sh_cmd_history s ! (length ?h - 1) = pad 80 ?t \<longleftrightarrow> last ?h = ?t" if "?h \<noteq> []"
  proof -
    have "sh_cmd_history s ! (length ?h - 1) = pad 80 (last ?h)" using that by (simp add: rest(1) nth_append last_conv_nth)
    then show ?thesis using pad_inject [of "last ?h" ?t] h(1) t(1) that by simp
  qed
  show ?thesis
  proof (cases "?t = []")
    case True
    then have "sh_line_position s = 0" using pos by (simp add: unat_eq_0)
    then show ?thesis using sh True cnt by (simp add: shell_push_history_def remember_def shows_editor_def)
  next
    case ne: False
    then have p: "sh_line_position s \<noteq> 0" using pos by (auto simp: unat_eq_0)
    show ?thesis
    proof (cases "?h \<noteq> [] \<and> last ?h = ?t")
      case True
      have c: "unat (sh_history_count s - 1) = length ?h - 1" "sh_history_count s \<noteq> 0" using True cnt by (auto simp: unat16_dec)
      have "shell_push_history s = Some (s\<lparr>sh_current_history := sh_history_count s\<rparr>)"
        using p True old c cnt h(2) by (auto simp: shell_push_history_def size_defs line)
      then show ?thesis using sh True cnt by (simp add: remember_def shows_editor_def)
    next
      case new: False
      show ?thesis
      proof (cases "length ?h < 5")
        case True
        have c: "unat (sh_history_count s + 1) = length ?h + 1" using cnt h(2) by (simp add: unat16_inc)
        have cond: "sh_history_count s = 0 \<or> sh_cmd_history s ! unat (sh_history_count s - 1) \<noteq> take 80 (sh_line s)"
        proof (cases "?h = []")
          case False
          then show ?thesis using old new cnt line by (simp add: unat16_dec)
        qed (use cnt in \<open>simp add: unat_eq_0\<close>)
        obtain r0 rs where r: "rest = r0 # rs" using rest True by (cases rest) auto
        have upd: "(sh_cmd_history s)[length ?h := pad 80 ?t] = map (pad 80) (?h @ [?t]) @ rs"
          by (simp add: rest(1) r list_update_append)
        let ?s = "s\<lparr>sh_current_history := sh_history_count s + 1, sh_cmd_history := map (pad 80) (?h @ [?t]) @ rs, sh_history_count := sh_history_count s + 1\<rparr>"
        have "shell_push_history s = Some ?s"
          using p cond row True cnt upd by (simp add: shell_push_history_def size_defs)
        moreover have "remember ?t ?h = ?h @ [?t]" using ne new True by (auto simp: remember_def size_defs)
        moreover have "shows_editor ?s (e\<lparr>ed_history := ?h @ [?t], ed_current := length (?h @ [?t])\<rparr>)"
          using sh c t(1) ne True rest r by (auto simp: shows_editor_def)
        ultimately show ?thesis by (intro exI [of _ ?s]) simp
      next
        case False
        then have five: "length ?h = 5" "rest = []" using h(2) rest by auto
        have c: "unat (5 :: u16) = 5" by simp
        have hne: "?h \<noteq> []" using five(1) by auto
        let ?s = "s\<lparr>sh_current_history := 5, sh_cmd_history := map (pad 80) (tl ?h @ [?t]), sh_history_count := 5\<rparr>"
        have "sh_cmd_history s ! 4 \<noteq> take 80 (sh_line s)" using old [OF hne] new hne five(1) line by auto
        moreover have "tl (sh_cmd_history s) = map (pad 80) (tl ?h)" using rest(1) five by (simp add: map_tl)
        ultimately have "shell_push_history s = Some ?s"
          using p row five cnt by (simp add: shell_push_history_def size_defs)
        moreover have "remember ?t ?h = tl ?h @ [?t]" using ne new five by (auto simp: remember_def size_defs)
        moreover have "shows_editor ?s (e\<lparr>ed_history := tl ?h @ [?t], ed_current := length (tl ?h @ [?t])\<rparr>)"
          using sh c t(1) ne five h(1) by (auto simp: shows_editor_def dest: list.set_sel(2) [rotated])
        ultimately show ?thesis by (intro exI [of _ ?s]) simp
      qed
    qed
  qed
qed

lemma shows_enter:
  assumes sh: "shows_editor s e" and tab: "table_ok table"
  shows "\<exists>s'. finsh_run table run [0x0d] s = Some (s', command_run table (ed_text e)) \<and> shows_editor s' (press KEnter e)"
proof -
  let ?t = "ed_text e" and ?h = "remember (ed_text e) (ed_history e)"
  have t: "text_ok ?t" "0 \<notin> set ?t" "length ?t < 81" using sh by (simp_all add: shows_editor_def text_ok_def)
  obtain s' where s': "shell_push_history s = Some s'" "sh_line s' = sh_line s" "sh_line_position s' = sh_line_position s"
      "shows_editor s' (e\<lparr>ed_history := ?h, ed_current := length ?h\<rparr>)"
    using shows_history [OF sh] by auto
  have line: "sh_line s' = ?t @ 0 # zeros ?t" "unat (sh_line_position s') = length ?t" using sh s'(2,3) pad_zeros [OF t(3)] by (simp_all add: shows_editor_def)
  let ?s = "s'\<lparr>sh_line := replicate 81 0, sh_line_position := 0, sh_line_curpos := 0\<rparr>"
  have "shows_editor ?s (press KEnter e)"
    using s'(4) by (auto simp: shows_editor_def Let_def text_ok_def pad_def)
  moreover have "finsh_run table run [0x0d] s = Some (?s, command_run table ?t)"
  proof -
    have st: "finsh_step table run 0x0d s = key_enter table run s" using sh by (simp add: finsh_step_def plain_key_def shows_editor_def)
    show ?thesis
      using msh_exec_runs [OF tab t(2), of run "zeros ?t"] line
      by (cases "command_of table ?t") (auto simp: st key_enter_def s'(1) command_run_def size_defs Let_def)
  qed
  ultimately show ?thesis by blast
qed

lemma shows_key:
  assumes sh: "shows_editor s e" and tab: "table_ok table" and fit: "key_fits k e"
  shows "\<exists>s'. finsh_run table run (key_bytes k) s = Some (s', pressed table k e) \<and> shows_editor s' (press k e)"
proof (cases k)
  case (KChar c)
  then show ?thesis using shows_char [OF sh, of c table run] fit by (auto simp: pressed_def)
next
  case KBack
  have "finsh_step table run 0x08 s = map_option (\<lambda>s. (s, None)) (key_backspace s)"
    using sh by (simp add: finsh_step_def plain_key_def shows_editor_def)
  then show ?thesis using shows_back [OF sh] KBack by (auto simp: pressed_def)
next
  case KEnter
  then show ?thesis using shows_enter [OF sh tab] by (simp add: pressed_def)
next
  case KLeft
  then show ?thesis using shows_left [OF sh] arrow_run [of s table run] sh by (simp add: pressed_def shows_editor_def [of s])
next
  case KRight
  then show ?thesis using shows_right [OF sh] arrow_run [of s table run] sh by (auto simp: pressed_def shows_editor_def [of s])
next
  case KUp
  then show ?thesis using shows_up [OF sh] arrow_run [of s table run] sh by (auto simp: pressed_def shows_editor_def [of s])
next
  case KDown
  then show ?thesis using shows_down [OF sh] arrow_run [of s table run] sh by (auto simp: pressed_def shows_editor_def [of s])
qed

lemma finsh_run_append:
  "finsh_run table run (xs @ ys) s = do {
     (s, evs) \<leftarrow> finsh_run table run xs s;
     (s, evs') \<leftarrow> finsh_run table run ys s;
     Some (s, evs @ evs')
   }"
proof (induction xs arbitrary: s)
  case Nil
  show ?case by (cases "finsh_run table run ys s") auto
next
  case (Cons x xs)
  show ?case
  proof (cases "finsh_step table run x s")
    case (Some r)
    then show ?thesis using Cons [of "fst r"]
      by (cases r; cases "finsh_run table run xs (fst r)") (auto split: option.splits bind_splits)
  qed simp
qed

fun press_all :: "syscalls \<Rightarrow> key list \<Rightarrow> editor \<Rightarrow> editor \<times> msh_event list" where
  "press_all table [] e = (e, [])"
| "press_all table (k # ks) e = (let (e', evs) = press_all table ks (press k e) in (e', pressed table k e @ evs))"

fun all_fit :: "key list \<Rightarrow> editor \<Rightarrow> bool" where
  "all_fit [] e \<longleftrightarrow> True"
| "all_fit (k # ks) e \<longleftrightarrow> key_fits k e \<and> all_fit ks (press k e)"

lemma shows_keys:
  assumes "shows_editor s e" and "table_ok table" and "all_fit ks e"
  shows "\<exists>s'. finsh_run table run (concat (map key_bytes ks)) s = Some (s', snd (press_all table ks e)) \<and> shows_editor s' (fst (press_all table ks e))"
  using assms(1,3)
proof (induction ks arbitrary: s e)
  case (Cons k ks)
  obtain s1 where s1: "finsh_run table run (key_bytes k) s = Some (s1, pressed table k e)" "shows_editor s1 (press k e)"
    using shows_key [OF Cons.prems(1) assms(2), of k run] Cons.prems(2) by auto
  from Cons.IH [OF s1(2)] Cons.prems(2) obtain s' where
    "finsh_run table run (concat (map key_bytes ks)) s1 = Some (s', snd (press_all table ks (press k e)))" "shows_editor s' (fst (press_all table ks (press k e)))" by auto
  then show ?case using s1(1) by (auto simp: finsh_run_append split: prod.split)
qed simp

text \<open>
  C22. The editor implements an abstract editor: as long as no line grows to 80 characters, any sequence of printable characters, backspace, cursor keys, history keys and
  Enter shows the text, the cursor and the history the abstract editor has, and runs exactly the commands of the lines that were entered.
\<close>
theorem finsh_editor_refines:
  assumes "shows_editor s e" and "table_ok table" and "all_fit ks e"
  shows "\<exists>s'. finsh_run table run (concat (map key_bytes ks)) s = Some (s', snd (press_all table ks e)) \<and> shows_editor s' (fst (press_all table ks e))"
  using assms by (rule shows_keys)

definition blank_editor :: editor where
  "blank_editor = \<lparr>ed_before = [], ed_after = [], ed_history = [], ed_current = 0\<rparr>"

lemma shows_init: "shows_editor shell_init blank_editor"
  by (simp add: shows_editor_def shell_init_def blank_editor_def text_ok_def pad_def size_defs)

definition demo_keys :: "key list" where
  \<comment> \<open>\<open>ps\<close>, Enter, \<open>x\<close>, cursor left, \<open>y\<close>, history up, Enter\<close>
  "demo_keys = [KChar 112, KChar 115, KEnter, KChar 120, KLeft, KChar 121, KUp, KEnter]"

theorem finsh_editor_refines_witness:
  "\<exists>s'. finsh_run demo_table (\<lambda>f args. 0) (concat (map key_bytes demo_keys)) shell_init = Some (s', [Ran 1 [[112, 115]], Ran 1 [[112, 115]]]) \<and>
     shows_editor s' \<lparr>ed_before = [], ed_after = [], ed_history = [[112, 115]], ed_current = 1\<rparr>"
proof -
  have f: "all_fit demo_keys blank_editor" by code_simp
  have p: "press_all demo_table demo_keys blank_editor =
      (\<lparr>ed_before = [], ed_after = [], ed_history = [[112, 115]], ed_current = 1\<rparr>, [Ran 1 [[112, 115]], Ran 1 [[112, 115]]])" by code_simp
  show ?thesis using finsh_editor_refines [OF shows_init demo_table_ok f, of "\<lambda>f args. 0", unfolded p] by simp
qed


subsection \<open>Staying inside the line\<close>

definition row_ok :: "u8 list \<Rightarrow> bool" where
  "row_ok row \<longleftrightarrow> length row = 80 \<and> row ! 79 = 0"

definition shell_ok :: "finsh_shell \<Rightarrow> bool" where
  "shell_ok s \<longleftrightarrow> length (sh_line s) = 81 \<and> sh_line s ! 80 = 0 \<and> unat (sh_line_position s) \<le> 79 \<and> unat (sh_line_curpos s) \<le> unat (sh_line_position s) \<and>
     0 \<notin> set (take (unat (sh_line_position s)) (sh_line s)) \<and> length (sh_cmd_history s) = 5 \<and> (\<forall>row \<in> set (sh_cmd_history s). row_ok row) \<and>
     unat (sh_history_count s) \<le> 5 \<and> unat (sh_current_history s) \<le> unat (sh_history_count s)"

lemma shell_okD:
  assumes "shell_ok s"
  shows "length (sh_line s) = 81" "sh_line s ! 80 = 0" "unat (sh_line_position s) \<le> 79" "unat (sh_line_curpos s) \<le> unat (sh_line_position s)"
    "0 \<notin> set (take (unat (sh_line_position s)) (sh_line s))" "length (sh_cmd_history s) = 5" "\<forall>row \<in> set (sh_cmd_history s). row_ok row"
    "unat (sh_history_count s) \<le> 5" "unat (sh_current_history s) \<le> unat (sh_history_count s)"
  using assms by (simp_all add: shell_ok_def)

lemma ok_char:
  assumes ok: "shell_ok s" and c: "c \<noteq> 0"
  shows "\<exists>s'. key_char c s = Some s' \<and> shell_ok s'"
proof -
  note D = shell_okD [OF ok]
  define p q where "p = unat (sh_line_position s)" and "q = unat (sh_line_curpos s)"
  have pq: "p \<le> 79" "q \<le> p" using D(3,4) by (simp_all add: p_def q_def)
  let ?l = "sh_line s"
  define l where "l = take q ?l @ c # take (p - q) (drop q ?l) @ drop (p + 1) ?l"
  have len: "length l = 81" using D(1) pq by (simp add: l_def)
  have "\<not> 79 - q < p - q" using pq by linarith
  then have l80: "l ! 80 = 0" using D(1,2) pq by (simp add: l_def nth_append)
  have tl: "take (p + 1) l = take q ?l @ c # take (p - q) (drop q ?l)"
    using D(1) pq by (simp add: l_def Suc_diff_le)
  have "set (take q ?l) \<subseteq> set (take p ?l)" "set (take (p - q) (drop q ?l)) \<subseteq> set (take p ?l)"
    using pq by (simp_all add: set_take_subset_set_take take_drop set_drop_subset)
  then have z: "0 \<notin> set (take (p + 1) l)" unfolding tl using D(5) c by (auto simp: p_def)
  have w: "(if q < p then do { line \<leftarrow> write_bytes (q + 1) (take (p - q) (drop q ?l)) ?l; write_byte q c line } else write_byte p c ?l) = Some l"
  proof (cases "q < p")
    case True
    have "write_bytes (q + 1) (take (p - q) (drop q ?l)) ?l = Some (take (q + 1) ?l @ take (p - q) (drop q ?l) @ drop (p + 1) ?l)"
      using D(1) pq by (simp add: write_bytes_def min_def)
    moreover have "write_byte q c (take (q + 1) ?l @ take (p - q) (drop q ?l) @ drop (p + 1) ?l) = Some l"
      using D(1) pq by (simp add: write_byte_def l_def list_update_append take_Suc_conv_app_nth)
    ultimately show ?thesis using True by simp
  next
    case False
    then have "q = p" using pq by simp
    then show ?thesis using D(1) pq by (simp add: l_def write_byte_def upd_conv_take_nth_drop)
  qed
  have u: "unat (sh_line_position s + 1) = p + 1" "unat (sh_line_curpos s + 1) = q + 1" using pq by (simp_all add: unat16_inc p_def [symmetric] q_def [symmetric])
  let ?s = "s\<lparr>sh_line := l, sh_line_position := sh_line_position s + 1, sh_line_curpos := sh_line_curpos s + 1\<rparr>"
  have k: "key_char c s = Some (if p + 1 \<ge> 80 then ?s\<lparr>sh_line_position := 0, sh_line_curpos := 0\<rparr> else ?s)"
    using w pq D(1) by (simp add: key_char_def size_defs Let_def p_def [symmetric] q_def [symmetric] u cong: if_cong split del: if_split)
  show ?thesis
    unfolding k using ok len l80 z pq u by (auto simp: shell_ok_def)
qed

lemma ok_backspace:
  assumes ok: "shell_ok s"
  shows "\<exists>s'. key_backspace s = Some s' \<and> shell_ok s'"
proof (cases "sh_line_curpos s = 0")
  case True
  then show ?thesis using ok by (simp add: key_backspace_def)
next
  case False
  note D = shell_okD [OF ok]
  define p q where "p = unat (sh_line_position s) - 1" and "q = unat (sh_line_curpos s) - 1"
  have "unat (sh_line_curpos s) \<noteq> 0" using False by (simp add: unat_eq_0)
  then have pos: "0 < unat (sh_line_curpos s)" "0 < unat (sh_line_position s)" using D(4) by linarith+
  have pq: "p \<le> 78" "q \<le> p" "unat (sh_line_position s) = p + 1" using D(3,4) pos by (simp_all add: p_def q_def)
  have u: "unat (sh_line_position s - 1) = p" "unat (sh_line_curpos s - 1) = q" using pos by (simp_all add: unat16_dec p_def q_def)
  let ?l = "sh_line s"
  define l where "l = take q ?l @ take (p - q) (drop (q + 1) ?l) @ 0 # drop (p + 1) ?l"
  have len: "length l = 81" using D(1) pq by (simp add: l_def)
  have "\<not> 80 - q < p - q" using pq by linarith
  then have l80: "l ! 80 = 0" using D(1,2) pq by (simp add: l_def nth_append)
  have tl: "take p l = take q ?l @ take (p - q) (drop (q + 1) ?l)" using D(1) pq by (simp add: l_def)
  have "set (take q ?l) \<subseteq> set (take (p + 1) ?l)" "set (take (p - q) (drop (q + 1) ?l)) \<subseteq> set (take (p + 1) ?l)"
    using pq by (simp_all add: set_take_subset_set_take take_drop set_drop_subset)
  then have z: "0 \<notin> set (take p l)" unfolding tl using D(5) pq(3) by auto
  let ?s = "s\<lparr>sh_line_position := sh_line_position s - 1, sh_line_curpos := sh_line_curpos s - 1, sh_line := l\<rparr>"
  have "key_backspace s = Some ?s"
  proof (cases "q < p")
    case True
    have "write_bytes q (take (p - q) (drop (q + 1) ?l)) ?l = Some (take q ?l @ take (p - q) (drop (q + 1) ?l) @ drop p ?l)"
      using D(1) pq by (simp add: write_bytes_def min_def)
    moreover have "write_byte p 0 (take q ?l @ take (p - q) (drop (q + 1) ?l) @ drop p ?l) = Some l"
      using D(1) pq by (simp add: write_byte_def l_def list_update_append Cons_nth_drop_Suc [symmetric])
    ultimately show ?thesis using False True D(1) pq by (simp add: key_backspace_def Let_def u)
  next
    case f: False
    then have "q = p" using pq by simp
    then have "write_byte p 0 ?l = Some l" using D(1) pq by (simp add: l_def write_byte_def upd_conv_take_nth_drop)
    then show ?thesis using False f by (simp add: key_backspace_def Let_def u)
  qed
  moreover have "shell_ok ?s" using ok len l80 z pq u by (simp add: shell_ok_def)
  ultimately show ?thesis by blast
qed

lemma ok_recall:
  assumes ok: "shell_ok s" and w: "unat w < 5" "unat w \<le> unat (sh_history_count s)"
  shows "\<exists>s'. recall (s\<lparr>sh_current_history := w\<rparr>) = Some s' \<and> shell_ok s'"
proof -
  note D = shell_okD [OF ok]
  define row where "row = sh_cmd_history s ! unat w"
  have r: "length row = 80" "row ! 79 = 0" using D(6,7) w(1) by (simp_all add: row_def row_ok_def)
  have "length (drop 80 (sh_line s)) = 1" "drop 80 (sh_line s) ! 0 = 0" using D(1,2) by simp_all
  then have "drop 80 (sh_line s) = [0]" by (cases "drop 80 (sh_line s)") auto
  then have set: "write_bytes 0 row (sh_line s) = Some (row @ [0])" using r D(1) by (simp add: write_bytes_def)
  let ?n = "length (takeWhile (\<lambda>c. c \<noteq> 0) row)"
  have "?n \<le> 79"
  proof (rule ccontr)
    assume "\<not> ?n \<le> 79"
    then have k: "79 < ?n" by simp
    have "takeWhile (\<lambda>c. c \<noteq> 0) row ! 79 = 0" unfolding takeWhile_nth [OF k] by (rule r(2))
    then show False using nth_mem [OF k] set_takeWhileD by metis
  qed
  moreover have t: "takeWhile (\<lambda>c. c \<noteq> 0) (row @ [0]) = takeWhile (\<lambda>c. c \<noteq> 0) row"
    by (induction row) auto
  ultimately have n: "strlen_at (row @ [0]) 0 = Some ?n" "?n \<le> 79" by (simp_all add: strlen_at_def cstr_at_def)
  have u: "unat (of_nat ?n :: u16) = ?n" by (rule unat_small) (use n(2) in simp)
  have "take ?n (row @ [0]) = takeWhile (\<lambda>c. c \<noteq> 0) row" using t by (metis takeWhile_eq_take)
  then have z: "0 \<notin> set (take ?n (row @ [0]))" using set_takeWhileD by fastforce
  let ?s = "s\<lparr>sh_current_history := w, sh_line := row @ [0], sh_line_position := of_nat ?n, sh_line_curpos := of_nat ?n\<rparr>"
  have "recall (s\<lparr>sh_current_history := w\<rparr>) = Some ?s"
    using w(1) D(6) set n(1) by (simp add: recall_def line_end_def row_def)
  moreover have "shell_ok ?s" using ok r u n(2) z w(2) by (simp add: shell_ok_def nth_append)
  ultimately show ?thesis by blast
qed

lemma ok_push:
  assumes ok: "shell_ok s"
  shows "\<exists>s'. shell_push_history s = Some s' \<and> shell_ok s' \<and> sh_line s' = sh_line s \<and> sh_line_position s' = sh_line_position s"
proof -
  note D = shell_okD [OF ok]
  let ?p = "unat (sh_line_position s)"
  define row where "row = take ?p (sh_line s) @ replicate (80 - ?p) 0"
  have row: "history_row s = Some row" using D(3) by (simp add: history_row_def size_defs row_def)
  have r: "row_ok row" using D(1,3) by (auto simp: row_ok_def row_def nth_append)
  have up: "shell_ok (s'\<lparr>sh_current_history := sh_history_count s'\<rparr>)" if "shell_ok s'" for s' using that by (simp add: shell_ok_def)
  let ?full = "s\<lparr>sh_cmd_history := tl (sh_cmd_history s) @ [row], sh_history_count := of_nat 5\<rparr>"
  let ?more = "s\<lparr>sh_current_history := sh_history_count s, sh_cmd_history := (sh_cmd_history s)[unat (sh_history_count s) := row],
    sh_history_count := sh_history_count s + 1\<rparr>"
  have "\<forall>x \<in> set (tl (sh_cmd_history s)). row_ok x" using D(6,7) by (cases "sh_cmd_history s") auto
  then have full: "shell_ok ?full" using ok r D(6,8,9) by (auto simp: shell_ok_def)
  have more: "shell_ok ?more" if "unat (sh_history_count s) < 5"
  proof -
    have "\<forall>x \<in> set ((sh_cmd_history s)[unat (sh_history_count s) := row]). row_ok x" using D(7) r set_update_subset_insert by fastforce
    moreover have "unat (sh_history_count s + 1) = unat (sh_history_count s) + 1" using that by (simp add: unat16_inc)
    ultimately show ?thesis using ok that by (simp add: shell_ok_def)
  qed
  have "shell_push_history s = Some (s\<lparr>sh_current_history := sh_history_count s\<rparr>) \<or>
      shell_push_history s = Some (?full\<lparr>sh_current_history := sh_history_count ?full\<rparr>) \<or>
      shell_push_history s = Some (?more\<lparr>sh_current_history := sh_history_count ?more\<rparr>) \<and> unat (sh_history_count s) < 5"
    unfolding shell_push_history_def row size_defs by simp
  then show ?thesis
  proof (elim disjE conjE)
    assume "shell_push_history s = Some (s\<lparr>sh_current_history := sh_history_count s\<rparr>)"
    then show ?thesis using up [OF ok] by simp
  next
    assume "shell_push_history s = Some (?full\<lparr>sh_current_history := sh_history_count ?full\<rparr>)"
    then show ?thesis using up [OF full] by simp
  next
    assume "shell_push_history s = Some (?more\<lparr>sh_current_history := sh_history_count ?more\<rparr>)" "unat (sh_history_count s) < 5"
    then show ?thesis using up [OF more] by simp
  qed
qed

lemma ok_enter:
  assumes ok: "shell_ok s" and tab: "table_ok table"
  shows "\<exists>s' ev. key_enter table run s = Some (s', ev) \<and> shell_ok s'"
proof -
  obtain s' where s': "shell_push_history s = Some s'" "shell_ok s'" using ok_push [OF ok] by blast
  note D = shell_okD [OF s'(2)]
  let ?p = "unat (sh_line_position s')"
  have line: "sh_line s' = take ?p (sh_line s') @ drop ?p (sh_line s')" by simp
  have "drop ?p (sh_line s') ! (80 - ?p) = 0" "80 - ?p < length (drop ?p (sh_line s'))" using D(1-3) by simp_all
  then have z: "0 \<in> set (drop ?p (sh_line s'))" using nth_mem by metis
  have "\<exists>r. msh_exec table run (take ?p (sh_line s') @ drop ?p (sh_line s')) (length (take ?p (sh_line s'))) = Some r"
    by (rule msh_exec_total [OF tab D(5) z]) (use D(1,3) in simp)
  moreover have "length (take ?p (sh_line s')) = ?p" using D(1,3) by simp
  ultimately obtain rc ev where e: "msh_exec table run (sh_line s') ?p = Some (rc, ev)" by auto
  have "shell_ok (s'\<lparr>sh_line := replicate 81 0, sh_line_position := 0, sh_line_curpos := 0\<rparr>)" using s'(2) by (simp add: shell_ok_def)
  then show ?thesis using s'(1) e by (simp add: key_enter_def size_defs)
qed

lemma ok_stat: "shell_ok (s\<lparr>sh_stat := x\<rparr>) = shell_ok s"
  by (simp add: shell_ok_def)

lemma ok_plain:
  assumes ok: "shell_ok s" and tab: "table_ok table" and c: "c \<noteq> 0x09"
  shows "\<exists>s' ev. plain_key table run c s = Some (s', ev) \<and> shell_ok s'"
proof (cases "c = 0")
  case True
  then show ?thesis using ok by (simp add: plain_key_def)
next
  case False
  then show ?thesis
    using ok c ok_backspace [OF ok] ok_enter [OF ok tab, of run] ok_char [OF ok False] by (auto simp: plain_key_def)
qed

lemma ok_left: "shell_ok s \<Longrightarrow> shell_ok (key_left s)"
proof -
  assume ok: "shell_ok s"
  have "unat (sh_line_curpos s - 1) = unat (sh_line_curpos s) - 1" if "sh_line_curpos s \<noteq> 0"
    using that by (intro unat16_dec) (simp add: unat_gt_0)
  then show "shell_ok (key_left s)" using ok by (auto simp: key_left_def shell_ok_def)
qed

lemma ok_right: "shell_ok s \<Longrightarrow> \<exists>s'. key_right s = Some s' \<and> shell_ok s'"
proof -
  assume ok: "shell_ok s"
  note D = shell_okD [OF ok]
  have "unat (sh_line_curpos s + 1) = unat (sh_line_curpos s) + 1" using D(3,4) by (intro unat16_inc) simp
  then show ?thesis using ok D(1,3,4) by (auto simp: key_right_def shell_ok_def byte_at_def word_less_nat_alt)
qed

lemma ok_up:
  assumes ok: "shell_ok s"
  shows "\<exists>s'. key_up s = Some s' \<and> shell_ok s'"
proof (cases "sh_current_history s = 0")
  case True
  then show ?thesis using ok by (simp add: key_up_def shell_ok_def)
next
  case False
  then have p: "0 < unat (sh_current_history s)" by (simp add: unat_gt_0)
  have "unat (sh_current_history s - 1) < 5" "unat (sh_current_history s - 1) \<le> unat (sh_history_count s)"
    using shell_okD(8,9) [OF ok] p by (simp_all add: unat16_dec)
  from ok_recall [OF ok this] show ?thesis using False by (simp add: key_up_def word_gt_0)
qed

lemma ok_down:
  assumes ok: "shell_ok s"
  shows "\<exists>s'. key_down s = Some s' \<and> shell_ok s'"
proof -
  note D = shell_okD [OF ok]
  show ?thesis
  proof (cases "uint (sh_current_history s) < uint (sh_history_count s) - 1")
    case True
    then have "int (unat (sh_current_history s)) < int (unat (sh_history_count s)) - 1" unfolding uint_nat .
    then have lt: "unat (sh_current_history s) + 1 < unat (sh_history_count s)" by linarith
    have "unat (sh_current_history s + 1) = unat (sh_current_history s) + 1" by (rule unat16_inc) (use lt D(8) in linarith)
    then have "unat (sh_current_history s + 1) < 5" "unat (sh_current_history s + 1) \<le> unat (sh_history_count s)"
      using D(8) lt by linarith+
    from ok_recall [OF ok this] show ?thesis using True by (simp add: key_down_def)
  next
    case False
    show ?thesis
    proof (cases "sh_history_count s = 0")
      case True
      then show ?thesis using False ok by (simp add: key_down_def)
    next
      case nz: False
      then have "0 < unat (sh_history_count s)" by (simp add: unat_gt_0)
      then have "unat (sh_history_count s - 1) < 5" "unat (sh_history_count s - 1) \<le> unat (sh_history_count s)" using D(8) by (simp_all add: unat16_dec)
      from ok_recall [OF ok this] show ?thesis using False nz by (simp add: key_down_def)
    qed
  qed
qed

lemma ok_step:
  assumes ok: "shell_ok s" and tab: "table_ok table" and c: "c \<noteq> 0x09"
  shows "\<exists>s' ev. finsh_step table run c s = Some (s', ev) \<and> shell_ok s'"
proof -
  let ?s = "s\<lparr>sh_stat := WAIT_NORMAL\<rparr>"
  have n: "shell_ok ?s" using ok by (simp add: ok_stat)
  note plain = ok_plain [OF n tab c, of run]
  show ?thesis
  proof (cases "c = 0x1b")
    case True
    then show ?thesis using ok by (simp add: finsh_step_def ok_stat)
  next
    case esc: False
    show ?thesis
    proof (cases "sh_stat s")
      case WAIT_NORMAL
      then show ?thesis using ok_plain [OF ok tab c, of run] esc by (simp add: finsh_step_def)
    next
      case st: WAIT_SPEC_KEY
      show ?thesis
      proof (cases "c = 0x5b \<or> c = 0x41 \<or> c = 0x42 \<or> c = 0x43 \<or> c = 0x44")
        case True
        then show ?thesis using st esc ok by (simp add: finsh_step_def ok_stat)
      next
        case False
        then show ?thesis using st esc plain by (simp add: finsh_step_def)
      qed
    next
      case st: WAIT_FUNC_KEY
      consider "c = 0x41" | "c = 0x42" | "c = 0x44" | "c = 0x43" | "c \<notin> {0x41, 0x42, 0x43, 0x44}" by blast
      then show ?thesis
      proof cases
        case 1
        then show ?thesis using st ok_up [OF n] by (auto simp: finsh_step_def)
      next
        case 2
        then show ?thesis using st ok_down [OF n] by (auto simp: finsh_step_def)
      next
        case 3
        then show ?thesis using st ok_left [OF n] by (simp add: finsh_step_def)
      next
        case 4
        then show ?thesis using st ok_right [OF n] by (auto simp: finsh_step_def)
      next
        case 5
        then show ?thesis using st esc plain by (simp add: finsh_step_def)
      qed
    qed
  qed
qed

lemma ok_run:
  "shell_ok s \<Longrightarrow> table_ok table \<Longrightarrow> 0x09 \<notin> set input \<Longrightarrow> \<exists>s' evs. finsh_run table run input s = Some (s', evs) \<and> shell_ok s'"
proof (induction input arbitrary: s)
  case (Cons c input)
  obtain s1 ev where s1: "finsh_step table run c s = Some (s1, ev)" "shell_ok s1" using ok_step [OF Cons.prems(1,2), of c run] Cons.prems(3) by auto
  from Cons.IH [OF s1(2) Cons.prems(2)] Cons.prems(3) show ?case using s1(1) by auto
qed simp

text \<open>
  C26. Without the tabulator the editor is safe: whatever else is typed, also in lines that are too long, it never reads or writes outside the line and the history, every
  byte is handled, and the cursor stays within a line of at most 79 characters.
\<close>
theorem finsh_run_safe:
  assumes "table_ok table" and "0x09 \<notin> set input"
  shows "\<exists>s evs. finsh_run table run input shell_init = Some (s, evs) \<and> shell_ok s \<and>
    unat (sh_line_curpos s) \<le> unat (sh_line_position s) \<and> unat (sh_line_position s) \<le> 79"
proof -
  have "shell_ok shell_init" by (simp add: shell_ok_def shell_init_def size_defs row_ok_def)
  from ok_run [OF this assms] show ?thesis using shell_okD(3,4) by blast
qed

theorem finsh_run_safe_witness:
  "\<exists>s evs. finsh_run demo_table (\<lambda>f args. 0) (replicate 200 0x61 @ [0x1b, 0x5b, 0x41, 0x08, 0x0d]) shell_init = Some (s, evs) \<and> shell_ok s"
proof -
  have "(0x09 :: u8) \<notin> set (replicate 200 0x61 @ [0x1b, 0x5b, 0x41, 0x08, 0x0d])" by simp
  from finsh_run_safe [OF demo_table_ok this, of "\<lambda>f args. 0"] show ?thesis by blast
qed


subsection \<open>The prompt\<close>

text \<open>
  When a custom prompt is taken back, its bytes are still behind the standard prompt, and the byte \<open>>\<close> replaces the terminator in front of them.
\<close>
lemma prompt_leftovers:
  "finsh_get_prompt (Some [0x61, 0x62, 0x63, 0x64, 0x65, 0x66, 0x67]) shell_init (replicate 129 0) = Some ([0x61, 0x62, 0x63, 0x64, 0x65, 0x66, 0x67, 0x3e] @ replicate 121 0)"
  "map_option (\<lambda>p. cstr_at p 0) (finsh_get_prompt None shell_init ([0x61, 0x62, 0x63, 0x64, 0x65, 0x66, 0x67, 0x3e] @ replicate 121 0)) =
     Some [0x6d, 0x73, 0x68, BLANK, 0x3e, 0x66, 0x67, 0x3e]"
  by code_simp+


subsection \<open>A line that is too long\<close>

definition overflow_input :: "u8 list" where
  \<comment> \<open>80 letters, the tabulator, another letter and two backspaces\<close>
  "overflow_input = replicate 80 0x61 @ [0x09, 0x62, 0x08, 0x08]"

lemma type_letters: "length (ed_text e) + n \<le> 79 \<Longrightarrow> printable c \<Longrightarrow>
    all_fit (replicate n (KChar c)) e \<and> snd (press_all table (replicate n (KChar c)) e) = [] \<and>
    fst (press_all table (replicate n (KChar c)) e) = e\<lparr>ed_before := ed_before e @ replicate n c\<rparr>"
proof (induction n arbitrary: e)
  case (Suc n)
  have "length (ed_text (press (KChar c) e)) + n \<le> 79" using Suc.prems(1) by simp
  note I = Suc.IH [OF this Suc.prems(2)]
  show ?case using I Suc.prems by (auto simp: pressed_def split: prod.split)
qed simp

lemma concat_letters: "concat (map key_bytes (replicate n (KChar c))) = replicate n c"
  by (induction n) auto

lemma get_argc_word:
  "i \<le> length cs \<Longrightarrow> 0 \<notin> set cs \<Longrightarrow> BLANK \<notin> set cs \<Longrightarrow> get_argc_loop (cs @ [0]) i n l = Some (n, l)"
proof (induction "length cs - i" arbitrary: i)
  case 0
  then have "(cs @ [0]) ! i = 0" by (simp add: nth_append)
  then show ?case using 0 by (subst get_argc_loop.simps) (simp add: byte_at_def)
next
  case (Suc k)
  then have lt: "i < length cs" by simp
  have "cs ! i \<in> set cs" using lt by simp
  then have "cs ! i \<noteq> 0" "cs ! i \<noteq> BLANK" using Suc.prems by metis+
  moreover have "get_argc_loop (cs @ [0]) (i + 1) n l = Some (n, l)" using Suc lt by simp
  ultimately show ?case using lt by (subst get_argc_loop.simps) (simp add: byte_at_def nth_append)
qed

lemma tab_no_commands:
  assumes "sh_line s = cs @ [0]" and "0 \<notin> set cs" and "BLANK \<notin> set cs" and "cs \<noteq> []"
  shows "key_tab [] s = Some (s\<lparr>sh_line_position := of_nat (length cs), sh_line_curpos := of_nat (length cs)\<rparr>)"
proof -
  have z: "strlen_at (cs @ [0]) 0 = Some (length cs)" using assms(2) by (simp add: strlen_at_def cstr_at_def takeWhile_append)
  have "byte_at (cs @ [0]) 0 \<noteq> None" by (simp add: byte_at_def)
  then have "msh_auto_complete [] (cs @ [0]) = Some (cs @ [0])" using z by (auto simp: msh_auto_complete_def complete_with_def)
  moreover have "cs ! (length cs - 1) \<noteq> BLANK" using assms(3,4) by (metis last_conv_nth last_in_set)
  then have "msh_opt_auto_complete [] b (cs @ [0]) = Some (cs @ [0])" for b
    using z get_argc_word [OF _ assms(2,3), of 0 0 None] assms(4)
    by (auto simp: msh_opt_auto_complete_def msh_get_argc_def nth_append opt_names_def)
  moreover have "s\<lparr>sh_line := cs @ [0]\<rparr> = s" using assms(1) by simp
  ultimately show ?thesis using z assms(1) by (simp add: key_tab_def line_end_def)
qed

lemma overflow_wrap:
  "\<exists>s. finsh_run [] (\<lambda>_ _. 0) (replicate 80 0x61) shell_init = Some (s, []) \<and> sh_stat s = WAIT_NORMAL \<and>
     sh_line s = replicate 80 0x61 @ [0] \<and> sh_line_position s = 0 \<and> sh_line_curpos s = 0"
proof -
  let ?e = "blank_editor\<lparr>ed_before := replicate 79 0x61\<rparr>"
  have P: "printable 0x61" by (simp add: printable_def)
  note L = type_letters [of blank_editor 79 "0x61" "[]", OF _ P]
  obtain s where s: "finsh_run [] (\<lambda>_ _. 0) (replicate 79 0x61) shell_init = Some (s, [])" "shows_editor s ?e"
    using shows_keys [OF shows_init, of "[]" "replicate 79 (KChar 0x61)" "\<lambda>_ _. 0"] L
    unfolding concat_letters by (auto simp: table_ok_def blank_editor_def)
  have f: "sh_stat s = WAIT_NORMAL" "sh_line s = replicate 79 0x61 @ [0, 0]" "unat (sh_line_position s) = 79" "unat (sh_line_curpos s) = 79"
    using s(2) by (simp_all add: shows_editor_def pad_def blank_editor_def numeral_2_eq_2)
  have p: "sh_line_position s = 79" "sh_line_curpos s = 79" using f(3,4) by (simp_all add: word_unat_eq_iff)
  have "(replicate 79 (0x61 :: u8) @ [0, 0])[79 := 0x61] = replicate 80 0x61 @ [0]"
    by (simp add: list_update_append replicate_app_Cons_same numeral_eq_Suc)
  then have "finsh_run [] (\<lambda>_ _. 0) [0x61] s =
      Some (s\<lparr>sh_line := replicate 80 0x61 @ [0], sh_line_position := 0, sh_line_curpos := 0\<rparr>, [])"
    using f(1,2) by (simp add: finsh_step_def plain_key_def key_char_def p Let_def size_defs write_byte_def)
  moreover have "replicate 80 (0x61 :: u8) = replicate 79 0x61 @ [0x61]" by (simp add: replicate_app_Cons_same numeral_eq_Suc)
  ultimately show ?thesis using s(1) f(1) by (simp add: finsh_run_append del: finsh_run.simps)
qed

text \<open>
  C27. The editor can be driven out of the line: 80 letters start the line again without clearing it, the tabulator then puts the cursor behind its 80
  letters, the next letter sets the length back but not the cursor, and with the second backspace the length wraps to 65535, which
  is how far the memory behind the line is moved.
\<close>
theorem shell_line_overflows:
  "(\<exists>r. finsh_run [] (\<lambda>_ _. 0) (butlast overflow_input) shell_init = Some r \<and> sh_line_position (fst r) = 0 \<and> sh_line_curpos (fst r) = 80) \<and>
   finsh_run [] (\<lambda>_ _. 0) overflow_input shell_init = None"
proof -
  let ?run = "finsh_run [] (\<lambda>_ _. 0)"
  obtain s where s: "?run (replicate 80 0x61) shell_init = Some (s, [])" "sh_stat s = WAIT_NORMAL" "sh_line s = replicate 80 0x61 @ [0]"
    "sh_line_position s = 0" "sh_line_curpos s = 0" using overflow_wrap by blast
  define t where "t = s\<lparr>sh_line := (replicate 80 0x61 @ [0])[0 := 0], sh_line_position := 0, sh_line_curpos := 80\<rparr>"
  have tab: "key_tab [] s = Some (s\<lparr>sh_line_position := 80, sh_line_curpos := 80\<rparr>)"
    using tab_no_commands [OF s(3)] by (simp add: BLANK_def)
  have t: "?run [0x09, 0x62, 0x08] s = Some (t, [])"
    using s(2,3) tab by (simp add: t_def finsh_step_def plain_key_def key_char_def key_backspace_def Let_def size_defs write_byte_def)
  have "unat (- 1 :: u16) = 65535" by (simp add: unsigned_minus_1_eq_mask mask_eq_exp_minus_1)
  then have n: "?run [0x08] t = None" using s(2) by (simp add: t_def rt_assert_def finsh_step_def plain_key_def key_backspace_def Let_def)
  have r: "?run (replicate 80 0x61 @ [0x09, 0x62, 0x08]) shell_init = Some (t, [])"
    unfolding finsh_run_append s(1) using t by (simp del: finsh_run.simps)
  have i: "overflow_input = (replicate 80 0x61 @ [0x09, 0x62, 0x08]) @ [0x08]" "butlast overflow_input = replicate 80 0x61 @ [0x09, 0x62, 0x08]"
    by (simp_all add: overflow_input_def butlast_append)
  have "?run overflow_input shell_init = None" unfolding i(1) finsh_run_append [of _ _ _ "[0x08]"] r using n by (simp del: finsh_run.simps)
  moreover have "sh_line_position t = 0" "sh_line_curpos t = 80" by (simp_all add: t_def)
  ultimately show ?thesis unfolding i(2) r by simp
qed

end
