(* ===== verification/KPrint.thy ===== *)
theory KPrint
  imports Prelude
begin

text \<open>
  Formatted output (klibc/rt\_vsnprintf\_tiny.c and the wrappers of klibc/kstdio.c), the variant without 64-bit numbers, as configured. A sink is the part of the memory that
  starts at \<open>buf\<close>, with the offset of the next byte and the offset of \<open>end\<close>. \<open>int\<close> arithmetic is unbounded here: its overflow is undefined in C. A format is
  the list of its bytes up to the terminator, a string argument what lies in memory from its pointer on; \<open>None\<close>: an argument of the wrong
  kind, or a read behind the end of a string.
\<close>

record sink =
  sk_str :: nat
  sk_end :: nat
  sk_buf :: "u8 list"

definition put :: "u8 \<Rightarrow> sink \<Rightarrow> sink" where
  \<comment> \<open>\<open>if (str < end) *str = c; ++ str;\<close>\<close>
  "put c k = k\<lparr>sk_str := sk_str k + 1, sk_buf := (if sk_str k < sk_end k then (sk_buf k)[sk_str k := c] else sk_buf k)\<rparr>"

datatype flag = ZEROPAD | SIGN | PLUS | SPACE | LEFT | SPECIAL | LARGE

datatype arg = AWord u32 | AStr "u8 list option" | ADouble

definition bytes :: "string \<Rightarrow> u8 list" where
  "bytes s = map of_char s"

definition small_digits :: "u8 list" where "small_digits = bytes ''0123456789abcdef''"
definition large_digits :: "u8 list" where "large_digits = bytes ''0123456789ABCDEF''"

definition ISDIGIT :: "u8 \<Rightarrow> bool" where
  "ISDIGIT c \<longleftrightarrow> 48 \<le> c \<and> c \<le> 57"


subsection \<open>Numbers\<close>

definition divide :: "u32 \<Rightarrow> u32 \<Rightarrow> u32 \<times> u32" where
  "divide n base = (n mod base, n div base)"

partial_function (option) digit_loop :: "u8 list \<Rightarrow> u32 \<Rightarrow> u32 \<Rightarrow> u8 list \<Rightarrow> u8 list option" where
  \<comment> \<open>\<open>tmp\<close> has 32 bytes\<close>
  "digit_loop digits base num tmp =
     (if num \<noteq> 0 then do {
        let (res, num) = divide num base;
        rt_assert (unat res < length digits \<and> length tmp < 32);
        digit_loop digits base num (tmp @ [digits ! unat res])
      } else Some tmp)"

declare digit_loop.simps [code]

definition sign_of :: "flag set \<Rightarrow> u8 \<Rightarrow> u32 \<Rightarrow> u8 \<times> u32" where
  \<comment> \<open>the sign to print, 0 for none, and the number without it\<close>
  "sign_of type qualifier num =
     (if SIGN \<notin> type then (0, num)
      else if qualifier = 104 \<and> sint (ucast num :: u16) < 0 then (45, ucast (ucast (- num) :: u16))
      else if qualifier \<noteq> 104 \<and> sint num < 0 then (45, - num)
      else if PLUS \<in> type then (43, num)
      else if SPACE \<in> type then (32, num)
      else (0, num))"

function put_while :: "int \<Rightarrow> u8 \<Rightarrow> sink \<Rightarrow> int \<times> sink" where
  \<comment> \<open>\<open>while (size-- > 0)\<close>\<close>
  "put_while sz c k = (if sz > 0 then put_while (sz - 1) c (put c k) else (sz - 1, k))"
  by auto
termination by (relation "measure (\<lambda>(sz, _, _). nat sz)") auto

declare put_while.simps [simp del]

function put_zeros :: "int \<Rightarrow> int \<Rightarrow> sink \<Rightarrow> sink" where
  \<comment> \<open>\<open>while (i < precision--)\<close>\<close>
  "put_zeros i precision k = (if i < precision then put_zeros i (precision - 1) (put 48 k) else k)"
  by auto
termination by (relation "measure (\<lambda>(i, precision, _). nat (precision - i))") auto

declare put_zeros.simps [simp del]

fun put_digits :: "u8 list \<Rightarrow> nat \<Rightarrow> sink \<Rightarrow> sink" where
  \<comment> \<open>\<open>while (i-- > 0)\<close>\<close>
  "put_digits tmp 0 k = k"
| "put_digits tmp (Suc i) k = put_digits tmp i (put (tmp ! i) k)"

definition put_prefix :: "u32 \<Rightarrow> bool \<Rightarrow> sink \<Rightarrow> sink" where
  "put_prefix base large k =
     (if base = 2 then put 98 (put 48 k)
      else if base = 8 then put 48 k
      else if base = 16 then put (if large then 88 else 120) (put 48 k)
      else k)"

definition print_number :: "u32 \<Rightarrow> u32 \<Rightarrow> u8 \<Rightarrow> int \<Rightarrow> int \<Rightarrow> flag set \<Rightarrow> sink \<Rightarrow> sink option" where
  "print_number num base qualifier s precision type k = do {
     let precision_bak = precision;
     let digits = (if LARGE \<in> type then large_digits else small_digits);
     let type = (if LEFT \<in> type then type - {ZEROPAD} else type);
     let c = (if ZEROPAD \<in> type then 48 else 32);
     let (sign, num) = sign_of type qualifier num;
     let size = (if SPECIAL \<in> type then if base = 2 \<or> base = 16 then s - 2 else if base = 8 then s - 1 else s else s);
     tmp \<leftarrow> (if num = 0 then Some [48] else digit_loop digits base num []);
     let i = int (length tmp);
     let precision = (if i > precision then i else precision);
     let size = size - precision;
     let (size, k) =
       (if ZEROPAD \<notin> type \<and> LEFT \<notin> type then put_while (if sign \<noteq> 0 \<and> size > 0 then size - 1 else size) 32 k else (size, k));
     let (size, k) = (if sign \<noteq> 0 then (size - 1, put sign k) else (size, k));
     let k = (if SPECIAL \<in> type then put_prefix base (LARGE \<in> type) k else k);
     let (size, k) = (if LEFT \<notin> type then put_while size c k else (size, k));
     let k = put_zeros i precision k;
     let k = (if precision_bak \<noteq> 0 then put_digits tmp (length tmp) k else k);
     let (size, k) = put_while size 32 k;
     Some k
   }"


subsection \<open>Formats\<close>

fun skip_atoi :: "u8 list \<Rightarrow> int \<Rightarrow> int \<times> u8 list" where
  "skip_atoi [] i = (i, [])"
| "skip_atoi (c # s) i = (if ISDIGIT c then skip_atoi s (i * 10 + uint c - 48) else (i, c # s))"

fun get_flags :: "u8 list \<Rightarrow> flag set \<Rightarrow> flag set \<times> u8 list" where
  "get_flags [] flags = (flags, [])"
| "get_flags (c # fmt) flags =
     (if c = 45 then get_flags fmt (insert LEFT flags)
      else if c = 43 then get_flags fmt (insert PLUS flags)
      else if c = 32 then get_flags fmt (insert SPACE flags)
      else if c = 35 then get_flags fmt (insert SPECIAL flags)
      else if c = 48 then get_flags fmt (insert ZEROPAD flags)
      else (flags, c # fmt))"

fun va_word :: "arg list \<Rightarrow> (u32 \<times> arg list) option" where
  "va_word (AWord w # args) = Some (w, args)"
| "va_word _ = None"

fun va_str :: "arg list \<Rightarrow> (u8 list option \<times> arg list) option" where
  "va_str (AStr s # args) = Some (s, args)"
| "va_str _ = None"

fun va_double :: "arg list \<Rightarrow> arg list option" where
  "va_double (ADouble # args) = Some args"
| "va_double _ = None"

definition get_width :: "u8 list \<Rightarrow> arg list \<Rightarrow> flag set \<Rightarrow> (int \<times> flag set \<times> u8 list \<times> arg list) option" where
  "get_width fmt args flags =
     (case fmt of
        c # f \<Rightarrow>
          if ISDIGIT c then (let (w, fmt) = skip_atoi fmt 0 in Some (w, flags, fmt, args))
          else if c = 42 then do {
            (w, args) \<leftarrow> va_word args;
            Some (if sint w < 0 then (- sint w, insert LEFT flags, f, args) else (sint w, flags, f, args))
          } else Some (- 1, flags, fmt, args)
      | [] \<Rightarrow> Some (- 1, flags, fmt, args))"

definition get_precision :: "u8 list \<Rightarrow> arg list \<Rightarrow> (int \<times> u8 list \<times> arg list) option" where
  "get_precision fmt args =
     (case fmt of
        c # f \<Rightarrow>
          if c = 46 then do {
            (precision, fmt, args) \<leftarrow> (case f of
                d # g \<Rightarrow>
                  if ISDIGIT d then (let (p, fmt) = skip_atoi f 0 in Some (p, fmt, args))
                  else if d = 42 then do { (w, args) \<leftarrow> va_word args; Some (sint w, g, args) }
                  else Some (- 1, f, args)
              | [] \<Rightarrow> Some (- 1, f, args));
            Some (if precision < 0 then 0 else precision, fmt, args)
          } else Some (- 1, fmt, args)
      | [] \<Rightarrow> Some (- 1, fmt, args))"

definition get_qualifier :: "u8 list \<Rightarrow> u8 \<times> u8 list" where
  \<comment> \<open>\<open>h\<close>, \<open>l\<close>, \<open>z\<close>; \<open>hh\<close> is \<open>H\<close>\<close>
  "get_qualifier fmt =
     (case fmt of
        c # f \<Rightarrow>
          if c = 104 \<or> c = 108 \<or> c = 122 then
            if c = 104 then (case f of d # g \<Rightarrow> if d = 104 then (72, g) else (c, f) | [] \<Rightarrow> (c, f)) else (c, f)
          else (0, fmt)
      | [] \<Rightarrow> (0, fmt))"

definition put_char :: "flag set \<Rightarrow> int \<Rightarrow> u8 \<Rightarrow> sink \<Rightarrow> sink" where
  \<comment> \<open>\<open>while (--field_width > 0)\<close> is \<open>put_while\<close> from one less\<close>
  "put_char flags field_width c k =
     (let (field_width, k) = (if LEFT \<notin> flags then (let (w, k) = put_while (field_width - 1) 32 k in (w + 1, k)) else (field_width, k));
          k = put c k
      in snd (put_while (field_width - 1) 32 k))"

fun scan_len :: "u8 list \<Rightarrow> int \<Rightarrow> int \<Rightarrow> int option" where
  "scan_len s len field_width =
     (if len = field_width then Some len
      else case s of [] \<Rightarrow> None | c # s \<Rightarrow> if c = 0 then Some len else scan_len s (len + 1) field_width)"

definition put_string :: "flag set \<Rightarrow> int \<Rightarrow> int \<Rightarrow> u8 list option \<Rightarrow> sink \<Rightarrow> sink option" where
  \<comment> \<open>\<open>while (len < field_width--)\<close> puts as many bytes as \<open>put_while\<close> does from the difference\<close>
  "put_string flags field_width precision s k = do {
     let s = (case s of Some s \<Rightarrow> s | None \<Rightarrow> bytes ''(null)'' @ [0]);
     len \<leftarrow> scan_len s 0 field_width;
     let len = (if precision > 0 \<and> len > precision then precision else len);
     let (field_width, k) = (if LEFT \<notin> flags then (let (w, k) = put_while (field_width - len) 32 k in (w + len, k)) else (field_width, k));
     let k = fold put (take (nat len) s) k;
     Some (snd (put_while (field_width - len) 32 k))
   }"

definition fetch_num :: "u8 \<Rightarrow> flag set \<Rightarrow> u32 \<Rightarrow> u32" where
  "fetch_num qualifier flags w =
     (if qualifier = 72 then scast (ucast w :: u8)
      else if qualifier = 104 then (if SIGN \<in> flags then scast (ucast w :: u16) else ucast (ucast w :: u16))
      else w)"

definition head_byte :: "u8 list \<Rightarrow> u8" where
  "head_byte fmt = (case fmt of [] \<Rightarrow> 0 | c # _ \<Rightarrow> c)"

definition parse_directive :: "u8 list \<Rightarrow> arg list \<Rightarrow> (flag set \<times> int \<times> int \<times> u8 \<times> u8 list \<times> arg list) option" where
  "parse_directive fmt args = do {
     let (flags, fmt) = get_flags fmt {};
     (field_width, flags, fmt, args) \<leftarrow> get_width fmt args flags;
     (precision, fmt, args) \<leftarrow> get_precision fmt args;
     let (qualifier, fmt) = get_qualifier fmt;
     Some (flags, field_width, precision, qualifier, fmt, args)
   }"

definition convert :: "flag set \<Rightarrow> int \<Rightarrow> int \<Rightarrow> u8 \<Rightarrow> u8 \<Rightarrow> arg list \<Rightarrow> sink \<Rightarrow> (arg list \<times> sink) option" where
  \<comment> \<open>the conversion that \<open>*fmt = c\<close> asks for\<close>
  "convert flags field_width precision qualifier c args k =
     (if c = 99 then do {
        (w, args) \<leftarrow> va_word args;
        Some (args, put_char flags field_width (ucast w) k)
      } else if c = 115 then do {
        (s, args) \<leftarrow> va_str args;
        k \<leftarrow> put_string flags field_width precision s k;
        Some (args, k)
      } else if c = 112 then do {
        (w, args) \<leftarrow> va_word args;
        k \<leftarrow> (if field_width = - 1 then print_number w 16 qualifier 10 precision (flags \<union> {SPECIAL, ZEROPAD}) k
              else print_number w 16 qualifier field_width precision flags k);
        Some (args, k)
      } else if c = 37 then Some (args, put 37 k)
      else if c \<in> {98, 111, 88, 120, 100, 105, 117} then do {
        let base = (if c = 98 then 2 else if c = 111 then 8 else if c = 88 \<or> c = 120 then 16 else 10);
        let flags = (if c = 88 then insert LARGE flags else if c = 100 \<or> c = 105 then insert SIGN flags else flags);
        (w, args) \<leftarrow> va_word args;
        k \<leftarrow> print_number (fetch_num qualifier flags w) base qualifier field_width precision flags k;
        Some (args, k)
      } else do {
        args \<leftarrow> (if c \<in> {101, 69, 71, 103, 102, 70} then va_double args else Some args);
        let k = put 37 k;
        Some (args, if c \<noteq> 0 then put c k else k)
      })"

lemma get_flags_length: "get_flags fmt flags = (flags', fmt') \<Longrightarrow> length fmt' \<le> length fmt"
  by (induction fmt flags rule: get_flags.induct) (auto split: if_splits)

lemma skip_atoi_length: "skip_atoi fmt i = (n, fmt') \<Longrightarrow> length fmt' \<le> length fmt"
  by (induction fmt i rule: skip_atoi.induct) (auto split: if_splits)

lemma get_width_length: "get_width fmt args flags = Some (w, flags', fmt', args') \<Longrightarrow> length fmt' \<le> length fmt"
  by (auto simp: get_width_def bind_eq_Some_conv dest!: skip_atoi_length split: list.splits if_splits prod.splits)

lemma get_precision_length: "get_precision fmt args = Some (p, fmt', args') \<Longrightarrow> length fmt' \<le> length fmt"
  by (auto simp: get_precision_def bind_eq_Some_conv dest!: skip_atoi_length split: list.splits if_splits prod.splits)

lemma get_qualifier_length: "get_qualifier fmt = (q, fmt') \<Longrightarrow> length fmt' \<le> length fmt"
  by (auto simp: get_qualifier_def split: list.splits if_splits)


lemma parse_directive_length:
  assumes "parse_directive fmt args = Some (fl, w, p, q, fmt', args')"
  shows "length fmt' \<le> length fmt"
proof -
  obtain fl1 f1 where 1: "get_flags fmt {} = (fl1, f1)" by fastforce
  obtain w2 fl2 f2 a2 where 2: "get_width f1 args fl1 = Some (w2, fl2, f2, a2)" using assms 1 by (auto simp: parse_directive_def bind_eq_Some_conv)
  obtain p3 f3 a3 where 3: "get_precision f2 a2 = Some (p3, f3, a3)" using assms 1 2 by (auto simp: parse_directive_def bind_eq_Some_conv)
  obtain q4 f4 where 4: "get_qualifier f3 = (q4, f4)" by fastforce
  have "fmt' = f4" using assms 1 2 3 4 by (simp add: parse_directive_def)
  then show ?thesis
    using get_flags_length [OF 1] get_width_length [OF 2] get_precision_length [OF 3] get_qualifier_length [OF 4] by simp
qed

function format_loop :: "u8 list \<Rightarrow> arg list \<Rightarrow> sink \<Rightarrow> sink option" where
  "format_loop [] args k = Some k"
| "format_loop (c # fmt) args k =
     (if c \<noteq> 37 then format_loop fmt args (put c k)
      else do {
        (flags, field_width, precision, qualifier, fmt', args) \<leftarrow> parse_directive fmt args;
        (args, k) \<leftarrow> convert flags field_width precision qualifier (head_byte fmt') args k;
        format_loop (tl fmt') args k
      })"
  by pat_completeness auto
termination
  by (relation "measure (\<lambda>(fmt, _, _). length fmt)") (auto dest!: parse_directive_length)

definition rt_vsnprintf :: "u32 \<Rightarrow> u32 \<Rightarrow> u8 list \<Rightarrow> arg list \<Rightarrow> u8 list \<Rightarrow> (int \<times> u8 list) option" where
  \<comment> \<open>for the address \<open>buf\<close>, from which on the memory holds \<open>mem\<close>\<close>
  "rt_vsnprintf buf sz fmt args mem = do {
     let sz = (if buf + sz < buf then 0xffffffff - buf else sz);
     k \<leftarrow> format_loop fmt args \<lparr>sk_str = 0, sk_end = unat sz, sk_buf = mem\<rparr>;
     let mem = (if sz \<noteq> 0 then if sk_str k < sk_end k then (sk_buf k)[sk_str k := 0] else (sk_buf k)[sk_end k - 1 := 0] else sk_buf k);
     Some (sint (of_nat (sk_str k) :: u32), mem)
   }"

definition rt_snprintf :: "u32 \<Rightarrow> u32 \<Rightarrow> u8 list \<Rightarrow> arg list \<Rightarrow> u8 list \<Rightarrow> (int \<times> u8 list) option" where
  "rt_snprintf buf sz fmt args mem = rt_vsnprintf buf sz fmt args mem"

definition rt_vsprintf :: "u32 \<Rightarrow> u8 list \<Rightarrow> arg list \<Rightarrow> u8 list \<Rightarrow> (int \<times> u8 list) option" where
  "rt_vsprintf buf fmt args mem = rt_vsnprintf buf (- 1) fmt args mem"

definition rt_sprintf :: "u32 \<Rightarrow> u8 list \<Rightarrow> arg list \<Rightarrow> u8 list \<Rightarrow> (int \<times> u8 list) option" where
  "rt_sprintf buf fmt args mem = rt_vsprintf buf fmt args mem"


subsection \<open>What a format means\<close>

fun numeral_of :: "nat \<Rightarrow> nat \<Rightarrow> nat list" where
  \<comment> \<open>the digits of a number, the highest first\<close>
  "numeral_of b n = (if n < b \<or> b < 2 then [n] else numeral_of b (n div b) @ [n mod b])"

declare numeral_of.simps [simp del]

definition digit_text :: "bool \<Rightarrow> nat \<Rightarrow> u8" where
  "digit_text large d = (if d < 10 then of_nat (48 + d) else of_nat ((if large then 55 else 87) + d))"

definition numeral_text :: "bool \<Rightarrow> nat \<Rightarrow> nat \<Rightarrow> u8 list" where
  "numeral_text large b n = map (digit_text large) (numeral_of b n)"

definition prefix_text :: "nat \<Rightarrow> bool \<Rightarrow> u8 list" where
  "prefix_text base large = (if base = 2 then bytes ''0b'' else if base = 8 then bytes ''0'' else if base = 16 then bytes (if large then ''0X'' else ''0x'') else [])"

definition number_text :: "u32 \<Rightarrow> nat \<Rightarrow> u8 \<Rightarrow> int \<Rightarrow> int \<Rightarrow> flag set \<Rightarrow> u8 list" where
  \<comment> \<open>sign, prefix and digits in a field of some width; a precision of zero takes the room of the digits but hides them\<close>
  "number_text num base qualifier width precision flags =
     (let (sign, n) = sign_of flags qualifier num;
          sign = (if sign = 0 then [] else [sign]);
          pre = (if SPECIAL \<in> flags then prefix_text base (LARGE \<in> flags) else []);
          ds = numeral_text (LARGE \<in> flags) base (unat n);
          zeros = replicate (nat precision - length ds) 48;
          room = nat (width - int (length (sign @ pre @ zeros @ ds)));
          ds = (if precision = 0 then [] else ds)
      in if LEFT \<in> flags then sign @ pre @ zeros @ ds @ replicate room 32
         else if ZEROPAD \<in> flags then sign @ pre @ replicate room 48 @ zeros @ ds
         else replicate room 32 @ sign @ pre @ zeros @ ds)"

definition char_text :: "flag set \<Rightarrow> int \<Rightarrow> u8 \<Rightarrow> u8 list" where
  "char_text flags width c =
     (if LEFT \<in> flags then c # replicate (nat (width - 1)) 32 else replicate (nat (width - 1)) 32 @ [c])"

definition string_text :: "flag set \<Rightarrow> int \<Rightarrow> int \<Rightarrow> u8 list \<Rightarrow> u8 list" where
  \<comment> \<open>a width also cuts the string, a precision of zero does not\<close>
  "string_text flags width precision s =
     (let t = takeWhile (\<lambda>c. c \<noteq> 0) s;
          t = (if width < 0 then t else take (nat width) t);
          t = (if precision > 0 then take (nat precision) t else t);
          room = replicate (nat (width - int (length t))) 32
      in if LEFT \<in> flags then t @ room else room @ t)"

definition convert_text :: "flag set \<Rightarrow> int \<Rightarrow> int \<Rightarrow> u8 \<Rightarrow> u8 \<Rightarrow> arg list \<Rightarrow> (u8 list \<times> arg list) option" where
  "convert_text flags width precision qualifier c args =
     (if c = 99 then do { (w, args) \<leftarrow> va_word args; Some (char_text flags width (ucast w), args) }
      else if c = 115 then do {
        (s, args) \<leftarrow> va_str args;
        let s = (case s of Some s \<Rightarrow> s | None \<Rightarrow> bytes ''(null)'' @ [0]);
        rt_assert (0 \<in> set s \<or> (0 \<le> width \<and> nat width \<le> length s));
        Some (string_text flags width precision s, args)
      } else if c = 112 then do {
        (w, args) \<leftarrow> va_word args;
        Some (if width = - 1 then number_text w 16 qualifier 10 precision (flags \<union> {SPECIAL, ZEROPAD})
              else number_text w 16 qualifier width precision flags, args)
      } else if c = 37 then Some ([37], args)
      else if c \<in> {98, 111, 88, 120, 100, 105, 117} then do {
        let base = (if c = 98 then 2 else if c = 111 then 8 else if c = 88 \<or> c = 120 then 16 else 10);
        let flags = (if c = 88 then insert LARGE flags else if c = 100 \<or> c = 105 then insert SIGN flags else flags);
        (w, args) \<leftarrow> va_word args;
        Some (number_text (fetch_num qualifier flags w) base qualifier width precision flags, args)
      } else do {
        args \<leftarrow> (if c \<in> {101, 69, 71, 103, 102, 70} then va_double args else Some args);
        Some (if c = 0 then [37] else [37, c], args)
      })"

function format_text :: "u8 list \<Rightarrow> arg list \<Rightarrow> u8 list option" where
  \<comment> \<open>the text of a format with its arguments\<close>
  "format_text [] args = Some []"
| "format_text (c # fmt) args =
     (if c \<noteq> 37 then map_option ((#) c) (format_text fmt args)
      else do {
        (flags, width, precision, qualifier, fmt', args) \<leftarrow> parse_directive fmt args;
        (t, args) \<leftarrow> convert_text flags width precision qualifier (head_byte fmt') args;
        rest \<leftarrow> format_text (tl fmt') args;
        Some (t @ rest)
      })"
  by pat_completeness auto
termination
  by (relation "measure (\<lambda>(fmt, _). length fmt)") (auto dest!: parse_directive_length)


subsection \<open>Every piece appends its text\<close>

definition puts :: "u8 list \<Rightarrow> sink \<Rightarrow> sink" where
  "puts t k = fold put t k"

lemma puts_Nil [simp]: "puts [] k = k"
  by (simp add: puts_def)

lemma puts_Cons [simp]: "puts (c # t) k = puts t (put c k)"
  by (simp add: puts_def)

lemma puts_puts [simp]: "puts u (puts t k) = puts (t @ u) k"
  by (simp add: puts_def)

lemma put_puts: "put c (puts t k) = puts (t @ [c]) k"
  by (simp add: puts_def)

lemma fold_put: "fold put t k = puts t k"
  by (simp add: puts_def)

lemma put_while_puts: "put_while sz c k = ((if sz > 0 then - 1 else sz - 1), puts (replicate (nat sz) c) k)"
proof (induction sz c k rule: put_while.induct)
  case (1 sz c k)
  show ?case
  proof (cases "sz > 0")
    case True
    then have "nat sz = Suc (nat (sz - 1))" by simp
    then show ?thesis using True 1 by (subst put_while.simps) simp
  next
    case False
    then show ?thesis by (subst put_while.simps) simp
  qed
qed

lemma put_zeros_puts: "put_zeros i precision k = puts (replicate (nat (precision - i)) 48) k"
proof (induction i precision k rule: put_zeros.induct)
  case (1 i precision k)
  show ?case
  proof (cases "i < precision")
    case True
    then have "nat (precision - i) = Suc (nat (precision - 1 - i))" by simp
    then show ?thesis using True 1 by (subst put_zeros.simps) simp
  next
    case False
    then show ?thesis by (subst put_zeros.simps) simp
  qed
qed

lemma put_digits_puts: "i \<le> length tmp \<Longrightarrow> put_digits tmp i k = puts (rev (take i tmp)) k"
  by (induction i arbitrary: k) (simp_all add: take_Suc_conv_app_nth)


lemma digits_upt: "small_digits = map (digit_text False) [0..<16]" "large_digits = map (digit_text True) [0..<16]"
  by code_simp+

lemma digits_nth: "d < 16 \<Longrightarrow> small_digits ! d = digit_text False d" "d < 16 \<Longrightarrow> large_digits ! d = digit_text True d"
  by (simp_all add: digits_upt del: upt_rec_numeral)

lemma digits_length: "length small_digits = 16" "length large_digits = 16"
  by code_simp+

lemma digit_loop_run:
  assumes b: "2 \<le> unat base" "unat base \<le> 16" and ds: "length digits = 16" "\<forall>d < 16. digits ! d = digit_text large d"
  shows "num \<noteq> 0 \<Longrightarrow> length tmp < 32 \<Longrightarrow> unat num < 2 ^ (32 - length tmp) \<Longrightarrow>
    digit_loop digits base num tmp = Some (tmp @ rev (numeral_text large (unat base) (unat num)))"
proof (induction "unat num" arbitrary: num tmp rule: less_induct)
  case less
  let ?b = "unat base" and ?n = "unat num"
  have n: "0 < ?n" using less.prems(1) by (simp add: unat_gt_0)
  have d: "unat (num mod base) = ?n mod ?b" "unat (num div base) = ?n div ?b" by (simp_all add: unat_mod unat_div)
  have m: "?n mod ?b < 16" using b mod_less_divisor [of ?b ?n] by linarith
  let ?tmp = "tmp @ [digit_text large (?n mod ?b)]"
  have step: "digit_loop digits base num tmp = digit_loop digits base (num div base) ?tmp"
    using less.prems(1,2) ds m by (subst digit_loop.simps) (simp add: divide_def d Let_def)
  show ?case
  proof (cases "?n < ?b")
    case True
    then have "num div base = 0" using d(2) by (simp add: unat_eq_zero)
    then show ?thesis unfolding step using True by (subst digit_loop.simps) (simp add: numeral_text_def numeral_of.simps [of _ ?n])
  next
    case False
    then have "0 < ?n div ?b" using b by (simp add: div_greater_zero_iff)
    then have nz: "num div base \<noteq> 0" using d(2) by auto
    have lt: "unat (num div base) < unat num" unfolding d using n b by (simp add: div_less_dividend)
    have "?n div ?b \<le> ?n div 2" using b by (simp add: div_le_mono2)
    moreover have "32 - length tmp = Suc (31 - length tmp)" using less.prems(2) by simp
    then have "?n < 2 ^ (31 - length tmp) * 2" using less.prems(3) by simp
    then have "?n div 2 < 2 ^ (31 - length tmp)" by (rule less_mult_imp_div_less)
    ultimately have small: "unat (num div base) < 2 ^ (32 - length ?tmp)" unfolding d by (simp add: diff_diff_left)
    have "length ?tmp < 32"
    proof (rule ccontr)
      assume "\<not> length ?tmp < 32"
      then have "unat (num div base) < 1" using small less.prems(2) by simp
      then show False using nz by (simp add: unat_eq_zero)
    qed
    from less.hyps [OF lt nz this small] show ?thesis
      unfolding step d using False b by (subst numeral_text_def, subst numeral_of.simps) (simp add: numeral_text_def)
  qed
qed

lemma put_prefix_puts: "put_prefix base large k = puts (prefix_text (unat base) large) k"
proof -
  have "unat base = 2 \<longleftrightarrow> base = 2" "unat base = 8 \<longleftrightarrow> base = 8" "unat base = 16 \<longleftrightarrow> base = 16" by (simp_all add: word_unat_eq_iff)
  then show ?thesis by (simp add: put_prefix_def prefix_text_def bytes_def)
qed

lemma numeral_text_not_Nil: "numeral_text large b n \<noteq> []"
  by (simp add: numeral_text_def numeral_of.simps [of b n])

lemma print_number_puts:
  assumes base: "base \<in> {2, 8, 10, 16}"
  shows "print_number num base q w p fl k = Some (puts (number_text num (unat base) q w p fl) k)"
proof -
  let ?large = "LARGE \<in> fl" and ?digits = "if LARGE \<in> fl then large_digits else small_digits"
  obtain sg n where sn: "sign_of (if LEFT \<in> fl then fl - {ZEROPAD} else fl) q num = (sg, n)" by fastforce
  then have sn': "sign_of fl q num = (sg, n)" by (auto simp: sign_of_def split: if_splits)
  define ds where "ds = numeral_text ?large (unat base) (unat n)"
  have tmp: "(if n = 0 then Some [48] else digit_loop ?digits base n []) = Some (rev ds)"
  proof (cases "n = 0")
    case True
    then show ?thesis using base by (auto simp: ds_def numeral_text_def numeral_of.simps [of _ 0] digit_text_def)
  next
    case False
    have b: "2 \<le> unat base" "unat base \<le> 16" using base by auto
    have "unat n < 2 ^ LENGTH(32)" by (rule unsigned_less)
    moreover have "length ?digits = 16" "\<forall>d < 16. ?digits ! d = digit_text ?large d" by (simp_all add: digits_length digits_nth)
    ultimately have "digit_loop ?digits base n [] = Some (rev ds)" using digit_loop_run [OF b, of ?digits ?large n "[]"] False by (simp add: ds_def)
    then show ?thesis using False by simp
  qed
  have lds: "0 < length ds" using numeral_text_not_Nil by (simp add: ds_def)
  define pre where "pre = (if SPECIAL \<in> fl then prefix_text (unat base) ?large else [])"
  have pre: "(if SPECIAL \<in> fl then put_prefix base ?large k else k) = puts pre k" for k by (simp add: pre_def put_prefix_puts)
  have sz: "(if SPECIAL \<in> fl then if base = 2 \<or> base = 16 then w - 2 else if base = 8 then w - 1 else w else w) = w - int (length pre)"
    using base by (auto simp: pre_def prefix_text_def bytes_def)
  have zs: "nat ((if int (length ds) > p then int (length ds) else p) - int (length ds)) = nat p - length ds" by auto
  define m where "m = (if int (length ds) > p then int (length ds) else p)"
  have m: "int (length (replicate (nat p - length ds) (48 :: u8) @ ds)) = m" "nat (m - int (length ds)) = nat p - length ds" using lds by (auto simp: m_def)
  have nt: "number_text num (unat base) q w p fl =
     (let sign = (if sg = 0 then [] else [sg]); zeros = replicate (nat p - length ds) 48; room = nat (w - int (length sign) - int (length pre) - m);
          ds = (if p = 0 then [] else ds)
      in if LEFT \<in> fl then sign @ pre @ zeros @ ds @ replicate room 32
         else if ZEROPAD \<in> fl then sign @ pre @ replicate room 48 @ zeros @ ds
         else replicate room 32 @ sign @ pre @ zeros @ ds)"
    unfolding number_text_def sn' using m(1) by (simp add: Let_def pre_def ds_def algebra_simps)
  have fl: "SPECIAL \<in> (if LEFT \<in> fl then fl - {ZEROPAD} else fl) \<longleftrightarrow> SPECIAL \<in> fl" "LEFT \<in> (if LEFT \<in> fl then fl - {ZEROPAD} else fl) \<longleftrightarrow> LEFT \<in> fl"
    "LARGE \<in> (if LEFT \<in> fl then fl - {ZEROPAD} else fl) \<longleftrightarrow> LARGE \<in> fl"
    "ZEROPAD \<in> (if LEFT \<in> fl then fl - {ZEROPAD} else fl) \<longleftrightarrow> ZEROPAD \<in> fl \<and> LEFT \<notin> fl" by auto
  have digits: "put_digits (rev ds) (length ds) k = puts ds k" for k by (simp add: put_digits_puts)
  have room: "w - 1 - int (length pre) - m = w - int (length pre) - m - 1" by simp
  show ?thesis
    unfolding nt print_number_def sn Let_def prod.case fl sz tmp bind.bind_lunit pre length_rev digits m_def [symmetric] put_zeros_puts m(2)
    by (cases "sg = 0"; cases "LEFT \<in> fl"; cases "ZEROPAD \<in> fl")
      (auto simp: put_while_puts put_puts digits room puts_Cons [symmetric] simp del: puts_Cons intro!: arg_cong [of _ _ "\<lambda>t. puts t k"])
qed


lemma put_char_puts: "put_char fl w c k = puts (char_text fl w c) k"
  by (auto simp: put_char_def char_text_def put_while_puts put_puts Let_def puts_Cons [symmetric] simp del: puts_Cons)

lemma scan_len_bounded: "len \<le> w \<Longrightarrow>
    scan_len s len w =
      (if 0 \<in> set s \<or> nat (w - len) \<le> length s then Some (len + int (length (take (nat (w - len)) (takeWhile (\<lambda>c. c \<noteq> 0) s)))) else None)"
proof (induction s arbitrary: len)
  case (Cons c s)
  show ?case
  proof (cases "len = w")
    case False
    then have "len + 1 \<le> w" "nat (w - len) = Suc (nat (w - (len + 1)))" using Cons.prems by simp_all
    then show ?thesis using False Cons.IH [of "len + 1"] by auto
  qed simp
qed auto

lemma scan_len_unbounded: "w < len \<Longrightarrow>
    scan_len s len w = (if 0 \<in> set s then Some (len + int (length (takeWhile (\<lambda>c. c \<noteq> 0) s))) else None)"
  by (induction s arbitrary: len) auto

lemma take_takeWhile: "n \<le> length (takeWhile P s) \<Longrightarrow> take n (takeWhile P s) = take n s"
  by (induction s arbitrary: n) (auto simp: take_Cons split: nat.split if_splits)

lemma put_string_puts:
  "put_string fl w p s k =
     (let s = (case s of Some s \<Rightarrow> s | None \<Rightarrow> bytes ''(null)'' @ [0])
      in if 0 \<in> set s \<or> (0 \<le> w \<and> nat w \<le> length s) then Some (puts (string_text fl w p s) k) else None)"
proof -
  define r where "r = (case s of Some s \<Rightarrow> s | None \<Rightarrow> bytes ''(null)'' @ [0])"
  define t where "t = takeWhile (\<lambda>c. c \<noteq> 0) r"
  define t1 where "t1 = (if w < 0 then t else take (nat w) t)"
  define t2 where "t2 = (if p > 0 then take (nat p) t1 else t1)"
  have scan: "scan_len r 0 w = (if 0 \<in> set r \<or> (0 \<le> w \<and> nat w \<le> length r) then Some (int (length t1)) else None)"
    using scan_len_bounded [of 0 w r] scan_len_unbounded [of w 0 r] by (cases "w < 0") (auto simp: t1_def t_def)
  have len: "(if p > 0 \<and> int (length t1) > p then p else int (length t1)) = int (length t2)" by (auto simp: t2_def)
  have "\<exists>n \<le> length t. t2 = take n t"
  proof -
    have "t2 = take (length t2) t" "length t2 \<le> length t" by (auto simp: t2_def t1_def min_def)
    then show ?thesis by blast
  qed
  then have body: "take (length t2) r = t2" using take_takeWhile [of "length t2" "\<lambda>c. c \<noteq> 0" r] by (auto simp: t_def min_def)
  have st: "string_text fl w p r = (let room = replicate (nat (w - int (length t2))) 32 in if LEFT \<in> fl then t2 @ room else room @ t2)"
    unfolding string_text_def Let_def t_def [symmetric] t1_def [symmetric] t2_def [symmetric] ..
  show ?thesis
    unfolding put_string_def r_def [symmetric] Let_def scan
    by (simp add: len body st fold_put put_while_puts Let_def split: prod.split)
qed

lemma convert_puts:
  "convert fl w p q c args k = map_option (\<lambda>(t, args). (args, puts t k)) (convert_text fl w p q c args)"
proof -
  note simps = convert_def convert_text_def
  consider "c = 99" | "c = 115" | "c = 112" | "c = 37" | "c \<in> {98, 111, 88, 120, 100, 105, 117}" | "c \<notin> {99, 115, 112, 37, 98, 111, 88, 120, 100, 105, 117}"
    by blast
  then show ?thesis
  proof cases
    case 1
    then show ?thesis by (cases "va_word args") (auto simp: simps put_char_puts)
  next
    case 2
    then show ?thesis by (cases "va_str args") (auto simp: simps put_string_puts rt_assert_def Let_def)
  next
    case 3
    then show ?thesis by (cases "va_word args") (auto simp: simps print_number_puts)
  next
    case 4
    then show ?thesis by (simp add: simps)
  next
    case 5
    then have c: "c \<noteq> 99" "c \<noteq> 115" "c \<noteq> 112" "c \<noteq> 37" by auto
    define base :: u32 where "base = (if c = 98 then 2 else if c = 111 then 8 else if c = 88 \<or> c = 120 then 16 else 10)"
    have b: "base \<in> {2, 8, 10, 16}" "unat base = (if c = 98 then 2 else if c = 111 then 8 else if c = 88 \<or> c = 120 then 16 else 10)"
      by (simp_all add: base_def)
    show ?thesis
      unfolding convert_def convert_text_def Let_def base_def [symmetric] b(2) [symmetric]
      using 5 c by (cases "va_word args") (auto simp: print_number_puts [OF b(1)] simp del: insert_iff)
  next
    case 6
    then show ?thesis
      by (cases "c \<in> {101, 69, 71, 103, 102, 70}"; cases "va_double args") (auto simp: simps Let_def)
  qed
qed

lemma format_loop_puts: "format_loop fmt args k = map_option (\<lambda>t. puts t k) (format_text fmt args)"
proof (induction "length fmt" arbitrary: fmt args k rule: less_induct)
  case less
  show ?case
  proof (cases fmt)
    case (Cons c f)
    show ?thesis
    proof (cases "c = 37")
      case False
      have "format_loop f args (put c k) = map_option (\<lambda>t. puts t (put c k)) (format_text f args)" by (rule less) (simp add: Cons)
      then show ?thesis using False Cons by (cases "format_text f args") simp_all
    next
      case True
      show ?thesis
      proof (cases "parse_directive f args")
        case None
        then show ?thesis using True Cons by simp
      next
        case (Some r)
        obtain fl w p q f' args' where r: "parse_directive f args = Some (fl, w, p, q, f', args')" using Some by (cases r) auto
        have IH: "format_loop (tl f') a k = map_option (\<lambda>t. puts t k) (format_text (tl f') a)" for a k
          by (rule less) (use parse_directive_length [OF r] Cons in simp)
        show ?thesis
        proof (cases "convert_text fl w p q (head_byte f') args'")
          case None
          then show ?thesis using True Cons r by (simp add: convert_puts)
        next
          case u: (Some u)
          obtain t a where "u = (t, a)" by (cases u)
          then show ?thesis using True Cons r u by (cases "format_text (tl f') a") (simp_all add: convert_puts IH)
        qed
      qed
    qed
  qed simp
qed

lemma puts_fields: "sk_str (puts t k) = sk_str k + length t" "sk_end (puts t k) = sk_end k"
  by (induction t arbitrary: k) (simp_all add: put_def)

lemma puts_buf:
  assumes "sk_str k = 0" and "sk_end k \<le> length (sk_buf k)"
  shows "sk_buf (puts t k) = take (min (length t) (sk_end k)) t @ drop (min (length t) (sk_end k)) (sk_buf k)"
proof (induction t rule: rev_induct)
  case (snoc c t)
  have "puts (t @ [c]) k = put c (puts t k)" by (simp add: put_puts)
  then show ?case using snoc assms
    by (cases "length t < sk_end k") (auto simp: put_def puts_fields list_update_append Cons_nth_drop_Suc [symmetric] min_def)
qed simp



subsection \<open>What a caller sees\<close>

lemma vsnprintf_run:
  assumes t: "format_text fmt args = Some t" and n: "n = unat (if buf + sz < buf then 0xffffffff - buf else sz)" "n \<le> length mem" and len: "length t < 2 ^ 31"
  shows "rt_vsnprintf buf sz fmt args mem =
    Some (int (length t), if n = 0 then mem else take (min (length t) (n - 1)) t @ 0 # drop (min (length t) (n - 1) + 1) mem)"
proof -
  define z where "z = (if buf + sz < buf then 0xffffffff - buf else sz)"
  have z: "unat z = n" "z = 0 \<longleftrightarrow> n = 0" using n(1) by (simp_all add: z_def unat_eq_0)
  let ?k = "\<lparr>sk_str = 0, sk_end = unat z, sk_buf = mem\<rparr>"
  define k where "k = puts t ?k"
  have run: "format_loop fmt args ?k = Some k" by (simp add: format_loop_puts t k_def)
  have f: "sk_str k = length t" "sk_end k = n" by (simp_all add: puts_fields z k_def)
  have b: "sk_buf k = take (min (length t) n) t @ drop (min (length t) n) mem"
    using puts_buf [of ?k t] n(2) by (simp add: z k_def)
  have r: "sint (of_nat (length t) :: u32) = int (length t)" using len by (simp add: signed_of_nat signed_take_bit_int_eq_self)
  have mem: "(if length t < n then (sk_buf k)[length t := 0] else (sk_buf k)[n - 1 := 0]) =
      take (min (length t) (n - 1)) t @ 0 # drop (min (length t) (n - 1) + 1) mem" if "n \<noteq> 0"
  proof (cases "length t < n")
    case True
    then have "length t \<le> n - 1" by simp
    then show ?thesis using True n(2) unfolding b by (simp add: list_update_append min_absorb1 Cons_nth_drop_Suc [symmetric])
  next
    case False
    then have m: "min (length t) n = n" "min (length t) (n - 1) = n - 1" "n - 1 + 1 = n" using that by simp_all
    have "(take n t @ drop n mem)[n - 1 := 0] = (take n t)[n - 1 := 0] @ drop n mem" using False that by (simp add: list_update_append)
    also have "(take n t)[n - 1 := 0] = take (n - 1) t @ [0]" using False that by (simp add: upd_conv_take_nth_drop min_def)
    finally show ?thesis using False unfolding b m by simp
  qed
  show ?thesis
  proof (cases "n = 0")
    case True
    then show ?thesis unfolding rt_vsnprintf_def Let_def z_def [symmetric] run using b by (simp add: f r z)
  next
    case False
    then show ?thesis unfolding rt_vsnprintf_def Let_def z_def [symmetric] run using mem [OF False] by (cases "length t < n") (simp_all add: f r z)
  qed
qed


lemma rt_sprintf_writes:
  assumes "format_text fmt args = Some t" and "length t < 2 ^ 31" and "length t + 1 < 2 ^ 32 - unat buf" and "2 ^ 32 - 1 - unat buf \<le> length mem"
  shows "rt_sprintf buf fmt args mem = Some (int (length t), t @ [0] @ drop (length t + 1) mem)"
proof -
  have m: "unat (- 1 :: u32) = 2 ^ 32 - 1" by (simp add: unsigned_minus_1_eq_mask mask_eq_exp_minus_1)
  have n: "unat (if buf + - 1 < buf then 0xffffffff - buf else - 1) = 2 ^ 32 - 1 - unat buf"
  proof (cases "buf = 0")
    case True
    then show ?thesis using m by simp
  next
    case False
    have "buf - 1 < buf" using False by (simp add: word_less_nat_alt unat_minus_one unat_gt_0)
    moreover have "unat (- 1 - buf) = 2 ^ 32 - 1 - unat buf" using unat_sub [of buf "- 1"] m by simp
    moreover have e: "(0xffffffff :: u32) = - 1" by simp
    ultimately show ?thesis unfolding e by simp
  qed
  have "2 ^ 32 - 1 - unat buf \<noteq> 0" "min (length t) (2 ^ 32 - 1 - unat buf - 1) = length t" using assms(3) by simp_all
  then show ?thesis using vsnprintf_run [OF assms(1) n [symmetric] assms(4,2)]
    by (simp add: rt_sprintf_def rt_vsprintf_def)
qed

definition demo_args :: "arg list" where
  "demo_args = [AWord 0xffffffd6, AStr (Some (bytes ''abc'' @ [0])), AWord 0xbeef]"

lemma bind_arg_cong: "m = m' \<Longrightarrow> Option.bind m f = Option.bind m' f"
  by simp

lemmas text_congs = bind_arg_cong prod.case_cong_weak option.case_cong_weak if_weak_cong

lemma word_values: "unat (- 1 :: u32) = 4294967295" "- 4294967254 = (42 :: u32)"
  by (simp_all add: unsigned_minus_1_eq_mask mask_eq_exp_minus_1)

lemma replicate_two: "replicate 2 c = [c, c]"
  by (simp add: numeral_2_eq_2)

lemmas parse_simps = parse_directive_def get_width_def get_precision_def get_qualifier_def ISDIGIT_def Let_def

lemmas text_simps = bytes_def convert_text_def head_byte_def fetch_num_def number_text_def string_text_def char_text_def numeral_text_def numeral_of.simps word_values replicate_two
  digit_text_def sign_of_def prefix_text_def rt_assert_def Let_def


lemma numeral_value: "2 \<le> b \<Longrightarrow> foldl (\<lambda>v d. v * b + d) 0 (numeral_of b n) = n"
proof (induction n rule: less_induct)
  case (less n)
  then show ?case by (cases "n < b") (auto simp: numeral_of.simps [of b n])
qed

lemma numeral_digits: "2 \<le> b \<Longrightarrow> d \<in> set (numeral_of b n) \<Longrightarrow> d < b"
proof (induction n rule: less_induct)
  case (less n)
  then have "n < b \<and> d = n \<or> b \<le> n \<and> (d \<in> set (numeral_of b (n div b)) \<or> d = n mod b)"
    by (auto simp: numeral_of.simps [of b n] split: if_splits)
  moreover have "n div b < n" if "b \<le> n" using that less.prems(1) by (simp add: div_less_dividend)
  moreover have "n mod b < b" using less.prems(1) by simp
  ultimately show ?case using less by blast
qed

lemma uint_u8: "n < 256 \<Longrightarrow> uint (of_nat n :: u8) = int n"
  by (simp add: unsigned_of_nat take_bit_nat_eq_self)

lemma numeral_length: "2 \<le> b \<Longrightarrow> n < b ^ Suc m \<Longrightarrow> length (numeral_of b n) \<le> Suc m"
proof (induction m arbitrary: n)
  case 0
  then show ?case by (simp add: numeral_of.simps [of b n])
next
  case (Suc m)
  have "n div b < b ^ Suc m" using Suc.prems by (intro less_mult_imp_div_less) (simp add: mult.commute)
  then show ?case using Suc by (subst numeral_of.simps) simp
qed

definition read_decimal :: "u8 list \<Rightarrow> int" where
  \<comment> \<open>a reader for decimal numbers with a sign\<close>
  "read_decimal t =
     (let value = (\<lambda>ds. foldl (\<lambda>v c. v * 10 + (uint c - 48)) 0 ds)
      in if t \<noteq> [] \<and> hd t = 45 then - value (tl t) else value t)"

lemma read_digits:
  "\<forall>d \<in> set ds. d < 10 \<Longrightarrow> foldl (\<lambda>v c. v * 10 + (uint c - 48)) (int v) (map (digit_text False) ds) = int (foldl (\<lambda>v d. v * 10 + d) v ds)"
proof (induction ds arbitrary: v)
  case (Cons d ds)
  have "uint (of_nat (48 + d) :: u8) = int (48 + d)" using Cons.prems by (intro uint_u8) simp
  then show ?case using Cons.IH [of "v * 10 + d"] Cons.prems by (simp add: digit_text_def)
qed simp

lemma decimal_text: "format_text (bytes ''%d'') [AWord w] = Some (number_text w 10 0 (- 1) (- 1) {SIGN})"
proof -
  have "bytes ''%d'' = [37, 100]" by (simp add: bytes_def)
  moreover have "parse_directive [100] [AWord w] = Some ({}, - 1, - 1, 0, [100], [AWord w])"
    by (simp add: parse_directive_def get_width_def get_precision_def get_qualifier_def ISDIGIT_def)
  ultimately show ?thesis by (simp add: convert_text_def head_byte_def fetch_num_def Let_def)
qed

lemma read_number_text:
  "read_decimal (number_text w 10 0 (- 1) (- 1) {SIGN}) = sint w" "length (number_text w 10 0 (- 1) (- 1) {SIGN}) \<le> 11"
proof -
  define n where "n = unat (if sint w < 0 then - w else w)"
  define ds where "ds = numeral_text False 10 n"
  have nt: "number_text w 10 0 (- 1) (- 1) {SIGN} = (if sint w < 0 then 45 # ds else ds)"
    by (simp add: number_text_def sign_of_def Let_def ds_def n_def)
  have val: "foldl (\<lambda>v c. v * 10 + (uint c - 48)) 0 ds = int n"
    using read_digits [of "numeral_of 10 n" 0] numeral_digits [of 10 _ n] numeral_value [of 10 n] by (simp add: ds_def numeral_text_def)
  have "ds \<noteq> []" by (simp add: ds_def numeral_text_not_Nil)
  have "hd ds \<noteq> 45"
  proof -
    obtain d rest where d: "numeral_of 10 n = d # rest" using \<open>ds \<noteq> []\<close> by (cases "numeral_of 10 n") (auto simp: ds_def numeral_text_def)
    then have "d < 10" using numeral_digits [of 10 d n] by simp
    then have "uint (of_nat (48 + d) :: u8) = int (48 + d)" by (intro uint_u8) simp
    then have "uint (hd ds) \<noteq> 45" using d \<open>d < 10\<close> by (simp add: ds_def numeral_text_def digit_text_def)
    then show ?thesis by auto
  qed
  moreover have "int n = (if sint w < 0 then - sint w else sint w)"
  proof -
    have u: "uint w = sint w mod 2 ^ 32" by (simp add: uint_sint take_bit_eq_mod)
    have b: "- (2 ^ 31) \<le> sint w" "sint w < 2 ^ 31" using sint_greater_eq [of w] sint_less [of w] by simp_all
    show ?thesis
    proof (cases "sint w < 0")
      case True
      have "uint (- w) = (- uint w) mod 2 ^ 32" by (simp add: uint_word_ariths)
      also have "\<dots> = (- sint w) mod 2 ^ 32" unfolding u by (simp add: mod_minus_eq)
      finally show ?thesis using True b by (simp add: n_def)
    next
      case False
      then show ?thesis using u b by (simp add: n_def)
    qed
  qed
  ultimately show "read_decimal (number_text w 10 0 (- 1) (- 1) {SIGN}) = sint w"
    unfolding nt using val by (auto simp: read_decimal_def)
  have "n < 2 ^ LENGTH(32)" unfolding n_def by (rule unsigned_less)
  then have "n < 10 ^ Suc 9" by simp
  then have "length ds \<le> 10" using numeral_length [of 10 n 9] by (simp add: ds_def numeral_text_def)
  then show "length (number_text w 10 0 (- 1) (- 1) {SIGN}) \<le> 11" unfolding nt by simp
qed

text \<open>
  C29. A signed number that is printed reads back as it was, for every value of the 32 bits; twelve bytes are always enough for it.
\<close>
theorem print_decimal_roundtrip:
  assumes "12 \<le> unat sz" and "unat buf + unat sz < 2 ^ 32" and "unat sz \<le> length mem"
  shows "\<exists>t. rt_snprintf buf sz (bytes ''%d'') [AWord w] mem = Some (int (length t), t @ 0 # drop (length t + 1) mem) \<and> read_decimal t = sint w"
proof -
  let ?t = "number_text w 10 0 (- 1) (- 1) {SIGN}"
  have "length ?t < 2 ^ 31" using read_number_text(2) [of w] by simp
  moreover have "sz \<noteq> 0" using assms(1) by auto
  moreover have "unat (if buf + sz < buf then 0xffffffff - buf else sz) = unat sz" using assms(2) by (simp add: word_less_nat_alt unat_word_ariths)
  ultimately show ?thesis
    using vsnprintf_run [OF decimal_text refl, of buf sz mem w] read_number_text [of w] assms(1,3) by (auto simp: rt_snprintf_def)
qed

theorem print_decimal_roundtrip_witness:
  "\<exists>t. rt_snprintf 0x20000000 12 (bytes ''%d'') [AWord 0x80000000] (replicate 12 0) = Some (int (length t), t @ 0 # drop (length t + 1) (replicate 12 0)) \<and>
     read_decimal t = - (2 ^ 31)"
  using print_decimal_roundtrip [of 12 "0x20000000" "replicate 12 0" "0x80000000"] by simp

lemma snprintf_8: "format_text fmt args = Some t \<Longrightarrow> length t < 8 \<Longrightarrow>
    rt_snprintf 0x20000000 8 fmt args (replicate 8 7) = Some (int (length t), t @ 0 # replicate (7 - length t) 7)"
  using vsnprintf_run [of fmt args t _ "0x20000000" 8 "replicate 8 7"] by (simp add: rt_snprintf_def)


end
