(* ===== verification/SysHeap.thy ===== *)
theory SysHeap
  imports SmallMemApi KLibMem
begin

text \<open>
  The heap of the system (kservice.c): \<open>rt_malloc\<close> and its relatives over the small-memory heap of mem.c. A pointer is a 32-bit address, 0 is \<open>RT_NULL\<close>; the bytes
  of the memory are those of \<open>KLibMem\<close>. The lock that makes each call one step, and the hooks, which this program does not set, are left out.
\<close>

record sys_heap =
  sh_ptr :: u32
  sh_small :: small_mem
  sh_mem :: memory

definition rt_system_heap_init_generic :: "u32 \<Rightarrow> u32 \<Rightarrow> (nat \<Rightarrow> mem_item) \<Rightarrow> memory \<Rightarrow> sys_heap option option" where
  \<comment> \<open>\<open>Some None\<close>: there is no heap, the area is too small; \<open>items\<close> and \<open>mem\<close> are what the area held before\<close>
  "rt_system_heap_init_generic begin_addr end_addr items mem =
     (let begin_align = RT_ALIGN begin_addr RT_ALIGN_SIZE;
          end_align = RT_ALIGN_DOWN end_addr RT_ALIGN_SIZE
      in do {
        rt_assert (end_align > begin_align);
        Some (map_option (\<lambda>(p, m). \<lparr>sh_ptr = p, sh_small = m, sh_mem = mem\<rparr>) (rt_smem_init begin_align (end_align - begin_align) items))
      })"

definition rt_malloc :: "u32 \<Rightarrow> sys_heap \<Rightarrow> (u32 \<times> sys_heap) option" where
  "rt_malloc sz h = do {
     (r, m) \<leftarrow> rt_smem_alloc sz (sh_small h);
     Some (case r of None \<Rightarrow> 0 | Some p \<Rightarrow> sh_ptr h + of_nat p, h\<lparr>sh_small := m\<rparr>)
   }"

definition block_of :: "u32 \<Rightarrow> sys_heap \<Rightarrow> nat option" where
  \<comment> \<open>the argument of the heap's routines\<close>
  "block_of ptr h = (if ptr = 0 then None else Some (unat (ptr - sh_ptr h)))"

definition rt_free :: "u32 \<Rightarrow> sys_heap \<Rightarrow> sys_heap option" where
  "rt_free ptr h =
     (if ptr = 0 then Some h
      else do {
        m \<leftarrow> rt_smem_free (block_of ptr h) (sh_small h);
        Some (h\<lparr>sh_small := m\<rparr>)
      })"

definition rt_realloc :: "u32 \<Rightarrow> u32 \<Rightarrow> sys_heap \<Rightarrow> (u32 \<times> sys_heap) option" where
  \<comment> \<open>the bytes it copies are not part of this definition\<close>
  "rt_realloc ptr newsize h = do {
     (r, m) \<leftarrow> rt_smem_realloc (block_of ptr h) newsize (sh_small h);
     Some (case r of None \<Rightarrow> 0 | Some p \<Rightarrow> sh_ptr h + of_nat p, h\<lparr>sh_small := m\<rparr>)
   }"

definition rt_calloc :: "u32 \<Rightarrow> u32 \<Rightarrow> sys_heap \<Rightarrow> (u32 \<times> sys_heap) option" where
  "rt_calloc count sz h = do {
     (p, h) \<leftarrow> rt_malloc (count * sz) h;
     if p \<noteq> 0 then do {
       mem \<leftarrow> rt_memset (unat p) 0 (count * sz) (sh_mem h);
       Some (p, h\<lparr>sh_mem := mem\<rparr>)
     } else Some (p, h)
   }"

definition rt_memory_info :: "sys_heap \<Rightarrow> nat \<times> nat \<times> nat" where
  "rt_memory_info h = (sm_aligned (sh_small h), sm_used (sh_small h), sm_max (sh_small h))"

definition word_bytes :: "u32 \<Rightarrow> u8 list" where
  \<comment> \<open>a word in memory, the lowest byte first\<close>
  "word_bytes w = [ucast w, ucast (drop_bit 8 w), ucast (drop_bit 16 w), ucast (drop_bit 24 w)]"

definition bytes_word :: "u8 list \<Rightarrow> u32" where
  "bytes_word bs = foldr (\<lambda>b w. ucast b OR push_bit 8 w) bs 0"

definition rt_malloc_align :: "u32 \<Rightarrow> u32 \<Rightarrow> sys_heap \<Rightarrow> (u32 \<times> sys_heap) option" where
  "rt_malloc_align sz align h = do {
     let uintptr_size = 3;
     let align = (align + uintptr_size) AND NOT uintptr_size;
     let align_size = ((sz + uintptr_size) AND NOT uintptr_size) + align;
     (ptr, h) \<leftarrow> rt_malloc align_size h;
     if ptr \<noteq> 0 then do {
       let align_ptr = (if ptr AND (align - 1) = 0 then ptr + align else (ptr + (align - 1)) AND NOT (align - 1));
       mem \<leftarrow> store_bytes (unat (align_ptr - 4)) (word_bytes ptr) (sh_mem h);
       Some (align_ptr, h\<lparr>sh_mem := mem\<rparr>)
     } else Some (ptr, h)
   }"

definition rt_free_align :: "u32 \<Rightarrow> sys_heap \<Rightarrow> sys_heap option" where
  "rt_free_align ptr h =
     (if ptr = 0 then Some h
      else do {
        bs \<leftarrow> load_bytes (unat (ptr - 4)) 4 (sh_mem h);
        rt_free (bytes_word bs) h
      })"


subsection \<open>Words and powers of two\<close>

lemma bytes_word_bytes: "bytes_word (word_bytes w) = w"
proof (rule bit_word_eqI)
  fix n
  assume "n < LENGTH(32)"
  moreover have "n < 8 \<or> 8 + (n - 8) = n" "n - 8 < 8 \<or> 16 + (n - 16) = n" "n - 16 < 8 \<or> 24 + (n - 24) = n" by arith+
  ultimately show "bit (bytes_word (word_bytes w)) n = bit w n"
    by (auto simp: bytes_word_def word_bytes_def bit_simps)
qed

lemma pow2_minus_1: "(2 :: u32) ^ k - 1 = mask k"
  by (simp add: mask_eq_exp_minus_1)

lemma and_low: "unat (x AND (2 ^ k - 1)) = unat (x :: u32) mod 2 ^ k"
proof -
  have "unat (take_bit k x) = take_bit k (unat x)" by (rule unsigned_take_bit_eq)
  then show ?thesis unfolding pow2_minus_1 take_bit_eq_mask [symmetric] by (simp only: take_bit_eq_mod)
qed

lemma and_high: "unat (x AND NOT (2 ^ k - 1)) = unat (x :: u32) div 2 ^ k * 2 ^ k"
proof -
  let ?m = "2 ^ k - 1 :: u32"
  have "(x AND ?m) + (x AND NOT ?m) = (x AND ?m) OR (x AND NOT ?m)" by (rule disjunctive_add) (auto simp: bit_simps)
  also have "\<dots> = x" by (simp flip: bit.conj_disj_distrib)
  finally have "x AND NOT ?m = x - (x AND ?m)" by (simp add: algebra_simps)
  moreover have "x AND ?m \<le> x" by (rule word_and_le2)
  ultimately have "unat (x AND NOT ?m) = unat x - unat x mod 2 ^ k" by (simp add: unat_sub and_low)
  then show ?thesis by (simp add: minus_mod_eq_div_mult)
qed


lemma unat_pow2:
  assumes "k < 32"
  shows "unat ((2 :: u32) ^ k) = 2 ^ k"
proof -
  have "(2 :: nat) ^ k < 2 ^ 32" using assms by (intro power_strict_increasing) simp_all
  then have "unat (of_nat (2 ^ k) :: u32) = 2 ^ k" by (simp add: unsigned_of_nat take_bit_nat_eq_self assms del: of_nat_power)
  then show ?thesis by simp
qed


subsection \<open>A heap in memory\<close>

definition sys_ok :: "sys_heap \<Rightarrow> bool" where
  \<comment> \<open>the heap is well formed, aligned, does not wrap around the end of the address space, and there is memory behind all of it\<close>
  "sys_ok h \<longleftrightarrow> heap_ok (sh_small h) \<and> unat (sh_ptr h) mod 8 = 0 \<and> sh_ptr h \<noteq> 0 \<and> unat (sh_ptr h) + sm_end (sh_small h) < 2 ^ 32 \<and>
     area (unat (sh_ptr h)) (sm_end (sh_small h)) (sh_mem h)"

definition sys_live :: "sys_heap \<Rightarrow> (nat \<times> nat) set" where
  \<comment> \<open>the blocks in use, by their addresses\<close>
  "sys_live h = (\<lambda>(p, n). (unat (sh_ptr h) + p, n)) ` heap_live (sh_small h)"

lemma alloc_none: "heap_ok m \<Longrightarrow> rt_smem_alloc sz m = Some (None, m') \<Longrightarrow> m' = m"
  using rt_smem_alloc_first_fit [of m sz] by (cases "sz = 0") (auto simp: rt_smem_alloc_def split: option.splits)

lemma live_range: "heap_ok m \<Longrightarrow> (p, n) \<in> heap_live m \<Longrightarrow> p + n \<le> sm_end m \<and> 0 < n"
  using heap.inside heap_blocks_iff by blast

lemma live_aligned:
  assumes "heap_ok m" and "(p, n) \<in> heap_live m"
  shows "8 dvd p"
proof -
  have r: "sm_rep m (heap_list m)" using assms(1) by (simp add: heap_ok_def)
  obtain xs k ys where x: "heap_list m = xs @ (k, True) # ys" "p = total_size xs + 16" using live_at_in assms(2) by (fastforce simp: heap_live_def)
  have "hrep it pv off bs e \<Longrightarrow> \<forall>b \<in> set bs. 8 dvd fst b" for it pv off bs e
    by (induction it pv off bs e rule: hrep.induct) (auto simp: block_ok_def)
  then have "\<forall>b \<in> set (heap_list m). 8 dvd fst b" using r unfolding sm_rep_def links_ok_def by blast
  then have "\<forall>b \<in> set xs. 8 dvd fst b" by (simp add: x(1))
  then have "8 dvd total_size xs" by (induction xs) auto
  then show ?thesis by (simp add: x(2))
qed

lemma unat_block: "unat b + p < 2 ^ 32 \<Longrightarrow> unat (b + of_nat p :: u32) = unat b + p"
  by (simp add: unat_word_ariths unsigned_of_nat take_bit_nat_eq_self)

lemma malloc_run:
  assumes ok: "sys_ok h"
  shows "rt_malloc sz h = Some (0, h) \<or>
    (\<exists>p n h'. rt_malloc sz h = Some (p, h') \<and> sys_ok h' \<and> sh_ptr h' = sh_ptr h \<and> sh_mem h' = sh_mem h \<and> p \<noteq> 0 \<and> unat p mod 8 = 0 \<and> request_size sz \<le> n \<and>
      (unat p, n) \<notin> sys_live h \<and> sys_live h' = insert (unat p, n) (sys_live h) \<and> unat p + n < 2 ^ 32 \<and> area (unat p) n (sh_mem h))"
proof -
  have H: "heap_ok (sh_small h)" "unat (sh_ptr h) mod 8 = 0" "sh_ptr h \<noteq> 0" "unat (sh_ptr h) + sm_end (sh_small h) < 2 ^ 32"
    "area (unat (sh_ptr h)) (sm_end (sh_small h)) (sh_mem h)" using ok by (simp_all add: sys_ok_def)
  obtain r m where A: "rt_smem_alloc sz (sh_small h) = Some (r, m)" "heap_ok m" "sm_end m = sm_end (sh_small h)"
    "case r of None \<Rightarrow> heap_live m = heap_live (sh_small h)
     | Some p \<Rightarrow> \<exists>k \<ge> request_size sz. (p, k) \<notin> heap_live (sh_small h) \<and> heap_live m = insert (p, k) (heap_live (sh_small h))"
    using heap_alloc [OF H(1)] by blast
  show ?thesis
  proof (cases r)
    case None
    then have "m = sh_small h" using A(1) alloc_none [OF H(1)] by blast
    then show ?thesis using A(1) None by (simp add: rt_malloc_def)
  next
    case (Some q)
    then obtain n where n: "request_size sz \<le> n" "(q, n) \<notin> heap_live (sh_small h)" "heap_live m = insert (q, n) (heap_live (sh_small h))" using A(4) by auto
    have rg: "q + n \<le> sm_end m" "0 < n" using live_range [OF A(2), of q n] n(3) by simp_all
    let ?h = "h\<lparr>sh_small := m\<rparr>" and ?p = "sh_ptr h + of_nat q"
    have p: "unat ?p = unat (sh_ptr h) + q" using unat_block [of "sh_ptr h" q] rg A(3) H(4) by simp
    have "8 dvd q" using live_aligned [OF A(2)] n(3) by blast
    then have "unat ?p mod 8 = 0" using H(2) unfolding p by (simp add: mod_add_eq [symmetric] dvd_eq_mod_eq_0)
    moreover have "?p \<noteq> 0" using p H(3) by (metis add_is_0 unat_eq_zero)
    moreover have "area (unat ?p) n (sh_mem h)" unfolding p
      using H(5) rg A(3) by (metis add.assoc nat_add_left_cancel_less order_less_le_trans)
    moreover have "sys_ok ?h" using ok A(2,3) by (simp add: sys_ok_def)
    moreover have "sys_live ?h = insert (unat ?p, n) (sys_live h)" "(unat ?p, n) \<notin> sys_live h" unfolding p using n(2,3) by (auto simp: sys_live_def)
    moreover have "unat ?p + n < 2 ^ 32" using p rg A(3) H(4) by simp
    moreover have "rt_malloc sz h = Some (?p, ?h)" using A(1) Some by (simp add: rt_malloc_def)
    ultimately show ?thesis using n(1) by (intro disjI2 exI [of _ ?p] exI [of _ n] exI [of _ ?h]) simp
  qed
qed


lemma free_run:
  assumes ok: "sys_ok h" and p: "(unat p, n) \<in> sys_live h"
  shows "\<exists>h'. rt_free p h = Some h' \<and> sys_ok h' \<and> sys_live h' = sys_live h - {(unat p, n)}"
proof -
  have H: "heap_ok (sh_small h)" "sh_ptr h \<noteq> 0" "unat (sh_ptr h) + sm_end (sh_small h) < 2 ^ 32" using ok by (simp_all add: sys_ok_def)
  obtain q where q: "unat p = unat (sh_ptr h) + q" "(q, n) \<in> heap_live (sh_small h)" using p by (auto simp: sys_live_def)
  have "p \<noteq> 0" using q(1) H(2) by (metis add_is_0 unat_eq_zero unat_0)
  have "sh_ptr h \<le> p" by (simp add: word_le_nat_alt q(1))
  then have "unat (p - sh_ptr h) = q" using q(1) by (simp add: unat_sub)
  then have b: "block_of p h = Some q" using \<open>p \<noteq> 0\<close> by (simp add: block_of_def)
  have "q \<in> fst ` heap_blocks (sh_small h)" using q(2) by force
  from heap.release_ok [OF H(1) this] obtain m where
    m: "rt_smem_free (Some q) (sh_small h) = Some m" "heap_ok m" "sm_end m = sm_end (sh_small h)" "heap_blocks m = {b \<in> heap_blocks (sh_small h). fst b \<noteq> q}" by blast
  have l: "(a, k) \<in> heap_live m \<longleftrightarrow> (a, k) \<in> heap_live (sh_small h) \<and> a \<noteq> q" for a k
  proof -
    have "(a, a, k) \<in> heap_blocks m \<longleftrightarrow> (a, a, k) \<in> heap_blocks (sh_small h) \<and> a \<noteq> q" unfolding m(4) by simp
    then show ?thesis by simp
  qed
  have "k = n" if "(q, k) \<in> heap_live (sh_small h)" for k using heap_live_unique [OF H(1) that q(2)] by simp
  then have "heap_live m = heap_live (sh_small h) - {(q, n)}" using l by auto
  then have "sys_live (h\<lparr>sh_small := m\<rparr>) = (\<lambda>(p, n). (unat (sh_ptr h) + p, n)) ` (heap_live (sh_small h) - {(q, n)})" by (simp add: sys_live_def)
  also have "\<dots> = sys_live h - (\<lambda>(p, n). (unat (sh_ptr h) + p, n)) ` {(q, n)}" unfolding sys_live_def
    by (rule image_set_diff) (auto simp: inj_def)
  finally have "sys_live (h\<lparr>sh_small := m\<rparr>) = sys_live h - {(unat p, n)}" by (simp add: q(1))
  moreover have "rt_free p h = Some (h\<lparr>sh_small := m\<rparr>)" using b m(1) \<open>p \<noteq> 0\<close> by (simp add: rt_free_def)
  moreover have "sys_ok (h\<lparr>sh_small := m\<rparr>)" using ok m(2,3) by (simp add: sys_ok_def)
  ultimately show ?thesis by blast
qed

text \<open>
  Zeroed memory: the block \<open>rt_calloc\<close> returns has room for the whole array, is apart from every other block, holds zeros and nothing else in the memory
  changes; provided that the product of the two sizes fits in 32 bits.
\<close>
theorem rt_calloc_zeroed:
  assumes "sys_ok h" and "unat count * unat sz \<le> 0xfffffff0"
  shows "rt_calloc count sz h = Some (0, h) \<or>
    (\<exists>p n h'. rt_calloc count sz h = Some (p, h') \<and> sys_ok h' \<and> unat count * unat sz \<le> n \<and> (unat p, n) \<notin> sys_live h \<and>
      sys_live h' = insert (unat p, n) (sys_live h) \<and> (\<forall>i < unat count * unat sz. sh_mem h' (unat p + i) = Some 0) \<and>
      (\<forall>a. a < unat p \<or> unat p + unat count * unat sz \<le> a \<longrightarrow> sh_mem h' a = sh_mem h a))"
proof -
  have u: "unat (count * sz) = unat count * unat sz" using assms(2) by (simp add: unat_word_ariths)
  from malloc_run [OF assms(1), of "count * sz"] show ?thesis
  proof (elim disjE exE conjE)
    assume "rt_malloc (count * sz) h = Some (0, h)"
    then show ?thesis by (simp add: rt_calloc_def)
  next
    fix p n h'
    assume A: "rt_malloc (count * sz) h = Some (p, h')" "sys_ok h'" "sh_ptr h' = sh_ptr h" "sh_mem h' = sh_mem h" "p \<noteq> 0" "request_size (count * sz) \<le> n"
      "(unat p, n) \<notin> sys_live h" "sys_live h' = insert (unat p, n) (sys_live h)" "unat p + n < 2 ^ 32" "area (unat p) n (sh_mem h)"
    have n: "unat count * unat sz \<le> n" using request_size_ge [of "count * sz"] A(6) assms(2) u by (simp add: word_le_nat_alt)
    let ?m = "fill_ref (unat p) (unat count * unat sz) 0 (sh_mem h)"
    have "area (unat p) (unat (count * sz)) (sh_mem h')" using A(4,10) n u by simp
    from rt_memset_fills [OF this, of 0] have "rt_memset (unat p) 0 (count * sz) (sh_mem h') = Some ?m" using u A(4) by simp
    then have "rt_calloc count sz h = Some (p, h'\<lparr>sh_mem := ?m\<rparr>)" using A(1,5) by (simp add: rt_calloc_def)
    moreover have "sys_ok (h'\<lparr>sh_mem := ?m\<rparr>)" using A(2,4) by (auto simp: sys_ok_def fill_ref_def)
    moreover have "sys_live (h'\<lparr>sh_mem := ?m\<rparr>) = insert (unat p, n) (sys_live h)" using A(8) by (simp add: sys_live_def)
    ultimately show ?thesis using n A(7) by (intro disjI2 exI [of _ p] exI [of _ n] exI [of _ "h'\<lparr>sh_mem := ?m\<rparr>"]) (simp add: fill_ref_def)
  qed
qed

lemma align_up:
  assumes "2 \<le> k" and "k < 32" and "unat (x :: u32) + 2 ^ k \<le> 2 ^ 32"
  shows "unat ((x + (2 ^ k - 1)) AND NOT (2 ^ k - 1)) = (unat x + 2 ^ k - 1) div 2 ^ k * 2 ^ k"
proof -
  have m: "unat ((2 :: u32) ^ k - 1) = 2 ^ k - 1" using unat_pow2 [OF assms(2)] by (simp add: unat_sub word_le_nat_alt)
  have "unat (x + (2 ^ k - 1)) = unat x + 2 ^ k - 1" using m assms(3) by (simp add: unat_word_ariths mod_less)
  then show ?thesis by (simp add: and_high)
qed

lemma aligned_address:
  assumes k: "2 \<le> k" "k < 32" and p: "unat (p :: u32) mod 8 = 0" and n: "unat p + 2 ^ k < 2 ^ 32"
  defines "a \<equiv> (if p AND (2 ^ k - 1) = 0 then p + 2 ^ k else (p + (2 ^ k - 1)) AND NOT (2 ^ k - 1))"
  shows "unat a mod 2 ^ k = 0" "unat p + 4 \<le> unat a" "unat a \<le> unat p + 2 ^ k"
proof -
  let ?a = "2 ^ k :: nat"
  have z: "p AND (2 ^ k - 1) = 0 \<longleftrightarrow> unat p mod ?a = 0" using and_low [of p k] by (simp add: unat_eq_0 [symmetric] del: unat_eq_0)
  have p4: "4 \<le> ?a" using power_increasing [OF k(1), of "2 :: nat"] by simp
  have "unat a mod ?a = 0 \<and> unat p + 4 \<le> unat a \<and> unat a \<le> unat p + ?a"
  proof (cases "unat p mod ?a = 0")
    case True
    have "unat (p + 2 ^ k) = unat p + ?a" using n unat_pow2 [OF k(2)] by (simp add: unat_word_ariths)
    then show ?thesis using True z p4 by (simp add: a_def)
  next
    case False
    define d where "d = unat p div ?a"
    have e: "unat p = d * ?a + unat p mod ?a" unfolding d_def by (rule div_mult_mod_eq [symmetric])
    have r: "0 < unat p mod ?a" "unat p mod ?a < ?a" using False by simp_all
    have ua: "unat a = (unat p + ?a - 1) div ?a * ?a" using align_up [OF k, of p] n False z by (simp add: a_def)
    have "unat p + ?a - 1 = (unat p mod ?a - 1) + (d + 1) * ?a" using e r by (simp add: algebra_simps)
    moreover have "((unat p mod ?a - 1) + (d + 1) * ?a) div ?a = (d + 1) + (unat p mod ?a - 1) div ?a" by (rule div_mult_self1) simp
    moreover have "(unat p mod ?a - 1) div ?a = 0" using r by (intro div_less) linarith
    ultimately have "(unat p + ?a - 1) div ?a = d + 1" by simp
    then have a: "unat a = (d + 1) * ?a" unfolding ua by simp
    have a': "unat a = d * ?a + ?a" unfolding a by simp
    have "8 dvd ?a"
    proof (rule ccontr)
      assume "\<not> 8 dvd ?a"
      then have "k < 3" using le_imp_power_dvd [of 3 k "2 :: nat"] by (cases "k < 3") simp_all
      then have "k = 2" using k(1) by simp
      have "8 dvd unat p" using p by (rule mod_0_imp_dvd)
      moreover have "(4 :: nat) dvd 8" by simp
      ultimately have "4 dvd unat p" using dvd_trans by blast
      with \<open>k = 2\<close>
      show False using False by simp
    qed
    then have "8 dvd unat a" unfolding a by simp
    moreover have "8 dvd unat p" using p by (simp add: mod_0_imp_dvd)
    ultimately have "8 dvd unat a - unat p" by (simp add: dvd_diff_nat)
    moreover have "unat p < unat a" unfolding a' using e r by linarith
    ultimately have "8 \<le> unat a - unat p" by (meson dvd_imp_le zero_less_diff)
    moreover have "unat a \<le> unat p + ?a" unfolding a' using e by linarith
    ultimately show ?thesis using a by simp
  qed
  then show "unat a mod 2 ^ k = 0" "unat p + 4 \<le> unat a" "unat a \<le> unat p + 2 ^ k" by simp_all
qed


lemma word_bytes_length: "length (word_bytes w) = 4"
  by (simp add: word_bytes_def)

lemma store_word: "area a 4 m \<Longrightarrow> \<exists>m'. store_bytes a (word_bytes w) m = Some m' \<and> load_bytes a 4 m' = Some (word_bytes w) \<and>
    (\<forall>x. x < a \<or> a + 4 \<le> x \<longrightarrow> m' x = m x) \<and> (\<forall>x. m x \<noteq> None \<longrightarrow> m' x \<noteq> None)"
proof -
  assume "area a 4 m"
  then have h: "m (a + i) \<noteq> None" if "i < 4" for i using that by blast
  have "m (a + 0) \<noteq> None" "m (a + 1) \<noteq> None" "m (a + 2) \<noteq> None" "m (a + 3) \<noteq> None" by (rule h; simp)+
  then show ?thesis by (simp add: word_bytes_def store_def numeral_eq_Suc)
qed

lemma load_bytes_cong: "\<forall>i<n. m' (a + i) = m (a + i) \<Longrightarrow> load_bytes a n m' = load_bytes a n m"
proof (induction n arbitrary: a)
  case (Suc n)
  have "m' (a + 1 + i) = m (a + 1 + i)" if "i < n" for i using Suc.prems that by (metis Suc_less_eq add.assoc plus_1_eq_Suc)
  moreover have "m' a = m a" using Suc.prems by (metis add_0_right zero_less_Suc)
  ultimately show ?case using Suc.IH [of "a + 1"] by simp
qed simp

text \<open>
  C31. Aligned memory: for every power of two from four on the address is a multiple of it, the requested bytes and the hidden word in front of them are inside a new
  block of the heap, and however the memory and the heap are used in between, as long as that word is kept, \<open>rt_free_align\<close> gives back exactly this block.
\<close>
theorem rt_malloc_align_frees:
  assumes "sys_ok h" and "2 \<le> k" and "k < 32" and "unat sz + 2 ^ k + 3 \<le> 0xfffffff0"
  shows "rt_malloc_align sz (2 ^ k) h = Some (0, h) \<or>
    (\<exists>p q n h'. rt_malloc_align sz (2 ^ k) h = Some (p, h') \<and> sys_ok h' \<and> unat p mod 2 ^ k = 0 \<and> q + 4 \<le> unat p \<and> unat p + unat sz \<le> q + n \<and>
      (q, n) \<notin> sys_live h \<and> sys_live h' = insert (q, n) (sys_live h) \<and>
      (\<forall>h2. sys_ok h2 \<and> (q, n) \<in> sys_live h2 \<and> (\<forall>i<4. sh_mem h2 (unat p - 4 + i) = sh_mem h' (unat p - 4 + i)) \<longrightarrow>
        (\<exists>h3. rt_free_align p h2 = Some h3 \<and> sys_ok h3 \<and> sys_live h3 = sys_live h2 - {(q, n)})))"
proof -
  let ?a = "2 ^ k :: nat" and ?s = "((sz + 3) AND NOT 3) + (2 ^ k :: u32)"
  have a4: "4 \<le> ?a" "4 dvd ?a" using power_increasing [OF assms(2), of "2 :: nat"] le_imp_power_dvd [OF assms(2), of "2 :: nat"] by simp_all
  have ua: "unat (2 ^ k :: u32) = ?a" by (rule unat_pow2 [OF assms(3)])
  have three: "(3 :: u32) = 2 ^ 2 - 1" by simp
  have "unat ((2 ^ k + 3 :: u32) AND NOT 3) = (?a + 3) div 4 * 4"
    unfolding three using align_up [of 2 "2 ^ k"] ua assms(4) by simp
  also have "\<dots> = ?a" using a4(2) by (auto elim!: dvdE)
  finally have al: "(2 ^ k + 3 :: u32) AND NOT 3 = 2 ^ k" using ua by (simp add: word_unat_eq_iff)
  have us: "unat ((sz + 3) AND NOT 3) = (unat sz + 3) div 4 * 4" unfolding three using align_up [of 2 sz] assms(4) by simp
  have "unat sz \<le> (unat sz + 3) div 4 * 4" "(unat sz + 3) div 4 * 4 \<le> unat sz + 3" by simp_all
  then have s: "unat ?s = (unat sz + 3) div 4 * 4 + ?a" "unat sz + ?a \<le> unat ?s" "unat ?s \<le> 0xfffffff0"
    using us ua assms(4) by (simp_all add: unat_word_ariths)
  have run: "rt_malloc_align sz (2 ^ k) h = do {
     (ptr, h) \<leftarrow> rt_malloc ?s h;
     if ptr \<noteq> 0 then do {
       let align_ptr = (if ptr AND (2 ^ k - 1) = 0 then ptr + 2 ^ k else (ptr + (2 ^ k - 1)) AND NOT (2 ^ k - 1));
       mem \<leftarrow> store_bytes (unat (align_ptr - 4)) (word_bytes ptr) (sh_mem h);
       Some (align_ptr, h\<lparr>sh_mem := mem\<rparr>)
     } else Some (ptr, h)
   }" unfolding rt_malloc_align_def Let_def al by (rule refl)
  from malloc_run [OF assms(1), of ?s] show ?thesis
  proof (elim disjE exE conjE)
    assume "rt_malloc ?s h = Some (0, h)"
    then show ?thesis using run by simp
  next
    fix b n h'
    assume A: "rt_malloc ?s h = Some (b, h')" "sys_ok h'" "sh_ptr h' = sh_ptr h" "sh_mem h' = sh_mem h" "b \<noteq> 0" "unat b mod 8 = 0" "request_size ?s \<le> n"
      "(unat b, n) \<notin> sys_live h" "sys_live h' = insert (unat b, n) (sys_live h)" "unat b + n < 2 ^ 32" "area (unat b) n (sh_mem h)"
    define p where "p = (if b AND (2 ^ k - 1) = 0 then b + 2 ^ k else (b + (2 ^ k - 1)) AND NOT (2 ^ k - 1))"
    have n: "unat ?s \<le> n" using request_size_ge [of ?s] A(7) s(3) by (simp add: word_le_nat_alt)
    have "unat b + ?a < 2 ^ 32" using n s(2) A(10) by linarith
    note P = aligned_address [OF assms(2,3) A(6) this, folded p_def]
    have p4: "unat (p - 4) = unat p - 4" using P(2) by (simp add: unat_sub word_le_nat_alt)
    have "area (unat p - 4) 4 (sh_mem h)"
    proof (intro allI impI)
      fix i :: nat
      assume "i < 4"
      then have "unat p - 4 + i = unat b + (unat p - 4 - unat b + i)" "unat p - 4 - unat b + i < n" using P n s(2) by linarith+
      then show "sh_mem h (unat p - 4 + i) \<noteq> None" using A(11) by metis
    qed
    from store_word [OF this, of b] obtain m where m: "store_bytes (unat p - 4) (word_bytes b) (sh_mem h) = Some m" "load_bytes (unat p - 4) 4 m = Some (word_bytes b)"
      "\<forall>x. sh_mem h x \<noteq> None \<longrightarrow> m x \<noteq> None" by blast
    let ?h = "h'\<lparr>sh_mem := m\<rparr>"
    have R: "rt_malloc_align sz (2 ^ k) h = Some (p, ?h)" unfolding run using A(1,4,5) m(1) p4 by (simp add: p_def [symmetric] Let_def)
    have ok: "sys_ok ?h" "sys_live ?h = insert (unat b, n) (sys_live h)" using A(2,4,9) m(3) by (simp_all add: sys_ok_def sys_live_def)
    have "p \<noteq> 0" using P(2) by auto
    have F: "\<exists>h3. rt_free_align p h2 = Some h3 \<and> sys_ok h3 \<and> sys_live h3 = sys_live h2 - {(unat b, n)}"
      if h2: "sys_ok h2" "(unat b, n) \<in> sys_live h2" "\<forall>i<4. sh_mem h2 (unat p - 4 + i) = m (unat p - 4 + i)" for h2
    proof -
      have "load_bytes (unat p - 4) 4 (sh_mem h2) = Some (word_bytes b)" using load_bytes_cong [OF h2(3)] m(2) by simp
      then have "rt_free_align p h2 = rt_free b h2" using \<open>p \<noteq> 0\<close> p4 by (simp add: rt_free_align_def bytes_word_bytes)
      then show ?thesis using free_run [OF h2(1,2)] by simp
    qed
    have "unat p + unat sz \<le> unat b + n" using P(3) n s(2) by linarith
    then show ?thesis
      using R ok A(8) P(1,2) F by (intro disjI2 exI [of _ p] exI [of _ "unat b"] exI [of _ n] exI [of _ ?h]) simp
  qed
qed


subsection \<open>A concrete heap, and requests that wrap\<close>

definition demo_sys :: sys_heap where
  "demo_sys = \<lparr>sh_ptr = 0x20000000, sh_small = demo_heap, sh_mem = (\<lambda>a. Some 7)\<rparr>"

lemma demo_sys_ok: "sys_ok demo_sys" "sys_live demo_sys = {(0x20000010, 24)}"
  using demo_heap_ok by (simp_all add: sys_ok_def sys_live_def demo_sys_def demo_heap_def)

lemma demo_malloc: "request_size sz \<le> 144 \<Longrightarrow> sz \<noteq> 0 \<Longrightarrow> \<exists>h. rt_malloc sz demo_sys = Some (0x20000038, h)"
  using rt_smem_alloc_some [of demo_heap "[(40, True)]" 160 "[]" sz] demo_heap_ok by (auto simp: rt_malloc_def demo_sys_def heap_ok_def)

theorem rt_calloc_zeroed_witness:
  "\<exists>h'. rt_calloc 3 8 demo_sys = Some (0x20000038, h') \<and> sys_ok h' \<and> (\<forall>i < 24. sh_mem h' (0x20000038 + i) = Some 0)"
proof -
  have "request_size 24 = 24" by (simp add: request_size_def RT_ALIGN_def RT_ALIGN_SIZE_def MIN_SIZE_ALIGNED_def)
  then obtain h where "rt_malloc 24 demo_sys = Some (0x20000038, h)" using demo_malloc [of 24] by auto
  then have "rt_calloc 3 8 demo_sys = Some (p, h') \<Longrightarrow> p = 0x20000038" for p h' by (auto simp: rt_calloc_def bind_eq_Some_conv)
  then show ?thesis using rt_calloc_zeroed [OF demo_sys_ok(1), of 3 8] by fastforce
qed

theorem rt_malloc_align_frees_witness:
  "\<exists>p h1 h2. rt_malloc_align 20 (2 ^ 4) demo_sys = Some (p, h1) \<and> unat p mod 16 = 0 \<and> rt_free_align p h1 = Some h2 \<and> sys_live h2 = {(0x20000010, 24)}"
proof -
  have "request_size 36 = 40" by (simp add: request_size_def RT_ALIGN_def RT_ALIGN_SIZE_def MIN_SIZE_ALIGNED_def)
  then obtain h where m: "rt_malloc 36 demo_sys = Some (0x20000038, h)" using demo_malloc [of 36] by auto
  have "rt_malloc_align 20 (2 ^ 4) demo_sys \<noteq> Some (0, demo_sys)" by (simp add: rt_malloc_align_def m bind_eq_Some_conv)
  then obtain p q n h1 where A: "rt_malloc_align 20 (2 ^ 4) demo_sys = Some (p, h1)" "sys_ok h1" "unat p mod 2 ^ 4 = 0" "(q, n) \<notin> sys_live demo_sys"
    "sys_live h1 = insert (q, n) (sys_live demo_sys)"
    "\<forall>h2. sys_ok h2 \<and> (q, n) \<in> sys_live h2 \<and> (\<forall>i<4. sh_mem h2 (unat p - 4 + i) = sh_mem h1 (unat p - 4 + i)) \<longrightarrow>
        (\<exists>h3. rt_free_align p h2 = Some h3 \<and> sys_ok h3 \<and> sys_live h3 = sys_live h2 - {(q, n)})"
    using rt_malloc_align_frees [OF demo_sys_ok(1), of 4 20] by auto
  obtain h3 where "rt_free_align p h1 = Some h3" "sys_live h3 = sys_live h1 - {(q, n)}" using A(2,5,6) by blast
  then show ?thesis using A(1,3,4,5) demo_sys_ok(2) by auto
qed

lemma rt_calloc_wraps: "rt_calloc 0x10000001 16 h = rt_calloc 1 16 h"
  \<comment> \<open>the product of the sizes is not checked\<close>
proof -
  have "(0x10000001 * 16 :: u32) = 1 * 16" by simp
  then show ?thesis unfolding rt_calloc_def by (rule arg_cong [where f = "\<lambda>n. do { (p, h) \<leftarrow> rt_malloc n h;
     if p \<noteq> 0 then do { mem \<leftarrow> rt_memset (unat p) 0 n (sh_mem h); Some (p, h\<lparr>sh_mem := mem\<rparr>) } else Some (p, h) }"])
qed

lemma rt_malloc_align_wraps: "rt_malloc 8 h = Some (0, h') \<Longrightarrow> rt_malloc_align 0xfffffff8 16 h = Some (0, h')"
  \<comment> \<open>nearly 4 GB are requested, but only eight bytes are taken from the heap\<close>
proof -
  assume m: "rt_malloc 8 h = Some (0, h')"
  have "((0xfffffff8 + 3 :: u32) AND NOT 3) + ((16 + 3) AND NOT 3) = 8" by simp
  then show ?thesis unfolding rt_malloc_align_def Let_def by (simp only: m bind.bind_lunit prod.case) simp
qed

end
