(* ===== verification/HeapClients.thy ===== *)
theory HeapClients
  imports SysHeap RingBuffer RingBlk
begin

text \<open>
  Objects made on the heap of the system: \<open>rt_ringbuffer_create\<close>, \<open>rt_rbb_create\<close> and their counterparts. Here the heap, the ring buffer and the
  block ring buffer meet: a creation that fails half-way gives back what it took, and destruction gives back the whole object. An object comes with the addresses of its
  parts; a structure on the heap is a record, apart from the bytes of the memory.
\<close>

definition sizeof_ringbuffer :: u32 where "sizeof_ringbuffer = 16"
definition sizeof_rbb :: u32 where "sizeof_rbb = 36"
definition sizeof_rbb_blk :: u32 where "sizeof_rbb_blk = 12"

record heap_ringbuffer =
  hr_self :: u32
  hr_pool :: u32
  hr_ring :: rt_ringbuffer

definition memory_at :: "u32 \<Rightarrow> u32 \<Rightarrow> sys_heap \<Rightarrow> u8 list" where
  "memory_at p n h = map (\<lambda>i. the (sh_mem h (unat p + i))) [0..<unat n]"

definition rt_ringbuffer_create :: "u32 \<Rightarrow> sys_heap \<Rightarrow> (heap_ringbuffer option \<times> sys_heap) option" where
  "rt_ringbuffer_create sz h = do {
     rt_assert (sz > 0);
     let sz = RT_ALIGN_DOWN sz RT_ALIGN_SIZE;
     (rb, h) \<leftarrow> rt_malloc sizeof_ringbuffer h;
     if rb = 0 then Some (None, h)
     else do {
       (pool, h) \<leftarrow> rt_malloc sz h;
       if pool = 0 then do {
         h \<leftarrow> rt_free rb h;
         Some (None, h)
       } else do {
         r \<leftarrow> rt_ringbuffer_init (memory_at pool sz h) sz;
         Some (Some \<lparr>hr_self = rb, hr_pool = pool, hr_ring = r\<rparr>, h)
       }
     }
   }"

definition rt_ringbuffer_destroy :: "heap_ringbuffer \<Rightarrow> sys_heap \<Rightarrow> sys_heap option" where
  "rt_ringbuffer_destroy rb h = do {
     h \<leftarrow> rt_free (hr_pool rb) h;
     rt_free (hr_self rb) h
   }"

record heap_rbb =
  hb_self :: u32
  hb_buf :: u32
  hb_blk_set :: u32
  hb_rbb :: rt_rbb

definition rt_rbb_create :: "u32 \<Rightarrow> u32 \<Rightarrow> rt_rbb \<Rightarrow> sys_heap \<Rightarrow> (heap_rbb option \<times> sys_heap) option" where
  \<comment> \<open>\<open>r\<close> is what the memory of the structures held before\<close>
  "rt_rbb_create buf_size blk_max_num r h = do {
     (rbb, h) \<leftarrow> rt_malloc sizeof_rbb h;
     if rbb = 0 then Some (None, h)
     else do {
       (buf, h) \<leftarrow> rt_malloc buf_size h;
       if buf = 0 then do {
         h \<leftarrow> rt_free rbb h;
         Some (None, h)
       } else do {
         (blk_set, h) \<leftarrow> rt_malloc (sizeof_rbb_blk * blk_max_num) h;
         if blk_set = 0 then do {
           h \<leftarrow> rt_free buf h;
           h \<leftarrow> rt_free rbb h;
           Some (None, h)
         } else do {
           r \<leftarrow> rt_rbb_init buf buf_size blk_max_num r;
           Some (Some \<lparr>hb_self = rbb, hb_buf = buf, hb_blk_set = blk_set, hb_rbb = r\<rparr>, h)
         }
       }
     }
   }"

definition rt_rbb_destroy :: "heap_rbb \<Rightarrow> sys_heap \<Rightarrow> sys_heap option" where
  "rt_rbb_destroy rbb h = do {
     h \<leftarrow> rt_free (hb_buf rbb) h;
     h \<leftarrow> rt_free (hb_blk_set rbb) h;
     rt_free (hb_self rbb) h
   }"


subsection \<open>Blocks taken and given back\<close>

definition holds_blocks :: "(u32 \<times> nat) list \<Rightarrow> (nat \<times> nat) set \<Rightarrow> sys_heap \<Rightarrow> bool" where
  \<comment> \<open>the blocks of the heap are \<open>others\<close> and, apart from them, these\<close>
  "holds_blocks bs others h \<longleftrightarrow> sys_ok h \<and> distinct (map (\<lambda>(p, n). (unat p, n)) bs) \<and> set (map (\<lambda>(p, n). (unat p, n)) bs) \<inter> others = {} \<and>
     sys_live h = others \<union> set (map (\<lambda>(p, n). (unat p, n)) bs)"

lemma holds_malloc:
  assumes "holds_blocks bs others h"
  shows "rt_malloc sz h = Some (0, h) \<or>
    (\<exists>p n h'. rt_malloc sz h = Some (p, h') \<and> p \<noteq> 0 \<and> request_size sz \<le> n \<and> unat p + n < 2 ^ 32 \<and> area (unat p) n (sh_mem h') \<and> sh_mem h' = sh_mem h \<and>
      holds_blocks ((p, n) # bs) others h')"
proof -
  have H: "sys_ok h" "distinct (map (\<lambda>(p, n). (unat p, n)) bs)" "set (map (\<lambda>(p, n). (unat p, n)) bs) \<inter> others = {}"
    "sys_live h = others \<union> set (map (\<lambda>(p, n). (unat p, n)) bs)" using assms by (simp_all add: holds_blocks_def)
  from malloc_run [OF H(1), of sz] show ?thesis
  proof (elim disjE exE conjE)
    fix p n h'
    assume A: "rt_malloc sz h = Some (p, h')" "sys_ok h'" "sh_mem h' = sh_mem h" "p \<noteq> 0" "request_size sz \<le> n" "(unat p, n) \<notin> sys_live h"
      "sys_live h' = insert (unat p, n) (sys_live h)" "unat p + n < 2 ^ 32" "area (unat p) n (sh_mem h)"
    have "holds_blocks ((p, n) # bs) others h'"
      unfolding holds_blocks_def using A(2,6,7) H(2-4) by (simp del: set_map)
    then show ?thesis using A(1,3-5,8,9) by (intro disjI2 exI [of _ p] exI [of _ n] exI [of _ h']) simp
  qed simp
qed

lemma holds_free:
  assumes "holds_blocks (xs @ (p, n) # ys) others h"
  shows "\<exists>h'. rt_free p h = Some h' \<and> holds_blocks (xs @ ys) others h'"
proof -
  have ok: "sys_ok h" "(unat p, n) \<in> sys_live h" using assms by (auto simp: holds_blocks_def)
  obtain h' where "rt_free p h = Some h'" "sys_ok h'" "sys_live h' = sys_live h - {(unat p, n)}" using free_run [OF ok] by blast
  then show ?thesis using assms by (auto simp: holds_blocks_def)
qed

lemma holds_nil: "sys_ok h \<Longrightarrow> holds_blocks [] (sys_live h) h"
  by (simp add: holds_blocks_def)


lemma sint_small_pos:
  assumes "unat (w :: u32) < 2 ^ 31" and "w \<noteq> 0"
  shows "sint w > 0"
proof -
  have u: "uint w = int (unat w)" by (rule uint_nat)
  have "unat w < 2147483648" using assms(1) by simp
  then have "uint w < 2147483648" using u by linarith
  moreover have "- (2 ^ 31) \<le> uint w" by (rule order_trans [of _ 0]) simp_all
  ultimately have "sint w = uint w" using signed_take_bit_int_eq_self [of 31 "uint w"] by (simp add: sint_uint)
  moreover have "uint w > 0" using assms(2) uint_ge_0 [of w] uint_0_iff [of w] by linarith
  ultimately show ?thesis by simp
qed

text \<open>
  A ring buffer on the heap: when the heap has no room for both parts, nothing stays allocated; otherwise the buffer is empty and well formed, its bytes are a block
  of their own, and whatever else has been allocated or released in between, destroying it gives back exactly its two blocks.
\<close>
theorem rt_ringbuffer_create_destroy:
  assumes "sys_ok h" and "8 \<le> unat sz" and "unat sz < 2 ^ 31"
  shows "(\<exists>h'. rt_ringbuffer_create sz h = Some (None, h') \<and> sys_ok h' \<and> sys_live h' = sys_live h) \<or>
    (\<exists>rb n k h'. rt_ringbuffer_create sz h = Some (Some rb, h') \<and> rb_wf (hr_ring rb) \<and> rb_content (hr_ring rb) = [] \<and>
      unat (rb_size (hr_ring rb)) \<le> n \<and> holds_blocks [(hr_pool rb, n), (hr_self rb, k)] (sys_live h) h' \<and>
      (\<forall>others h2. holds_blocks [(hr_pool rb, n), (hr_self rb, k)] others h2 \<longrightarrow>
        (\<exists>h3. rt_ringbuffer_destroy rb h2 = Some h3 \<and> sys_ok h3 \<and> sys_live h3 = others)))"
proof -
  let ?sz = "RT_ALIGN_DOWN sz RT_ALIGN_SIZE"
  have pos: "sz > 0" using assms(2) by (auto simp: word_gt_0)
  from holds_malloc [OF holds_nil [OF assms(1)], of sizeof_ringbuffer] show ?thesis
  proof (elim disjE exE conjE)
    assume "rt_malloc sizeof_ringbuffer h = Some (0, h)"
    then show ?thesis using pos assms(1) by (simp add: rt_ringbuffer_create_def)
  next
    fix rb k h1
    assume A: "rt_malloc sizeof_ringbuffer h = Some (rb, h1)" "rb \<noteq> 0" "holds_blocks [(rb, k)] (sys_live h) h1"
    from holds_malloc [OF A(3), of ?sz] show ?thesis
    proof (elim disjE exE conjE)
      assume none: "rt_malloc ?sz h1 = Some (0, h1)"
      from holds_free [of "[]" rb k "[]"] A(3) obtain h2 where "rt_free rb h1 = Some h2" "holds_blocks [] (sys_live h) h2" by auto
      then show ?thesis using A(1,2) none pos by (simp add: rt_ringbuffer_create_def holds_blocks_def)
    next
      fix pool n h2
      assume B: "rt_malloc ?sz h1 = Some (pool, h2)" "pool \<noteq> 0" "request_size ?sz \<le> n" "holds_blocks [(pool, n), (rb, k)] (sys_live h) h2"
      have len: "length (memory_at pool ?sz h2) = unat ?sz" by (simp add: memory_at_def)
      have le: "?sz \<le> sz" unfolding RT_ALIGN_DOWN_def by (rule word_and_le2)
      have sz0: "unat ?sz < 2 ^ 31" using le assms(3) by (simp add: word_le_nat_alt)
      have "?sz \<noteq> 0"
        using B(1,2) by (auto simp: rt_malloc_def rt_smem_alloc_def)
      then have "sint ?sz > 0" by (rule sint_small_pos [OF sz0])
      moreover have "RT_ALIGN_DOWN ?sz RT_ALIGN_SIZE = ?sz" by (rule bit_word_eqI) (auto simp: RT_ALIGN_DOWN_def bit_simps)
      ultimately obtain r where r: "rt_ringbuffer_init (memory_at pool ?sz h2) ?sz = Some r" "rb_size r = ?sz" by (simp add: rt_ringbuffer_init_def)
      have "8 \<le> unat ?sz" using \<open>?sz \<noteq> 0\<close> RT_ALIGN_DOWN_8_dvd [of sz] by (metis dvd_imp_le unat_gt_0)
      from rt_ringbuffer_init_wf [OF r(1) this sz0] len \<open>RT_ALIGN_DOWN ?sz RT_ALIGN_SIZE = ?sz\<close> have wf: "rb_wf r" "rb_content r = []" by simp_all
      let ?rb = "\<lparr>hr_self = rb, hr_pool = pool, hr_ring = r\<rparr>"
      have c: "rt_ringbuffer_create sz h = Some (Some ?rb, h2)" using A(1,2) B(1,2) r pos by (simp add: rt_ringbuffer_create_def Let_def)
      have d: "\<exists>h4. rt_ringbuffer_destroy ?rb h3 = Some h4 \<and> sys_ok h4 \<and> sys_live h4 = others"
        if "holds_blocks [(pool, n), (rb, k)] others h3" for others h3
      proof -
        obtain h4 where "rt_free pool h3 = Some h4" "holds_blocks [(rb, k)] others h4" using holds_free [of "[]" pool n "[(rb, k)]"] \<open>holds_blocks _ others h3\<close> by auto
        moreover from this(2) obtain h5 where "rt_free rb h4 = Some h5" "holds_blocks [] others h5" using holds_free [of "[]" rb k "[]"] by auto
        ultimately show ?thesis by (simp add: rt_ringbuffer_destroy_def holds_blocks_def)
      qed
      have "unat ?sz \<le> n" using request_size_ge [of ?sz] sz0 B(3) by (simp add: word_le_nat_alt)
      then show ?thesis using c wf B(4) d r(2)
        by (intro disjI2 exI [of _ ?rb] exI [of _ n] exI [of _ k] exI [of _ h2]) simp
    qed
  qed
qed

theorem rt_ringbuffer_create_destroy_witness:
  "\<exists>r h'. rt_ringbuffer_create 20 demo_sys = Some (r, h') \<and>
     (case r of None \<Rightarrow> sys_live h' = sys_live demo_sys | Some rb \<Rightarrow> rb_content (hr_ring rb) = [] \<and> rb_wf (hr_ring rb))"
  using rt_ringbuffer_create_destroy [OF demo_sys_ok(1), of 20] by fastforce

text \<open>
  C32. A block ring buffer on the heap: a creation that fails at any of its three allocations gives back what it took; otherwise there is no block in use, all
  descriptors are free, buffer and descriptors have blocks of their own, and destruction gives back exactly the three blocks.
\<close>
theorem rt_rbb_create_destroy:
  assumes "sys_ok h" and "unat buf_size \<le> 0xfffffff0" and "12 * unat blk_max_num \<le> 0xfffffff0"
  shows "(\<exists>h'. rt_rbb_create buf_size blk_max_num r h = Some (None, h') \<and> sys_ok h' \<and> sys_live h' = sys_live h) \<or>
    (\<exists>rbb i n k h'. rt_rbb_create buf_size blk_max_num r h = Some (Some rbb, h') \<and> rbb_rep (hb_rbb rbb) [] (rev [0..<unat blk_max_num]) \<and>
      unat buf_size \<le> n \<and> 12 * unat blk_max_num \<le> i \<and>
      holds_blocks [(hb_blk_set rbb, i), (hb_buf rbb, n), (hb_self rbb, k)] (sys_live h) h' \<and>
      (\<forall>others h2. holds_blocks [(hb_blk_set rbb, i), (hb_buf rbb, n), (hb_self rbb, k)] others h2 \<longrightarrow>
        (\<exists>h3. rt_rbb_destroy rbb h2 = Some h3 \<and> sys_ok h3 \<and> sys_live h3 = others)))"
proof -
  have bs: "unat (sizeof_rbb_blk * blk_max_num) = 12 * unat blk_max_num" using assms(3) by (simp add: sizeof_rbb_blk_def unat_word_ariths)
  from holds_malloc [OF holds_nil [OF assms(1)], of sizeof_rbb] show ?thesis
  proof (elim disjE exE conjE)
    assume "rt_malloc sizeof_rbb h = Some (0, h)"
    then show ?thesis using assms(1) by (simp add: rt_rbb_create_def)
  next
    fix rbb k h1
    assume A: "rt_malloc sizeof_rbb h = Some (rbb, h1)" "rbb \<noteq> 0" "holds_blocks [(rbb, k)] (sys_live h) h1"
    from holds_malloc [OF A(3), of buf_size] show ?thesis
    proof (elim disjE exE conjE)
      assume none: "rt_malloc buf_size h1 = Some (0, h1)"
      from holds_free [of "[]" rbb k "[]"] A(3) obtain h2 where "rt_free rbb h1 = Some h2" "holds_blocks [] (sys_live h) h2" by auto
      then show ?thesis using A(1,2) none by (simp add: rt_rbb_create_def holds_blocks_def)
    next
      fix buf n h2
      assume B: "rt_malloc buf_size h1 = Some (buf, h2)" "buf \<noteq> 0" "request_size buf_size \<le> n" "unat buf + n < 2 ^ 32"
        "holds_blocks [(buf, n), (rbb, k)] (sys_live h) h2"
      have n: "unat buf_size \<le> n" using request_size_ge [of buf_size] assms(2) B(3) by (simp add: word_le_nat_alt)
      from holds_malloc [OF B(5), of "sizeof_rbb_blk * blk_max_num"] show ?thesis
      proof (elim disjE exE conjE)
        assume none: "rt_malloc (sizeof_rbb_blk * blk_max_num) h2 = Some (0, h2)"
        obtain h3 where "rt_free buf h2 = Some h3" "holds_blocks [(rbb, k)] (sys_live h) h3" using holds_free [of "[]" buf n "[(rbb, k)]"] B(5) by auto
        moreover from this(2) obtain h4 where "rt_free rbb h3 = Some h4" "holds_blocks [] (sys_live h) h4" using holds_free [of "[]" rbb k "[]"] by auto
        ultimately show ?thesis using A(1,2) B(1,2) none by (simp add: rt_rbb_create_def holds_blocks_def)
      next
        fix set i h3
        assume C: "rt_malloc (sizeof_rbb_blk * blk_max_num) h2 = Some (set, h3)" "set \<noteq> 0" "request_size (sizeof_rbb_blk * blk_max_num) \<le> i"
          "holds_blocks [(set, i), (buf, n), (rbb, k)] (sys_live h) h3"
        have i: "12 * unat blk_max_num \<le> i" using request_size_ge [of "sizeof_rbb_blk * blk_max_num"] C(3) assms(3) bs by (simp add: word_le_nat_alt)
        have "unat buf + unat buf_size < 2 ^ 32" using n B(4) by linarith
        from rt_rbb_init_empty [OF this B(2)] obtain r' where r': "rt_rbb_init buf buf_size blk_max_num r = Some r'" "rbb_rep r' [] (rev [0..<unat blk_max_num])" by blast
        let ?rbb = "\<lparr>hb_self = rbb, hb_buf = buf, hb_blk_set = set, hb_rbb = r'\<rparr>"
        have d: "\<exists>h5. rt_rbb_destroy ?rbb h4 = Some h5 \<and> sys_ok h5 \<and> sys_live h5 = others" if "holds_blocks [(set, i), (buf, n), (rbb, k)] others h4" for others h4
        proof -
          obtain h5 where "rt_free buf h4 = Some h5" "holds_blocks [(set, i), (rbb, k)] others h5"
            using holds_free [of "[(set, i)]" buf n "[(rbb, k)]"] \<open>holds_blocks _ others h4\<close> by auto
          moreover from this(2) obtain h6 where "rt_free set h5 = Some h6" "holds_blocks [(rbb, k)] others h6" using holds_free [of "[]" set i "[(rbb, k)]"] by auto
          moreover from this(2) obtain h7 where "rt_free rbb h6 = Some h7" "holds_blocks [] others h7" using holds_free [of "[]" rbb k "[]"] by auto
          ultimately show ?thesis by (simp add: rt_rbb_destroy_def holds_blocks_def)
        qed
        have "rt_rbb_create buf_size blk_max_num r h = Some (Some ?rbb, h3)" using A(1,2) B(1,2) C(1,2) r'(1) by (simp add: rt_rbb_create_def)
        then show ?thesis using r'(2) n i C(4) d
          by (intro disjI2 exI [of _ ?rbb] exI [of _ i] exI [of _ n] exI [of _ k] exI [of _ h3]) simp
      qed
    qed
  qed
qed

theorem rt_rbb_create_destroy_witness:
  "\<forall>r. \<exists>b h'. rt_rbb_create 32 2 r demo_sys = Some (b, h') \<and> (case b of None \<Rightarrow> sys_live h' = sys_live demo_sys | Some rbb \<Rightarrow> rbb_rep (hb_rbb rbb) [] [1, 0])"
proof
  fix r
  have "rev [0..<unat (2 :: u32)] = [1, 0]" by (simp add: upt_rec)
  then show "\<exists>b h'. rt_rbb_create 32 2 r demo_sys = Some (b, h') \<and> (case b of None \<Rightarrow> sys_live h' = sys_live demo_sys | Some rbb \<Rightarrow> rbb_rep (hb_rbb rbb) [] [1, 0])"
    using rt_rbb_create_destroy [OF demo_sys_ok(1), of 32 2 r] by fastforce
qed

end
