(* ===== verification/Spec2Isabelle.thy ===== *)
theory Spec2Isabelle
  imports Prelude RtList KState Ffs SchedUp RtObject TimerOps SchedComm Demo SuspList ThreadOps Sem
    Mutex MutexInherit MutexDemo MutexOps MutexRelease
    TimerCheck Ticks FifoSpec IpcWait Mailbox MsgQueue Event MemPool
    AllocSpec SmallMem SmallMemRep SmallMemSteps SmallMemOps SmallMemApi ThreadExit
    KLibMem KLibStr RingBuffer Completion DataQueue WaitQueue WorkQueue SList RingBlk
    CTime Msh Shell KPrint SysHeap HeapClients
begin

text \<open>
  The kernel of the flight controller: RT-Thread (rt-thread/src), in the configuration of rtconfig.h: one processor,
  32 priorities, heap \<open>mem.c\<close>, software timers, semaphores, mutexes, events, mailboxes, message queues and
  memory pools; with the inter-process components of its drivers (components/drivers/ipc), the string routines of klibc, the calendar
  functions of its C library and its shell (components/finsh). The directories of the controller itself hold no code yet and the application only blinks lights, so the kernel is the program.

  Parts and their theories.

  \<^item> \<open>Prelude\<close>: words, results, lists, and the list store: a family of lists in which every node is on at most one list. It is
    what the kernel's intrusive \<open>rt_list_t\<close> rings amount to; \<open>RtList\<close> proves this for the pointer operations of rtservice.h.
  \<^item> \<open>KState\<close>: the records and constants of rtdef.h and rtsched.h, and the record of the whole kernel.
  \<^item> \<open>Ffs\<close>, \<open>SchedUp\<close>, \<open>SchedComm\<close>: \<open>__rt_ffs\<close>, the ready table with its bitmap, \<open>rt_schedule\<close>,
    critical sections (scheduler\_up.c), and the status, time slice and priority of a thread (scheduler\_comm.c). The
    invariants are \<open>sched_inv\<close> and, with timers and objects, \<open>kinv\<close>.
  \<^item> \<open>RtObject\<close>, \<open>TimerOps\<close>, \<open>TimerCheck\<close>, \<open>Ticks\<close>: object.c, timer.c, clock.c: containers of objects; sorted timer lists; the handling of
    expired timers; the tick interrupt.
  \<^item> \<open>SuspList\<close>, \<open>ThreadOps\<close>, \<open>ThreadExit\<close>: the suspend lists of ipc.c; thread.c and defunct.c.
  \<^item> \<open>Sem\<close>; \<open>Mutex\<close>, \<open>MutexInherit\<close>, \<open>MutexOps\<close>, \<open>MutexRelease\<close>; \<open>IpcWait\<close>, \<open>Mailbox\<close>, \<open>MsgQueue\<close>, \<open>Event\<close>: the rest of
    ipc.c. \<open>IpcWait\<close> has what all blocking calls share. The mutex invariant is \<open>minv\<close>: no waiter has a higher priority than the owner.
  \<^item> \<open>MemPool\<close> (mempool.c); \<open>SmallMem\<close>, \<open>SmallMemRep\<close>, \<open>SmallMemSteps\<close>, \<open>SmallMemOps\<close>, \<open>SmallMemApi\<close> (mem.c): the definitions,
    the list of blocks they represent, the effect of each step on it, the operations, and what clients see.
  \<^item> \<open>FifoSpec\<close> and \<open>AllocSpec\<close>: the contracts of a bounded queue with urgent insertion, interpreted by the ring of a mailbox, the linked
    cells of a message queue, the bytes of a ring buffer and the ring of a data queue, and of an allocator, interpreted by the heap and by the block ring
    buffer. \<open>Demo\<close>, \<open>MutexDemo\<close>: states used by concrete instances.
  \<^item> \<open>KLibMem\<close>, \<open>KLibStr\<close>: klibc/kstring.c over a memory of bytes.
  \<^item> \<open>RingBuffer\<close>, \<open>RingBlk\<close>, \<open>DataQueue\<close>, \<open>Completion\<close>, \<open>WaitQueue\<close>, \<open>WorkQueue\<close>: components/drivers/ipc, on the kernel above; \<open>SList\<close>: the
    singly linked list of rtservice.h, which the block ring buffer uses.
  \<^item> \<open>SysHeap\<close>: the heap of the system in kservice.c: \<open>rt_malloc\<close> and its relatives over mem.c and the memory of \<open>KLibMem\<close>; \<open>HeapClients\<close>: ring buffers and block
    ring buffers made on it.
  \<^item> \<open>CTime\<close>: ctime.c: calendar dates from seconds and back, time zones, the printed date.
  \<^item> \<open>KPrint\<close>: rt\_vsnprintf\_tiny.c: formatted output; \<open>format_text\<close> is what a format means, apart from any buffer.
  \<^item> \<open>Msh\<close>, \<open>Shell\<close>: msh.c and shell.c: splitting and running a command line, completion; the line editor with its history. \<open>editor\<close> is the abstract
    editor it implements.

  How the code is read. A function is a definition of the same name without a leading underscore; a thread, object or
  item is a number and a pointer is an \<open>option\<close>. A result \<open>None\<close> means that an assertion fails or a null pointer is followed; it is never a
  normal outcome, and the properties prove that it does not happen. A blocking call ends with its call of \<open>rt_schedule\<close>; the part that
  runs when the thread is scheduled again is the definition with the suffix \<open>_resume\<close>, and in between any other operation of the kernel may run.
  Interrupt masking is implicit: each definition is one step. Ticks, priorities, counters and sizes are words of their width
  and wrap. The loops that are not structural are \<open>partial_function (option)\<close> or \<open>function\<close>, with theorems that they end (there is no fuel,
  but for \<open>heap_walk\<close>, which reads a heap as a list: its fuel is the size of the heap, and every item takes 16 bytes of it).

  What the properties say. The scheduler keeps its table consistent and runs the highest priority, round-robin at equal priorities; timers
  fire in order and time-outs on time, also across the wrap of the tick counter; every branch of the calls of each
  IPC object, its error returns included, and what the woken threads see; semaphores, mailboxes and message queues implement their
  abstract objects; priority inheritance ends and leaves no inversion; the heap never hands out overlapping blocks, coalesces on release, and serves every
  well-behaved client; object lookup; the bounds of initialised memory. The buffers and queues of the drivers keep the order and the bytes; a signalled
  completion is not lost; a work is on one list and its waiters wake; dates agree with the Gregorian calendar and survive the way back; a command line
  runs the command it names with its arguments, and the editor shows what an editor has to show.

  Divergences found. Ending another thread leaves its mutexes locked; the test that wakes the timer thread fails at the wrap of the tick
  counter; huge sizes wrap in the heap; an empty pool area is written in front of; a released receiver gets a positive error code; an empty
  block overlaps others in the block ring buffer; days and months out of range and times before 1970 are misread by the calendar functions; the shell's line
  is left through the tabulator and through a long option; and smaller ones, listed in the manifest of the development.

  Not modelled. Stacks, registers, hooks and console output; the table-free variants of \<open>__rt_ffs\<close> (the compiler's instruction); the start-up code and the idle
  thread's hooks; the device framework, pipes and serial drivers, which end in registers of the board; the commands of the shell that only print; the heap memheap.c, which is
  compiled but which nothing uses; slab.c, the multiprocessor scheduler and signals (not configured); vendor libraries; file systems, user processes
  and networks (switched off).
\<close>

end
